(* ===== verification/Prelude.thy ===== *)
theory Prelude
  imports Main "HOL-Library.Word"
begin

text \<open>
  What the components share: the machine integer types, the outcome of a Rust call
  (\<open>Ok\<close>, \<open>Err\<close> or a panic), wrapping arithmetic on \<open>usize\<close>, first-fit search
  over the indices of an array, and the lowest set or clear bit of a word.

  Conventions. Bit patterns and addresses are words of their width. Counts and array indices,
  of Rust type \<open>usize\<close>, are natural numbers; where an addition or a subtraction on them could
  leave the 64-bit range the wrap-around of the release build (\<open>overflow-checks = false\<close>) is
  written out with \<open>uadd\<close> and \<open>usub\<close>. An array index out of range is \<open>Panic\<close>.
\<close>

unbundle bit_operations_syntax

type_synonym u8 = "8 word"
type_synonym u16 = "16 word"
type_synonym u32 = "32 word"
type_synonym u64 = "64 word"
type_synonym usize = nat

section \<open>Outcomes\<close>

datatype ('e, 'a) outcome = Ok 'a | Err 'e | Panic

definition is_ok :: "('e, 'a) outcome \<Rightarrow> bool" where
  "is_ok r = (case r of Ok _ \<Rightarrow> True | _ \<Rightarrow> False)"

lemma is_ok_simps [simp]:
  "is_ok (Ok a)" "\<not> is_ok (Err e)" "\<not> is_ok Panic"
  by (simp_all add: is_ok_def)

lemma is_ok_iff: "is_ok r \<longleftrightarrow> (\<exists>a. r = Ok a)"
  by (cases r) simp_all

section \<open>Wrapping arithmetic on usize\<close>

abbreviation usize_mod :: nat where
  "usize_mod \<equiv> 18446744073709551616"

definition usize_max :: usize where
  "usize_max = 18446744073709551615"

definition uadd :: "usize \<Rightarrow> usize \<Rightarrow> usize" where
  "uadd a b = (a + b) mod usize_mod"

definition usub :: "usize \<Rightarrow> usize \<Rightarrow> usize" where
  "usub a b = (a + (usize_mod - b mod usize_mod)) mod usize_mod"

lemma uadd_no_wrap [simp]: "a + b < usize_mod \<Longrightarrow> uadd a b = a + b"
  by (simp add: uadd_def)

lemma usub_no_wrap [simp]:
  assumes "b \<le> a" "a < usize_mod"
  shows "usub a b = a - b"
proof -
  have "usub a b = ((a - b) + usize_mod) mod usize_mod"
    using assms by (simp add: usub_def del: mod_add_self2)
  also have "\<dots> = a - b"
    using assms by (simp only: mod_add_self2) simp
  finally show ?thesis .
qed

lemma usub_wraps: "usub 0 1 = usize_max"
  by (simp add: usub_def usize_max_def)

section \<open>First-fit search over indices\<close>

text \<open>
  \<open>find_from P i n\<close> is the least index in \<open>i..<n\<close> that satisfies \<open>P\<close>, and \<open>n\<close>
  when there is none: the loop \<open>for j in i..n { if P(j) { return j } }\<close>.
\<close>

function find_from :: "(nat \<Rightarrow> bool) \<Rightarrow> nat \<Rightarrow> nat \<Rightarrow> nat" where
  "find_from P i n = (if i < n then if P i then i else find_from P (Suc i) n else n)"
  by pat_completeness auto
termination
  by (relation "measure (\<lambda>(P, i, n). n - i)") auto

declare find_from.simps [simp del]

lemma find_from_hit [simp]: "i < n \<Longrightarrow> P i \<Longrightarrow> find_from P i n = i"
  by (simp add: find_from.simps)

lemma find_from_miss [simp]: "i < n \<Longrightarrow> \<not> P i \<Longrightarrow> find_from P i n = find_from P (Suc i) n"
  by (simp add: find_from.simps)

lemma find_from_end [simp]: "n \<le> i \<Longrightarrow> find_from P i n = n"
  by (simp add: find_from.simps)

lemma find_from_le: "find_from P i n \<le> n"
proof (induction P i n rule: find_from.induct)
  case (1 P i n)
  then show ?case by (cases "i < n"; cases "P i") auto
qed

lemma find_from_ge: "i \<le> n \<Longrightarrow> i \<le> find_from P i n"
proof (induction P i n rule: find_from.induct)
  case (1 P i n)
  then show ?case by (cases "i < n"; cases "P i") auto
qed

lemma find_from_sat: "find_from P i n < n \<Longrightarrow> P (find_from P i n)"
proof (induction P i n rule: find_from.induct)
  case (1 P i n)
  then show ?case by (cases "i < n"; cases "P i") auto
qed

lemma find_from_before: "i \<le> j \<Longrightarrow> j < find_from P i n \<Longrightarrow> \<not> P j"
proof (induction "n - i" arbitrary: i)
  case 0
  then show ?case using find_from_le [of P i n] by simp
next
  case (Suc m)
  show ?case
  proof (cases "P i")
    case True
    with Suc.hyps(2) Suc.prems show ?thesis by simp
  next
    case False
    with Suc.hyps(2) Suc.prems(2) have "j < find_from P (Suc i) n" by simp
    with False Suc.hyps(1) [of "Suc i"] Suc.hyps(2) Suc.prems(1) show ?thesis
      by (cases "i = j") auto
  qed
qed

lemma find_from_eqI:
  assumes "i \<le> k" "k < n" "P k" "\<And>j. i \<le> j \<Longrightarrow> j < k \<Longrightarrow> \<not> P j"
  shows "find_from P i n = k"
proof (rule antisym)
  show le: "find_from P i n \<le> k"
  proof (rule leI, rule notI)
    assume "k < find_from P i n"
    then have "\<not> P k" by (rule find_from_before [OF assms(1)])
    with assms(3) show False by simp
  qed
  have "P (find_from P i n)"
    by (rule find_from_sat) (use le assms(2) in simp)
  moreover have "i \<le> find_from P i n"
    by (rule find_from_ge) (use assms(1,2) in simp)
  ultimately show "k \<le> find_from P i n"
    using assms(4) [of "find_from P i n"] by (cases "find_from P i n < k") auto
qed

lemma find_from_skip:
  assumes "i \<le> k" "\<And>j. i \<le> j \<Longrightarrow> j < k \<Longrightarrow> j < n \<Longrightarrow> \<not> P j"
  shows "find_from P i n = find_from P k n"
  using assms
proof (induction "k - i" arbitrary: i)
  case (Suc d)
  then have step: "find_from P (Suc i) n = find_from P k n" by (intro Suc.hyps(1)) auto
  show ?case
  proof (cases "i < n")
    case True
    then have "\<not> P i" using Suc.prems Suc.hyps(2) by simp
    with True step show ?thesis by simp
  next
    case False
    with Suc.prems show ?thesis by simp
  qed
qed simp

lemma find_from_less_iff: "find_from P i n < n \<longleftrightarrow> (\<exists>j. i \<le> j \<and> j < n \<and> P j)"
proof
  assume lt: "find_from P i n < n"
  then have "i \<le> n" by (metis find_from_end nat_le_linear less_irrefl)
  with lt show "\<exists>j. i \<le> j \<and> j < n \<and> P j"
    using find_from_sat find_from_ge by blast
next
  assume "\<exists>j. i \<le> j \<and> j < n \<and> P j"
  then obtain j where "i \<le> j" "j < n" "P j" by blast
  then show "find_from P i n < n"
    using find_from_before [of i j P n] by (meson leI le_less_trans)
qed

section \<open>Address arithmetic\<close>

lemma unat_of_nat_64: "n < usize_mod \<Longrightarrow> unat (of_nat n :: u64) = n"
  by (simp add: unsigned_of_nat take_bit_nat_eq_self)

lemma add32: "unat (a :: u32) + unat b < 2 ^ 32 \<Longrightarrow> unat (a + b) = unat a + unat b"
  by (simp add: unat_add_lem [THEN iffD1])

lemma min32: "unat (min a b) = min (unat a) (unat b)" for a b :: u32
  by (simp add: min_def word_le_nat_alt)

lemma sub32: "b \<le> a \<Longrightarrow> unat (a - b) = unat a - unat b" for a b :: u32
  by (simp add: unat_sub word_le_nat_alt)

lemma of_nat32: "n < 2 ^ 32 \<Longrightarrow> unat (of_nat n :: u32) = n"
  by (simp add: unsigned_of_nat take_bit_nat_eq_self)

lemma unat_u32_less: "unat (w :: u32) < 4294967296"
  using unsigned_less [of w] by simp

lemma unat_u16_less: "unat (w :: u16) < 65536"
  using unsigned_less [of w] by simp

lemma unat_u8_less: "unat (b :: u8) < 256"
  using unsigned_less [of b] by simp

lemma unat_add_of_nat:
  "unat (a :: u64) + n < usize_mod \<Longrightarrow> unat (a + of_nat n) = unat a + n"
  by (simp add: unat_word_ariths(1) unat_of_nat_64)

section \<open>Lowest set and lowest clear bit\<close>

definition trailing_zeros :: "'a::len word \<Rightarrow> nat" where
  "trailing_zeros w = find_from (bit w) 0 LENGTH('a)"

definition trailing_ones :: "'a::len word \<Rightarrow> nat" where
  "trailing_ones w = find_from (\<lambda>i. \<not> bit w i) 0 LENGTH('a)"

lemma word_nonzero_bit: "(w :: 'a::len word) \<noteq> 0 \<longleftrightarrow> (\<exists>j < LENGTH('a). bit w j)"
  by (metis bit_eq_iff bit_imp_le_length bit_0_eq bot_apply bot_bool_def possible_bit_word)

lemma trailing_zeros_less: "(w :: 'a::len word) \<noteq> 0 \<Longrightarrow> trailing_zeros w < LENGTH('a)"
  by (auto simp: trailing_zeros_def find_from_less_iff word_nonzero_bit)

lemma trailing_zeros_bit: "w \<noteq> 0 \<Longrightarrow> bit w (trailing_zeros w)"
  using trailing_zeros_less [of w] by (auto simp: trailing_zeros_def intro: find_from_sat)

lemma trailing_zeros_least: "j < trailing_zeros w \<Longrightarrow> \<not> bit w j"
  by (auto simp: trailing_zeros_def dest: find_from_before [OF le0])

lemma trailing_zeros_eqI:
  "bit w k \<Longrightarrow> (\<And>j. j < k \<Longrightarrow> \<not> bit w j) \<Longrightarrow> trailing_zeros w = k"
  unfolding trailing_zeros_def
  by (rule find_from_eqI) (auto dest: bit_imp_le_length)

lemma trailing_ones_le: "trailing_ones (w :: 'a::len word) \<le> LENGTH('a)"
  by (simp add: trailing_ones_def find_from_le)

lemma trailing_ones_clear:
  "trailing_ones (w :: 'a::len word) < LENGTH('a) \<Longrightarrow> \<not> bit w (trailing_ones w)"
  by (auto simp: trailing_ones_def dest: find_from_sat)

lemma trailing_ones_least: "j < trailing_ones w \<Longrightarrow> bit w j"
  by (auto simp: trailing_ones_def dest: find_from_before [OF le0])

lemma trailing_ones_less_iff:
  "trailing_ones (w :: 'a::len word) < LENGTH('a) \<longleftrightarrow> w \<noteq> - 1"
proof -
  have "trailing_ones w < LENGTH('a) \<longleftrightarrow> (\<exists>j < LENGTH('a). \<not> bit w j)"
    by (auto simp: trailing_ones_def find_from_less_iff)
  also have "\<dots> \<longleftrightarrow> w \<noteq> - 1"
    by (auto simp: bit_eq_iff [of w])
  finally show ?thesis .
qed

text \<open>
  Setting, clearing and testing one bit, as the code does it with a mask \<open>1 << k\<close>, whose
  simplified form is \<open>2 ^ k\<close>.
\<close>

lemma bit_or_mask: "bit (w OR 2 ^ k) j \<longleftrightarrow> bit w j \<or> (j = k \<and> k < LENGTH('a))"
  for w :: "'a::len word"
  by (auto simp: bit_or_iff bit_exp_iff)

lemma bit_and_not_mask: "bit (w AND NOT (2 ^ k)) j \<longleftrightarrow> bit w j \<and> j \<noteq> k"
  for w :: "'a::len word"
  by (auto simp: bit_and_iff bit_not_iff bit_exp_iff dest: bit_imp_le_length)

lemma and_mask_zero_iff: "w AND 2 ^ k = 0 \<longleftrightarrow> \<not> bit w k" if "k < LENGTH('a)"
  for w :: "'a::len word"
proof -
  have "bit (w AND 2 ^ k) j \<longleftrightarrow> j = k \<and> bit w k" for j
    using that by (auto simp: bit_and_iff bit_exp_iff)
  with that show ?thesis
    by (auto simp: bit_eq_iff [of _ 0])
qed

section \<open>First matches\<close>

text \<open>\<open>iter_mut().find(p)\<close> or a loop that returns after it: the first match is changed.\<close>

fun update_first :: "('a \<Rightarrow> bool) \<Rightarrow> ('a \<Rightarrow> 'a) \<Rightarrow> 'a list \<Rightarrow> 'a list" where
  "update_first P f [] = []"
| "update_first P f (x # xs) = (if P x then f x # xs else x # update_first P f xs)"

lemma find_split: "find P xs = Some x \<Longrightarrow> \<exists>ys zs. xs = ys @ x # zs \<and> (\<forall>y \<in> set ys. \<not> P y) \<and> P x"
proof (induction xs)
  case (Cons a xs)
  show ?case
  proof (cases "P a")
    case False
    then obtain ys zs where "xs = ys @ x # zs" "\<forall>y \<in> set ys. \<not> P y" "P x" using Cons by auto
    then have "a # xs = (a # ys) @ x # zs \<and> (\<forall>y \<in> set (a # ys). \<not> P y) \<and> P x" using False by simp
    then show ?thesis by blast
  next
    case True
    then have "a # xs = [] @ x # xs \<and> (\<forall>y \<in> set []. \<not> P y) \<and> P x" using Cons.prems by simp
    then show ?thesis by blast
  qed
qed simp

lemma update_first_none [simp]: "\<not> (\<exists>x \<in> set xs. P x) \<Longrightarrow> update_first P f xs = xs"
  by (induction xs) auto

lemma update_first_append: "\<forall>y \<in> set ys. \<not> P y \<Longrightarrow> P x \<Longrightarrow> update_first P f (ys @ x # zs) = ys @ f x # zs"
  by (induction ys) auto

lemma length_update_first [simp]: "length (update_first P f xs) = length xs"
  by (induction xs) auto

lemma split_first: "\<exists>x \<in> set xs. P x \<Longrightarrow> \<exists>ys x zs. xs = ys @ x # zs \<and> (\<forall>y \<in> set ys. \<not> P y) \<and> P x"
  using split_list_first_prop [of xs P] by blast

lemma length_filter_update_first:
  assumes "find P xs = Some x"
  shows "length (filter Q (update_first P f xs)) + of_bool (Q x) = length (filter Q xs) + of_bool (Q (f x))"
proof -
  obtain ys zs where "xs = ys @ x # zs" "\<forall>y \<in> set ys. \<not> P y" "P x"
    using find_split [OF assms] by blast
  then show ?thesis by (simp add: update_first_append)
qed

end
