(* ===== verification/KError.thy ===== *)
theory KError
  imports Prelude
begin

text \<open>
  The kernel's error hierarchy, \<open>kernel/src/error.rs\<close>. The subsystem enums share variant
  names with the top-level enum (and with each other), so their constructors carry the
  subsystem as a prefix; the top-level variants keep their names. The static string of
  \<open>InvalidParameter\<close> is kept, since callers tell errors apart by it.
\<close>

datatype MemoryError =
    MemOutOfMemory | MemInvalidAddress | MemInvalidAlignment | MemPermissionDenied
  | MemRegionNotFound | MemAlreadyMapped | MemNotMapped | MemAllocationFailed
  | MemInvalidSize | MemTooManyRegions | MemDoubleFree

datatype InterruptError =
    IrqNotInitialized | IrqInvalidIrq | IrqAlreadyRegistered | IrqNotRegistered
  | IrqHandlerFailed

datatype ProcessError =
    ProcInvalidProcessId | ProcProcessNotFound | ProcTooManyProcesses | ProcInvalidPriority
  | ProcAlreadyTerminated | ProcSpawnFailed

datatype DeviceError =
    DevNotInitialized | DevNotReady | DevTimeout | DevIoError | DevInvalidCommand
  | DevHardwareError

datatype SecurityError =
    SecPermissionDenied | SecInvalidCredentials | SecVerificationFailed | SecAccessDenied

datatype FilesystemError =
    FsNotFound | FsPermissionDenied | FsAlreadyExists | FsInvalidPath | FsIoError
  | FsCorruptedData

datatype NetworkError =
    NetNotConnected | NetTimeout | NetInvalidAddress | NetProtocolError
  | NetConnectionRefused

datatype KernelError =
    Memory MemoryError
  | Interrupt InterruptError
  | Process ProcessError
  | Filesystem FilesystemError
  | Network NetworkError
  | Device DeviceError
  | Security SecurityError
  | NotInitialized
  | InvalidParameter string
  | InvalidAddress
  | NotFound
  | NotSupported
  | Timeout
  | ResourceExhausted
  | OperationFailed
  | NotImplemented

type_synonym 'a kresult = "(KernelError, 'a) outcome"

end
