(* ===== verification/Interfaces.thy ===== *)
theory Interfaces
  imports KError
begin

text \<open>
  The contracts between components, as locales: a transition system with an invariant, an exclusive lock, a
  bounded first-in first-out queue, and a provider of physical pages. The theories of the
  components that provide them interpret them on the kernel's own definitions.
\<close>

section \<open>Transition systems\<close>

inductive reachable :: "('s \<Rightarrow> bool) \<Rightarrow> ('s \<Rightarrow> 's \<Rightarrow> bool) \<Rightarrow> 's \<Rightarrow> bool"
  for init :: "'s \<Rightarrow> bool" and step :: "'s \<Rightarrow> 's \<Rightarrow> bool"
where
  reach_init: "init s \<Longrightarrow> reachable init step s"
| reach_step: "reachable init step s \<Longrightarrow> step s t \<Longrightarrow> reachable init step t"

locale transition_system =
  fixes init :: "'s \<Rightarrow> bool"
    and step :: "'s \<Rightarrow> 's \<Rightarrow> bool"
    and inv :: "'s \<Rightarrow> bool"
  assumes init_inv: "init s \<Longrightarrow> inv s"
    and step_inv: "inv s \<Longrightarrow> step s t \<Longrightarrow> inv t"
begin

lemma reachable_inv: "reachable init step s \<Longrightarrow> inv s"
  by (induction rule: reachable.induct) (auto intro: init_inv step_inv)

end

section \<open>Exclusive locks\<close>

text \<open>
  A lock word and the threads inside the section it guards. Every step acquires the free lock
  for one thread, releases it for the thread inside, or changes neither.
\<close>

locale exclusive_lock =
  fixes init :: "'s \<Rightarrow> bool"
    and step :: "'s \<Rightarrow> 's \<Rightarrow> bool"
    and taken :: "'s \<Rightarrow> bool"
    and inside :: "'s \<Rightarrow> 't \<Rightarrow> bool"
  assumes init_free: "init s \<Longrightarrow> \<not> taken s \<and> \<not> inside s t"
    and step_lock: "step s s1 \<Longrightarrow>
      (\<exists>t. \<not> taken s \<and> taken s1 \<and> inside s1 = (inside s)(t := True)) \<or>
      (\<exists>t. inside s t \<and> \<not> taken s1 \<and> inside s1 = (inside s)(t := False)) \<or>
      (taken s1 = taken s \<and> inside s1 = inside s)"
begin

definition exclusive :: "'s \<Rightarrow> bool" where
  "exclusive s \<longleftrightarrow> (taken s \<longleftrightarrow> (\<exists>t. inside s t)) \<and> (\<forall>t u. inside s t \<longrightarrow> inside s u \<longrightarrow> t = u)"

lemma exclusive_step: "exclusive s \<Longrightarrow> step s s1 \<Longrightarrow> exclusive s1"
  using step_lock [of s s1] unfolding exclusive_def
  by (elim disjE exE conjE) (auto split: if_splits)

lemma reachable_exclusive: "reachable init step s \<Longrightarrow> exclusive s"
proof (induction rule: reachable.induct)
  case (reach_init s)
  then show ?case by (simp add: exclusive_def init_free)
qed (rule exclusive_step)

lemma mutual_exclusion: "reachable init step s \<Longrightarrow> inside s t \<Longrightarrow> inside s u \<Longrightarrow> t = u"
  using reachable_exclusive by (auto simp: exclusive_def)

lemma taken_iff: "reachable init step s \<Longrightarrow> taken s \<longleftrightarrow> (\<exists>t. inside s t)"
  using reachable_exclusive by (auto simp: exclusive_def)

end

section \<open>Bounded first-in first-out queues\<close>

datatype 'a fifo_op = Enq 'a | Deq

text \<open>
  A client's run over a queue: the accepted elements in order, the delivered elements in
  order, and the final queue. The queue's operations are arguments.
\<close>

fun fifo_run ::
  "('a \<Rightarrow> 'q \<Rightarrow> 'e kresult \<times> 'q) \<Rightarrow> ('q \<Rightarrow> 'a option kresult \<times> 'q) \<Rightarrow> 'q \<Rightarrow> 'a fifo_op list
    \<Rightarrow> 'a list \<times> 'a list \<times> 'q" where
  "fifo_run enq deq q [] = ([], [], q)"
| "fifo_run enq deq q (Enq x # ops) =
     (case enq x q of (r, q') \<Rightarrow>
        (case fifo_run enq deq q' ops of (acc, out, q'') \<Rightarrow>
           (if is_ok r then x # acc else acc, out, q'')))"
| "fifo_run enq deq q (Deq # ops) =
     (case deq q of (m, q') \<Rightarrow>
        (case fifo_run enq deq q' ops of (acc, out, q'') \<Rightarrow>
           (acc, (case m of Ok (Some x) \<Rightarrow> x # out | _ \<Rightarrow> out), q'')))"

locale bounded_fifo =
  fixes enq :: "'a \<Rightarrow> 'q \<Rightarrow> 'e kresult \<times> 'q"
    and deq :: "'q \<Rightarrow> 'a option kresult \<times> 'q"
    and contents :: "'q \<Rightarrow> 'a list"
    and inv :: "'q \<Rightarrow> bool"
    and cap :: nat
  assumes enq_room: "inv q \<Longrightarrow> length (contents q) < cap \<Longrightarrow>
            is_ok (fst (enq x q)) \<and> contents (snd (enq x q)) = contents q @ [x] \<and> inv (snd (enq x q))"
    and enq_full: "inv q \<Longrightarrow> cap \<le> length (contents q) \<Longrightarrow>
            \<not> is_ok (fst (enq x q)) \<and> snd (enq x q) = q"
    and deq_empty: "inv q \<Longrightarrow> contents q = [] \<Longrightarrow> deq q = (Ok None, q)"
    and deq_cons: "inv q \<Longrightarrow> contents q = x # xs \<Longrightarrow>
            fst (deq q) = Ok (Some x) \<and> contents (snd (deq q)) = xs \<and> inv (snd (deq q))"
    and within_cap: "inv q \<Longrightarrow> length (contents q) \<le> cap"
begin

lemma enq_inv: "inv q \<Longrightarrow> inv (snd (enq x q))"
  using enq_room [of q x] enq_full [of q x] by (cases "length (contents q) < cap") auto

lemma enq_contents:
  "inv q \<Longrightarrow> contents (snd (enq x q)) = (if is_ok (fst (enq x q)) then contents q @ [x] else contents q)"
  using enq_room [of q x] enq_full [of q x] by (cases "length (contents q) < cap") auto

lemma deq_inv: "inv q \<Longrightarrow> inv (snd (deq q))"
  using deq_empty [of q] deq_cons [of q] by (cases "contents q") auto

lemma deq_contents:
  "inv q \<Longrightarrow> contents q = (case fst (deq q) of Ok (Some x) \<Rightarrow> [x] | _ \<Rightarrow> []) @ contents (snd (deq q))"
  using deq_empty [of q] deq_cons [of q] by (cases "contents q") auto

text \<open>
  Whatever the interleaving of sends and receives: what was in the queue, followed by what
  was accepted, is what was delivered followed by what is left. Nothing is lost, duplicated
  or reordered.
\<close>

lemma fifo_order:
  "inv q \<Longrightarrow> fifo_run enq deq q ops = (acc, out, q') \<Longrightarrow>
     contents q @ acc = out @ contents q' \<and> inv q'"
proof (induction ops arbitrary: q acc out q')
  case Nil
  then show ?case by simp
next
  case (Cons op ops)
  show ?case
  proof (cases op)
    case (Enq x)
    obtain r q1 where e: "enq x q = (r, q1)" by (cases "enq x q")
    obtain acc1 out1 q2 where run: "fifo_run enq deq q1 ops = (acc1, out1, q2)"
      by (cases "fifo_run enq deq q1 ops")
    have "inv q1" using enq_inv [OF Cons.prems(1), of x] e by simp
    then have "contents q1 @ acc1 = out1 @ contents q2 \<and> inv q2"
      using run by (rule Cons.IH)
    with Cons.prems Enq e run enq_contents [OF Cons.prems(1), of x] show ?thesis
      by (auto split: if_splits)
  next
    case Deq
    obtain m q1 where d: "deq q = (m, q1)" by (cases "deq q")
    obtain acc1 out1 q2 where run: "fifo_run enq deq q1 ops = (acc1, out1, q2)"
      by (cases "fifo_run enq deq q1 ops")
    have "inv q1" using deq_inv [OF Cons.prems(1)] d by simp
    then have "contents q1 @ acc1 = out1 @ contents q2 \<and> inv q2"
      using run by (rule Cons.IH)
    with Cons.prems Deq d run deq_contents [OF Cons.prems(1)] show ?thesis
      by (auto split: outcome.splits option.splits)
  qed
qed

end

section \<open>Providers of physical pages\<close>

definition region :: "u64 \<Rightarrow> nat \<Rightarrow> nat set" where
  "region a len = {unat a ..< unat a + len}"

text \<open>
  What the heap and the page-table code rely on: a successful request for \<open>n\<close> pages returns
  an address range that nobody owned and that the provider now counts as owned.
\<close>

locale page_provider =
  fixes alloc :: "nat \<Rightarrow> 's \<Rightarrow> u64 kresult \<times> 's"
    and owned :: "'s \<Rightarrow> nat set"
    and inv :: "'s \<Rightarrow> bool"
  assumes alloc_ok: "inv s \<Longrightarrow> alloc n s = (Ok a, s') \<Longrightarrow>
            inv s' \<and> region a (n * 4096) \<inter> owned s = {} \<and>
            owned s' = owned s \<union> region a (n * 4096) \<and>
            4096 dvd unat a \<and> unat a + n * 4096 \<le> 2 ^ 64"
    and alloc_fail: "inv s \<Longrightarrow> alloc n s = (r, s') \<Longrightarrow> \<not> is_ok r \<Longrightarrow>
            inv s' \<and> owned s' = owned s"
begin

lemma alloc_disjoint:
  assumes "inv s" "alloc n s = (Ok a, s1)" "alloc m s1 = (Ok b, s2)"
  shows "region a (n * 4096) \<inter> region b (m * 4096) = {}"
  using alloc_ok [OF assms(1,2)] alloc_ok [of s1 m b s2] assms(3) by blast

lemma alloc_preserves: "inv s \<Longrightarrow> alloc n s = (r, s') \<Longrightarrow> inv s' \<and> owned s \<subseteq> owned s'"
  using alloc_ok [of s n _ s'] alloc_fail [of s n r s'] by (cases r) auto

end

section \<open>Pools of identifiers\<close>

text \<open>
  An allocator of identifiers: what it hands out was not held before and is held now, a refused request changes
  nothing, and a release drops exactly the identifier it names.
\<close>

locale id_pool =
  fixes alloc :: "'s \<Rightarrow> 'i option \<times> 's"
    and free :: "'i \<Rightarrow> 's \<Rightarrow> 's"
    and held :: "'s \<Rightarrow> 'i set"
    and inv :: "'s \<Rightarrow> bool"
  assumes alloc_fresh: "inv s \<Longrightarrow> alloc s = (Some i, s1) \<Longrightarrow> inv s1 \<and> i \<notin> held s \<and> held s1 = insert i (held s)"
    and alloc_none: "inv s \<Longrightarrow> alloc s = (None, s1) \<Longrightarrow> s1 = s"
    and free_drops: "inv s \<Longrightarrow> inv (free i s) \<and> held (free i s) = held s - {i}"
begin

lemma alloc_inv: "inv s \<Longrightarrow> inv (snd (alloc s))"
  using alloc_fresh [of s "the (fst (alloc s))" "snd (alloc s)"] alloc_none [of s "snd (alloc s)"]
  by (cases "alloc s"; cases "fst (alloc s)") simp_all

lemma alloc_held: "inv s \<Longrightarrow> held (snd (alloc s)) = set_option (fst (alloc s)) \<union> held s"
  using alloc_fresh [of s "the (fst (alloc s))" "snd (alloc s)"] alloc_none [of s "snd (alloc s)"]
  by (cases "alloc s"; cases "fst (alloc s)") simp_all

lemma two_allocs: "inv s \<Longrightarrow> alloc s = (Some i, s1) \<Longrightarrow> alloc s1 = (Some j, s2) \<Longrightarrow> i \<noteq> j"
  using alloc_fresh by blast

end

end
