(* ===== verification/Physical.thy ===== *)
theory Physical
  imports Interfaces
begin

text \<open>
  The bitmap page allocator, \<open>kernel/src/memory/physical.rs\<close>. The bitmap is the array of
  65536 64-bit words of the source, as a function from word indices (an index past the end
  is a panic); a set bit is an allocated page. The compare-and-swap of \<open>alloc_page\<close> is
  modelled where it succeeds at the first attempt, which is the run of a single caller.

  \<open>allocated\<close> is the abstract state, the set of allocated pages; \<open>phys_inv\<close> says that
  the free counter agrees with it. The operations are shown to allocate the lowest free page,
  to find a run of pages whenever there is one, to reject double frees and foreign addresses,
  and to keep the invariant.
\<close>

definition PAGE_SIZE :: usize where "PAGE_SIZE = 4096"
definition MAX_PAGES :: usize where "MAX_PAGES = 4 * 1024 * 1024"
definition BITMAP_WORDS :: usize where "BITMAP_WORDS = MAX_PAGES div 64"

lemma BITMAP_WORDS_eq: "BITMAP_WORDS = 65536"
  by (simp add: BITMAP_WORDS_def MAX_PAGES_def)

record PhysicalAllocator =
  bitmap :: "nat \<Rightarrow> u64"
  pa_total_pages :: usize
  pa_free_pages :: usize
  base_addr :: u64

definition phys_new :: "u64 \<Rightarrow> usize \<Rightarrow> PhysicalAllocator" where
  "phys_new base npages =
     \<lparr>bitmap = (\<lambda>_. 0), pa_total_pages = npages, pa_free_pages = npages, base_addr = base\<rparr>"

definition phys_init :: "PhysicalAllocator \<Rightarrow> unit kresult \<times> PhysicalAllocator" where
  "phys_init pa = (Ok (), pa\<lparr>bitmap := (\<lambda>i. if i < BITMAP_WORDS then 0 else bitmap pa i),
                              pa_free_pages := pa_total_pages pa\<rparr>)"

definition phys_is_aligned :: "u64 \<Rightarrow> bool" where
  "phys_is_aligned addr \<longleftrightarrow> addr mod 4096 = 0"

definition phys_page_number :: "u64 \<Rightarrow> usize" where
  "phys_page_number addr = unat addr div PAGE_SIZE"

section \<open>Single bits\<close>

definition is_page_free :: "PhysicalAllocator \<Rightarrow> usize \<Rightarrow> bool kresult" where
  "is_page_free pa page =
     (let word_idx = page div 64; bit_idx = page mod 64
      in if word_idx < BITMAP_WORDS
         then Ok (bitmap pa word_idx AND push_bit bit_idx 1 = 0)
         else Panic)"

definition mark_page_allocated ::
  "PhysicalAllocator \<Rightarrow> usize \<Rightarrow> unit kresult \<times> PhysicalAllocator" where
  "mark_page_allocated pa page =
     (let word_idx = page div 64; bit_idx = page mod 64; mask = push_bit bit_idx 1
      in if word_idx < BITMAP_WORDS
         then (Ok (), pa\<lparr>bitmap := (bitmap pa)(word_idx := bitmap pa word_idx OR mask)\<rparr>)
         else (Panic, pa))"

definition mark_page_free ::
  "PhysicalAllocator \<Rightarrow> usize \<Rightarrow> unit kresult \<times> PhysicalAllocator" where
  "mark_page_free pa page =
     (let word_idx = page div 64; bit_idx = page mod 64; mask = NOT (push_bit bit_idx 1)
      in if word_idx < BITMAP_WORDS
         then (Ok (), pa\<lparr>bitmap := (bitmap pa)(word_idx := bitmap pa word_idx AND mask)\<rparr>)
         else (Panic, pa))"

definition addr_to_page :: "PhysicalAllocator \<Rightarrow> u64 \<Rightarrow> usize kresult" where
  "addr_to_page pa addr =
     (if addr < base_addr pa then Err (Memory MemInvalidAddress)
      else let page = unat (addr - base_addr pa) div PAGE_SIZE
           in if page \<ge> pa_total_pages pa then Err (Memory MemInvalidAddress) else Ok page)"

text \<open>\<open>base + page_num * PAGE_SIZE\<close>, wrapping.\<close>

definition page_addr :: "PhysicalAllocator \<Rightarrow> usize \<Rightarrow> u64" where
  "page_addr pa page_num = base_addr pa + word_of_nat (page_num * PAGE_SIZE)"

section \<open>Allocation\<close>

function alloc_page_from :: "PhysicalAllocator \<Rightarrow> usize \<Rightarrow> u64 kresult \<times> PhysicalAllocator" where
  "alloc_page_from pa word_idx =
     (if word_idx < BITMAP_WORDS then
        let current = bitmap pa word_idx in
        if current = - 1 then alloc_page_from pa (Suc word_idx)
        else let bit_idx = trailing_ones current in
          if bit_idx \<ge> 64 then alloc_page_from pa (Suc word_idx)
          else let mask = push_bit bit_idx 1;
                   new = current OR mask;
                   pa1 = pa\<lparr>bitmap := (bitmap pa)(word_idx := new)\<rparr>;
                   page_num = word_idx * 64 + bit_idx
               in if page_num \<ge> pa_total_pages pa then (Err (Memory MemOutOfMemory), pa1)
                  else (Ok (page_addr pa page_num),
                        pa1\<lparr>pa_free_pages := usub (pa_free_pages pa) 1\<rparr>)
      else (Err (Memory MemOutOfMemory), pa))"
  by pat_completeness auto
termination
  by (relation "measure (\<lambda>(pa, w). BITMAP_WORDS - w)") auto

declare alloc_page_from.simps [simp del]

definition alloc_page :: "PhysicalAllocator \<Rightarrow> u64 kresult \<times> PhysicalAllocator" where
  "alloc_page pa =
     (if pa_free_pages pa = 0 then (Err (Memory MemOutOfMemory), pa)
      else alloc_page_from pa 0)"

text \<open>The scan of \<open>alloc_pages\<close>: the start of the first run of \<open>count\<close> free pages.\<close>

function run_scan ::
  "PhysicalAllocator \<Rightarrow> usize \<Rightarrow> usize \<Rightarrow> usize option \<Rightarrow> usize \<Rightarrow> usize option kresult" where
  "run_scan pa count page start_page consecutive =
     (if page < pa_total_pages pa then
        (case is_page_free pa page of
           Ok True \<Rightarrow>
             let start_page = (if consecutive = 0 then Some page else start_page);
                 consecutive = consecutive + 1
             in if consecutive = count
                then (case start_page of Some start \<Rightarrow> Ok (Some start) | None \<Rightarrow> Panic)
                else run_scan pa count (Suc page) start_page consecutive
         | Ok False \<Rightarrow> run_scan pa count (Suc page) None 0
         | Err e \<Rightarrow> Err e
         | Panic \<Rightarrow> Panic)
      else Ok None)"
  by pat_completeness auto
termination
  by (relation "measure (\<lambda>(pa, c, page, s, k). pa_total_pages pa - page)") auto

declare run_scan.simps [simp del]

text \<open>\<open>for i in 0..count { mark(start + i)?; }\<close>\<close>

primrec for_pages ::
  "(PhysicalAllocator \<Rightarrow> usize \<Rightarrow> unit kresult \<times> PhysicalAllocator)
    \<Rightarrow> PhysicalAllocator \<Rightarrow> usize \<Rightarrow> nat \<Rightarrow> unit kresult \<times> PhysicalAllocator" where
  "for_pages mark pa page 0 = (Ok (), pa)"
| "for_pages mark pa page (Suc n) =
     (case mark pa page of
        (Ok _, pa1) \<Rightarrow> for_pages mark pa1 (Suc page) n
      | (r, pa1) \<Rightarrow> (r, pa1))"

definition alloc_pages :: "PhysicalAllocator \<Rightarrow> usize \<Rightarrow> u64 kresult \<times> PhysicalAllocator" where
  "alloc_pages pa count =
     (if count = 0 then (Err (InvalidParameter ''count must be > 0''), pa)
      else if count = 1 then alloc_page pa
      else if pa_free_pages pa < count then (Err (Memory MemOutOfMemory), pa)
      else case run_scan pa count 0 None 0 of
             Ok (Some start) \<Rightarrow>
               (case for_pages mark_page_allocated pa start count of
                  (Ok _, pa1) \<Rightarrow>
                    (Ok (page_addr pa start),
                     pa1\<lparr>pa_free_pages := usub (pa_free_pages pa1) count\<rparr>)
                | (Err e, pa1) \<Rightarrow> (Err e, pa1)
                | (Panic, pa1) \<Rightarrow> (Panic, pa1))
           | Ok None \<Rightarrow> (Err (Memory MemOutOfMemory), pa)
           | Err e \<Rightarrow> (Err e, pa)
           | Panic \<Rightarrow> (Panic, pa))"

section \<open>Release\<close>

definition free_page :: "PhysicalAllocator \<Rightarrow> u64 \<Rightarrow> unit kresult \<times> PhysicalAllocator" where
  "free_page pa addr =
     (if \<not> phys_is_aligned addr then (Err (Memory MemInvalidAlignment), pa)
      else case addr_to_page pa addr of
             Err e \<Rightarrow> (Err e, pa)
           | Panic \<Rightarrow> (Panic, pa)
           | Ok page_num \<Rightarrow>
               (case is_page_free pa page_num of
                  Err e \<Rightarrow> (Err e, pa)
                | Panic \<Rightarrow> (Panic, pa)
                | Ok True \<Rightarrow> (Err (Memory MemDoubleFree), pa)
                | Ok False \<Rightarrow>
                    (case mark_page_free pa page_num of
                       (Ok _, pa1) \<Rightarrow>
                         (Ok (), pa1\<lparr>pa_free_pages := uadd (pa_free_pages pa1) 1\<rparr>)
                     | (r, pa1) \<Rightarrow> (r, pa1))))"

text \<open>\<open>for i in 0..count { if is_page_free(start + i) { return Err(DoubleFree) } }\<close>\<close>

primrec check_allocated :: "PhysicalAllocator \<Rightarrow> usize \<Rightarrow> nat \<Rightarrow> unit kresult" where
  "check_allocated pa page 0 = Ok ()"
| "check_allocated pa page (Suc n) =
     (case is_page_free pa page of
        Ok True \<Rightarrow> Err (Memory MemDoubleFree)
      | Ok False \<Rightarrow> check_allocated pa (Suc page) n
      | Err e \<Rightarrow> Err e
      | Panic \<Rightarrow> Panic)"

definition free_pages ::
  "PhysicalAllocator \<Rightarrow> u64 \<Rightarrow> usize \<Rightarrow> unit kresult \<times> PhysicalAllocator" where
  "free_pages pa addr count =
     (if count = 0 then (Err (InvalidParameter ''count must be > 0''), pa)
      else if \<not> phys_is_aligned addr then (Err (Memory MemInvalidAlignment), pa)
      else case addr_to_page pa addr of
             Err e \<Rightarrow> (Err e, pa)
           | Panic \<Rightarrow> (Panic, pa)
           | Ok start_page \<Rightarrow>
               (case check_allocated pa start_page count of
                  Ok _ \<Rightarrow>
                    (case for_pages mark_page_free pa start_page count of
                       (Ok _, pa1) \<Rightarrow>
                         (Ok (), pa1\<lparr>pa_free_pages := uadd (pa_free_pages pa1) count\<rparr>)
                     | (r, pa1) \<Rightarrow> (r, pa1))
                | Err e \<Rightarrow> (Err e, pa)
                | Panic \<Rightarrow> (Panic, pa)))"

section \<open>Abstract state and invariant\<close>

definition page_used :: "PhysicalAllocator \<Rightarrow> nat \<Rightarrow> bool" where
  "page_used pa p \<longleftrightarrow> bit (bitmap pa (p div 64)) (p mod 64)"

definition allocated :: "PhysicalAllocator \<Rightarrow> nat set" where
  "allocated pa = {p. p < MAX_PAGES \<and> page_used pa p}"

definition phys_inv :: "PhysicalAllocator \<Rightarrow> bool" where
  "phys_inv pa \<longleftrightarrow>
     pa_total_pages pa \<le> MAX_PAGES \<and>
     allocated pa \<subseteq> {..<pa_total_pages pa} \<and>
     pa_free_pages pa = pa_total_pages pa - card (allocated pa) \<and>
     4096 dvd unat (base_addr pa) \<and>
     unat (base_addr pa) + pa_total_pages pa * 4096 \<le> 2 ^ 64"

section \<open>Single bits, abstractly\<close>

lemma word_index_iff: "p div 64 < BITMAP_WORDS \<longleftrightarrow> p < MAX_PAGES"
  by (auto simp: BITMAP_WORDS_eq MAX_PAGES_def)

lemma same_bit_iff: "q div 64 = p div 64 \<and> q mod 64 = p mod 64 \<longleftrightarrow> q = (p :: nat)"
  by (metis div_mult_mod_eq)

lemma allocated_cong [simp]:
  "allocated (pa\<lparr>pa_free_pages := n\<rparr>) = allocated pa"
  by (simp add: allocated_def page_used_def)

lemma allocated_less: "p \<in> allocated pa \<Longrightarrow> p < MAX_PAGES"
  by (simp add: allocated_def)

lemma finite_allocated [simp]: "finite (allocated pa)"
  by (rule finite_subset [of _ "{..<MAX_PAGES}"]) (auto dest: allocated_less)

lemma is_page_free_eq:
  "is_page_free pa p = (if p < MAX_PAGES then Ok (p \<notin> allocated pa) else Panic)"
  by (auto simp: is_page_free_def Let_def word_index_iff allocated_def page_used_def and_mask_zero_iff)

lemma mark_page_allocated_eq:
  assumes "p < MAX_PAGES"
  obtains pa1 where "mark_page_allocated pa p = (Ok (), pa1)"
    "allocated pa1 = insert p (allocated pa)" "pa_total_pages pa1 = pa_total_pages pa"
    "pa_free_pages pa1 = pa_free_pages pa" "base_addr pa1 = base_addr pa"
proof -
  let ?pa1 = "pa\<lparr>bitmap := (bitmap pa)(p div 64 := bitmap pa (p div 64) OR push_bit (p mod 64) 1)\<rparr>"
  have "page_used ?pa1 q \<longleftrightarrow> page_used pa q \<or> q = p" for q
    using same_bit_iff [of q p] by (auto simp: page_used_def bit_or_mask)
  then have "allocated ?pa1 = insert p (allocated pa)"
    using assms by (auto simp: allocated_def)
  with assms that [of ?pa1] show ?thesis
    by (simp add: mark_page_allocated_def Let_def word_index_iff)
qed

lemma mark_page_free_eq:
  assumes "p < MAX_PAGES"
  obtains pa1 where "mark_page_free pa p = (Ok (), pa1)"
    "allocated pa1 = allocated pa - {p}" "pa_total_pages pa1 = pa_total_pages pa"
    "pa_free_pages pa1 = pa_free_pages pa" "base_addr pa1 = base_addr pa"
proof -
  let ?pa1 = "pa\<lparr>bitmap := (bitmap pa)(p div 64 := bitmap pa (p div 64) AND NOT (push_bit (p mod 64) 1))\<rparr>"
  have "page_used ?pa1 q \<longleftrightarrow> page_used pa q \<and> q \<noteq> p" for q
    using same_bit_iff [of q p] by (auto simp: page_used_def bit_and_not_mask)
  then have "allocated ?pa1 = allocated pa - {p}"
    by (auto simp: allocated_def)
  with assms that [of ?pa1] show ?thesis
    by (simp add: mark_page_free_def Let_def word_index_iff)
qed

lemma for_pages_allocate:
  assumes "p + n \<le> MAX_PAGES"
  obtains pa1 where "for_pages mark_page_allocated pa p n = (Ok (), pa1)"
    "allocated pa1 = allocated pa \<union> {p..<p + n}" "pa_total_pages pa1 = pa_total_pages pa"
    "pa_free_pages pa1 = pa_free_pages pa" "base_addr pa1 = base_addr pa"
  using assms
proof (induction n arbitrary: p pa thesis)
  case 0
  then show ?case by simp
next
  case (Suc n)
  have "p < MAX_PAGES" "Suc p + n \<le> MAX_PAGES" using Suc.prems(2) by simp_all
  obtain pa1 where 1: "mark_page_allocated pa p = (Ok (), pa1)"
    "allocated pa1 = insert p (allocated pa)" "pa_total_pages pa1 = pa_total_pages pa"
    "pa_free_pages pa1 = pa_free_pages pa" "base_addr pa1 = base_addr pa"
    using mark_page_allocated_eq [OF \<open>p < MAX_PAGES\<close>] by blast
  obtain pa2 where 2: "for_pages mark_page_allocated pa1 (Suc p) n = (Ok (), pa2)"
    "allocated pa2 = allocated pa1 \<union> {Suc p..<Suc p + n}" "pa_total_pages pa2 = pa_total_pages pa1"
    "pa_free_pages pa2 = pa_free_pages pa1" "base_addr pa2 = base_addr pa1"
    using Suc.IH [OF _ \<open>Suc p + n \<le> MAX_PAGES\<close>] by blast
  have "{p..<p + Suc n} = insert p {Suc p..<Suc p + n}" by auto
  with 1 2 Suc.prems(1) [of pa2] show ?case by auto
qed

lemma for_pages_free:
  assumes "p + n \<le> MAX_PAGES"
  obtains pa1 where "for_pages mark_page_free pa p n = (Ok (), pa1)"
    "allocated pa1 = allocated pa - {p..<p + n}" "pa_total_pages pa1 = pa_total_pages pa"
    "pa_free_pages pa1 = pa_free_pages pa" "base_addr pa1 = base_addr pa"
  using assms
proof (induction n arbitrary: p pa thesis)
  case 0
  then show ?case by simp
next
  case (Suc n)
  have "p < MAX_PAGES" "Suc p + n \<le> MAX_PAGES" using Suc.prems(2) by simp_all
  obtain pa1 where 1: "mark_page_free pa p = (Ok (), pa1)"
    "allocated pa1 = allocated pa - {p}" "pa_total_pages pa1 = pa_total_pages pa"
    "pa_free_pages pa1 = pa_free_pages pa" "base_addr pa1 = base_addr pa"
    using mark_page_free_eq [OF \<open>p < MAX_PAGES\<close>] by blast
  obtain pa2 where 2: "for_pages mark_page_free pa1 (Suc p) n = (Ok (), pa2)"
    "allocated pa2 = allocated pa1 - {Suc p..<Suc p + n}" "pa_total_pages pa2 = pa_total_pages pa1"
    "pa_free_pages pa2 = pa_free_pages pa1" "base_addr pa2 = base_addr pa1"
    using Suc.IH [OF _ \<open>Suc p + n \<le> MAX_PAGES\<close>] by blast
  have "{p..<p + Suc n} = insert p {Suc p..<Suc p + n}" by auto
  with 1 2 Suc.prems(1) [of pa2] show ?case by auto
qed

lemma check_allocated_eq:
  "p + n \<le> MAX_PAGES \<Longrightarrow>
     check_allocated pa p n =
       (if {p..<p + n} \<subseteq> allocated pa then Ok () else Err (Memory MemDoubleFree))"
proof (induction n arbitrary: p)
  case 0
  then show ?case by simp
next
  case (Suc n)
  have "{p..<p + Suc n} = insert p {Suc p..<Suc p + n}" by auto
  with Suc show ?case by (auto simp: is_page_free_eq split: bool.splits)
qed

section \<open>alloc_page takes the lowest free page\<close>

text \<open>The whole allocator after one more page is marked: what both branches build.\<close>

lemma word_all_used:
  "(\<And>b. b < 64 \<Longrightarrow> page_used pa (w * 64 + b)) \<Longrightarrow> bitmap pa w = - 1"
  by (rule bit_word_eqI) (auto simp: page_used_def)

lemma trailing_ones_page:
  assumes "\<not> page_used pa p" "\<And>q. p div 64 * 64 \<le> q \<Longrightarrow> q < p \<Longrightarrow> page_used pa q"
  shows "trailing_ones (bitmap pa (p div 64)) = p mod 64"
  unfolding trailing_ones_def
proof (rule find_from_eqI)
  show "\<not> bit (bitmap pa (p div 64)) (p mod 64)"
    using assms(1) by (simp add: page_used_def)
  fix j assume "j < p mod 64"
  then have "p div 64 * 64 + j < p" by (metis add_less_cancel_left div_mult_mod_eq)
  with assms(2) [of "p div 64 * 64 + j"] \<open>j < p mod 64\<close>
  show "\<not> \<not> bit (bitmap pa (p div 64)) j"
    by (simp add: page_used_def)
qed simp_all

lemma alloc_page_from_lowest:
  assumes free: "p < MAX_PAGES" "p \<notin> allocated pa"
    and below: "\<And>q. q < p \<Longrightarrow> q \<in> allocated pa"
    and w: "w \<le> p div 64"
  shows "alloc_page_from pa w =
    (let pa1 = snd (mark_page_allocated pa p)
     in if p \<ge> pa_total_pages pa then (Err (Memory MemOutOfMemory), pa1)
        else (Ok (page_addr pa p), pa1\<lparr>pa_free_pages := usub (pa_free_pages pa) 1\<rparr>))"
  using w
proof (induction "p div 64 - w" arbitrary: w)
  case 0
  then have w: "w = p div 64" by simp
  have np: "\<not> page_used pa p" using free by (simp add: allocated_def)
  have tr: "trailing_ones (bitmap pa (p div 64)) = p mod 64"
    by (rule trailing_ones_page [OF np]) (use below in \<open>auto simp: allocated_def\<close>)
  have "bitmap pa (p div 64) \<noteq> - 1" using np by (auto simp: page_used_def)
  moreover have "p div 64 < BITMAP_WORDS" using free(1) by (simp add: word_index_iff)
  moreover have "\<not> 64 \<le> p mod 64" by simp
  ultimately show ?case
    unfolding w by (subst alloc_page_from.simps) (simp add: tr Let_def mark_page_allocated_def)
next
  case (Suc m)
  then have lt: "w < p div 64" by simp
  have "page_used pa (w * 64 + b)" if "b < 64" for b
  proof -
    have "Suc w * 64 \<le> p div 64 * 64" using lt by (intro mult_le_mono1) simp
    also have "\<dots> \<le> p" by simp
    finally have "w * 64 + b < p" using that by simp
    then show ?thesis using below by (auto simp: allocated_def)
  qed
  then have "bitmap pa w = - 1" by (rule word_all_used)
  moreover have "w < BITMAP_WORDS" using lt free(1) word_index_iff [of p] by simp
  ultimately have "alloc_page_from pa w = alloc_page_from pa (Suc w)"
    by (subst alloc_page_from.simps) simp
  with Suc show ?case by simp
qed

lemma inv_free_page_exists:
  assumes "phys_inv pa" "pa_free_pages pa \<noteq> 0"
  obtains p where "p < pa_total_pages pa" "p \<notin> allocated pa" "\<And>q. q < p \<Longrightarrow> q \<in> allocated pa"
proof -
  have "card (allocated pa) < card {..<pa_total_pages pa}"
    using assms by (simp add: phys_inv_def)
  then have "\<not> {..<pa_total_pages pa} \<subseteq> allocated pa"
    using card_mono [OF finite_allocated, of "{..<pa_total_pages pa}" pa] by linarith
  then obtain r where r: "r < pa_total_pages pa" "r \<notin> allocated pa" by blast
  let ?p = "LEAST q. q \<notin> allocated pa"
  have "?p \<notin> allocated pa" using r(2) by (rule LeastI)
  moreover have "?p \<le> r" using r(2) by (rule Least_le)
  moreover have "q \<in> allocated pa" if "q < ?p" for q using not_less_Least [OF that] by blast
  ultimately show ?thesis using that [of ?p] r(1) le_less_trans by blast
qed

lemma inv_insert:
  assumes "phys_inv pa" "allocated pa1 = allocated pa \<union> A" "A \<subseteq> {..<pa_total_pages pa}"
    "A \<inter> allocated pa = {}" "pa_total_pages pa1 = pa_total_pages pa" "base_addr pa1 = base_addr pa"
    "pa_free_pages pa1 = pa_free_pages pa - card A"
  shows "phys_inv pa1"
proof -
  have "finite A" using assms(3) finite_subset by blast
  then have "card (allocated pa1) = card (allocated pa) + card A"
    using assms(2,4) by (simp add: card_Un_disjoint Int_commute)
  then show ?thesis using assms by (auto simp: phys_inv_def)
qed

lemma inv_remove:
  assumes "phys_inv pa" "allocated pa1 = allocated pa - A" "A \<subseteq> allocated pa"
    "pa_total_pages pa1 = pa_total_pages pa" "base_addr pa1 = base_addr pa"
    "pa_free_pages pa1 = pa_free_pages pa + card A"
  shows "phys_inv pa1"
proof -
  have "finite A" by (rule finite_subset [OF assms(3)]) simp
  then have "card (allocated pa1) = card (allocated pa) - card A" "card A \<le> card (allocated pa)"
    using assms(2,3) by (simp_all add: card_Diff_subset card_mono)
  moreover have "card (allocated pa) \<le> pa_total_pages pa"
    using assms(1) card_mono [of "{..<pa_total_pages pa}" "allocated pa"] by (simp add: phys_inv_def)
  ultimately show ?thesis using assms by (auto simp: phys_inv_def)
qed

lemma inv_counts:
  "phys_inv pa \<Longrightarrow> pa_free_pages pa \<le> MAX_PAGES \<and> pa_total_pages pa \<le> MAX_PAGES \<and>
     card (allocated pa) \<le> pa_total_pages pa"
  using card_mono [of "{..<pa_total_pages pa}" "allocated pa"] by (auto simp: phys_inv_def)

lemma alloc_page_lowest:
  assumes inv: "phys_inv pa" and free: "pa_free_pages pa \<noteq> 0"
  obtains p pa1 where "alloc_page pa = (Ok (page_addr pa p), pa1)"
    "p < pa_total_pages pa" "p \<notin> allocated pa" "\<And>q. q < p \<Longrightarrow> q \<in> allocated pa"
    "allocated pa1 = insert p (allocated pa)" "pa_free_pages pa1 = pa_free_pages pa - 1"
    "pa_total_pages pa1 = pa_total_pages pa" "base_addr pa1 = base_addr pa" "phys_inv pa1"
proof -
  obtain p where p: "p < pa_total_pages pa" "p \<notin> allocated pa" "\<And>q. q < p \<Longrightarrow> q \<in> allocated pa"
    using inv_free_page_exists [OF inv free] by blast
  have max: "p < MAX_PAGES" using p(1) inv by (simp add: phys_inv_def)
  obtain pa1 where m: "mark_page_allocated pa p = (Ok (), pa1)"
    "allocated pa1 = insert p (allocated pa)" "pa_total_pages pa1 = pa_total_pages pa"
    "pa_free_pages pa1 = pa_free_pages pa" "base_addr pa1 = base_addr pa"
    using mark_page_allocated_eq [OF max] by blast
  let ?pa2 = "pa1\<lparr>pa_free_pages := usub (pa_free_pages pa) 1\<rparr>"
  have "alloc_page pa = (Ok (page_addr pa p), ?pa2)"
    using free alloc_page_from_lowest [OF max p(2,3), of 0] p(1) m(1)
    by (simp add: alloc_page_def)
  moreover have "usub (pa_free_pages pa) 1 = pa_free_pages pa - 1"
    using free inv_counts [OF inv] by (intro usub_no_wrap) (auto simp: MAX_PAGES_def)
  moreover have "phys_inv ?pa2"
    by (rule inv_insert [OF inv, of _ "{p}"]) (use m p calculation(2) in auto)
  ultimately show ?thesis using p m that [of p ?pa2] by simp
qed

section \<open>Addresses and page numbers\<close>

lemma unat_page_addr:
  assumes "phys_inv pa" "p < pa_total_pages pa"
  shows "unat (page_addr pa p) = unat (base_addr pa) + p * 4096"
proof -
  have "p * 4096 + 4096 \<le> pa_total_pages pa * 4096" using assms(2) by simp
  then have "unat (base_addr pa) + p * 4096 < 2 ^ 64"
    using assms(1) by (simp add: phys_inv_def)
  then show ?thesis
    by (simp add: page_addr_def PAGE_SIZE_def unat_word_ariths unat_of_nat)
qed

lemma page_addr_aligned:
  "phys_inv pa \<Longrightarrow> p < pa_total_pages pa \<Longrightarrow> 4096 dvd unat (page_addr pa p)"
  by (simp add: unat_page_addr) (simp add: phys_inv_def)

lemma addr_to_page_page_addr:
  assumes "phys_inv pa" "p < pa_total_pages pa"
  shows "addr_to_page pa (page_addr pa p) = Ok p"
proof -
  have "unat (page_addr pa p - base_addr pa) = p * 4096"
    using unat_page_addr [OF assms] by (simp add: unat_sub word_le_nat_alt)
  then show ?thesis
    using assms(2) unat_page_addr [OF assms]
    by (simp add: addr_to_page_def word_less_nat_alt PAGE_SIZE_def)
qed

lemma phys_is_aligned_iff: "phys_is_aligned a \<longleftrightarrow> 4096 dvd unat a"
  by (simp add: phys_is_aligned_def word_arith_nat_mod dvd_eq_mod_eq_0 unat_eq_0 [symmetric] unat_of_nat)

lemma page_addr_of_addr:
  assumes inv: "phys_inv pa" and al: "phys_is_aligned a" and p: "addr_to_page pa a = Ok p"
  shows "p < pa_total_pages pa \<and> a = page_addr pa p"
proof -
  from p have le: "base_addr pa \<le> a" and q: "p = unat (a - base_addr pa) div 4096"
    and lt: "p < pa_total_pages pa"
    by (auto simp: addr_to_page_def Let_def PAGE_SIZE_def split: if_splits)
  from le have sub: "unat (a - base_addr pa) = unat a - unat (base_addr pa)"
    by (simp add: unat_sub)
  have "4096 dvd unat a - unat (base_addr pa)"
    using al inv by (simp add: phys_is_aligned_iff phys_inv_def dvd_diff_nat)
  then have "p * 4096 = unat a - unat (base_addr pa)" using q sub by simp
  then have "unat a = unat (page_addr pa p)"
    using unat_page_addr [OF inv lt] le by (simp add: word_le_nat_alt)
  with lt show ?thesis by (simp add: word_unat_eq_iff)
qed

section \<open>alloc_pages finds the lowest run\<close>

definition free_run :: "PhysicalAllocator \<Rightarrow> nat \<Rightarrow> nat \<Rightarrow> bool" where
  "free_run pa s n \<longleftrightarrow> s + n \<le> pa_total_pages pa \<and> {s..<s + n} \<inter> allocated pa = {}"

lemma run_scan_inv:
  assumes "pa_total_pages pa \<le> MAX_PAGES" "consecutive < count" "consecutive \<le> page"
    "consecutive \<noteq> 0 \<Longrightarrow> start_page = Some (page - consecutive)"
    "{page - consecutive..<page} \<inter> allocated pa = {}"
    "\<And>s. s < page - consecutive \<Longrightarrow> \<not> free_run pa s count"
  shows "(\<exists>s. run_scan pa count page start_page consecutive = Ok (Some s) \<and> free_run pa s count
            \<and> (\<forall>s' < s. \<not> free_run pa s' count))
       \<or> (run_scan pa count page start_page consecutive = Ok None \<and> (\<forall>s. \<not> free_run pa s count))"
  using assms(2-)
proof (induction "pa_total_pages pa - page" arbitrary: page start_page consecutive)
  case 0
  then have "run_scan pa count page start_page consecutive = Ok None"
    by (subst run_scan.simps) simp
  moreover have "\<not> free_run pa s count" for s
  proof (cases "s < page - consecutive")
    case False
    with 0 show ?thesis by (auto simp: free_run_def)
  qed (use 0 in simp)
  ultimately show ?case by simp
next
  case (Suc m)
  then have lt: "page < pa_total_pages pa" by simp
  then have max: "page < MAX_PAGES" using assms(1) by simp
  let ?first = "page - consecutive"
  show ?case
  proof (cases "page \<in> allocated pa")
    case True
    have none: "\<not> free_run pa s count" if "s < Suc page" for s
    proof (cases "s < ?first")
      case False
      with that Suc.prems(1,2) have "page \<in> {s..<s + count}" by auto
      with True show ?thesis by (auto simp: free_run_def)
    qed (use Suc.prems(5) in simp)
    have "run_scan pa count page start_page consecutive = run_scan pa count (Suc page) None 0"
      using lt max True by (subst run_scan.simps) (simp add: is_page_free_eq)
    with Suc.hyps(1) [of "Suc page" 0 None] Suc.hyps(2) Suc.prems(1) none show ?thesis by simp
  next
    case free: False
    let ?start = "if consecutive = 0 then Some page else start_page"
    have start: "?start = Some ?first" using Suc.prems(3) by simp
    have range: "{?first..<Suc page} \<inter> allocated pa = {}"
      using Suc.prems(2,4) free by (auto simp: less_Suc_eq)
    show ?thesis
    proof (cases "Suc consecutive = count")
      case True
      have "run_scan pa count page start_page consecutive = Ok (Some ?first)"
        using lt max free True start by (subst run_scan.simps) (simp add: is_page_free_eq Let_def)
      moreover have "free_run pa ?first count"
        using lt range Suc.prems(2) True by (simp add: free_run_def flip: True)
      ultimately show ?thesis using Suc.prems(5) by blast
    next
      case False
      have "run_scan pa count page start_page consecutive
              = run_scan pa count (Suc page) (Some ?first) (Suc consecutive)"
        using lt max free False start by (subst run_scan.simps) (simp add: is_page_free_eq Let_def)
      with Suc.hyps(1) [of "Suc page" "Suc consecutive" "Some ?first"] Suc.hyps(2) Suc.prems False range
      show ?thesis by simp
    qed
  qed
qed

lemma run_scan_from_start:
  assumes "pa_total_pages pa \<le> MAX_PAGES" "0 < count"
  shows "(\<exists>s. run_scan pa count 0 None 0 = Ok (Some s) \<and> free_run pa s count
            \<and> (\<forall>s' < s. \<not> free_run pa s' count))
       \<or> (run_scan pa count 0 None 0 = Ok None \<and> (\<forall>s. \<not> free_run pa s count))"
  using assms run_scan_inv [of pa 0 count 0 None] by simp

lemma free_run_one: "free_run pa s 1 \<longleftrightarrow> s < pa_total_pages pa \<and> s \<notin> allocated pa"
  by (auto simp: free_run_def)

lemma free_run_count:
  assumes "phys_inv pa" "free_run pa s n"
  shows "n \<le> pa_free_pages pa"
proof -
  have "{s..<s + n} \<union> allocated pa \<subseteq> {..<pa_total_pages pa}"
    using assms by (auto simp: free_run_def phys_inv_def)
  then have "card ({s..<s + n} \<union> allocated pa) \<le> pa_total_pages pa"
    using card_mono [of "{..<pa_total_pages pa}"] by fastforce
  moreover have "card ({s..<s + n} \<union> allocated pa) = n + card (allocated pa)"
    using assms(2) by (simp add: free_run_def card_Un_disjoint)
  ultimately show ?thesis using assms(1) by (simp add: phys_inv_def)
qed

lemma alloc_pages_run:
  assumes inv: "phys_inv pa" and count: "0 < count"
    and run: "free_run pa s count" "\<And>s'. s' < s \<Longrightarrow> \<not> free_run pa s' count"
  obtains pa1 where "alloc_pages pa count = (Ok (page_addr pa s), pa1)"
    "allocated pa1 = allocated pa \<union> {s..<s + count}" "phys_inv pa1"
    "pa_free_pages pa1 = pa_free_pages pa - count"
    "pa_total_pages pa1 = pa_total_pages pa" "base_addr pa1 = base_addr pa"
proof (cases "count = 1")
  case True
  have "s < pa_total_pages pa" "s \<notin> allocated pa" using run(1) True free_run_one by auto
  moreover have "pa_free_pages pa \<noteq> 0" using free_run_count [OF inv run(1)] True by simp
  then obtain p pa1 where p: "alloc_page pa = (Ok (page_addr pa p), pa1)"
    "p < pa_total_pages pa" "p \<notin> allocated pa" "\<And>q. q < p \<Longrightarrow> q \<in> allocated pa"
    "allocated pa1 = insert p (allocated pa)" "pa_free_pages pa1 = pa_free_pages pa - 1"
    "pa_total_pages pa1 = pa_total_pages pa" "base_addr pa1 = base_addr pa" "phys_inv pa1"
    using alloc_page_lowest [OF inv] by metis
  moreover have "p = s"
  proof (rule linorder_cases [of p s])
    assume "p < s"
    then show ?thesis using run(2) [of p] p(2,3) True free_run_one by auto
  next
    assume "s < p"
    then show ?thesis using p(4) calculation(2) by auto
  qed
  ultimately show ?thesis using that [of pa1] True by (simp add: alloc_pages_def)
next
  case False
  have tot: "pa_total_pages pa \<le> MAX_PAGES" using inv by (simp add: phys_inv_def)
  have "run_scan pa count 0 None 0 = Ok (Some s)"
    using run_scan_from_start [OF tot count] run by (metis linorder_neqE_nat)
  moreover have "s + count \<le> MAX_PAGES" using run(1) tot by (simp add: free_run_def)
  then obtain pa1 where m: "for_pages mark_page_allocated pa s count = (Ok (), pa1)"
    "allocated pa1 = allocated pa \<union> {s..<s + count}" "pa_total_pages pa1 = pa_total_pages pa"
    "pa_free_pages pa1 = pa_free_pages pa" "base_addr pa1 = base_addr pa"
    using for_pages_allocate by blast
  let ?pa2 = "pa1\<lparr>pa_free_pages := usub (pa_free_pages pa) count\<rparr>"
  have le: "count \<le> pa_free_pages pa" by (rule free_run_count [OF inv run(1)])
  ultimately have "alloc_pages pa count = (Ok (page_addr pa s), ?pa2)"
    using False count m(1,4) by (simp add: alloc_pages_def)
  moreover have sub: "usub (pa_free_pages pa) count = pa_free_pages pa - count"
    using le inv_counts [OF inv] by (intro usub_no_wrap) (auto simp: MAX_PAGES_def)
  moreover have "phys_inv ?pa2"
    by (rule inv_insert [OF inv, of _ "{s..<s + count}"])
       (use m run(1) sub in \<open>auto simp: free_run_def\<close>)
  ultimately show ?thesis using m that [of ?pa2] by simp
qed

lemma alloc_pages_no_run:
  assumes inv: "phys_inv pa" and count: "0 < count" and none: "\<And>s. \<not> free_run pa s count"
  shows "alloc_pages pa count = (Err (Memory MemOutOfMemory), pa)"
proof (cases "count = 1")
  case True
  have "pa_free_pages pa = 0"
  proof (rule ccontr)
    assume "pa_free_pages pa \<noteq> 0"
    then show False
      using inv_free_page_exists [OF inv] none True free_run_one by (metis One_nat_def)
  qed
  with True show ?thesis by (simp add: alloc_pages_def alloc_page_def)
next
  case False
  have tot: "pa_total_pages pa \<le> MAX_PAGES" using inv by (simp add: phys_inv_def)
  have "run_scan pa count 0 None 0 = Ok None"
    using run_scan_from_start [OF tot count] none by blast
  with False count show ?thesis by (simp add: alloc_pages_def)
qed

section \<open>Release undoes allocation\<close>

lemma check_allocated_ok_iff: "check_allocated pa p n = Ok () \<longleftrightarrow> {p..<p + n} \<subseteq> allocated pa"
proof (induction n arbitrary: p)
  case (Suc n)
  have "{p..<p + Suc n} = insert p {Suc p..<Suc p + n}" by auto
  with Suc show ?case by (auto simp: is_page_free_eq dest: allocated_less split: bool.splits)
qed simp

lemma range_within:
  assumes "phys_inv pa" "{p..<p + n} \<subseteq> allocated pa" "0 < n"
  shows "p + n \<le> pa_total_pages pa"
proof -
  have "p + n - 1 \<in> allocated pa" using assms(2,3) by auto
  then show ?thesis using assms(1) by (auto simp: phys_inv_def)
qed

lemma free_pages_range:
  assumes inv: "phys_inv pa" and n: "0 < n" and used: "{p..<p + n} \<subseteq> allocated pa"
  obtains pa1 where "free_pages pa (page_addr pa p) n = (Ok (), pa1)"
    "allocated pa1 = allocated pa - {p..<p + n}" "phys_inv pa1"
    "pa_free_pages pa1 = pa_free_pages pa + n"
    "pa_total_pages pa1 = pa_total_pages pa" "base_addr pa1 = base_addr pa"
proof -
  have range: "p + n \<le> pa_total_pages pa" by (rule range_within [OF inv used n])
  then have p: "p < pa_total_pages pa" using n by simp
  have max: "p + n \<le> MAX_PAGES" using range inv by (simp add: phys_inv_def)
  obtain pa1 where m: "for_pages mark_page_free pa p n = (Ok (), pa1)"
    "allocated pa1 = allocated pa - {p..<p + n}" "pa_total_pages pa1 = pa_total_pages pa"
    "pa_free_pages pa1 = pa_free_pages pa" "base_addr pa1 = base_addr pa"
    using for_pages_free [OF max] by blast
  let ?pa2 = "pa1\<lparr>pa_free_pages := uadd (pa_free_pages pa) n\<rparr>"
  have "free_pages pa (page_addr pa p) n = (Ok (), ?pa2)"
    using n used m(1,4) page_addr_aligned [OF inv p] addr_to_page_page_addr [OF inv p]
      check_allocated_ok_iff [of pa p n]
    by (simp add: free_pages_def phys_is_aligned_iff)
  moreover have add: "uadd (pa_free_pages pa) n = pa_free_pages pa + n"
    using inv_counts [OF inv] max by (intro uadd_no_wrap) (simp add: MAX_PAGES_def)
  moreover have "phys_inv ?pa2"
    by (rule inv_remove [OF inv, of _ "{p..<p + n}"]) (use m used add in auto)
  ultimately show ?thesis using m that [of ?pa2] by simp
qed

lemma free_pages_cases:
  assumes inv: "phys_inv pa" and r: "free_pages pa a n = (r, pa1)"
  shows "(r = Ok () \<and> 0 < n \<and> (\<exists>p. p < pa_total_pages pa \<and> a = page_addr pa p \<and> {p..<p + n} \<subseteq> allocated pa))
       \<or> (r \<noteq> Ok () \<and> pa1 = pa)"
proof (cases "0 < n \<and> phys_is_aligned a \<and> (\<exists>p. addr_to_page pa a = Ok p \<and> check_allocated pa p n = Ok ())")
  case True
  then obtain p where p: "addr_to_page pa a = Ok p" "check_allocated pa p n = Ok ()" by blast
  then have used: "{p..<p + n} \<subseteq> allocated pa" by (simp add: check_allocated_ok_iff)
  have a: "p < pa_total_pages pa \<and> a = page_addr pa p"
    using page_addr_of_addr [OF inv _ p(1)] True by blast
  then obtain pa2 where "free_pages pa a n = (Ok (), pa2)"
    using free_pages_range [OF inv _ used] True by blast
  with r a used True show ?thesis by auto
next
  case False
  with r show ?thesis
    by (auto simp: free_pages_def split: if_splits outcome.splits prod.splits)
qed

lemma free_page_is_free_pages: "free_page pa a = free_pages pa a 1"
  by (auto simp: free_page_def free_pages_def split: outcome.split prod.split bool.split)

section \<open>Any sequence of operations\<close>

datatype phys_op = AllocPage | AllocPages usize | FreePage u64 | FreePages u64 usize

fun phys_exec :: "PhysicalAllocator \<Rightarrow> phys_op \<Rightarrow> PhysicalAllocator" where
  "phys_exec pa AllocPage = snd (alloc_page pa)"
| "phys_exec pa (AllocPages n) = snd (alloc_pages pa n)"
| "phys_exec pa (FreePage a) = snd (free_page pa a)"
| "phys_exec pa (FreePages a n) = snd (free_pages pa a n)"

definition phys_step :: "PhysicalAllocator \<Rightarrow> PhysicalAllocator \<Rightarrow> bool" where
  "phys_step pa pa1 \<longleftrightarrow> (\<exists>op. pa1 = phys_exec pa op)"

definition phys_boot :: "PhysicalAllocator \<Rightarrow> bool" where
  "phys_boot pa \<longleftrightarrow> (\<exists>base n. pa = phys_new base n \<and> n \<le> MAX_PAGES \<and> 4096 dvd unat base \<and>
     unat base + n * 4096 \<le> 2 ^ 64)"

lemma alloc_pages_one: "alloc_pages pa 1 = alloc_page pa"
  by (simp add: alloc_pages_def)

lemma alloc_pages_cases:
  assumes inv: "phys_inv pa" and r: "alloc_pages pa n = (r, pa1)"
  shows "(\<exists>s. r = Ok (page_addr pa s) \<and> 0 < n \<and> free_run pa s n \<and> phys_inv pa1
            \<and> allocated pa1 = allocated pa \<union> {s..<s + n} \<and> base_addr pa1 = base_addr pa
            \<and> pa_total_pages pa1 = pa_total_pages pa)
       \<or> (\<not> is_ok r \<and> pa1 = pa)"
proof (cases "n = 0")
  case True
  with r show ?thesis by (auto simp: alloc_pages_def)
next
  case n: False
  show ?thesis
  proof (cases "\<exists>s. free_run pa s n")
    case True
    define s where "s = (LEAST s. free_run pa s n)"
    have run: "free_run pa s n" unfolding s_def by (rule LeastI_ex [OF True])
    have "\<And>s'. s' < s \<Longrightarrow> \<not> free_run pa s' n" unfolding s_def by (rule not_less_Least)
    with run n r inv alloc_pages_run [OF inv, of n s] show ?thesis
      by (metis Pair_inject neq0_conv)
  next
    case False
    with n r alloc_pages_no_run [OF inv, of n] show ?thesis by auto
  qed
qed

lemmas alloc_page_cases = alloc_pages_cases [where n = 1, unfolded alloc_pages_one free_run_one]

lemma alloc_page_fail:
  assumes "phys_inv pa" "alloc_page pa = (r, pa1)" "\<not> is_ok r"
  shows "r = Err (Memory MemOutOfMemory)" "pa1 = pa"
proof -
  have "pa_free_pages pa = 0"
  proof (rule ccontr)
    assume "pa_free_pages pa \<noteq> 0"
    then obtain p pa2 where "alloc_page pa = (Ok (page_addr pa p), pa2)"
      using alloc_page_lowest [OF assms(1)] by metis
    with assms(2,3) show False by auto
  qed
  with assms(2) show "r = Err (Memory MemOutOfMemory)" "pa1 = pa"
    by (simp_all add: alloc_page_def)
qed

lemma phys_inv_new:
  assumes "n \<le> MAX_PAGES" "4096 dvd unat base" "unat base + n * 4096 \<le> 2 ^ 64"
  shows "phys_inv (phys_new base n)"
proof -
  have "allocated (phys_new base n) = {}"
    by (simp add: allocated_def page_used_def phys_new_def)
  with assms show ?thesis by (simp add: phys_inv_def) (simp add: phys_new_def)
qed

lemma alloc_pages_inv: "phys_inv pa \<Longrightarrow> phys_inv (snd (alloc_pages pa n))"
  using alloc_pages_cases [of pa n] by (cases "alloc_pages pa n") auto

lemma free_pages_inv:
  assumes "phys_inv pa"
  shows "phys_inv (snd (free_pages pa a n))"
proof -
  obtain r pa1 where r: "free_pages pa a n = (r, pa1)" by (cases "free_pages pa a n")
  show ?thesis
    using free_pages_cases [OF assms r] free_pages_range [OF assms, of n] r assms
    by (metis snd_conv)
qed

lemma phys_exec_inv: "phys_inv pa \<Longrightarrow> phys_inv (phys_exec pa op)"
  by (cases op)
     (simp_all add: alloc_pages_inv free_pages_inv free_page_is_free_pages flip: alloc_pages_one)

interpretation phys: transition_system phys_boot phys_step phys_inv
  by unfold_locales (auto simp: phys_boot_def phys_step_def phys_exec_inv phys_inv_new)

section \<open>The allocator as a page provider\<close>

definition owned_bytes :: "PhysicalAllocator \<Rightarrow> nat set" where
  "owned_bytes pa = {b. unat (base_addr pa) \<le> b \<and> (b - unat (base_addr pa)) div 4096 \<in> allocated pa}"

lemma run_region:
  assumes "phys_inv pa" "free_run pa s n" "0 < n"
  shows "region (page_addr pa s) (n * 4096) =
    {b. unat (base_addr pa) \<le> b \<and> (b - unat (base_addr pa)) div 4096 \<in> {s..<s + n}}"
proof -
  have u: "unat (page_addr pa s) = unat (base_addr pa) + s * 4096"
    using assms by (intro unat_page_addr) (auto simp: free_run_def)
  have "s \<le> x div 4096 \<longleftrightarrow> s * 4096 \<le> x" "x div 4096 < s + n \<longleftrightarrow> x < (s + n) * 4096" for x
    by (simp_all add: less_eq_div_iff_mult_less_eq div_less_iff_less_mult)
  with u show ?thesis by (auto simp: region_def)
qed

interpretation pages: page_provider "\<lambda>n pa. alloc_pages pa n" owned_bytes phys_inv
proof unfold_locales
  fix pa n a pa1
  assume inv: "phys_inv pa" and r: "alloc_pages pa n = (Ok a, pa1)"
  then obtain s where s: "a = page_addr pa s" "0 < n" "free_run pa s n" "phys_inv pa1"
    "allocated pa1 = allocated pa \<union> {s..<s + n}" "base_addr pa1 = base_addr pa"
    using alloc_pages_cases [OF inv r] by auto
  have "region a (n * 4096) \<inter> owned_bytes pa = {}"
    unfolding s(1) run_region [OF inv s(3,2)] using s(3) by (auto simp: owned_bytes_def free_run_def)
  moreover have "owned_bytes pa1 = owned_bytes pa \<union> region a (n * 4096)"
    using run_region [OF inv s(3,2)] s(1,5,6) by (auto simp: owned_bytes_def)
  moreover have "s < pa_total_pages pa" using s(2,3) by (simp add: free_run_def)
  ultimately show "phys_inv pa1 \<and> region a (n * 4096) \<inter> owned_bytes pa = {} \<and>
      owned_bytes pa1 = owned_bytes pa \<union> region a (n * 4096) \<and>
      4096 dvd unat a \<and> unat a + n * 4096 \<le> 2 ^ 64"
    using s inv unat_page_addr [OF inv, of s] page_addr_aligned [OF inv, of s]
    by (auto simp: phys_inv_def free_run_def)
next
  fix pa n r pa1
  assume "phys_inv pa" "alloc_pages pa n = (r, pa1)" "\<not> is_ok r"
  then show "phys_inv pa1 \<and> owned_bytes pa1 = owned_bytes pa"
    using alloc_pages_cases [of pa n r pa1] by auto
qed

section \<open>Properties\<close>

text \<open>A small allocator, eight free pages from 0x80000000, for the examples.\<close>

lemma example_inv: "phys_inv (phys_new 0x80000000 8)"
  by (rule phys_inv_new) (simp_all add: MAX_PAGES_def)

lemma example_empty: "allocated (phys_new base n) = {}"
  by (simp add: allocated_def page_used_def phys_new_def)

lemma example_run: "n \<le> 8 \<Longrightarrow> free_run (phys_new 0x80000000 8) 0 n"
  by (simp add: free_run_def example_empty) (simp add: phys_new_def)

text \<open>
  C1 (functional). On a consistent allocator a request for \<open>count\<close> pages succeeds exactly
  when some run of \<open>count\<close> consecutive free pages exists; it then returns the address of the
  lowest such run, marks exactly these pages and keeps the allocator consistent. Otherwise it
  reports out-of-memory and changes nothing. With \<open>count = 1\<close> this is \<open>alloc_page\<close>.
\<close>

theorem phys_alloc_pages_first_fit:
  assumes "phys_inv pa" "0 < count"
  shows "case alloc_pages pa count of (r, pa1) \<Rightarrow>
    if \<exists>s. free_run pa s count
    then r = Ok (page_addr pa (LEAST s. free_run pa s count)) \<and> phys_inv pa1 \<and>
         allocated pa1 = allocated pa \<union>
           {(LEAST s. free_run pa s count)..<(LEAST s. free_run pa s count) + count}
    else r = Err (Memory MemOutOfMemory) \<and> pa1 = pa"
proof (cases "\<exists>s. free_run pa s count")
  case True
  let ?s = "LEAST s. free_run pa s count"
  obtain pa1 where "alloc_pages pa count = (Ok (page_addr pa ?s), pa1)"
    "allocated pa1 = allocated pa \<union> {?s..<?s + count}" "phys_inv pa1"
    using alloc_pages_run [OF assms LeastI_ex [OF True]] not_less_Least by metis
  with True show ?thesis by simp
next
  case False
  with alloc_pages_no_run [OF assms] show ?thesis by simp
qed

theorem phys_alloc_pages_first_fit_witness:
  "fst (alloc_pages (phys_new 0x80000000 8) 2) = Ok 0x80000000"
proof -
  let ?pa = "phys_new 0x80000000 8"
  obtain r pa1 where r: "alloc_pages ?pa 2 = (r, pa1)" by (cases "alloc_pages ?pa 2")
  have "\<exists>s. free_run ?pa s 2" using example_run [of 2] by auto
  then have "r = Ok (page_addr ?pa (LEAST s. free_run ?pa s 2))"
    using phys_alloc_pages_first_fit [OF example_inv, of 2] r by simp
  moreover have "(LEAST s. free_run ?pa s 2) = 0" by (rule Least_eq_0, rule example_run) simp
  moreover have "page_addr ?pa 0 = 0x80000000" by (simp add: page_addr_def phys_new_def)
  ultimately show ?thesis unfolding r by simp
qed

text \<open>
  C2 (round trip). Releasing the pages that a request returned succeeds and restores the set of
  allocated pages and the free counter.
\<close>

theorem phys_alloc_free_roundtrip:
  assumes "phys_inv pa" "alloc_pages pa n = (Ok a, pa1)"
  shows "\<exists>pa2. free_pages pa1 a n = (Ok (), pa2) \<and> allocated pa2 = allocated pa \<and>
           pa_free_pages pa2 = pa_free_pages pa \<and> phys_inv pa2"
proof -
  obtain s where s: "a = page_addr pa s" "0 < n" "free_run pa s n" "phys_inv pa1"
    "allocated pa1 = allocated pa \<union> {s..<s + n}" "base_addr pa1 = base_addr pa"
    "pa_total_pages pa1 = pa_total_pages pa"
    using alloc_pages_cases [OF assms] by auto
  then have a: "a = page_addr pa1 s" by (simp add: page_addr_def)
  obtain pa2 where f: "free_pages pa1 a n = (Ok (), pa2)"
    "allocated pa2 = allocated pa1 - {s..<s + n}" "phys_inv pa2"
    "pa_total_pages pa2 = pa_total_pages pa1"
    using free_pages_range [OF s(4,2), of s] s(5) unfolding a by blast
  have "allocated pa2 = allocated pa" using f(2) s(3,5) by (auto simp: free_run_def)
  moreover from this have "pa_free_pages pa2 = pa_free_pages pa"
    using f(3,4) s(7) assms(1) by (simp add: phys_inv_def)
  ultimately show ?thesis using f by blast
qed

theorem phys_alloc_free_roundtrip_witness:
  "\<exists>a pa1 pa2. alloc_pages (phys_new 0x80000000 8) 2 = (Ok a, pa1) \<and>
     free_pages pa1 a 2 = (Ok (), pa2) \<and> pa_free_pages pa2 = 8"
proof -
  let ?pa = "phys_new 0x80000000 8"
  have none: "\<not> free_run ?pa s' 2" if "s' < 0" for s' using that by simp
  obtain a pa1 where r: "alloc_pages ?pa 2 = (Ok a, pa1)"
    by (rule alloc_pages_run [of ?pa 2 0]) (use example_inv example_run none in simp_all)
  have "pa_free_pages ?pa = 8" by (simp add: phys_new_def)
  with r phys_alloc_free_roundtrip [OF example_inv r] show ?thesis by metis
qed

text \<open>
  C2 (safety). A release is all or nothing: it succeeds exactly when the address is that of a
  managed page and every one of the \<open>n\<close> pages from it is allocated, so a double free or a
  range that runs off the managed memory is refused; a refused release changes nothing.
\<close>

theorem phys_free_pages_all_or_nothing:
  assumes "phys_inv pa"
  shows "(fst (free_pages pa a n) = Ok () \<longleftrightarrow>
            0 < n \<and> (\<exists>p < pa_total_pages pa. a = page_addr pa p \<and> {p..<p + n} \<subseteq> allocated pa)) \<and>
         (fst (free_pages pa a n) \<noteq> Ok () \<longrightarrow> snd (free_pages pa a n) = pa)"
proof -
  obtain r pa1 where r: "free_pages pa a n = (r, pa1)" by (cases "free_pages pa a n")
  have "r = Ok ()" if "0 < n" "a = page_addr pa p" "{p..<p + n} \<subseteq> allocated pa" for p
    using free_pages_range [OF assms that(1,3)] that(2) r by (metis Pair_inject)
  with free_pages_cases [OF assms r] r show ?thesis by auto
qed

theorem phys_free_pages_all_or_nothing_witness:
  "fst (free_pages (phys_new 0x80000000 8) 0x80001000 2) \<noteq> Ok () \<and>
   snd (free_pages (phys_new 0x80000000 8) 0x80001000 2) = phys_new 0x80000000 8"
  using phys_free_pages_all_or_nothing [OF example_inv, where a = "0x80001000" and n = 2] by (auto simp: example_empty)

text \<open>
  C3 (invariant). After any sequence of operations, with any arguments, the free counter of a
  booted allocator is the number of clear bits among the managed pages.
\<close>

theorem phys_counter_exact:
  assumes "reachable phys_boot phys_step pa"
  shows "pa_free_pages pa = card {p. p < pa_total_pages pa \<and> \<not> page_used pa p}"
proof -
  have inv: "phys_inv pa" by (rule phys.reachable_inv [OF assms])
  then have "{p. p < pa_total_pages pa \<and> \<not> page_used pa p} = {..<pa_total_pages pa} - allocated pa"
    by (auto simp: phys_inv_def allocated_def)
  with inv show ?thesis by (simp add: phys_inv_def card_Diff_subset)
qed

theorem phys_counter_exact_witness:
  "pa_free_pages (snd (alloc_pages (phys_new 0x80000000 8) 3))
     = card {p. p < pa_total_pages (snd (alloc_pages (phys_new 0x80000000 8) 3)) \<and>
               \<not> page_used (snd (alloc_pages (phys_new 0x80000000 8) 3)) p}"
proof (rule phys_counter_exact, rule reach_step, rule reach_init)
  show "phys_boot (phys_new 0x80000000 8)"
    unfolding phys_boot_def by (rule exI, rule exI, rule conjI, rule refl) (simp add: MAX_PAGES_def)
  show "phys_step (phys_new 0x80000000 8) (snd (alloc_pages (phys_new 0x80000000 8) 3))"
    unfolding phys_step_def by (rule exI [of _ "AllocPages 3"]) simp
qed

end
