(* ===== verification/VirtualMem.thy ===== *)
theory VirtualMem
  imports Physical
begin

text \<open>
  The four-level page tables, \<open>kernel/src/memory/virtual_mem.rs\<close>: virtual addresses, flags,
  page-table entries, and \<open>map\<close>, \<open>unmap\<close>, \<open>translate\<close> and \<open>protect\<close> of
  \<open>VirtualMemory\<close>. The memory the raw table pointers reach is a store from the physical
  address of a table to its entries; new tables come from the physical allocator. The TLB
  maintenance instructions have no counterpart.

  \<open>page_map\<close> is the abstract state, a partial map from page addresses to leaf entries.
  Under the tree invariant \<open>vm_wf\<close> the operations are shown to refine lookup, update and
  removal on this map.
\<close>

section \<open>Virtual addresses\<close>

definition VA_MASK :: u64 where "VA_MASK = 0xFFFFFFFFFFFF"

definition virt_new :: "u64 \<Rightarrow> u64" where
  "virt_new addr = addr AND VA_MASK"

definition virt_is_aligned :: "u64 \<Rightarrow> bool" where
  "virt_is_aligned v \<longleftrightarrow> v mod 4096 = 0"

definition page_offset :: "u64 \<Rightarrow> u64" where
  "page_offset v = v AND (4096 - 1)"

definition table_index :: "u64 \<Rightarrow> nat \<Rightarrow> nat" where
  "table_index v level = unat (drop_bit (12 + (3 - level) * 9) v AND 0x1FF)"

definition align_down :: "u64 \<Rightarrow> u64" where
  "align_down v = v AND NOT (4096 - 1)"

definition align_up :: "u64 \<Rightarrow> u64" where
  "align_up v = (v + 4096 - 1) AND NOT (4096 - 1)"

section \<open>Flags\<close>

definition VALID :: u64 where "VALID = push_bit 0 1"
definition TABLE :: u64 where "TABLE = push_bit 1 1"
definition USER :: u64 where "USER = push_bit 6 1"
definition READ_ONLY :: u64 where "READ_ONLY = push_bit 7 1"
definition ACCESSED :: u64 where "ACCESSED = push_bit 10 1"
definition DIRTY :: u64 where "DIRTY = push_bit 51 1"
definition COW :: u64 where "COW = push_bit 52 1"
definition EXECUTE :: u64 where "EXECUTE = push_bit 53 1"
definition KERNEL_RO :: u64 where "KERNEL_RO = VALID OR READ_ONLY"
definition KERNEL_RW :: u64 where "KERNEL_RW = VALID"
definition USER_RO :: u64 where "USER_RO = (VALID OR USER) OR READ_ONLY"
definition USER_RW :: u64 where "USER_RW = VALID OR USER"

lemmas flag_defs =
  VALID_def TABLE_def USER_def READ_ONLY_def ACCESSED_def DIRTY_def COW_def EXECUTE_def
  KERNEL_RO_def KERNEL_RW_def USER_RO_def USER_RW_def

definition flags_contains :: "u64 \<Rightarrow> u64 \<Rightarrow> bool" where
  "flags_contains f other \<longleftrightarrow> f AND other = other"

definition flags_union :: "u64 \<Rightarrow> u64 \<Rightarrow> u64" where
  "flags_union f other = f OR other"

definition flags_remove :: "u64 \<Rightarrow> u64 \<Rightarrow> u64" where
  "flags_remove f other = f AND NOT other"

definition validate_wx :: "u64 \<Rightarrow> unit kresult" where
  "validate_wx flags =
     (let writable = \<not> flags_contains flags READ_ONLY;
          executable = flags_contains flags EXECUTE
      in if writable \<and> executable then Err (Security SecPermissionDenied) else Ok ())"

section \<open>Page-table entries and tables\<close>

definition ADDR_MASK :: u64 where "ADDR_MASK = 0x0000FFFFFFFFF000"
definition FLAGS_MASK :: u64 where "FLAGS_MASK = 0xFFF0000000000FFF"

definition pte_is_valid :: "u64 \<Rightarrow> bool" where
  "pte_is_valid e \<longleftrightarrow> e AND VALID \<noteq> 0"

definition pte_is_table :: "u64 \<Rightarrow> bool" where
  "pte_is_table e \<longleftrightarrow> e AND TABLE \<noteq> 0"

definition pte_is_block :: "u64 \<Rightarrow> bool" where
  "pte_is_block e \<longleftrightarrow> pte_is_valid e \<and> \<not> pte_is_table e"

definition pte_flags :: "u64 \<Rightarrow> u64" where
  "pte_flags e = e AND FLAGS_MASK"

definition pte_phys_addr :: "u64 \<Rightarrow> u64" where
  "pte_phys_addr e = e AND ADDR_MASK"

definition pte_set_addr :: "u64 \<Rightarrow> u64 \<Rightarrow> u64" where
  "pte_set_addr addr flags = (addr AND ADDR_MASK) OR flags"

definition pte_set_flags :: "u64 \<Rightarrow> u64 \<Rightarrow> u64" where
  "pte_set_flags e flags = (e AND ADDR_MASK) OR flags"

text \<open>A table: 512 entries; \<open>entry\<close> and \<open>entry_mut\<close> are \<open>None\<close> past the end.\<close>

type_synonym page_table = "nat \<Rightarrow> u64"

definition pt_new :: page_table where
  "pt_new = (\<lambda>_. 0)"

definition pt_entry :: "page_table \<Rightarrow> nat \<Rightarrow> u64 option" where
  "pt_entry t index = (if index < 512 then Some (t index) else None)"

definition pt_clear :: "page_table \<Rightarrow> page_table" where
  "pt_clear t = (\<lambda>i. if i < 512 then 0 else t i)"

section \<open>The virtual memory manager\<close>

record VirtualMemory =
  root_table :: u64
  pt_mem :: "u64 \<Rightarrow> page_table"
  vm_phys :: PhysicalAllocator

definition vm_new :: "u64 \<Rightarrow> (u64 \<Rightarrow> page_table) \<Rightarrow> PhysicalAllocator \<Rightarrow> VirtualMemory" where
  "vm_new root store pa = \<lparr>root_table = root, pt_mem = store, vm_phys = pa\<rparr>"

definition set_entry :: "VirtualMemory \<Rightarrow> u64 \<Rightarrow> nat \<Rightarrow> u64 \<Rightarrow> VirtualMemory" where
  "set_entry s t i e = s\<lparr>pt_mem := (pt_mem s)(t := (pt_mem s t)(i := e))\<rparr>"

text \<open>
  One iteration of the table walk of \<open>map\<close>: follow the entry, after creating an empty table
  for it when it is not valid.
\<close>

definition map_level ::
  "VirtualMemory \<Rightarrow> u64 \<Rightarrow> u64 \<Rightarrow> nat \<Rightarrow> u64 kresult \<times> VirtualMemory" where
  "map_level s virt cur level =
     (let index = table_index virt level
      in case pt_entry (pt_mem s cur) index of
           None \<Rightarrow> (Err (Memory MemInvalidAddress), s)
         | Some e \<Rightarrow>
             if \<not> pte_is_valid e then
               (case alloc_page (vm_phys s) of
                  (Err er, pa) \<Rightarrow> (Err er, s\<lparr>vm_phys := pa\<rparr>)
                | (Panic, pa) \<Rightarrow> (Panic, s\<lparr>vm_phys := pa\<rparr>)
                | (Ok new_table, pa) \<Rightarrow>
                    let s1 = s\<lparr>vm_phys := pa,
                               pt_mem := (pt_mem s)(new_table := pt_clear (pt_mem s new_table))\<rparr>;
                        e1 = pte_set_addr new_table (flags_union TABLE VALID)
                    in (Ok (pte_phys_addr e1), set_entry s1 cur index e1))
             else (Ok (pte_phys_addr e), s))"

fun map_walk ::
  "VirtualMemory \<Rightarrow> u64 \<Rightarrow> u64 \<Rightarrow> nat list \<Rightarrow> u64 kresult \<times> VirtualMemory" where
  "map_walk s virt cur [] = (Ok cur, s)"
| "map_walk s virt cur (level # levels) =
     (case map_level s virt cur level of
        (Ok cur1, s1) \<Rightarrow> map_walk s1 virt cur1 levels
      | (Err e, s1) \<Rightarrow> (Err e, s1)
      | (Panic, s1) \<Rightarrow> (Panic, s1))"

definition vm_map ::
  "VirtualMemory \<Rightarrow> u64 \<Rightarrow> u64 \<Rightarrow> u64 \<Rightarrow> unit kresult \<times> VirtualMemory" where
  "vm_map s virt phys flags =
     (if \<not> virt_is_aligned virt \<or> \<not> phys_is_aligned phys
      then (Err (Memory MemInvalidAlignment), s)
      else case validate_wx flags of
        Err e \<Rightarrow> (Err e, s)
      | Panic \<Rightarrow> (Panic, s)
      | Ok _ \<Rightarrow>
          (case map_walk s virt (root_table s) [0, 1, 2] of
             (Err e, s1) \<Rightarrow> (Err e, s1)
           | (Panic, s1) \<Rightarrow> (Panic, s1)
           | (Ok cur, s1) \<Rightarrow>
               (let index = table_index virt 3
                in case pt_entry (pt_mem s1 cur) index of
                     None \<Rightarrow> (Err (Memory MemInvalidAddress), s1)
                   | Some e \<Rightarrow>
                       if pte_is_valid e then (Err (Memory MemAlreadyMapped), s1)
                       else (Ok (), set_entry s1 cur index
                                      (pte_set_addr phys (flags_union flags VALID))))))"

text \<open>The read-only walk to the last table, shared by \<open>unmap\<close> and \<open>protect\<close>.\<close>

fun table_walk :: "VirtualMemory \<Rightarrow> u64 \<Rightarrow> u64 \<Rightarrow> nat list \<Rightarrow> u64 kresult" where
  "table_walk s virt cur [] = Ok cur"
| "table_walk s virt cur (level # levels) =
     (case pt_entry (pt_mem s cur) (table_index virt level) of
        None \<Rightarrow> Err (Memory MemInvalidAddress)
      | Some e \<Rightarrow> if \<not> pte_is_valid e then Err (Memory MemNotMapped)
                  else table_walk s virt (pte_phys_addr e) levels)"

definition vm_unmap :: "VirtualMemory \<Rightarrow> u64 \<Rightarrow> u64 kresult \<times> VirtualMemory" where
  "vm_unmap s virt =
     (if \<not> virt_is_aligned virt then (Err (Memory MemInvalidAlignment), s)
      else case table_walk s virt (root_table s) [0, 1, 2] of
        Err e \<Rightarrow> (Err e, s)
      | Panic \<Rightarrow> (Panic, s)
      | Ok cur \<Rightarrow>
          (let index = table_index virt 3
           in case pt_entry (pt_mem s cur) index of
                None \<Rightarrow> (Err (Memory MemInvalidAddress), s)
              | Some e \<Rightarrow>
                  if \<not> pte_is_valid e then (Err (Memory MemNotMapped), s)
                  else (Ok (pte_phys_addr e), set_entry s cur index 0)))"

fun translate_walk :: "VirtualMemory \<Rightarrow> u64 \<Rightarrow> u64 \<Rightarrow> u64 \<Rightarrow> nat list \<Rightarrow> u64 kresult" where
  "translate_walk s aligned offset cur [] = Err (Memory MemNotMapped)"
| "translate_walk s aligned offset cur (level # levels) =
     (case pt_entry (pt_mem s cur) (table_index aligned level) of
        None \<Rightarrow> Err (Memory MemInvalidAddress)
      | Some e \<Rightarrow>
          if \<not> pte_is_valid e then Err (Memory MemNotMapped)
          else if level = 3 \<or> pte_is_block e then Ok (pte_phys_addr e + offset)
          else translate_walk s aligned offset (pte_phys_addr e) levels)"

definition vm_translate :: "VirtualMemory \<Rightarrow> u64 \<Rightarrow> u64 kresult" where
  "vm_translate s virt =
     translate_walk s (align_down virt) (page_offset virt) (root_table s) [0, 1, 2, 3]"

definition vm_protect :: "VirtualMemory \<Rightarrow> u64 \<Rightarrow> u64 \<Rightarrow> unit kresult \<times> VirtualMemory" where
  "vm_protect s virt flags =
     (if \<not> virt_is_aligned virt then (Err (Memory MemInvalidAlignment), s)
      else case validate_wx flags of
        Err e \<Rightarrow> (Err e, s)
      | Panic \<Rightarrow> (Panic, s)
      | Ok _ \<Rightarrow>
          (case table_walk s virt (root_table s) [0, 1, 2] of
             Err e \<Rightarrow> (Err e, s)
           | Panic \<Rightarrow> (Panic, s)
           | Ok cur \<Rightarrow>
               (let index = table_index virt 3
                in case pt_entry (pt_mem s cur) index of
                     None \<Rightarrow> (Err (Memory MemInvalidAddress), s)
                   | Some e \<Rightarrow>
                       if \<not> pte_is_valid e then (Err (Memory MemNotMapped), s)
                       else (Ok (), set_entry s cur index
                                      (pte_set_flags e (flags_union flags VALID))))))"

section \<open>Bit-level facts\<close>

lemma bit_shift_1: "k < 64 \<Longrightarrow> bit (push_bit k (1 :: u64)) n \<longleftrightarrow> n = k"
  by (auto simp: bit_exp_iff)

lemma bit_VALID: "bit VALID n \<longleftrightarrow> n = 0" unfolding VALID_def by (rule bit_shift_1) simp
lemma bit_TABLE: "bit TABLE n \<longleftrightarrow> n = 1" unfolding TABLE_def by (rule bit_shift_1) simp
lemma bit_READ_ONLY: "bit READ_ONLY n \<longleftrightarrow> n = 7" unfolding READ_ONLY_def by (rule bit_shift_1) simp
lemma bit_EXECUTE: "bit EXECUTE n \<longleftrightarrow> n = 53" unfolding EXECUTE_def by (rule bit_shift_1) simp

lemma mask_9: "0x1FF = (mask 9 :: u64)" by (simp add: mask_eq_exp_minus_1)
lemma mask_12: "0xFFF = (mask 12 :: u64)" by (simp add: mask_eq_exp_minus_1)
lemma ADDR_MASK_eq: "ADDR_MASK = push_bit 12 (mask 36)"
  by (simp add: ADDR_MASK_def mask_eq_exp_minus_1 push_bit_eq_mult)
lemma VA_MASK_eq: "VA_MASK = mask 48"
  by (simp add: VA_MASK_def mask_eq_exp_minus_1)

lemma bit_ADDR_MASK: "bit ADDR_MASK n \<longleftrightarrow> 12 \<le> n \<and> n < 48"
  by (auto simp: ADDR_MASK_eq bit_push_bit_iff bit_mask_iff)

lemma table_index_eq: "table_index v level = unat (take_bit 9 (drop_bit (12 + (3 - level) * 9) v))"
  unfolding table_index_def mask_9 take_bit_eq_mask ..

lemma table_index_less [simp]: "table_index v level < 512"
proof -
  have "take_bit 9 (unat (drop_bit (12 + (3 - level) * 9) v)) < 2 ^ 9"
    by (rule take_bit_nat_less_exp)
  then show ?thesis unfolding table_index_eq by (simp add: unsigned_take_bit_eq)
qed

lemma pte_is_valid_iff: "pte_is_valid e \<longleftrightarrow> bit e 0"
  using and_mask_zero_iff [of 0 e] by (simp add: pte_is_valid_def VALID_def)

lemma pte_is_table_iff: "pte_is_table e \<longleftrightarrow> bit e 1"
  using and_mask_zero_iff [of 1 e] by (simp add: pte_is_table_def TABLE_def)

lemma flags_contains_iff: "flags_contains f g \<longleftrightarrow> (\<forall>n. bit g n \<longrightarrow> bit f n)"
proof -
  have "f AND g = g \<longleftrightarrow> (\<forall>n. bit (f AND g) n = bit g n)" by (auto intro: bit_eqI)
  then show ?thesis by (auto simp: flags_contains_def bit_and_iff)
qed

lemma pte_is_valid_0 [simp]: "\<not> pte_is_valid 0"
  by (simp add: pte_is_valid_iff)

lemma pte_is_valid_leaf [simp]: "pte_is_valid (pte_set_addr a (flags_union f VALID))"
  by (simp add: pte_is_valid_iff pte_set_addr_def flags_union_def bit_or_iff bit_VALID)

lemma pte_is_valid_set_flags [simp]: "pte_is_valid (pte_set_flags e (flags_union f VALID))"
  by (simp add: pte_is_valid_iff pte_set_flags_def flags_union_def bit_or_iff bit_VALID)

lemma pte_is_table_table [simp]: "pte_is_table (pte_set_addr a (flags_union TABLE VALID))"
  by (simp add: pte_is_table_iff pte_set_addr_def flags_union_def bit_or_iff bit_TABLE)

lemma addr_mask_id:
  assumes "4096 dvd unat a" "unat a < 2 ^ 48"
  shows "a AND ADDR_MASK = a"
proof (rule bit_word_eqI)
  fix n :: nat
  have "take_bit 12 (unat a) = 0"
    using assms(1) by (simp add: take_bit_eq_0_iff)
  then have low: "\<not> bit a n" if "n < 12"
    using that by (metis bit_0_eq bit_take_bit_iff bot_apply bot_bool_def bit_unsigned_iff
        possible_bit_nat)
  have "2 ^ n \<le> unat a" if "bit a n"
  proof -
    have "bit (unat a) n" using that by (simp add: bit_unsigned_iff)
    then have "unat a div 2 ^ n \<noteq> 0" unfolding bit_iff_odd by (metis even_zero)
    then show ?thesis by (meson div_less not_le)
  qed
  then have high: "n < 48" if "bit a n"
    using assms(2) that by (metis le_less_trans power_strict_increasing_iff one_less_numeral_iff
        semiring_norm(76))
  show "bit (a AND ADDR_MASK) n = bit a n"
    using low high by (auto simp: bit_and_iff bit_ADDR_MASK not_less [symmetric])
qed

lemma phys_addr_table:
  assumes "a AND ADDR_MASK = a"
  shows "pte_phys_addr (pte_set_addr a (flags_union TABLE VALID)) = a"
proof (rule bit_word_eqI)
  fix n :: nat
  have "bit a n \<Longrightarrow> 12 \<le> n \<and> n < 48"
    using assms bit_and_iff [of a ADDR_MASK n] by (simp add: bit_ADDR_MASK)
  then show "bit (pte_phys_addr (pte_set_addr a (flags_union TABLE VALID))) n = bit a n"
    by (auto simp: pte_phys_addr_def pte_set_addr_def flags_union_def bit_and_iff bit_or_iff
        bit_ADDR_MASK bit_TABLE bit_VALID)
qed

lemma phys_addr_leaf:
  assumes "a AND ADDR_MASK = a" "f AND ADDR_MASK = 0"
  shows "pte_phys_addr (pte_set_addr a (flags_union f VALID)) = a"
proof (rule bit_word_eqI)
  fix n :: nat
  have "bit a n \<Longrightarrow> 12 \<le> n \<and> n < 48"
    using assms(1) bit_and_iff [of a ADDR_MASK n] by (simp add: bit_ADDR_MASK)
  moreover have "\<not> (bit f n \<and> 12 \<le> n \<and> n < 48)"
    using assms(2) bit_and_iff [of f ADDR_MASK n] by (simp add: bit_ADDR_MASK)
  ultimately show "bit (pte_phys_addr (pte_set_addr a (flags_union f VALID))) n = bit a n"
    by (auto simp: pte_phys_addr_def pte_set_addr_def flags_union_def bit_and_iff bit_or_iff
        bit_ADDR_MASK bit_VALID)
qed

lemma table_index_align_down [simp]:
  "table_index (align_down v) level = table_index v level"
proof -
  have "take_bit 9 (drop_bit (12 + (3 - level) * 9) (align_down v))
      = take_bit 9 (drop_bit (12 + (3 - level) * 9) v)"
    by (rule bit_word_eqI)
       (auto simp: bit_take_bit_iff bit_drop_bit_eq align_down_def bit_and_iff bit_not_iff mask_12
         bit_mask_iff)
  then show ?thesis by (simp only: table_index_eq)
qed

section \<open>The tree of tables\<close>

text \<open>\<open>tbl s t is\<close> follows the indices \<open>is\<close> from the table at \<open>t\<close>.\<close>

fun tbl :: "VirtualMemory \<Rightarrow> u64 \<Rightarrow> nat list \<Rightarrow> u64 option" where
  "tbl s t [] = Some t"
| "tbl s t (i # is) =
     (if pte_is_valid (pt_mem s t i) then tbl s (pte_phys_addr (pt_mem s t i)) is else None)"

lemma tbl_append: "tbl s t (p @ q) = (case tbl s t p of None \<Rightarrow> None | Some u \<Rightarrow> tbl s u q)"
  by (induction p arbitrary: t) auto

definition index_path :: "nat list \<Rightarrow> bool" where
  "index_path p \<longleftrightarrow> length p \<le> 3 \<and> set p \<subseteq> {..<512}"

definition owned_page :: "VirtualMemory \<Rightarrow> u64 \<Rightarrow> bool" where
  "owned_page s t \<longleftrightarrow> (\<exists>k \<in> allocated (vm_phys s). t = page_addr (vm_phys s) k)"

text \<open>
  The invariant: the physical allocator is consistent and below the 48 bits an entry can hold;
  the tables reachable through valid entries form a tree, lie in allocated pages, and every
  valid entry above the last level is a table entry.
\<close>

definition vm_wf :: "VirtualMemory \<Rightarrow> bool" where
  "vm_wf s \<longleftrightarrow>
     phys_inv (vm_phys s) \<and>
     unat (base_addr (vm_phys s)) + pa_total_pages (vm_phys s) * 4096 \<le> 2 ^ 48 \<and>
     (\<forall>p q t. index_path p \<longrightarrow> index_path q \<longrightarrow> tbl s (root_table s) p = Some t \<longrightarrow>
        tbl s (root_table s) q = Some t \<longrightarrow> p = q) \<and>
     (\<forall>p t. index_path p \<longrightarrow> tbl s (root_table s) p = Some t \<longrightarrow> owned_page s t) \<and>
     (\<forall>p t i. index_path p \<longrightarrow> length p < 3 \<longrightarrow> i < 512 \<longrightarrow> tbl s (root_table s) p = Some t \<longrightarrow>
        pte_is_valid (pt_mem s t i) \<longrightarrow> pte_is_table (pt_mem s t i))"

lemma vm_wf_phys: "vm_wf s \<Longrightarrow> phys_inv (vm_phys s)"
  and vm_wf_48: "vm_wf s \<Longrightarrow> unat (base_addr (vm_phys s)) + pa_total_pages (vm_phys s) * 4096 \<le> 2 ^ 48"
  and vm_wf_inj: "vm_wf s \<Longrightarrow> index_path p \<Longrightarrow> index_path q \<Longrightarrow> tbl s (root_table s) p = Some t \<Longrightarrow>
        tbl s (root_table s) q = Some t \<Longrightarrow> p = q"
  and vm_wf_owned: "vm_wf s \<Longrightarrow> index_path p \<Longrightarrow> tbl s (root_table s) p = Some t \<Longrightarrow> owned_page s t"
  and vm_wf_table: "vm_wf s \<Longrightarrow> index_path p \<Longrightarrow> length p < 3 \<Longrightarrow> i < 512 \<Longrightarrow>
        tbl s (root_table s) p = Some t \<Longrightarrow> pte_is_valid (pt_mem s t i) \<Longrightarrow> pte_is_table (pt_mem s t i)"
  unfolding vm_wf_def by blast+

lemma vm_wfI:
  assumes "phys_inv (vm_phys s)"
    "unat (base_addr (vm_phys s)) + pa_total_pages (vm_phys s) * 4096 \<le> 2 ^ 48"
    "\<And>p q t. index_path p \<Longrightarrow> index_path q \<Longrightarrow> tbl s (root_table s) p = Some t \<Longrightarrow>
        tbl s (root_table s) q = Some t \<Longrightarrow> p = q"
    "\<And>p t. index_path p \<Longrightarrow> tbl s (root_table s) p = Some t \<Longrightarrow> owned_page s t"
    "\<And>p t i. index_path p \<Longrightarrow> length p < 3 \<Longrightarrow> i < 512 \<Longrightarrow> tbl s (root_table s) p = Some t \<Longrightarrow>
        pte_is_valid (pt_mem s t i) \<Longrightarrow> pte_is_table (pt_mem s t i)"
  shows "vm_wf s"
  using assms unfolding vm_wf_def by blast

text \<open>The leaf entry at three table indices and a last index; the abstract page map.\<close>

definition leaf :: "VirtualMemory \<Rightarrow> nat list \<Rightarrow> nat \<Rightarrow> u64 option" where
  "leaf s q j = (case tbl s (root_table s) q of
     None \<Rightarrow> None
   | Some t \<Rightarrow> if pte_is_valid (pt_mem s t j) then Some (pt_mem s t j) else None)"

definition va_path :: "u64 \<Rightarrow> nat list" where
  "va_path v = [table_index v 0, table_index v 1, table_index v 2]"

definition page_map :: "VirtualMemory \<Rightarrow> u64 \<Rightarrow> u64 option" where
  "page_map s v = leaf s (va_path v) (table_index v 3)"

lemma index_path_va [simp]: "index_path (va_path v)"
  by (simp add: index_path_def va_path_def)

lemma length_va_path [simp]: "length (va_path v) = 3"
  by (simp add: va_path_def)

lemma index_path_append: "index_path (p @ [i]) \<longleftrightarrow> index_path p \<and> length p < 3 \<and> i < 512"
  by (auto simp: index_path_def)

section \<open>Writing an entry\<close>

lemma set_entry_simps [simp]:
  "root_table (set_entry s t i e) = root_table s"
  "vm_phys (set_entry s t i e) = vm_phys s"
  "pt_mem (set_entry s t i e) u j = (if u = t \<and> j = i then e else pt_mem s u j)"
  by (simp_all add: set_entry_def)

text \<open>Writing into a table of the last level moves no table.\<close>

lemma tbl_set_leaf:
  assumes wf: "vm_wf s" and p: "index_path p" "length p = 3" "tbl s (root_table s) p = Some t"
    and q: "index_path q"
  shows "tbl (set_entry s t i e) (root_table s) q = tbl s (root_table s) q"
  using q
proof (induction q rule: rev_induct)
  case (snoc j q)
  then have q: "index_path q" "length q < 3" by (auto simp: index_path_append)
  have "u \<noteq> t" if "tbl s (root_table s) q = Some u" for u
    using vm_wf_inj [OF wf p(1) q(1) p(3)] that p(2) q(2) by auto
  with snoc.IH q(1) show ?case
    by (auto simp: tbl_append split: option.splits)
qed simp

lemma set_leaf:
  assumes wf: "vm_wf s" and t: "tbl s (root_table s) (va_path v) = Some t"
  shows "vm_wf (set_entry s t (table_index v 3) e)"
    and "page_map (set_entry s t (table_index v 3) e) w =
      (if va_path w = va_path v \<and> table_index w 3 = table_index v 3
       then (if pte_is_valid e then Some e else None) else page_map s w)"
proof -
  let ?s = "set_entry s t (table_index v 3) e"
  have same: "tbl ?s (root_table s) q = tbl s (root_table s) q" if "index_path q" for q
    by (rule tbl_set_leaf [OF wf _ _ t that]) simp_all
  have above: "u \<noteq> t" if "index_path q" "length q < 3" "tbl s (root_table s) q = Some u" for q u
    using vm_wf_inj [OF wf index_path_va that(1) t] that(2,3) by fastforce
  show "vm_wf ?s"
    unfolding vm_wf_def
    using vm_wf_phys [OF wf] vm_wf_48 [OF wf] vm_wf_inj [OF wf] vm_wf_owned [OF wf]
      vm_wf_table [OF wf] above
    by (simp add: same owned_page_def)
  show "page_map ?s w =
      (if va_path w = va_path v \<and> table_index w 3 = table_index v 3
       then (if pte_is_valid e then Some e else None) else page_map s w)"
  proof (cases "tbl s (root_table s) (va_path w)")
    case None
    with t show ?thesis by (auto simp: page_map_def leaf_def same)
  next
    case (Some u)
    have "u = t \<longleftrightarrow> va_path w = va_path v"
    proof
      assume "u = t"
      with Some show "va_path w = va_path v"
        using vm_wf_inj [OF wf index_path_va index_path_va _ t] by blast
    next
      assume "va_path w = va_path v"
      with Some t show "u = t" by simp
    qed
    with Some show ?thesis by (auto simp: page_map_def leaf_def same)
  qed
qed

section \<open>Adding an empty table\<close>

definition new_table :: "VirtualMemory \<Rightarrow> PhysicalAllocator \<Rightarrow> u64 \<Rightarrow> nat \<Rightarrow> u64 \<Rightarrow> VirtualMemory" where
  "new_table s pa cur i n =
     set_entry (s\<lparr>vm_phys := pa, pt_mem := (pt_mem s)(n := pt_clear (pt_mem s n))\<rparr>) cur i
       (pte_set_addr n (flags_union TABLE VALID))"

lemma new_table_simps [simp]:
  "root_table (new_table s pa cur i n) = root_table s"
  "vm_phys (new_table s pa cur i n) = pa"
  by (simp_all add: new_table_def)

lemma new_table_mem:
  "u \<noteq> n \<Longrightarrow> pt_mem (new_table s pa cur i n) u j =
     (if u = cur \<and> j = i then pte_set_addr n (flags_union TABLE VALID) else pt_mem s u j)"
  "cur \<noteq> n \<Longrightarrow> j < 512 \<Longrightarrow> pt_mem (new_table s pa cur i n) n j = 0"
  by (auto simp: new_table_def pt_clear_def)

lemma tbl_new_table:
  assumes wf: "vm_wf s" and p: "index_path p" "length p < 3" "tbl s (root_table s) p = Some cur"
    and i: "i < 512" "\<not> pte_is_valid (pt_mem s cur i)"
    and n: "n AND ADDR_MASK = n" "\<And>q. index_path q \<Longrightarrow> tbl s (root_table s) q \<noteq> Some n"
    and q: "index_path q"
  shows "tbl (new_table s pa cur i n) (root_table s) q =
           (if q = p @ [i] then Some n else tbl s (root_table s) q)"
  using q
proof (induction q rule: rev_induct)
  case (snoc j q)
  then have q: "index_path q" "length q < 3" "j < 512" by (auto simp: index_path_append)
  have none: "tbl s (root_table s) (p @ [i]) = None" using p(3) i(2) by (simp add: tbl_append)
  have cur: "cur \<noteq> n" using n(2) [OF p(1)] p(3) by auto
  show ?case
  proof (cases "q = p @ [i]")
    case True
    then have "tbl (new_table s pa cur i n) (root_table s) q = Some n" using snoc.IH q(1) by simp
    moreover have "tbl s (root_table s) (q @ [j]) = None"
      by (simp only: True none tbl_append [of s "root_table s" "p @ [i]" "[j]"] option.case)
    moreover have "q @ [j] \<noteq> p @ [i]" using True by simp
    ultimately show ?thesis
      using tbl_append [of "new_table s pa cur i n" "root_table s" q "[j]"] new_table_mem(2) [OF cur q(3)]
      by simp
  next
    case False
    show ?thesis
    proof (cases "tbl s (root_table s) q")
      case None
      with False snoc.IH q(1) p(3) show ?thesis by (auto simp: tbl_append)
    next
      case (Some u)
      have "u \<noteq> n" using n(2) [OF q(1)] Some by auto
      moreover have "u = cur \<longleftrightarrow> q = p"
        using vm_wf_inj [OF wf q(1) p(1) Some] p(3) Some by auto
      ultimately show ?thesis
        using False snoc.IH q(1) Some i(2)
        by (auto simp: tbl_append new_table_mem(1) phys_addr_table [OF n(1)] pte_is_valid_leaf)
    qed
  qed
qed simp

lemma page_addr_48:
  assumes "vm_wf s" "k < pa_total_pages (vm_phys s)"
  shows "page_addr (vm_phys s) k AND ADDR_MASK = page_addr (vm_phys s) k"
proof (rule addr_mask_id)
  show "4096 dvd unat (page_addr (vm_phys s) k)"
    by (rule page_addr_aligned [OF vm_wf_phys [OF assms(1)] assms(2)])
  have "Suc k * 4096 \<le> pa_total_pages (vm_phys s) * 4096" using assms(2) by (intro mult_le_mono1) simp
  then show "unat (page_addr (vm_phys s) k) < 2 ^ 48"
    using unat_page_addr [OF vm_wf_phys [OF assms(1)] assms(2)] vm_wf_48 [OF assms(1)] by simp
qed

lemma page_addr_inj:
  assumes "phys_inv pa" "k < pa_total_pages pa" "l < pa_total_pages pa" "page_addr pa k = page_addr pa l"
  shows "k = l"
proof -
  have "unat (base_addr pa) + k * 4096 = unat (base_addr pa) + l * 4096"
    unfolding unat_page_addr [OF assms(1,2), symmetric] unat_page_addr [OF assms(1,3), symmetric]
    by (simp only: assms(4))
  then show ?thesis by simp
qed

lemma new_table_wf:
  assumes wf: "vm_wf s" and p: "index_path p" "length p < 3" "tbl s (root_table s) p = Some cur"
    and i: "i < 512" "\<not> pte_is_valid (pt_mem s cur i)"
    and al: "alloc_page (vm_phys s) = (Ok n, pa)"
  shows "vm_wf (new_table s pa cur i n) \<and>
         tbl (new_table s pa cur i n) (root_table s) (p @ [i]) = Some n \<and>
         page_map (new_table s pa cur i n) v = page_map s v"
proof -
  let ?s = "new_table s pa cur i n"
  have inv: "phys_inv (vm_phys s)" by (rule vm_wf_phys [OF wf])
  obtain k where k: "n = page_addr (vm_phys s) k" "phys_inv pa"
    "allocated pa = allocated (vm_phys s) \<union> {k..<k + 1}" "base_addr pa = base_addr (vm_phys s)"
    "pa_total_pages pa = pa_total_pages (vm_phys s)"
    and lt: "k < pa_total_pages (vm_phys s)" "k \<notin> allocated (vm_phys s)"
    using alloc_page_cases [OF inv al] by auto
  have pa_addr: "page_addr pa = page_addr (vm_phys s)" by (rule ext) (simp add: page_addr_def k(4))
  have mask: "n AND ADDR_MASK = n" unfolding k(1) by (rule page_addr_48 [OF wf lt(1)])
  have fresh: "tbl s (root_table s) q \<noteq> Some n" if "index_path q" for q
  proof
    assume "tbl s (root_table s) q = Some n"
    then have "owned_page s n" by (rule vm_wf_owned [OF wf that])
    then obtain l where l: "l \<in> allocated (vm_phys s)" "n = page_addr (vm_phys s) l"
      by (auto simp: owned_page_def)
    then have "l < pa_total_pages (vm_phys s)" using inv by (auto simp: phys_inv_def)
    then have "k = l" using page_addr_inj [OF inv lt(1)] k(1) l(2) by simp
    with l(1) lt(2) show False by simp
  qed
  have tbl': "tbl ?s (root_table s) q = (if q = p @ [i] then Some n else tbl s (root_table s) q)"
    if "index_path q" for q
    by (rule tbl_new_table [OF wf p i mask fresh that])
  have none: "tbl s (root_table s) (p @ [i]) = None" using p(3) i(2) by (simp add: tbl_append)
  have path: "index_path (p @ [i])" using p i by (simp add: index_path_append)
  have own: "owned_page ?s t" if "owned_page s t \<or> t = n" for t
    using that k(1,3) by (auto simp: owned_page_def pa_addr)
  have tab: "pte_is_table (pt_mem ?s t j)"
    if "index_path q" "length q < 3" "j < 512" "tbl ?s (root_table s) q = Some t"
      "pte_is_valid (pt_mem ?s t j)" for q t j
  proof (cases "q = p @ [i]")
    case True
    then have "t = n" using that(1,4) tbl' by simp
    moreover have "cur \<noteq> n" using fresh [OF p(1)] p(3) by auto
    ultimately show ?thesis using that(3,5) new_table_mem(2) by auto
  next
    case False
    then have t: "tbl s (root_table s) q = Some t" using that(1,4) tbl' by simp
    then have "t \<noteq> n" using fresh [OF that(1)] by auto
    then show ?thesis
      using that(5) vm_wf_table [OF wf that(1,2,3) t] by (auto simp: new_table_mem(1) split: if_splits)
  qed
  have inj: "q = r" if "index_path q" "index_path r" "tbl ?s (root_table s) q = Some t"
      "tbl ?s (root_table s) r = Some t" for q r t
    using that tbl' fresh vm_wf_inj [OF wf] by (auto split: if_splits)
  have old: "owned_page s t \<or> t = n" if "index_path q" "tbl ?s (root_table s) q = Some t" for q t
    using that tbl' vm_wf_owned [OF wf] by (auto split: if_splits)
  have "vm_wf ?s"
  proof (rule vm_wfI, unfold new_table_simps)
    show "phys_inv pa" by (rule k(2))
    show "unat (base_addr pa) + pa_total_pages pa * 4096 \<le> 2 ^ 48"
      unfolding k(4,5) by (rule vm_wf_48 [OF wf])
  qed (fact inj, rule own, rule old, assumption+, fact tab)
  moreover have "page_map ?s v = page_map s v"
  proof (cases "va_path v = p @ [i]")
    case True
    have "cur \<noteq> n" using fresh [OF p(1)] p(3) by auto
    with True none tbl' [OF path] show ?thesis
      by (simp add: page_map_def leaf_def new_table_mem(2))
  next
    case False
    have "u \<noteq> n \<and> u \<noteq> cur" if "tbl s (root_table s) (va_path v) = Some u" for u
      using fresh [OF index_path_va] vm_wf_inj [OF wf index_path_va p(1) that] p(2,3) that
      by (metis length_va_path less_irrefl)
    with False tbl' [OF index_path_va, of v] show ?thesis
      by (auto simp: page_map_def leaf_def new_table_mem(1) split: option.splits)
  qed
  ultimately show ?thesis using tbl' [OF path] by simp
qed

section \<open>The operations refine the page map\<close>

lemma map_level_spec:
  assumes wf: "vm_wf s" and p: "index_path p" "length p = level" "level < 3"
    and cur: "tbl s (root_table s) p = Some cur"
  shows "case map_level s v cur level of (r, s1) \<Rightarrow>
    vm_wf s1 \<and> root_table s1 = root_table s \<and> page_map s1 = page_map s \<and>
    (case r of Ok c \<Rightarrow> tbl s1 (root_table s) (p @ [table_index v level]) = Some c
             | Err e \<Rightarrow> e = Memory MemOutOfMemory
             | Panic \<Rightarrow> False)"
proof (cases "pte_is_valid (pt_mem s cur (table_index v level))")
  case True
  with wf cur show ?thesis
    by (simp add: map_level_def pt_entry_def Let_def tbl_append)
next
  case False
  let ?i = "table_index v level"
  obtain r pa where al: "alloc_page (vm_phys s) = (r, pa)" by (cases "alloc_page (vm_phys s)")
  show ?thesis
  proof (cases "is_ok r")
    case True
    then obtain n where n: "r = Ok n" by (auto simp: is_ok_iff)
    have new: "vm_wf (new_table s pa cur ?i n) \<and>
         tbl (new_table s pa cur ?i n) (root_table s) (p @ [?i]) = Some n \<and>
         page_map (new_table s pa cur ?i n) v = page_map s v" for v
      by (rule new_table_wf [OF wf p(1) _ cur _ False]) (use al n p in simp_all)
    obtain k where k: "n = page_addr (vm_phys s) k" "k < pa_total_pages (vm_phys s)"
      using alloc_page_cases [OF vm_wf_phys [OF wf] al] n by auto
    have "pte_phys_addr (pte_set_addr n (flags_union TABLE VALID)) = n"
      using phys_addr_table page_addr_48 [OF wf k(2)] k(1) by simp
    with False al n have "map_level s v cur level = (Ok n, new_table s pa cur ?i n)"
      by (simp add: map_level_def pt_entry_def Let_def new_table_def)
    with new show ?thesis by auto
  next
    case fail: False
    then have "pa = vm_phys s" "r = Err (Memory MemOutOfMemory)"
      using alloc_page_fail [OF vm_wf_phys [OF wf] al] by simp_all
    with False al wf show ?thesis by (simp add: map_level_def pt_entry_def Let_def)
  qed
qed

lemma map_walk_spec:
  assumes wf: "vm_wf s"
  shows "case map_walk s v (root_table s) [0, 1, 2] of (r, s1) \<Rightarrow>
    vm_wf s1 \<and> root_table s1 = root_table s \<and> page_map s1 = page_map s \<and>
    (case r of Ok c \<Rightarrow> tbl s1 (root_table s1) (va_path v) = Some c
             | Err e \<Rightarrow> e = Memory MemOutOfMemory
             | Panic \<Rightarrow> False)"
proof -
  obtain r1 s1 where 1: "map_level s v (root_table s) 0 = (r1, s1)"
    by (cases "map_level s v (root_table s) 0")
  note m1 = map_level_spec [OF wf, of "[]" 0 "root_table s" v, unfolded 1, simplified index_path_def, simplified]
  show ?thesis
  proof (cases r1)
    case (Ok c1)
    obtain r2 s2 where 2: "map_level s1 v c1 1 = (r2, s2)" by (cases "map_level s1 v c1 1")
    have m2: "case (r2, s2) of (r, s2) \<Rightarrow> vm_wf s2 \<and> root_table s2 = root_table s1 \<and>
        page_map s2 = page_map s1 \<and>
        (case r of Ok c \<Rightarrow> tbl s2 (root_table s1) ([table_index v 0] @ [table_index v 1]) = Some c
             | Err e \<Rightarrow> e = Memory MemOutOfMemory | Panic \<Rightarrow> False)"
      unfolding 2 [symmetric]
      by (rule map_level_spec) (use m1 Ok in \<open>auto simp: index_path_def\<close>)
    show ?thesis
    proof (cases r2)
      case ok2: (Ok c2)
      obtain r3 s3 where 3: "map_level s2 v c2 2 = (r3, s3)" by (cases "map_level s2 v c2 2")
      have "case (r3, s3) of (r, s3) \<Rightarrow> vm_wf s3 \<and> root_table s3 = root_table s2 \<and>
          page_map s3 = page_map s2 \<and>
          (case r of Ok c \<Rightarrow> tbl s3 (root_table s2)
                ([table_index v 0, table_index v 1] @ [table_index v 2]) = Some c
               | Err e \<Rightarrow> e = Memory MemOutOfMemory | Panic \<Rightarrow> False)"
        unfolding 3 [symmetric]
        by (rule map_level_spec) (use m1 m2 Ok ok2 in \<open>auto simp: index_path_def\<close>)
      with 1 2 3 m1 m2 Ok ok2 show ?thesis
        by (cases r3) (auto simp: va_path_def simp del: tbl.simps)
    qed (use 1 2 m1 m2 Ok in \<open>auto simp del: tbl.simps\<close>)
  qed (use 1 m1 in \<open>auto simp del: tbl.simps\<close>)
qed

lemma table_walk_spec:
  "table_walk s v (root_table s) [0, Suc 0, 2] =
     (case tbl s (root_table s) (va_path v) of None \<Rightarrow> Err (Memory MemNotMapped) | Some t \<Rightarrow> Ok t)"
  by (auto simp: va_path_def pt_entry_def)

lemma vm_translate_page_map:
  assumes wf: "vm_wf s"
  shows "vm_translate s v = (case page_map s v of
      None \<Rightarrow> Err (Memory MemNotMapped)
    | Some e \<Rightarrow> Ok (pte_phys_addr e + page_offset v))"
proof -
  let ?r = "root_table s"
  have block: "\<not> pte_is_block (pt_mem s t i)"
    if "index_path p" "length p < 3" "tbl s ?r p = Some t" "i < 512" for p t i
    using vm_wf_table [OF wf that(1,2,4,3)] by (auto simp: pte_is_block_def)
  have 0: "\<not> pte_is_block (pt_mem s ?r (table_index v 0))"
    by (rule block [of "[]"]) (simp_all add: index_path_def)
  have 1: "\<not> pte_is_block (pt_mem s t (table_index v 1))"
    if "tbl s ?r [table_index v 0] = Some t" for t
    by (rule block [OF _ _ that]) (simp_all add: index_path_def)
  have 2: "\<not> pte_is_block (pt_mem s t (table_index v 2))"
    if "tbl s ?r [table_index v 0, table_index v 1] = Some t" for t
    by (rule block [OF _ _ that]) (simp_all add: index_path_def)
  show ?thesis
    using 0 1 2 by (auto simp: vm_translate_def page_map_def leaf_def va_path_def pt_entry_def)
qed

text \<open>Addresses made by \<open>VirtAddr::new\<close>; on them the four indices identify the page.\<close>

definition virt_ok :: "u64 \<Rightarrow> bool" where
  "virt_ok v \<longleftrightarrow> v AND VA_MASK = v"

lemma virt_ok_new [simp]: "virt_ok (virt_new a)"
  by (simp add: virt_ok_def virt_new_def ac_simps)

lemma virt_ok_bit: "virt_ok v \<Longrightarrow> bit v n \<Longrightarrow> n < 48"
  using bit_and_iff [of v VA_MASK n] by (simp add: virt_ok_def VA_MASK_eq bit_mask_iff)

lemma bit_align_down: "bit (align_down v) n \<longleftrightarrow> bit v n \<and> 12 \<le> n"
  by (auto simp: align_down_def bit_and_iff bit_not_iff mask_12 bit_mask_iff dest: bit_imp_le_length)

lemma bit_by_index:
  assumes "12 \<le> n" "n < 48"
  shows "bit v n = bit (take_bit 9 (drop_bit (12 + (3 - (3 - (n - 12) div 9)) * 9) v)) ((n - 12) mod 9)"
proof -
  have "(n - 12) div 9 \<le> 3" using assms by (simp add: div_le_mono less_mult_imp_div_less)
  then have "3 - (3 - (n - 12) div 9) = (n - 12) div 9" by simp
  moreover have "12 + ((n - 12) div 9 * 9 + (n - 12) mod 9) = n" using assms by simp
  ultimately show ?thesis by (simp add: bit_take_bit_iff bit_drop_bit_eq add.assoc)
qed

lemma same_page_iff:
  assumes "virt_ok v" "virt_ok w"
  shows "va_path w = va_path v \<and> table_index w 3 = table_index v 3 \<longleftrightarrow> align_down w = align_down v"
proof
  assume "align_down w = align_down v"
  then have "table_index w l = table_index v l" for l by (metis table_index_align_down)
  then show "va_path w = va_path v \<and> table_index w 3 = table_index v 3" by (simp add: va_path_def)
next
  assume same: "va_path w = va_path v \<and> table_index w 3 = table_index v 3"
  have index: "take_bit 9 (drop_bit (12 + (3 - l) * 9) w) = take_bit 9 (drop_bit (12 + (3 - l) * 9) v)"
    if "l \<le> 3" for l
  proof -
    have "l = 0 \<or> l = 1 \<or> l = 2 \<or> l = 3" using that by auto
    then have "table_index w l = table_index v l" using same by (auto simp: va_path_def)
    then show ?thesis by (simp only: table_index_eq word_unat_eq_iff)
  qed
  show "align_down w = align_down v"
  proof (rule bit_word_eqI)
    fix n
    show "bit (align_down w) n = bit (align_down v) n"
    proof (cases "12 \<le> n \<and> n < 48")
      case True
      then have "bit w n = bit v n"
        using bit_by_index [of n w] bit_by_index [of n v] index [of "3 - (n - 12) div 9"] by simp
      then show ?thesis by (simp add: bit_align_down)
    next
      case False
      then show ?thesis using assms virt_ok_bit by (auto simp: bit_align_down)
    qed
  qed
qed

lemma virt_is_aligned_iff: "virt_is_aligned v \<longleftrightarrow> align_down v = v"
proof -
  have "v mod 4096 = take_bit 12 v" by (simp add: take_bit_eq_mod)
  moreover have "take_bit 12 v = 0 \<longleftrightarrow> align_down v = v"
  proof
    assume zero: "take_bit 12 v = 0"
    show "align_down v = v"
    proof (rule bit_word_eqI)
      fix n
      have "\<not> (n < 12 \<and> bit v n)" using arg_cong [OF zero, of "\<lambda>w. bit w n"] by (simp add: bit_take_bit_iff)
      then show "bit (align_down v) n = bit v n" by (auto simp: bit_align_down)
    qed
  next
    assume down: "align_down v = v"
    show "take_bit 12 v = 0"
    proof (rule bit_word_eqI)
      fix n
      have "bit v n \<longrightarrow> 12 \<le> n" using arg_cong [OF down, of "\<lambda>w. bit w n"] by (auto simp: bit_align_down)
      then show "bit (take_bit 12 v) n = bit 0 n" by (auto simp: bit_take_bit_iff)
    qed
  qed
  ultimately show ?thesis by (simp add: virt_is_aligned_def)
qed

lemma page_map_same_page:
  "virt_ok v \<Longrightarrow> virt_ok w \<Longrightarrow> align_down w = align_down v \<Longrightarrow> page_map s w = page_map s v"
  using same_page_iff [of v w] by (simp add: page_map_def)

lemma validate_wx_cases: "validate_wx f = Ok () \<or> validate_wx f = Err (Security SecPermissionDenied)"
  by (simp add: validate_wx_def Let_def)

text \<open>What a successful leaf write does to the page map, seen from page addresses.\<close>

lemma set_leaf_page_map:
  assumes wf: "vm_wf s" and t: "tbl s (root_table s) (va_path v) = Some t"
    and ok: "virt_ok v" "virt_is_aligned v" "virt_ok w"
  shows "page_map (set_entry s t (table_index v 3) e) w =
    (if align_down w = v then (if pte_is_valid e then Some e else None) else page_map s w)"
  using set_leaf(2) [OF wf t] same_page_iff [OF ok(1,3)] ok(2) by (simp add: virt_is_aligned_iff)

lemma vm_map_spec:
  assumes wf: "vm_wf s"
  shows "case vm_map s v phys flags of (r, s1) \<Rightarrow>
    vm_wf s1 \<and> root_table s1 = root_table s \<and>
    (if r = Ok () then
       virt_is_aligned v \<and> phys_is_aligned phys \<and> validate_wx flags = Ok () \<and> page_map s v = None \<and>
       (\<exists>s0 t. vm_wf s0 \<and> page_map s0 = page_map s \<and> tbl s0 (root_table s0) (va_path v) = Some t \<and>
          s1 = set_entry s0 t (table_index v 3) (pte_set_addr phys (flags_union flags VALID)))
     else page_map s1 = page_map s \<and>
       r = (if \<not> virt_is_aligned v \<or> \<not> phys_is_aligned phys then Err (Memory MemInvalidAlignment)
            else if validate_wx flags \<noteq> Ok () then Err (Security SecPermissionDenied)
            else if r = Err (Memory MemOutOfMemory) then r
            else Err (Memory MemAlreadyMapped)) \<and>
       (r = Err (Memory MemAlreadyMapped) \<longrightarrow> page_map s v \<noteq> None))"
proof (cases "virt_is_aligned v \<and> phys_is_aligned phys \<and> validate_wx flags = Ok ()")
  case False
  with wf validate_wx_cases [of flags] show ?thesis by (auto simp: vm_map_def)
next
  case True
  obtain r s0 where w: "map_walk s v (root_table s) [0, 1, 2] = (r, s0)"
    by (cases "map_walk s v (root_table s) [0, 1, 2]")
  note spec = map_walk_spec [OF wf, of v, unfolded w]
  show ?thesis
  proof (cases r)
    case (Ok t)
    then have t: "tbl s0 (root_table s0) (va_path v) = Some t" and wf0: "vm_wf s0"
      and same: "page_map s0 = page_map s" "root_table s0 = root_table s" using spec by auto
    have pm: "page_map s v = (if pte_is_valid (pt_mem s0 t (table_index v 3))
        then Some (pt_mem s0 t (table_index v 3)) else None)"
      using t by (simp add: page_map_def leaf_def flip: same)
    show ?thesis
    proof (cases "pte_is_valid (pt_mem s0 t (table_index v 3))")
      case valid: True
      with True w Ok wf0 same pm show ?thesis by (simp add: vm_map_def pt_entry_def Let_def)
    next
      case False
      with True w Ok wf0 same pm t set_leaf(1) [OF wf0 t] show ?thesis
        by (auto simp: vm_map_def pt_entry_def Let_def)
    qed
  qed (use True w spec in \<open>auto simp: vm_map_def\<close>)
qed

lemma vm_unmap_spec:
  assumes wf: "vm_wf s"
  shows "case vm_unmap s v of (r, s1) \<Rightarrow>
    vm_wf s1 \<and> root_table s1 = root_table s \<and>
    (case r of
       Ok p \<Rightarrow> virt_is_aligned v \<and> map_option pte_phys_addr (page_map s v) = Some p \<and>
         (\<exists>t. tbl s (root_table s) (va_path v) = Some t \<and> s1 = set_entry s t (table_index v 3) 0)
     | Err e \<Rightarrow> s1 = s \<and> e = Memory (if virt_is_aligned v then MemNotMapped else MemInvalidAlignment) \<and>
         (virt_is_aligned v \<longrightarrow> page_map s v = None)
     | Panic \<Rightarrow> False)"
proof (cases "tbl s (root_table s) (va_path v)")
  case None
  with wf show ?thesis
    by (simp add: vm_unmap_def table_walk_spec page_map_def leaf_def del: table_walk.simps)
next
  case (Some t)
  with wf set_leaf(1) [OF wf Some] show ?thesis
    by (auto simp: vm_unmap_def table_walk_spec page_map_def leaf_def pt_entry_def Let_def
        simp del: table_walk.simps)
qed

lemma vm_protect_spec:
  assumes wf: "vm_wf s"
  shows "case vm_protect s v flags of (r, s1) \<Rightarrow>
    vm_wf s1 \<and> root_table s1 = root_table s \<and>
    (if r = Ok () then
       virt_is_aligned v \<and> validate_wx flags = Ok () \<and>
       (\<exists>t e. page_map s v = Some e \<and> tbl s (root_table s) (va_path v) = Some t \<and>
          s1 = set_entry s t (table_index v 3) (pte_set_flags e (flags_union flags VALID)))
     else s1 = s \<and>
       r = (if \<not> virt_is_aligned v then Err (Memory MemInvalidAlignment)
            else if validate_wx flags \<noteq> Ok () then Err (Security SecPermissionDenied)
            else Err (Memory MemNotMapped)))"
proof (cases "tbl s (root_table s) (va_path v)")
  case None
  with wf validate_wx_cases [of flags] show ?thesis
    by (auto simp: vm_protect_def table_walk_spec page_map_def leaf_def simp del: table_walk.simps)
next
  case (Some t)
  with wf set_leaf(1) [OF wf Some] validate_wx_cases [of flags] show ?thesis
    by (auto simp: vm_protect_def table_walk_spec page_map_def leaf_def pt_entry_def Let_def
        simp del: table_walk.simps)
qed

section \<open>Sequences of operations\<close>

datatype vm_op = Map u64 u64 u64 | Unmap u64 | Protect u64 u64

fun vm_exec :: "VirtualMemory \<Rightarrow> vm_op \<Rightarrow> bool \<times> VirtualMemory" where
  "vm_exec s (Map v p f) = apfst is_ok (vm_map s v p f)"
| "vm_exec s (Unmap v) = apfst is_ok (vm_unmap s v)"
| "vm_exec s (Protect v f) = apfst is_ok (vm_protect s v f)"

text \<open>The abstract state: leaf entries by page address; and the abstract operations.\<close>

definition vm_abs :: "VirtualMemory \<Rightarrow> u64 \<rightharpoonup> u64" where
  "vm_abs s = (\<lambda>w. if virt_ok w \<and> virt_is_aligned w then page_map s w else None)"

fun abs_exec :: "(u64 \<rightharpoonup> u64) \<Rightarrow> vm_op \<Rightarrow> u64 \<rightharpoonup> u64" where
  "abs_exec m (Map v p f) = m(v \<mapsto> pte_set_addr p (flags_union f VALID))"
| "abs_exec m (Unmap v) = m(v := None)"
| "abs_exec m (Protect v f) = m(v := map_option (\<lambda>e. pte_set_flags e (flags_union f VALID)) (m v))"

fun op_addr :: "vm_op \<Rightarrow> u64" where
  "op_addr (Map v p f) = v"
| "op_addr (Unmap v) = v"
| "op_addr (Protect v f) = v"

lemma vm_abs_set_leaf:
  assumes "vm_wf s" "tbl s (root_table s) (va_path v) = Some t" "virt_ok v" "virt_is_aligned v"
  shows "vm_abs (set_entry s t (table_index v 3) e) =
           (vm_abs s)(v := if pte_is_valid e then Some e else None)"
  using set_leaf_page_map [OF assms] assms(3,4)
  by (auto simp: vm_abs_def fun_eq_iff virt_is_aligned_iff)

lemma vm_exec_wf: "vm_wf s \<Longrightarrow> vm_wf (snd (vm_exec s op))"
proof (cases op)
  case (Map v p f)
  assume "vm_wf s"
  with Map vm_map_spec [of s v p f] show ?thesis by (auto split: prod.splits)
next
  case (Unmap v)
  assume "vm_wf s"
  with Unmap vm_unmap_spec [of s v] show ?thesis by (auto split: prod.splits)
next
  case (Protect v f)
  assume "vm_wf s"
  with Protect vm_protect_spec [of s v f] show ?thesis by (auto split: prod.splits)
qed

lemma vm_exec_refines:
  assumes wf: "vm_wf s" and ok: "virt_ok (op_addr op)"
  shows "vm_abs (snd (vm_exec s op)) =
           (if fst (vm_exec s op) then abs_exec (vm_abs s) op else vm_abs s)"
proof (cases op)
  case (Map v p f)
  obtain r s1 where r: "vm_map s v p f = (r, s1)" by (cases "vm_map s v p f")
  note spec = vm_map_spec [OF wf, of v p f, unfolded r prod.case]
  show ?thesis
  proof (cases "r = Ok ()")
    case True
    with spec obtain s0 t where s0: "vm_wf s0" "page_map s0 = page_map s"
      "tbl s0 (root_table s0) (va_path v) = Some t" "virt_is_aligned v"
      "s1 = set_entry s0 t (table_index v 3) (pte_set_addr p (flags_union f VALID))" by auto
    moreover have "vm_abs s0 = vm_abs s" by (simp add: vm_abs_def s0(2) cong: if_cong)
    ultimately show ?thesis
      using Map r True ok vm_abs_set_leaf [OF s0(1,3) _ s0(4)] by simp
  next
    case False
    then have "\<not> is_ok r" by (auto simp: is_ok_iff)
    with spec False Map r show ?thesis by (simp add: vm_abs_def cong: if_cong)
  qed
next
  case (Unmap v)
  obtain r s1 where r: "vm_unmap s v = (r, s1)" by (cases "vm_unmap s v")
  note spec = vm_unmap_spec [OF wf, of v, unfolded r prod.case]
  with Unmap r ok vm_abs_set_leaf [OF wf, of v _ 0] show ?thesis by (cases r) auto
next
  case (Protect v f)
  obtain r s1 where r: "vm_protect s v f = (r, s1)" by (cases "vm_protect s v f")
  note spec = vm_protect_spec [OF wf, of v f, unfolded r prod.case]
  show ?thesis
  proof (cases "r = Ok ()")
    case True
    with spec obtain t e where t: "page_map s v = Some e"
      "tbl s (root_table s) (va_path v) = Some t" "virt_is_aligned v"
      "s1 = set_entry s t (table_index v 3) (pte_set_flags e (flags_union f VALID))" by auto
    with Protect r True ok vm_abs_set_leaf [OF wf t(2) _ t(3)] show ?thesis
      by (simp add: vm_abs_def)
  next
    case False
    then have "\<not> is_ok r" by (auto simp: is_ok_iff)
    with spec False Protect r show ?thesis by simp
  qed
qed

text \<open>A fresh address space: an empty root table in a page of the allocator.\<close>

definition vm_boot :: "VirtualMemory \<Rightarrow> bool" where
  "vm_boot s \<longleftrightarrow> phys_inv (vm_phys s) \<and>
     unat (base_addr (vm_phys s)) + pa_total_pages (vm_phys s) * 4096 \<le> 2 ^ 48 \<and>
     owned_page s (root_table s) \<and> (\<forall>i < 512. pt_mem s (root_table s) i = 0)"

definition vm_step :: "VirtualMemory \<Rightarrow> VirtualMemory \<Rightarrow> bool" where
  "vm_step s s1 \<longleftrightarrow> (\<exists>op. s1 = snd (vm_exec s op))"

lemma vm_boot_tbl:
  "vm_boot s \<Longrightarrow> index_path p \<Longrightarrow> tbl s (root_table s) p = Some t \<Longrightarrow> p = [] \<and> t = root_table s"
  by (cases p) (auto simp: vm_boot_def index_path_def split: if_splits)

lemma vm_boot_wf: "vm_boot s \<Longrightarrow> vm_wf s"
proof (rule vm_wfI)
  assume boot: "vm_boot s"
  note only_root = vm_boot_tbl [OF boot]
  show "phys_inv (vm_phys s)"
    "unat (base_addr (vm_phys s)) + pa_total_pages (vm_phys s) * 4096 \<le> 2 ^ 48"
    using boot by (simp_all add: vm_boot_def)
  fix p t
  assume p: "index_path p" "tbl s (root_table s) p = Some t"
  from only_root [OF p] boot show "owned_page s t" by (simp add: vm_boot_def)
  fix q
  assume "index_path q" "tbl s (root_table s) q = Some t"
  from only_root [OF p] only_root [OF this] show "p = q" by simp
next
  fix p t i
  assume boot: "vm_boot s" and p: "index_path p" "tbl s (root_table s) p = Some t"
    and i: "i < 512" "pte_is_valid (pt_mem s t i)"
  from vm_boot_tbl [OF boot p] boot i show "pte_is_table (pt_mem s t i)"
    by (simp add: vm_boot_def)
qed

lemma vm_boot_page_map: "vm_boot s \<Longrightarrow> page_map s v = None"
  using vm_boot_tbl [of s "va_path v"]
  by (auto simp: page_map_def leaf_def va_path_def index_path_def split: option.splits)

text \<open>No mapped page is both writable and executable.\<close>

definition wx_entry :: "u64 \<Rightarrow> bool" where
  "wx_entry e \<longleftrightarrow> bit e 53 \<longrightarrow> bit e 7"

definition wx_safe :: "VirtualMemory \<Rightarrow> bool" where
  "wx_safe s \<longleftrightarrow> vm_wf s \<and> (\<forall>v e. page_map s v = Some e \<longrightarrow> wx_entry e)"

lemma validate_wx_iff: "validate_wx f = Ok () \<longleftrightarrow> (bit f 53 \<longrightarrow> bit f 7)"
  by (simp add: validate_wx_def Let_def flags_contains_iff bit_READ_ONLY bit_EXECUTE)

lemma wx_entry_set:
  "validate_wx f = Ok () \<Longrightarrow> wx_entry (pte_set_addr p (flags_union f VALID))"
  "validate_wx f = Ok () \<Longrightarrow> wx_entry (pte_set_flags e (flags_union f VALID))"
  by (auto simp: validate_wx_iff wx_entry_def pte_set_addr_def pte_set_flags_def flags_union_def
      bit_or_iff bit_and_iff bit_ADDR_MASK bit_VALID)

lemma wx_safe_set_leaf:
  assumes "vm_wf s0" "page_map s0 = page_map s" "tbl s0 (root_table s0) (va_path v) = Some t"
    "wx_safe s" "pte_is_valid e \<Longrightarrow> wx_entry e"
  shows "wx_safe (set_entry s0 t (table_index v 3) e)"
  using set_leaf [OF assms(1,3)] assms(2,4,5) by (auto simp: wx_safe_def split: if_splits)

lemma wx_safe_step:
  assumes wx: "wx_safe s"
  shows "wx_safe (snd (vm_exec s op))"
proof (cases op)
  case (Map v p f)
  obtain r s1 where r: "vm_map s v p f = (r, s1)" by (cases "vm_map s v p f")
  have wf: "vm_wf s" using wx by (simp add: wx_safe_def)
  note spec = vm_map_spec [OF wf, of v p f, unfolded r prod.case]
  have "wx_safe s1"
  proof (cases "r = Ok ()")
    case True
    with spec obtain s0 t where "vm_wf s0" "page_map s0 = page_map s"
      "tbl s0 (root_table s0) (va_path v) = Some t"
      "s1 = set_entry s0 t (table_index v 3) (pte_set_addr p (flags_union f VALID))"
      "validate_wx f = Ok ()" by auto
    with wx wx_safe_set_leaf [of s0 s v t] show ?thesis by (simp add: wx_entry_set)
  next
    case False
    with spec wx show ?thesis by (simp add: wx_safe_def)
  qed
  with Map r show ?thesis by simp
next
  case (Unmap v)
  obtain r s1 where r: "vm_unmap s v = (r, s1)" by (cases "vm_unmap s v")
  have "wx_safe s1"
    using vm_unmap_spec [of s v, unfolded r prod.case] wx wx_safe_set_leaf [of s s v _ 0]
    by (cases r) (auto simp: wx_safe_def)
  with Unmap r show ?thesis by simp
next
  case (Protect v f)
  obtain r s1 where r: "vm_protect s v f = (r, s1)" by (cases "vm_protect s v f")
  have wf: "vm_wf s" using wx by (simp add: wx_safe_def)
  note spec = vm_protect_spec [OF wf, of v f, unfolded r prod.case]
  have "wx_safe s1"
  proof (cases "r = Ok ()")
    case True
    with spec obtain t e where "tbl s (root_table s) (va_path v) = Some t"
      "s1 = set_entry s t (table_index v 3) (pte_set_flags e (flags_union f VALID))"
      "validate_wx f = Ok ()" by auto
    with wx wf wx_safe_set_leaf [of s s v t] show ?thesis by (simp add: wx_entry_set)
  next
    case False
    with spec wx show ?thesis by simp
  qed
  with Protect r show ?thesis by simp
qed

interpretation vm: transition_system vm_boot vm_step wx_safe
proof unfold_locales
  fix s :: VirtualMemory
  assume "vm_boot s"
  then show "wx_safe s" by (simp add: wx_safe_def vm_boot_wf vm_boot_page_map)
qed (auto simp: vm_step_def wx_safe_step)

section \<open>Enough free pages\<close>

lemma map_level_room:
  assumes "phys_inv (vm_phys s)" "k < pa_free_pages (vm_phys s)" "map_level s v cur l = (r, s1)"
  shows "is_ok r \<and> phys_inv (vm_phys s1) \<and> k \<le> pa_free_pages (vm_phys s1)"
proof -
  from assms(2) have "pa_free_pages (vm_phys s) \<noteq> 0" by simp
  then obtain p pa1 where "alloc_page (vm_phys s) = (Ok (page_addr (vm_phys s) p), pa1)"
    "pa_free_pages pa1 = pa_free_pages (vm_phys s) - 1" "phys_inv pa1"
    using alloc_page_lowest [OF assms(1)] by metis
  with assms show ?thesis
    by (auto simp: map_level_def pt_entry_def Let_def split: if_splits)
qed

lemma map_walk_room:
  "phys_inv (vm_phys s) \<Longrightarrow> length ls \<le> pa_free_pages (vm_phys s) \<Longrightarrow>
     is_ok (fst (map_walk s v cur ls))"
proof (induction ls arbitrary: s cur)
  case (Cons l ls)
  obtain r s1 where r: "map_level s v cur l = (r, s1)" by (cases "map_level s v cur l")
  have room: "is_ok r \<and> phys_inv (vm_phys s1) \<and> length ls \<le> pa_free_pages (vm_phys s1)"
    using map_level_room [OF Cons.prems(1) _ r, of "length ls"] Cons.prems(2) by simp
  then obtain c where c: "r = Ok c" by (auto simp: is_ok_iff)
  with r room Cons.IH [of s1 c] show ?case by simp
qed simp

lemma vm_map_no_oom:
  assumes "vm_wf s" "3 \<le> pa_free_pages (vm_phys s)"
  shows "fst (vm_map s v p f) \<noteq> Err (Memory MemOutOfMemory)"
proof -
  obtain r0 s0 where w: "map_walk s v (root_table s) [0, 1, 2] = (r0, s0)"
    by (cases "map_walk s v (root_table s) [0, 1, 2]")
  have "is_ok r0"
    using map_walk_room [of s "[0, 1, 2]" v "root_table s"] w vm_wf_phys [OF assms(1)] assms(2)
    by simp
  then show ?thesis
    using w validate_wx_cases [of f]
    by (auto simp: is_ok_iff vm_map_def pt_entry_def Let_def split: if_splits)
qed

section \<open>Properties\<close>

text \<open>An empty address space over the example allocator.\<close>

definition example_vm :: VirtualMemory where
  "example_vm = vm_new 0x80000000 (\<lambda>_. pt_new) (snd (alloc_page (phys_new 0x80000000 8)))"

lemma example_vm_boot: "vm_boot example_vm" and example_vm_free: "pa_free_pages (vm_phys example_vm) = 7"
proof -
  let ?pa = "phys_new 0x80000000 8"
  have base: "base_addr ?pa = 0x80000000" "pa_total_pages ?pa = 8" "pa_free_pages ?pa = 8"
    by (simp_all add: phys_new_def)
  then have "pa_free_pages ?pa \<noteq> 0" by simp
  then obtain p pa1 where r: "alloc_page ?pa = (Ok (page_addr ?pa p), pa1)"
    "\<And>q. q < p \<Longrightarrow> q \<in> allocated ?pa" "allocated pa1 = insert p (allocated ?pa)"
    "pa_free_pages pa1 = pa_free_pages ?pa - 1" "pa_total_pages pa1 = pa_total_pages ?pa"
    "base_addr pa1 = base_addr ?pa" "phys_inv pa1"
    using alloc_page_lowest [OF example_inv] by metis
  have "p = 0" using r(2) [of 0] by (cases p) (auto simp: example_empty)
  with r base show "vm_boot example_vm" "pa_free_pages (vm_phys example_vm) = 7"
    by (auto simp: vm_boot_def example_vm_def vm_new_def pt_new_def owned_page_def page_addr_def)
qed

lemmas example_vm_wf = vm_boot_wf [OF example_vm_boot]

lemma example_vm_map:
  assumes wx: "validate_wx f = Ok ()"
  obtains s1 where "vm_map example_vm 0x1000 0x90000000 f = (Ok (), s1)" "vm_wf s1"
    "page_map s1 0x1000 = Some (pte_set_addr 0x90000000 (flags_union f VALID))"
proof -
  obtain r s1 where r: "vm_map example_vm 0x1000 0x90000000 f = (r, s1)"
    by (cases "vm_map example_vm 0x1000 0x90000000 f")
  note spec = vm_map_spec [OF example_vm_wf, of "0x1000" "0x90000000" f, unfolded r prod.case]
  have "r \<noteq> Err (Memory MemOutOfMemory)"
    using vm_map_no_oom [OF example_vm_wf, of "0x1000" "0x90000000" f] r
    by (simp add: example_vm_free)
  then have ok: "r = Ok ()"
    using spec wx vm_boot_page_map [OF example_vm_boot]
    by (auto simp: virt_is_aligned_def phys_is_aligned_def split: if_splits)
  with spec obtain s0 t where s0: "vm_wf s1" "vm_wf s0"
    "tbl s0 (root_table s0) (va_path 0x1000) = Some t"
    "s1 = set_entry s0 t (table_index 0x1000 3) (pte_set_addr 0x90000000 (flags_union f VALID))"
    by auto
  have "virt_ok 0x1000" "virt_is_aligned 0x1000" "align_down 0x1000 = 0x1000"
    by (simp_all add: virt_ok_def VA_MASK_def virt_is_aligned_def align_down_def)
  with s0 have "page_map s1 0x1000 = Some (pte_set_addr 0x90000000 (flags_union f VALID))"
    using set_leaf_page_map [OF s0(2,3)] by simp
  with that r ok s0(1) show ?thesis by blast
qed

lemma example_wx: "validate_wx USER_RW = Ok ()" "validate_wx (EXECUTE OR READ_ONLY) = Ok ()"
  by (simp_all add: validate_wx_def flags_contains_def flag_defs Let_def)

text \<open>
  On a well-formed address space with at least three free physical pages,
  \<open>map\<close> reports misalignment, then a violation of write-xor-execute, then a page that is
  already mapped, and succeeds in every other case; a page is mapped exactly when
  \<open>translate\<close> finds it.
\<close>

theorem vm_map_result:
  assumes "vm_wf s" "3 \<le> pa_free_pages (vm_phys s)"
  shows "fst (vm_map s v p f) =
    (if v mod 4096 \<noteq> 0 \<or> p mod 4096 \<noteq> 0 then Err (Memory MemInvalidAlignment)
     else if flags_contains f EXECUTE \<and> \<not> flags_contains f READ_ONLY
     then Err (Security SecPermissionDenied)
     else if is_ok (vm_translate s v) then Err (Memory MemAlreadyMapped)
     else Ok ())"
proof -
  obtain r s1 where r: "vm_map s v p f = (r, s1)" by (cases "vm_map s v p f")
  have "r \<noteq> Err (Memory MemOutOfMemory)" using vm_map_no_oom [OF assms, of v p f] r by simp
  moreover have "is_ok (vm_translate s v) \<longleftrightarrow> page_map s v \<noteq> None"
    using vm_translate_page_map [OF assms(1), of v] by (auto split: option.splits)
  moreover have "flags_contains f EXECUTE \<and> \<not> flags_contains f READ_ONLY
      \<longleftrightarrow> validate_wx f \<noteq> Ok ()"
    by (auto simp: validate_wx_def Let_def)
  ultimately show ?thesis
    using vm_map_spec [OF assms(1), of v p f] r
    by (auto simp: virt_is_aligned_def phys_is_aligned_def split: if_splits)
qed

theorem vm_map_result_witness:
  "fst (vm_map example_vm 0x1000 0x90000000 USER_RW) = Ok ()"
proof -
  have "\<not> is_ok (vm_translate example_vm 0x1000)"
    using vm_translate_page_map [OF example_vm_wf] vm_boot_page_map [OF example_vm_boot] by simp
  then show ?thesis
    using vm_map_result [OF example_vm_wf, of "0x1000" "0x90000000" USER_RW]
    by (simp add: example_vm_free flags_contains_def flag_defs)
qed

text \<open>
  After a successful \<open>map\<close> of a page frame with flag bits outside the
  address field, every address of the page translates to the frame plus its offset, and the
  translation of every other address is what it was.
\<close>

theorem vm_map_translate:
  assumes "vm_wf s" "virt_ok v" "virt_ok w" "p AND ADDR_MASK = p" "f AND ADDR_MASK = 0"
    "vm_map s v p f = (Ok (), s1)"
  shows "vm_translate s1 w =
           (if align_down w = v then Ok (p + page_offset w) else vm_translate s w)"
proof -
  note spec = vm_map_spec [OF assms(1), of v p f, unfolded assms(6) prod.case]
  then obtain s0 t where s0: "vm_wf s1" "virt_is_aligned v" "vm_wf s0" "page_map s0 = page_map s"
    "tbl s0 (root_table s0) (va_path v) = Some t"
    "s1 = set_entry s0 t (table_index v 3) (pte_set_addr p (flags_union f VALID))" by auto
  have "page_map s1 w = (if align_down w = v then Some (pte_set_addr p (flags_union f VALID))
      else page_map s w)"
    using set_leaf_page_map [OF s0(3,5) assms(2) s0(2) assms(3)] s0(4,6) by simp
  then show ?thesis
    using vm_translate_page_map [OF assms(1), of w] vm_translate_page_map [OF s0(1), of w]
      phys_addr_leaf [OF assms(4,5)] by simp
qed

theorem vm_map_translate_witness:
  "vm_translate (snd (vm_map example_vm 0x1000 0x90000000 USER_RW)) 0x1234 = Ok 0x90000234"
proof -
  obtain s1 where r: "vm_map example_vm 0x1000 0x90000000 USER_RW = (Ok (), s1)"
    by (rule example_vm_map [OF example_wx(1)])
  then have "vm_translate s1 0x1234 =
      (if align_down 0x1234 = 0x1000 then Ok (0x90000000 + page_offset 0x1234)
       else vm_translate example_vm 0x1234)"
    by (intro vm_map_translate [OF example_vm_wf])
      (simp_all add: virt_ok_def VA_MASK_def ADDR_MASK_def flag_defs)
  with r show ?thesis by (simp add: align_down_def page_offset_def)
qed

text \<open>
  C5 (round trip). Unmapping a page that was just mapped succeeds, returns the page frame, and
  restores every translation.
\<close>

theorem vm_map_unmap_roundtrip:
  assumes "vm_wf s" "virt_ok v" "p AND ADDR_MASK = p" "f AND ADDR_MASK = 0"
    "vm_map s v p f = (Ok (), s1)"
  shows "\<exists>s2. vm_unmap s1 v = (Ok p, s2) \<and> vm_wf s2 \<and>
           (\<forall>w. virt_ok w \<longrightarrow> vm_translate s2 w = vm_translate s w)"
proof -
  let ?e = "pte_set_addr p (flags_union f VALID)"
  note spec = vm_map_spec [OF assms(1), of v p f, unfolded assms(5) prod.case]
  then obtain s0 t where s0: "vm_wf s1" "virt_is_aligned v" "vm_wf s0" "page_map s0 = page_map s"
    "tbl s0 (root_table s0) (va_path v) = Some t" "s1 = set_entry s0 t (table_index v 3) ?e"
    "page_map s v = None" by auto
  note after_map = set_leaf_page_map [OF s0(3,5) assms(2) s0(2)]
  have mapped: "page_map s1 v = Some ?e"
    using after_map [OF assms(2)] s0(2,6) by (simp add: virt_is_aligned_iff)
  obtain r s2 where r: "vm_unmap s1 v = (r, s2)" by (cases "vm_unmap s1 v")
  note u = vm_unmap_spec [OF s0(1), of v, unfolded r prod.case]
  obtain u1 where u1: "r = Ok p" "vm_wf s2" "tbl s1 (root_table s1) (va_path v) = Some u1"
    "s2 = set_entry s1 u1 (table_index v 3) 0"
    using u mapped s0(2) phys_addr_leaf [OF assms(3,4)] by (cases r) auto
  have "page_map s2 w = page_map s w" if w: "virt_ok w" for w
    using set_leaf_page_map [OF s0(1) u1(3) assms(2) s0(2) w] after_map [OF w] s0(4,6,7) u1(4)
      page_map_same_page [OF assms(2) w] s0(2) by (auto simp: virt_is_aligned_iff)
  then show ?thesis
    using r u1(1,2) vm_translate_page_map [OF u1(2)] vm_translate_page_map [OF assms(1)] by simp
qed

theorem vm_map_unmap_roundtrip_witness:
  "\<exists>s1 s2. vm_map example_vm 0x1000 0x90000000 USER_RW = (Ok (), s1) \<and>
     vm_unmap s1 0x1000 = (Ok 0x90000000, s2) \<and> vm_translate s2 0x1000 = Err (Memory MemNotMapped)"
proof -
  obtain s1 where r: "vm_map example_vm 0x1000 0x90000000 USER_RW = (Ok (), s1)"
    by (rule example_vm_map [OF example_wx(1)])
  have "\<exists>s2. vm_unmap s1 0x1000 = (Ok 0x90000000, s2) \<and> vm_wf s2 \<and>
      (\<forall>w. virt_ok w \<longrightarrow> vm_translate s2 w = vm_translate example_vm w)"
    by (rule vm_map_unmap_roundtrip [OF example_vm_wf _ _ _ r])
      (simp_all add: virt_ok_def VA_MASK_def ADDR_MASK_def flag_defs)
  then obtain s2 where s2: "vm_unmap s1 0x1000 = (Ok 0x90000000, s2)"
    "virt_ok 0x1000 \<longrightarrow> vm_translate s2 0x1000 = vm_translate example_vm 0x1000" by blast
  have "vm_translate example_vm 0x1000 = Err (Memory MemNotMapped)"
    using vm_translate_page_map [OF example_vm_wf] vm_boot_page_map [OF example_vm_boot] by simp
  with r s2 show ?thesis by (auto simp: virt_ok_def VA_MASK_def)
qed

text \<open>
  C4 (refinement). On a well-formed address space every operation refines the abstract page
  map: when \<open>map\<close>, \<open>unmap\<close> or \<open>protect\<close> succeeds its effect is one update of the entry of its
  page, and when it fails the map is unchanged.
\<close>

theorem vm_refines_page_map:
  assumes "vm_wf s" "virt_ok (op_addr op)"
  shows "vm_wf (snd (vm_exec s op)) \<and>
         vm_abs (snd (vm_exec s op)) =
           (if fst (vm_exec s op) then abs_exec (vm_abs s) op else vm_abs s)"
  using vm_exec_wf [OF assms(1)] vm_exec_refines [OF assms] by blast

theorem vm_refines_page_map_witness:
  "vm_abs (snd (vm_exec example_vm (Map 0x1000 0x90000000 USER_RW))) 0x1000 \<noteq> None"
proof -
  obtain s1 where r: "vm_map example_vm 0x1000 0x90000000 USER_RW = (Ok (), s1)"
    by (rule example_vm_map [OF example_wx(1)])
  have "virt_ok (op_addr (Map 0x1000 0x90000000 USER_RW))" by (simp add: virt_ok_def VA_MASK_def)
  from vm_refines_page_map [OF example_vm_wf this] r show ?thesis by simp
qed

text \<open>
  C5 (safety). Write xor execute: from an empty address space, no sequence of \<open>map\<close>, \<open>unmap\<close>
  and \<open>protect\<close> with any arguments produces a valid leaf entry that is executable and not
  read-only.
\<close>

theorem vm_never_wx:
  assumes "reachable vm_boot vm_step s" "page_map s v = Some e" "flags_contains e EXECUTE"
  shows "flags_contains e READ_ONLY"
  using vm.reachable_inv [OF assms(1)] assms(2,3)
  by (auto simp: wx_safe_def wx_entry_def flags_contains_iff bit_EXECUTE bit_READ_ONLY)

theorem vm_never_wx_witness:
  "\<exists>e. page_map (snd (vm_map example_vm 0x1000 0x90000000 (EXECUTE OR READ_ONLY))) 0x1000 = Some e \<and>
     flags_contains e EXECUTE \<and> flags_contains e READ_ONLY"
proof -
  let ?e = "pte_set_addr 0x90000000 (flags_union (EXECUTE OR READ_ONLY) VALID)"
  obtain s1 where s1: "vm_map example_vm 0x1000 0x90000000 (EXECUTE OR READ_ONLY) = (Ok (), s1)"
    "page_map s1 0x1000 = Some ?e"
    by (rule example_vm_map [OF example_wx(2)])
  have "vm_step example_vm s1"
    unfolding vm_step_def by (rule exI [of _ "Map 0x1000 0x90000000 (EXECUTE OR READ_ONLY)"]) (simp add: s1)
  with example_vm_boot have reach: "reachable vm_boot vm_step s1"
    by (blast intro: reachable.intros)
  have x: "flags_contains ?e EXECUTE"
    by (simp add: flags_contains_def pte_set_addr_def flags_union_def flag_defs ADDR_MASK_def)
  with vm_never_wx [OF reach s1(2)] s1 show ?thesis by auto
qed

end
