(* ===== verification/Heap.thy ===== *)
theory Heap
  imports Physical
begin

text \<open>
  The kernel heap, \<open>kernel/src/memory/heap.rs\<close>: the buddy allocator with orders 0 to 10, the
  slab allocator with nine size classes, and the \<open>GlobalAlloc\<close> implementation on top of them.

  A free list is the list of the block addresses that its \<open>next\<close> pointers chain; the pointers
  themselves lie in free memory, which no client writes. Pages come from the physical allocator,
  through its page-provider contract.

  \<open>HeapAllocator::new\<close> builds the buddy allocator in a local variable, gives the slab allocator a
  pointer to that local, and then moves the local into the heap. The slab allocator therefore never
  reaches the heap's own buddy allocator: it goes through a pointer into the stack frame of the
  constructor, which is dead when the constructor returns. The model has what lies at that address
  as memory of its own, \<open>hm_frame\<close>, beside the heap. It holds the bytes of the fresh buddy allocator
  until the stack is used again; every operation of the slab allocator on its buddy allocator reads
  and writes those bytes and not the heap's free lists.

  The central notion is how often a byte is covered by a collection of blocks. That every
  owned byte is covered at most once by free and live blocks together is the invariant from
  which disjointness of allocations follows.
\<close>

section \<open>Arithmetic of sizes\<close>

definition next_power_of_two :: "usize \<Rightarrow> usize" where
  "next_power_of_two n = 2 ^ find_from (\<lambda>k. n \<le> 2 ^ k) 0 64"

definition usize_trailing_zeros :: "usize \<Rightarrow> nat" where
  "usize_trailing_zeros n = find_from (bit n) 0 64"

section \<open>Buddy allocator\<close>

record BuddyAllocator =
  free_lists :: "u64 list list"
  ba_phys :: PhysicalAllocator

definition buddy_new :: "PhysicalAllocator \<Rightarrow> BuddyAllocator" where
  "buddy_new pa = \<lparr>free_lists = replicate 11 [], ba_phys = pa\<rparr>"

definition buddy_of :: "u64 \<Rightarrow> nat \<Rightarrow> u64" where
  "buddy_of ptr order = ptr XOR push_bit order 4096"

definition is_free :: "BuddyAllocator \<Rightarrow> u64 \<Rightarrow> nat \<Rightarrow> bool" where
  "is_free b ptr order = List.member (free_lists b ! order) ptr"

definition set_list :: "BuddyAllocator \<Rightarrow> nat \<Rightarrow> u64 list \<Rightarrow> BuddyAllocator" where
  "set_list b order xs = b\<lparr>free_lists := (free_lists b)[order := xs]\<rparr>"

definition remove_from_list :: "BuddyAllocator \<Rightarrow> u64 \<Rightarrow> nat \<Rightarrow> BuddyAllocator" where
  "remove_from_list b ptr order = set_list b order (remove1 ptr (free_lists b ! order))"

text \<open>Splitting stops with a panic when the order would drop below zero or off the table.\<close>

fun split_block :: "BuddyAllocator \<Rightarrow> u64 \<Rightarrow> nat \<Rightarrow> nat \<Rightarrow> u64 kresult \<times> BuddyAllocator" where
  "split_block b ptr 0 to_order = (if to_order = 0 then (Ok ptr, b) else (Panic, b))"
| "split_block b ptr (Suc split_order) to_order =
     (if Suc split_order = to_order then (Ok ptr, b)
      else if split_order \<ge> length (free_lists b) then (Panic, b)
      else let buddy = ptr + push_bit split_order 4096
           in split_block (set_list b split_order (buddy # free_lists b ! split_order))
                ptr split_order to_order)"

definition buddy_alloc :: "BuddyAllocator \<Rightarrow> nat \<Rightarrow> u64 kresult \<times> BuddyAllocator" where
  "buddy_alloc b order =
     (if order \<ge> 11 then (Err (Memory MemInvalidSize), b)
      else case free_lists b ! order of
        block # rest \<Rightarrow> (Ok block, set_list b order rest)
      | [] \<Rightarrow>
          (let higher = find_from (\<lambda>k. free_lists b ! k \<noteq> []) (order + 1) 11
           in if higher < 11
              then split_block (set_list b higher (tl (free_lists b ! higher)))
                     (hd (free_lists b ! higher)) higher order
              else case alloc_pages (ba_phys b) (2 ^ order) of
                (r, pa) \<Rightarrow> (r, b\<lparr>ba_phys := pa\<rparr>)))"

function buddy_free :: "BuddyAllocator \<Rightarrow> u64 \<Rightarrow> nat \<Rightarrow> unit kresult \<times> BuddyAllocator" where
  "buddy_free b ptr order =
     (if order \<ge> 11 then (Err (Memory MemInvalidSize), b)
      else let buddy_ptr = buddy_of ptr order
           in if is_free b buddy_ptr order
              then let b1 = remove_from_list b buddy_ptr order;
                       coalesced = (if ptr < buddy_ptr then ptr else buddy_ptr)
                   in buddy_free b1 coalesced (order + 1)
              else (Ok (), set_list b order (ptr # free_lists b ! order)))"
  by pat_completeness auto
termination
  by (relation "measure (\<lambda>(b, ptr, order). 11 - order)") auto

declare buddy_free.simps [simp del]

section \<open>Slab allocator\<close>

record Slab =
  slab_size :: usize
  slab_free_list :: "u64 list"

text \<open>
  The second argument of \<open>slab_alloc\<close> is what lies at the slab allocator's \<open>buddy\<close> pointer.
\<close>

definition slab_new :: "Slab list" where
  "slab_new = replicate 9 \<lparr>slab_size = 0, slab_free_list = []\<rparr>"

definition slab_sizes :: "usize list" where
  "slab_sizes = [8, 16, 32, 64, 128, 256, 512, 1024, 2048]"

definition slab_init :: "Slab list \<Rightarrow> Slab list" where
  "slab_init slabs = map (\<lambda>(s, sz). s\<lparr>slab_size := sz\<rparr>) (zip slabs slab_sizes)"

definition size_to_slab :: "usize \<Rightarrow> nat" where
  "size_to_slab sz = usize_trailing_zeros (next_power_of_two (max sz 8)) - 3"

text \<open>The blocks of a fresh page, except the first, pushed onto the free list.\<close>

definition carve :: "u64 \<Rightarrow> usize \<Rightarrow> u64 list \<Rightarrow> u64 list" where
  "carve page block_size fl =
     foldl (\<lambda>fl i. (page + of_nat (i * block_size)) # fl) fl [1..<4096 div block_size]"

definition slab_alloc ::
  "Slab list \<Rightarrow> BuddyAllocator \<Rightarrow> usize \<Rightarrow> u64 kresult \<times> Slab list \<times> BuddyAllocator" where
  "slab_alloc slabs b sz =
     (if sz = 0 \<or> sz > 2048 then (Err (Memory MemInvalidSize), slabs, b)
      else let idx = size_to_slab sz
           in if idx \<ge> length slabs then (Panic, slabs, b)
              else case slab_free_list (slabs ! idx) of
                block # rest \<Rightarrow> (Ok block, slabs[idx := (slabs ! idx)\<lparr>slab_free_list := rest\<rparr>], b)
              | [] \<Rightarrow>
                  (case buddy_alloc b 0 of
                     (Ok page, b1) \<Rightarrow>
                       if slab_size (slabs ! idx) = 0 then (Panic, slabs, b1)
                       else (Ok page, slabs[idx := (slabs ! idx)
                               \<lparr>slab_free_list := carve page (slab_size (slabs ! idx)) []\<rparr>], b1)
                   | (r, b1) \<Rightarrow> (r, slabs, b1)))"

definition slab_free :: "Slab list \<Rightarrow> u64 \<Rightarrow> usize \<Rightarrow> unit kresult \<times> Slab list" where
  "slab_free slabs ptr sz =
     (if sz = 0 \<or> sz > 2048 then (Err (Memory MemInvalidSize), slabs)
      else let idx = size_to_slab sz
           in if idx \<ge> length slabs then (Panic, slabs)
              else (Ok (), slabs[idx := (slabs ! idx)
                      \<lparr>slab_free_list := ptr # slab_free_list (slabs ! idx)\<rparr>]))"

section \<open>The heap\<close>

text \<open>
  The heap value itself, and the memory its pointers lead to: the one physical allocator, which
  every buddy allocator holds a pointer to, and the dead stack frame at the slab allocator's
  \<open>buddy\<close> pointer.
\<close>

record HeapAllocator =
  heap_buddy :: BuddyAllocator
  heap_slab :: "Slab list"

record HeapMemory =
  hm_phys :: PhysicalAllocator
  hm_frame :: BuddyAllocator

text \<open>A buddy allocator whose \<open>allocator\<close> pointer leads to the physical allocator in its present state.\<close>

definition with_phys :: "PhysicalAllocator \<Rightarrow> BuddyAllocator \<Rightarrow> BuddyAllocator" where
  "with_phys pa b = b\<lparr>ba_phys := pa\<rparr>"

text \<open>
  The constructor: the heap holds the moved buddy allocator, and the bytes of the local it was
  moved from are still in the frame.
\<close>

definition heap_new :: "PhysicalAllocator \<Rightarrow> HeapAllocator \<times> HeapMemory" where
  "heap_new pa =
     (let buddy = buddy_new pa
      in (\<lparr>heap_buddy = buddy, heap_slab = slab_init slab_new\<rparr>, \<lparr>hm_phys = pa, hm_frame = buddy\<rparr>))"

text \<open>\<open>unwrap_or(null)\<close>: an error becomes the null pointer.\<close>

fun or_null :: "u64 kresult \<Rightarrow> u64 kresult" where
  "or_null (Ok p) = Ok p"
| "or_null (Err e) = Ok 0"
| "or_null Panic = Panic"

definition order_of_size :: "usize \<Rightarrow> nat" where
  "order_of_size sz = usize_trailing_zeros (next_power_of_two (uadd sz 4095 div 4096))"

definition heap_alloc ::
  "HeapAllocator \<Rightarrow> HeapMemory \<Rightarrow> usize \<Rightarrow> usize \<Rightarrow> u64 kresult \<times> HeapAllocator \<times> HeapMemory" where
  "heap_alloc h m sz align =
     (if sz = 0 then (Ok 0, h, m)
      else if align > 4096 then (Ok 0, h, m)
      else if sz < 4096 then
        (if align > next_power_of_two (max sz 8) then (Ok 0, h, m)
         else case slab_alloc (heap_slab h) (with_phys (hm_phys m) (hm_frame m)) sz of
           (r, slabs, f) \<Rightarrow>
             (or_null r, h\<lparr>heap_slab := slabs\<rparr>, \<lparr>hm_phys = ba_phys f, hm_frame = f\<rparr>))
      else if sz + 4095 \<ge> usize_mod then (Ok 0, h, m)
      else let order = order_of_size sz
           in if order \<ge> 11 then (Ok 0, h, m)
              else case buddy_alloc (with_phys (hm_phys m) (heap_buddy h)) order of
                (r, b) \<Rightarrow> (or_null r, h\<lparr>heap_buddy := b\<rparr>, m\<lparr>hm_phys := ba_phys b\<rparr>))"

definition heap_dealloc ::
  "HeapAllocator \<Rightarrow> HeapMemory \<Rightarrow> u64 \<Rightarrow> usize \<Rightarrow> unit kresult \<times> HeapAllocator \<times> HeapMemory" where
  "heap_dealloc h m ptr sz =
     (if ptr = 0 then (Ok (), h, m)
      else if sz = 0 then (Ok (), h, m)
      else if sz < 4096 then
        (case slab_free (heap_slab h) ptr sz of
           (r, slabs) \<Rightarrow> (if r = Panic then Panic else Ok (), h\<lparr>heap_slab := slabs\<rparr>, m))
      else let order = order_of_size sz
           in if order \<ge> 11 then (Ok (), h, m)
              else case buddy_free (with_phys (hm_phys m) (heap_buddy h)) ptr order of
                (r, b) \<Rightarrow> (if r = Panic then Panic else Ok (), h\<lparr>heap_buddy := b\<rparr>, m\<lparr>hm_phys := ba_phys b\<rparr>))"

section \<open>Size arithmetic, lemmas\<close>

lemma next_power_of_two_exp:
  assumes "n \<le> 2 ^ 63"
  shows "\<exists>k < 64. next_power_of_two n = 2 ^ k \<and> n \<le> 2 ^ k \<and> (\<forall>j < k. 2 ^ j < n)"
proof -
  let ?k = "find_from (\<lambda>k. n \<le> 2 ^ k) 0 64"
  have k: "?k < 64" unfolding find_from_less_iff using assms by (intro exI [of _ 63]) simp
  moreover from k have "n \<le> 2 ^ ?k" by (rule find_from_sat)
  moreover have "2 ^ j < n" if "j < ?k" for j using find_from_before [OF le0 that] by simp
  ultimately show ?thesis by (auto simp: next_power_of_two_def)
qed

lemma usize_trailing_zeros_exp: "k < 64 \<Longrightarrow> usize_trailing_zeros (2 ^ k) = k"
  unfolding usize_trailing_zeros_def by (rule find_from_eqI) (auto simp: bit_exp_iff)

lemma size_to_slab_class:
  assumes "0 < sz" "sz \<le> 2048"
  shows "size_to_slab sz < 9" "sz \<le> 8 * 2 ^ size_to_slab sz"
    "next_power_of_two (max sz 8) = 8 * 2 ^ size_to_slab sz"
proof -
  have "max sz 8 \<le> 2 ^ 63" using assms by simp
  then obtain k where k: "k < 64" "next_power_of_two (max sz 8) = 2 ^ k" "max sz 8 \<le> 2 ^ k"
    "\<forall>j < k. 2 ^ j < max sz 8"
    using next_power_of_two_exp by blast
  have "3 \<le> k"
  proof (rule ccontr)
    assume "\<not> 3 \<le> k"
    then have "(2 :: nat) ^ k \<le> 2 ^ 2" by (intro power_increasing) auto
    with k(3) show False by simp
  qed
  moreover have "k \<le> 11"
  proof (rule ccontr)
    assume "\<not> k \<le> 11"
    then have "(2 :: nat) ^ 11 < max sz 8" using k(4) [rule_format, of 11] by simp
    with assms show False by simp
  qed
  moreover have "size_to_slab sz = k - 3"
    using k by (simp add: size_to_slab_def usize_trailing_zeros_exp)
  moreover have "(2 :: nat) ^ k = 8 * 2 ^ (k - 3)"
    using \<open>3 \<le> k\<close> power_add [of "2 :: nat" 3 "k - 3"] by simp
  ultimately show "size_to_slab sz < 9" "sz \<le> 8 * 2 ^ size_to_slab sz"
    "next_power_of_two (max sz 8) = 8 * 2 ^ size_to_slab sz"
    using k by auto
qed

lemma order_of_size_fits:
  assumes "sz + 4095 < usize_mod"
  shows "sz \<le> 4096 * 2 ^ order_of_size sz"
proof -
  let ?n = "(sz + 4095) div 4096"
  have "?n \<le> 2 ^ 63" using assms by simp
  then obtain k where k: "k < 64" "next_power_of_two ?n = 2 ^ k" "?n \<le> 2 ^ k"
    using next_power_of_two_exp by blast
  then have "order_of_size sz = k" using assms by (simp add: order_of_size_def usize_trailing_zeros_exp)
  moreover have "sz \<le> 4096 * ?n" by simp
  ultimately show ?thesis using k(3) by (metis le_trans mult_le_mono2)
qed

section \<open>Coverage\<close>

text \<open>How often a byte is covered by one block, by blocks of one length, by a table of lists.\<close>

definition blk :: "u64 \<Rightarrow> nat \<Rightarrow> nat \<Rightarrow> nat" where
  "blk a n x = of_bool (x \<in> region a n)"

definition list_cover :: "nat \<Rightarrow> u64 list \<Rightarrow> nat \<Rightarrow> nat" where
  "list_cover n as x = (\<Sum>a \<leftarrow> as. blk a n x)"

definition table_cover :: "(nat \<Rightarrow> nat) \<Rightarrow> u64 list list \<Rightarrow> nat \<Rightarrow> nat" where
  "table_cover len t x = (\<Sum>k < length t. list_cover (len k) (t ! k) x)"

lemma list_cover_simps [simp]:
  "list_cover n [] x = 0" "list_cover n (a # as) x = blk a n x + list_cover n as x"
  "list_cover n (as @ bs) x = list_cover n as x + list_cover n bs x"
  by (simp_all add: list_cover_def)

lemma list_cover_remove1:
  "a \<in> set as \<Longrightarrow> blk a n x + list_cover n (remove1 a as) x = list_cover n as x"
  by (induction as) auto

lemma table_cover_update:
  assumes "k < length t"
  shows "table_cover len (t[k := v]) x + list_cover (len k) (t ! k) x =
         table_cover len t x + list_cover (len k) v x"
proof -
  have rest: "(\<Sum>i \<in> {..<length t} - {k}. list_cover (len i) (t[k := v] ! i) x) =
      (\<Sum>i \<in> {..<length t} - {k}. list_cover (len i) (t ! i) x)"
    by (intro sum.cong) auto
  have "table_cover len s x = list_cover (len k) (s ! k) x +
      (\<Sum>i \<in> {..<length t} - {k}. list_cover (len i) (s ! i) x)" if "length s = length t" for s
    using assms that by (simp add: table_cover_def sum.remove [of "{..<length t}" k])
  from this [of t] this [of "t[k := v]"] rest assms show ?thesis by simp
qed

lemma blk_le: "blk a n x \<le> 1"
  by (simp add: blk_def)

lemma blk_split:
  assumes "unat a + (n + m) \<le> 2 ^ 64"
  shows "blk a (n + m) x = blk a n x + blk (a + of_nat n) m x"
proof (cases "m = 0")
  case False
  with assms have "unat (a + of_nat n) = unat a + n" by (intro unat_add_of_nat) simp
  then show ?thesis by (auto simp: blk_def region_def)
qed (simp add: blk_def region_def)

lemma blk_0 [simp]: "blk a 0 x = 0"
  by (simp add: blk_def region_def)

lemma owned_bytes_bound: "phys_inv pa \<Longrightarrow> x \<in> owned_bytes pa \<Longrightarrow> x < 2 ^ 64"
proof -
  assume inv: "phys_inv pa" and x: "x \<in> owned_bytes pa"
  then have "(x - unat (base_addr pa)) div 4096 < pa_total_pages pa" "unat (base_addr pa) \<le> x"
    by (auto simp: owned_bytes_def phys_inv_def)
  then have "x < unat (base_addr pa) + pa_total_pages pa * 4096"
    by (simp add: div_less_iff_less_mult)
  with inv show ?thesis by (simp add: phys_inv_def)
qed

text \<open>A block all of whose bytes are covered lies below the end of memory.\<close>

definition fits :: "nat set \<Rightarrow> (nat \<Rightarrow> nat) \<Rightarrow> bool" where
  "fits own c \<longleftrightarrow> (\<forall>x. c x \<le> of_bool (x \<in> own))"

lemma fits_block_bound:
  assumes "fits own (\<lambda>x. c x + blk a n x)" "\<And>x. x \<in> own \<Longrightarrow> x < 2 ^ 64" "0 < n"
  shows "unat a + n \<le> 2 ^ 64"
proof -
  have "unat a + n - 1 \<in> region a n" using assms(3) by (auto simp: region_def)
  then have "1 \<le> blk a n (unat a + n - 1)" by (simp add: blk_def)
  with assms(1) have "unat a + n - 1 \<in> own"
    unfolding fits_def by (metis (full_types) add_leD2 le_zero_eq of_bool_eq(1) order_trans zero_neq_one)
  then have "unat a + n - 1 < 2 ^ 64" by (rule assms(2))
  with assms(3) show ?thesis by linarith
qed

section \<open>The buddy allocator keeps coverage\<close>

abbreviation order_len :: "nat \<Rightarrow> nat" where
  "order_len k \<equiv> 4096 * 2 ^ k"

definition buddy_cover :: "BuddyAllocator \<Rightarrow> nat \<Rightarrow> nat" where
  "buddy_cover b = table_cover order_len (free_lists b)"

text \<open>
  The invariant, relative to what the rest of the system holds: every block is page aligned and
  no byte is covered twice, or without belonging to an allocated page.
\<close>

definition buddy_inv :: "(nat \<Rightarrow> nat) \<Rightarrow> BuddyAllocator \<Rightarrow> bool" where
  "buddy_inv held b \<longleftrightarrow>
     length (free_lists b) = 11 \<and> phys_inv (ba_phys b) \<and>
     (\<forall>k < 11. \<forall>a \<in> set (free_lists b ! k). 4096 dvd unat a) \<and>
     fits (owned_bytes (ba_phys b)) (\<lambda>x. buddy_cover b x + held x)"

lemma buddy_inv_aligned:
  "buddy_inv held b \<Longrightarrow> k < 11 \<Longrightarrow> a \<in> set (free_lists b ! k) \<Longrightarrow> 4096 dvd unat a"
  by (simp add: buddy_inv_def)

lemma buddy_inv_set_list:
  assumes inv: "buddy_inv held b" and k: "k < 11"
    and al: "\<And>a. a \<in> set xs \<Longrightarrow> 4096 dvd unat a"
    and c: "\<And>x. list_cover (order_len k) xs x + held1 x = list_cover (order_len k) (free_lists b ! k) x + held x"
  shows "buddy_inv held1 (set_list b k xs)"
proof -
  have len: "length (free_lists b) = 11" using inv by (simp add: buddy_inv_def)
  have "buddy_cover (set_list b k xs) x + held1 x = buddy_cover b x + held x" for x
    using table_cover_update [of k "free_lists b" order_len xs x] c [of x] k len
    by (simp add: buddy_cover_def set_list_def)
  with inv k al len show ?thesis
    by (auto simp: buddy_inv_def fits_def set_list_def nth_list_update)
qed

lemma buddy_inv_bound:
  assumes "buddy_inv (\<lambda>x. held x + blk a n x) b" "0 < n"
  shows "unat a + n \<le> 2 ^ 64"
proof (rule fits_block_bound)
  show "fits (owned_bytes (ba_phys b)) (\<lambda>x. buddy_cover b x + held x + blk a n x)"
    using assms(1) by (simp add: buddy_inv_def add.assoc)
  show "x < 2 ^ 64" if "x \<in> owned_bytes (ba_phys b)" for x
    using owned_bytes_bound [OF _ that] assms(1) by (simp add: buddy_inv_def)
qed (rule assms(2))

lemma push_bit_4096: "push_bit k (4096 :: u64) = of_nat (order_len k)"
  by (simp add: push_bit_eq_mult mult.commute)

lemma aligned_add_order:
  assumes "4096 dvd unat (a :: u64)" "unat a + 2 * order_len k \<le> 2 ^ 64"
  shows "unat (a + push_bit k 4096) = unat a + order_len k" "4096 dvd unat (a + push_bit k 4096)"
proof -
  have "0 < (2 :: nat) ^ k" by simp
  moreover have "unat a + 8192 * 2 ^ k \<le> usize_mod" using assms(2) by simp
  ultimately have "unat a + order_len k < usize_mod" by linarith
  then show u: "unat (a + push_bit k 4096) = unat a + order_len k"
    unfolding push_bit_4096 by (rule unat_add_of_nat)
  with assms(1) show "4096 dvd unat (a + push_bit k 4096)" by simp
qed

lemma buddy_inv_cong: "buddy_inv h b \<Longrightarrow> (\<And>x. h x = h1 x) \<Longrightarrow> buddy_inv h1 b"
  by (simp add: buddy_inv_def)

lemma split_block_spec:
  assumes "buddy_inv (\<lambda>x. held x + blk ptr (order_len n) x) b" "to_order \<le> n" "n < 11"
    "4096 dvd unat ptr"
  shows "\<exists>b1. split_block b ptr n to_order = (Ok ptr, b1) \<and>
           buddy_inv (\<lambda>x. held x + blk ptr (order_len to_order) x) b1"
  using assms
proof (induction n arbitrary: b)
  case (Suc n)
  show ?case
  proof (cases "to_order = Suc n")
    case False
    let ?xs = "(ptr + push_bit n 4096) # free_lists b ! n"
    have bound: "unat ptr + 2 * order_len n \<le> 2 ^ 64"
      using buddy_inv_bound [OF Suc.prems(1)] by simp
    have "\<forall>a \<in> set (free_lists b ! n). 4096 dvd unat a"
      using buddy_inv_aligned [OF Suc.prems(1), of n] Suc.prems(3) by simp
    then have al: "4096 dvd unat a" if "a \<in> set ?xs" for a
      using that aligned_add_order(2) [OF Suc.prems(4) bound] by auto
    have "blk ptr (order_len n + order_len n) x = blk ptr (order_len n) x +
        blk (ptr + push_bit n 4096) (order_len n) x" for x
      unfolding push_bit_4096 by (rule blk_split) (use bound in simp)
    then have "buddy_inv (\<lambda>x. held x + blk ptr (order_len n) x) (set_list b n ?xs)"
      by (intro buddy_inv_set_list [OF Suc.prems(1) _ al]) (use Suc.prems(3) in \<open>simp_all add: mult_2\<close>)
    from Suc.IH [OF this] Suc.prems False
    show ?thesis by (auto simp: buddy_inv_def Let_def)
  qed (use Suc.prems in auto)
qed auto

lemma alloc_pages_not_panic:
  assumes "phys_inv pa" "0 < n"
  shows "fst (alloc_pages pa n) \<noteq> Panic"
proof (cases "\<exists>s. free_run pa s n")
  case True
  then show ?thesis
    using alloc_pages_run [OF assms LeastI_ex [OF True]] not_less_Least
    by (metis fst_conv outcome.distinct(3))
next
  case False
  with alloc_pages_no_run [OF assms] show ?thesis by simp
qed

lemma buddy_alloc_spec:
  assumes inv: "buddy_inv held b" and r: "buddy_alloc b order = (r, b1)"
  shows "case r of
      Ok ptr \<Rightarrow> order < 11 \<and> 4096 dvd unat ptr \<and> buddy_inv (\<lambda>x. held x + blk ptr (order_len order) x) b1
    | Err e \<Rightarrow> buddy_inv held b1
    | Panic \<Rightarrow> False"
proof (cases "order < 11")
  case False
  with r inv show ?thesis by (auto simp: buddy_alloc_def)
next
  case True
  have al: "4096 dvd unat a" if "k < 11" "a \<in> set (free_lists b ! k)" for k a
    using inv that by (simp add: buddy_inv_def)
  have pop: "buddy_inv (\<lambda>x. held x + blk a (order_len k) x) (set_list b k as)"
    if "k < 11" "free_lists b ! k = a # as" for k a as
    by (rule buddy_inv_set_list [OF inv that(1)]) (use al [OF that(1)] that(2) in auto)
  show ?thesis
  proof (cases "free_lists b ! order")
    case (Cons a as)
    with True r pop [OF True Cons] al [OF True] show ?thesis by (auto simp: buddy_alloc_def)
  next
    case Nil
    let ?h = "find_from (\<lambda>k. free_lists b ! k \<noteq> []) (order + 1) 11"
    show ?thesis
    proof (cases "?h < 11")
      case h: True
      then have "free_lists b ! ?h \<noteq> []" by (rule find_from_sat)
      then obtain a as where as: "free_lists b ! ?h = a # as" by (cases "free_lists b ! ?h") auto
      have "order \<le> ?h"
        using find_from_ge [of "order + 1" 11 "\<lambda>k. free_lists b ! k \<noteq> []"] True by simp
      from split_block_spec [OF pop [OF h as] this h] al [OF h] as Nil True h r
      show ?thesis by (auto simp: buddy_alloc_def Let_def)
    next
      case h: False
      obtain q pa where q: "alloc_pages (ba_phys b) (2 ^ order) = (q, pa)" by fastforce
      with Nil True h r have r: "r = q" "b1 = b\<lparr>ba_phys := pa\<rparr>"
        by (auto simp: buddy_alloc_def Let_def)
      have phys: "phys_inv (ba_phys b)" using inv by (simp add: buddy_inv_def)
      show ?thesis
      proof (cases q)
        case (Ok ptr)
        note ok = pages.alloc_ok [OF phys q [unfolded Ok]]
        have 1: "buddy_cover b x + held x \<le> of_bool (x \<in> owned_bytes (ba_phys b))" for x
          using inv by (simp add: buddy_inv_def fits_def)
        have 2: "x \<notin> owned_bytes (ba_phys b)" if "x \<in> region ptr (order_len order)" for x
          using ok that by (auto simp: mult.commute)
        have 3: "x \<in> owned_bytes pa \<longleftrightarrow>
            x \<in> owned_bytes (ba_phys b) \<or> x \<in> region ptr (order_len order)" for x
          using ok by (auto simp: mult.commute)
        have "buddy_cover b x + held x + blk ptr (order_len order) x
            \<le> of_bool (x \<in> owned_bytes pa)" for x
          using 1 [of x] 2 [of x] 3 [of x]
          by (cases "x \<in> region ptr (order_len order)") (simp_all add: blk_def)
        with inv ok Ok r True show ?thesis
          by (auto simp: buddy_inv_def fits_def buddy_cover_def add.assoc)
      next
        case (Err e)
        with pages.alloc_fail [OF phys q] inv r show ?thesis
          by (auto simp: buddy_inv_def buddy_cover_def)
      next
        case Panic
        with alloc_pages_not_panic [OF phys, of "2 ^ order"] q show ?thesis by simp
      qed
    qed
  qed
qed

text \<open>
  The buddy of a block is its neighbour on one side, whatever the alignment of the block: flipping
  the bit of the block's length adds or subtracts exactly that length.
\<close>

lemma unat_or_bit:
  fixes w :: u64
  assumes "j < 64" "\<not> bit w j"
  shows "unat (w OR 2 ^ j) = unat w + 2 ^ j"
proof -
  have "unat w AND 2 ^ j = 0"
    by (rule bit_eqI) (use assms(2) in \<open>auto simp: bit_and_iff bit_exp_iff bit_unsigned_iff\<close>)
  then have "unat w + 2 ^ j = unat w OR 2 ^ j" by (rule disjunctive_add_eq_or)
  moreover have "(2 :: nat) ^ j < 2 ^ 64" using assms(1) by (intro power_strict_increasing) simp_all
  then have "unat (2 ^ j :: u64) = 2 ^ j" using unat_of_nat_64 [of "2 ^ j"] by simp
  ultimately show ?thesis by (simp add: unsigned_or_eq)
qed

lemma buddy_of_cases:
  assumes "k < 52"
  obtains "unat (buddy_of a k) = unat a + order_len k"
  | "unat a = unat (buddy_of a k) + order_len k"
proof -
  have e: "push_bit k (4096 :: u64) = 2 ^ (12 + k)" "(2 :: nat) ^ (12 + k) = order_len k"
    by (simp_all add: push_bit_eq_mult power_add)
  have j: "12 + k < 64" using assms by simp
  show ?thesis
  proof (cases "bit a (12 + k)")
    case False
    have "buddy_of a k = a OR 2 ^ (12 + k)"
      unfolding buddy_of_def e by (rule bit_word_eqI) (use False in \<open>auto simp: bit_xor_iff bit_or_iff bit_exp_iff\<close>)
    with that(1) unat_or_bit [OF j False] e show ?thesis by simp
  next
    case True
    have nb: "\<not> bit (buddy_of a k) (12 + k)"
      using True assms by (simp add: buddy_of_def e bit_xor_iff bit_exp_iff)
    have "a = buddy_of a k OR 2 ^ (12 + k)"
      unfolding buddy_of_def e by (rule bit_word_eqI) (use True in \<open>auto simp: bit_xor_iff bit_or_iff bit_exp_iff\<close>)
    with that(2) unat_or_bit [OF j nb] e show ?thesis by simp
  qed
qed

lemma blk_join:
  assumes "unat b = unat a + order_len k"
  shows "blk a (order_len (Suc k)) x = blk a (order_len k) x + blk b (order_len k) x"
  using assms by (auto simp: blk_def region_def)

lemma buddy_inv_drop:
  assumes "buddy_inv (\<lambda>x. held x + c x) b"
  shows "buddy_inv held b"
proof -
  have "buddy_cover b x + held x \<le> of_bool (x \<in> owned_bytes (ba_phys b))" for x
  proof -
    have "buddy_cover b x + (held x + c x) \<le> of_bool (x \<in> owned_bytes (ba_phys b))"
      using assms by (simp add: buddy_inv_def fits_def)
    then show ?thesis by linarith
  qed
  with assms show ?thesis by (simp add: buddy_inv_def fits_def)
qed

lemma buddy_free_end: "11 \<le> order \<Longrightarrow> buddy_free b ptr order = (Err (Memory MemInvalidSize), b)"
  by (simp add: buddy_free.simps)

lemma buddy_free_spec:
  assumes "buddy_inv (\<lambda>x. held x + blk ptr (order_len order) x) b" "4096 dvd unat ptr" "order < 11"
    "buddy_free b ptr order = (r, b1)"
  shows "r \<noteq> Panic \<and> buddy_inv held b1"
  using assms
proof (induction b ptr order rule: buddy_free.induct)
  case (1 b ptr order)
  let ?buddy = "buddy_of ptr order" and ?l = "free_lists b ! order"
  note inv = "1.prems"(1)
  show ?case
  proof (cases "is_free b ?buddy order")
    case False
    then have "(Ok (), set_list b order (ptr # ?l)) = (r, b1)"
      using "1.prems"(3,4) by (simp add: buddy_free.simps [of b ptr order])
    moreover have "buddy_inv held (set_list b order (ptr # ?l))"
      by (rule buddy_inv_set_list [OF inv "1.prems"(3)])
        (use buddy_inv_aligned [OF inv "1.prems"(3)] "1.prems"(2) in auto)
    ultimately show ?thesis by auto
  next
    case True
    then have mem: "?buddy \<in> set ?l" by (simp add: is_free_def)
    then have al: "4096 dvd unat ?buddy" using buddy_inv_aligned [OF inv "1.prems"(3)] by blast
    let ?b1 = "remove_from_list b ?buddy order"
    let ?c = "if ptr < ?buddy then ptr else ?buddy"
    have free: "buddy_free ?b1 ?c (order + 1) = (r, b1)"
      using True "1.prems"(3,4) by (simp add: buddy_free.simps [of b ptr order] Let_def)
    have join: "blk ?c (order_len (Suc order)) x = blk ptr (order_len order) x + blk ?buddy (order_len order) x"
      for x
    proof (rule buddy_of_cases [of order ptr])
      assume "unat ?buddy = unat ptr + order_len order"
      with blk_join [OF this] show ?thesis by (simp add: word_less_nat_alt)
    next
      assume "unat ptr = unat ?buddy + order_len order"
      with blk_join [OF this] show ?thesis by (simp add: word_less_nat_alt)
    qed (use "1.prems"(3) in simp)
    have inv1: "buddy_inv (\<lambda>x. held x + blk ?c (order_len (Suc order)) x) ?b1"
      unfolding remove_from_list_def
    proof (rule buddy_inv_set_list [OF inv "1.prems"(3)])
      show "4096 dvd unat a" if "a \<in> set (remove1 ?buddy ?l)" for a
        by (rule buddy_inv_aligned [OF inv "1.prems"(3)])
          (rule subsetD [OF set_remove1_subset that])
      show "list_cover (order_len order) (remove1 ?buddy ?l) x + (held x + blk ?c (order_len (Suc order)) x) =
          list_cover (order_len order) ?l x + (held x + blk ptr (order_len order) x)" for x
        unfolding join using list_cover_remove1 [OF mem, of "order_len order" x] by simp
    qed
    show ?thesis
    proof (cases "order + 1 < 11")
      case lt: True
      have "4096 dvd unat ?c" using al "1.prems"(2) by simp
      from "1.IH" [OF _ refl True refl refl _ this lt free] inv1 "1.prems"(3) show ?thesis by simp
    next
      case False
      then have r: "r = Err (Memory MemInvalidSize)" "b1 = ?b1"
        using free by (simp_all add: buddy_free_end)
      with buddy_inv_drop [OF inv1] show ?thesis by simp
    qed
  qed
qed

section \<open>The slabs and the heap keep coverage\<close>

abbreviation slab_len :: "nat \<Rightarrow> nat" where
  "slab_len k \<equiv> 8 * 2 ^ k"

definition slab_cover :: "Slab list \<Rightarrow> nat \<Rightarrow> nat" where
  "slab_cover slabs = table_cover slab_len (map slab_free_list slabs)"

definition slabs_ok :: "Slab list \<Rightarrow> bool" where
  "slabs_ok slabs \<longleftrightarrow> length slabs = 9 \<and> (\<forall>k < 9. slab_size (slabs ! k) = slab_len k \<and>
     (\<forall>a \<in> set (slab_free_list (slabs ! k)). slab_len k dvd unat a))"

lemma carve_eq: "carve page s fl = rev (map (\<lambda>i. page + of_nat (i * s)) [1..<4096 div s]) @ fl"
proof -
  have "foldl (\<lambda>fl i. f i # fl) fl is = rev (map f is) @ fl" for f :: "nat \<Rightarrow> u64" and "is" fl
    by (induction "is" arbitrary: fl) auto
  then show ?thesis by (simp add: carve_def)
qed

lemma list_cover_rev: "list_cover n (rev as) x = list_cover n as x"
  by (induction as) auto

lemma blocks_cover:
  "unat page + n * s \<le> 2 ^ 64 \<Longrightarrow>
     list_cover s (map (\<lambda>i. page + of_nat (i * s)) [0..<n]) x = blk page (n * s) x"
proof (induction n)
  case (Suc n)
  have "blk page (n * s + s) x = blk page (n * s) x + blk (page + of_nat (n * s)) s x"
    by (rule blk_split) (use Suc.prems in simp)
  with Suc show ?case by (simp add: add.commute)
qed simp

lemma slab_page:
  assumes "k < 9"
  shows "slab_len k dvd 4096"
proof -
  have "slab_len k * 2 ^ (9 - k) = 4096"
    using assms power_add [of "2 :: nat" k "9 - k"] by simp
  then show ?thesis by (metis dvd_triv_left)
qed

lemma carve_cover:
  assumes "s dvd 4096" "unat page + 4096 \<le> 2 ^ 64"
  shows "blk page s x + list_cover s (carve page s []) x = blk page 4096 x"
proof -
  obtain n where n: "4096 = s * n" using assms(1) by blast
  have "s \<noteq> 0" "n \<noteq> 0" by (rule notI, use n in simp)+
  then have "0 < n" by simp
  have d: "4096 div s = n" unfolding n using \<open>s \<noteq> 0\<close> by simp
  have "[0..<n] = 0 # [1..<n]" using \<open>0 < n\<close> by (simp add: upt_conv_Cons)
  moreover have "list_cover s (map (\<lambda>i. page + of_nat (i * s)) [0..<n]) x = blk page (n * s) x"
    by (rule blocks_cover) (use assms(2) n in \<open>simp add: mult.commute\<close>)
  ultimately show ?thesis using n by (simp add: carve_eq list_cover_rev d mult.commute)
qed

lemma carve_aligned:
  assumes "s dvd 4096" "4096 dvd unat page" "unat page + 4096 \<le> 2 ^ 64" "a \<in> set (carve page s [])"
  shows "s dvd unat a"
proof -
  obtain n where n: "4096 = s * n" using assms(1) by blast
  have "s \<noteq> 0" by (rule notI) (use n in simp)
  then have d: "4096 div s = n" unfolding n by simp
  obtain i where i: "a = page + of_nat (i * s)" "i < n"
    using assms(4) by (auto simp: carve_eq d)
  have "i * s < n * s" using i(2) \<open>s \<noteq> 0\<close> by simp
  with assms(3) n have "unat a = unat page + i * s"
    unfolding i(1) by (intro unat_add_of_nat) (simp add: mult.commute)
  moreover have "s dvd unat page" using assms(1,2) by (rule dvd_trans)
  ultimately show ?thesis by simp
qed

lemma slab_cover_update:
  assumes "slabs_ok slabs" "k < 9"
  shows "slab_cover (slabs[k := (slabs ! k)\<lparr>slab_free_list := v\<rparr>]) x +
      list_cover (slab_len k) (slab_free_list (slabs ! k)) x = slab_cover slabs x + list_cover (slab_len k) v x"
  using table_cover_update [of k "map slab_free_list slabs" slab_len v x] assms
  by (simp add: slab_cover_def slabs_ok_def map_update)

lemma slabs_ok_update:
  assumes "slabs_ok slabs" "k < 9" "\<And>a. a \<in> set v \<Longrightarrow> slab_len k dvd unat a"
  shows "slabs_ok (slabs[k := (slabs ! k)\<lparr>slab_free_list := v\<rparr>])"
  using assms by (auto simp: slabs_ok_def nth_list_update)

lemma slab_alloc_spec:
  assumes ok: "slabs_ok slabs" and inv: "buddy_inv (\<lambda>x. slab_cover slabs x + held x) b"
    and r: "slab_alloc slabs b sz = (r, slabs1, b1)"
  shows "slabs_ok slabs1 \<and> (case r of
      Ok p \<Rightarrow> 0 < sz \<and> sz \<le> 2048 \<and> slab_len (size_to_slab sz) dvd unat p \<and>
        buddy_inv (\<lambda>x. slab_cover slabs1 x + (held x + blk p (slab_len (size_to_slab sz)) x)) b1
    | Err e \<Rightarrow> buddy_inv (\<lambda>x. slab_cover slabs1 x + held x) b1
    | Panic \<Rightarrow> False)"
proof (cases "0 < sz \<and> sz \<le> 2048")
  case False
  with assms show ?thesis by (auto simp: slab_alloc_def)
next
  case True
  let ?k = "size_to_slab sz"
  have k: "?k < 9" using size_to_slab_class(1) True by blast
  with ok have len: "?k < length slabs" "slab_size (slabs ! ?k) = slab_len ?k"
    by (simp_all add: slabs_ok_def)
  show ?thesis
  proof (cases "slab_free_list (slabs ! ?k)")
    case (Cons a as)
    have al: "slab_len ?k dvd unat c" if "c \<in> set (a # as)" for c
      using ok k that Cons unfolding slabs_ok_def by metis
    have "slab_cover slabs x = slab_cover (slabs[?k := (slabs ! ?k)\<lparr>slab_free_list := as\<rparr>]) x + blk a (slab_len ?k) x" for x
      using slab_cover_update [OF ok k, of as x] Cons by simp
    with inv have "buddy_inv (\<lambda>x. slab_cover (slabs[?k := (slabs ! ?k)\<lparr>slab_free_list := as\<rparr>]) x +
        (held x + blk a (slab_len ?k) x)) b"
      by (elim buddy_inv_cong) simp
    with True r len Cons al slabs_ok_update [OF ok k, of as] show ?thesis
      by (auto simp: slab_alloc_def Let_def)
  next
    case Nil
    obtain q b2 where q: "buddy_alloc b 0 = (q, b2)" by fastforce
    note spec = buddy_alloc_spec [OF inv q]
    show ?thesis
    proof (cases q)
      case (Ok page)
      let ?v = "carve page (slab_len ?k) []"
      let ?s = "slabs[?k := (slabs ! ?k)\<lparr>slab_free_list := ?v\<rparr>]"
      have page: "4096 dvd unat page" "buddy_inv (\<lambda>x. slab_cover slabs x + held x + blk page 4096 x) b2"
        using spec Ok by simp_all
      have bound: "unat page + 4096 \<le> 2 ^ 64" by (rule buddy_inv_bound [OF page(2)]) simp
      have "slab_cover ?s x + (held x + blk page (slab_len ?k) x) = slab_cover slabs x + held x + blk page 4096 x" for x
        using slab_cover_update [OF ok k, of ?v x] carve_cover [OF slab_page [OF k] bound, of x] Nil by simp
      with page(2) have "buddy_inv (\<lambda>x. slab_cover ?s x + (held x + blk page (slab_len ?k) x)) b2"
        by (elim buddy_inv_cong) simp
      moreover have "slab_len ?k dvd unat page" using slab_page [OF k] page(1) by (rule dvd_trans)
      moreover have "slabs_ok ?s"
        by (rule slabs_ok_update [OF ok k]) (rule carve_aligned [OF slab_page [OF k] page(1) bound])
      ultimately show ?thesis
        using True r len Nil q Ok by (auto simp: slab_alloc_def Let_def)
    qed (use True r len Nil q spec ok in \<open>auto simp: slab_alloc_def Let_def\<close>)
  qed
qed

lemma slab_free_spec:
  assumes ok: "slabs_ok slabs" and sz: "0 < sz" "sz \<le> 2048"
    and inv: "buddy_inv (\<lambda>x. slab_cover slabs x + (held x + blk p (slab_len (size_to_slab sz)) x)) b"
    and al: "slab_len (size_to_slab sz) dvd unat p"
  shows "\<exists>slabs1. slab_free slabs p sz = (Ok (), slabs1) \<and> slabs_ok slabs1 \<and>
           buddy_inv (\<lambda>x. slab_cover slabs1 x + held x) b"
proof -
  let ?k = "size_to_slab sz"
  let ?s = "slabs[?k := (slabs ! ?k)\<lparr>slab_free_list := p # slab_free_list (slabs ! ?k)\<rparr>]"
  have k: "?k < 9" by (rule size_to_slab_class(1) [OF sz])
  have "slab_cover ?s x = slab_cover slabs x + blk p (slab_len ?k) x" for x
    using slab_cover_update [OF ok k, of "p # slab_free_list (slabs ! ?k)" x] by simp
  with inv have "buddy_inv (\<lambda>x. slab_cover ?s x + held x) b" by (elim buddy_inv_cong) simp
  moreover have "slabs_ok ?s"
    by (rule slabs_ok_update [OF ok k]) (use ok k al in \<open>auto simp: slabs_ok_def\<close>)
  moreover have "slab_free slabs p sz = (Ok (), ?s)"
    using sz k ok by (simp add: slab_free_def Let_def slabs_ok_def)
  ultimately show ?thesis by blast
qed

section \<open>Clients of the heap\<close>

text \<open>
  A client's allocations that are still live, with the sizes they were requested with. The heap
  sets aside a whole block for each of them.
\<close>

type_synonym live = "(u64 \<times> usize) list"

definition block_len :: "usize \<Rightarrow> nat" where
  "block_len sz = (if sz < 4096 then slab_len (size_to_slab sz) else order_len (order_of_size sz))"

definition live_cover :: "live \<Rightarrow> nat \<Rightarrow> nat" where
  "live_cover live x = (\<Sum>(p, sz) \<leftarrow> live. blk p (block_len sz) x)"

definition live_ok :: "u64 \<times> usize \<Rightarrow> bool" where
  "live_ok = (\<lambda>(p, sz). 0 < sz \<and> (if sz < 4096 then sz \<le> 2048 \<and> slab_len (size_to_slab sz) dvd unat p
     else sz + 4095 < usize_mod \<and> order_of_size sz < 11 \<and> 4096 dvd unat p))"

text \<open>
  The invariant, while the frame keeps its bytes: the buddy allocator that the slab allocator
  reaches is a second one, with no free block of its own and the same physical allocator.
\<close>

definition heap_inv :: "live \<Rightarrow> HeapAllocator \<Rightarrow> HeapMemory \<Rightarrow> bool" where
  "heap_inv live h m \<longleftrightarrow> slabs_ok (heap_slab h) \<and> (\<forall>l \<in> set live. live_ok l) \<and>
     free_lists (hm_frame m) = replicate 11 [] \<and>
     buddy_inv (\<lambda>x. slab_cover (heap_slab h) x + live_cover live x) (with_phys (hm_phys m) (heap_buddy h))"

text \<open>The steps of clients; none of them writes to the frame.\<close>

inductive heap_step ::
  "HeapAllocator \<times> HeapMemory \<times> live \<Rightarrow> HeapAllocator \<times> HeapMemory \<times> live \<Rightarrow> bool" where
  client_alloc: "heap_alloc h m sz align = (Ok p, h1, m1) \<Longrightarrow>
     heap_step (h, m, live) (h1, m1, if p = 0 then live else (p, sz) # live)"
| client_free: "(p, sz) \<in> set live \<Longrightarrow> heap_dealloc h m p sz = (Ok (), h1, m1) \<Longrightarrow>
     heap_step (h, m, live) (h1, m1, remove1 (p, sz) live)"

definition heap_boot :: "HeapAllocator \<times> HeapMemory \<times> live \<Rightarrow> bool" where
  "heap_boot = (\<lambda>(h, m, live). \<exists>pa. phys_inv pa \<and> (h, m) = heap_new pa \<and> live = [])"

lemma with_phys_simps [simp]:
  "free_lists (with_phys pa b) = free_lists b" "ba_phys (with_phys pa b) = pa"
  "with_phys pa (with_phys pa1 b) = with_phys pa b" "with_phys (ba_phys b) b = b"
  "buddy_cover (with_phys pa b) = buddy_cover b"
  by (simp_all add: with_phys_def buddy_cover_def)

lemma buddy_cover_empty: "free_lists f = replicate 11 [] \<Longrightarrow> buddy_cover f x = 0"
  by (simp add: buddy_cover_def table_cover_def)

text \<open>What the heap's own free lists hold is, for the allocator in the frame, held elsewhere.\<close>

lemma frame_enter:
  assumes "buddy_inv held (with_phys pa b)" "free_lists f = replicate 11 []"
  shows "buddy_inv (\<lambda>x. held x + buddy_cover b x) (with_phys pa f)"
  using assms by (simp add: buddy_inv_def buddy_cover_empty add.commute)

lemma frame_leave:
  assumes f: "buddy_inv (\<lambda>x. held x + buddy_cover b x) f" and b: "buddy_inv held0 (with_phys pa b)"
  shows "buddy_inv held (with_phys (ba_phys f) b)"
proof -
  have "buddy_cover b x + held x \<le> of_bool (x \<in> owned_bytes (ba_phys f))" for x
  proof -
    have "buddy_cover f x + (held x + buddy_cover b x) \<le> of_bool (x \<in> owned_bytes (ba_phys f))"
      using f by (simp add: buddy_inv_def fits_def)
    then show ?thesis by linarith
  qed
  with f b show ?thesis by (simp add: buddy_inv_def fits_def)
qed

text \<open>With no free block the allocator in the frame only forwards to the physical allocator.\<close>

lemma buddy_alloc_empty:
  assumes "free_lists b = replicate 11 []"
  shows "free_lists (snd (buddy_alloc b order)) = replicate 11 []"
proof -
  have "find_from (\<lambda>k. free_lists b ! k \<noteq> []) (order + 1) 11 \<ge> 11" if "order < 11"
    using that assms by (intro leI notI) (auto simp: find_from_less_iff)
  with assms show ?thesis
    by (auto simp: buddy_alloc_def Let_def split: prod.split list.split)
qed

lemma slab_alloc_empty:
  assumes "free_lists b = replicate 11 []" "slab_alloc slabs b sz = (r, slabs1, b1)"
  shows "free_lists b1 = replicate 11 []"
  using assms buddy_alloc_empty [OF assms(1), of 0]
  by (auto simp: slab_alloc_def Let_def split: if_splits list.splits prod.splits outcome.splits)

lemma live_cover_simps [simp]:
  "live_cover [] x = 0" "live_cover ((p, sz) # live) x = blk p (block_len sz) x + live_cover live x"
  by (simp_all add: live_cover_def)

lemma live_cover_remove1:
  "(p, sz) \<in> set live \<Longrightarrow> blk p (block_len sz) x + live_cover (remove1 (p, sz) live) x = live_cover live x"
  by (induction live) auto

lemma block_len_ge: "live_ok (p, sz) \<Longrightarrow> sz \<le> block_len sz"
  using size_to_slab_class(2) [of sz] order_of_size_fits [of sz]
  by (auto simp: live_ok_def block_len_def split: if_splits)

lemma heap_alloc_slab_spec:
  assumes inv: "heap_inv live h m" and sz: "0 < sz" "sz < 4096" "align \<le> 4096"
    "align \<le> next_power_of_two (max sz 8)"
  shows "\<exists>p h1 m1. heap_alloc h m sz align = (Ok p, h1, m1) \<and>
    (if p = 0 then heap_inv live h1 m1 else heap_inv ((p, sz) # live) h1 m1)"
proof -
  let ?b = "with_phys (hm_phys m) (heap_buddy h)" and ?f = "with_phys (hm_phys m) (hm_frame m)"
  let ?own = "buddy_cover (heap_buddy h)"
  have slabs: "slabs_ok (heap_slab h)" and live: "\<forall>l \<in> set live. live_ok l"
    and e: "free_lists (hm_frame m) = replicate 11 []"
    and b: "buddy_inv (\<lambda>x. slab_cover (heap_slab h) x + live_cover live x) ?b"
    using inv by (simp_all add: heap_inv_def)
  have f: "buddy_inv (\<lambda>x. slab_cover (heap_slab h) x + (live_cover live x + ?own x)) ?f"
    using frame_enter [OF b e] by (simp add: add.assoc)
  obtain r slabs1 f1 where r: "slab_alloc (heap_slab h) ?f sz = (r, slabs1, f1)"
    by (cases "slab_alloc (heap_slab h) ?f sz")
  let ?h = "h\<lparr>heap_slab := slabs1\<rparr>" and ?m = "\<lparr>hm_phys = ba_phys f1, hm_frame = f1\<rparr>"
  have alloc: "heap_alloc h m sz align = (or_null r, ?h, ?m)"
    using sz r by (simp add: heap_alloc_def)
  note spec = slab_alloc_spec [OF slabs f r]
  have e1: "free_lists f1 = replicate 11 []" by (rule slab_alloc_empty [OF _ r]) (simp add: e)
  show ?thesis
  proof (cases r)
    case (Ok p)
    have ok: "live_ok (p, sz)" using spec Ok sz by (simp add: live_ok_def)
    have "block_len sz = slab_len (size_to_slab sz)" using sz by (simp add: block_len_def)
    then have f1: "buddy_inv (\<lambda>x. slab_cover slabs1 x + live_cover ((p, sz) # live) x + ?own x) f1"
      using spec Ok by (simp add: add_ac)
    have "buddy_inv (\<lambda>x. slab_cover slabs1 x + live_cover live x + ?own x + blk p (block_len sz) x) f1"
      by (rule buddy_inv_cong [OF f1]) simp
    then have "buddy_inv (\<lambda>x. slab_cover slabs1 x + live_cover live x + ?own x) f1"
      by (rule buddy_inv_drop)
    note inv1 = frame_leave [OF f1 b] frame_leave [OF this b]
    have "slabs_ok slabs1" using spec by simp
    with inv1 ok live e1 have "heap_inv ((p, sz) # live) ?h ?m" "heap_inv live ?h ?m"
      by (simp_all add: heap_inv_def)
    with alloc Ok show ?thesis by simp
  next
    case (Err e)
    then have "buddy_inv (\<lambda>x. slab_cover slabs1 x + live_cover live x + ?own x) f1"
      using spec by (simp add: add.assoc)
    note inv1 = frame_leave [OF this b]
    have "slabs_ok slabs1" using spec by simp
    with inv1 live e1 have "heap_inv live ?h ?m" by (simp add: heap_inv_def)
    with alloc Err show ?thesis by simp
  qed (use spec in simp)
qed

lemma heap_alloc_buddy_spec:
  assumes inv: "heap_inv live h m" and sz: "4096 \<le> sz" "sz + 4095 < usize_mod"
    "order_of_size sz < 11" "align \<le> 4096"
  shows "\<exists>p h1 m1. heap_alloc h m sz align = (Ok p, h1, m1) \<and>
    (if p = 0 then heap_inv live h1 m1 else heap_inv ((p, sz) # live) h1 m1)"
proof -
  let ?b = "with_phys (hm_phys m) (heap_buddy h)"
  have slabs: "slabs_ok (heap_slab h)" and live: "\<forall>l \<in> set live. live_ok l"
    and e: "free_lists (hm_frame m) = replicate 11 []"
    and b: "buddy_inv (\<lambda>x. slab_cover (heap_slab h) x + live_cover live x) ?b"
    using inv by (simp_all add: heap_inv_def)
  obtain r b1 where r: "buddy_alloc ?b (order_of_size sz) = (r, b1)" by fastforce
  let ?h = "h\<lparr>heap_buddy := b1\<rparr>" and ?m = "m\<lparr>hm_phys := ba_phys b1\<rparr>"
  have alloc: "heap_alloc h m sz align = (or_null r, ?h, ?m)"
    using sz r by (simp add: heap_alloc_def Let_def)
  note spec = buddy_alloc_spec [OF b r]
  show ?thesis
  proof (cases r)
    case (Ok p)
    have ok: "live_ok (p, sz)" using spec Ok sz by (simp add: live_ok_def)
    have len: "block_len sz = order_len (order_of_size sz)" using sz by (simp add: block_len_def)
    have inv1: "buddy_inv (\<lambda>x. slab_cover (heap_slab h) x + live_cover live x +
        blk p (order_len (order_of_size sz)) x) b1"
      using spec Ok by simp
    then have "buddy_inv (\<lambda>x. slab_cover (heap_slab h) x + live_cover ((p, sz) # live) x) b1"
      by (rule buddy_inv_cong) (simp add: len)
    with buddy_inv_drop [OF inv1] slabs live ok e Ok alloc show ?thesis by (simp add: heap_inv_def)
  qed (use spec slabs live e alloc in \<open>auto simp: heap_inv_def\<close>)
qed

lemma heap_alloc_spec:
  assumes inv: "heap_inv live h m"
  shows "\<exists>p h1 m1. heap_alloc h m sz align = (Ok p, h1, m1) \<and>
    (if p = 0 then heap_inv live h1 m1 else heap_inv ((p, sz) # live) h1 m1)"
proof -
  consider (none) "heap_alloc h m sz align = (Ok 0, h, m)"
    | (slab) "0 < sz" "sz < 4096" "align \<le> 4096" "align \<le> next_power_of_two (max sz 8)"
    | (buddy) "4096 \<le> sz" "sz + 4095 < usize_mod" "order_of_size sz < 11" "align \<le> 4096"
  proof -
    have "heap_alloc h m sz align = (Ok 0, h, m)"
      if "sz = 0 \<or> 4096 < align \<or> (sz < 4096 \<and> next_power_of_two (max sz 8) < align) \<or>
        (4096 \<le> sz \<and> (usize_mod \<le> sz + 4095 \<or> 11 \<le> order_of_size sz))"
      using that by (auto simp: heap_alloc_def Let_def)
    then show ?thesis using slab buddy none by (meson not_le not_gr_zero)
  qed
  then show ?thesis
  proof cases
    case none
    with inv show ?thesis by simp
  next
    case slab
    from heap_alloc_slab_spec [OF inv this] show ?thesis .
  next
    case buddy
    from heap_alloc_buddy_spec [OF inv this] show ?thesis .
  qed
qed

lemma heap_dealloc_spec:
  assumes inv: "heap_inv live h m" and l: "(p, sz) \<in> set live"
  shows "\<exists>h1 m1. heap_dealloc h m p sz = (Ok (), h1, m1) \<and> heap_inv (remove1 (p, sz) live) h1 m1"
proof -
  let ?rest = "remove1 (p, sz) live" and ?b = "with_phys (hm_phys m) (heap_buddy h)"
  have slabs: "slabs_ok (heap_slab h)" and ok: "live_ok (p, sz)"
    and rest: "\<forall>l \<in> set ?rest. live_ok l" and e: "free_lists (hm_frame m) = replicate 11 []"
    using inv l set_remove1_subset by (auto simp: heap_inv_def)
  have b: "buddy_inv (\<lambda>x. slab_cover (heap_slab h) x + (live_cover ?rest x + blk p (block_len sz) x)) ?b"
    using inv live_cover_remove1 [OF l] by (auto simp: heap_inv_def add.commute)
  have b0: "buddy_inv (\<lambda>x. slab_cover (heap_slab h) x + live_cover ?rest x) ?b"
    by (rule buddy_inv_drop [where c = "blk p (block_len sz)"]) (use b in \<open>simp add: add.assoc\<close>)
  consider "p = 0" | "p \<noteq> 0" "sz < 4096" | "p \<noteq> 0" "\<not> sz < 4096" by blast
  then show ?thesis
  proof cases
    case 1
    with b0 slabs rest e show ?thesis by (simp add: heap_dealloc_def heap_inv_def)
  next
    case 2
    then have "0 < sz" "sz \<le> 2048" "slab_len (size_to_slab sz) dvd unat p"
      "block_len sz = slab_len (size_to_slab sz)"
      using ok by (auto simp: live_ok_def block_len_def)
    with slab_free_spec [OF slabs, of sz "live_cover ?rest" p ?b] b 2 rest e
    show ?thesis by (auto simp: heap_dealloc_def heap_inv_def)
  next
    case 3
    then have big: "order_of_size sz < 11" "4096 dvd unat p" "0 < sz"
      "block_len sz = order_len (order_of_size sz)"
      using ok by (auto simp: live_ok_def block_len_def)
    obtain r b1 where r: "buddy_free ?b p (order_of_size sz) = (r, b1)" by fastforce
    have "buddy_inv (\<lambda>x. slab_cover (heap_slab h) x + live_cover ?rest x +
        blk p (order_len (order_of_size sz)) x) ?b"
      using b big by (simp add: add.assoc)
    from buddy_free_spec [OF this big(2,1) r] 3 r big slabs rest e
    show ?thesis by (auto simp: heap_dealloc_def heap_inv_def Let_def)
  qed
qed

lemma heap_new_inv: "phys_inv pa \<Longrightarrow> heap_new pa = (h, m) \<Longrightarrow> heap_inv [] h m"
proof -
  assume pa: "phys_inv pa" and hm: "heap_new pa = (h, m)"
  have none: "table_cover len (replicate n []) x = 0" for len n x
    by (simp add: table_cover_def)
  have sizes: "slab_sizes = map slab_len [0..<9]"
    by (simp add: slab_sizes_def upt_rec)
  have slabs: "slab_init slab_new = map (\<lambda>s. \<lparr>slab_size = s, slab_free_list = []\<rparr>) slab_sizes"
    by (simp add: slab_init_def slab_new_def slab_sizes_def numeral_eq_Suc)
  have "map slab_free_list (slab_init slab_new) = replicate 9 []"
    unfolding slabs sizes by (simp add: upt_rec numeral_eq_Suc)
  moreover have "slabs_ok (slab_init slab_new)"
    unfolding slabs slabs_ok_def sizes by simp
  moreover have "h = \<lparr>heap_buddy = buddy_new pa, heap_slab = slab_init slab_new\<rparr>"
    "m = \<lparr>hm_phys = pa, hm_frame = buddy_new pa\<rparr>"
    using hm by (simp_all add: heap_new_def Let_def)
  ultimately show ?thesis
    using pa by (simp add: none heap_inv_def buddy_new_def buddy_inv_def fits_def
        buddy_cover_def slab_cover_def)
qed

interpretation heap: transition_system heap_boot heap_step "\<lambda>(h, m, live). heap_inv live h m"
proof unfold_locales
  fix s s1
  show "heap_boot s \<Longrightarrow> case s of (h, m, live) \<Rightarrow> heap_inv live h m"
    by (auto simp: heap_boot_def intro: heap_new_inv [OF _ sym])
  assume inv: "case s of (h, m, live) \<Rightarrow> heap_inv live h m" and step: "heap_step s s1"
  from step show "case s1 of (h, m, live) \<Rightarrow> heap_inv live h m"
  proof cases
    case (client_alloc h m sz align p h1 m1 live)
    with inv heap_alloc_spec [of live h m sz align] show ?thesis by (auto split: if_splits)
  next
    case (client_free p sz live h m h1 m1)
    with inv heap_dealloc_spec [of live h m p sz] show ?thesis by auto
  qed
qed

text \<open>
  Once other code has used the stack again the frame holds any bytes at all, and then a request
  of an empty size class is served with any address those bytes name.
\<close>

lemma frame_reused:
  assumes "slabs_ok (heap_slab h)" "0 < sz" "sz \<le> 2048"
    "slab_free_list (heap_slab h ! size_to_slab sz) = []" "free_lists f ! 0 = [a]"
  shows "fst (heap_alloc h (m\<lparr>hm_frame := f\<rparr>) sz 1) = Ok a"
proof -
  let ?k = "size_to_slab sz" and ?f = "with_phys (hm_phys m) f"
  have k: "?k < 9" "slab_size (heap_slab h ! ?k) \<noteq> 0" "length (heap_slab h) = 9"
    using size_to_slab_class(1) [OF assms(2,3)] assms(1) by (simp_all add: slabs_ok_def)
  have "buddy_alloc ?f 0 = (Ok a, set_list ?f 0 [])"
    using assms(5) by (simp add: buddy_alloc_def)
  with k assms(2-4) have "fst (slab_alloc (heap_slab h) ?f sz) = Ok a"
    by (simp add: slab_alloc_def Let_def)
  moreover have "1 \<le> next_power_of_two (max sz 8)" by (simp add: next_power_of_two_def)
  ultimately show ?thesis
    using assms(2,3) by (auto simp: heap_alloc_def split: prod.split)
qed

lemma live_cover_two:
  assumes "i < length live" "j < length live" "i \<noteq> j"
  shows "blk (fst (live ! i)) (block_len (snd (live ! i))) x + blk (fst (live ! j)) (block_len (snd (live ! j))) x
           \<le> live_cover live x"
proof -
  let ?f = "\<lambda>k. blk (fst (live ! k)) (block_len (snd (live ! k))) x"
  have "live_cover live x = (\<Sum>k = 0..<length live. ?f k)"
    by (simp add: live_cover_def sum_list_sum_nth case_prod_beta)
  moreover have "(\<Sum>k \<in> {i, j}. ?f k) \<le> (\<Sum>k = 0..<length live. ?f k)"
    by (rule sum_mono2) (use assms in auto)
  ultimately show ?thesis using assms(3) by simp
qed

lemma live_cover_one:
  "l \<in> set live \<Longrightarrow> blk (fst l) (block_len (snd l)) x \<le> live_cover live x"
  using live_cover_remove1 [of "fst l" "snd l" live x] by simp

lemma heap_inv_cover:
  assumes "heap_inv live h mem"
  shows "live_cover live x \<le> of_bool (x \<in> owned_bytes (hm_phys mem))"
proof -
  have "buddy_cover (heap_buddy h) x + (slab_cover (heap_slab h) x + live_cover live x)
      \<le> of_bool (x \<in> owned_bytes (hm_phys mem))"
    using assms by (simp add: heap_inv_def buddy_inv_def fits_def)
  then show ?thesis by linarith
qed

lemma heap_inv_region:
  assumes inv: "heap_inv live h mem" and l: "(p, sz) \<in> set live" and x: "x \<in> region p sz"
  shows "blk p (block_len sz) x = 1" "x \<in> owned_bytes (hm_phys mem)"
proof -
  have "sz \<le> block_len sz" using inv l by (intro block_len_ge) (auto simp: heap_inv_def)
  with x show one: "blk p (block_len sz) x = 1" by (auto simp: blk_def region_def)
  with live_cover_one [OF l, of x] heap_inv_cover [OF inv, of x]
  show "x \<in> owned_bytes (hm_phys mem)" by (cases "x \<in> owned_bytes (hm_phys mem)") auto
qed

lemma heap_inv_disjoint:
  assumes inv: "heap_inv live h mem" and ij: "i < length live" "j < length live" "i \<noteq> j"
    and l: "live ! i = (p, n)" "live ! j = (q, m)"
  shows "region p n \<inter> region q m = {}"
proof (rule ccontr)
  assume "region p n \<inter> region q m \<noteq> {}"
  then obtain x where "x \<in> region p n" "x \<in> region q m" by blast
  moreover have "(p, n) \<in> set live" "(q, m) \<in> set live" using ij l nth_mem by metis+
  ultimately have "blk p (block_len n) x = 1" "blk q (block_len m) x = 1"
    using heap_inv_region(1) [OF inv] by blast+
  with live_cover_two [OF ij, of x] heap_inv_cover [OF inv, of x] l show False
    by (cases "x \<in> owned_bytes (hm_phys mem)") auto
qed

section \<open>Properties\<close>

text \<open>
  C11 (safety). Whatever a client requests and frees (each block once, with its size), as long
  as nothing else has written to the dead stack frame that the slab allocator's pointer leads to,
  the allocations that are live never overlap, and each lies within pages the physical allocator
  has handed out. The condition cannot be dropped: for every address there are bytes of that
  frame with which the next small request of an empty size class is answered by this very
  address, a live allocation's included.
\<close>

theorem heap_live_disjoint:
  assumes "reachable heap_boot heap_step (h, m, live)"
  shows "(\<forall>i < length live. \<forall>j < length live. i \<noteq> j \<longrightarrow>
            region (fst (live ! i)) (snd (live ! i)) \<inter> region (fst (live ! j)) (snd (live ! j)) = {}) \<and>
         (\<forall>(p, sz) \<in> set live. region p sz \<subseteq> owned_bytes (hm_phys m)) \<and>
         (\<forall>a sz. 0 < sz \<and> sz \<le> 2048 \<and> slab_free_list (heap_slab h ! size_to_slab sz) = [] \<longrightarrow>
            (\<exists>f. fst (heap_alloc h (m\<lparr>hm_frame := f\<rparr>) sz 1) = Ok a))"
proof (intro conjI)
  have inv: "heap_inv live h m" using heap.reachable_inv [OF assms] by simp
  have "region (fst (live ! i)) (snd (live ! i)) \<inter> region (fst (live ! j)) (snd (live ! j)) = {}"
    if "i < length live" "j < length live" "i \<noteq> j" for i j
    by (rule heap_inv_disjoint [OF inv that]) simp_all
  then show "\<forall>i < length live. \<forall>j < length live. i \<noteq> j \<longrightarrow>
      region (fst (live ! i)) (snd (live ! i)) \<inter> region (fst (live ! j)) (snd (live ! j)) = {}" by blast
  have "region p sz \<subseteq> owned_bytes (hm_phys m)" if "(p, sz) \<in> set live" for p sz
    using heap_inv_region(2) [OF inv that] by blast
  then show "\<forall>(p, sz) \<in> set live. region p sz \<subseteq> owned_bytes (hm_phys m)" by blast
  have ok: "slabs_ok (heap_slab h)" using inv by (simp add: heap_inv_def)
  have "\<exists>f. fst (heap_alloc h (m\<lparr>hm_frame := f\<rparr>) sz 1) = Ok a"
    if "0 < sz" "sz \<le> 2048" "slab_free_list (heap_slab h ! size_to_slab sz) = []" for a sz
    by (rule exI [of _ "\<lparr>free_lists = [[a]], ba_phys = hm_phys m\<rparr>"], rule frame_reused [OF ok that]) simp
  then show "\<forall>a sz. 0 < sz \<and> sz \<le> 2048 \<and> slab_free_list (heap_slab h ! size_to_slab sz) = [] \<longrightarrow>
      (\<exists>f. fst (heap_alloc h (m\<lparr>hm_frame := f\<rparr>) sz 1) = Ok a)" by blast
qed

lemma example_heap:
  obtains h0 m0 h m where "heap_new (phys_new 0x80000000 8) = (h0, m0)"
    "heap_alloc h0 m0 4096 1 = (Ok 0x80000000, h, m)"
proof -
  let ?pa = "phys_new 0x80000000 8"
  have none: "\<not> free_run ?pa s' 1" if "s' < 0" for s' using that by simp
  obtain pa1 where r: "alloc_pages ?pa 1 = (Ok (page_addr ?pa 0), pa1)"
    by (rule alloc_pages_run [of ?pa 1 0]) (use example_inv example_run none in simp_all)
  obtain h0 m0 where n: "heap_new ?pa = (h0, m0)" by fastforce
  then have h0: "with_phys (hm_phys m0) (heap_buddy h0) = buddy_new ?pa"
    by (auto simp: heap_new_def Let_def buddy_new_def with_phys_def)
  have "order_of_size 4096 = 0"
    using usize_trailing_zeros_exp [of 0] by (simp add: order_of_size_def next_power_of_two_def)
  moreover have "find_from (\<lambda>k. replicate 11 ([] :: u64 list) ! k \<noteq> []) (Suc 0) 11 = 11"
    by (rule antisym [OF find_from_le leI]) (auto simp: find_from_less_iff)
  moreover have "page_addr ?pa 0 = 0x80000000" by (simp add: page_addr_def phys_new_def)
  ultimately have "fst (heap_alloc h0 m0 4096 1) = Ok 0x80000000"
    using r by (simp add: heap_alloc_def h0 buddy_alloc_def Let_def buddy_new_def)
  with that n show ?thesis by (metis prod.collapse)
qed

theorem heap_live_disjoint_witness:
  "\<exists>h0 m0 h m p h1 m1. heap_new (phys_new 0x80000000 8) = (h0, m0) \<and>
     heap_alloc h0 m0 4096 1 = (Ok 0x80000000, h, m) \<and>
     heap_alloc h m 8192 1 = (Ok p, h1, m1) \<and>
     (p \<noteq> 0 \<longrightarrow> region p 8192 \<inter> region 0x80000000 4096 = {})"
proof -
  obtain h0 m0 h m where n: "heap_new (phys_new 0x80000000 8) = (h0, m0)"
    and h: "heap_alloc h0 m0 4096 1 = (Ok 0x80000000, h, m)"
    by (rule example_heap)
  have "heap_boot (h0, m0, [])"
    unfolding heap_boot_def prod.case
    by (rule exI [of _ "phys_new 0x80000000 8"]) (simp only: n example_inv simp_thms)
  moreover have "heap_step (h0, m0, []) (h, m, [(0x80000000, 4096)])"
    using client_alloc [OF h, of "[]"] by simp
  ultimately have r1: "reachable heap_boot heap_step (h, m, [(0x80000000, 4096)])"
    by (blast intro: reachable.intros)
  then have "heap_inv [(0x80000000, 4096)] h m" using heap.reachable_inv by fastforce
  then obtain p h1 m1 where p: "heap_alloc h m 8192 1 = (Ok p, h1, m1)" using heap_alloc_spec by blast
  have "heap_step (h, m, [(0x80000000, 4096)])
      (h1, m1, if p = 0 then [(0x80000000, 4096)] else [(p, 8192), (0x80000000, 4096)])"
    using client_alloc [OF p, of "[(0x80000000, 4096)]"] .
  with r1 have "reachable heap_boot heap_step
      (h1, m1, if p = 0 then [(0x80000000, 4096)] else [(p, 8192), (0x80000000, 4096)])"
    by (blast intro: reachable.intros)
  from heap_live_disjoint [OF this, THEN conjunct1]
  have "p \<noteq> 0 \<longrightarrow> region p 8192 \<inter> region 0x80000000 4096 = {}"
    by (auto simp: All_less_Suc numeral_2_eq_2)
  with n h p show ?thesis by blast
qed

text \<open>
  On a consistent heap an allocation never panics; a non-null result is aligned
  as requested and overlaps no live allocation; and the result is null, with
  free lists unchanged, for every size of 2049 to 4095 bytes, which neither the slabs nor the buddy
  allocator serve.
\<close>

theorem heap_alloc_result:
  assumes "heap_inv live h mem"
  shows "\<exists>p h1 mem1. heap_alloc h mem sz (2 ^ k) = (Ok p, h1, mem1) \<and>
    (p \<noteq> 0 \<longrightarrow> 2 ^ k dvd unat p \<and> heap_inv ((p, sz) # live) h1 mem1 \<and>
       (\<forall>(q, m) \<in> set live. region p sz \<inter> region q m = {})) \<and>
    (2048 < sz \<and> sz < 4096 \<longrightarrow> p = 0 \<and> h1 = h \<and> hm_phys mem1 = hm_phys mem \<and>
       free_lists (hm_frame mem1) = free_lists (hm_frame mem))"
proof -
  obtain p h1 mem1 where r: "heap_alloc h mem sz (2 ^ k) = (Ok p, h1, mem1)"
    "if p = 0 then heap_inv live h1 mem1 else heap_inv ((p, sz) # live) h1 mem1"
    using heap_alloc_spec [OF assms] by blast
  have gap: "p = 0 \<and> h1 = h \<and> hm_phys mem1 = hm_phys mem \<and>
       free_lists (hm_frame mem1) = free_lists (hm_frame mem)" if "2048 < sz" "sz < 4096"
    using r(1) that by (auto simp: heap_alloc_def slab_alloc_def split: if_splits)
  have "2 ^ k dvd unat p \<and> (\<forall>(q, m) \<in> set live. region p sz \<inter> region q m = {})" if p: "p \<noteq> 0"
  proof -
    have inv: "heap_inv ((p, sz) # live) h1 mem1" using r(2) p by simp
    then have ok: "live_ok (p, sz)" by (simp add: heap_inv_def)
    have dvd: "(2 :: nat) ^ k dvd 2 ^ m" if "(2 :: nat) ^ k \<le> 2 ^ m" for m
      using that by (simp add: le_imp_power_dvd)
    have "2 ^ k dvd unat p"
    proof (cases "sz < 4096")
      case True
      have "(2 :: nat) ^ k \<le> next_power_of_two (max sz 8)"
        using r(1) p True by (auto simp: heap_alloc_def split: if_splits)
      then have "(2 :: nat) ^ k dvd 2 ^ (3 + size_to_slab sz)"
        using ok True size_to_slab_class(3) [of sz] by (intro dvd) (auto simp: live_ok_def power_add)
      with ok True show ?thesis by (auto simp: live_ok_def power_add intro: dvd_trans)
    next
      case False
      have "(2 :: nat) ^ k \<le> 2 ^ 12"
        using r(1) p False by (auto simp: heap_alloc_def split: if_splits)
      then have "(2 :: nat) ^ k dvd 4096" using dvd [of 12] by simp
      with ok False show ?thesis by (auto simp: live_ok_def intro: dvd_trans)
    qed
    moreover have "region p sz \<inter> region q m = {}" if mem: "(q, m) \<in> set live" for q m
    proof -
      obtain i where "i < length live" "live ! i = (q, m)" using mem by (auto simp: in_set_conv_nth)
      with heap_inv_disjoint [OF inv, of 0 "Suc i"] show ?thesis by simp
    qed
    ultimately show ?thesis by auto
  qed
  with r gap show ?thesis by auto
qed

theorem heap_alloc_result_witness:
  "fst (case_prod heap_alloc (heap_new (phys_new 0x80000000 8)) 3000 (2 ^ 3)) = Ok 0"
proof -
  obtain h m where n: "heap_new (phys_new 0x80000000 8) = (h, m)" by fastforce
  from heap_alloc_result [OF heap_new_inv [OF example_inv n], of 3000 3] n show ?thesis by auto
qed

end
