(* ===== verification/Task.thy ===== *)
theory Task
  imports VirtualMem
begin

text \<open>
  Tasks, \<open>kernel/src/process/task.rs\<close>: identifiers and priorities (with the order their
  derived \<open>Ord\<close> gives), the life-cycle state kept as a byte, the CPU context, the stack
  with its canary, and the operations of \<open>Task\<close>. The global counter \<open>NEXT_TASK_ID\<close> is
  passed explicitly. \<open>Context::save\<close> and \<open>restore\<close> are empty in the source.
\<close>

section \<open>Identifiers and priorities\<close>

datatype TaskId = TaskId u64
datatype Priority = Priority u8

fun task_id_as_u64 :: "TaskId \<Rightarrow> u64" where "task_id_as_u64 (TaskId i) = i"
fun priority_as_u8 :: "Priority \<Rightarrow> u8" where "priority_as_u8 (Priority p) = p"

text \<open>The derived orders compare the wrapped number.\<close>

instantiation TaskId :: linorder
begin

definition less_eq_TaskId :: "TaskId \<Rightarrow> TaskId \<Rightarrow> bool" where
  "a \<le> b \<longleftrightarrow> task_id_as_u64 a \<le> task_id_as_u64 b"

definition less_TaskId :: "TaskId \<Rightarrow> TaskId \<Rightarrow> bool" where
  "a < b \<longleftrightarrow> task_id_as_u64 a < task_id_as_u64 b"

instance
proof
  fix a b c :: TaskId
  show "a < b \<longleftrightarrow> a \<le> b \<and> \<not> b \<le> a" by (auto simp: less_eq_TaskId_def less_TaskId_def)
  show "a \<le> a" by (simp add: less_eq_TaskId_def)
  show "a \<le> b \<Longrightarrow> b \<le> c \<Longrightarrow> a \<le> c" by (auto simp: less_eq_TaskId_def)
  show "a \<le> b \<Longrightarrow> b \<le> a \<Longrightarrow> a = b"
    by (cases a; cases b) (simp add: less_eq_TaskId_def)
  show "a \<le> b \<or> b \<le> a" by (auto simp: less_eq_TaskId_def)
qed

end

instantiation Priority :: linorder
begin

definition less_eq_Priority :: "Priority \<Rightarrow> Priority \<Rightarrow> bool" where
  "a \<le> b \<longleftrightarrow> priority_as_u8 a \<le> priority_as_u8 b"

definition less_Priority :: "Priority \<Rightarrow> Priority \<Rightarrow> bool" where
  "a < b \<longleftrightarrow> priority_as_u8 a < priority_as_u8 b"

instance
proof
  fix a b c :: Priority
  show "a < b \<longleftrightarrow> a \<le> b \<and> \<not> b \<le> a" by (auto simp: less_eq_Priority_def less_Priority_def)
  show "a \<le> a" by (simp add: less_eq_Priority_def)
  show "a \<le> b \<Longrightarrow> b \<le> c \<Longrightarrow> a \<le> c" by (auto simp: less_eq_Priority_def)
  show "a \<le> b \<Longrightarrow> b \<le> a \<Longrightarrow> a = b"
    by (cases a; cases b) (simp add: less_eq_Priority_def)
  show "a \<le> b \<or> b \<le> a" by (auto simp: less_eq_Priority_def)
qed

end

definition REALTIME_MAX :: Priority where "REALTIME_MAX = Priority 0"
definition REALTIME_MIN :: Priority where "REALTIME_MIN = Priority 63"
definition HIGH :: Priority where "HIGH = Priority 64"
definition NORMAL :: Priority where "NORMAL = Priority 128"
definition LOW :: Priority where "LOW = Priority 192"
definition IDLE :: Priority where "IDLE = Priority 255"

definition is_realtime :: "Priority \<Rightarrow> bool" where
  "is_realtime p \<longleftrightarrow> priority_as_u8 p \<le> 63"

section \<open>Task states\<close>

datatype TaskState = Ready | Running | Blocked | Suspended | Terminated | Zombie

fun state_as_u8 :: "TaskState \<Rightarrow> u8" where
  "state_as_u8 Ready = 0"
| "state_as_u8 Running = 1"
| "state_as_u8 Blocked = 2"
| "state_as_u8 Suspended = 3"
| "state_as_u8 Terminated = 4"
| "state_as_u8 Zombie = 5"

definition state_from_u8 :: "u8 \<Rightarrow> TaskState option" where
  "state_from_u8 val =
     (if val = 0 then Some Ready else if val = 1 then Some Running
      else if val = 2 then Some Blocked else if val = 3 then Some Suspended
      else if val = 4 then Some Terminated else if val = 5 then Some Zombie else None)"

lemma state_from_u8_as_u8 [simp]: "state_from_u8 (state_as_u8 st) = Some st"
  by (cases st) (simp_all add: state_from_u8_def)

declare state_as_u8.simps [simp del]

fun valid_transition :: "TaskState \<Rightarrow> TaskState \<Rightarrow> bool" where
  "valid_transition Ready Running = True"
| "valid_transition Running Ready = True"
| "valid_transition Running Blocked = True"
| "valid_transition Blocked Ready = True"
| "valid_transition cur Suspended = (cur \<noteq> Terminated)"
| "valid_transition Suspended Ready = True"
| "valid_transition cur Terminated = True"
| "valid_transition Terminated Zombie = True"
| "valid_transition cur new = False"

section \<open>CPU context\<close>

record Context =
  ctx_x :: "u64 list"
  ctx_sp :: u64
  ctx_pc :: u64
  ctx_pstate :: u64
  ctx_v :: "128 word list"
  ctx_fpcr :: u64
  ctx_fpsr :: u64

definition context_new :: Context where
  "context_new = \<lparr>ctx_x = replicate 31 0, ctx_sp = 0, ctx_pc = 0, ctx_pstate = 0,
     ctx_v = replicate 32 0, ctx_fpcr = 0, ctx_fpsr = 0\<rparr>"

definition context_init :: "Context \<Rightarrow> u64 \<Rightarrow> u64 \<Rightarrow> u64 \<Rightarrow> Context" where
  "context_init c entry stack_top arg =
     c\<lparr>ctx_pc := entry, ctx_sp := stack_top, ctx_x := (ctx_x c)[0 := arg], ctx_pstate := 0x3C5\<rparr>"

section \<open>Stacks\<close>

record Stack =
  stack_base :: u64
  stack_size :: usize
  guard_page :: bool
  canary :: u64

definition DEFAULT_SIZE :: usize where "DEFAULT_SIZE = 64 * 1024"
definition MIN_SIZE :: usize where "MIN_SIZE = 8 * 1024"
definition CANARY_VALUE :: u64 where "CANARY_VALUE = 0xDEADBEEFCAFEBABE"

definition stack_new :: "u64 \<Rightarrow> usize \<Rightarrow> bool \<Rightarrow> Stack kresult" where
  "stack_new base sz guard =
     (if sz < MIN_SIZE then Err (Memory MemInvalidSize)
      else if \<not> virt_is_aligned base then Err (Memory MemInvalidAlignment)
      else Ok \<lparr>stack_base = base, stack_size = sz, guard_page = guard, canary = CANARY_VALUE\<rparr>)"

definition stack_top :: "Stack \<Rightarrow> u64" where
  "stack_top s = virt_new (stack_base s + of_nat (stack_size s))"

definition check_overflow :: "Stack \<Rightarrow> unit kresult" where
  "check_overflow s =
     (if canary s \<noteq> CANARY_VALUE then Err (Process ProcInvalidProcessId) else Ok ())"

section \<open>Task control blocks\<close>

record TaskStats =
  cpu_time :: u64
  ts_switches :: u64
  page_faults :: u64
  ts_syscalls :: u64

definition task_stats_new :: TaskStats where
  "task_stats_new = \<lparr>cpu_time = 0, ts_switches = 0, page_faults = 0, ts_syscalls = 0\<rparr>"

record Task =
  task_id :: TaskId
  task_state_byte :: u8
  task_priority :: Priority
  task_context :: Context
  task_stack :: Stack
  task_parent :: "TaskId option"
  exit_code_cell :: u64
  task_stats :: TaskStats
  owned_pages :: u64
  max_pages :: u64
  open_fds :: u64
  max_fds :: u64
  memory_allocated :: u64
  max_memory :: u64

definition DEFAULT_MAX_FDS :: u64 where "DEFAULT_MAX_FDS = 1024"
definition DEFAULT_MAX_MEMORY :: u64 where "DEFAULT_MAX_MEMORY = 256 * 1024 * 1024"

text \<open>The first argument and the second result are the counter \<open>NEXT_TASK_ID\<close>.\<close>

definition task_new ::
  "u64 \<Rightarrow> u64 \<Rightarrow> u64 \<Rightarrow> u64 \<Rightarrow> usize \<Rightarrow> Priority \<Rightarrow> TaskId option \<Rightarrow> u64
     \<Rightarrow> Task kresult \<times> u64" where
  "task_new next_id entry arg base sz prio parent pages =
     (case stack_new base sz True of
        Err e \<Rightarrow> (Err e, next_id + 1)
      | Panic \<Rightarrow> (Panic, next_id + 1)
      | Ok stack \<Rightarrow>
          (Ok \<lparr>task_id = TaskId next_id, task_state_byte = state_as_u8 Ready,
               task_priority = prio,
               task_context = context_init context_new entry (stack_top stack) arg,
               task_stack = stack, task_parent = parent, exit_code_cell = 0,
               task_stats = task_stats_new, owned_pages = 0, max_pages = pages,
               open_fds = 0, max_fds = DEFAULT_MAX_FDS, memory_allocated = 0,
               max_memory = DEFAULT_MAX_MEMORY\<rparr>, next_id + 1))"

definition task_state :: "Task \<Rightarrow> TaskState" where
  "task_state t = (case state_from_u8 (task_state_byte t) of Some st \<Rightarrow> st | None \<Rightarrow> Terminated)"

definition set_state :: "Task \<Rightarrow> TaskState \<Rightarrow> unit kresult \<times> Task" where
  "set_state t st =
     (if \<not> valid_transition (task_state t) st
      then (Err (InvalidParameter ''Invalid state transition''), t)
      else (Ok (), t\<lparr>task_state_byte := state_as_u8 st\<rparr>))"

definition suspend :: "Task \<Rightarrow> unit kresult \<times> Task" where
  "suspend t = set_state t Suspended"

definition resume :: "Task \<Rightarrow> unit kresult \<times> Task" where
  "resume t =
     (if task_state t \<noteq> Suspended then (Err (InvalidParameter ''Task is not suspended''), t)
      else set_state t Ready)"

definition terminate :: "Task \<Rightarrow> u64 \<Rightarrow> unit kresult \<times> Task" where
  "terminate t code =
     (if task_state t = Terminated then (Err (Process ProcAlreadyTerminated), t)
      else case set_state (t\<lparr>exit_code_cell := code\<rparr>) Terminated of
        (Ok _, t1) \<Rightarrow> if task_parent t1 \<noteq> None then set_state t1 Zombie else (Ok (), t1)
      | (e, t1) \<Rightarrow> (e, t1))"

definition is_ready :: "Task \<Rightarrow> bool" where "is_ready t \<longleftrightarrow> task_state t = Ready"
definition is_running :: "Task \<Rightarrow> bool" where "is_running t \<longleftrightarrow> task_state t = Running"
definition is_terminated :: "Task \<Rightarrow> bool" where
  "is_terminated t \<longleftrightarrow> task_state t \<in> {Terminated, Zombie}"
definition is_zombie :: "Task \<Rightarrow> bool" where "is_zombie t \<longleftrightarrow> task_state t = Zombie"

definition exit_code :: "Task \<Rightarrow> u64 option" where
  "exit_code t = (if is_terminated t then Some (exit_code_cell t) else None)"

definition check_stack :: "Task \<Rightarrow> unit kresult" where
  "check_stack t = check_overflow (task_stack t)"

definition check_limits :: "Task \<Rightarrow> unit kresult" where
  "check_limits t =
     (if owned_pages t > max_pages t then Err ResourceExhausted
      else if open_fds t > max_fds t then Err ResourceExhausted
      else if memory_allocated t > max_memory t then Err ResourceExhausted
      else Ok ())"

definition task_alloc_pages :: "Task \<Rightarrow> u64 \<Rightarrow> unit kresult \<times> Task" where
  "task_alloc_pages t count =
     (if owned_pages t + count > max_pages t then (Err ResourceExhausted, t)
      else (Ok (), t\<lparr>owned_pages := owned_pages t + count\<rparr>))"

definition task_free_pages :: "Task \<Rightarrow> u64 \<Rightarrow> Task" where
  "task_free_pages t count =
     t\<lparr>owned_pages := (if owned_pages t \<le> count then 0 else owned_pages t - count)\<rparr>"

lemmas state_ops = set_state_def suspend_def resume_def terminate_def

lemma task_state_update [simp]:
  "task_state (t\<lparr>task_state_byte := state_as_u8 st\<rparr>) = st"
  "task_state (t\<lparr>exit_code_cell := c\<rparr>) = task_state t"
  "task_state (t\<lparr>exit_code_cell := c, task_state_byte := state_as_u8 st\<rparr>) = st"
  "task_state (t\<lparr>owned_pages := n\<rparr>) = task_state t"
  by (simp_all add: task_state_def)

section \<open>Life cycle\<close>

text \<open>Every operation on a task, as the scheduler and the system calls use them.\<close>

datatype task_op =
  SetState TaskState | Suspend | Resume | Terminate u64 | AllocTaskPages u64 | FreeTaskPages u64

fun task_exec :: "Task \<Rightarrow> task_op \<Rightarrow> Task" where
  "task_exec t (SetState st) = snd (set_state t st)"
| "task_exec t Suspend = snd (suspend t)"
| "task_exec t Resume = snd (resume t)"
| "task_exec t (Terminate c) = snd (terminate t c)"
| "task_exec t (AllocTaskPages n) = snd (task_alloc_pages t n)"
| "task_exec t (FreeTaskPages n) = task_free_pages t n"

definition task_step :: "Task \<Rightarrow> Task \<Rightarrow> bool" where
  "task_step t t1 \<longleftrightarrow> (\<exists>op. t1 = task_exec t op)"

definition task_boot :: "Task \<Rightarrow> bool" where
  "task_boot t \<longleftrightarrow> (\<exists>i entry arg base sz prio parent pages i1.
     task_new i entry arg base sz prio parent pages = (Ok t, i1))"

text \<open>
  What holds of every task whatever is done to it: its state byte is the code of a state, its
  pages stay within the limit, its stack canary is intact, and its parent never changes.
\<close>

definition task_inv :: "Task \<Rightarrow> bool" where
  "task_inv t \<longleftrightarrow> (\<exists>st. task_state_byte t = state_as_u8 st) \<and> owned_pages t \<le> max_pages t \<and>
     open_fds t \<le> max_fds t \<and> memory_allocated t \<le> max_memory t \<and>
     MIN_SIZE \<le> stack_size (task_stack t) \<and> virt_is_aligned (stack_base (task_stack t)) \<and>
     canary (task_stack t) = CANARY_VALUE"

lemma set_state_cases:
  obtains "set_state t st = (Ok (), t\<lparr>task_state_byte := state_as_u8 st\<rparr>)"
    "valid_transition (task_state t) st"
  | "set_state t st = (Err (InvalidParameter ''Invalid state transition''), t)"
    "\<not> valid_transition (task_state t) st"
  by (cases "valid_transition (task_state t) st") (auto simp: set_state_def)

lemma valid_to_terminated [simp]: "valid_transition st Terminated"
  by (cases st) simp_all

lemma terminate_eq:
  "terminate t c =
     (if task_state t = Terminated then (Err (Process ProcAlreadyTerminated), t)
      else (Ok (), t\<lparr>exit_code_cell := c,
              task_state_byte := state_as_u8 (if task_parent t = None then Terminated else Zombie)\<rparr>))"
  by (simp add: terminate_def set_state_def)

lemma task_inv_exec: "task_inv t \<Longrightarrow> task_inv (task_exec t op)"
  by (cases op)
    (auto simp: task_inv_def set_state_def suspend_def resume_def terminate_eq
      task_alloc_pages_def task_free_pages_def not_less word_le_nat_alt unat_sub)

lemma task_boot_inv: "task_boot t \<Longrightarrow> task_inv t"
  by (auto simp: task_boot_def task_new_def stack_new_def task_inv_def exI [of _ Ready]
      split: outcome.splits if_splits)

interpretation task: transition_system task_boot task_step task_inv
  by unfold_locales (auto simp: task_boot_inv task_step_def task_inv_exec)

lemma final_stays_exec:
  "task_state t = Terminated \<Longrightarrow> op \<noteq> SetState Zombie \<Longrightarrow>
     task_state (task_exec t op) = Terminated \<and> exit_code (task_exec t op) = exit_code t"
  by (cases op rule: task_op.exhaust)
    (auto simp: set_state_def suspend_def resume_def terminate_eq exit_code_def is_terminated_def
      task_alloc_pages_def task_free_pages_def elim: valid_transition.elims)

section \<open>Properties\<close>

definition example_task :: "TaskId option \<Rightarrow> Task" where
  "example_task parent =
     (case fst (task_new 1 0x400000 0 0x7F000000 DEFAULT_SIZE NORMAL parent 64) of Ok t \<Rightarrow> t)"

lemma example_task_new:
  "\<exists>i. task_new 1 0x400000 0 0x7F000000 DEFAULT_SIZE NORMAL parent 64 = (Ok (example_task parent), i)"
  by (simp add: example_task_def task_new_def stack_new_def DEFAULT_SIZE_def MIN_SIZE_def
      virt_is_aligned_def)

lemma example_task_boot: "task_boot (example_task parent)"
  using example_task_new unfolding task_boot_def by metis

lemma example_task_simps [simp]:
  "task_state (example_task parent) = Ready" "task_parent (example_task parent) = parent"
  by (simp_all add: example_task_def task_new_def stack_new_def DEFAULT_SIZE_def MIN_SIZE_def
      virt_is_aligned_def task_state_def)

text \<open>
  Whatever sequence of operations is applied to a task created by \<open>Task::new\<close>,
  with any arguments, its resource check and its stack check succeed, its state byte is a valid
  encoding, and the pages it owns stay within its limit (also when the addition wraps).
\<close>

theorem task_limits_invariant:
  assumes "reachable task_boot task_step t"
  shows "check_limits t = Ok () \<and> check_stack t = Ok () \<and> owned_pages t \<le> max_pages t \<and>
         state_from_u8 (task_state_byte t) = Some (task_state t)"
proof -
  have inv: "task_inv t" by (rule task.reachable_inv [OF assms])
  then obtain st where "task_state_byte t = state_as_u8 st" by (auto simp: task_inv_def)
  then have "state_from_u8 (task_state_byte t) = Some (task_state t)" by (simp add: task_state_def)
  with inv show ?thesis
    by (auto simp: task_inv_def check_limits_def check_stack_def check_overflow_def)
qed

theorem task_limits_invariant_witness:
  "owned_pages (task_exec (example_task None) (AllocTaskPages 60)) \<le> 64"
proof -
  let ?t = "task_exec (example_task None) (AllocTaskPages 60)"
  have "task_step (example_task None) ?t" unfolding task_step_def by blast
  with example_task_boot have "reachable task_boot task_step ?t"
    by (blast intro: reachable.intros)
  then have "owned_pages ?t \<le> max_pages ?t" using task_limits_invariant by blast
  moreover have "max_pages ?t = 64"
    by (simp add: task_alloc_pages_def example_task_def task_new_def stack_new_def DEFAULT_SIZE_def
        MIN_SIZE_def virt_is_aligned_def)
  ultimately show ?thesis by simp
qed

text \<open>
  A task in state \<open>Terminated\<close> stays there, with its exit code, under every
  sequence of operations that does not itself reap it into \<open>Zombie\<close>.
\<close>

theorem terminated_is_final:
  assumes "task_state t = Terminated" "SetState Zombie \<notin> set ops"
  shows "task_state (foldl task_exec t ops) = Terminated \<and>
         exit_code (foldl task_exec t ops) = exit_code t"
  using assms
proof (induction ops arbitrary: t)
  case (Cons op ops)
  then have "op \<noteq> SetState Zombie" by auto
  with final_stays_exec [OF Cons.prems(1)] Cons show ?case by simp
qed simp

theorem terminated_is_final_witness:
  "exit_code (foldl task_exec (task_exec (example_task None) (Terminate 7))
      [Resume, SetState Running, Terminate 9, Suspend]) = Some 7"
proof -
  let ?t = "task_exec (example_task None) (Terminate 7)"
  have "task_state ?t = Terminated" "exit_code ?t = Some 7"
    by (simp_all add: terminate_eq exit_code_def is_terminated_def)
  with terminated_is_final [of ?t "[Resume, SetState Running, Terminate 9, Suspend]"]
  show ?thesis by auto
qed

text \<open>
  Termination of a task with a parent is not final: the zombie can be suspended,
  resumed and run again, after which it reports no exit code, and a zombie can be terminated a
  second time with another code.
\<close>

theorem zombie_can_run_again:
  assumes "task_parent t = Some parent" "task_state t \<noteq> Terminated"
  shows "task_state (task_exec t (Terminate c)) = Zombie \<and>
         exit_code (foldl task_exec t [Terminate c, Terminate d]) = Some d \<and>
         task_state (foldl task_exec t [Terminate c, Suspend, Resume, SetState Running]) = Running \<and>
         exit_code (foldl task_exec t [Terminate c, Suspend, Resume, SetState Running]) = None"
  using assms by (simp add: terminate_eq suspend_def resume_def set_state_def exit_code_def
      is_terminated_def)

theorem zombie_can_run_again_witness:
  "task_state (foldl task_exec (example_task (Some (TaskId 1)))
      [Terminate 3, Suspend, Resume, SetState Running]) = Running"
  using zombie_can_run_again [of "example_task (Some (TaskId 1))" "TaskId 1" 3] by simp

end
