(* ===== verification/Ring.thy ===== *)
theory Ring
  imports Interfaces
begin

text \<open>
  Ring buffers: the elements of an array from \<open>head\<close> on, \<open>n\<close> of them, wrapping at the end.
  Shared by the IPC message queue, the scheduler's run queues and the input event queue.

  \<open>slots_ok\<close> is the invariant of a ring of optional slots with a head, a tail and a count, and
  \<open>slots_list\<close> the queue it stands for; pushing and popping a slot are an append and a removal
  at the front of that list.
\<close>

definition ring :: "'a list \<Rightarrow> nat \<Rightarrow> nat \<Rightarrow> 'a list" where
  "ring xs head n = map (\<lambda>i. xs ! ((head + i) mod length xs)) [0..<n]"

lemma length_ring [simp]: "length (ring xs h n) = n"
  by (simp add: ring_def)

lemma ring_0 [simp]: "ring xs h 0 = []"
  by (simp add: ring_def)

lemma nth_ring: "i < n \<Longrightarrow> ring xs h n ! i = xs ! ((h + i) mod length xs)"
  by (simp add: ring_def)

lemma ring_slot_inj:
  assumes "i < length xs" "j < length xs" "(h + i) mod length xs = (h + j) mod length xs"
  shows "i = j"
proof -
  have "i mod length xs = j mod length xs"
    using assms(3) by (simp add: nat_mod_eq_iff)
  with assms(1,2) show ?thesis by simp
qed

lemma ring_Suc_last: "ring xs h (Suc n) = ring xs h n @ [xs ! ((h + n) mod length xs)]"
  by (simp add: ring_def)

lemma ring_Suc_first:
  assumes "h < length xs"
  shows "ring xs h (Suc n) = xs ! h # ring xs (Suc h mod length xs) n"
proof -
  have "(h + Suc i) mod length xs = (Suc h mod length xs + i) mod length xs" for i
    by (simp add: mod_add_left_eq)
  with assms show ?thesis
    by (auto simp: ring_def upt_conv_Cons map_Suc_upt [symmetric] simp del: upt_Suc)
qed

lemma ring_update_outside:
  assumes "n \<le> k" "k < length xs"
  shows "ring (xs[(h + k) mod length xs := v]) h n = ring xs h n"
proof (rule nth_equalityI)
  fix i assume "i < length (ring (xs[(h + k) mod length xs := v]) h n)"
  then have i: "i < n" by simp
  then have "(h + k) mod length xs \<noteq> (h + i) mod length xs"
    using ring_slot_inj [of k xs i h] assms by auto
  with i show "ring (xs[(h + k) mod length xs := v]) h n ! i = ring xs h n ! i"
    by (simp add: nth_ring)
qed simp

lemma ring_push:
  assumes "n < length xs"
  shows "ring (xs[(h + n) mod length xs := v]) h (Suc n) = ring xs h n @ [v]"
proof -
  have "(h + n) mod length xs < length xs" using assms by (intro mod_less_divisor) linarith
  with assms show ?thesis by (simp add: ring_Suc_last ring_update_outside)
qed

lemma ring_pop:
  assumes "h < length xs" "n < length xs"
  shows "ring (xs[h := v]) (Suc h mod length xs) n = ring xs (Suc h mod length xs) n"
proof (rule nth_equalityI)
  fix i assume "i < length (ring (xs[h := v]) (Suc h mod length xs) n)"
  then have i: "i < n" by simp
  have "(Suc h mod length xs + i) mod length xs = (h + Suc i) mod length xs"
    by (simp add: mod_add_left_eq)
  moreover have "(h + Suc i) mod length xs \<noteq> h"
    using ring_slot_inj [of "Suc i" xs 0 h] assms i by force
  ultimately show "ring (xs[h := v]) (Suc h mod length xs) n ! i = ring xs (Suc h mod length xs) n ! i"
    using i by (simp add: nth_ring)
qed simp

section \<open>Rings of optional slots\<close>

definition slots_ok :: "'a option list \<Rightarrow> nat \<Rightarrow> nat \<Rightarrow> nat \<Rightarrow> bool" where
  "slots_ok xs h t n \<longleftrightarrow> h < length xs \<and> n \<le> length xs \<and> t = (h + n) mod length xs \<and>
     (\<forall>y \<in> set (ring xs h n). y \<noteq> None) \<and>
     (\<forall>i < length xs. xs ! i \<noteq> None \<longrightarrow> (\<exists>k < n. i = (h + k) mod length xs))"

definition slots_list :: "'a option list \<Rightarrow> nat \<Rightarrow> nat \<Rightarrow> 'a list" where
  "slots_list xs h n = map the (ring xs h n)"

lemma length_slots_list [simp]: "length (slots_list xs h n) = n"
  by (simp add: slots_list_def)

lemma slots_ok_tail: "slots_ok xs h t n \<Longrightarrow> t < length xs"
  unfolding slots_ok_def by (metis less_nat_zero_code mod_less_divisor neq0_conv)

lemma slots_ok_bounds: "slots_ok xs h t n \<Longrightarrow> h < length xs \<and> n \<le> length xs"
  by (simp add: slots_ok_def)

lemma slots_new: "0 < k \<Longrightarrow> slots_ok (replicate k None) 0 0 0"
  by (simp add: slots_ok_def)

lemma slots_push:
  assumes ok: "slots_ok xs h t n" and room: "n < length xs"
  shows "slots_ok (xs[t := Some v]) h (Suc t mod length xs) (Suc n)"
    and "slots_list (xs[t := Some v]) h (Suc n) = slots_list xs h n @ [v]"
proof -
  have t: "t = (h + n) mod length xs" using ok by (simp add: slots_ok_def)
  have "\<exists>k < Suc n. i = (h + k) mod length xs" if "i < length xs" "xs[t := Some v] ! i \<noteq> None" for i
  proof (cases "i = t")
    case True
    with t show ?thesis by blast
  next
    case False
    with that ok show ?thesis by (auto simp: slots_ok_def) (metis less_SucI option.discI)
  qed
  then show "slots_ok (xs[t := Some v]) h (Suc t mod length xs) (Suc n)"
    and "slots_list (xs[t := Some v]) h (Suc n) = slots_list xs h n @ [v]"
    using ok ring_push [OF room, of h "Some v"] room
    by (simp_all add: slots_ok_def slots_list_def mod_Suc_eq)
qed

lemma slots_pop:
  assumes ok: "slots_ok xs h t (Suc n)"
  shows "xs ! h = Some (hd (slots_list xs h (Suc n)))"
    and "slots_ok (xs[h := None]) (Suc h mod length xs) t n"
    and "slots_list (xs[h := None]) (Suc h mod length xs) n = tl (slots_list xs h (Suc n))"
proof -
  have h: "h < length xs" and n: "n < length xs" using ok by (auto simp: slots_ok_def)
  then have h1: "Suc h mod length xs < length xs" by (intro mod_less_divisor) linarith
  have "\<exists>k < n. i = (Suc h + k) mod length xs" if i: "i < length xs" "xs[h := None] ! i \<noteq> None" for i
  proof -
    have "i \<noteq> h" using i by auto
    with i ok obtain k where k: "k < Suc n" "i = (h + k) mod length xs"
      by (auto simp: slots_ok_def)
    have "k \<noteq> 0" using k \<open>i \<noteq> h\<close> h by (cases k) simp_all
    with k show ?thesis by (intro exI [of _ "k - 1"]) auto
  qed
  with h1 show "slots_ok (xs[h := None]) (Suc h mod length xs) t n"
    using ok ring_Suc_first [OF h, of n] ring_pop [OF h n, of None]
    by (auto simp: slots_ok_def mod_add_left_eq)
  show "xs ! h = Some (hd (slots_list xs h (Suc n)))"
    "slots_list (xs[h := None]) (Suc h mod length xs) n = tl (slots_list xs h (Suc n))"
    using ok ring_Suc_first [OF h, of n] ring_pop [OF h n, of None]
    by (auto simp: slots_list_def slots_ok_def)
qed

end
