(* ===== verification/Scheduler.thy ===== *)
theory Scheduler
  imports Task Ring
begin

text \<open>
  The scheduler, \<open>kernel/src/process/scheduler.rs\<close>: a run queue of 64 slots for each of the
  256 priorities, the bitmap of non-empty queues, the time slice and the statistics. The
  abstract state is a list of tasks per priority, \<open>queue s p\<close>; the operations other than the
  removal from the middle of a queue are shown to implement a priority queue with round robin.
\<close>

definition DEFAULT_QUANTUM :: u64 where "DEFAULT_QUANTUM = 10"
definition RT_MIN_QUANTUM :: u64 where "RT_MIN_QUANTUM = 1"
definition MAX_QUANTUM :: u64 where "MAX_QUANTUM = 100"

section \<open>Run queues\<close>

record RunQueue =
  rq_tasks :: "TaskId option list"
  rq_head :: usize
  rq_tail :: usize
  rq_count :: usize

definition rq_new :: RunQueue where
  "rq_new = \<lparr>rq_tasks = replicate 64 None, rq_head = 0, rq_tail = 0, rq_count = 0\<rparr>"

definition rq_push :: "TaskId \<Rightarrow> RunQueue \<Rightarrow> unit kresult \<times> RunQueue" where
  "rq_push t q =
     (if rq_count q \<ge> 64 then (Err (Process ProcTooManyProcesses), q)
      else if rq_tail q \<ge> length (rq_tasks q) then (Panic, q)
      else (Ok (), q\<lparr>rq_tasks := (rq_tasks q)[rq_tail q := Some t],
                     rq_tail := (rq_tail q + 1) mod 64,
                     rq_count := uadd (rq_count q) 1\<rparr>))"

definition rq_pop :: "RunQueue \<Rightarrow> TaskId option kresult \<times> RunQueue" where
  "rq_pop q =
     (if rq_count q = 0 then (Ok None, q)
      else if rq_head q \<ge> length (rq_tasks q) then (Panic, q)
      else (Ok (rq_tasks q ! rq_head q),
            q\<lparr>rq_tasks := (rq_tasks q)[rq_head q := None],
              rq_head := (rq_head q + 1) mod 64,
              rq_count := usub (rq_count q) 1\<rparr>))"

definition rq_is_empty :: "RunQueue \<Rightarrow> bool" where "rq_is_empty q \<longleftrightarrow> rq_count q = 0"
definition rq_len :: "RunQueue \<Rightarrow> usize" where "rq_len q = rq_count q"


section \<open>The priority bitmap\<close>

type_synonym PriorityBitmap = "u64 list"

definition pb_new :: PriorityBitmap where "pb_new = replicate 4 0"

definition pb_set :: "PriorityBitmap \<Rightarrow> u8 \<Rightarrow> PriorityBitmap" where
  "pb_set b p =
     (let word = unat p div 64; bit = unat p mod 64
      in b[word := b ! word OR push_bit bit 1])"

definition pb_clear :: "PriorityBitmap \<Rightarrow> u8 \<Rightarrow> PriorityBitmap" where
  "pb_clear b p =
     (let word = unat p div 64; bit = unat p mod 64
      in b[word := b ! word AND NOT (push_bit bit 1)])"

definition find_highest :: "PriorityBitmap \<Rightarrow> u8 option" where
  "find_highest b =
     (let word = find_from (\<lambda>i. b ! i \<noteq> 0) 0 4
      in if word < 4 then Some (of_nat word * 64 + of_nat (trailing_zeros (b ! word))) else None)"

section \<open>The scheduler\<close>

record SchedulerStats =
  total_switches :: u64
  total_tasks :: usize
  ready_tasks :: usize
  running_tasks :: usize
  blocked_tasks :: usize

definition sched_stats_new :: SchedulerStats where
  "sched_stats_new = \<lparr>total_switches = 0, total_tasks = 0, ready_tasks = 0, running_tasks = 0,
     blocked_tasks = 0\<rparr>"

record Scheduler =
  run_queues :: "RunQueue list"
  priority_bitmap :: PriorityBitmap
  sc_current :: "TaskId option"
  current_priority :: "Priority option"
  sc_idle_task :: "TaskId option"
  sc_stats :: SchedulerStats
  sc_switches :: u64
  slice_remaining :: u64
  need_resched :: bool

definition sched_new :: Scheduler where
  "sched_new = \<lparr>run_queues = replicate 256 rq_new, priority_bitmap = pb_new, sc_current = None,
     current_priority = None, sc_idle_task = None, sc_stats = sched_stats_new, sc_switches = 0,
     slice_remaining = DEFAULT_QUANTUM, need_resched = False\<rparr>"

definition tick :: "Scheduler \<Rightarrow> bool \<times> Scheduler" where
  "tick s =
     (if sc_current s = None then (False, s)
      else let s1 = (if slice_remaining s > 0
                     then s\<lparr>slice_remaining := slice_remaining s - 1\<rparr> else s);
               s2 = (if slice_remaining s1 = 0 then s1\<lparr>need_resched := True\<rparr> else s1)
           in (need_resched s2, s2))"

definition quantum_for_priority :: "Priority \<Rightarrow> u64" where
  "quantum_for_priority prio =
     (let p = priority_as_u8 prio
      in if p < 32 then RT_MIN_QUANTUM + ucast p
         else if p < 128 then DEFAULT_QUANTUM
         else DEFAULT_QUANTUM * 2)"

definition enqueue :: "Scheduler \<Rightarrow> TaskId \<Rightarrow> Priority \<Rightarrow> unit kresult \<times> Scheduler" where
  "enqueue s t priority =
     (let prio = unat (priority_as_u8 priority)
      in case rq_push t (run_queues s ! prio) of
           (Err e, q) \<Rightarrow> (Err e, s\<lparr>run_queues := (run_queues s)[prio := q]\<rparr>)
         | (Panic, q) \<Rightarrow> (Panic, s\<lparr>run_queues := (run_queues s)[prio := q]\<rparr>)
         | (Ok _, q) \<Rightarrow>
             (Ok (), s\<lparr>run_queues := (run_queues s)[prio := q],
                       priority_bitmap := pb_set (priority_bitmap s) (priority_as_u8 priority),
                       sc_stats := (sc_stats s)\<lparr>ready_tasks := uadd (ready_tasks (sc_stats s)) 1\<rparr>\<rparr>))"


text \<open>The first half of \<open>schedule\<close>: a task whose slice is used up goes back to its queue.\<close>

definition requeue_expired :: "Scheduler \<Rightarrow> Scheduler" where
  "requeue_expired s =
     (case (sc_current s, current_priority s) of
        (Some t, Some priority) \<Rightarrow>
          if slice_remaining s = 0 then
            (let s1 = snd (enqueue s t priority)
             in s1\<lparr>sc_current := None, current_priority := None,
                   sc_stats := (sc_stats s1)\<lparr>running_tasks := running_tasks (sc_stats s1) - 1\<rparr>\<rparr>)
          else s
      | _ \<Rightarrow> s)"

definition schedule :: "Scheduler \<Rightarrow> TaskId option kresult \<times> Scheduler" where
  "schedule s0 =
     (let s = requeue_expired (s0\<lparr>need_resched := False\<rparr>)
      in case find_highest (priority_bitmap s) of
           None \<Rightarrow> (Ok None, s)
         | Some priority \<Rightarrow>
             (let prio = unat priority
              in case rq_pop (run_queues s ! prio) of
                   (Ok (Some t), q) \<Rightarrow>
                     (let s1 = s\<lparr>run_queues := (run_queues s)[prio := q]\<rparr>;
                          s2 = (if rq_is_empty q
                                then s1\<lparr>priority_bitmap := pb_clear (priority_bitmap s1) priority\<rparr>
                                else s1);
                          st = sc_stats s2
                      in (Ok (Some t),
                          s2\<lparr>sc_stats := st\<lparr>ready_tasks := ready_tasks st - 1,
                                            running_tasks := uadd (running_tasks st) 1\<rparr>,
                             slice_remaining := quantum_for_priority (Priority priority)\<rparr>))
                 | (r, q) \<Rightarrow> (r, s\<lparr>run_queues := (run_queues s)[prio := q]\<rparr>)))"








definition has_ready_tasks :: "Scheduler \<Rightarrow> bool" where
  "has_ready_tasks s \<longleftrightarrow> find_highest (priority_bitmap s) \<noteq> None"

definition tasks_at_priority :: "Scheduler \<Rightarrow> Priority \<Rightarrow> usize" where
  "tasks_at_priority s p = rq_len (run_queues s ! unat (priority_as_u8 p))"

section \<open>Run queues are bounded queues\<close>

definition rq_inv :: "RunQueue \<Rightarrow> bool" where
  "rq_inv q \<longleftrightarrow> length (rq_tasks q) = 64 \<and> slots_ok (rq_tasks q) (rq_head q) (rq_tail q) (rq_count q)"

definition rq_list :: "RunQueue \<Rightarrow> TaskId list" where
  "rq_list q = slots_list (rq_tasks q) (rq_head q) (rq_count q)"

lemma length_rq_list [simp]: "length (rq_list q) = rq_count q"
  by (simp add: rq_list_def)

lemma rq_push_ok:
  assumes "rq_inv q" "rq_count q < 64"
  shows "fst (rq_push t q) = Ok () \<and> rq_list (snd (rq_push t q)) = rq_list q @ [t] \<and>
         rq_inv (snd (rq_push t q))"
  using assms slots_ok_tail [of "rq_tasks q" "rq_head q" "rq_tail q" "rq_count q"]
    slots_push [of "rq_tasks q" "rq_head q" "rq_tail q" "rq_count q" t]
  by (simp add: rq_push_def rq_inv_def rq_list_def)

lemma rq_pop_ok:
  assumes "rq_inv q" "rq_count q = Suc n"
  shows "fst (rq_pop q) = Ok (Some (hd (rq_list q))) \<and> rq_list (snd (rq_pop q)) = tl (rq_list q) \<and>
         rq_inv (snd (rq_pop q))"
  using assms slots_pop [of "rq_tasks q" "rq_head q" "rq_tail q" n]
    slots_ok_bounds [of "rq_tasks q" "rq_head q" "rq_tail q" "Suc n"]
  by (simp add: rq_pop_def rq_inv_def rq_list_def)

interpretation rq: bounded_fifo rq_push rq_pop rq_list rq_inv 64
proof unfold_locales
  fix q :: RunQueue and x xs
  assume inv: "rq_inv q"
  show "length (rq_list q) < 64 \<Longrightarrow> is_ok (fst (rq_push x q)) \<and>
      rq_list (snd (rq_push x q)) = rq_list q @ [x] \<and> rq_inv (snd (rq_push x q))"
    using rq_push_ok [OF inv] by simp
  show "64 \<le> length (rq_list q) \<Longrightarrow> \<not> is_ok (fst (rq_push x q)) \<and> snd (rq_push x q) = q"
    by (simp add: rq_push_def)
  show "rq_list q = [] \<Longrightarrow> rq_pop q = (Ok None, q)"
    using length_rq_list [of q] by (simp add: rq_pop_def)
  show "rq_list q = x # xs \<Longrightarrow>
      fst (rq_pop q) = Ok (Some x) \<and> rq_list (snd (rq_pop q)) = xs \<and> rq_inv (snd (rq_pop q))"
    using rq_pop_ok [OF inv, of "length xs"] length_rq_list [of q] by simp
  show "length (rq_list q) \<le> 64"
    using inv slots_ok_bounds by (fastforce simp: rq_inv_def)
qed

lemma rq_new_inv [simp]: "rq_inv rq_new" "rq_list rq_new = []"
  by (simp_all add: rq_inv_def rq_new_def rq_list_def slots_new slots_list_def)

section \<open>The bitmap finds the highest priority\<close>

definition pbit :: "PriorityBitmap \<Rightarrow> u8 \<Rightarrow> bool" where
  "pbit b p \<longleftrightarrow> bit (b ! (unat p div 64)) (unat p mod 64)"

lemma unat_u8_div: "unat (p :: u8) div 64 < 4"
  using unat_u8_less [of p] by simp

lemma u8_slot_inj:
  "(unat r div 64 = unat p div 64 \<and> unat r mod 64 = unat p mod 64) \<longleftrightarrow> r = (p :: u8)"
  by (metis div_mult_mod_eq word_unat_eq_iff)

lemma bit_list_update:
  fixes b :: "u64 list"
  assumes "w < length b" "k < 64"
  shows "bit (b[w := b ! w OR push_bit k 1] ! v) j \<longleftrightarrow> (v = w \<and> j = k) \<or> bit (b ! v) j"
    and "bit (b[w := b ! w AND NOT (push_bit k 1)] ! v) j \<longleftrightarrow> \<not> (v = w \<and> j = k) \<and> bit (b ! v) j"
  using assms by (cases "v = w"; simp add: bit_or_mask bit_and_not_mask; blast)+

lemma pbit_set:
  assumes "length b = 4"
  shows "pbit (pb_set b p) r \<longleftrightarrow> r = p \<or> pbit b r" "length (pb_set b p) = 4"
  using assms unat_u8_div [of p]
  unfolding pbit_def pb_set_def Let_def
  by (simp_all only: bit_list_update(1) u8_slot_inj length_list_update mod_less_divisor zero_less_numeral)

lemma pbit_clear:
  assumes "length b = 4"
  shows "pbit (pb_clear b p) r \<longleftrightarrow> r \<noteq> p \<and> pbit b r" "length (pb_clear b p) = 4"
  using assms unat_u8_div [of p]
  unfolding pbit_def pb_clear_def Let_def
  by (simp_all only: bit_list_update(2) u8_slot_inj length_list_update mod_less_divisor zero_less_numeral)

lemma pbit_word:
  assumes "w < 4" "k < 64"
  shows "pbit b (of_nat w * 64 + of_nat k) \<longleftrightarrow> bit (b ! w) k"
    and "unat (of_nat w * 64 + of_nat k :: u8) = w * 64 + k"
proof -
  have "w * 64 + k < 2 ^ LENGTH(8)" using assms by simp
  then have "unat (of_nat (w * 64 + k) :: u8) = w * 64 + k"
    by (simp only: unsigned_of_nat take_bit_nat_eq_self of_nat_id)
  then show u: "unat (of_nat w * 64 + of_nat k :: u8) = w * 64 + k"
    by (simp only: of_nat_add of_nat_mult of_nat_numeral)
  show "pbit b (of_nat w * 64 + of_nat k) \<longleftrightarrow> bit (b ! w) k"
    unfolding pbit_def u using assms by simp
qed

lemma find_highest_least:
  "case find_highest b of None \<Rightarrow> \<not> pbit b p
     | Some h \<Rightarrow> pbit b h \<and> (pbit b p \<longrightarrow> h \<le> p)"
proof -
  let ?w = "find_from (\<lambda>i. b ! i \<noteq> 0) 0 4"
  have later: "?w \<le> unat p div 64" if "pbit b p"
  proof (rule leI, rule notI)
    assume "unat p div 64 < ?w"
    then have "b ! (unat p div 64) = 0" using find_from_before [of 0 "unat p div 64"] by blast
    with that show False by (simp add: pbit_def)
  qed
  show ?thesis
  proof (cases "?w < 4")
    case False
    with later unat_u8_div [of p] show ?thesis by (auto simp: find_highest_def Let_def)
  next
    case True
    then have nz: "b ! ?w \<noteq> 0" by (rule find_from_sat)
    let ?k = "trailing_zeros (b ! ?w)" and ?h = "of_nat ?w * 64 + of_nat (trailing_zeros (b ! ?w)) :: u8"
    have k: "?k < 64" using trailing_zeros_less [OF nz] by simp
    have "?h \<le> p" if p: "pbit b p"
    proof (cases "unat p div 64 = ?w")
      case True
      then have "?k \<le> unat p mod 64"
        using p trailing_zeros_least [of "unat p mod 64" "b ! ?w"] unfolding pbit_def
        by (metis not_less)
      then show ?thesis
        unfolding word_le_nat_alt pbit_word(2) [OF \<open>?w < 4\<close> k]
        using True div_mult_mod_eq [of "unat p" 64] by linarith
    next
      case False
      with later [OF p] have "Suc ?w \<le> unat p div 64" by simp
      then have "Suc ?w * 64 \<le> unat p" by (simp only: less_eq_div_iff_mult_less_eq zero_less_numeral)
      then show ?thesis
        unfolding word_le_nat_alt pbit_word(2) [OF \<open>?w < 4\<close> k] using k by simp
    qed
    moreover have "pbit b ?h" using pbit_word(1) [OF True k] trailing_zeros_bit [OF nz] by simp
    ultimately show ?thesis using True by (simp add: find_highest_def Let_def)
  qed
qed

lemma find_highest_None: "find_highest b = None \<longleftrightarrow> (\<forall>p. \<not> pbit b p)"
proof (cases "find_highest b")
  case (Some h)
  with find_highest_least [of b h] show ?thesis by auto
next
  case None
  then have "\<not> pbit b p" for p using find_highest_least [of b p] by simp
  with None show ?thesis by blast
qed

lemma find_highest_Some:
  "find_highest b = Some h \<Longrightarrow> pbit b h" "find_highest b = Some h \<Longrightarrow> pbit b p \<Longrightarrow> h \<le> p"
  using find_highest_least [of b p] by simp_all

section \<open>The invariant and the abstract queues\<close>

definition queue :: "Scheduler \<Rightarrow> u8 \<Rightarrow> TaskId list" where
  "queue s p = rq_list (run_queues s ! unat p)"

definition sched_inv :: "Scheduler \<Rightarrow> bool" where
  "sched_inv s \<longleftrightarrow> length (run_queues s) = 256 \<and> length (priority_bitmap s) = 4 \<and>
     (\<forall>k < 256. rq_inv (run_queues s ! k)) \<and> (\<forall>p. pbit (priority_bitmap s) p \<longleftrightarrow> queue s p \<noteq> [])"

lemma sched_inv_queue:
  assumes "sched_inv s"
  shows "rq_inv (run_queues s ! unat (p :: u8))" "length (queue s p) \<le> 64"
  using assms unat_u8_less [of p] rq.within_cap [of "run_queues s ! unat p"]
  by (simp_all add: sched_inv_def queue_def)

lemma sched_inv_cong [simp]:
  "sched_inv (s\<lparr>sc_current := c\<rparr>) = sched_inv s" "queue (s\<lparr>sc_current := c\<rparr>) = queue s"
  "sched_inv (s\<lparr>current_priority := cp\<rparr>) = sched_inv s" "queue (s\<lparr>current_priority := cp\<rparr>) = queue s"
  "sched_inv (s\<lparr>sc_stats := st\<rparr>) = sched_inv s" "queue (s\<lparr>sc_stats := st\<rparr>) = queue s"
  "sched_inv (s\<lparr>need_resched := nr\<rparr>) = sched_inv s" "queue (s\<lparr>need_resched := nr\<rparr>) = queue s"
  "sched_inv (s\<lparr>slice_remaining := sl\<rparr>) = sched_inv s" "queue (s\<lparr>slice_remaining := sl\<rparr>) = queue s"
  by (simp_all add: sched_inv_def queue_def fun_eq_iff)

text \<open>Replacing one queue together with its bit keeps the invariant.\<close>

lemma sched_inv_replace:
  assumes inv: "sched_inv s" and q: "rq_inv q"
    and b: "length b = 4" "\<And>r. pbit b r \<longleftrightarrow> (if r = p then rq_list q \<noteq> [] else pbit (priority_bitmap s) r)"
  shows "sched_inv (s\<lparr>run_queues := (run_queues s)[unat (p :: u8) := q], priority_bitmap := b\<rparr>)"
    and "queue (s\<lparr>run_queues := (run_queues s)[unat p := q], priority_bitmap := b\<rparr>) =
           (queue s)(p := rq_list q)"
proof -
  have len: "unat p < length (run_queues s)"
    using inv unat_u8_less [of p] by (simp add: sched_inv_def)
  then show queue: "queue (s\<lparr>run_queues := (run_queues s)[unat p := q], priority_bitmap := b\<rparr>) =
      (queue s)(p := rq_list q)"
    by (auto simp: queue_def fun_eq_iff nth_list_update word_unat_eq_iff)
  then show "sched_inv (s\<lparr>run_queues := (run_queues s)[unat p := q], priority_bitmap := b\<rparr>)"
    using inv q b len by (auto simp: sched_inv_def nth_list_update)
qed

lemma sched_new_inv: "sched_inv sched_new" "queue sched_new = (\<lambda>_. [])"
proof -
  have "run_queues sched_new ! k = rq_new" if "k < 256" for k
    using that by (simp add: sched_new_def)
  then show "queue sched_new = (\<lambda>_. [])" using unat_u8_less by (auto simp: queue_def)
  moreover have "priority_bitmap sched_new ! w = 0" if "w < 4" for w
    using that unfolding sched_new_def pb_new_def by simp
  then have "\<not> pbit (priority_bitmap sched_new) p" for p
    using unat_u8_div [of p] by (simp add: pbit_def)
  ultimately show "sched_inv sched_new"
    using \<open>\<And>k. k < 256 \<Longrightarrow> run_queues sched_new ! k = rq_new\<close>
    by (simp add: sched_inv_def) (simp add: sched_new_def pb_new_def)
qed

lemma enqueue_spec:
  assumes inv: "sched_inv s"
  shows "sched_inv (snd (enqueue s t (Priority p)))"
    and "queue (snd (enqueue s t (Priority p))) =
           (if length (queue s p) < 64 then (queue s)(p := queue s p @ [t]) else queue s)"
    and "fst (enqueue s t (Priority p)) =
           (if length (queue s p) < 64 then Ok () else Err (Process ProcTooManyProcesses))"
proof -
  let ?q = "run_queues s ! unat p"
  have q: "rq_inv ?q" by (rule sched_inv_queue [OF inv])
  have "sched_inv (snd (enqueue s t (Priority p))) \<and>
      queue (snd (enqueue s t (Priority p))) =
        (if length (queue s p) < 64 then (queue s)(p := queue s p @ [t]) else queue s) \<and>
      fst (enqueue s t (Priority p)) =
        (if length (queue s p) < 64 then Ok () else Err (Process ProcTooManyProcesses))"
  proof (cases "length (queue s p) < 64")
    case True
    then have c: "rq_count ?q < 64" by (simp add: queue_def)
    obtain q1 where p: "rq_push t ?q = (Ok (), q1)" "rq_list q1 = rq_list ?q @ [t]" "rq_inv q1"
      using rq_push_ok [OF q c, of t] by (cases "rq_push t ?q") auto
    have b: "length (priority_bitmap s) = 4" using inv by (simp add: sched_inv_def)
    note r = sched_inv_replace [OF inv p(3) pbit_set(2) [OF b], of p p]
    have "pbit (pb_set (priority_bitmap s) p) r \<longleftrightarrow>
        (if r = p then rq_list q1 \<noteq> [] else pbit (priority_bitmap s) r)" for r
      using p(2) pbit_set(1) [OF b] by simp
    note r = r [OF this]
    from True p r show ?thesis
      by (simp add: enqueue_def Let_def) (simp add: queue_def)
  next
    case False
    then have "rq_push t ?q = (Err (Process ProcTooManyProcesses), ?q)"
      by (simp add: rq_push_def queue_def)
    with False inv show ?thesis by (simp add: enqueue_def Let_def)
  qed
  then show "sched_inv (snd (enqueue s t (Priority p)))"
    "queue (snd (enqueue s t (Priority p))) =
       (if length (queue s p) < 64 then (queue s)(p := queue s p @ [t]) else queue s)"
    "fst (enqueue s t (Priority p)) =
       (if length (queue s p) < 64 then Ok () else Err (Process ProcTooManyProcesses))"
    by blast+
qed

lemma enqueue_current [simp]: "sc_current (snd (enqueue s t p)) = sc_current s"
  by (simp add: enqueue_def Let_def split: prod.split outcome.split)

lemma sched_new_current [simp]: "sc_current sched_new = None"
  by (simp add: sched_new_def)

lemma requeue_expired_inv: "sched_inv s \<Longrightarrow> sched_inv (requeue_expired s)"
proof -
  assume "sched_inv s"
  then have "sched_inv (snd (enqueue s t p))" for t p using enqueue_spec(1) by (cases p) simp
  with \<open>sched_inv s\<close> show ?thesis
    by (simp add: requeue_expired_def Let_def split: option.split)
qed

text \<open>Selection: the head of the lowest-numbered non-empty queue.\<close>

definition least_ready :: "(u8 \<Rightarrow> TaskId list) \<Rightarrow> u8 \<Rightarrow> bool" where
  "least_ready qs p \<longleftrightarrow> qs p \<noteq> [] \<and> (\<forall>r < p. qs r = [])"

lemma schedule_spec:
  assumes inv: "sched_inv s0" and s: "s = requeue_expired (s0\<lparr>need_resched := False\<rparr>)"
  shows "(\<forall>p. queue s p = []) \<Longrightarrow> schedule s0 = (Ok None, s)"
    and "least_ready (queue s) p \<Longrightarrow>
      \<exists>s1. schedule s0 = (Ok (Some (hd (queue s p))), s1) \<and> sched_inv s1 \<and>
        queue s1 = (queue s)(p := tl (queue s p)) \<and> sc_current s1 = sc_current s \<and>
        current_priority s1 = current_priority s \<and> \<not> need_resched s1 \<and>
        slice_remaining s1 = quantum_for_priority (Priority p)"
proof -
  have invs: "sched_inv s" unfolding s by (rule requeue_expired_inv) (simp add: inv)
  have bit: "pbit (priority_bitmap s) r \<longleftrightarrow> queue s r \<noteq> []" for r
    using invs by (simp add: sched_inv_def)
  {
    assume "\<forall>p. queue s p = []"
    then have "find_highest (priority_bitmap s) = None" by (simp add: find_highest_None bit)
    then show "schedule s0 = (Ok None, s)" by (simp add: schedule_def s)
  }
  assume p: "least_ready (queue s) p"
  have hi: "find_highest (priority_bitmap s) = Some p"
  proof (cases "find_highest (priority_bitmap s)")
    case None
    with p show ?thesis by (auto simp: find_highest_None bit least_ready_def)
  next
    case (Some h)
    with find_highest_Some [OF this] p have "queue s h \<noteq> []" "h \<le> p"
      by (auto simp: bit least_ready_def)
    with p Some show ?thesis by (auto simp: least_ready_def dest: order_le_imp_less_or_eq)
  qed
  let ?q = "run_queues s ! unat p"
  have b: "length (priority_bitmap s) = 4" using invs by (simp add: sched_inv_def)
  obtain t ts where ts: "queue s p = t # ts" using p by (cases "queue s p") (auto simp: least_ready_def)
  obtain q1 where q1: "rq_pop ?q = (Ok (Some t), q1)" "rq_list q1 = ts" "rq_inv q1"
    using rq.deq_cons [OF sched_inv_queue(1) [OF invs, of p], of t ts] ts
    by (cases "rq_pop ?q") (auto simp: queue_def)
  define b1 where "b1 = (if rq_is_empty q1 then pb_clear (priority_bitmap s) p else priority_bitmap s)"
  have empty: "rq_is_empty q1 \<longleftrightarrow> rq_list q1 = []"
    using length_rq_list [of q1] by (auto simp: rq_is_empty_def simp del: length_rq_list)
  have b1: "length b1 = 4"
    "pbit b1 r \<longleftrightarrow> (if r = p then rq_list q1 \<noteq> [] else pbit (priority_bitmap s) r)" for r
    using b pbit_clear [OF b, of p] bit [of p] ts by (auto simp: b1_def empty)
  note r = sched_inv_replace [OF invs q1(3) b1]
  define s1 where "s1 = s\<lparr>run_queues := (run_queues s)[unat p := q1], priority_bitmap := b1\<rparr>"
  have need: "\<not> need_resched s"
    by (simp add: s requeue_expired_def enqueue_def Let_def split: option.split prod.split outcome.split)
  have "schedule s0 = (Ok (Some t), s1\<lparr>
      sc_stats := (sc_stats s1)\<lparr>ready_tasks := ready_tasks (sc_stats s1) - 1,
                                running_tasks := uadd (running_tasks (sc_stats s1)) 1\<rparr>,
      slice_remaining := quantum_for_priority (Priority p)\<rparr>)"
    using hi q1(1) by (auto simp: schedule_def s [symmetric] Let_def s1_def b1_def)
  with r ts q1(2) need show "\<exists>s1. schedule s0 = (Ok (Some (hd (queue s p))), s1) \<and> sched_inv s1 \<and>
        queue s1 = (queue s)(p := tl (queue s p)) \<and> sc_current s1 = sc_current s \<and>
        current_priority s1 = current_priority s \<and> \<not> need_resched s1 \<and>
        slice_remaining s1 = quantum_for_priority (Priority p)"
    by (auto simp: s1_def [symmetric]) (simp_all add: s1_def)
qed

section \<open>Repeated scheduling\<close>

fun sched_run :: "nat \<Rightarrow> Scheduler \<Rightarrow> TaskId option kresult list" where
  "sched_run 0 s = []"
| "sched_run (Suc n) s = (case schedule s of (r, s1) \<Rightarrow> r # sched_run n s1)"

text \<open>All ready tasks, by priority and then in order of arrival.\<close>

definition ready_order :: "(u8 \<Rightarrow> TaskId list) \<Rightarrow> TaskId list" where
  "ready_order qs = concat (map (\<lambda>k. qs (of_nat k)) [0..<256])"

lemma of_nat_u8_eq: "k < 256 \<Longrightarrow> of_nat k = (p :: u8) \<longleftrightarrow> k = unat p"
proof
  assume "k < 256" "of_nat k = p"
  then show "k = unat p" using of_nat_inverse [of k p] by simp
qed simp

lemma ready_order_empty: "(\<forall>p. qs p = []) \<Longrightarrow> ready_order qs = []"
  by (simp add: ready_order_def)

lemma ready_order_least:
  assumes p: "least_ready qs p"
  shows "ready_order qs = hd (qs p) # ready_order (qs(p := tl (qs p)))"
proof -
  have split: "[0..<256] = [0..<unat p] @ unat p # [Suc (unat p)..<256]"
    using unat_u8_less [of p] upt_add_eq_append [of 0 "unat p" "256 - unat p"]
    by (simp add: upt_conv_Cons del: upt_Suc)
  have low: "qs (of_nat k) = []" if "k < unat p" for k
  proof -
    have "k < 256" using that unat_u8_less [of p] by simp
    then have "unat (of_nat k :: u8) = k" using of_nat_u8_eq [of k "of_nat k"] by simp
    with that p show ?thesis by (simp add: least_ready_def word_less_nat_alt)
  qed
  have before: "concat (map (\<lambda>k. (f :: u8 \<Rightarrow> TaskId list) (of_nat k)) [0..<unat p]) = []"
    if "\<And>k. k < unat p \<Longrightarrow> f (of_nat k) = []" for f
    using that by (auto simp: concat_eq_Nil_conv)
  have neq: "of_nat k \<noteq> p" if "k < 256" "k \<noteq> unat p" for k
    using of_nat_u8_eq [OF that(1)] that(2) by simp
  then have after: "map (\<lambda>k. (qs(p := x)) (of_nat k)) [Suc (unat p)..<256] =
      map (\<lambda>k. qs (of_nat k)) [Suc (unat p)..<256]" for x
    by (intro map_cong) auto
  have b1: "concat (map (\<lambda>k. (qs(p := tl (qs p))) (of_nat k)) [0..<unat p]) = []"
    by (rule before) (use low neq unat_u8_less [of p] in auto)
  have b2: "concat (map (\<lambda>k. qs (of_nat k)) [0..<unat p]) = []" by (rule before) (rule low)
  have "qs p = hd (qs p) # tl (qs p)" using p by (simp add: least_ready_def)
  then show ?thesis
    unfolding ready_order_def split map_append concat_append list.map concat.simps after b1 b2
    by simp
qed

lemma least_ready_exists:
  fixes qs :: "u8 \<Rightarrow> TaskId list"
  assumes "qs p \<noteq> []" shows "\<exists>p. least_ready qs p"
  using assms
proof (induction "unat p" arbitrary: p rule: less_induct)
  case less
  then show ?case
    by (cases "\<forall>r < p. qs r = []") (auto simp: least_ready_def word_less_nat_alt)
qed

lemma requeue_expired_idle [simp]: "sc_current s = None \<Longrightarrow> requeue_expired s = s"
  by (simp add: requeue_expired_def)

section \<open>The time slice\<close>

fun ticks :: "nat \<Rightarrow> Scheduler \<Rightarrow> Scheduler" where
  "ticks 0 s = s"
| "ticks (Suc n) s = ticks n (snd (tick s))"

lemma ticks_slice:
  "sc_current s \<noteq> None \<Longrightarrow> need_resched s \<longleftrightarrow> slice_remaining s = 0 \<Longrightarrow>
     slice_remaining (ticks n s) = of_nat (unat (slice_remaining s) - n) \<and>
     (need_resched (ticks n s) \<longleftrightarrow> unat (slice_remaining s) \<le> n)"
proof (induction n arbitrary: s)
  case 0
  then show ?case by (auto simp: unat_eq_0)
next
  case (Suc n)
  let ?s = "snd (tick s)"
  have "slice_remaining ?s = (if slice_remaining s = 0 then 0 else slice_remaining s - 1)"
    "sc_current ?s = sc_current s" "need_resched ?s \<longleftrightarrow> slice_remaining ?s = 0"
    using Suc.prems by (auto simp: tick_def Let_def word_neq_0_conv)
  moreover from this have "unat (slice_remaining ?s) = unat (slice_remaining s) - 1"
    by (auto simp: unat_minus_one)
  ultimately show ?case using Suc.IH [of ?s] Suc.prems by auto
qed

section \<open>Removing a task leaves a hole\<close>






text \<open>The bit of \<open>p\<close> is the best one set, and its queue gives no task, now or after giving none once.\<close>

definition gives_none :: "RunQueue \<Rightarrow> bool" where
  "gives_none q \<longleftrightarrow> fst (rq_pop q) = Ok None \<and> rq_count (snd (rq_pop q)) = 0"

definition wedged :: "u8 \<Rightarrow> Scheduler \<Rightarrow> bool" where
  "wedged p s \<longleftrightarrow> length (run_queues s) = 256 \<and> length (priority_bitmap s) = 4 \<and>
     pbit (priority_bitmap s) p \<and> (\<forall>r < p. \<not> pbit (priority_bitmap s) r) \<and> gives_none (run_queues s ! unat p) \<and>
     (\<forall>pr. current_priority s = Some pr \<longrightarrow> p < priority_as_u8 pr)"

lemma wedged_cong [simp]:
  "wedged p (s\<lparr>sc_current := c\<rparr>) = wedged p s" "wedged p (s\<lparr>sc_idle_task := i\<rparr>) = wedged p s"
  "wedged p (s\<lparr>sc_stats := st\<rparr>) = wedged p s" "wedged p (s\<lparr>need_resched := nr\<rparr>) = wedged p s"
  "wedged p (s\<lparr>slice_remaining := sl\<rparr>) = wedged p s" "wedged p (s\<lparr>sc_switches := sw\<rparr>) = wedged p s"
  by (simp_all add: wedged_def)










section \<open>Properties\<close>

text \<open>The ready queues once a current task whose slice is used up has gone back to its own queue.\<close>

lemma requeue_expired_spec:
  fixes s0 :: Scheduler
  defines "s \<equiv> requeue_expired (s0\<lparr>need_resched := False\<rparr>)"
  assumes "sched_inv s0"
  shows "sc_current s0 = Some t \<Longrightarrow> current_priority s0 = Some (Priority c) \<Longrightarrow> slice_remaining s0 = 0 \<Longrightarrow>
      queue s = (if length (queue s0 c) < 64 then (queue s0)(c := queue s0 c @ [t]) else queue s0) \<and>
      sc_current s = None \<and> current_priority s = None"
    and "sc_current s0 = None \<or> current_priority s0 = None \<or> slice_remaining s0 \<noteq> 0 \<Longrightarrow> s = s0\<lparr>need_resched := False\<rparr>"
    and "slice_remaining s = slice_remaining s0" "\<not> need_resched s"
proof -
  have inv: "sched_inv (s0\<lparr>need_resched := False\<rparr>)" using assms(2) by simp
  show "sc_current s0 = Some t \<Longrightarrow> current_priority s0 = Some (Priority c) \<Longrightarrow> slice_remaining s0 = 0 \<Longrightarrow>
      queue s = (if length (queue s0 c) < 64 then (queue s0)(c := queue s0 c @ [t]) else queue s0) \<and>
      sc_current s = None \<and> current_priority s = None"
    using enqueue_spec(2) [OF inv, of t c] by (simp add: s_def requeue_expired_def Let_def)
  show "sc_current s0 = None \<or> current_priority s0 = None \<or> slice_remaining s0 \<noteq> 0 \<Longrightarrow> s = s0\<lparr>need_resched := False\<rparr>"
    by (auto simp: s_def requeue_expired_def split: option.split)
  show "slice_remaining s = slice_remaining s0" "\<not> need_resched s"
    by (simp_all add: s_def requeue_expired_def enqueue_def Let_def split: option.split prod.split outcome.split)
qed

lemma schedule_spec_cases:
  assumes "sched_inv s0"
  shows "case schedule s0 of (r, s1) \<Rightarrow> (let s = requeue_expired (s0\<lparr>need_resched := False\<rparr>) in
    sched_inv s1 \<and> \<not> need_resched s1 \<and> sc_current s1 = sc_current s \<and> current_priority s1 = current_priority s \<and>
    (if \<forall>p. queue s p = [] then r = Ok None \<and> queue s1 = queue s \<and> slice_remaining s1 = slice_remaining s
     else \<exists>p. least_ready (queue s) p \<and> r = Ok (Some (hd (queue s p))) \<and>
            queue s1 = (queue s)(p := tl (queue s p)) \<and> slice_remaining s1 = quantum_for_priority (Priority p)))"
proof -
  let ?s = "requeue_expired (s0\<lparr>need_resched := False\<rparr>)"
  have inv: "sched_inv ?s" "\<not> need_resched ?s"
    using assms requeue_expired_inv [of "s0\<lparr>need_resched := False\<rparr>"] requeue_expired_spec(4) [OF assms] by simp_all
  show ?thesis
  proof (cases "\<forall>p. queue ?s p = []")
    case True
    with schedule_spec(1) [OF assms refl] inv show ?thesis by simp
  next
    case False
    then obtain p where p: "least_ready (queue ?s) p" using least_ready_exists by blast
    from schedule_spec(2) [OF assms refl p] p False show ?thesis by (auto simp: Let_def)
  qed
qed

text \<open>
  C7 (functional). On a consistent scheduler \<open>schedule\<close> first takes a current task whose slice is used up off the
  processor and puts it at the end of the queue of its own priority, unless that queue is full: then the task is in no
  queue any more. It then returns the head of the lowest-numbered non-empty queue, removes exactly this task, starts a
  slice whose length follows from its priority and clears the reschedule request; it returns no task exactly when
  every queue is empty.
\<close>

theorem schedule_picks_highest:
  assumes "sched_inv s0"
  shows "case schedule s0 of (r, s1) \<Rightarrow>
    (let expired = (sc_current s0 \<noteq> None \<and> current_priority s0 \<noteq> None \<and> slice_remaining s0 = 0);
         t = the (sc_current s0); c = priority_as_u8 (the (current_priority s0));
         qs = (if expired \<and> length (queue s0 c) < 64 then (queue s0)(c := queue s0 c @ [t]) else queue s0)
     in sched_inv s1 \<and> \<not> need_resched s1 \<and>
        sc_current s1 = (if expired then None else sc_current s0) \<and>
        current_priority s1 = (if expired then None else current_priority s0) \<and>
        (if \<forall>p. qs p = [] then r = Ok None \<and> queue s1 = qs \<and> slice_remaining s1 = slice_remaining s0
         else \<exists>p. least_ready qs p \<and> r = Ok (Some (hd (qs p))) \<and> queue s1 = qs(p := tl (qs p)) \<and>
                slice_remaining s1 = (if p < 32 then 1 + ucast p else if p < 128 then 10 else 20)))"
proof -
  let ?s = "requeue_expired (s0\<lparr>need_resched := False\<rparr>)"
  let ?expired = "sc_current s0 \<noteq> None \<and> current_priority s0 \<noteq> None \<and> slice_remaining s0 = 0"
  let ?c = "priority_as_u8 (the (current_priority s0))"
  let ?qs = "if ?expired \<and> length (queue s0 ?c) < 64 then (queue s0)(?c := queue s0 ?c @ [the (sc_current s0)]) else queue s0"
  have q: "queue ?s = ?qs" "sc_current ?s = (if ?expired then None else sc_current s0)"
    "current_priority ?s = (if ?expired then None else current_priority s0)"
  proof -
    have "queue ?s = ?qs \<and> sc_current ?s = (if ?expired then None else sc_current s0) \<and>
      current_priority ?s = (if ?expired then None else current_priority s0)"
    proof (cases ?expired)
      case True
      then obtain t c where tc: "sc_current s0 = Some t" "current_priority s0 = Some (Priority c)"
        by (metis Priority.exhaust not_None_eq)
      from requeue_expired_spec(1) [OF assms tc] True show ?thesis by (simp add: tc)
    next
      case False
      then have "?s = s0\<lparr>need_resched := False\<rparr>" by (intro requeue_expired_spec(2) [OF assms]) blast
      with False show ?thesis by auto
    qed
    then show "queue ?s = ?qs" "sc_current ?s = (if ?expired then None else sc_current s0)"
      "current_priority ?s = (if ?expired then None else current_priority s0)" by blast+
  qed
  have quantum: "quantum_for_priority (Priority p) = (if p < 32 then 1 + ucast p else if p < 128 then 10 else 20)" for p
    by (simp add: quantum_for_priority_def Let_def RT_MIN_QUANTUM_def DEFAULT_QUANTUM_def)
  show ?thesis
    using schedule_spec_cases [OF assms] unfolding q requeue_expired_spec(3) [OF assms] quantum Let_def .
qed

lemma example_ready:
  "queue (snd (enqueue sched_new t (Priority p))) = (\<lambda>_. [])(p := [t])"
  "sched_inv (snd (enqueue sched_new t (Priority p)))"
  "sc_current (snd (enqueue sched_new t (Priority p))) = None"
  using enqueue_spec [OF sched_new_inv(1), of t p] by (simp_all add: sched_new_inv(2))

theorem schedule_picks_highest_witness:
  "fst (schedule (snd (enqueue sched_new (TaskId 7) (Priority 128)))) = Ok (Some (TaskId 7))"
proof -
  let ?s = "snd (enqueue sched_new (TaskId 7) (Priority 128))"
  have q: "queue ?s = (\<lambda>_. [])(128 := [TaskId 7])" by (simp add: example_ready(1))
  from schedule_picks_highest [OF example_ready(2) [of "TaskId 7" 128]] show ?thesis
    unfolding q by (auto simp: least_ready_def example_ready(3) Let_def split: prod.splits if_splits)
qed

text \<open>
  Calling \<open>schedule\<close> repeatedly with no current task delivers every queued
  task once, by priority and within a priority in order of arrival, and then none.
\<close>

theorem schedule_drains_in_order:
  assumes "sched_inv s" "sc_current s = None"
  shows "sched_run n s = map (Ok \<circ> Some) (take n (ready_order (queue s))) @
           replicate (n - length (ready_order (queue s))) (Ok None)"
  using assms
proof (induction n arbitrary: s)
  case (Suc n)
  let ?s = "s\<lparr>need_resched := False\<rparr>"
  have s: "?s = requeue_expired ?s" using Suc.prems(2) by simp
  note spec = schedule_spec [OF Suc.prems(1) s]
  show ?case
  proof (cases "\<forall>p. queue s p = []")
    case True
    then have "schedule s = (Ok None, ?s)" using spec(1) by simp
    with True Suc.IH [of ?s] Suc.prems show ?thesis by (simp add: ready_order_empty)
  next
    case False
    then obtain p where p: "least_ready (queue s) p" using least_ready_exists by blast
    then obtain s1 where s1: "schedule s = (Ok (Some (hd (queue s p))), s1)" "sched_inv s1"
      "queue s1 = (queue s)(p := tl (queue s p))" "sc_current s1 = None"
      using spec(2) [of p] Suc.prems(2) by auto
    have "sched_run n s1 = map (Ok \<circ> Some) (take n (ready_order ((queue s)(p := tl (queue s p))))) @
        replicate (n - length (ready_order ((queue s)(p := tl (queue s p))))) (Ok None)"
      using Suc.IH [OF s1(2,4)] unfolding s1(3) .
    then show ?thesis by (simp only: sched_run.simps s1(1) prod.case ready_order_least [OF p]) simp
  qed
qed simp

theorem schedule_drains_in_order_witness:
  "sched_run 2 (snd (enqueue sched_new (TaskId 7) (Priority 3))) = [Ok (Some (TaskId 7)), Ok None]"
proof -
  have "least_ready ((\<lambda>_. [])(3 := [TaskId 7])) 3" by (simp add: least_ready_def)
  from ready_order_least [OF this] have "ready_order ((\<lambda>_. [])(3 := [TaskId 7])) = [TaskId 7]"
    by (simp add: ready_order_empty)
  then show ?thesis
    using schedule_drains_in_order [OF example_ready(2,3), of 2 "TaskId 7" 3]
    unfolding example_ready(1) by (simp add: numeral_2_eq_2)
qed




end
