(* ===== verification/Ipc.thy ===== *)
theory Ipc
  imports Task Ring
begin

text \<open>
  Inter-process communication, \<open>kernel/src/process/ipc.rs\<close>: the message queue of 32 slots,
  the signal bitmaps of a task, and the reference count of a shared memory region. The queue
  implements the bounded first-in first-out contract.
\<close>

section \<open>Messages and the message queue\<close>

record Message =
  sender :: TaskId
  msg_type :: u64
  msg_data :: "u64 list"

definition message_new :: "TaskId \<Rightarrow> u64 \<Rightarrow> Message" where
  "message_new from_id ty = \<lparr>sender = from_id, msg_type = ty, msg_data = replicate 6 0\<rparr>"

definition message_with_data :: "TaskId \<Rightarrow> u64 \<Rightarrow> u64 list \<Rightarrow> Message" where
  "message_with_data from_id ty d = \<lparr>sender = from_id, msg_type = ty, msg_data = d\<rparr>"

record MessageQueue =
  mq_messages :: "Message option list"
  mq_head :: usize
  mq_tail :: usize
  mq_count :: usize

definition MAX_MESSAGE_SIZE :: usize where "MAX_MESSAGE_SIZE = 4096"

text \<open>The size of a \<open>Message\<close>: an identifier, a type and six words of data.\<close>

definition sizeof_message :: usize where "sizeof_message = 64"

definition mq_new :: MessageQueue where
  "mq_new = \<lparr>mq_messages = replicate 32 None, mq_head = 0, mq_tail = 0, mq_count = 0\<rparr>"

definition send :: "Message \<Rightarrow> MessageQueue \<Rightarrow> unit kresult \<times> MessageQueue" where
  "send msg q =
     (if sizeof_message > MAX_MESSAGE_SIZE
      then (Err (InvalidParameter ''Message exceeds maximum size of 4096 bytes''), q)
      else if mq_count q \<ge> 32 then (Err ResourceExhausted, q)
      else if mq_tail q \<ge> length (mq_messages q) then (Panic, q)
      else (Ok (), q\<lparr>mq_messages := (mq_messages q)[mq_tail q := Some msg],
                     mq_tail := (mq_tail q + 1) mod 32,
                     mq_count := uadd (mq_count q) 1\<rparr>))"

text \<open>
  The copy of the caller's bytes over the zeroed data words, as a little-endian machine lays
  them out: word \<open>i\<close> holds bytes \<open>8 * i\<close> to \<open>8 * i + 7\<close> of the first 48.
\<close>

fun le_word :: "u8 list \<Rightarrow> u64" where
  "le_word [] = 0"
| "le_word (b # bs) = ucast b OR push_bit 8 (le_word bs)"

definition send_data ::
  "TaskId \<Rightarrow> u64 \<Rightarrow> u8 list \<Rightarrow> MessageQueue \<Rightarrow> unit kresult \<times> MessageQueue" where
  "send_data from_id ty bytes q =
     (if length bytes > MAX_MESSAGE_SIZE
      then (Err (InvalidParameter ''Message data exceeds 4096 bytes''), q)
      else let copied = take (min (length bytes) 48) bytes;
               words = map (\<lambda>i. le_word (take 8 (drop (8 * i) copied))) [0..<6]
           in send ((message_new from_id ty)\<lparr>msg_data := words\<rparr>) q)"

definition receive :: "MessageQueue \<Rightarrow> Message option kresult \<times> MessageQueue" where
  "receive q =
     (if mq_count q = 0 then (Ok None, q)
      else if mq_head q \<ge> length (mq_messages q) then (Panic, q)
      else (Ok (mq_messages q ! mq_head q),
            q\<lparr>mq_messages := (mq_messages q)[mq_head q := None],
              mq_head := (mq_head q + 1) mod 32,
              mq_count := usub (mq_count q) 1\<rparr>))"

definition mq_len :: "MessageQueue \<Rightarrow> usize" where "mq_len q = mq_count q"
definition mq_is_empty :: "MessageQueue \<Rightarrow> bool" where "mq_is_empty q \<longleftrightarrow> mq_len q = 0"
definition mq_is_full :: "MessageQueue \<Rightarrow> bool" where "mq_is_full q \<longleftrightarrow> mq_len q \<ge> 32"

section \<open>The message queue is a bounded queue\<close>

definition mq_inv :: "MessageQueue \<Rightarrow> bool" where
  "mq_inv q \<longleftrightarrow> length (mq_messages q) = 32 \<and>
     slots_ok (mq_messages q) (mq_head q) (mq_tail q) (mq_count q)"

definition mq_list :: "MessageQueue \<Rightarrow> Message list" where
  "mq_list q = slots_list (mq_messages q) (mq_head q) (mq_count q)"

lemma length_mq_list [simp]: "length (mq_list q) = mq_count q"
  by (simp add: mq_list_def)

lemma send_ok:
  assumes "mq_inv q" "mq_count q < 32"
  shows "fst (send m q) = Ok () \<and> mq_list (snd (send m q)) = mq_list q @ [m] \<and>
         mq_inv (snd (send m q))"
  using assms slots_ok_tail [of "mq_messages q" "mq_head q" "mq_tail q" "mq_count q"]
    slots_push [of "mq_messages q" "mq_head q" "mq_tail q" "mq_count q" m]
  by (simp add: send_def mq_inv_def mq_list_def sizeof_message_def MAX_MESSAGE_SIZE_def)

lemma receive_ok:
  assumes "mq_inv q" "mq_count q = Suc n"
  shows "fst (receive q) = Ok (Some (hd (mq_list q))) \<and> mq_list (snd (receive q)) = tl (mq_list q) \<and>
         mq_inv (snd (receive q))"
  using assms slots_pop [of "mq_messages q" "mq_head q" "mq_tail q" n]
    slots_ok_bounds [of "mq_messages q" "mq_head q" "mq_tail q" "Suc n"]
  by (simp add: receive_def mq_inv_def mq_list_def)

interpretation mq: bounded_fifo send receive mq_list mq_inv 32
proof unfold_locales
  fix q :: MessageQueue and x xs
  assume inv: "mq_inv q"
  show "length (mq_list q) < 32 \<Longrightarrow>
      is_ok (fst (send x q)) \<and> mq_list (snd (send x q)) = mq_list q @ [x] \<and> mq_inv (snd (send x q))"
    using send_ok [OF inv] by simp
  show "32 \<le> length (mq_list q) \<Longrightarrow> \<not> is_ok (fst (send x q)) \<and> snd (send x q) = q"
    by (simp add: send_def sizeof_message_def MAX_MESSAGE_SIZE_def)
  show "mq_list q = [] \<Longrightarrow> receive q = (Ok None, q)"
    using length_mq_list [of q] by (simp add: receive_def)
  show "mq_list q = x # xs \<Longrightarrow>
      fst (receive q) = Ok (Some x) \<and> mq_list (snd (receive q)) = xs \<and> mq_inv (snd (receive q))"
    using receive_ok [OF inv, of "length xs"] length_mq_list [of q] by simp
  show "length (mq_list q) \<le> 32"
    using inv slots_ok_bounds by (fastforce simp: mq_inv_def)
qed

lemma mq_new_inv: "mq_inv mq_new" and mq_new_list: "mq_list mq_new = []"
  by (simp_all add: mq_inv_def mq_new_def mq_list_def slots_new slots_list_def)

text \<open>Reading a message's data back as bytes.\<close>

definition le_bytes :: "u64 \<Rightarrow> u8 list" where
  "le_bytes w = map (\<lambda>i. ucast (drop_bit (8 * i) w)) [0..<8]"

definition data_bytes :: "Message \<Rightarrow> u8 list" where
  "data_bytes m = concat (map le_bytes (msg_data m))"

lemma bit_le_word:
  "bit (le_word bs) n \<longleftrightarrow> n < 64 \<and> n div 8 < length bs \<and> bit (bs ! (n div 8)) (n mod 8)"
proof (induction bs arbitrary: n)
  case (Cons b bs)
  show ?case
  proof (cases "n < 8")
    case True
    then show ?thesis by (simp add: bit_or_iff bit_push_bit_iff bit_ucast_iff)
  next
    case False
    then obtain k where "n = k + 8" by (metis add.commute le_add_diff_inverse2 not_less)
    moreover have "\<not> bit b n" if "8 \<le> n" for n using that by (auto dest: bit_imp_le_length)
    moreover have "(k + 8) div 8 = Suc (k div 8)" by simp
    ultimately show ?thesis using Cons.IH [of k]
      by (auto simp: bit_or_iff bit_push_bit_iff bit_ucast_iff)
  qed
qed simp

lemma le_bytes_le_word:
  assumes "length bs \<le> 8"
  shows "le_bytes (le_word bs) = bs @ replicate (8 - length bs) 0"
proof (rule nth_equalityI)
  fix i assume "i < length (le_bytes (le_word bs))"
  then have i: "i < 8" by (simp add: le_bytes_def)
  have "ucast (drop_bit (8 * i) (le_word bs)) = (bs @ replicate (8 - length bs) 0) ! i"
  proof (rule bit_word_eqI)
    fix n assume "n < LENGTH(8)"
    then have n: "n < 8" by simp
    have "(8 * i + n) div 8 = i" "(8 * i + n) mod 8 = n" "8 * i + n < 64" using i n by auto
    with i n show "bit (ucast (drop_bit (8 * i) (le_word bs)) :: u8) n =
        bit ((bs @ replicate (8 - length bs) 0) ! i) n"
      by (auto simp: bit_ucast_iff bit_drop_bit_eq bit_le_word nth_append)
  qed
  with i show "le_bytes (le_word bs) ! i = (bs @ replicate (8 - length bs) 0) ! i"
    by (simp add: le_bytes_def)
qed (use assms in \<open>simp add: le_bytes_def\<close>)

lemma concat_words:
  "concat (map (\<lambda>i. le_bytes (le_word (take 8 (drop (8 * i) c)))) [0..<k]) =
     take (8 * k) c @ replicate (8 * k - length c) 0"
proof (induction k)
  case (Suc k)
  show ?case
  proof (cases "length c \<le> 8 * k")
    case True
    then have "replicate (8 * Suc k - length c) (0 :: u8) =
        replicate (8 * k - length c) 0 @ replicate 8 0"
      by (simp only: replicate_add [symmetric]) simp
    with Suc True show ?thesis by (simp add: le_bytes_le_word)
  next
    case False
    have "take (8 * Suc k) c = take (8 * k) c @ take 8 (drop (8 * k) c)"
      by (metis add.commute mult_Suc_right take_add)
    with Suc False show ?thesis by (simp add: le_bytes_le_word)
  qed
qed simp

section \<open>Signals\<close>

datatype Signal = Kill | Interrupt | Terminate | Stop | Continue | Child | User1 | User2

fun signal_as_u8 :: "Signal \<Rightarrow> u8" where
  "signal_as_u8 Kill = 1"
| "signal_as_u8 Interrupt = 2"
| "signal_as_u8 Terminate = 3"
| "signal_as_u8 Stop = 4"
| "signal_as_u8 Continue = 5"
| "signal_as_u8 Child = 6"
| "signal_as_u8 User1 = 7"
| "signal_as_u8 User2 = 8"

definition signal_from_u8 :: "u8 \<Rightarrow> Signal option" where
  "signal_from_u8 v =
     (if v = 1 then Some Kill else if v = 2 then Some Interrupt
      else if v = 3 then Some Terminate else if v = 4 then Some Stop
      else if v = 5 then Some Continue else if v = 6 then Some Child
      else if v = 7 then Some User1 else if v = 8 then Some User2 else None)"

text \<open>A handler is a function pointer, of which only the address matters here.\<close>

record SignalManager =
  sm_pending :: u64
  sm_blocked :: u64
  sm_handlers :: "u64 option list"

definition sm_new :: SignalManager where
  "sm_new = \<lparr>sm_pending = 0, sm_blocked = 0, sm_handlers = replicate 8 None\<rparr>"

abbreviation signal_no :: "Signal \<Rightarrow> nat" where
  "signal_no s \<equiv> unat (signal_as_u8 s)"

definition send_signal :: "SignalManager \<Rightarrow> Signal \<Rightarrow> SignalManager" where
  "send_signal m s = m\<lparr>sm_pending := sm_pending m OR push_bit (signal_no s) 1\<rparr>"

definition has_pending :: "SignalManager \<Rightarrow> bool" where
  "has_pending m \<longleftrightarrow> sm_pending m AND NOT (sm_blocked m) \<noteq> 0"

definition get_pending :: "SignalManager \<Rightarrow> Signal option" where
  "get_pending m =
     (let deliverable = sm_pending m AND NOT (sm_blocked m)
      in if deliverable = 0 then None else signal_from_u8 (of_nat (trailing_zeros deliverable)))"

definition clear_signal :: "SignalManager \<Rightarrow> Signal \<Rightarrow> SignalManager" where
  "clear_signal m s = m\<lparr>sm_pending := sm_pending m AND NOT (push_bit (signal_no s) 1)\<rparr>"

definition block_signal :: "SignalManager \<Rightarrow> Signal \<Rightarrow> SignalManager" where
  "block_signal m s = m\<lparr>sm_blocked := sm_blocked m OR push_bit (signal_no s) 1\<rparr>"

definition unblock_signal :: "SignalManager \<Rightarrow> Signal \<Rightarrow> SignalManager" where
  "unblock_signal m s = m\<lparr>sm_blocked := sm_blocked m AND NOT (push_bit (signal_no s) 1)\<rparr>"

definition set_handler :: "SignalManager \<Rightarrow> Signal \<Rightarrow> u64 \<Rightarrow> SignalManager" where
  "set_handler m s h =
     (let idx = unat (signal_as_u8 s - 1)
      in if idx < 8 then m\<lparr>sm_handlers := (sm_handlers m)[idx := Some h]\<rparr> else m)"

definition get_handler :: "SignalManager \<Rightarrow> Signal \<Rightarrow> u64 option" where
  "get_handler m s =
     (let idx = unat (signal_as_u8 s - 1)
      in if idx < 8 then sm_handlers m ! idx else None)"

text \<open>The operations in sequence, and the abstract sets of pending and blocked signals.\<close>

datatype sig_op = SendSig Signal | ClearSig Signal | BlockSig Signal | UnblockSig Signal

fun sig_exec :: "SignalManager \<Rightarrow> sig_op \<Rightarrow> SignalManager" where
  "sig_exec m (SendSig s) = send_signal m s"
| "sig_exec m (ClearSig s) = clear_signal m s"
| "sig_exec m (BlockSig s) = block_signal m s"
| "sig_exec m (UnblockSig s) = unblock_signal m s"

fun sig_abs_exec :: "Signal set \<times> Signal set \<Rightarrow> sig_op \<Rightarrow> Signal set \<times> Signal set" where
  "sig_abs_exec (p, b) (SendSig s) = (insert s p, b)"
| "sig_abs_exec (p, b) (ClearSig s) = (p - {s}, b)"
| "sig_abs_exec (p, b) (BlockSig s) = (p, insert s b)"
| "sig_abs_exec (p, b) (UnblockSig s) = (p, b - {s})"

definition sig_sets :: "SignalManager \<Rightarrow> Signal set \<times> Signal set" where
  "sig_sets m = ({s. bit (sm_pending m) (signal_no s)}, {s. bit (sm_blocked m) (signal_no s)})"

definition sig_inv :: "SignalManager \<Rightarrow> bool" where
  "sig_inv m \<longleftrightarrow> (\<forall>n. bit (sm_pending m) n \<longrightarrow> (\<exists>s. n = signal_no s))"

lemma signal_no_simps:
  "signal_no Kill = 1" "signal_no Interrupt = 2" "signal_no Terminate = 3" "signal_no Stop = 4"
  "signal_no Continue = 5" "signal_no Child = 6" "signal_no User1 = 7" "signal_no User2 = 8"
  by simp_all

lemma signal_no_less: "signal_no s < 64" by (cases s) simp_all

lemma signal_from_as [simp]: "signal_from_u8 (signal_as_u8 s) = Some s"
  by (cases s) (simp_all add: signal_from_u8_def)

lemma signal_no_inj: "signal_no s = signal_no t \<longleftrightarrow> s = t"
  by (metis signal_from_as option.inject word_unat_eq_iff)

lemmas sig_ops = send_signal_def clear_signal_def block_signal_def unblock_signal_def

lemma sig_exec_inv: "sig_inv m \<Longrightarrow> sig_inv (sig_exec m op)"
  by (cases op) (auto simp: sig_ops sig_inv_def bit_or_mask bit_and_not_mask)

lemma sig_exec_abs: "sig_sets (sig_exec m op) = sig_abs_exec (sig_sets m) op"
  using signal_no_less
  by (cases op)
    (auto simp: sig_ops sig_sets_def bit_or_mask bit_and_not_mask signal_no_inj)

lemma get_pending_least:
  assumes "sig_inv m" "sig_sets m = (p, b)"
  shows "case get_pending m of
      None \<Rightarrow> p - b = {}
    | Some s \<Rightarrow> s \<in> p - b \<and> (\<forall>t \<in> p - b. signal_no s \<le> signal_no t)"
proof -
  let ?d = "sm_pending m AND NOT (sm_blocked m)"
  have mem: "s \<in> p - b \<longleftrightarrow> bit ?d (signal_no s)" for s
    using assms(2) signal_no_less [of s] by (auto simp: sig_sets_def bit_and_iff bit_not_iff)
  show ?thesis
  proof (cases "?d = 0")
    case True
    with mem show ?thesis by (auto simp: get_pending_def)
  next
    case False
    have b: "bit ?d (trailing_zeros ?d)" using trailing_zeros_bit [OF False] .
    then obtain s where s: "trailing_zeros ?d = signal_no s"
      using assms(1) by (auto simp: sig_inv_def bit_and_iff)
    have "get_pending m = Some s" using False s by (simp add: get_pending_def Let_def)
    moreover have "signal_no s \<le> signal_no t" if "t \<in> p - b" for t
      using that mem [of t] trailing_zeros_least [of "signal_no t" ?d] s by (metis not_less)
    ultimately show ?thesis using b s mem [of s] by auto
  qed
qed

section \<open>Shared memory\<close>

record SharedMemory =
  shm_base :: u64
  shm_size :: usize
  shm_ref_count :: usize

definition MAX_SIZE :: usize where "MAX_SIZE = 64 * 1024 * 1024"

definition shm_new :: "u64 \<Rightarrow> usize \<Rightarrow> SharedMemory kresult" where
  "shm_new base sz =
     (if sz > MAX_SIZE then Err (InvalidParameter ''Shared memory exceeds 64MB limit'')
      else Ok \<lparr>shm_base = base, shm_size = sz, shm_ref_count = 1\<rparr>)"

definition attach :: "SharedMemory \<Rightarrow> unit kresult \<times> SharedMemory" where
  "attach m = (Ok (), m\<lparr>shm_ref_count := uadd (shm_ref_count m) 1\<rparr>)"

definition detach :: "SharedMemory \<Rightarrow> bool kresult \<times> SharedMemory" where
  "detach m =
     (let old = shm_ref_count m; m1 = m\<lparr>shm_ref_count := usub old 1\<rparr>
      in if old = 0 then (Err (InvalidParameter ''Invalid ref count''), m1)
         else (Ok (old = 1), m1))"

text \<open>The results of \<open>n\<close> consecutive detaches.\<close>

fun detach_run :: "nat \<Rightarrow> SharedMemory \<Rightarrow> bool kresult list \<times> SharedMemory" where
  "detach_run 0 m = ([], m)"
| "detach_run (Suc n) m =
     (case detach m of (r, m1) \<Rightarrow> case detach_run n m1 of (rs, m2) \<Rightarrow> (r # rs, m2))"

lemma attach_count:
  "shm_ref_count m + n < usize_mod \<Longrightarrow>
     shm_ref_count (((\<lambda>m. snd (attach m)) ^^ n) m) = shm_ref_count m + n"
  by (induction n) (simp_all add: attach_def)

lemma detach_run_count:
  "shm_ref_count m = Suc n \<Longrightarrow> Suc n < usize_mod \<Longrightarrow>
     detach_run (Suc n) m = (replicate n (Ok False) @ [Ok True], m\<lparr>shm_ref_count := 0\<rparr>)"
proof (induction n arbitrary: m)
  case 0
  then show ?case by (simp add: detach_def Let_def)
next
  case (Suc n)
  let ?m = "m\<lparr>shm_ref_count := Suc n\<rparr>"
  have "detach m = (Ok False, ?m)" using Suc.prems by (simp add: detach_def Let_def)
  moreover have "detach_run (Suc n) ?m =
      (replicate n (Ok False) @ [Ok True], ?m\<lparr>shm_ref_count := 0\<rparr>)"
    by (rule Suc.IH) (use Suc.prems in simp_all)
  ultimately show ?case by (simp only: detach_run.simps(2) prod.case) simp
qed

section \<open>Properties\<close>

definition example_message :: "u64 \<Rightarrow> Message" where
  "example_message i = message_new (TaskId i) i"

text \<open>
  C6 (functional). The message queue is a bounded first-in first-out channel: for every
  interleaving of sends and receives on a new queue, the accepted messages in order are the
  delivered ones in order followed by at most 32 that are still queued. None is lost,
  duplicated or reordered, and no array index is out of range.
\<close>

theorem message_queue_fifo:
  assumes "fifo_run send receive mq_new ops = (accepted, delivered, q)"
  shows "accepted = delivered @ mq_list q \<and> mq_len q \<le> 32"
  using mq.fifo_order [OF mq_new_inv assms] mq.within_cap [of q]
  by (auto simp: mq_new_list mq_len_def)

theorem message_queue_fifo_witness:
  "\<exists>q. fifo_run send receive mq_new [Enq (example_message 1), Enq (example_message 2), Deq]
         = ([example_message 1, example_message 2], [example_message 1], q) \<and>
       mq_list q = [example_message 2]"
proof -
  obtain q where r: "fifo_run send receive mq_new [Enq (example_message 1), Enq (example_message 2), Deq]
      = ([example_message 1, example_message 2], [example_message 1], q)"
    by (simp add: send_def receive_def mq_new_def sizeof_message_def MAX_MESSAGE_SIZE_def)
  from message_queue_fifo [OF r] r show ?thesis by simp
qed

lemma example_mq_empty: "mq_count mq_new = 0" by (simp add: mq_new_def)

text \<open>
  \<open>send_data\<close> on a consistent queue rejects more than 4096 bytes, then a full
  queue, and otherwise appends one message from the sender that carries the first 48 bytes of
  the data padded with zeros: what lies beyond byte 48 is dropped without an error.
\<close>

theorem send_data_result:
  assumes "mq_inv q"
  shows "case send_data from_id ty bytes q of (r, q1) \<Rightarrow>
    mq_inv q1 \<and>
    (if length bytes > 4096
     then r = Err (InvalidParameter ''Message data exceeds 4096 bytes'') \<and> q1 = q
     else if mq_is_full q then r = Err ResourceExhausted \<and> q1 = q
     else r = Ok () \<and> (\<exists>m. mq_list q1 = mq_list q @ [m] \<and> sender m = from_id \<and>
            msg_type m = ty \<and> data_bytes m = take 48 bytes @ replicate (48 - length bytes) 0))"
proof (cases "length bytes > 4096 \<or> mq_is_full q")
  case True
  with assms show ?thesis
    by (auto simp: send_data_def MAX_MESSAGE_SIZE_def Let_def send_def sizeof_message_def
        mq_is_full_def mq_len_def)
next
  case False
  let ?c = "take (min (length bytes) 48) bytes"
  define m where "m = (message_new from_id ty)
    \<lparr>msg_data := map (\<lambda>i. le_word (take 8 (drop (8 * i) ?c))) [0..<6]\<rparr>"
  have send: "send_data from_id ty bytes q = send m q"
    using False by (simp add: send_data_def MAX_MESSAGE_SIZE_def Let_def m_def)
  have "data_bytes m = take (8 * 6) ?c @ replicate (8 * 6 - length ?c) 0"
    unfolding concat_words [symmetric] by (simp add: data_bytes_def m_def comp_def del: upt_rec_numeral)
  then have "data_bytes m = take 48 bytes @ replicate (48 - length bytes) 0"
    by (simp add: min_def)
  moreover have "sender m = from_id" "msg_type m = ty" by (simp_all add: m_def message_new_def)
  moreover have "mq_count q < 32" using False by (simp add: mq_is_full_def mq_len_def)
  ultimately show ?thesis
    using False send_ok [OF assms, of m] by (cases "send m q") (auto simp: send)
qed

theorem send_data_result_witness:
  "\<exists>m. mq_list (snd (send_data (TaskId 1) 5 (replicate 49 0xFF) mq_new)) = [m] \<and>
     data_bytes m = replicate 48 0xFF"
  using send_data_result [OF mq_new_inv, where from_id = "TaskId 1" and ty = 5 and bytes = "replicate 49 0xFF"]
  by (auto simp: mq_new_list mq_is_full_def mq_len_def example_mq_empty split: prod.splits)

text \<open>
  The two signal bitmaps stand for the sets of pending and blocked signals:
  after any sequence of sends, clears, blocks and unblocks, the signal that \<open>get_pending\<close>
  selects is the lowest-numbered one that is pending and not blocked, and it selects one exactly
  when \<open>has_pending\<close> holds.
\<close>

theorem signal_delivery_refines_sets:
  assumes "foldl sig_abs_exec ({}, {}) ops = (pending, blocked)"
    "m = foldl sig_exec sm_new ops"
  shows "(has_pending m \<longleftrightarrow> pending - blocked \<noteq> {}) \<and>
         (case get_pending m of
            None \<Rightarrow> pending - blocked = {}
          | Some s \<Rightarrow> s \<in> pending - blocked \<and> (\<forall>t \<in> pending - blocked. signal_no s \<le> signal_no t))"
proof -
  have "sig_inv (foldl sig_exec n ops) \<and>
      sig_sets (foldl sig_exec n ops) = foldl sig_abs_exec (sig_sets n) ops" if "sig_inv n" for n
    using that by (induction ops arbitrary: n) (simp_all add: sig_exec_inv sig_exec_abs)
  moreover have "sig_inv sm_new" "sig_sets sm_new = ({}, {})"
    by (simp_all add: sig_inv_def sig_sets_def sm_new_def)
  ultimately have m: "sig_inv m" "sig_sets m = (pending, blocked)" using assms by auto
  have least: "case get_pending m of
           None \<Rightarrow> pending - blocked = {}
         | Some s \<Rightarrow> s \<in> pending - blocked \<and> (\<forall>t \<in> pending - blocked. signal_no s \<le> signal_no t)"
    by (rule get_pending_least [OF m])
  have "sm_pending m AND NOT (sm_blocked m) \<noteq> 0 \<Longrightarrow> \<exists>s. s \<in> pending - blocked"
    using m signal_no_less
    by (auto simp: bit_eq_iff [of _ 0] sig_inv_def sig_sets_def bit_and_iff bit_not_iff)
  then have "has_pending m \<longleftrightarrow> pending - blocked \<noteq> {}"
    using least by (auto simp: has_pending_def get_pending_def Let_def)
  with least show ?thesis by blast
qed

theorem signal_delivery_refines_sets_witness:
  "get_pending (foldl sig_exec sm_new [SendSig User1, SendSig Stop, SendSig Kill, BlockSig Kill])
     \<noteq> None"
proof -
  let ?ops = "[SendSig User1, SendSig Stop, SendSig Kill, BlockSig Kill]"
  have "foldl sig_abs_exec ({}, {}) ?ops = ({User1, Stop, Kill}, {Kill})" by auto
  from signal_delivery_refines_sets [OF this refl] show ?thesis by (auto split: option.splits)
qed

text \<open>
  Reference counting of a shared region: after \<open>n\<close> attaches, exactly the last of
  \<open>n + 1\<close> detaches reports the last reference. One more detach is refused, but leaves the
  counter at its maximum, so that a later detach succeeds on a region already released.
\<close>

theorem shared_memory_detach:
  assumes "shm_new base sz = Ok m" "n + 1 < usize_mod"
  shows "case detach_run (n + 1) (((\<lambda>m. snd (attach m)) ^^ n) m) of (rs, m1) \<Rightarrow>
    rs = replicate n (Ok False) @ [Ok True] \<and> shm_ref_count m1 = 0 \<and>
    fst (detach m1) = Err (InvalidParameter ''Invalid ref count'') \<and>
    shm_ref_count (snd (detach m1)) = usize_max \<and>
    fst (detach (snd (detach m1))) = Ok False"
proof -
  have "shm_ref_count m = 1" using assms(1) by (auto simp: shm_new_def split: if_splits)
  then have "shm_ref_count (((\<lambda>m. snd (attach m)) ^^ n) m) = Suc n"
    using attach_count [of m n] assms(2) by simp
  then show ?thesis
    using detach_run_count [of "((\<lambda>m. snd (attach m)) ^^ n) m" n] assms(2)
    by (simp add: detach_def Let_def usub_wraps [unfolded One_nat_def] usize_max_def del: detach_run.simps)
qed

theorem shared_memory_detach_witness:
  "fst (detach_run 3 (((\<lambda>m. snd (attach m)) ^^ 2)
      \<lparr>shm_base = 0x1000, shm_size = 4096, shm_ref_count = 1\<rparr>)) = [Ok False, Ok False, Ok True]"
proof -
  have "shm_new 0x1000 4096 = Ok \<lparr>shm_base = 0x1000, shm_size = 4096, shm_ref_count = 1\<rparr>"
    by (simp add: shm_new_def MAX_SIZE_def)
  from shared_memory_detach [OF this, of 2] show ?thesis
    by (auto simp: numeral_2_eq_2 numeral_3_eq_3 split: prod.splits)
qed

end
