(* ===== verification/Sync.thy ===== *)
theory Sync
  imports Task
begin

text \<open>
  The locks of \<open>kernel/src/process/sync.rs\<close>: \<open>Spinlock\<close>, \<open>Mutex\<close>, \<open>Semaphore\<close> and
  \<open>RwLock\<close>, as step relations in which every atomic access of every thread is one step, in any
  interleaving. A thread's position in the code is its program counter. The memory orders are
  taken as sequentially consistent; a weak compare-and-exchange may fail spuriously.
\<close>

type_synonym thread = nat

section \<open>Spinlock\<close>

text \<open>\<open>lock\<close> spins on the exchange; \<open>unlock\<close> is called by the thread that holds the lock.\<close>

datatype spin_pc = SpinIdle | SpinLoop | SpinHeld

record Spinlock =
  sl_locked :: bool
  sl_pc :: "thread \<Rightarrow> spin_pc"

definition spinlock_init :: "Spinlock \<Rightarrow> bool" where
  "spinlock_init s \<longleftrightarrow> \<not> sl_locked s \<and> (\<forall>t. sl_pc s t = SpinIdle)"

inductive spinlock_step :: "Spinlock \<Rightarrow> Spinlock \<Rightarrow> bool" where
  spin_lock: "sl_pc s t = SpinIdle \<Longrightarrow> spinlock_step s (s\<lparr>sl_pc := (sl_pc s)(t := SpinLoop)\<rparr>)"
| spin_fail: "sl_pc s t = SpinLoop \<Longrightarrow> spinlock_step s s"
| spin_acquire: "sl_pc s t = SpinLoop \<Longrightarrow> \<not> sl_locked s \<Longrightarrow>
    spinlock_step s (s\<lparr>sl_locked := True, sl_pc := (sl_pc s)(t := SpinHeld)\<rparr>)"
| spin_try_acquire: "sl_pc s t = SpinIdle \<Longrightarrow> \<not> sl_locked s \<Longrightarrow>
    spinlock_step s (s\<lparr>sl_locked := True, sl_pc := (sl_pc s)(t := SpinHeld)\<rparr>)"
| spin_try_fail: "sl_pc s t = SpinIdle \<Longrightarrow> sl_locked s \<Longrightarrow> spinlock_step s s"
| spin_unlock: "sl_pc s t = SpinHeld \<Longrightarrow>
    spinlock_step s (s\<lparr>sl_locked := False, sl_pc := (sl_pc s)(t := SpinIdle)\<rparr>)"

interpretation spin: exclusive_lock spinlock_init spinlock_step sl_locked "\<lambda>s t. sl_pc s t = SpinHeld"
proof unfold_locales
  fix s s1
  show "spinlock_init s \<Longrightarrow> \<not> sl_locked s \<and> sl_pc s t \<noteq> SpinHeld" for t
    by (simp add: spinlock_init_def)
  assume "spinlock_step s s1"
  then show "(\<exists>t. \<not> sl_locked s \<and> sl_locked s1 \<and>
        (\<lambda>u. sl_pc s1 u = SpinHeld) = (\<lambda>u. sl_pc s u = SpinHeld)(t := True)) \<or>
      (\<exists>t. sl_pc s t = SpinHeld \<and> \<not> sl_locked s1 \<and>
        (\<lambda>u. sl_pc s1 u = SpinHeld) = (\<lambda>u. sl_pc s u = SpinHeld)(t := False)) \<or>
      (sl_locked s1 = sl_locked s \<and> (\<lambda>u. sl_pc s1 u = SpinHeld) = (\<lambda>u. sl_pc s u = SpinHeld))"
    by cases (auto simp: fun_eq_iff)
qed

section \<open>Mutex\<close>

text \<open>
  The positions of a thread: outside; in the loop of \<open>lock\<close>; after a successful exchange,
  before the owner and then before the priority is stored; holding the guard; and in
  \<open>unlock\<close> after the owner was cleared. The identifier and priority a thread locks with are
  part of its position.
\<close>

datatype mutex_pc =
    MxIdle
  | MxLoop TaskId Priority
  | MxSetOwner TaskId Priority
  | MxSetPrio TaskId Priority
  | MxHeld TaskId Priority
  | MxUnlock TaskId Priority

record 'a Mutex =
  mx_locked :: bool
  mx_owner :: u64
  mx_original_priority :: u64
  mx_data :: 'a
  mx_pc :: "thread \<Rightarrow> mutex_pc"

definition mutex_new :: "'a \<Rightarrow> 'a Mutex" where
  "mutex_new d = \<lparr>mx_locked = False, mx_owner = 0, mx_original_priority = 255, mx_data = d,
     mx_pc = (\<lambda>_. MxIdle)\<rparr>"

abbreviation mx_goto :: "thread \<Rightarrow> mutex_pc \<Rightarrow> 'a Mutex \<Rightarrow> 'a Mutex" where
  "mx_goto t p s \<equiv> s\<lparr>mx_pc := (mx_pc s)(t := p)\<rparr>"

inductive mutex_step :: "'a Mutex \<Rightarrow> 'a Mutex \<Rightarrow> bool" where
  mx_lock: "mx_pc s t = MxIdle \<Longrightarrow> mutex_step s (mx_goto t (MxLoop i p) s)"
| mx_acquire: "mx_pc s t = MxLoop i p \<Longrightarrow> \<not> mx_locked s \<Longrightarrow>
    mutex_step s (mx_goto t (MxSetOwner i p) (s\<lparr>mx_locked := True\<rparr>))"
| mx_spin: "mx_pc s t = MxLoop i p \<Longrightarrow> mutex_step s s"
| mx_set_owner: "mx_pc s t = MxSetOwner i p \<Longrightarrow>
    mutex_step s (mx_goto t (MxSetPrio i p) (s\<lparr>mx_owner := task_id_as_u64 i\<rparr>))"
| mx_set_prio: "mx_pc s t = MxSetPrio i p \<Longrightarrow>
    mutex_step s (mx_goto t (MxHeld i p) (s\<lparr>mx_original_priority := ucast (priority_as_u8 p)\<rparr>))"
| mx_try_ok: "mx_pc s t = MxIdle \<Longrightarrow> \<not> mx_locked s \<Longrightarrow>
    mutex_step s (mx_goto t (MxSetOwner i p) (s\<lparr>mx_locked := True\<rparr>))"
| mx_try_fail: "mx_pc s t = MxIdle \<Longrightarrow> mx_locked s \<Longrightarrow> mutex_step s s"
| mx_write: "mx_pc s t = MxHeld i p \<Longrightarrow> mutex_step s (s\<lparr>mx_data := d\<rparr>)"
| mx_clear_owner: "mx_pc s t = MxHeld i p \<Longrightarrow>
    mutex_step s (mx_goto t (MxUnlock i p) (s\<lparr>mx_owner := 0\<rparr>))"
| mx_unlock: "mx_pc s t = MxUnlock i p \<Longrightarrow>
    mutex_step s (mx_goto t MxIdle (s\<lparr>mx_locked := False\<rparr>))"

fun mx_inside :: "mutex_pc \<Rightarrow> bool" where
  "mx_inside MxIdle = False"
| "mx_inside (MxLoop i p) = False"
| "mx_inside _ = True"

definition mutex_init :: "'a Mutex \<Rightarrow> bool" where
  "mutex_init s \<longleftrightarrow> (\<exists>d. s = mutex_new d)"

interpretation mutex: exclusive_lock mutex_init mutex_step mx_locked "\<lambda>s t. mx_inside (mx_pc s t)"
proof unfold_locales
  fix s s1 :: "'a Mutex"
  show "mutex_init s \<Longrightarrow> \<not> mx_locked s \<and> \<not> mx_inside (mx_pc s t)" for t
    by (auto simp: mutex_init_def mutex_new_def)
  assume "mutex_step s s1"
  then show "(\<exists>t. \<not> mx_locked s \<and> mx_locked s1 \<and>
        (\<lambda>u. mx_inside (mx_pc s1 u)) = (\<lambda>u. mx_inside (mx_pc s u))(t := True)) \<or>
      (\<exists>t. mx_inside (mx_pc s t) \<and> \<not> mx_locked s1 \<and>
        (\<lambda>u. mx_inside (mx_pc s1 u)) = (\<lambda>u. mx_inside (mx_pc s u))(t := False)) \<or>
      (mx_locked s1 = mx_locked s \<and> (\<lambda>u. mx_inside (mx_pc s1 u)) = (\<lambda>u. mx_inside (mx_pc s u)))"
    by cases (auto simp: fun_eq_iff, metis mx_inside.simps(6))
qed

text \<open>What the holder can rely on: the owner and the saved priority are its own.\<close>

definition holder_fields :: "'a Mutex \<Rightarrow> bool" where
  "holder_fields s \<longleftrightarrow> (\<forall>t i p.
     (mx_pc s t = MxSetPrio i p \<longrightarrow> mx_owner s = task_id_as_u64 i) \<and>
     (mx_pc s t = MxHeld i p \<longrightarrow> mx_owner s = task_id_as_u64 i \<and>
        mx_original_priority s = ucast (priority_as_u8 p)))"

lemma holder_fields_inside:
  assumes inside: "mx_inside (mx_pc s t)"
    and e: "\<And>t u. mx_inside (mx_pc s t) \<Longrightarrow> mx_inside (mx_pc s u) \<Longrightarrow> t = u"
    and p: "\<And>i q. p = MxSetPrio i q \<Longrightarrow> ow = task_id_as_u64 i"
      "\<And>i q. p = MxHeld i q \<Longrightarrow> ow = task_id_as_u64 i \<and> pr = ucast (priority_as_u8 q)"
  shows "holder_fields (mx_goto t p (s\<lparr>mx_locked := l, mx_owner := ow, mx_original_priority := pr\<rparr>))"
proof -
  have "u = t" if "mx_pc s u = MxSetPrio i q \<or> mx_pc s u = MxHeld i q" for u i q
    using e [of u t] inside that by auto
  with p show ?thesis by (auto simp: holder_fields_def)
qed

lemma holder_fields_step:
  assumes h: "holder_fields s" and e: "\<And>t u. mx_inside (mx_pc s t) \<Longrightarrow> mx_inside (mx_pc s u) \<Longrightarrow> t = u"
    and step: "mutex_step s s1"
  shows "holder_fields s1"
  using step
proof (cases rule: mutex_step.cases)
  case (mx_set_owner t i p)
  then show ?thesis
    using holder_fields_inside [of s t "MxSetPrio i p" "task_id_as_u64 i"
        "mx_original_priority s" "mx_locked s", OF _ e] by simp
next
  case (mx_set_prio t i p)
  from this(2) h have ow: "mx_owner s = task_id_as_u64 i" by (auto simp: holder_fields_def)
  have "holder_fields (mx_goto t (MxHeld i p) (s\<lparr>mx_locked := mx_locked s, mx_owner := mx_owner s,
      mx_original_priority := ucast (priority_as_u8 p)\<rparr>))"
    by (rule holder_fields_inside [OF _ e]) (use mx_set_prio ow in auto)
  with mx_set_prio show ?thesis by simp
next
  case (mx_clear_owner t i p)
  then show ?thesis
    using holder_fields_inside [of s t "MxUnlock i p" 0 "mx_original_priority s" "mx_locked s", OF _ e]
    by simp
qed (use h in \<open>auto simp: holder_fields_def\<close>)

lemma reachable_holder_fields: "reachable mutex_init mutex_step s \<Longrightarrow> holder_fields s"
proof (induction rule: reachable.induct)
  case (reach_init s)
  then show ?case by (auto simp: mutex_init_def mutex_new_def holder_fields_def)
next
  case (reach_step s s1)
  then show ?case using holder_fields_step mutex.mutual_exclusion [OF reach_step.hyps(1)] by blast
qed

section \<open>Semaphore\<close>

text \<open>
  Every operation loads the count and then exchanges it against the value loaded. The two last
  fields record how many waits and signals have succeeded.
\<close>

datatype sem_pc =
    SemIdle
  | SemWaitLoad | SemWaitCas usize
  | SemTryCas usize
  | SemSignalLoad | SemSignalCas usize

record Semaphore =
  sem_count :: usize
  sem_max :: usize
  sem_pc :: "thread \<Rightarrow> sem_pc"
  waits_done :: nat
  signals_done :: nat

definition sem_new :: "usize \<Rightarrow> usize \<Rightarrow> Semaphore" where
  "sem_new initial mx = \<lparr>sem_count = initial, sem_max = mx, sem_pc = (\<lambda>_. SemIdle),
     waits_done = 0, signals_done = 0\<rparr>"

abbreviation sem_goto :: "thread \<Rightarrow> sem_pc \<Rightarrow> Semaphore \<Rightarrow> Semaphore" where
  "sem_goto t p s \<equiv> s\<lparr>sem_pc := (sem_pc s)(t := p)\<rparr>"

inductive sem_step :: "Semaphore \<Rightarrow> Semaphore \<Rightarrow> bool" where
  sem_wait: "sem_pc s t = SemIdle \<Longrightarrow> sem_step s (sem_goto t SemWaitLoad s)"
| sem_wait_load: "sem_pc s t = SemWaitLoad \<Longrightarrow> sem_count s > 0 \<Longrightarrow>
    sem_step s (sem_goto t (SemWaitCas (sem_count s)) s)"
| sem_wait_spin: "sem_pc s t = SemWaitLoad \<Longrightarrow> sem_count s = 0 \<Longrightarrow> sem_step s s"
| sem_wait_ok: "sem_pc s t = SemWaitCas c \<Longrightarrow> sem_count s = c \<Longrightarrow>
    sem_step s (sem_goto t SemIdle (s\<lparr>sem_count := usub c 1, waits_done := waits_done s + 1\<rparr>))"
| sem_wait_retry: "sem_pc s t = SemWaitCas c \<Longrightarrow> sem_step s (sem_goto t SemWaitLoad s)"
| sem_try_load: "sem_pc s t = SemIdle \<Longrightarrow> sem_count s > 0 \<Longrightarrow>
    sem_step s (sem_goto t (SemTryCas (sem_count s)) s)"
| sem_try_empty: "sem_pc s t = SemIdle \<Longrightarrow> sem_count s = 0 \<Longrightarrow> sem_step s s"
| sem_try_ok: "sem_pc s t = SemTryCas c \<Longrightarrow> sem_count s = c \<Longrightarrow>
    sem_step s (sem_goto t SemIdle (s\<lparr>sem_count := usub c 1, waits_done := waits_done s + 1\<rparr>))"
| sem_try_fail: "sem_pc s t = SemTryCas c \<Longrightarrow> sem_count s \<noteq> c \<Longrightarrow> sem_step s (sem_goto t SemIdle s)"
| sem_signal: "sem_pc s t = SemIdle \<Longrightarrow> sem_step s (sem_goto t SemSignalLoad s)"
| sem_signal_overflow: "sem_pc s t = SemSignalLoad \<Longrightarrow> sem_count s \<ge> sem_max s \<Longrightarrow>
    sem_step s (sem_goto t SemIdle s)"
| sem_signal_load: "sem_pc s t = SemSignalLoad \<Longrightarrow> sem_count s < sem_max s \<Longrightarrow>
    sem_step s (sem_goto t (SemSignalCas (sem_count s)) s)"
| sem_signal_ok: "sem_pc s t = SemSignalCas c \<Longrightarrow> sem_count s = c \<Longrightarrow>
    sem_step s (sem_goto t SemIdle (s\<lparr>sem_count := uadd c 1, signals_done := signals_done s + 1\<rparr>))"
| sem_signal_retry: "sem_pc s t = SemSignalCas c \<Longrightarrow> sem_step s (sem_goto t SemSignalLoad s)"

definition sem_inv :: "usize \<Rightarrow> usize \<Rightarrow> Semaphore \<Rightarrow> bool" where
  "sem_inv initial mx s \<longleftrightarrow>
     sem_max s = mx \<and> mx < usize_mod \<and> sem_count s \<le> mx \<and>
     sem_count s + waits_done s = initial + signals_done s \<and>
     (\<forall>t c. sem_pc s t = SemWaitCas c \<or> sem_pc s t = SemTryCas c \<longrightarrow> 0 < c) \<and>
     (\<forall>t c. sem_pc s t = SemSignalCas c \<longrightarrow> c < mx)"

lemma sem_take:
  assumes inv: "sem_inv i mx s"
    and pc: "sem_pc s t = SemWaitCas (sem_count s) \<or> sem_pc s t = SemTryCas (sem_count s)"
  obtains k where "sem_count s = Suc k" "usub (Suc k) (Suc 0) = k"
proof -
  have "0 < sem_count s" "sem_count s < usize_mod" using inv pc unfolding sem_inv_def by auto
  then show ?thesis using that [of "sem_count s - 1"] by simp
qed

lemma sem_put:
  assumes inv: "sem_inv i mx s" and pc: "sem_pc s t = SemSignalCas (sem_count s)"
  shows "sem_count s < mx" "uadd (sem_count s) (Suc 0) = Suc (sem_count s)"
proof -
  show "sem_count s < mx" using inv pc unfolding sem_inv_def by blast
  moreover have "mx < usize_mod" using inv by (simp add: sem_inv_def)
  ultimately show "uadd (sem_count s) (Suc 0) = Suc (sem_count s)" by simp
qed

lemma sem_inv_step:
  assumes inv: "sem_inv i mx s" and step: "sem_step s s1"
  shows "sem_inv i mx s1"
  using step
proof cases
  case (sem_wait_ok t c)
  then obtain k where "sem_count s = Suc k" "usub (Suc k) (Suc 0) = k"
    using sem_take [OF inv, of t] by auto
  with inv sem_wait_ok show ?thesis by (auto simp: sem_inv_def split: if_splits)
next
  case (sem_try_ok t c)
  then obtain k where "sem_count s = Suc k" "usub (Suc k) (Suc 0) = k"
    using sem_take [OF inv, of t] by auto
  with inv sem_try_ok show ?thesis by (auto simp: sem_inv_def split: if_splits)
next
  case (sem_signal_ok t c)
  then have "Suc (sem_count s) \<le> mx" "uadd (sem_count s) (Suc 0) = Suc (sem_count s)"
    using sem_put [OF inv, of t] by simp_all
  with inv sem_signal_ok show ?thesis by (simp add: sem_inv_def)
qed (use inv in \<open>auto simp: sem_inv_def split: if_splits\<close>)

section \<open>Reader-writer lock\<close>

datatype rw_pc =
    RwIdle
  | RwCheck | RwIncrement | RwRecheck | RwUndo | RwReading
  | RwSpin | RwDrain | RwWriting

record 'a RwLock =
  rw_readers :: usize
  rw_writer :: bool
  rw_data :: 'a
  rw_pc :: "thread \<Rightarrow> rw_pc"

definition rwlock_new :: "'a \<Rightarrow> 'a RwLock" where
  "rwlock_new d = \<lparr>rw_readers = 0, rw_writer = False, rw_data = d, rw_pc = (\<lambda>_. RwIdle)\<rparr>"

abbreviation rw_goto :: "thread \<Rightarrow> rw_pc \<Rightarrow> 'a RwLock \<Rightarrow> 'a RwLock" where
  "rw_goto t p s \<equiv> s\<lparr>rw_pc := (rw_pc s)(t := p)\<rparr>"

text \<open>The steps of \<open>n\<close> threads. \<open>RwRecheck\<close> is the second load of the writer flag.\<close>

inductive rwlock_step :: "nat \<Rightarrow> 'a RwLock \<Rightarrow> 'a RwLock \<Rightarrow> bool" for n :: nat where
  rw_read: "t < n \<Longrightarrow> rw_pc s t = RwIdle \<Longrightarrow> rwlock_step n s (rw_goto t RwCheck s)"
| rw_read_wait: "rw_pc s t = RwCheck \<Longrightarrow> rw_writer s \<Longrightarrow> rwlock_step n s s"
| rw_read_free: "rw_pc s t = RwCheck \<Longrightarrow> \<not> rw_writer s \<Longrightarrow>
    rwlock_step n s (rw_goto t RwIncrement s)"
| rw_read_increment: "rw_pc s t = RwIncrement \<Longrightarrow>
    rwlock_step n s (rw_goto t RwRecheck (s\<lparr>rw_readers := uadd (rw_readers s) 1\<rparr>))"
| rw_read_ok: "rw_pc s t = RwRecheck \<Longrightarrow> \<not> rw_writer s \<Longrightarrow> rwlock_step n s (rw_goto t RwReading s)"
| rw_read_back: "rw_pc s t = RwRecheck \<Longrightarrow> rw_writer s \<Longrightarrow> rwlock_step n s (rw_goto t RwUndo s)"
| rw_read_undo: "rw_pc s t = RwUndo \<Longrightarrow>
    rwlock_step n s (rw_goto t RwCheck (s\<lparr>rw_readers := usub (rw_readers s) 1\<rparr>))"
| rw_read_drop: "rw_pc s t = RwReading \<Longrightarrow>
    rwlock_step n s (rw_goto t RwIdle (s\<lparr>rw_readers := usub (rw_readers s) 1\<rparr>))"
| rw_write: "t < n \<Longrightarrow> rw_pc s t = RwIdle \<Longrightarrow> rwlock_step n s (rw_goto t RwSpin s)"
| rw_write_spin: "rw_pc s t = RwSpin \<Longrightarrow> rwlock_step n s s"
| rw_write_flag: "rw_pc s t = RwSpin \<Longrightarrow> \<not> rw_writer s \<Longrightarrow>
    rwlock_step n s (rw_goto t RwDrain (s\<lparr>rw_writer := True\<rparr>))"
| rw_write_wait: "rw_pc s t = RwDrain \<Longrightarrow> rw_readers s > 0 \<Longrightarrow> rwlock_step n s s"
| rw_write_ok: "rw_pc s t = RwDrain \<Longrightarrow> rw_readers s = 0 \<Longrightarrow>
    rwlock_step n s (rw_goto t RwWriting s)"
| rw_write_data: "rw_pc s t = RwWriting \<Longrightarrow> rwlock_step n s (s\<lparr>rw_data := d\<rparr>)"
| rw_write_drop: "rw_pc s t = RwWriting \<Longrightarrow>
    rwlock_step n s (rw_goto t RwIdle (s\<lparr>rw_writer := False\<rparr>))"

inductive_cases rwlock_stepE: "rwlock_step n s s1"

definition rwlock_init :: "'a RwLock \<Rightarrow> bool" where
  "rwlock_init s \<longleftrightarrow> (\<exists>d. s = rwlock_new d)"

definition rw_exclusive_pc :: "rw_pc \<Rightarrow> bool" where
  "rw_exclusive_pc p \<longleftrightarrow> p = RwDrain \<or> p = RwWriting"

definition rw_counted_pc :: "rw_pc \<Rightarrow> bool" where
  "rw_counted_pc p \<longleftrightarrow> p = RwRecheck \<or> p = RwUndo \<or> p = RwReading"

interpretation rw: exclusive_lock rwlock_init "rwlock_step n" rw_writer
  "\<lambda>s t. rw_exclusive_pc (rw_pc s t)" for n
proof unfold_locales
  fix s s1 :: "'a RwLock"
  show "rwlock_init s \<Longrightarrow> \<not> rw_writer s \<and> \<not> rw_exclusive_pc (rw_pc s t)" for t
    by (auto simp: rwlock_init_def rwlock_new_def rw_exclusive_pc_def)
  assume "rwlock_step n s s1"
  then show "(\<exists>t. \<not> rw_writer s \<and> rw_writer s1 \<and>
        (\<lambda>u. rw_exclusive_pc (rw_pc s1 u)) = (\<lambda>u. rw_exclusive_pc (rw_pc s u))(t := True)) \<or>
      (\<exists>t. rw_exclusive_pc (rw_pc s t) \<and> \<not> rw_writer s1 \<and>
        (\<lambda>u. rw_exclusive_pc (rw_pc s1 u)) = (\<lambda>u. rw_exclusive_pc (rw_pc s u))(t := False)) \<or>
      (rw_writer s1 = rw_writer s \<and>
        (\<lambda>u. rw_exclusive_pc (rw_pc s1 u)) = (\<lambda>u. rw_exclusive_pc (rw_pc s u)))"
    by cases (auto simp: fun_eq_iff rw_exclusive_pc_def)
qed

definition rw_counted :: "nat \<Rightarrow> (thread \<Rightarrow> rw_pc) \<Rightarrow> nat" where
  "rw_counted n pc = card {t. t < n \<and> rw_counted_pc (pc t)}"

lemma rw_counted_goto:
  assumes "t < n"
  shows "\<not> rw_counted_pc (pc t) \<Longrightarrow> rw_counted_pc p \<Longrightarrow> rw_counted n (pc(t := p)) = Suc (rw_counted n pc)"
    and "rw_counted_pc (pc t) \<Longrightarrow> \<not> rw_counted_pc p \<Longrightarrow> Suc (rw_counted n (pc(t := p))) = rw_counted n pc"
    and "rw_counted_pc (pc t) = rw_counted_pc p \<Longrightarrow> rw_counted n (pc(t := p)) = rw_counted n pc"
proof -
  let ?S = "{u. u < n \<and> rw_counted_pc (pc u)}"
  { assume "\<not> rw_counted_pc (pc t)" "rw_counted_pc p"
    then have "{u. u < n \<and> rw_counted_pc ((pc(t := p)) u)} = insert t ?S" "t \<notin> ?S"
      using assms by auto
    then show "rw_counted n (pc(t := p)) = Suc (rw_counted n pc)" by (simp add: rw_counted_def) }
  { assume "rw_counted_pc (pc t)" "\<not> rw_counted_pc p"
    then have "{u. u < n \<and> rw_counted_pc ((pc(t := p)) u)} = ?S - {t}" "t \<in> ?S"
      using assms by auto
    then show "Suc (rw_counted n (pc(t := p))) = rw_counted n pc"
      using card_Suc_Diff1 [of ?S t] by (simp add: rw_counted_def) }
  { assume "rw_counted_pc (pc t) = rw_counted_pc p"
    then have "{u. u < n \<and> rw_counted_pc ((pc(t := p)) u)} = ?S" by auto
    then show "rw_counted n (pc(t := p)) = rw_counted n pc" by (simp add: rw_counted_def) }
qed

definition rw_inv :: "nat \<Rightarrow> 'a RwLock \<Rightarrow> bool" where
  "rw_inv n s \<longleftrightarrow>
     rw_readers s = rw_counted n (rw_pc s) \<and> (\<forall>t. n \<le> t \<longrightarrow> rw_pc s t = RwIdle) \<and>
     (\<forall>t u. rw_pc s t = RwWriting \<longrightarrow> rw_pc s u \<noteq> RwReading)"

lemma rw_inv_writer [simp]:
  "rw_inv n (s\<lparr>rw_writer := f, rw_pc := g\<rparr>) = rw_inv n (s\<lparr>rw_pc := g\<rparr>)"
  by (simp add: rw_inv_def)

lemma rw_counted_le: "rw_counted n pc \<le> n"
proof -
  have "rw_counted n pc \<le> card {..<n}" unfolding rw_counted_def by (rule card_mono) auto
  then show ?thesis by simp
qed

lemma rw_counted_pos: "t < n \<Longrightarrow> rw_counted_pc (pc t) \<Longrightarrow> 0 < rw_counted n pc"
  unfolding rw_counted_def by (subst card_gt_0_iff) auto

lemma rw_busy_less: "rw_inv n s \<Longrightarrow> rw_pc s t \<noteq> RwIdle \<Longrightarrow> t < n"
  by (auto simp: rw_inv_def not_le [symmetric])

text \<open>A step of thread \<open>t\<close> that leaves the counter in step with the counted positions.\<close>

lemma rw_inv_goto:
  assumes inv: "rw_inv n s" and t: "t < n"
    and r: "int r = int (rw_readers s) + of_bool (rw_counted_pc p) - of_bool (rw_counted_pc (rw_pc s t))"
    and w: "\<And>u. p = RwWriting \<Longrightarrow> rw_pc s u \<noteq> RwReading"
      "\<And>u. p = RwReading \<Longrightarrow> rw_pc s u \<noteq> RwWriting"
  shows "rw_inv n (rw_goto t p (s\<lparr>rw_readers := r, rw_writer := f\<rparr>))"
proof -
  have "r = rw_counted n ((rw_pc s)(t := p))"
    using r rw_counted_goto [OF t, of "rw_pc s" p] inv
    by (cases "rw_counted_pc p"; cases "rw_counted_pc (rw_pc s t)") (auto simp: rw_inv_def)
  with inv t w show ?thesis by (auto simp: rw_inv_def)
qed

lemma rw_inv_step:
  assumes inv: "rw_inv n s" and n: "n < usize_mod"
    and ex: "rw.exclusive s" and step: "rwlock_step n s s1"
  shows "rw_inv n s1"
proof -
  have self: "s\<lparr>rw_readers := rw_readers s, rw_writer := rw_writer s\<rparr> = s" by simp
  note go = rw_inv_goto [OF inv]
  note busy = rw_busy_less [OF inv]
  have le: "rw_readers s \<le> n" using inv rw_counted_le [of n "rw_pc s"] by (simp add: rw_inv_def)
  have pos: "0 < rw_readers s" if "rw_counted_pc (rw_pc s t)" for t
    using that inv rw_counted_pos [of t n "rw_pc s"] busy [of t]
    by (auto simp: rw_inv_def rw_counted_pc_def)
  have down: "usub (rw_readers s) 1 = rw_readers s - 1" if "rw_counted_pc (rw_pc s t)" for t
    using pos [OF that] le n by simp
  from step show ?thesis
  proof cases
    case (rw_read_increment t)
    have "rw_counted n (rw_pc s) < n"
    proof -
      have "t < n" "\<not> rw_counted_pc (rw_pc s t)"
        using busy [of t] rw_read_increment by (simp_all add: rw_counted_pc_def)
      then have "{u. u < n \<and> rw_counted_pc (rw_pc s u)} \<subset> {..<n}" by blast
      then show ?thesis unfolding rw_counted_def using psubset_card_mono [of "{..<n}"] by simp
    qed
    then have "uadd (rw_readers s) 1 = rw_readers s + 1" using inv n by (simp add: rw_inv_def)
    with rw_read_increment show ?thesis
      using go [of t "rw_readers s + 1" RwRecheck "rw_writer s"] busy [of t]
      by (simp add: rw_counted_pc_def)
  next
    case (rw_read_undo t)
    then show ?thesis
      using go [of t "rw_readers s - 1" RwCheck "rw_writer s"] busy [of t] pos [of t] down [of t]
      by (simp add: rw_counted_pc_def)
  next
    case (rw_read_drop t)
    then show ?thesis
      using go [of t "rw_readers s - 1" RwIdle "rw_writer s"] busy [of t] pos [of t] down [of t]
      by (simp add: rw_counted_pc_def)
  next
    case (rw_read_ok t)
    have "rw_pc s u \<noteq> RwWriting" for u
      using ex [unfolded rw.exclusive_def] rw_read_ok by (auto simp: rw_exclusive_pc_def)
    with rw_read_ok show ?thesis
      using go [of t "rw_readers s" RwReading "rw_writer s"] busy [of t]
      by (simp add: rw_counted_pc_def)
  next
    case (rw_write_ok t)
    have "rw_pc s u \<noteq> RwReading" for u
      using pos [of u] rw_write_ok by (auto simp: rw_counted_pc_def)
    moreover have "t < n" using busy [of t] rw_write_ok(2) by simp
    ultimately show ?thesis
      using inv rw_write_ok rw_counted_goto(3) [of t n "rw_pc s" RwWriting]
      by (auto simp: rw_inv_def rw_counted_pc_def)
  next
    case (rw_write_flag t)
    then show ?thesis
      using go [of t "rw_readers s" RwDrain True] busy [of t] by (simp add: rw_counted_pc_def)
  next
    case (rw_write_drop t)
    then show ?thesis
      using go [of t "rw_readers s" RwIdle False] busy [of t] by (simp add: rw_counted_pc_def)
  next
    case (rw_read t)
    then show ?thesis
      using go [of t "rw_readers s" RwCheck "rw_writer s"] by (simp add: rw_counted_pc_def)
  next
    case (rw_read_free t)
    then show ?thesis
      using go [of t "rw_readers s" RwIncrement "rw_writer s"] busy [of t]
      by (simp add: rw_counted_pc_def)
  next
    case (rw_read_back t)
    then show ?thesis
      using go [of t "rw_readers s" RwUndo "rw_writer s"] busy [of t]
      by (simp add: rw_counted_pc_def)
  next
    case (rw_write t)
    then show ?thesis
      using go [of t "rw_readers s" RwSpin "rw_writer s"] by (simp add: rw_counted_pc_def)
  next
    case (rw_write_data t d)
    with inv show ?thesis by (simp add: rw_inv_def)
  qed (use inv in simp_all)
qed

lemma rw_reachable_inv:
  assumes "reachable rwlock_init (rwlock_step n) s" "n < usize_mod"
  shows "rw_inv n s"
  using assms(1)
proof (induction rule: reachable.induct)
  case (reach_init s)
  then show ?case
    by (auto simp: rwlock_init_def rwlock_new_def rw_inv_def rw_counted_def rw_counted_pc_def)
next
  case (reach_step s s1)
  then show ?case
    using rw_inv_step [OF _ assms(2)] rw.reachable_exclusive [OF reach_step.hyps(1)] by blast
qed

section \<open>Properties\<close>

text \<open>
  C9 (safety). Mutual exclusion of the mutex: in every reachable state at most one thread is
  between its successful exchange and the final store of \<open>unlock\<close>, the lock word is set exactly
  when some thread is there, and while a thread holds the guard the owner and the saved priority
  are those it locked with.
\<close>

theorem mutex_exclusion:
  assumes "reachable mutex_init mutex_step s"
  shows "(mx_inside (mx_pc s t) \<and> mx_inside (mx_pc s u) \<longrightarrow> t = u) \<and>
         (mx_locked s \<longleftrightarrow> (\<exists>t. mx_inside (mx_pc s t))) \<and>
         (mx_pc s t = MxHeld i p \<longrightarrow>
            mx_owner s = task_id_as_u64 i \<and> mx_original_priority s = ucast (priority_as_u8 p))"
  using mutex.mutual_exclusion [OF assms] mutex.taken_iff [OF assms]
    reachable_holder_fields [OF assms]
  by (auto simp: holder_fields_def)

text \<open>A run of one thread through \<open>lock\<close>, with the data left as it was.\<close>

definition example_held :: "nat Mutex" where
  "example_held = mx_goto 4 (MxHeld (TaskId 9) NORMAL)
     ((mutex_new 0)\<lparr>mx_locked := True, mx_owner := 9, mx_original_priority := 128\<rparr>)"

lemma example_held_reachable: "reachable mutex_init mutex_step example_held"
proof -
  let ?s0 = "mutex_new (0 :: nat)"
  let ?s1 = "mx_goto 4 (MxSetOwner (TaskId 9) NORMAL) (?s0\<lparr>mx_locked := True\<rparr>)"
  let ?s2 = "mx_goto 4 (MxSetPrio (TaskId 9) NORMAL) (?s1\<lparr>mx_owner := task_id_as_u64 (TaskId 9)\<rparr>)"
  let ?s3 = "mx_goto 4 (MxHeld (TaskId 9) NORMAL)
    (?s2\<lparr>mx_original_priority := ucast (priority_as_u8 NORMAL)\<rparr>)"
  have "mutex_step ?s0 ?s1" by (rule mx_try_ok) (simp_all add: mutex_new_def)
  moreover have "mutex_step ?s1 ?s2" by (rule mx_set_owner) simp
  moreover have "mutex_step ?s2 ?s3" by (rule mx_set_prio) simp
  moreover have "mutex_init ?s0" by (auto simp: mutex_init_def)
  ultimately have "reachable mutex_init mutex_step ?s3" by (blast intro: reachable.intros)
  moreover have "?s3 = example_held"
    by (simp add: example_held_def NORMAL_def mutex_new_def)
  ultimately show ?thesis by simp
qed

theorem mutex_exclusion_witness:
  "mx_owner example_held = 9 \<and> \<not> mx_inside (mx_pc example_held 5)"
proof -
  have pc: "mx_pc example_held 4 = MxHeld (TaskId 9) NORMAL" by (simp add: example_held_def)
  show ?thesis
    using mutex_exclusion [OF example_held_reachable, of 4 5 "TaskId 9" NORMAL] pc by auto
qed

text \<open>
  C10 (safety). Reader-writer exclusion, for any interleaving of up to \<open>n\<close> threads: a thread
  that holds the write guard excludes every other writer and every reader; and the reader
  counter is the number of threads that hold the read guard or are about to take or undo their
  increment.
\<close>

theorem rwlock_exclusion:
  assumes "reachable rwlock_init (rwlock_step n) s" "n < usize_mod"
  shows "(rw_pc s t = RwWriting \<longrightarrow> rw_pc s u = RwReading \<or> rw_pc s u = RwWriting \<longrightarrow> u = t \<and> rw_pc s u = RwWriting) \<and>
         rw_readers s = card {t. t < n \<and> rw_pc s t \<in> {RwRecheck, RwUndo, RwReading}}"
proof -
  have inv: "rw_inv n s" by (rule rw_reachable_inv [OF assms])
  have "rw_pc s t = RwWriting \<Longrightarrow> rw_pc s u = RwWriting \<Longrightarrow> u = t"
    using rw.mutual_exclusion [OF assms(1), of u t] by (simp add: rw_exclusive_pc_def)
  with inv show ?thesis
    by (auto simp: rw_inv_def rw_counted_def rw_counted_pc_def)
qed

theorem rwlock_exclusion_witness:
  "rw_readers (rw_goto 1 RwRecheck ((rwlock_new (0 :: nat))\<lparr>rw_readers := 1\<rparr>))
     = card {t. t < 3 \<and> rw_pc (rw_goto 1 RwRecheck ((rwlock_new (0 :: nat))\<lparr>rw_readers := 1\<rparr>)) t
                 \<in> {RwRecheck, RwUndo, RwReading}}"
proof -
  let ?s0 = "rwlock_new (0 :: nat)"
  let ?s3 = "rw_goto 1 RwRecheck (?s0\<lparr>rw_readers := 1\<rparr>)"
  have "rwlock_step 3 ?s0 (rw_goto 1 RwCheck ?s0)" by (rule rw_read) (simp_all add: rwlock_new_def)
  moreover have "rwlock_step 3 (rw_goto 1 RwCheck ?s0) (rw_goto 1 RwIncrement ?s0)"
    using rw_read_free [of "rw_goto 1 RwCheck ?s0" 1 3] by (simp add: rwlock_new_def)
  moreover have "rwlock_step 3 (rw_goto 1 RwIncrement ?s0) ?s3"
    using rw_read_increment [of "rw_goto 1 RwIncrement ?s0" 1 3] by (simp add: rwlock_new_def)
  moreover have "rwlock_init ?s0" by (auto simp: rwlock_init_def)
  ultimately have "reachable rwlock_init (rwlock_step 3) ?s3" by (blast intro: reachable.intros)
  from rwlock_exclusion [OF this] show ?thesis by simp
qed

text \<open>
  For any interleaving of waits and signals on a semaphore created with
  \<open>initial\<close> at most \<open>mx\<close>, the count never leaves \<open>0..mx\<close> and equals the initial count plus
  the successful signals minus the successful waits.
\<close>

theorem semaphore_conservation:
  assumes "initial \<le> mx" "mx < usize_mod" "reachable (\<lambda>s. s = sem_new initial mx) sem_step s"
  shows "sem_count s \<le> mx \<and> waits_done s \<le> initial + signals_done s \<and>
         sem_count s = initial + signals_done s - waits_done s"
proof -
  have "sem_inv initial mx s"
    using assms(3)
  proof (induction rule: reachable.induct)
    case (reach_init s)
    with assms(1,2) show ?case by (simp add: sem_inv_def sem_new_def)
  qed (rule sem_inv_step)
  then show ?thesis by (auto simp: sem_inv_def)
qed

theorem semaphore_conservation_witness:
  "\<exists>s. reachable (\<lambda>s. s = sem_new 1 2) sem_step s \<and> waits_done s = 1 \<and> sem_count s = 0"
proof -
  let ?s0 = "sem_new 1 2"
  let ?s2 = "sem_goto 0 SemIdle (?s0\<lparr>sem_count := usub 1 1, waits_done := 1\<rparr>)"
  have "sem_step ?s0 (sem_goto 0 (SemTryCas 1) ?s0)"
    using sem_try_load [of ?s0 0] by (simp add: sem_new_def)
  moreover have "sem_step (sem_goto 0 (SemTryCas 1) ?s0) ?s2"
    using sem_try_ok [of "sem_goto 0 (SemTryCas 1) ?s0" 0 1] by (simp add: sem_new_def)
  ultimately have r: "reachable (\<lambda>s. s = sem_new 1 2) sem_step ?s2"
    by (blast intro: reachable.intros)
  have w: "waits_done ?s2 = 1" "signals_done ?s2 = 0" by (simp_all add: sem_new_def)
  have "sem_count ?s2 = 1 + signals_done ?s2 - waits_done ?s2"
    using semaphore_conservation [OF _ _ r] by simp
  with r w show ?thesis by (intro exI [of _ ?s2]) simp
qed

end
