(* ===== verification/Capabilities.thy ===== *)
theory Capabilities
  imports Task
begin

text \<open>
  Capabilities, \<open>kernel/src/capabilities.rs\<close>: rights as bit sets, the 64 slots of a task's
  capability space, grants, and the permission checks of IPC. The system of all tasks passes
  capabilities on by \<open>grant\<close> and \<open>insert\<close>; that this never creates authority is the main
  result.
\<close>

section \<open>Rights\<close>

datatype Rights = Rights u32

fun rights_bits :: "Rights \<Rightarrow> u32" where "rights_bits (Rights r) = r"

definition R_NONE :: Rights where "R_NONE = Rights 0"
definition R_SEND :: Rights where "R_SEND = Rights (push_bit 0 1)"
definition R_RECEIVE :: Rights where "R_RECEIVE = Rights (push_bit 1 1)"
definition R_GRANT :: Rights where "R_GRANT = Rights (push_bit 2 1)"
definition R_MAP :: Rights where "R_MAP = Rights (push_bit 3 1)"
definition R_SIGNAL :: Rights where "R_SIGNAL = Rights (push_bit 4 1)"
definition R_CREATE_CHILD :: Rights where "R_CREATE_CHILD = Rights (push_bit 5 1)"
definition R_DESTROY :: Rights where "R_DESTROY = Rights (push_bit 6 1)"
definition R_ALL :: Rights where "R_ALL = Rights 0x7F"

lemmas rights_defs = R_NONE_def R_SEND_def R_RECEIVE_def R_GRANT_def R_MAP_def R_SIGNAL_def
  R_CREATE_CHILD_def R_DESTROY_def R_ALL_def

fun rights_contains :: "Rights \<Rightarrow> Rights \<Rightarrow> bool" where
  "rights_contains (Rights r) (Rights other) \<longleftrightarrow> r AND other = other"

fun rights_union :: "Rights \<Rightarrow> Rights \<Rightarrow> Rights" where
  "rights_union (Rights r) (Rights other) = Rights (r OR other)"

fun rights_intersect :: "Rights \<Rightarrow> Rights \<Rightarrow> Rights" where
  "rights_intersect (Rights r) (Rights other) = Rights (r AND other)"

fun rights_restrict :: "Rights \<Rightarrow> Rights \<Rightarrow> Rights" where
  "rights_restrict (Rights r) (Rights m) = Rights (r AND m)"

section \<open>Capability spaces\<close>

record Capability =
  object_id :: u64
  cap_rights :: Rights
  cap_owner :: TaskId
  generation :: u32

definition MAX_CAPS_PER_TASK :: usize where "MAX_CAPS_PER_TASK = 64"

record CapabilitySpace =
  caps :: "Capability option list"
  space_owner :: TaskId

definition space_new :: "TaskId \<Rightarrow> CapabilitySpace" where
  "space_new own = \<lparr>caps = replicate MAX_CAPS_PER_TASK None, space_owner = own\<rparr>"

definition cap_insert :: "CapabilitySpace \<Rightarrow> Capability \<Rightarrow> usize kresult \<times> CapabilitySpace" where
  "cap_insert s cap =
     (if cap_owner cap \<noteq> space_owner s then (Err (Security SecAccessDenied), s)
      else let i = find_from (\<lambda>i. caps s ! i = None) 0 (length (caps s))
           in if i < length (caps s) then (Ok i, s\<lparr>caps := (caps s)[i := Some cap]\<rparr>)
              else (Err ResourceExhausted, s))"

definition cap_get :: "CapabilitySpace \<Rightarrow> usize \<Rightarrow> Capability option" where
  "cap_get s slot = (if slot < length (caps s) then caps s ! slot else None)"

definition cap_remove :: "CapabilitySpace \<Rightarrow> usize \<Rightarrow> Capability option \<times> CapabilitySpace" where
  "cap_remove s slot =
     (if slot < length (caps s) then (caps s ! slot, s\<lparr>caps := (caps s)[slot := None]\<rparr>)
      else (None, s))"

definition has_rights :: "CapabilitySpace \<Rightarrow> u64 \<Rightarrow> Rights \<Rightarrow> bool" where
  "has_rights s obj required =
     list_ex (\<lambda>slot. case slot of None \<Rightarrow> False
        | Some cap \<Rightarrow> object_id cap = obj \<and> rights_contains (cap_rights cap) required) (caps s)"

definition grant :: "CapabilitySpace \<Rightarrow> usize \<Rightarrow> TaskId \<Rightarrow> Rights \<Rightarrow> Capability kresult" where
  "grant s slot target restricted =
     (case cap_get s slot of
        None \<Rightarrow> Err NotFound
      | Some cap \<Rightarrow>
          if \<not> rights_contains (cap_rights cap) R_GRANT then Err (Security SecPermissionDenied)
          else Ok \<lparr>object_id = object_id cap,
                   cap_rights = rights_intersect (cap_rights cap) restricted,
                   cap_owner = target, generation = generation cap\<rparr>)"

definition cap_count :: "CapabilitySpace \<Rightarrow> usize" where
  "cap_count s = length (filter (\<lambda>c. c \<noteq> None) (caps s))"

definition check_send_permission :: "CapabilitySpace \<Rightarrow> u64 \<Rightarrow> unit kresult" where
  "check_send_permission s channel =
     (if has_rights s channel R_SEND then Ok () else Err (Security SecPermissionDenied))"

definition check_receive_permission :: "CapabilitySpace \<Rightarrow> u64 \<Rightarrow> unit kresult" where
  "check_receive_permission s channel =
     (if has_rights s channel R_RECEIVE then Ok () else Err (Security SecPermissionDenied))"

section \<open>The system of capability spaces\<close>

text \<open>
  Any sequence of calls on the spaces of any tasks. A capability is a plain value with public
  fields: \<open>insert\<close> takes every value whose owner is the space's, whoever built it. A granted
  capability is such a value too; it is kept until it is inserted, once, several times or never,
  and the space it came from may have dropped its own by then.
\<close>

type_synonym cap_system = "TaskId \<Rightarrow> CapabilitySpace"

datatype cap_op =
    InsertNew TaskId Capability
  | Grant TaskId usize TaskId Rights
  | InsertGranted TaskId nat
  | Remove TaskId usize

fun cap_exec :: "cap_op \<Rightarrow> cap_system \<times> Capability list \<Rightarrow> cap_system \<times> Capability list" where
  "cap_exec (InsertNew t cap) (sys, granted) = (sys(t := snd (cap_insert (sys t) cap)), granted)"
| "cap_exec (Grant t slot target restricted) (sys, granted) =
     (case grant (sys t) slot target restricted of
        Ok cap \<Rightarrow> (sys, granted @ [cap])
      | _ \<Rightarrow> (sys, granted))"
| "cap_exec (InsertGranted t i) (sys, granted) =
     (if i < length granted then (sys(t := snd (cap_insert (sys t) (granted ! i))), granted)
      else (sys, granted))"
| "cap_exec (Remove t slot) (sys, granted) = (sys(t := snd (cap_remove (sys t) slot)), granted)"

definition cap_run :: "cap_op list \<Rightarrow> cap_system \<Rightarrow> cap_system \<times> Capability list" where
  "cap_run ops sys0 = foldl (\<lambda>s op. cap_exec op s) (sys0, []) ops"

definition holds_cap :: "CapabilitySpace \<Rightarrow> Capability \<Rightarrow> bool" where
  "holds_cap s cap \<longleftrightarrow> Some cap \<in> set (caps s)"

text \<open>
  The capabilities that come from outside: those a task held at the start, and those inserted into
  its space, with its own name as the owner, that no grant made.
\<close>

definition cap_source :: "cap_system \<Rightarrow> cap_op list \<Rightarrow> TaskId \<Rightarrow> Capability \<Rightarrow> bool" where
  "cap_source sys0 ops t cap \<longleftrightarrow> holds_cap (sys0 t) cap \<or>
     (InsertNew t cap \<in> set ops \<and> cap_owner cap = space_owner (sys0 t))"

text \<open>A capability comes by grants from one from outside that may be granted and has its rights.\<close>

definition granted_from :: "cap_system \<Rightarrow> cap_op list \<Rightarrow> Capability \<Rightarrow> bool" where
  "granted_from sys0 ops cap \<longleftrightarrow> (\<exists>u cap0. cap_source sys0 ops u cap0 \<and>
     object_id cap0 = object_id cap \<and> rights_contains (cap_rights cap0) (cap_rights cap) \<and>
     rights_contains (cap_rights cap0) R_GRANT)"

definition authority_inv :: "cap_system \<Rightarrow> cap_op list \<Rightarrow> cap_system \<times> Capability list \<Rightarrow> bool" where
  "authority_inv sys0 ops = (\<lambda>(sys, granted).
     (\<forall>t. space_owner (sys t) = space_owner (sys0 t)) \<and>
     (\<forall>t cap. holds_cap (sys t) cap \<longrightarrow> cap_source sys0 ops t cap \<or> granted_from sys0 ops cap) \<and>
     (\<forall>cap \<in> set granted. granted_from sys0 ops cap))"

lemma rights_contains_bits:
  "rights_contains r s \<longleftrightarrow> (\<forall>n. bit (rights_bits s) n \<longrightarrow> bit (rights_bits r) n)"
proof (cases r; cases s)
  fix x y
  assume r: "r = Rights x" "s = Rights y"
  have "bit x n" if "x AND y = y" "bit y n" for n
  proof -
    have "bit (x AND y) n" using that by simp
    then show ?thesis by (simp add: bit_and_iff)
  qed
  moreover have "x AND y = y" if "\<And>n. bit y n \<Longrightarrow> bit x n"
    by (rule bit_word_eqI) (use that in \<open>auto simp: bit_and_iff\<close>)
  ultimately show ?thesis using r by auto
qed

lemma rights_contains_trans: "rights_contains r s \<Longrightarrow> rights_contains s t \<Longrightarrow> rights_contains r t"
  by (auto simp: rights_contains_bits)

lemma rights_contains_refl [simp]: "rights_contains r r"
  by (simp add: rights_contains_bits)

lemma rights_contains_intersect [simp]: "rights_contains r (rights_intersect r s)"
  by (cases r; cases s) (simp add: rights_contains_bits bit_and_iff)

lemma has_rights_iff:
  "has_rights s obj r \<longleftrightarrow>
     (\<exists>cap. holds_cap s cap \<and> object_id cap = obj \<and> rights_contains (cap_rights cap) r)"
  by (force simp: has_rights_def holds_cap_def list_ex_iff split: option.splits)

lemma cap_get_holds: "cap_get s slot = Some cap \<Longrightarrow> holds_cap s cap"
  by (auto simp: cap_get_def holds_cap_def split: if_splits) (metis nth_mem)

lemma cap_insert_holds:
  "holds_cap (snd (cap_insert s cap)) c \<Longrightarrow> (c = cap \<and> cap_owner cap = space_owner s) \<or> holds_cap s c"
  using set_update_subset_insert [of "caps s" _ "Some cap"]
  by (fastforce simp: cap_insert_def holds_cap_def Let_def split: if_splits)

lemma cap_remove_holds: "holds_cap (snd (cap_remove s slot)) c \<Longrightarrow> holds_cap s c"
  using set_update_subset_insert [of "caps s" slot None]
  by (fastforce simp: cap_remove_def holds_cap_def split: if_splits)

lemma space_owner_kept [simp]:
  "space_owner (snd (cap_insert s cap)) = space_owner s"
  "space_owner (snd (cap_remove s slot)) = space_owner s"
  by (simp_all add: cap_insert_def cap_remove_def Let_def)

lemma cap_source_mono: "cap_source sys0 ops t cap \<Longrightarrow> cap_source sys0 (ops @ later) t cap"
  by (auto simp: cap_source_def)

lemma granted_from_mono: "granted_from sys0 ops cap \<Longrightarrow> granted_from sys0 (ops @ later) cap"
  using cap_source_mono by (fastforce simp: granted_from_def)

lemma authority_inv_mono: "authority_inv sys0 ops s \<Longrightarrow> authority_inv sys0 (ops @ later) s"
  using cap_source_mono granted_from_mono unfolding authority_inv_def by (fastforce split: prod.splits)

text \<open>A grant needs the right to grant, and passes on at most the rights it was made from.\<close>

lemma grant_ok:
  assumes "grant s slot target restricted = Ok cap"
  obtains cap0 where "holds_cap s cap0" "object_id cap0 = object_id cap"
    "rights_contains (cap_rights cap0) (cap_rights cap)" "rights_contains (cap_rights cap0) R_GRANT"
  using assms by (auto simp: grant_def dest: cap_get_holds split: option.splits if_splits)

lemma grant_authority:
  assumes inv: "authority_inv sys0 ops (sys, granted)" and g: "grant (sys t) slot target restricted = Ok cap"
  shows "granted_from sys0 ops cap"
proof -
  obtain c where c: "holds_cap (sys t) c" "object_id c = object_id cap"
    "rights_contains (cap_rights c) (cap_rights cap)" "rights_contains (cap_rights c) R_GRANT"
    using g by (rule grant_ok)
  from inv c(1) have "cap_source sys0 ops t c \<or> granted_from sys0 ops c"
    by (simp add: authority_inv_def)
  with c(2-4) show ?thesis unfolding granted_from_def by (metis rights_contains_trans)
qed

lemma cap_exec_authority:
  assumes "authority_inv sys0 ops s"
  shows "authority_inv sys0 (ops @ [op]) (cap_exec op s)"
proof -
  obtain sys granted where s: "s = (sys, granted)" by fastforce
  note inv = authority_inv_mono [OF assms [unfolded s], of "[op]"]
  show ?thesis
  proof (cases op)
    case (InsertNew t cap)
    then have new: "cap_source sys0 (ops @ [op]) t cap" if "cap_owner cap = space_owner (sys t)"
      using that inv by (simp add: cap_source_def authority_inv_def)
    from inv new show ?thesis
      by (auto simp: authority_inv_def InsertNew s dest!: cap_insert_holds split: if_splits)
  next
    case (Grant t slot target restricted)
    with inv grant_authority [OF inv] show ?thesis
      by (auto simp: authority_inv_def s split: outcome.split)
  next
    case (InsertGranted t i)
    then have "granted_from sys0 (ops @ [op]) (granted ! i)" if "i < length granted"
      using inv that by (simp add: authority_inv_def)
    with inv show ?thesis
      by (auto simp: authority_inv_def InsertGranted s dest!: cap_insert_holds split: if_splits)
  next
    case (Remove t slot)
    with inv show ?thesis
      by (auto simp: authority_inv_def s dest!: cap_remove_holds split: if_splits)
  qed
qed

lemma cap_run_authority: "authority_inv sys0 ops (cap_run ops sys0)"
proof (induction ops rule: rev_induct)
  case Nil
  show ?case by (simp add: cap_run_def authority_inv_def cap_source_def)
next
  case (snoc op ops)
  from cap_exec_authority [OF this] show ?case by (simp add: cap_run_def)
qed

section \<open>Properties\<close>

text \<open>
  C12 (safety). Capabilities never amplify. Take any sequence of insertions of any capability
  values, grants, insertions of granted capabilities and removals, between any tasks. If
  afterwards a task has certain rights to an object, then some one capability from outside, held
  at the start or inserted without a grant into the space of the owner it names, gave all these
  rights to that object; and it was this task's own, or it also carried the right to grant. So
  without a capability that may be granted the rights of other tasks to an object never reach a
  task, and no call adds rights to those that came from outside.
\<close>

theorem no_capability_amplification:
  assumes "has_rights (fst (cap_run ops sys0) t) obj r"
  shows "\<exists>u cap. cap_source sys0 ops u cap \<and> object_id cap = obj \<and>
    rights_contains (cap_rights cap) r \<and> (u = t \<or> rights_contains (cap_rights cap) R_GRANT)"
proof -
  obtain c where c: "holds_cap (fst (cap_run ops sys0) t) c" "object_id c = obj"
    "rights_contains (cap_rights c) r"
    using assms by (auto simp: has_rights_iff)
  with cap_run_authority [of sys0 ops] have "cap_source sys0 ops t c \<or> granted_from sys0 ops c"
    by (cases "cap_run ops sys0") (simp add: authority_inv_def)
  with c(2,3) show ?thesis unfolding granted_from_def by (metis rights_contains_trans)
qed

text \<open>
  Task 1 inserts a capability it may grant into its own empty space, grants task 2 the right to
  send, and drops its own before task 2 inserts the granted one.
\<close>

definition example_ops :: "cap_op list" where
  "example_ops =
     [InsertNew (TaskId 1) \<lparr>object_id = 42, cap_rights = rights_union R_SEND R_GRANT,
        cap_owner = TaskId 1, generation = 0\<rparr>,
      Grant (TaskId 1) 0 (TaskId 2) R_SEND, Remove (TaskId 1) 0, InsertGranted (TaskId 2) 0]"

lemma find_from_first: "P a \<Longrightarrow> a < b \<Longrightarrow> find_from P a b = a"
  by (rule find_from_eqI) auto

theorem no_capability_amplification_witness:
  "check_send_permission (fst (cap_run example_ops space_new) (TaskId 2)) 42 = Ok () \<and>
   (\<exists>u cap. cap_source space_new example_ops u cap \<and> object_id cap = 42 \<and>
      rights_contains (cap_rights cap) R_SEND \<and>
      (u = TaskId 2 \<or> rights_contains (cap_rights cap) R_GRANT))"
proof -
  have "has_rights (fst (cap_run example_ops space_new) (TaskId 2)) 42 R_SEND"
    by (simp add: cap_run_def example_ops_def cap_insert_def space_new_def MAX_CAPS_PER_TASK_def Let_def
        find_from_first grant_def cap_get_def cap_remove_def has_rights_def rights_defs numeral_eq_Suc)
  with no_capability_amplification [OF this] show ?thesis
    by (simp add: check_send_permission_def)
qed

end
