(* ===== verification/SignalDelivery.thy ===== *)
theory SignalDelivery
  imports Prelude
begin

text \<open>
  Signal delivery to user tasks, \<open>kernel/src/signals.rs\<close>: the table of 256 per-task states with
  pending and blocked masks, handlers and one saved context, and the operations on it. The
  retry loop of \<open>dequeue_signal\<close> is taken without interference, where its first exchange that
  does not fail spuriously succeeds. Errors are the source's strings.
\<close>

type_synonym 'a sresult = "(string, 'a) outcome"

definition SIGKILL :: u8 where "SIGKILL = 9"
definition SIGSTOP :: u8 where "SIGSTOP = 19"
definition MAX_SIGNALS :: usize where "MAX_SIGNALS = 32"
definition MAX_TASKS :: usize where "MAX_TASKS = 256"

definition UNCATCHABLE_MASK :: u32 where
  "UNCATCHABLE_MASK = push_bit (unat SIGKILL) 1 OR push_bit (unat SIGSTOP) 1"

definition SIGRETURN_TRAMPOLINE :: u64 where "SIGRETURN_TRAMPOLINE = 0xFFFFFFFF0000"

record SavedContext =
  sc_x :: "u64 list"
  sc_sp :: u64
  sc_pc :: u64
  sc_pstate :: u64

record SignalState =
  sig_pending :: u32
  sig_blocked :: u32
  sig_handlers :: "u64 option list"
  saved_ctx :: "SavedContext option"

definition signal_state_new :: SignalState where
  "signal_state_new = \<lparr>sig_pending = 0, sig_blocked = 0, sig_handlers = replicate MAX_SIGNALS None,
     saved_ctx = None\<rparr>"

type_synonym signal_table = "SignalState list"

definition signal_storage :: signal_table where
  "signal_storage = replicate MAX_TASKS signal_state_new"

definition get_state :: "signal_table \<Rightarrow> usize \<Rightarrow> SignalState option" where
  "get_state tbl task = (if task \<ge> MAX_TASKS then None else Some (tbl ! task))"

definition send_signal :: "signal_table \<Rightarrow> usize \<Rightarrow> u8 \<Rightarrow> unit sresult \<times> signal_table" where
  "send_signal tbl task signal =
     (if signal = 0 \<or> signal > 31 then (Err ''invalid signal number'', tbl)
      else case get_state tbl task of
        None \<Rightarrow> (Err ''invalid task_id'', tbl)
      | Some st \<Rightarrow>
          (Ok (), tbl[task := st\<lparr>sig_pending := sig_pending st OR push_bit (unat signal) 1\<rparr>]))"

definition dequeue_signal :: "signal_table \<Rightarrow> usize \<Rightarrow> u8 option \<times> signal_table" where
  "dequeue_signal tbl task =
     (case get_state tbl task of
        None \<Rightarrow> (None, tbl)
      | Some st \<Rightarrow>
          (let deliverable = sig_pending st AND (NOT (sig_blocked st) OR UNCATCHABLE_MASK)
           in if deliverable = 0 then (None, tbl)
              else let sig = trailing_zeros deliverable
                   in (Some (of_nat sig),
                       tbl[task := st\<lparr>sig_pending := sig_pending st AND NOT (push_bit sig 1)\<rparr>])))"

definition set_handler :: "signal_table \<Rightarrow> usize \<Rightarrow> u8 \<Rightarrow> u64 \<Rightarrow> unit sresult \<times> signal_table" where
  "set_handler tbl task signal handler =
     (if signal = 0 \<or> signal > 31 then (Err ''invalid signal number'', tbl)
      else if push_bit (unat signal) 1 AND UNCATCHABLE_MASK \<noteq> 0
      then (Err ''cannot catch SIGKILL or SIGSTOP'', tbl)
      else case get_state tbl task of
        None \<Rightarrow> (Err ''invalid task_id'', tbl)
      | Some st \<Rightarrow>
          (Ok (), tbl[task := st\<lparr>sig_handlers := (sig_handlers st)[unat signal := Some handler]\<rparr>]))"

definition set_signal_mask :: "signal_table \<Rightarrow> usize \<Rightarrow> u32 \<Rightarrow> unit sresult \<times> signal_table" where
  "set_signal_mask tbl task msk =
     (case get_state tbl task of
        None \<Rightarrow> (Err ''invalid task_id'', tbl)
      | Some st \<Rightarrow> (Ok (), tbl[task := st\<lparr>sig_blocked := msk AND NOT UNCATCHABLE_MASK\<rparr>]))"

definition setup_signal_frame ::
  "signal_table \<Rightarrow> usize \<Rightarrow> u8 \<Rightarrow> SavedContext \<Rightarrow> unit sresult \<times> signal_table \<times> SavedContext" where
  "setup_signal_frame tbl task signal ctx =
     (if signal = 0 \<or> signal > 31 then (Err ''invalid signal number'', tbl, ctx)
      else case get_state tbl task of
        None \<Rightarrow> (Err ''invalid task_id'', tbl, ctx)
      | Some st \<Rightarrow>
          (case sig_handlers st ! unat signal of
             None \<Rightarrow> (Err ''no handler registered'', tbl, ctx)
           | Some handler \<Rightarrow>
               (Ok (), tbl[task := st\<lparr>saved_ctx := Some ctx\<rparr>],
                ctx\<lparr>sc_x := (sc_x ctx)[0 := ucast signal, 30 := SIGRETURN_TRAMPOLINE],
                    sc_pc := handler\<rparr>)))"

definition restore_signal_frame ::
  "signal_table \<Rightarrow> usize \<Rightarrow> SavedContext \<Rightarrow> unit sresult \<times> signal_table \<times> SavedContext" where
  "restore_signal_frame tbl task ctx =
     (case get_state tbl task of
        None \<Rightarrow> (Err ''invalid task_id'', tbl, ctx)
      | Some st \<Rightarrow>
          (case saved_ctx st of
             None \<Rightarrow> (Err ''no saved signal frame'', tbl, ctx)
           | Some saved \<Rightarrow> (Ok (), tbl[task := st\<lparr>saved_ctx := None\<rparr>], saved)))"

section \<open>Deliverable signals\<close>

definition table_ok :: "signal_table \<Rightarrow> bool" where
  "table_ok tbl \<longleftrightarrow> length tbl = MAX_TASKS"

text \<open>The signals of a task that can be delivered: pending, and not blocked unless uncatchable.\<close>

definition deliverable :: "signal_table \<Rightarrow> usize \<Rightarrow> nat set" where
  "deliverable tbl task = {n. bit (sig_pending (tbl ! task)) n \<and>
     (\<not> bit (sig_blocked (tbl ! task)) n \<or> n = unat SIGKILL \<or> n = unat SIGSTOP)}"

lemma bit_UNCATCHABLE: "bit UNCATCHABLE_MASK n \<longleftrightarrow> n = unat SIGKILL \<or> n = unat SIGSTOP"
  unfolding UNCATCHABLE_MASK_def bit_or_iff bit_push_bit_iff
  by (auto simp: SIGKILL_def SIGSTOP_def bit_1_iff)

lemma deliverable_bits:
  "n \<in> deliverable tbl task \<longleftrightarrow>
     bit (sig_pending (tbl ! task) AND (NOT (sig_blocked (tbl ! task)) OR UNCATCHABLE_MASK)) n"
  by (auto simp: deliverable_def bit_and_iff bit_or_iff bit_not_iff bit_UNCATCHABLE
      dest: bit_imp_le_length)

lemma dequeue_signal_cases:
  assumes "table_ok tbl" "task < MAX_TASKS"
  shows "case dequeue_signal tbl task of
      (None, tbl1) \<Rightarrow> deliverable tbl task = {} \<and> tbl1 = tbl
    | (Some s, tbl1) \<Rightarrow> unat s \<in> deliverable tbl task \<and> (\<forall>n \<in> deliverable tbl task. unat s \<le> n) \<and>
        tbl1 = tbl[task := (tbl ! task)\<lparr>sig_pending := sig_pending (tbl ! task) AND NOT (2 ^ unat s)\<rparr>]"
proof -
  let ?st = "tbl ! task"
  let ?d = "sig_pending ?st AND (NOT (sig_blocked ?st) OR UNCATCHABLE_MASK)"
  have get: "get_state tbl task = Some ?st" using assms(2) by (simp add: get_state_def)
  show ?thesis
  proof (cases "?d = 0")
    case True
    then have "deliverable tbl task = {}" using deliverable_bits [of _ tbl task] by auto
    with True get show ?thesis by (simp add: dequeue_signal_def Let_def)
  next
    case False
    let ?n = "trailing_zeros ?d"
    have "?n < 32" using trailing_zeros_less [OF False] by simp
    then have "unat (of_nat ?n :: u8) = ?n"
      by (simp add: unsigned_of_nat take_bit_nat_eq_self)
    moreover have "?n \<in> deliverable tbl task"
      using trailing_zeros_bit [OF False] by (simp only: deliverable_bits)
    moreover have "?n \<le> n" if "n \<in> deliverable tbl task" for n
      using that trailing_zeros_least [of n ?d] by (metis deliverable_bits not_le)
    ultimately show ?thesis using False get by (simp add: dequeue_signal_def Let_def)
  qed
qed

section \<open>Properties\<close>

text \<open>
  \<open>dequeue_signal\<close> returns the lowest-numbered signal that is pending and not
  blocked, or uncatchable, takes exactly this one out of the deliverable set and leaves the
  other tasks alone; it returns none exactly when nothing is deliverable. \<open>SIGKILL\<close> and
  \<open>SIGSTOP\<close> are deliverable whenever they are pending.
\<close>

theorem dequeue_signal_lowest:
  assumes "table_ok tbl" "task < MAX_TASKS"
  shows "case dequeue_signal tbl task of
      (None, tbl1) \<Rightarrow> deliverable tbl task = {} \<and> tbl1 = tbl
    | (Some s, tbl1) \<Rightarrow> unat s \<in> deliverable tbl task \<and> (\<forall>n \<in> deliverable tbl task. unat s \<le> n) \<and>
        deliverable tbl1 task = deliverable tbl task - {unat s} \<and>
        (\<forall>other. other \<noteq> task \<longrightarrow> tbl1 ! other = tbl ! other)"
proof -
  have len: "task < length tbl" using assms by (simp add: table_ok_def)
  then have "deliverable (tbl[task := (tbl ! task)\<lparr>sig_pending := sig_pending (tbl ! task) AND NOT (2 ^ k)\<rparr>]) task
      = deliverable tbl task - {k}" for k
    by (auto simp: deliverable_def bit_and_not_mask)
  with dequeue_signal_cases [OF assms] show ?thesis
    by (auto split: prod.splits option.splits)
qed

theorem dequeue_signal_lowest_witness:
  "fst (dequeue_signal (signal_storage[3 := signal_state_new\<lparr>sig_pending := 0x80600, sig_blocked := - 1\<rparr>]) 3)
     = Some 9"
proof -
  let ?tbl = "signal_storage[3 := signal_state_new\<lparr>sig_pending := 0x80600, sig_blocked := - 1\<rparr>]"
  have t: "table_ok ?tbl" "3 < MAX_TASKS" by (simp_all add: table_ok_def signal_storage_def MAX_TASKS_def)
  have st: "?tbl ! 3 = signal_state_new\<lparr>sig_pending := 0x80600, sig_blocked := - 1\<rparr>"
    using t by (simp add: table_ok_def)
  have d: "9 \<in> deliverable ?tbl 3" "\<And>n. n \<in> deliverable ?tbl 3 \<Longrightarrow> 9 \<le> n"
    unfolding deliverable_def st by (auto simp: SIGKILL_def SIGSTOP_def dest: bit_imp_le_length)
  obtain r tbl1 where r: "dequeue_signal ?tbl 3 = (r, tbl1)" by (cases "dequeue_signal ?tbl 3")
  note spec = dequeue_signal_lowest [OF t, unfolded r prod.case]
  show ?thesis
  proof (cases r)
    case (Some s)
    then have "unat s = 9" using spec d(1) d(2) [of "unat s"] by (auto intro: antisym)
    then have "s = 9" by (simp add: word_unat_eq_iff)
    with r Some show ?thesis by simp
  qed (use spec d(1) in auto)
qed

text \<open>
  C14 (round trip). After a signal frame was set up, restoring it, whatever the handler left in
  the registers, gives back the interrupted context. There is one slot only: a second frame set
  up before the first was restored replaces it, so that the second restore fails and the first
  context is lost.
\<close>

theorem signal_frame_roundtrip:
  assumes "table_ok tbl" "setup_signal_frame tbl task signal ctx = (Ok (), tbl1, ctx1)"
  shows "(\<exists>tbl2. restore_signal_frame tbl1 task any = (Ok (), tbl2, ctx)) \<and>
         (\<exists>tbl2 ctx2 tbl3. setup_signal_frame tbl1 task signal ctx1 = (Ok (), tbl2, ctx2) \<and>
            restore_signal_frame tbl2 task any = (Ok (), tbl3, ctx1) \<and>
            fst (restore_signal_frame tbl3 task ctx1) = Err ''no saved signal frame'')"
  using assms
  by (auto simp: setup_signal_frame_def restore_signal_frame_def get_state_def table_ok_def
      split: if_splits option.splits)

theorem signal_frame_roundtrip_witness:
  "\<exists>tbl1 ctx1 tbl2. setup_signal_frame (signal_storage[3 := signal_state_new\<lparr>sig_handlers :=
       (replicate 32 None)[10 := Some 0x4000]\<rparr>]) 3 10
       \<lparr>sc_x = replicate 31 7, sc_sp = 1, sc_pc = 2, sc_pstate = 0\<rparr> = (Ok (), tbl1, ctx1) \<and>
     sc_pc ctx1 = 0x4000 \<and>
     restore_signal_frame tbl1 3 ctx1 =
       (Ok (), tbl2, \<lparr>sc_x = replicate 31 7, sc_sp = 1, sc_pc = 2, sc_pstate = 0\<rparr>)"
proof -
  let ?tbl = "signal_storage[3 := signal_state_new\<lparr>sig_handlers := (replicate 32 None)[10 := Some 0x4000]\<rparr>]"
  let ?ctx = "\<lparr>sc_x = replicate 31 7, sc_sp = 1, sc_pc = 2, sc_pstate = 0\<rparr>"
  have t: "table_ok ?tbl" by (simp add: table_ok_def signal_storage_def)
  then have st: "get_state ?tbl 3 = Some (signal_state_new\<lparr>sig_handlers := (replicate 32 None)[10 := Some 0x4000]\<rparr>)"
    by (simp add: get_state_def table_ok_def MAX_TASKS_def)
  obtain r tbl1 ctx1 where s: "setup_signal_frame ?tbl 3 10 ?ctx = (r, tbl1, ctx1)"
    by (cases "setup_signal_frame ?tbl 3 10 ?ctx")
  then have ok: "r = Ok ()" "sc_pc ctx1 = 0x4000"
    unfolding setup_signal_frame_def st by auto
  from signal_frame_roundtrip [OF t s [unfolded ok(1)], of ctx1] s ok show ?thesis by blast
qed

end
