(* ===== verification/AsyncIpc.thy ===== *)
theory AsyncIpc
  imports Task Interfaces
begin

text \<open>
  Asynchronous channels, \<open>kernel/src/async_ipc.rs\<close>: first the operations of \<open>Channel\<close> and the
  \<open>poll\<close> of its receive future as functions, then a step relation in which a receiver, any
  number of senders and any number of closers interleave at the lock and atomic operations of
  the source. A waker is the number of the task it wakes.
\<close>

definition CHANNEL_CAPACITY :: usize where "CHANNEL_CAPACITY = 64"

record IpcMessage =
  ipc_sender :: TaskId
  ipc_msg_type :: u32
  payload :: "u8 list"

record Channel =
  ch_queue :: "IpcMessage list"
  ch_wakers :: "nat list"
  ch_closed :: bool
  ch_msg_count :: u32

definition channel_new :: Channel where
  "channel_new = \<lparr>ch_queue = [], ch_wakers = [], ch_closed = False, ch_msg_count = 0\<rparr>"

section \<open>Operations\<close>

text \<open>The draining of the wakers: all of them are woken, and none stays registered.\<close>

definition wake_all :: "Channel \<Rightarrow> nat list \<times> Channel" where
  "wake_all c = (ch_wakers c, c\<lparr>ch_wakers := []\<rparr>)"

definition push_message :: "Channel \<Rightarrow> IpcMessage \<Rightarrow> Channel" where
  "push_message c m = c\<lparr>ch_queue := ch_queue c @ [m], ch_msg_count := ch_msg_count c + 1\<rparr>"

text \<open>The result, the tasks woken, and the channel after the call.\<close>

definition channel_send :: "Channel \<Rightarrow> IpcMessage \<Rightarrow> unit kresult \<times> nat list \<times> Channel" where
  "channel_send c m =
     (if ch_closed c then (Err OperationFailed, [], c)
      else if length (ch_queue c) \<ge> CHANNEL_CAPACITY then (Err ResourceExhausted, [], c)
      else case wake_all (push_message c m) of (woken, c1) \<Rightarrow> (Ok (), woken, c1))"

definition try_recv :: "Channel \<Rightarrow> IpcMessage option \<times> Channel" where
  "try_recv c = (case ch_queue c of [] \<Rightarrow> (None, c) | m # ms \<Rightarrow> (Some m, c\<lparr>ch_queue := ms\<rparr>))"

definition close :: "Channel \<Rightarrow> nat list \<times> Channel" where
  "close c = wake_all (c\<lparr>ch_closed := True\<rparr>)"

definition is_closed :: "Channel \<Rightarrow> bool" where "is_closed c = ch_closed c"
definition channel_len :: "Channel \<Rightarrow> usize" where "channel_len c = length (ch_queue c)"
definition channel_is_empty :: "Channel \<Rightarrow> bool" where "channel_is_empty c \<longleftrightarrow> channel_len c = 0"

datatype poll_result = PollReady "IpcMessage kresult" | PollPending

definition poll :: "Channel \<Rightarrow> nat \<Rightarrow> poll_result \<times> Channel" where
  "poll c waker =
     (case try_recv c of
        (Some m, c1) \<Rightarrow> (PollReady (Ok m), c1)
      | (None, c1) \<Rightarrow>
          if is_closed c1 then (PollReady (Err OperationFailed), c1)
          else let c2 = c1\<lparr>ch_wakers := ch_wakers c1 @ [waker]\<rparr>
               in case try_recv c2 of
                    (Some m, c3) \<Rightarrow> (PollReady (Ok m), c3)
                  | (None, c3) \<Rightarrow> (PollPending, c3))"

section \<open>An open channel is a bounded queue\<close>

definition channel_enq :: "IpcMessage \<Rightarrow> Channel \<Rightarrow> unit kresult \<times> Channel" where
  "channel_enq m c = (case channel_send c m of (r, _, c1) \<Rightarrow> (r, c1))"

definition channel_deq :: "Channel \<Rightarrow> IpcMessage option kresult \<times> Channel" where
  "channel_deq c = apfst Ok (try_recv c)"

definition channel_open :: "Channel \<Rightarrow> bool" where
  "channel_open c \<longleftrightarrow> \<not> ch_closed c \<and> length (ch_queue c) \<le> CHANNEL_CAPACITY"

lemmas channel_ops = channel_enq_def channel_deq_def channel_send_def try_recv_def wake_all_def
  push_message_def

interpretation channel: bounded_fifo channel_enq channel_deq ch_queue channel_open CHANNEL_CAPACITY
  by unfold_locales (auto simp: channel_ops channel_open_def)

section \<open>Interleavings\<close>

text \<open>
  The positions of the receiver in \<open>poll\<close>: before the first attempt, after it found nothing,
  after it saw the channel open, after it registered its waker, after it returned pending, and
  after it returned ready. \<open>checked_sends\<close> counts senders that saw the channel open and have not
  pushed yet, \<open>unwoken_sends\<close> senders between the push and the drain of the wakers, \<open>unwoken_closes\<close> closers between the store and the drain. \<open>registered\<close> says whether
  the receiver's waker is in the list, \<open>woken\<close> whether it was woken since it was registered.
\<close>

datatype recv_pc = RecvStart | RecvEmpty | RecvOpen | RecvRegistered | RecvPending | RecvReady

record async_state =
  as_queue :: "IpcMessage list"
  as_closed :: bool
  registered :: bool
  woken :: bool
  recv_pc :: recv_pc
  checked_sends :: nat
  unwoken_sends :: nat
  unwoken_closes :: nat

definition async_init :: "async_state \<Rightarrow> bool" where
  "async_init s \<longleftrightarrow> s = \<lparr>as_queue = [], as_closed = False, registered = False, woken = False,
     recv_pc = RecvStart, checked_sends = 0, unwoken_sends = 0, unwoken_closes = 0\<rparr>"

inductive async_step :: "async_state \<Rightarrow> async_state \<Rightarrow> bool" where
  send_check: "\<not> as_closed s \<Longrightarrow> async_step s (s\<lparr>checked_sends := checked_sends s + 1\<rparr>)"
| send_full: "checked_sends s = Suc n \<Longrightarrow> length (as_queue s) \<ge> CHANNEL_CAPACITY \<Longrightarrow>
    async_step s (s\<lparr>checked_sends := n\<rparr>)"
| send_push: "checked_sends s = Suc n \<Longrightarrow> length (as_queue s) < CHANNEL_CAPACITY \<Longrightarrow>
    async_step s (s\<lparr>as_queue := as_queue s @ [m], checked_sends := n,
      unwoken_sends := unwoken_sends s + 1\<rparr>)"
| send_drain: "unwoken_sends s = Suc n \<Longrightarrow>
    async_step s (s\<lparr>unwoken_sends := n, registered := False, woken := woken s \<or> registered s\<rparr>)"
| close_store: "async_step s (s\<lparr>as_closed := True, unwoken_closes := unwoken_closes s + 1\<rparr>)"
| close_drain: "unwoken_closes s = Suc n \<Longrightarrow>
    async_step s (s\<lparr>unwoken_closes := n, registered := False, woken := woken s \<or> registered s\<rparr>)"
| recv_first: "recv_pc s = RecvStart \<Longrightarrow> as_queue s = [] \<Longrightarrow>
    async_step s (s\<lparr>recv_pc := RecvEmpty\<rparr>)"
| recv_got: "recv_pc s = RecvStart \<or> recv_pc s = RecvRegistered \<Longrightarrow> as_queue s = m # ms \<Longrightarrow>
    async_step s (s\<lparr>as_queue := ms, recv_pc := RecvReady\<rparr>)"
| recv_closed: "recv_pc s = RecvEmpty \<Longrightarrow> as_closed s \<Longrightarrow>
    async_step s (s\<lparr>recv_pc := RecvReady\<rparr>)"
| recv_open: "recv_pc s = RecvEmpty \<Longrightarrow> \<not> as_closed s \<Longrightarrow>
    async_step s (s\<lparr>recv_pc := RecvOpen\<rparr>)"
| recv_register: "recv_pc s = RecvOpen \<Longrightarrow>
    async_step s (s\<lparr>registered := True, woken := False, recv_pc := RecvRegistered\<rparr>)"
| recv_pending: "recv_pc s = RecvRegistered \<Longrightarrow> as_queue s = [] \<Longrightarrow>
    async_step s (s\<lparr>recv_pc := RecvPending\<rparr>)"
| recv_again: "recv_pc s = RecvPending \<and> woken s \<or> recv_pc s = RecvReady \<Longrightarrow>
    async_step s (s\<lparr>recv_pc := RecvStart\<rparr>)"

definition async_inv :: "async_state \<Rightarrow> bool" where
  "async_inv s \<longleftrightarrow>
     (recv_pc s \<in> {RecvRegistered, RecvPending} \<longrightarrow> registered s \<or> woken s) \<and>
     (recv_pc s = RecvPending \<and> as_queue s \<noteq> [] \<longrightarrow> woken s \<or> 0 < unwoken_sends s)"

lemma async_inv_step: "async_inv s \<Longrightarrow> async_step s s1 \<Longrightarrow> async_inv s1"
  by (erule async_step.cases) (auto simp: async_inv_def)

interpretation async: transition_system async_init async_step async_inv
proof unfold_locales
  show "async_inv s" if "async_init s" for s
    using that by (simp add: async_init_def async_inv_def)
qed (rule async_inv_step)

section \<open>Properties\<close>

text \<open>
  C13 (liveness). No send is missed: whenever the receiver has returned pending and a message is
  queued, the receiver was already woken, or its waker is registered and a sender is about to
  drain the wakers, in any interleaving with senders and closers. A close can be missed: some
  interleaving reaches a closed channel with the receiver pending, not woken, and nobody left
  to wake it.
\<close>

theorem channel_wakeups:
  "(reachable async_init async_step s \<and> recv_pc s = RecvPending \<and> as_queue s \<noteq> [] \<longrightarrow>
      woken s \<or> registered s \<and> 0 < unwoken_sends s) \<and>
   (\<exists>s. reachable async_init async_step s \<and> recv_pc s = RecvPending \<and> as_closed s \<and>
      \<not> woken s \<and> unwoken_sends s = 0 \<and> unwoken_closes s = 0)"
proof
  show "reachable async_init async_step s \<and> recv_pc s = RecvPending \<and> as_queue s \<noteq> [] \<longrightarrow>
      woken s \<or> registered s \<and> 0 < unwoken_sends s"
    using async.reachable_inv [of s] by (auto simp: async_inv_def)
next
  let ?s = "\<lambda>c r p b. \<lparr>as_queue = [], as_closed = c, registered = r, woken = False, recv_pc = p,
     checked_sends = 0, unwoken_sends = 0, unwoken_closes = b\<rparr> :: async_state"
  let ?R = "reachable async_init async_step"
  have "?R (?s False False RecvStart 0)" by (rule reach_init) (simp add: async_init_def)
  from reach_step [OF this recv_first] have "?R (?s False False RecvEmpty 0)" by simp
  from reach_step [OF this recv_open] have "?R (?s False False RecvOpen 0)" by simp
  from reach_step [OF this close_store] have "?R (?s True False RecvOpen 1)" by simp
  from reach_step [OF this close_drain [where n = 0]] have "?R (?s True False RecvOpen 0)" by simp
  from reach_step [OF this recv_register] have "?R (?s True True RecvRegistered 0)" by simp
  from reach_step [OF this recv_pending] have "?R (?s True True RecvPending 0)" by simp
  then show "\<exists>s. reachable async_init async_step s \<and> recv_pc s = RecvPending \<and> as_closed s \<and>
      \<not> woken s \<and> unwoken_sends s = 0 \<and> unwoken_closes s = 0"
    by (intro exI [of _ "?s True True RecvPending 0"]) simp
qed

theorem channel_wakeups_witness:
  "\<exists>s. reachable async_init async_step s \<and> recv_pc s = RecvPending \<and> as_queue s \<noteq> [] \<and>
     registered s \<and> 0 < unwoken_sends s"
proof -
  let ?s = "\<lambda>q r p k n. \<lparr>as_queue = q, as_closed = False, registered = r, woken = False, recv_pc = p,
     checked_sends = k, unwoken_sends = n, unwoken_closes = 0\<rparr> :: async_state"
  let ?m = "\<lparr>ipc_sender = TaskId 1, ipc_msg_type = 42, payload = [1, 2, 3]\<rparr>"
  let ?R = "reachable async_init async_step"
  have "?R (?s [] False RecvStart 0 0)" by (rule reach_init) (simp add: async_init_def)
  from reach_step [OF this recv_first] have "?R (?s [] False RecvEmpty 0 0)" by simp
  from reach_step [OF this recv_open] have "?R (?s [] False RecvOpen 0 0)" by simp
  from reach_step [OF this recv_register] have "?R (?s [] True RecvRegistered 0 0)" by simp
  from reach_step [OF this recv_pending] have "?R (?s [] True RecvPending 0 0)" by simp
  from reach_step [OF this send_check] have "?R (?s [] True RecvPending 1 0)" by simp
  from reach_step [OF this send_push [where n = 0 and m = ?m]]
  have r: "?R (?s [?m] True RecvPending 0 1)" by (simp add: CHANNEL_CAPACITY_def)
  with channel_wakeups [of "?s [?m] True RecvPending 0 1"] show ?thesis by fastforce
qed

end
