(* ===== verification/Iommu.thy ===== *)
theory Iommu
  imports Interfaces
begin

text \<open>
  Device isolation and address randomisation: the IOMMU tables of \<open>kernel/src/memory/iommu.rs\<close>
  (32 devices with 16 mapping slots each and the stream table), and the KASLR offset of
  \<open>kernel/src/memory/kaslr.rs\<close>. The static tables are a state record passed explicitly. Errors
  are the source's strings. The fault handler does nothing.
\<close>

section \<open>IOMMU\<close>

definition MAX_DEVICES :: usize where "MAX_DEVICES = 32"
definition MAX_MAPPINGS_PER_DEVICE :: usize where "MAX_MAPPINGS_PER_DEVICE = 16"

datatype IommuProt = IommuProt u32

definition PROT_READ :: IommuProt where "PROT_READ = IommuProt 1"
definition PROT_WRITE :: IommuProt where "PROT_WRITE = IommuProt 2"
definition PROT_RW :: IommuProt where "PROT_RW = IommuProt 3"

record StreamTableEntry =
  ste_valid :: bool
  ste_device_id :: u16
  ste_domain_id :: u16
  s1_context_ptr :: u64

record IovaMapping =
  iova :: u64
  iova_phys_addr :: u64
  iova_size :: usize
  iova_prot :: u32

record DeviceContext =
  attached :: bool
  domain_id :: u16
  mappings :: "IovaMapping option list"

definition device_context_new :: DeviceContext where
  "device_context_new = \<lparr>attached = False, domain_id = 0,
     mappings = replicate MAX_MAPPINGS_PER_DEVICE None\<rparr>"

record iommu_state =
  iommu_initialized :: bool
  stream_table :: "StreamTableEntry list"
  devices :: "DeviceContext list"

definition iommu_boot :: iommu_state where
  "iommu_boot = \<lparr>iommu_initialized = False,
     stream_table = replicate MAX_DEVICES
       \<lparr>ste_valid = False, ste_device_id = 0, ste_domain_id = 0, s1_context_ptr = 0\<rparr>,
     devices = replicate MAX_DEVICES device_context_new\<rparr>"

definition check_device_id :: "u16 \<Rightarrow> (string, usize) outcome" where
  "check_device_id dev =
     (if unat dev \<ge> MAX_DEVICES then Err ''device_id out of range'' else Ok (unat dev))"

definition iommu_attach_device ::
  "iommu_state \<Rightarrow> u16 \<Rightarrow> u16 \<Rightarrow> (string, unit) outcome \<times> iommu_state" where
  "iommu_attach_device s dev domain =
     (case check_device_id dev of
        Err e \<Rightarrow> (Err e, s)
      | Panic \<Rightarrow> (Panic, s)
      | Ok idx \<Rightarrow>
          if attached (devices s ! idx) then (Err ''device already attached'', s)
          else (Ok (), s\<lparr>devices := (devices s)[idx := (devices s ! idx)
                           \<lparr>attached := True, domain_id := domain\<rparr>],
                         stream_table := (stream_table s)[idx :=
                           \<lparr>ste_valid = True, ste_device_id = dev, ste_domain_id = domain, s1_context_ptr = 0\<rparr>],
                         iommu_initialized := True\<rparr>))"

definition iommu_detach_device ::
  "iommu_state \<Rightarrow> u16 \<Rightarrow> (string, unit) outcome \<times> iommu_state" where
  "iommu_detach_device s dev =
     (case check_device_id dev of
        Err e \<Rightarrow> (Err e, s)
      | Panic \<Rightarrow> (Panic, s)
      | Ok idx \<Rightarrow>
          if \<not> attached (devices s ! idx) then (Err ''device not attached'', s)
          else (Ok (), s\<lparr>devices := (devices s)[idx := device_context_new],
                         stream_table := (stream_table s)[idx := (stream_table s ! idx)\<lparr>ste_valid := False\<rparr>]\<rparr>))"

definition iommu_map ::
  "iommu_state \<Rightarrow> u16 \<Rightarrow> u64 \<Rightarrow> u64 \<Rightarrow> usize \<Rightarrow> IommuProt \<Rightarrow> (string, unit) outcome \<times> iommu_state" where
  "iommu_map s dev va pa sz prot =
     (case check_device_id dev of
        Err e \<Rightarrow> (Err e, s)
      | Panic \<Rightarrow> (Panic, s)
      | Ok idx \<Rightarrow>
          if \<not> attached (devices s ! idx) then (Err ''device not attached'', s)
          else let d = devices s ! idx;
                   i = find_from (\<lambda>i. mappings d ! i = None) 0 (length (mappings d))
               in if i < length (mappings d)
                  then (Ok (), s\<lparr>devices := (devices s)[idx := d\<lparr>mappings := (mappings d)[i :=
                          Some \<lparr>iova = va, iova_phys_addr = pa, iova_size = sz,
                                iova_prot = (case prot of IommuProt p \<Rightarrow> p)\<rparr>]\<rparr>]\<rparr>)
                  else (Err ''no free mapping slots'', s))"

definition iommu_unmap ::
  "iommu_state \<Rightarrow> u16 \<Rightarrow> u64 \<Rightarrow> usize \<Rightarrow> (string, unit) outcome \<times> iommu_state" where
  "iommu_unmap s dev va sz =
     (case check_device_id dev of
        Err e \<Rightarrow> (Err e, s)
      | Panic \<Rightarrow> (Panic, s)
      | Ok idx \<Rightarrow>
          if \<not> attached (devices s ! idx) then (Err ''device not attached'', s)
          else let d = devices s ! idx;
                   i = find_from (\<lambda>i. case mappings d ! i of None \<Rightarrow> False
                         | Some m \<Rightarrow> iova m = va \<and> iova_size m = sz) 0 (length (mappings d))
               in if i < length (mappings d)
                  then (Ok (), s\<lparr>devices := (devices s)[idx := d\<lparr>mappings := (mappings d)[i := None]\<rparr>]\<rparr>)
                  else (Err ''mapping not found'', s))"

subsection \<open>Isolation\<close>

datatype iommu_op =
  IoAttach u16 u16 | IoDetach u16 | IoMap u16 u64 u64 usize IommuProt | IoUnmap u16 u64 usize

fun iommu_exec :: "iommu_state \<Rightarrow> iommu_op \<Rightarrow> iommu_state" where
  "iommu_exec s (IoAttach d domain) = snd (iommu_attach_device s d domain)"
| "iommu_exec s (IoDetach d) = snd (iommu_detach_device s d)"
| "iommu_exec s (IoMap d va pa sz p) = snd (iommu_map s d va pa sz p)"
| "iommu_exec s (IoUnmap d va sz) = snd (iommu_unmap s d va sz)"

fun op_device :: "iommu_op \<Rightarrow> usize" where
  "op_device (IoAttach d domain) = unat d"
| "op_device (IoDetach d) = unat d"
| "op_device (IoMap d va pa sz p) = unat d"
| "op_device (IoUnmap d va sz) = unat d"

text \<open>
  A device that is not attached has no mapping; its stream table entry is valid exactly when it
  is attached, and then carries its own number and domain.
\<close>

definition device_ok :: "usize \<Rightarrow> DeviceContext \<Rightarrow> StreamTableEntry \<Rightarrow> bool" where
  "device_ok k d e \<longleftrightarrow> length (mappings d) = MAX_MAPPINGS_PER_DEVICE \<and>
     (\<not> attached d \<longrightarrow> (\<forall>m \<in> set (mappings d). m = None)) \<and>
     (ste_valid e \<longleftrightarrow> attached d) \<and>
     (attached d \<longrightarrow> unat (ste_device_id e) = k \<and> ste_domain_id e = domain_id d)"

definition iommu_inv :: "iommu_state \<Rightarrow> bool" where
  "iommu_inv s \<longleftrightarrow> length (devices s) = MAX_DEVICES \<and> length (stream_table s) = MAX_DEVICES \<and>
     (\<forall>k < MAX_DEVICES. device_ok k (devices s ! k) (stream_table s ! k))"

lemma check_device_id_simps [simp]:
  "unat d < MAX_DEVICES \<Longrightarrow> check_device_id d = Ok (unat d)"
  "\<not> unat d < MAX_DEVICES \<Longrightarrow> check_device_id d = Err ''device_id out of range''"
  by (simp_all add: check_device_id_def)

lemma iommu_inv_update:
  assumes "iommu_inv s" "k < MAX_DEVICES" "device_ok k d e"
  shows "iommu_inv (s\<lparr>devices := (devices s)[k := d], stream_table := (stream_table s)[k := e],
           iommu_initialized := b\<rparr>)"
  using assms by (auto simp: iommu_inv_def nth_list_update)

lemma iommu_inv_device:
  assumes "iommu_inv s" "k < MAX_DEVICES" "device_ok k d (stream_table s ! k)"
  shows "iommu_inv (s\<lparr>devices := (devices s)[k := d]\<rparr>)"
  using iommu_inv_update [OF assms, of "iommu_initialized s"] by simp

lemma iommu_exec_inv:
  assumes inv: "iommu_inv s"
  shows "iommu_inv (iommu_exec s op)"
proof (cases "op_device op < MAX_DEVICES")
  case False
  with inv show ?thesis
    by (cases op) (auto simp: iommu_attach_device_def iommu_detach_device_def iommu_map_def iommu_unmap_def)
next
  case True
  let ?k = "op_device op"
  have ok: "device_ok ?k (devices s ! ?k) (stream_table s ! ?k)"
    using inv True by (simp add: iommu_inv_def)
  show ?thesis
  proof (cases op)
    case (IoAttach d domain)
    have "device_ok ?k ((devices s ! ?k)\<lparr>attached := True, domain_id := domain\<rparr>)
        \<lparr>ste_valid = True, ste_device_id = d, ste_domain_id = domain, s1_context_ptr = 0\<rparr>"
      using ok IoAttach by (simp add: device_ok_def)
    with iommu_inv_update [OF inv True this, of True] inv True IoAttach show ?thesis
      by (simp add: iommu_attach_device_def)
  next
    case (IoDetach d)
    have "device_ok ?k device_context_new ((stream_table s ! ?k)\<lparr>ste_valid := False\<rparr>)"
      by (simp add: device_ok_def device_context_new_def)
    with iommu_inv_update [OF inv True this, of "iommu_initialized s"] inv True IoDetach show ?thesis
      by (simp add: iommu_detach_device_def)
  next
    case (IoMap d va pa sz p)
    have "device_ok ?k ((devices s ! ?k)\<lparr>mappings := (mappings (devices s ! ?k))[i := m]\<rparr>) (stream_table s ! ?k)"
      if "attached (devices s ! ?k)" for i m
      using ok that by (simp add: device_ok_def)
    with iommu_inv_device [OF inv True] inv True IoMap show ?thesis
      by (simp add: iommu_map_def Let_def)
  next
    case (IoUnmap d va sz)
    have "device_ok ?k ((devices s ! ?k)\<lparr>mappings := (mappings (devices s ! ?k))[i := m]\<rparr>) (stream_table s ! ?k)"
      if "attached (devices s ! ?k)" for i m
      using ok that by (simp add: device_ok_def)
    with iommu_inv_device [OF inv True] inv True IoUnmap show ?thesis
      by (simp add: iommu_unmap_def Let_def)
  qed
qed

lemma iommu_exec_other:
  "k \<noteq> op_device op \<Longrightarrow>
     devices (iommu_exec s op) ! k = devices s ! k \<and> stream_table (iommu_exec s op) ! k = stream_table s ! k"
  by (cases op; cases "op_device op < MAX_DEVICES")
    (auto simp: iommu_attach_device_def iommu_detach_device_def iommu_map_def iommu_unmap_def Let_def)

interpretation iommu: transition_system "\<lambda>s. s = iommu_boot" "\<lambda>s t. \<exists>op. t = iommu_exec s op" iommu_inv
proof unfold_locales
  show "iommu_inv s" if "s = iommu_boot" for s
    unfolding that
    by (auto simp: iommu_inv_def iommu_boot_def device_ok_def device_context_new_def MAX_DEVICES_def)
qed (auto simp: iommu_exec_inv)

section \<open>KASLR\<close>

definition MAX_OFFSET :: u64 where "MAX_OFFSET = 512 * 1024 * 1024"
definition KASLR_PAGE_SIZE :: u64 where "KASLR_PAGE_SIZE = 4096"

record kaslr_state =
  kaslr_offset :: u64
  kaslr_enabled :: bool

definition kaslr_boot :: kaslr_state where
  "kaslr_boot = \<lparr>kaslr_offset = 0, kaslr_enabled = False\<rparr>"

definition xorshift64 :: "u64 \<Rightarrow> u64" where
  "xorshift64 x =
     (let x0 = (if x = 0 then 0xdeadbeefcafe1234 else x);
          x1 = x0 XOR push_bit 13 x0;
          x2 = x1 XOR drop_bit 7 x1
      in x2 XOR push_bit 17 x2)"

definition init_kaslr :: "kaslr_state \<Rightarrow> u64 \<Rightarrow> kaslr_state" where
  "init_kaslr s entropy =
     (if kaslr_enabled s then s
      else \<lparr>kaslr_offset = (xorshift64 entropy mod MAX_OFFSET) AND NOT (KASLR_PAGE_SIZE - 1),
             kaslr_enabled = True\<rparr>)"

definition randomize_address :: "kaslr_state \<Rightarrow> u64 \<Rightarrow> u64" where
  "randomize_address s base = base + kaslr_offset s"

lemma page_mask_unat: "unat (x AND NOT (4096 - 1) :: u64) = unat x div 4096 * 4096"
proof -
  have m: "(4096 - 1 :: u64) = mask 12" by (simp add: mask_eq_exp_minus_1)
  have "x AND NOT (mask 12) = push_bit 12 (drop_bit 12 x)"
    by (rule bit_word_eqI) (auto simp: bit_and_iff bit_not_iff bit_mask_iff bit_push_bit_iff bit_drop_bit_eq)
  moreover have "unat (push_bit 12 (drop_bit 12 x)) = unat x div 4096 * 4096"
  proof -
    have "unat x < 2 ^ LENGTH(64)" by (rule unsigned_less)
    moreover from this have "unat x div 4096 * 4096 < 2 ^ LENGTH(64)" by simp
    ultimately have t: "take_bit LENGTH(64) (unat x) = unat x"
      "take_bit LENGTH(64) (unat x div 4096 * 4096) = unat x div 4096 * 4096"
      by (simp_all only: take_bit_nat_eq_self)
    have e: "(2 :: nat) ^ 12 = 4096" by simp
    show ?thesis
      unfolding unsigned_push_bit_eq unsigned_drop_bit_eq t(1)
      unfolding push_bit_eq_mult drop_bit_eq_div e t(2) ..
  qed
  ultimately show ?thesis unfolding m by simp
qed

section \<open>Properties\<close>

text \<open>
  C14 (safety). Devices are isolated: in every reachable state of the tables a device that is not
  attached has no mapping left and an invalid stream entry, an attached one has a valid entry
  with its own number and domain, and no operation on one device changes the context or the
  stream entry of another.
\<close>

theorem iommu_isolation:
  assumes "reachable (\<lambda>s. s = iommu_boot) (\<lambda>s t. \<exists>op. t = iommu_exec s op) s" "k < MAX_DEVICES"
  shows "device_ok k (devices s ! k) (stream_table s ! k) \<and>
         (k \<noteq> op_device op \<longrightarrow> devices (iommu_exec s op) ! k = devices s ! k \<and>
            stream_table (iommu_exec s op) ! k = stream_table s ! k)"
  using iommu.reachable_inv [OF assms(1)] assms(2) iommu_exec_other [of k op s]
  by (simp add: iommu_inv_def)

theorem iommu_isolation_witness:
  "set (mappings (devices (iommu_exec (iommu_exec (iommu_exec iommu_boot (IoAttach 5 1))
     (IoMap 5 0x1000 0x80000000 4096 PROT_RW)) (IoDetach 5)) ! 5)) \<subseteq> {None}"
proof -
  let ?s = "iommu_exec (iommu_exec (iommu_exec iommu_boot (IoAttach 5 1))
     (IoMap 5 0x1000 0x80000000 4096 PROT_RW)) (IoDetach 5)"
  have "reachable (\<lambda>s. s = iommu_boot) (\<lambda>s t. \<exists>op. t = iommu_exec s op) ?s"
    by (rule reach_step, rule reach_step, rule reach_step, rule reach_init) (rule refl, blast+)
  from iommu_isolation [OF this, of 5]
  have "device_ok 5 (devices ?s ! 5) (stream_table ?s ! 5)" by (simp add: MAX_DEVICES_def)
  moreover have "\<not> attached (devices ?s ! 5)"
    by (simp add: iommu_attach_device_def iommu_detach_device_def iommu_map_def iommu_boot_def
        MAX_DEVICES_def device_context_new_def check_device_id_def Let_def)
  ultimately show ?thesis by (auto simp: device_ok_def)
qed

text \<open>
  Whatever the entropy, the KASLR offset is a multiple of the page size below
  512 MiB, it is fixed by the first initialisation, and two randomised addresses keep their
  distance.
\<close>

theorem kaslr_offset_bounds:
  shows "unat (kaslr_offset (init_kaslr kaslr_boot e)) < 512 * 1024 * 1024 \<and>
         4096 dvd unat (kaslr_offset (init_kaslr kaslr_boot e)) \<and>
         init_kaslr (init_kaslr kaslr_boot e) e2 = init_kaslr kaslr_boot e \<and>
         randomize_address (init_kaslr kaslr_boot e) a - randomize_address (init_kaslr kaslr_boot e) b = a - b"
proof -
  let ?x = "xorshift64 e mod MAX_OFFSET"
  have "unat ?x < 512 * 1024 * 1024"
    by (simp add: unat_mod_distrib MAX_OFFSET_def)
  moreover have "unat (?x AND NOT (KASLR_PAGE_SIZE - 1)) = unat ?x div 4096 * 4096"
    unfolding KASLR_PAGE_SIZE_def by (rule page_mask_unat)
  moreover have "unat ?x div 4096 * 4096 \<le> unat ?x" by simp
  ultimately show ?thesis
    by (simp add: init_kaslr_def kaslr_boot_def randomize_address_def)
qed

end
