(* ===== verification/RamFs.thy ===== *)
theory RamFs
  imports Interfaces
begin

text \<open>
  The RAM filesystem, \<open>kernel/src/fs.rs\<close>: a table of 256 inodes whose number 0 is the root
  directory. A name is the list of its bytes, as is the content of a file. Offsets and lengths
  are \<open>usize\<close>; the sums and differences of the source that can wrap are written with \<open>uadd\<close> and
  \<open>usub\<close>, and slicing out of range is \<open>Panic\<close>.
\<close>

definition MAX_INODES :: usize where "MAX_INODES = 256"
definition BUF_SIZE :: usize where "BUF_SIZE = 4096"
definition MAX_DIR_ENTRIES :: usize where "MAX_DIR_ENTRIES = 64"

datatype FileType = Regular | Directory | CharDev | BlockDev

record DirEntry =
  de_name :: string
  de_inode :: usize

record Inode =
  ftype :: FileType
  idata :: "u8 list"
  isize :: usize
  entries :: "DirEntry list"
  in_use :: bool

definition inode_new :: "FileType \<Rightarrow> Inode" where
  "inode_new t = \<lparr>ftype = t, idata = (if t = Regular then replicate BUF_SIZE 0 else []),
     isize = 0, entries = [], in_use = True\<rparr>"

type_synonym RamFs = "Inode list"

datatype FsError = NoSpace | FNotFound | NotDirectory | NotFile | NameTooLong | DirFull | InvalidInode

type_synonym 'a fs_result = "(FsError, 'a) outcome"

definition ramfs_new :: RamFs where
  "ramfs_new = inode_new Directory #
     replicate (MAX_INODES - 1) \<lparr>ftype = Regular, idata = [], isize = 0, entries = [], in_use = False\<rparr>"

section \<open>Operations\<close>

definition alloc_inode :: "FileType \<Rightarrow> RamFs \<Rightarrow> usize fs_result \<times> RamFs" where
  "alloc_inode t fs =
     (let i = find_from (\<lambda>i. \<not> in_use (fs ! i)) 1 MAX_INODES
      in if i < MAX_INODES then (Ok i, fs[i := inode_new t]) else (Err NoSpace, fs))"

definition create :: "usize \<Rightarrow> string \<Rightarrow> FileType \<Rightarrow> RamFs \<Rightarrow> usize fs_result \<times> RamFs" where
  "create parent name t fs =
     (if length name > 255 then (Err NameTooLong, fs)
      else if length fs \<le> parent then (Panic, fs)
      else if \<not> in_use (fs ! parent) \<or> ftype (fs ! parent) \<noteq> Directory then (Err NotDirectory, fs)
      else if length (entries (fs ! parent)) \<ge> MAX_DIR_ENTRIES then (Err DirFull, fs)
      else case alloc_inode t fs of
             (Ok i, fs1) \<Rightarrow>
               (Ok i, fs1[parent := (fs1 ! parent)\<lparr>entries :=
                  entries (fs1 ! parent) @ [\<lparr>de_name = name, de_inode = i\<rparr>]\<rparr>])
           | (Err e, fs1) \<Rightarrow> (Err e, fs1)
           | (Panic, fs1) \<Rightarrow> (Panic, fs1))"

definition mkdir :: "usize \<Rightarrow> string \<Rightarrow> RamFs \<Rightarrow> usize fs_result \<times> RamFs" where
  "mkdir parent name fs = create parent name Directory fs"

text \<open>The position of the first entry of a name, the length of the list when there is none.\<close>

definition entry_pos :: "DirEntry list \<Rightarrow> string \<Rightarrow> nat" where
  "entry_pos es name = find_from (\<lambda>k. de_name (es ! k) = name) 0 (length es)"

definition lookup :: "usize \<Rightarrow> string \<Rightarrow> RamFs \<Rightarrow> usize fs_result" where
  "lookup parent name fs =
     (if parent \<ge> MAX_INODES \<or> \<not> in_use (fs ! parent) then Err InvalidInode
      else if ftype (fs ! parent) \<noteq> Directory then Err NotDirectory
      else let es = entries (fs ! parent); k = entry_pos es name
           in if k < length es then Ok (de_inode (es ! k)) else Err FNotFound)"

definition fs_open :: "usize \<Rightarrow> RamFs \<Rightarrow> FileType fs_result" where
  "fs_open i fs =
     (if i \<ge> MAX_INODES \<or> \<not> in_use (fs ! i) then Err InvalidInode else Ok (ftype (fs ! i)))"

text \<open>The result and the caller's buffer afterwards.\<close>

definition fs_read :: "usize \<Rightarrow> usize \<Rightarrow> u8 list \<Rightarrow> RamFs \<Rightarrow> usize fs_result \<times> u8 list" where
  "fs_read i offset buf fs =
     (if i \<ge> MAX_INODES \<or> \<not> in_use (fs ! i) then (Err InvalidInode, buf)
      else if ftype (fs ! i) \<noteq> Regular then (Err NotFile, buf)
      else let node = fs ! i
           in if offset \<ge> isize node then (Ok 0, buf)
              else let n = min (length buf) (isize node - offset)
                   in if offset + n > length (idata node) then (Panic, buf)
                      else (Ok n, take n (drop offset (idata node)) @ drop n buf))"

definition fs_write :: "usize \<Rightarrow> usize \<Rightarrow> u8 list \<Rightarrow> RamFs \<Rightarrow> usize fs_result \<times> RamFs" where
  "fs_write i offset data fs =
     (if i \<ge> MAX_INODES \<or> \<not> in_use (fs ! i) then (Err InvalidInode, fs)
      else if ftype (fs ! i) \<noteq> Regular then (Err NotFile, fs)
      else let node = fs ! i;
               end = min (uadd offset (length data)) BUF_SIZE;
               n = usub end offset
           in if offset > end \<or> end > length (idata node) \<or> n > length data then (Panic, fs)
              else (Ok n, fs[i := node\<lparr>
                     idata := take offset (idata node) @ take n data @ drop end (idata node),
                     isize := (if end > isize node then end else isize node)\<rparr>]))"

definition unlink :: "usize \<Rightarrow> string \<Rightarrow> RamFs \<Rightarrow> unit fs_result \<times> RamFs" where
  "unlink parent name fs =
     (if parent \<ge> MAX_INODES \<or> \<not> in_use (fs ! parent) then (Err InvalidInode, fs)
      else if ftype (fs ! parent) \<noteq> Directory then (Err NotDirectory, fs)
      else let es = entries (fs ! parent); k = entry_pos es name
           in if \<not> k < length es then (Err FNotFound, fs)
              else let i = de_inode (es ! k);
                       fs1 = fs[parent := (fs ! parent)\<lparr>entries := take k es @ drop (Suc k) es\<rparr>]
                   in if \<not> i < length fs1 then (Panic, fs1)
                      else (Ok (), fs1[i := (fs1 ! i)\<lparr>in_use := False, idata := [], entries := []\<rparr>]))"

section \<open>The invariant of the inode table\<close>

text \<open>\<open>refs\<close> lists the inode numbers that directory entries name, one per entry.\<close>

definition targets :: "Inode \<Rightarrow> usize list" where
  "targets n = map de_inode (entries n)"

definition refs :: "RamFs \<Rightarrow> usize list" where
  "refs fs = concat (map targets fs)"

definition inode_ok :: "Inode \<Rightarrow> bool" where
  "inode_ok n \<longleftrightarrow>
     (in_use n \<and> ftype n = Regular \<longrightarrow> length (idata n) = BUF_SIZE \<and> isize n \<le> BUF_SIZE \<and>
        set (drop (isize n) (idata n)) \<subseteq> {0}) \<and>
     (entries n \<noteq> [] \<longrightarrow> in_use n \<and> ftype n = Directory) \<and>
     length (entries n) \<le> MAX_DIR_ENTRIES"

definition fs_ok :: "RamFs \<Rightarrow> bool" where
  "fs_ok fs \<longleftrightarrow> length fs = MAX_INODES \<and> in_use (fs ! 0) \<and> ftype (fs ! 0) = Directory \<and>
     (\<forall>n \<in> set fs. inode_ok n) \<and> distinct (refs fs) \<and>
     (\<forall>i \<in> set (refs fs). 0 < i \<and> i < MAX_INODES \<and> in_use (fs ! i))"

lemmas fs_consts = MAX_INODES_def BUF_SIZE_def MAX_DIR_ENTRIES_def

lemma refs_update:
  assumes "i < length fs"
  obtains A B where "refs fs = A @ targets (fs ! i) @ B"
    and "\<And>n. refs (fs[i := n]) = A @ targets n @ B"
proof
  show "refs fs = refs (take i fs) @ targets (fs ! i) @ refs (drop (Suc i) fs)"
    using id_take_nth_drop [OF assms]
    by (metis (no_types, lifting) refs_def map_append list.map(2) concat_append concat.simps(2))
  show "refs (fs[i := n]) = refs (take i fs) @ targets n @ refs (drop (Suc i) fs)" for n
    using assms by (simp add: refs_def upd_conv_take_nth_drop)
qed

lemma fs_ok_nth: "fs_ok fs \<Longrightarrow> i < MAX_INODES \<Longrightarrow> inode_ok (fs ! i)"
  by (simp add: fs_ok_def)

lemma fs_ok_length: "fs_ok fs \<Longrightarrow> length fs = MAX_INODES"
  by (simp add: fs_ok_def)

lemma entry_pos_le: "entry_pos es name \<le> length es"
  by (simp add: entry_pos_def find_from_le)

lemma entry_target_in_refs:
  assumes "i < length fs" "k < length (entries (fs ! i))"
  shows "de_inode (entries (fs ! i) ! k) \<in> set (refs fs)"
proof -
  have "de_inode (entries (fs ! i) ! k) \<in> set (targets (fs ! i))"
    using assms(2) by (simp add: targets_def)
  with assms(1) show ?thesis by (auto simp: refs_def)
qed

lemma targets_simps [simp]:
  "targets (inode_new t) = []"
  "targets (n\<lparr>entries := es\<rparr>) = map de_inode es"
  "targets (n\<lparr>in_use := b, idata := d, entries := []\<rparr>) = []"
  "targets (n\<lparr>idata := d, isize := z\<rparr>) = targets n"
  by (simp_all add: targets_def inode_new_def)

lemma inode_new_fields [simp]:
  "in_use (inode_new t)" "ftype (inode_new t) = t" "entries (inode_new t) = []" "isize (inode_new t) = 0"
  "idata (inode_new t) = (if t = Regular then replicate BUF_SIZE 0 else [])"
  by (simp_all add: inode_new_def)

lemma inode_new_ok [simp]: "inode_ok (inode_new t)"
  by (auto simp: inode_ok_def inode_new_def)

lemma targets_unused: "inode_ok n \<Longrightarrow> \<not> in_use n \<Longrightarrow> targets n = []"
  by (auto simp: inode_ok_def targets_def)

lemma fs_new_ok: "fs_ok ramfs_new"
proof -
  have "refs ramfs_new = []"
    by (simp add: refs_def ramfs_new_def targets_def inode_new_def)
  moreover have "\<forall>n \<in> set ramfs_new. inode_ok n"
    by (simp add: ramfs_new_def inode_ok_def inode_new_def)
  ultimately show ?thesis
    by (simp add: fs_ok_def ramfs_new_def inode_new_def MAX_INODES_def)
qed

lemma alloc_inode_cases:
  obtains (full) "alloc_inode t fs = (Err NoSpace, fs)" "\<forall>i. 1 \<le> i \<and> i < MAX_INODES \<longrightarrow> in_use (fs ! i)"
  | (free) i where "alloc_inode t fs = (Ok i, fs[i := inode_new t])" "0 < i" "i < MAX_INODES"
      "\<not> in_use (fs ! i)"
proof (cases "find_from (\<lambda>i. \<not> in_use (fs ! i)) 1 MAX_INODES < MAX_INODES")
  case True
  then show ?thesis
    using find_from_sat [OF True] find_from_ge [of 1 MAX_INODES "\<lambda>i. \<not> in_use (fs ! i)"]
    by (intro free) (auto simp: alloc_inode_def MAX_INODES_def Let_def)
next
  case False
  then show ?thesis
    by (intro full) (auto simp: alloc_inode_def find_from_less_iff Let_def)
qed

lemma fs_ok_update:
  assumes ok: "fs_ok fs" and i: "i < MAX_INODES" and n: "inode_ok n"
    and dist: "distinct (targets n)"
    and fresh: "\<And>t. t \<in> set (targets n) \<Longrightarrow> t \<in> set (targets (fs ! i)) \<or> t \<notin> set (refs fs)"
    and tgt: "\<And>t. t \<in> set (targets n) \<Longrightarrow> 0 < t \<and> t < MAX_INODES \<and> (in_use (fs ! t) \<or> t = i)"
    and live: "in_use n \<or> 0 < i \<and> i \<notin> set (refs (fs[i := n]))"
    and root: "i = 0 \<Longrightarrow> ftype n = Directory"
  shows "fs_ok (fs[i := n])"
proof -
  have len: "length fs = MAX_INODES" by (rule fs_ok_length [OF ok])
  obtain A B where old: "refs fs = A @ targets (fs ! i) @ B"
    and new: "\<And>n. refs (fs[i := n]) = A @ targets n @ B"
    using refs_update [of i fs] i len by metis
  have "distinct (refs fs)" using ok by (simp add: fs_ok_def)
  then have d: "distinct (refs (fs[i := n]))"
    using old new dist fresh by (auto simp: disjoint_iff)
  have "0 < t \<and> t < MAX_INODES \<and> in_use (fs[i := n] ! t)" if "t \<in> set (refs (fs[i := n]))" for t
  proof (cases "t = i")
    case True
    with live that i len show ?thesis by auto (metis ok fs_ok_def new old tgt Un_iff set_append)
  next
    case False
    have "t \<in> set (refs fs) \<or> t \<in> set (targets n)" using that old new by auto
    with False tgt ok show ?thesis by (auto simp: fs_ok_def)
  qed
  moreover have "\<forall>m \<in> set (fs[i := n]). inode_ok m"
    using ok n set_update_subset_insert [of fs i n] by (auto simp: fs_ok_def)
  ultimately show ?thesis
    using ok d live root i len by (auto simp: fs_ok_def nth_list_update)
qed

lemma alloc_inode_inv:
  assumes ok: "fs_ok fs" and a: "alloc_inode t fs = (r, fs1)"
  shows "fs_ok fs1"
proof (cases rule: alloc_inode_cases [of t fs])
  case full
  with ok a show ?thesis by simp
next
  case (free i)
  have "fs_ok (fs[i := inode_new t])"
    by (rule fs_ok_update [OF ok free(3)]) (use free in simp_all)
  with free(1) a show ?thesis by simp
qed

lemma create_cases:
  assumes ok: "fs_ok fs"
  obtains (name) "create p name t fs = (Err NameTooLong, fs)" "length name > 255"
  | (panic) "create p name t fs = (Panic, fs)" "length name \<le> 255" "MAX_INODES \<le> p"
  | (notdir) "create p name t fs = (Err NotDirectory, fs)" "p < MAX_INODES" "length name \<le> 255"
      "\<not> in_use (fs ! p) \<or> ftype (fs ! p) \<noteq> Directory"
  | (dirfull) "create p name t fs = (Err DirFull, fs)" "p < MAX_INODES" "length name \<le> 255"
      "length (entries (fs ! p)) \<ge> MAX_DIR_ENTRIES"
  | (nospace) "create p name t fs = (Err NoSpace, fs)" "p < MAX_INODES" "length name \<le> 255"
      "\<forall>i. 1 \<le> i \<and> i < MAX_INODES \<longrightarrow> in_use (fs ! i)"
  | (made) i where "create p name t fs = (Ok i, fs[i := inode_new t,
        p := (fs ! p)\<lparr>entries := entries (fs ! p) @ [\<lparr>de_name = name, de_inode = i\<rparr>]\<rparr>])"
      "p < MAX_INODES" "length name \<le> 255" "in_use (fs ! p)" "ftype (fs ! p) = Directory"
      "length (entries (fs ! p)) < MAX_DIR_ENTRIES" "0 < i" "i < MAX_INODES" "\<not> in_use (fs ! i)" "i \<noteq> p"
proof -
  have len: "length fs = MAX_INODES" by (rule fs_ok_length [OF ok])
  consider "length name > 255" | "length name \<le> 255" "MAX_INODES \<le> p"
    | "length name \<le> 255" "p < MAX_INODES" "\<not> in_use (fs ! p) \<or> ftype (fs ! p) \<noteq> Directory"
    | "length name \<le> 255" "p < MAX_INODES" "in_use (fs ! p)" "ftype (fs ! p) = Directory"
        "length (entries (fs ! p)) \<ge> MAX_DIR_ENTRIES"
    | "length name \<le> 255" "p < MAX_INODES" "in_use (fs ! p)" "ftype (fs ! p) = Directory"
        "length (entries (fs ! p)) < MAX_DIR_ENTRIES"
    by linarith
  then show thesis
  proof cases
    case 5
    show thesis
    proof (cases rule: alloc_inode_cases [of t fs])
      case full
      with 5 len show thesis by (intro nospace) (simp_all add: create_def)
    next
      case (free i)
      with 5 len have "i \<noteq> p" by auto
      with 5 free len show thesis by (intro made [of i]) (simp_all add: create_def)
    qed
  qed (use len in \<open>auto simp: create_def intro: name panic notdir dirfull\<close>)
qed

lemma create_inv:
  assumes ok: "fs_ok fs" and c: "create p name t fs = (r, fs1)"
  shows "fs_ok fs1"
using ok
proof (cases rule: create_cases [of fs p name t])
  case (made i)
  have len: "length fs = MAX_INODES" by (rule fs_ok_length [OF ok])
  define fsa where "fsa = fs[i := inode_new t]"
  have oka: "fs_ok fsa"
    unfolding fsa_def by (rule fs_ok_update [OF ok made(8)]) (use made in simp_all)
  have nref: "i \<notin> set (refs fs)" using ok made(9) by (auto simp: fs_ok_def)
  have refsa: "refs fsa = refs fs"
    using refs_update [of i fs] made(8,9) len targets_unused [OF fs_ok_nth [OF ok made(8)]]
    unfolding fsa_def by (metis targets_simps(1))
  have pa: "fsa ! p = fs ! p" and ia: "in_use (fsa ! i)" using made(8,10) len by (simp_all add: fsa_def)
  have sub: "set (targets (fs ! p)) \<subseteq> set (refs fs)"
    using made(2) len by (auto simp: refs_def intro!: bexI [of _ "fs ! p"])
  have dist: "distinct (targets (fs ! p))"
    using ok refs_update [of p fs] made(2) len by (metis fs_ok_def distinct_append)
  have tgt: "0 < j \<and> j < MAX_INODES \<and> in_use (fsa ! j)" if "j \<in> set (refs fs)" for j
    using oka refsa that by (auto simp: fs_ok_def)
  have "fs_ok (fsa[p := (fs ! p)\<lparr>entries := entries (fs ! p) @ [\<lparr>de_name = name, de_inode = i\<rparr>]\<rparr>])"
  proof (rule fs_ok_update [OF oka made(2)])
    show "inode_ok ((fs ! p)\<lparr>entries := entries (fs ! p) @ [\<lparr>de_name = name, de_inode = i\<rparr>]\<rparr>)"
      using fs_ok_nth [OF ok made(2)] made(4-6) by (simp add: inode_ok_def)
  qed (use nref sub dist tgt made pa ia refsa in \<open>auto simp: targets_def [symmetric]\<close>)
  with made(1) c show ?thesis by (simp add: fsa_def)
qed (use assms in simp_all)

lemma write_cases:
  assumes ok: "fs_ok fs"
  obtains (inode) "fs_write i off d fs = (Err InvalidInode, fs)" "i \<ge> MAX_INODES \<or> \<not> in_use (fs ! i)"
  | (notfile) "fs_write i off d fs = (Err NotFile, fs)" "i < MAX_INODES" "in_use (fs ! i)"
      "ftype (fs ! i) \<noteq> Regular"
  | (panic) "fs_write i off d fs = (Panic, fs)" "i < MAX_INODES" "in_use (fs ! i)" "ftype (fs ! i) = Regular"
      "off > min (uadd off (length d)) BUF_SIZE"
  | (made) e where "e = min (uadd off (length d)) BUF_SIZE" "off \<le> e" "e - off \<le> length d"
      "fs_write i off d fs = (Ok (e - off), fs[i := (fs ! i)\<lparr>
         idata := take off (idata (fs ! i)) @ take (e - off) d @ drop e (idata (fs ! i)),
         isize := max e (isize (fs ! i))\<rparr>])"
      "i < MAX_INODES" "in_use (fs ! i)" "ftype (fs ! i) = Regular"
proof -
  define e where "e = min (uadd off (length d)) BUF_SIZE"
  consider "i \<ge> MAX_INODES \<or> \<not> in_use (fs ! i)" | "i < MAX_INODES" "in_use (fs ! i)" "ftype (fs ! i) \<noteq> Regular"
    | "i < MAX_INODES" "in_use (fs ! i)" "ftype (fs ! i) = Regular" "e < off"
    | "i < MAX_INODES" "in_use (fs ! i)" "ftype (fs ! i) = Regular" "off \<le> e"
    by linarith
  then show thesis
  proof cases
    case 1
    then show thesis by (intro inode) (simp_all add: fs_write_def)
  next
    case 2
    then show thesis by (intro notfile) (simp_all add: fs_write_def)
  next
    case 3
    then show thesis by (intro panic) (simp_all add: fs_write_def e_def Let_def)
  next
    case 4
    have "uadd off (length d) \<le> off + length d" by (simp add: uadd_def)
    then have n: "e - off \<le> length d" "usub e off = e - off"
      using 4(4) by (auto simp: e_def BUF_SIZE_def)
    have l: "length (idata (fs ! i)) = BUF_SIZE"
      using fs_ok_nth [OF ok 4(1)] 4 by (simp add: inode_ok_def)
    have "\<not> (off > e \<or> e > length (idata (fs ! i)) \<or> e - off > length d)"
      using 4(4) n(1) l unfolding not_less not_le de_Morgan_disj by (simp add: e_def)
    then have "fs_write i off d fs = (Ok (e - off), fs[i := (fs ! i)\<lparr>
         idata := take off (idata (fs ! i)) @ take (e - off) d @ drop e (idata (fs ! i)),
         isize := max e (isize (fs ! i))\<rparr>])"
      using 4(1-3) n(2) by (simp add: fs_write_def Let_def e_def [symmetric] max_def)
    with 4 n e_def show thesis by (intro made [of e])
  qed
qed

lemma fs_write_inv:
  assumes ok: "fs_ok fs" and w: "fs_write i off d fs = (r, fs1)"
  shows "fs_ok fs1"
using ok
proof (cases rule: write_cases [of fs i off d])
  case (made e)
  let ?n = "(fs ! i)\<lparr>idata := take off (idata (fs ! i)) @ take (e - off) d @ drop e (idata (fs ! i)),
         isize := max e (isize (fs ! i))\<rparr>"
  have i: "inode_ok (fs ! i)" by (rule fs_ok_nth [OF ok made(5)])
  have len: "length fs = MAX_INODES" by (rule fs_ok_length [OF ok])
  have "targets (fs ! i) = []" using i made(7) by (auto simp: inode_ok_def targets_def)
  moreover have "inode_ok ?n"
  proof -
    have "e \<le> BUF_SIZE" using made(1) by simp
    then have "drop (max e (isize (fs ! i))) (idata ?n) = drop (max e (isize (fs ! i))) (idata (fs ! i))"
      using i made by (auto simp: inode_ok_def max_def)
    moreover have "set (drop (max e (isize (fs ! i))) (idata (fs ! i))) \<subseteq> set (drop (isize (fs ! i)) (idata (fs ! i)))"
      by (rule set_drop_subset_set_drop) simp
    ultimately show ?thesis
      using i made \<open>e \<le> BUF_SIZE\<close> by (auto simp: inode_ok_def)
  qed
  moreover have "i \<noteq> 0" using ok made(7) by (cases "i = 0") (simp_all add: fs_ok_def)
  ultimately have "fs_ok (fs[i := ?n])"
    by (intro fs_ok_update [OF ok made(5)]) (use made in simp_all)
  with made(4) w show ?thesis by simp
qed (use assms in simp_all)

lemma unlink_cases:
  assumes ok: "fs_ok fs"
  obtains (inode) "unlink p name fs = (Err InvalidInode, fs)" "p \<ge> MAX_INODES \<or> \<not> in_use (fs ! p)"
  | (notdir) "unlink p name fs = (Err NotDirectory, fs)" "p < MAX_INODES" "in_use (fs ! p)"
      "ftype (fs ! p) \<noteq> Directory"
  | (missing) "unlink p name fs = (Err FNotFound, fs)" "p < MAX_INODES" "in_use (fs ! p)"
      "ftype (fs ! p) = Directory" "\<forall>e \<in> set (entries (fs ! p)). de_name e \<noteq> name"
  | (made) k es i where "es = entries (fs ! p)" "k = entry_pos es name" "k < length es"
      "i = de_inode (es ! k)" "de_name (es ! k) = name" "i \<in> set (refs fs)"
      "unlink p name fs = (Ok (), fs[p := (fs ! p)\<lparr>entries := take k es @ drop (Suc k) es\<rparr>,
         i := (fs[p := (fs ! p)\<lparr>entries := take k es @ drop (Suc k) es\<rparr>] ! i)\<lparr>
            in_use := False, idata := [], entries := []\<rparr>])"
      "p < MAX_INODES" "in_use (fs ! p)" "ftype (fs ! p) = Directory"
proof -
  define es where "es = entries (fs ! p)"
  define k where "k = entry_pos es name"
  have len: "length fs = MAX_INODES" by (rule fs_ok_length [OF ok])
  consider "p \<ge> MAX_INODES \<or> \<not> in_use (fs ! p)" | "p < MAX_INODES" "in_use (fs ! p)" "ftype (fs ! p) \<noteq> Directory"
    | "p < MAX_INODES" "in_use (fs ! p)" "ftype (fs ! p) = Directory" "\<not> k < length es"
    | "p < MAX_INODES" "in_use (fs ! p)" "ftype (fs ! p) = Directory" "k < length es"
    by linarith
  then show thesis
  proof cases
    case 1
    then show thesis by (intro inode) (simp_all add: unlink_def)
  next
    case 2
    then show thesis by (intro notdir) (simp_all add: unlink_def)
  next
    case 3
    have "\<forall>e \<in> set es. de_name e \<noteq> name"
      using 3(4) by (auto simp: k_def entry_pos_def find_from_less_iff in_set_conv_nth)
    with 3 show thesis by (intro missing) (simp_all add: unlink_def es_def k_def Let_def)
  next
    case 4
    have mem: "de_inode (es ! k) \<in> set (refs fs)"
      using entry_target_in_refs [of p fs k] 4 len by (simp add: es_def)
    then have "de_inode (es ! k) < MAX_INODES" using ok by (auto simp: fs_ok_def)
    moreover have "de_name (es ! k) = name"
      using find_from_sat [of "\<lambda>k. de_name (es ! k) = name" 0 "length es"] 4(4)
      by (simp add: k_def entry_pos_def)
    ultimately show thesis
      using 4 mem len by (intro made [OF es_def k_def]) (simp_all add: unlink_def Let_def es_def k_def)
  qed
qed

lemma unlink_inv:
  assumes ok: "fs_ok fs" and u: "unlink p name fs = (r, fs1)"
  shows "fs_ok fs1"
  using ok
proof (cases rule: unlink_cases [of fs p name])
  case (made k es i)
  have len: "length fs = MAX_INODES" by (rule fs_ok_length [OF ok])
  let ?es = "take k es @ drop (Suc k) es"
  define fsa where "fsa = fs[p := (fs ! p)\<lparr>entries := ?es\<rparr>]"
  obtain A B where old: "refs fs = A @ targets (fs ! p) @ B"
    and new: "\<And>n. refs (fs[p := n]) = A @ targets n @ B"
    using refs_update [of p fs] made(8) len by metis
  have split: "targets (fs ! p) = map de_inode (take k es) @ i # map de_inode (drop (Suc k) es)"
    using made(1,3,4) id_take_nth_drop [OF made(3)] by (simp add: targets_def flip: map_append list.map(2))
  have dist: "distinct (refs fs)" using ok by (simp add: fs_ok_def)
  have i: "0 < i" "i < MAX_INODES" using ok made(6) by (auto simp: fs_ok_def)
  have gone: "i \<notin> set (refs fsa)"
    using dist by (auto simp: fsa_def new old split)
  have pok: "inode_ok ((fs ! p)\<lparr>entries := ?es\<rparr>)"
    using fs_ok_nth [OF ok made(8)] made(1,3,9,10) by (auto simp: inode_ok_def)
  have oka: "fs_ok fsa"
    unfolding fsa_def
  proof (rule fs_ok_update [OF ok made(8) pok])
    show "distinct (targets ((fs ! p)\<lparr>entries := ?es\<rparr>))" using dist by (simp add: old split Int_Un_distrib)
    fix j assume "j \<in> set (targets ((fs ! p)\<lparr>entries := ?es\<rparr>))"
    then have j: "j \<in> set (targets (fs ! p))" by (auto simp: split)
    then show "j \<in> set (targets (fs ! p)) \<or> j \<notin> set (refs fs)" by simp
    from j show "0 < j \<and> j < MAX_INODES \<and> (in_use (fs ! j) \<or> j = p)"
      using ok old by (auto simp: fs_ok_def)
  qed (use made in simp_all)
  have "length fsa = MAX_INODES" using len by (simp add: fsa_def)
  then obtain A1 B1 where "refs fsa = A1 @ targets (fsa ! i) @ B1" "\<And>n. refs (fsa[i := n]) = A1 @ targets n @ B1"
    using refs_update [of i fsa] i(2) by metis
  then have refsb: "set (refs (fsa[i := n\<lparr>in_use := False, idata := [], entries := []\<rparr>])) \<subseteq> set (refs fsa)" for n
    by auto
  have "fs_ok (fsa[i := (fsa ! i)\<lparr>in_use := False, idata := [], entries := []\<rparr>])"
    by (rule fs_ok_update [OF oka i(2)]) (use i gone refsb in \<open>auto simp: inode_ok_def\<close>)
  with made(7) u show ?thesis by (simp add: fsa_def)
qed (use assms in simp_all)

section \<open>Reachable filesystems\<close>

text \<open>The operations that change the filesystem; the three others take it by shared reference.\<close>

inductive fs_step :: "RamFs \<Rightarrow> RamFs \<Rightarrow> bool" where
  fs_create: "create p name t fs = (r, fs1) \<Longrightarrow> fs_step fs fs1"
| fs_writes: "fs_write i off d fs = (r, fs1) \<Longrightarrow> fs_step fs fs1"
| fs_unlink: "unlink p name fs = (r, fs1) \<Longrightarrow> fs_step fs fs1"

definition fs_boot :: "RamFs \<Rightarrow> bool" where
  "fs_boot fs \<longleftrightarrow> fs = ramfs_new"

interpretation ramfs: transition_system fs_boot fs_step fs_ok
  by unfold_locales
    (auto simp: fs_boot_def fs_new_ok elim!: fs_step.cases dest: create_inv fs_write_inv unlink_inv)

lemma fs_read_no_panic: "fs_ok fs \<Longrightarrow> fst (fs_read i off buf fs) \<noteq> Panic"
  using fs_ok_nth [of fs i] by (auto simp: fs_read_def Let_def inode_ok_def)

text \<open>
  C15 (invariant). In every reachable filesystem the root is a directory in use, every directory
  entry names an inode in use other than the root, no inode is named twice, only directories in
  use have entries and at most 64 of them, and a regular file in use has a 4096-byte buffer that
  holds its size and is zero beyond it. No read and no unlink panics, whatever its arguments;
  \<open>create\<close> panics exactly when the parent number is out of range (its check is missing), and \<open>write\<close>
  exactly when the offset lies beyond the end \<open>min (offset + len) 4096\<close> it computes.
\<close>

theorem fs_integrity:
  assumes "reachable fs_boot fs_step fs"
  shows "length fs = 256 \<and> in_use (fs ! 0) \<and> ftype (fs ! 0) = Directory \<and>
    distinct (refs fs) \<and> (\<forall>i \<in> set (refs fs). 0 < i \<and> i < 256 \<and> in_use (fs ! i)) \<and>
    (\<forall>i < 256. inode_ok (fs ! i)) \<and>
    (fst (create p name t fs) = Panic \<longleftrightarrow> length name \<le> 255 \<and> 256 \<le> p) \<and>
    fst (unlink p name fs) \<noteq> Panic \<and> fst (fs_read i off buf fs) \<noteq> Panic \<and>
    (fst (fs_write i off d fs) = Panic \<longleftrightarrow> i < 256 \<and> in_use (fs ! i) \<and> ftype (fs ! i) = Regular \<and>
       min (uadd off (length d)) 4096 < off)"
proof -
  have ok: "fs_ok fs" by (rule ramfs.reachable_inv [OF assms])
  have "fst (create p name t fs) = Panic \<longleftrightarrow> length name \<le> 255 \<and> 256 \<le> p"
    using ok by (cases rule: create_cases [of fs p name t]) (simp_all add: MAX_INODES_def)
  moreover have "fst (unlink p name fs) \<noteq> Panic"
    using ok by (cases rule: unlink_cases [of fs p name]) simp_all
  moreover have "fst (fs_write i off d fs) = Panic \<longleftrightarrow> i < 256 \<and> in_use (fs ! i) \<and>
      ftype (fs ! i) = Regular \<and> min (uadd off (length d)) 4096 < off"
    using ok by (cases rule: write_cases [of fs i off d]) (auto simp: fs_consts)
  ultimately show ?thesis
    using ok fs_read_no_panic [OF ok] fs_ok_nth [OF ok] by (simp add: fs_ok_def MAX_INODES_def)
qed

theorem fs_integrity_witness:
  "let fs = snd (fs_write 1 4000 (replicate 200 7) (snd (create 0 ''log'' Regular ramfs_new)))
   in distinct (refs fs) \<and> fst (create 300 ''x'' Directory fs) = Panic \<and> fst (fs_read 1 0 [0] fs) \<noteq> Panic"
proof -
  define fs where "fs = snd (fs_write 1 4000 (replicate 200 7) (snd (create 0 ''log'' Regular ramfs_new)))"
  have "reachable fs_boot fs_step fs"
    unfolding fs_def
    by (metis fs_boot_def reach_init reach_step fs_create fs_writes prod.collapse)
  from fs_integrity [OF this, of 300 "''x''" Directory 1 0 "[0]" "[]"]
  show ?thesis unfolding fs_def [symmetric] Let_def by simp
qed

section \<open>Reading back what was written\<close>

text \<open>
  C16 (roundtrip). A successful write of \<open>d\<close> at \<open>off\<close> stores as many bytes as fit below 4096 and
  returns their number; reading that many bytes at \<open>off\<close> gives them back, a read of a range the file
  had before and the write does not touch gives what it gave before, a gap left between the old end
  and \<open>off\<close> reads as zeros, the size is the larger of the old size and the end of the write, and no
  other inode changes.
\<close>

theorem fs_write_read:
  assumes reach: "reachable fs_boot fs_step fs"
    and w: "fs_write i off d fs = (Ok n, fs1)"
    and nowrap: "off + length d < usize_mod"
  shows "n = min (length d) (4096 - off) \<and>
    isize (fs1 ! i) = max (off + n) (isize (fs ! i)) \<and>
    (\<forall>buf. length buf = n \<longrightarrow> fs_read i off buf fs1 = (Ok n, take n d)) \<and>
    (\<forall>o1 buf. o1 + length buf \<le> isize (fs ! i) \<and> (o1 + length buf \<le> off \<or> off + n \<le> o1) \<longrightarrow>
       fs_read i o1 buf fs1 = fs_read i o1 buf fs) \<and>
    (\<forall>k. isize (fs ! i) \<le> k \<and> k < off \<longrightarrow> idata (fs1 ! i) ! k = 0) \<and>
    (\<forall>j. j \<noteq> i \<longrightarrow> fs1 ! j = fs ! j)"
proof -
  have ok: "fs_ok fs" by (rule ramfs.reachable_inv [OF reach])
  have len: "length fs = MAX_INODES" by (rule fs_ok_length [OF ok])
  let ?d0 = "idata (fs ! i)"
  obtain e where e: "e = min (off + length d) 4096" "off \<le> e" "n = e - off"
    and i: "i < 256" "in_use (fs ! i)" "ftype (fs ! i) = Regular"
    and fs1: "fs1 = fs[i := (fs ! i)\<lparr>idata := take off ?d0 @ take n d @ drop e ?d0,
         isize := max e (isize (fs ! i))\<rparr>]"
    using ok w nowrap by (cases rule: write_cases [of fs i off d]) (auto simp: fs_consts)
  have l: "length ?d0 = 4096" "isize (fs ! i) \<le> 4096" "set (drop (isize (fs ! i)) ?d0) \<subseteq> {0}"
    using fs_ok_nth [OF ok] i by (auto simp: inode_ok_def fs_consts)
  have n: "n = min (length d) (4096 - off)" "e \<le> 4096" "n \<le> length d" using e by auto
  let ?d1 = "take off ?d0 @ take n d @ drop e ?d0"
  have l1: "length ?d1 = 4096" using l(1) e(2,3) n(2,3) by simp
  have node: "fs1 ! i = (fs ! i)\<lparr>idata := ?d1, isize := max e (isize (fs ! i))\<rparr>"
    using fs1 i len by (simp add: MAX_INODES_def)
  have en: "e = off + n" and off: "off \<le> 4096" using e(2,3) n(2) by simp_all
  have "fs_read i off buf fs1 = (Ok n, take n d)" if buf: "length buf = n" for buf
  proof (cases "off < max e (isize (fs ! i))")
    case True
    have "min (length buf) (max e (isize (fs ! i)) - off) = n" using buf en by simp
    moreover have "drop off ?d1 = take n d @ drop e ?d0" using l(1) off by simp
    ultimately show ?thesis
      using True buf i l1 n(2,3) en unfolding fs_read_def node by (auto simp: MAX_INODES_def Let_def)
  next
    case False
    then have "n = 0" using en by simp
    moreover from this have "buf = []" using buf by simp
    ultimately show ?thesis
      using False i en unfolding fs_read_def node by (simp add: MAX_INODES_def Let_def)
  qed
  moreover have "fs_read i o1 buf fs1 = fs_read i o1 buf fs"
    if "o1 + length buf \<le> isize (fs ! i)" "o1 + length buf \<le> off \<or> off + n \<le> o1" for o1 buf
  proof -
    have "take (length buf) (drop o1 ?d1) = take (length buf) (drop o1 ?d0)"
    proof (rule nth_equalityI)
      fix k assume "k < length (take (length buf) (drop o1 ?d1))"
      then have "k < min (length buf) (4096 - o1)" by (simp only: length_take length_drop l1)
      then have k: "k < length buf" "o1 + k < 4096" by linarith+
      have "?d1 ! (o1 + k) = ?d0 ! (o1 + k)"
        using k that(2) en n(2,3) l(1) off by (auto simp: nth_append)
      then show "take (length buf) (drop o1 ?d1) ! k = take (length buf) (drop o1 ?d0) ! k"
        using k by (simp only: nth_take nth_drop l(1) l1 less_imp_le)
    qed (simp only: length_take length_drop l(1) l1)
    moreover have "o1 < max e (isize (fs ! i)) \<or> buf = []" "o1 < isize (fs ! i) \<or> buf = []"
      "min (length buf) (max e (isize (fs ! i)) - o1) = length buf"
      "min (length buf) (isize (fs ! i) - o1) = length buf"
      "o1 + length buf \<le> 4096"
      using that(1) l(2) by (cases buf; simp)+
    ultimately show ?thesis
      using i l(1) l1 unfolding fs_read_def node by (auto simp: MAX_INODES_def Let_def)
  qed
  moreover have "idata (fs1 ! i) ! k = 0" if "isize (fs ! i) \<le> k" "k < off" for k
  proof -
    have "k < 4096" using that e by simp
    then have "?d0 ! k \<in> set (drop (isize (fs ! i)) ?d0)"
      using that(1) l(1) \<open>k < 4096\<close> by (auto simp: in_set_conv_nth intro!: exI [of _ "k - isize (fs ! i)"])
    then have "?d0 ! k = 0" using l(3) by blast
    then show ?thesis using that(2) \<open>k < 4096\<close> l(1) by (simp add: node nth_append)
  qed
  moreover have "isize (fs1 ! i) = max (off + n) (isize (fs ! i))" using e by (simp add: node)
  ultimately show ?thesis using n(1) by (simp add: fs1)
qed

text \<open>The first inode handed out is number 1.\<close>

lemma create_first:
  assumes "length name \<le> 255"
  shows "create 0 name t ramfs_new = (Ok 1, ramfs_new[1 := inode_new t,
     0 := (inode_new Directory)\<lparr>entries := [\<lparr>de_name = name, de_inode = 1\<rparr>]\<rparr>])"
proof -
  have "length ramfs_new = 256" "ramfs_new ! 0 = inode_new Directory" "\<not> in_use (ramfs_new ! 1)"
    by (simp_all add: ramfs_new_def MAX_INODES_def)
  with assms show ?thesis
    by (simp add: create_def alloc_inode_def fs_consts)
qed

definition fs_example :: RamFs where
  "fs_example = snd (create 0 ''log'' Regular ramfs_new)"

lemma fs_example_reachable: "reachable fs_boot fs_step fs_example"
  unfolding fs_example_def by (metis fs_boot_def reach_init reach_step fs_create prod.collapse)

lemma fs_example_nth: "fs_example ! 1 = inode_new Regular"
proof -
  have "length ramfs_new = 256" by (simp add: ramfs_new_def MAX_INODES_def)
  then show ?thesis by (simp add: fs_example_def create_first)
qed

theorem fs_write_read_witness:
  "\<exists>fs1. fs_write 1 4094 [7, 8, 9] fs_example = (Ok 2, fs1) \<and> isize (fs1 ! 1) = 4096 \<and>
     fs_read 1 4094 [0, 0] fs1 = (Ok 2, [7, 8]) \<and> idata (fs1 ! 1) ! 100 = 0"
proof -
  have w: "fs_write 1 4094 [7, 8, 9] fs_example = (Ok 2, snd (fs_write 1 4094 [7, 8, 9] fs_example))"
    using fs_example_nth by (simp add: fs_write_def fs_consts)
  have "isize (fs_example ! 1) = 0" using fs_example_nth by simp
  then show ?thesis
    using fs_write_read [OF fs_example_reachable w] w by (intro exI conjI) (assumption | simp)+
qed

section \<open>Names\<close>

definition dir_find :: "DirEntry list \<Rightarrow> string \<Rightarrow> usize option" where
  "dir_find es name = map_option de_inode (find (\<lambda>e. de_name e = name) es)"

lemma find_conv_find_from:
  "find P xs = (let k = find_from (\<lambda>k. P (xs ! k)) 0 (length xs) in if k < length xs then Some (xs ! k) else None)"
proof (cases "\<exists>x \<in> set xs. P x")
  case True
  then obtain j where "j < length xs" "P (xs ! j)" by (auto simp: in_set_conv_nth)
  then have lt: "find_from (\<lambda>k. P (xs ! k)) 0 (length xs) < length xs"
    by (auto simp: find_from_less_iff)
  then show ?thesis
    using find_from_sat [OF lt] find_from_before [of 0 _ "\<lambda>k. P (xs ! k)" "length xs"]
    by (auto simp: Let_def find_Some_iff)
next
  case False
  then show ?thesis by (auto simp: find_None_iff find_from_less_iff Let_def)
qed

lemma lookup_dir_find:
  "lookup p name fs =
     (if p \<ge> MAX_INODES \<or> \<not> in_use (fs ! p) then Err InvalidInode
      else if ftype (fs ! p) \<noteq> Directory then Err NotDirectory
      else case dir_find (entries (fs ! p)) name of Some i \<Rightarrow> Ok i | None \<Rightarrow> Err FNotFound)"
  by (simp add: lookup_def dir_find_def find_conv_find_from entry_pos_def Let_def)

lemma dir_find_snoc:
  "dir_find (es @ [e]) name =
     (case dir_find es name of Some i \<Rightarrow> Some i | None \<Rightarrow> if de_name e = name then Some (de_inode e) else None)"
  by (induction es) (auto simp: dir_find_def)

lemma dir_find_in: "dir_find es name = Some i \<Longrightarrow> i \<in> de_inode ` set es"
  by (auto simp: dir_find_def find_Some_iff)

text \<open>
  A successful \<open>create\<close> hands out an inode that was free, clean and of the
  requested type, and puts it into the directory under the name. A lookup of the name then finds
  the new inode if the directory had no such name, and still the older one if it had: the new inode
  is then found under no name of any directory. Other lookups are as before. When the name was new,
  \<open>unlink\<close> of it succeeds, frees the inode and gives back every lookup of the directory as it was.
\<close>

theorem fs_namespace:
  assumes reach: "reachable fs_boot fs_step fs"
    and c: "create p name t fs = (Ok i, fs1)"
  shows "\<not> in_use (fs ! i) \<and> fs1 ! i = inode_new t \<and>
    lookup p name fs1 = (case lookup p name fs of Ok j \<Rightarrow> Ok j | _ \<Rightarrow> Ok i) \<and>
    (\<forall>q m. (q, m) \<noteq> (p, name) \<and> q \<noteq> i \<longrightarrow> lookup q m fs1 = lookup q m fs) \<and>
    (is_ok (lookup p name fs) \<longrightarrow> (\<forall>q m. lookup q m fs1 \<noteq> Ok i)) \<and>
    (\<not> is_ok (lookup p name fs) \<longrightarrow> (\<exists>fs2. unlink p name fs1 = (Ok (), fs2) \<and> \<not> in_use (fs2 ! i) \<and>
       (\<forall>m. lookup p m fs2 = lookup p m fs)))"
proof -
  have ok: "fs_ok fs" by (rule ramfs.reachable_inv [OF reach])
  have len: "length fs = MAX_INODES" by (rule fs_ok_length [OF ok])
  define es where "es = entries (fs ! p)"
  have fs1: "fs1 = fs[i := inode_new t, p := (fs ! p)\<lparr>entries := es @ [\<lparr>de_name = name, de_inode = i\<rparr>]\<rparr>]"
    and p: "p < MAX_INODES" "in_use (fs ! p)" "ftype (fs ! p) = Directory"
    and i: "i < MAX_INODES" "\<not> in_use (fs ! i)" "i \<noteq> p"
    using ok c by (cases rule: create_cases [of fs p name t]; simp add: es_def)+
  have nref: "i \<notin> set (refs fs)" using ok i(2) by (auto simp: fs_ok_def)
  have nowhere: "i \<notin> de_inode ` set (entries (fs ! q))" if "q < MAX_INODES" for q
    using nref that len nth_mem [of q fs] by (auto simp: refs_def targets_def)
  have node: "fs1 ! i = inode_new t" "fs1 ! p = (fs ! p)\<lparr>entries := es @ [\<lparr>de_name = name, de_inode = i\<rparr>]\<rparr>"
    "\<And>q. q \<noteq> i \<Longrightarrow> q \<noteq> p \<Longrightarrow> fs1 ! q = fs ! q"
    using fs1 len i p by simp_all
  have old: "lookup p m fs = (case dir_find es m of Some j \<Rightarrow> Ok j | None \<Rightarrow> Err FNotFound)" for m
    using p by (simp add: lookup_dir_find es_def)
  have new: "lookup p m fs1 = (case dir_find (es @ [\<lparr>de_name = name, de_inode = i\<rparr>]) m of
      Some j \<Rightarrow> Ok j | None \<Rightarrow> Err FNotFound)" for m
    using p node by (simp add: lookup_dir_find)
  have "lookup p name fs1 = (case lookup p name fs of Ok j \<Rightarrow> Ok j | _ \<Rightarrow> Ok i)"
    by (simp add: old new dir_find_snoc split: option.split)
  moreover have "lookup q m fs1 = lookup q m fs" if "(q, m) \<noteq> (p, name)" "q \<noteq> i" for q m
  proof (cases "q = p")
    case True
    with that show ?thesis by (auto simp: old new dir_find_snoc split: option.split)
  next
    case False
    with that node(3) show ?thesis by (simp add: lookup_def)
  qed
  moreover have "lookup q m fs1 \<noteq> Ok i" if has: "is_ok (lookup p name fs)" for q m
  proof -
    consider "q = p" | "q = i" | "q \<ge> MAX_INODES" | "q < MAX_INODES" "q \<noteq> i" "q \<noteq> p" by linarith
    then show ?thesis
    proof cases
      case 1
      obtain j where "dir_find es name = Some j" using has by (auto simp: old split: option.splits)
      moreover have "dir_find es m \<noteq> Some i" using nowhere [OF p(1)] dir_find_in [of es m i] by (auto simp: es_def)
      ultimately show ?thesis using 1 by (auto simp: new dir_find_snoc split: option.splits)
    next
      case 4
      then show ?thesis
        using nowhere [of q] dir_find_in [of "entries (fs ! q)" m i] node(3) [of q]
        by (auto simp: lookup_dir_find split: option.splits)
    qed (simp_all add: node lookup_dir_find dir_find_def)
  qed
  moreover have "\<exists>fs2. unlink p name fs1 = (Ok (), fs2) \<and> \<not> in_use (fs2 ! i) \<and>
       (\<forall>m. lookup p m fs2 = lookup p m fs)" if "\<not> is_ok (lookup p name fs)"
  proof -
    let ?e = "\<lparr>de_name = name, de_inode = i\<rparr>"
    have "dir_find es name = None" using that by (auto simp: old split: option.splits)
    then have "\<And>k. k < length es \<Longrightarrow> de_name (es ! k) \<noteq> name"
      by (auto simp: dir_find_def find_None_iff)
    then have k: "entry_pos (es @ [?e]) name = length es"
      unfolding entry_pos_def by (intro find_from_eqI) (simp_all add: nth_append)
    have es1: "entries (fs1 ! p) = es @ [?e]" by (simp add: node)
    have "unlink p name fs1 = (Ok (), fs1[p := (fs1 ! p)\<lparr>entries := es\<rparr>,
        i := inode_new t\<lparr>in_use := False, idata := [], entries := []\<rparr>])"
      using p i len node fs1 unfolding unlink_def es1 k Let_def by simp
    moreover have "lookup p m (fs1[p := (fs1 ! p)\<lparr>entries := es\<rparr>,
        i := inode_new t\<lparr>in_use := False, idata := [], entries := []\<rparr>]) = lookup p m fs" for m
      using p i len fs1 unfolding old by (simp add: lookup_dir_find node)
    ultimately show ?thesis using i len fs1 by simp
  qed
  ultimately show ?thesis using i(2) node(1) by blast
qed

theorem fs_namespace_witness:
  "\<exists>fs1. create 0 ''log'' Regular ramfs_new = (Ok 1, fs1) \<and> lookup 0 ''log'' fs1 = Ok 1"
proof -
  have "reachable fs_boot fs_step ramfs_new" by (simp add: fs_boot_def reach_init)
  moreover have c: "create 0 ''log'' Regular ramfs_new = (Ok 1, fs_example)"
    by (simp add: create_first fs_example_def)
  moreover have "lookup 0 ''log'' ramfs_new = Err FNotFound"
    by (simp add: lookup_def ramfs_new_def MAX_INODES_def entry_pos_def)
  ultimately show ?thesis using fs_namespace [OF _ c] by simp
qed

end
