(* ===== verification/Bytes.thy ===== *)
theory Bytes
  imports Prelude
begin

text \<open>
  Byte order. A slice of a buffer, numbers as little-endian and big-endian byte lists, and their
  round trips: what \<open>to_le_bytes\<close>, \<open>from_be_bytes\<close> and the reads of packed structures do.
\<close>

definition slice :: "'a list \<Rightarrow> nat \<Rightarrow> nat \<Rightarrow> 'a list" where
  "slice xs off n = take n (drop off xs)"

lemma length_slice [simp]: "length (slice xs off n) = min n (length xs - off)"
  by (simp add: slice_def)

lemma nth_slice: "i < n \<Longrightarrow> off + i < length xs \<Longrightarrow> slice xs off n ! i = xs ! (off + i)"
  by (simp add: slice_def)

lemma slice_all [simp]: "slice xs 0 (length xs) = xs"
  by (simp add: slice_def)

lemma slice_append1: "off + n \<le> length xs \<Longrightarrow> slice (xs @ ys) off n = slice xs off n"
  by (simp add: slice_def)

lemma slice_append2: "length xs \<le> off \<Longrightarrow> slice (xs @ ys) off n = slice ys (off - length xs) n"
  by (simp add: slice_def)

fun le_nat :: "u8 list \<Rightarrow> nat" where
  "le_nat [] = 0"
| "le_nat (b # bs) = unat b + 256 * le_nat bs"

fun to_le :: "nat \<Rightarrow> nat \<Rightarrow> u8 list" where
  "to_le 0 v = []"
| "to_le (Suc n) v = of_nat v # to_le n (v div 256)"

definition be_nat :: "u8 list \<Rightarrow> nat" where
  "be_nat bs = le_nat (rev bs)"

definition to_be :: "nat \<Rightarrow> nat \<Rightarrow> u8 list" where
  "to_be n v = rev (to_le n v)"

lemma length_to_le [simp]: "length (to_le n v) = n"
  by (induction n arbitrary: v) simp_all

lemma length_to_be [simp]: "length (to_be n v) = n"
  by (simp add: to_be_def)

lemma le_nat_less: "le_nat bs < 256 ^ length bs"
proof (induction bs)
  case (Cons b bs)
  have "unat b < 256" by (rule unat_u8_less)
  with Cons show ?case by simp
qed simp

lemma be_nat_less: "be_nat bs < 256 ^ length bs"
  using le_nat_less [of "rev bs"] by (simp add: be_nat_def)

lemma le_nat_to_le: "le_nat (to_le n v) = v mod 256 ^ n"
proof (induction n arbitrary: v)
  case (Suc n)
  have "unat (of_nat v :: u8) = v mod 256"
    by (simp add: unsigned_of_nat take_bit_eq_mod)
  then show ?case using Suc by (simp add: mod_mult2_eq)
qed simp

lemma be_nat_to_be: "be_nat (to_be n v) = v mod 256 ^ n"
  by (simp add: be_nat_def to_be_def le_nat_to_le)

lemma to_le_le_nat: "to_le (length bs) (le_nat bs) = bs"
proof (induction bs)
  case (Cons b bs)
  have "(unat b + 256 * le_nat bs) div 256 = le_nat bs"
    by (simp add: unat_u8_less)
  moreover have "(of_nat (unat b + 256 * le_nat bs) :: u8) = b"
  proof -
    have z: "(256 :: u8) = 0" by simp
    show ?thesis unfolding of_nat_add of_nat_mult of_nat_numeral z by simp
  qed
  ultimately show ?case using Cons by simp
qed simp

lemma to_be_be_nat: "to_be (length bs) (be_nat bs) = bs"
  using to_le_le_nat [of "rev bs"] by (simp add: to_be_def be_nat_def)

section \<open>Text\<close>

text \<open>The bytes of an ASCII string.\<close>

definition ascii :: "string \<Rightarrow> u8 list" where
  "ascii = map of_char"

text \<open>Strings are their UTF-8 bytes; \<open>from_utf8\<close> checks them.\<close>

definition cont :: "u8 \<Rightarrow> bool" where
  "cont b \<longleftrightarrow> 0x80 \<le> b \<and> b \<le> 0xBF"

fun valid_utf8 :: "u8 list \<Rightarrow> bool" where
  "valid_utf8 [] = True"
| "valid_utf8 (b # bs) =
     (if b \<le> 0x7F then valid_utf8 bs
      else if 0xC2 \<le> b \<and> b \<le> 0xDF then (case bs of c # r \<Rightarrow> cont c \<and> valid_utf8 r | _ \<Rightarrow> False)
      else if 0xE0 \<le> b \<and> b \<le> 0xEF then
        (case bs of c # d # r \<Rightarrow>
             (if b = 0xE0 then 0xA0 \<le> c \<and> c \<le> 0xBF else if b = 0xED then 0x80 \<le> c \<and> c \<le> 0x9F else cont c) \<and>
             cont d \<and> valid_utf8 r
         | _ \<Rightarrow> False)
      else if 0xF0 \<le> b \<and> b \<le> 0xF4 then
        (case bs of c # d # e # r \<Rightarrow>
             (if b = 0xF0 then 0x90 \<le> c \<and> c \<le> 0xBF else if b = 0xF4 then 0x80 \<le> c \<and> c \<le> 0x8F else cont c) \<and>
             cont d \<and> cont e \<and> valid_utf8 r
         | _ \<Rightarrow> False)
      else False)"

section \<open>Fields of a packet\<close>

definition le16 :: "u8 list \<Rightarrow> usize \<Rightarrow> u16" where
  "le16 p i = of_nat (le_nat (slice p i 2))"

definition be32 :: "u8 list \<Rightarrow> usize \<Rightarrow> u32" where
  "be32 p i = of_nat (be_nat (slice p i 4))"

lemma le16_to_le: "le16 (to_le 2 (unat w) @ r) 0 = w"
  using unat_u16_less [of w] by (simp add: le16_def slice_def le_nat_to_le)

lemma be32_to_be: "be32 (to_be 4 (unat w) @ r) 0 = w"
  using unat_u32_less [of w] by (simp add: be32_def slice_def be_nat_to_be)

lemma le16_append: "length xs = k \<Longrightarrow> le16 (xs @ ys) (k + i) = le16 ys i"
  by (simp add: le16_def slice_append2)

lemma be32_append: "length xs = k \<Longrightarrow> be32 (xs @ ys) (k + i) = be32 ys i"
  by (simp add: be32_def slice_append2)

end
