(* ===== verification/Elf.thy ===== *)
theory Elf
  imports Bytes
begin

text \<open>
  The ELF64 parser, \<open>kernel/src/elf.rs\<close>. A file is its list of bytes; the two packed headers are
  records read at an offset, little-endian. The source reads them through raw pointers: a read
  that leaves the file is \<open>Panic\<close> here, and \<open>parse_elf64_spec\<close> shows that there is none.
\<close>

definition ELF_MAGIC :: "u8 list" where "ELF_MAGIC = [0x7f, 0x45, 0x4c, 0x46]"
definition ELFCLASS64 :: u8 where "ELFCLASS64 = 2"
definition ELFDATA2LSB :: u8 where "ELFDATA2LSB = 1"
definition EM_AARCH64 :: u16 where "EM_AARCH64 = 0xB7"
definition PT_LOAD :: u32 where "PT_LOAD = 1"
definition USER_SPACE_LIMIT :: u64 where "USER_SPACE_LIMIT = 0x0000800000000000"

datatype ElfError =
    TooShort | BadMagic | NotElf64 | NotLittleEndian | NotAarch64 | InvalidPhdr
  | SegmentOutOfRange | OverlappingSegments

record LoadSegment =
  seg_vaddr :: u64
  seg_memsz :: u64
  seg_filesz :: u64
  seg_offset :: u64
  seg_flags :: u32

record ElfInfo =
  entry_point :: u64
  segments :: "LoadSegment list"

record Elf64Ehdr =
  e_ident :: "u8 list"
  e_type :: u16
  e_machine :: u16
  e_version :: u32
  e_entry :: u64
  e_phoff :: u64
  e_shoff :: u64
  e_flags :: u32
  e_ehsize :: u16
  e_phentsize :: u16
  e_phnum :: u16
  e_shentsize :: u16
  e_shnum :: u16
  e_shstrndx :: u16

record Elf64Phdr =
  p_type :: u32
  p_flags :: u32
  p_offset :: u64
  p_vaddr :: u64
  p_paddr :: u64
  p_filesz :: u64
  p_memsz :: u64
  p_align :: u64

definition le_word :: "u8 list \<Rightarrow> nat \<Rightarrow> nat \<Rightarrow> 'a::len word" where
  "le_word data off n = of_nat (le_nat (slice data off n))"

definition read_ehdr :: "u8 list \<Rightarrow> Elf64Ehdr" where
  "read_ehdr data = \<lparr>e_ident = slice data 0 16, e_type = le_word data 16 2, e_machine = le_word data 18 2,
     e_version = le_word data 20 4, e_entry = le_word data 24 8, e_phoff = le_word data 32 8,
     e_shoff = le_word data 40 8, e_flags = le_word data 48 4, e_ehsize = le_word data 52 2,
     e_phentsize = le_word data 54 2, e_phnum = le_word data 56 2, e_shentsize = le_word data 58 2,
     e_shnum = le_word data 60 2, e_shstrndx = le_word data 62 2\<rparr>"

definition read_phdr :: "u8 list \<Rightarrow> nat \<Rightarrow> Elf64Phdr" where
  "read_phdr data off = \<lparr>p_type = le_word data off 4, p_flags = le_word data (off + 4) 4,
     p_offset = le_word data (off + 8) 8, p_vaddr = le_word data (off + 16) 8,
     p_paddr = le_word data (off + 24) 8, p_filesz = le_word data (off + 32) 8,
     p_memsz = le_word data (off + 40) 8, p_align = le_word data (off + 48) 8\<rparr>"

section \<open>The parser\<close>

text \<open>One program header: skipped, an error, or a segment.\<close>

definition load_phdr :: "u8 list \<Rightarrow> usize \<Rightarrow> (ElfError, LoadSegment option) outcome" where
  "load_phdr data off =
     (if off + 56 > length data then Panic
      else let ph = read_phdr data off
           in if p_type ph \<noteq> PT_LOAD then Ok None
              else if unat (p_vaddr ph) + unat (p_memsz ph) \<ge> 2 ^ 64 then Err SegmentOutOfRange
              else if p_vaddr ph + p_memsz ph > USER_SPACE_LIMIT then Err SegmentOutOfRange
              else if p_filesz ph > p_memsz ph then Err InvalidPhdr
              else Ok (Some \<lparr>seg_vaddr = p_vaddr ph, seg_memsz = p_memsz ph, seg_filesz = p_filesz ph,
                             seg_offset = p_offset ph, seg_flags = p_flags ph\<rparr>))"

fun load_phdrs :: "u8 list \<Rightarrow> usize list \<Rightarrow> (ElfError, LoadSegment list) outcome" where
  "load_phdrs data [] = Ok []"
| "load_phdrs data (off # offs) =
     (case load_phdr data off of
        Panic \<Rightarrow> Panic
      | Err e \<Rightarrow> Err e
      | Ok s \<Rightarrow> (case load_phdrs data offs of
                   Ok ss \<Rightarrow> Ok (case s of None \<Rightarrow> ss | Some x \<Rightarrow> x # ss)
                 | r \<Rightarrow> r))"

definition seg_overlap :: "LoadSegment \<Rightarrow> LoadSegment \<Rightarrow> bool" where
  "seg_overlap a b \<longleftrightarrow> seg_vaddr a < seg_vaddr b + seg_memsz b \<and> seg_vaddr b < seg_vaddr a + seg_memsz a"

definition any_overlap :: "LoadSegment list \<Rightarrow> bool" where
  "any_overlap ss \<longleftrightarrow>
     list_ex (\<lambda>i. list_ex (\<lambda>j. seg_overlap (ss ! i) (ss ! j)) [i + 1..<length ss]) [0..<length ss]"

definition parse_elf64 :: "u8 list \<Rightarrow> (ElfError, ElfInfo) outcome" where
  "parse_elf64 data =
     (if length data < 64 then Err TooShort
      else let eh = read_ehdr data
      in if take 4 (e_ident eh) \<noteq> ELF_MAGIC then Err BadMagic
      else if e_ident eh ! 4 \<noteq> ELFCLASS64 then Err NotElf64
      else if e_ident eh ! 5 \<noteq> ELFDATA2LSB then Err NotLittleEndian
      else if e_machine eh \<noteq> EM_AARCH64 then Err NotAarch64
      else let ph_off = unat (e_phoff eh); ph_size = unat (e_phentsize eh); ph_num = unat (e_phnum eh)
      in if ph_size * ph_num \<ge> usize_mod \<or> ph_off + ph_size * ph_num \<ge> usize_mod then Err InvalidPhdr
      else if ph_size < 56 \<or> ph_off + ph_size * ph_num > length data then Err InvalidPhdr
      else case load_phdrs data (map (\<lambda>i. ph_off + i * ph_size) [0..<ph_num]) of
             Panic \<Rightarrow> Panic
           | Err e \<Rightarrow> Err e
           | Ok ss \<Rightarrow> if any_overlap ss then Err OverlappingSegments
                       else Ok \<lparr>entry_point = e_entry eh, segments = ss\<rparr>)"

section \<open>What is accepted\<close>

text \<open>The loadable segments of the header table, and when they are all acceptable.\<close>

definition phdr_segment :: "Elf64Phdr \<Rightarrow> LoadSegment" where
  "phdr_segment ph = \<lparr>seg_vaddr = p_vaddr ph, seg_memsz = p_memsz ph, seg_filesz = p_filesz ph,
     seg_offset = p_offset ph, seg_flags = p_flags ph\<rparr>"

definition seg_ok :: "LoadSegment \<Rightarrow> bool" where
  "seg_ok s \<longleftrightarrow> unat (seg_vaddr s) + unat (seg_memsz s) \<le> 2 ^ 47 \<and> seg_filesz s \<le> seg_memsz s"

definition seg_range :: "LoadSegment \<Rightarrow> nat set" where
  "seg_range s = {unat (seg_vaddr s) ..< unat (seg_vaddr s) + unat (seg_memsz s)}"

definition elf_phdrs :: "u8 list \<Rightarrow> Elf64Phdr list" where
  "elf_phdrs data = (let eh = read_ehdr data in
     map (\<lambda>i. read_phdr data (unat (e_phoff eh) + i * unat (e_phentsize eh))) [0..<unat (e_phnum eh)])"

definition elf_segments :: "u8 list \<Rightarrow> LoadSegment list" where
  "elf_segments data = map phdr_segment (filter (\<lambda>ph. p_type ph = PT_LOAD) (elf_phdrs data))"

definition elf_header_ok :: "u8 list \<Rightarrow> bool" where
  "elf_header_ok data \<longleftrightarrow> 64 \<le> length data \<and> slice data 0 4 = [0x7f, 0x45, 0x4c, 0x46] \<and>
     data ! 4 = 2 \<and> data ! 5 = 1 \<and> e_machine (read_ehdr data) = 0xB7 \<and>
     (let eh = read_ehdr data in 56 \<le> unat (e_phentsize eh) \<and>
       unat (e_phoff eh) + unat (e_phentsize eh) * unat (e_phnum eh) < 2 ^ 64 \<and>
       unat (e_phoff eh) + unat (e_phentsize eh) * unat (e_phnum eh) \<le> length data)"

lemma limit_iff:
  assumes "unat (a :: u64) + unat b < 2 ^ 64"
  shows "a + b \<le> USER_SPACE_LIMIT \<longleftrightarrow> unat a + unat b \<le> 2 ^ 47"
proof -
  have "unat (a + b) = unat a + unat b" using assms by (simp add: unat_add_lem [THEN iffD1])
  then show ?thesis by (simp add: word_le_nat_alt USER_SPACE_LIMIT_def)
qed

lemma load_phdr_cases:
  assumes "off + 56 \<le> length data"
  obtains (skip) "load_phdr data off = Ok None" "p_type (read_phdr data off) \<noteq> PT_LOAD"
  | (bad) e where "load_phdr data off = Err e" "p_type (read_phdr data off) = PT_LOAD"
      "\<not> seg_ok (phdr_segment (read_phdr data off))"
  | (seg) "load_phdr data off = Ok (Some (phdr_segment (read_phdr data off)))"
      "p_type (read_phdr data off) = PT_LOAD" "seg_ok (phdr_segment (read_phdr data off))"
proof -
  define ph where "ph = read_phdr data off"
  consider "p_type ph \<noteq> PT_LOAD" | "p_type ph = PT_LOAD" "unat (p_vaddr ph) + unat (p_memsz ph) \<ge> 2 ^ 64"
    | "p_type ph = PT_LOAD" "unat (p_vaddr ph) + unat (p_memsz ph) < 2 ^ 64"
    by linarith
  then show thesis
  proof cases
    case 1
    then show thesis using assms by (intro skip) (simp_all add: load_phdr_def ph_def)
  next
    case 2
    then show thesis using assms
      by (intro bad [of SegmentOutOfRange]) (simp_all add: load_phdr_def ph_def seg_ok_def phdr_segment_def)
  next
    case 3
    show thesis
    proof (cases "seg_ok (phdr_segment ph)")
      case True
      with 3 assms limit_iff [OF 3(2)] show thesis
        by (intro seg) (auto simp: load_phdr_def ph_def seg_ok_def phdr_segment_def Let_def not_less)
    next
      case False
      with 3 assms limit_iff [OF 3(2)] show thesis
        by (intro bad [of "if p_vaddr ph + p_memsz ph > USER_SPACE_LIMIT then SegmentOutOfRange else InvalidPhdr"])
          (auto simp: load_phdr_def ph_def seg_ok_def phdr_segment_def Let_def not_less)
    qed
  qed
qed

lemma load_phdrs_spec:
  assumes "\<forall>off \<in> set offs. off + 56 \<le> length data"
  defines "ss \<equiv> map phdr_segment (filter (\<lambda>ph. p_type ph = PT_LOAD) (map (read_phdr data) offs))"
  shows "if list_all seg_ok ss then load_phdrs data offs = Ok ss else \<exists>e. load_phdrs data offs = Err e"
  using assms(1) unfolding ss_def
proof (induction offs)
  case (Cons off offs)
  have IH: "if list_all seg_ok (map phdr_segment (filter (\<lambda>ph. p_type ph = PT_LOAD) (map (read_phdr data) offs)))
    then load_phdrs data offs = Ok (map phdr_segment (filter (\<lambda>ph. p_type ph = PT_LOAD) (map (read_phdr data) offs)))
    else \<exists>e. load_phdrs data offs = Err e"
    by (rule Cons.IH) (use Cons.prems in simp)
  have "off + 56 \<le> length data" using Cons.prems by simp
  then show ?case
  proof (cases rule: load_phdr_cases)
    case skip
    with IH show ?thesis by (auto split: if_splits)
  next
    case (bad e)
    then show ?thesis by simp
  next
    case seg
    with IH show ?thesis by (auto split: if_splits)
  qed
qed simp

lemma seg_overlap_iff:
  assumes "seg_ok a" "seg_ok b" "0 < seg_memsz a" "0 < seg_memsz b"
  shows "seg_overlap a b \<longleftrightarrow> seg_range a \<inter> seg_range b \<noteq> {}"
proof -
  have e: "unat (seg_vaddr s + seg_memsz s) = unat (seg_vaddr s) + unat (seg_memsz s)" if "seg_ok s" for s
    using that by (simp add: seg_ok_def unat_add_lem [THEN iffD1])
  have "unat (seg_memsz a) > 0" "unat (seg_memsz b) > 0" using assms(3,4) by (simp_all add: word_less_nat_alt)
  then show ?thesis
    using assms(1,2) by (auto simp: seg_overlap_def word_less_nat_alt e seg_range_def Int_atLeastLessThan)
qed

lemma any_overlap_iff:
  "any_overlap ss \<longleftrightarrow> (\<exists>i j. i < j \<and> j < length ss \<and> seg_overlap (ss ! i) (ss ! j))"
  by (simp add: any_overlap_def list_ex_iff Bex_def Suc_le_eq) (meson less_trans)

lemma e_ident_facts:
  assumes "64 \<le> length data"
  shows "take 4 (e_ident (read_ehdr data)) = slice data 0 4"
    "e_ident (read_ehdr data) ! 4 = data ! 4" "e_ident (read_ehdr data) ! 5 = data ! 5"
  using assms by (simp_all add: read_ehdr_def slice_def)

text \<open>The parser behind its header checks.\<close>

definition load_all :: "u8 list \<Rightarrow> (ElfError, ElfInfo) outcome" where
  "load_all data = (let eh = read_ehdr data in
     case load_phdrs data (map (\<lambda>i. unat (e_phoff eh) + i * unat (e_phentsize eh)) [0..<unat (e_phnum eh)]) of
       Panic \<Rightarrow> Panic
     | Err e \<Rightarrow> Err e
     | Ok ss \<Rightarrow> if any_overlap ss then Err OverlappingSegments
                 else Ok \<lparr>entry_point = e_entry eh, segments = ss\<rparr>)"

lemma parse_header:
  "if elf_header_ok data then parse_elf64 data = load_all data else \<exists>e. parse_elf64 data = Err e"
proof (cases "64 \<le> length data")
  case True
  define eh where "eh = read_ehdr data"
  define sz where "sz = unat (e_phentsize eh) * unat (e_phnum eh)"
  have "sz < 2 ^ 16 * 2 ^ 16"
    using unsigned_less [of "e_phentsize eh"] unsigned_less [of "e_phnum eh"]
    unfolding sz_def by (intro mult_strict_mono) simp_all
  then have "sz < usize_mod" by simp
  then show ?thesis
    using True e_ident_facts [OF True]
    unfolding parse_elf64_def elf_header_ok_def load_all_def Let_def eh_def [symmetric] sz_def [symmetric]
    by (simp add: ELF_MAGIC_def ELFCLASS64_def ELFDATA2LSB_def EM_AARCH64_def not_less)
next
  case False
  then show ?thesis by (simp add: elf_header_ok_def parse_elf64_def)
qed

lemma load_all_spec:
  assumes "elf_header_ok data"
  shows "if list_all seg_ok (elf_segments data) \<and> \<not> any_overlap (elf_segments data)
    then load_all data = Ok \<lparr>entry_point = e_entry (read_ehdr data), segments = elf_segments data\<rparr>
    else \<exists>e. load_all data = Err e"
proof -
  define eh where "eh = read_ehdr data"
  define offs where "offs = map (\<lambda>i. unat (e_phoff eh) + i * unat (e_phentsize eh)) [0..<unat (e_phnum eh)]"
  have tab: "56 \<le> unat (e_phentsize eh)"
    "unat (e_phoff eh) + unat (e_phentsize eh) * unat (e_phnum eh) \<le> length data"
    using assms by (simp_all add: elf_header_ok_def eh_def Let_def)
  have "unat (e_phoff eh) + i * unat (e_phentsize eh) + 56 \<le> length data" if "i < unat (e_phnum eh)" for i
  proof -
    have "Suc i * unat (e_phentsize eh) \<le> unat (e_phnum eh) * unat (e_phentsize eh)"
      using that by (intro mult_le_mono1) simp
    with tab show ?thesis by (simp add: mult.commute)
  qed
  then have "\<forall>off \<in> set offs. off + 56 \<le> length data" by (auto simp: offs_def)
  moreover have segs: "elf_segments data = map phdr_segment (filter (\<lambda>ph. p_type ph = PT_LOAD) (map (read_phdr data) offs))"
    by (simp add: elf_segments_def elf_phdrs_def offs_def eh_def Let_def comp_def)
  ultimately have "if list_all seg_ok (elf_segments data)
      then load_phdrs data offs = Ok (elf_segments data) else \<exists>e. load_phdrs data offs = Err e"
    using load_phdrs_spec [of offs data] unfolding segs by blast
  then show ?thesis
    unfolding load_all_def Let_def eh_def [symmetric] offs_def [symmetric]
    by (auto split: if_splits)
qed

text \<open>
  C17 (functional). The parser accepts a file exactly when it is at least 64 bytes long, starts with
  the ELF magic, class 64, little-endian, names AArch64, its header table has entries of at least 56
  bytes and lies inside the file, every loadable segment ends at or below 2^47 and has no more file
  bytes than memory bytes, and no two loadable segments overlap; it then returns the entry point and
  exactly the loadable segments, in the order of the table. On any other file it returns an error:
  no read leaves the file. Accepted segments of non-zero size occupy disjoint address ranges.
\<close>

theorem parse_elf64_spec:
  "(if elf_header_ok data \<and> list_all seg_ok (elf_segments data) \<and>
       (\<forall>i j. i < j \<and> j < length (elf_segments data) \<longrightarrow>
          \<not> seg_overlap (elf_segments data ! i) (elf_segments data ! j))
    then parse_elf64 data = Ok \<lparr>entry_point = e_entry (read_ehdr data), segments = elf_segments data\<rparr>
    else \<exists>e. parse_elf64 data = Err e) \<and>
   (\<forall>info i j. parse_elf64 data = Ok info \<and> i < j \<and> j < length (segments info) \<and>
      0 < seg_memsz (segments info ! i) \<and> 0 < seg_memsz (segments info ! j) \<longrightarrow>
      seg_range (segments info ! i) \<inter> seg_range (segments info ! j) = {})"
proof -
  have overlap: "any_overlap (elf_segments data) \<longleftrightarrow> (\<exists>i j. i < j \<and> j < length (elf_segments data) \<and>
      seg_overlap (elf_segments data ! i) (elf_segments data ! j))" by (rule any_overlap_iff)
  have accept: "if elf_header_ok data \<and> list_all seg_ok (elf_segments data) \<and> \<not> any_overlap (elf_segments data)
    then parse_elf64 data = Ok \<lparr>entry_point = e_entry (read_ehdr data), segments = elf_segments data\<rparr>
    else \<exists>e. parse_elf64 data = Err e"
    using parse_header [of data] load_all_spec [of data] by (auto split: if_splits)
  have "seg_range (segments info ! i) \<inter> seg_range (segments info ! j) = {}"
    if "parse_elf64 data = Ok info" "i < j" "j < length (segments info)"
      "0 < seg_memsz (segments info ! i)" "0 < seg_memsz (segments info ! j)" for info i j
  proof -
    have info: "segments info = elf_segments data" and ok: "list_all seg_ok (elf_segments data)"
      and no: "\<not> any_overlap (elf_segments data)"
      using accept that(1) by (auto split: if_splits)
    have "seg_ok (segments info ! i)" "seg_ok (segments info ! j)"
      using ok that(2,3) by (auto simp: list_all_length info)
    with that no show ?thesis
      using seg_overlap_iff overlap unfolding info by blast
  qed
  moreover have "\<not> any_overlap (elf_segments data) \<longleftrightarrow>
      (\<forall>i j. i < j \<and> j < length (elf_segments data) \<longrightarrow>
        \<not> seg_overlap (elf_segments data ! i) (elf_segments data ! j))"
    unfolding overlap by blast
  ultimately show ?thesis using accept by simp
qed

text \<open>
  A header and one loadable segment whose file range, 2048 bytes at offset 4096, lies outside the
  120 bytes of the file, and whose entry point lies outside the segment: it is accepted.
\<close>

definition elf_example :: "u8 list" where
  "elf_example =
    [127, 69, 76, 70, 2, 1, 1, 0, 0, 0, 0, 0, 0, 0, 0, 0, 2, 0, 183, 0, 1, 0, 0, 0,
     0, 0, 144, 0, 0, 0, 0, 0, 64, 0, 0, 0, 0, 0, 0, 0, 0, 0, 0, 0, 0, 0, 0, 0,
     0, 0, 0, 0, 0, 0, 56, 0, 1, 0, 0, 0, 0, 0, 0, 0, 1, 0, 0, 0, 5, 0, 0, 0,
     0, 16, 0, 0, 0, 0, 0, 0, 0, 0, 64, 0, 0, 0, 0, 0, 0, 0, 0, 0, 0, 0, 0, 0,
     0, 8, 0, 0, 0, 0, 0, 0, 0, 16, 0, 0, 0, 0, 0, 0, 0, 0, 0, 0, 0, 0, 0, 0]"

lemma elf_example_header:
  "read_ehdr elf_example = \<lparr>e_ident = [127, 69, 76, 70, 2, 1, 1, 0, 0, 0, 0, 0, 0, 0, 0, 0], e_type = 2,
     e_machine = 0xB7, e_version = 1, e_entry = 0x900000, e_phoff = 64, e_shoff = 0, e_flags = 0,
     e_ehsize = 0, e_phentsize = 56, e_phnum = 1, e_shentsize = 0, e_shnum = 0, e_shstrndx = 0\<rparr>"
  by (simp add: read_ehdr_def le_word_def elf_example_def slice_def)

lemma elf_example_segments:
  "elf_segments elf_example = [\<lparr>seg_vaddr = 0x400000, seg_memsz = 0x1000, seg_filesz = 0x800,
     seg_offset = 0x1000, seg_flags = 5\<rparr>]"
  by (simp add: elf_segments_def elf_phdrs_def elf_example_header phdr_segment_def read_phdr_def PT_LOAD_def)
    (simp add: le_word_def elf_example_def slice_def)

theorem parse_elf64_spec_witness:
  "\<exists>info. parse_elf64 elf_example = Ok info \<and> entry_point info = 0x900000 \<and>
     map seg_offset (segments info) = [0x1000] \<and> length elf_example = 120"
proof -
  have l: "length elf_example = 120" by (simp add: elf_example_def)
  moreover have "elf_header_ok elf_example"
    using l by (simp add: elf_header_ok_def elf_example_header)
      (simp add: elf_example_def slice_def)
  ultimately show ?thesis
    using parse_elf64_spec [of elf_example] by (simp add: elf_example_segments elf_example_header seg_ok_def)
qed

end
