(* ===== verification/ContextSwitch.thy ===== *)
theory ContextSwitch
  imports Task
begin

text \<open>
  The context switch, \<open>kernel/src/process/context.rs\<close>: the inline assembly as a list of
  instructions, run on a machine with the registers and the memory it touches. Memory is a map from
  the address of an aligned doubleword to its value; a 128-bit register takes two doublewords.

  The operands \<open>{old}\<close> and \<open>{new}\<close> are registers the compiler chooses: the parameters \<open>ob\<close> and
  \<open>nb\<close>. \<open>label1\<close> is the address of the label \<open>1:\<close> at the end. The program has no loop and one
  branch, its last instruction.
\<close>

datatype sysreg = NZCV | FPCR | FPSR

datatype instr =
    STP nat nat nat nat | LDP nat nat nat nat
  | STPq nat nat nat nat | LDPq nat nat nat nat
  | STRx nat nat nat | LDRx nat nat nat
  | MOV_SP nat | SET_SP nat | ADR nat u64
  | MRS nat sysreg | MSR sysreg nat | BR nat

record cpu =
  xreg :: "nat \<Rightarrow> u64"
  xsp :: u64
  xpc :: u64
  nzcv :: u64
  fpcr :: u64
  fpsr :: u64
  qreg :: "nat \<Rightarrow> 128 word"
  xmem :: "u64 \<Rightarrow> u64"

definition q_lo :: "128 word \<Rightarrow> u64" where "q_lo q = ucast q"
definition q_hi :: "128 word \<Rightarrow> u64" where "q_hi q = ucast (drop_bit 64 q)"
definition q_join :: "u64 \<Rightarrow> u64 \<Rightarrow> 128 word" where "q_join hi lo = push_bit 64 (ucast hi) OR ucast lo"

text \<open>
  The condition flags are the top four of the low 32 bits of a general register: writing \<open>NZCV\<close>
  takes these bits only.
\<close>

fun sysreg_get :: "sysreg \<Rightarrow> cpu \<Rightarrow> u64" where
  "sysreg_get NZCV s = nzcv s"
| "sysreg_get FPCR s = fpcr s"
| "sysreg_get FPSR s = fpsr s"

fun sysreg_set :: "sysreg \<Rightarrow> u64 \<Rightarrow> cpu \<Rightarrow> cpu" where
  "sysreg_set NZCV v s = s\<lparr>nzcv := v AND 0xF0000000\<rparr>"
| "sysreg_set FPCR v s = s\<lparr>fpcr := v\<rparr>"
| "sysreg_set FPSR v s = s\<lparr>fpsr := v\<rparr>"

fun exec1 :: "instr \<Rightarrow> cpu \<Rightarrow> cpu" where
  "exec1 (STP a b base off) s = (let p = xreg s base + of_nat off in
     s\<lparr>xmem := (xmem s)(p := xreg s a, p + 8 := xreg s b)\<rparr>)"
| "exec1 (LDP a b base off) s = (let p = xreg s base + of_nat off in
     s\<lparr>xreg := (xreg s)(a := xmem s p, b := xmem s (p + 8))\<rparr>)"
| "exec1 (STPq a b base off) s = (let p = xreg s base + of_nat off in
     s\<lparr>xmem := (xmem s)(p := q_lo (qreg s a), p + 8 := q_hi (qreg s a),
                        p + 16 := q_lo (qreg s b), p + 24 := q_hi (qreg s b))\<rparr>)"
| "exec1 (LDPq a b base off) s = (let p = xreg s base + of_nat off in
     s\<lparr>qreg := (qreg s)(a := q_join (xmem s (p + 8)) (xmem s p),
                        b := q_join (xmem s (p + 24)) (xmem s (p + 16)))\<rparr>)"
| "exec1 (STRx a base off) s = s\<lparr>xmem := (xmem s)(xreg s base + of_nat off := xreg s a)\<rparr>"
| "exec1 (LDRx a base off) s = s\<lparr>xreg := (xreg s)(a := xmem s (xreg s base + of_nat off))\<rparr>"
| "exec1 (MOV_SP a) s = s\<lparr>xreg := (xreg s)(a := xsp s)\<rparr>"
| "exec1 (SET_SP a) s = s\<lparr>xsp := xreg s a\<rparr>"
| "exec1 (ADR a target) s = s\<lparr>xreg := (xreg s)(a := target)\<rparr>"
| "exec1 (MRS a r) s = s\<lparr>xreg := (xreg s)(a := sysreg_get r s)\<rparr>"
| "exec1 (MSR r a) s = sysreg_set r (xreg s a) s"
| "exec1 (BR a) s = s\<lparr>xpc := xreg s a\<rparr>"

definition exec :: "instr list \<Rightarrow> cpu \<Rightarrow> cpu" where
  "exec is s = fold exec1 is s"

definition save_context :: "nat \<Rightarrow> u64 \<Rightarrow> instr list" where
  "save_context ob label1 = [
    STP 0 1 ob 0, STP 2 3 ob 16, STP 4 5 ob 32, STP 6 7 ob 48, STP 8 9 ob 64, STP 10 11 ob 80,
    STP 12 13 ob 96, STP 14 15 ob 112, STP 16 17 ob 128, STP 18 19 ob 144, STP 20 21 ob 160,
    STP 22 23 ob 176, STP 24 25 ob 192, STP 26 27 ob 208, STP 28 29 ob 224, STRx 30 ob 240,
    MOV_SP 9, STRx 9 ob 248, ADR 9 label1, STRx 9 ob 256, MRS 9 NZCV, STRx 9 ob 264,
    STPq 0 1 ob 272, STPq 2 3 ob 304, STPq 4 5 ob 336, STPq 6 7 ob 368, STPq 8 9 ob 400,
    STPq 10 11 ob 432, STPq 12 13 ob 464, STPq 14 15 ob 496, STPq 16 17 ob 528,
    STPq 18 19 ob 560, STPq 20 21 ob 592, STPq 22 23 ob 624, STPq 24 25 ob 656,
    STPq 26 27 ob 688, STPq 28 29 ob 720, STPq 30 31 ob 752, MRS 9 FPCR, STRx 9 ob 784,
    MRS 9 FPSR, STRx 9 ob 792]"

definition restore_context :: "nat \<Rightarrow> instr list" where
  "restore_context nb = [
    LDP 0 1 nb 0, LDP 2 3 nb 16, LDP 4 5 nb 32, LDP 6 7 nb 48, LDP 8 9 nb 64, LDP 10 11 nb 80,
    LDP 12 13 nb 96, LDP 14 15 nb 112, LDP 16 17 nb 128, LDP 18 19 nb 144, LDP 20 21 nb 160,
    LDP 22 23 nb 176, LDP 24 25 nb 192, LDP 26 27 nb 208, LDP 28 29 nb 224, LDRx 30 nb 240,
    LDRx 9 nb 248, SET_SP 9, LDRx 9 nb 264, MSR NZCV 9, LDPq 0 1 nb 272, LDPq 2 3 nb 304,
    LDPq 4 5 nb 336, LDPq 6 7 nb 368, LDPq 8 9 nb 400, LDPq 10 11 nb 432, LDPq 12 13 nb 464,
    LDPq 14 15 nb 496, LDPq 16 17 nb 528, LDPq 18 19 nb 560, LDPq 20 21 nb 592,
    LDPq 22 23 nb 624, LDPq 24 25 nb 656, LDPq 26 27 nb 688, LDPq 28 29 nb 720,
    LDPq 30 31 nb 752, LDRx 9 nb 784, MSR FPCR 9, LDRx 9 nb 792, MSR FPSR 9, LDRx 9 nb 256, BR 9]"

definition switch_context :: "nat \<Rightarrow> nat \<Rightarrow> u64 \<Rightarrow> cpu \<Rightarrow> cpu" where
  "switch_context ob nb label1 s = exec (save_context ob label1 @ restore_context nb) s"

definition init_context :: "Context \<Rightarrow> u64 \<Rightarrow> u64 \<Rightarrow> u64 \<Rightarrow> Context" where
  "init_context ctx entry sp_top arg = context_init ctx entry sp_top arg"

section \<open>Contexts in memory\<close>

text \<open>The structure at an address, in the layout of \<open>Context\<close>, and the running context.\<close>

definition ctx_at :: "(u64 \<Rightarrow> u64) \<Rightarrow> u64 \<Rightarrow> Context" where
  "ctx_at m a = \<lparr>ctx_x = map (\<lambda>k. m (a + of_nat (8 * k))) [0..<31],
     ctx_sp = m (a + 248), ctx_pc = m (a + 256), ctx_pstate = m (a + 264),
     ctx_v = map (\<lambda>k. q_join (m (a + of_nat (280 + 16 * k))) (m (a + of_nat (272 + 16 * k)))) [0..<32],
     ctx_fpcr = m (a + 784), ctx_fpsr = m (a + 792)\<rparr>"

definition running :: "cpu \<Rightarrow> u64 \<Rightarrow> Context" where
  "running s pc = \<lparr>ctx_x = map (xreg s) [0..<31], ctx_sp = xsp s, ctx_pc = pc, ctx_pstate = nzcv s,
     ctx_v = map (qreg s) [0..<32], ctx_fpcr = fpcr s, ctx_fpsr = fpsr s\<rparr>"

lemma q_join_split [simp]: "q_join (q_hi q) (q_lo q) = q"
proof (rule bit_word_eqI)
  fix n assume "n < LENGTH(128)"
  moreover from this have "n - 64 < 64" "n - 64 < 128" by simp_all
  ultimately show "bit (q_join (q_hi q) (q_lo q)) n \<longleftrightarrow> bit q n"
    by (cases "n < 64")
      (simp_all add: q_join_def q_hi_def q_lo_def bit_or_iff bit_push_bit_iff bit_ucast_iff bit_drop_bit_eq)
qed

lemma exec_simps [simp]:
  "exec [] s = s" "exec (i # is) s = exec is (exec1 i s)" "exec (xs @ ys) s = exec ys (exec xs s)"
  by (simp_all add: exec_def)

text \<open>The doublewords of a context: 31 registers, three special registers, 64 halves, two more.\<close>

definition slot :: "u64 \<Rightarrow> nat \<Rightarrow> u64" where
  "slot a j = a + of_nat (8 * j)"

lemma slot_inj: "i < 100 \<Longrightarrow> j < 100 \<Longrightarrow> slot a i = slot a j \<longleftrightarrow> i = j"
  by (auto simp: slot_def word_of_nat_eq_iff take_bit_nat_eq_self simp del: of_nat_mult)

lemma slot_eqs: "a + of_nat (8 * j) = slot a j" "slot a j + 8 = slot a (j + 1)"
  "slot a j + 16 = slot a (j + 2)" "slot a j + 24 = slot a (j + 3)"
  by (simp_all add: slot_def algebra_simps)

lemma slot_ne: "i < 100 \<Longrightarrow> j < 100 \<Longrightarrow> i \<noteq> j \<Longrightarrow> slot a i \<noteq> slot a j"
  by (simp add: slot_inj)

section \<open>Runs of stores and loads\<close>

text \<open>\<open>put_run a v i n m\<close> is the memory after storing \<open>v 0, .., v (n - 1)\<close> from slot \<open>i\<close> on.\<close>

primrec put_run :: "u64 \<Rightarrow> (nat \<Rightarrow> u64) \<Rightarrow> nat \<Rightarrow> nat \<Rightarrow> (u64 \<Rightarrow> u64) \<Rightarrow> u64 \<Rightarrow> u64" where
  "put_run a v i 0 m = m"
| "put_run a v i (Suc n) m = (put_run a v i n m)(slot a (i + n) := v n)"

lemma put_run_slot:
  "i + n \<le> 100 \<Longrightarrow> j < 100 \<Longrightarrow>
     put_run a v i n m (slot a j) = (if i \<le> j \<and> j < i + n then v (j - i) else m (slot a j))"
  by (induction n) (auto simp: slot_inj)

lemma put_run_other: "i + n \<le> 100 \<Longrightarrow> \<forall>j < 100. p \<noteq> slot a j \<Longrightarrow> put_run a v i n m p = m p"
  by (induction n) auto

definition x_stores :: "nat \<Rightarrow> nat \<Rightarrow> instr list" where
  "x_stores ob m = map (\<lambda>k. STP (2 * k) (2 * k + 1) ob (8 * (2 * k))) [0..<m]"

definition q_stores :: "nat \<Rightarrow> nat \<Rightarrow> instr list" where
  "q_stores ob m = map (\<lambda>k. STPq (2 * k) (2 * k + 1) ob (8 * (34 + 4 * k))) [0..<m]"

definition x_loads :: "nat \<Rightarrow> nat \<Rightarrow> instr list" where
  "x_loads nb m = map (\<lambda>k. LDP (2 * k) (2 * k + 1) nb (8 * (2 * k))) [0..<m]"

definition q_loads :: "nat \<Rightarrow> nat \<Rightarrow> instr list" where
  "q_loads nb m = map (\<lambda>k. LDPq (2 * k) (2 * k + 1) nb (8 * (34 + 4 * k))) [0..<m]"

lemma store_x_run:
  assumes "xreg s ob = a"
  shows "exec (x_stores ob m) s =
    s\<lparr>xmem := put_run a (xreg s) 0 (2 * m) (xmem s)\<rparr>"
  using assms by (induction m) (simp_all add: x_stores_def slot_def Let_def algebra_simps)

definition q_half :: "(nat \<Rightarrow> 128 word) \<Rightarrow> nat \<Rightarrow> u64" where
  "q_half q h = (if even h then q_lo (q (h div 2)) else q_hi (q (h div 2)))"

lemma store_q_run:
  assumes "xreg s ob = a"
  shows "exec (q_stores ob m) s =
    s\<lparr>xmem := put_run a (q_half (qreg s)) 34 (4 * m) (xmem s)\<rparr>"
proof (induction m)
  case (Suc m)
  have h: "q_half q (4 * m) = q_lo (q (2 * m))" "q_half q (Suc (4 * m)) = q_hi (q (2 * m))"
    "q_half q (Suc (Suc (4 * m))) = q_lo (q (Suc (2 * m)))"
    "q_half q (Suc (Suc (Suc (4 * m)))) = q_hi (q (Suc (2 * m)))" for q
    by (simp_all add: q_half_def)
  have four: "4 * Suc m = Suc (Suc (Suc (Suc (4 * m))))" by simp
  have put: "put_run a (q_half q) 34 (4 * Suc m) mm = (put_run a (q_half q) 34 (4 * m) mm)
      (slot a (34 + 4 * m) := q_lo (q (2 * m)), slot a (Suc (34 + 4 * m)) := q_hi (q (2 * m)),
       slot a (Suc (Suc (34 + 4 * m))) := q_lo (q (Suc (2 * m))),
       slot a (Suc (Suc (Suc (34 + 4 * m)))) := q_hi (q (Suc (2 * m))))" for q mm
    unfolding four by (simp only: put_run.simps add_Suc_right h)
  define p where "p = (word_of_nat (8 * (34 + 4 * m)) :: u64)"
  have p: "272 + 32 * word_of_nat m = p" by (simp add: p_def)
  have slots: "slot a (34 + 4 * m) = a + p" "slot a (Suc (34 + 4 * m)) = a + p + 8"
    "slot a (Suc (Suc (34 + 4 * m))) = a + p + 16" "slot a (Suc (Suc (Suc (34 + 4 * m)))) = a + p + 24"
    by (simp_all add: slot_def p_def algebra_simps)
  show ?case unfolding put slots using Suc assms by (simp add: q_stores_def Let_def fun_upd_def p)
qed (simp add: q_stores_def)

lemma save_context_runs:
  "save_context ob label1 =
     x_stores ob 15 @
     [STRx 30 ob 240, MOV_SP 9, STRx 9 ob 248, ADR 9 label1, STRx 9 ob 256, MRS 9 NZCV, STRx 9 ob 264] @
     q_stores ob 16 @
     [MRS 9 FPCR, STRx 9 ob 784, MRS 9 FPSR, STRx 9 ob 792]"
  by (simp add: save_context_def x_stores_def q_stores_def upt_rec numeral_eq_Suc)


text \<open>
  Loads through a base register \<open>nb\<close> that the loads overwrite: a register whose pair comes after
  that of \<open>nb\<close> is read relative to the value just loaded into \<open>nb\<close>.
\<close>

definition load_base :: "nat \<Rightarrow> cpu \<Rightarrow> nat \<Rightarrow> u64" where
  "load_base nb s j = (if j div 2 \<le> nb div 2 then xreg s nb else xmem s (slot (xreg s nb) nb))"

lemma load_x_run:
  assumes "nb < 31"
  shows "exec (x_loads nb m) s =
    s\<lparr>xreg := \<lambda>j. if j < 2 * m then xmem s (slot (load_base nb s j) j) else xreg s j\<rparr>"
proof (induction m)
  case 0
  then show ?case by (cases s) (simp add: x_loads_def q_loads_def)
next
  case (Suc m)
  let ?r = "\<lambda>j. if j < 2 * m then xmem s (slot (load_base nb s j) j) else xreg s j"
  have b: "?r nb = load_base nb s (2 * m)" "load_base nb s (Suc (2 * m)) = load_base nb s (2 * m)"
    by (auto simp: load_base_def)
  have "p + word_of_nat (16 * m) = slot p (2 * m)" "p + word_of_nat (16 * m) + 8 = slot p (Suc (2 * m))" for p
    by (simp_all add: slot_def)
  moreover have "?r(2 * m := v, Suc (2 * m) := w) =
      (\<lambda>j. if j < 2 * Suc m then if j = Suc (2 * m) then w else if j = 2 * m then v else
         xmem s (slot (load_base nb s j) j) else xreg s j)" for v w
    by (auto simp: fun_eq_iff)
  ultimately show ?case using Suc b
    by (auto simp: x_loads_def Let_def fun_eq_iff less_Suc_eq)
qed

lemma load_q_run:
  "exec (q_loads nb m) s =
    s\<lparr>qreg := \<lambda>j. if j < 2 * m then q_join (xmem s (slot (xreg s nb) (35 + 2 * j)))
       (xmem s (slot (xreg s nb) (34 + 2 * j))) else qreg s j\<rparr>"
proof (induction m)
  case 0
  then show ?case by (cases s) (simp add: x_loads_def q_loads_def)
next
  case (Suc m)
  let ?q = "\<lambda>j. q_join (xmem s (slot (xreg s nb) (35 + 2 * j))) (xmem s (slot (xreg s nb) (34 + 2 * j)))"
  have upd: "(\<lambda>j. if j < 2 * m then ?q j else qreg s j)(2 * m := v, 2 * m + 1 := w) =
      (\<lambda>j. if j < 2 * Suc m then if j = 2 * m + 1 then w else if j = 2 * m then v else ?q j else qreg s j)" for v w
    by (auto simp: fun_eq_iff)
  define p where "p = (word_of_nat (8 * (34 + 4 * m)) :: u64)"
  have p: "272 + 32 * word_of_nat m = p" by (simp add: p_def)
  have slots: "slot a (34 + 2 * (2 * m)) = a + p" "slot a (35 + 2 * (2 * m)) = a + p + 8"
    "slot a (34 + 2 * (2 * m + 1)) = a + p + 16" "slot a (35 + 2 * (2 * m + 1)) = a + p + 24" for a
    by (simp_all add: slot_def p_def algebra_simps)
  have "exec (q_loads nb (Suc m)) s =
    s\<lparr>qreg := (\<lambda>j. if j < 2 * m then ?q j else qreg s j)(2 * m := ?q (2 * m), 2 * m + 1 := ?q (2 * m + 1))\<rparr>"
    unfolding slots using Suc by (simp add: q_loads_def Let_def fun_upd_def p)
  then show ?case unfolding upd by (simp add: fun_eq_iff cong: if_cong)
qed

lemma restore_context_runs:
  "restore_context nb =
     x_loads nb 15 @
     [LDRx 30 nb 240, LDRx 9 nb 248, SET_SP 9, LDRx 9 nb 264, MSR NZCV 9] @
     q_loads nb 16 @
     [LDRx 9 nb 784, MSR FPCR 9, LDRx 9 nb 792, MSR FPSR 9, LDRx 9 nb 256, BR 9]"
  by (simp add: restore_context_def x_loads_def q_loads_def upt_rec numeral_eq_Suc)

lemma slot_offsets:
  "a + 240 = slot a 30" "a + 248 = slot a 31" "a + 256 = slot a 32" "a + 264 = slot a 33"
  "a + 784 = slot a 98" "a + 792 = slot a 99"
  by (simp_all add: slot_def)

lemma ctx_at_slots:
  "ctx_at m a = \<lparr>ctx_x = map (\<lambda>k. m (slot a k)) [0..<31], ctx_sp = m (slot a 31), ctx_pc = m (slot a 32),
     ctx_pstate = m (slot a 33), ctx_v = map (\<lambda>k. q_join (m (slot a (35 + 2 * k))) (m (slot a (34 + 2 * k)))) [0..<32],
     ctx_fpcr = m (slot a 98), ctx_fpsr = m (slot a 99)\<rparr>"
  by (simp add: ctx_at_def slot_def algebra_simps)

section \<open>Saving and restoring\<close>

definition ctx_disjoint :: "u64 \<Rightarrow> u64 \<Rightarrow> bool" where
  "ctx_disjoint a b \<longleftrightarrow> (\<forall>i < 100. \<forall>j < 100. slot a i \<noteq> slot b j)"

lemma save_effect:
  assumes "ob \<noteq> 9" "xreg s ob = a"
  obtains m where
    "exec (save_context ob label1) s = s\<lparr>xreg := (xreg s)(9 := fpsr s), xmem := m\<rparr>"
    "ctx_at m a = running s label1"
    "\<And>b. ctx_disjoint a b \<Longrightarrow> \<forall>j < 100. m (slot b j) = xmem s (slot b j)"
proof
  let ?m1 = "put_run a (xreg s) 0 30 (xmem s)"
  let ?m2 = "?m1(slot a 30 := xreg s 30, slot a 31 := xsp s, slot a 32 := label1, slot a 33 := nzcv s)"
  let ?m3 = "put_run a (q_half (qreg s)) 34 64 ?m2"
  let ?m = "?m3(slot a 98 := fpcr s, slot a 99 := fpsr s)"
  show "exec (save_context ob label1) s = s\<lparr>xreg := (xreg s)(9 := fpsr s), xmem := ?m\<rparr>"
    unfolding save_context_runs using assms
    by (simp add: store_x_run [where a = a] store_q_run [where a = a] slot_offsets fun_upd_other fun_upd_same
      del: One_nat_def fun_upd_apply)
  show "ctx_at ?m a = running s label1"
    by (simp add: ctx_at_slots running_def slot_inj put_run_slot q_half_def)
  fix b assume "ctx_disjoint a b"
  then have "p = slot b j \<Longrightarrow> j < 100 \<Longrightarrow> \<forall>i < 100. p \<noteq> slot a i" for p j
    by (metis ctx_disjoint_def)
  then show "\<forall>j < 100. ?m (slot b j) = xmem s (slot b j)"
    by (simp add: put_run_other)
qed


lemma load_x_all:
  assumes "nb < 31"
  shows "exec (x_loads nb 15 @ [LDRx 30 nb 240]) s =
    s\<lparr>xreg := \<lambda>j. if j < 31 then xmem s (slot (load_base nb s j) j) else xreg s j\<rparr>"
proof -
  have "(if nb < 30 then xmem s (slot (load_base nb s nb) nb) else xreg s nb) = load_base nb s 30"
    using assms by (auto simp: load_base_def)
  then show ?thesis
    by (simp add: load_x_run [OF assms] slot_offsets) (simp add: fun_eq_iff fun_upd_def less_Suc_eq
      numeral_eq_Suc [of "num.One"] cong: if_cong)
qed

lemma restore_effect:
  fixes s :: cpu
  assumes "nb < 31" "nb \<noteq> 9"
  defines "c \<equiv> xmem s (slot (xreg s nb) nb)"
  defines "m \<equiv> xmem s"
  shows "exec (restore_context nb) s = s\<lparr>
    xreg := (\<lambda>j. if j < 31 then m (slot (load_base nb s j) j) else xreg s j)(9 := m (slot c 32)),
    xsp := m (slot c 31), xpc := m (slot c 32), nzcv := m (slot c 33) AND 0xF0000000,
    fpcr := m (slot c 98), fpsr := m (slot c 99),
    qreg := \<lambda>j. if j < 32 then q_join (m (slot c (35 + 2 * j))) (m (slot c (34 + 2 * j))) else qreg s j\<rparr>"
proof -
  define r where "r = (\<lambda>j. if j < 31 then m (slot (load_base nb s j) j) else xreg s j)"
  have c: "r nb = c" using assms(1) by (simp add: r_def load_base_def c_def m_def)
  have run: "restore_context nb = (x_loads nb 15 @ [LDRx 30 nb 240]) @
     [LDRx 9 nb 248, SET_SP 9, LDRx 9 nb 264, MSR NZCV 9] @ q_loads nb 16 @
     [LDRx 9 nb 784, MSR FPCR 9, LDRx 9 nb 792, MSR FPSR 9, LDRx 9 nb 256, BR 9]"
    unfolding restore_context_runs by simp
  show ?thesis
    unfolding run exec_simps(3) [of "x_loads nb 15 @ [LDRx 30 nb 240]"] load_x_all [OF assms(1)]
      r_def [symmetric] m_def [symmetric]
    using assms(2) c by (simp add: load_q_run slot_offsets m_def cong: if_cong)
qed

text \<open>
  C18 (functional). Let \<open>{old}\<close> and \<open>{new}\<close> be in registers \<open>ob\<close> and \<open>nb\<close>, neither of them the
  scratch register 9, and point to disjoint structures \<open>a\<close> and \<open>b\<close>. The switch stores the running
  context into \<open>a\<close>, with the label after the switch as program counter, and leaves \<open>b\<close> as it is. It restores \<open>b\<close> through
  \<open>nb\<close> while loading every general register, \<open>nb\<close> included: let \<open>c\<close> be the value \<open>b\<close> holds for
  \<open>nb\<close>. The stack pointer, the flags, the control registers and the target of the jump are loaded
  from \<open>c\<close>, not from \<open>b\<close>. Only when \<open>c = b\<close> does the new context run as it was saved, and then
  still with register 9 holding the program counter and the flags alone of the processor state.
\<close>

theorem switch_context_effect:
  fixes s :: cpu and label1 :: u64
  assumes base: "ob \<noteq> 9" "nb \<noteq> 9" "nb < 31" "xreg s ob = a" "xreg s nb = b"
    and disj: "ctx_disjoint a b"
  defines "t \<equiv> switch_context ob nb label1 s"
    and "new \<equiv> ctx_at (xmem s) b"
    and "c \<equiv> ctx_x (ctx_at (xmem s) b) ! nb"
  shows "ctx_at (xmem t) a = running s label1 \<and> ctx_at (xmem t) b = new \<and>
    xsp t = xmem t (c + 248) \<and> xpc t = xmem t (c + 256) \<and> nzcv t = xmem t (c + 264) AND 0xF0000000 \<and>
    fpcr t = xmem t (c + 784) \<and> fpsr t = xmem t (c + 792) \<and> xreg t 9 = xpc t \<and>
    (c = b \<longrightarrow> running t (xpc t) = new\<lparr>ctx_x := (ctx_x new)[9 := ctx_pc new],
       ctx_pstate := ctx_pstate new AND 0xF0000000\<rparr>)"
proof -
  obtain m where save: "exec (save_context ob label1) s = s\<lparr>xreg := (xreg s)(9 := fpsr s), xmem := m\<rparr>"
    and saved: "ctx_at m a = running s label1"
    and keep: "\<forall>j < 100. m (slot b j) = xmem s (slot b j)"
    using save_effect [OF base(1,4)] disj by metis
  define s1 where "s1 = s\<lparr>xreg := (xreg s)(9 := fpsr s), xmem := m\<rparr>"
  have nb: "xreg s1 nb = b" "xmem s1 = m" using base(2,5) by (simp_all add: s1_def)
  have c: "m (slot b nb) = c" using keep base(3) by (simp add: c_def ctx_at_slots)
  have t: "t = exec (restore_context nb) s1" by (simp add: t_def switch_context_def save s1_def)
  note r = restore_effect [OF base(3,2), of s1, unfolded nb c, folded t]
  have facts: "xmem t = m" "xsp t = m (slot c 31)" "xpc t = m (slot c 32)" "nzcv t = m (slot c 33) AND 0xF0000000"
    "fpcr t = m (slot c 98)" "fpsr t = m (slot c 99)" "xreg t 9 = m (slot c 32)"
    by (simp_all add: r nb)
  have new: "new = ctx_at m b" using keep by (simp add: new_def ctx_at_slots)
  have "running t (xpc t) = new\<lparr>ctx_x := (ctx_x new)[9 := ctx_pc new],
      ctx_pstate := ctx_pstate new AND 0xF0000000\<rparr>" if cb: "c = b"
  proof -
    have lb: "load_base nb s1 j = b" for j by (simp add: load_base_def nb c cb)
    have x: "map (xreg t) [0..<31] = (map (\<lambda>k. m (slot b k)) [0..<31])[9 := m (slot b 32)]"
      by (rule nth_equalityI) (auto simp: r lb nth_list_update cb)
    have q: "map (qreg t) [0..<32] = map (\<lambda>k. q_join (m (slot b (35 + 2 * k))) (m (slot b (34 + 2 * k)))) [0..<32]"
      by (simp add: r cb)
    show ?thesis
      unfolding running_def x q new by (simp add: facts ctx_at_slots cb)
  qed
  with saved facts new show ?thesis by (simp add: slot_offsets)
qed

lemma ctx_disjoint_pages: "ctx_disjoint 0x1000 0x2000"
proof -
  have lo: "unat (slot 0x1000 i) = 0x1000 + 8 * i" if "i < 100" for i
    using that unat_add_of_nat [of "0x1000" "8 * i"] by (simp add: slot_def del: of_nat_mult)
  have hi: "unat (slot 0x2000 i) = 0x2000 + 8 * i" if "i < 100" for i
    using that unat_add_of_nat [of "0x2000" "8 * i"] by (simp add: slot_def del: of_nat_mult)
  have "slot 0x1000 i \<noteq> slot 0x2000 j" if "i < 100" "j < 100" for i j
    using lo [OF that(1)] hi [OF that(2)] that(1) by auto
  then show ?thesis by (simp add: ctx_disjoint_def)
qed

text \<open>
  With \<open>{new}\<close> in register 1 and every doubleword holding its own address, the stack pointer comes
  from 0x2100, not from the stack pointer field at 0x20F8.
\<close>

definition cpu_example :: cpu where
  "cpu_example = \<lparr>xreg = (\<lambda>_. 0)(0 := 0x1000, 1 := 0x2000), xsp = 0, xpc = 0, nzcv = 0, fpcr = 0,
     fpsr = 0, qreg = \<lambda>_. 0, xmem = \<lambda>p. p\<rparr>"

theorem switch_context_effect_witness:
  "xsp (switch_context 0 1 0x80 cpu_example) = 0x2100 \<and> ctx_sp (ctx_at (xmem cpu_example) 0x2000) = 0x20F8"
proof -
  note e = switch_context_effect [of 0 1 cpu_example "0x1000" "0x2000" "0x80"]
  have c: "ctx_x (ctx_at (xmem cpu_example) 0x2000) ! 1 = 0x2008"
    by (simp add: ctx_at_def cpu_example_def)
  define t where "t = switch_context 0 1 0x80 cpu_example"
  have "ctx_at (xmem t) 0x2000 = ctx_at (xmem cpu_example) 0x2000 \<and> xsp t = xmem t (0x2008 + 248)"
    using e ctx_disjoint_pages unfolding c t_def by (simp add: cpu_example_def)
  moreover have "ctx_pc (ctx_at m 0x2000) = m (0x2008 + 248)" for m by (simp add: ctx_at_def)
  ultimately have "xsp t = ctx_pc (ctx_at (xmem cpu_example) 0x2000)" by metis
  then show ?thesis by (simp add: t_def ctx_at_def cpu_example_def)
qed

end
