(* ===== verification/Sorting.thy ===== *)
theory Sorting
  imports Prelude "HOL-Library.Multiset"
begin

text \<open>
  Stable sorting by a key: what appending one element does to the sorted list, and the prefix and the rest
  of a sorted list as filters.
\<close>

lemma sort_key_snoc:
  "sort_key key (xs @ [x]) =
     takeWhile (\<lambda>y. key y \<le> key x) (sort_key key xs) @ x # dropWhile (\<lambda>y. key y \<le> key x) (sort_key key xs)"
    (is "_ = ?ys") for key :: "'a \<Rightarrow> 'k::linorder"
proof (rule properties_for_sort_key)
  let ?tw = "takeWhile (\<lambda>y. key y \<le> key x) (sort_key key xs)"
  let ?dw = "dropWhile (\<lambda>y. key y \<le> key x) (sort_key key xs)"
  have m: "mset ?tw + mset ?dw = mset xs"
    by (metis mset_append mset_sort takeWhile_dropWhile_id)
  then show "mset ?ys = mset (xs @ [x])" by simp
  have s: "sorted (map key (?tw @ ?dw))" by (simp only: takeWhile_dropWhile_id sorted_sort_key)
  have tw: "\<forall>y \<in> set ?tw. key y \<le> key x" by (auto dest: set_takeWhileD)
  have dw: "\<forall>y \<in> set ?dw. key x < key y"
  proof (cases ?dw)
    case (Cons z zs)
    then have "\<not> key z \<le> key x" by (metis (mono_tags, lifting) dropWhile_eq_Cons_conv)
    moreover have "\<forall>y \<in> set ?dw. key z \<le> key y" using s Cons by (auto simp: sorted_append)
    ultimately show ?thesis by (meson less_le_trans not_le)
  qed (simp only: list.set ball_empty)
  show "sorted (map key ?ys)"
  proof -
    have "sorted (map key (t @ x # d))" if "sorted (map key (t @ d))" "\<forall>y \<in> set t. key y \<le> key x"
      "\<forall>y \<in> set d. key x < key y" for t d
      using that by (auto simp: sorted_append less_imp_le)
    then show ?thesis using s tw dw .
  qed
  fix k
  have "sorted (map key (filter (\<lambda>y. key k = key y) xs))" by (induction xs) auto
  then have "filter (\<lambda>y. key k = key y) (?tw @ ?dw) = filter (\<lambda>y. key k = key y) xs"
    by (simp only: takeWhile_dropWhile_id) (simp add: filter_sort sort_key_id_if_sorted)
  moreover have "filter (\<lambda>y. key k = key y) (t @ x # d) = filter (\<lambda>y. key k = key y) (xs @ [x])"
    if "filter (\<lambda>y. key k = key y) (t @ d) = filter (\<lambda>y. key k = key y) xs" "\<forall>y \<in> set d. key x < key y" for t d
  proof (cases "key k = key x")
    case True
    then have "filter (\<lambda>y. key k = key y) d = []" using that(2) by (auto simp: filter_empty_conv)
    with True that(1) show ?thesis by simp
  next
    case False
    with that(1) show ?thesis by simp
  qed
  ultimately show "filter (\<lambda>y. key k = key y) ?ys = filter (\<lambda>y. key k = key y) (xs @ [x])"
    using dw by blast
qed

lemma sorted_takeWhile: "sorted (map f xs) \<Longrightarrow> takeWhile (\<lambda>x. f x \<le> t) xs = filter (\<lambda>x. f x \<le> t) xs"
  for t :: "'k::linorder"
proof (induction xs)
  case (Cons a xs)
  then have "filter (\<lambda>x. f x \<le> t) xs = []" if "\<not> f a \<le> t"
    using that by (auto simp: filter_empty_conv not_le intro: less_le_trans)
  with Cons show ?case by simp
qed simp

lemma sorted_dropWhile: "sorted (map f xs) \<Longrightarrow> dropWhile (\<lambda>x. f x \<le> t) xs = filter (\<lambda>x. t < f x) xs"
  for t :: "'k::linorder"
proof (induction xs)
  case (Cons a xs)
  then have "filter (\<lambda>x. t < f x) (a # xs) = a # xs" if "\<not> f a \<le> t"
    using that by (intro filter_True) (auto simp: not_le intro: less_le_trans)
  with Cons show ?case by (cases "f a \<le> t") (simp_all add: not_less)
qed simp

lemma sort_key_remove1: "sort_key f (remove1 e xs) = remove1 e (sort_key f xs)" for f :: "'a \<Rightarrow> 'k::linorder"
proof (rule properties_for_sort_key)
  show "mset (remove1 e (sort_key f xs)) = mset (remove1 e xs)" by simp
  show "filter (\<lambda>y. f k = f y) (remove1 e (sort_key f xs)) = filter (\<lambda>y. f k = f y) (remove1 e xs)" for k
    by (simp only: filter_remove1 filter_sort) (simp add: sort_key_stable [of f "f k", unfolded eq_commute [of _ "f k"]] filter_sort [symmetric])
  show "sorted (map f (remove1 e (sort_key f xs)))" by (intro sorted_map_remove1 sorted_sort_key)
qed

end
