(* ===== verification/Compositor.thy ===== *)
theory Compositor
  imports Sorting
begin

text \<open>
  The compositor, \<open>kernel/src/display_server/compositor.rs\<close>: the surface table, the z-order sort
  and the four painting loops, over a back buffer that is a list of ARGB pixels.

  A write out of the buffer is a panic, the value \<open>None\<close>. \<open>img p k\<close> is the \<open>k\<close>-th pixel after the
  pointer \<open>p\<close>, the memory behind \<open>SurfacePixels\<close>. Coordinates are 32-bit words and wrap as in the
  source; loop counters are natural numbers.
\<close>

type_synonym image_memory = "u64 \<Rightarrow> nat \<Rightarrow> u32"

section \<open>Pixels\<close>

definition rgb :: "u8 \<Rightarrow> u8 \<Rightarrow> u8 \<Rightarrow> u32" where
  "rgb r g b = 0xFF000000 OR push_bit 16 (ucast r) OR push_bit 8 (ucast g) OR ucast b"

definition BLACK :: u32 where "BLACK = rgb 0 0 0"

definition alpha_blend :: "u32 \<Rightarrow> u32 \<Rightarrow> u32 \<Rightarrow> u32 \<Rightarrow> u32 \<Rightarrow> u32" where
  "alpha_blend src_r src_g src_b src_a dst =
     (let dst_r = drop_bit 16 dst AND 0xFF;
          dst_g = drop_bit 8 dst AND 0xFF;
          dst_b = dst AND 0xFF;
          inv_a = 255 - src_a;
          out_r = (src_r * src_a + dst_r * inv_a) div 255;
          out_g = (src_g * src_a + dst_g * inv_a) div 255;
          out_b = (src_b * src_a + dst_b * inv_a) div 255
      in rgb (ucast out_r) (ucast out_g) (ucast out_b))"

section \<open>Surfaces\<close>

definition MAX_SURFACES :: usize where "MAX_SURFACES = 32"

datatype BlendMode = Opaque | Alpha

record SurfacePixels =
  pix_ptr :: u64
  pix_stride :: u32

record Surface =
  s_x :: u32
  s_y :: u32
  s_width :: u32
  s_height :: u32
  s_color :: u32
  s_pixels :: "SurfacePixels option"
  s_blend :: BlendMode
  z_order :: u8
  visible :: bool

definition surface_new :: "u32 \<Rightarrow> u32 \<Rightarrow> u32 \<Rightarrow> u32 \<Rightarrow> u32 \<Rightarrow> Surface" where
  "surface_new x y w h color = \<lparr>s_x = x, s_y = y, s_width = w, s_height = h, s_color = color,
     s_pixels = None, s_blend = Opaque, z_order = 0, visible = True\<rparr>"

definition with_pixels :: "u32 \<Rightarrow> u32 \<Rightarrow> u32 \<Rightarrow> u32 \<Rightarrow> u64 \<Rightarrow> u32 \<Rightarrow> Surface" where
  "with_pixels x y w h p src_stride = \<lparr>s_x = x, s_y = y, s_width = w, s_height = h, s_color = 0,
     s_pixels = Some \<lparr>pix_ptr = p, pix_stride = src_stride\<rparr>, s_blend = Opaque, z_order = 0,
     visible = True\<rparr>"

definition set_pixels :: "u64 \<Rightarrow> u32 \<Rightarrow> Surface \<Rightarrow> Surface" where
  "set_pixels p src_stride s = s\<lparr>s_pixels := Some \<lparr>pix_ptr = p, pix_stride = src_stride\<rparr>\<rparr>"

definition clear_pixels :: "Surface \<Rightarrow> Surface" where
  "clear_pixels s = s\<lparr>s_pixels := None\<rparr>"

record Compositor =
  c_surfaces :: "Surface option list"
  c_width :: u32
  c_height :: u32
  bg_color :: u32

definition compositor_new :: "u32 \<Rightarrow> u32 \<Rightarrow> Compositor" where
  "compositor_new w h = \<lparr>c_surfaces = replicate MAX_SURFACES None, c_width = w, c_height = h,
     bg_color = BLACK\<rparr>"

definition set_background :: "u32 \<Rightarrow> Compositor \<Rightarrow> Compositor" where
  "set_background color c = c\<lparr>bg_color := color\<rparr>"

definition add_surface :: "Surface \<Rightarrow> Compositor \<Rightarrow> usize option \<times> Compositor" where
  "add_surface s c =
     (if s_width s = 0 \<or> s_height s = 0 then (None, c)
      else if s_width s > 8192 \<or> s_height s > 8192 then (None, c)
      else if unat (s_width s) * unat (s_height s) \<ge> 2 ^ 32 then (None, c)
      else let i = find_from (\<lambda>i. c_surfaces c ! i = None) 0 MAX_SURFACES
           in if i < MAX_SURFACES then (Some i, c\<lparr>c_surfaces := (c_surfaces c)[i := Some s]\<rparr>)
              else (None, c))"

definition remove_surface :: "usize \<Rightarrow> Compositor \<Rightarrow> Compositor" where
  "remove_surface h c =
     (if h < MAX_SURFACES then c\<lparr>c_surfaces := (c_surfaces c)[h := None]\<rparr> else c)"

definition surface_ref :: "usize \<Rightarrow> Compositor \<Rightarrow> Surface option" where
  "surface_ref h c = (if h < length (c_surfaces c) then c_surfaces c ! h else None)"

text \<open>Access through \<open>surface_mut\<close>: the surface becomes \<open>f\<close> of what it was.\<close>

definition surface_mut :: "usize \<Rightarrow> (Surface \<Rightarrow> Surface) \<Rightarrow> Compositor \<Rightarrow> Compositor" where
  "surface_mut h f c = (case surface_ref h c of None \<Rightarrow> c
     | Some s \<Rightarrow> c\<lparr>c_surfaces := (c_surfaces c)[h := Some (f s)]\<rparr>)"

definition dimensions :: "Compositor \<Rightarrow> u32 \<times> u32" where
  "dimensions c = (c_width c, c_height c)"

section \<open>Painting\<close>

fun for_each :: "('a \<Rightarrow> 's \<Rightarrow> 's option) \<Rightarrow> 'a list \<Rightarrow> 's \<Rightarrow> 's option" where
  "for_each f [] s = Some s"
| "for_each f (x # xs) s = (case f x s of None \<Rightarrow> None | Some s1 \<Rightarrow> for_each f xs s1)"

definition put_px :: "nat \<Rightarrow> u32 \<Rightarrow> u32 list \<Rightarrow> u32 list option" where
  "put_px i v buf = (if i < length buf then Some (buf[i := v]) else None)"

definition paint_solid :: "Compositor \<Rightarrow> Surface \<Rightarrow> u32 \<Rightarrow> u32 list \<Rightarrow> u32 list option" where
  "paint_solid c s stride buf =
     (let x_end = min (s_x s + s_width s) (c_width c); y_end = min (s_y s + s_height s) (c_height c)
      in case s_blend s of
        Opaque \<Rightarrow> for_each (\<lambda>row b. let row_base = unat (of_nat row * stride) in
            for_each (\<lambda>col b. put_px (row_base + col) (s_color s) b) [unat (s_x s)..<unat x_end] b)
          [unat (s_y s)..<unat y_end] buf
      | Alpha \<Rightarrow>
          let src_a = drop_bit 24 (s_color s) AND 0xFF;
              src_r = drop_bit 16 (s_color s) AND 0xFF;
              src_g = drop_bit 8 (s_color s) AND 0xFF;
              src_b = s_color s AND 0xFF
          in for_each (\<lambda>row b. let row_base = unat (of_nat row * stride) in
            for_each (\<lambda>col b. put_px (row_base + col) (alpha_blend src_r src_g src_b src_a (b ! (row_base + col))) b)
              [unat (s_x s)..<unat x_end] b)
          [unat (s_y s)..<unat y_end] buf)"

definition blend_px :: "u32 \<Rightarrow> nat \<Rightarrow> u32 list \<Rightarrow> u32 list option" where
  "blend_px src_px dst_idx buf =
     (let src_a = drop_bit 24 src_px AND 0xFF
      in if src_a = 0 then Some buf
         else if src_a = 255 then put_px dst_idx src_px buf
         else let src_r = drop_bit 16 src_px AND 0xFF;
                  src_g = drop_bit 8 src_px AND 0xFF;
                  src_b = src_px AND 0xFF
              in put_px dst_idx (alpha_blend src_r src_g src_b src_a (buf ! dst_idx)) buf)"

definition copy_row :: "nat \<Rightarrow> u32 list \<Rightarrow> u32 list \<Rightarrow> u32 list option" where
  "copy_row dst_base src_row buf =
     (if dst_base + length src_row > length buf then None
      else Some (take dst_base buf @ src_row @ drop (dst_base + length src_row) buf))"

definition paint_pixels ::
  "image_memory \<Rightarrow> Compositor \<Rightarrow> Surface \<Rightarrow> SurfacePixels \<Rightarrow> u32 \<Rightarrow> u32 list \<Rightarrow> u32 list option" where
  "paint_pixels img c s pix stride buf =
     (let x_end = min (s_x s + s_width s) (c_width c);
          y_end = min (s_y s + s_height s) (c_height c);
          clip_w = x_end - s_x s;
          clip_h = y_end - s_y s
      in case s_blend s of
        Opaque \<Rightarrow>
          if clip_w = s_width s
          then for_each (\<lambda>row b.
                 let dst_base = unat ((s_y s + of_nat row) * stride + s_x s);
                     src_base = unat (of_nat row * pix_stride pix)
                 in copy_row dst_base (map (\<lambda>k. img (pix_ptr pix) (src_base + k)) [0..<unat clip_w]) b)
               [0..<unat clip_h] buf
          else for_each (\<lambda>row b.
                 let dst_base = unat ((s_y s + of_nat row) * stride);
                     src_base = unat (of_nat row * pix_stride pix)
                 in for_each (\<lambda>col b. put_px (dst_base + unat (s_x s + of_nat col)) (img (pix_ptr pix) (src_base + col)) b)
                    [0..<unat clip_w] b)
               [0..<unat clip_h] buf
      | Alpha \<Rightarrow> for_each (\<lambda>row b.
                 let dst_base = unat ((s_y s + of_nat row) * stride);
                     src_base = unat (of_nat row * pix_stride pix)
                 in for_each (\<lambda>col b. blend_px (img (pix_ptr pix) (src_base + col)) (dst_base + unat (s_x s + of_nat col)) b)
                    [0..<unat clip_w] b)
               [0..<unat clip_h] buf)"

definition paint_surface ::
  "image_memory \<Rightarrow> Compositor \<Rightarrow> u32 \<Rightarrow> Surface \<Rightarrow> u32 list \<Rightarrow> u32 list option" where
  "paint_surface img c stride s buf =
     (if s_x s \<ge> c_width c \<or> s_y s \<ge> c_height c then Some buf
      else if unat (min (s_y s + s_height s) (c_height c)) * unat stride > length buf then Some buf
      else case s_pixels s of
             None \<Rightarrow> paint_solid c s stride buf
           | Some pix \<Rightarrow> paint_pixels img c s pix stride buf)"

section \<open>Composition\<close>

text \<open>The inner loop of the insertion sort, from position \<open>j\<close> down.\<close>

fun sift :: "(usize \<Rightarrow> u8) \<Rightarrow> usize list \<Rightarrow> nat \<Rightarrow> usize list" where
  "sift key order 0 = order"
| "sift key order (Suc j) =
     (if key (order ! j) > key (order ! Suc j)
      then sift key (order[j := order ! Suc j, Suc j := order ! j]) j
      else order)"

definition visible_handles :: "Compositor \<Rightarrow> usize list" where
  "visible_handles c =
     filter (\<lambda>i. case c_surfaces c ! i of Some s \<Rightarrow> visible s | None \<Rightarrow> False) [0..<length (c_surfaces c)]"

definition z_of :: "Compositor \<Rightarrow> usize \<Rightarrow> u8" where
  "z_of c i = z_order (the (c_surfaces c ! i))"

definition draw_order :: "Compositor \<Rightarrow> usize list" where
  "draw_order c = (let vis = visible_handles c in fold (\<lambda>i order. sift (z_of c) order i) [1..<length vis] vis)"

definition compose :: "image_memory \<Rightarrow> Compositor \<Rightarrow> u32 \<Rightarrow> u32 list \<Rightarrow> u32 list option" where
  "compose img c stride buf =
     (let total = unat (stride * c_height c)
      in if total > length buf then None
         else for_each (\<lambda>i b. case c_surfaces c ! i of
                  Some s \<Rightarrow> paint_surface img c stride s b
                | None \<Rightarrow> Some b)
              (draw_order c) (replicate total (bg_color c) @ drop total buf))"

section \<open>The sort is a stable sort\<close>

lemma length_sift [simp]: "length (sift key xs j) = length xs"
  by (induction key xs j rule: sift.induct) auto

lemma sift_frame: "j < length xs \<Longrightarrow> drop (Suc j) (sift key xs j) = drop (Suc j) xs"
proof (induction key xs j rule: sift.induct)
  case (2 key xs j)
  let ?ys = "xs[j := xs ! Suc j, Suc j := xs ! j]"
  show ?case
  proof (cases "key (xs ! j) > key (xs ! Suc j)")
    case True
    with 2 have "drop (Suc j) (sift key ?ys j) = drop (Suc j) ?ys" by simp
    then have "drop 1 (drop (Suc j) (sift key ?ys j)) = drop 1 (drop (Suc j) ?ys)" by simp
    with True show ?thesis by simp
  qed simp
qed simp

text \<open>
  Sifting down the element after a sorted prefix inserts it behind all elements of the prefix whose
  key is not larger.
\<close>

lemma sift_insert:
  assumes "j < length xs" "sorted (map key (take j xs))"
  shows "take (Suc j) (sift key xs j) =
    takeWhile (\<lambda>y. key y \<le> key (xs ! j)) (take j xs) @ xs ! j # dropWhile (\<lambda>y. key y \<le> key (xs ! j)) (take j xs)"
  using assms
proof (induction key xs j rule: sift.induct)
  case (1 key xs)
  then show ?case by (cases xs) simp_all
next
  case (2 key xs j)
  let ?x = "xs ! Suc j" and ?y = "xs ! j"
  have j: "j < length xs" using 2 by simp
  have pre: "take (Suc j) xs = take j xs @ [?y]" using j by (simp add: take_Suc_conv_app_nth)
  have sorted: "sorted (map key (take j xs))" "\<forall>z \<in> set (take j xs). key z \<le> key ?y"
    using 2(3) unfolding pre by (auto simp: sorted_append)
  show ?case
  proof (cases "key ?y > key ?x")
    case True
    let ?ys = "xs[j := ?x, Suc j := ?y]"
    have ys: "take j ?ys = take j xs" "?ys ! j = ?x" "?ys ! Suc j = ?y" "Suc j < length ?ys"
      using 2(2) j by simp_all
    have "take (Suc j) (sift key ?ys j) = takeWhile (\<lambda>y. key y \<le> key ?x) (take j xs) @
        ?x # dropWhile (\<lambda>y. key y \<le> key ?x) (take j xs)"
      using 2(1) [OF True] sorted(1) j ys by simp
    moreover have "sift key ?ys j ! Suc j = ?y"
      using sift_frame [of j ?ys key] ys j by (metis Cons_nth_drop_Suc length_list_update length_sift list.inject Suc_lessD)
    moreover have "takeWhile (\<lambda>y. key y \<le> key ?x) (take (Suc j) xs) = takeWhile (\<lambda>y. key y \<le> key ?x) (take j xs)"
      "dropWhile (\<lambda>y. key y \<le> key ?x) (take (Suc j) xs) = dropWhile (\<lambda>y. key y \<le> key ?x) (take j xs) @ [?y]"
      unfolding pre using leD True
      by (auto simp: takeWhile_tail dropWhile_append)
    ultimately show ?thesis
      using True 2(2) by (simp add: take_Suc_conv_app_nth [of "Suc j"])
  next
    case False
    then have "\<forall>z \<in> set (take (Suc j) xs). key z \<le> key ?x"
      using sorted(2) unfolding pre by auto
    then have "takeWhile (\<lambda>y. key y \<le> key ?x) (take (Suc j) xs) = take (Suc j) xs"
      "dropWhile (\<lambda>y. key y \<le> key ?x) (take (Suc j) xs) = []"
      by (simp_all add: takeWhile_eq_all_conv)
    with False 2(2) show ?thesis by (simp add: take_Suc_conv_app_nth)
  qed
qed

lemma draw_order_sorted: "draw_order c = sort_key (z_of c) (visible_handles c)"
proof -
  define vis where "vis = visible_handles c"
  define key where "key = z_of c"
  have "take k (fold (\<lambda>i xs. sift key xs i) [1..<k] vis) = sort_key key (take k vis) \<and>
      drop k (fold (\<lambda>i xs. sift key xs i) [1..<k] vis) = drop k vis \<and>
      length (fold (\<lambda>i xs. sift key xs i) [1..<k] vis) = length vis" if "1 \<le> k" "k \<le> length vis" for k
    using that
  proof (induction k)
    case (Suc k)
    show ?case
    proof (cases "k = 0")
      case True
      with Suc show ?thesis by (cases vis) simp_all
    next
      case False
      define xs where "xs = fold (\<lambda>i xs. sift key xs i) [1..<k] vis"
      have IH: "take k xs = sort_key key (take k vis)" "drop k xs = drop k vis" "length xs = length vis"
        using Suc False by (auto simp: xs_def)
      have k: "k < length xs" using Suc IH by simp
      have nth: "xs ! k = vis ! k" using IH(2) k by (metis IH(3) hd_drop_conv_nth)
      have "take (Suc k) (sift key xs k) = sort_key key (take k vis @ [vis ! k])"
        using sift_insert [OF k, of key] IH(1) nth by (simp add: sort_key_snoc)
      moreover have "drop (Suc k) (sift key xs k) = drop (Suc k) vis"
        using sift_frame [OF k, of key] IH(2) by (metis drop_drop plus_1_eq_Suc)
      moreover have "fold (\<lambda>i xs. sift key xs i) [1..<Suc k] vis = sift key xs k"
        using False by (simp add: xs_def)
      ultimately show ?thesis
        using k IH(3) by (simp only: length_sift take_Suc_conv_app_nth [of k vis])
    qed
  qed simp
  note run = this
  have "fold (\<lambda>i xs. sift key xs i) [1..<length vis] vis = sort_key key vis"
  proof (cases "vis = []")
    case False
    then have "1 \<le> length vis" by (simp add: Suc_le_eq)
    then show ?thesis using run [of "length vis"] by (metis order_refl take_all)
  qed simp
  then show ?thesis by (simp add: draw_order_def vis_def [symmetric] key_def [symmetric])
qed

section \<open>One pixel at a time\<close>

text \<open>
  What the compositor promises: the value of the pixel at column \<open>x\<close> of row \<open>y\<close> is the background,
  with the visible surfaces that contain the pixel applied in ascending \<open>z_order\<close>, surfaces of the
  same order in the order of their handles.
\<close>

definition over :: "u32 \<Rightarrow> u32 \<Rightarrow> u32" where
  "over src dst = alpha_blend (drop_bit 16 src AND 0xFF) (drop_bit 8 src AND 0xFF) (src AND 0xFF)
     (drop_bit 24 src AND 0xFF) dst"

definition in_surface :: "Surface \<Rightarrow> nat \<Rightarrow> nat \<Rightarrow> bool" where
  "in_surface s x y \<longleftrightarrow> unat (s_x s) \<le> x \<and> x < unat (s_x s) + unat (s_width s) \<and>
     unat (s_y s) \<le> y \<and> y < unat (s_y s) + unat (s_height s)"

definition paint_px :: "image_memory \<Rightarrow> Surface \<Rightarrow> nat \<Rightarrow> nat \<Rightarrow> u32 \<Rightarrow> u32" where
  "paint_px img s x y p =
     (if \<not> in_surface s x y then p
      else case s_pixels s of
        None \<Rightarrow> (case s_blend s of Opaque \<Rightarrow> s_color s | Alpha \<Rightarrow> over (s_color s) p)
      | Some pix \<Rightarrow>
          let src = img (pix_ptr pix) ((y - unat (s_y s)) * unat (pix_stride pix) + (x - unat (s_x s)));
              a = drop_bit 24 src AND 0xFF
          in (case s_blend s of Opaque \<Rightarrow> src
              | Alpha \<Rightarrow> if a = 0 then p else if a = 255 then src else over src p))"

definition pixel_at :: "image_memory \<Rightarrow> Compositor \<Rightarrow> nat \<Rightarrow> nat \<Rightarrow> u32" where
  "pixel_at img c x y =
     fold (\<lambda>i p. paint_px img (the (c_surfaces c ! i)) x y p) (sort_key (z_of c) (visible_handles c)) (bg_color c)"

text \<open>No coordinate of the surface, and no row offset into its pixel buffer, wraps.\<close>

definition surface_fits :: "Surface \<Rightarrow> bool" where
  "surface_fits s \<longleftrightarrow> unat (s_x s) + unat (s_width s) < 2 ^ 32 \<and> unat (s_y s) + unat (s_height s) < 2 ^ 32 \<and>
     (case s_pixels s of None \<Rightarrow> True | Some pix \<Rightarrow> unat (s_height s) * unat (pix_stride pix) < 2 ^ 32)"

lemma for_each_append:
  "for_each f (xs @ ys) s = (case for_each f xs s of None \<Rightarrow> None | Some s1 \<Rightarrow> for_each f ys s1)"
  by (induction xs arbitrary: s) (auto split: option.splits)

text \<open>A loop over the columns of one row, each step updating its own pixel.\<close>

lemma for_each_cols:
  assumes step: "\<And>col b. x0 \<le> col \<Longrightarrow> col < x1 \<Longrightarrow> length b = length buf \<Longrightarrow>
      step col b = Some (b[base + col := g col (b ! (base + col))])"
    and x: "x0 \<le> x1" "base + x1 \<le> length buf"
  shows "\<exists>b. for_each step [x0..<x1] buf = Some b \<and> length b = length buf \<and>
    (\<forall>i < length buf. b ! i = (if base + x0 \<le> i \<and> i < base + x1 then g (i - base) (buf ! i) else buf ! i))"
  using x step
proof (induction x1)
  case (Suc x1)
  show ?case
  proof (cases "x0 \<le> x1")
    case True
    then obtain b where b: "for_each step [x0..<x1] buf = Some b" "length b = length buf"
      "\<forall>i < length buf. b ! i = (if base + x0 \<le> i \<and> i < base + x1 then g (i - base) (buf ! i) else buf ! i)"
      using Suc by auto
    have "step x1 b = Some (b[base + x1 := g x1 (b ! (base + x1))])"
      using Suc.prems(3) [of x1 b] True b(2) by simp
    with True b Suc.prems(2) show ?thesis
      by (auto simp: for_each_append nth_list_update less_Suc_eq)
  next
    case False
    with Suc.prems show ?thesis by (auto simp: le_Suc_eq)
  qed
qed auto

text \<open>
  \<open>rect_of st x0 x1 y0 y1 g buf b\<close>: \<open>b\<close> is \<open>buf\<close> with the pixels of a rectangle replaced.
\<close>

definition rect_of ::
  "nat \<Rightarrow> nat \<Rightarrow> nat \<Rightarrow> nat \<Rightarrow> nat \<Rightarrow> (nat \<Rightarrow> nat \<Rightarrow> u32 \<Rightarrow> u32) \<Rightarrow> u32 list \<Rightarrow> u32 list \<Rightarrow> bool" where
  "rect_of st x0 x1 y0 y1 g buf b \<longleftrightarrow> length b = length buf \<and>
     (\<forall>r c. c < st \<and> r * st + c < length buf \<longrightarrow> b ! (r * st + c) =
        (if y0 \<le> r \<and> r < y1 \<and> x0 \<le> c \<and> c < x1 then g r c (buf ! (r * st + c)) else buf ! (r * st + c)))"

lemma row_cases:
  fixes r row st c x0 x1 :: nat
  assumes "c < st" "x1 \<le> st"
  shows "row * st + x0 \<le> r * st + c \<and> r * st + c < row * st + x1 \<longleftrightarrow> r = row \<and> x0 \<le> c \<and> c < x1"
proof (cases r row rule: linorder_cases)
  case less
  then have "Suc r * st \<le> row * st" by (intro mult_le_mono1) simp
  with assms(1) less show ?thesis by simp
next
  case greater
  then have "Suc row * st \<le> r * st" by (intro mult_le_mono1) simp
  with assms(2) greater show ?thesis by simp
qed auto

lemma for_each_rows:
  assumes row: "\<And>row b. y0 \<le> row \<Longrightarrow> row < y1 \<Longrightarrow> length b = length buf \<Longrightarrow>
      \<exists>b1. f row b = Some b1 \<and> length b1 = length buf \<and>
        (\<forall>i < length buf. b1 ! i = (if row * st + x0 \<le> i \<and> i < row * st + x1
           then g row (i - row * st) (b ! i) else b ! i))"
    and x: "x1 \<le> st" and y: "y0 \<le> y1"
  shows "\<exists>b. for_each f [y0..<y1] buf = Some b \<and> rect_of st x0 x1 y0 y1 g buf b"
  using y row
proof (induction y1)
  case 0
  then show ?case by (simp add: rect_of_def)
next
  case (Suc y1)
  show ?case
  proof (cases "y0 \<le> y1")
    case True
    then obtain b where b: "for_each f [y0..<y1] buf = Some b" "rect_of st x0 x1 y0 y1 g buf b"
      using Suc by auto
    then have len: "length b = length buf" by (simp add: rect_of_def)
    obtain b1 where b1: "f y1 b = Some b1" "length b1 = length buf"
      "\<forall>i < length buf. b1 ! i = (if y1 * st + x0 \<le> i \<and> i < y1 * st + x1 then g y1 (i - y1 * st) (b ! i) else b ! i)"
      using Suc.prems(2) [of y1 b] True len by auto
    have "b1 ! (r * st + c) = (if y0 \<le> r \<and> r < Suc y1 \<and> x0 \<le> c \<and> c < x1
        then g r c (buf ! (r * st + c)) else buf ! (r * st + c))" if "c < st" "r * st + c < length buf" for r c
      using b(2) b1(3) that True row_cases [OF that(1) x, of y1 x0 r]
      by (auto simp: rect_of_def less_Suc_eq)
    with True b b1 show ?thesis by (simp add: for_each_append rect_of_def)
  next
    case False
    with Suc.prems(1) show ?thesis by (auto simp: le_Suc_eq rect_of_def)
  qed
qed

section \<open>The painting loops compute the pixels\<close>

text \<open>The geometry shared by the painting lemmas: a buffer of rows that does not wrap.\<close>

definition buffer_fits :: "Compositor \<Rightarrow> u32 \<Rightarrow> u32 list \<Rightarrow> bool" where
  "buffer_fits c stride buf \<longleftrightarrow> c_width c \<le> stride \<and> unat stride * unat (c_height c) < 2 ^ 32 \<and>
     unat stride * unat (c_height c) \<le> length buf"

lemma unat_less32: "unat (a :: u32) < 2 ^ 32"
  using unsigned_less [of a] by simp

lemma row_offset:
  assumes "buffer_fits c stride buf" "row < unat (c_height c)"
  shows "unat (of_nat row * stride) = row * unat stride" "row * unat stride + unat stride \<le> length buf"
proof -
  have "Suc row * unat stride \<le> unat (c_height c) * unat stride"
    using assms(2) by (intro mult_le_mono1) simp
  then have le: "row * unat stride + unat stride \<le> unat stride * unat (c_height c)"
    by (simp add: mult.commute)
  then show "row * unat stride + unat stride \<le> length buf"
    using assms(1) by (simp add: buffer_fits_def)
  have "row < 2 ^ 32" using assms(2) unat_less32 [of "c_height c"] by simp
  moreover have "row * unat stride < 2 ^ 32" using le assms(1) by (simp add: buffer_fits_def)
  ultimately show "unat (of_nat row * stride) = row * unat stride"
    by (simp add: unat_word_ariths(2) unsigned_of_nat take_bit_nat_eq_self)
qed

definition clip_rect ::
  "Compositor \<Rightarrow> nat \<Rightarrow> Surface \<Rightarrow> (nat \<Rightarrow> nat \<Rightarrow> u32 \<Rightarrow> u32) \<Rightarrow> u32 list \<Rightarrow> u32 list \<Rightarrow> bool" where
  "clip_rect c st s g buf b \<longleftrightarrow>
     rect_of st (unat (s_x s)) (min (unat (s_x s) + unat (s_width s)) (unat (c_width c)))
       (unat (s_y s)) (min (unat (s_y s) + unat (s_height s)) (unat (c_height c))) g buf b"

lemma paint_solid_rect:
  assumes fits: "buffer_fits c stride buf" and s: "surface_fits s" "s_pixels s = None"
    and on: "s_x s < c_width c" "s_y s < c_height c"
  shows "\<exists>b. paint_solid c s stride buf = Some b \<and>
    clip_rect c (unat stride) s (\<lambda>y x p. case s_blend s of Opaque \<Rightarrow> s_color s | Alpha \<Rightarrow> over (s_color s) p) buf b"
proof -
  define x1 where "x1 = min (unat (s_x s) + unat (s_width s)) (unat (c_width c))"
  define y1 where "y1 = min (unat (s_y s) + unat (s_height s)) (unat (c_height c))"
  define f where "f = (\<lambda>p. case s_blend s of Opaque \<Rightarrow> s_color s | Alpha \<Rightarrow> over (s_color s) p)"
  have x: "unat (min (s_x s + s_width s) (c_width c)) = x1" and y: "unat (min (s_y s + s_height s) (c_height c)) = y1"
    using s by (simp_all add: x1_def y1_def min32 add32 surface_fits_def)
  have le: "unat (s_x s) \<le> x1" "x1 \<le> unat stride" "unat (s_y s) \<le> y1" "y1 \<le> unat (c_height c)"
    using on fits by (auto simp: x1_def y1_def buffer_fits_def word_less_nat_alt word_le_nat_alt)
  have "\<exists>b. for_each (\<lambda>row b. for_each (\<lambda>col b. put_px (unat (of_nat row * stride) + col)
        (f (b ! (unat (of_nat row * stride) + col))) b) [unat (s_x s)..<x1] b) [unat (s_y s)..<y1] buf = Some b \<and>
      rect_of (unat stride) (unat (s_x s)) x1 (unat (s_y s)) y1 (\<lambda>y x. f) buf b"
  proof (rule for_each_rows [OF _ le(2,3)])
    fix row and b :: "u32 list" assume r: "unat (s_y s) \<le> row" "row < y1" "length b = length buf"
    have ro: "unat (of_nat row * stride) = row * unat stride" "row * unat stride + unat stride \<le> length buf"
      using row_offset [OF fits, of row] r le by simp_all
    show "\<exists>b1. for_each (\<lambda>col b. put_px (unat (of_nat row * stride) + col)
        (f (b ! (unat (of_nat row * stride) + col))) b) [unat (s_x s)..<x1] b = Some b1 \<and> length b1 = length buf \<and>
        (\<forall>i < length buf. b1 ! i = (if row * unat stride + unat (s_x s) \<le> i \<and> i < row * unat stride + x1
           then f (b ! i) else b ! i))"
      unfolding ro(1) using for_each_cols [of "unat (s_x s)" x1 b _ "row * unat stride" "\<lambda>col. f"] r(3) ro(2) le
      by (simp add: put_px_def)
  qed
  then show ?thesis
    unfolding paint_solid_def Let_def x y clip_rect_def x1_def [symmetric] y1_def [symmetric]
    by (cases "s_blend s") (simp_all add: f_def over_def)
qed

lemma for_each_map: "for_each f (map g xs) s = for_each (\<lambda>x. f (g x)) xs s"
  by (induction xs arbitrary: s) (auto split: option.splits)

lemma for_each_shift: "for_each f [0..<n] s = for_each (\<lambda>i. f (i - k)) [k..<k + n] s"
proof -
  have "[0..<n] = map (\<lambda>i. i - k) [k..<k + n]" by (rule nth_equalityI) simp_all
  then show ?thesis by (simp only: for_each_map)
qed

lemma for_each_cong_set:
  "(\<And>x s. x \<in> set xs \<Longrightarrow> f x s = g x s) \<Longrightarrow> for_each f xs s = for_each g xs s"
  by (induction xs arbitrary: s) (auto split: option.splits)

lemma copy_row_px:
  assumes "base + x0 \<le> length b" "x0 \<le> x1" "base + x1 \<le> length b"
  shows "\<exists>b1. copy_row (base + x0) (map v [0..<x1 - x0]) b = Some b1 \<and> length b1 = length b \<and>
    (\<forall>i < length b. b1 ! i = (if base + x0 \<le> i \<and> i < base + x1 then v (i - base - x0) else b ! i))"
proof -
  have "(take (base + x0) b @ map v [0..<x1 - x0] @ drop (base + x1) b) ! i =
      (if base + x0 \<le> i \<and> i < base + x1 then v (i - base - x0) else b ! i)" if "i < length b" for i
    using assms that by (auto simp: nth_append min_def)
  then show ?thesis using assms by (simp add: copy_row_def)
qed

definition blit_px :: "BlendMode \<Rightarrow> u32 \<Rightarrow> u32 \<Rightarrow> u32" where
  "blit_px m src p = (case m of Opaque \<Rightarrow> src
     | Alpha \<Rightarrow> if drop_bit 24 src AND 0xFF = 0 then p
                else if drop_bit 24 src AND 0xFF = 255 then src else over src p)"

lemma blend_px_put: "i < length b \<Longrightarrow> blend_px src i b = Some (b[i := blit_px Alpha src (b ! i)])"
  by (simp add: blend_px_def blit_px_def put_px_def over_def Let_def)

lemma paint_pixels_rect:
  assumes fits: "buffer_fits c stride buf" and s: "surface_fits s" "s_pixels s = Some pix"
    and on: "s_x s < c_width c" "s_y s < c_height c"
  shows "\<exists>b. paint_pixels img c s pix stride buf = Some b \<and> clip_rect c (unat stride) s
    (\<lambda>y x. blit_px (s_blend s)
      (img (pix_ptr pix) ((y - unat (s_y s)) * unat (pix_stride pix) + (x - unat (s_x s))))) buf b"
proof -
  define x0 where "x0 = unat (s_x s)"
  define y0 where "y0 = unat (s_y s)"
  define x1 where "x1 = min (x0 + unat (s_width s)) (unat (c_width c))"
  define y1 where "y1 = min (y0 + unat (s_height s)) (unat (c_height c))"
  define st where "st = unat stride"
  define src where "src = (\<lambda>y x. img (pix_ptr pix) ((y - y0) * unat (pix_stride pix) + (x - x0)))"
  have le: "x0 \<le> x1" "x1 \<le> st" "y0 \<le> y1" "y1 \<le> unat (c_height c)"
    using on fits by (auto simp: x0_def y0_def x1_def y1_def st_def buffer_fits_def word_less_nat_alt word_le_nat_alt)
  have ex: "unat (min (s_x s + s_width s) (c_width c)) = x1" and ey: "unat (min (s_y s + s_height s) (c_height c)) = y1"
    using s(1) by (simp_all add: x0_def y0_def x1_def y1_def min32 add32 surface_fits_def)
  have w: "unat (min (s_x s + s_width s) (c_width c) - s_x s) = x1 - x0"
    "unat (min (s_y s + s_height s) (c_height c) - s_y s) = y1 - y0"
    using le by (simp_all add: sub32 ex ey x0_def y0_def word_le_nat_alt)
  have rows: "unat ((s_y s + of_nat (r - y0)) * stride) = r * st" "r * st + x1 \<le> length buf"
    "unat ((s_y s + of_nat (r - y0)) * stride + s_x s) = r * st + x0"
    "unat (of_nat (r - y0) * pix_stride pix) = (r - y0) * unat (pix_stride pix)"
    if r: "y0 \<le> r" "r < y1" for r
  proof -
    have ro: "unat (of_nat r * stride) = r * st" "r * st + st \<le> length buf"
      using row_offset [OF fits, of r] r le by (simp_all add: st_def)
    have "(of_nat r :: u32) = of_nat (y0 + (r - y0))" using r by simp
    then have y: "s_y s + of_nat (r - y0) = of_nat r" by (simp only: of_nat_add) (simp add: y0_def)
    show "unat ((s_y s + of_nat (r - y0)) * stride) = r * st" unfolding y by (rule ro)
    show "r * st + x1 \<le> length buf" using ro(2) le(2) by simp
    have "Suc r * st \<le> unat (c_height c) * st" using r le by (intro mult_le_mono1) simp
    then have "r * st + st < 2 ^ 32" using fits by (simp add: buffer_fits_def st_def mult.commute)
    moreover have "x0 < st" using on fits by (auto simp: x0_def st_def buffer_fits_def word_less_nat_alt word_le_nat_alt)
    ultimately show "unat ((s_y s + of_nat (r - y0)) * stride + s_x s) = r * st + x0"
      unfolding y by (simp add: add32 ro(1) x0_def)
    have "(r - y0) * unat (pix_stride pix) \<le> unat (s_height s) * unat (pix_stride pix)"
      using r by (intro mult_le_mono1) (auto simp: y1_def)
    moreover have "r - y0 < 2 ^ 32" using r unat_less32 [of "s_height s"] by (auto simp: y1_def)
    moreover have "unat (s_height s) * unat (pix_stride pix) < 2 ^ 32" using s by (simp add: surface_fits_def)
    ultimately have "(r - y0) * unat (pix_stride pix) < 2 ^ 32" "r - y0 < 2 ^ 32" by linarith+
    then show "unat (of_nat (r - y0) * pix_stride pix) = (r - y0) * unat (pix_stride pix)"
      by (simp add: unat_word_ariths(2) of_nat32)
  qed
  define src_base where "src_base = (\<lambda>r. unat (of_nat (r - y0) * pix_stride pix))"
  define row_ok where "row_ok = (\<lambda>m r b b1. length b1 = length buf \<and>
    (\<forall>i < length buf. b1 ! i = (if r * st + x0 \<le> i \<and> i < r * st + x1
       then blit_px m (src r (i - r * st)) (b ! i) else b ! i)))"
  have run: "\<exists>b. for_each (\<lambda>r. F (r - y0)) [y0..<y1] buf = Some b \<and>
      rect_of st x0 x1 y0 y1 (\<lambda>y x. blit_px m (src y x)) buf b"
    if "\<And>r b. y0 \<le> r \<Longrightarrow> r < y1 \<Longrightarrow> length b = length buf \<Longrightarrow> \<exists>b1. F (r - y0) b = Some b1 \<and> row_ok m r b b1" for F m
    by (rule for_each_rows [OF _ le(2,3)]) (use that in \<open>simp add: row_ok_def\<close>)
  have col: "unat (s_x s + of_nat (k - x0)) = k" if "x0 \<le> k" "k < x1" for k
  proof -
    have "(of_nat k :: u32) = of_nat (x0 + (k - x0))" using that by simp
    then have "s_x s + of_nat (k - x0) = of_nat k" by (simp only: of_nat_add) (simp add: x0_def)
    then show ?thesis using that s(1) by (simp add: of_nat32 x1_def x0_def surface_fits_def)
  qed
  have cols: "\<exists>b1. for_each (\<lambda>k b. step (img (pix_ptr pix) (src_base r + k)) (r * st + unat (s_x s + of_nat k)) b)
        [0..<x1 - x0] b = Some b1 \<and> row_ok m r b b1"
    if r: "y0 \<le> r" "r < y1" and b: "length b = length buf"
      and step: "\<And>v i b. i < length b \<Longrightarrow> step v i b = Some (b[i := blit_px m v (b ! i)])" for step m r b
  proof -
    have "\<exists>b1. for_each (\<lambda>k b. step (img (pix_ptr pix) (src_base r + (k - x0))) (r * st + unat (s_x s + of_nat (k - x0))) b)
        [x0..<x1] b = Some b1 \<and> length b1 = length b \<and> (\<forall>i < length b. b1 ! i =
          (if r * st + x0 \<le> i \<and> i < r * st + x1 then blit_px m (src r (i - r * st)) (b ! i) else b ! i))"
      by (rule for_each_cols [where g = "\<lambda>k. blit_px m (src r k)"])
        (use rows(2,4) [OF r] b le step in \<open>simp_all add: col src_base_def src_def del: of_nat_diff\<close>)
    moreover have "x0 + (x1 - x0) = x1" using le by simp
    ultimately show ?thesis
      by (simp add: for_each_shift [of _ "x1 - x0" _ x0] row_ok_def b)
  qed
  have put: "put_px i v b = Some (b[i := blit_px Opaque v (b ! i)])" if "i < length b" for i v b
    using that by (simp add: put_px_def blit_px_def)
  have fast: "\<exists>b1. copy_row (unat ((s_y s + of_nat (r - y0)) * stride + s_x s))
      (map (\<lambda>k. img (pix_ptr pix) (src_base r + k)) [0..<x1 - x0]) b = Some b1 \<and> row_ok Opaque r b b1"
    if r: "y0 \<le> r" "r < y1" and b: "length b = length buf" for r b
    using copy_row_px [of "r * st" x0 b x1 "\<lambda>k. img (pix_ptr pix) (src_base r + k)"] rows(2,3) [OF r] b le
    unfolding src_base_def rows(4) [OF r] row_ok_def src_def blit_px_def
    by (auto simp: diff_diff_eq)
  have shift: "for_each F [0..<y1 - y0] buf = for_each (\<lambda>r. F (r - y0)) [y0..<y1] buf" for F
    using for_each_shift [of F "y1 - y0" buf y0] le by simp
  have "\<exists>b. paint_pixels img c s pix stride buf = Some b \<and>
      rect_of st x0 x1 y0 y1 (\<lambda>y x. blit_px (s_blend s) (src y x)) buf b"
  proof (cases "s_blend s")
    case Opaque
    show ?thesis
      unfolding paint_pixels_def Let_def Opaque BlendMode.case w shift
      by (cases "min (s_x s + s_width s) (c_width c) - s_x s = s_width s"; simp only: if_True if_False simp_thms; rule run)
        (use fast cols [OF _ _ _ put] rows(1) in \<open>simp_all add: src_base_def\<close>)
  next
    case Alpha
    show ?thesis
      unfolding paint_pixels_def Let_def Alpha BlendMode.case w shift
      by (rule run) (use cols [OF _ _ _ blend_px_put] rows(1) in \<open>simp add: src_base_def\<close>)
  qed
  then show ?thesis
    by (simp add: clip_rect_def x0_def y0_def x1_def y1_def st_def src_def)
qed

lemma paint_surface_px:
  assumes fits: "buffer_fits c stride buf" and s: "surface_fits s"
  shows "\<exists>b. paint_surface img c stride s buf = Some b \<and> length b = length buf \<and>
    (\<forall>y x. x < unat stride \<and> y * unat stride + x < length buf \<longrightarrow> b ! (y * unat stride + x) =
      (if x < unat (c_width c) \<and> y < unat (c_height c) then paint_px img s x y (buf ! (y * unat stride + x))
       else buf ! (y * unat stride + x)))"
proof (cases "s_x s \<ge> c_width c \<or> s_y s \<ge> c_height c")
  case True
  then show ?thesis
    by (auto simp: paint_surface_def paint_px_def in_surface_def word_le_nat_alt)
next
  case False
  then have on: "s_x s < c_width c" "s_y s < c_height c" by auto
  have "unat (min (s_y s + s_height s) (c_height c)) * unat stride \<le> unat (c_height c) * unat stride"
    by (intro mult_le_mono1) (simp add: min32)
  from this have inside: "\<not> unat (min (s_y s + s_height s) (c_height c)) * unat stride > length buf"
  proof -
    assume le: "unat (min (s_y s + s_height s) (c_height c)) * unat stride \<le> unat (c_height c) * unat stride"
    have "unat (c_height c) * unat stride \<le> length buf" using fits by (simp add: buffer_fits_def mult.commute)
    with le show ?thesis by linarith
  qed
  obtain b g where b: "paint_surface img c stride s buf = Some b" "clip_rect c (unat stride) s g buf b"
    and g: "\<And>y x p. in_surface s x y \<Longrightarrow> g y x p = paint_px img s x y p"
  proof (cases "s_pixels s")
    case None
    with paint_solid_rect [OF fits s None on] on inside show thesis
      by (auto simp: paint_surface_def paint_px_def not_le intro!: that)
  next
    case (Some pix)
    with paint_pixels_rect [OF fits s Some on, of img] on inside show thesis
      by (auto simp: paint_surface_def paint_px_def not_le blit_px_def Let_def intro!: that split: BlendMode.split)
  qed
  have "b ! (y * unat stride + x) =
      (if x < unat (c_width c) \<and> y < unat (c_height c) then paint_px img s x y (buf ! (y * unat stride + x))
       else buf ! (y * unat stride + x))" if "x < unat stride" "y * unat stride + x < length buf" for x y
    using b(2) g [of x y] that by (auto simp: clip_rect_def rect_of_def in_surface_def paint_px_def)
  with b show ?thesis by (auto simp: clip_rect_def rect_of_def)
qed

lemma compose_fold:
  assumes fits: "buffer_fits c stride buf"
    and hs: "\<forall>i \<in> set is. \<exists>s. c_surfaces c ! i = Some s \<and> surface_fits s"
  shows "\<exists>b. for_each (\<lambda>i b. case c_surfaces c ! i of Some s \<Rightarrow> paint_surface img c stride s b | None \<Rightarrow> Some b) is buf = Some b \<and>
    length b = length buf \<and>
    (\<forall>y x. x < unat stride \<and> y * unat stride + x < length buf \<longrightarrow> b ! (y * unat stride + x) =
      (if x < unat (c_width c) \<and> y < unat (c_height c)
       then fold (\<lambda>i p. paint_px img (the (c_surfaces c ! i)) x y p) is (buf ! (y * unat stride + x))
       else buf ! (y * unat stride + x)))"
  using assms
proof (induction "is" arbitrary: buf)
  case (Cons i "is")
  then obtain s where s: "c_surfaces c ! i = Some s" "surface_fits s" by auto
  obtain b where b: "paint_surface img c stride s buf = Some b" "length b = length buf"
    "\<forall>y x. x < unat stride \<and> y * unat stride + x < length buf \<longrightarrow> b ! (y * unat stride + x) =
      (if x < unat (c_width c) \<and> y < unat (c_height c) then paint_px img s x y (buf ! (y * unat stride + x))
       else buf ! (y * unat stride + x))"
    using paint_surface_px [OF Cons.prems(1) s(2), of img] by blast
  have "buffer_fits c stride b" using Cons.prems(1) b(2) by (simp add: buffer_fits_def)
  from Cons.IH [OF this] Cons.prems(2) obtain b1 where b1:
    "for_each (\<lambda>i b. case c_surfaces c ! i of Some s \<Rightarrow> paint_surface img c stride s b | None \<Rightarrow> Some b) is b = Some b1"
    "length b1 = length b"
    "\<forall>y x. x < unat stride \<and> y * unat stride + x < length b \<longrightarrow> b1 ! (y * unat stride + x) =
      (if x < unat (c_width c) \<and> y < unat (c_height c)
       then fold (\<lambda>i p. paint_px img (the (c_surfaces c ! i)) x y p) is (b ! (y * unat stride + x))
       else b ! (y * unat stride + x))"
    by auto
  show ?case
    using s b b1 by (intro exI [of _ b1]) simp
qed simp

text \<open>
  C19 (equivalence). For a buffer of at least \<open>stride * height\<close> pixels, with the screen no wider than
  the stride and no coordinate wrapping, \<open>compose\<close> does not panic, and every pixel of the screen has
  the value \<open>pixel_at\<close>: the background with the visible surfaces that contain it applied in the order
  of their \<open>z_order\<close>, ties by handle. Pixels between the screen's width and the stride have the
  background color, and those after \<open>stride * height\<close> keep their value.
\<close>

theorem compose_pixels:
  assumes "c_width c \<le> stride" "unat stride * unat (c_height c) < 2 ^ 32"
    and "unat stride * unat (c_height c) \<le> length buf"
    and "\<forall>s. Some s \<in> set (c_surfaces c) \<and> visible s \<longrightarrow> surface_fits s"
  shows "\<exists>b. compose img c stride buf = Some b \<and> length b = length buf \<and>
    (\<forall>y x. x < unat stride \<and> y * unat stride + x < length buf \<longrightarrow> b ! (y * unat stride + x) =
      (if y < unat (c_height c) then if x < unat (c_width c) then pixel_at img c x y else bg_color c
       else buf ! (y * unat stride + x)))"
proof -
  define total where "total = unat stride * unat (c_height c)"
  define b0 where "b0 = replicate total (bg_color c) @ drop total buf"
  have total: "unat (stride * c_height c) = total"
    using assms(2) by (simp add: total_def unat_word_ariths(2))
  have len: "length b0 = length buf" using assms(3) by (simp add: b0_def total_def)
  have fits: "buffer_fits c stride b0" using assms len by (simp add: buffer_fits_def)
  have order: "set (draw_order c) = set (visible_handles c)" by (simp add: draw_order_sorted)
  have "\<forall>i \<in> set (draw_order c). \<exists>s. c_surfaces c ! i = Some s \<and> surface_fits s"
    unfolding order using assms(4)
    by (auto simp: visible_handles_def split: option.splits) (metis nth_mem)
  from compose_fold [OF fits this, of img] obtain b where b:
    "compose img c stride buf = Some b" "length b = length buf"
    "\<forall>y x. x < unat stride \<and> y * unat stride + x < length buf \<longrightarrow> b ! (y * unat stride + x) =
      (if x < unat (c_width c) \<and> y < unat (c_height c)
       then fold (\<lambda>i p. paint_px img (the (c_surfaces c ! i)) x y p) (draw_order c) (b0 ! (y * unat stride + x))
       else b0 ! (y * unat stride + x))"
    using assms(3) unfolding len by (auto simp: compose_def total b0_def [symmetric] total_def [symmetric])
  have b0: "b0 ! (y * unat stride + x) = (if y < unat (c_height c) then bg_color c else buf ! (y * unat stride + x))"
    if "x < unat stride" "y * unat stride + x < length buf" for x y
  proof (cases "y < unat (c_height c)")
    case True
    then have "Suc y * unat stride \<le> unat (c_height c) * unat stride" by (intro mult_le_mono1) simp
    with that(1) have "y * unat stride + x < total" by (simp add: total_def mult.commute)
    with True show ?thesis by (simp add: b0_def nth_append)
  next
    case False
    then have "unat (c_height c) * unat stride \<le> y * unat stride" by (intro mult_le_mono1) simp
    then have "total \<le> y * unat stride + x"
      unfolding total_def by (metis mult.commute trans_le_add1)
    with False that(2) show ?thesis by (simp add: b0_def nth_append)
  qed
  show ?thesis
    using b by (intro exI [of _ b]) (auto simp: b0 pixel_at_def draw_order_sorted)
qed

text \<open>A half-transparent red square above an opaque blue one, on a screen of 2 by 2.\<close>

definition compositor_example :: Compositor where
  "compositor_example = snd (add_surface ((surface_new 0 0 2 2 0x80FF0000)\<lparr>s_blend := Alpha, z_order := 1\<rparr>)
     (snd (add_surface (surface_new 1 0 1 2 0xFF0000FF) (compositor_new 2 2))))"

lemma compositor_example_eq:
  "compositor_example = \<lparr>c_surfaces = Some (surface_new 1 0 1 2 0xFF0000FF) #
     Some ((surface_new 0 0 2 2 0x80FF0000)\<lparr>s_blend := Alpha, z_order := 1\<rparr>) # replicate 30 None,
     c_width = 2, c_height = 2, bg_color = BLACK\<rparr>"
proof -
  have "replicate MAX_SURFACES None = None # None # replicate 30 (None :: Surface option)"
    by (simp add: MAX_SURFACES_def numeral_eq_Suc)
  then show ?thesis
    by (simp add: compositor_example_def add_surface_def surface_new_def compositor_new_def MAX_SURFACES_def)
qed

lemma compositor_example_visible: "visible_handles compositor_example = [0, 1]"
proof -
  have "[0..<32] = 0 # 1 # [2..<32::nat]" by (simp add: upt_conv_Cons)
  then show ?thesis
    by (simp add: visible_handles_def compositor_example_eq surface_new_def filter_empty_conv)
qed

theorem compose_pixels_witness:
  "\<exists>b. compose (\<lambda>_ _. 0) compositor_example 2 [0, 0, 0, 0] = Some b \<and> b ! 0 = 0xFF800000 \<and> b ! 3 = 0xFF80007F"
proof -
  have "z_of compositor_example 0 = 0" "z_of compositor_example 1 = 1"
    by (simp_all add: z_of_def compositor_example_eq surface_new_def)
  then have sort: "sort_key (z_of compositor_example) [0, 1] = [0, 1]" by simp
  have px: "pixel_at (\<lambda>_ _. 0) compositor_example 0 0 = 0xFF800000" "pixel_at (\<lambda>_ _. 0) compositor_example 1 1 = 0xFF80007F"
    unfolding pixel_at_def compositor_example_visible sort
    by (simp_all add: compositor_example_eq surface_new_def paint_px_def in_surface_def over_def alpha_blend_def BLACK_def rgb_def)
  have fits: "\<forall>s. Some s \<in> set (c_surfaces compositor_example) \<and> visible s \<longrightarrow> surface_fits s"
    by (auto simp: compositor_example_eq surface_new_def surface_fits_def)
  have dims: "c_width compositor_example = 2" "c_height compositor_example = 2"
    by (simp_all add: compositor_example_eq)
  obtain b where "compose (\<lambda>_ _. 0) compositor_example 2 [0, 0, 0, 0] = Some b"
    "\<And>y x. x < 2 \<Longrightarrow> y * 2 + x < 4 \<Longrightarrow> y < 2 \<Longrightarrow> b ! (y * 2 + x) = pixel_at (\<lambda>_ _. 0) compositor_example x y"
    using compose_pixels [of compositor_example 2 "[0, 0, 0, 0]" "\<lambda>_ _. 0"] fits by (auto simp: dims)
  from this(1) this(2) [of 0 0] this(2) [of 1 1] px show ?thesis by simp
qed

end
