(* ===== verification/Input.thy ===== *)
theory Input
  imports Ring Compositor
begin

text \<open>
  Input, \<open>kernel/src/input/\<close>: the lock-free event queue (\<open>event.rs\<close>), the PS/2 and USB decoders
  (\<open>mouse.rs\<close>) and the input manager (\<open>mod.rs\<close>), which turns queued events into cursor moves and
  calls of listeners.

  A listener is a number, and a call of one is an entry of the list the dispatch functions return:
  listeners are code outside this component, taken not to call back into it. The display server is
  the compositor with its surfaces, or \<open>None\<close> before its initialisation.
\<close>

section \<open>Events and their queue\<close>

definition btn_LEFT :: u8 where "btn_LEFT = 1"

datatype InputEvent =
    MouseMove u16 u16
  | MouseButton u8 bool u32 u32
  | MouseWheel u8 u32 u32
  | KeyDown u16
  | KeyUp u16
  | Touch u8 u32 u32 bool

definition QUEUE_CAPACITY :: usize where "QUEUE_CAPACITY = 64"

record EventQueue =
  ev_buf :: "InputEvent list"
  ev_head :: usize
  ev_tail :: usize
  ev_dropped :: usize

definition queue_new :: EventQueue where
  "queue_new = \<lparr>ev_buf = replicate QUEUE_CAPACITY (MouseMove 0 0), ev_head = 0, ev_tail = 0, ev_dropped = 0\<rparr>"

definition ev_push :: "InputEvent \<Rightarrow> EventQueue \<Rightarrow> bool \<times> EventQueue" where
  "ev_push e q =
     (let tail = ev_tail q;
          next_tail = (tail + 1) mod QUEUE_CAPACITY;
          dropped = (next_tail = ev_head q);
          q1 = (if dropped
                then q\<lparr>ev_head := (ev_head q + 1) mod QUEUE_CAPACITY, ev_dropped := uadd (ev_dropped q) 1\<rparr>
                else q)
      in (\<not> dropped, q1\<lparr>ev_buf := (ev_buf q1)[tail := e], ev_tail := next_tail\<rparr>))"

definition dropped_count :: "EventQueue \<Rightarrow> usize" where
  "dropped_count q = ev_dropped q"

definition ev_pop :: "EventQueue \<Rightarrow> InputEvent option \<times> EventQueue" where
  "ev_pop q =
     (if ev_head q = ev_tail q then (None, q)
      else (Some (ev_buf q ! ev_head q), q\<lparr>ev_head := (ev_head q + 1) mod QUEUE_CAPACITY\<rparr>))"

text \<open>Draining into a slice of \<open>n\<close> elements: the events written, in order.\<close>

fun ev_drain :: "nat \<Rightarrow> EventQueue \<Rightarrow> InputEvent list \<times> EventQueue" where
  "ev_drain 0 q = ([], q)"
| "ev_drain (Suc n) q = (case ev_pop q of
     (None, q1) \<Rightarrow> ([], q1)
   | (Some e, q1) \<Rightarrow> (case ev_drain n q1 of (es, q2) \<Rightarrow> (e # es, q2)))"

definition ev_is_empty :: "EventQueue \<Rightarrow> bool" where
  "ev_is_empty q \<longleftrightarrow> ev_head q = ev_tail q"

subsection \<open>The queue as a list that drops its oldest event\<close>

definition queue_ok :: "EventQueue \<Rightarrow> bool" where
  "queue_ok q \<longleftrightarrow> length (ev_buf q) = QUEUE_CAPACITY \<and> ev_head q < QUEUE_CAPACITY \<and> ev_tail q < QUEUE_CAPACITY"

definition pending :: "EventQueue \<Rightarrow> InputEvent list" where
  "pending q = ring (ev_buf q) (ev_head q) ((ev_tail q + QUEUE_CAPACITY - ev_head q) mod QUEUE_CAPACITY)"

definition push_oldest :: "InputEvent \<Rightarrow> InputEvent list \<Rightarrow> InputEvent list" where
  "push_oldest e es = (if length es < 63 then es @ [e] else tl es @ [e])"

lemma queue_new_ok: "queue_ok queue_new" "pending queue_new = []"
  by (simp_all add: queue_ok_def queue_new_def pending_def QUEUE_CAPACITY_def)

lemma tail_pos:
  assumes "queue_ok q"
  obtains n where "n < 64" "ev_tail q = (ev_head q + n) mod 64" "pending q = ring (ev_buf q) (ev_head q) n"
    "(ev_tail q + 1) mod 64 = ev_head q \<longleftrightarrow> n = 63" "ev_head q = ev_tail q \<longleftrightarrow> n = 0"
proof
  let ?n = "(ev_tail q + 64 - ev_head q) mod 64"
  have b: "ev_head q < 64" "ev_tail q < 64" using assms by (simp_all add: queue_ok_def QUEUE_CAPACITY_def)
  have n: "?n = (if ev_head q \<le> ev_tail q then ev_tail q - ev_head q else ev_tail q + 64 - ev_head q)"
    using b by (auto simp: mod_if)
  show "?n < 64" by simp
  show "ev_tail q = (ev_head q + ?n) mod 64" using b n by (auto simp: mod_if)
  show "pending q = ring (ev_buf q) (ev_head q) ?n" by (simp add: pending_def QUEUE_CAPACITY_def)
  show "(ev_tail q + 1) mod 64 = ev_head q \<longleftrightarrow> ?n = 63" using b n by (auto simp: mod_if split: if_splits)
  show "ev_head q = ev_tail q \<longleftrightarrow> ?n = 0" using b n by (auto split: if_splits)
qed

lemma pendingI:
  assumes "queue_ok q" "n < 64" "ev_tail q = (ev_head q + n) mod 64"
  shows "pending q = ring (ev_buf q) (ev_head q) n"
proof -
  have b: "ev_head q < 64" "ev_tail q < 64" using assms(1) by (simp_all add: queue_ok_def QUEUE_CAPACITY_def)
  have "(ev_tail q + 64 - ev_head q) mod 64 = n" using b assms(2,3) by (auto simp: mod_if split: if_splits)
  then show ?thesis by (simp add: pending_def QUEUE_CAPACITY_def)
qed

lemma ev_push_spec:
  assumes "queue_ok q"
  shows "queue_ok (snd (ev_push e q))" "pending (snd (ev_push e q)) = push_oldest e (pending q)"
    "fst (ev_push e q) \<longleftrightarrow> length (pending q) < 63"
    "ev_dropped (snd (ev_push e q)) = (if length (pending q) < 63 then ev_dropped q else uadd (ev_dropped q) 1)"
proof -
  obtain n where n: "n < 64" "ev_tail q = (ev_head q + n) mod 64" "pending q = ring (ev_buf q) (ev_head q) n"
    "(ev_tail q + 1) mod 64 = ev_head q \<longleftrightarrow> n = 63"
    using tail_pos [OF assms] by metis
  have len: "length (ev_buf q) = 64" "ev_head q < 64" using assms by (simp_all add: queue_ok_def QUEUE_CAPACITY_def)
  show ok: "queue_ok (snd (ev_push e q))"
    using assms by (simp add: queue_ok_def ev_push_def Let_def QUEUE_CAPACITY_def)
  have l: "length (pending q) = n" using n(3) by simp
  show "fst (ev_push e q) \<longleftrightarrow> length (pending q) < 63"
    "ev_dropped (snd (ev_push e q)) = (if length (pending q) < 63 then ev_dropped q else uadd (ev_dropped q) 1)"
    using n(1,4) l by (auto simp: ev_push_def Let_def QUEUE_CAPACITY_def)
  show "pending (snd (ev_push e q)) = push_oldest e (pending q)"
  proof (cases "n = 63")
    case True
    have "pending q = ev_buf q ! ev_head q # ring (ev_buf q) (Suc (ev_head q) mod 64) 62"
      unfolding n(3) using ring_Suc_first [of "ev_head q" "ev_buf q" 62] len True by simp
    moreover have "pending (snd (ev_push e q)) =
        ring ((ev_buf q)[(Suc (ev_head q) mod 64 + 62) mod 64 := e]) (Suc (ev_head q) mod 64) (Suc 62)"
      using pendingI [OF ok, of 63] n(2,4) True
      by (simp add: ev_push_def Let_def QUEUE_CAPACITY_def mod_simps add.commute)
    ultimately show ?thesis
      using ring_push [of 62 "ev_buf q" "Suc (ev_head q) mod 64" e] len by (simp add: push_oldest_def)
  next
    case False
    have "pending (snd (ev_push e q)) = ring ((ev_buf q)[(ev_head q + n) mod 64 := e]) (ev_head q) (Suc n)"
      using pendingI [OF ok, of "Suc n"] n(1,2,4) False by (simp add: ev_push_def Let_def QUEUE_CAPACITY_def mod_simps)
    then show ?thesis
      using ring_push [of n "ev_buf q" "ev_head q" e] len n(1,3) False by (simp add: push_oldest_def)
  qed
qed

lemma ev_pop_spec:
  assumes "queue_ok q"
  shows "queue_ok (snd (ev_pop q))"
    "fst (ev_pop q) = (case pending q of [] \<Rightarrow> None | e # es \<Rightarrow> Some e)"
    "pending (snd (ev_pop q)) = tl (pending q)" "ev_dropped (snd (ev_pop q)) = ev_dropped q"
proof -
  obtain n where n: "n < 64" "ev_tail q = (ev_head q + n) mod 64" "pending q = ring (ev_buf q) (ev_head q) n"
    "ev_head q = ev_tail q \<longleftrightarrow> n = 0"
    using tail_pos [OF assms] by metis
  have len: "length (ev_buf q) = 64" "ev_head q < 64" using assms by (simp_all add: queue_ok_def QUEUE_CAPACITY_def)
  show ok: "queue_ok (snd (ev_pop q))" using assms by (simp add: queue_ok_def ev_pop_def QUEUE_CAPACITY_def)
  show "ev_dropped (snd (ev_pop q)) = ev_dropped q" by (simp add: ev_pop_def)
  show "fst (ev_pop q) = (case pending q of [] \<Rightarrow> None | e # es \<Rightarrow> Some e)"
    "pending (snd (ev_pop q)) = tl (pending q)"
  proof (atomize (full), cases n)
    case 0
    with n show "fst (ev_pop q) = (case pending q of [] \<Rightarrow> None | e # es \<Rightarrow> Some e) \<and>
      pending (snd (ev_pop q)) = tl (pending q)" by (simp add: ev_pop_def)
  next
    case (Suc m)
    have "pending q = ev_buf q ! ev_head q # ring (ev_buf q) (Suc (ev_head q) mod 64) m"
      unfolding n(3) Suc using ring_Suc_first [of "ev_head q" "ev_buf q" m] len by simp
    moreover have "pending (snd (ev_pop q)) = ring (ev_buf q) (Suc (ev_head q) mod 64) m"
      using pendingI [OF ok, of m] n Suc by (simp add: ev_pop_def QUEUE_CAPACITY_def mod_simps)
    ultimately show "fst (ev_pop q) = (case pending q of [] \<Rightarrow> None | e # es \<Rightarrow> Some e) \<and>
      pending (snd (ev_pop q)) = tl (pending q)" using n Suc by (simp add: ev_pop_def)
  qed
qed

section \<open>Device decoders\<close>

text \<open>The button transitions of a report: one event for each of the three bits that changed.\<close>

definition push_buttons :: "u8 \<Rightarrow> u8 \<Rightarrow> u32 \<Rightarrow> u32 \<Rightarrow> EventQueue \<Rightarrow> EventQueue" where
  "push_buttons buttons changed x y q =
     (if changed = 0 then q
      else fold (\<lambda>b q. if changed AND push_bit b 1 \<noteq> 0
             then snd (ev_push (MouseButton (push_bit b 1) (buttons AND push_bit b 1 \<noteq> 0) x y) q) else q)
        [0..<3] q)"

record Ps2Mouse =
  pm_buf :: "u8 list"
  pm_pos :: usize
  pm_prev_buttons :: u8

definition ps2_mouse_new :: Ps2Mouse where
  "ps2_mouse_new = \<lparr>pm_buf = [0, 0, 0], pm_pos = 0, pm_prev_buttons = 0\<rparr>"

definition ps2_decode :: "Ps2Mouse \<Rightarrow> EventQueue \<Rightarrow> u32 \<Rightarrow> u32 \<Rightarrow> Ps2Mouse \<times> EventQueue" where
  "ps2_decode m q cx cy =
     (let flags = pm_buf m ! 0;
          buttons = flags AND 0x07;
          raw_dx = (ucast (pm_buf m ! 1) OR (if flags AND 0x10 \<noteq> 0 then - 256 else 0) :: u16);
          raw_dy = - (ucast (pm_buf m ! 2) OR (if flags AND 0x20 \<noteq> 0 then - 256 else 0) :: u16)
      in if flags AND 0xC0 \<noteq> 0 then (m, q)
         else let q1 = (if raw_dx \<noteq> 0 \<or> raw_dy \<noteq> 0 then snd (ev_push (MouseMove raw_dx raw_dy) q) else q);
                  changed = buttons XOR pm_prev_buttons m
              in (m\<lparr>pm_prev_buttons := buttons\<rparr>, push_buttons buttons changed cx cy q1))"

definition ps2_feed :: "u8 \<Rightarrow> u32 \<Rightarrow> u32 \<Rightarrow> Ps2Mouse \<Rightarrow> EventQueue \<Rightarrow> Ps2Mouse \<times> EventQueue" where
  "ps2_feed byte cx cy m q =
     (if pm_pos m = 0 \<and> byte AND 0x08 = 0 then (m, q)
      else let m1 = m\<lparr>pm_buf := (pm_buf m)[pm_pos m := byte], pm_pos := pm_pos m + 1\<rparr>
           in if pm_pos m1 = 3 then ps2_decode (m1\<lparr>pm_pos := 0\<rparr>) q cx cy else (m1, q))"

record UsbHidMouse =
  um_prev_buttons :: u8

definition usb_mouse_new :: UsbHidMouse where
  "usb_mouse_new = \<lparr>um_prev_buttons = 0\<rparr>"

definition handle_report ::
  "u8 list \<Rightarrow> u32 \<Rightarrow> u32 \<Rightarrow> UsbHidMouse \<Rightarrow> EventQueue \<Rightarrow> UsbHidMouse \<times> EventQueue" where
  "handle_report report cx cy m q =
     (if length report < 3 then (m, q)
      else let buttons = report ! 0 AND 0x07;
               dx = (scast (report ! 1) :: u16);
               dy = (scast (report ! 2) :: u16);
               q1 = (if dx \<noteq> 0 \<or> dy \<noteq> 0 then snd (ev_push (MouseMove dx dy) q) else q);
               q2 = (if length report \<ge> 4 \<and> report ! 3 \<noteq> 0
                     then snd (ev_push (MouseWheel (report ! 3) cx cy) q1) else q1);
               changed = buttons XOR um_prev_buttons m
           in (m\<lparr>um_prev_buttons := buttons\<rparr>, push_buttons buttons changed cx cy q2))"

record Ps2Keyboard =
  kb_extended :: bool
  kb_release :: bool

definition ps2_kbd_new :: Ps2Keyboard where
  "ps2_kbd_new = \<lparr>kb_extended = False, kb_release = False\<rparr>"

definition kbd_feed :: "u8 \<Rightarrow> Ps2Keyboard \<Rightarrow> EventQueue \<Rightarrow> Ps2Keyboard \<times> EventQueue" where
  "kbd_feed byte k q =
     (if byte = 0xE0 then (k\<lparr>kb_extended := True\<rparr>, q)
      else if byte = 0xF0 then (k\<lparr>kb_release := True\<rparr>, q)
      else let scancode = (if kb_extended k then 0x0100 OR ucast byte else ucast byte :: u16);
               q1 = snd (ev_push (if kb_release k then KeyUp scancode else KeyDown scancode) q)
           in (k\<lparr>kb_extended := False, kb_release := False\<rparr>, q1))"

section \<open>The input manager\<close>

definition MAX_LISTENERS :: usize where "MAX_LISTENERS = 32"

record InputManager =
  im_ps2_mouse :: Ps2Mouse
  im_usb_mouse :: UsbHidMouse
  im_ps2_kbd :: Ps2Keyboard
  cursor_x :: u32
  cursor_y :: u32
  cursor_handle :: "usize option"
  screen_w :: u32
  screen_h :: u32
  listeners :: "(usize \<times> nat option) list"
  held_buttons :: u8

definition manager_new :: InputManager where
  "manager_new = \<lparr>im_ps2_mouse = ps2_mouse_new, im_usb_mouse = usb_mouse_new, im_ps2_kbd = ps2_kbd_new,
     cursor_x = 0, cursor_y = 0, cursor_handle = None, screen_w = 1080, screen_h = 1920,
     listeners = replicate MAX_LISTENERS (0, None), held_buttons = 0\<rparr>"

definition input_init :: "u32 \<Rightarrow> u32 \<Rightarrow> InputManager \<Rightarrow> InputManager" where
  "input_init w h m = m\<lparr>screen_w := w, screen_h := h\<rparr>"

definition set_cursor :: "usize \<Rightarrow> InputManager \<Rightarrow> InputManager" where
  "set_cursor h m = m\<lparr>cursor_handle := Some h\<rparr>"

definition register_listener :: "usize \<Rightarrow> nat \<Rightarrow> InputManager \<Rightarrow> InputManager" where
  "register_listener h l m =
     (let i = find_from (\<lambda>i. snd (listeners m ! i) = None) 0 (length (listeners m))
      in if i < length (listeners m) then m\<lparr>listeners := (listeners m)[i := (h, Some l)]\<rparr> else m)"

definition unregister_listener :: "usize \<Rightarrow> InputManager \<Rightarrow> InputManager" where
  "unregister_listener h m =
     m\<lparr>listeners := map (\<lambda>slot. if fst slot = h \<and> snd slot \<noteq> None then (0, None) else slot) (listeners m)\<rparr>"

definition feed_ps2_mouse :: "u8 \<Rightarrow> InputManager \<Rightarrow> EventQueue \<Rightarrow> InputManager \<times> EventQueue" where
  "feed_ps2_mouse byte m q =
     (case ps2_feed byte (cursor_x m) (cursor_y m) (im_ps2_mouse m) q of (d, q1) \<Rightarrow> (m\<lparr>im_ps2_mouse := d\<rparr>, q1))"

definition feed_usb_hid :: "u8 list \<Rightarrow> InputManager \<Rightarrow> EventQueue \<Rightarrow> InputManager \<times> EventQueue" where
  "feed_usb_hid report m q =
     (case handle_report report (cursor_x m) (cursor_y m) (im_usb_mouse m) q of (d, q1) \<Rightarrow> (m\<lparr>im_usb_mouse := d\<rparr>, q1))"

definition feed_ps2_kbd :: "u8 \<Rightarrow> InputManager \<Rightarrow> EventQueue \<Rightarrow> InputManager \<times> EventQueue" where
  "feed_ps2_kbd byte m q = (case kbd_feed byte (im_ps2_kbd m) q of (d, q1) \<Rightarrow> (m\<lparr>im_ps2_kbd := d\<rparr>, q1))"

definition clamp :: "u32 \<Rightarrow> u16 \<Rightarrow> u32 \<Rightarrow> u32" where
  "clamp pos d extent = of_int (min (max (sint (pos + scast d)) 0) (sint (extent - 1)))"

definition update_cursor_surface :: "InputManager \<Rightarrow> Compositor option \<Rightarrow> Compositor option" where
  "update_cursor_surface m ds =
     (case cursor_handle m of None \<Rightarrow> ds
      | Some h \<Rightarrow> map_option (surface_mut h (\<lambda>s. s\<lparr>s_x := cursor_x m, s_y := cursor_y m\<rparr>)) ds)"

definition move_cursor :: "u16 \<Rightarrow> u16 \<Rightarrow> InputManager \<Rightarrow> Compositor option \<Rightarrow> InputManager \<times> Compositor option" where
  "move_cursor dx dy m ds =
     (let m1 = m\<lparr>cursor_x := clamp (cursor_x m) dx (screen_w m)\<rparr>;
          m2 = m1\<lparr>cursor_y := clamp (cursor_y m1) dy (screen_h m1)\<rparr>
      in (m2, update_cursor_surface m2 ds))"

definition hits :: "u32 \<Rightarrow> u32 \<Rightarrow> Surface \<Rightarrow> bool" where
  "hits px py s \<longleftrightarrow> px \<ge> s_x s \<and> px < s_x s + s_width s \<and> py \<ge> s_y s \<and> py < s_y s + s_height s"

definition hit_test :: "u32 \<Rightarrow> u32 \<Rightarrow> Compositor option \<Rightarrow> usize option" where
  "hit_test px py ds =
     (case ds of None \<Rightarrow> None
      | Some c \<Rightarrow> fst (fold (\<lambda>h (best_handle, best_z).
          case surface_ref h c of
            None \<Rightarrow> (best_handle, best_z)
          | Some s \<Rightarrow>
              if \<not> visible s then (best_handle, best_z)
              else if hits px py s \<and> int (unat (z_order s)) > best_z then (Some h, int (unat (z_order s)))
              else (best_handle, best_z))
        [0..<MAX_SURFACES] (None, - 1)))"

text \<open>A call of a listener: the listener, the surface handle and the event.\<close>

type_synonym call = "nat \<times> usize \<times> InputEvent"

definition notify_listener :: "usize \<Rightarrow> InputEvent \<Rightarrow> InputManager \<Rightarrow> call list" where
  "notify_listener h e m =
     concat (map (\<lambda>(h1, l). if h1 = h then (case l of Some cb \<Rightarrow> [(cb, h, e)] | None \<Rightarrow> []) else []) (listeners m))"

definition dispatch_global :: "InputEvent \<Rightarrow> InputManager \<Rightarrow> call list" where
  "dispatch_global e m = concat (map (\<lambda>(h, l). case l of Some cb \<Rightarrow> [(cb, h, e)] | None \<Rightarrow> []) (listeners m))"

definition dispatch_hit :: "u32 \<Rightarrow> u32 \<Rightarrow> InputEvent \<Rightarrow> InputManager \<Rightarrow> Compositor option \<Rightarrow> call list" where
  "dispatch_hit x y e m ds = (case hit_test x y ds of Some h \<Rightarrow> notify_listener h e m | None \<Rightarrow> [])"

definition dispatch_click :: "InputEvent \<Rightarrow> InputManager \<Rightarrow> Compositor option \<Rightarrow> call list" where
  "dispatch_click e m ds = (case e of MouseButton _ _ x y \<Rightarrow> dispatch_hit x y e m ds | _ \<Rightarrow> [])"

fun handle_event :: "InputEvent \<Rightarrow> InputManager \<Rightarrow> Compositor option \<Rightarrow> call list \<times> InputManager \<times> Compositor option" where
  "handle_event (MouseMove dx dy) m ds = ([], move_cursor dx dy m ds)"
| "handle_event (MouseButton buttons pressed _ _) m ds =
     (let m1 = m\<lparr>held_buttons := (if pressed then held_buttons m OR buttons else held_buttons m AND NOT buttons)\<rparr>
      in (dispatch_click (MouseButton buttons pressed (cursor_x m1) (cursor_y m1)) m1 ds, m1, ds))"
| "handle_event (MouseWheel delta _ _) m ds =
     (dispatch_hit (cursor_x m) (cursor_y m) (MouseWheel delta (cursor_x m) (cursor_y m)) m ds, m, ds)"
| "handle_event (KeyDown k) m ds = (dispatch_global (KeyDown k) m, m, ds)"
| "handle_event (KeyUp k) m ds = (dispatch_global (KeyUp k) m, m, ds)"
| "handle_event (Touch _ x y pressed) m ds = (dispatch_hit x y (MouseButton btn_LEFT pressed x y) m ds, m, ds)"

text \<open>
  The loop of \<open>poll\<close> takes at most \<open>n\<close> events. The queue never holds more than 63, so that
  \<open>poll\<close>, with \<open>n = 64\<close>, stops because the queue is empty: lemma \<open>input_poll_empties\<close>.
\<close>

fun poll_loop :: "nat \<Rightarrow> InputManager \<Rightarrow> EventQueue \<Rightarrow> Compositor option
    \<Rightarrow> call list \<times> InputManager \<times> EventQueue \<times> Compositor option" where
  "poll_loop 0 m q ds = ([], m, q, ds)"
| "poll_loop (Suc n) m q ds =
     (case ev_pop q of
        (None, q1) \<Rightarrow> ([], m, q1, ds)
      | (Some e, q1) \<Rightarrow>
          (case handle_event e m ds of (calls, m1, ds1) \<Rightarrow>
             (case poll_loop n m1 q1 ds1 of (calls1, r) \<Rightarrow> (calls @ calls1, r))))"

definition input_poll :: "InputManager \<Rightarrow> EventQueue \<Rightarrow> Compositor option
    \<Rightarrow> call list \<times> InputManager \<times> EventQueue \<times> Compositor option" where
  "input_poll m q ds = poll_loop QUEUE_CAPACITY m q ds"

definition cursor_pos :: "InputManager \<Rightarrow> u32 \<times> u32" where
  "cursor_pos m = (cursor_x m, cursor_y m)"

section \<open>Pushing several events\<close>

definition push_all :: "InputEvent list \<Rightarrow> EventQueue \<Rightarrow> EventQueue" where
  "push_all es q = fold (\<lambda>e q. snd (ev_push e q)) es q"

lemma push_all_simps [simp]:
  "push_all [] q = q" "push_all (e # es) q = push_all es (snd (ev_push e q))"
  "push_all (es @ fs) q = push_all fs (push_all es q)"
  by (simp_all add: push_all_def)

lemma push_all_count:
  assumes "queue_ok q" "ev_dropped q < usize_mod"
  shows "queue_ok (push_all es q) \<and> ev_dropped (push_all es q) < usize_mod \<and>
    (\<exists>c \<le> length es. ev_dropped (push_all es q) = (ev_dropped q + c) mod usize_mod \<and>
       (c = 0 \<longrightarrow> pending (push_all es q) = pending q @ es))"
  using assms
proof (induction es arbitrary: q)
  case (Cons e es)
  note push = ev_push_spec [OF Cons.prems(1), of e]
  have d: "ev_dropped (snd (ev_push e q)) < usize_mod" using push(4) Cons.prems(2) by (simp add: uadd_def)
  obtain c where c: "c \<le> length es" "ev_dropped (push_all es (snd (ev_push e q))) = (ev_dropped (snd (ev_push e q)) + c) mod usize_mod"
    "c = 0 \<longrightarrow> pending (push_all es (snd (ev_push e q))) = pending (snd (ev_push e q)) @ es"
    using Cons.IH [OF push(1) d] by blast
  show ?case
  proof (cases "length (pending q) < 63")
    case True
    with c push Cons.IH [OF push(1) d] show ?thesis
      by (intro conjI exI [of _ c]) (simp_all add: push_oldest_def)
  next
    case False
    with c push Cons.IH [OF push(1) d] show ?thesis
      by (intro conjI exI [of _ "Suc c"]) (simp_all add: uadd_def mod_simps)
  qed
qed simp

lemma push_all_kept:
  assumes "queue_ok q" "ev_dropped q < usize_mod" "length es < 10" "ev_dropped (push_all es q) = ev_dropped q"
  shows "pending (push_all es q) = pending q @ es"
proof -
  obtain c where c: "c \<le> length es" "ev_dropped (push_all es q) = (ev_dropped q + c) mod usize_mod"
    "c = 0 \<longrightarrow> pending (push_all es q) = pending q @ es"
    using push_all_count [OF assms(1,2), of es] by blast
  have "c = 0"
  proof (rule ccontr)
    assume "c \<noteq> 0"
    with c assms show False by (auto simp: mod_if split: if_splits)
  qed
  with c show ?thesis by simp
qed

definition button_events :: "u8 \<Rightarrow> u8 \<Rightarrow> u32 \<Rightarrow> u32 \<Rightarrow> InputEvent list" where
  "button_events buttons changed x y =
     map (\<lambda>b. MouseButton (push_bit b 1) (buttons AND push_bit b 1 \<noteq> 0) x y)
       (filter (\<lambda>b. changed AND push_bit b 1 \<noteq> 0) [0..<3])"

lemma push_buttons_all: "push_buttons buttons changed x y q = push_all (button_events buttons changed x y) q"
  by (simp add: push_buttons_def button_events_def upt_rec numeral_eq_Suc)

lemma length_button_events: "length (button_events b c x y) \<le> 3"
  using length_filter_le [of _ "[0..<3]"] by (auto simp: button_events_def intro: order.trans)

definition apply_event :: "InputEvent \<Rightarrow> u8 \<Rightarrow> u8" where
  "apply_event e held = (case e of MouseButton b p _ _ \<Rightarrow> if p then held OR b else held AND NOT b | _ \<Rightarrow> held)"

lemma low3_cases:
  assumes "(b :: u8) AND 7 = b"
  shows "b = 0 \<or> b = 1 \<or> b = 2 \<or> b = 3 \<or> b = 4 \<or> b = 5 \<or> b = 6 \<or> b = 7"
proof -
  have "b \<le> 7" using assms word_and_le1 [of b 7] by simp
  then have "unat b \<le> 7" by (simp add: word_le_nat_alt)
  then have "unat b = 0 \<or> unat b = 1 \<or> unat b = 2 \<or> unat b = 3 \<or> unat b = 4 \<or> unat b = 5 \<or> unat b = 6 \<or> unat b = 7"
    by linarith
  then show ?thesis by (auto simp: word_unat_eq_iff)
qed

lemma button_events_apply:
  assumes "b AND 7 = b" "p AND 7 = p"
  shows "fold apply_event (button_events b (b XOR p) x y) p = b"
  using low3_cases [OF assms(1)] low3_cases [OF assms(2)]
  by (elim disjE; simp add: button_events_def apply_event_def upt_rec)

section \<open>The decoders as event producers\<close>

definition mouse_ok :: "Ps2Mouse \<Rightarrow> bool" where
  "mouse_ok m \<longleftrightarrow> length (pm_buf m) = 3 \<and> pm_pos m < 3 \<and> pm_prev_buttons m AND 7 = pm_prev_buttons m"

lemma and_7_idem: "(w AND 7) AND 7 = w AND (7 :: u8)"
  by (simp add: and.assoc)

text \<open>
  Every byte fed to the PS/2 decoder pushes at most four events, which take the buttons from the
  previous report to those of the new one.
\<close>

lemma ps2_feed_events:
  assumes "mouse_ok m"
  obtains es where "snd (ps2_feed byte cx cy m q) = push_all es q" "length es \<le> 4"
    "fold apply_event es (pm_prev_buttons m) = pm_prev_buttons (fst (ps2_feed byte cx cy m q))"
    "mouse_ok (fst (ps2_feed byte cx cy m q))"
proof (cases "pm_pos m = 0 \<and> byte AND 0x08 = 0 \<or> pm_pos m + 1 \<noteq> 3")
  case True
  with assms show thesis by (intro that [of "[]"]) (auto simp: ps2_feed_def mouse_ok_def Let_def)
next
  case False
  define m1 where "m1 = m\<lparr>pm_buf := (pm_buf m)[pm_pos m := byte], pm_pos := 0\<rparr>"
  have m1: "mouse_ok m1" "pm_prev_buttons m1 = pm_prev_buttons m" using assms by (simp_all add: mouse_ok_def m1_def)
  have feed: "ps2_feed byte cx cy m q = ps2_decode m1 q cx cy"
    using False by (simp add: ps2_feed_def m1_def Let_def)
  define b where "b = pm_buf m1 ! 0 AND 7"
  define dx where "dx = (ucast (pm_buf m1 ! 1) OR (if pm_buf m1 ! 0 AND 0x10 \<noteq> 0 then - 256 else 0) :: u16)"
  define dy where "dy = - (ucast (pm_buf m1 ! 2) OR (if pm_buf m1 ! 0 AND 0x20 \<noteq> 0 then - 256 else 0) :: u16)"
  define mv where "mv = (if dx \<noteq> 0 \<or> dy \<noteq> 0 then [MouseMove dx dy] else [])"
  define bs where "bs = button_events b (b XOR pm_prev_buttons m1) cx cy"
  show thesis
  proof (cases "pm_buf m1 ! 0 AND 0xC0 \<noteq> 0")
    case True
    with m1 show thesis by (intro that [of "[]"]) (simp_all add: feed ps2_decode_def Let_def)
  next
    case False
    then have dec: "ps2_decode m1 q cx cy = (m1\<lparr>pm_prev_buttons := b\<rparr>, push_all (mv @ bs) q)"
      unfolding ps2_decode_def Let_def push_buttons_all b_def [symmetric] dx_def [symmetric] dy_def [symmetric]
        bs_def [symmetric] by (simp add: mv_def)
    have "fold apply_event bs (pm_prev_buttons m1) = b"
      unfolding bs_def by (rule button_events_apply) (use m1 in \<open>simp_all add: mouse_ok_def b_def and_7_idem\<close>)
    moreover have "fold apply_event mv h = h" for h by (simp add: mv_def apply_event_def)
    moreover have "length (mv @ bs) \<le> 4"
      using length_button_events [of b "b XOR pm_prev_buttons m1" cx cy] by (simp add: mv_def bs_def)
    moreover have "mouse_ok (m1\<lparr>pm_prev_buttons := b\<rparr>)" using m1 by (simp add: mouse_ok_def b_def and_7_idem)
    ultimately show thesis by (intro that [of "mv @ bs"]) (simp_all add: feed dec m1)
  qed
qed

lemma kbd_feed_events:
  obtains es where "snd (kbd_feed byte k q) = push_all es q" "length es \<le> 1"
    "\<And>h. fold apply_event es h = h"
proof (cases "byte = 0xE0 \<or> byte = 0xF0")
  case True
  then show thesis by (intro that [of "[]"]) (auto simp: kbd_feed_def)
next
  case False
  define e where "e = (if kb_release k then KeyUp (if kb_extended k then 0x0100 OR ucast byte else ucast byte)
    else KeyDown (if kb_extended k then 0x0100 OR ucast byte else ucast byte))"
  have "apply_event e h = h" for h by (simp add: e_def apply_event_def)
  moreover have "snd (kbd_feed byte k q) = push_all [e] q"
    using False by (simp add: kbd_feed_def e_def Let_def)
  ultimately show thesis by (intro that [of "[e]"]) simp_all
qed

section \<open>Polling\<close>

definition screen_ok :: "InputManager \<Rightarrow> bool" where
  "screen_ok m \<longleftrightarrow> 0 < screen_w m \<and> unat (screen_w m) < 2 ^ 31 \<and> 0 < screen_h m \<and> unat (screen_h m) < 2 ^ 31 \<and>
     cursor_x m < screen_w m \<and> cursor_y m < screen_h m"

lemma clamp_less:
  assumes "0 < w" "unat w < 2 ^ 31"
  shows "clamp p d w < w"
proof -
  define r where "r = min (max (sint (p + scast d)) 0) (sint (w - 1))"
  have u: "unat (w - 1) = unat w - 1" using assms(1) by (simp add: unat_minus_one word_greater_zero_iff)
  have pos: "0 < unat w" using assms(1) by (simp add: word_less_nat_alt)
  have "uint (w - 1) < 2 ^ 31" using assms(2) u by (simp add: uint_nat)
  moreover have "- (2 ^ 31) \<le> uint (w - 1)" by (rule order.trans [of _ 0]) simp_all
  ultimately have "sint (w - 1) = uint (w - 1)"
    unfolding sint_uint by (intro signed_take_bit_int_eq_self) simp_all
  then have "sint (w - 1) = int (unat (w - 1))" by (simp only: uint_nat)
  then have sw: "sint (w - 1) = int (unat w - 1)" by (simp only: u)
  have "0 \<le> r" "r < int (unat w)" unfolding r_def sw using pos assms(1) by (simp_all add: word_less_def)
  then obtain k where k: "r = int k" "k < unat w" by (metis nonneg_int_cases of_nat_less_iff)
  then have "unat (of_int r :: u32) < unat w" using assms(2) by (simp add: of_nat32)
  then show ?thesis by (simp add: clamp_def r_def word_less_nat_alt)
qed

lemma handle_event_effect:
  assumes "screen_ok m"
  shows "screen_ok (fst (snd (handle_event e m ds)))"
    "held_buttons (fst (snd (handle_event e m ds))) = apply_event e (held_buttons m)"
    "im_ps2_mouse (fst (snd (handle_event e m ds))) = im_ps2_mouse m"
  using assms by (cases e; simp add: move_cursor_def screen_ok_def clamp_less apply_event_def Let_def)+

lemma poll_loop_effect:
  assumes "queue_ok q" "screen_ok m" "length (pending q) \<le> n"
    and "poll_loop n m q ds = (calls, m1, q1, ds1)"
  shows "queue_ok q1 \<and> screen_ok m1 \<and> ev_dropped q1 = ev_dropped q \<and> im_ps2_mouse m1 = im_ps2_mouse m \<and>
    held_buttons m1 = fold apply_event (pending q) (held_buttons m) \<and> (0 < n \<longrightarrow> pending q1 = [])"
  using assms
proof (induction n arbitrary: m q ds calls m1 q1 ds1)
  case 0
  then show ?case by simp
next
  case (Suc n)
  obtain r q2 where pop: "ev_pop q = (r, q2)" by (cases "ev_pop q")
  note spec = ev_pop_spec [OF Suc.prems(1), unfolded pop fst_conv snd_conv]
  show ?case
  proof (cases "pending q")
    case Nil
    with Suc.prems(1,2,4) pop spec show ?thesis by simp
  next
    case (Cons e es)
    obtain calls1 m2 ds2 where h: "handle_event e m ds = (calls1, m2, ds2)" by (metis prod_cases3)
    note he = handle_event_effect [OF Suc.prems(2), of e ds, unfolded h fst_conv snd_conv]
    obtain calls2 where rec: "poll_loop n m2 q2 ds2 = (calls2, m1, q1, ds1)"
      using Suc.prems(4) pop spec Cons h by (auto split: prod.splits)
    have "length (pending q2) \<le> n" using spec Cons Suc.prems(3) by simp
    from Suc.IH [OF spec(1) he(1) this rec] this show ?thesis
      using spec he Cons rec by (cases n) auto
  qed
qed

lemma pending_less: "length (pending q) < 64"
  by (simp add: pending_def QUEUE_CAPACITY_def)

lemma input_poll_empties:
  assumes "queue_ok q" "screen_ok m" "input_poll m q ds = (calls, m1, q1, ds1)"
  shows "queue_ok q1 \<and> screen_ok m1 \<and> ev_dropped q1 = ev_dropped q \<and> im_ps2_mouse m1 = im_ps2_mouse m \<and>
    held_buttons m1 = fold apply_event (pending q) (held_buttons m) \<and> pending q1 = []"
  using poll_loop_effect [OF assms(1,2) _ assms(3) [unfolded input_poll_def]] pending_less [of q]
  by (simp add: QUEUE_CAPACITY_def)

section \<open>Bytes in, buttons out\<close>

subsection \<open>The packets of a byte stream\<close>

text \<open>
  What a PS/2 mouse says, read off the bytes it has sent and independently of the decoder: a packet
  begins at a byte with the sync bit and takes the two bytes after it; bytes before it are noise.
\<close>

fun packets :: "u8 list \<Rightarrow> (u8 \<times> u8 \<times> u8) list" where
  "packets [] = []"
| "packets [b] = []"
| "packets [b, x] = (if b AND 8 = 0 then packets [x] else [])"
| "packets (b # x # y # bs) = (if b AND 8 = 0 then packets (x # y # bs) else (b, x, y) # packets bs)"

fun unfinished :: "u8 list \<Rightarrow> u8 list" where
  "unfinished [] = []"
| "unfinished [b] = (if b AND 8 = 0 then [] else [b])"
| "unfinished [b, x] = (if b AND 8 = 0 then unfinished [x] else [b, x])"
| "unfinished (b # x # y # bs) = (if b AND 8 = 0 then unfinished (x # y # bs) else unfinished bs)"

text \<open>
  The buttons of the last packet, bits 0 to 2 of its first byte. A packet with an overflow bit set
  (bits 6 and 7 of the first byte) is dropped as a whole, buttons included.
\<close>

definition reported_buttons :: "u8 list \<Rightarrow> u8" where
  "reported_buttons bytes =
     (case filter (\<lambda>(b, x, y). b AND 0xC0 = 0) (packets bytes) of
        [] \<Rightarrow> 0
      | p # ps \<Rightarrow> fst (last (p # ps)) AND 7)"

lemma packets_snoc:
  "packets (bs @ [b]) = packets bs @ (case unfinished bs of [x, y] \<Rightarrow> [(x, y, b)] | _ \<Rightarrow> []) \<and>
   unfinished (bs @ [b]) = (case unfinished bs of
       [] \<Rightarrow> if b AND 8 = 0 then [] else [b]
     | [x] \<Rightarrow> [x, b]
     | _ \<Rightarrow> []) \<and> length (unfinished bs) \<le> 2"
proof (induction bs rule: packets.induct)
  case (4 b x y bs)
  then show ?case by (cases "b AND 8 = 0") (cases bs; simp)+
qed (simp_all split: list.splits)

lemma reported_buttons_snoc:
  "reported_buttons (bs @ [b]) =
     (case unfinished bs of [x, y] \<Rightarrow> if x AND 0xC0 = 0 then x AND 7 else reported_buttons bs
      | _ \<Rightarrow> reported_buttons bs)"
proof -
  have "last (filter P (ps @ [p])) = (if P p then p else last (filter P ps))"
    for P and p :: "u8 \<times> u8 \<times> u8" and ps by simp
  then show ?thesis
    by (auto simp: reported_buttons_def packets_snoc split: list.splits)
qed

text \<open>The decoder has read the bytes sent so far: its buffer begins with those of an unfinished packet.\<close>

definition decoder_at :: "u8 list \<Rightarrow> Ps2Mouse \<Rightarrow> bool" where
  "decoder_at bytes m \<longleftrightarrow> pm_pos m = length (unfinished bytes) \<and>
     take (pm_pos m) (pm_buf m) = unfinished bytes \<and> pm_prev_buttons m = reported_buttons bytes"

lemma decoder_at_feed:
  assumes at: "decoder_at bytes m" and ok: "mouse_ok m"
  shows "decoder_at (bytes @ [byte]) (fst (ps2_feed byte cx cy m q))"
proof -
  obtain b0 b1 b2 where buf: "pm_buf m = [b0, b1, b2]"
    using ok by (auto simp: mouse_ok_def numeral_3_eq_3 length_Suc_conv)
  have "length (unfinished bytes) \<le> 2" using packets_snoc by blast
  then consider "unfinished bytes = []" | x where "unfinished bytes = [x]"
    | x y where "unfinished bytes = [x, y]"
    by (cases "unfinished bytes" rule: unfinished.cases) auto
  then show ?thesis
  proof cases
    case 1
    with at buf show ?thesis
      by (auto simp: decoder_at_def packets_snoc reported_buttons_snoc ps2_feed_def Let_def)
  next
    case 2
    with at buf show ?thesis
      by (auto simp: decoder_at_def packets_snoc reported_buttons_snoc ps2_feed_def Let_def)
  next
    case (3 x y)
    with at have pos: "pm_pos m = Suc (Suc 0)" by (simp add: decoder_at_def)
    with 3 at buf have "b0 = x" "b1 = y" by (simp_all add: decoder_at_def)
    with pos have "pm_pos m = 2" "b0 = x" "b1 = y" by simp_all
    with 3 at buf show ?thesis
      by (auto simp: decoder_at_def packets_snoc reported_buttons_snoc ps2_feed_def ps2_decode_def Let_def)
  qed
qed

subsection \<open>Runs\<close>

text \<open>
  A run of the input system with a PS/2 mouse and keyboard: bytes arrive at the decoders, the render
  loop polls, listeners come and go. \<open>in_bytes\<close> keeps the bytes the mouse has sent, \<open>in_lost\<close>
  whether the queue has dropped an event.
\<close>

record input_sys =
  in_mgr :: InputManager
  in_queue :: EventQueue
  in_ds :: "Compositor option"
  in_lost :: bool
  in_bytes :: "u8 list"

definition input_boot :: "input_sys \<Rightarrow> bool" where
  "input_boot s \<longleftrightarrow> (\<exists>w h. 0 < w \<and> unat w < 2 ^ 31 \<and> 0 < h \<and> unat h < 2 ^ 31 \<and>
     in_mgr s = input_init w h manager_new) \<and> in_queue s = queue_new \<and> \<not> in_lost s \<and> in_bytes s = []"

definition fed :: "input_sys \<Rightarrow> InputManager \<times> EventQueue \<Rightarrow> input_sys" where
  "fed s r = s\<lparr>in_mgr := fst r, in_queue := snd r,
     in_lost := in_lost s \<or> dropped_count (snd r) \<noteq> dropped_count (in_queue s)\<rparr>"

definition mouse_sends :: "u8 \<Rightarrow> input_sys \<Rightarrow> input_sys" where
  "mouse_sends byte s =
     (fed s (feed_ps2_mouse byte (in_mgr s) (in_queue s)))\<lparr>in_bytes := in_bytes s @ [byte]\<rparr>"

inductive input_step :: "input_sys \<Rightarrow> input_sys \<Rightarrow> bool" where
  mouse_byte: "input_step s (mouse_sends byte s)"
| kbd_byte: "input_step s (fed s (feed_ps2_kbd byte (in_mgr s) (in_queue s)))"
| polled: "input_poll (in_mgr s) (in_queue s) (in_ds s) = (calls, m, q, ds) \<Longrightarrow>
    input_step s (s\<lparr>in_mgr := m, in_queue := q, in_ds := ds\<rparr>)"
| cursor: "input_step s (s\<lparr>in_mgr := set_cursor h (in_mgr s)\<rparr>)"
| listen: "input_step s (s\<lparr>in_mgr := register_listener h l (in_mgr s)\<rparr>)"
| unlisten: "input_step s (s\<lparr>in_mgr := unregister_listener h (in_mgr s)\<rparr>)"
| display: "input_step s (s\<lparr>in_ds := ds\<rparr>)"

definition queue_inv :: "input_sys \<Rightarrow> bool" where
  "queue_inv s \<longleftrightarrow> queue_ok (in_queue s) \<and> ev_dropped (in_queue s) < usize_mod \<and> screen_ok (in_mgr s) \<and>
     mouse_ok (im_ps2_mouse (in_mgr s)) \<and>
     (\<not> in_lost s \<longrightarrow> fold apply_event (pending (in_queue s)) (held_buttons (in_mgr s)) =
        pm_prev_buttons (im_ps2_mouse (in_mgr s)))"

definition input_inv :: "input_sys \<Rightarrow> bool" where
  "input_inv s \<longleftrightarrow> queue_inv s \<and> decoder_at (in_bytes s) (im_ps2_mouse (in_mgr s))"

lemma fed_inv:
  assumes inv: "queue_inv s" and q: "snd r = push_all es (in_queue s)" "length es < 10"
    and m: "held_buttons (fst r) = held_buttons (in_mgr s)" "screen_ok (fst r)" "mouse_ok (im_ps2_mouse (fst r))"
    and es: "fold apply_event es (pm_prev_buttons (im_ps2_mouse (in_mgr s))) = pm_prev_buttons (im_ps2_mouse (fst r))"
  shows "queue_inv (fed s r)"
proof -
  have ok: "queue_ok (in_queue s)" "ev_dropped (in_queue s) < usize_mod" using inv by (simp_all add: queue_inv_def)
  have "fold apply_event (pending (snd r)) (held_buttons (fst r)) = pm_prev_buttons (im_ps2_mouse (fst r))"
    if "\<not> in_lost s" "ev_dropped (snd r) = ev_dropped (in_queue s)"
    using push_all_kept [OF ok q(2)] that inv es by (simp add: q(1) m(1) queue_inv_def)
  then show ?thesis
    using push_all_count [OF ok, of es] m by (auto simp: queue_inv_def fed_def q(1) dropped_count_def)
qed

lemma fed_simps [simp]:
  "in_mgr (fed s r) = fst r" "in_bytes (fed s r) = in_bytes s"
  by (simp_all add: fed_def)

lemma queue_inv_bytes [simp]: "queue_inv (s\<lparr>in_bytes := bs\<rparr>) = queue_inv s"
  by (simp add: queue_inv_def)

lemma input_step_inv: "input_step s t \<Longrightarrow> input_inv s \<Longrightarrow> input_inv t"
proof (induction rule: input_step.induct)
  case (mouse_byte s byte)
  let ?d = "ps2_feed byte (cursor_x (in_mgr s)) (cursor_y (in_mgr s)) (im_ps2_mouse (in_mgr s)) (in_queue s)"
  have inv: "queue_inv s" and at: "decoder_at (in_bytes s) (im_ps2_mouse (in_mgr s))"
    and ok: "mouse_ok (im_ps2_mouse (in_mgr s))" using mouse_byte by (simp_all add: input_inv_def queue_inv_def)
  obtain es where es: "snd ?d = push_all es (in_queue s)" "length es \<le> 4"
    "fold apply_event es (pm_prev_buttons (im_ps2_mouse (in_mgr s))) = pm_prev_buttons (fst ?d)" "mouse_ok (fst ?d)"
    using ps2_feed_events [OF ok] by blast
  have r: "feed_ps2_mouse byte (in_mgr s) (in_queue s) = ((in_mgr s)\<lparr>im_ps2_mouse := fst ?d\<rparr>, snd ?d)"
    by (simp add: feed_ps2_mouse_def split: prod.split)
  have "queue_inv (fed s (feed_ps2_mouse byte (in_mgr s) (in_queue s)))" unfolding r
    by (rule fed_inv [OF inv, of _ es]) (use es inv in \<open>simp_all add: queue_inv_def screen_ok_def\<close>)
  then show ?case
    using decoder_at_feed [OF at ok] by (simp add: input_inv_def mouse_sends_def r)
next
  case (kbd_byte s byte)
  then have inv: "queue_inv s" by (simp add: input_inv_def)
  let ?d = "kbd_feed byte (im_ps2_kbd (in_mgr s)) (in_queue s)"
  obtain es where es: "snd ?d = push_all es (in_queue s)" "length es \<le> 1" "\<And>h. fold apply_event es h = h"
    using kbd_feed_events by blast
  have r: "feed_ps2_kbd byte (in_mgr s) (in_queue s) = ((in_mgr s)\<lparr>im_ps2_kbd := fst ?d\<rparr>, snd ?d)"
    by (simp add: feed_ps2_kbd_def split: prod.split)
  have "queue_inv (fed s (feed_ps2_kbd byte (in_mgr s) (in_queue s)))" unfolding r
    by (rule fed_inv [OF inv, of _ es]) (use es inv in \<open>simp_all add: queue_inv_def screen_ok_def\<close>)
  with kbd_byte show ?case by (simp add: input_inv_def r)
next
  case (polled s calls m q ds)
  then show ?case using input_poll_empties [OF _ _ polled(1)] by (simp add: input_inv_def queue_inv_def)
qed (simp_all add: input_inv_def queue_inv_def screen_ok_def set_cursor_def register_listener_def unregister_listener_def Let_def)

lemma input_boot_inv: "input_boot s \<Longrightarrow> input_inv s"
  by (auto simp: input_boot_def input_inv_def queue_inv_def decoder_at_def reported_buttons_def queue_new_ok screen_ok_def input_init_def manager_new_def
    mouse_ok_def ps2_mouse_new_def queue_new_def [THEN arg_cong [where f = ev_dropped]])

interpretation input: transition_system input_boot input_step input_inv
  by unfold_locales (auto intro: input_boot_inv input_step_inv)

text \<open>
  C20 (invariant). Whatever bytes a PS/2 mouse and a keyboard send, and however polls interleave with
  them: at most 63 events are pending, the cursor stays on the screen, a poll ends with an empty
  queue, and, as long as the queue has dropped no event, the buttons held after a poll are the
  button bits, 0 to 2, of the first byte of the last complete packet among the bytes the mouse has
  sent, no button before the first one. Packets with an overflow bit do not count: the decoder
  drops them whole, and with them a button pressed or released in such a packet until the next.
\<close>

theorem input_tracking:
  assumes "reachable input_boot input_step s"
    and "input_poll (in_mgr s) (in_queue s) (in_ds s) = (calls, m, q, ds)"
  shows "length (pending (in_queue s)) \<le> 63 \<and> cursor_x m < screen_w m \<and> cursor_y m < screen_h m \<and>
    ev_is_empty q \<and> (\<not> in_lost s \<longrightarrow> held_buttons m = reported_buttons (in_bytes s))"
proof -
  have inv: "input_inv s" by (rule input.reachable_inv [OF assms(1)])
  then have p: "queue_ok q \<and> screen_ok m \<and> im_ps2_mouse m = im_ps2_mouse (in_mgr s) \<and>
      held_buttons m = fold apply_event (pending (in_queue s)) (held_buttons (in_mgr s)) \<and> pending q = []"
    using input_poll_empties [OF _ _ assms(2)] by (simp add: input_inv_def queue_inv_def)
  then have "ev_is_empty q"
    using tail_pos [of q] by (metis ev_is_empty_def length_ring list.size(3))
  with p inv pending_less [of "in_queue s"] show ?thesis
    by (simp add: input_inv_def queue_inv_def decoder_at_def screen_ok_def)
qed

text \<open>A left click: sync bit and left button, then a move by 5 to the right and none down.\<close>

definition input_start :: input_sys where
  "input_start = \<lparr>in_mgr = input_init 1080 1920 manager_new, in_queue = queue_new, in_ds = None,
     in_lost = False, in_bytes = []\<rparr>"

definition input_clicked :: input_sys where
  "input_clicked = mouse_sends 0 (mouse_sends 5 (mouse_sends 0x09 input_start))"

lemma input_clicked_eq: "\<not> in_lost input_clicked" "in_bytes input_clicked = [0x09, 5, 0]"
  by (simp_all add: input_clicked_def mouse_sends_def input_start_def fed_def feed_ps2_mouse_def ps2_feed_def
      ps2_decode_def push_buttons_all button_events_def upt_rec Let_def input_init_def manager_new_def
      ps2_mouse_new_def ev_push_def queue_new_def QUEUE_CAPACITY_def dropped_count_def)

lemma reach_byte:
  "reachable input_boot input_step s \<Longrightarrow> reachable input_boot input_step (mouse_sends b s)"
  by (erule reach_step) (rule mouse_byte)

theorem input_tracking_witness:
  "case input_poll (in_mgr input_clicked) (in_queue input_clicked) (in_ds input_clicked) of
     (calls, m, q, ds) \<Rightarrow> held_buttons m = 1 \<and> ev_is_empty q \<and> cursor_x m < screen_w m"
proof -
  have "input_boot input_start"
    unfolding input_boot_def input_start_def
    by (intro conjI exI [of _ "1080 :: u32"] exI [of _ "1920 :: u32"]) simp_all
  then have r: "reachable input_boot input_step input_clicked"
    unfolding input_clicked_def by (intro reach_byte reach_init)
  obtain calls m q ds where p:
    "input_poll (in_mgr input_clicked) (in_queue input_clicked) (in_ds input_clicked) = (calls, m, q, ds)"
    by (metis prod_cases4)
  have "reported_buttons (in_bytes input_clicked) = 1"
    by (simp add: input_clicked_eq reported_buttons_def)
  with input_tracking [OF r p] show ?thesis unfolding p by (simp add: input_clicked_eq)
qed

section \<open>Clicks and the compositor\<close>

text \<open>The surfaces that a click at a point can mean, in the order in which the compositor paints them.\<close>

definition painted_at :: "u32 \<Rightarrow> u32 \<Rightarrow> Compositor \<Rightarrow> usize list" where
  "painted_at px py c = filter (\<lambda>h. in_surface (the (c_surfaces c ! h)) (unat px) (unat py)) (sort_key (z_of c) (visible_handles c))"

lemma painted_at_iff:
  assumes "length (c_surfaces c) = 32"
  shows "h \<in> set (painted_at px py c) \<longleftrightarrow>
    h < 32 \<and> (\<exists>s. surface_ref h c = Some s \<and> visible s \<and> in_surface s (unat px) (unat py))"
  using assms by (auto simp: painted_at_def visible_handles_def surface_ref_def split: option.splits)

text \<open>No surface reaches past the end of a coordinate's type, where its right or lower edge would wrap.\<close>

abbreviation surfaces_fit :: "Compositor \<Rightarrow> bool" where
  "surfaces_fit c \<equiv> \<forall>s. Some s \<in> set (c_surfaces c) \<and> visible s \<longrightarrow> surface_fits s"

lemma hits_in_surface: "surface_fits s \<Longrightarrow> hits px py s \<longleftrightarrow> in_surface s (unat px) (unat py)"
  by (auto simp: hits_def in_surface_def surface_fits_def add32 word_less_nat_alt word_le_nat_alt)

lemma surface_ref_mem: "surface_ref h c = Some s \<Longrightarrow> Some s \<in> set (c_surfaces c)"
  by (auto simp: surface_ref_def split: if_splits dest: nth_mem)

lemma painted_at_hits:
  assumes "length (c_surfaces c) = 32" "surfaces_fit c"
  shows "h \<in> set (painted_at px py c) \<longleftrightarrow> h < 32 \<and> (\<exists>s. surface_ref h c = Some s \<and> visible s \<and> hits px py s)"
proof -
  have "surface_fits s" if "surface_ref h c = Some s" "visible s" for s
    using that assms(2) surface_ref_mem by blast
  then show ?thesis unfolding painted_at_iff [OF assms(1)] by (metis hits_in_surface)
qed

lemma painted_last:
  assumes "painted_at px py c \<noteq> []" "g \<in> set (painted_at px py c)"
  shows "z_of c g \<le> z_of c (last (painted_at px py c))"
    "z_of c g = z_of c (last (painted_at px py c)) \<Longrightarrow> g \<le> last (painted_at px py c)"
proof -
  let ?P = "painted_at px py c" and ?z = "z_of c (last (painted_at px py c))"
  obtain L l where P: "?P = L @ [l]" using assms(1) by (metis append_butlast_last_id)
  have "sorted (map (z_of c) ?P)" by (simp add: painted_at_def sorted_filter)
  then show "z_of c g \<le> ?z" using assms(2) unfolding P by (auto simp: sorted_append)
  assume z: "z_of c g = ?z"
  have "filter (\<lambda>h. z_of c h = ?z) ?P =
      filter (\<lambda>h. in_surface (the (c_surfaces c ! h)) (unat px) (unat py)) (filter (\<lambda>h. z_of c h = ?z) (visible_handles c))"
    unfolding painted_at_def filter_filter [of "\<lambda>h. z_of c h = _"]
    by (subst sort_key_stable [symmetric]) (simp add: conj_commute)
  then have "sorted (filter (\<lambda>h. z_of c h = ?z) ?P)"
    by (simp add: visible_handles_def sorted_wrt_filter)
  moreover have "filter (\<lambda>h. z_of c h = ?z) ?P = filter (\<lambda>h. z_of c h = ?z) L @ [last ?P]"
    by (simp add: P)
  moreover have "g \<in> set (filter (\<lambda>h. z_of c h = ?z) ?P)" using assms(2) z by simp
  ultimately show "g \<le> last ?P" by (auto simp: sorted_append)
qed

text \<open>The search for the topmost surface, after the handles below \<open>k\<close>.\<close>

definition best_below :: "u32 \<Rightarrow> u32 \<Rightarrow> Compositor \<Rightarrow> nat \<Rightarrow> usize option \<times> int \<Rightarrow> bool" where
  "best_below px py c k r \<longleftrightarrow>
     (let T = {h. h < k \<and> h \<in> set (painted_at px py c)} in
      case r of
        (None, z) \<Rightarrow> z = - 1 \<and> T = {}
      | (Some h, z) \<Rightarrow> z = int (unat (z_of c h)) \<and> h \<in> T \<and>
          (\<forall>g \<in> T. z_of c g \<le> z_of c h \<and> (g < h \<longrightarrow> z_of c g < z_of c h)))"

lemma hit_test_best:
  assumes "length (c_surfaces c) = 32" "surfaces_fit c"
  shows "\<exists>z. best_below px py c 32 (hit_test px py (Some c), z)"
proof -
  define f where "f = (\<lambda>h (best_handle, best_z).
          case surface_ref h c of
            None \<Rightarrow> (best_handle, best_z)
          | Some s \<Rightarrow>
              if \<not> visible s then (best_handle, best_z)
              else if hits px py s \<and> int (unat (z_order s)) > best_z then (Some h, int (unat (z_order s)))
              else (best_handle, best_z))"
  have "best_below px py c k (fold f [0..<k] (None, - 1))" if "k \<le> 32" for k
    using that
  proof (induction k)
    case 0
    then show ?case by (simp add: best_below_def)
  next
    case (Suc k)
    obtain b z where r: "fold f [0..<k] (None, - 1) = (b, z)" by (cases "fold f [0..<k] (None, - 1)")
    have IH: "best_below px py c k (b, z)" using Suc r by simp
    have step: "fold f [0..<Suc k] (None, - 1) = f k (b, z)" using r by simp
    have less: "z_of c g < z_of c h \<longleftrightarrow> unat (z_of c g) < unat (z_of c h)" for g h
      by (simp add: word_less_nat_alt)
    show ?case
    proof (cases "k \<in> set (painted_at px py c)")
      case True
      then obtain s where s: "surface_ref k c = Some s" "visible s" "hits px py s"
        using painted_at_hits [OF assms] by auto
      then have z: "z_of c k = z_order s"
        by (auto simp: surface_ref_def z_of_def split: if_splits)
      have f: "f k (b, z) = (if int (unat (z_of c k)) > z then (Some k, int (unat (z_of c k))) else (b, z))"
        using s z by (simp add: f_def)
      have T: "{h. h < Suc k \<and> h \<in> set (painted_at px py c)} = insert k {h. h < k \<and> h \<in> set (painted_at px py c)}"
        using True by (auto simp: less_Suc_eq)
      show ?thesis
      proof (cases b)
        case None
        then have none: "z = - 1" "{h. h < k \<and> h \<in> set (painted_at px py c)} = {}"
          using IH by (simp_all add: best_below_def Let_def)
        have "- 1 < int (unat (z_of c k))" by (rule less_le_trans [of _ 0]) simp_all
        then show ?thesis unfolding step f best_below_def T none(2) by (simp add: none(1))
      next
        case (Some h)
        then have some: "z = int (unat (z_of c h))" "h < k \<and> h \<in> set (painted_at px py c)"
          "\<forall>g. g < k \<and> g \<in> set (painted_at px py c) \<longrightarrow> z_of c g \<le> z_of c h \<and> (g < h \<longrightarrow> z_of c g < z_of c h)"
          using IH by (simp_all add: best_below_def Let_def)
        show ?thesis
        proof (cases "z_of c h < z_of c k")
          case True
          have "f k (b, z) = (Some k, int (unat (z_of c k)))"
            using True by (subst f) (simp add: some(1) word_less_def)
          with True some(2,3) show ?thesis
            unfolding step best_below_def T by (auto simp: Let_def dest: le_less_trans)
        next
          case False
          have "f k (b, z) = (b, z)" using False by (subst f) (simp add: some(1) word_less_def)
          with False some show ?thesis
            unfolding step best_below_def T Some by (auto simp: Let_def)
        qed
      qed
    next
      case False
      then have f: "f k (b, z) = (b, z)"
        using painted_at_hits [OF assms, of k px py] Suc.prems by (auto simp: f_def split: option.splits)
      have T: "{h. h < Suc k \<and> h \<in> set (painted_at px py c)} = {h. h < k \<and> h \<in> set (painted_at px py c)}"
        using False by (auto simp: less_Suc_eq)
      show ?thesis using IH unfolding step f best_below_def T .
    qed
  qed
  from this [of 32] have "best_below px py c 32 (fold f [0..<32] (None, - 1))" by simp
  moreover have "hit_test px py (Some c) = fst (fold f [0..<32] (None, - 1))"
    by (simp add: hit_test_def f_def MAX_SURFACES_def)
  ultimately show ?thesis by (metis prod.collapse)
qed

text \<open>
  No visible surface reaching past the last coordinate, a click finds no surface exactly when the compositor paints none over the point.
  Otherwise it finds a surface of the highest \<open>z_order\<close> over the point, and among those the one of
  the lowest handle, while the compositor paints the one of the highest handle last: the surface
  that gets the click is the one the user sees exactly when no other surface there has its
  \<open>z_order\<close>.
\<close>

theorem hit_test_topmost:
  assumes "length (c_surfaces c) = 32"
    and "\<forall>s. Some s \<in> set (c_surfaces c) \<and> visible s \<longrightarrow> surface_fits s"
  shows "case hit_test px py (Some c) of
      None \<Rightarrow> painted_at px py c = []
    | Some h \<Rightarrow> h \<in> set (painted_at px py c) \<and>
        (\<forall>g \<in> set (painted_at px py c). z_of c g \<le> z_of c h \<and> (z_of c g = z_of c h \<longrightarrow> h \<le> g)) \<and>
        (h = last (painted_at px py c) \<longleftrightarrow>
          (\<forall>g \<in> set (painted_at px py c). z_of c g = z_of c h \<longrightarrow> g = h))"
proof -
  let ?P = "painted_at px py c"
  obtain z where best: "best_below px py c 32 (hit_test px py (Some c), z)" using hit_test_best [OF assms] by blast
  have T: "{h. h < 32 \<and> h \<in> set ?P} = set ?P" using painted_at_hits [OF assms] by auto
  show ?thesis
  proof (cases "hit_test px py (Some c)")
    case None
    with best show ?thesis unfolding best_below_def T by simp
  next
    case (Some h)
    have h: "h \<in> set ?P" "\<forall>g \<in> set ?P. z_of c g \<le> z_of c h \<and> (g < h \<longrightarrow> z_of c g < z_of c h)"
      using best unfolding best_below_def T Some Let_def by simp_all
    have low: "\<forall>g \<in> set ?P. z_of c g = z_of c h \<longrightarrow> h \<le> g" using h(2) by (metis less_irrefl not_le)
    have ne: "?P \<noteq> []" using h(1) by auto
    then have l: "last ?P \<in> set ?P" by simp
    have "z_of c (last ?P) = z_of c h"
      using painted_last(1) [OF ne h(1)] h(2) l by (metis antisym)
    then have "h = last ?P \<longleftrightarrow> (\<forall>g \<in> set ?P. z_of c g = z_of c h \<longrightarrow> g = h)"
      using painted_last(2) [OF ne] low l by (metis antisym)
    with Some h low show ?thesis by simp
  qed
qed

text \<open>Two overlapping surfaces of the default \<open>z_order\<close>: surface 1 is painted last, surface 0 gets the click.\<close>

definition overlap_example :: Compositor where
  "overlap_example = snd (add_surface (surface_new 0 0 10 10 2) (snd (add_surface (surface_new 0 0 10 10 1) (compositor_new 100 100))))"

theorem hit_test_topmost_witness:
  "hit_test 5 5 (Some overlap_example) = Some 0 \<and> last (painted_at 5 5 overlap_example) = 1"
proof -
  have "replicate MAX_SURFACES None = None # None # replicate 30 (None :: Surface option)"
    by (simp add: MAX_SURFACES_def numeral_eq_Suc)
  then have c: "c_surfaces overlap_example = Some (surface_new 0 0 10 10 1) # Some (surface_new 0 0 10 10 2) # replicate 30 None"
    by (simp add: overlap_example_def add_surface_def surface_new_def compositor_new_def MAX_SURFACES_def)
  then have len: "length (c_surfaces overlap_example) = 32" by simp
  have fits: "surfaces_fit overlap_example" by (auto simp: c surface_new_def surface_fits_def)
  have "[0..<32] = 0 # 1 # [2..<32::nat]" by (simp add: upt_conv_Cons)
  then have v: "visible_handles overlap_example = [0, 1]"
    by (simp add: visible_handles_def c surface_new_def filter_empty_conv)
  have "z_of overlap_example 0 = 0" "z_of overlap_example 1 = 0"
    by (simp_all add: z_of_def c surface_new_def)
  moreover from this have P: "painted_at 5 5 overlap_example = [0, 1]"
    unfolding painted_at_def v by (simp add: c surface_new_def in_surface_def)
  ultimately show ?thesis
    using hit_test_topmost [OF len fits, of 5 5] by (auto simp: split: option.splits)
qed

end
