(* ===== verification/Loop.thy ===== *)
theory Loop
  imports Interfaces
begin

text \<open>
  Loops whose end is not evident. A loop body maps the loop's state to the next state (\<open>Inl\<close>) or
  to the result of the loop (\<open>Inr\<close>: its condition fails, or it breaks or returns); \<open>loop\<close>
  iterates it, and \<open>None\<close> is a loop that never ends. The locale is the contract a body has to meet
  to end: an invariant it keeps and a measure it decreases.
\<close>

partial_function (option) loop :: "('s \<Rightarrow> 's + 'r) \<Rightarrow> 's \<Rightarrow> 'r option" where
  "loop body s = (case body s of Inl t \<Rightarrow> loop body t | Inr r \<Rightarrow> Some r)"

lemma loop_Inl: "body s = Inl t \<Longrightarrow> loop body s = loop body t"
  by (subst loop.simps) simp

lemma loop_Inr: "body s = Inr r \<Longrightarrow> loop body s = Some r"
  by (subst loop.simps) simp

text \<open>A loop that can always go on never ends.\<close>

lemma loop_diverges:
  fixes body :: "'a \<Rightarrow> 'a + 'b"
  assumes "ok s" "\<And>t. ok t \<Longrightarrow> \<exists>u. body t = Inl u \<and> ok u"
  shows "loop body s = None"
proof -
  have "b = body \<longrightarrow> \<not> ok t" if "loop b t = Some r" for b t r
  proof (rule loop.raw_induct [where P = "\<lambda>b t r. b = body \<longrightarrow> \<not> ok t", OF _ that])
    fix lp :: "('a \<Rightarrow> 'a + 'b) \<Rightarrow> 'a \<Rightarrow> 'b option" and c u x
    assume ih: "\<And>c v y. lp c v = Some y \<Longrightarrow> c = body \<longrightarrow> \<not> ok v"
      and run: "(case c u of Inl t \<Rightarrow> lp c t | Inr r \<Rightarrow> Some r) = Some x"
    show "c = body \<longrightarrow> \<not> ok u"
    proof (intro impI notI)
      assume b: "c = body" and i: "ok u"
      then obtain v where v: "body u = Inl v" "ok v" using assms(2) by blast
      then have "lp body v = Some x" using run b by simp
      with ih v(2) show False by blast
    qed
  qed
  with assms(1) show ?thesis by (cases "loop body s") auto
qed

locale terminating_loop =
  fixes body :: "'s \<Rightarrow> 's + 'r"
    and inv :: "'s \<Rightarrow> bool"
    and measure_of :: "'s \<Rightarrow> nat"
  assumes body_inv: "inv s \<Longrightarrow> body s = Inl t \<Longrightarrow> inv t"
    and body_decreases: "inv s \<Longrightarrow> body s = Inl t \<Longrightarrow> measure_of t < measure_of s"
begin

lemma terminates: "inv s \<Longrightarrow> \<exists>r. loop body s = Some r"
proof (induction "measure_of s" arbitrary: s rule: less_induct)
  case less
  show ?case
  proof (cases "body s")
    case (Inl t)
    with less show ?thesis using body_inv body_decreases by (auto simp: loop_Inl)
  next
    case (Inr r)
    then show ?thesis by (simp add: loop_Inr)
  qed
qed

text \<open>What holds of every result the body can give holds of the loop's result.\<close>

lemma result:
  assumes "inv s" "\<And>t r. inv t \<Longrightarrow> body t = Inr r \<Longrightarrow> P r" "loop body s = Some r"
  shows "P r"
  using assms(1,3)
proof (induction "measure_of s" arbitrary: s rule: less_induct)
  case less
  show ?case
  proof (cases "body s")
    case (Inl t)
    show ?thesis
      by (rule less.hyps [of t]) (use Inl less.prems body_inv body_decreases in \<open>auto simp: loop_Inl\<close>)
  next
    case (Inr r')
    with less.prems assms(2) show ?thesis by (auto simp: loop_Inr)
  qed
qed

end

end
