(* ===== verification/Fdt.thy ===== *)
theory Fdt
  imports Bytes Loop
begin

text \<open>
  The flattened device tree: the parser of \<open>kernel/src/devicetree/parser.rs\<close>, the property decoders
  of \<open>properties.rs\<close> and the device discovery of \<open>discovery.rs\<close>.

  Memory is a function from addresses to bytes. A \<open>usize\<close> address computation wraps as in the release
  build. A string slice is the list of its bytes; a byte slice returned by the parser is its
  address and length. The three walks over the structure block are \<open>loop\<close>s, so that not
  returning would be the value \<open>None\<close>.
\<close>

section \<open>The parser\<close>

definition MAX_DT_DEPTH :: usize where "MAX_DT_DEPTH = 32"
definition FDT_MAGIC :: u32 where "FDT_MAGIC = 0xd00dfeed"
definition FDT_BEGIN_NODE :: u32 where "FDT_BEGIN_NODE = 1"
definition FDT_END_NODE :: u32 where "FDT_END_NODE = 2"
definition FDT_PROP :: u32 where "FDT_PROP = 3"
definition FDT_NOP :: u32 where "FDT_NOP = 4"
definition FDT_END :: u32 where "FDT_END = 9"

lemmas fdt_token_defs = FDT_BEGIN_NODE_def FDT_END_NODE_def FDT_PROP_def FDT_NOP_def FDT_END_def

type_synonym memory = "usize \<Rightarrow> u8"

record FdtHeader =
  fh_magic :: u32
  fh_totalsize :: u32
  fh_off_dt_struct :: u32
  fh_off_dt_strings :: u32
  fh_off_mem_rsvmap :: u32
  fh_version :: u32
  fh_last_comp_version :: u32
  fh_boot_cpuid_phys :: u32
  fh_size_dt_strings :: u32
  fh_size_dt_struct :: u32

record FdtParser =
  fp_base :: usize
  fp_header :: FdtHeader

text \<open>\<open>u32::from_be(read_volatile(addr))\<close>\<close>

definition read_be :: "memory \<Rightarrow> usize \<Rightarrow> u32" where
  "read_be mem addr = of_nat (be_nat (map (\<lambda>i. mem (uadd addr i)) [0..<4]))"

definition parse_header :: "memory \<Rightarrow> usize \<Rightarrow> FdtHeader kresult" where
  "parse_header mem addr =
     (let magic = read_be mem addr
      in if magic \<noteq> FDT_MAGIC then Err InvalidAddress
         else let h = \<lparr>fh_magic = magic,
                fh_totalsize = read_be mem (uadd addr 4),
                fh_off_dt_struct = read_be mem (uadd addr 8),
                fh_off_dt_strings = read_be mem (uadd addr 12),
                fh_off_mem_rsvmap = read_be mem (uadd addr 16),
                fh_version = read_be mem (uadd addr 20),
                fh_last_comp_version = read_be mem (uadd addr 24),
                fh_boot_cpuid_phys = read_be mem (uadd addr 28),
                fh_size_dt_strings = read_be mem (uadd addr 32),
                fh_size_dt_struct = read_be mem (uadd addr 36)\<rparr>
         in if fh_version h < 16 \<or> fh_version h > 17 then Err InvalidAddress
            else if fh_off_dt_struct h \<ge> fh_totalsize h \<or> fh_off_dt_strings h \<ge> fh_totalsize h
                 then Err InvalidAddress
            else if (ucast (fh_off_dt_struct h) :: u64) + ucast (fh_size_dt_struct h) > ucast (fh_totalsize h)
                 then Err InvalidAddress
            else if (ucast (fh_off_dt_strings h) :: u64) + ucast (fh_size_dt_strings h) > ucast (fh_totalsize h)
                 then Err InvalidAddress
            else Ok h)"

definition parser_new :: "memory \<Rightarrow> usize \<Rightarrow> FdtParser kresult" where
  "parser_new mem addr =
     (if addr = 0 \<or> addr AND 3 \<noteq> 0 then Err InvalidAddress
      else case parse_header mem addr of
             Err e \<Rightarrow> Err e
           | Panic \<Rightarrow> Panic
           | Ok header \<Rightarrow>
               if fh_totalsize header > 0x1000000 then Err InvalidAddress
               else Ok \<lparr>fp_base = addr, fp_header = header\<rparr>)"

abbreviation fdt_end :: "FdtParser \<Rightarrow> usize" where
  "fdt_end p \<equiv> uadd (fp_base p) (unat (fh_totalsize (fp_header p)))"

definition struct_start :: "FdtParser \<Rightarrow> usize" where
  "struct_start p = uadd (fp_base p) (unat (fh_off_dt_struct (fp_header p)))"

definition struct_end :: "FdtParser \<Rightarrow> usize" where
  "struct_end p = uadd (struct_start p) (unat (fh_size_dt_struct (fp_header p)))"

definition strings_base :: "FdtParser \<Rightarrow> usize" where
  "strings_base p = uadd (fp_base p) (unat (fh_off_dt_strings (fp_header p)))"

definition read_u32 :: "FdtParser \<Rightarrow> memory \<Rightarrow> usize \<Rightarrow> u32 kresult" where
  "read_u32 p mem addr =
     (if addr < fp_base p \<or> uadd addr 4 > fdt_end p then Err InvalidAddress else Ok (read_be mem addr))"

text \<open>\<open>core::str::from_utf8\<close> accepts exactly the well-formed UTF-8 byte sequences.\<close>

definition utf8_cont :: "u8 \<Rightarrow> bool" where
  "utf8_cont b \<longleftrightarrow> 0x80 \<le> b \<and> b \<le> 0xBF"

fun utf8_valid :: "u8 list \<Rightarrow> bool" where
  "utf8_valid [] \<longleftrightarrow> True"
| "utf8_valid (b # bs) \<longleftrightarrow>
     (if b < 0x80 then utf8_valid bs
      else if 0xC2 \<le> b \<and> b \<le> 0xDF then
        (case bs of c # r \<Rightarrow> utf8_cont c \<and> utf8_valid r | _ \<Rightarrow> False)
      else if 0xE0 \<le> b \<and> b \<le> 0xEF then
        (case bs of c # d # r \<Rightarrow> utf8_cont c \<and> utf8_cont d \<and> (b = 0xE0 \<longrightarrow> 0xA0 \<le> c) \<and> (b = 0xED \<longrightarrow> c \<le> 0x9F) \<and> utf8_valid r
         | _ \<Rightarrow> False)
      else if 0xF0 \<le> b \<and> b \<le> 0xF4 then
        (case bs of c # d # e # r \<Rightarrow> utf8_cont c \<and> utf8_cont d \<and> utf8_cont e \<and> (b = 0xF0 \<longrightarrow> 0x90 \<le> c) \<and> (b = 0xF4 \<longrightarrow> c \<le> 0x8F) \<and> utf8_valid r
         | _ \<Rightarrow> False)
      else False)"

function string_len :: "FdtParser \<Rightarrow> memory \<Rightarrow> usize \<Rightarrow> usize \<Rightarrow> usize kresult" where
  "string_len p mem addr len =
     (if uadd addr len \<ge> fdt_end p then Err InvalidAddress
      else if mem (uadd addr len) = 0 then Ok len
      else if len + 1 > 256 then Err InvalidAddress
      else string_len p mem addr (len + 1))"
  by pat_completeness auto
termination
  by (relation "measure (\<lambda>(p, mem, addr, len). 257 - len)") auto

declare string_len.simps [simp del]

definition bytes_at :: "memory \<Rightarrow> usize \<Rightarrow> usize \<Rightarrow> u8 list" where
  "bytes_at mem addr len = map (\<lambda>i. mem (uadd addr i)) [0..<len]"

definition read_string :: "FdtParser \<Rightarrow> memory \<Rightarrow> usize \<Rightarrow> u8 list kresult" where
  "read_string p mem addr =
     (if addr < fp_base p then Err InvalidAddress
      else case string_len p mem addr 0 of
             Err e \<Rightarrow> Err e
           | Panic \<Rightarrow> Panic
           | Ok len \<Rightarrow> (let bytes = bytes_at mem addr len
                      in if utf8_valid bytes then Ok bytes else Err InvalidAddress))"

definition align4 :: "usize \<Rightarrow> usize" where
  "align4 n = uadd n 3 div 4 * 4"

abbreviation slash :: u8 where "slash \<equiv> 0x2F"

text \<open>The path on entering a node, and on leaving it: up to the last separator, or empty.\<close>

definition path_enter :: "u8 list \<Rightarrow> usize \<Rightarrow> u8 list \<Rightarrow> u8 list" where
  "path_enter path depth name = (if path \<noteq> [] \<and> depth > 0 then path @ [slash] else path) @ name"

definition path_leave :: "u8 list \<Rightarrow> u8 list" where
  "path_leave path =
     (if slash \<in> set path then rev (tl (dropWhile (\<lambda>b. b \<noteq> slash) (rev path))) else [])"

section \<open>Walking the nodes\<close>

text \<open>
  The body of the loop of \<open>walk_nodes\<close>: its state is the offset, the depth, the path and the state of
  the callback.
\<close>

type_synonym 's walk_callback = "u8 list \<Rightarrow> usize \<Rightarrow> usize \<Rightarrow> 's \<Rightarrow> bool kresult \<times> 's"

definition walk_body ::
  "FdtParser \<Rightarrow> memory \<Rightarrow> 's walk_callback \<Rightarrow> usize \<times> usize \<times> u8 list \<times> 's \<Rightarrow>
   (usize \<times> usize \<times> u8 list \<times> 's) + (unit kresult \<times> 's)" where
  "walk_body p mem callback = (\<lambda>(offset0, depth, path, s).
     if \<not> uadd (struct_start p) offset0 < struct_end p
     then Inr (if depth \<noteq> 0 then Err InvalidAddress else Ok (), s)
     else case read_u32 p mem (uadd (struct_start p) offset0) of
       Err e \<Rightarrow> Inr (Err e, s)
     | Panic \<Rightarrow> Inr (Panic, s)
     | Ok token \<Rightarrow>
         let offset = uadd offset0 4 in
         if token = FDT_BEGIN_NODE then
           (case read_string p mem (uadd (struct_start p) offset) of
              Err e \<Rightarrow> Inr (Err e, s)
            | Panic \<Rightarrow> Inr (Panic, s)
            | Ok name \<Rightarrow>
                let offset1 = uadd offset (align4 (length name + 1)); path1 = path_enter path depth name in
                if depth + 1 > MAX_DT_DEPTH then Inr (Err InvalidAddress, s)
                else case callback path1 (uadd (struct_start p) offset1) (depth + 1) s of
                       (Err e, s1) \<Rightarrow> Inr (Err e, s1)
                     | (Panic, s1) \<Rightarrow> Inr (Panic, s1)
                     | (Ok go, s1) \<Rightarrow> if go then Inl (offset1, depth + 1, path1, s1) else Inr (Ok (), s1))
         else if token = FDT_END_NODE then
           (if depth = 0 then Inr (Err InvalidAddress, s) else Inl (offset, depth - 1, path_leave path, s))
         else if token = FDT_PROP then
           (case read_u32 p mem (uadd (struct_start p) offset) of
              Err e \<Rightarrow> Inr (Err e, s)
            | Panic \<Rightarrow> Inr (Panic, s)
            | Ok len \<Rightarrow>
                (case read_u32 p mem (uadd (uadd (struct_start p) offset) 4) of
                   Err e \<Rightarrow> Inr (Err e, s)
                 | Panic \<Rightarrow> Inr (Panic, s)
                 | Ok nameoff \<Rightarrow> Inl (uadd offset (uadd 8 (align4 (unat len))), depth, path, s)))
         else if token = FDT_NOP then Inl (offset, depth, path, s)
         else if token = FDT_END then Inr (if depth \<noteq> 0 then Err InvalidAddress else Ok (), s)
         else Inr (Err InvalidAddress, s))"

definition walk_nodes :: "FdtParser \<Rightarrow> memory \<Rightarrow> 's walk_callback \<Rightarrow> 's \<Rightarrow> (unit kresult \<times> 's) option" where
  "walk_nodes p mem callback s = loop (walk_body p mem callback) (0, 0, [], s)"

text \<open>
  \<open>read_property\<close>: the state is the offset, the path, the depth and whether the node is the one asked
  for. The result is the slice of the property's value.
\<close>

type_synonym byte_slice = "usize \<times> usize"

definition property_body ::
  "FdtParser \<Rightarrow> memory \<Rightarrow> u8 list \<Rightarrow> u8 list \<Rightarrow> usize \<times> u8 list \<times> usize \<times> bool \<Rightarrow>
   (usize \<times> u8 list \<times> usize \<times> bool) + byte_slice option" where
  "property_body p mem node_path prop_name = (\<lambda>(offset0, current_path, depth, in_target_node).
     if \<not> uadd (struct_start p) offset0 < struct_end p then Inr None
     else case read_u32 p mem (uadd (struct_start p) offset0) of
       Ok token \<Rightarrow>
         let offset = uadd offset0 4 in
         if token = FDT_BEGIN_NODE then
           (case read_string p mem (uadd (struct_start p) offset) of
              Ok name \<Rightarrow>
                let path1 = path_enter current_path depth name in
                Inl (uadd offset (align4 (length name + 1)), path1, depth + 1, path1 = node_path)
            | _ \<Rightarrow> Inr None)
         else if token = FDT_END_NODE then
           (if depth = 0 then Inr None else Inl (offset, path_leave current_path, depth - 1, False))
         else if token = FDT_PROP then
           (case (read_u32 p mem (uadd (struct_start p) offset),
                  read_u32 p mem (uadd (uadd (struct_start p) offset) 4)) of
              (Ok len, Ok nameoff) \<Rightarrow>
                let data_offset = uadd offset 8 in
                if in_target_node \<and> read_string p mem (uadd (strings_base p) (unat nameoff)) = Ok prop_name
                then Inr (Some (uadd (struct_start p) data_offset, unat len))
                else Inl (uadd data_offset (align4 (unat len)), current_path, depth, in_target_node)
            | _ \<Rightarrow> Inr None)
         else if token = FDT_NOP then Inl (offset, current_path, depth, in_target_node)
         else Inr None
     | _ \<Rightarrow> Inr None)"

definition read_property ::
  "FdtParser \<Rightarrow> memory \<Rightarrow> u8 list \<Rightarrow> u8 list \<Rightarrow> byte_slice option option" where
  "read_property p mem node_path prop_name =
     loop (property_body p mem node_path prop_name) (0, [], 0, False)"

definition slice_bytes :: "memory \<Rightarrow> byte_slice \<Rightarrow> u8 list" where
  "slice_bytes mem sl = bytes_at mem (fst sl) (snd sl)"

definition properties_body ::
  "FdtParser \<Rightarrow> memory \<Rightarrow> u8 list \<Rightarrow>
   usize \<times> u8 list \<times> usize \<times> bool \<times> (u8 list \<times> u8 list) list \<Rightarrow>
   (usize \<times> u8 list \<times> usize \<times> bool \<times> (u8 list \<times> u8 list) list) + (u8 list \<times> u8 list) list" where
  "properties_body p mem node_path = (\<lambda>(offset0, current_path, depth, in_target_node, properties).
     if \<not> uadd (struct_start p) offset0 < struct_end p then Inr properties
     else case read_u32 p mem (uadd (struct_start p) offset0) of
       Ok token \<Rightarrow>
         let offset = uadd offset0 4 in
         if token = FDT_BEGIN_NODE then
           (case read_string p mem (uadd (struct_start p) offset) of
              Ok name \<Rightarrow>
                let path1 = path_enter current_path depth name in
                Inl (uadd offset (align4 (length name + 1)), path1, depth + 1, path1 = node_path, properties)
            | _ \<Rightarrow> Inr properties)
         else if token = FDT_END_NODE then
           (if depth = 0 then Inr properties
            else Inl (offset, path_leave current_path, depth - 1, False, properties))
         else if token = FDT_PROP then
           (case (read_u32 p mem (uadd (struct_start p) offset),
                  read_u32 p mem (uadd (uadd (struct_start p) offset) 4)) of
              (Ok len, Ok nameoff) \<Rightarrow>
                let data_offset = uadd offset 8;
                    properties1 =
                      (if in_target_node
                       then case read_string p mem (uadd (strings_base p) (unat nameoff)) of
                              Ok name \<Rightarrow> properties @ [(name, bytes_at mem (uadd (struct_start p) data_offset) (unat len))]
                            | _ \<Rightarrow> properties
                       else properties)
                in Inl (uadd data_offset (align4 (unat len)), current_path, depth, in_target_node, properties1)
            | _ \<Rightarrow> Inr properties)
         else if token = FDT_NOP then Inl (offset, current_path, depth, in_target_node, properties)
         else Inr properties
     | _ \<Rightarrow> Inr properties)"

definition get_all_properties ::
  "FdtParser \<Rightarrow> memory \<Rightarrow> u8 list \<Rightarrow> (u8 list \<times> u8 list) list option" where
  "get_all_properties p mem node_path = loop (properties_body p mem node_path) (0, [], 0, False, [])"

section \<open>The walks end\<close>

text \<open>
  The blob starts more than 16 GiB below the top of the address space: four times what an offset, a
  property length and the sizes of the header, all of 32 bits, can reach.
\<close>

abbreviation below_top :: "FdtParser \<Rightarrow> bool" where
  "below_top p \<equiv> fp_base p + 17179869184 \<le> usize_mod"

lemma fdt_end_eq: "below_top p \<Longrightarrow> fdt_end p = fp_base p + unat (fh_totalsize (fp_header p))"
  using unat_u32_less [of "fh_totalsize (fp_header p)"] by simp

lemma struct_start_eq: "below_top p \<Longrightarrow> struct_start p = fp_base p + unat (fh_off_dt_struct (fp_header p))"
  using unat_u32_less [of "fh_off_dt_struct (fp_header p)"] by (simp add: struct_start_def)

lemma struct_start_bounds:
  "below_top p \<Longrightarrow> fp_base p \<le> struct_start p \<and> struct_start p < fp_base p + 4294967296"
  using unat_u32_less [of "fh_off_dt_struct (fp_header p)"] by (simp add: struct_start_eq)

lemma read_u32_Ok_bounds: "read_u32 p mem a = Ok t \<Longrightarrow> fp_base p \<le> a \<and> uadd a 4 \<le> fdt_end p"
  by (simp add: read_u32_def split: if_splits)

text \<open>An offset at which a token can be read is below 4 GiB.\<close>

lemma token_offset:
  assumes "below_top p" "offset \<le> 8589934700" "read_u32 p mem (uadd (struct_start p) offset) = Ok t"
  shows "offset + 4 \<le> 4294967296"
proof -
  have "uadd (struct_start p) offset = struct_start p + offset"
    using assms(1,2) struct_start_bounds [of p] by simp
  then have "uadd (struct_start p + offset) 4 \<le> fdt_end p"
    using read_u32_Ok_bounds [OF assms(3)] by simp
  then have "struct_start p + offset + 4 \<le> fp_base p + unat (fh_totalsize (fp_header p))"
    using assms(1,2) struct_start_bounds [of p] by (simp add: fdt_end_eq)
  then show ?thesis
    using struct_start_bounds [OF assms(1)] unat_u32_less [of "fh_totalsize (fp_header p)"] by simp
qed

lemma string_len_le: "string_len p mem addr len = Ok n \<Longrightarrow> len \<le> 256 \<Longrightarrow> len \<le> n \<and> n \<le> 256"
proof (induction p mem addr len rule: string_len.induct)
  case (1 p mem addr len)
  note rec = "1.prems"(1) [unfolded string_len.simps [of p mem addr len]]
  show ?case using rec "1.IH" "1.prems"(2) by (auto split: if_splits)
qed

lemma read_string_len: "read_string p mem addr = Ok name \<Longrightarrow> length name \<le> 256"
  using string_len_le [of p mem addr 0]
  by (auto simp: read_string_def bytes_at_def Let_def split: if_splits outcome.splits)

lemma align4_no_wrap: "n + 3 < usize_mod \<Longrightarrow> align4 n = (n + 3) div 4 * 4"
  by (simp add: align4_def)

lemma align4_bounds: "n \<le> 4294967296 \<Longrightarrow> n \<le> align4 n \<and> align4 n \<le> n + 3"
  by (simp add: align4_no_wrap)

text \<open>What one token adds to the offset.\<close>

definition advances :: "usize \<Rightarrow> usize \<Rightarrow> bool" where
  "advances offset offset1 \<longleftrightarrow> offset < offset1 \<and> offset1 \<le> offset + 4294967400"

lemma advances_token: "offset + 4 \<le> 4294967296 \<Longrightarrow> advances offset (uadd offset 4)"
  by (simp add: advances_def)

lemma advances_name:
  assumes "offset + 4 \<le> 4294967296" "length name \<le> 256"
  shows "advances offset (uadd (uadd offset 4) (align4 (Suc (length name))))"
  using assms align4_bounds [of "length name + 1"] by (simp add: advances_def)

lemma advances_prop:
  assumes "offset + 4 \<le> 4294967296"
  shows "advances offset (uadd (uadd offset 4) (uadd 8 (align4 (unat (len :: u32)))))"
    and "advances offset (uadd (uadd (uadd offset 4) 8) (align4 (unat len)))"
  using assms align4_bounds [of "unat len"] unat_u32_less [of len] by (simp_all add: advances_def)

definition offset_inv :: "FdtParser \<Rightarrow> usize \<Rightarrow> bool" where
  "offset_inv p offset \<longleftrightarrow> below_top p \<and> offset \<le> 8589934700"

lemma offset_inv_advances:
  assumes "offset_inv p offset" "read_u32 p mem (uadd (struct_start p) offset) = Ok t" "advances offset offset1"
  shows "offset_inv p offset1 \<and> 17179869184 - offset1 < 17179869184 - offset"
  using token_offset [OF _ _ assms(2)] assms(1,3) by (auto simp: offset_inv_def advances_def)

lemma walk_body_advances:
  assumes "walk_body p mem f (offset, depth, path, s) = Inl (offset1, depth1, path1, s1)" "offset_inv p offset"
  obtains t where "read_u32 p mem (uadd (struct_start p) offset) = Ok t" "advances offset offset1"
proof -
  obtain t where t: "read_u32 p mem (uadd (struct_start p) offset) = Ok t"
    using assms(1) by (auto simp: walk_body_def split: if_splits outcome.splits)
  have o: "offset + 4 \<le> 4294967296"
    using token_offset [OF _ _ t] assms(2) by (simp add: offset_inv_def)
  note adv = advances_token [OF o] advances_prop [OF o] advances_name [OF o read_string_len]
  have "advances offset offset1"
    using assms(1) t by (auto simp: walk_body_def Let_def adv simp del: uadd_no_wrap
        split: if_splits outcome.splits prod.splits)
  with t show ?thesis by (rule that)
qed

lemma property_body_advances:
  assumes "property_body p mem np pn (offset, path, depth, tgt) = Inl (offset1, path1, depth1, tgt1)" "offset_inv p offset"
  obtains t where "read_u32 p mem (uadd (struct_start p) offset) = Ok t" "advances offset offset1"
proof -
  obtain t where t: "read_u32 p mem (uadd (struct_start p) offset) = Ok t"
    using assms(1) by (auto simp: property_body_def split: if_splits outcome.splits)
  have o: "offset + 4 \<le> 4294967296"
    using token_offset [OF _ _ t] assms(2) by (simp add: offset_inv_def)
  note adv = advances_token [OF o] advances_prop [OF o] advances_name [OF o read_string_len]
  have "advances offset offset1"
    using assms(1) t by (auto simp: property_body_def Let_def adv simp del: uadd_no_wrap
        split: if_splits outcome.splits prod.splits)
  with t show ?thesis by (rule that)
qed

lemma properties_body_advances:
  assumes "properties_body p mem np (offset, path, depth, tgt, props) = Inl (offset1, path1, depth1, tgt1, props1)"
    and "offset_inv p offset"
  obtains t where "read_u32 p mem (uadd (struct_start p) offset) = Ok t" "advances offset offset1"
proof -
  obtain t where t: "read_u32 p mem (uadd (struct_start p) offset) = Ok t"
    using assms(1) by (auto simp: properties_body_def split: if_splits outcome.splits)
  have o: "offset + 4 \<le> 4294967296"
    using token_offset [OF _ _ t] assms(2) by (simp add: offset_inv_def)
  note adv = advances_token [OF o] advances_prop [OF o] advances_name [OF o read_string_len]
  have "advances offset offset1"
    using assms(1) t by (auto simp: properties_body_def Let_def adv simp del: uadd_no_wrap
        split: if_splits outcome.splits prod.splits)
  with t show ?thesis by (rule that)
qed

text \<open>The three bodies meet the contract of a loop that ends.\<close>

interpretation walk: terminating_loop
  "walk_body p mem f" "\<lambda>(offset, _). offset_inv p offset" "\<lambda>(offset, _). 17179869184 - offset" for p mem f
  by unfold_locales (auto elim!: walk_body_advances dest: offset_inv_advances)

interpretation property_walk: terminating_loop
  "property_body p mem np pn" "\<lambda>(offset, _). offset_inv p offset" "\<lambda>(offset, _). 17179869184 - offset" for p mem np pn
  by unfold_locales (auto elim!: property_body_advances dest: offset_inv_advances)

interpretation properties_walk: terminating_loop
  "properties_body p mem np" "\<lambda>(offset, _). offset_inv p offset" "\<lambda>(offset, _). 17179869184 - offset" for p mem np
  by unfold_locales (auto elim!: properties_body_advances dest: offset_inv_advances)

text \<open>
  C21 (termination). Whatever the memory holds, also a corrupt or hostile blob, the three walks over the structure
  block return: every token that can be read lies inside the blob and moves the offset forward.
\<close>

theorem fdt_walks_terminate:
  assumes "fp_base p + 17179869184 \<le> usize_mod"
  shows "(\<exists>r. walk_nodes p mem callback s = Some r) \<and> (\<exists>r. read_property p mem path name = Some r) \<and>
    (\<exists>r. get_all_properties p mem path = Some r)"
proof -
  have "offset_inv p 0" using assms by (simp add: offset_inv_def)
  then show ?thesis
    unfolding walk_nodes_def read_property_def get_all_properties_def
    by (intro conjI walk.terminates property_walk.terminates properties_walk.terminates) simp_all
qed

definition fdt_example_parser :: FdtParser where
  "fdt_example_parser = \<lparr>fp_base = 0x40000000, fp_header = \<lparr>fh_magic = FDT_MAGIC, fh_totalsize = 0x100,
     fh_off_dt_struct = 0x38, fh_off_dt_strings = 0xC0, fh_off_mem_rsvmap = 0x28, fh_version = 17,
     fh_last_comp_version = 16, fh_boot_cpuid_phys = 0, fh_size_dt_strings = 0x40, fh_size_dt_struct = 0x80\<rparr>\<rparr>"

theorem fdt_walks_terminate_witness:
  "walk_nodes fdt_example_parser (\<lambda>_. 0) (\<lambda>_ _ _ n. (Ok True, n + 1)) (0 :: nat) \<noteq> None \<and>
   read_property fdt_example_parser (\<lambda>_. 3) [] [] \<noteq> None \<and> get_all_properties fdt_example_parser (\<lambda>_. 255) [] \<noteq> None"
proof -
  have "below_top fdt_example_parser" by (simp add: fdt_example_parser_def)
  note T = fdt_walks_terminate [OF this]
  show ?thesis unfolding not_None_eq
    by (intro conjI T [THEN conjunct1] T [THEN conjunct2, THEN conjunct1] T [THEN conjunct2, THEN conjunct2])
qed

section \<open>The format the parser accepts\<close>

text \<open>
  A tree of named nodes with their properties (the offset of the name in the strings block, the value), and its
  structure block.
\<close>

datatype dt_node = DtNode (dn_name: "u8 list") (dn_props: "(u32 \<times> u8 list) list") (dn_kids: "dt_node list")

definition padded :: "u8 list \<Rightarrow> u8 list" where
  "padded bs = bs @ replicate ((4 - length bs mod 4) mod 4) 0"

definition flatten_prop :: "u32 \<times> u8 list \<Rightarrow> u8 list" where
  "flatten_prop pr = to_be 4 3 @ to_be 4 (length (snd pr)) @ to_be 4 (unat (fst pr)) @ padded (snd pr)"

abbreviation flatten_props :: "(u32 \<times> u8 list) list \<Rightarrow> u8 list" where
  "flatten_props props \<equiv> concat (map flatten_prop props)"

fun flatten_node :: "dt_node \<Rightarrow> u8 list" where
  "flatten_node (DtNode name props kids) =
     to_be 4 1 @ padded (name @ [0]) @ flatten_props props @ concat (map flatten_node kids) @ to_be 4 2"

definition flatten_tree :: "dt_node \<Rightarrow> u8 list" where
  "flatten_tree t = flatten_node t @ to_be 4 9"

text \<open>The nodes in pre-order: path, offset behind the name, depth and properties.\<close>

record dt_visit =
  v_path :: "u8 list"
  v_offset :: usize
  v_depth :: usize
  v_props :: "(u32 \<times> u8 list) list"

fun preorder :: "usize \<Rightarrow> usize \<Rightarrow> u8 list \<Rightarrow> dt_node \<Rightarrow> dt_visit list"
  and preorder_list :: "usize \<Rightarrow> usize \<Rightarrow> u8 list \<Rightarrow> dt_node list \<Rightarrow> dt_visit list" where
  "preorder off d parent (DtNode name props kids) =
     (let path = path_enter parent d name; off1 = off + 4 + length (padded (name @ [0]))
      in \<lparr>v_path = path, v_offset = off1, v_depth = d + 1, v_props = props\<rparr> #
         preorder_list (off1 + length (flatten_props props)) (d + 1) path kids)"
| "preorder_list off d parent [] = []"
| "preorder_list off d parent (t # ts) =
     preorder off d parent t @ preorder_list (off + length (flatten_node t)) d parent ts"

text \<open>A tree of at most \<open>n\<close> levels.\<close>

fun levels :: "nat \<Rightarrow> dt_node \<Rightarrow> bool" where
  "levels n (DtNode name props kids) \<longleftrightarrow> 0 < n \<and> (\<forall>k \<in> set kids. levels (n - 1) k)"

text \<open>
  Names are UTF-8 without separator and terminator, of at most 256 bytes; values are shorter
  than 4 GiB.
\<close>

definition good_name :: "u8 list \<Rightarrow> bool" where
  "good_name name \<longleftrightarrow> utf8_valid name \<and> 0 \<notin> set name \<and> slash \<notin> set name \<and> length name \<le> 256"

fun good_node :: "dt_node \<Rightarrow> bool" where
  "good_node (DtNode name props kids) \<longleftrightarrow>
     good_name name \<and> (\<forall>pr \<in> set props. length (snd pr) < 4294967296) \<and> (\<forall>k \<in> set kids. good_node k)"

definition holds_bytes :: "memory \<Rightarrow> usize \<Rightarrow> u8 list \<Rightarrow> bool" where
  "holds_bytes mem a bs \<longleftrightarrow> (\<forall>i < length bs. mem (a + i) = bs ! i)"

lemma holds_bytes_append:
  "holds_bytes mem a (xs @ ys) \<longleftrightarrow> holds_bytes mem a xs \<and> holds_bytes mem (a + length xs) ys"
proof
  assume h: "holds_bytes mem a (xs @ ys)"
  have "mem (a + i) = xs ! i" if "i < length xs" for i
    using h that by (auto simp: holds_bytes_def nth_append dest: spec [of _ i])
  moreover have "mem (a + length xs + i) = ys ! i" if "i < length ys" for i
    using h that unfolding holds_bytes_def by (auto simp: nth_append add.assoc dest: spec [of _ "length xs + i"])
  ultimately show "holds_bytes mem a xs \<and> holds_bytes mem (a + length xs) ys"
    by (simp add: holds_bytes_def)
next
  assume h: "holds_bytes mem a xs \<and> holds_bytes mem (a + length xs) ys"
  show "holds_bytes mem a (xs @ ys)"
    unfolding holds_bytes_def
  proof (intro allI impI)
    fix i assume i: "i < length (xs @ ys)"
    show "mem (a + i) = (xs @ ys) ! i"
    proof (cases "i < length xs")
      case True with h show ?thesis by (simp add: holds_bytes_def nth_append)
    next
      case False
      then obtain k where k: "i = length xs + k" using le_Suc_ex [of "length xs" i] by auto
      with h i show ?thesis by (simp add: holds_bytes_def nth_append add.assoc)
    qed
  qed
qed

text \<open>A piece of the structure block at an offset: inside the block, and the block inside the blob.\<close>

definition piece :: "FdtParser \<Rightarrow> memory \<Rightarrow> usize \<Rightarrow> u8 list \<Rightarrow> bool" where
  "piece p mem off bs \<longleftrightarrow> below_top p \<and> holds_bytes mem (struct_start p + off) bs \<and>
     off + length bs \<le> unat (fh_size_dt_struct (fp_header p)) \<and>
     unat (fh_off_dt_struct (fp_header p)) + unat (fh_size_dt_struct (fp_header p)) \<le> unat (fh_totalsize (fp_header p))"

lemma piece_append:
  "piece p mem off (xs @ ys) \<Longrightarrow> piece p mem off xs \<and> piece p mem (off + length xs) ys"
  by (auto simp: piece_def holds_bytes_append add.assoc)

lemma piece_in:
  assumes "piece p mem off bs"
  shows "struct_start p + off + length bs \<le> fdt_end p" "fdt_end p < usize_mod"
    "uadd (struct_start p) off = struct_start p + off" "off \<le> 4294967296"
    "bs \<noteq> [] \<Longrightarrow> uadd (struct_start p) off < struct_end p"
  using assms length_greater_0_conv [of bs] struct_start_bounds [of p] struct_start_eq [of p] fdt_end_eq [of p]
    unat_u32_less [of "fh_totalsize (fp_header p)"] unat_u32_less [of "fh_size_dt_struct (fp_header p)"]
  by (auto simp: piece_def struct_end_def simp del: length_greater_0_conv)

text \<open>Reading a number and a name of a piece.\<close>

lemma holds_bytes_at: "holds_bytes mem a bs \<Longrightarrow> a + length bs < usize_mod \<Longrightarrow> n = length bs \<Longrightarrow> map (\<lambda>i. mem (uadd a i)) [0..<n] = bs"
  by (rule nth_equalityI) (simp_all add: holds_bytes_def)

lemma read_u32_piece:
  assumes "piece p mem off (to_be 4 v @ rest)" "v < 4294967296"
  shows "read_u32 p mem (uadd (struct_start p) off) = Ok (of_nat v)"
    "uadd (struct_start p) off < struct_end p"
proof -
  note P = piece_append [OF assms(1), THEN conjunct1]
  have h: "holds_bytes mem (struct_start p + off) (to_be 4 v)" using P by (simp add: piece_def)
  have a: "struct_start p + off + 4 \<le> fdt_end p" "fdt_end p < usize_mod" "uadd (struct_start p) off = struct_start p + off"
    using piece_in [OF P] by simp_all
  have "map (\<lambda>i. mem (uadd (struct_start p + off) i)) [0..<4] = to_be 4 v"
    by (rule holds_bytes_at [OF h]) (use a in simp_all)
  then have "read_be mem (struct_start p + off) = of_nat v"
    using assms(2) by (simp add: read_be_def be_nat_to_be)
  moreover have "uadd (struct_start p + off) 4 = struct_start p + off + 4" using a(1,2) by simp
  moreover have "fp_base p \<le> struct_start p + off"
    using P struct_start_bounds [of p] by (simp add: piece_def)
  ultimately show "read_u32 p mem (uadd (struct_start p) off) = Ok (of_nat v)"
    using a by (simp add: read_u32_def)
  show "uadd (struct_start p) off < struct_end p"
    by (rule piece_in(5) [OF P]) (metis length_to_be length_0_conv zero_neq_numeral)
qed

lemma string_len_name:
  assumes h: "holds_bytes mem a (name @ [0])" "a + length name < fdt_end p" "fdt_end p < usize_mod"
    and n: "0 \<notin> set name" "length name \<le> 256" and len: "len \<le> length name"
  shows "string_len p mem a len = Ok (length name)"
  using len
proof (induction "length name - len" arbitrary: len)
  case 0
  then have "len = length name" by simp
  moreover have "mem (a + length name) = 0"
    using h(1) by (auto simp: holds_bytes_def nth_append dest: spec [of _ "length name"])
  ultimately show ?case using h(2,3) by (subst string_len.simps) simp
next
  case (Suc k)
  then have l: "len < length name" by simp
  have "mem (a + len) = name ! len"
    using h(1) l by (auto simp: holds_bytes_def nth_append dest: spec [of _ len])
  then have "mem (a + len) \<noteq> 0" using n(1) nth_mem [OF l] by metis
  moreover have "string_len p mem a (Suc len) = Ok (length name)"
    using Suc l by simp
  ultimately show ?case using h(2,3) l n(2) by (subst string_len.simps) simp
qed

lemma read_string_piece:
  assumes "piece p mem off (name @ [0])" "utf8_valid name" "0 \<notin> set name" "length name \<le> 256"
  shows "read_string p mem (uadd (struct_start p) off) = Ok name"
proof -
  have h: "holds_bytes mem (struct_start p + off) (name @ [0])" using assms(1) by (simp add: piece_def)
  have a: "struct_start p + off + length name < fdt_end p" "fdt_end p < usize_mod"
      "uadd (struct_start p) off = struct_start p + off"
    using piece_in [OF assms(1)] by simp_all
  have "string_len p mem (struct_start p + off) 0 = Ok (length name)"
    by (rule string_len_name [OF h a(1,2) assms(3,4)]) simp
  moreover have "bytes_at mem (struct_start p + off) (length name) = name"
    unfolding bytes_at_def
    by (rule holds_bytes_at) (use h a in \<open>simp_all add: holds_bytes_append\<close>)
  moreover have "fp_base p \<le> struct_start p + off"
    using assms(1) struct_start_bounds [of p] by (simp add: piece_def)
  ultimately show ?thesis using a(3) assms(2) by (simp add: read_string_def)
qed

lemma length_padded: "length (padded bs) = (length bs + 3) div 4 * 4"
proof -
  have "length bs = length bs div 4 * 4 + length bs mod 4" "length bs mod 4 < 4" by simp_all
  then obtain q r where qr: "length bs = q * 4 + r" "r < 4" by blast
  then have "r = 0 \<or> r = 1 \<or> r = 2 \<or> r = 3" by auto
  with qr(1) show ?thesis by (auto simp: padded_def)
qed

lemma align4_padded: "length bs \<le> 4294967296 \<Longrightarrow> align4 (length bs) = length (padded bs)"
  by (simp add: length_padded align4_no_wrap)

lemma path_leave_enter:
  assumes "slash \<notin> set name" "parent \<noteq> [] \<Longrightarrow> depth > 0"
  shows "path_leave (path_enter parent depth name) = parent"
proof (cases "parent = []")
  case True
  then show ?thesis using assms(1) by (simp add: path_enter_def path_leave_def)
next
  case False
  have "dropWhile (\<lambda>b. b \<noteq> slash) (rev name @ slash # rev parent) = slash # rev parent"
    using assms(1) by (subst dropWhile_append2) auto
  with False assms(2) show ?thesis by (simp add: path_enter_def path_leave_def)
qed

section \<open>The walks follow the tree\<close>

text \<open>The callback on the nodes in order, until it stops the walk or fails.\<close>

fun run_callback ::
  "usize \<Rightarrow> 's walk_callback \<Rightarrow> dt_visit list \<Rightarrow> 's \<Rightarrow> unit kresult option \<times> 's" where
  "run_callback start f [] s = (None, s)"
| "run_callback start f (v # vs) s =
     (case f (v_path v) (start + v_offset v) (v_depth v) s of
        (Ok go, s1) \<Rightarrow> if go then run_callback start f vs s1 else (Some (Ok ()), s1)
      | (Err e, s1) \<Rightarrow> (Some (Err e), s1)
      | (Panic, s1) \<Rightarrow> (Some Panic, s1))"

lemma run_callback_append:
  "run_callback start f (vs @ ws) s =
     (case run_callback start f vs s of (None, s1) \<Rightarrow> run_callback start f ws s1 | r \<Rightarrow> r)"
  by (induction vs arbitrary: s) (auto split: prod.splits outcome.splits option.splits)

text \<open>The value of the first property of a name, in the first node of a path that has one.\<close>

fun find_prop :: "FdtParser \<Rightarrow> memory \<Rightarrow> u8 list \<Rightarrow> usize \<Rightarrow> (u32 \<times> u8 list) list \<Rightarrow> byte_slice option" where
  "find_prop p mem prop_name off [] = None"
| "find_prop p mem prop_name off (pr # prs) =
     (if read_string p mem (uadd (strings_base p) (unat (fst pr))) = Ok prop_name
      then Some (struct_start p + off + 12, length (snd pr))
      else find_prop p mem prop_name (off + length (flatten_prop pr)) prs)"

fun find_visit :: "FdtParser \<Rightarrow> memory \<Rightarrow> u8 list \<Rightarrow> u8 list \<Rightarrow> dt_visit list \<Rightarrow> byte_slice option" where
  "find_visit p mem path prop_name [] = None"
| "find_visit p mem path prop_name (v # vs) =
     (case (if v_path v = path then find_prop p mem prop_name (v_offset v) (v_props v) else None) of
        None \<Rightarrow> find_visit p mem path prop_name vs
      | Some sl \<Rightarrow> Some sl)"

lemma find_visit_append:
  "find_visit p mem path pn (vs @ ws) =
     (case find_visit p mem path pn vs of None \<Rightarrow> find_visit p mem path pn ws | r \<Rightarrow> r)"
  by (induction vs) (auto split: option.splits)

text \<open>One token of each kind.\<close>

lemma piece_token:
  assumes "piece p mem off (to_be 4 v @ rest)" "v < 4294967296"
  shows "uadd (struct_start p) off < struct_end p" "read_u32 p mem (uadd (struct_start p) off) = Ok (of_nat v)"
    "uadd off 4 = off + 4" "piece p mem (off + 4) rest"
  using read_u32_piece [OF assms] piece_append [OF assms(1)] piece_in(4) [OF assms(1)] by simp_all

lemma uadd_assoc: "uadd (uadd a b) c = uadd a (uadd b c)"
  by (simp add: uadd_def mod_simps add.assoc)

lemma piece_prop:
  assumes "piece p mem off (flatten_prop pr @ rest)" "length (snd pr) < 4294967296"
  shows "uadd (struct_start p) off < struct_end p" "read_u32 p mem (uadd (struct_start p) off) = Ok FDT_PROP"
    "uadd off 4 = off + 4"
    "read_u32 p mem (uadd (struct_start p) (off + 4)) = Ok (of_nat (length (snd pr)))"
    "read_u32 p mem (uadd (uadd (struct_start p) (off + 4)) 4) = Ok (fst pr)"
    "uadd (off + 4) (uadd 8 (align4 (length (snd pr)))) = off + length (flatten_prop pr)"
    "uadd (off + 4) 8 = off + 12"
    "uadd (off + 12) (align4 (length (snd pr))) = off + length (flatten_prop pr)"
    "uadd (struct_start p) (off + 12) = struct_start p + off + 12"
    "piece p mem (off + length (flatten_prop pr)) rest"
proof -
  have a: "piece p mem off (to_be 4 3 @ to_be 4 (length (snd pr)) @ to_be 4 (unat (fst pr)) @ padded (snd pr) @ rest)"
    using assms(1) by (simp add: flatten_prop_def)
  note t1 = piece_token [OF a]
  then have b: "piece p mem (off + 4) (to_be 4 (length (snd pr)) @ to_be 4 (unat (fst pr)) @ padded (snd pr) @ rest)" by simp
  note t2 = piece_token [OF b assms(2)]
  note t3 = piece_token [OF t2(4) unat_u32_less]
  show "uadd (struct_start p) off < struct_end p" "uadd off 4 = off + 4"
      "read_u32 p mem (uadd (struct_start p) off) = Ok FDT_PROP"
      "read_u32 p mem (uadd (struct_start p) (off + 4)) = Ok (of_nat (length (snd pr)))"
    using t1 t2 by (simp_all add: FDT_PROP_def)
  have "uadd (uadd (struct_start p) (off + 4)) 4 = uadd (struct_start p) (off + 4 + 4)"
    using t2(3) by (simp only: uadd_assoc)
  then show "read_u32 p mem (uadd (uadd (struct_start p) (off + 4)) 4) = Ok (fst pr)"
    using t3(2) by simp
  have l: "align4 (length (snd pr)) = length (padded (snd pr))"
    by (rule align4_padded) (use assms(2) in simp)
  have o: "off + length (flatten_prop pr) \<le> 4294967296"
    using piece_in(4) piece_append [OF assms(1)] by blast
  have f: "length (flatten_prop pr) = 12 + length (padded (snd pr))" by (simp add: flatten_prop_def)
  show "uadd (off + 4) (uadd 8 (align4 (length (snd pr)))) = off + length (flatten_prop pr)"
      "uadd (off + 4) 8 = off + 12" "uadd (off + 12) (align4 (length (snd pr))) = off + length (flatten_prop pr)"
    using o unfolding l f by simp_all
  have "below_top p" using assms(1) by (simp add: piece_def)
  then show "uadd (struct_start p) (off + 12) = struct_start p + off + 12"
    using struct_start_bounds [of p] o unfolding f by simp
  show "piece p mem (off + length (flatten_prop pr)) rest" using piece_append [OF assms(1)] by simp
qed

lemma piece_name:
  assumes "piece p mem off (to_be 4 1 @ padded (name @ [0]) @ rest)" "good_name name"
  shows "uadd (struct_start p) off < struct_end p" "read_u32 p mem (uadd (struct_start p) off) = Ok FDT_BEGIN_NODE"
    "uadd off 4 = off + 4" "read_string p mem (uadd (struct_start p) (off + 4)) = Ok name"
    "uadd (off + 4) (align4 (length name + 1)) = off + 4 + length (padded (name @ [0]))"
    "uadd (struct_start p) (off + 4 + length (padded (name @ [0]))) = struct_start p + (off + 4 + length (padded (name @ [0])))"
    "piece p mem (off + 4 + length (padded (name @ [0]))) rest"
proof -
  note t = piece_token [OF assms(1)]
  show "uadd (struct_start p) off < struct_end p" "uadd off 4 = off + 4"
      "read_u32 p mem (uadd (struct_start p) off) = Ok FDT_BEGIN_NODE"
    using t by (simp_all add: FDT_BEGIN_NODE_def)
  have r: "piece p mem (off + 4) (padded (name @ [0]) @ rest)" using t(4) by simp
  have "piece p mem (off + 4) (name @ [0])"
    using piece_append [of p mem "off + 4" "name @ [0]"] piece_append [OF r] unfolding padded_def by blast
  then show "read_string p mem (uadd (struct_start p) (off + 4)) = Ok name"
    by (rule read_string_piece) (use assms(2) in \<open>simp_all add: good_name_def\<close>)
  have l: "align4 (length name + 1) = length (padded (name @ [0]))"
    using align4_padded [of "name @ [0]"] assms(2) by (simp add: good_name_def)
  show q: "piece p mem (off + 4 + length (padded (name @ [0]))) rest" using piece_append [OF r] by simp
  from piece_in(3,4) [OF this]
  show "uadd (off + 4) (align4 (length name + 1)) = off + 4 + length (padded (name @ [0]))"
      "uadd (struct_start p) (off + 4 + length (padded (name @ [0]))) = struct_start p + (off + 4 + length (padded (name @ [0])))"
    unfolding l by simp_all
qed

lemma walk_props:
  assumes "piece p mem off (flatten_props props @ rest)" "\<forall>pr \<in> set props. length (snd pr) < 4294967296"
  shows "loop (walk_body p mem f) (off, d, path, s) =
    loop (walk_body p mem f) (off + length (flatten_props props), d, path, s)"
  using assms
proof (induction props arbitrary: off)
  case (Cons pr prs)
  then have a: "piece p mem off (flatten_prop pr @ flatten_props prs @ rest)" "length (snd pr) < 4294967296" by simp_all
  note P = piece_prop [OF a]
  have "walk_body p mem f (off, d, path, s) = Inl (off + length (flatten_prop pr), d, path, s)"
    using P(1,2,4,5,6) a(2)
    by (simp add: walk_body_def P(3) fdt_token_defs of_nat32)
  then show ?case using Cons.IH [OF P(10)] Cons.prems(2) by (simp add: loop_Inl add.assoc)
qed simp

lemma property_props:
  assumes "piece p mem off (flatten_props props @ rest)" "\<forall>pr \<in> set props. length (snd pr) < 4294967296"
  shows "loop (property_body p mem np pn) (off, path, d, tgt) =
    (case (if tgt then find_prop p mem pn off props else None) of
       Some sl \<Rightarrow> Some (Some sl)
     | None \<Rightarrow> loop (property_body p mem np pn) (off + length (flatten_props props), path, d, tgt))"
  using assms
proof (induction props arbitrary: off)
  case (Cons pr prs)
  then have a: "piece p mem off (flatten_prop pr @ flatten_props prs @ rest)" "length (snd pr) < 4294967296" by simp_all
  note P = piece_prop [OF a]
  have "property_body p mem np pn (off, path, d, tgt) =
      (if tgt \<and> read_string p mem (uadd (strings_base p) (unat (fst pr))) = Ok pn
       then Inr (Some (struct_start p + off + 12, length (snd pr)))
       else Inl (off + length (flatten_prop pr), path, d, tgt))"
    using P(1,2,4,5,8,9) a(2)
    by (simp add: property_body_def P(3,7) fdt_token_defs of_nat32 Let_def)
  then show ?case using Cons.IH [OF P(10)] Cons.prems(2)
    by (cases tgt) (auto simp: loop_Inl loop_Inr add.assoc split: option.splits)
qed simp

lemma walk_tree:
  "piece p mem off (flatten_node t) \<Longrightarrow> good_node t \<Longrightarrow> levels n t \<Longrightarrow> d + n \<le> 32 \<Longrightarrow> (parent \<noteq> [] \<Longrightarrow> d > 0) \<Longrightarrow>
   loop (walk_body p mem f) (off, d, parent, s) =
     (case run_callback (struct_start p) f (preorder off d parent t) s of
        (None, s1) \<Rightarrow> loop (walk_body p mem f) (off + length (flatten_node t), d, parent, s1)
      | (Some r, s1) \<Rightarrow> Some (r, s1))"
  and walk_trees:
  "piece p mem off (concat (map flatten_node ts)) \<Longrightarrow> \<forall>t \<in> set ts. good_node t \<Longrightarrow> \<forall>t \<in> set ts. levels n t \<Longrightarrow> d + n \<le> 32 \<Longrightarrow>
   (parent \<noteq> [] \<Longrightarrow> d > 0) \<Longrightarrow>
   loop (walk_body p mem f) (off, d, parent, s) =
     (case run_callback (struct_start p) f (preorder_list off d parent ts) s of
        (None, s1) \<Rightarrow> loop (walk_body p mem f) (off + length (concat (map flatten_node ts)), d, parent, s1)
      | (Some r, s1) \<Rightarrow> Some (r, s1))"
proof (induction off d parent t and off d parent ts arbitrary: s n and s n rule: preorder_preorder_list.induct)
  case (1 off d parent name props kids)
  define body where "body = concat (map flatten_node kids)"
  define off1 where "off1 = off + 4 + length (padded (name @ [0]))"
  define off2 where "off2 = off1 + length (flatten_props props)"
  define path where "path = path_enter parent d name"
  have a: "piece p mem off (to_be 4 1 @ padded (name @ [0]) @ flatten_props props @ body @ to_be 4 2)"
    using 1(2) by (simp add: body_def)
  have g: "good_name name" "\<forall>pr \<in> set props. length (snd pr) < 4294967296" "\<forall>k \<in> set kids. good_node k" "d + 1 \<le> 32"
    using "1.prems"(2-4) by simp_all
  note N = piece_name [OF a g(1), folded off1_def]
  have b: "piece p mem off2 (body @ to_be 4 2)" using piece_append [OF N(7)] by (simp add: off2_def)
  have c: "piece p mem off2 body" "piece p mem (off2 + length body) (to_be 4 2 @ [])"
    using piece_append [OF b] by simp_all
  have enter: "walk_body p mem f (off, d, parent, s) =
      (case f path (struct_start p + off1) (d + 1) s of
         (Err e, s1) \<Rightarrow> Inr (Err e, s1)
       | (Panic, s1) \<Rightarrow> Inr (Panic, s1)
       | (Ok go, s1) \<Rightarrow> if go then Inl (off1, d + 1, path, s1) else Inr (Ok (), s1))"
    unfolding path_def using N(1,2,4) N(5,6) g(4) by (simp add: walk_body_def N(3) MAX_DT_DEPTH_def Let_def)
  have kids: "loop (walk_body p mem f) (off1, Suc d, path, s1) =
      (case run_callback (struct_start p) f (preorder_list off2 (Suc d) path kids) s1 of
         (None, s2) \<Rightarrow> loop (walk_body p mem f) (off2 + length body, Suc d, path, s2)
       | (Some r, s2) \<Rightarrow> Some (r, s2))" for s1
    unfolding walk_props [OF N(7) g(2)]
    using "1.IH" [OF path_def off1_def, folded off2_def body_def, of "n - 1" s1] c(1) g(3) "1.prems"(3,4)
    by (auto simp: off2_def split: prod.splits option.splits)
  have "walk_body p mem f (off2 + length body, Suc d, path, s2) = Inl (off2 + length body + 4, d, parent, s2)" for s2
    using piece_token [OF c(2)] path_leave_enter [of name parent d] g(1) "1.prems"(5)
    by (simp add: walk_body_def fdt_token_defs path_def good_name_def)
  then have leave: "loop (walk_body p mem f) (off2 + length body, Suc d, path, s2) =
      loop (walk_body p mem f) (off2 + length body + 4, d, parent, s2)" for s2
    by (rule loop_Inl)
  have len: "off + length (flatten_node (DtNode name props kids)) = off2 + length body + 4"
    by (simp add: off1_def off2_def body_def)
  show ?case
    unfolding len
    by (simp add: loop.simps [of _ "(off, d, parent, s)"] enter kids leave path_def [symmetric] off1_def [symmetric] off2_def [symmetric] Let_def
        split: prod.splits outcome.splits option.splits)
next
  case (2 off d parent)
  then show ?case by simp
next
  case (3 off d parent t ts)
  have p1: "piece p mem off (flatten_node t)" and p2: "piece p mem (off + length (flatten_node t)) (concat (map flatten_node ts))"
    using piece_append [of p mem off "flatten_node t" "concat (map flatten_node ts)"] "3.prems"(1) by simp_all
  show ?case
    using "3.IH"(1) [OF p1, of n s] "3.IH"(2) [OF p2, of n] "3.prems"(2-5)
    by (simp add: run_callback_append add.assoc split: prod.splits option.splits)
qed

lemma property_tree:
  "piece p mem off (flatten_node t) \<Longrightarrow> good_node t \<Longrightarrow> (parent \<noteq> [] \<Longrightarrow> d > 0) \<Longrightarrow>
   loop (property_body p mem np pn) (off, parent, d, tgt) =
     (case find_visit p mem np pn (preorder off d parent t) of
        None \<Rightarrow> loop (property_body p mem np pn) (off + length (flatten_node t), parent, d, False)
      | Some sl \<Rightarrow> Some (Some sl))"
  and property_trees:
  "piece p mem off (concat (map flatten_node ts) @ to_be 4 2) \<Longrightarrow> \<forall>t \<in> set ts. good_node t \<Longrightarrow> d > 0 \<Longrightarrow>
   loop (property_body p mem np pn) (off, parent, d, tgt) =
     (case find_visit p mem np pn (preorder_list off d parent ts) of
        None \<Rightarrow> loop (property_body p mem np pn)
          (off + length (concat (map flatten_node ts)) + 4, path_leave parent, d - 1, False)
      | Some sl \<Rightarrow> Some (Some sl))"
proof (induction off d parent t and off d parent ts arbitrary: tgt and tgt rule: preorder_preorder_list.induct)
  case (1 off d parent name props kids)
  define body where "body = concat (map flatten_node kids)"
  define off1 where "off1 = off + 4 + length (padded (name @ [0]))"
  define off2 where "off2 = off1 + length (flatten_props props)"
  define path where "path = path_enter parent d name"
  have a: "piece p mem off (to_be 4 1 @ padded (name @ [0]) @ flatten_props props @ body @ to_be 4 2)"
    using 1(2) by (simp add: body_def)
  have g: "good_name name" "\<forall>pr \<in> set props. length (snd pr) < 4294967296" "\<forall>k \<in> set kids. good_node k"
    using "1.prems"(2) by simp_all
  note N = piece_name [OF a g(1), folded off1_def]
  have b: "piece p mem off2 (body @ to_be 4 2)" using piece_append [OF N(7)] by (simp add: off2_def)
  have "property_body p mem np pn (off, parent, d, tgt) = Inl (off1, path, Suc d, path = np)"
    unfolding path_def using N(1,2,4) N(5,6) by (simp add: property_body_def N(3) Let_def)
  then have enter: "loop (property_body p mem np pn) (off, parent, d, tgt) = loop (property_body p mem np pn) (off1, path, Suc d, path = np)"
    by (rule loop_Inl)
  have rest: "loop (property_body p mem np pn) (off2, path, Suc d, path = np) =
      (case find_visit p mem np pn (preorder_list off2 (Suc d) path kids) of
         None \<Rightarrow> loop (property_body p mem np pn) (off2 + length body + 4, path_leave path, d, False)
       | Some sl \<Rightarrow> Some (Some sl))"
    using "1.IH" [OF path_def off1_def, folded off2_def body_def, of "path = np"] b g(3)
    by (auto simp: off2_def split: option.splits)
  have leave: "path_leave path = parent"
    using path_leave_enter [of name parent d] g(1) "1.prems"(3) by (simp add: path_def good_name_def)
  have len: "off + length (flatten_node (DtNode name props kids)) = off2 + length body + 4"
    by (simp add: off1_def off2_def body_def)
  have visits: "preorder off d parent (DtNode name props kids) =
      \<lparr>v_path = path, v_offset = off1, v_depth = Suc d, v_props = props\<rparr> # preorder_list off2 (Suc d) path kids"
    by (simp add: Let_def path_def off1_def off2_def)
  show ?case
    using rest
    unfolding enter property_props [OF N(7) g(2)] len leave visits off2_def [symmetric]
    by (cases "path = np") (auto split: option.splits)
next
  case (2 off d parent)
  then have "property_body p mem np pn (off, parent, d, tgt) = Inl (off + 4, path_leave parent, d - 1, False)"
    using piece_token [of p mem off 2 "[]"] by (simp add: property_body_def fdt_token_defs)
  then show ?case by (simp add: loop_Inl)
next
  case (3 off d parent t ts)
  have p: "piece p mem off (flatten_node t @ concat (map flatten_node ts) @ to_be 4 2)"
    using "3.prems"(1) by simp
  have p1: "piece p mem off (flatten_node t)" and p2: "piece p mem (off + length (flatten_node t)) (concat (map flatten_node ts) @ to_be 4 2)"
    using piece_append [OF p] by simp_all
  show ?case
    using "3.IH"(1) [OF p1, of tgt] "3.IH"(2) [OF p2, of False] "3.prems"(2,3)
    by (simp add: find_visit_append add.assoc split: option.splits)
qed

lemma tree_end:
  assumes "piece p mem 0 (flatten_tree t)"
  shows "piece p mem 0 (flatten_node t)" "uadd (struct_start p) (length (flatten_node t)) < struct_end p"
    "read_u32 p mem (uadd (struct_start p) (length (flatten_node t))) = Ok FDT_END"
proof -
  note a = piece_append [OF assms [unfolded flatten_tree_def]]
  then show "piece p mem 0 (flatten_node t)" by simp
  have "piece p mem (length (flatten_node t)) (to_be 4 9 @ [])" using a by simp
  from piece_token [OF this]
  show "uadd (struct_start p) (length (flatten_node t)) < struct_end p"
    "read_u32 p mem (uadd (struct_start p) (length (flatten_node t))) = Ok FDT_END"
    by (simp_all add: FDT_END_def)
qed

lemma walk_nodes_tree:
  assumes "piece p mem 0 (flatten_tree t)" "good_node t" "levels 32 t"
  shows "walk_nodes p mem callback s =
    (case run_callback (struct_start p) callback (preorder 0 0 [] t) s of
       (None, s1) \<Rightarrow> Some (Ok (), s1)
     | (Some r, s1) \<Rightarrow> Some (r, s1))"
proof -
  note E = tree_end [OF assms(1)]
  have "walk_body p mem callback (length (flatten_node t), 0, [], s1) = Inr (Ok (), s1)" for s1
    using E(2,3) by (simp add: walk_body_def fdt_token_defs)
  then have "loop (walk_body p mem callback) (length (flatten_node t), 0, [], s1) = Some (Ok (), s1)" for s1
    by (rule loop_Inr)
  then show ?thesis
    using walk_tree [OF E(1) assms(2,3), of 0 "[]" callback s]
    by (simp add: walk_nodes_def split: prod.splits option.splits)
qed

lemma read_property_tree:
  assumes "piece p mem 0 (flatten_tree t)" "good_node t"
  shows "read_property p mem path name = Some (find_visit p mem path name (preorder 0 0 [] t))"
proof -
  note E = tree_end [OF assms(1)]
  have "property_body p mem path name (length (flatten_node t), [], 0, False) = Inr None"
    using E(2,3) by (simp add: property_body_def fdt_token_defs)
  then have "loop (property_body p mem path name) (length (flatten_node t), [], 0, False) = Some None"
    by (rule loop_Inr)
  then show ?thesis
    using property_tree [OF E(1) assms(2), of "[]" 0 path name False]
    by (simp add: read_property_def split: option.splits)
qed

text \<open>A tree of a root and one child, at the start of the example's structure block.\<close>

definition dt_example :: dt_node where
  "dt_example = DtNode [] [(0, [7])] [DtNode [0x61] [] []]"

definition dt_example_mem :: memory where
  "dt_example_mem = (\<lambda>a. if 0x40000038 \<le> a \<and> a - 0x40000038 < 44 then flatten_tree dt_example ! (a - 0x40000038) else 0)"

lemma dt_example_piece: "piece fdt_example_parser dt_example_mem 0 (flatten_tree dt_example)"
proof -
  have "length (flatten_tree dt_example) = 44"
    by (simp add: dt_example_def flatten_tree_def padded_def flatten_prop_def)
  moreover have "struct_start fdt_example_parser = 0x40000038"
    by (simp add: struct_start_def fdt_example_parser_def)
  ultimately show ?thesis
    by (simp add: piece_def holds_bytes_def dt_example_mem_def) (simp add: fdt_example_parser_def)
qed

lemma dt_example_good: "good_node dt_example" "levels 32 dt_example"
  by (simp_all add: dt_example_def good_name_def)

text \<open>
  C22 (roundtrip). On the structure block of any tree of named nodes, of at most 32 levels, \<open>walk_nodes\<close> calls the
  callback exactly on the nodes, in pre-order, each with its path, the address behind its name and its depth,
  until the callback stops the walk or fails, and returns what the callback decided, or success.
  \<open>read_property\<close> returns the first property of that name in the first node of that path that has one, and
  nothing when there is none.
\<close>

theorem fdt_walk_preorder:
  assumes "piece p mem 0 (flatten_tree t)" "good_node t" "levels 32 t"
  shows "walk_nodes p mem callback s =
      (case run_callback (struct_start p) callback (preorder 0 0 [] t) s of
         (None, s1) \<Rightarrow> Some (Ok (), s1)
       | (Some r, s1) \<Rightarrow> Some (r, s1)) \<and>
    read_property p mem path name = Some (find_visit p mem path name (preorder 0 0 [] t))"
  using walk_nodes_tree [OF assms] read_property_tree [OF assms(1,2)] by simp

theorem fdt_walk_preorder_witness:
  "walk_nodes fdt_example_parser dt_example_mem (\<lambda>path _ depth s. (Ok True, s @ [(path, depth)])) [] =
     Some (Ok (), [([], 1), ([0x61], 2)]) \<and>
   read_property fdt_example_parser dt_example_mem [0x61] [0x62] = Some None"
  using fdt_walk_preorder [OF dt_example_piece dt_example_good,
      of "\<lambda>path _ depth s. (Ok True, s @ [(path, depth)])" "[]" "[0x61]" "[0x62]"]
  by (simp add: dt_example_def path_enter_def)

text \<open>
  The length of a property is not compared with the size of the blob: the returned slice can
  reach past its end.
\<close>

definition overrun_block :: "u8 list" where
  "overrun_block = to_be 4 1 @ padded ([] @ [0]) @ to_be 4 3 @ to_be 4 0xFFFF @ to_be 4 0 @ []"

definition overrun_mem :: memory where
  "overrun_mem = (\<lambda>a. if 0x40000038 \<le> a \<and> a - 0x40000038 < 20 then overrun_block ! (a - 0x40000038) else 0)"

lemma read_property_overruns:
  "read_property fdt_example_parser overrun_mem [] [] = Some (Some (0x4000004C, 0xFFFF)) \<and>
   0x4000004C + 0xFFFF > fdt_end fdt_example_parser"
proof -
  have ss: "struct_start fdt_example_parser = 0x40000038"
    by (simp add: struct_start_def fdt_example_parser_def)
  have "length overrun_block = 20" by (simp add: overrun_block_def padded_def)
  then have "piece fdt_example_parser overrun_mem 0 overrun_block"
    using ss by (simp add: piece_def holds_bytes_def overrun_mem_def) (simp add: fdt_example_parser_def)
  note N = piece_name [OF this [unfolded overrun_block_def]]
  have e: "property_body fdt_example_parser overrun_mem [] [] (0, [], 0, False) = Inl (8, [], 1, True)"
    using N by (simp add: property_body_def good_name_def padded_def path_enter_def)
  have p: "piece fdt_example_parser overrun_mem 8 (to_be 4 3 @ to_be 4 0xFFFF @ to_be 4 0 @ [])"
    using N(7) by (simp add: good_name_def padded_def)
  note T = piece_token [OF p]
  have p2: "piece fdt_example_parser overrun_mem 12 (to_be 4 0xFFFF @ to_be 4 0 @ [])" using T(4) by simp
  note T2 = piece_token [OF p2]
  have p3: "piece fdt_example_parser overrun_mem 16 (to_be 4 0 @ [])" using T2(4) by simp
  note T3 = piece_token [OF p3]
  have n: "read_string fdt_example_parser overrun_mem (uadd (strings_base fdt_example_parser) 0) = Ok []"
    by (simp add: read_string_def string_len.simps strings_base_def fdt_example_parser_def overrun_mem_def bytes_at_def)
  have "property_body fdt_example_parser overrun_mem [] [] (8, [], 1, True) = Inr (Some (0x4000004C, 0xFFFF))"
    using T T2 T3 n by (simp add: property_body_def fdt_token_defs ss)
  then have "read_property fdt_example_parser overrun_mem [] [] = Some (Some (0x4000004C, 0xFFFF))"
    using e by (simp add: read_property_def loop_Inl loop_Inr)
  then show ?thesis by (simp add: fdt_example_parser_def)
qed

end
