(* ===== verification/DeviceTree.thy ===== *)
theory DeviceTree
  imports Fdt
begin

text \<open>
  The device tree above the parser: the decoders of property values in
  \<open>kernel/src/devicetree/properties.rs\<close> and the search for devices in \<open>discovery.rs\<close>.
\<close>

section \<open>Property values\<close>

definition be32_at :: "u8 list \<Rightarrow> usize \<Rightarrow> u32" where
  "be32_at data off = of_nat (be_nat (slice data off 4))"

definition parse_cells :: "u8 list \<Rightarrow> usize \<Rightarrow> u64 kresult" where
  "parse_cells data cells =
     (if cells = 0 \<or> cells > 2 then Err InvalidAddress
      else if length data < cells * 4 then Err InvalidAddress
      else Ok (fold (\<lambda>i result. push_bit 32 result OR ucast (be32_at data (i * 4))) [0..<cells] 0))"

lemma parse_cells_Ok: "parse_cells data cells = Ok v \<Longrightarrow> 0 < cells \<and> cells * 4 \<le> length data"
  by (simp add: parse_cells_def split: if_splits)

function reg_loop ::
  "u8 list \<Rightarrow> usize \<Rightarrow> usize \<Rightarrow> usize \<Rightarrow> (u64 \<times> u64) list \<Rightarrow> (u64 \<times> u64) list kresult" where
  "reg_loop prop ac sc offset result =
     (if offset < length prop then
        (case parse_cells (drop offset prop) ac of
           Err e \<Rightarrow> Err e
         | Panic \<Rightarrow> Panic
         | Ok addr \<Rightarrow>
             let offset1 = offset + ac * 4 in
             (case parse_cells (drop offset1 prop) sc of
                Err e \<Rightarrow> Err e
              | Panic \<Rightarrow> Panic
              | Ok sz \<Rightarrow> reg_loop prop ac sc (offset1 + sc * 4) (result @ [(addr, sz)])))
      else Ok result)"
  by pat_completeness auto
termination
  by (relation "measure (\<lambda>(prop, ac, sc, offset, result). length prop - offset)")
    (auto dest!: parse_cells_Ok)

declare reg_loop.simps [simp del]

text \<open>\<open>umul\<close> is the wrapping product; a remainder by zero panics.\<close>

definition umul :: "usize \<Rightarrow> usize \<Rightarrow> usize" where
  "umul a b = a * b mod usize_mod"

definition parse_reg :: "u8 list \<Rightarrow> usize \<Rightarrow> usize \<Rightarrow> (u64 \<times> u64) list kresult" where
  "parse_reg prop address_cells size_cells =
     (let entry_size = umul (uadd address_cells size_cells) 4
      in if entry_size = 0 then Panic
         else if length prop mod entry_size \<noteq> 0 then Err InvalidAddress
         else reg_loop prop address_cells size_cells 0 [])"

function ranges_loop ::
  "u8 list \<Rightarrow> usize \<Rightarrow> usize \<Rightarrow> usize \<Rightarrow> usize \<Rightarrow> (u64 \<times> u64 \<times> u64) list \<Rightarrow> (u64 \<times> u64 \<times> u64) list kresult" where
  "ranges_loop prop cc ac sc offset result =
     (if offset < length prop then
        (case parse_cells (drop offset prop) cc of
           Err e \<Rightarrow> Err e
         | Panic \<Rightarrow> Panic
         | Ok child_addr \<Rightarrow>
             let offset1 = offset + cc * 4 in
             (case parse_cells (drop offset1 prop) ac of
                Err e \<Rightarrow> Err e
              | Panic \<Rightarrow> Panic
              | Ok parent_addr \<Rightarrow>
                  let offset2 = offset1 + ac * 4 in
                  (case parse_cells (drop offset2 prop) sc of
                     Err e \<Rightarrow> Err e
                   | Panic \<Rightarrow> Panic
                   | Ok sz \<Rightarrow>
                       ranges_loop prop cc ac sc (offset2 + sc * 4) (result @ [(child_addr, parent_addr, sz)]))))
      else Ok result)"
  by pat_completeness auto
termination
  by (relation "measure (\<lambda>(prop, cc, ac, sc, offset, result). length prop - offset)")
    (auto dest!: parse_cells_Ok)

declare ranges_loop.simps [simp del]

definition parse_ranges ::
  "u8 list \<Rightarrow> usize \<Rightarrow> usize \<Rightarrow> usize \<Rightarrow> (u64 \<times> u64 \<times> u64) list kresult" where
  "parse_ranges prop child_addr_cells addr_cells size_cells =
     (let entry_size = umul (uadd (uadd child_addr_cells addr_cells) size_cells) 4
      in if prop = [] then Ok []
         else if entry_size = 0 then Panic
         else if length prop mod entry_size \<noteq> 0 then Err InvalidAddress
         else ranges_loop prop child_addr_cells addr_cells size_cells 0 [])"

function cells_loop :: "u8 list \<Rightarrow> usize \<Rightarrow> u32 list \<Rightarrow> u32 list" where
  "cells_loop prop offset result =
     (if offset + 4 \<le> length prop then cells_loop prop (offset + 4) (result @ [be32_at prop offset]) else result)"
  by pat_completeness auto
termination
  by (relation "measure (\<lambda>(prop, offset, result). length prop - offset)") auto

declare cells_loop.simps [simp del]

definition parse_interrupts :: "u8 list \<Rightarrow> u32 list kresult" where
  "parse_interrupts prop = (if length prop mod 4 \<noteq> 0 then Err InvalidAddress else Ok (cells_loop prop 0 []))"

definition parse_u32_array :: "u8 list \<Rightarrow> u32 list kresult" where
  "parse_u32_array prop = (if length prop mod 4 \<noteq> 0 then Err InvalidAddress else Ok (cells_loop prop 0 []))"

definition parse_string :: "u8 list \<Rightarrow> u8 list kresult" where
  "parse_string prop =
     (if prop = [] then Err InvalidAddress
      else let len = find_from (\<lambda>i. prop ! i = 0) 0 (length prop)
           in if utf8_valid (take len prop) then Ok (take len prop) else Err InvalidAddress)"

definition parse_stringlist :: "u8 list \<Rightarrow> u8 list list kresult" where
  "parse_stringlist prop =
     (let result = snd (fold (\<lambda>i (start, result).
            if prop ! i = 0
            then (i + 1, if i > start \<and> utf8_valid (slice prop start (i - start))
                         then result @ [slice prop start (i - start)] else result)
            else (start, result)) [0..<length prop] (0, []))
      in if result = [] then Err InvalidAddress else Ok result)"

definition parse_u32 :: "u8 list \<Rightarrow> u32 kresult" where
  "parse_u32 prop = (if length prop < 4 then Err InvalidAddress else Ok (be32_at prop 0))"

definition parse_u64 :: "u8 list \<Rightarrow> u64 kresult" where
  "parse_u64 prop = (if length prop < 8 then Err InvalidAddress else Ok (of_nat (be_nat (slice prop 0 8))))"

definition parse_phandle :: "u8 list \<Rightarrow> u32 kresult" where
  "parse_phandle prop = parse_u32 prop"

definition parse_bool :: "u8 list \<Rightarrow> bool" where
  "parse_bool prop \<longleftrightarrow> prop \<noteq> []"

section \<open>Discovery\<close>

record UartInfo =
  ui_base_addr :: u64
  ui_size :: u64
  ui_clock_frequency :: u32
  ui_compatible :: "u8 list"

record TimerInfo =
  ti_base_addr :: u64
  ti_size :: u64
  ti_interrupts :: "u32 list"
  ti_clock_frequency :: u64

record GicInfo =
  dist_base :: u64
  dist_size :: u64
  cpu_base :: u64
  cpu_size :: u64

record PmicInfo =
  pi_base_addr :: u64
  pi_size :: u64
  pi_compatible :: "u8 list"

record ClockInfo =
  ci_name :: "u8 list"
  ci_frequency :: u64
  ci_phandle :: u32

text \<open>
  String literals as bytes, \<open>str::contains\<close>, and \<open>read_property\<close> in a callback: the parser's
  loop always returns there, so its outer option is dropped.
\<close>

definition ascii :: "string \<Rightarrow> u8 list" where
  "ascii str = map of_char str"

definition contains :: "u8 list \<Rightarrow> string \<Rightarrow> bool" where
  "contains hay needle \<longleftrightarrow> list_ex (\<lambda>i. slice hay i (length needle) = ascii needle) [0..<length hay + 1]"

definition prop_bytes :: "FdtParser \<Rightarrow> memory \<Rightarrow> u8 list \<Rightarrow> string \<Rightarrow> u8 list option" where
  "prop_bytes p mem path name =
     (case read_property p mem path (ascii name) of
        Some (Some sl) \<Rightarrow> Some (slice_bytes mem sl)
      | _ \<Rightarrow> None)"

definition str_or_empty :: "u8 list \<Rightarrow> u8 list" where
  "str_or_empty bs = (if utf8_valid bs then bs else [])"

definition u32_or :: "u32 \<Rightarrow> u8 list option \<Rightarrow> u32" where
  "u32_or dflt data =
     (case data of Some bs \<Rightarrow> (case parse_u32 bs of Ok v \<Rightarrow> v | _ \<Rightarrow> dflt) | None \<Rightarrow> dflt)"

text \<open>
  What the five searches share: a node whose \<open>compatible\<close> string contains one of the given words,
  and its \<open>reg\<close> property decoded with two cells each.
\<close>

definition compatible_with :: "FdtParser \<Rightarrow> memory \<Rightarrow> u8 list \<Rightarrow> string list \<Rightarrow> u8 list option" where
  "compatible_with p mem path names =
     (case prop_bytes p mem path ''compatible'' of
        Some compatible \<Rightarrow>
          if list_ex (contains (str_or_empty compatible)) names then Some compatible else None
      | None \<Rightarrow> None)"

definition regs_of :: "FdtParser \<Rightarrow> memory \<Rightarrow> u8 list \<Rightarrow> (u64 \<times> u64) list" where
  "regs_of p mem path =
     (case prop_bytes p mem path ''reg'' of
        Some reg \<Rightarrow> (case parse_reg reg 2 2 of Ok regs \<Rightarrow> regs | _ \<Rightarrow> [])
      | None \<Rightarrow> [])"

definition find_uart :: "FdtParser \<Rightarrow> memory \<Rightarrow> UartInfo option option" where
  "find_uart p mem = map_option snd (walk_nodes p mem (\<lambda>path offset depth result.
     case compatible_with p mem path [''uart'', ''serial'', ''pl011'', ''8250''] of
       None \<Rightarrow> (Ok True, result)
     | Some compatible \<Rightarrow>
         (case regs_of p mem path of
            [] \<Rightarrow> (Ok True, result)
          | (addr, sz) # _ \<Rightarrow>
              (Ok False, Some \<lparr>ui_base_addr = addr, ui_size = sz,
                 ui_clock_frequency = u32_or 24000000 (prop_bytes p mem path ''clock-frequency''),
                 ui_compatible = compatible\<rparr>))) None)"

definition find_timer :: "FdtParser \<Rightarrow> memory \<Rightarrow> TimerInfo option option" where
  "find_timer p mem = map_option snd (walk_nodes p mem (\<lambda>path offset depth result.
     case compatible_with p mem path [''timer'', ''arm,armv8-timer'', ''arm,armv7-timer''] of
       None \<Rightarrow> (Ok True, result)
     | Some compatible \<Rightarrow>
         (case regs_of p mem path of
            [] \<Rightarrow> (Ok True, result)
          | (addr, sz) # _ \<Rightarrow>
              (Ok False, Some \<lparr>ti_base_addr = addr, ti_size = sz,
                 ti_interrupts = (case prop_bytes p mem path ''interrupts'' of
                     Some data \<Rightarrow> (case parse_interrupts data of Ok v \<Rightarrow> v | _ \<Rightarrow> [])
                   | None \<Rightarrow> []),
                 ti_clock_frequency = ucast (u32_or 19200000 (prop_bytes p mem path ''clock-frequency''))\<rparr>))) None)"

definition find_gic :: "FdtParser \<Rightarrow> memory \<Rightarrow> GicInfo option option" where
  "find_gic p mem = map_option snd (walk_nodes p mem (\<lambda>path offset depth result.
     case compatible_with p mem path [''gic'', ''arm,cortex-a''] of
       None \<Rightarrow> (Ok True, result)
     | Some compatible \<Rightarrow>
         (case regs_of p mem path of
            (d_base, d_size) # (c_base, c_size) # _ \<Rightarrow>
              (Ok False, Some \<lparr>dist_base = d_base, dist_size = d_size, cpu_base = c_base, cpu_size = c_size\<rparr>)
          | _ \<Rightarrow> (Ok True, result))) None)"

definition find_pmic :: "FdtParser \<Rightarrow> memory \<Rightarrow> PmicInfo option option" where
  "find_pmic p mem = map_option snd (walk_nodes p mem (\<lambda>path offset depth result.
     case compatible_with p mem path [''pmic'', ''pm8'', ''pm6'', ''spmi''] of
       None \<Rightarrow> (Ok True, result)
     | Some compatible \<Rightarrow>
         (case regs_of p mem path of
            [] \<Rightarrow> (Ok True, result)
          | (addr, sz) # _ \<Rightarrow>
              (Ok False, Some \<lparr>pi_base_addr = addr, pi_size = sz, pi_compatible = compatible\<rparr>))) None)"

definition find_clocks :: "FdtParser \<Rightarrow> memory \<Rightarrow> ClockInfo list option" where
  "find_clocks p mem = map_option snd (walk_nodes p mem (\<lambda>path offset depth clocks.
     case compatible_with p mem path [''clock'', ''fixed-clock'', ''gcc''] of
       None \<Rightarrow> (Ok True, clocks)
     | Some compatible \<Rightarrow>
         (Ok True, clocks @ [\<lparr>
            ci_name = (case prop_bytes p mem path ''clock-output-names'' of
                Some data \<Rightarrow> data
              | None \<Rightarrow> (case prop_bytes p mem path ''name'' of Some data \<Rightarrow> data | None \<Rightarrow> path)),
            ci_frequency = ucast (u32_or 0 (prop_bytes p mem path ''clock-frequency'')),
            ci_phandle = u32_or 0 (prop_bytes p mem path ''phandle'')\<rparr>])) [])"

definition find_memory_regions :: "FdtParser \<Rightarrow> memory \<Rightarrow> (u64 \<times> u64) list option" where
  "find_memory_regions p mem = map_option snd (walk_nodes p mem (\<lambda>path offset depth regions.
     (Ok True, if take 6 path = ascii ''memory'' \<or> contains path ''/memory@''
               then regions @ regs_of p mem path else regions)) [])"

definition find_reserved_memory :: "FdtParser \<Rightarrow> memory \<Rightarrow> (u64 \<times> u64) list option" where
  "find_reserved_memory p mem = map_option snd (walk_nodes p mem (\<lambda>path offset depth regions.
     (Ok True, if contains path ''reserved-memory'' then regions @ regs_of p mem path else regions)) [])"

definition get_model :: "FdtParser \<Rightarrow> memory \<Rightarrow> u8 list option" where
  "get_model p mem =
     (case prop_bytes p mem (ascii ''/'') ''model'' of
        Some data \<Rightarrow> (case parse_string data of Ok v \<Rightarrow> Some v | _ \<Rightarrow> None)
      | None \<Rightarrow> None)"

definition get_compatible :: "FdtParser \<Rightarrow> memory \<Rightarrow> u8 list list option" where
  "get_compatible p mem =
     (case prop_bytes p mem (ascii ''/'') ''compatible'' of
        Some data \<Rightarrow> (case parse_stringlist data of Ok v \<Rightarrow> Some v | _ \<Rightarrow> None)
      | None \<Rightarrow> None)"

section \<open>Numbers in cells\<close>

lemma to_le_append: "to_le (m + n) v = to_le m v @ to_le n (v div 256 ^ m)"
  by (induction m arbitrary: v) (simp_all add: div_mult2_eq)

lemma to_be_append: "to_be (m + n) v = to_be m (v div 256 ^ n) @ to_be n v"
  using to_le_append [of n m v] by (simp add: to_be_def add.commute)

lemma two_cells: "push_bit 32 (ucast (of_nat (v div 4294967296) :: u32)) OR ucast (of_nat v :: u32) = (of_nat v :: u64)"
proof -
  have d: "v div 4294967296 = drop_bit 32 v" by (simp add: drop_bit_eq_div)
  show ?thesis unfolding d by (rule bit_word_eqI) (auto simp: bit_simps)
qed

lemma of_nat_mod_u32: "(of_nat (v mod 4294967296) :: u32) = of_nat v"
  by (simp add: word_unat_eq_iff unsigned_of_nat take_bit_eq_mod)

lemma parse_cells_be:
  assumes "v < 18446744073709551616"
  shows "parse_cells (to_be 8 v @ rest) 2 = Ok (of_nat v)"
proof -
  have b: "to_be 8 v = to_be 4 (v div 4294967296) @ to_be 4 v"
    using to_be_append [of 4 4 v] by simp
  have "be32_at (to_be 8 v @ rest) 0 = of_nat (v div 4294967296)" "be32_at (to_be 8 v @ rest) 4 = of_nat v"
    using assms unfolding b by (simp_all add: be32_at_def slice_def be_nat_to_be of_nat_mod_u32)
  moreover have "[0..<2] = [0, 1::nat]" by (simp add: upt_conv_Cons)
  ultimately show ?thesis using two_cells [of v] by (simp add: parse_cells_def)
qed

definition encode_reg :: "(u64 \<times> u64) list \<Rightarrow> u8 list" where
  "encode_reg regs = concat (map (\<lambda>(a, n). to_be 8 (unat a) @ to_be 8 (unat n)) regs)"

lemma unat_u64_less: "unat (w :: u64) < 18446744073709551616"
  using unsigned_less [of w] by simp

lemma reg_loop_encode:
  "offset = length pre \<Longrightarrow> reg_loop (pre @ encode_reg regs) 2 2 offset result = Ok (result @ regs)"
proof (induction regs arbitrary: pre offset result)
  case Nil
  then show ?case by (subst reg_loop.simps) (simp add: encode_reg_def)
next
  case (Cons r regs)
  obtain a n where r: "r = (a, n)" by (cases r)
  have e: "encode_reg (r # regs) = to_be 8 (unat a) @ to_be 8 (unat n) @ encode_reg regs"
    by (simp add: encode_reg_def r)
  have c: "parse_cells (drop offset (pre @ encode_reg (r # regs))) 2 = Ok a"
      "parse_cells (drop (offset + 2 * 4) (pre @ encode_reg (r # regs))) 2 = Ok n"
    using parse_cells_be [OF unat_u64_less, of a] parse_cells_be [OF unat_u64_less, of n] Cons.prems unfolding e by simp_all
  have "reg_loop ((pre @ to_be 8 (unat a) @ to_be 8 (unat n)) @ encode_reg regs) 2 2 (offset + 16) (result @ [(a, n)]) =
      Ok ((result @ [(a, n)]) @ regs)"
    by (rule Cons.IH) (simp add: Cons.prems)
  then have "reg_loop (pre @ encode_reg (r # regs)) 2 2 (16 + offset) (result @ [r]) = Ok (result @ r # regs)"
    unfolding e by (simp add: r add.commute)
  moreover have "offset < length (pre @ encode_reg (r # regs))" unfolding e by (simp add: Cons.prems)
  ultimately show ?case using c by (subst reg_loop.simps) (simp add: r)
qed

lemma parse_reg_encode: "parse_reg (encode_reg regs) 2 2 = Ok regs"
proof -
  have "length (encode_reg regs) = 16 * length regs"
    by (induction regs) (auto simp: encode_reg_def)
  then show ?thesis
    using reg_loop_encode [of 0 "[]" regs "[]"] by (simp add: parse_reg_def umul_def)
qed

section \<open>What discovery finds in a tree\<close>

text \<open>The value of the first property of a name in the first node of a path that has one.\<close>

fun find_value :: "FdtParser \<Rightarrow> memory \<Rightarrow> u8 list \<Rightarrow> u8 list \<Rightarrow> dt_visit list \<Rightarrow> u8 list option" where
  "find_value p mem path name [] = None"
| "find_value p mem path name (v # vs) =
     (case (if v_path v = path
            then find (\<lambda>pr. read_string p mem (uadd (strings_base p) (unat (fst pr))) = Ok name) (v_props v)
            else None) of
        None \<Rightarrow> find_value p mem path name vs
      | Some pr \<Rightarrow> Some (snd pr))"

lemma preorder_pieces:
  "piece p mem off (flatten_node t) \<Longrightarrow> v \<in> set (preorder off d parent t) \<Longrightarrow> piece p mem (v_offset v) (flatten_props (v_props v))"
  "piece p mem off (concat (map flatten_node ts)) \<Longrightarrow> v \<in> set (preorder_list off d parent ts) \<Longrightarrow>
    piece p mem (v_offset v) (flatten_props (v_props v))"
proof (induction off d parent t and off d parent ts rule: preorder_preorder_list.induct)
  case (1 off d parent name props kids)
  define off1 where "off1 = off + 4 + length (padded (name @ [0]))"
  have a: "piece p mem off ((to_be 4 1 @ padded (name @ [0])) @ flatten_props props @ concat (map flatten_node kids) @ to_be 4 2)"
    using "1.prems"(1) by simp
  have b: "piece p mem off1 (flatten_props props @ concat (map flatten_node kids) @ to_be 4 2)"
    using piece_append [OF a] by (simp add: off1_def add.assoc)
  have c: "piece p mem (off1 + length (flatten_props props)) (concat (map flatten_node kids))"
    using piece_append [OF b] piece_append by blast
  show ?case
    using "1.IH" [OF refl off1_def c] piece_append [OF b] "1.prems"(2) by (auto simp: Let_def off1_def)
next
  case (3 off d parent t ts)
  have "piece p mem off (flatten_node t @ concat (map flatten_node ts))" using "3.prems"(1) by simp
  from piece_append [OF this] show ?case using "3.IH" "3.prems"(2) by auto
qed simp_all

lemma find_prop_value:
  assumes "piece p mem off (flatten_props props)"
  shows "map_option (slice_bytes mem) (find_prop p mem name off props) =
    map_option snd (find (\<lambda>pr. read_string p mem (uadd (strings_base p) (unat (fst pr))) = Ok name) props)"
  using assms
proof (induction props arbitrary: off)
  case (Cons pr prs)
  then have a: "piece p mem off (flatten_prop pr @ flatten_props prs)" by simp
  have "piece p mem off ((to_be 4 3 @ to_be 4 (length (snd pr)) @ to_be 4 (unat (fst pr))) @ snd pr @ replicate ((4 - length (snd pr) mod 4) mod 4) 0 @ flatten_props prs)"
    using a by (simp add: flatten_prop_def padded_def)
  from piece_append [OF piece_append [OF this, THEN conjunct2]]
  have v: "piece p mem (off + 12) (snd pr)" by simp
  have "bytes_at mem (struct_start p + off + 12) (length (snd pr)) = snd pr"
    unfolding bytes_at_def
    by (rule holds_bytes_at) (use v piece_in [OF v] in \<open>simp_all add: piece_def add.assoc\<close>)
  then show ?case using Cons.IH [of "off + length (flatten_prop pr)"] piece_append [OF a] by (simp add: slice_bytes_def)
qed simp

lemma find_visit_value:
  "\<forall>v \<in> set vs. piece p mem (v_offset v) (flatten_props (v_props v)) \<Longrightarrow>
   map_option (slice_bytes mem) (find_visit p mem path name vs) = find_value p mem path name vs"
proof (induction vs)
  case (Cons v vs)
  then show ?case using find_prop_value [of p mem "v_offset v" "v_props v" name] by (auto split: option.splits)
qed simp

lemma prop_bytes_tree:
  assumes "piece p mem 0 (flatten_tree t)" "good_node t"
  shows "prop_bytes p mem path name = find_value p mem path (ascii name) (preorder 0 0 [] t)"
proof -
  have "map_option (slice_bytes mem) (find_visit p mem path (ascii name) (preorder 0 0 [] t)) =
      find_value p mem path (ascii name) (preorder 0 0 [] t)"
    by (rule find_visit_value) (use preorder_pieces(1) [OF tree_end(1) [OF assms(1)]] in blast)
  then show ?thesis
    by (auto simp: prop_bytes_def read_property_tree [OF assms] split: option.splits)
qed

lemma preorder_path:
  "good_node t \<Longrightarrow> slash \<notin> set parent \<or> length parent > 1 \<Longrightarrow> v \<in> set (preorder off d parent t) \<Longrightarrow> v_path v \<noteq> [slash]"
  "\<forall>t \<in> set ts. good_node t \<Longrightarrow> slash \<notin> set parent \<or> length parent > 1 \<Longrightarrow> v \<in> set (preorder_list off d parent ts) \<Longrightarrow> v_path v \<noteq> [slash]"
proof (induction off d parent t and off d parent ts rule: preorder_preorder_list.induct)
  case (1 off d parent name props kids)
  have p: "slash \<notin> set (path_enter parent d name) \<or> length (path_enter parent d name) > 1"
    using "1.prems"(1,2) by (cases parent) (auto simp: path_enter_def good_name_def)
  then have "path_enter parent d name \<noteq> [slash]" by auto
  with p show ?case using "1.IH" [OF refl refl] "1.prems"(1,3) by (auto simp: Let_def)
qed auto

lemma find_value_None: "\<forall>v \<in> set vs. v_path v \<noteq> path \<Longrightarrow> find_value p mem path name vs = None"
  by (induction vs) auto

lemma run_callback_collect:
  "run_callback start (\<lambda>path off d regions. (Ok True, if P path then regions @ f path else regions)) vs regions =
    (None, regions @ concat (map (\<lambda>v. f (v_path v)) (filter (\<lambda>v. P (v_path v)) vs)))"
  by (induction vs arbitrary: regions) auto

text \<open>
  C23 (error). On a well-formed tree, discovery of the memory regions returns the decoded \<open>reg\<close> values of the
  memory nodes in tree order, and a value that encodes 64-bit pairs decodes to those pairs. But the
  parser gives the root node the empty path, so that \<open>get_model\<close> and \<open>get_compatible\<close>, which look under
  \<open>"/"\<close>, find nothing in any tree, whatever properties its root has.
\<close>

theorem dt_discovery:
  assumes "piece p mem 0 (flatten_tree t)" "good_node t" "levels 32 t"
  defines "nodes \<equiv> preorder 0 0 [] t"
  shows "find_memory_regions p mem =
      Some (concat (map (\<lambda>v. regs_of p mem (v_path v))
        (filter (\<lambda>v. take 6 (v_path v) = ascii ''memory'' \<or> contains (v_path v) ''/memory@'') nodes))) \<and>
    (find_value p mem path (ascii ''reg'') nodes = Some (encode_reg regs) \<longrightarrow> regs_of p mem path = regs) \<and>
    find_value p mem [] (ascii ''model'') nodes = prop_bytes p mem [] ''model'' \<and>
    get_model p mem = None \<and> get_compatible p mem = None"
proof -
  note B = prop_bytes_tree [OF assms(1,2), folded nodes_def]
  have "prop_bytes p mem (ascii ''/'') name = None" for name
    unfolding B nodes_def using preorder_path(1) [OF assms(2), of "[]"]
    by (intro find_value_None) (auto simp: ascii_def)
  moreover have "find_memory_regions p mem =
      Some (concat (map (\<lambda>v. regs_of p mem (v_path v))
        (filter (\<lambda>v. take 6 (v_path v) = ascii ''memory'' \<or> contains (v_path v) ''/memory@'') nodes)))"
    unfolding find_memory_regions_def walk_nodes_tree [OF assms(1-3)] run_callback_collect
    by (simp add: nodes_def)
  ultimately show ?thesis
    by (auto simp: get_model_def get_compatible_def regs_of_def B parse_reg_encode)
qed


text \<open>The example tree: its root has a property, and no node of memory.\<close>

theorem dt_discovery_witness:
  "get_model fdt_example_parser dt_example_mem = None \<and> find_memory_regions fdt_example_parser dt_example_mem = Some []"
  using dt_discovery [OF dt_example_piece dt_example_good]
  by (simp add: dt_example_def path_enter_def ascii_def contains_def slice_def)

end
