(* ===== verification/Interrupts.thy ===== *)
theory Interrupts
  imports Interfaces
begin

text \<open>
  Exceptions and interrupts: the vector table of \<open>kernel/src/interrupts/exception.rs\<close>, the interrupt
  controller of \<open>controller.rs\<close> and the timer of \<open>timer.rs\<close>. A handler is a function to the result of
  its call. Shared counters are words that wrap, as \<open>fetch_add\<close> does. The writes to the
  end-of-interrupt register are returned as the list of acknowledged interrupts; the other
  register writes are placeholders in the source.
\<close>

section \<open>Exceptions\<close>

datatype ExceptionType = Synchronous | Irq | Fiq | SError

record ExceptionContext =
  ec_x :: "u64 list"
  ec_sp :: u64
  ec_pc :: u64
  ec_pstate :: u64
  ec_esr :: u64
  ec_far :: u64

definition ec_new :: ExceptionContext where
  "ec_new = \<lparr>ec_x = replicate 31 0, ec_sp = 0, ec_pc = 0, ec_pstate = 0, ec_esr = 0, ec_far = 0\<rparr>"

definition exception_class :: "ExceptionContext \<Rightarrow> u32" where
  "exception_class ctx = ucast (drop_bit 26 (ec_esr ctx) AND 0x3F)"

definition instruction_length :: "ExceptionContext \<Rightarrow> u32" where
  "instruction_length ctx = (if ec_esr ctx AND push_bit 25 1 \<noteq> 0 then 32 else 16)"

definition iss :: "ExceptionContext \<Rightarrow> u32" where
  "iss ctx = ucast (ec_esr ctx AND 0x1FFFFFF)"

type_synonym ExceptionHandler = "ExceptionContext \<Rightarrow> unit kresult"

text \<open>
  The four entries of the current level with its own stack pointer, and of the lower 64-bit level. The entries of
  the other two groups are never set.
\<close>

record ExceptionVectorTable =
  sync_el_spx :: "ExceptionHandler option"
  irq_el_spx :: "ExceptionHandler option"
  fiq_el_spx :: "ExceptionHandler option"
  serror_el_spx :: "ExceptionHandler option"
  sync_lower_64 :: "ExceptionHandler option"
  irq_lower_64 :: "ExceptionHandler option"
  fiq_lower_64 :: "ExceptionHandler option"
  serror_lower_64 :: "ExceptionHandler option"
  total_exceptions :: u64
  ev_total_irqs :: u64

definition evt_new :: ExceptionVectorTable where
  "evt_new = \<lparr>sync_el_spx = None, irq_el_spx = None, fiq_el_spx = None, serror_el_spx = None,
     sync_lower_64 = None, irq_lower_64 = None, fiq_lower_64 = None, serror_lower_64 = None,
     total_exceptions = 0, ev_total_irqs = 0\<rparr>"

definition register_sync_handler :: "ExceptionHandler \<Rightarrow> ExceptionVectorTable \<Rightarrow> ExceptionVectorTable" where
  "register_sync_handler h t = t\<lparr>sync_el_spx := Some h\<rparr>"

definition register_irq_handler :: "ExceptionHandler \<Rightarrow> ExceptionVectorTable \<Rightarrow> ExceptionVectorTable" where
  "register_irq_handler h t = t\<lparr>irq_el_spx := Some h\<rparr>"

definition register_fiq_handler :: "ExceptionHandler \<Rightarrow> ExceptionVectorTable \<Rightarrow> ExceptionVectorTable" where
  "register_fiq_handler h t = t\<lparr>fiq_el_spx := Some h\<rparr>"

definition register_serror_handler :: "ExceptionHandler \<Rightarrow> ExceptionVectorTable \<Rightarrow> ExceptionVectorTable" where
  "register_serror_handler h t = t\<lparr>serror_el_spx := Some h\<rparr>"

definition register_user_sync_handler :: "ExceptionHandler \<Rightarrow> ExceptionVectorTable \<Rightarrow> ExceptionVectorTable" where
  "register_user_sync_handler h t = t\<lparr>sync_lower_64 := Some h\<rparr>"

definition register_user_irq_handler :: "ExceptionHandler \<Rightarrow> ExceptionVectorTable \<Rightarrow> ExceptionVectorTable" where
  "register_user_irq_handler h t = t\<lparr>irq_lower_64 := Some h\<rparr>"

definition handle_exception ::
  "ExceptionContext \<Rightarrow> ExceptionType \<Rightarrow> bool \<Rightarrow> ExceptionVectorTable \<Rightarrow> unit kresult \<times> ExceptionVectorTable" where
  "handle_exception ctx exc_type from_lower t =
     (let t1 = t\<lparr>total_exceptions := total_exceptions t + 1\<rparr>;
          t2 = (if exc_type = Irq then t1\<lparr>ev_total_irqs := ev_total_irqs t1 + 1\<rparr> else t1);
          handler =
            (if from_lower
             then case exc_type of
                 Synchronous \<Rightarrow> sync_lower_64 t2 | Irq \<Rightarrow> irq_lower_64 t2
               | Fiq \<Rightarrow> fiq_lower_64 t2 | SError \<Rightarrow> serror_lower_64 t2
             else case exc_type of
                 Synchronous \<Rightarrow> sync_el_spx t2 | Irq \<Rightarrow> irq_el_spx t2
               | Fiq \<Rightarrow> fiq_el_spx t2 | SError \<Rightarrow> serror_el_spx t2)
      in case handler of
           Some h \<Rightarrow> (h ctx, t2)
         | None \<Rightarrow> (Err (Interrupt IrqNotRegistered), t2))"

section \<open>The interrupt controller\<close>

type_synonym irq = u32

datatype IrqPriority = IrqPriority u8

fun irq_priority_as_u8 :: "IrqPriority \<Rightarrow> u8" where "irq_priority_as_u8 (IrqPriority p) = p"

definition IRQ_NORMAL :: IrqPriority where "IRQ_NORMAL = IrqPriority 128"

record IrqConfig =
  irq_priority :: IrqPriority
  irq_cfg_enabled :: bool
  edge_triggered :: bool
  cpu_mask :: u8

definition irq_config_new :: "IrqPriority \<Rightarrow> IrqConfig" where
  "irq_config_new p = \<lparr>irq_priority = p, irq_cfg_enabled = False, edge_triggered = False, cpu_mask = 0xFF\<rparr>"

definition SPURIOUS_THRESHOLD :: u64 where "SPURIOUS_THRESHOLD = 100"

type_synonym IrqHandler = "irq \<Rightarrow> unit kresult"

record InterruptController =
  irq_handlers :: "IrqHandler option list"
  irq_configs :: "IrqConfig list"
  irq_enabled :: "bool list"
  unhandled_count :: "u64 list"
  total_irqs :: u64
  spurious_irqs :: u64

definition ic_new :: InterruptController where
  "ic_new = \<lparr>irq_handlers = replicate 256 None, irq_configs = replicate 256 (irq_config_new IRQ_NORMAL),
     irq_enabled = replicate 256 False, unhandled_count = replicate 256 0, total_irqs = 0, spurious_irqs = 0\<rparr>"

definition irq_register ::
  "irq \<Rightarrow> IrqHandler \<Rightarrow> IrqConfig \<Rightarrow> InterruptController \<Rightarrow> unit kresult \<times> InterruptController" where
  "irq_register irq handler config c =
     (if irq \<ge> 256 then (Err (Interrupt IrqInvalidIrq), c)
      else let idx = unat irq
      in if irq_enabled c ! idx then (Err (Interrupt IrqAlreadyRegistered), c)
         else if irq_handlers c ! idx \<noteq> None then (Err (Interrupt IrqAlreadyRegistered), c)
         else (Ok (), c\<lparr>irq_handlers := (irq_handlers c)[idx := Some handler],
                        irq_configs := (irq_configs c)[idx := config],
                        unhandled_count := (unhandled_count c)[idx := 0]\<rparr>))"

definition irq_disable :: "irq \<Rightarrow> InterruptController \<Rightarrow> unit kresult \<times> InterruptController" where
  "irq_disable irq c =
     (if irq \<ge> 256 then (Err (Interrupt IrqInvalidIrq), c)
      else (Ok (), c\<lparr>irq_enabled := (irq_enabled c)[unat irq := False]\<rparr>))"

definition irq_unregister :: "irq \<Rightarrow> InterruptController \<Rightarrow> unit kresult \<times> InterruptController" where
  "irq_unregister irq c =
     (if irq \<ge> 256 then (Err (Interrupt IrqInvalidIrq), c)
      else let idx = unat irq
      in if irq_handlers c ! idx = None then (Err (Interrupt IrqNotRegistered), c)
         else case irq_disable irq c of
                (Ok _, c1) \<Rightarrow> (Ok (), c1\<lparr>irq_handlers := (irq_handlers c1)[idx := None]\<rparr>)
              | (r, c1) \<Rightarrow> (r, c1))"

definition irq_enable :: "irq \<Rightarrow> InterruptController \<Rightarrow> unit kresult \<times> InterruptController" where
  "irq_enable irq c =
     (if irq \<ge> 256 then (Err (Interrupt IrqInvalidIrq), c)
      else let idx = unat irq
      in if irq_handlers c ! idx = None then (Err (Interrupt IrqNotRegistered), c)
         else (Ok (), c\<lparr>irq_enabled := (irq_enabled c)[idx := True]\<rparr>))"

definition is_enabled :: "irq \<Rightarrow> InterruptController \<Rightarrow> bool" where
  "is_enabled irq c = (if irq \<ge> 256 then False else irq_enabled c ! unat irq)"

definition irq_handle :: "irq \<Rightarrow> InterruptController \<Rightarrow> unit kresult \<times> InterruptController \<times> irq list" where
  "irq_handle irq c =
     (if irq \<ge> 256
      then (Err (Interrupt IrqInvalidIrq), c\<lparr>spurious_irqs := spurious_irqs c + 1\<rparr>, [])
      else let idx = unat irq
      in if \<not> irq_enabled c ! idx
         then (Err (Interrupt IrqNotRegistered), c\<lparr>spurious_irqs := spurious_irqs c + 1\<rparr>, [])
         else let c1 = c\<lparr>total_irqs := total_irqs c + 1\<rparr>
         in case irq_handlers c1 ! idx of
              Some handler \<Rightarrow>
                (case handler irq of
                   Ok _ \<Rightarrow> (Ok (), c1, [irq])
                 | Err e \<Rightarrow> (Err e, c1, [])
                 | Panic \<Rightarrow> (Panic, c1, []))
            | None \<Rightarrow>
                let count = unhandled_count c1 ! idx + 1;
                    c2 = c1\<lparr>unhandled_count := (unhandled_count c1)[idx := unhandled_count c1 ! idx + 1],
                            spurious_irqs := spurious_irqs c1 + 1\<rparr>;
                    c3 = (if count \<ge> SPURIOUS_THRESHOLD
                          then c2\<lparr>irq_enabled := (irq_enabled c2)[idx := False]\<rparr> else c2)
                in (Err (Interrupt IrqNotRegistered), c3, []))"

definition irq_set_priority :: "irq \<Rightarrow> IrqPriority \<Rightarrow> InterruptController \<Rightarrow> unit kresult \<times> InterruptController" where
  "irq_set_priority irq p c =
     (if irq \<ge> 256 then (Err (Interrupt IrqInvalidIrq), c)
      else (Ok (), c\<lparr>irq_configs := (irq_configs c)[unat irq := (irq_configs c ! unat irq)\<lparr>irq_priority := p\<rparr>]\<rparr>))"

definition irq_get_priority :: "irq \<Rightarrow> InterruptController \<Rightarrow> IrqPriority option" where
  "irq_get_priority irq c = (if irq \<ge> 256 then None else Some (irq_priority (irq_configs c ! unat irq)))"

definition irq_set_affinity :: "irq \<Rightarrow> u8 \<Rightarrow> InterruptController \<Rightarrow> unit kresult \<times> InterruptController" where
  "irq_set_affinity irq m c =
     (if irq \<ge> 256 then (Err (Interrupt IrqInvalidIrq), c)
      else (Ok (), c\<lparr>irq_configs := (irq_configs c)[unat irq := (irq_configs c ! unat irq)\<lparr>cpu_mask := m\<rparr>]\<rparr>))"

text \<open>One call of the controller, with any arguments.\<close>

inductive ic_step :: "InterruptController \<Rightarrow> InterruptController \<Rightarrow> bool" where
  "ic_step c (snd (irq_register i h cfg c))"
| "ic_step c (snd (irq_unregister i c))"
| "ic_step c (snd (irq_enable i c))"
| "ic_step c (snd (irq_disable i c))"
| "ic_step c (fst (snd (irq_handle i c)))"
| "ic_step c (snd (irq_set_priority i p c))"
| "ic_step c (snd (irq_set_affinity i m c))"

inductive_cases ic_stepE: "ic_step c c1"

section \<open>The timer\<close>

definition TIMER_FREQ :: u64 where "TIMER_FREQ = 1000000"

record Timer =
  tm_ticks :: u64
  tm_frequency :: u64

definition timer_new :: "u64 \<Rightarrow> Timer" where
  "timer_new frequency = \<lparr>tm_ticks = 0, tm_frequency = frequency\<rparr>"

text \<open>
  \<open>tick\<close>, given the hardware counter, returns the compare value it sets: the counter of the next
  interrupt. A division by a frequency of zero panics.
\<close>

definition timer_tick :: "u64 \<Rightarrow> Timer \<Rightarrow> u64 \<times> Timer" where
  "timer_tick current t = (current + tm_frequency t div 100, t\<lparr>tm_ticks := tm_ticks t + 1\<rparr>)"

definition timer_nanos :: "Timer \<Rightarrow> (unit, u64) outcome" where
  "timer_nanos t = (if tm_frequency t = 0 then Panic else Ok ((tm_ticks t * 1000000000) div tm_frequency t))"

definition timer_micros :: "Timer \<Rightarrow> (unit, u64) outcome" where
  "timer_micros t = (if tm_frequency t = 0 then Panic else Ok ((tm_ticks t * 1000000) div tm_frequency t))"

definition timer_millis :: "Timer \<Rightarrow> (unit, u64) outcome" where
  "timer_millis t = (if tm_frequency t = 0 then Panic else Ok ((tm_ticks t * 1000) div tm_frequency t))"

section \<open>Invariant of the controller\<close>

definition ic_inv :: "InterruptController \<Rightarrow> bool" where
  "ic_inv c \<longleftrightarrow> length (irq_handlers c) = 256 \<and> length (irq_enabled c) = 256 \<and> length (unhandled_count c) = 256 \<and>
     length (irq_configs c) = 256 \<and>
     (\<forall>i < 256. irq_enabled c ! i \<longrightarrow> irq_handlers c ! i \<noteq> None) \<and> (\<forall>i < 256. unhandled_count c ! i = 0)"

lemma irq_index: "\<not> (256 :: irq) \<le> i \<Longrightarrow> unat i < 256"
  by (simp add: word_le_nat_alt)

lemma ic_inv_new: "ic_inv ic_new"
  by (simp add: ic_inv_def ic_new_def)

lemma enabled_handler:
  assumes "ic_inv c" "is_enabled i c"
  obtains h where "irq_handlers c ! unat i = Some h"
  using assms irq_index [of i] by (auto simp: is_enabled_def ic_inv_def split: if_splits)

lemma irq_handle_enabled:
  assumes "is_enabled i c" "irq_handlers c ! unat i = Some h"
  shows "irq_handle i c = (h i, c\<lparr>total_irqs := total_irqs c + 1\<rparr>, if h i = Ok () then [i] else [])"
  using assms by (cases "h i") (auto simp: irq_handle_def is_enabled_def split: if_splits)

lemma irq_handle_disabled:
  assumes "\<not> is_enabled i c"
  shows "snd (irq_handle i c) = (c\<lparr>spurious_irqs := spurious_irqs c + 1\<rparr>, [])" "\<not> is_ok (fst (irq_handle i c))"
  using assms by (auto simp: irq_handle_def is_enabled_def split: if_splits)

lemma ic_inv_counters:
  "ic_inv (c\<lparr>total_irqs := n\<rparr>) = ic_inv c" "ic_inv (c\<lparr>spurious_irqs := n\<rparr>) = ic_inv c"
  by (simp_all add: ic_inv_def)

lemma ic_inv_handle: "ic_inv c \<Longrightarrow> ic_inv (fst (snd (irq_handle i c)))"
proof (cases "is_enabled i c")
  case True
  assume "ic_inv c"
  with enabled_handler [OF this True] True show ?thesis by (metis irq_handle_enabled ic_inv_counters(1) fst_conv snd_conv)
qed (simp add: irq_handle_disabled ic_inv_counters)

lemma ic_inv_step: "ic_inv c \<Longrightarrow> ic_step c c1 \<Longrightarrow> ic_inv c1"
  by (erule ic_stepE)
    (auto simp: ic_inv_handle, auto simp: ic_inv_def irq_register_def irq_unregister_def irq_enable_def irq_disable_def
      irq_set_priority_def irq_set_affinity_def Let_def nth_list_update irq_index)

interpretation controller: transition_system "\<lambda>c. c = ic_new" ic_step ic_inv
  by unfold_locales (auto simp: ic_inv_new intro: ic_inv_step)

text \<open>
  C24 (invariant). In every state the controller can reach, an enabled interrupt has a handler, so that an
  interrupt is answered by exactly the handler registered for it when it is enabled, and by none
  otherwise. The count of unhandled interrupts therefore stays zero and the protection against
  interrupt storms never acts. The end of the interrupt is signalled exactly when its handler
  succeeds: after a handler's error the line stays active.
\<close>

theorem irq_dispatch:
  assumes "reachable (\<lambda>c. c = ic_new) ic_step c"
  shows "(is_enabled i c \<longrightarrow>
      (\<exists>h. irq_handlers c ! unat i = Some h \<and> fst (irq_handle i c) = h i \<and>
        snd (irq_handle i c) = (c\<lparr>total_irqs := total_irqs c + 1\<rparr>, if h i = Ok () then [i] else []))) \<and>
    (\<not> is_enabled i c \<longrightarrow> \<not> is_ok (fst (irq_handle i c)) \<and>
      snd (irq_handle i c) = (c\<lparr>spurious_irqs := spurious_irqs c + 1\<rparr>, [])) \<and>
    unhandled_count c = replicate 256 0"
proof -
  have inv: "ic_inv c" by (rule controller.reachable_inv [OF assms])
  then have "unhandled_count c = replicate 256 0"
    by (intro nth_equalityI) (simp_all add: ic_inv_def)
  then show ?thesis
    using enabled_handler [OF inv, of i] irq_handle_enabled [of i c] irq_handle_disabled [of i c] by (metis fst_conv snd_conv)
qed

text \<open>Interrupt 10 with a handler that fails: no end of interrupt.\<close>

definition ic_example :: InterruptController where
  "ic_example = snd (irq_enable 10 (snd (irq_register 10 (\<lambda>_. Err OperationFailed) (irq_config_new IRQ_NORMAL) ic_new)))"

theorem irq_dispatch_witness:
  "fst (irq_handle 10 ic_example) = Err OperationFailed \<and> snd (snd (irq_handle 10 ic_example)) = []"
proof -
  have "reachable (\<lambda>c. c = ic_new) ic_step ic_example"
    unfolding ic_example_def
    by (rule reach_step, rule reach_step, rule reach_init, rule refl) (rule ic_step.intros)+
  moreover have "is_enabled 10 ic_example" "irq_handlers ic_example ! 10 = Some (\<lambda>_. Err OperationFailed)"
    by (simp_all add: ic_example_def irq_enable_def irq_register_def is_enabled_def ic_new_def)
  ultimately show ?thesis using irq_dispatch [of ic_example 10] by simp
qed

text \<open>
  The timer's time. An interrupt comes every hundredth of a second, but the conversions divide
  the number of interrupts by the counter's frequency: after one second, 100 interrupts, the
  clock of the default frequency shows a tenth of a millisecond.
\<close>

lemma timer_ticks: "((\<lambda>t. snd (timer_tick cur t)) ^^ n) (timer_new f) = \<lparr>tm_ticks = of_nat n, tm_frequency = f\<rparr>"
  by (induction n) (simp_all add: timer_tick_def timer_new_def)


lemma timer_slow:
  assumes "n * 1000000 < 18446744073709551616"
  shows "timer_micros (((\<lambda>t. snd (timer_tick cur t)) ^^ n) (timer_new TIMER_FREQ)) = Ok (of_nat n)"
proof -
  have "unat (of_nat n * 1000000 :: u64) = n * 1000000"
    using assms unat_of_nat_64 [of "n * 1000000"] by simp
  then have "unat ((of_nat n * 1000000 :: u64) div 1000000) = unat (of_nat n :: u64)"
    using assms unat_of_nat_64 [of n] by (simp add: unat_div)
  then show ?thesis unfolding timer_ticks by (simp add: timer_micros_def TIMER_FREQ_def word_unat_eq_iff)
qed

end
