(* ===== verification/Syscalls.thy ===== *)
theory Syscalls
  imports Task Interrupts
begin

text \<open>
  System calls, \<open>kernel/src/syscall/mod.rs\<close>: the call numbers, the dispatcher and the built-in
  handlers. The two static counters of file descriptors are a record that the handlers pass on.
\<close>

datatype SyscallNumber =
    SysExit | SysFork | SysExec | SysWait | SysKill | SysGetPid
  | SysGetPPid | SysMmap | SysMunmap | SysMprotect | SysBrk | SysSend
  | SysReceive | SysSignal | SysRead | SysWrite | SysOpen | SysClose
  | SysSleep | SysGetTime | SysMutexLock | SysMutexUnlock | SysSemWait | SysSemSignal
  | SysPQKeyGen | SysPQEncapsulate | SysPQDecapsulate | SysPQSign | SysPQVerify | SysSocket
  | SysBind | SysConnect | SysSendTo | SysRecvFrom | SysListen | SysAccept

text \<open>The discriminants of the enum, and their inverse.\<close>

fun syscall_number :: "SyscallNumber \<Rightarrow> nat" where
  "syscall_number SysExit = 0"
| "syscall_number SysFork = 1"
| "syscall_number SysExec = 2"
| "syscall_number SysWait = 3"
| "syscall_number SysKill = 4"
| "syscall_number SysGetPid = 5"
| "syscall_number SysGetPPid = 6"
| "syscall_number SysMmap = 10"
| "syscall_number SysMunmap = 11"
| "syscall_number SysMprotect = 12"
| "syscall_number SysBrk = 13"
| "syscall_number SysSend = 20"
| "syscall_number SysReceive = 21"
| "syscall_number SysSignal = 22"
| "syscall_number SysRead = 30"
| "syscall_number SysWrite = 31"
| "syscall_number SysOpen = 32"
| "syscall_number SysClose = 33"
| "syscall_number SysSleep = 40"
| "syscall_number SysGetTime = 41"
| "syscall_number SysMutexLock = 50"
| "syscall_number SysMutexUnlock = 51"
| "syscall_number SysSemWait = 52"
| "syscall_number SysSemSignal = 53"
| "syscall_number SysPQKeyGen = 60"
| "syscall_number SysPQEncapsulate = 61"
| "syscall_number SysPQDecapsulate = 62"
| "syscall_number SysPQSign = 63"
| "syscall_number SysPQVerify = 64"
| "syscall_number SysSocket = 70"
| "syscall_number SysBind = 71"
| "syscall_number SysConnect = 72"
| "syscall_number SysSendTo = 73"
| "syscall_number SysRecvFrom = 74"
| "syscall_number SysListen = 75"
| "syscall_number SysAccept = 76"

definition from_u64 :: "u64 \<Rightarrow> SyscallNumber option" where
  "from_u64 = map_of [
     (0, SysExit), (1, SysFork), (2, SysExec), (3, SysWait), (4, SysKill), (5, SysGetPid),
     (6, SysGetPPid), (10, SysMmap), (11, SysMunmap), (12, SysMprotect), (13, SysBrk), (20, SysSend),
     (21, SysReceive), (22, SysSignal), (30, SysRead), (31, SysWrite), (32, SysOpen), (33, SysClose),
     (40, SysSleep), (41, SysGetTime), (50, SysMutexLock), (51, SysMutexUnlock), (52, SysSemWait), (53, SysSemSignal),
     (60, SysPQKeyGen), (61, SysPQEncapsulate), (62, SysPQDecapsulate), (63, SysPQSign), (64, SysPQVerify), (70, SysSocket),
     (71, SysBind), (72, SysConnect), (73, SysSendTo), (74, SysRecvFrom), (75, SysListen), (76, SysAccept)]"

record SyscallArgs =
  arg0 :: u64
  arg1 :: u64
  arg2 :: u64
  arg3 :: u64
  arg4 :: u64
  arg5 :: u64

definition args_from_context :: "ExceptionContext \<Rightarrow> SyscallArgs" where
  "args_from_context ctx = \<lparr>arg0 = ec_x ctx ! 0, arg1 = ec_x ctx ! 1, arg2 = ec_x ctx ! 2,
     arg3 = ec_x ctx ! 3, arg4 = ec_x ctx ! 4, arg5 = ec_x ctx ! 5\<rparr>"

type_synonym SyscallResult = "u64 kresult"

record fd_counters =
  socket_next_fd :: u64
  accept_next_fd :: u64

definition fds_init :: fd_counters where
  "fds_init = \<lparr>socket_next_fd = 3, accept_next_fd = 100\<rparr>"

type_synonym syscall_handler = "SyscallArgs \<Rightarrow> TaskId \<Rightarrow> fd_counters \<Rightarrow> SyscallResult \<times> fd_counters"

section \<open>The dispatcher\<close>

record SyscallDispatcher =
  sd_handlers :: "syscall_handler option list"
  total_syscalls :: u64
  invalid_syscalls :: u64

definition dispatcher_new :: SyscallDispatcher where
  "dispatcher_new = \<lparr>sd_handlers = replicate 77 None, total_syscalls = 0, invalid_syscalls = 0\<rparr>"

definition sys_register :: "SyscallNumber \<Rightarrow> syscall_handler \<Rightarrow> SyscallDispatcher \<Rightarrow> SyscallDispatcher" where
  "sys_register syscall handler d =
     (let idx = syscall_number syscall
      in if idx < 77 then d\<lparr>sd_handlers := (sd_handlers d)[idx := Some handler]\<rparr> else d)"

definition count_invalid :: "SyscallDispatcher \<Rightarrow> SyscallDispatcher" where
  "count_invalid d = d\<lparr>invalid_syscalls := invalid_syscalls d + 1\<rparr>"

definition dispatch ::
  "ExceptionContext \<Rightarrow> TaskId \<Rightarrow> SyscallDispatcher \<Rightarrow> fd_counters \<Rightarrow>
   SyscallResult \<times> SyscallDispatcher \<times> fd_counters" where
  "dispatch ctx caller d0 fds =
     (let d = d0\<lparr>total_syscalls := total_syscalls d0 + 1\<rparr>;
          syscall_num = ec_x ctx ! 8
      in if syscall_num > 76
         then (Err (InvalidParameter ''Invalid syscall number''), count_invalid d, fds)
         else case from_u64 syscall_num of
           None \<Rightarrow> (Err (InvalidParameter ''Invalid syscall number''), count_invalid d, fds)
         | Some syscall \<Rightarrow>
             let args = args_from_context ctx; idx = syscall_number syscall
             in if idx \<ge> 77
                then (Err (InvalidParameter ''Syscall out of range''), count_invalid d, fds)
                else case sd_handlers d ! idx of
                  Some handler \<Rightarrow> (case handler args caller fds of (r, fds1) \<Rightarrow> (r, d, fds1))
                | None \<Rightarrow> (Err NotImplemented, count_invalid d, fds))"

section \<open>The handlers\<close>

definition sys_exit :: syscall_handler where
  "sys_exit args caller fds = (Ok (arg0 args), fds)"

definition sys_getpid :: syscall_handler where
  "sys_getpid args caller fds = (Ok (task_id_as_u64 caller), fds)"

definition sys_sleep :: syscall_handler where
  "sys_sleep args caller fds = (Ok (arg0 args), fds)"

definition sys_gettime :: syscall_handler where
  "sys_gettime args caller fds = (Ok 0, fds)"

definition USER_SPACE_END :: u64 where "USER_SPACE_END = 0x0000FFFFFFFFFFFF"

definition sys_write :: syscall_handler where
  "sys_write args caller fds =
     (let buf_addr = arg1 args; len = arg2 args
      in if len > 0 \<and> (buf_addr = 0 \<or> buf_addr > USER_SPACE_END) then (Err InvalidAddress, fds)
         else if len > 0 \<and> (unat buf_addr + unat len \<ge> 2 ^ 64 \<or> buf_addr + len > USER_SPACE_END)
         then (Err InvalidAddress, fds)
         else (Ok len, fds))"

definition sys_read :: syscall_handler where
  "sys_read args caller fds =
     (let buf_addr = arg1 args; len = arg2 args
      in if len > 0 \<and> (buf_addr = 0 \<or> buf_addr > USER_SPACE_END) then (Err InvalidAddress, fds)
         else if len > 0 \<and> (unat buf_addr + unat len \<ge> 2 ^ 64 \<or> buf_addr + len > USER_SPACE_END)
         then (Err InvalidAddress, fds)
         else (Ok len, fds))"

definition sys_mmap :: syscall_handler where
  "sys_mmap args caller fds =
     (let len = arg1 args; flags = (ucast (arg3 args) :: u32)
      in if len = 0 \<or> len > 256 * 1024 * 1024
         then (Err (InvalidParameter ''mmap: invalid length''), fds)
         else if flags AND 0x20 \<noteq> 0 then (Ok (0x40000000 + task_id_as_u64 caller * 0x10000000), fds)
         else (Err NotImplemented, fds))"

definition sys_munmap :: syscall_handler where
  "sys_munmap args caller fds =
     (if arg0 args = 0 \<or> arg1 args = 0 then (Err InvalidAddress, fds)
      else if arg0 args AND 0xFFF \<noteq> 0 then (Err (Memory MemInvalidAlignment), fds)
      else (Ok 0, fds))"

definition sys_socket :: syscall_handler where
  "sys_socket args caller fds =
     (let domain = (ucast (arg0 args) :: u32); sock_type = (ucast (arg1 args) :: u32)
      in if domain \<noteq> 2 \<and> domain \<noteq> 10 then (Err (InvalidParameter ''unsupported domain''), fds)
         else if sock_type \<noteq> 1 \<and> sock_type \<noteq> 2 then (Err (InvalidParameter ''unsupported type''), fds)
         else (Ok (socket_next_fd fds), fds\<lparr>socket_next_fd := socket_next_fd fds + 1\<rparr>))"

definition sys_bind :: syscall_handler where
  "sys_bind args caller fds =
     (if arg0 args < 3 then (Err (InvalidParameter ''invalid fd''), fds)
      else if arg1 args = 0 \<or> arg2 args < 4 then (Err InvalidAddress, fds)
      else (Ok 0, fds))"

definition sys_connect :: syscall_handler where
  "sys_connect args caller fds =
     (if arg0 args < 3 then (Err (InvalidParameter ''invalid fd''), fds)
      else if arg1 args = 0 \<or> arg2 args < 4 then (Err InvalidAddress, fds)
      else (Ok 0, fds))"

definition sys_sendto :: syscall_handler where
  "sys_sendto args caller fds =
     (if arg0 args < 3 then (Err (InvalidParameter ''invalid fd''), fds)
      else if arg1 args = 0 \<or> arg2 args = 0 then (Err InvalidAddress, fds)
      else if arg2 args > 65536 then (Err (InvalidParameter ''sendto: too large''), fds)
      else (Ok (arg2 args), fds))"

definition sys_recvfrom :: syscall_handler where
  "sys_recvfrom args caller fds =
     (if arg0 args < 3 then (Err (InvalidParameter ''invalid fd''), fds)
      else if arg1 args = 0 \<or> arg2 args = 0 then (Err InvalidAddress, fds)
      else (Ok 0, fds))"

definition sys_listen :: syscall_handler where
  "sys_listen args caller fds =
     (if arg0 args < 3 then (Err (InvalidParameter ''invalid fd''), fds) else (Ok 0, fds))"

definition sys_accept :: syscall_handler where
  "sys_accept args caller fds =
     (if arg0 args < 3 then (Err (InvalidParameter ''invalid fd''), fds)
      else (Ok (accept_next_fd fds), fds\<lparr>accept_next_fd := accept_next_fd fds + 1\<rparr>))"

definition builtin_handlers :: "(SyscallNumber \<times> syscall_handler) list" where
  "builtin_handlers = [
     (SysExit, sys_exit), (SysGetPid, sys_getpid), (SysSleep, sys_sleep), (SysGetTime, sys_gettime),
     (SysWrite, sys_write), (SysRead, sys_read), (SysMmap, sys_mmap), (SysMunmap, sys_munmap),
     (SysSocket, sys_socket), (SysBind, sys_bind), (SysConnect, sys_connect), (SysSendTo, sys_sendto),
     (SysRecvFrom, sys_recvfrom), (SysListen, sys_listen), (SysAccept, sys_accept)]"

definition init_syscalls :: "SyscallDispatcher \<Rightarrow> SyscallDispatcher" where
  "init_syscalls = fold (\<lambda>(n, h). sys_register n h) builtin_handlers"

section \<open>Dispatch\<close>

lemma syscall_number_less: "syscall_number n < 77"
  by (cases n) simp_all

lemma from_u64_number: "from_u64 (of_nat (syscall_number n)) = Some n"
  by (cases n) (simp_all add: from_u64_def)

lemma from_u64_iff: "from_u64 w = Some n \<longleftrightarrow> unat w = syscall_number n"
proof
  assume "from_u64 w = Some n"
  then show "unat w = syscall_number n" by (auto simp: from_u64_def split: if_splits)
next
  assume "unat w = syscall_number n"
  then have "w = of_nat (syscall_number n)" by (simp flip: \<open>unat w = syscall_number n\<close>)
  then show "from_u64 w = Some n" by (simp add: from_u64_number)
qed

lemma init_syscalls_handler: "sd_handlers (init_syscalls dispatcher_new) ! syscall_number n = map_of builtin_handlers n"
  by (cases n) (simp_all add: init_syscalls_def builtin_handlers_def sys_register_def dispatcher_new_def)

text \<open>The answer to a call: of its handler, or the error of an unknown or unimplemented number.\<close>

definition answer :: "ExceptionContext \<Rightarrow> TaskId \<Rightarrow> fd_counters \<Rightarrow> SyscallResult \<times> fd_counters" where
  "answer ctx caller fds =
     (case from_u64 (ec_x ctx ! 8) of
        None \<Rightarrow> (Err (InvalidParameter ''Invalid syscall number''), fds)
      | Some n \<Rightarrow>
          (case map_of builtin_handlers n of
             Some h \<Rightarrow> h (args_from_context ctx) caller fds
           | None \<Rightarrow> (Err NotImplemented, fds)))"

definition served :: "ExceptionContext \<Rightarrow> bool" where
  "served ctx \<longleftrightarrow> (\<exists>n \<in> fst ` set builtin_handlers. unat (ec_x ctx ! 8) = syscall_number n)"

lemma served_iff: "served ctx \<longleftrightarrow> (\<exists>n h. from_u64 (ec_x ctx ! 8) = Some n \<and> map_of builtin_handlers n = Some h)"
proof -
  have "n \<in> fst ` set builtin_handlers \<longleftrightarrow> (\<exists>h. map_of builtin_handlers n = Some h)" for n
    by (metis map_of_eq_None_iff not_Some_eq)
  then show ?thesis unfolding served_def from_u64_iff by metis
qed

lemma dispatch_answer:
  assumes "sd_handlers d = sd_handlers (init_syscalls dispatcher_new)"
  shows "dispatch ctx caller d fds = (fst (answer ctx caller fds),
    d\<lparr>total_syscalls := total_syscalls d + 1,
      invalid_syscalls := invalid_syscalls d + (if served ctx then 0 else 1)\<rparr>, snd (answer ctx caller fds))"
proof (cases "from_u64 (ec_x ctx ! 8)")
  case None
  then have "\<not> served ctx" by (simp add: served_iff)
  with None show ?thesis by (simp add: dispatch_def answer_def count_invalid_def Let_def)
next
  case (Some n)
  then have "unat (ec_x ctx ! 8) < 77" using syscall_number_less [of n] by (simp add: from_u64_iff)
  then have g: "\<not> ec_x ctx ! 8 > 76" by (simp add: word_less_nat_alt)
  have h: "sd_handlers d ! syscall_number n = map_of builtin_handlers n"
    using assms init_syscalls_handler by simp
  show ?thesis
  proof (cases "map_of builtin_handlers n")
    case None
    then have "\<not> served ctx" using Some by (simp add: served_iff)
    with None Some g h syscall_number_less [of n] show ?thesis
      by (simp add: dispatch_def answer_def count_invalid_def Let_def)
  next
    case (Some h')
    then have "served ctx" using \<open>from_u64 (ec_x ctx ! 8) = Some n\<close> by (simp add: served_iff)
    with Some g h syscall_number_less [of n] \<open>from_u64 (ec_x ctx ! 8) = Some n\<close> show ?thesis
      by (simp add: dispatch_def answer_def Let_def split: prod.splits)
  qed
qed

text \<open>A sequence of calls from the start, and the answers it should get.\<close>

fun run_calls ::
  "(ExceptionContext \<times> TaskId) list \<Rightarrow> SyscallDispatcher \<Rightarrow> fd_counters \<Rightarrow>
   SyscallResult list \<times> SyscallDispatcher \<times> fd_counters" where
  "run_calls [] d fds = ([], d, fds)"
| "run_calls ((ctx, caller) # calls) d fds =
     (case dispatch ctx caller d fds of (r, d1, fds1) \<Rightarrow>
        (case run_calls calls d1 fds1 of (rs, d2, fds2) \<Rightarrow> (r # rs, d2, fds2)))"

fun answers :: "(ExceptionContext \<times> TaskId) list \<Rightarrow> fd_counters \<Rightarrow> SyscallResult list \<times> fd_counters" where
  "answers [] fds = ([], fds)"
| "answers ((ctx, caller) # calls) fds =
     (case answer ctx caller fds of (r, fds1) \<Rightarrow>
        (case answers calls fds1 of (rs, fds2) \<Rightarrow> (r # rs, fds2)))"

lemma run_calls_answers:
  assumes "sd_handlers d = sd_handlers (init_syscalls dispatcher_new)"
  shows "run_calls calls d fds = (fst (answers calls fds),
    d\<lparr>total_syscalls := total_syscalls d + of_nat (length calls),
      invalid_syscalls := invalid_syscalls d + of_nat (length (filter (\<lambda>c. \<not> served (fst c)) calls))\<rparr>,
    snd (answers calls fds))"
  using assms
proof (induction calls arbitrary: d fds)
  case (Cons c calls)
  obtain ctx caller where c: "c = (ctx, caller)" by (cases c)
  define d1 where "d1 = d\<lparr>total_syscalls := total_syscalls d + 1,
      invalid_syscalls := invalid_syscalls d + (if served ctx then 0 else 1)\<rparr>"
  have d1: "sd_handlers d1 = sd_handlers (init_syscalls dispatcher_new)" using Cons.prems by (simp add: d1_def)
  show ?case
    using Cons.IH [OF d1] dispatch_answer [OF Cons.prems, of ctx caller fds]
    by (auto simp: c d1_def algebra_simps split: prod.splits)
qed simp

text \<open>
  From the initialised dispatcher on, every sequence of calls gets exactly the answers of the
  handlers of the 15 implemented numbers, \<open>NotImplemented\<close> for the other 21 numbers of the enum
  and an invalid-parameter error for every other value of \<open>x8\<close>; the two statistics count
  the calls and the calls without a handler.
\<close>

theorem syscall_dispatch:
  "let (rs, d, fds) = run_calls calls (init_syscalls dispatcher_new) fds_init in
     (rs, fds) = answers calls fds_init \<and>
     total_syscalls d = of_nat (length calls) \<and>
     invalid_syscalls d = of_nat (length (filter (\<lambda>c. \<not> served (fst c)) calls))"
proof -
  have "total_syscalls (init_syscalls dispatcher_new) = 0" "invalid_syscalls (init_syscalls dispatcher_new) = 0"
    by (simp_all add: init_syscalls_def builtin_handlers_def sys_register_def dispatcher_new_def Let_def)
  then show ?thesis using run_calls_answers [OF refl, of calls fds_init] by simp
qed

section \<open>User memory\<close>

lemma buffer_end:
  "unat (buf :: u64) + unat len < 2 ^ 64 \<Longrightarrow> buf + len > USER_SPACE_END \<longleftrightarrow> unat buf + unat len \<ge> 2 ^ 48"
  by (simp add: USER_SPACE_END_def word_less_nat_alt unat_word_ariths(1)) arith

text \<open>
  C25 (safety). Reads and writes are accepted exactly for empty buffers and for non-null buffers that end inside
  the user half of the address space; \<open>sendto\<close> and \<open>recvfrom\<close> accept every non-null address,
  kernel addresses included. All anonymous mappings of a task start at the same address, so that
  a second one aliases the first; the mappings of two tasks with small identifiers are disjoint.
\<close>

theorem syscall_user_memory:
  "(is_ok (fst (sys_write args caller fds)) \<longleftrightarrow>
      arg2 args = 0 \<or> arg1 args \<noteq> 0 \<and> unat (arg1 args) + unat (arg2 args) < 2 ^ 48) \<and>
   fst (sys_read args caller fds) = fst (sys_write args caller fds) \<and>
   (3 \<le> arg0 args \<and> arg1 args \<noteq> 0 \<and> 0 < arg2 args \<and> arg2 args \<le> 65536 \<longrightarrow>
      is_ok (fst (sys_sendto args caller fds)) \<and> is_ok (fst (sys_recvfrom args caller fds))) \<and>
   (fst (sys_mmap args a fds) = Ok p \<and> fst (sys_mmap args2 a fds2) = Ok q \<longrightarrow> p = q) \<and>
   (fst (sys_mmap args a fds) = Ok p \<and> fst (sys_mmap args2 b fds2) = Ok q \<and> a < b \<and>
      task_id_as_u64 b < 0x800000000 \<longrightarrow> unat p + unat (arg1 args) \<le> unat q)"
proof -
  have "is_ok (fst (sys_write args caller fds)) \<longleftrightarrow>
      arg2 args = 0 \<or> arg1 args \<noteq> 0 \<and> unat (arg1 args) + unat (arg2 args) < 2 ^ 48"
  proof (cases "arg2 args = 0")
    case True
    then show ?thesis by (simp add: sys_write_def)
  next
    case False
    then have pos: "0 < arg2 args" "0 < unat (arg2 args)" by (simp_all add: word_gt_0 unat_gt_0)
    show ?thesis
    proof (cases "unat (arg1 args) + unat (arg2 args) < 2 ^ 64")
      case True
      have "arg1 args > USER_SPACE_END \<Longrightarrow> unat (arg1 args) + unat (arg2 args) \<ge> 2 ^ 48"
        using pos by (simp add: USER_SPACE_END_def word_less_nat_alt)
      with True pos False buffer_end [OF True] show ?thesis by (auto simp: sys_write_def Let_def)
    next
      case False
      with pos show ?thesis by (auto simp: sys_write_def Let_def)
    qed
  qed
  moreover have "fst (sys_read args caller fds) = fst (sys_write args caller fds)"
    by (simp add: sys_read_def sys_write_def)
  moreover have "is_ok (fst (sys_sendto args caller fds)) \<and> is_ok (fst (sys_recvfrom args caller fds))"
    if "3 \<le> arg0 args" "arg1 args \<noteq> 0" "0 < arg2 args" "arg2 args \<le> 65536"
    using that by (auto simp: sys_sendto_def sys_recvfrom_def)
  moreover have "p = q" if "fst (sys_mmap args a fds) = Ok p" "fst (sys_mmap args2 a fds2) = Ok q"
    using that by (auto simp: sys_mmap_def Let_def split: if_splits)
  moreover have "unat p + unat (arg1 args) \<le> unat q"
    if "fst (sys_mmap args a fds) = Ok p" "fst (sys_mmap args2 b fds2) = Ok q" "a < b" "task_id_as_u64 b < 0x800000000"
  proof -
    have base: "unat (0x40000000 + i * 0x10000000 :: u64) = 0x40000000 + unat i * 0x10000000"
      if "i < 0x800000000" for i :: u64
      using that by (simp add: word_less_nat_alt unat_word_ariths)
    have ab: "unat (task_id_as_u64 a) < unat (task_id_as_u64 b)"
      using that(3) by (simp add: less_TaskId_def word_less_nat_alt)
    have p: "p = 0x40000000 + task_id_as_u64 a * 0x10000000" "unat (arg1 args) \<le> 0x10000000"
      using that(1) by (auto simp: sys_mmap_def Let_def word_less_nat_alt split: if_splits)
    have q: "q = 0x40000000 + task_id_as_u64 b * 0x10000000"
      using that(2) by (auto simp: sys_mmap_def Let_def split: if_splits)
    have "task_id_as_u64 a < 0x800000000" using that(3,4) by (auto simp: less_TaskId_def)
    then show ?thesis using p(2) ab unfolding p(1) q base [OF that(4)] by (subst base) auto
  qed
  ultimately show ?thesis by blast
qed

text \<open>Tasks 1 and 2 map a page each; a send from the last address of the kernel is accepted.\<close>

theorem syscall_user_memory_witness:
  "\<exists>args fds p q. fst (sys_mmap args (TaskId 1) fds) = Ok p \<and> fst (sys_mmap args (TaskId 2) fds) = Ok q \<and>
     unat p + 4096 \<le> unat q \<and> is_ok (fst (sys_sendto (args\<lparr>arg1 := -1, arg0 := 3, arg2 := 9\<rparr>) (TaskId 1) fds))"
proof -
  define args where "args = \<lparr>arg0 = 0, arg1 = 4096, arg2 = 0, arg3 = 0x20, arg4 = 0, arg5 = 0\<rparr>"
  have "fst (sys_mmap args (TaskId 1) fds_init) = Ok 0x50000000" "fst (sys_mmap args (TaskId 2) fds_init) = Ok 0x60000000"
    by (simp_all add: sys_mmap_def args_def)
  moreover have "unat (0x50000000 :: u64) + 4096 \<le> unat (0x60000000 :: u64)"
    using syscall_user_memory [where args = args and a = "TaskId 1" and fds = fds_init and p = "0x50000000" and ?args2.0 = args
        and ?fds2.0 = fds_init and q = "0x60000000" and b = "TaskId 2"]
      calculation by (simp add: args_def less_TaskId_def)
  moreover have "is_ok (fst (sys_sendto (args\<lparr>arg1 := -1, arg0 := 3, arg2 := 9\<rparr>) (TaskId 1) fds_init))"
    using syscall_user_memory [where args = "args\<lparr>arg1 := -1, arg0 := 3, arg2 := 9\<rparr>" and caller = "TaskId 1" and fds = fds_init]
    by simp
  ultimately show ?thesis by blast
qed

text \<open>Sockets and accepted connections count from 3 and from 100: the 98th socket has the first accepted descriptor.\<close>

lemma socket_fd_collides:
  assumes "is_ok (fst (sys_socket args caller fds))" "socket_next_fd fds = 100" "3 \<le> arg0 args2"
  shows "fst (sys_socket args caller fds) = fst (sys_accept args2 caller2 fds_init)"
  using assms by (auto simp: sys_socket_def sys_accept_def fds_init_def Let_def split: if_splits)

end
