(* ===== verification/SkBuff.thy ===== *)
theory SkBuff
  imports Interfaces Bytes
begin

text \<open>
  Socket buffers, \<open>kernel/src/net/skbuff.rs\<close>. The data buffers live in an explicit
  heap, so that sharing and release are visible; a slice into a buffer is its offset and length.
\<close>

section \<open>Buffers\<close>

definition MAX_SKB_SIZE :: usize where "MAX_SKB_SIZE = 65536"
definition SKB_CB_SIZE :: usize where "SKB_CB_SIZE = 48"
definition SKB_STRUCT_SIZE :: usize where "SKB_STRUCT_SIZE = 240"
definition SKB_SHARED_INFO_SIZE :: usize where "SKB_SHARED_INFO_SIZE = 320"

datatype SkBuffError = AllocFailed | SkbTooLarge | SkbOverflow | SkbUnderflow | SkbInvalid

datatype ChecksumType = ChecksumNone | ChecksumUnnecessary | ChecksumComplete | ChecksumPartial

datatype PacketType = Host | Otherhost | Broadcast | Multicast | Loopback | Outgoing

datatype CloneStatus = CloneUnavailable | CloneOrig | CloneClone

datatype TimestampType = Realtime | Monotonic | Tai

text \<open>Pointers are the numbers of what they point to; \<open>SKB_STRUCT_SIZE\<close> is the size of the C layout of the struct.\<close>

record SkBuff =
  sb_next :: "nat option"
  sb_prev :: "nat option"
  sb_dev :: "nat option"
  sb_sk :: "nat option"
  sb_tstamp :: u64
  sb_tstamp_type :: TimestampType
  sb_cb :: "u8 list"
  sb_len :: u32
  sb_data_len :: u32
  sb_mac_len :: u16
  sb_hdr_len :: u16
  sb_csum :: u32
  sb_ip_summed :: ChecksumType
  sb_csum_start :: u16
  sb_csum_offset :: u16
  sb_csum_level :: u8
  sb_csum_not_inet :: bool
  sb_csum_complete_sw :: bool
  sb_csum_valid :: bool
  sb_priority :: u32
  sb_queue_mapping :: u16
  sb_tc_index :: u16
  sb_hash :: u32
  sb_l4_hash :: bool
  sb_sw_hash :: bool
  sb_pkt_type :: PacketType
  sb_protocol :: u16
  sb_inner_protocol :: u16
  sb_cloned :: CloneStatus
  sb_ignore_df :: bool
  sb_nohdr :: bool
  sb_peeked :: bool
  sb_head_frag :: bool
  sb_pfmemalloc :: bool
  sb_pp_recycle :: bool
  sb_ooo_okay :: bool
  sb_no_fcs :: bool
  sb_encapsulation :: bool
  sb_encap_hdr_csum :: bool
  sb_remcsum_offload :: bool
  sb_offload_fwd_mark :: bool
  sb_offload_l3_fwd_mark :: bool
  sb_tc_skip_classify :: bool
  sb_tc_at_ingress :: bool
  sb_redirected :: bool
  sb_from_ingress :: bool
  sb_nf_skip_egress :: bool
  sb_nf_trace :: bool
  sb_ipvs_property :: bool
  sb_wifi_acked_valid :: bool
  sb_wifi_acked :: bool
  sb_dst_pending_confirm :: bool
  sb_decrypted :: bool
  sb_slow_gro :: bool
  sb_unreadable :: bool
  sb_vlan_proto :: u16
  sb_vlan_tci :: u16
  sb_transport_header :: u16
  sb_network_header :: u16
  sb_mac_header :: u16
  sb_inner_transport_header :: u16
  sb_inner_network_header :: u16
  sb_inner_mac_header :: u16
  sb_head :: nat
  sb_data :: u16
  sb_tail :: u16
  sb_end :: u16
  sb_truesize :: u32
  sb_users :: u32
  sb_destructor :: "nat option"
  sb_skb_iif :: u32
  sb_secmark :: u32
  sb_mark :: u32
  sb_napi_id :: u32
  sb_alloc_cpu :: u16

text \<open>The heap of data buffers: the next number and the live buffers.\<close>

record buffer_heap =
  bh_next :: nat
  bh_live :: "nat \<Rightarrow> u8 list option"

definition heap_empty :: buffer_heap where
  "heap_empty = \<lparr>bh_next = 0, bh_live = (\<lambda>_. None)\<rparr>"

definition skb_fresh :: "nat \<Rightarrow> usize \<Rightarrow> SkBuff" where
  "skb_fresh b n =
     \<lparr>sb_next = None, sb_prev = None, sb_dev = None, sb_sk = None, sb_tstamp = 0, sb_tstamp_type = Monotonic,
      sb_cb = replicate SKB_CB_SIZE 0, sb_len = 0, sb_data_len = 0, sb_mac_len = 0, sb_hdr_len = 0, sb_csum = 0,
      sb_ip_summed = ChecksumNone, sb_csum_start = 0, sb_csum_offset = 0, sb_csum_level = 0, sb_csum_not_inet = False,
      sb_csum_complete_sw = False, sb_csum_valid = False, sb_priority = 0, sb_queue_mapping = 0, sb_tc_index = 0,
      sb_hash = 0, sb_l4_hash = False, sb_sw_hash = False, sb_pkt_type = Host, sb_protocol = 0, sb_inner_protocol = 0,
      sb_cloned = CloneUnavailable, sb_ignore_df = False, sb_nohdr = False, sb_peeked = False, sb_head_frag = False,
      sb_pfmemalloc = False, sb_pp_recycle = False, sb_ooo_okay = False, sb_no_fcs = False, sb_encapsulation = False,
      sb_encap_hdr_csum = False, sb_remcsum_offload = False, sb_offload_fwd_mark = False,
      sb_offload_l3_fwd_mark = False, sb_tc_skip_classify = False, sb_tc_at_ingress = False, sb_redirected = False,
      sb_from_ingress = False, sb_nf_skip_egress = False, sb_nf_trace = False, sb_ipvs_property = False,
      sb_wifi_acked_valid = False, sb_wifi_acked = False, sb_dst_pending_confirm = False, sb_decrypted = False,
      sb_slow_gro = False, sb_unreadable = False, sb_vlan_proto = 0, sb_vlan_tci = 0, sb_transport_header = 0,
      sb_network_header = 0, sb_mac_header = 0, sb_inner_transport_header = 0, sb_inner_network_header = 0,
      sb_inner_mac_header = 0, sb_head = b, sb_data = 0, sb_tail = 0, sb_end = of_nat n,
      sb_truesize = of_nat (n + SKB_SHARED_INFO_SIZE + SKB_STRUCT_SIZE), sb_users = 1, sb_destructor = None,
      sb_skb_iif = 0, sb_secmark = 0, sb_mark = 0, sb_napi_id = 0, sb_alloc_cpu = 0\<rparr>"

definition skb_alloc :: "usize \<Rightarrow> buffer_heap \<Rightarrow> (SkBuffError, SkBuff) outcome \<times> buffer_heap" where
  "skb_alloc n h =
     (if n > MAX_SKB_SIZE then (Err SkbTooLarge, h)
      else if n > 65535 then (Err SkbTooLarge, h)
      else (Ok (skb_fresh (bh_next h) n),
            \<lparr>bh_next = bh_next h + 1,
             bh_live = (bh_live h)(bh_next h \<mapsto> replicate (n + SKB_SHARED_INFO_SIZE) 0)\<rparr>))"

text \<open>\<open>len as u16\<close> and \<open>len as u32\<close> truncate; the additions wrap.\<close>

definition skb_reserve :: "usize \<Rightarrow> SkBuff \<Rightarrow> SkBuff" where
  "skb_reserve n s = s\<lparr>sb_data := sb_data s + of_nat n, sb_tail := sb_tail s + of_nat n\<rparr>"

type_synonym buf_slice = "usize \<times> usize"

definition skb_put :: "usize \<Rightarrow> SkBuff \<Rightarrow> (SkBuffError, buf_slice) outcome \<times> SkBuff" where
  "skb_put n s =
     (let new_tail = sb_tail s + of_nat n
      in if new_tail > sb_end s then (Err SkbOverflow, s)
         else (Ok (unat (sb_tail s), n), s\<lparr>sb_tail := new_tail, sb_len := sb_len s + of_nat n\<rparr>))"

definition skb_pull :: "usize \<Rightarrow> SkBuff \<Rightarrow> (SkBuffError, unit) outcome \<times> SkBuff" where
  "skb_pull n s =
     (if n > unat (sb_len s) then (Err SkbUnderflow, s)
      else (Ok (), s\<lparr>sb_data := sb_data s + of_nat n, sb_len := sb_len s - of_nat n\<rparr>))"

definition skb_push :: "usize \<Rightarrow> SkBuff \<Rightarrow> (SkBuffError, buf_slice) outcome \<times> SkBuff" where
  "skb_push n s =
     (if n > unat (sb_data s) then (Err SkbUnderflow, s)
      else let s1 = s\<lparr>sb_data := sb_data s - of_nat n, sb_len := sb_len s + of_nat n\<rparr>
           in (Ok (unat (sb_data s1), n), s1))"

definition data_slice :: "SkBuff \<Rightarrow> buf_slice" where
  "data_slice s = (unat (sb_data s), unat (sb_len s))"

definition headroom :: "SkBuff \<Rightarrow> usize" where
  "headroom s = unat (sb_data s)"

definition tailroom :: "SkBuff \<Rightarrow> usize" where
  "tailroom s = unat (sb_end s - sb_tail s)"

text \<open>The clone and the original, whose count the clone's creation raises.\<close>

definition skb_clone :: "SkBuff \<Rightarrow> SkBuff \<times> SkBuff" where
  "skb_clone s =
     (s\<lparr>sb_next := None, sb_prev := None, sb_sk := None, sb_cloned := CloneClone, sb_nohdr := True,
        sb_pp_recycle := False, sb_users := 1, sb_destructor := None\<rparr>,
      s\<lparr>sb_users := sb_users s + 1\<rparr>)"

text \<open>
  Dropping a buffer runs its destructor, a parameter, and releases its data when its own count was one. Releasing data
  that is not live is undefined behaviour: \<open>None\<close>.
\<close>

type_synonym destructors = "nat \<Rightarrow> SkBuff \<times> buffer_heap \<Rightarrow> SkBuff \<times> buffer_heap"

definition skb_drop :: "destructors \<Rightarrow> SkBuff \<Rightarrow> buffer_heap \<Rightarrow> buffer_heap option" where
  "skb_drop run s h =
     (let (s1, h1) = (case sb_destructor s of Some d \<Rightarrow> run d (s, h) | None \<Rightarrow> (s, h))
      in if sb_users s1 = 1
         then if bh_live h1 (sb_head s1) = None then None
              else Some (h1\<lparr>bh_live := (bh_live h1)(sb_head s1 := None)\<rparr>)
         else Some h1)"

text \<open>Bytes written to and read from a live buffer.\<close>

definition write_slice :: "nat \<Rightarrow> usize \<Rightarrow> u8 list \<Rightarrow> buffer_heap \<Rightarrow> buffer_heap" where
  "write_slice b off bs h =
     (case bh_live h b of
        None \<Rightarrow> h
      | Some buf \<Rightarrow> h\<lparr>bh_live := (bh_live h)(b \<mapsto> take off buf @ bs @ drop (off + length bs) buf)\<rparr>)"

definition skb_bytes :: "SkBuff \<Rightarrow> buffer_heap \<Rightarrow> u8 list option" where
  "skb_bytes s h = map_option (\<lambda>buf. slice buf (unat (sb_data s)) (unat (sb_len s))) (bh_live h (sb_head s))"

section \<open>The window of a buffer\<close>

text \<open>The data lies between head and end, and \<open>len\<close> is its length.\<close>

definition skb_wf :: "SkBuff \<Rightarrow> bool" where
  "skb_wf s \<longleftrightarrow> sb_data s \<le> sb_tail s \<and> sb_tail s \<le> sb_end s \<and> unat (sb_len s) = unat (sb_tail s) - unat (sb_data s)"

lemma unat_of_nat16: "n < 65536 \<Longrightarrow> unat (of_nat n :: u16) = n"
  by (simp add: unsigned_of_nat take_bit_nat_eq_self)

lemma add16: "unat (a :: u16) + unat b < 65536 \<Longrightarrow> unat (a + b) = unat a + unat b"
  by (simp add: unat_word_ariths(1))

lemma sub16: "b \<le> a \<Longrightarrow> unat (a - b) = unat a - unat b" for a b :: u16
  by (simp add: unat_sub word_le_nat_alt)

lemma skb_alloc_wf: "skb_alloc n h = (Ok s, h1) \<Longrightarrow> skb_wf s \<and> headroom s = 0 \<and> tailroom s = n"
  by (auto simp: skb_alloc_def skb_fresh_def skb_wf_def headroom_def tailroom_def unat_of_nat16 split: if_splits)

datatype skb_op = Reserve usize | Put usize | Pull usize | Push usize

fun skb_exec :: "skb_op \<Rightarrow> SkBuff \<Rightarrow> (SkBuffError, buf_slice) outcome \<times> SkBuff" where
  "skb_exec (Reserve n) s = (Ok (unat (sb_tail s), 0), skb_reserve n s)"
| "skb_exec (Put n) s = skb_put n s"
| "skb_exec (Pull n) s = (case skb_pull n s of
     (Ok _, s1) \<Rightarrow> (Ok (unat (sb_data s), n), s1) | (Err e, s1) \<Rightarrow> (Err e, s1) | (Panic, s1) \<Rightarrow> (Panic, s1))"
| "skb_exec (Push n) s = skb_push n s"

text \<open>
  The calls a correct client makes: a reservation before any data, within the buffer, which is what the debug
  assertion and the contract of \<open>reserve\<close> ask for, and a put whose end is below 64 KiB.
\<close>

fun well_called :: "skb_op \<Rightarrow> SkBuff \<Rightarrow> bool" where
  "well_called (Reserve n) s \<longleftrightarrow> sb_len s = 0 \<and> n \<le> tailroom s"
| "well_called (Put n) s \<longleftrightarrow> unat (sb_tail s) + n < 65536"
| "well_called _ s \<longleftrightarrow> True"

text \<open>The abstract buffer: free space in front, data, free space behind.\<close>

type_synonym window = "usize \<times> usize \<times> usize"

definition window_of :: "SkBuff \<Rightarrow> window" where
  "window_of s = (headroom s, unat (sb_len s), tailroom s)"

fun window_op :: "skb_op \<Rightarrow> window \<Rightarrow> window option" where
  "window_op (Reserve n) (h, l, t) = Some (h + n, l, t - n)"
| "window_op (Put n) (h, l, t) = (if n \<le> t then Some (h, l + n, t - n) else None)"
| "window_op (Pull n) (h, l, t) = (if n \<le> l then Some (h + n, l - n, t) else None)"
| "window_op (Push n) (h, l, t) = (if n \<le> h then Some (h - n, l + n, t) else None)"

lemma put_window:
  assumes "skb_wf s" "unat (sb_tail s) + n < 65536"
  shows "skb_put n s = (if n \<le> tailroom s
    then (Ok (unat (sb_tail s), n), s\<lparr>sb_tail := sb_tail s + of_nat n, sb_len := sb_len s + of_nat n\<rparr>)
    else (Err SkbOverflow, s))"
    and "unat (sb_tail s + of_nat n) = unat (sb_tail s) + n"
    and "unat (sb_len s + of_nat n) = unat (sb_len s) + n"
proof -
  have n: "n < 65536" using assms(2) by simp
  show t: "unat (sb_tail s + of_nat n) = unat (sb_tail s) + n"
    using assms(2) by (simp add: add16 unat_of_nat16 [OF n])
  have "unat (sb_len s) + n < 2 ^ 32" using assms n by (simp add: skb_wf_def)
  then show "unat (sb_len s + of_nat n) = unat (sb_len s) + n"
    using n by (simp add: unat_word_ariths(1) of_nat32)
  have "tailroom s = unat (sb_end s) - unat (sb_tail s)" "unat (sb_tail s) \<le> unat (sb_end s)"
    using assms(1) by (simp_all add: tailroom_def sub16 skb_wf_def word_le_nat_alt)
  then show "skb_put n s = (if n \<le> tailroom s
    then (Ok (unat (sb_tail s), n), s\<lparr>sb_tail := sb_tail s + of_nat n, sb_len := sb_len s + of_nat n\<rparr>)
    else (Err SkbOverflow, s))"
    by (auto simp: skb_put_def Let_def word_less_nat_alt t)
qed

lemma wf_bounds:
  assumes "skb_wf s"
  shows "unat (sb_data s) + unat (sb_len s) = unat (sb_tail s)" "unat (sb_tail s) \<le> unat (sb_end s)"
    "tailroom s = unat (sb_end s) - unat (sb_tail s)"
  using assms by (simp_all add: tailroom_def sub16 skb_wf_def word_le_nat_alt)

lemma pull_window:
  assumes "skb_wf s" "n \<le> unat (sb_len s)"
  shows "unat (sb_data s + of_nat n) = unat (sb_data s) + n" "unat (sb_len s - of_nat n) = unat (sb_len s) - n"
proof -
  have n: "n < 65536" "unat (sb_data s) + n < 65536"
    using wf_bounds [OF assms(1)] assms(2) unat_u16_less [of "sb_end s"] by simp_all
  then show "unat (sb_data s + of_nat n) = unat (sb_data s) + n" by (simp add: add16 unat_of_nat16)
  have "of_nat n \<le> sb_len s" using assms(2) n(1) by (simp add: word_le_nat_alt of_nat32)
  then show "unat (sb_len s - of_nat n) = unat (sb_len s) - n" using n(1) by (simp add: sub32 of_nat32)
qed

lemma push_window:
  assumes "skb_wf s" "n \<le> unat (sb_data s)"
  shows "unat (sb_data s - of_nat n) = unat (sb_data s) - n" "unat (sb_len s + of_nat n) = unat (sb_len s) + n"
proof -
  have n: "n < 65536" "unat (sb_len s) + n < 2 ^ 32"
    using wf_bounds [OF assms(1)] assms(2) unat_u16_less [of "sb_end s"] by simp_all
  then show "unat (sb_len s + of_nat n) = unat (sb_len s) + n" by (simp add: unat_word_ariths(1) of_nat32)
  have "of_nat n \<le> sb_data s" using assms(2) n(1) by (simp add: word_le_nat_alt unat_of_nat16)
  then show "unat (sb_data s - of_nat n) = unat (sb_data s) - n" using n(1) by (simp add: sub16 unat_of_nat16)
qed

text \<open>
  C26 (refinement). Called as its contract asks, a buffer behaves as a window: headroom, data and tailroom of a
  constant total, moved by reserve, put, pull and push, refused exactly when the room or the data is too
  short, with every returned slice inside the buffer. But a put whose end passes 64 KiB is
  truncated to 16 bits: it is accepted whenever the truncated end is inside, and returns a slice
  that reaches past the end of the buffer.
\<close>

theorem skb_window:
  assumes "skb_wf s"
  shows "(well_called op s \<longrightarrow>
      (case window_op op (window_of s) of
         Some w \<Rightarrow> \<exists>off n s1. skb_exec op s = (Ok (off, n), s1) \<and> skb_wf s1 \<and> window_of s1 = w \<and>
           sb_end s1 = sb_end s \<and> sb_head s1 = sb_head s \<and> off + n \<le> unat (sb_end s)
       | None \<Rightarrow> \<exists>e. skb_exec op s = (Err e, s))) \<and>
    (65536 \<le> unat (sb_tail s) + n \<and> (unat (sb_tail s) + n) mod 65536 \<le> unat (sb_end s) \<longrightarrow>
      fst (skb_put n s) = Ok (unat (sb_tail s), n) \<and> unat (sb_tail s) + n > unat (sb_end s))"
proof (intro conjI impI)
  note B = wf_bounds [OF assms]
  assume w: "well_called op s"
  show "case window_op op (window_of s) of
      Some w \<Rightarrow> \<exists>off n s1. skb_exec op s = (Ok (off, n), s1) \<and> skb_wf s1 \<and> window_of s1 = w \<and>
        sb_end s1 = sb_end s \<and> sb_head s1 = sb_head s \<and> off + n \<le> unat (sb_end s)
    | None \<Rightarrow> \<exists>e. skb_exec op s = (Err e, s)"
  proof (cases op)
    case (Reserve n)
    have n: "sb_len s = 0" "n \<le> unat (sb_end s) - unat (sb_tail s)" using w B(3) by (simp_all add: Reserve)
    have "unat (sb_data s + of_nat n) = unat (sb_data s) + n" "unat (sb_tail s + of_nat n) = unat (sb_tail s) + n"
      using n B unat_u16_less [of "sb_end s"] by (simp_all add: add16 unat_of_nat16)
    then show ?thesis
      using n B by (simp add: Reserve window_of_def headroom_def tailroom_def skb_reserve_def skb_wf_def word_le_nat_alt sub16)
  next
    case (Put n)
    note P = put_window [OF assms, of n]
    show ?thesis
      using w P B by (auto simp: Put window_of_def headroom_def tailroom_def skb_wf_def word_le_nat_alt sub16)
  next
    case (Pull n)
    note P = pull_window [OF assms, of n]
    show ?thesis
      using P B by (auto simp: Pull skb_pull_def window_of_def headroom_def tailroom_def skb_wf_def word_le_nat_alt)
  next
    case (Push n)
    note P = push_window [OF assms, of n]
    show ?thesis
      using P B by (auto simp: Push skb_push_def Let_def window_of_def headroom_def tailroom_def skb_wf_def word_le_nat_alt)
  qed
next
  assume "65536 \<le> unat (sb_tail s) + n \<and> (unat (sb_tail s) + n) mod 65536 \<le> unat (sb_end s)"
  moreover from this have "unat (sb_tail s + of_nat n) \<le> unat (sb_end s)"
    by (simp add: unat_word_ariths(1) unsigned_of_nat take_bit_eq_mod mod_add_right_eq)
  ultimately show "fst (skb_put n s) = Ok (unat (sb_tail s), n)" "unat (sb_tail s) + n > unat (sb_end s)"
    using unat_u16_less [of "sb_end s"] by (auto simp: skb_put_def Let_def word_less_nat_alt)
qed

definition skb_example :: SkBuff where
  "skb_example = (skb_fresh 0 64)\<lparr>sb_data := 28, sb_tail := 28\<rparr>"

lemma skb_example_fields [simp]:
  "sb_head skb_example = 0" "sb_data skb_example = 28" "sb_tail skb_example = 28" "sb_end skb_example = 64"
  "sb_len skb_example = 0" "sb_users skb_example = 1" "sb_destructor skb_example = None"
  by (simp_all add: skb_example_def skb_fresh_def)

theorem skb_window_witness:
  "(\<exists>off n s1. skb_exec (Put 32) skb_example = (Ok (off, n), s1) \<and> window_of s1 = (28, 32, 4)) \<and>
   fst (skb_put 65530 skb_example) = Ok (28, 65530)"
proof -
  have "skb_wf skb_example" by (simp add: skb_wf_def)
  moreover have "window_of skb_example = (28, 0, 36)" "unat (sb_tail skb_example) = 28" "unat (sb_end skb_example) = 64"
    by (simp_all add: window_of_def headroom_def tailroom_def)
  ultimately show ?thesis
    using skb_window [of skb_example "Put 32" 65530] by auto
qed

section \<open>Sharing\<close>

text \<open>
  The reference count does not protect the shared data: a clone starts with a count of its own.
  Dropping a clone releases the data under the original, dropping two clones of one buffer releases
  it twice, and the original, whose count stays above one, never releases it.
\<close>

theorem skb_clone_breaks_sharing:
  assumes "sb_users s = 1" "sb_destructor s = None" "bh_live h (sb_head s) = Some buf"
  shows "let (c1, s1) = skb_clone s; (c2, s2) = skb_clone s1 in
    (\<exists>h1. skb_drop run c1 h = Some h1 \<and> skb_bytes s1 h1 = None \<and> skb_drop run c2 h1 = None \<and> skb_drop run s2 h1 = Some h1) \<and>
    skb_drop run s1 h = Some h"
  using assms by (simp add: skb_clone_def skb_drop_def skb_bytes_def)

theorem skb_clone_breaks_sharing_witness:
  "let (c1, s1) = skb_clone skb_example; h = \<lparr>bh_next = 1, bh_live = [0 \<mapsto> [1, 2]]\<rparr>; run = (\<lambda>_. id) in
    \<exists>h1. skb_drop run c1 h = Some h1 \<and> skb_bytes s1 h1 = None"
  using skb_clone_breaks_sharing [of skb_example "\<lparr>bh_next = 1, bh_live = [0 \<mapsto> [1, 2]]\<rparr>" "[1, 2]" "\<lambda>_. id"]
  by (auto simp: Let_def split: prod.splits)

end
