(* ===== verification/Ipv4.thy ===== *)
theory Ipv4
  imports SkBuff
begin

text \<open>
  IPv4, \<open>kernel/src/net/ipv4/mod.rs\<close>: the header and its checksum, input, output, ping and the address
  utilities. The packed header is the list of its bytes on the wire, so that the byte swaps of
  \<open>to_be\<close> and \<open>from_be\<close> on a little-endian machine are the big-endian reading of those bytes. The
  device's transmit function is a parameter.
\<close>

section \<open>The header\<close>

definition IPVERSION :: u8 where "IPVERSION = 4"
definition IPDEFTTL :: u8 where "IPDEFTTL = 64"
definition MIN_IP_HEADER_LEN :: usize where "MIN_IP_HEADER_LEN = 20"
definition MAX_IP_HEADER_LEN :: usize where "MAX_IP_HEADER_LEN = 60"
definition IPPROTO_ICMP :: u8 where "IPPROTO_ICMP = 1"
definition IPPROTO_TCP :: u8 where "IPPROTO_TCP = 6"
definition IPPROTO_UDP :: u8 where "IPPROTO_UDP = 17"
definition IP_DF :: u16 where "IP_DF = 0x4000"
definition IP_MF :: u16 where "IP_MF = 0x2000"
definition IP_OFFSET :: u16 where "IP_OFFSET = 0x1FFF"

lemmas ip_consts = IPVERSION_def IPDEFTTL_def MIN_IP_HEADER_LEN_def MAX_IP_HEADER_LEN_def
  IPPROTO_ICMP_def IPPROTO_TCP_def IPPROTO_UDP_def IP_DF_def IP_MF_def IP_OFFSET_def

datatype IpError =
    IpTooShort | IpBadVersion | IpBadHeaderLen | IpBadChecksum | IpBadLength | IpTtlExpired
  | IpUnknownProtocol | IpFragmentationNotSupported | IpNoSpace | IpAllocFailed
  | IpDeviceNotFound | IpTransmitFailed

record IpHeader =
  version_ihl :: u8
  tos :: u8
  ip_tot_len :: u16
  ip_id :: u16
  ip_frag_off :: u16
  ip_ttl :: u8
  ip_protocol :: u8
  ip_check :: u16
  ip_saddr :: u32
  ip_daddr :: u32

text \<open>
  The fields hold the values in the machine's order, after \<open>from_be\<close>. The header at the start of
  a packet, and the bytes of a header.
\<close>

definition read_header :: "u8 list \<Rightarrow> IpHeader" where
  "read_header bs = \<lparr>version_ihl = bs ! 0, tos = bs ! 1, ip_tot_len = of_nat (be_nat (slice bs 2 2)),
     ip_id = of_nat (be_nat (slice bs 4 2)), ip_frag_off = of_nat (be_nat (slice bs 6 2)), ip_ttl = bs ! 8,
     ip_protocol = bs ! 9, ip_check = of_nat (be_nat (slice bs 10 2)),
     ip_saddr = of_nat (be_nat (slice bs 12 4)), ip_daddr = of_nat (be_nat (slice bs 16 4))\<rparr>"

definition header_bytes :: "IpHeader \<Rightarrow> u8 list" where
  "header_bytes h = [version_ihl h, tos h] @ to_be 2 (unat (ip_tot_len h)) @ to_be 2 (unat (ip_id h)) @
     to_be 2 (unat (ip_frag_off h)) @ [ip_ttl h, ip_protocol h] @ to_be 2 (unat (ip_check h)) @
     to_be 4 (unat (ip_saddr h)) @ to_be 4 (unat (ip_daddr h))"

definition ip_header_new :: "u32 \<Rightarrow> u32 \<Rightarrow> u8 \<Rightarrow> u16 \<Rightarrow> IpHeader" where
  "ip_header_new saddr daddr protocol tot_len =
     \<lparr>version_ihl = push_bit 4 IPVERSION OR 5, tos = 0, ip_tot_len = tot_len, ip_id = 0, ip_frag_off = 0,
      ip_ttl = IPDEFTTL, ip_protocol = protocol, ip_check = 0, ip_saddr = saddr, ip_daddr = daddr\<rparr>"

definition ip_version :: "IpHeader \<Rightarrow> u8" where
  "ip_version h = drop_bit 4 (version_ihl h)"

definition ihl :: "IpHeader \<Rightarrow> usize" where
  "ihl h = unat (version_ihl h AND 0x0F) * 4"

definition is_df :: "IpHeader \<Rightarrow> bool" where "is_df h \<longleftrightarrow> ip_frag_off h AND IP_DF \<noteq> 0"
definition is_mf :: "IpHeader \<Rightarrow> bool" where "is_mf h \<longleftrightarrow> ip_frag_off h AND IP_MF \<noteq> 0"
definition fragment_offset :: "IpHeader \<Rightarrow> u16" where "fragment_offset h = (ip_frag_off h AND IP_OFFSET) * 8"

section \<open>The checksum\<close>

text \<open>The sum of the big-endian 16-bit words, and the folding of its carries.\<close>

definition be16_at :: "u8 list \<Rightarrow> usize \<Rightarrow> u16" where
  "be16_at bs off = of_nat (be_nat (slice bs off 2))"

definition sum_words :: "u8 list \<Rightarrow> usize \<Rightarrow> u32" where
  "sum_words bs count = fold (\<lambda>i sum. sum + ucast (be16_at bs (2 * i))) [0..<count] 0"

lemma unat_drop16: "unat (drop_bit 16 s) = unat s div 65536" for s :: u32
  by (simp add: drop_bit_eq_div unat_div)

lemma unat_and_ffff: "unat (s AND 0xFFFF) = unat s mod 65536" for s :: u32
proof -
  have "s AND 0xFFFF = take_bit 16 s" by (simp add: take_bit_eq_mask mask_eq_exp_minus_1)
  then show ?thesis by (simp add: take_bit_eq_mod unat_mod)
qed

lemma unat_ucast32: "unat (ucast w :: u32) = unat w" for w :: u16
  using unat_u16_less [of w] by (simp add: unsigned_ucast_eq take_bit_nat_eq_self)

lemma fold_carries_decreases:
  fixes sum :: u32
  assumes "drop_bit 16 sum \<noteq> 0"
  shows "unat ((sum AND 0xFFFF) + drop_bit 16 sum) < unat sum"
    and "unat ((sum AND 0xFFFF) + drop_bit 16 sum) = unat sum mod 65536 + unat sum div 65536"
proof -
  note a = unat_and_ffff [of sum]
  have d: "unat (drop_bit 16 sum) = unat sum div 65536"
    by (simp add: unat_drop16)
  have lt: "unat sum < 4294967296" using unsigned_less [of sum] by simp
  have "unat sum div 65536 < 65536" using lt by (simp add: less_mult_imp_div_less)
  then have s: "unat sum mod 65536 + unat sum div 65536 < 2 ^ 32"
    using mod_less_divisor [of 65536 "unat sum"] by simp
  then show e: "unat ((sum AND 0xFFFF) + drop_bit 16 sum) = unat sum mod 65536 + unat sum div 65536"
    by (simp add: add32 a d)
  have "unat sum div 65536 \<noteq> 0" using assms d by (metis unat_eq_0)
  moreover have "unat sum = unat sum div 65536 * 65536 + unat sum mod 65536" by simp
  ultimately show "unat ((sum AND 0xFFFF) + drop_bit 16 sum) < unat sum" unfolding e by linarith
qed

function fold_carries :: "u32 \<Rightarrow> u32" where
  "fold_carries s =
     (if drop_bit 16 s \<noteq> 0 then fold_carries ((s AND 0xFFFF) + drop_bit 16 s) else s)"
  by pat_completeness auto
termination
  by (relation "measure unat") (auto intro: fold_carries_decreases)

declare fold_carries.simps [simp del]

text \<open>\<open>calculate_checksum\<close> and \<open>verify_checksum\<close> read \<open>ihl\<close> bytes from the header on, whatever follows it.\<close>

definition calculate_checksum :: "u8 list \<Rightarrow> IpHeader \<Rightarrow> IpHeader" where
  "calculate_checksum rest h =
     (let h1 = h\<lparr>ip_check := 0\<rparr>;
          sum = fold_carries (sum_words (header_bytes h1 @ rest) (ihl h1 div 2))
      in h1\<lparr>ip_check := ucast (NOT sum)\<rparr>)"

definition verify_checksum :: "u8 list \<Rightarrow> bool" where
  "verify_checksum packet \<longleftrightarrow> fold_carries (sum_words packet (ihl (read_header packet) div 2)) = 0xFFFF"

section \<open>Input\<close>

text \<open>A packet is the bytes from the data pointer on; \<open>len\<close> is the length the buffer claims.\<close>

definition ip_defrag :: "(IpError, unit) outcome" where
  "ip_defrag = Err IpFragmentationNotSupported"

definition ip_local_deliver_finish :: "SkBuff \<Rightarrow> u8 list \<Rightarrow> (IpError, unit) outcome \<times> SkBuff" where
  "ip_local_deliver_finish skb packet =
     (let h = read_header packet;
          skb1 = snd (skb_pull (ihl h) skb)
      in if ip_protocol h = IPPROTO_ICMP then (Ok (), skb1)
         else if ip_protocol h = IPPROTO_TCP then (Ok (), skb1)
         else if ip_protocol h = IPPROTO_UDP then (Ok (), skb1)
         else (Err IpUnknownProtocol, skb1))"

definition ip_local_deliver :: "SkBuff \<Rightarrow> u8 list \<Rightarrow> (IpError, unit) outcome \<times> SkBuff" where
  "ip_local_deliver skb packet =
     (let h = read_header packet
      in if is_mf h \<or> fragment_offset h \<noteq> 0 then (ip_defrag, skb)
         else ip_local_deliver_finish skb packet)"

definition ip_rcv :: "SkBuff \<Rightarrow> u8 list \<Rightarrow> (IpError, unit) outcome \<times> SkBuff" where
  "ip_rcv skb packet =
     (if sb_len skb < of_nat MIN_IP_HEADER_LEN then (Err IpTooShort, skb)
      else let iph = read_header packet
      in if ip_version iph \<noteq> IPVERSION then (Err IpBadVersion, skb)
         else let len = ihl iph
         in if len < MIN_IP_HEADER_LEN \<or> len > MAX_IP_HEADER_LEN then (Err IpBadHeaderLen, skb)
            else if sb_len skb < of_nat len then (Err IpTooShort, skb)
            else if \<not> verify_checksum packet then (Err IpBadChecksum, skb)
            else let tot_len = (ucast (ip_tot_len iph) :: u32)
            in if tot_len < of_nat len \<or> sb_len skb < tot_len then (Err IpBadLength, skb)
               else if ip_ttl iph = 0 then (Err IpTtlExpired, skb)
               else ip_local_deliver skb packet)"

section \<open>Output\<close>

text \<open>
  The transmit function of the device: \<open>None\<close> when the device is gone, otherwise whether it took
  the buffer. The identification counter is an argument and a result.
\<close>

type_synonym transmit = "SkBuff \<Rightarrow> buffer_heap \<Rightarrow> bool option"

definition ip_select_ident :: "u16 \<Rightarrow> u16 \<times> u16" where
  "ip_select_ident ident = (ident, ident + 1)"

definition ip_output ::
  "transmit \<Rightarrow> SkBuff \<Rightarrow> buffer_heap \<Rightarrow> u32 \<Rightarrow> u32 \<Rightarrow> u8 \<Rightarrow> u16 \<Rightarrow>
   (IpError, unit) outcome \<times> SkBuff \<times> buffer_heap \<times> u16" where
  "ip_output xmit skb h saddr daddr protocol ident =
     (let payload_len = (ucast (sb_len skb) :: u16);
          tot_len = of_nat MIN_IP_HEADER_LEN + payload_len
      in case skb_push MIN_IP_HEADER_LEN skb of
           (Ok (off, n), skb1) \<Rightarrow>
             let (i, ident1) = ip_select_ident ident;
                 iph = calculate_checksum [] ((ip_header_new saddr daddr protocol tot_len)\<lparr>ip_id := i\<rparr>);
                 h1 = write_slice (sb_head skb1) off (header_bytes iph) h
             in (case xmit skb1 h1 of
                   None \<Rightarrow> (Err IpDeviceNotFound, skb1, h1, ident1)
                 | Some ok \<Rightarrow> (if ok then Ok () else Err IpTransmitFailed, skb1, h1, ident1))
         | (_, skb1) \<Rightarrow> (Err IpNoSpace, skb1, h, ident))"

definition ping ::
  "transmit \<Rightarrow> u32 \<Rightarrow> u32 \<Rightarrow> buffer_heap \<Rightarrow> u16 \<Rightarrow> (IpError, unit) outcome \<times> SkBuff option \<times> buffer_heap \<times> u16" where
  "ping xmit daddr saddr h ident =
     (case skb_alloc 64 h of
        (Ok skb0, h0) \<Rightarrow>
          (case skb_put 32 (skb_reserve (MIN_IP_HEADER_LEN + 8) skb0) of
             (Ok (off, n), skb1) \<Rightarrow>
               let h1 = write_slice (sb_head skb1) off (map of_nat [0..<n]) h0
               in (case ip_output xmit skb1 h1 saddr daddr IPPROTO_ICMP ident of
                     (r, skb2, h2, ident1) \<Rightarrow> (r, Some skb2, h2, ident1))
           | (_, skb1) \<Rightarrow> (Err IpNoSpace, Some skb1, h0, ident))
      | (_, h0) \<Rightarrow> (Err IpAllocFailed, None, h0, ident))"

section \<open>Addresses\<close>

text \<open>\<open>u8::from_str\<close>: an optional plus sign, at least one decimal digit, and a value that fits.\<close>

definition digit_val :: "char \<Rightarrow> nat option" where
  "digit_val c = (let n = of_char c :: nat in if 48 \<le> n \<and> n \<le> 57 then Some (n - 48) else None)"

fun digits_val :: "nat \<Rightarrow> string \<Rightarrow> nat option" where
  "digits_val acc [] = Some acc"
| "digits_val acc (c # cs) =
     (case digit_val c of
        Some d \<Rightarrow> if acc * 10 + d < 256 then digits_val (acc * 10 + d) cs else None
      | None \<Rightarrow> None)"

definition parse_u8 :: "string \<Rightarrow> u8 option" where
  "parse_u8 s =
     (let ds = (case s of c # cs \<Rightarrow> if c = CHR ''+'' \<and> cs \<noteq> [] then cs else s | [] \<Rightarrow> s)
      in if ds = [] then None else map_option of_nat (digits_val 0 ds))"

fun split_dots :: "string \<Rightarrow> string list" where
  "split_dots [] = [[]]"
| "split_dots (c # cs) =
     (if c = CHR ''.'' then [] # split_dots cs
      else case split_dots cs of p # ps \<Rightarrow> (c # p) # ps | [] \<Rightarrow> [[c]])"

fun octets :: "nat \<Rightarrow> string list \<Rightarrow> u32 \<Rightarrow> u32 option" where
  "octets i [] addr = Some addr"
| "octets i (p # ps) addr =
     (case parse_u8 p of
        Some octet \<Rightarrow> octets (i + 1) ps (addr OR push_bit (24 - i * 8) (ucast octet))
      | None \<Rightarrow> None)"

definition addr_from_str :: "string \<Rightarrow> u32 option" where
  "addr_from_str s =
     (let parts = split_dots s in if length parts \<noteq> 4 then None else octets 0 parts 0)"

definition show_u8 :: "nat \<Rightarrow> string" where
  "show_u8 n =
     (let d = (\<lambda>k. char_of (48 + k :: nat))
      in if n < 10 then [d n] else if n < 100 then [d (n div 10), d (n mod 10)]
         else [d (n div 100), d (n div 10 mod 10), d (n mod 10)])"

definition addr_to_string :: "u32 \<Rightarrow> string" where
  "addr_to_string addr =
     show_u8 (unat (drop_bit 24 addr AND 0xFF)) @ ''.'' @ show_u8 (unat (drop_bit 16 addr AND 0xFF)) @ ''.'' @
     show_u8 (unat (drop_bit 8 addr AND 0xFF)) @ ''.'' @ show_u8 (unat (addr AND 0xFF))"

definition is_loopback :: "u32 \<Rightarrow> bool" where
  "is_loopback addr \<longleftrightarrow> drop_bit 24 addr = 127"

definition is_private :: "u32 \<Rightarrow> bool" where
  "is_private addr \<longleftrightarrow>
     (let a = drop_bit 24 addr AND 0xFF; b = drop_bit 16 addr AND 0xFF
      in if a = 10 then True
         else if a = 172 \<and> b \<ge> 16 \<and> b \<le> 31 then True
         else if a = 192 \<and> b = 168 then True
         else False)"

definition is_multicast :: "u32 \<Rightarrow> bool" where
  "is_multicast addr \<longleftrightarrow> drop_bit 28 addr = 0xE"

definition is_broadcast :: "u32 \<Rightarrow> bool" where
  "is_broadcast addr \<longleftrightarrow> addr = 0xFFFFFFFF"

section \<open>The checksum is verified\<close>

lemma unat_fold_carries:
  "unat (fold_carries s) = (if s = 0 then 0 else (unat s - 1) mod 65535 + 1)"
proof (induction s rule: fold_carries.induct)
  case (1 s)
  show ?case
  proof (cases "drop_bit 16 s \<noteq> 0")
    case True
    let ?t = "(s AND 0xFFFF) + drop_bit 16 s"
    note D = fold_carries_decreases [OF True]
    define q r where "q = unat s div 65536" and "r = unat s mod 65536"
    have s: "unat s = q * 65536 + r" and t: "unat ?t = r + q" by (simp_all add: q_def r_def D(2))
    have q: "q > 0" using D s t by simp
    then have "s \<noteq> 0" "?t \<noteq> 0" using s t by (auto simp: unat_0_iff [symmetric])
    moreover have "(unat s - 1) mod 65535 = (unat ?t - 1) mod 65535"
    proof -
      have "unat s - 1 = (unat ?t - 1) + q * 65535" using q unfolding s t by simp
      then show ?thesis by simp
    qed
    ultimately show ?thesis using 1 [OF True] True by (simp add: fold_carries.simps [of s])
  next
    case False
    then have "unat (drop_bit 16 s) = 0" by simp
    then have "unat s < 65536" by (simp add: unat_drop16)
    moreover have "s \<noteq> 0 \<Longrightarrow> unat s > 0" by (simp add: unat_gt_0)
    ultimately show ?thesis using False by (auto simp: fold_carries.simps [of s])
  qed
qed

lemma unat_sum_words:
  "n \<le> 65536 \<Longrightarrow> unat (sum_words bs n) = (\<Sum>i<n. unat (be16_at bs (2 * i))) \<and> (\<Sum>i<n. unat (be16_at bs (2 * i))) \<le> n * 65535"
proof (induction n)
  case (Suc n)
  have w: "unat (be16_at bs (2 * n)) \<le> 65535" using unat_u16_less [of "be16_at bs (2 * n)"] by simp
  have IH: "unat (sum_words bs n) = (\<Sum>i<n. unat (be16_at bs (2 * i)))" "(\<Sum>i<n. unat (be16_at bs (2 * i))) \<le> n * 65535"
    using Suc by simp_all
  have "sum_words bs (Suc n) = sum_words bs n + ucast (be16_at bs (2 * n))" by (simp add: sum_words_def)
  moreover have "unat (sum_words bs n) + unat (ucast (be16_at bs (2 * n)) :: u32) < 2 ^ 32"
    using IH w Suc.prems by (simp add: unat_ucast32)
  ultimately have "unat (sum_words bs (Suc n)) = unat (sum_words bs n) + unat (be16_at bs (2 * n))"
    by (simp add: add32 unat_ucast32)
  then show ?case using IH w by simp
qed (simp add: sum_words_def)

lemma of_nat_be_to_be16: "of_nat (be_nat (to_be 2 (unat w))) = (w :: u16)"
  using unat_u16_less [of w] by (simp add: be_nat_to_be)

lemma of_nat_be_to_be32: "of_nat (be_nat (to_be 4 (unat w))) = (w :: u32)"
  using unat_u32_less [of w] by (simp add: be_nat_to_be)

lemma length_header_bytes [simp]: "length (header_bytes h) = 20"
  by (simp add: header_bytes_def)

lemma read_header_bytes: "read_header (header_bytes h @ rest) = h"
  by (cases h) (simp add: read_header_def header_bytes_def slice_def nth_append of_nat_be_to_be16 of_nat_be_to_be32)

text \<open>The checksum field is the sixth word; the others do not depend on it.\<close>

lemma check_word:
  "be16_at (header_bytes (h\<lparr>ip_check := c\<rparr>) @ rest) 10 = c"
  "i < 10 \<Longrightarrow> i \<noteq> 5 \<Longrightarrow>
    be16_at (header_bytes (h\<lparr>ip_check := c\<rparr>) @ rest) (2 * i) = be16_at (header_bytes (h\<lparr>ip_check := d\<rparr>) @ rest) (2 * i)"
proof -
  define A B where "A = [version_ihl h, tos h] @ to_be 2 (unat (ip_tot_len h)) @ to_be 2 (unat (ip_id h)) @
    to_be 2 (unat (ip_frag_off h)) @ [ip_ttl h, ip_protocol h]" and
    "B = to_be 4 (unat (ip_saddr h)) @ to_be 4 (unat (ip_daddr h)) @ rest"
  have lA: "length A = 10" by (simp add: A_def)
  have e: "header_bytes (h\<lparr>ip_check := x\<rparr>) @ rest = A @ to_be 2 (unat x) @ B" for x
    by (simp add: header_bytes_def A_def B_def)
  show "be16_at (header_bytes (h\<lparr>ip_check := c\<rparr>) @ rest) 10 = c"
    unfolding e be16_at_def by (simp add: slice_append2 lA slice_append1 of_nat_be_to_be16) (simp add: slice_def of_nat_be_to_be16)
  assume "i < 10" "i \<noteq> 5"
  then show "be16_at (header_bytes (h\<lparr>ip_check := c\<rparr>) @ rest) (2 * i) = be16_at (header_bytes (h\<lparr>ip_check := d\<rparr>) @ rest) (2 * i)"
    unfolding e be16_at_def by (cases "i < 5") (simp_all add: slice_append2 lA slice_append1)
qed

lemma sum_words_check:
  "unat (sum_words (header_bytes (h\<lparr>ip_check := c\<rparr>) @ rest) 10) =
   unat (sum_words (header_bytes (h\<lparr>ip_check := 0\<rparr>) @ rest) 10) + unat c"
proof -
  let ?f = "\<lambda>x i. unat (be16_at (header_bytes (h\<lparr>ip_check := x\<rparr>) @ rest) (2 * i))"
  have split: "(\<Sum>i<10. ?f x i) = unat x + (\<Sum>i\<in>{..<10} - {5}. ?f x i)" for x
    by (subst sum.remove [of _ 5]) (simp_all add: check_word)
  have "(\<Sum>i\<in>{..<10} - {5}. ?f c i) = (\<Sum>i\<in>{..<10} - {5}. ?f 0 i)"
    by (rule sum.cong) (auto intro: arg_cong [of _ _ unat] check_word(2))
  then show ?thesis by (simp add: unat_sum_words split)
qed

lemma unat_ucast_not: "unat s < 65536 \<Longrightarrow> unat (ucast (NOT s) :: u16) = 65535 - unat s" for s :: u32
proof -
  assume s: "unat s < 65536"
  have "NOT s = - 1 - s" by (simp add: not_eq_complement)
  then have "unat (NOT s) = unat (- 1 :: u32) - unat s" by (simp only: sub32 word_n1_ge)
  then have "unat (NOT s) = 4294967295 - unat s" by (simp add: unsigned_minus_1_eq_mask mask_eq_exp_minus_1)
  moreover have "unat (ucast (NOT s) :: u16) = unat (NOT s) mod 65536"
    by (simp add: unsigned_ucast_eq take_bit_eq_mod)
  ultimately have "unat (ucast (NOT s) :: u16) = (4294967295 - unat s) mod 65536" by simp
  moreover have "4294967295 - unat s = (65535 - unat s) + 65535 * 65536" using s by simp
  moreover have "(65535 - unat s + 65535 * 65536) mod 65536 = (65535 - unat s) mod 65536" by (rule mod_mult_self1)
  moreover have "(65535 - unat s) mod 65536 = 65535 - unat s" by simp
  ultimately show ?thesis by (simp only:)
qed

lemma calculate_verify:
  assumes "ihl h = 20"
  shows "verify_checksum (header_bytes (calculate_checksum rest h) @ rest)"
proof -
  let ?z = "sum_words (header_bytes (h\<lparr>ip_check := 0\<rparr>) @ rest) 10"
  let ?c = "ucast (NOT (fold_carries ?z)) :: u16"
  let ?s = "sum_words (header_bytes (h\<lparr>ip_check := ?c\<rparr>) @ rest) 10"
  have i: "ihl (h\<lparr>ip_check := x\<rparr>) = 20" for x using assms by (simp add: ihl_def)
  have F: "unat (fold_carries ?z) = (if ?z = 0 then 0 else (unat ?z - 1) mod 65535 + 1)"
    by (rule unat_fold_carries)
  moreover have "(unat ?z - 1) mod 65535 < 65535" by simp
  ultimately have "unat (fold_carries ?z) < 65536" by simp
  then have s: "unat ?s = unat ?z + (65535 - unat (fold_carries ?z))"
    by - (rule trans [OF sum_words_check], simp add: unat_ucast_not)
  have "unat (fold_carries ?s) = 65535"
  proof (cases "?z = 0")
    case True
    then have "unat ?s = 65535" using s F by simp
    then show ?thesis unfolding unat_fold_carries [of ?s] by auto
  next
    case False
    define q r where "q = (unat ?z - 1) div 65535" and "r = (unat ?z - 1) mod 65535"
    have "unat ?z > 0" using False by (simp add: unat_gt_0)
    then have u: "unat ?z = q * 65535 + r + 1" using div_mult_mod_eq [of "unat ?z - 1" 65535] by (simp add: q_def r_def)
    have "r < 65535" by (simp add: r_def)
    then have "unat ?s - 1 = q * 65535 + 65534" "unat ?s > 0"
      using s F False unfolding u r_def [symmetric] by auto
    then show ?thesis unfolding unat_fold_carries [of ?s] by (auto simp: unat_0_iff [symmetric])
  qed
  then have "fold_carries ?s = 0xFFFF" by (simp add: word_unat_eq_iff)
  then show ?thesis
    by (simp add: verify_checksum_def read_header_bytes calculate_checksum_def Let_def i)
qed

section \<open>A packet that is sent is accepted\<close>

text \<open>The header that \<open>ip_output\<close> writes, and the bytes of the buffer afterwards.\<close>

definition sent_header :: "u32 \<Rightarrow> u32 \<Rightarrow> u8 \<Rightarrow> u16 \<Rightarrow> u16 \<Rightarrow> IpHeader" where
  "sent_header saddr daddr protocol tot_len i =
     calculate_checksum [] ((ip_header_new saddr daddr protocol tot_len)\<lparr>ip_id := i\<rparr>)"

lemma sent_header_fields:
  "ip_version (sent_header s d p t i) = IPVERSION" "ihl (sent_header s d p t i) = 20"
  "ip_tot_len (sent_header s d p t i) = t" "ip_id (sent_header s d p t i) = i" "ip_ttl (sent_header s d p t i) = 64"
  "ip_protocol (sent_header s d p t i) = p" "ip_saddr (sent_header s d p t i) = s" "ip_daddr (sent_header s d p t i) = d"
  "\<not> is_mf (sent_header s d p t i)" "fragment_offset (sent_header s d p t i) = 0"
  by (simp_all add: sent_header_def calculate_checksum_def ip_header_new_def Let_def ip_version_def ihl_def is_mf_def
    fragment_offset_def ip_consts)

lemma sent_header_verifies: "verify_checksum (header_bytes (sent_header s d p t i) @ rest)"
proof -
  let ?h = "(ip_header_new s d p t)\<lparr>ip_id := i\<rparr>"
  have i: "ihl ?h = 20" "ihl (?h\<lparr>ip_check := 0\<rparr>) = 20" by (simp_all add: ihl_def ip_header_new_def IPVERSION_def)
  have "sum_words (header_bytes g @ rest) 10 = sum_words (header_bytes g @ []) 10" for g
    unfolding sum_words_def be16_at_def by (rule fold_cong) (simp_all add: slice_append1)
  then have "calculate_checksum rest ?h = calculate_checksum [] ?h"
    by (simp add: calculate_checksum_def Let_def i)
  then show ?thesis using calculate_verify [OF i(1), of rest] by (simp add: sent_header_def)
qed

definition known_protocol :: "u8 \<Rightarrow> bool" where
  "known_protocol p \<longleftrightarrow> p = IPPROTO_ICMP \<or> p = IPPROTO_TCP \<or> p = IPPROTO_UDP"

lemma ip_rcv_sent:
  assumes "skb_wf s" "unat (sb_len s) = 20 + length payload"
    and "packet = header_bytes (sent_header sa da p (of_nat (20 + length payload)) i) @ payload"
  shows "ip_rcv s packet = (if known_protocol p then Ok () else Err IpUnknownProtocol, snd (skb_pull 20 s))"
proof -
  have n: "20 + length payload < 65536"
    using wf_bounds [OF assms(1)] assms(2) unat_u16_less [of "sb_end s"] by simp
  then have t: "unat (ucast (of_nat (20 + length payload) :: u16) :: u32) = 20 + length payload"
    by (simp only: unat_ucast32 unat_of_nat16)
  have l: "\<not> sb_len s < of_nat 20" using assms(2) by (simp add: word_less_nat_alt)
  have r: "read_header packet = sent_header sa da p (of_nat (20 + length payload)) i"
    by (simp only: assms(3) read_header_bytes)
  have v: "verify_checksum packet" by (simp only: assms(3) sent_header_verifies)
  have b: "\<not> (ucast (of_nat (20 + length payload) :: u16) :: u32) < of_nat 20"
    "\<not> sb_len s < (ucast (of_nat (20 + length payload) :: u16) :: u32)"
    unfolding word_less_nat_alt t assms(2) by simp_all
  have d: "ip_local_deliver s packet = (if known_protocol p then Ok () else Err IpUnknownProtocol, snd (skb_pull 20 s))"
    by (simp add: ip_local_deliver_def ip_local_deliver_finish_def r sent_header_fields known_protocol_def Let_def)
  have m: "MIN_IP_HEADER_LEN = 20" "MAX_IP_HEADER_LEN = 60" by (simp_all add: ip_consts)
  have lt: "\<not> (20 < (20 :: nat) \<or> (60 :: nat) < 20)" "(64 :: u8) \<noteq> 0" by simp_all
  show ?thesis
    unfolding ip_rcv_def Let_def m r sent_header_fields
    by (simp only: l b lt v d not_True_eq_False if_False simp_thms)
qed

text \<open>
  C27 (roundtrip). Output followed by input. In a buffer with room for the header, the packet handed to the
  device is a header with the given addresses, protocol and the next identification, and the payload, whatever
  the device answers; input verifies its checksum and accepts it exactly when the protocol is
  ICMP, TCP or UDP, and leaves the payload as the data of the buffer. Without room, output fails and changes nothing.
\<close>

theorem ip_output_rcv:
  assumes "skb_wf skb" "bh_live h (sb_head skb) = Some buf" "unat (sb_end skb) \<le> length buf"
    and "skb_bytes skb h = Some payload"
  shows "(headroom skb \<ge> 20 \<longrightarrow> (\<exists>r skb1 h1 skb2 packet.
      ip_output xmit skb h saddr daddr protocol ident = (r, skb1, h1, ident + 1) \<and>
      r = (case xmit skb1 h1 of None \<Rightarrow> Err IpDeviceNotFound | Some ok \<Rightarrow> if ok then Ok () else Err IpTransmitFailed) \<and>
      skb_bytes skb1 h1 = Some packet \<and>
      ip_rcv skb1 packet = (if known_protocol protocol then Ok () else Err IpUnknownProtocol, skb2) \<and>
      skb_bytes skb2 h1 = Some payload \<and> ip_saddr (read_header packet) = saddr \<and>
      ip_daddr (read_header packet) = daddr \<and> ip_protocol (read_header packet) = protocol \<and>
      ip_id (read_header packet) = ident)) \<and>
    (headroom skb < 20 \<longrightarrow>
      ip_output xmit skb h saddr daddr protocol ident = (Err IpNoSpace, skb, h, ident))"
proof (intro conjI impI)
  note B = wf_bounds [OF assms(1)]
  assume room: "20 \<le> headroom skb"
  then have r20: "20 \<le> unat (sb_data skb)" by (simp add: headroom_def)
  note P = push_window [OF assms(1) r20]
  define skb1 where "skb1 = skb\<lparr>sb_data := sb_data skb - of_nat 20, sb_len := sb_len skb + of_nat 20\<rparr>"
  have push: "skb_push 20 skb = (Ok (unat (sb_data skb) - 20, 20), skb1)"
    using r20 P by (simp add: skb_push_def Let_def skb1_def)
  have wf1: "skb_wf skb1"
    using P B(1,2) r20 by (simp add: skb_wf_def skb1_def word_le_nat_alt) linarith
  have d1: "unat (sb_data skb1) = unat (sb_data skb) - 20" "unat (sb_len skb1) = unat (sb_len skb) + 20" "sb_head skb1 = sb_head skb"
    using P by (simp_all add: skb1_def)
  have pay: "payload = slice buf (unat (sb_data skb)) (unat (sb_len skb))" and lpay: "length payload = unat (sb_len skb)"
    using assms B by (auto simp: skb_bytes_def)
  define hd where "hd = sent_header saddr daddr protocol (of_nat (20 + length payload)) ident"
  define h1 where "h1 = write_slice (sb_head skb) (unat (sb_data skb) - 20) (header_bytes hd) h"
  define packet where "packet = header_bytes hd @ payload"
  define skb2 where "skb2 = snd (skb_pull 20 skb1)"
  have tl: "of_nat 20 + (ucast (sb_len skb) :: u16) = of_nat (20 + length payload)"
    by (simp add: lpay word_unat_eq_iff)
  have out: "ip_output xmit skb h saddr daddr protocol ident =
      (case xmit skb1 h1 of None \<Rightarrow> Err IpDeviceNotFound | Some ok \<Rightarrow> if ok then Ok () else Err IpTransmitFailed,
       skb1, h1, ident + 1)"
    using tl d1 by (simp add: ip_output_def MIN_IP_HEADER_LEN_def Let_def push ip_select_ident_def h1_def hd_def sent_header_def
      split: option.split)
  have live1: "bh_live h1 (sb_head skb) = Some (take (unat (sb_data skb) - 20) buf @ header_bytes hd @ drop (unat (sb_data skb)) buf)"
    using assms(2) r20 by (simp add: h1_def write_slice_def)
  have le: "unat (sb_data skb) - 20 \<le> length buf" using assms(3) B by simp
  have pk: "skb_bytes skb1 h1 = Some packet"
    using le r20 by (simp add: skb_bytes_def d1 live1 packet_def pay slice_def add.commute)
  have s2: "unat (sb_data skb2) = unat (sb_data skb)" "unat (sb_len skb2) = unat (sb_len skb)" "sb_head skb2 = sb_head skb"
    using pull_window [OF wf1, of 20] d1 r20 by (simp_all add: skb2_def skb_pull_def)
  have p2: "skb_bytes skb2 h1 = Some payload"
    using le r20 by (simp add: skb_bytes_def s2 live1 pay slice_def)
  have "ip_rcv skb1 packet = (if known_protocol protocol then Ok () else Err IpUnknownProtocol, skb2)"
    unfolding skb2_def by (rule ip_rcv_sent [OF wf1 _ packet_def [unfolded hd_def]]) (simp add: d1 lpay)
  with out pk p2 show "\<exists>r skb1 h1 skb2 packet.
      ip_output xmit skb h saddr daddr protocol ident = (r, skb1, h1, ident + 1) \<and>
      r = (case xmit skb1 h1 of None \<Rightarrow> Err IpDeviceNotFound | Some ok \<Rightarrow> if ok then Ok () else Err IpTransmitFailed) \<and>
      skb_bytes skb1 h1 = Some packet \<and>
      ip_rcv skb1 packet = (if known_protocol protocol then Ok () else Err IpUnknownProtocol, skb2) \<and>
      skb_bytes skb2 h1 = Some payload \<and> ip_saddr (read_header packet) = saddr \<and>
      ip_daddr (read_header packet) = daddr \<and> ip_protocol (read_header packet) = protocol \<and>
      ip_id (read_header packet) = ident"
    by (intro exI conjI) (assumption | simp add: packet_def hd_def read_header_bytes sent_header_fields)+
next
  assume "headroom skb < 20"
  then show "ip_output xmit skb h saddr daddr protocol ident = (Err IpNoSpace, skb, h, ident)"
    by (simp add: ip_output_def MIN_IP_HEADER_LEN_def skb_push_def headroom_def)
qed

definition sent_example :: SkBuff where
  "sent_example = skb_example\<lparr>sb_tail := 32, sb_len := 4\<rparr>"

definition sent_heap :: buffer_heap where
  "sent_heap = \<lparr>bh_next = 1, bh_live = [0 \<mapsto> replicate 28 0 @ [1, 2, 3, 4] @ replicate 32 0]\<rparr>"

theorem ip_output_rcv_witness:
  "\<exists>skb1 h1 skb2 packet. ip_output (\<lambda>_ _. Some True) sent_example sent_heap 0xC0A80001 0xC0A80002 17 7 = (Ok (), skb1, h1, 8) \<and>
     skb_bytes skb1 h1 = Some packet \<and> ip_rcv skb1 packet = (Ok (), skb2) \<and> skb_bytes skb2 h1 = Some [1, 2, 3, 4]"
proof -
  have "skb_wf sent_example" "bh_live sent_heap (sb_head sent_example) = Some (replicate 28 0 @ [1, 2, 3, 4] @ replicate 32 0)"
    "unat (sb_end sent_example) \<le> length (replicate 28 0 @ [1, 2, 3, 4 :: u8] @ replicate 32 0)"
    "skb_bytes sent_example sent_heap = Some [1, 2, 3, 4]" "headroom sent_example = 28" "known_protocol 17"
    by (simp_all add: skb_wf_def sent_example_def sent_heap_def skb_bytes_def slice_def headroom_def
      known_protocol_def IPPROTO_UDP_def)
  then show ?thesis
    using ip_output_rcv [where skb = sent_example and h = sent_heap and payload = "[1, 2, 3, 4]" and xmit = "\<lambda>_ _. Some True"
      and saddr = "0xC0A80001" and daddr = "0xC0A80002" and protocol = 17 and ident = 7]
    by auto
qed

section \<open>Addresses\<close>

lemma digit_char:
  assumes "d < 10"
  shows "digit_val (char_of (48 + d)) = Some d" "(char_of (48 + d) :: char) \<noteq> CHR ''.''" "(char_of (48 + d) :: char) \<noteq> CHR ''+''"
proof -
  have v: "of_char (char_of (48 + d) :: char) = 48 + d" using assms by (simp add: of_char_of)
  then show "digit_val (char_of (48 + d)) = Some d" using assms by (simp add: digit_val_def)
  have "of_char CHR ''.'' = (46 :: nat)" "of_char CHR ''+'' = (43 :: nat)" by simp_all
  then show "(char_of (48 + d) :: char) \<noteq> CHR ''.''" "(char_of (48 + d) :: char) \<noteq> CHR ''+''"
    using v by (auto dest!: arg_cong [where f = "of_char :: char \<Rightarrow> nat"] simp del: of_char_of)
qed

lemma show_u8_parses: 
  assumes "n < 256"
  shows "parse_u8 (show_u8 n) = Some (of_nat n)" "CHR ''.'' \<notin> set (show_u8 n)"
proof -
  have d: "n mod 10 < 10" "n div 10 mod 10 < 10" "n div 100 < 10" "n < 100 \<Longrightarrow> n div 10 < 10"
    using assms by simp_all
  have q: "n div 100 * 10 + n div 10 mod 10 = n div 10"
    using div_mult_mod_eq [of "n div 10" 10] by (simp add: div_mult2_eq [symmetric])
  have e: "(n div 100 * 10 + n div 10 mod 10) * 10 + n mod 10 = n" unfolding q by simp
  have k: "n div 100 * 10 + n div 10 mod 10 < 256" unfolding q using assms by simp
  show "CHR ''.'' \<notin> set (show_u8 n)"
    using d by (simp add: show_u8_def Let_def digit_char(2) [THEN not_sym])
  show "parse_u8 (show_u8 n) = Some (of_nat n)"
  proof (cases "n < 100")
    case True
    then show ?thesis
      using d digit_char(3) assms by (auto simp: show_u8_def parse_u8_def Let_def digit_char(1))
  next
    case False
    then show ?thesis
      using d digit_char(3) [OF d(3)] assms e k by (simp add: show_u8_def parse_u8_def Let_def digit_char(1))
  qed
qed

lemma split_dots_field: "CHR ''.'' \<notin> set p \<Longrightarrow> split_dots p = [p]"
  by (induction p) auto

lemma split_dots_append: "CHR ''.'' \<notin> set p \<Longrightarrow> split_dots (p @ CHR ''.'' # r) = p # split_dots r"
  by (induction p) auto

lemma octets_or:
  fixes a :: u32
  shows "push_bit 24 (drop_bit 24 a AND 0xFF) OR push_bit 16 (drop_bit 16 a AND 0xFF) OR
    push_bit 8 (drop_bit 8 a AND 0xFF) OR (a AND 0xFF) = a"
proof -
  have ff: "(0xFF :: u32) = mask 8" by (simp add: mask_eq_exp_minus_1)
  show ?thesis
  proof (rule bit_word_eqI)
    fix n assume "n < LENGTH(32)"
    then show "bit (push_bit 24 (drop_bit 24 a AND 0xFF) OR push_bit 16 (drop_bit 16 a AND 0xFF) OR
        push_bit 8 (drop_bit 8 a AND 0xFF) OR (a AND 0xFF)) n \<longleftrightarrow> bit a n"
      unfolding ff by (cases "n < 8"; cases "n < 16"; cases "n < 24")
        (auto simp: bit_or_iff bit_and_iff bit_push_bit_iff bit_drop_bit_eq bit_mask_iff)
  qed
qed

lemma unat_and_ff: "unat (x AND 0xFF) = unat x mod 256" for x :: u32
proof -
  have "x AND 0xFF = take_bit 8 x" by (simp add: take_bit_eq_mask mask_eq_exp_minus_1)
  then show ?thesis by (simp add: take_bit_eq_mod unat_mod)
qed

lemma ucast_octet: "ucast (ucast (x AND 0xFF) :: u8) = x AND 0xFF" for x :: u32
proof -
  have ff: "(0xFF :: u32) = mask 8" by (simp add: mask_eq_exp_minus_1)
  show ?thesis unfolding ff by (rule bit_word_eqI) (auto simp: bit_simps)
qed

lemma addr_text_roundtrip: "addr_from_str (addr_to_string a) = Some a"
proof -
  let ?o = "\<lambda>k. drop_bit k a AND 0xFF"
  have lt: "unat (?o k) < 256" for k by (simp add: unat_and_ff)
  have lt0: "unat (a AND 0xFF) < 256" by (simp add: unat_and_ff)
  have "split_dots (addr_to_string a) = [show_u8 (unat (?o 24)), show_u8 (unat (?o 16)), show_u8 (unat (?o 8)), show_u8 (unat (a AND 0xFF))]"
    using show_u8_parses(2) [OF lt] show_u8_parses(2) [OF lt0]
    by (simp add: addr_to_string_def split_dots_append split_dots_field)
  then show ?thesis
    using octets_or [of a]
    by (simp add: addr_from_str_def show_u8_parses(1) [OF lt] show_u8_parses(1) [OF lt0] ucast_octet or.assoc)
qed

lemma unat_drop:
  "unat (drop_bit 24 a) = unat a div 16777216" "unat (drop_bit 28 a) = unat a div 268435456" for a :: u32
  by (simp_all add: drop_bit_eq_div unat_div)

lemma between_div: "(n :: nat) \<le> m div d \<longleftrightarrow> n * d \<le> m" "m div d \<le> n \<longleftrightarrow> m < (n + 1) * d" if "d > 0"
  using div_less_iff_less_mult [OF that, of m "n + 1"] that by (simp_all add: less_eq_div_iff_mult_less_eq less_Suc_eq_le)

lemma div_is: "(q :: nat) div 256 = n \<longleftrightarrow> n * 256 \<le> q \<and> q \<le> n * 256 + 255"
  using between_div [of 256 n q] between_div [of 256 q n] by auto

lemma field_range:
  assumes "(v :: nat) < 256" "b < 256"
  shows "u = n \<and> a \<le> v \<and> v \<le> b \<longleftrightarrow> n * 256 + a \<le> u * 256 + v \<and> u * 256 + v \<le> n * 256 + b"
proof -
  have "u = n" if "n * 256 + a \<le> u * 256 + v" "u * 256 + v \<le> n * 256 + b"
    using assms that by linarith
  then show ?thesis by (cases "u = n") auto
qed

lemma is_private_fields:
  "is_private a \<longleftrightarrow> (unat a div 16777216 mod 256 = 10 \<or>
     unat a div 16777216 mod 256 = 172 \<and> 16 \<le> unat a div 65536 mod 256 \<and> unat a div 65536 mod 256 \<le> 31 \<or>
     unat a div 16777216 mod 256 = 192 \<and> unat a div 65536 mod 256 = 168)"
  unfolding is_private_def Let_def word_unat_eq_iff word_le_nat_alt unat_and_ff unat_drop unat_drop16 by simp

lemma address_classes:
  "is_loopback a = (0x7F000000 \<le> a \<and> a \<le> 0x7FFFFFFF) \<and>
   is_private a = (0x0A000000 \<le> a \<and> a \<le> 0x0AFFFFFF \<or> 0xAC100000 \<le> a \<and> a \<le> 0xAC1FFFFF \<or>
     0xC0A80000 \<le> a \<and> a \<le> 0xC0A8FFFF) \<and>
   is_multicast a = (0xE0000000 \<le> a \<and> a \<le> 0xEFFFFFFF)"
proof -
  define m where "m = unat a"
  define q where "q = m div 65536"
  have d24: "m div 16777216 = q div 256" by (simp add: q_def div_mult2_eq [symmetric])
  have d28: "m div 268435456 = 14 \<longleftrightarrow> 57344 \<le> q \<and> q \<le> 61439"
    using between_div [of 268435456 14 m] between_div [of 268435456 m 14] by (simp add: q_def between_div) arith
  have qb: "q < 65536" using unat_u32_less [of a] by (simp add: q_def m_def less_mult_imp_div_less)
  have r: "lo \<le> a \<and> a \<le> hi \<longleftrightarrow> x \<le> q \<and> q \<le> y" if "unat lo = x * 65536" "unat hi + 1 = (y + 1) * 65536" for x y lo hi
    using that by (auto simp: q_def between_div word_le_nat_alt m_def)
  have ranges: "0x7F000000 \<le> a \<and> a \<le> 0x7FFFFFFF \<longleftrightarrow> 32512 \<le> q \<and> q \<le> 32767"
    "0x0A000000 \<le> a \<and> a \<le> 0x0AFFFFFF \<longleftrightarrow> 2560 \<le> q \<and> q \<le> 2815"
    "0xAC100000 \<le> a \<and> a \<le> 0xAC1FFFFF \<longleftrightarrow> 44048 \<le> q \<and> q \<le> 44063"
    "0xC0A80000 \<le> a \<and> a \<le> 0xC0A8FFFF \<longleftrightarrow> 49320 \<le> q \<and> q \<le> 49320"
    "0xE0000000 \<le> a \<and> a \<le> 0xEFFFFFFF \<longleftrightarrow> 57344 \<le> q \<and> q \<le> 61439"
    by (rule r; simp)+
  have "is_loopback a \<longleftrightarrow> 32512 \<le> q \<and> q \<le> 32767"
    using div_is [of q 127] by (simp add: is_loopback_def word_unat_eq_iff unat_drop m_def [symmetric] d24)
  moreover have "is_multicast a \<longleftrightarrow> 57344 \<le> q \<and> q \<le> 61439"
    unfolding d28 [symmetric] by (simp add: is_multicast_def word_unat_eq_iff unat_drop m_def)
  moreover have "is_private a \<longleftrightarrow> 2560 \<le> q \<and> q \<le> 2815 \<or> 44048 \<le> q \<and> q \<le> 44063 \<or> 49320 \<le> q \<and> q \<le> 49320"
  proof -
    define u v where "u = q div 256" and "v = q mod 256"
    have q: "q = u * 256 + v" and uv: "v < 256" by (simp_all add: u_def v_def)
    have "q div 256 = 10 \<longleftrightarrow> 2560 \<le> q \<and> q \<le> 2815" using div_is [of q 10] by simp
    moreover have "q div 256 = 172 \<and> 16 \<le> q mod 256 \<and> q mod 256 \<le> 31 \<longleftrightarrow> 44048 \<le> q \<and> q \<le> 44063"
      unfolding u_def [symmetric] v_def [symmetric] using field_range [OF uv, of 31 u 172 16] q by simp
    moreover have "q div 256 = 192 \<and> q mod 256 = 168 \<longleftrightarrow> q = 49320"
      unfolding u_def [symmetric] v_def [symmetric] using field_range [OF uv, of 168 u 192 168] q by auto
    moreover have top: "q div 256 mod 256 = q div 256" using qb by simp
    moreover have "49320 \<le> q \<and> q \<le> 49320 \<longleftrightarrow> q = 49320" by auto
    ultimately show ?thesis
      unfolding is_private_fields m_def [symmetric] d24 q_def [symmetric] top by blast
  qed
  ultimately show ?thesis
    unfolding ranges by blast
qed

text \<open>
  The text of an address parses back to it, and the classes are the ranges their comments
  name: 127/8, the three private ranges, 224/4 and all ones.
\<close>

theorem ipv4_addresses:
  "addr_from_str (addr_to_string a) = Some a \<and>
   is_loopback a = (0x7F000000 \<le> a \<and> a \<le> 0x7FFFFFFF) \<and>
   is_private a = (0x0A000000 \<le> a \<and> a \<le> 0x0AFFFFFF \<or> 0xAC100000 \<le> a \<and> a \<le> 0xAC1FFFFF \<or>
     0xC0A80000 \<le> a \<and> a \<le> 0xC0A8FFFF) \<and>
   is_multicast a = (0xE0000000 \<le> a \<and> a \<le> 0xEFFFFFFF)"
  using addr_text_roundtrip [of a] address_classes [of a] by simp

end
