(* ===== verification/NetDev.thy ===== *)
theory NetDev
  imports Ipv4
begin

text \<open>
  The network device layer, \<open>kernel/src/net/dev.rs\<close>: devices, their driver operations and the global registry.
  A driver's operations are a record of functions behind a static reference, here a number with
  a table \<open>ops\<close> of what it refers to. The registry's mutex is part of the state: a call
  that locks it while its own caller holds it never returns, \<open>None\<close>.
\<close>

section \<open>Devices\<close>

definition IFNAMSIZ :: usize where "IFNAMSIZ = 16"
definition MAX_ADDR_LEN :: usize where "MAX_ADDR_LEN = 32"
definition IFF_UP :: u32 where "IFF_UP = 0x1"
definition IFF_RUNNING :: u32 where "IFF_RUNNING = 0x40"

datatype NetDevState = NdInit | NdRegistered | NdGoingDown | NdUnregistering | NdUnregistered

datatype NetDevTx = TxOk | TxBusy

datatype NetDevError =
    NdNotFound | NdDown | NdBusy | NdNotSupported | NdInvalidMtu | NdInvalidAddress | NdNameTooLong | NdAllocFailed
  | NdHwError

record NetDeviceStats =
  ns_rx_packets :: u64
  ns_tx_packets :: u64
  ns_rx_bytes :: u64
  ns_tx_bytes :: u64
  ns_rx_errors :: u64
  ns_tx_errors :: u64
  ns_rx_dropped :: u64
  ns_tx_dropped :: u64
  ns_multicast :: u64
  ns_collisions :: u64
  ns_rx_length_errors :: u64
  ns_rx_over_errors :: u64
  ns_rx_crc_errors :: u64
  ns_rx_frame_errors :: u64
  ns_rx_fifo_errors :: u64
  ns_rx_missed_errors :: u64
  ns_tx_aborted_errors :: u64
  ns_tx_carrier_errors :: u64
  ns_tx_fifo_errors :: u64
  ns_tx_heartbeat_errors :: u64
  ns_tx_window_errors :: u64
  ns_rx_compressed :: u64
  ns_tx_compressed :: u64

definition stats_default :: NetDeviceStats where
  "stats_default =
     \<lparr>ns_rx_packets = 0, ns_tx_packets = 0, ns_rx_bytes = 0, ns_tx_bytes = 0, ns_rx_errors = 0,
      ns_tx_errors = 0, ns_rx_dropped = 0, ns_tx_dropped = 0, ns_multicast = 0, ns_collisions = 0,
      ns_rx_length_errors = 0, ns_rx_over_errors = 0, ns_rx_crc_errors = 0, ns_rx_frame_errors = 0,
      ns_rx_fifo_errors = 0, ns_rx_missed_errors = 0, ns_tx_aborted_errors = 0, ns_tx_carrier_errors = 0,
      ns_tx_fifo_errors = 0, ns_tx_heartbeat_errors = 0, ns_tx_window_errors = 0, ns_rx_compressed = 0,
      ns_tx_compressed = 0\<rparr>"

record Napi =
  napi_poll_list :: "nat option"
  napi_poll :: "nat option"
  napi_weight :: u32
  napi_dev :: "nat option"
  napi_state :: u32

record NetDevice =
  nd_name :: "u8 list"
  nd_ifindex :: u32
  nd_dev_type :: u16
  nd_flags :: u32
  nd_state :: NetDevState
  nd_operstate :: u8
  nd_link_mode :: u8
  nd_dev_addr :: "u8 list"
  nd_perm_addr :: "u8 list"
  nd_broadcast :: "u8 list"
  nd_addr_len :: u8
  nd_mtu :: u32
  nd_min_mtu :: u32
  nd_max_mtu :: u32
  nd_hard_header_len :: u16
  nd_needed_headroom :: u16
  nd_needed_tailroom :: u16
  nd_features :: u64
  nd_hw_features :: u64
  nd_wanted_features :: u64
  nd_vlan_features :: u64
  nd_gso_max_size :: u32
  nd_gso_max_segs :: u16
  nd_gro_max_size :: u32
  nd_tso_max_size :: u32
  nd_tso_max_segs :: u16
  nd_num_tx_queues :: u32
  nd_num_rx_queues :: u32
  nd_real_num_tx_queues :: u32
  nd_real_num_rx_queues :: u32
  nd_tx_queue_len :: u32
  nd_stats :: NetDeviceStats
  nd_netdev_ops :: nat
  nd_refcnt :: u32
  nd_napi_list :: "Napi list"
  nd_watchdog_timeo :: u32
  nd_priv_data :: "nat option"
  nd_priv_len :: u32
  nd_irq :: u32
  nd_promiscuity :: u32
  nd_allmulti :: u32
  nd_proto_down :: bool
  nd_proto_down_reason :: u32

record NetDeviceOps =
  ndo_init :: "(NetDevice \<Rightarrow> (NetDevError, unit) outcome \<times> NetDevice) option"
  ndo_uninit :: "(NetDevice \<Rightarrow> NetDevice) option"
  ndo_open :: "(NetDevice \<Rightarrow> (NetDevError, unit) outcome \<times> NetDevice) option"
  ndo_stop :: "(NetDevice \<Rightarrow> (NetDevError, unit) outcome \<times> NetDevice) option"
  ndo_start_xmit :: "(NetDevice \<Rightarrow> SkBuff \<Rightarrow> NetDevTx \<times> NetDevice) option"
  ndo_set_mac_address :: "(NetDevice \<Rightarrow> u8 list \<Rightarrow> (NetDevError, unit) outcome \<times> NetDevice) option"
  ndo_change_mtu :: "(NetDevice \<Rightarrow> u32 \<Rightarrow> (NetDevError, unit) outcome \<times> NetDevice) option"
  ndo_get_stats64 :: "(NetDevice \<Rightarrow> NetDeviceStats) option"
  ndo_set_rx_mode :: "(NetDevice \<Rightarrow> NetDevice) option"
  ndo_validate_addr :: "(NetDevice \<Rightarrow> (NetDevError, unit) outcome) option"
  ndo_do_ioctl :: "(NetDevice \<Rightarrow> u32 \<Rightarrow> u64 \<Rightarrow> (NetDevError, u32) outcome \<times> NetDevice) option"
  ndo_set_features :: "(NetDevice \<Rightarrow> u64 \<Rightarrow> (NetDevError, unit) outcome \<times> NetDevice) option"
  ndo_fix_features :: "(NetDevice \<Rightarrow> u64 \<Rightarrow> u64) option"

definition ops_empty :: NetDeviceOps where
  "ops_empty = \<lparr>ndo_init = None, ndo_uninit = None, ndo_open = None, ndo_stop = None, ndo_start_xmit = None,
     ndo_set_mac_address = None, ndo_change_mtu = None, ndo_get_stats64 = None, ndo_set_rx_mode = None,
     ndo_validate_addr = None, ndo_do_ioctl = None, ndo_set_features = None, ndo_fix_features = None\<rparr>"

type_synonym drivers = "nat \<Rightarrow> NetDeviceOps"

definition netdev_fresh :: "u8 list \<Rightarrow> u16 \<Rightarrow> nat \<Rightarrow> u32 \<Rightarrow> u32 \<Rightarrow> NetDevice" where
  "netdev_fresh name dev_type netdev_ops num_tx_queues num_rx_queues =
     \<lparr>nd_name = name @ replicate (IFNAMSIZ - length name) 0, nd_ifindex = 0, nd_dev_type = dev_type,
      nd_flags = 0, nd_state = NdInit, nd_operstate = 0, nd_link_mode = 0, nd_dev_addr = replicate MAX_ADDR_LEN 0,
      nd_perm_addr = replicate MAX_ADDR_LEN 0, nd_broadcast = replicate MAX_ADDR_LEN 0xFF, nd_addr_len = 6,
      nd_mtu = 1500, nd_min_mtu = 68, nd_max_mtu = 65535, nd_hard_header_len = 14, nd_needed_headroom = 0,
      nd_needed_tailroom = 0, nd_features = 0, nd_hw_features = 0, nd_wanted_features = 0, nd_vlan_features = 0,
      nd_gso_max_size = 65536, nd_gso_max_segs = 65535, nd_gro_max_size = 65536, nd_tso_max_size = 65536,
      nd_tso_max_segs = 65535, nd_num_tx_queues = num_tx_queues, nd_num_rx_queues = num_rx_queues,
      nd_real_num_tx_queues = num_tx_queues, nd_real_num_rx_queues = num_rx_queues, nd_tx_queue_len = 1000,
      nd_stats = stats_default, nd_netdev_ops = netdev_ops, nd_refcnt = 1, nd_napi_list = [], nd_watchdog_timeo = 500,
      nd_priv_data = None, nd_priv_len = 0, nd_irq = - 1, nd_promiscuity = 0, nd_allmulti = 0, nd_proto_down = False,
      nd_proto_down_reason = 0\<rparr>"

definition netdev_alloc :: "u8 list \<Rightarrow> u16 \<Rightarrow> nat \<Rightarrow> u32 \<Rightarrow> u32 \<Rightarrow> (NetDevError, NetDevice) outcome" where
  "netdev_alloc name dev_type netdev_ops num_tx_queues num_rx_queues =
     (if length name \<ge> IFNAMSIZ then Err NdNameTooLong
      else Ok (netdev_fresh name dev_type netdev_ops num_tx_queues num_rx_queues))"

definition invalid_name :: "u8 list" where
  "invalid_name = ascii ''<invalid>''"

definition name_str :: "NetDevice \<Rightarrow> u8 list" where
  "name_str d =
     (let name = takeWhile (\<lambda>b. b \<noteq> 0) (nd_name d) in if valid_utf8 name then name else invalid_name)"

definition netdev_open :: "drivers \<Rightarrow> NetDevice \<Rightarrow> (NetDevError, unit) outcome \<times> NetDevice" where
  "netdev_open ops d =
     (if nd_flags d AND IFF_UP \<noteq> 0 then (Ok (), d)
      else case (case ndo_open (ops (nd_netdev_ops d)) of None \<Rightarrow> (Ok (), d) | Some f \<Rightarrow> f d) of
             (Ok _, d1) \<Rightarrow> (Ok (), d1\<lparr>nd_flags := nd_flags d1 OR (IFF_UP OR IFF_RUNNING)\<rparr>)
           | r \<Rightarrow> r)"

definition netdev_close :: "drivers \<Rightarrow> NetDevice \<Rightarrow> (NetDevError, unit) outcome \<times> NetDevice" where
  "netdev_close ops d =
     (if nd_flags d AND IFF_UP = 0 then (Ok (), d)
      else let d1 = d\<lparr>nd_flags := nd_flags d AND NOT (IFF_UP OR IFF_RUNNING)\<rparr>
           in case ndo_stop (ops (nd_netdev_ops d1)) of None \<Rightarrow> (Ok (), d1) | Some f \<Rightarrow> f d1)"

definition netdev_xmit :: "drivers \<Rightarrow> NetDevice \<Rightarrow> SkBuff \<Rightarrow> (NetDevError, unit) outcome \<times> NetDevice" where
  "netdev_xmit ops d skb =
     (if nd_flags d AND IFF_UP = 0 then (Err NdDown, d)
      else case ndo_start_xmit (ops (nd_netdev_ops d)) of
             None \<Rightarrow> (Err NdNotSupported, d)
           | Some f \<Rightarrow> (case f d skb of (TxOk, d1) \<Rightarrow> (Ok (), d1) | (TxBusy, d1) \<Rightarrow> (Err NdBusy, d1)))"

definition set_mtu :: "drivers \<Rightarrow> NetDevice \<Rightarrow> u32 \<Rightarrow> (NetDevError, unit) outcome \<times> NetDevice" where
  "set_mtu ops d new_mtu =
     (if new_mtu < nd_min_mtu d \<or> new_mtu > nd_max_mtu d then (Err NdInvalidMtu, d)
      else case (case ndo_change_mtu (ops (nd_netdev_ops d)) of None \<Rightarrow> (Ok (), d) | Some f \<Rightarrow> f d new_mtu) of
             (Ok _, d1) \<Rightarrow> (Ok (), d1\<lparr>nd_mtu := new_mtu\<rparr>)
           | r \<Rightarrow> r)"

definition set_mac_address :: "drivers \<Rightarrow> NetDevice \<Rightarrow> u8 list \<Rightarrow> (NetDevError, unit) outcome \<times> NetDevice" where
  "set_mac_address ops d addr =
     (if length addr \<noteq> unat (nd_addr_len d) then (Err NdInvalidAddress, d)
      else case (case ndo_set_mac_address (ops (nd_netdev_ops d)) of None \<Rightarrow> (Ok (), d) | Some f \<Rightarrow> f d addr) of
             (Ok _, d1) \<Rightarrow>
               if length addr > length (nd_dev_addr d1) then (Panic, d1)
               else (Ok (), d1\<lparr>nd_dev_addr := addr @ drop (length addr) (nd_dev_addr d1)\<rparr>)
           | r \<Rightarrow> r)"

definition get_stats :: "drivers \<Rightarrow> NetDevice \<Rightarrow> NetDeviceStats" where
  "get_stats ops d = (case ndo_get_stats64 (ops (nd_netdev_ops d)) of None \<Rightarrow> nd_stats d | Some f \<Rightarrow> f d)"

definition dev_hold :: "NetDevice \<Rightarrow> NetDevice" where
  "dev_hold d = d\<lparr>nd_refcnt := nd_refcnt d + 1\<rparr>"

definition dev_put :: "NetDevice \<Rightarrow> NetDevice" where
  "dev_put d = d\<lparr>nd_refcnt := nd_refcnt d - 1\<rparr>"

section \<open>The registry\<close>

record DeviceRegistry =
  dr_devices :: "NetDevice list"
  dr_next_ifindex :: u32
  dr_locked :: bool

definition registry_new :: DeviceRegistry where
  "registry_new = \<lparr>dr_devices = [], dr_next_ifindex = 1, dr_locked = False\<rparr>"

text \<open>The body of a critical section; the guard is released when the function returns.\<close>

definition with_registry :: "(DeviceRegistry \<Rightarrow> ('a \<times> DeviceRegistry) option) \<Rightarrow> DeviceRegistry \<Rightarrow> ('a \<times> DeviceRegistry) option" where
  "with_registry f st =
     (if dr_locked st then None
      else map_option (\<lambda>(r, st1). (r, st1\<lparr>dr_locked := False\<rparr>)) (f (st\<lparr>dr_locked := True\<rparr>)))"

abbreviation has_index :: "u32 \<Rightarrow> NetDevice \<Rightarrow> bool" where
  "has_index i d \<equiv> nd_ifindex d = i"

definition device_handle_new :: "u32 \<Rightarrow> DeviceRegistry \<Rightarrow> (u32 \<times> DeviceRegistry) option" where
  "device_handle_new i = with_registry (\<lambda>st.
     Some (i, st\<lparr>dr_devices := update_first (has_index i) dev_hold (dr_devices st)\<rparr>))"

definition with_device :: "u32 \<Rightarrow> (NetDevice \<Rightarrow> 'r) \<Rightarrow> DeviceRegistry \<Rightarrow> ('r option \<times> DeviceRegistry) option" where
  "with_device h f = with_registry (\<lambda>st. Some (map_option f (find (has_index h) (dr_devices st)), st))"

definition with_device_mut ::
  "u32 \<Rightarrow> (NetDevice \<Rightarrow> 'r \<times> NetDevice) \<Rightarrow> DeviceRegistry \<Rightarrow> ('r option \<times> DeviceRegistry) option" where
  "with_device_mut h f = with_registry (\<lambda>st.
     Some (map_option (\<lambda>d. fst (f d)) (find (has_index h) (dr_devices st)),
           st\<lparr>dr_devices := update_first (has_index h) (\<lambda>d. snd (f d)) (dr_devices st)\<rparr>))"

definition device_handle_drop :: "u32 \<Rightarrow> DeviceRegistry \<Rightarrow> (unit \<times> DeviceRegistry) option" where
  "device_handle_drop h = with_registry (\<lambda>st.
     Some ((), st\<lparr>dr_devices := update_first (has_index h) dev_put (dr_devices st)\<rparr>))"

definition device_handle_clone :: "u32 \<Rightarrow> DeviceRegistry \<Rightarrow> (u32 \<times> DeviceRegistry) option" where
  "device_handle_clone h = device_handle_new h"

definition register_netdev ::
  "drivers \<Rightarrow> NetDevice \<Rightarrow> DeviceRegistry \<Rightarrow> ((NetDevError, u32) outcome \<times> DeviceRegistry) option" where
  "register_netdev ops dev = with_registry (\<lambda>st.
     let dev1 = dev\<lparr>nd_ifindex := dr_next_ifindex st\<rparr>;
         st1 = st\<lparr>dr_next_ifindex := dr_next_ifindex st + 1\<rparr>
     in Some (case (case ndo_init (ops (nd_netdev_ops dev1)) of None \<Rightarrow> (Ok (), dev1) | Some f \<Rightarrow> f dev1) of
          (Ok _, dev2) \<Rightarrow>
            (let dev3 = dev2\<lparr>nd_state := NdRegistered\<rparr>
             in (Ok (nd_ifindex dev3), st1\<lparr>dr_devices := dr_devices st1 @ [dev3]\<rparr>))
        | (Err e, _) \<Rightarrow> (Err e, st1)
        | (Panic, _) \<Rightarrow> (Panic, st1)))"

text \<open>The removed device, closed and uninitialised, is what the function frees at its end.\<close>

definition unregister_netdev ::
  "drivers \<Rightarrow> u32 \<Rightarrow> DeviceRegistry \<Rightarrow> (((NetDevError, unit) outcome \<times> NetDevice option) \<times> DeviceRegistry) option" where
  "unregister_netdev ops i = with_registry (\<lambda>st.
     Some (case find (has_index i) (dr_devices st) of
        None \<Rightarrow> ((Err NdNotFound, None), st)
      | Some dev \<Rightarrow>
          (let pos = length (takeWhile (\<lambda>d. \<not> has_index i d) (dr_devices st));
               st1 = st\<lparr>dr_devices := take pos (dr_devices st) @ drop (Suc pos) (dr_devices st)\<rparr>;
               dev1 = snd (netdev_close ops dev);
               dev2 = (case ndo_uninit (ops (nd_netdev_ops dev1)) of None \<Rightarrow> dev1 | Some f \<Rightarrow> f dev1)
           in ((Ok (), Some (dev2\<lparr>nd_state := NdUnregistered\<rparr>)), st1))))"

definition dev_get_by_index :: "u32 \<Rightarrow> DeviceRegistry \<Rightarrow> (u32 option \<times> DeviceRegistry) option" where
  "dev_get_by_index i = with_registry (\<lambda>st.
     case find (has_index i) (dr_devices st) of
       None \<Rightarrow> Some (None, st)
     | Some _ \<Rightarrow> map_option (\<lambda>(h, st1). (Some h, st1)) (device_handle_new i st))"

definition dev_get_by_name :: "u8 list \<Rightarrow> DeviceRegistry \<Rightarrow> (u32 option \<times> DeviceRegistry) option" where
  "dev_get_by_name name = with_registry (\<lambda>st.
     case find (\<lambda>d. name_str d = name) (dr_devices st) of
       None \<Rightarrow> Some (None, st)
     | Some d \<Rightarrow> map_option (\<lambda>(h, st1). (Some h, st1)) (device_handle_new (nd_ifindex d) st))"

section \<open>Looking a device up\<close>

lemma unlock_lock: "\<not> dr_locked st \<Longrightarrow> st\<lparr>dr_locked := False\<rparr> = st"
  by (cases st) simp

lemma locked_find:
  "with_registry (\<lambda>st. case find P (dr_devices st) of
      None \<Rightarrow> Some (None, st) | Some d \<Rightarrow> map_option (\<lambda>(h, st1). (Some h, st1)) (device_handle_new (g d) st)) st =
    (if dr_locked st \<or> (\<exists>d \<in> set (dr_devices st). P d) then None else Some (None, st))"
proof (cases "find P (dr_devices st)")
  case None
  then have "\<not> (\<exists>d \<in> set (dr_devices st). P d)" by (simp add: find_None_iff)
  with None show ?thesis by (simp add: with_registry_def unlock_lock)
next
  case (Some d)
  then have "\<exists>d \<in> set (dr_devices st). P d" by (auto simp: find_Some_iff)
  with Some show ?thesis by (simp add: with_registry_def device_handle_new_def)
qed

text \<open>
  A lookup keeps the registry locked while it makes the handle, whose creation locks it again:
  looking up a device that is registered never returns. Only the lookup of an absent device does,
  with nothing. The handle's own accessors are not affected.
\<close>

lemma lookups:
  "dev_get_by_index i st = (if dr_locked st \<or> (\<exists>d \<in> set (dr_devices st). nd_ifindex d = i) then None else Some (None, st))"
  "dev_get_by_name name st = (if dr_locked st \<or> (\<exists>d \<in> set (dr_devices st). name_str d = name) then None else Some (None, st))"
  unfolding dev_get_by_index_def dev_get_by_name_def by (rule locked_find)+

theorem lookup_deadlocks:
  "dev_get_by_index i st = (if dr_locked st \<or> (\<exists>d \<in> set (dr_devices st). nd_ifindex d = i) then None else Some (None, st)) \<and>
   dev_get_by_name name st = (if dr_locked st \<or> (\<exists>d \<in> set (dr_devices st). name_str d = name) then None else Some (None, st)) \<and>
   device_handle_new i (st\<lparr>dr_locked := False\<rparr>) \<noteq> None \<and>
   with_device i f (st\<lparr>dr_locked := False\<rparr>) = Some (map_option f (find (has_index i) (dr_devices st)), st\<lparr>dr_locked := False\<rparr>)"
  by (intro conjI lookups) (auto simp: with_registry_def device_handle_new_def with_device_def unlock_lock)

section \<open>The registry's invariant\<close>

text \<open>
  The calls on the registry, the two lookups among them, and what a driver must leave alone: the
  index and the state of its device. A call that never returns ends the run.
\<close>

datatype reg_op =
    Register NetDevice | Unregister u32 | OpenDev u32 | CloseDev u32 | SetMtu u32 u32 | SetMac u32 "u8 list"
  | Xmit u32 SkBuff | HoldDev u32 | ReleaseDev u32 | ReadStats u32 | GetByIndex u32 | GetByName "u8 list"

fun reg_exec :: "drivers \<Rightarrow> reg_op \<Rightarrow> DeviceRegistry \<Rightarrow> DeviceRegistry option" where
  "reg_exec ops (Register d) st = map_option snd (register_netdev ops d st)"
| "reg_exec ops (Unregister i) st = map_option snd (unregister_netdev ops i st)"
| "reg_exec ops (OpenDev i) st = map_option snd (with_device_mut i (netdev_open ops) st)"
| "reg_exec ops (CloseDev i) st = map_option snd (with_device_mut i (netdev_close ops) st)"
| "reg_exec ops (SetMtu i m) st = map_option snd (with_device_mut i (\<lambda>d. set_mtu ops d m) st)"
| "reg_exec ops (SetMac i a) st = map_option snd (with_device_mut i (\<lambda>d. set_mac_address ops d a) st)"
| "reg_exec ops (Xmit i skb) st = map_option snd (with_device_mut i (\<lambda>d. netdev_xmit ops d skb) st)"
| "reg_exec ops (HoldDev i) st = map_option snd (device_handle_new i st)"
| "reg_exec ops (ReleaseDev i) st = map_option snd (device_handle_drop i st)"
| "reg_exec ops (ReadStats i) st = map_option snd (with_device i (get_stats ops) st)"
| "reg_exec ops (GetByIndex i) st = map_option snd (dev_get_by_index i st)"
| "reg_exec ops (GetByName name) st = map_option snd (dev_get_by_name name st)"

fun reg_run :: "drivers \<Rightarrow> reg_op list \<Rightarrow> DeviceRegistry \<Rightarrow> DeviceRegistry option" where
  "reg_run ops [] st = Some st"
| "reg_run ops (a # as) st = Option.bind (reg_exec ops a st) (reg_run ops as)"

text \<open>The call looks a device up, by index or by name, and there is such a device.\<close>

fun finds_device :: "reg_op \<Rightarrow> DeviceRegistry \<Rightarrow> bool" where
  "finds_device (GetByIndex i) st \<longleftrightarrow> (\<exists>d \<in> set (dr_devices st). nd_ifindex d = i)"
| "finds_device (GetByName name) st \<longleftrightarrow> (\<exists>d \<in> set (dr_devices st). name_str d = name)"
| "finds_device _ st \<longleftrightarrow> False"

definition same_device :: "NetDevice \<Rightarrow> NetDevice \<Rightarrow> bool" where
  "same_device d d1 \<longleftrightarrow> nd_ifindex d1 = nd_ifindex d \<and> nd_state d1 = nd_state d"

definition driver_contract :: "drivers \<Rightarrow> bool" where
  "driver_contract ops \<longleftrightarrow> (\<forall>k d.
     (\<forall>f. ndo_init (ops k) = Some f \<longrightarrow> same_device d (snd (f d))) \<and>
     (\<forall>f. ndo_open (ops k) = Some f \<longrightarrow> same_device d (snd (f d))) \<and>
     (\<forall>f. ndo_stop (ops k) = Some f \<longrightarrow> same_device d (snd (f d))) \<and>
     (\<forall>f m. ndo_change_mtu (ops k) = Some f \<longrightarrow> same_device d (snd (f d m))) \<and>
     (\<forall>f a. ndo_set_mac_address (ops k) = Some f \<longrightarrow> same_device d (snd (f d a))) \<and>
     (\<forall>f s. ndo_start_xmit (ops k) = Some f \<longrightarrow> same_device d (snd (f d s))))"

lemma contract_cases:
  assumes "driver_contract ops"
  shows "ndo_init (ops k) = Some f1 \<Longrightarrow> same_device d (snd (f1 d))"
    "ndo_open (ops k) = Some f1 \<Longrightarrow> same_device d (snd (f1 d))"
    "ndo_stop (ops k) = Some f1 \<Longrightarrow> same_device d (snd (f1 d))"
    "ndo_change_mtu (ops k) = Some f2 \<Longrightarrow> same_device d (snd (f2 d m))"
    "ndo_set_mac_address (ops k) = Some f3 \<Longrightarrow> same_device d (snd (f3 d a))"
    "ndo_start_xmit (ops k) = Some f4 \<Longrightarrow> same_device d (snd (f4 d skb))"
  using assms unfolding driver_contract_def by blast+

lemma same_device_refl [simp]: "same_device d d"
  by (simp add: same_device_def)

lemma operations_same_device:
  assumes "driver_contract ops"
  shows "same_device d (snd (netdev_open ops d))" "same_device d (snd (netdev_close ops d))"
    "same_device d (snd (set_mtu ops d m))" "same_device d (snd (set_mac_address ops d a))"
    "same_device d (snd (netdev_xmit ops d skb))"
proof -
  show "same_device d (snd (netdev_open ops d))"
  proof (cases "ndo_open (ops (nd_netdev_ops d))")
    case (Some f)
    then show ?thesis using contract_cases(2) [OF assms Some, of d]
      by (cases "f d") (auto simp: netdev_open_def same_device_def split: outcome.split)
  qed (simp add: netdev_open_def same_device_def)
  show "same_device d (snd (netdev_close ops d))"
  proof -
    define d1 where "d1 = d\<lparr>nd_flags := nd_flags d AND NOT (IFF_UP OR IFF_RUNNING)\<rparr>"
    have d1: "same_device d d1" by (simp add: same_device_def d1_def)
    have "netdev_close ops d = (if nd_flags d AND IFF_UP = 0 then (Ok (), d)
        else case ndo_stop (ops (nd_netdev_ops d1)) of None \<Rightarrow> (Ok (), d1) | Some f \<Rightarrow> f d1)"
      unfolding netdev_close_def Let_def d1_def ..
    then show ?thesis using d1 contract_cases(3) [OF assms, of "nd_netdev_ops d1" _ d1]
      by (auto simp: same_device_def split: option.split)
  qed
  show "same_device d (snd (set_mtu ops d m))"
  proof (cases "ndo_change_mtu (ops (nd_netdev_ops d))")
    case (Some f)
    then show ?thesis using contract_cases(4) [OF assms Some, of d m]
      by (cases "f d m") (auto simp: set_mtu_def same_device_def split: outcome.split)
  qed (simp add: set_mtu_def same_device_def)
  show "same_device d (snd (set_mac_address ops d a))"
  proof (cases "ndo_set_mac_address (ops (nd_netdev_ops d))")
    case (Some f)
    then show ?thesis using contract_cases(5) [OF assms Some, of d a]
      by (cases "f d a") (auto simp: set_mac_address_def same_device_def split: outcome.split)
  qed (simp add: set_mac_address_def same_device_def)
  show "same_device d (snd (netdev_xmit ops d skb))"
  proof (cases "ndo_start_xmit (ops (nd_netdev_ops d))")
    case (Some f)
    then show ?thesis using contract_cases(6) [OF assms Some, of d skb]
      by (cases "f d skb") (auto simp: netdev_xmit_def split: NetDevTx.split)
  qed (simp add: netdev_xmit_def)
qed

text \<open>Every index is given once, and every device in the list is registered; \<open>n\<close> registrations so far.\<close>

definition reg_inv :: "nat \<Rightarrow> DeviceRegistry \<Rightarrow> bool" where
  "reg_inv n st \<longleftrightarrow> \<not> dr_locked st \<and> distinct (map nd_ifindex (dr_devices st)) \<and>
     (\<forall>d \<in> set (dr_devices st). nd_state d = NdRegistered \<and> 0 < nd_ifindex d \<and> nd_ifindex d < dr_next_ifindex st) \<and>
     0 < dr_next_ifindex st \<and> unat (dr_next_ifindex st) \<le> n + 1"

lemma update_first_same:
  assumes "\<And>d. same_device d (f d)"
  shows "map (\<lambda>d. (nd_ifindex d, nd_state d)) (update_first P f ds) = map (\<lambda>d. (nd_ifindex d, nd_state d)) ds"
  using assms by (induction ds) (auto simp: same_device_def)

lemma reg_inv_identity:
  assumes "map (\<lambda>d. (nd_ifindex d, nd_state d)) ds = map (\<lambda>d. (nd_ifindex d, nd_state d)) (dr_devices st)"
    and "reg_inv n st"
  shows "reg_inv n (st\<lparr>dr_devices := ds, dr_locked := False\<rparr>)"
proof -
  have "map fst (map (\<lambda>d. (nd_ifindex d, nd_state d)) ds) = map fst (map (\<lambda>d. (nd_ifindex d, nd_state d)) (dr_devices st))"
    using assms(1) by simp
  then have i: "map nd_ifindex ds = map nd_ifindex (dr_devices st)" by (simp add: comp_def)
  have s: "(\<lambda>d. (nd_ifindex d, nd_state d)) ` set ds = (\<lambda>d. (nd_ifindex d, nd_state d)) ` set (dr_devices st)"
    using arg_cong [OF assms(1), of set] by simp
  have "nd_state d = NdRegistered \<and> 0 < nd_ifindex d \<and> nd_ifindex d < dr_next_ifindex st" if "d \<in> set ds" for d
  proof -
    have "(nd_ifindex d, nd_state d) \<in> (\<lambda>d. (nd_ifindex d, nd_state d)) ` set (dr_devices st)"
      unfolding s [symmetric] using that by (rule imageI)
    then obtain d' where "d' \<in> set (dr_devices st)" "nd_ifindex d' = nd_ifindex d" "nd_state d' = nd_state d" by auto
    then show ?thesis using assms(2) unfolding reg_inv_def by auto
  qed
  then show ?thesis using assms(2) i by (simp add: reg_inv_def)
qed

lemma with_device_mut_inv:
  assumes "reg_inv n st" "\<And>d. same_device d (snd (f d))"
  shows "\<exists>st1. map_option snd (with_device_mut i f st) = Some st1 \<and> reg_inv n st1"
proof -
  let ?ds = "update_first (has_index i) (\<lambda>d. snd (f d)) (dr_devices st)"
  have "reg_inv n (st\<lparr>dr_devices := ?ds, dr_locked := False\<rparr>)"
    by (rule reg_inv_identity [OF update_first_same assms(1)]) (rule assms(2))
  then show ?thesis using assms(1) by (simp add: with_device_mut_def with_registry_def reg_inv_def)
qed

lemma handle_inv:
  assumes "reg_inv n st"
  shows "\<exists>st1. map_option snd (device_handle_new i st) = Some st1 \<and> reg_inv n st1"
    "\<exists>st1. map_option snd (device_handle_drop i st) = Some st1 \<and> reg_inv n st1"
proof -
  have "reg_inv n (st\<lparr>dr_devices := update_first (has_index i) dev_hold (dr_devices st), dr_locked := False\<rparr>)"
    "reg_inv n (st\<lparr>dr_devices := update_first (has_index i) dev_put (dr_devices st), dr_locked := False\<rparr>)"
    by (rule reg_inv_identity [OF update_first_same assms]; simp add: same_device_def dev_hold_def dev_put_def)+
  then show "\<exists>st1. map_option snd (device_handle_new i st) = Some st1 \<and> reg_inv n st1"
    "\<exists>st1. map_option snd (device_handle_drop i st) = Some st1 \<and> reg_inv n st1"
    using assms by (simp_all add: device_handle_new_def device_handle_drop_def with_registry_def reg_inv_def)
qed

lemma unregister_inv:
  assumes "reg_inv n st"
  shows "\<exists>r st1. unregister_netdev ops i st = Some (r, st1) \<and> reg_inv n st1 \<and>
    (\<forall>d \<in> set (dr_devices st1). nd_ifindex d \<noteq> i) \<and>
    (\<forall>d. nd_ifindex d \<noteq> i \<longrightarrow> (d \<in> set (dr_devices st1) \<longleftrightarrow> d \<in> set (dr_devices st)))"
proof (cases "find (has_index i) (dr_devices st)")
  case None
  then have "unregister_netdev ops i st = Some ((Err NdNotFound, None), st)"
    using assms by (simp add: unregister_netdev_def with_registry_def reg_inv_def unlock_lock)
  then show ?thesis using assms None by (auto simp: find_None_iff)
next
  case (Some dev)
  then obtain xs ys where ds: "dr_devices st = xs @ dev # ys" "\<forall>d \<in> set xs. \<not> has_index i d" "has_index i dev"
    by (blast dest: find_split)
  define st1 where "st1 = st\<lparr>dr_devices := xs @ ys, dr_locked := False\<rparr>"
  have "length (takeWhile (\<lambda>d. \<not> has_index i d) (dr_devices st)) = length xs" using ds by (simp add: takeWhile_append)
  then have "\<exists>r. unregister_netdev ops i st = Some (r, st1)"
    using Some assms ds(1) by (simp add: unregister_netdev_def with_registry_def Let_def st1_def reg_inv_def)
  moreover have "reg_inv n st1" using assms ds(1) by (auto simp: reg_inv_def st1_def)
  moreover have "\<forall>d \<in> set (dr_devices st1). nd_ifindex d \<noteq> i"
    using assms ds by (auto simp: st1_def reg_inv_def image_iff)
  ultimately show ?thesis using ds by (fastforce simp: st1_def)
qed

lemma register_inv:
  assumes "reg_inv n st" "driver_contract ops" "n < 2 ^ 32 - 2"
  shows "\<exists>r st1. register_netdev ops dev st = Some (r, st1) \<and> reg_inv (Suc n) st1"
proof -
  let ?d1 = "dev\<lparr>nd_ifindex := dr_next_ifindex st\<rparr>" and ?x = "dr_next_ifindex st"
  have n: "unat ?x < 2 ^ 32 - 1" "0 < ?x" using assms(1,3) by (auto simp: reg_inv_def)
  then have x: "unat (?x + 1) = unat ?x + 1" by (simp add: add32)
  have lt: "?x < ?x + 1" "0 < ?x + 1" using n x by (auto simp: word_less_nat_alt)
  obtain r dev2 where i: "(case ndo_init (ops (nd_netdev_ops ?d1)) of None \<Rightarrow> (Ok (), ?d1) | Some f \<Rightarrow> f ?d1) = (r, dev2)"
    by (cases "case ndo_init (ops (nd_netdev_ops ?d1)) of None \<Rightarrow> (Ok (), ?d1) | Some f \<Rightarrow> f ?d1") auto
  have idx: "nd_ifindex dev2 = ?x"
  proof (cases "ndo_init (ops (nd_netdev_ops ?d1))")
    case None
    then show ?thesis using i by auto
  next
    case (Some f)
    then show ?thesis using i contract_cases(1) [OF assms(2) Some, of ?d1] by (simp add: same_device_def)
  qed
  have "reg_inv (Suc n) (st\<lparr>dr_next_ifindex := ?x + 1, dr_devices := dr_devices st @ [dev2\<lparr>nd_state := NdRegistered\<rparr>], dr_locked := False\<rparr>)"
    "reg_inv (Suc n) (st\<lparr>dr_next_ifindex := ?x + 1, dr_locked := False\<rparr>)"
    using assms(1) n lt x idx by (auto simp: reg_inv_def)
  then show ?thesis
    using assms(1) i
    by (cases r) (simp_all add: register_netdev_def with_registry_def Let_def reg_inv_def cong: option.case_cong)
qed

lemma reg_exec_inv:
  assumes "reg_inv n st" "driver_contract ops" "n < 2 ^ 32 - 2"
  shows "if finds_device a st then reg_exec ops a st = None
    else \<exists>st1. reg_exec ops a st = Some st1 \<and> reg_inv (Suc n) st1"
proof -
  have weaken: "\<exists>st1. x = Some st1 \<and> reg_inv n st1 \<Longrightarrow> \<exists>st1. x = Some st1 \<and> reg_inv (Suc n) st1" for x
    by (auto simp: reg_inv_def)
  have u: "\<not> dr_locked st" using assms(1) by (simp add: reg_inv_def)
  note same = operations_same_device [OF assms(2)]
  show ?thesis
  proof (cases a)
    case (Register d)
    then show ?thesis using register_inv [OF assms, of d] by auto
  next
    case (Unregister i)
    then show ?thesis using unregister_inv [OF assms(1), of ops i] weaken by fastforce
  next
    case (ReadStats i)
    then show ?thesis using assms(1) u by (auto simp: with_device_def with_registry_def unlock_lock reg_inv_def)
  next
    case (GetByIndex i)
    then show ?thesis using assms(1) u by (auto simp: lookups reg_inv_def)
  next
    case (GetByName name)
    then show ?thesis using assms(1) u by (auto simp: lookups reg_inv_def)
  qed (simp only: reg_exec.simps finds_device.simps if_False; rule weaken;
    (rule handle_inv [OF assms(1)] | rule with_device_mut_inv [OF assms(1)], rule same))+
qed

text \<open>A run blocks exactly at a lookup that finds its device; a run that does not keeps the invariant.\<close>

lemma reg_run_inv:
  assumes "reg_inv n st" "driver_contract ops" "n + length calls < 2 ^ 32 - 2"
  shows "(reg_run ops calls st = None \<longleftrightarrow>
      (\<exists>before a after st1. calls = before @ a # after \<and> reg_run ops before st = Some st1 \<and> finds_device a st1)) \<and>
    (\<forall>st1. reg_run ops calls st = Some st1 \<longrightarrow> reg_inv (n + length calls) st1)"
  using assms(1,3)
proof (induction calls arbitrary: st n)
  case (Cons a as)
  note step = reg_exec_inv [OF Cons.prems(1) assms(2), of a]
  have split: "(\<exists>before b after st1. a # as = before @ b # after \<and> reg_run ops before st = Some st1 \<and> finds_device b st1) \<longleftrightarrow>
      finds_device a st \<or> (\<exists>before b after st1. as = before @ b # after \<and>
        reg_run ops (a # before) st = Some st1 \<and> finds_device b st1)"
  proof -
    have "a # as = before @ b # after \<longleftrightarrow> before = [] \<and> b = a \<and> after = as \<or>
        (\<exists>bs. before = a # bs \<and> as = bs @ b # after)" for before b after
      by (cases before) auto
    then have "(\<exists>before b after st1. a # as = before @ b # after \<and> Q before b st1) \<longleftrightarrow>
        (\<exists>st1. Q [] a st1) \<or> (\<exists>before b after st1. as = before @ b # after \<and> Q (a # before) b st1)" for Q
      by metis
    from this [of "\<lambda>bs b st1. reg_run ops bs st = Some st1 \<and> finds_device b st1"] show ?thesis by simp
  qed
  show ?case
  proof (cases "finds_device a st")
    case True
    then have none: "reg_run ops (a # as) st = None" using step Cons.prems(2) by simp
    show ?thesis unfolding split unfolding none using True by simp
  next
    case False
    then obtain st1 where st1: "reg_exec ops a st = Some st1" "reg_inv (Suc n) st1"
      using step Cons.prems(2) by auto
    have run: "reg_run ops (a # bs) st = reg_run ops bs st1" for bs using st1 by simp
    show ?thesis
      using Cons.IH [OF st1(2)] Cons.prems(2) False unfolding split run by simp
  qed
qed simp

lemma registry_new_inv: "reg_inv 0 registry_new"
  by (simp add: reg_inv_def registry_new_def)

text \<open>
  C31 (type). As long as the drivers leave the index and the state of their devices alone and the counter does
  not wrap, a sequence of calls (registrations, removals, device operations, handles and lookups) blocks exactly when it
  comes to a lookup, by index or by name, of a device that is registered: that lookup never returns, and nothing
  else blocks. After a sequence that does not, every listed device is registered under an index of its own, and
  removing an index removes its device alone.
\<close>

theorem registry_wellformed:
  assumes "driver_contract ops" "length calls < 2 ^ 32 - 2"
  shows "(reg_run ops calls registry_new = None \<longleftrightarrow>
      (\<exists>before a after st. calls = before @ a # after \<and> reg_run ops before registry_new = Some st \<and> finds_device a st)) \<and>
    (\<forall>st. reg_run ops calls registry_new = Some st \<longrightarrow>
      \<not> dr_locked st \<and> distinct (map nd_ifindex (dr_devices st)) \<and>
      (\<forall>d \<in> set (dr_devices st). nd_state d = NdRegistered \<and> 0 < nd_ifindex d \<and> nd_ifindex d < dr_next_ifindex st) \<and>
      (\<forall>i. \<exists>r st1. unregister_netdev ops i st = Some (r, st1) \<and>
         (\<forall>d. d \<in> set (dr_devices st1) \<longleftrightarrow> d \<in> set (dr_devices st) \<and> nd_ifindex d \<noteq> i)))"
proof (intro conjI allI impI)
  note run = reg_run_inv [OF registry_new_inv assms(1), of calls, unfolded add_0, OF assms(2)]
  show "reg_run ops calls registry_new = None \<longleftrightarrow>
      (\<exists>before a after st. calls = before @ a # after \<and> reg_run ops before registry_new = Some st \<and> finds_device a st)"
    by (rule run [THEN conjunct1])
  fix st assume "reg_run ops calls registry_new = Some st"
  then have inv: "reg_inv (length calls) st" using run by blast
  then show "\<not> dr_locked st" "distinct (map nd_ifindex (dr_devices st))"
    "\<forall>d \<in> set (dr_devices st). nd_state d = NdRegistered \<and> 0 < nd_ifindex d \<and> nd_ifindex d < dr_next_ifindex st"
    by (simp_all add: reg_inv_def)
  show "\<exists>r st1. unregister_netdev ops i st = Some (r, st1) \<and>
      (\<forall>d. d \<in> set (dr_devices st1) \<longleftrightarrow> d \<in> set (dr_devices st) \<and> nd_ifindex d \<noteq> i)" for i
    using unregister_inv [OF inv, of ops i] by blast
qed

text \<open>Two registrations and a lookup of an index nobody has; a lookup of the second device then blocks.\<close>

definition example_calls :: "reg_op list" where
  "example_calls = [Register (netdev_fresh [] 1 0 1 1), Register (netdev_fresh [] 1 0 1 1), GetByIndex 3, Unregister 1]"

theorem registry_wellformed_witness:
  "(\<exists>st. reg_run (\<lambda>_. ops_empty) example_calls registry_new = Some st \<and> distinct (map nd_ifindex (dr_devices st))) \<and>
   reg_run (\<lambda>_. ops_empty) (example_calls @ [GetByIndex 2]) registry_new = None"
proof -
  have c: "driver_contract (\<lambda>_. ops_empty)" by (simp add: driver_contract_def ops_empty_def)
  have l: "length example_calls < 2 ^ 32 - 2" "length (example_calls @ [GetByIndex 2]) < 2 ^ 32 - 2"
    by (simp_all add: example_calls_def)
  obtain st where st: "reg_run (\<lambda>_. ops_empty) example_calls registry_new = Some st" "finds_device (GetByIndex 2) st"
    by (simp add: example_calls_def register_netdev_def unregister_netdev_def lookups with_registry_def registry_new_def
        Let_def ops_empty_def netdev_fresh_def netdev_close_def IFF_UP_def)
  have "reg_run (\<lambda>_. ops_empty) (example_calls @ [GetByIndex 2]) registry_new = None"
    using registry_wellformed [OF c l(2)] st by blast
  with registry_wellformed [OF c l(1)] st(1) show ?thesis by blast
qed

end
