(* ===== verification/ResourceTree.thy ===== *)
theory ResourceTree
  imports Loop
begin

text \<open>
  Resource trees, \<open>kernel/src/drivers/resource/core.rs\<close>: ranges of addresses as nodes linked by parent, sibling
  and child pointers. The code works on raw pointers, so the nodes live in an explicit store from
  addresses to nodes; \<open>p = &mut ...\<close>, a reference to a link, is the node and which of its
  links. The walks follow pointers and end only on a well-formed tree: \<open>None\<close> is a walk that
  does not end.
\<close>

section \<open>Nodes and the store\<close>

definition IORESOURCE_IO :: u64 where "IORESOURCE_IO = 0x00000100"
definition IORESOURCE_MEM :: u64 where "IORESOURCE_MEM = 0x00000200"
definition IORESOURCE_IRQ :: u64 where "IORESOURCE_IRQ = 0x00000400"

datatype ResourceDesc = DescNone | DevicePrivateMemory | SoftReserved

datatype ResourceError = ResBusy | ResInvalid | ResNoDevice | ResRange

record Resource =
  r_start :: u64
  r_end :: u64
  r_name :: "string option"
  r_flags :: u64
  r_desc :: ResourceDesc
  r_parent :: "nat option"
  r_sibling :: "nat option"
  r_child :: "nat option"

definition resource_new :: "u64 \<Rightarrow> u64 \<Rightarrow> u64 \<Rightarrow> Resource" where
  "resource_new s e fl = \<lparr>r_start = s, r_end = e, r_name = None, r_flags = fl, r_desc = DescNone, r_parent = None,
     r_sibling = None, r_child = None\<rparr>"

definition resource_new_named :: "u64 \<Rightarrow> u64 \<Rightarrow> u64 \<Rightarrow> string \<Rightarrow> Resource" where
  "resource_new_named s e fl name = \<lparr>r_start = s, r_end = e, r_name = Some name, r_flags = fl, r_desc = DescNone,
     r_parent = None, r_sibling = None, r_child = None\<rparr>"

definition resource_size :: "Resource \<Rightarrow> u64" where
  "resource_size r = (if r_end r \<ge> r_start r then r_end r - r_start r + 1 else 0)"

definition res_contains :: "Resource \<Rightarrow> Resource \<Rightarrow> bool" where
  "res_contains a b \<longleftrightarrow> r_start a \<le> r_start b \<and> r_end a \<ge> r_end b"

definition res_overlaps :: "Resource \<Rightarrow> Resource \<Rightarrow> bool" where
  "res_overlaps a b \<longleftrightarrow> r_start a \<le> r_end b \<and> r_start b \<le> r_end a"

definition resource_clone :: "Resource \<Rightarrow> Resource" where
  "resource_clone r = r\<lparr>r_parent := None, r_sibling := None, r_child := None\<rparr>"

definition IOPORT_RESOURCE :: Resource where
  "IOPORT_RESOURCE = resource_new 0 0xFFFF IORESOURCE_IO"

definition IOMEM_RESOURCE :: Resource where
  "IOMEM_RESOURCE = resource_new 0 (- 1) IORESOURCE_MEM"

type_synonym store = "nat \<Rightarrow> Resource"

definition upd :: "nat \<Rightarrow> (Resource \<Rightarrow> Resource) \<Rightarrow> store \<Rightarrow> store" where
  "upd a f st = st(a := f (st a))"

datatype link = ChildOf nat | SiblingOf nat

fun get_link :: "store \<Rightarrow> link \<Rightarrow> nat option" where
  "get_link st (ChildOf a) = r_child (st a)"
| "get_link st (SiblingOf a) = r_sibling (st a)"

fun set_link :: "link \<Rightarrow> nat option \<Rightarrow> store \<Rightarrow> store" where
  "set_link (ChildOf a) v st = upd a (r_child_update (\<lambda>_. v)) st"
| "set_link (SiblingOf a) v st = upd a (r_sibling_update (\<lambda>_. v)) st"

section \<open>Traversal, request and release\<close>

definition next_body :: "store \<Rightarrow> nat \<Rightarrow> nat \<Rightarrow> nat + nat option" where
  "next_body st subtree_root current =
     (if r_sibling (st current) \<noteq> None then Inr (r_sibling (st current))
      else case r_parent (st current) of
             Some parent \<Rightarrow> if parent = subtree_root then Inr None else Inl parent
           | None \<Rightarrow> Inr None)"

definition next_resource :: "store \<Rightarrow> nat \<Rightarrow> bool \<Rightarrow> nat \<Rightarrow> nat option option" where
  "next_resource st p skip_children subtree_root =
     (if \<not> skip_children \<and> r_child (st p) \<noteq> None then Some (r_child (st p))
      else loop (next_body st subtree_root) p)"

definition link_in :: "nat \<Rightarrow> nat \<Rightarrow> link \<Rightarrow> nat option \<Rightarrow> store \<Rightarrow> store" where
  "link_in root new p next st =
     (let st1 = upd new (\<lambda>r. r\<lparr>r_sibling := next\<rparr>) st;
          st2 = set_link p (Some new) st1
      in upd new (\<lambda>r. r\<lparr>r_parent := Some root\<rparr>) st2)"

definition request_body :: "nat \<Rightarrow> nat \<Rightarrow> store \<Rightarrow> link \<Rightarrow> link + nat option \<times> store" where
  "request_body root new st p =
     (case get_link st p of
        Some tmp \<Rightarrow>
          if r_start (st tmp) > r_end (st new) then Inr (None, link_in root new p (Some tmp) st)
          else if r_end (st tmp) < r_start (st new) then Inl (SiblingOf tmp)
          else Inr (Some tmp, st)
      | None \<Rightarrow> Inr (None, link_in root new p None st))"

definition request_conflict :: "nat \<Rightarrow> nat \<Rightarrow> store \<Rightarrow> (nat option \<times> store) option" where
  "request_conflict root new st =
     (if r_end (st new) < r_start (st new) then Some (Some root, st)
      else if r_start (st new) < r_start (st root) then Some (Some root, st)
      else if r_end (st new) > r_end (st root) then Some (Some root, st)
      else loop (request_body root new st) (ChildOf root))"

definition request_resource :: "nat \<Rightarrow> nat \<Rightarrow> store \<Rightarrow> ((ResourceError, unit) outcome \<times> store) option" where
  "request_resource root new st =
     map_option (\<lambda>(conflict, st1). (if conflict \<noteq> None then Err ResBusy else Ok (), st1)) (request_conflict root new st)"

text \<open>The link that holds a node, and the loop that gives the children of a removed node to its parent.\<close>

definition find_link_body :: "nat \<Rightarrow> store \<Rightarrow> link \<Rightarrow> link + link option" where
  "find_link_body old st p =
     (case get_link st p of
        Some tmp \<Rightarrow> if tmp = old then Inr (Some p) else Inl (SiblingOf tmp)
      | None \<Rightarrow> Inr None)"

definition adopt_body :: "nat \<Rightarrow> nat \<times> store \<Rightarrow> nat \<times> store + nat \<times> store" where
  "adopt_body parent s =
     (case s of (chd, st) \<Rightarrow>
        let st1 = upd chd (\<lambda>r. r\<lparr>r_parent := Some parent\<rparr>) st
        in case r_sibling (st1 chd) of None \<Rightarrow> Inr (chd, st1) | Some n \<Rightarrow> Inl (n, st1))"

definition release_inner :: "nat \<Rightarrow> bool \<Rightarrow> store \<Rightarrow> ((ResourceError, unit) outcome \<times> store) option" where
  "release_inner old release_child st =
     (case r_parent (st old) of
        None \<Rightarrow> Some (Err ResInvalid, st)
      | Some parent \<Rightarrow>
          (case loop (find_link_body old st) (ChildOf parent) of
             None \<Rightarrow> None
           | Some None \<Rightarrow> Some (Err ResInvalid, st)
           | Some (Some p) \<Rightarrow>
               map_option (\<lambda>st1. (Ok (), upd old (\<lambda>r. r\<lparr>r_parent := None\<rparr>) st1))
                 (case r_child (st old) of
                    None \<Rightarrow> Some (set_link p (r_sibling (st old)) st)
                  | Some c \<Rightarrow>
                      if release_child then Some (set_link p (r_sibling (st old)) st)
                      else map_option (\<lambda>(chd, st1). 
                             let st2 = set_link p (r_child (st1 old)) st1
                             in upd chd (\<lambda>r. r\<lparr>r_sibling := r_sibling (st2 old)\<rparr>) st2)
                             (loop (adopt_body parent) (c, st)))))"

definition release_resource :: "nat \<Rightarrow> store \<Rightarrow> ((ResourceError, unit) outcome \<times> store) option" where
  "release_resource old st = release_inner old True st"

definition remove_resource :: "nat \<Rightarrow> store \<Rightarrow> ((ResourceError, unit) outcome \<times> store) option" where
  "remove_resource old st = release_inner old False st"

definition lookup_body :: "u64 \<Rightarrow> store \<Rightarrow> nat option \<Rightarrow> nat option + nat option" where
  "lookup_body start st res =
     (case res of
        Some current \<Rightarrow> if r_start (st current) = start then Inr (Some current) else Inl (r_sibling (st current))
      | None \<Rightarrow> Inr None)"

definition lookup_resource :: "nat \<Rightarrow> u64 \<Rightarrow> store \<Rightarrow> nat option option" where
  "lookup_resource root start st = loop (lookup_body start st) (r_child (st root))"

section \<open>Allocation\<close>

record ResourceConstraint =
  rc_min :: u64
  rc_max :: u64
  rc_align :: u64

definition resource_clip :: "Resource \<Rightarrow> u64 \<Rightarrow> u64 \<Rightarrow> Resource" where
  "resource_clip res mn mx =
     (let res1 = (if r_start res < mn then res\<lparr>r_start := mn\<rparr> else res)
      in if r_end res1 > mx then res1\<lparr>r_end := mx\<rparr> else res1)"

definition align_up :: "u64 \<Rightarrow> u64 \<Rightarrow> u64" where
  "align_up val align = (val + align - 1) AND NOT (align - 1)"

text \<open>The clipped range is a temporary of the code, and its bounds are not read back.\<close>

definition space_body ::
  "nat \<Rightarrow> nat option \<Rightarrow> u64 \<Rightarrow> ResourceConstraint \<Rightarrow> store \<Rightarrow> nat option \<times> u64 \<Rightarrow>
   nat option \<times> u64 + (ResourceError, u64 \<times> u64) outcome" where
  "space_body root old n c st s =
     (case s of (this, tmp_start) \<Rightarrow>
        let tmp_end = (case this of
              Some current \<Rightarrow>
                if this = old then r_end (st current)
                else if r_start (st current) = 0 then 0 else r_start (st current) - 1
            | None \<Rightarrow> r_end (st root));
            temporary = resource_clip (resource_new tmp_start tmp_end 0) (rc_min c) (rc_max c);
            avail_start = align_up tmp_start (rc_align c);
            alloc_end = avail_start + n - 1
        in if tmp_end \<ge> tmp_start \<and> avail_start \<ge> tmp_start \<and> avail_start \<le> tmp_end \<and>
              avail_start \<le> alloc_end \<and> alloc_end \<le> tmp_end
           then Inr (Ok (avail_start, alloc_end))
           else case this of
                  None \<Rightarrow> Inr (Err ResBusy)
                | Some current \<Rightarrow>
                    if r_end (st current) = r_end (st root) then Inr (Err ResBusy)
                    else Inl (r_sibling (st current), if this \<noteq> old then r_end (st current) + 1 else tmp_start))"

definition find_resource_space ::
  "nat \<Rightarrow> nat option \<Rightarrow> u64 \<Rightarrow> ResourceConstraint \<Rightarrow> store \<Rightarrow> (ResourceError, u64 \<times> u64) outcome option" where
  "find_resource_space root old n c st =
     loop (space_body root old n c st)
       (case r_child (st root) of
          Some first \<Rightarrow>
            if r_start (st first) = r_start (st root)
            then (r_sibling (st first), if Some first = old then r_start (st first) else r_end (st first) + 1)
            else (Some first, r_start (st root))
        | None \<Rightarrow> (None, r_start (st root)))"

definition set_range :: "nat \<Rightarrow> u64 \<times> u64 \<Rightarrow> store \<Rightarrow> store" where
  "set_range a w st = upd a (\<lambda>r. r\<lparr>r_start := fst w, r_end := snd w\<rparr>) st"

definition reallocate_resource ::
  "nat \<Rightarrow> nat \<Rightarrow> u64 \<Rightarrow> ResourceConstraint \<Rightarrow> store \<Rightarrow> ((ResourceError, unit) outcome \<times> store) option" where
  "reallocate_resource root old newsize c st =
     (case find_resource_space root (Some old) newsize c st of
        None \<Rightarrow> None
      | Some (Ok w) \<Rightarrow>
          let new_res = (resource_new (r_start (st old)) (r_end (st old)) (r_flags (st old)))\<lparr>r_start := fst w, r_end := snd w\<rparr>
          in if res_contains new_res (st old) then Some (Ok (), set_range old w st)
             else if r_child (st old) \<noteq> None then Some (Err ResBusy, st)
             else if res_contains (st old) new_res then Some (Ok (), set_range old w st)
             else (case release_inner old True st of
                     Some (Ok _, st1) \<Rightarrow>
                       map_option (\<lambda>(conflict, st2). (if conflict \<noteq> None then Err ResBusy else Ok (), st2))
                         (request_conflict root old (set_range old w st1))
                   | r \<Rightarrow> r)
      | Some (Err e) \<Rightarrow> Some (Err e, st)
      | Some Panic \<Rightarrow> Some (Panic, st))"

definition allocate_resource ::
  "nat \<Rightarrow> nat \<Rightarrow> u64 \<Rightarrow> ResourceConstraint \<Rightarrow> store \<Rightarrow> ((ResourceError, unit) outcome \<times> store) option" where
  "allocate_resource root new n c st =
     (if r_parent (st new) \<noteq> None then reallocate_resource root new n c st
      else case find_resource_space root None n c st of
        None \<Rightarrow> None
      | Some (Ok w) \<Rightarrow>
          map_option (\<lambda>(conflict, st1). (if conflict \<noteq> None then Err ResBusy else Ok (), st1))
            (request_conflict root new (set_range new w st))
      | Some (Err e) \<Rightarrow> Some (Err e, st)
      | Some Panic \<Rightarrow> Some (Panic, st))"

section \<open>Insertion and adjustment\<close>

text \<open>The descent to the innermost resource that covers the new one.\<close>

datatype descent = Inserted store | Refused nat | Stopped nat

definition descend_body :: "nat \<Rightarrow> store \<Rightarrow> nat \<Rightarrow> nat + descent option" where
  "descend_body new st current_parent =
     (case request_conflict current_parent new st of
        None \<Rightarrow> Inr None
      | Some (None, st1) \<Rightarrow> Inr (Some (Inserted st1))
      | Some (Some first, _) \<Rightarrow>
          if first = current_parent then Inr (Some (Refused first))
          else if first = new then Inr (Some (Refused first))
          else if r_start (st first) > r_start (st new) \<or> r_end (st first) < r_end (st new)
          then Inr (Some (Stopped current_parent))
          else if r_start (st first) = r_start (st new) \<and> r_end (st first) = r_end (st new)
          then Inr (Some (Stopped current_parent))
          else Inl first)"

definition covered_body :: "nat \<Rightarrow> store \<Rightarrow> nat \<Rightarrow> nat + nat + nat" where
  "covered_body new st next =
     (if r_start (st next) < r_start (st new) \<or> r_end (st next) > r_end (st new) then Inr (Inl next)
      else case r_sibling (st next) of
             None \<Rightarrow> Inr (Inr next)
           | Some next_sib \<Rightarrow>
               if r_start (st next_sib) > r_end (st new) then Inr (Inr next) else Inl next_sib)"

definition scan_body :: "nat \<Rightarrow> store \<Rightarrow> nat \<Rightarrow> nat + (unit, nat) outcome" where
  "scan_body first st scan =
     (if r_sibling (st scan) = Some first then Inr (Ok scan)
      else case r_sibling (st scan) of None \<Rightarrow> Inr Panic | Some s \<Rightarrow> Inl s)"

text \<open>The children from \<open>first\<close> to \<open>last\<close> move under the new node, which takes their place.\<close>

definition reparent :: "nat \<Rightarrow> nat \<Rightarrow> nat \<Rightarrow> nat \<Rightarrow> store \<Rightarrow> ((unit, unit) outcome \<times> store) option" where
  "reparent current_parent new first next st =
     (let st1 = upd new (\<lambda>r. r\<lparr>r_parent := Some current_parent, r_sibling := r_sibling (st next), r_child := Some first\<rparr>) st;
          st2 = upd next (\<lambda>r. r\<lparr>r_sibling := None\<rparr>) st1
      in case loop (adopt_body new) (first, st2) of
           None \<Rightarrow> None
         | Some (_, st3) \<Rightarrow>
             if r_child (st3 current_parent) = Some first
             then Some (Ok (), upd current_parent (\<lambda>r. r\<lparr>r_child := Some new\<rparr>) st3)
             else (case r_child (st3 current_parent) of
                     None \<Rightarrow> Some (Panic, st3)
                   | Some scan \<Rightarrow>
                       map_option (\<lambda>r. case r of
                           Ok a \<Rightarrow> (Ok (), upd a (\<lambda>r. r\<lparr>r_sibling := Some new\<rparr>) st3)
                         | _ \<Rightarrow> (Panic, st3))
                         (loop (scan_body first st3) scan)))"

definition insert_conflict :: "nat \<Rightarrow> nat \<Rightarrow> store \<Rightarrow> ((unit, nat option) outcome \<times> store) option" where
  "insert_conflict parent new st =
     (case loop (descend_body new st) parent of
        Some (Some (Inserted st1)) \<Rightarrow> Some (Ok None, st1)
      | Some (Some (Refused a)) \<Rightarrow> Some (Ok (Some a), st)
      | Some (Some (Stopped current_parent)) \<Rightarrow>
          (case request_conflict current_parent new st of
             Some (Some first, st1) \<Rightarrow>
               (case loop (covered_body new st1) first of
                  None \<Rightarrow> None
                | Some (Inl a) \<Rightarrow> Some (Ok (Some a), st1)
                | Some (Inr next) \<Rightarrow>
                    map_option (\<lambda>(r, st2). (case r of Ok _ \<Rightarrow> Ok None | _ \<Rightarrow> Panic, st2))
                      (reparent current_parent new first next st1))
           | Some (None, st1) \<Rightarrow> Some (Panic, st1)
           | None \<Rightarrow> None)
      | _ \<Rightarrow> None)"

definition insert_resource :: "nat \<Rightarrow> nat \<Rightarrow> store \<Rightarrow> ((ResourceError, unit) outcome \<times> store) option" where
  "insert_resource parent new st =
     map_option (\<lambda>(r, st1). (case r of Ok None \<Rightarrow> Ok () | Ok (Some _) \<Rightarrow> Err ResBusy | _ \<Rightarrow> Panic, st1))
       (insert_conflict parent new st)"

definition previous_body :: "nat \<Rightarrow> u64 \<Rightarrow> store \<Rightarrow> nat option \<Rightarrow> nat option + bool" where
  "previous_body res start st tmp =
     (case tmp of
        None \<Rightarrow> Inr True
      | Some current \<Rightarrow>
          if r_sibling (st current) = Some res then Inr (\<not> start \<le> r_end (st current))
          else Inl (r_sibling (st current)))"

definition children_body :: "u64 \<Rightarrow> u64 \<Rightarrow> store \<Rightarrow> nat option \<Rightarrow> nat option + bool" where
  "children_body s e st child =
     (case child of
        None \<Rightarrow> Inr True
      | Some current \<Rightarrow>
          if r_start (st current) < s \<or> r_end (st current) > e then Inr False
          else Inl (r_sibling (st current)))"

definition adjust_resource :: "nat \<Rightarrow> u64 \<Rightarrow> u64 \<Rightarrow> store \<Rightarrow> ((ResourceError, unit) outcome \<times> store) option" where
  "adjust_resource res start n st =
     (let e = start + n - 1;
          fits = (case r_parent (st res) of
            None \<Rightarrow> Some True
          | Some parent \<Rightarrow>
              if start < r_start (st parent) \<or> e > r_end (st parent) then Some False
              else if (case r_sibling (st res) of Some sb \<Rightarrow> r_start (st sb) \<le> e | None \<Rightarrow> False) then Some False
              else if r_child (st parent) = Some res then Some True
              else loop (previous_body res start st) (r_child (st parent)))
      in case fits of
           None \<Rightarrow> None
         | Some False \<Rightarrow> Some (Err ResBusy, st)
         | Some True \<Rightarrow>
             map_option (\<lambda>ok. if ok then (Ok (), set_range res (start, e) st) else (Err ResBusy, st))
               (loop (children_body start e st) (r_child (st res))))"

section \<open>Chains of siblings\<close>

text \<open>From the pointer \<open>p\<close> the siblings \<open>xs\<close>, and after them the pointer \<open>q\<close>.\<close>

fun seg :: "store \<Rightarrow> nat option \<Rightarrow> nat list \<Rightarrow> nat option \<Rightarrow> bool" where
  "seg st p [] q \<longleftrightarrow> p = q"
| "seg st p (a # as) q \<longleftrightarrow> p = Some a \<and> seg st (r_sibling (st a)) as q"

lemma seg_append: "seg st p (xs @ ys) q \<longleftrightarrow> (\<exists>m. seg st p xs m \<and> seg st m ys q)"
  by (induction xs arbitrary: p) auto

lemma seg_cong: "(\<And>a. a \<in> set xs \<Longrightarrow> r_sibling (st' a) = r_sibling (st a)) \<Longrightarrow> seg st' p xs q \<longleftrightarrow> seg st p xs q"
  by (induction xs arbitrary: p) auto

lemma seg_start: "seg st p xs q \<Longrightarrow> p = (case xs of [] \<Rightarrow> q | x # _ \<Rightarrow> Some x)"
  by (cases xs) auto

definition link_after :: "nat \<Rightarrow> nat list \<Rightarrow> link" where
  "link_after root xs = (if xs = [] then ChildOf root else SiblingOf (last xs))"

lemma link_after_simps [simp]: "link_after root [] = ChildOf root" "link_after root (xs @ [a]) = SiblingOf a"
  by (simp_all add: link_after_def)

lemma get_link_after: "seg st (r_child (st root)) xs m \<Longrightarrow> get_link st (link_after root xs) = m"
  by (cases xs rule: rev_cases) (auto simp: seg_append)

text \<open>Redirecting the link after \<open>xs\<close> changes nothing else.\<close>

lemma set_link_seg:
  assumes "seg st (r_child (st root)) xs m" "distinct (root # xs)"
  shows "seg (set_link (link_after root xs) v st) (r_child (set_link (link_after root xs) v st root)) xs v"
proof (cases xs rule: rev_cases)
  case (snoc zs a)
  have "seg (set_link (SiblingOf a) v st) p zs q \<longleftrightarrow> seg st p zs q" for p q
    using assms(2) by (intro seg_cong) (auto simp: upd_def snoc)
  then show ?thesis using assms by (auto simp: snoc seg_append upd_def)
qed (simp add: upd_def)

definition on_link :: "link \<Rightarrow> nat" where
  "on_link p = (case p of ChildOf a \<Rightarrow> a | SiblingOf a \<Rightarrow> a)"

lemma set_link_fields [simp]:
  "r_start (set_link p v st a) = r_start (st a)" "r_end (set_link p v st a) = r_end (st a)"
  "r_parent (set_link p v st a) = r_parent (st a)" "r_flags (set_link p v st a) = r_flags (st a)"
  "a \<noteq> on_link p \<Longrightarrow> set_link p v st a = st a"
  by (cases p; simp add: upd_def on_link_def)+

lemma on_link_after: "on_link (link_after root xs) \<in> set (root # xs)"
  by (simp add: link_after_def on_link_def)

text \<open>
  The children of a node: linked in order, with the node as parent, valid ranges inside the node's, each
  wholly before the next.
\<close>

definition child_ok :: "store \<Rightarrow> nat \<Rightarrow> nat \<Rightarrow> bool" where
  "child_ok st root c \<longleftrightarrow> r_parent (st c) = Some root \<and> r_start (st c) \<le> r_end (st c) \<and>
     r_start (st root) \<le> r_start (st c) \<and> r_end (st c) \<le> r_end (st root)"

definition kids :: "store \<Rightarrow> nat \<Rightarrow> nat list \<Rightarrow> bool" where
  "kids st root cs \<longleftrightarrow> seg st (r_child (st root)) cs None \<and> distinct (root # cs) \<and>
     (\<forall>c \<in> set cs. child_ok st root c) \<and> sorted_wrt (\<lambda>a b. r_end (st a) < r_start (st b)) cs"

section \<open>Request\<close>

definition valid_in :: "store \<Rightarrow> nat \<Rightarrow> nat \<Rightarrow> bool" where
  "valid_in st root new \<longleftrightarrow> r_start (st new) \<le> r_end (st new) \<and> r_start (st root) \<le> r_start (st new) \<and>
     r_end (st new) \<le> r_end (st root)"

lemma request_walk:
  assumes "seg st (r_child (st root)) (xs @ ys) None" "\<forall>c \<in> set ys. r_start (st c) \<le> r_end (st c)"
    and "r_start (st new) \<le> r_end (st new)"
  shows "loop (request_body root new st) (link_after root xs) = Some
    (let before = takeWhile (\<lambda>c. r_end (st c) < r_start (st new)) ys
     in case dropWhile (\<lambda>c. r_end (st c) < r_start (st new)) ys of
          [] \<Rightarrow> (None, link_in root new (link_after root (xs @ before)) None st)
        | c # _ \<Rightarrow> if r_start (st c) > r_end (st new)
                    then (None, link_in root new (link_after root (xs @ before)) (Some c) st) else (Some c, st))"
  using assms(1,2)
proof (induction ys arbitrary: xs)
  case Nil
  then have "get_link st (link_after root xs) = None" by (simp add: get_link_after)
  then show ?case by (simp add: loop_Inr request_body_def)
next
  case (Cons y ys)
  then have g: "get_link st (link_after root xs) = Some y" by (auto simp: seg_append intro!: get_link_after)
  show ?case
  proof (cases "r_end (st y) < r_start (st new)")
    case True
    then have "\<not> r_start (st y) > r_end (st new)" using Cons.prems(2) assms(3) by auto
    then have "request_body root new st (link_after root xs) = Inl (link_after root (xs @ [y]))"
      using g True by (simp add: request_body_def)
    then show ?thesis using Cons.IH [of "xs @ [y]", unfolded append.assoc append_Cons append_Nil] Cons.prems True by (simp add: loop_Inl Let_def)
  next
    case False
    then show ?thesis using g by (simp add: loop_Inr request_body_def)
  qed
qed

lemma link_in_kids:
  assumes K: "kids st root (xs @ ys)" and new: "new \<notin> set (root # xs @ ys)" "valid_in st root new"
    and "\<forall>c \<in> set xs. r_end (st c) < r_start (st new)" "\<forall>c \<in> set ys. r_end (st new) < r_start (st c)"
  shows "kids (link_in root new (link_after root xs) (case ys of [] \<Rightarrow> None | c # _ \<Rightarrow> Some c) st) root (xs @ new # ys)"
proof -
  define q where "q = (case ys of [] \<Rightarrow> None | c # _ \<Rightarrow> Some c)"
  define st1 where "st1 = upd new (\<lambda>r. r\<lparr>r_sibling := q\<rparr>) st"
  define st2 where "st2 = set_link (link_after root xs) (Some new) st1"
  define st3 where "st3 = link_in root new (link_after root xs) q st"
  have st3: "st3 = upd new (\<lambda>r. r\<lparr>r_parent := Some root\<rparr>) st2" by (simp add: st3_def link_in_def Let_def st1_def st2_def)
  have d: "distinct (root # xs @ ys)" and s: "seg st (r_child (st root)) (xs @ ys) None"
    using K by (simp_all add: kids_def)
  have s1: "seg st (r_child (st root)) xs q" and s2: "seg st q ys None"
    using s unfolding seg_append q_def by (auto dest: seg_start)
  have on: "on_link (link_after root xs) \<in> set (root # xs)" by (rule on_link_after)
  have "seg st1 (r_child (st1 root)) xs q"
    using s1 new(1) by (subst seg_cong [where st = st]) (auto simp: st1_def upd_def)
  then have "seg st2 (r_child (st2 root)) xs (Some new)"
    unfolding st2_def using d by (intro set_link_seg) auto
  then have a: "seg st3 (r_child (st3 root)) xs (Some new)"
    using new(1) by (subst seg_cong [where st = st2]) (auto simp: st3 upd_def)
  have o: "st2 a = st1 a" if "a \<notin> set (root # xs)" for a
    unfolding st2_def using on that by (intro set_link_fields(5)) auto
  have sib: "r_sibling (st3 new) = q" using o [of new] new(1) by (simp add: st3 upd_def st1_def)
  have "seg st3 q ys None"
  proof (subst seg_cong [where st = st])
    fix a assume "a \<in> set ys"
    then have "a \<notin> set (root # xs)" "a \<noteq> new" using d new(1) by auto
    then show "r_sibling (st3 a) = r_sibling (st a)" using o [of a] by (simp add: st3 upd_def st1_def)
  qed (rule s2)
  with a sib have chain: "seg st3 (r_child (st3 root)) (xs @ new # ys) None" by (auto simp: seg_append)
  have rg: "r_start (st3 a) = r_start (st a)" "r_end (st3 a) = r_end (st a)" for a
    by (simp_all add: st3 st2_def st1_def upd_def)
  have par: "r_parent (st3 a) = (if a = new then Some root else r_parent (st a))" for a
    by (simp add: st3 st2_def st1_def upd_def)
  have "\<forall>c \<in> set (xs @ new # ys). child_ok st3 root c"
    using K new by (auto simp: kids_def child_ok_def rg par valid_in_def)
  moreover have "sorted_wrt (\<lambda>a b. r_end (st3 a) < r_start (st3 b)) (xs @ new # ys)"
    using K assms(4,5) new(2) unfolding kids_def rg sorted_wrt_append by auto
  moreover have "distinct (root # xs @ new # ys)" using d new(1) by auto
  ultimately have "kids st3 root (xs @ new # ys)" using chain by (simp add: kids_def)
  then show ?thesis by (simp add: st3_def q_def)
qed

text \<open>Stores that differ in their links only.\<close>

definition relinked :: "Resource \<Rightarrow> Resource \<Rightarrow> bool" where
  "relinked r r' \<longleftrightarrow> r' = r\<lparr>r_parent := r_parent r', r_sibling := r_sibling r', r_child := r_child r'\<rparr>"

lemma relinked_links: "relinked r r' \<Longrightarrow> \<exists>p s c. r' = r\<lparr>r_parent := p, r_sibling := s, r_child := c\<rparr>"
  unfolding relinked_def by blast

lemma link_in_links: "\<exists>p s c. link_in root new k q st a = (st a)\<lparr>r_parent := p, r_sibling := s, r_child := c\<rparr>"
  by (rule relinked_links) (cases k; simp add: relinked_def link_in_def Let_def upd_def)

text \<open>The children before and after the place of a new range.\<close>

definition kids_before :: "store \<Rightarrow> nat \<Rightarrow> nat list \<Rightarrow> nat list" where
  "kids_before st new cs = takeWhile (\<lambda>c. r_end (st c) < r_start (st new)) cs"

definition kids_after :: "store \<Rightarrow> nat \<Rightarrow> nat list \<Rightarrow> nat list" where
  "kids_after st new cs = dropWhile (\<lambda>c. r_end (st c) < r_start (st new)) cs"

lemma kids_split: "kids_before st new cs @ kids_after st new cs = cs"
  by (simp add: kids_before_def kids_after_def)

lemma kids_before_less: "c \<in> set (kids_before st new cs) \<Longrightarrow> r_end (st c) < r_start (st new)"
  by (auto simp: kids_before_def dest: set_takeWhileD)

lemma request_runs:
  assumes "kids st root cs" "valid_in st root new"
  shows "request_conflict root new st = Some (case kids_after st new cs of
          [] \<Rightarrow> (None, link_in root new (link_after root (kids_before st new cs)) None st)
        | c # _ \<Rightarrow> if r_start (st c) > r_end (st new)
                    then (None, link_in root new (link_after root (kids_before st new cs)) (Some c) st) else (Some c, st))"
proof -
  have v: "r_start (st new) \<le> r_end (st new)" using assms(2) by (simp add: valid_in_def)
  have vc: "\<forall>c \<in> set cs. r_start (st c) \<le> r_end (st c)" using assms(1) by (simp add: kids_def child_ok_def)
  have "request_conflict root new st = loop (request_body root new st) (link_after root [])"
    using assms(2) unfolding valid_in_def not_less [symmetric] by (simp add: request_conflict_def)
  then show ?thesis
    using request_walk [of st root "[]" cs new, unfolded append_Nil Let_def, folded kids_before_def kids_after_def] assms(1) v vc
    by (simp add: kids_def del: link_after_simps)
qed

lemma request_free:
  assumes "kids st root cs" "valid_in st root new" "new \<notin> set (root # cs)"
    and "\<forall>c \<in> set cs. \<not> res_overlaps (st c) (st new)"
  shows "\<exists>st1. request_conflict root new st = Some (None, st1) \<and> kids st1 root (kids_before st new cs @ new # kids_after st new cs) \<and>
    (\<forall>a. \<exists>p s c. st1 a = (st a)\<lparr>r_parent := p, r_sibling := s, r_child := c\<rparr>) \<and>
    (\<forall>a. a \<notin> set (new # root # cs) \<longrightarrow> st1 a = st a)"
proof -
  let ?b = "kids_before st new cs" and ?a = "kids_after st new cs"
  define st1 where "st1 = link_in root new (link_after root ?b) (case ?a of [] \<Rightarrow> None | c # _ \<Rightarrow> Some c) st"
  have v: "r_start (st new) \<le> r_end (st new)" using assms(2) by (simp add: valid_in_def)
  have sub: "set cs = set ?b \<union> set ?a" using kids_split [of st new cs] by (metis set_append)
  have a: "r_end (st new) < r_start (st c)" if c: "c \<in> set ?a" for c
  proof -
    obtain k ks where k: "?a = k # ks" using c by (cases ?a) auto
    then have "\<not> r_end (st k) < r_start (st new)" unfolding kids_after_def by (metis dropWhile_eq_Cons_conv)
    moreover have "k \<in> set cs" using k sub by auto
    ultimately have kf: "r_end (st new) < r_start (st k)" using assms(4) by (auto simp: res_overlaps_def)
    have "sorted_wrt (\<lambda>a b. r_end (st a) < r_start (st b)) (?b @ ?a)" "r_start (st k) \<le> r_end (st k)"
      using assms(1) \<open>k \<in> set cs\<close> by (simp_all add: kids_split kids_def child_ok_def)
    then have "c = k \<or> r_end (st k) < r_start (st c)" "r_start (st k) \<le> r_end (st k)" using c k by (auto simp: sorted_wrt_append)
    then show ?thesis using kf by auto
  qed
  have "request_conflict root new st = Some (None, st1)"
    unfolding request_runs [OF assms(1,2)] st1_def using a by (auto split: list.split)
  moreover have "kids st1 root (?b @ new # ?a)"
    unfolding st1_def using assms(1-3) a kids_before_less sub by (intro link_in_kids) (auto simp: kids_split)
  moreover have "\<exists>p s c. st1 a = (st a)\<lparr>r_parent := p, r_sibling := s, r_child := c\<rparr>" for a
    unfolding st1_def by (rule link_in_links)
  moreover have "st1 a = st a" if "a \<notin> set (new # root # cs)" for a
  proof -
    have "a \<noteq> on_link (link_after root ?b)" using that on_link_after [of root ?b] sub by auto
    then show ?thesis using that by (simp add: st1_def link_in_def Let_def upd_def)
  qed
  ultimately show ?thesis by blast
qed

text \<open>
  C28 (functional). A request into a well-formed list of children returns: it links the new range in its place and
  changes nothing else but the links when the range is valid, inside the parent and free;
  otherwise it changes nothing and names the parent or the first child in the way.
\<close>

theorem resource_request:
  assumes "kids st root cs" "new \<notin> set (root # cs)"
  shows "\<exists>r st1. request_conflict root new st = Some (r, st1) \<and>
    (if valid_in st root new \<and> filter (\<lambda>c. res_overlaps (st c) (st new)) cs = []
     then r = None \<and> kids st1 root (kids_before st new cs @ new # kids_after st new cs) \<and>
          (\<forall>a. \<exists>p s c. st1 a = (st a)\<lparr>r_parent := p, r_sibling := s, r_child := c\<rparr>) \<and>
          (\<forall>a. a \<notin> set (new # root # cs) \<longrightarrow> st1 a = st a)
     else st1 = st \<and>
          r = Some (if valid_in st root new then hd (filter (\<lambda>c. res_overlaps (st c) (st new)) cs) else root))"
proof (cases "valid_in st root new")
  case False
  then have "request_conflict root new st = Some (Some root, st)" by (auto simp: request_conflict_def valid_in_def not_le)
  with False show ?thesis by simp
next
  case True
  show ?thesis
  proof (cases "filter (\<lambda>c. res_overlaps (st c) (st new)) cs")
    case Nil
    then show ?thesis using request_free [OF assms(1) True assms(2)] True by (auto simp: filter_empty_conv)
  next
    case (Cons k ks)
    let ?o = "filter (\<lambda>c. res_overlaps (st c) (st new))"
    have "?o (kids_before st new cs) = []"
      by (auto simp: filter_empty_conv res_overlaps_def dest: kids_before_less)
    then have f: "?o (kids_after st new cs) = k # ks"
      using Cons kids_split [of st new cs] by (metis append_Nil filter_append)
    then obtain c as where a: "kids_after st new cs = c # as" by (cases "kids_after st new cs") auto
    have nb: "r_start (st new) \<le> r_end (st c)"
      using a unfolding kids_after_def by (metis dropWhile_eq_Cons_conv linorder_not_less)
    have "sorted_wrt (\<lambda>a b. r_end (st a) < r_start (st b)) (kids_before st new cs @ c # as)"
      using assms(1) kids_split [of st new cs] a by (simp add: kids_def)
    moreover have "c \<in> set cs" using kids_split [of st new cs] a by (metis in_set_conv_decomp)
    ultimately have s: "sorted_wrt (\<lambda>a b. r_end (st a) < r_start (st b)) (c # as)" "r_start (st c) \<le> r_end (st c)"
      using assms(1) unfolding kids_def child_ok_def sorted_wrt_append by simp_all
    have "r_start (st c) \<le> r_end (st new)"
    proof (rule ccontr)
      assume "\<not> ?thesis"
      then have "?o (c # as) = []" using s by (auto simp: filter_empty_conv res_overlaps_def dest!: bspec)
      then show False using f a by simp
    qed
    then have "k = c" "request_conflict root new st = Some (Some c, st)"
      using f a nb request_runs [OF assms(1) True] by (auto simp: res_overlaps_def)
    then show ?thesis using Cons True by simp
  qed
qed

text \<open>A root with two children, a range between them, one that covers them and one not yet placed.\<close>

definition tree_example :: store where
  "tree_example = (\<lambda>_. resource_new 0 0 IORESOURCE_MEM)
     (0 := (resource_new 0 0xFFFF IORESOURCE_MEM)\<lparr>r_child := Some 1\<rparr>,
      1 := (resource_new 0x1000 0x1FFF IORESOURCE_MEM)\<lparr>r_parent := Some 0, r_sibling := Some 2\<rparr>,
      2 := (resource_new 0x3000 0x3FFF IORESOURCE_MEM)\<lparr>r_parent := Some 0\<rparr>,
      3 := resource_new 0x2000 0x2FFF IORESOURCE_MEM,
      4 := resource_new 0x1000 0x3FFF IORESOURCE_MEM)"

lemma tree_example_kids: "kids tree_example 0 [1, 2]"
  by (simp add: kids_def child_ok_def tree_example_def resource_new_def)

theorem resource_request_witness:
  "\<exists>st1. request_conflict 0 3 tree_example = Some (None, st1) \<and> kids st1 0 [1, 3, 2]"
proof -
  have "valid_in tree_example 0 3" "filter (\<lambda>c. res_overlaps (tree_example c) (tree_example 3)) [1, 2] = []"
    "kids_before tree_example 3 [1, 2] = [1]" "kids_after tree_example 3 [1, 2] = [2]"
    by (simp_all add: valid_in_def res_overlaps_def kids_before_def kids_after_def tree_example_def resource_new_def)
  then show ?thesis using resource_request [OF tree_example_kids, of 3] by auto
qed

section \<open>Release\<close>

lemma find_link_walk:
  assumes "seg st (r_child (st root)) (zs @ xs @ old # ys) None" "old \<notin> set xs"
  shows "loop (find_link_body old st) (link_after root zs) = Some (Some (link_after root (zs @ xs)))"
  using assms
proof (induction xs arbitrary: zs)
  case Nil
  then have "get_link st (link_after root zs) = Some old" by (auto simp: seg_append intro!: get_link_after)
  then show ?case by (simp add: loop_Inr find_link_body_def)
next
  case (Cons x xs)
  then have "get_link st (link_after root zs) = Some x" by (auto simp: seg_append intro!: get_link_after)
  then have "find_link_body old st (link_after root zs) = Inl (link_after root (zs @ [x]))"
    using Cons.prems by (simp add: find_link_body_def)
  then show ?case using Cons.IH [of "zs @ [x]"] Cons.prems by (simp add: loop_Inl)
qed

lemma adopt_walk:
  assumes "seg st (Some c) ds None" "distinct ds"
  shows "loop (adopt_body parent) (c, st) =
    Some (last ds, \<lambda>a. if a \<in> set ds then (st a)\<lparr>r_parent := Some parent\<rparr> else st a)"
  using assms
proof (induction ds arbitrary: c st)
  case (Cons d ds)
  define st1 where "st1 = upd c (\<lambda>r. r\<lparr>r_parent := Some parent\<rparr>) st"
  have c: "c = d" "seg st (r_sibling (st c)) ds None" using Cons.prems by auto
  have sib: "r_sibling (st1 c) = r_sibling (st c)" by (simp add: st1_def upd_def)
  show ?case
  proof (cases ds)
    case Nil
    then show ?thesis using c sib by (auto simp: loop_Inr adopt_body_def st1_def upd_def fun_eq_iff)
  next
    case (Cons e es)
    then have e: "r_sibling (st c) = Some e" using c by simp
    have "seg st1 (Some e) ds None"
      using c(2) unfolding e by (subst seg_cong [where st = st]) (simp_all add: st1_def upd_def)
    then have "loop (adopt_body parent) (e, st1) =
        Some (last ds, \<lambda>a. if a \<in> set ds then (st1 a)\<lparr>r_parent := Some parent\<rparr> else st1 a)"
      using Cons.IH \<open>distinct (d # ds)\<close> by simp
    moreover have "adopt_body parent (c, st) = Inl (e, st1)"
      using e sib by (simp add: adopt_body_def st1_def [symmetric])
    ultimately show ?thesis using Cons c by (auto simp: loop_Inl st1_def upd_def fun_eq_iff)
  qed
qed simp

lemma seg_disjoint_update: "a \<notin> set xs \<Longrightarrow> seg (upd a f st) p xs q \<longleftrightarrow> seg st p xs q"
  by (rule seg_cong) (auto simp: upd_def)

lemma release_leaf:
  assumes K: "kids st root (xs @ old # ys)" and "release_child \<or> r_child (st old) = None"
  shows "\<exists>st1. release_inner old release_child st = Some (Ok (), st1) \<and> kids st1 root (xs @ ys) \<and> r_parent (st1 old) = None"
proof -
  define p where "p = link_after root xs"
  define st1 where "st1 = upd old (\<lambda>r. r\<lparr>r_parent := None\<rparr>) (set_link p (r_sibling (st old)) st)"
  have s: "seg st (r_child (st root)) xs (Some old)" "seg st (r_sibling (st old)) ys None"
    and d: "distinct (root # xs @ old # ys)" and c: "\<forall>c \<in> set (xs @ old # ys). child_ok st root c"
    and o: "sorted_wrt (\<lambda>a b. r_end (st a) < r_start (st b)) (xs @ old # ys)"
    using K by (auto simp: kids_def seg_append)
  have "loop (find_link_body old st) (ChildOf root) = Some (Some p)"
    using find_link_walk [of st root "[]" xs old ys] K by (simp add: kids_def p_def)
  moreover have "r_parent (st old) = Some root" using c by (simp add: child_ok_def)
  ultimately have "release_inner old release_child st = Some (Ok (), st1)"
    using assms(2) by (auto simp: release_inner_def st1_def split: option.split)
  moreover have "seg st1 (r_child (st1 root)) (xs @ ys) None"
  proof -
    have on: "on_link p \<in> set (root # xs)" unfolding p_def by (rule on_link_after)
    have "seg st1 (r_child (st1 root)) xs (r_sibling (st old))"
      using set_link_seg [OF s(1), of "r_sibling (st old)"] d by (simp add: st1_def seg_disjoint_update p_def) (simp add: upd_def)
    moreover have "seg st1 (r_sibling (st old)) ys None"
    proof (subst seg_cong [where st = st])
      fix a assume "a \<in> set ys"
      then have "a \<noteq> old" "a \<noteq> on_link p" using d on by auto
      then show "r_sibling (st1 a) = r_sibling (st a)" by (simp add: st1_def upd_def)
    qed (rule s(2))
    ultimately show ?thesis by (auto simp: seg_append)
  qed
  moreover have rg: "r_start (st1 a) = r_start (st a)" "r_end (st1 a) = r_end (st a)" for a
    by (simp_all add: st1_def upd_def)
  moreover have "r_parent (st1 a) = (if a = old then None else r_parent (st a))" for a
    by (simp add: st1_def upd_def)
  ultimately show ?thesis
    using d c o by (auto simp: kids_def child_ok_def sorted_wrt_append)
qed

lemma remove_inner:
  assumes K: "kids st root (xs @ old # ys)" and D: "kids st old ds" "ds \<noteq> []" "set ds \<inter> set (root # xs @ old # ys) = {}"
  shows "\<exists>st1. release_inner old False st = Some (Ok (), st1) \<and> kids st1 root (xs @ ds @ ys) \<and> r_parent (st1 old) = None"
proof -
  define p where "p = link_after root xs"
  have s: "seg st (r_child (st root)) xs (Some old)" "seg st (r_sibling (st old)) ys None"
    and d: "distinct (root # xs @ old # ys)" and c: "\<forall>c \<in> set (xs @ old # ys). child_ok st root c"
    and o: "sorted_wrt (\<lambda>a b. r_end (st a) < r_start (st b)) (xs @ old # ys)"
    using K by (auto simp: kids_def seg_append)
  have dd: "distinct ds" "seg st (r_child (st old)) ds None" "\<forall>c \<in> set ds. child_ok st old c"
    "sorted_wrt (\<lambda>a b. r_end (st a) < r_start (st b)) ds"
    using D(1) by (auto simp: kids_def)
  obtain e es where ds: "ds = es @ [e]" using D(2) by (cases ds rule: rev_cases) auto
  define h where "h = hd ds"
  have h: "r_child (st old) = Some h" using seg_start [OF dd(2)] D(2) by (cases ds) (auto simp: h_def)
  define st1 where "st1 = (\<lambda>a. if a \<in> set ds then (st a)\<lparr>r_parent := Some root\<rparr> else st a)"
  define st2 where "st2 = set_link p (Some h) st1"
  define st3 where "st3 = upd e (\<lambda>r. r\<lparr>r_sibling := r_sibling (st old)\<rparr>) st2"
  define st4 where "st4 = upd old (\<lambda>r. r\<lparr>r_parent := None\<rparr>) st3"
  have on: "on_link p \<in> set (root # xs)" unfolding p_def by (rule on_link_after)
  then have on': "on_link p \<notin> set ds" "on_link p \<noteq> old" "\<forall>a \<in> set ys. a \<noteq> on_link p" using d D(3) by auto
  have old: "old \<notin> set ds" using D(3) by auto
  have o2: "st2 old = st old" using on' old by (simp add: st2_def st1_def)
  have "loop (find_link_body old st) (ChildOf root) = Some (Some p)"
    using find_link_walk [of st root "[]" xs old ys] K by (simp add: kids_def p_def)
  moreover have "loop (adopt_body root) (h, st) = Some (e, st1)"
    using adopt_walk [of st h ds root] dd(1,2) h by (simp add: st1_def ds)
  moreover have "r_parent (st old) = Some root" using c by (simp add: child_ok_def)
  moreover have "st1 old = st old" using old by (simp add: st1_def)
  ultimately have "release_inner old False st = Some (Ok (), st4)"
    using o2 h by (simp add: release_inner_def Let_def st4_def st3_def st2_def)
  moreover have "seg st4 (r_child (st4 root)) (xs @ ds @ ys) None"
  proof -
    have "seg st1 (r_child (st1 root)) xs (Some old)"
      using s(1) D(3) by (subst seg_cong [where st = st]) (auto simp: st1_def)
    then have "seg st2 (r_child (st2 root)) xs (Some h)"
      unfolding st2_def p_def using d by (intro set_link_seg) auto
    then have 1: "seg st4 (r_child (st4 root)) xs (Some h)"
      using d D(3) ds by (simp add: st4_def st3_def seg_disjoint_update) (auto simp: upd_def)
    have "r_sibling (st2 a) = r_sibling (st a)" if "a \<in> set ds" for a
    proof -
      have "a \<noteq> on_link p" using that on'(1) by auto
      then show ?thesis by (simp add: st2_def st1_def)
    qed
    then have "seg st2 (Some h) (es @ [e]) None"
      using dd(2) unfolding h ds [symmetric] by (subst seg_cong [where st = st]) auto
    then have "seg st4 (Some h) (es @ [e]) (r_sibling (st old))"
      using dd(1) old ds by (auto simp: seg_append st4_def st3_def seg_disjoint_update) (auto simp: upd_def)
    moreover have "seg st4 (r_sibling (st old)) ys None"
    proof (subst seg_cong [where st = st])
      fix a assume "a \<in> set ys"
      then have "a \<noteq> old" "a \<noteq> on_link p" "a \<noteq> e" using d on' D(3) ds by auto
      then show "r_sibling (st4 a) = r_sibling (st a)" by (simp add: st4_def st3_def st2_def st1_def upd_def)
    qed (rule s(2))
    ultimately show ?thesis using 1 ds by (auto simp: seg_append)
  qed
  moreover have rg: "r_start (st4 a) = r_start (st a)" "r_end (st4 a) = r_end (st a)" for a
    by (simp_all add: st4_def st3_def st2_def st1_def upd_def)
  moreover have "r_parent (st4 a) = (if a = old then None else if a \<in> set ds then Some root else r_parent (st a))" for a
    by (simp add: st4_def st3_def st2_def st1_def upd_def)
  moreover have "sorted_wrt (\<lambda>a b. r_end (st a) < r_start (st b)) (xs @ ds @ ys)"
    using o dd(3,4) by (fastforce simp: sorted_wrt_append child_ok_def)
  ultimately show ?thesis
    using d c o dd D(3) old by (auto simp: kids_def child_ok_def)
qed

section \<open>Allocation\<close>

text \<open>The gaps between the children, in order, and the test of a gap.\<close>

fun gaps :: "store \<Rightarrow> u64 \<Rightarrow> u64 \<Rightarrow> nat list \<Rightarrow> (u64 \<times> u64) list" where
  "gaps st hi lo [] = [(lo, hi)]"
| "gaps st hi lo (c # cs) =
     (lo, r_start (st c) - 1) # (if r_end (st c) = hi then [] else gaps st hi (r_end (st c) + 1) cs)"

definition space_gaps :: "store \<Rightarrow> nat \<Rightarrow> nat list \<Rightarrow> (u64 \<times> u64) list" where
  "space_gaps st root cs =
     (case cs of
        c # rest \<Rightarrow>
          if r_start (st c) = r_start (st root) then gaps st (r_end (st root)) (r_end (st c) + 1) rest
          else gaps st (r_end (st root)) (r_start (st root)) cs
      | [] \<Rightarrow> [(r_start (st root), r_end (st root))])"

definition fits :: "u64 \<Rightarrow> u64 \<Rightarrow> u64 \<times> u64 \<Rightarrow> bool" where
  "fits n align g \<longleftrightarrow> fst g \<le> snd g \<and> fst g \<le> align_up (fst g) align \<and> align_up (fst g) align \<le> snd g \<and>
     align_up (fst g) align \<le> align_up (fst g) align + n - 1 \<and> align_up (fst g) align + n - 1 \<le> snd g"

definition placed :: "u64 \<Rightarrow> u64 \<Rightarrow> (u64 \<times> u64) list \<Rightarrow> (ResourceError, u64 \<times> u64) outcome" where
  "placed n align gs = (case filter (fits n align) gs of
     [] \<Rightarrow> Err ResBusy | g # _ \<Rightarrow> Ok (align_up (fst g) align, align_up (fst g) align + n - 1))"

lemma placed_Cons: "placed n a (g # gs) =
    (if fits n a g then Ok (align_up (fst g) a, align_up (fst g) a + n - 1) else placed n a gs)"
  by (simp add: placed_def)

lemma space_walk:
  assumes "seg st this cs None" "\<forall>c \<in> set cs. r_start (st c) \<noteq> 0"
  shows "loop (space_body root None n c st) (this, lo) = Some (placed n (rc_align c) (gaps st (r_end (st root)) lo cs))"
  using assms
proof (induction cs arbitrary: this lo)
  case Nil
  then show ?case by (auto simp: loop_Inr space_body_def Let_def placed_Cons fits_def) (auto simp: placed_def)
next
  case (Cons k ks)
  then have k: "this = Some k" "seg st (r_sibling (st k)) ks None" "r_start (st k) \<noteq> 0" by auto
  let ?g = "(lo, r_start (st k) - 1)"
  show ?case
  proof (cases "fits n (rc_align c) ?g")
    case True
    then show ?thesis using k by (auto simp: loop_Inr space_body_def Let_def placed_Cons fits_def)
  next
    case False
    show ?thesis
    proof (cases "r_end (st k) = r_end (st root)")
      case True
      then show ?thesis using k False by (auto simp: loop_Inr space_body_def Let_def placed_Cons fits_def) (auto simp: placed_def)
    next
      case other: False
      then have "space_body root None n c st (this, lo) = Inl (r_sibling (st k), r_end (st k) + 1)"
        using k False by (auto simp: space_body_def Let_def fits_def)
      then show ?thesis using Cons.IH [OF k(2)] Cons.prems(2) other False by (simp add: loop_Inl placed_Cons)
    qed
  qed
qed

lemma find_space_placed:
  assumes "kids st root cs"
  shows "find_resource_space root None n c st = Some (placed n (rc_align c) (space_gaps st root cs))"
proof -
  have s: "seg st (r_child (st root)) cs None" and c: "\<forall>k \<in> set cs. child_ok st root k"
    and o: "sorted_wrt (\<lambda>a b. r_end (st a) < r_start (st b)) cs"
    using assms by (simp_all add: kids_def)
  show ?thesis
  proof (cases cs)
    case Nil
    then show ?thesis using s space_walk [of st None "[]" root n c] by (simp add: find_resource_space_def space_gaps_def)
  next
    case (Cons k ks)
    have nz: "\<forall>x \<in> set ks. r_start (st x) \<noteq> 0" using o Cons by auto
    have k: "r_child (st root) = Some k" "seg st (r_sibling (st k)) ks None" using s Cons by auto
    show ?thesis
    proof (cases "r_start (st k) = r_start (st root)")
      case True
      then show ?thesis using space_walk [OF k(2) nz] k Cons by (simp add: find_resource_space_def space_gaps_def)
    next
      case False
      then have "r_start (st k) \<noteq> 0" using c Cons by (auto simp: child_ok_def)
      then show ?thesis using space_walk [of st "Some k" cs root n c] s nz k False Cons
        by (simp add: find_resource_space_def space_gaps_def)
    qed
  qed
qed

lemma word_pred: "(a :: u64) \<noteq> 0 \<Longrightarrow> a - 1 < a"
  by unat_arith

lemma word_succ: "(a :: u64) < b \<Longrightarrow> a < a + 1 \<and> a + 1 \<le> b"
  by unat_arith

lemma gap_free:
  assumes "g \<in> set (gaps st hi lo cs)" "fst g \<le> snd g"
    and "sorted_wrt (\<lambda>a b. r_end (st a) < r_start (st b)) cs" "\<forall>c \<in> set cs. r_start (st c) \<le> r_end (st c) \<and> r_end (st c) \<le> hi"
    and "\<forall>c \<in> set cs. r_start (st c) \<noteq> 0 \<and> lo \<le> r_start (st c)"
  shows "(\<forall>c \<in> set cs. snd g < r_start (st c) \<or> r_end (st c) < fst g) \<and> lo \<le> fst g \<and> snd g \<le> hi"
  using assms
proof (induction cs arbitrary: lo)
  case (Cons c cs)
  have n: "r_start (st c) - 1 < r_start (st c)" using Cons.prems(5) by (simp add: word_pred)
  have o: "\<forall>x \<in> set cs. r_end (st c) < r_start (st x)" "r_start (st c) \<le> r_end (st c)" "r_end (st c) \<le> hi"
    using Cons.prems(3,4) by auto
  show ?case
  proof (cases "g = (lo, r_start (st c) - 1)")
    case True
    then have s: "snd g < r_start (st c)" "fst g = lo" using n by simp_all
    have "snd g < r_start (st x)" if "x \<in> set cs" for x
      using s(1) o(2) bspec [OF o(1) that] by (rule less_trans [OF less_le_trans])
    then show ?thesis using s o by (auto intro: less_imp_le order.trans)
  next
    case False
    then have g: "g \<in> set (gaps st hi (r_end (st c) + 1) cs)" "r_end (st c) < hi"
      using Cons.prems(1) o(3) by (auto split: if_splits)
    have "\<forall>x \<in> set cs. r_start (st x) \<noteq> 0 \<and> r_end (st c) + 1 \<le> r_start (st x)"
      using o(1) Cons.prems(5) word_succ by auto
    then have "(\<forall>x \<in> set cs. snd g < r_start (st x) \<or> r_end (st x) < fst g) \<and> r_end (st c) + 1 \<le> fst g \<and> snd g \<le> hi"
      using Cons.IH [OF g(1)] Cons.prems by simp
    moreover have "r_end (st c) < r_end (st c) + 1" using word_succ [OF g(2)] by simp
    moreover have "lo \<le> r_end (st c)" using Cons.prems(5) o(2) by auto
    ultimately show ?thesis by (auto intro: less_le_trans order.trans less_imp_le)
  qed
qed auto

text \<open>The only child that leaves no room without the code noticing covers everything up to the last address.\<close>

definition not_all :: "store \<Rightarrow> nat \<Rightarrow> nat list \<Rightarrow> bool" where
  "not_all st root cs \<longleftrightarrow> (\<forall>c \<in> set cs. r_start (st c) = r_start (st root) \<longrightarrow> r_end (st c) \<noteq> - 1)"

lemma space_gap_free:
  assumes "kids st root cs" "not_all st root cs" "g \<in> set (space_gaps st root cs)" "fst g \<le> snd g"
  shows "(\<forall>c \<in> set cs. snd g < r_start (st c) \<or> r_end (st c) < fst g) \<and> r_start (st root) \<le> fst g \<and> snd g \<le> r_end (st root)"
proof -
  have c: "\<forall>k \<in> set cs. child_ok st root k" and o: "sorted_wrt (\<lambda>a b. r_end (st a) < r_start (st b)) cs"
    using assms(1) by (simp_all add: kids_def)
  have v: "\<forall>k \<in> set cs. r_start (st k) \<le> r_end (st k) \<and> r_end (st k) \<le> r_end (st root)"
    "\<forall>k \<in> set cs. r_start (st root) \<le> r_start (st k)" using c by (auto simp: child_ok_def)
  show ?thesis
  proof (cases cs)
    case Nil
    then show ?thesis using assms(3) by (simp add: space_gaps_def)
  next
    case (Cons k ks)
    have nz: "\<forall>x \<in> set ks. r_start (st x) \<noteq> 0" using o Cons by auto
    show ?thesis
    proof (cases "r_start (st k) = r_start (st root)")
      case True
      have m: "r_end (st k) < - 1" using assms(2) True Cons by (auto simp: not_all_def order.not_eq_order_implies_strict)
      have k: "r_end (st k) < r_end (st k) + 1" using word_succ [OF m] by simp
      have "\<forall>x \<in> set ks. r_start (st x) \<noteq> 0 \<and> r_end (st k) + 1 \<le> r_start (st x)"
        using nz o Cons word_succ by auto
      then have "(\<forall>c \<in> set ks. snd g < r_start (st c) \<or> r_end (st c) < fst g) \<and> r_end (st k) + 1 \<le> fst g \<and> snd g \<le> r_end (st root)"
        using gap_free [of g st "r_end (st root)" "r_end (st k) + 1" ks] assms(3,4) True Cons o v by (simp add: space_gaps_def)
      moreover have "r_start (st root) \<le> r_end (st k)" using v(1) True Cons by auto
      ultimately show ?thesis using k Cons by (auto intro: less_le_trans order.trans less_imp_le)
    next
      case False
      then have "r_start (st k) \<noteq> 0" using v(2) Cons by auto
      then show ?thesis
        using gap_free [of g st "r_end (st root)" "r_start (st root)" cs] assms(3,4) False Cons o v nz
        by (simp add: space_gaps_def)
    qed
  qed
qed

lemma aligned_up: "align_up x a AND (a - 1) = 0"
  by (simp add: align_up_def and.assoc)

lemma allocate_first_fit:
  assumes "kids st root cs" "not_all st root cs" "new \<notin> set (root # cs)" "r_parent (st new) = None"
  shows "\<exists>r st1. allocate_resource root new n c st = Some (r, st1) \<and>
    allocate_resource root new n (c\<lparr>rc_min := lo, rc_max := hi\<rparr>) st = Some (r, st1) \<and>
    (case filter (fits n (rc_align c)) (space_gaps st root cs) of
       [] \<Rightarrow> r = Err ResBusy \<and> st1 = st
     | g # _ \<Rightarrow> r = Ok () \<and> r_start (st1 new) = align_up (fst g) (rc_align c) \<and>
         r_end (st1 new) = r_start (st1 new) + n - 1 \<and> r_start (st1 new) AND (rc_align c - 1) = 0 \<and>
         (\<exists>xs ys. cs = xs @ ys \<and> kids st1 root (xs @ new # ys)))"
proof -
  let ?a = "rc_align c"
  have F: "find_resource_space root None n d st = Some (placed n (rc_align d) (space_gaps st root cs))" for d
    by (rule find_space_placed [OF assms(1)])
  have same: "allocate_resource root new n (c\<lparr>rc_min := lo, rc_max := hi\<rparr>) st = allocate_resource root new n c st"
    using assms(4) by (simp add: allocate_resource_def F)
  show ?thesis
  proof (cases "filter (fits n ?a) (space_gaps st root cs)")
    case Nil
    then have "allocate_resource root new n c st = Some (Err ResBusy, st)"
      using assms(4) by (simp add: allocate_resource_def F placed_def)
    then show ?thesis using Nil by (simp add: same)
  next
    case (Cons g gs)
    then have g: "g \<in> set (space_gaps st root cs)" "fits n ?a g" by (auto dest: filter_eq_ConsD)
    let ?s = "align_up (fst g) ?a" and ?e = "align_up (fst g) ?a + n - 1"
    define st0 where "st0 = set_range new (?s, ?e) st"
    have le: "fst g \<le> ?s" "?s \<le> ?e" "?e \<le> snd g" "fst g \<le> snd g" using g(2) by (simp_all add: fits_def)
    have free: "\<forall>k \<in> set cs. snd g < r_start (st k) \<or> r_end (st k) < fst g" "r_start (st root) \<le> fst g" "snd g \<le> r_end (st root)"
      using space_gap_free [OF assms(1,2) g(1) le(4)] by simp_all
    have o: "st0 a = st a" if "a \<noteq> new" for a using that by (simp add: st0_def set_range_def upd_def)
    have n: "r_start (st0 new) = ?s" "r_end (st0 new) = ?e" by (simp_all add: st0_def set_range_def upd_def)
    have oc: "st0 root = st root" "k \<in> set cs \<Longrightarrow> st0 k = st k" for k using o [of root] o [of k] assms(3) by auto
    have K: "kids st0 root cs"
    proof -
      have "seg st0 (r_child (st root)) cs None" using assms(1) oc by (subst seg_cong [where st = st]) (auto simp: kids_def)
      moreover have "sorted_wrt (\<lambda>a b. r_end (st0 a) < r_start (st0 b)) cs"
        using assms(1) oc(2) by (auto simp: kids_def intro: sorted_wrt_mono_rel [rotated])
      ultimately show ?thesis using assms(1) oc by (simp add: kids_def child_ok_def)
    qed
    have v: "valid_in st0 root new"
      using le free oc n by (auto simp: valid_in_def intro: order.trans)
    have nc: "\<forall>k \<in> set cs. \<not> res_overlaps (st0 k) (st0 new)"
      using le free(1) oc(2) n by (auto simp: res_overlaps_def dest!: bspec)
    obtain st1 where r: "request_conflict root new st0 = Some (None, st1)"
      "kids st1 root (kids_before st0 new cs @ new # kids_after st0 new cs)"
      "\<exists>p s c. st1 new = (st0 new)\<lparr>r_parent := p, r_sibling := s, r_child := c\<rparr>"
      using request_free [OF K v assms(3) nc] by auto
    have "allocate_resource root new n c st = Some (Ok (), st1)"
      using assms(4) Cons r(1) by (simp add: allocate_resource_def F placed_def st0_def)
    moreover have "r_start (st1 new) = ?s" "r_end (st1 new) = ?e" using r(3) n by auto
    moreover have "\<exists>xs ys. cs = xs @ ys \<and> kids st1 root (xs @ new # ys)"
      using r(2) kids_split [of st0 new cs, symmetric] by blast
    ultimately show ?thesis using Cons aligned_up [of "fst g" ?a] by (simp add: same)
  qed
qed

text \<open>
  A child that begins with its parent and ends at the last address is alone, and the search takes the
  room after it to be everything from address 0 on, because the end of the child plus one wraps.
\<close>

lemma all_gap:
  assumes "kids st root cs" "\<not> not_all st root cs"
  obtains k where "cs = [k]" "r_start (st k) = r_start (st root)" "r_end (st k) = - 1" "r_end (st root) = - 1"
    "space_gaps st root cs = [(0, - 1)]"
proof -
  obtain k where k: "k \<in> set cs" "r_start (st k) = r_start (st root)" "r_end (st k) = - 1"
    using assms(2) by (auto simp: not_all_def)
  have o: "sorted_wrt (\<lambda>a b. r_end (st a) < r_start (st b)) cs" and c: "\<forall>x \<in> set cs. child_ok st root x"
    using assms(1) by (simp_all add: kids_def)
  obtain xs ys where split: "cs = xs @ k # ys" using k(1) by (meson split_list)
  have "xs = []"
  proof (rule ccontr)
    assume "xs \<noteq> []"
    then obtain x where x: "x \<in> set xs" by (cases xs) auto
    then have "r_end (st x) < r_start (st root)" using o k(2) split by (auto simp: sorted_wrt_append)
    moreover have "r_start (st root) \<le> r_end (st x)" using c x split by (auto simp: child_ok_def intro: order.trans)
    ultimately show False by simp
  qed
  moreover have "ys = []" using o k(3) split by (cases ys) (auto simp: sorted_wrt_append)
  ultimately have cs: "cs = [k]" using split by simp
  have "r_end (st k) \<le> r_end (st root)" using c k(1) by (auto simp: child_ok_def)
  then have e: "r_end (st root) = - 1" using k(3) by (simp add: antisym)
  have "space_gaps st root cs = [(0, - 1)]" using k(2,3) e by (simp add: cs space_gaps_def)
  with that cs k(2,3) e show thesis by blast
qed

lemma align_up_0: "align_up 0 a = 0"
  by (simp add: align_up_def)

lemma allocate_all:
  assumes "kids st root cs" "\<not> not_all st root cs" "new \<notin> set (root # cs)" "r_parent (st new) = None"
  shows "allocate_resource root new n c st = Some (Err ResBusy, set_range new (0, n - 1) st)"
proof -
  obtain k where k: "cs = [k]" "r_start (st k) = r_start (st root)" "r_end (st k) = - 1" "r_end (st root) = - 1"
    "space_gaps st root cs = [(0, - 1)]"
    by (rule all_gap [OF assms(1,2)])
  let ?st = "set_range new (0, n - 1) st"
  have "fits n (rc_align c) (0, - 1)" by (simp add: fits_def align_up_0)
  then have F: "find_resource_space root None n c st = Some (Ok (0, n - 1))"
    by (simp add: find_space_placed [OF assms(1)] k(5) placed_def align_up_0)
  have o: "?st root = st root" "?st k = st k" using assms(3) k(1) by (simp_all add: set_range_def upd_def)
  have n: "r_start (?st new) = 0" "r_end (?st new) = n - 1" by (simp_all add: set_range_def upd_def)
  have "\<exists>b. request_conflict root new ?st = Some (Some b, ?st)"
  proof (cases "r_start (st root) = 0")
    case True
    have "valid_in ?st root new" using o n k(4) True by (simp add: valid_in_def)
    moreover have "kids ?st root cs"
      using assms(1) o by (simp add: k(1) kids_def child_ok_def)
    moreover have "kids_after ?st new cs = [k]" using o n k(1,3) by (simp add: kids_after_def)
    ultimately show ?thesis using o n k(2) True by (simp add: request_runs)
  next
    case False
    then have "0 < r_start (st root)" by (simp add: word_greater_zero_iff)
    then show ?thesis using o n by (simp add: request_conflict_def)
  qed
  then show ?thesis using assms(4) by (auto simp: allocate_resource_def F)
qed

text \<open>
  C29 (equivalence). Allocation of a range that is not linked yet, whatever its parent's children, is
  first fit over the gaps between them: it takes the first gap that holds the size at its aligned
  start and links the new range there, aligned and free, or reports Busy and changes nothing. The
  one exception is a child that begins with its parent and ends at the last address: the end of
  the child plus one wraps to 0, the search finds room from address 0 on, and the request of that
  range then reports Busy, with the start and end of the new range overwritten. The bounds
  of the constraint play no part.
\<close>

theorem resource_allocate:
  assumes "kids st root cs" "new \<notin> set (root # cs)" "r_parent (st new) = None"
  shows "\<exists>r st1. allocate_resource root new n c st = Some (r, st1) \<and>
    allocate_resource root new n (c\<lparr>rc_min := lo, rc_max := hi\<rparr>) st = Some (r, st1) \<and>
    (if \<exists>k \<in> set cs. r_start (st k) = r_start (st root) \<and> r_end (st k) = - 1
     then r = Err ResBusy \<and> st1 = st(new := (st new)\<lparr>r_start := 0, r_end := n - 1\<rparr>)
     else case filter (fits n (rc_align c)) (space_gaps st root cs) of
       [] \<Rightarrow> r = Err ResBusy \<and> st1 = st
     | g # _ \<Rightarrow> r = Ok () \<and> r_start (st1 new) = align_up (fst g) (rc_align c) \<and>
         r_end (st1 new) = r_start (st1 new) + n - 1 \<and> r_start (st1 new) AND (rc_align c - 1) = 0 \<and>
         (\<exists>xs ys. cs = xs @ ys \<and> kids st1 root (xs @ new # ys)))"
proof (cases "not_all st root cs")
  case True
  then have "\<not> (\<exists>k \<in> set cs. r_start (st k) = r_start (st root) \<and> r_end (st k) = - 1)"
    by (auto simp: not_all_def)
  with allocate_first_fit [OF assms(1) True assms(2,3), where n = n and c = c and lo = lo and hi = hi]
  show ?thesis by (simp only: if_False)
next
  case False
  then have "\<exists>k \<in> set cs. r_start (st k) = r_start (st root) \<and> r_end (st k) = - 1"
    by (auto simp: not_all_def)
  with allocate_all [OF assms(1) False assms(2,3)] show ?thesis
    by (simp add: set_range_def upd_def)
qed

theorem resource_allocate_witness:
  "\<exists>st1. allocate_resource 0 5 0x100 \<lparr>rc_min = 0x8000, rc_max = 0xFFFF, rc_align = 0x100\<rparr> tree_example = Some (Ok (), st1) \<and>
     r_start (st1 5) = 0"
proof -
  let ?c = "\<lparr>rc_min = 0x8000, rc_max = 0xFFFF, rc_align = 0x100 :: u64\<rparr>"
  have g: "space_gaps tree_example 0 [1, 2] = [(0, 0xFFF), (0x2000, 0x2FFF), (0x4000, 0xFFFF)]"
    by (simp add: space_gaps_def tree_example_def resource_new_def)
  have a: "align_up 0 0x100 = 0" by (simp add: align_up_def)
  have "fits 0x100 0x100 (0, 0xFFF)" by (simp add: fits_def a)
  then have f: "\<exists>gs. filter (fits 0x100 (rc_align ?c)) (space_gaps tree_example 0 [1, 2]) = (0, 0xFFF) # gs"
    unfolding g by simp
  have "\<not> (\<exists>k \<in> set [1, 2]. r_start (tree_example k) = r_start (tree_example 0) \<and> r_end (tree_example k) = - 1)"
    "r_parent (tree_example 5) = None"
    by (simp_all add: tree_example_def resource_new_def)
  then show ?thesis using resource_allocate [OF tree_example_kids, where new = 5 and n = "0x100" and c = ?c and lo = 0 and hi = 0] f a by auto
qed

section \<open>Insertion\<close>

lemma covered_walk:
  assumes "seg st (Some m) ms q" "ms \<noteq> []" "\<forall>k \<in> set ms. r_start (st new) \<le> r_start (st k) \<and> r_end (st k) \<le> r_end (st new)"
    and "\<forall>k \<in> set (tl ms). r_start (st k) \<le> r_end (st new)" "\<And>a. q = Some a \<Longrightarrow> r_start (st a) > r_end (st new)"
  shows "loop (covered_body new st) m = Some (Inr (last ms))"
  using assms(1-4)
proof (induction ms arbitrary: m)
  case (Cons k ks)
  have k: "m = k" "seg st (r_sibling (st k)) ks q" using Cons.prems(1) by auto
  show ?case
  proof (cases ks)
    case Nil
    then show ?thesis using k Cons.prems(3) assms(5)
      by (cases q) (auto simp: loop_Inr covered_body_def not_less not_le)
  next
    case (Cons j js)
    then have j: "r_sibling (st k) = Some j" using k by simp
    then have "covered_body new st m = Inl j"
      using k Cons Cons.prems(3,4) by (auto simp: covered_body_def not_less)
    moreover have "\<forall>k \<in> set (tl ks). r_start (st k) \<le> r_end (st new)" using Cons.prems(4) Cons by auto
    ultimately show ?thesis using Cons.IH [of j] k j Cons.prems(3) Cons by (simp add: loop_Inl)
  qed
qed simp

lemma scan_walk:
  assumes "seg st (Some x) xs (Some first)" "xs \<noteq> []" "first \<notin> set xs"
  shows "loop (scan_body first st) x = Some (Ok (last xs))"
  using assms
proof (induction xs arbitrary: x)
  case (Cons k ks)
  have k: "x = k" "seg st (r_sibling (st k)) ks (Some first)" using Cons.prems(1) by auto
  show ?case
  proof (cases ks)
    case Nil
    then show ?thesis using k by (simp add: loop_Inr scan_body_def)
  next
    case (Cons j js)
    then have "r_sibling (st k) = Some j" "j \<noteq> first" using k Cons.prems(3) by auto
    then show ?thesis using Cons.IH [of j] k Cons.prems(3) Cons by (simp add: loop_Inl scan_body_def)
  qed
qed simp

text \<open>The new node covers the children \<open>ms\<close> and no other.\<close>

definition covers :: "store \<Rightarrow> nat \<Rightarrow> nat \<Rightarrow> nat list \<Rightarrow> nat list \<Rightarrow> nat list \<Rightarrow> bool" where
  "covers st P new xs ms ys \<longleftrightarrow> valid_in st P new \<and> ms \<noteq> [] \<and> new \<notin> set (P # xs @ ms @ ys) \<and>
     (\<forall>x \<in> set xs. r_end (st x) < r_start (st new)) \<and> (\<forall>y \<in> set ys. r_end (st new) < r_start (st y)) \<and>
     (\<forall>m \<in> set ms. r_start (st new) \<le> r_start (st m) \<and> r_end (st m) \<le> r_end (st new))"

lemma insert_stops:
  assumes "kids st P (xs @ m # ms @ ys)" "covers st P new xs (m # ms) ys"
  shows "request_conflict P new st = Some (Some m, st)" "loop (descend_body new st) P = Some (Some (Stopped P))"
proof -
  have m: "r_start (st m) \<le> r_end (st m)" using assms(1) by (simp add: kids_def child_ok_def)
  have "\<not> r_end (st m) < r_start (st new)" "r_start (st m) \<le> r_end (st new)"
    using assms(2) m by (auto simp: covers_def)
  moreover from this have "kids_after st new (xs @ m # ms @ ys) = m # ms @ ys"
    using assms(2) by (auto simp: kids_after_def covers_def dropWhile_append)
  ultimately show r: "request_conflict P new st = Some (Some m, st)"
    using request_runs [OF assms(1)] assms(2) by (simp add: covers_def not_less)
  have "m \<noteq> P" "m \<noteq> new" using assms by (auto simp: kids_def covers_def)
  then show "loop (descend_body new st) P = Some (Some (Stopped P))"
    using assms(2) by (auto simp: loop_Inr descend_body_def r covers_def)
qed

lemma reparent_kids:
  assumes K: "kids st P (xs @ ms @ ys)" and C: "covers st P new xs ms ys"
  shows "\<exists>st1. reparent P new (hd ms) (last ms) st = Some (Ok (), st1) \<and> kids st1 P (xs @ new # ys) \<and> kids st1 new ms"
proof -
  obtain m mt where ms: "ms = m # mt" using C by (cases ms) (auto simp: covers_def)
  obtain mi e where me: "ms = mi @ [e]" using C by (cases ms rule: rev_cases) (auto simp: covers_def)
  have d: "distinct (P # xs @ ms @ ys)" and c: "\<forall>k \<in> set (xs @ ms @ ys). child_ok st P k"
    and o: "sorted_wrt (\<lambda>a b. r_end (st a) < r_start (st b)) (xs @ ms @ ys)"
    using K by (simp_all add: kids_def)
  have new: "new \<notin> set (P # xs @ ms @ ys)" using C by (simp add: covers_def)
  obtain q where s: "seg st (r_child (st P)) xs (Some m)" "seg st (Some m) ms q" "seg st q ys None"
    using K ms by (auto simp: kids_def seg_append)
  have q: "r_sibling (st e) = q" using s(2) by (auto simp: me seg_append)
  define st1 where "st1 = upd new (\<lambda>r. r\<lparr>r_parent := Some P, r_sibling := q, r_child := Some m\<rparr>) st"
  define st2 where "st2 = upd e (\<lambda>r. r\<lparr>r_sibling := None\<rparr>) st1"
  define st3 where "st3 = (\<lambda>a. if a \<in> set ms then (st2 a)\<lparr>r_parent := Some new\<rparr> else st2 a)"
  define st4 where "st4 = set_link (link_after P xs) (Some new) st3"
  have e: "e \<in> set ms" by (simp add: me)
  have sib3: "r_sibling (st3 a) = (if a = e then None else if a = new then q else r_sibling (st a))" for a
    using e new by (auto simp: st3_def st2_def st1_def upd_def)
  have other3: "st3 a = st a" if "a \<notin> set (new # ms)" for a
    using that e by (auto simp: st3_def st2_def st1_def upd_def)
  have "seg st1 (Some m) (mi @ [e]) q"
    using s(2) new unfolding me by (subst seg_cong [where st = st]) (auto simp: st1_def upd_def)
  then have "seg st2 (Some m) ms None"
    using d unfolding me by (auto simp: seg_append st2_def seg_disjoint_update) (auto simp: upd_def)
  moreover from this have "loop (adopt_body new) (m, st2) = Some (e, st3)"
    using adopt_walk [of st2 m ms new] d by (simp add: st3_def me)
  moreover have g3: "seg st3 (Some m) ms None"
    using \<open>seg st2 (Some m) ms None\<close> by (subst seg_cong [where st = st2]) (auto simp: st3_def)
  moreover have x3: "seg st3 (r_child (st3 P)) xs (Some m)"
  proof (subst seg_cong [where st = st])
    show "seg st (r_child (st3 P)) xs (Some m)" using s(1) new d other3 [of P] by simp
    fix a assume "a \<in> set xs"
    then show "r_sibling (st3 a) = r_sibling (st a)" using d new e by (auto simp: sib3)
  qed
  moreover have mx: "m \<notin> set xs" using d ms by auto
  moreover have hl: "hd ms = m" "last ms = e" by (simp add: ms) (simp add: me)
  ultimately have adopt: "loop (adopt_body new) (m, st2) = Some (e, st3)" by blast
  have "reparent P new m e st = Some (Ok (), st4)"
  proof (cases xs)
    case Nil
    then show ?thesis using x3 adopt q
      by (simp add: reparent_def Let_def st1_def [symmetric] st2_def [symmetric] st4_def)
  next
    case (Cons x xt)
    then have "r_child (st3 P) = Some x" "x \<noteq> m" using x3 mx by auto
    moreover have "loop (scan_body m st3) x = Some (Ok (last xs))"
      using scan_walk [of st3 x xs m] x3 mx Cons by simp
    ultimately show ?thesis using adopt q Cons
      by (simp add: reparent_def Let_def st1_def [symmetric] st2_def [symmetric] st4_def link_after_def)
  qed
  moreover have "kids st4 P (xs @ new # ys) \<and> kids st4 new ms"
  proof -
    have on: "on_link (link_after P xs) \<in> set (P # xs)" by (rule on_link_after)
    have o4: "st4 a = st3 a" if "a \<notin> set (P # xs)" for a
      unfolding st4_def using on that by (intro set_link_fields(5)) auto
    have "seg st4 (r_child (st4 P)) xs (Some new)"
      unfolding st4_def using x3 d by (intro set_link_seg) auto
    moreover have "seg st4 q ys None"
    proof (subst seg_cong [where st = st])
      fix a assume "a \<in> set ys"
      then have "a \<notin> set (P # xs)" "a \<noteq> e" "a \<noteq> new" using d new e by auto
      then show "r_sibling (st4 a) = r_sibling (st a)" using o4 [of a] by (simp add: sib3)
    qed (rule s(3))
    moreover have n4: "st4 new = st3 new" using new by (intro o4) auto
    moreover have "new \<noteq> e" using e new by auto
    ultimately have chain: "seg st4 (r_child (st4 P)) (xs @ new # ys) None" by (auto simp: seg_append sib3)
    have ch: "r_child (st4 new) = Some m" using n4 new e by (simp add: st3_def st2_def st1_def upd_def)
    have "seg st4 (Some m) ms None"
    proof (subst seg_cong [where st = st3])
      fix a assume "a \<in> set ms"
      then have "a \<notin> set (P # xs)" using d by auto
      then show "r_sibling (st4 a) = r_sibling (st3 a)" using o4 [of a] by simp
    qed (rule g3)
    with ch have chain2: "seg st4 (r_child (st4 new)) ms None" by simp
    have rg: "r_start (st4 a) = r_start (st a)" "r_end (st4 a) = r_end (st a)" for a
      by (simp_all add: st4_def st3_def st2_def st1_def upd_def)
    have par: "r_parent (st4 a) = (if a \<in> set ms then Some new else if a = new then Some P else r_parent (st a))" for a
      by (simp add: st4_def st3_def st2_def st1_def upd_def)
    have "\<forall>k \<in> set (xs @ new # ys). child_ok st4 P k"
      using c d C new by (auto simp: child_ok_def rg par covers_def valid_in_def)
    moreover have "\<forall>k \<in> set ms. child_ok st4 new k"
      using c C by (auto simp: child_ok_def rg par covers_def)
    moreover have "sorted_wrt (\<lambda>a b. r_end (st4 a) < r_start (st4 b)) (xs @ new # ys)"
      "sorted_wrt (\<lambda>a b. r_end (st4 a) < r_start (st4 b)) ms"
      using o C unfolding rg sorted_wrt_append covers_def by auto
    ultimately show ?thesis using chain chain2 d new by (auto simp: kids_def)
  qed
  ultimately show ?thesis unfolding hl by blast
qed

text \<open>Inserting a node that covers children makes it their parent.\<close>

lemma insert_kids:
  assumes K: "kids st P (xs @ ms @ ys)" and C: "covers st P new xs ms ys"
  shows "\<exists>st1. insert_resource P new st = Some (Ok (), st1) \<and> kids st1 P (xs @ new # ys) \<and> kids st1 new ms"
proof -
  obtain m mt where ms: "ms = m # mt" using C by (cases ms) (auto simp: covers_def)
  note S = insert_stops [OF K [unfolded ms append_Cons] C [unfolded ms]]
  have s: "seg st (r_child (st P)) (xs @ ms @ ys) None" and c: "\<forall>k \<in> set ms. r_start (st k) \<le> r_end (st k)"
    using K by (auto simp: kids_def child_ok_def)
  obtain q where q: "seg st (Some m) ms q" "seg st q ys None"
    using s ms by (auto simp: seg_append)
  have "loop (covered_body new st) m = Some (Inr (last ms))"
  proof (rule covered_walk [OF q(1)])
    show "\<forall>k \<in> set (tl ms). r_start (st k) \<le> r_end (st new)"
      using C c by (auto simp: covers_def dest!: list.set_sel(2) [rotated] intro: order.trans)
    show "r_start (st a) > r_end (st new)" if "q = Some a" for a
      using q(2) that C by (cases ys) (auto simp: covers_def)
  qed (use C in \<open>auto simp: covers_def\<close>)
  then show ?thesis
    using reparent_kids [OF K C] S by (auto simp: insert_resource_def insert_conflict_def ms)
qed

text \<open>
  C30 (roundtrip). Inserting a range that covers some children makes it a child in their place and them its
  children; removing it puts them back, and releasing it drops them with it. The lists of both
  parents stay sorted, disjoint and inside their parents.
\<close>

theorem resource_insert_remove:
  assumes "kids st P (xs @ ms @ ys)" "covers st P new xs ms ys"
  shows "\<exists>st1. insert_resource P new st = Some (Ok (), st1) \<and> kids st1 P (xs @ new # ys) \<and> kids st1 new ms \<and>
    (\<exists>st2. remove_resource new st1 = Some (Ok (), st2) \<and> kids st2 P (xs @ ms @ ys)) \<and>
    (\<exists>st2. release_resource new st1 = Some (Ok (), st2) \<and> kids st2 P (xs @ ys))"
proof -
  obtain st1 where 1: "insert_resource P new st = Some (Ok (), st1)" "kids st1 P (xs @ new # ys)" "kids st1 new ms"
    using insert_kids [OF assms] by blast
  have d: "ms \<noteq> []" "set ms \<inter> set (P # xs @ new # ys) = {}"
    using assms by (auto simp: covers_def kids_def)
  show ?thesis
    using 1 release_leaf [OF 1(2), of True] remove_inner [OF 1(2,3) d]
    unfolding remove_resource_def release_resource_def by blast
qed

theorem resource_insert_remove_witness:
  "\<exists>st1. insert_resource 0 4 tree_example = Some (Ok (), st1) \<and> kids st1 0 [4] \<and> kids st1 4 [1, 2]"
proof -
  have "covers tree_example 0 4 [] [1, 2] []"
    by (simp add: covers_def valid_in_def tree_example_def resource_new_def)
  then show ?thesis using resource_insert_remove [of tree_example 0 "[]" "[1, 2]" "[]" 4] tree_example_kids by auto
qed

section \<open>Adjustment\<close>

lemma previous_walk:
  assumes "seg st (Some x) xs (Some res)" "xs \<noteq> []" "res \<notin> set xs"
  shows "loop (previous_body res start st) (Some x) = Some (r_end (st (last xs)) < start)"
  using assms
proof (induction xs arbitrary: x)
  case (Cons k ks)
  have k: "x = k" "seg st (r_sibling (st k)) ks (Some res)" using Cons.prems(1) by auto
  show ?case
  proof (cases ks)
    case Nil
    then show ?thesis using k by (simp add: loop_Inr previous_body_def not_le)
  next
    case (Cons j js)
    then have "r_sibling (st k) = Some j" "j \<noteq> res" using k Cons.prems(3) by auto
    then show ?thesis using Cons.IH [of j] k Cons.prems(3) Cons by (simp add: loop_Inl previous_body_def)
  qed
qed simp

lemma children_walk:
  "seg st p ds None \<Longrightarrow>
   loop (children_body s e st) p = Some (\<forall>d \<in> set ds. s \<le> r_start (st d) \<and> r_end (st d) \<le> e)"
proof (induction ds arbitrary: p)
  case Nil
  then show ?case by (simp add: loop_Inr children_body_def)
next
  case (Cons d ds)
  then have d: "p = Some d" "seg st (r_sibling (st d)) ds None" by auto
  show ?case
  proof (cases "r_start (st d) < s \<or> r_end (st d) > e")
    case True
    then have "children_body s e st p = Inr False" using d by (simp add: children_body_def)
    then have "loop (children_body s e st) p = Some False" by (rule loop_Inr)
    then show ?thesis using True by (auto simp: not_le)
  next
    case False
    then have "children_body s e st p = Inl (r_sibling (st d))" using d by (simp add: children_body_def)
    then show ?thesis using False Cons.IH [OF d(2)] by (simp add: loop_Inl not_less)
  qed
qed

text \<open>The new range lies in the parent, between the neighbours, and around the children.\<close>

definition adjustable :: "store \<Rightarrow> nat \<Rightarrow> nat list \<Rightarrow> nat list \<Rightarrow> nat list \<Rightarrow> u64 \<Rightarrow> u64 \<Rightarrow> bool" where
  "adjustable st P xs ys ds s e \<longleftrightarrow> r_start (st P) \<le> s \<and> e \<le> r_end (st P) \<and>
     (ys \<noteq> [] \<longrightarrow> e < r_start (st (hd ys))) \<and> (xs \<noteq> [] \<longrightarrow> r_end (st (last xs)) < s) \<and>
     (\<forall>d \<in> set ds. s \<le> r_start (st d) \<and> r_end (st d) \<le> e)"

lemma adjust_result:
  assumes K: "kids st P (xs @ res # ys)" and D: "kids st res ds"
  shows "adjust_resource res start n st =
    Some (if adjustable st P xs ys ds start (start + n - 1) then (Ok (), set_range res (start, start + n - 1) st)
          else (Err ResBusy, st))"
proof -
  define e where "e = start + n - 1"
  have par: "r_parent (st res) = Some P" using K by (simp add: kids_def child_ok_def)
  have s: "seg st (r_child (st P)) xs (Some res)" "seg st (r_sibling (st res)) ys None" and d: "distinct (P # xs @ res # ys)"
    using K by (auto simp: kids_def seg_append)
  have sib: "(case r_sibling (st res) of Some sb \<Rightarrow> r_start (st sb) \<le> e | None \<Rightarrow> False) \<longleftrightarrow> ys \<noteq> [] \<and> r_start (st (hd ys)) \<le> e"
    using s(2) by (cases ys) auto
  have kids: "loop (children_body start e st) (r_child (st res)) = Some (\<forall>k \<in> set ds. start \<le> r_start (st k) \<and> r_end (st k) \<le> e)"
    using D children_walk by (simp add: kids_def)
  have prev: "(if r_child (st P) = Some res then Some True else loop (previous_body res start st) (r_child (st P))) =
      Some (xs \<noteq> [] \<longrightarrow> r_end (st (last xs)) < start)"
  proof (cases xs)
    case Nil
    then show ?thesis using s(1) by simp
  next
    case (Cons x xt)
    then have x: "r_child (st P) = Some x" "x \<noteq> res" "res \<notin> set xs" using s(1) d by auto
    then show ?thesis using previous_walk [of st x xs res start] s(1) Cons by simp
  qed
  show ?thesis
    unfolding adjust_resource_def Let_def e_def [symmetric] par option.case sib prev kids adjustable_def
    by (auto simp: not_le not_less split: bool.split)
qed

lemma adjust_kids:
  assumes K: "kids st P (xs @ res # ys)" and D: "kids st res ds" and A: "adjustable st P xs ys ds s e" "s \<le> e"
    and "set ds \<inter> set (P # xs @ res # ys) = {}"
  shows "kids (set_range res (s, e) st) P (xs @ res # ys) \<and> kids (set_range res (s, e) st) res ds"
proof -
  let ?t = "set_range res (s, e) st"
  have o: "?t a = st a" if "a \<noteq> res" for a using that by (simp add: set_range_def upd_def)
  have r: "r_start (?t res) = s" "r_end (?t res) = e" "r_parent (?t res) = r_parent (st res)"
    "r_child (?t a) = r_child (st a)" "r_sibling (?t a) = r_sibling (st a)" for a
    by (simp_all add: set_range_def upd_def)
  have d: "distinct (P # xs @ res # ys)" and c: "\<forall>k \<in> set (xs @ res # ys). child_ok st P k"
    and so: "sorted_wrt (\<lambda>a b. r_end (st a) < r_start (st b)) (xs @ res # ys)" using K by (simp_all add: kids_def)
  have v: "\<forall>k \<in> set (xs @ res # ys). r_start (st k) \<le> r_end (st k)" using c by (simp add: child_ok_def)
  have seg: "seg ?t p l q \<longleftrightarrow> seg st p l q" for p l q by (rule seg_cong) (simp add: r)
  have xb: "r_end (st x) < s" if "x \<in> set xs" for x
  proof -
    obtain xi l where xs: "xs = xi @ [l]" using \<open>x \<in> set xs\<close> by (cases xs rule: rev_cases) auto
    then have "r_end (st l) < s" "r_start (st l) \<le> r_end (st l)" using A(1) v by (auto simp: adjustable_def)
    then show ?thesis using that so xs by (auto simp: sorted_wrt_append)
  qed
  have yb: "e < r_start (st y)" if "y \<in> set ys" for y
  proof -
    obtain h yt where ys: "ys = h # yt" using \<open>y \<in> set ys\<close> by (cases ys) auto
    then have "e < r_start (st h)" "r_start (st h) \<le> r_end (st h)" using A(1) v by (auto simp: adjustable_def)
    then show ?thesis using that so ys by (auto simp: sorted_wrt_append)
  qed
  have n: "res \<notin> set xs" "res \<notin> set ys" "P \<noteq> res" "res \<notin> set ds" using d assms(5) by auto
  have e: "r_start (?t a) = (if a = res then s else r_start (st a))" "r_end (?t a) = (if a = res then e else r_end (st a))" for a
    using o r by auto
  have resort: "sorted_wrt (\<lambda>a b. r_end (?t a) < r_start (?t b)) l"
    if "res \<notin> set l" "sorted_wrt (\<lambda>a b. r_end (st a) < r_start (st b)) l" for l
    by (rule sorted_wrt_mono_rel [OF _ that(2)]) (use that(1) in \<open>auto simp: e\<close>)
  have "child_ok ?t P k" if "k \<in> set (xs @ res # ys)" for k
    using that c A n o [of k] r(3) unfolding child_ok_def e adjustable_def by auto
  moreover have "sorted_wrt (\<lambda>a b. r_end (?t a) < r_start (?t b)) (xs @ res # ys)"
  proof -
    have "sorted_wrt (\<lambda>a b. r_end (?t a) < r_start (?t b)) xs" "sorted_wrt (\<lambda>a b. r_end (?t a) < r_start (?t b)) ys"
      using so n unfolding sorted_wrt_append by (auto intro!: resort)
    then show ?thesis using so xb yb n unfolding e by (auto simp: sorted_wrt_append)
  qed
  moreover have "child_ok ?t res k" if "k \<in> set ds" for k
    using that D A(1) n o [of k] unfolding child_ok_def e adjustable_def kids_def by auto
  moreover have "sorted_wrt (\<lambda>a b. r_end (?t a) < r_start (?t b)) ds"
    using D n unfolding kids_def by (auto intro!: resort)
  ultimately show ?thesis using K D by (simp add: kids_def seg r)
qed

text \<open>A size of zero passes every test, and leaves a range whose end is before its start.\<close>

lemma adjust_zero:
  assumes "kids st P (xs @ res # ys)" "kids st res []" "start \<noteq> 0" "r_start (st res) \<le> start" "start \<le> r_end (st res)"
  shows "\<exists>st1. adjust_resource res start 0 st = Some (Ok (), st1) \<and> r_end (st1 res) < r_start (st1 res)"
proof -
  have "start - 1 < start" using assms(3) by (rule word_pred)
  have c: "r_start (st P) \<le> r_start (st res)" "r_end (st res) \<le> r_end (st P)"
    and o: "sorted_wrt (\<lambda>a b. r_end (st a) < r_start (st b)) (xs @ res # ys)"
    using assms(1) by (auto simp: kids_def child_ok_def)
  have "adjustable st P xs ys [] start (start + 0 - 1)"
    using c assms(4,5) o \<open>start - 1 < start\<close> unfolding adjustable_def sorted_wrt_append
    by (auto intro: order.trans less_imp_le less_trans le_less_trans less_le_trans)
  then show ?thesis
    using adjust_result [OF assms(1,2), of start 0] \<open>start - 1 < start\<close> by (simp add: set_range_def upd_def)
qed

end
