(* ===== verification/L2cap.thy ===== *)
theory L2cap
  imports KError Bytes Interfaces
begin

text \<open>
  The logical link protocol of Bluetooth, \<open>kernel/src/net/bluetooth/l2cap.rs\<close>: the table of channels, the
  signalling state machine and the routing of frames. The mutex is held for the table updates
  only, so the table is an explicit state; what leaves it, a call of a protocol handler or a command
  to the controller, is a list of outputs. Handlers are numbers.
\<close>

section \<open>Channels\<close>

definition L2CAP_CID_SIGNALING :: u16 where "L2CAP_CID_SIGNALING = 0x0001"
definition L2CAP_CID_ATT :: u16 where "L2CAP_CID_ATT = 0x0004"
definition L2CAP_CID_LE_SIGNALING :: u16 where "L2CAP_CID_LE_SIGNALING = 0x0005"
definition L2CAP_CID_SMP :: u16 where "L2CAP_CID_SMP = 0x0006"
definition L2CAP_CID_DYN_START :: u16 where "L2CAP_CID_DYN_START = 0x0040"
definition L2CAP_CID_DYN_END :: u16 where "L2CAP_CID_DYN_END = 0x7FFF"

definition CONN_REQ :: u8 where "CONN_REQ = 0x02"
definition CONN_RSP :: u8 where "CONN_RSP = 0x03"
definition CONF_REQ :: u8 where "CONF_REQ = 0x04"
definition CONF_RSP :: u8 where "CONF_RSP = 0x05"
definition DISCONN_REQ :: u8 where "DISCONN_REQ = 0x06"
definition DISCONN_RSP :: u8 where "DISCONN_RSP = 0x07"

definition L2CAP_SUCCESS :: u16 where "L2CAP_SUCCESS = 0"
definition REFUSED_PSM :: u16 where "REFUSED_PSM = 2"

definition MAX_L2CAP_CHANS :: usize where "MAX_L2CAP_CHANS = 32"
definition MAX_PSM :: usize where "MAX_PSM = 16"

lemmas cid_consts = L2CAP_CID_SIGNALING_def L2CAP_CID_ATT_def L2CAP_CID_LE_SIGNALING_def L2CAP_CID_SMP_def
  L2CAP_CID_DYN_START_def L2CAP_CID_DYN_END_def

lemmas sig_consts = CONN_REQ_def CONN_RSP_def CONF_REQ_def CONF_RSP_def DISCONN_REQ_def DISCONN_RSP_def

datatype ChanState = ChClosed | ChWaitConn | ChWaitConnRsp | ChConfig | ChOpen | ChWaitDisconn

datatype ChanMode = Basic | Retrans | FlowCtrl | Ertm | Streaming | LeCoc

record L2capChan =
  ch_scid :: u16
  ch_dcid :: u16
  ch_psm :: u16
  ch_hcon :: u16
  ch_state :: ChanState
  ch_mode :: ChanMode
  ch_imtu :: u16
  ch_omtu :: u16
  ch_conf_state :: u8
  ch_ident :: u8
  ch_rx_cb :: "nat option"
  ch_valid :: bool

definition chan_empty :: L2capChan where
  "chan_empty = \<lparr>ch_scid = 0, ch_dcid = 0, ch_psm = 0, ch_hcon = 0, ch_state = ChClosed, ch_mode = Basic,
     ch_imtu = 672, ch_omtu = 672, ch_conf_state = 0, ch_ident = 0, ch_rx_cb = None, ch_valid = False\<rparr>"

text \<open>The handler \<open>psm_nop\<close> of an empty entry is number zero.\<close>

record PsmEntry =
  pe_psm :: u16
  pe_handler :: nat
  pe_valid :: bool

definition psm_empty :: PsmEntry where
  "psm_empty = \<lparr>pe_psm = 0, pe_handler = 0, pe_valid = False\<rparr>"

record L2capState =
  l2_chans :: "L2capChan list"
  l2_psm_reg :: "PsmEntry list"
  l2_next_cid :: u16

definition l2cap_new :: L2capState where
  "l2cap_new = \<lparr>l2_chans = replicate MAX_L2CAP_CHANS chan_empty, l2_psm_reg = replicate MAX_PSM psm_empty,
     l2_next_cid = L2CAP_CID_DYN_START\<rparr>"

definition update_chan :: "(L2capChan \<Rightarrow> bool) \<Rightarrow> (L2capChan \<Rightarrow> L2capChan) \<Rightarrow> L2capState \<Rightarrow> L2capState" where
  "update_chan P f st = st\<lparr>l2_chans := update_first P f (l2_chans st)\<rparr>"

definition l2cap_register_psm :: "u16 \<Rightarrow> nat \<Rightarrow> L2capState \<Rightarrow> unit kresult \<times> L2capState" where
  "l2cap_register_psm psm handler st =
     (if \<exists>e \<in> set (l2_psm_reg st). \<not> pe_valid e
      then (Ok (), st\<lparr>l2_psm_reg := update_first (\<lambda>e. \<not> pe_valid e)
              (\<lambda>_. \<lparr>pe_psm = psm, pe_handler = handler, pe_valid = True\<rparr>) (l2_psm_reg st)\<rparr>)
      else (Err ResourceExhausted, st))"

definition l2cap_chan_create :: "u16 \<Rightarrow> u16 \<Rightarrow> L2capState \<Rightarrow> u16 kresult \<times> L2capState" where
  "l2cap_chan_create hcon psm st =
     (let scid = l2_next_cid st
      in if scid > L2CAP_CID_DYN_END then (Err ResourceExhausted, st)
         else let st1 = st\<lparr>l2_next_cid := l2_next_cid st + 1\<rparr>
         in if \<exists>c \<in> set (l2_chans st1). \<not> ch_valid c
            then (Ok scid, update_chan (\<lambda>c. \<not> ch_valid c)
                    (\<lambda>_. chan_empty\<lparr>ch_scid := scid, ch_psm := psm, ch_hcon := hcon, ch_state := ChWaitConn, ch_valid := True\<rparr>) st1)
            else (Err ResourceExhausted, st1))"

definition free_chan :: "L2capChan \<Rightarrow> L2capChan" where
  "free_chan c = c\<lparr>ch_state := ChClosed, ch_valid := False\<rparr>"

definition l2cap_chan_close :: "u16 \<Rightarrow> L2capState \<Rightarrow> L2capState" where
  "l2cap_chan_close scid st = update_chan (\<lambda>c. ch_valid c \<and> ch_scid c = scid) free_chan st"

section \<open>Outputs\<close>

text \<open>
  A call of a protocol handler, or a command given to a controller. The payload of an ACL
  send is assembled nowhere: what the code passes on is the empty command zero.
\<close>

datatype l2cap_out = Deliver nat u16 u16 "u8 list" | HciCommand u8 u16 "u8 list"

definition build_sig_hdr :: "u8 \<Rightarrow> u8 \<Rightarrow> u16 \<Rightarrow> u8 list" where
  "build_sig_hdr code ident plen = [code, ident] @ to_le 2 (unat plen)"

definition l2cap_send_acl :: "u16 \<Rightarrow> u16 \<Rightarrow> u8 list \<Rightarrow> l2cap_out list" where
  "l2cap_send_acl hcon cid payload =
     (let hdr = to_le 2 (length payload mod 65536) @ to_le 2 (unat cid) in [HciCommand 0 0 []])"

definition conn_rsp_bytes :: "u8 \<Rightarrow> u16 \<Rightarrow> u16 \<Rightarrow> u16 \<Rightarrow> u8 list" where
  "conn_rsp_bytes ident scid dcid result =
     build_sig_hdr CONN_RSP ident 8 @ to_le 2 (unat dcid) @ to_le 2 (unat scid) @ to_le 2 (unat result) @ to_le 2 0"

definition conf_rsp_bytes :: "u8 \<Rightarrow> u16 \<Rightarrow> u16 \<Rightarrow> u8 list" where
  "conf_rsp_bytes ident scid result =
     build_sig_hdr CONF_RSP ident 4 @ to_le 2 (unat scid) @ to_le 2 (unat result)"

definition disconn_rsp_bytes :: "u8 \<Rightarrow> u16 \<Rightarrow> u16 \<Rightarrow> u8 list" where
  "disconn_rsp_bytes ident dcid scid =
     build_sig_hdr DISCONN_RSP ident 4 @ to_le 2 (unat dcid) @ to_le 2 (unat scid)"

definition l2cap_send_conn_rsp :: "u16 \<Rightarrow> u8 \<Rightarrow> u16 \<Rightarrow> u16 \<Rightarrow> u16 \<Rightarrow> l2cap_out list" where
  "l2cap_send_conn_rsp hcon ident scid dcid result =
     l2cap_send_acl hcon L2CAP_CID_SIGNALING (conn_rsp_bytes ident scid dcid result)"

definition l2cap_send_conf_rsp :: "u16 \<Rightarrow> u8 \<Rightarrow> u16 \<Rightarrow> u16 \<Rightarrow> l2cap_out list" where
  "l2cap_send_conf_rsp hcon ident scid result =
     l2cap_send_acl hcon L2CAP_CID_SIGNALING (conf_rsp_bytes ident scid result)"

definition l2cap_send_disconn_rsp :: "u16 \<Rightarrow> u8 \<Rightarrow> u16 \<Rightarrow> u16 \<Rightarrow> l2cap_out list" where
  "l2cap_send_disconn_rsp hcon ident dcid scid =
     l2cap_send_acl hcon L2CAP_CID_SIGNALING (disconn_rsp_bytes ident dcid scid)"

definition l2cap_send :: "u16 \<Rightarrow> u8 list \<Rightarrow> L2capState \<Rightarrow> l2cap_out list kresult" where
  "l2cap_send scid data st =
     (case find (\<lambda>c. ch_valid c \<and> ch_scid c = scid \<and> ch_state c = ChOpen) (l2_chans st) of
        None \<Rightarrow> Err NotFound
      | Some c \<Rightarrow> Ok (l2cap_send_acl (ch_hcon c) (ch_dcid c) data))"

section \<open>Signalling\<close>

type_synonym step = "L2capState \<Rightarrow> l2cap_out list \<times> L2capState"

definition handle_conn_req :: "u16 \<Rightarrow> u8 \<Rightarrow> u8 list \<Rightarrow> step" where
  "handle_conn_req hcon ident p st =
     (if length p < 4 then ([], st)
      else let psm = le16 p 0; dcid = le16 p 2
      in if \<exists>e \<in> set (l2_psm_reg st). pe_valid e \<and> pe_psm e = psm
         then let scid = l2_next_cid st;
                  st1 = st\<lparr>l2_next_cid := max (l2_next_cid st + 1) L2CAP_CID_DYN_START\<rparr>
              in (l2cap_send_conn_rsp hcon ident scid dcid L2CAP_SUCCESS,
                  update_chan (\<lambda>c. \<not> ch_valid c)
                    (\<lambda>_. chan_empty\<lparr>ch_scid := scid, ch_dcid := dcid, ch_psm := psm, ch_hcon := hcon, ch_state := ChConfig,
                       ch_ident := ident, ch_valid := True\<rparr>) st1)
         else (l2cap_send_conn_rsp hcon ident 0 dcid REFUSED_PSM, st))"

definition handle_conn_rsp :: "u16 \<Rightarrow> u8 \<Rightarrow> u8 list \<Rightarrow> step" where
  "handle_conn_rsp hcon ident p st =
     (if length p < 8 then ([], st)
      else let dcid = le16 p 0; scid = le16 p 2; result = le16 p 4
      in if result \<noteq> L2CAP_SUCCESS then ([], st)
         else ([], update_chan (\<lambda>c. ch_valid c \<and> ch_scid c = scid) (\<lambda>c. c\<lparr>ch_dcid := dcid, ch_state := ChConfig\<rparr>) st))"

text \<open>A configuration flag is set; both open the channel.\<close>

definition conf_flag :: "u8 \<Rightarrow> L2capChan \<Rightarrow> L2capChan" where
  "conf_flag b c =
     (let c1 = c\<lparr>ch_conf_state := ch_conf_state c OR b\<rparr>
      in if ch_conf_state c1 = 3 then c1\<lparr>ch_state := ChOpen\<rparr> else c1)"

definition handle_conf_req :: "u16 \<Rightarrow> u8 \<Rightarrow> u8 list \<Rightarrow> step" where
  "handle_conf_req hcon ident p st =
     (if length p < 2 then ([], st)
      else let dcid = le16 p 0
      in (l2cap_send_conf_rsp hcon ident dcid 0,
          update_chan (\<lambda>c. ch_valid c \<and> ch_hcon c = hcon \<and> ch_scid c = dcid) (conf_flag 1) st))"

definition handle_conf_rsp :: "u16 \<Rightarrow> u8 \<Rightarrow> u8 list \<Rightarrow> step" where
  "handle_conf_rsp hcon ident p st =
     (if length p < 4 then ([], st)
      else let scid = le16 p 0; result = le16 p 2
      in if result \<noteq> 0 then ([], st)
         else ([], update_chan (\<lambda>c. ch_valid c \<and> ch_scid c = scid) (conf_flag 2) st))"

definition handle_disconn_req :: "u16 \<Rightarrow> u8 \<Rightarrow> u8 list \<Rightarrow> step" where
  "handle_disconn_req hcon ident p st =
     (if length p < 4 then ([], st)
      else let dcid = le16 p 0; scid = le16 p 2
      in (l2cap_send_disconn_rsp hcon ident dcid scid,
          update_chan (\<lambda>c. ch_valid c \<and> ch_hcon c = hcon \<and> ch_scid c = dcid) free_chan st))"

definition handle_disconn_rsp :: "u16 \<Rightarrow> u8 \<Rightarrow> u8 list \<Rightarrow> step" where
  "handle_disconn_rsp hcon ident p st =
     (if length p < 4 then ([], st)
      else let scid = le16 p 0
      in ([], update_chan (\<lambda>c. ch_valid c \<and> ch_scid c = scid) free_chan st))"

definition signal_command :: "u16 \<Rightarrow> u8 \<Rightarrow> u8 \<Rightarrow> u8 list \<Rightarrow> step" where
  "signal_command hcon code ident params st =
     (if code = CONN_REQ then handle_conn_req hcon ident params st
      else if code = CONN_RSP then handle_conn_rsp hcon ident params st
      else if code = CONF_REQ then handle_conf_req hcon ident params st
      else if code = CONF_RSP then handle_conf_rsp hcon ident params st
      else if code = DISCONN_REQ then handle_disconn_req hcon ident params st
      else if code = DISCONN_RSP then handle_disconn_rsp hcon ident params st
      else ([], st))"

function signaling_loop :: "u16 \<Rightarrow> u8 list \<Rightarrow> usize \<Rightarrow> step" where
  "signaling_loop hcon data off st =
     (if off + 4 \<le> length data
      then let len = unat (le16 data (off + 2))
           in if off + 4 + len > length data then ([], st)
              else let (out1, st1) = signal_command hcon (data ! off) (data ! (off + 1)) (slice data (off + 4) len) st;
                       (out2, st2) = signaling_loop hcon data (off + 4 + len) st1
                   in (out1 @ out2, st2)
      else ([], st))"
  by pat_completeness auto
termination
  by (relation "measure (\<lambda>(hcon, data, off, st). length data - off)") auto

declare signaling_loop.simps [simp del]

definition handle_signaling :: "u16 \<Rightarrow> u8 list \<Rightarrow> step" where
  "handle_signaling hcon data st = signaling_loop hcon data 0 st"

section \<open>Reception\<close>

definition dispatch_to_chan :: "u16 \<Rightarrow> u16 \<Rightarrow> u8 list \<Rightarrow> L2capState \<Rightarrow> l2cap_out list" where
  "dispatch_to_chan hcon dcid data st =
     (case find (\<lambda>c. ch_valid c \<and> ch_hcon c = hcon \<and> ch_dcid c = dcid \<and> ch_state c = ChOpen) (l2_chans st) of
        None \<Rightarrow> []
      | Some c \<Rightarrow> (case find (\<lambda>e. pe_valid e \<and> pe_psm e = ch_psm c) (l2_psm_reg st) of
            None \<Rightarrow> []
          | Some e \<Rightarrow> [Deliver (pe_handler e) hcon (ch_scid c) data]))"

definition l2cap_recv_frame :: "u16 \<Rightarrow> u8 list \<Rightarrow> step" where
  "l2cap_recv_frame hcon data st =
     (if length data < 4 then ([], st)
      else let len = unat (le16 data 0); cid = le16 data 2
      in if length data < 4 + len then ([], st)
         else let payload = slice data 4 len
         in if cid = L2CAP_CID_SIGNALING then handle_signaling hcon payload st
            else if cid = L2CAP_CID_LE_SIGNALING then handle_signaling hcon payload st
            else if cid = L2CAP_CID_ATT then ([], st)
            else if cid = L2CAP_CID_SMP then ([], st)
            else (dispatch_to_chan hcon cid payload st, st))"

section \<open>The channel table\<close>

datatype l2op = RegisterPsm u16 nat | Create u16 u16 | Close u16 | Command u16 u8 u8 "u8 list"

fun l2_exec :: "l2op \<Rightarrow> L2capState \<Rightarrow> L2capState" where
  "l2_exec (RegisterPsm psm h) st = snd (l2cap_register_psm psm h st)"
| "l2_exec (Create hcon psm) st = snd (l2cap_chan_create hcon psm st)"
| "l2_exec (Close scid) st = l2cap_chan_close scid st"
| "l2_exec (Command hcon code ident p) st = snd (signal_command hcon code ident p st)"

definition l2_run :: "l2op list \<Rightarrow> L2capState \<Rightarrow> L2capState" where
  "l2_run ops st = fold l2_exec ops st"

text \<open>A frame is a sequence of commands.\<close>

lemma signaling_loop_run:
  "\<exists>cs. snd (signaling_loop hcon data off st) = l2_run cs st \<and> set (fst (signaling_loop hcon data off st)) \<subseteq> {HciCommand 0 0 []}"
proof (induction hcon data off st rule: signaling_loop.induct)
  case (1 hcon data off st)
  let ?len = "unat (le16 data (off + 2))"
  show ?case
  proof (cases "off + 4 \<le> length data \<and> \<not> off + 4 + ?len > length data")
    case False
    then have "signaling_loop hcon data off st = ([], st)" by (subst signaling_loop.simps) (auto simp: Let_def)
    moreover have "st = l2_run [] st" by (simp add: l2_run_def)
    ultimately show ?thesis by (intro exI [of _ "[]"]) simp
  next
    case True
    let ?c = "data ! off" and ?i = "data ! (off + 1)" and ?p = "slice data (off + 4) ?len"
    obtain out1 st1 where s1: "signal_command hcon ?c ?i ?p st = (out1, st1)" by fastforce
    obtain out2 st2 where s2: "signaling_loop hcon data (off + 4 + ?len) st1 = (out2, st2)" by fastforce
    obtain cs where cs: "st2 = l2_run cs st1" "set out2 \<subseteq> {HciCommand 0 0 []}"
      using 1 [OF _ refl _ refl, of out1 st1] True s1 s2 by auto
    have o1: "set out1 \<subseteq> {HciCommand 0 0 []}"
      using s1 by (auto simp: signal_command_def handle_conn_req_def handle_conn_rsp_def handle_conf_req_def handle_conf_rsp_def
        handle_disconn_req_def handle_disconn_rsp_def Let_def l2cap_send_conn_rsp_def l2cap_send_conf_rsp_def
        l2cap_send_disconn_rsp_def l2cap_send_acl_def split: if_splits)
    have run: "signaling_loop hcon data off st = (out1 @ out2, st2)"
      using True s1 s2 by (subst signaling_loop.simps) (simp add: Let_def)
    have "st2 = l2_run (Command hcon ?c ?i ?p # cs) st" using cs(1) s1 by (simp add: l2_run_def)
    then show ?thesis using run cs(2) o1 by (intro exI [of _ "Command hcon ?c ?i ?p # cs"]) simp
  qed
qed

lemma recv_frame_run: "\<exists>cs. snd (l2cap_recv_frame hcon data st) = l2_run cs st"
proof -
  have z: "st = l2_run [] st" by (simp add: l2_run_def)
  show ?thesis
    unfolding l2cap_recv_frame_def handle_signaling_def Let_def
    using signaling_loop_run [of hcon "slice data 4 (unat (le16 data 0))" 0 st] z by (auto intro: exI [of _ "[]"])
qed

text \<open>What holds of every valid channel.\<close>

definition chan_ok :: "L2capChan \<Rightarrow> bool" where
  "chan_ok c \<longleftrightarrow> (ch_valid c \<longrightarrow> ch_state c \<in> {ChWaitConn, ChConfig, ChOpen} \<and> ch_conf_state c \<le> 3 \<and>
     (ch_state c = ChOpen \<longrightarrow> ch_conf_state c = 3))"

definition l2_shape :: "L2capState \<Rightarrow> bool" where
  "l2_shape st \<longleftrightarrow> length (l2_chans st) = MAX_L2CAP_CHANS \<and> length (l2_psm_reg st) = MAX_PSM \<and> (\<forall>c \<in> set (l2_chans st). chan_ok c)"

lemma update_first_all: "\<forall>c \<in> set xs. Q c \<Longrightarrow> (\<And>c. Q c \<Longrightarrow> P c \<Longrightarrow> Q (f c)) \<Longrightarrow> \<forall>c \<in> set (update_first P f xs). Q c"
  by (induction xs) auto

lemma update_chan_shape:
  "l2_shape st \<Longrightarrow> (\<And>c. chan_ok c \<Longrightarrow> P c \<Longrightarrow> chan_ok (f c)) \<Longrightarrow> l2_shape (update_chan P f st)"
  unfolding l2_shape_def update_chan_def using update_first_all [of "l2_chans st" chan_ok P f] by simp

lemma or_le_3: "(a :: u8) \<le> 3 \<Longrightarrow> a OR 1 \<le> 3 \<and> a OR 2 \<le> 3"
proof -
  assume "a \<le> 3"
  then have "unat a \<in> {0, 1, 2, 3}" by (auto simp: word_le_nat_alt)
  then have "a = 0 \<or> a = 1 \<or> a = 2 \<or> a = 3" by (auto simp: word_unat_eq_iff)
  then show ?thesis by auto
qed

lemma conf_flag_ok: "chan_ok c \<Longrightarrow> ch_valid c \<Longrightarrow> b = 1 \<or> b = 2 \<Longrightarrow> chan_ok (conf_flag b c)"
  using or_le_3 [of "ch_conf_state c"] by (auto simp: chan_ok_def conf_flag_def Let_def)

definition chan_ids :: "L2capChan list \<Rightarrow> u16 list" where
  "chan_ids cs = map ch_scid (filter ch_valid cs)"

lemma chan_ids_simps [simp]:
  "chan_ids [] = []" "chan_ids (c # cs) = (if ch_valid c then ch_scid c # chan_ids cs else chan_ids cs)"
  by (simp_all add: chan_ids_def)

lemma chan_ids_keep:
  assumes "\<And>c. P c \<Longrightarrow> ch_valid c \<and> ch_valid (f c) \<and> ch_scid (f c) = ch_scid c"
  shows "chan_ids (update_first P f cs) = chan_ids cs"
  using assms by (induction cs) auto

lemma chan_ids_free:
  assumes "\<And>c. P c \<Longrightarrow> ch_valid c"
  shows "distinct (chan_ids cs) \<Longrightarrow> distinct (chan_ids (update_first P free_chan cs)) \<and>
    set (chan_ids (update_first P free_chan cs)) \<subseteq> set (chan_ids cs)"
  by (induction cs) (auto simp: free_chan_def assms)

lemma chan_ids_append: "chan_ids (xs @ ys) = chan_ids xs @ chan_ids ys"
  by (simp add: chan_ids_def)

lemma chan_ids_alloc:
  assumes "ch_valid new" "ch_scid new \<notin> set (chan_ids cs)" "distinct (chan_ids cs)"
  shows "distinct (chan_ids (update_first (\<lambda>c. \<not> ch_valid c) (\<lambda>_. new) cs)) \<and>
    set (chan_ids (update_first (\<lambda>c. \<not> ch_valid c) (\<lambda>_. new) cs)) \<subseteq> insert (ch_scid new) (set (chan_ids cs))"
proof (cases "\<exists>c \<in> set cs. \<not> ch_valid c")
  case True
  then obtain ys x zs where cs: "cs = ys @ x # zs" "\<forall>y \<in> set ys. \<not> \<not> ch_valid y" "\<not> ch_valid x"
    using split_first [of cs "\<lambda>c. \<not> ch_valid c"] by auto
  then have "update_first (\<lambda>c. \<not> ch_valid c) (\<lambda>_. new) cs = ys @ new # zs"
    by (simp add: update_first_append)
  then show ?thesis using assms cs by (auto simp: chan_ids_append)
qed (use assms in auto)

text \<open>After \<open>n\<close> calls.\<close>

definition l2_inv :: "nat \<Rightarrow> L2capState \<Rightarrow> bool" where
  "l2_inv n st \<longleftrightarrow> l2_shape st \<and> distinct (chan_ids (l2_chans st)) \<and>
     (\<forall>i \<in> set (chan_ids (l2_chans st)). L2CAP_CID_DYN_START \<le> i \<and> i < l2_next_cid st) \<and>
     L2CAP_CID_DYN_START \<le> l2_next_cid st \<and> unat (l2_next_cid st) \<le> 64 + n"

lemma l2_inv_keep:
  assumes "l2_inv n st" "\<And>c. P c \<Longrightarrow> ch_valid c \<and> ch_valid (f c) \<and> ch_scid (f c) = ch_scid c"
    and "\<And>c. chan_ok c \<Longrightarrow> P c \<Longrightarrow> chan_ok (f c)"
  shows "l2_inv (Suc n) (update_chan P f st)"
  using assms(1) update_chan_shape [of st P f] assms(3) chan_ids_keep [of P f "l2_chans st"] assms(2)
  by (simp add: l2_inv_def) (simp add: update_chan_def)

lemma l2_inv_free:
  assumes "l2_inv n st" "\<And>c. P c \<Longrightarrow> ch_valid c"
  shows "l2_inv (Suc n) (update_chan P free_chan st)"
proof -
  have "l2_shape (update_chan P free_chan st)"
    using assms(1) by (intro update_chan_shape) (simp_all add: l2_inv_def chan_ok_def free_chan_def)
  then show ?thesis using assms(1) chan_ids_free [of P "l2_chans st"] assms(2)
    by (auto simp: l2_inv_def) (auto simp: update_chan_def)
qed

lemma l2_inv_next:
  assumes "l2_inv n st" "n < 65471"
  shows "l2_inv (Suc n) (st\<lparr>l2_next_cid := l2_next_cid st + 1\<rparr>)"
    "max (l2_next_cid st + 1) L2CAP_CID_DYN_START = l2_next_cid st + 1" "l2_next_cid st < l2_next_cid st + 1"
proof -
  let ?x = "l2_next_cid st" and ?st1 = "st\<lparr>l2_next_cid := l2_next_cid st + 1\<rparr>"
  have u: "unat (?x + 1) = unat ?x + 1"
    using assms(1,2) by (simp add: l2_inv_def unat_word_ariths(1))
  then have lt: "?x < ?x + 1" by (simp add: word_less_nat_alt)
  have ge: "L2CAP_CID_DYN_START \<le> ?x" using assms(1) by (simp add: l2_inv_def)
  then have "L2CAP_CID_DYN_START \<le> ?x + 1" using lt by (rule order.trans [OF _ less_imp_le])
  then show "max (?x + 1) L2CAP_CID_DYN_START = ?x + 1" by (simp add: max_def)
  show "l2_inv (Suc n) ?st1" "?x < ?x + 1"
    using assms(1) u lt ge \<open>L2CAP_CID_DYN_START \<le> ?x + 1\<close> by (auto simp: l2_inv_def l2_shape_def intro: less_trans)
qed

lemma l2_inv_alloc:
  assumes "l2_inv n st" "n < 65471" "chan_ok c" "ch_valid c" "ch_scid c = l2_next_cid st"
  shows "l2_inv (Suc n) (update_chan (\<lambda>c. \<not> ch_valid c) (\<lambda>_. c) (st\<lparr>l2_next_cid := l2_next_cid st + 1\<rparr>))"
proof -
  let ?st1 = "st\<lparr>l2_next_cid := l2_next_cid st + 1\<rparr>"
  note N = l2_inv_next [OF assms(1,2)]
  have new: "ch_scid c \<notin> set (chan_ids (l2_chans st))" using assms(1,5) by (auto simp: l2_inv_def)
  have "l2_shape (update_chan (\<lambda>c. \<not> ch_valid c) (\<lambda>_. c) ?st1)"
    using N(1) assms(3) by (intro update_chan_shape) (simp_all add: l2_inv_def)
  moreover have "L2CAP_CID_DYN_START \<le> l2_next_cid st" using assms(1) by (simp add: l2_inv_def)
  ultimately show ?thesis
    using N(1,3) chan_ids_alloc [OF assms(4) new] assms(1,5)
    by (simp add: l2_inv_def) (auto simp: update_chan_def dest!: subsetD)
qed

lemma l2_exec_inv:
  assumes "l2_inv n st" "n < 65471"
  shows "l2_inv (Suc n) (l2_exec op st)"
proof -
  have weaken: "l2_inv (Suc n) st" using assms(1) by (auto simp: l2_inv_def)
  note next_ok = l2_inv_next [OF assms] and alloc = l2_inv_alloc [OF assms]
  show ?thesis
  proof (cases op)
    case (RegisterPsm psm h)
    then show ?thesis using weaken by (simp add: l2cap_register_psm_def l2_inv_def l2_shape_def)
  next
    case (Create hcon psm)
    show ?thesis
      unfolding Create l2_exec.simps l2cap_chan_create_def Let_def
      using weaken next_ok(1) alloc by (simp add: chan_ok_def chan_empty_def)
  next
    case (Close scid)
    show ?thesis
      unfolding Close l2_exec.simps l2cap_chan_close_def by (rule l2_inv_free [OF assms(1)]) simp
  next
    case (Command hcon code ident p)
    have conf: "l2_inv (Suc n) (update_chan P (conf_flag b) st)"
      if "\<And>c. P c \<Longrightarrow> ch_valid c" "b = 1 \<or> b = 2" for P b
      by (rule l2_inv_keep [OF assms(1)]) (use that conf_flag_ok in \<open>auto simp: conf_flag_def Let_def\<close>)
    have "l2_inv (Suc n) (snd (handle_conn_req hcon ident p st))"
      unfolding handle_conn_req_def Let_def next_ok(2) using weaken alloc by (simp add: chan_ok_def chan_empty_def)
    moreover have "l2_inv (Suc n) (snd (handle_conn_rsp hcon ident p st))"
      unfolding handle_conn_rsp_def Let_def using weaken
      by (auto intro!: l2_inv_keep [OF assms(1)] simp: chan_ok_def)
    moreover have "l2_inv (Suc n) (snd (handle_conf_req hcon ident p st))" "l2_inv (Suc n) (snd (handle_conf_rsp hcon ident p st))"
      unfolding handle_conf_req_def handle_conf_rsp_def Let_def using weaken by (auto intro!: conf)
    moreover have "l2_inv (Suc n) (snd (handle_disconn_req hcon ident p st))" "l2_inv (Suc n) (snd (handle_disconn_rsp hcon ident p st))"
      unfolding handle_disconn_req_def handle_disconn_rsp_def Let_def using weaken by (auto intro!: l2_inv_free [OF assms(1)])
    ultimately show ?thesis using weaken by (simp add: Command signal_command_def)
  qed
qed

lemma l2_run_inv:
  assumes "length ops < 65472"
  shows "l2_inv (length ops) (l2_run ops l2cap_new)"
proof -
  have "l2_inv (n + length ops) (l2_run ops st)" if "l2_inv n st" "n + length ops < 65472" for n st
    using that
  proof (induction ops arbitrary: n st)
    case (Cons op ops)
    then have "l2_inv (Suc n) (l2_exec op st)" by (intro l2_exec_inv) auto
    then show ?case using Cons.IH [of "Suc n"] Cons.prems(2) by (simp add: l2_run_def)
  qed (simp add: l2_run_def)
  moreover have "l2_inv 0 l2cap_new"
    by (simp add: l2_inv_def l2_shape_def l2cap_new_def chan_ok_def chan_empty_def chan_ids_def L2CAP_CID_DYN_START_def)
  ultimately show ?thesis using assms by fastforce
qed

text \<open>
  C32 (invariant). After any calls and any signalling from peers, until the identifiers run out, the channels in
  use have distinct dynamic identifiers below the next one, are waiting, configuring or open, and
  are open only with both configuration flags. Receiving a frame is always a finite sequence of such commands.
\<close>

theorem l2cap_channels:
  assumes "length ops < 65472"
  shows "(let st = l2_run ops l2cap_new; used = filter ch_valid (l2_chans st)
     in length (l2_chans st) = MAX_L2CAP_CHANS \<and> distinct (map ch_scid used) \<and>
        (\<forall>c \<in> set used. L2CAP_CID_DYN_START \<le> ch_scid c \<and> ch_scid c < l2_next_cid st \<and>
           ch_state c \<in> {ChWaitConn, ChConfig, ChOpen} \<and> (ch_state c = ChOpen \<longrightarrow> ch_conf_state c = 3))) \<and>
    (\<forall>hcon data st. \<exists>cs. snd (l2cap_recv_frame hcon data st) = l2_run cs st)"
proof -
  let ?st = "l2_run ops l2cap_new"
  have i: "l2_inv (length ops) ?st" by (rule l2_run_inv [OF assms])
  then have "\<forall>c \<in> set (filter ch_valid (l2_chans ?st)). L2CAP_CID_DYN_START \<le> ch_scid c \<and> ch_scid c < l2_next_cid ?st"
    by (auto simp: l2_inv_def chan_ids_def)
  moreover have "\<forall>c \<in> set (filter ch_valid (l2_chans ?st)). ch_state c \<in> {ChWaitConn, ChConfig, ChOpen} \<and> (ch_state c = ChOpen \<longrightarrow> ch_conf_state c = 3)"
    using i by (auto simp: l2_inv_def l2_shape_def chan_ok_def)
  moreover have "length (l2_chans ?st) = MAX_L2CAP_CHANS" "distinct (map ch_scid (filter ch_valid (l2_chans ?st)))"
    using i by (simp_all add: l2_inv_def l2_shape_def chan_ids_def)
  ultimately show ?thesis using recv_frame_run by (auto simp: Let_def)
qed

theorem l2cap_channels_witness:
  "distinct (map ch_scid (filter ch_valid (l2_chans (l2_run [Create 1 1, Create 1 3, Close 64, Create 2 1] l2cap_new))))"
  using l2cap_channels [of "[Create 1 1, Create 1 3, Close 64, Create 2 1]"] by (auto simp: Let_def)

section \<open>What peers can and cannot do\<close>

lemma le16_skip2: "le16 (to_le 2 a @ r) (Suc (Suc i)) = le16 r i"
  by (simp add: le16_def slice_def)

text \<open>
  A response to a connection request names the two identifiers in the wrong order: a requester that
  runs this code looks for a channel with the responder's identifier and leaves its own waiting. No response
  leaves the machine anyway, the only output of signalling being the empty command. A response from any connection
  acts on the channels of every other: it can close them. And data is routed by the identifier
  the remote side gave its own end, so what is addressed to a channel here is not delivered to it.
\<close>

theorem l2cap_peers:
  "handle_conn_rsp hcon ident (drop 4 (conn_rsp_bytes ident b a L2CAP_SUCCESS)) st =
     ([], update_chan (\<lambda>c. ch_valid c \<and> ch_scid c = b) (\<lambda>c. c\<lparr>ch_dcid := a, ch_state := ChConfig\<rparr>) st) \<and>
   set (fst (handle_signaling hcon data st)) \<subseteq> {HciCommand 0 0 []} \<and>
   handle_disconn_rsp hcon ident p st = handle_disconn_rsp other ident2 p st \<and>
   dispatch_to_chan hcon cid payload st \<in> insert [] {[Deliver h hcon (ch_scid c) payload] | h c.
     c \<in> set (l2_chans st) \<and> ch_valid c \<and> ch_state c = ChOpen \<and> ch_hcon c = hcon \<and> ch_dcid c = cid}"
proof (intro conjI)
  let ?p = "drop 4 (conn_rsp_bytes ident b a L2CAP_SUCCESS)"
  have p: "?p = to_le 2 (unat a) @ to_le 2 (unat b) @ to_le 2 (unat L2CAP_SUCCESS) @ to_le 2 0"
    by (simp add: conn_rsp_bytes_def build_sig_hdr_def)
  have 4: "(4 :: nat) = Suc (Suc (Suc (Suc 0)))" "(2 :: nat) = Suc (Suc 0)" by simp_all
  have "le16 ?p 0 = a" "le16 ?p 2 = b" "le16 ?p 4 = L2CAP_SUCCESS" "length ?p = 8"
    unfolding p by (simp_all only: 4 le16_skip2 [unfolded 4] le16_to_le [unfolded 4]) simp
  then show "handle_conn_rsp hcon ident ?p st =
     ([], update_chan (\<lambda>c. ch_valid c \<and> ch_scid c = b) (\<lambda>c. c\<lparr>ch_dcid := a, ch_state := ChConfig\<rparr>) st)"
    by (simp add: handle_conn_rsp_def Let_def)
  show "set (fst (handle_signaling hcon data st)) \<subseteq> {HciCommand 0 0 []}"
    using signaling_loop_run [of hcon data 0 st] by (auto simp: handle_signaling_def)
  show "handle_disconn_rsp hcon ident p st = handle_disconn_rsp other ident2 p st"
    by (simp add: handle_disconn_rsp_def)
  show "dispatch_to_chan hcon cid payload st \<in> insert [] {[Deliver h hcon (ch_scid c) payload] | h c.
     c \<in> set (l2_chans st) \<and> ch_valid c \<and> ch_state c = ChOpen \<and> ch_hcon c = hcon \<and> ch_dcid c = cid}"
    by (auto simp: dispatch_to_chan_def find_Some_iff split: option.splits)
qed

end
