(* ===== verification/Hci.thy ===== *)
theory Hci
  imports L2cap
begin

text \<open>
  The host controller interface of Bluetooth, \<open>kernel/src/net/bluetooth/hci.rs\<close>: commands, the events that
  fill the connection table, and the table of controllers with its mutex. A call that would wait for a mutex its own
  thread holds never returns: its result is \<open>None\<close>. The transport of a driver acts on a world
  of its own, the protocol handlers that L2CAP calls are an argument.
\<close>

section \<open>Constants\<close>

definition HCI_COMMAND_PKT :: u8 where "HCI_COMMAND_PKT = 0x01"
definition HCI_ACLDATA_PKT :: u8 where "HCI_ACLDATA_PKT = 0x02"
definition HCI_EVENT_PKT :: u8 where "HCI_EVENT_PKT = 0x04"

definition OP_INQUIRY :: u16 where "OP_INQUIRY = 0x0401"
definition OP_CREATE_CONN :: u16 where "OP_CREATE_CONN = 0x0405"
definition OP_DISCONNECT :: u16 where "OP_DISCONNECT = 0x0406"
definition OP_RESET :: u16 where "OP_RESET = 0x0C03"
definition OP_SET_EVENT_MASK :: u16 where "OP_SET_EVENT_MASK = 0x0C01"
definition OP_WRITE_SCAN_ENABLE :: u16 where "OP_WRITE_SCAN_ENABLE = 0x0C1A"
definition OP_READ_BUFFER_SIZE :: u16 where "OP_READ_BUFFER_SIZE = 0x1005"
definition OP_READ_BD_ADDR :: u16 where "OP_READ_BD_ADDR = 0x1009"
definition OP_READ_LOCAL_FEATURES :: u16 where "OP_READ_LOCAL_FEATURES = 0x1003"
definition OP_READ_LOCAL_VERSION :: u16 where "OP_READ_LOCAL_VERSION = 0x1001"

definition EV_INQUIRY_COMPLETE :: u8 where "EV_INQUIRY_COMPLETE = 0x01"
definition EV_INQUIRY_RESULT :: u8 where "EV_INQUIRY_RESULT = 0x02"
definition EV_CONN_COMPLETE :: u8 where "EV_CONN_COMPLETE = 0x03"
definition EV_DISCONN_COMPLETE :: u8 where "EV_DISCONN_COMPLETE = 0x05"
definition EV_AUTH_COMPLETE :: u8 where "EV_AUTH_COMPLETE = 0x06"
definition EV_ENCRYPT_CHANGE :: u8 where "EV_ENCRYPT_CHANGE = 0x08"
definition EV_CMD_COMPLETE :: u8 where "EV_CMD_COMPLETE = 0x0E"
definition EV_CMD_STATUS :: u8 where "EV_CMD_STATUS = 0x0F"
definition EV_LE_META :: u8 where "EV_LE_META = 0x3E"
definition LE_CONN_COMPLETE :: u8 where "LE_CONN_COMPLETE = 0x01"
definition LE_ADV_REPORT :: u8 where "LE_ADV_REPORT = 0x02"

lemmas event_consts = EV_INQUIRY_COMPLETE_def EV_INQUIRY_RESULT_def EV_CONN_COMPLETE_def EV_DISCONN_COMPLETE_def
  EV_AUTH_COMPLETE_def EV_ENCRYPT_CHANGE_def EV_CMD_COMPLETE_def EV_CMD_STATUS_def EV_LE_META_def
  LE_CONN_COMPLETE_def LE_ADV_REPORT_def

definition FLAG_UP :: u32 where "FLAG_UP = 0x01"
definition FLAG_RUNNING :: u32 where "FLAG_RUNNING = 0x02"
definition FLAG_INQUIRY :: u32 where "FLAG_INQUIRY = 0x04"

definition HCI_MAX_CMD_DATA :: usize where "HCI_MAX_CMD_DATA = 255"
definition MAX_HCI_CONNS :: usize where "MAX_HCI_CONNS = 16"
definition MAX_HCI_CMD_Q :: usize where "MAX_HCI_CMD_Q = 16"
definition MAX_INQUIRY_RES :: usize where "MAX_INQUIRY_RES = 32"
definition MAX_HCI_DEVS :: usize where "MAX_HCI_DEVS = 4"

section \<open>State\<close>

datatype ConnType = Acl | Sco | LowEnergy

datatype ConnState = CnClosed | CnConnecting | CnConnected | CnDisconnecting

record HciConn =
  hc_handle :: u16
  hc_bdaddr :: "u8 list"
  hc_conn_type :: ConnType
  hc_state :: ConnState
  hc_encrypt :: bool
  hc_auth :: bool
  hc_lsto :: u16
  hc_flush_to :: u16
  hc_valid :: bool

definition conn_empty :: HciConn where
  "conn_empty = \<lparr>hc_handle = 0, hc_bdaddr = replicate 6 0, hc_conn_type = Acl, hc_state = CnClosed, hc_encrypt = False,
     hc_auth = False, hc_lsto = 0x7D00, hc_flush_to = 0xFFFF, hc_valid = False\<rparr>"

record HciCmdEntry =
  ce_opcode :: u16
  ce_plen :: u8
  ce_data :: "u8 list"
  ce_valid :: bool

definition cmd_entry_empty :: HciCmdEntry where
  "cmd_entry_empty = \<lparr>ce_opcode = 0, ce_plen = 0, ce_data = replicate HCI_MAX_CMD_DATA 0, ce_valid = False\<rparr>"

record InquiryResult =
  iq_bdaddr :: "u8 list"
  iq_class_dev :: "u8 list"
  iq_clock_offset :: u16
  iq_rssi :: u8
  iq_valid :: bool

text \<open>The signal strength is a signed byte; its initial value is \<open>- 100\<close>.\<close>

definition inquiry_empty :: InquiryResult where
  "inquiry_empty = \<lparr>iq_bdaddr = replicate 6 0, iq_class_dev = replicate 3 0, iq_clock_offset = 0, iq_rssi = - 100,
     iq_valid = False\<rparr>"

record 'w HciTransport =
  tr_send :: "u8 \<Rightarrow> u8 list \<Rightarrow> 'w \<Rightarrow> unit kresult \<times> 'w"
  tr_open :: "u8 \<Rightarrow> 'w \<Rightarrow> unit kresult \<times> 'w"
  tr_close :: "u8 \<Rightarrow> 'w \<Rightarrow> 'w"
  tr_flush :: "u8 \<Rightarrow> 'w \<Rightarrow> 'w"

record 'w HciDev =
  hd_id :: u8
  hd_bdaddr :: "u8 list"
  hd_name :: "u8 list"
  hd_dev_class :: u32
  hd_hci_ver :: u8
  hd_lmp_ver :: u8
  hd_manufacturer :: u32
  hd_le_supported :: bool
  hd_cmd_cnt :: u8
  hd_conns :: "HciConn list"
  hd_cmd_queue :: "HciCmdEntry list"
  hd_inquiry :: "InquiryResult list"
  hd_inquiry_cnt :: u32
  hd_flags :: u32
  hd_transport :: "'w HciTransport option"

definition hci_dev_new :: "u8 \<Rightarrow> 'w HciDev" where
  "hci_dev_new i =
     \<lparr>hd_id = i, hd_bdaddr = replicate 6 0, hd_name = replicate 248 0, hd_dev_class = 0, hd_hci_ver = 0, hd_lmp_ver = 0,
      hd_manufacturer = 0, hd_le_supported = False, hd_cmd_cnt = 1, hd_conns = replicate MAX_HCI_CONNS conn_empty,
      hd_cmd_queue = replicate MAX_HCI_CMD_Q cmd_entry_empty, hd_inquiry = replicate MAX_INQUIRY_RES inquiry_empty,
      hd_inquiry_cnt = 0, hd_flags = 0, hd_transport = None\<rparr>"

section \<open>Commands\<close>

definition cmd_bytes :: "u16 \<Rightarrow> u8 list \<Rightarrow> u8 list" where
  "cmd_bytes opcode params = [HCI_COMMAND_PKT] @ to_le 2 (unat opcode) @ [of_nat (length params)] @ params"

definition send_cmd :: "u16 \<Rightarrow> u8 list \<Rightarrow> 'w HciDev \<Rightarrow> 'w \<Rightarrow> unit kresult \<times> 'w" where
  "send_cmd opcode params dev w =
     (if length params > HCI_MAX_CMD_DATA then (Err (InvalidParameter ''HCI params too large''), w)
      else case hd_transport dev of
        None \<Rightarrow> (Err NotFound, w)
      | Some t \<Rightarrow> tr_send t (hd_id dev) (cmd_bytes opcode params) w)"

definition send_cmd_nopar :: "u16 \<Rightarrow> 'w HciDev \<Rightarrow> 'w \<Rightarrow> unit kresult \<times> 'w" where
  "send_cmd_nopar opcode dev w = send_cmd opcode [] dev w"

text \<open>Commands in order, up to the first that fails.\<close>

fun send_all :: "(u16 \<times> u8 list) list \<Rightarrow> 'w HciDev \<Rightarrow> 'w \<Rightarrow> unit kresult \<times> 'w" where
  "send_all [] dev w = (Ok (), w)"
| "send_all ((opcode, params) # cmds) dev w =
     (case send_cmd opcode params dev w of
        (Ok _, w1) \<Rightarrow> send_all cmds dev w1
      | (r, w1) \<Rightarrow> (r, w1))"

definition init_cmds :: "(u16 \<times> u8 list) list" where
  "init_cmds = [(OP_RESET, []), (OP_READ_LOCAL_VERSION, []), (OP_READ_LOCAL_FEATURES, []), (OP_READ_BUFFER_SIZE, []),
     (OP_READ_BD_ADDR, []), (OP_SET_EVENT_MASK, replicate 8 0xFF), (OP_WRITE_SCAN_ENABLE, [0x03])]"

definition hci_init :: "'w HciDev \<Rightarrow> 'w \<Rightarrow> unit kresult \<times> 'w HciDev \<times> 'w" where
  "hci_init dev w =
     (case hd_transport dev of
        None \<Rightarrow> (Err NotFound, dev, w)
      | Some t \<Rightarrow> (case tr_open t (hd_id dev) w of
          (Ok _, w1) \<Rightarrow> (case send_all init_cmds dev w1 of
              (Ok _, w2) \<Rightarrow> (Ok (), dev\<lparr>hd_flags := hd_flags dev OR (FLAG_UP OR FLAG_RUNNING)\<rparr>, w2)
            | (r, w2) \<Rightarrow> (r, dev, w2))
        | (r, w1) \<Rightarrow> (r, dev, w1)))"

definition hci_connect :: "u8 list \<Rightarrow> 'w HciDev \<Rightarrow> 'w \<Rightarrow> unit kresult \<times> 'w" where
  "hci_connect bdaddr dev w =
     send_cmd OP_CREATE_CONN (bdaddr @ to_le 2 0xCC18 @ [0x02, 0x00] @ to_le 2 0 @ [0x01]) dev w"

definition disconnect_handle :: "u16 \<Rightarrow> u8 \<Rightarrow> 'w HciDev \<Rightarrow> 'w \<Rightarrow> unit kresult \<times> 'w" where
  "disconnect_handle handle reason dev w = send_cmd OP_DISCONNECT (to_le 2 (unat handle) @ [reason]) dev w"

definition inquiry_start :: "u8 \<Rightarrow> 'w HciDev \<Rightarrow> 'w \<Rightarrow> unit kresult \<times> 'w HciDev \<times> 'w" where
  "inquiry_start duration dev w =
     (let dev1 = dev\<lparr>hd_inquiry_cnt := 0, hd_flags := hd_flags dev OR FLAG_INQUIRY\<rparr>;
          (r, w1) = send_cmd OP_INQUIRY [0x33, 0x8B, 0x9E, duration, 0x00] dev1 w
      in (r, dev1, w1))"

section \<open>Events\<close>

definition add_conn :: "HciConn \<Rightarrow> 'w HciDev \<Rightarrow> 'w HciDev" where
  "add_conn c dev = dev\<lparr>hd_conns := update_first (\<lambda>s. \<not> hc_valid s) (\<lambda>_. c) (hd_conns dev)\<rparr>"

definition update_conn :: "u16 \<Rightarrow> (HciConn \<Rightarrow> HciConn) \<Rightarrow> 'w HciDev \<Rightarrow> 'w HciDev" where
  "update_conn handle f dev = dev\<lparr>hd_conns := update_first (\<lambda>s. hc_valid s \<and> hc_handle s = handle) f (hd_conns dev)\<rparr>"

definition handle_conn_complete :: "u8 list \<Rightarrow> 'w HciDev \<Rightarrow> 'w HciDev" where
  "handle_conn_complete p dev =
     (if length p < 11 then dev
      else if p ! 0 \<noteq> 0 then dev
      else add_conn (conn_empty\<lparr>hc_handle := le16 p 1, hc_bdaddr := slice p 3 6,
             hc_conn_type := (if p ! 9 = 1 then Sco else Acl), hc_state := CnConnected, hc_valid := True\<rparr>) dev)"

definition free_conn :: "HciConn \<Rightarrow> HciConn" where
  "free_conn s = s\<lparr>hc_state := CnClosed, hc_valid := False\<rparr>"

definition handle_disconn_complete :: "u8 list \<Rightarrow> 'w HciDev \<Rightarrow> 'w HciDev" where
  "handle_disconn_complete p dev =
     (if length p < 4 then dev
      else update_conn (le16 p 1) free_conn dev)"

definition handle_cmd_complete :: "u8 list \<Rightarrow> 'w HciDev \<Rightarrow> 'w HciDev" where
  "handle_cmd_complete p dev =
     (if length p < 3 then dev
      else let dev1 = dev\<lparr>hd_cmd_cnt := p ! 0\<rparr>; opcode = le16 p 1; ret = (if length p > 3 then p ! 3 else 0)
      in if ret \<noteq> 0 then dev1
         else if opcode = OP_READ_BD_ADDR then
           (if length p \<ge> 10 then dev1\<lparr>hd_bdaddr := slice p 4 6\<rparr> else dev1)
         else if opcode = OP_READ_LOCAL_VERSION then
           (if length p \<ge> 9 then dev1\<lparr>hd_hci_ver := p ! 4, hd_lmp_ver := p ! 6, hd_manufacturer := ucast (le16 p 7)\<rparr> else dev1)
         else dev1)"

definition handle_cmd_status :: "u8 list \<Rightarrow> 'w HciDev \<Rightarrow> 'w HciDev" where
  "handle_cmd_status p dev = (if length p \<ge> 2 then dev\<lparr>hd_cmd_cnt := p ! 1\<rparr> else dev)"

definition inquiry_entry :: "u8 list \<Rightarrow> usize \<Rightarrow> InquiryResult" where
  "inquiry_entry p off = inquiry_empty\<lparr>iq_bdaddr := slice p off 6, iq_class_dev := slice p (off + 9) 3,
     iq_clock_offset := le16 p (off + 12), iq_valid := True\<rparr>"

function inquiry_loop :: "usize \<Rightarrow> usize \<Rightarrow> u8 list \<Rightarrow> 'w HciDev \<Rightarrow> 'w HciDev" where
  "inquiry_loop i n p dev =
     (if i < n
      then let off = 1 + i * 14
           in if off + 14 > length p then dev
              else let cnt = unat (hd_inquiry_cnt dev)
                   in inquiry_loop (Suc i) n p
                        (dev\<lparr>hd_inquiry := (hd_inquiry dev)[cnt mod MAX_INQUIRY_RES := inquiry_entry p off],
                             hd_inquiry_cnt := hd_inquiry_cnt dev + 1\<rparr>)
      else dev)"
  by pat_completeness auto
termination
  by (relation "measure (\<lambda>(i, n, p, dev). n - i)") auto

declare inquiry_loop.simps [simp del]

definition handle_inquiry_result :: "u8 list \<Rightarrow> 'w HciDev \<Rightarrow> 'w HciDev" where
  "handle_inquiry_result p dev = (if p = [] then dev else inquiry_loop 0 (unat (p ! 0)) p dev)"

definition handle_auth_complete :: "u8 list \<Rightarrow> 'w HciDev \<Rightarrow> 'w HciDev" where
  "handle_auth_complete p dev =
     (if length p < 3 then dev
      else if p ! 0 \<noteq> 0 then dev
      else update_conn (le16 p 1) (\<lambda>s. s\<lparr>hc_auth := True\<rparr>) dev)"

definition handle_encrypt_change :: "u8 list \<Rightarrow> 'w HciDev \<Rightarrow> 'w HciDev" where
  "handle_encrypt_change p dev =
     (if length p < 4 then dev
      else if p ! 0 \<noteq> 0 then dev
      else update_conn (le16 p 1) (\<lambda>s. s\<lparr>hc_encrypt := (p ! 3 \<noteq> 0)\<rparr>) dev)"

definition handle_le_conn_complete :: "u8 list \<Rightarrow> 'w HciDev \<Rightarrow> 'w HciDev" where
  "handle_le_conn_complete p dev =
     (if length p < 18 then dev
      else if p ! 0 \<noteq> 0 then dev
      else add_conn (conn_empty\<lparr>hc_handle := le16 p 1, hc_bdaddr := slice p 4 6, hc_conn_type := LowEnergy,
             hc_state := CnConnected, hc_valid := True\<rparr>) dev)"

definition handle_le_adv_report :: "u8 list \<Rightarrow> 'w HciDev \<Rightarrow> 'w HciDev" where
  "handle_le_adv_report p dev = dev"

definition handle_le_meta :: "u8 list \<Rightarrow> 'w HciDev \<Rightarrow> 'w HciDev" where
  "handle_le_meta p dev =
     (if p = [] then dev
      else if p ! 0 = LE_CONN_COMPLETE then handle_le_conn_complete (drop 1 p) dev
      else if p ! 0 = LE_ADV_REPORT then handle_le_adv_report (drop 1 p) dev
      else dev)"

definition recv_event :: "u8 list \<Rightarrow> 'w HciDev \<Rightarrow> 'w HciDev" where
  "recv_event data dev =
     (if length data < 2 then dev
      else let evt_code = data ! 0; plen = unat (data ! 1)
      in if length data < 2 + plen then dev
         else let params = slice data 2 plen
         in if evt_code = EV_CONN_COMPLETE then handle_conn_complete params dev
            else if evt_code = EV_DISCONN_COMPLETE then handle_disconn_complete params dev
            else if evt_code = EV_CMD_COMPLETE then handle_cmd_complete params dev
            else if evt_code = EV_CMD_STATUS then handle_cmd_status params dev
            else if evt_code = EV_INQUIRY_RESULT then handle_inquiry_result params dev
            else if evt_code = EV_INQUIRY_COMPLETE then dev\<lparr>hd_flags := hd_flags dev AND NOT FLAG_INQUIRY\<rparr>
            else if evt_code = EV_AUTH_COMPLETE then handle_auth_complete params dev
            else if evt_code = EV_ENCRYPT_CHANGE then handle_encrypt_change params dev
            else if evt_code = EV_LE_META then handle_le_meta params dev
            else dev)"

definition conn_by_handle :: "u16 \<Rightarrow> 'w HciDev \<Rightarrow> HciConn option" where
  "conn_by_handle handle dev = find (\<lambda>c. hc_valid c \<and> hc_handle c = handle) (hd_conns dev)"

definition conn_by_bdaddr :: "u8 list \<Rightarrow> 'w HciDev \<Rightarrow> HciConn option" where
  "conn_by_bdaddr bdaddr dev = find (\<lambda>c. hc_valid c \<and> hc_bdaddr c = bdaddr) (hd_conns dev)"

section \<open>The table of controllers\<close>

text \<open>
  Together with its lock, the table of channels and the world of the transports: what a received packet acts on.
\<close>

record 'w Bluetooth =
  bt_devs :: "'w HciDev option list"
  bt_count :: usize
  bt_devs_locked :: bool
  bt_l2cap :: L2capState
  bt_world :: 'w

definition hci_dev_table_new :: "'w \<Rightarrow> 'w Bluetooth" where
  "hci_dev_table_new w = \<lparr>bt_devs = replicate MAX_HCI_DEVS None, bt_count = 0, bt_devs_locked = False,
     bt_l2cap = l2cap_new, bt_world = w\<rparr>"

definition free_slot :: "'a option list \<Rightarrow> nat option" where
  "free_slot xs = find (\<lambda>i. xs ! i = None) [0..<length xs]"

definition hci_register_dev :: "'w HciDev \<Rightarrow> 'w Bluetooth \<Rightarrow> (u8 kresult \<times> 'w Bluetooth) option" where
  "hci_register_dev dev bt =
     (if bt_devs_locked bt then None
      else if bt_count bt \<ge> MAX_HCI_DEVS then Some (Err ResourceExhausted, bt)
      else case free_slot (bt_devs bt) of
        None \<Rightarrow> Some (Err ResourceExhausted, bt)
      | Some i \<Rightarrow> Some (Ok (of_nat i), bt\<lparr>bt_devs := (bt_devs bt)[i := Some (dev\<lparr>hd_id := of_nat i\<rparr>)],
          bt_count := uadd (bt_count bt) 1\<rparr>))"

definition hci_unregister_dev :: "u8 \<Rightarrow> 'w Bluetooth \<Rightarrow> (unit \<times> 'w Bluetooth) option" where
  "hci_unregister_dev i bt =
     (if bt_devs_locked bt then None
      else if unat i < length (bt_devs bt) \<and> bt_devs bt ! unat i \<noteq> None
      then Some ((), bt\<lparr>bt_devs := (bt_devs bt)[unat i := None], bt_count := usub (bt_count bt) 1\<rparr>)
      else Some ((), bt))"

text \<open>The closure runs while the table is locked.\<close>

type_synonym ('r, 'w) dev_call = "'w HciDev \<Rightarrow> 'w Bluetooth \<Rightarrow> ('r \<times> 'w HciDev \<times> 'w Bluetooth) option"

definition with_hci_dev :: "u8 \<Rightarrow> ('r, 'w) dev_call \<Rightarrow> 'w Bluetooth \<Rightarrow> ('r option \<times> 'w Bluetooth) option" where
  "with_hci_dev i f bt =
     (if bt_devs_locked bt then None
      else if unat i < length (bt_devs bt)
      then (case bt_devs bt ! unat i of
              None \<Rightarrow> Some (None, bt)
            | Some dev \<Rightarrow> (case f dev (bt\<lparr>bt_devs_locked := True\<rparr>) of
                None \<Rightarrow> None
              | Some (r, dev1, bt1) \<Rightarrow>
                  Some (Some r, bt1\<lparr>bt_devs := (bt_devs bt1)[unat i := Some dev1], bt_devs_locked := False\<rparr>)))
      else Some (None, bt))"

section \<open>Data\<close>

text \<open>What L2CAP gives out: a command to a controller, or a call of a protocol's handler.\<close>

type_synonym 'w handler = "nat \<Rightarrow> u16 \<Rightarrow> u16 \<Rightarrow> u8 list \<Rightarrow> 'w Bluetooth \<Rightarrow> 'w Bluetooth option"

fun perform :: "'w handler \<Rightarrow> l2cap_out \<Rightarrow> 'w Bluetooth \<Rightarrow> 'w Bluetooth option" where
  "perform handler (Deliver h hcon scid data) bt = handler h hcon scid data bt"
| "perform handler (HciCommand i opcode params) bt =
     map_option snd (with_hci_dev i (\<lambda>dev bt. let (r, w) = send_cmd opcode params dev (bt_world bt)
                                               in Some (r, dev, bt\<lparr>bt_world := w\<rparr>)) bt)"

fun perform_all :: "'w handler \<Rightarrow> l2cap_out list \<Rightarrow> 'w Bluetooth \<Rightarrow> 'w Bluetooth option" where
  "perform_all handler [] bt = Some bt"
| "perform_all handler (out # outs) bt =
     (case perform handler out bt of None \<Rightarrow> None | Some bt1 \<Rightarrow> perform_all handler outs bt1)"

definition recv_acl :: "'w handler \<Rightarrow> u8 list \<Rightarrow> (unit, 'w) dev_call" where
  "recv_acl handler data dev bt =
     (if length data < 4 then Some ((), dev, bt)
      else let handle = le16 data 0 AND 0x0FFF; dlen = unat (le16 data 2);
               payload = (if length data \<ge> 4 + dlen then slice data 4 dlen else drop 4 data);
               (outs, l2) = l2cap_recv_frame handle payload (bt_l2cap bt)
      in case perform_all handler outs (bt\<lparr>bt_l2cap := l2\<rparr>) of
           None \<Rightarrow> None
         | Some bt1 \<Rightarrow> Some ((), dev, bt1))"

definition recv_event_call :: "u8 list \<Rightarrow> (unit, 'w) dev_call" where
  "recv_event_call data dev bt = Some ((), recv_event data dev, bt)"

section \<open>The connection table as a map\<close>

primrec conn_map :: "HciConn list \<Rightarrow> u16 \<rightharpoonup> HciConn" where
  "conn_map [] = Map.empty"
| "conn_map (c # cs) = (if hc_valid c then (conn_map cs)(hc_handle c \<mapsto> c) else conn_map cs)"

lemma conn_map_Cons: "conn_map (c # cs) h = (if hc_valid c \<and> hc_handle c = h then Some c else conn_map cs h)"
  by simp

declare conn_map.simps [simp del]
declare conn_map_Cons [simp]

lemma conn_map_Nil [simp]: "conn_map [] h = None"
  by (simp add: conn_map.simps)

lemma conn_by_handle_map: "conn_by_handle h dev = conn_map (hd_conns dev) h"
proof -
  have "find (\<lambda>c. hc_valid c \<and> hc_handle c = h) cs = conn_map cs h" for cs
    by (induction cs) auto
  then show ?thesis by (simp add: conn_by_handle_def)
qed

definition handles :: "HciConn list \<Rightarrow> u16 list" where
  "handles cs = map hc_handle (filter hc_valid cs)"

lemma handles_simps [simp]:
  "handles [] = []" "handles (c # cs) = (if hc_valid c then hc_handle c # handles cs else handles cs)"
  by (simp_all add: handles_def)

lemma conn_map_none: "conn_map cs h = None \<longleftrightarrow> h \<notin> set (handles cs)"
  by (induction cs) auto

definition has_room :: "'w HciDev \<Rightarrow> bool" where
  "has_room dev \<longleftrightarrow> (\<exists>c \<in> set (hd_conns dev). \<not> hc_valid c)"

lemma add_conn_map:
  assumes "hc_valid c" "hc_handle c \<notin> set (handles cs)" "\<exists>s \<in> set cs. \<not> hc_valid s"
  shows "conn_map (update_first (\<lambda>s. \<not> hc_valid s) (\<lambda>_. c) cs) h = (if h = hc_handle c then Some c else conn_map cs h)"
  using assms by (induction cs) (auto split: if_splits)

lemma add_conn_handles:
  assumes "hc_valid c" "hc_handle c \<notin> set (handles cs)"
  shows "set (handles (update_first (\<lambda>s. \<not> hc_valid s) (\<lambda>_. c) cs)) \<subseteq> insert (hc_handle c) (set (handles cs)) \<and>
    (distinct (handles cs) \<longrightarrow> distinct (handles (update_first (\<lambda>s. \<not> hc_valid s) (\<lambda>_. c) cs)))"
  using assms by (induction cs) (auto split: if_splits)

text \<open>A change that keeps an entry in use acts on the entry the lookup finds.\<close>

lemma update_conn_map:
  assumes "\<And>s. hc_valid (f s) = hc_valid s" "\<And>s. hc_handle (f s) = hc_handle s"
  shows "conn_map (update_first (\<lambda>s. hc_valid s \<and> hc_handle s = h) f cs) k =
    (if k = h then map_option f (conn_map cs h) else conn_map cs k)"
    "handles (update_first (\<lambda>s. hc_valid s \<and> hc_handle s = h) f cs) = handles cs"
proof (induction cs)
  case (Cons c cs)
  { case 1 show ?case using Cons(1) by (auto simp: assms) next case 2 show ?case using Cons(2) by (simp add: assms) }
qed simp_all

lemma drop_conn_map:
  "distinct (handles cs) \<Longrightarrow>
    conn_map (update_first (\<lambda>s. hc_valid s \<and> hc_handle s = h) free_conn cs) k = (if k = h then None else conn_map cs k)"
  by (induction cs) (auto simp: free_conn_def conn_map_none)

lemma drop_conn_handles:
  "set (handles (update_first (\<lambda>s. hc_valid s \<and> hc_handle s = h) free_conn cs)) \<subseteq> set (handles cs) \<and>
    (distinct (handles cs) \<longrightarrow> distinct (handles (update_first (\<lambda>s. hc_valid s \<and> hc_handle s = h) free_conn cs)))"
  by (induction cs) (auto simp: free_conn_def)

section \<open>Event packets\<close>

definition event_packet :: "u8 \<Rightarrow> u8 list \<Rightarrow> u8 list" where
  "event_packet code params = [code, of_nat (length params)] @ params"

lemma recv_event_packet:
  assumes "length params < 256"
  shows "recv_event (event_packet code params) dev =
    (if code = EV_CONN_COMPLETE then handle_conn_complete params dev
     else if code = EV_DISCONN_COMPLETE then handle_disconn_complete params dev
     else if code = EV_CMD_COMPLETE then handle_cmd_complete params dev
     else if code = EV_CMD_STATUS then handle_cmd_status params dev
     else if code = EV_INQUIRY_RESULT then handle_inquiry_result params dev
     else if code = EV_INQUIRY_COMPLETE then dev\<lparr>hd_flags := hd_flags dev AND NOT FLAG_INQUIRY\<rparr>
     else if code = EV_AUTH_COMPLETE then handle_auth_complete params dev
     else if code = EV_ENCRYPT_CHANGE then handle_encrypt_change params dev
     else if code = EV_LE_META then handle_le_meta params dev
     else dev)"
proof -
  have "unat (of_nat (length params) :: u8) = length params"
    using assms by (simp add: unsigned_of_nat take_bit_nat_eq_self)
  then show ?thesis by (simp add: recv_event_def event_packet_def Let_def slice_def)
qed

lemma le16_at1: "le16 (x # to_le 2 (unat h) @ r) 1 = h"
  using le16_append [of "[x]" 1 "to_le 2 (unat h) @ r" 0] by (simp add: le16_to_le)

lemma le16_two: "\<exists>a b. to_le 2 (unat h) = [a, b] \<and> (\<forall>x r. le16 (x # a # b # r) 1 = h)"
proof -
  obtain a b where ab: "to_le 2 (unat h) = [a, b]"
    using length_to_le [of 2 "unat h"] by (auto simp: length_Suc_conv numeral_2_eq_2 simp del: length_to_le)
  then have "le16 (x # a # b # r) 1 = h" for x r using le16_at1 [of x h r] by simp
  with ab show ?thesis by blast
qed

lemma slice_at3: "length a = 6 \<Longrightarrow> slice (x # to_le 2 n @ a @ r) 3 6 = a"
  by (simp add: slice_def numeral_3_eq_3 numeral_2_eq_2)

lemma handle_conn_complete_ok:
  assumes "length addr = 6"
  shows "handle_conn_complete ([st] @ to_le 2 (unat h) @ addr @ [lt, enc]) dev =
    (if st \<noteq> 0 then dev
     else add_conn (conn_empty\<lparr>hc_handle := h, hc_bdaddr := addr, hc_conn_type := (if lt = 1 then Sco else Acl),
            hc_state := CnConnected, hc_valid := True\<rparr>) dev)"
proof -
  let ?p = "[st] @ to_le 2 (unat h) @ addr @ [lt, enc]"
  have "length ?p = 11" "?p ! 0 = st" using assms by simp_all
  moreover have "?p ! 9 = lt" using assms by (simp add: nth_append)
  moreover have "le16 ?p 1 = h" "slice ?p 3 6 = addr"
    using le16_at1 [of st h "addr @ [lt, enc]"] slice_at3 [OF assms, of st "unat h" "[lt, enc]"] by simp_all
  ultimately show ?thesis by (simp only: handle_conn_complete_def) simp
qed

lemma handle_le_conn_ok:
  assumes "length addr = 6" "length rest \<ge> 7"
  shows "handle_le_meta ([LE_CONN_COMPLETE, st] @ to_le 2 (unat h) @ [role, atype] @ addr @ rest) dev =
    (if st \<noteq> 0 then dev
     else add_conn (conn_empty\<lparr>hc_handle := h, hc_bdaddr := atype # take 5 addr, hc_conn_type := LowEnergy,
            hc_state := CnConnected, hc_valid := True\<rparr>) dev)"
proof -
  obtain a b where ab: "to_le 2 (unat h) = [a, b]" "\<And>x r. le16 (x # a # b # r) 1 = h"
    using le16_two [of h] by blast
  let ?p = "st # a # b # role # atype # addr @ rest"
  have p: "length ?p \<ge> 18" "?p ! 0 = st" "le16 ?p 1 = h" "slice ?p 4 6 = atype # take 5 addr"
    using assms ab(2) by (simp_all add: slice_def)
  have "handle_le_meta (LE_CONN_COMPLETE # ?p) dev = handle_le_conn_complete ?p dev"
    by (simp add: handle_le_meta_def)
  also have "\<dots> = (if st \<noteq> 0 then dev
     else add_conn (conn_empty\<lparr>hc_handle := h, hc_bdaddr := atype # take 5 addr, hc_conn_type := LowEnergy,
            hc_state := CnConnected, hc_valid := True\<rparr>) dev)"
    unfolding handle_le_conn_complete_def p(2-4) using p(1) by (simp only: not_less [symmetric]) simp
  finally show ?thesis by (simp add: ab(1))
qed

lemma handle_disconn_ok:
  "handle_disconn_complete ([st] @ to_le 2 (unat h) @ [reason]) dev = update_conn h free_conn dev"
  using le16_at1 [of st h "[reason]"] by (simp add: handle_disconn_complete_def)

lemma handle_auth_ok:
  "handle_auth_complete ([st] @ to_le 2 (unat h)) dev = (if st \<noteq> 0 then dev else update_conn h (\<lambda>s. s\<lparr>hc_auth := True\<rparr>) dev)"
  using le16_two [of h] by (auto simp: handle_auth_complete_def)

lemma handle_encrypt_ok:
  "handle_encrypt_change ([st] @ to_le 2 (unat h) @ [e]) dev =
    (if st \<noteq> 0 then dev else update_conn h (\<lambda>s. s\<lparr>hc_encrypt := (e \<noteq> 0)\<rparr>) dev)"
  using le16_two [of h] by (auto simp: handle_encrypt_change_def)

lemma add_conn_lookup:
  assumes "hc_valid c" "conn_by_handle (hc_handle c) dev = None"
  shows "conn_by_handle k (add_conn c dev) = (if k = hc_handle c \<and> has_room dev then Some c else conn_by_handle k dev)"
proof (cases "has_room dev")
  case True
  then show ?thesis
    using add_conn_map [of c "hd_conns dev" k] assms
    by (auto simp: conn_by_handle_map conn_map_none add_conn_def has_room_def)
next
  case False
  then show ?thesis by (auto simp: conn_by_handle_def add_conn_def has_room_def)
qed

lemma update_conn_lookup:
  assumes "\<And>s. hc_valid (f s) = hc_valid s" "\<And>s. hc_handle (f s) = hc_handle s"
  shows "conn_by_handle k (update_conn h f dev) = (if k = h then map_option f (conn_by_handle h dev) else conn_by_handle k dev)"
  using update_conn_map(1) [of f h "hd_conns dev" k] assms by (simp add: conn_by_handle_map update_conn_def)

lemma drop_conn_lookup:
  "distinct (handles (hd_conns dev)) \<Longrightarrow>
    conn_by_handle k (update_conn h free_conn dev) = (if k = h then None else conn_by_handle k dev)"
  using drop_conn_map [of "hd_conns dev" h k] by (simp add: conn_by_handle_map update_conn_def)

text \<open>
  For a table of connections with distinct handles the events act on the map from handles to
  connections: a completed connection with a new handle is added if there is room and dropped otherwise, a failed event
  changes nothing, a disconnection (of any status) removes the handle, authentication and encryption set their flag
  on the connection they name. What is stored is wrong in two places: the link type one, which the tests call ACL, is
  recorded as a synchronous link, and the address of a low energy connection starts one byte early, with the address type.
\<close>

theorem hci_connection_table:
  assumes "distinct (handles (hd_conns dev))" "length addr = 6" "length rest = 8" "conn_by_handle h dev = None"
  shows "conn_by_handle k (recv_event (event_packet EV_CONN_COMPLETE ([0] @ to_le 2 (unat h) @ addr @ [lt, enc])) dev) =
      (if k = h \<and> has_room dev
       then Some (conn_empty\<lparr>hc_handle := h, hc_bdaddr := addr, hc_conn_type := (if lt = 1 then Sco else Acl),
                    hc_state := CnConnected, hc_valid := True\<rparr>)
       else conn_by_handle k dev) \<and>
    conn_by_handle k (recv_event (event_packet EV_LE_META
        ([LE_CONN_COMPLETE, 0] @ to_le 2 (unat h) @ [role, atype] @ addr @ rest)) dev) =
      (if k = h \<and> has_room dev
       then Some (conn_empty\<lparr>hc_handle := h, hc_bdaddr := atype # take 5 addr, hc_conn_type := LowEnergy,
                    hc_state := CnConnected, hc_valid := True\<rparr>)
       else conn_by_handle k dev) \<and>
    conn_by_handle k (recv_event (event_packet EV_DISCONN_COMPLETE ([st] @ to_le 2 (unat g) @ [reason])) dev) =
      (if k = g then None else conn_by_handle k dev) \<and>
    conn_by_handle k (recv_event (event_packet EV_AUTH_COMPLETE ([st] @ to_le 2 (unat g))) dev) =
      (if k = g \<and> st = 0 then map_option (\<lambda>s. s\<lparr>hc_auth := True\<rparr>) (conn_by_handle g dev) else conn_by_handle k dev) \<and>
    conn_by_handle k (recv_event (event_packet EV_ENCRYPT_CHANGE ([st] @ to_le 2 (unat g) @ [enc])) dev) =
      (if k = g \<and> st = 0 then map_option (\<lambda>s. s\<lparr>hc_encrypt := (enc \<noteq> 0)\<rparr>) (conn_by_handle g dev) else conn_by_handle k dev) \<and>
    (st \<noteq> 0 \<longrightarrow> recv_event (event_packet EV_CONN_COMPLETE ([st] @ to_le 2 (unat g) @ addr @ [lt, enc])) dev = dev)"
  (is "?conn \<and> ?le \<and> ?disc \<and> ?auth \<and> ?enc \<and> ?fail")
proof (intro conjI)
  have len: "length (([0] :: u8 list) @ to_le 2 (unat h) @ addr @ [lt, enc]) < 256"
      "length ([LE_CONN_COMPLETE, 0] @ to_le 2 (unat h) @ [role, atype] @ addr @ rest) < 256"
    using assms by simp_all
  show ?conn
    unfolding recv_event_packet [OF len(1)] handle_conn_complete_ok [OF assms(2)]
    using assms(4) by (simp add: add_conn_lookup)
  have rest: "7 \<le> length rest" using assms(3) by simp
  show ?le
    unfolding recv_event_packet [OF len(2)] handle_le_conn_ok [OF assms(2) rest]
    using assms(4) by (simp add: add_conn_lookup event_consts)
  have d: "length ([st] @ to_le 2 (unat g) @ [reason]) < 256" by simp
  show ?disc
    unfolding recv_event_packet [OF d] handle_disconn_ok
    using drop_conn_lookup [OF assms(1)] by (simp add: event_consts)
  have a: "length ([st] @ to_le 2 (unat g)) < 256" by simp
  show ?auth
    unfolding recv_event_packet [OF a] handle_auth_ok by (simp add: event_consts update_conn_lookup)
  have e: "length ([st] @ to_le 2 (unat g) @ [enc]) < 256" by simp
  show ?enc
    unfolding recv_event_packet [OF e] handle_encrypt_ok by (simp add: event_consts update_conn_lookup)
  have f: "length ([st] @ to_le 2 (unat g) @ addr @ [lt, enc]) < 256" using assms by simp
  show ?fail unfolding recv_event_packet [OF f] handle_conn_complete_ok [OF assms(2)] by simp
qed

theorem hci_connection_table_witness:
  "conn_by_handle 5 (recv_event (event_packet EV_CONN_COMPLETE ([0] @ to_le 2 (unat (5 :: u16)) @ [1, 2, 3, 4, 5, 6] @ [1, 0]))
     (hci_dev_new 0 :: unit HciDev)) =
   Some (conn_empty\<lparr>hc_handle := 5, hc_bdaddr := [1, 2, 3, 4, 5, 6], hc_conn_type := Sco, hc_state := CnConnected, hc_valid := True\<rparr>)"
proof -
  have fresh: "distinct (handles (hd_conns (hci_dev_new 0 :: unit HciDev)))" "conn_by_handle 5 (hci_dev_new 0 :: unit HciDev) = None" "has_room (hci_dev_new 0 :: unit HciDev)"
    by (simp_all add: hci_dev_new_def handles_def conn_by_handle_def has_room_def find_None_iff conn_empty_def MAX_HCI_CONNS_def)
  then show ?thesis
    using hci_connection_table [of "hci_dev_new 0 :: unit HciDev" "[1, 2, 3, 4, 5, 6]" "replicate 8 0" 5 5 1 0] by simp
qed

text \<open>The handles stay distinct as long as no completed connection repeats one.\<close>

lemma add_conn_distinct:
  assumes "distinct (handles (hd_conns dev))" "hc_valid c" "conn_by_handle (hc_handle c) dev = None"
  shows "distinct (handles (hd_conns (add_conn c dev)))"
  using assms add_conn_handles [of c "hd_conns dev"] by (simp add: add_conn_def conn_by_handle_map conn_map_none)

lemma update_conn_distinct:
  assumes "distinct (handles (hd_conns dev))"
  shows "distinct (handles (hd_conns (update_conn h free_conn dev)))"
    "(\<And>s. hc_valid (f s) = hc_valid s) \<Longrightarrow> (\<And>s. hc_handle (f s) = hc_handle s) \<Longrightarrow>
      distinct (handles (hd_conns (update_conn h f dev)))"
  using assms drop_conn_handles [of h "hd_conns dev"] update_conn_map(2) [of f h "hd_conns dev"]
  by (simp_all add: update_conn_def)

section \<open>Inquiry results\<close>

text \<open>The responses that fit the packet, the latest 32 kept by their number.\<close>

lemma inquiry_loop_cnt:
  "hd_inquiry_cnt (inquiry_loop i n p dev) =
     hd_inquiry_cnt dev + of_nat (length (filter (\<lambda>j. 15 + 14 * j \<le> length p) [i..<n]))"
proof (induction i n p dev rule: inquiry_loop.induct)
  case (1 i n p dev)
  show ?case
  proof (cases "i < n")
    case True
    show ?thesis
    proof (cases "1 + i * 14 + 14 > length p")
      case False
      then show ?thesis using 1 [OF True refl False refl] True
        by (subst inquiry_loop.simps) (simp add: upt_conv_Cons mult.commute)
    next
      case big: True
      then have "filter (\<lambda>j. 15 + 14 * j \<le> length p) [i..<n] = []" by (auto simp: filter_empty_conv)
      then show ?thesis using True big by (subst inquiry_loop.simps) simp
    qed
  qed (subst inquiry_loop.simps; simp)
qed

section \<open>Signalling from an interrupt\<close>

text \<open>A packet of connection \<open>h\<close> that carries one L2CAP frame, and a frame of one signalling command.\<close>

definition l2cap_frame :: "u16 \<Rightarrow> u8 list \<Rightarrow> u8 list" where
  "l2cap_frame cid payload = to_le 2 (length payload) @ to_le 2 (unat cid) @ payload"

definition acl_packet :: "u16 \<Rightarrow> u8 list \<Rightarrow> u8 list" where
  "acl_packet h frame = to_le 2 (unat h) @ to_le 2 (length frame) @ frame"

definition sig_packet :: "u8 \<Rightarrow> u8 \<Rightarrow> u8 list \<Rightarrow> u8 list" where
  "sig_packet code ident p = [code, ident] @ to_le 2 (length p) @ p"

lemma le16_len: "n < 65536 \<Longrightarrow> unat (le16 (to_le 2 n @ r) 0) = n"
  by (simp add: le16_def slice_def le_nat_to_le unsigned_of_nat take_bit_nat_eq_self)

lemma le16_skip: "le16 (to_le 2 n @ r) 2 = le16 r 0"
  using le16_append [of "to_le 2 n" 2 r 0] by simp

lemma recv_acl_packet:
  assumes "length frame < 65536"
  shows "recv_acl handler (acl_packet h frame) dev bt =
    (let (outs, l2) = l2cap_recv_frame (h AND 0x0FFF) frame (bt_l2cap bt)
     in map_option (\<lambda>bt1. ((), dev, bt1)) (perform_all handler outs (bt\<lparr>bt_l2cap := l2\<rparr>)))"
proof -
  let ?d = "acl_packet h frame"
  have "le16 ?d 0 = h" by (simp add: acl_packet_def le16_to_le)
  moreover have "unat (le16 ?d 2) = length frame"
    unfolding acl_packet_def le16_skip by (rule le16_len [OF assms])
  moreover have "length ?d = 4 + length frame" "slice ?d 4 (length frame) = frame"
    by (simp_all add: acl_packet_def slice_def)
  ultimately show ?thesis
    by (simp add: recv_acl_def Let_def split: prod.splits option.splits)
qed

lemma recv_signalling_frame:
  assumes "length p < 65536"
  shows "l2cap_recv_frame hcon (l2cap_frame L2CAP_CID_SIGNALING p) st = handle_signaling hcon p st"
proof -
  let ?f = "l2cap_frame L2CAP_CID_SIGNALING p"
  have "unat (le16 ?f 0) = length p" unfolding l2cap_frame_def by (rule le16_len [OF assms])
  moreover have "le16 ?f 2 = L2CAP_CID_SIGNALING"
    unfolding l2cap_frame_def le16_skip by (rule le16_to_le)
  moreover have "length ?f = 4 + length p" "slice ?f 4 (length p) = p"
    by (simp_all add: l2cap_frame_def slice_def)
  ultimately show ?thesis by (simp add: l2cap_recv_frame_def)
qed

lemma one_command:
  assumes "length p < 65532"
  shows "handle_signaling hcon (sig_packet code ident p) st = signal_command hcon code ident p st"
proof -
  let ?d = "sig_packet code ident p"
  have "le16 ?d 2 = le16 (to_le 2 (length p) @ p) 0"
    using le16_append [of "[code, ident]" 2 "to_le 2 (length p) @ p" 0] by (simp add: sig_packet_def)
  then have l: "unat (le16 ?d 2) = length p" using le16_len [of "length p" p] assms by simp
  have d: "length ?d = 4 + length p" "slice ?d 4 (length p) = p" "?d ! 0 = code" "?d ! Suc 0 = ident"
    by (simp_all add: sig_packet_def slice_def)
  have l2: "unat (le16 ?d (Suc (Suc 0))) = length p" using l by (simp add: numeral_2_eq_2)
  have stop: "signaling_loop hcon ?d (4 + length p) st1 = ([], st1)" for st1
    by (subst signaling_loop.simps) (simp add: d(1))
  show ?thesis
    unfolding handle_signaling_def
    by (subst signaling_loop.simps) (simp add: l l2 d stop Let_def split: prod.splits)
qed

definition responds :: "u8 \<Rightarrow> u8 list \<Rightarrow> bool" where
  "responds code p \<longleftrightarrow> code = CONN_REQ \<and> 4 \<le> length p \<or> code = CONF_REQ \<and> 2 \<le> length p \<or>
     code = DISCONN_REQ \<and> 4 \<le> length p"

lemma command_responds: "fst (signal_command hcon code ident p st) = [] \<longleftrightarrow> \<not> responds code p"
  by (auto simp: signal_command_def responds_def handle_conn_req_def handle_conn_rsp_def handle_conf_req_def
      handle_conf_rsp_def handle_disconn_req_def handle_disconn_rsp_def l2cap_send_conn_rsp_def l2cap_send_conf_rsp_def
      l2cap_send_disconn_rsp_def l2cap_send_acl_def Let_def sig_consts)

lemma perform_locked: "bt_devs_locked bt \<Longrightarrow> perform handler (HciCommand i opcode params) bt = None"
  by (simp add: with_hci_dev_def)

text \<open>
  A driver hands a received packet to its controller while the table of controllers is locked. If the
  packet is a request that L2CAP answers, a connection, configuration or disconnection request of the least length, the
  answer goes through that table again and the call never returns, whatever the channels; every other
  signalling command returns, with the table unlocked and the same controllers. Events always return.
\<close>

theorem acl_requests_deadlock:
  assumes "\<not> bt_devs_locked bt" "unat i < length (bt_devs bt)" "bt_devs bt ! unat i = Some dev" "length p < 65528"
  shows "(let run = with_hci_dev i (recv_acl handler (acl_packet h (l2cap_frame L2CAP_CID_SIGNALING (sig_packet code ident p)))) bt
      in if responds code p then run = None
         else \<exists>l2. run = Some (Some (), bt\<lparr>bt_l2cap := l2\<rparr>)) \<and>
    with_hci_dev i (recv_event_call data) bt = Some (Some (), bt\<lparr>bt_devs := (bt_devs bt)[unat i := Some (recv_event data dev)]\<rparr>)"
proof (intro conjI)
  let ?sig = "sig_packet code ident p" and ?bt = "bt\<lparr>bt_devs_locked := True\<rparr>"
  obtain outs l2 where cmd: "signal_command (h AND 0x0FFF) code ident p (bt_l2cap bt) = (outs, l2)" by fastforce
  have "length (l2cap_frame L2CAP_CID_SIGNALING ?sig) < 65536" "length ?sig < 65536" "length p < 65532"
    using assms(4) by (simp_all add: l2cap_frame_def sig_packet_def)
  note recv = recv_acl_packet [OF this(1)] recv_signalling_frame [OF this(2)] one_command [OF this(3)]
  have run: "recv_acl handler (acl_packet h (l2cap_frame L2CAP_CID_SIGNALING ?sig)) dev ?bt =
    map_option (\<lambda>bt1. ((), dev, bt1)) (perform_all handler outs (?bt\<lparr>bt_l2cap := l2\<rparr>))"
    unfolding recv using cmd by simp
  have none: "outs = [] \<longleftrightarrow> \<not> responds code p" using command_responds [of "h AND 0x0FFF" code ident p "bt_l2cap bt"] cmd by simp
  have "set outs \<subseteq> {HciCommand 0 0 []}"
    using signaling_loop_run [of "h AND 0x0FFF" ?sig 0 "bt_l2cap bt"] recv(3) cmd
    by (auto simp: handle_signaling_def [symmetric])
  then have stuck: "perform_all handler outs (?bt\<lparr>bt_l2cap := l2\<rparr>) = None" if "outs \<noteq> []"
    using that by (cases outs) (auto simp: perform_locked simp del: perform.simps)
  have same: "bt\<lparr>bt_l2cap := l2, bt_devs := (bt_devs bt)[unat i := Some dev], bt_devs_locked := False\<rparr> = bt\<lparr>bt_l2cap := l2\<rparr>"
    using assms(1,3) list_update_id [of "bt_devs bt" "unat i"] by (cases bt) simp
  show "let run = with_hci_dev i (recv_acl handler (acl_packet h (l2cap_frame L2CAP_CID_SIGNALING ?sig))) bt
      in if responds code p then run = None else \<exists>l2. run = Some (Some (), bt\<lparr>bt_l2cap := l2\<rparr>)"
    unfolding Let_def with_hci_dev_def using assms(1-3) none stuck same
    by (auto simp: run intro: exI [of _ l2])
  show "with_hci_dev i (recv_event_call data) bt = Some (Some (), bt\<lparr>bt_devs := (bt_devs bt)[unat i := Some (recv_event data dev)]\<rparr>)"
    using assms(1-3) by (cases bt) (simp add: with_hci_dev_def recv_event_call_def)
qed

theorem acl_requests_deadlock_witness:
  "\<exists>bt :: unit Bluetooth. hci_register_dev (hci_dev_new 0) (hci_dev_table_new ()) = Some (Ok 0, bt) \<and>
     with_hci_dev 0 (recv_acl (\<lambda>_ _ _ _ bt. Some bt)
       (acl_packet 5 (l2cap_frame L2CAP_CID_SIGNALING (sig_packet CONF_REQ 1 [0x40, 0])))) bt = None"
proof -
  define bt :: "unit Bluetooth" where
    "bt = (hci_dev_table_new ())\<lparr>bt_devs := [Some (hci_dev_new 0), None, None, None], bt_count := 1\<rparr>"
  have tbl: "replicate MAX_HCI_DEVS (None :: unit HciDev option) = [None, None, None, None]" "0 < MAX_HCI_DEVS"
    by (simp_all add: MAX_HCI_DEVS_def numeral_eq_Suc)
  have slot: "free_slot [None, None, None, None :: unit HciDev option] = Some 0"
    by (simp add: free_slot_def upt_rec)
  have "hci_dev_new 0\<lparr>hd_id := 0\<rparr> = (hci_dev_new 0 :: unit HciDev)" by (simp add: hci_dev_new_def)
  then have "hci_register_dev (hci_dev_new 0) (hci_dev_table_new ()) = Some (Ok 0, bt)"
    by (simp add: hci_register_dev_def hci_dev_table_new_def bt_def tbl slot)
  moreover have "responds CONF_REQ [0x40, 0]" by (simp add: responds_def sig_consts)
  ultimately show ?thesis
    using acl_requests_deadlock [of bt 0 "hci_dev_new 0" "[0x40, 0]" "\<lambda>_ _ _ _ bt. Some bt" 5 CONF_REQ 1 "[]"]
    by (intro exI [of _ bt]) (simp add: bt_def hci_dev_table_new_def)
qed

end
