(* ===== verification/HciUart.thy ===== *)
theory HciUart
  imports Hci
begin

text \<open>
  The serial transport of Bluetooth, \<open>kernel/src/drivers/bluetooth/hci_uart.rs\<close>: the state machine that assembles
  packets from bytes, its delivery to the controller, and the register writes of configuration and sending. The
  bytes the receiver holds when an interrupt comes are an argument; a wait for the transmitter is not modelled.
\<close>

section \<open>State\<close>

datatype H4State = H4Idle | H4Header | H4Payload

definition H4_BUF_SIZE :: usize where "H4_BUF_SIZE = 512"

record H4Rx =
  h4_state :: H4State
  h4_pkt_type :: u8
  h4_buf :: "u8 list"
  h4_buf_len :: usize
  h4_expected :: usize

definition h4_new :: H4Rx where
  "h4_new = \<lparr>h4_state = H4Idle, h4_pkt_type = 0, h4_buf = replicate H4_BUF_SIZE 0, h4_buf_len = 0, h4_expected = 0\<rparr>"

definition h4_reset :: "H4Rx \<Rightarrow> H4Rx" where
  "h4_reset rx = rx\<lparr>h4_state := H4Idle, h4_pkt_type := 0, h4_buf_len := 0, h4_expected := 0\<rparr>"

record HciUartHw =
  uh_base :: u64
  uh_baud :: u32
  uh_used :: bool

definition uart_hw_empty :: HciUartHw where
  "uart_hw_empty = \<lparr>uh_base = 0, uh_baud = 115200, uh_used = False\<rparr>"

definition MAX_HCI_UART :: usize where "MAX_HCI_UART = 4"

record HciUartTable =
  ut_hw :: "HciUartHw list"
  ut_rx :: "H4Rx list"

definition uart_table_new :: HciUartTable where
  "uart_table_new = \<lparr>ut_hw = replicate MAX_HCI_UART uart_hw_empty, ut_rx = replicate MAX_HCI_UART h4_new\<rparr>"

definition uart_alloc_hw :: "u64 \<Rightarrow> u32 \<Rightarrow> HciUartTable \<Rightarrow> u8 kresult \<times> HciUartTable" where
  "uart_alloc_hw base baud tbl =
     (case find (\<lambda>i. \<not> uh_used (ut_hw tbl ! i)) [0..<length (ut_hw tbl)] of
        None \<Rightarrow> (Err ResourceExhausted, tbl)
      | Some i \<Rightarrow> (Ok (of_nat i), tbl\<lparr>ut_hw := (ut_hw tbl)[i := \<lparr>uh_base = base, uh_baud = baud, uh_used = True\<rparr>]\<rparr>))"

section \<open>Registers\<close>

definition UART_DR :: u64 where "UART_DR = 0x00"
definition UART_IBRD :: u64 where "UART_IBRD = 0x24"
definition UART_FBRD :: u64 where "UART_FBRD = 0x28"
definition UART_LCRH :: u64 where "UART_LCRH = 0x2C"
definition UART_CR :: u64 where "UART_CR = 0x30"
definition UART_IMSC :: u64 where "UART_IMSC = 0x38"
definition UART_ICR :: u64 where "UART_ICR = 0x44"

definition CR_ENABLE :: u32 where "CR_ENABLE = 0x01 OR 0x100 OR 0x200"
definition INT_RX :: u32 where "INT_RX = 0x10"
definition INT_RT :: u32 where "INT_RT = 0x40"

text \<open>A list of register writes, address and value.\<close>

type_synonym writes = "(u64 \<times> u32) list"

definition get_base :: "u8 \<Rightarrow> HciUartTable \<Rightarrow> u64 kresult" where
  "get_base hw_idx tbl = (if unat hw_idx < length (ut_hw tbl) then Ok (uh_base (ut_hw tbl ! unat hw_idx)) else Panic)"

definition uart_configure :: "u8 \<Rightarrow> HciUartTable \<Rightarrow> writes kresult" where
  "uart_configure hw_idx tbl =
     (if unat hw_idx < length (ut_hw tbl)
      then let hw = ut_hw tbl ! unat hw_idx; base = uh_base hw; baud = uh_baud hw
           in if 16 * baud = 0 then Panic
              else let ibrd = 48000000 div (16 * baud);
                       fbrd = ucast ((48000000 * 64 div (16 * (ucast baud :: u64))) AND 0x3F)
                   in Ok [(base + UART_CR, 0), (base + UART_IBRD, ibrd), (base + UART_FBRD, fbrd), (base + UART_LCRH, 0x60),
                          (base + UART_CR, CR_ENABLE), (base + UART_IMSC, INT_RX OR INT_RT)]
      else Panic)"

definition hci_uart_open :: "u8 \<Rightarrow> HciUartTable \<Rightarrow> writes kresult" where
  "hci_uart_open dev_idx tbl = uart_configure dev_idx tbl"

definition hci_uart_close :: "u8 \<Rightarrow> HciUartTable \<Rightarrow> writes kresult" where
  "hci_uart_close dev_idx tbl =
     (case get_base dev_idx tbl of
        Ok base \<Rightarrow> Ok [(base + UART_IMSC, 0), (base + UART_CR, 0)] | Err e \<Rightarrow> Err e | Panic \<Rightarrow> Panic)"

definition hci_uart_send :: "u8 \<Rightarrow> u8 list \<Rightarrow> HciUartTable \<Rightarrow> writes kresult" where
  "hci_uart_send dev_idx data tbl =
     (if data = [] then Ok []
      else case get_base dev_idx tbl of
             Ok base \<Rightarrow> Ok (map (\<lambda>b. (base + UART_DR, ucast b)) data) | Err e \<Rightarrow> Err e | Panic \<Rightarrow> Panic)"

definition hci_uart_probe ::
  "u64 \<Rightarrow> u32 \<Rightarrow> u8 list \<Rightarrow> HciUartTable \<Rightarrow> 'w Bluetooth \<Rightarrow> (u8 kresult \<times> HciUartTable \<times> 'w Bluetooth) option" where
  "hci_uart_probe base baud mac tbl bt =
     (case uart_alloc_hw base baud tbl of
        (Ok hw_idx, tbl1) \<Rightarrow> (case hci_register_dev ((hci_dev_new hw_idx)\<lparr>hd_bdaddr := mac\<rparr>) bt of
            None \<Rightarrow> None
          | Some (r, bt1) \<Rightarrow> Some (r, tbl1, bt1))
      | (r, tbl1) \<Rightarrow> Some (r, tbl1, bt))"

section \<open>Assembling packets\<close>

definition hdr_len :: "u8 \<Rightarrow> usize" where
  "hdr_len t = (if t = HCI_EVENT_PKT then 2 else if t = HCI_ACLDATA_PKT then 4 else 0)"

definition payload_len :: "u8 \<Rightarrow> u8 list \<Rightarrow> usize" where
  "payload_len t buf = (if t = HCI_EVENT_PKT then unat (buf ! 1) else if t = HCI_ACLDATA_PKT then unat (le16 buf 2) else 0)"

text \<open>The part of \<open>h4_push_byte\<close> under the lock: the packet that is complete with this byte, if one is.\<close>

definition h4_rx_byte :: "u8 \<Rightarrow> H4Rx \<Rightarrow> (u8 \<times> u8 list) option \<times> H4Rx" where
  "h4_rx_byte byte rx =
     (case h4_state rx of
        H4Idle \<Rightarrow>
          let rx1 = rx\<lparr>h4_pkt_type := byte, h4_buf_len := 0, h4_expected := hdr_len byte\<rparr>
          in (None, if h4_expected rx1 > 0 then rx1\<lparr>h4_state := H4Header\<rparr> else rx1)
      | _ \<Rightarrow>
          let rx1 = (if h4_buf_len rx < H4_BUF_SIZE
                     then rx\<lparr>h4_buf := (h4_buf rx)[h4_buf_len rx := byte], h4_buf_len := h4_buf_len rx + 1\<rparr> else rx);
              rx2 = (if h4_state rx1 = H4Header \<and> h4_buf_len rx1 = h4_expected rx1
                     then rx1\<lparr>h4_expected := h4_expected rx1 + payload_len (h4_pkt_type rx1) (h4_buf rx1), h4_state := H4Payload\<rparr>
                     else rx1)
          in if h4_buf_len rx2 = h4_expected rx2 \<and> h4_expected rx2 > 0
             then (Some (h4_pkt_type rx2, take (h4_buf_len rx2) (h4_buf rx2)), h4_reset rx2)
             else (None, rx2))"

definition deliver_packet :: "'w handler \<Rightarrow> u8 \<Rightarrow> u8 list \<Rightarrow> (unit, 'w) dev_call" where
  "deliver_packet handler t data dev bt =
     (if t = HCI_EVENT_PKT then recv_event_call data dev bt
      else if t = HCI_ACLDATA_PKT then recv_acl handler data dev bt
      else Some ((), dev, bt))"

type_synonym 'w uart_state = "HciUartTable \<times> 'w Bluetooth"

definition h4_push_byte ::
  "'w handler \<Rightarrow> u8 \<Rightarrow> u8 \<Rightarrow> u8 \<Rightarrow> 'w uart_state \<Rightarrow> (unit kresult \<times> 'w uart_state) option" where
  "h4_push_byte handler hw_idx byte hci_id st =
     (case st of (tbl, bt) \<Rightarrow>
        if unat hw_idx < length (ut_rx tbl)
        then let (pkt, rx) = h4_rx_byte byte (ut_rx tbl ! unat hw_idx);
                 tbl1 = tbl\<lparr>ut_rx := (ut_rx tbl)[unat hw_idx := rx]\<rparr>
             in (case pkt of
                   None \<Rightarrow> Some (Ok (), tbl1, bt)
                 | Some (t, data) \<Rightarrow> map_option (\<lambda>(_, bt1). (Ok (), tbl1, bt1)) (with_hci_dev hci_id (deliver_packet handler t data) bt))
        else Some (Panic, st))"

fun push_bytes :: "'w handler \<Rightarrow> u8 \<Rightarrow> u8 list \<Rightarrow> u8 \<Rightarrow> 'w uart_state \<Rightarrow> (unit kresult \<times> 'w uart_state) option" where
  "push_bytes handler hw_idx [] hci_id st = Some (Ok (), st)"
| "push_bytes handler hw_idx (b # bs) hci_id st =
     (case h4_push_byte handler hw_idx b hci_id st of
        Some (Ok _, st1) \<Rightarrow> push_bytes handler hw_idx bs hci_id st1
      | r \<Rightarrow> r)"

definition hci_uart_irq_handler ::
  "'w handler \<Rightarrow> u8 \<Rightarrow> u8 \<Rightarrow> u32 \<Rightarrow> u8 list \<Rightarrow> 'w uart_state \<Rightarrow> (writes kresult \<times> 'w uart_state) option" where
  "hci_uart_irq_handler handler dev_idx hci_id ris fifo st =
     (case get_base dev_idx (fst st) of
        Ok base \<Rightarrow>
          (if ris AND (INT_RX OR INT_RT) \<noteq> 0
           then (case push_bytes handler dev_idx fifo hci_id st of
                   None \<Rightarrow> None
                 | Some (Ok _, st1) \<Rightarrow> Some (Ok [(base + UART_ICR, ris)], st1)
                 | Some (_, st1) \<Rightarrow> Some (Panic, st1))
           else Some (Ok [(base + UART_ICR, ris)], st))
      | _ \<Rightarrow> Some (Panic, st))"

section \<open>A stream of bytes\<close>

fun h4_run :: "u8 list \<Rightarrow> H4Rx \<Rightarrow> (u8 \<times> u8 list) list \<times> H4Rx" where
  "h4_run [] rx = ([], rx)"
| "h4_run (b # bs) rx =
     (let (pkt, rx1) = h4_rx_byte b rx; (pkts, rx2) = h4_run bs rx1
      in (case pkt of None \<Rightarrow> pkts | Some p \<Rightarrow> p # pkts, rx2))"

definition h4_shape :: "u8 \<times> u8 list \<Rightarrow> bool" where
  "h4_shape p \<longleftrightarrow> (case p of (t, data) \<Rightarrow> 0 < hdr_len t \<and> length data = hdr_len t + payload_len t data)"

definition h4_wf :: "u8 \<times> u8 list \<Rightarrow> bool" where
  "h4_wf p \<longleftrightarrow> h4_shape p \<and> length (snd p) \<le> H4_BUF_SIZE"

definition h4_encode :: "u8 \<times> u8 list \<Rightarrow> u8 list" where
  "h4_encode p = fst p # snd p"

definition h4_idle :: "H4Rx \<Rightarrow> bool" where
  "h4_idle rx \<longleftrightarrow> h4_state rx = H4Idle \<and> length (h4_buf rx) = H4_BUF_SIZE"

text \<open>After the type and \<open>k\<close> bytes of a packet.\<close>

definition h4_mid :: "u8 \<Rightarrow> u8 list \<Rightarrow> usize \<Rightarrow> H4Rx \<Rightarrow> bool" where
  "h4_mid t data k rx \<longleftrightarrow> length (h4_buf rx) = H4_BUF_SIZE \<and> h4_pkt_type rx = t \<and> h4_buf_len rx = k \<and>
     take k (h4_buf rx) = take k data \<and>
     (if k < hdr_len t then h4_state rx = H4Header \<and> h4_expected rx = hdr_len t
      else h4_state rx = H4Payload \<and> h4_expected rx = length data)"

lemma payload_len_take:
  assumes "take (hdr_len t) xs = take (hdr_len t) ys" "hdr_len t \<le> length xs" "hdr_len t \<le> length ys"
  shows "payload_len t xs = payload_len t ys"
proof -
  have "take n (drop m zs) = drop m (take (n + m) zs)" for m n and zs :: "u8 list" by (simp add: drop_take add.commute)
  then have le: "le16 zs 2 = of_nat (le_nat (drop 2 (take 4 zs)))" for zs
    by (simp add: le16_def slice_def)
  show ?thesis
  proof (cases "t = HCI_EVENT_PKT")
    case True
    then have "take 2 xs ! 1 = take 2 ys ! 1" using assms(1) by (simp add: hdr_len_def)
    then show ?thesis using True by (simp add: payload_len_def)
  next
    case False
    then show ?thesis using assms(1) by (auto simp: payload_len_def hdr_len_def le)
  qed
qed

lemma h4_start:
  "h4_idle rx \<Longrightarrow> h4_shape (t, data) \<Longrightarrow> fst (h4_rx_byte t rx) = None \<and> h4_mid t data 0 (snd (h4_rx_byte t rx))"
  by (auto simp: h4_idle_def h4_shape_def h4_rx_byte_def h4_mid_def Let_def)

lemma h4_next:
  assumes "h4_mid t data k rx" "h4_shape (t, data)" "k < length data" "k < H4_BUF_SIZE"
  shows "(if Suc k < length data then fst (h4_rx_byte (data ! k) rx) = None \<and> h4_mid t data (Suc k) (snd (h4_rx_byte (data ! k) rx))
     else fst (h4_rx_byte (data ! k) rx) = Some (t, data) \<and> h4_idle (snd (h4_rx_byte (data ! k) rx)))"
proof -
  have len: "length (h4_buf rx) = H4_BUF_SIZE" "k < H4_BUF_SIZE" "hdr_len t \<le> H4_BUF_SIZE"
    "0 < hdr_len t" "hdr_len t \<le> length data" "length data = hdr_len t + payload_len t data"
    using assms by (auto simp: h4_mid_def h4_shape_def hdr_len_def H4_BUF_SIZE_def)
  let ?buf = "(h4_buf rx)[k := data ! k]"
  have buf: "take (Suc k) ?buf = take (Suc k) data"
    using assms(1,3) len by (simp add: h4_mid_def take_Suc_conv_app_nth)
  have pay: "payload_len t ?buf = payload_len t data" if "Suc k = hdr_len t"
    using payload_len_take [of t ?buf data] buf len that by simp
  have state: "h4_state rx \<noteq> H4Idle" using assms(1) by (auto simp: h4_mid_def split: if_splits)
  show ?thesis
  proof (cases "Suc k = hdr_len t")
    case True
    then have "h4_state rx = H4Header" "h4_expected rx = Suc k" using assms(1) by (auto simp: h4_mid_def)
    then show ?thesis using assms(1) True len buf pay
      by (auto simp: h4_rx_byte_def h4_mid_def h4_idle_def h4_reset_def Let_def)
  next
    case False
    then show ?thesis using assms(1,3) len buf state
      by (cases "h4_state rx") (auto simp: h4_rx_byte_def h4_mid_def h4_idle_def h4_reset_def Let_def split: if_splits)
  qed
qed

lemma h4_body:
  assumes "h4_mid t data k rx" "h4_wf (t, data)" "k < length data"
  shows "\<exists>rx1. h4_idle rx1 \<and> h4_run (drop k data @ rest) rx = (let (ps, rx2) = h4_run rest rx1 in ((t, data) # ps, rx2))"
  using assms
proof (induction "length data - k" arbitrary: k rx)
  case (Suc n)
  let ?r = "h4_rx_byte (data ! k) rx"
  have shape: "h4_shape (t, data)" "k < H4_BUF_SIZE" using Suc.prems by (simp_all add: h4_wf_def)
  note next_byte = h4_next [OF Suc.prems(1) shape(1) Suc.prems(3) shape(2)]
  have drop: "drop k data @ rest = data ! k # drop (Suc k) data @ rest"
    using Suc.prems(3) by (simp add: Cons_nth_drop_Suc)
  show ?case
  proof (cases "Suc k < length data")
    case True
    then have s: "fst ?r = None" "h4_mid t data (Suc k) (snd ?r)" using next_byte by simp_all
    have "n = length data - Suc k" using Suc.hyps(2) by simp
    then obtain rx1 where "h4_idle rx1"
      "h4_run (drop (Suc k) data @ rest) (snd ?r) = (let (ps, rx2) = h4_run rest rx1 in ((t, data) # ps, rx2))"
      using Suc.hyps(1) [OF _ s(2) Suc.prems(2) True] by blast
    then show ?thesis using s(1) by (intro exI [of _ rx1]) (simp add: drop split_beta Let_def)
  next
    case False
    then have s: "fst ?r = Some (t, data)" "h4_idle (snd ?r)" using next_byte by simp_all
    have "drop (Suc k) data = []" using False by simp
    then show ?thesis using s by (intro exI [of _ "snd ?r"]) (simp add: drop split_beta Let_def)
  qed
qed simp

lemma h4_packet:
  assumes "h4_idle rx" "h4_wf p"
  shows "\<exists>rx1. h4_idle rx1 \<and> h4_run (h4_encode p @ rest) rx = (let (ps, rx2) = h4_run rest rx1 in (p # ps, rx2))"
proof -
  obtain t data where p: "p = (t, data)" by (cases p)
  have s: "fst (h4_rx_byte t rx) = None" "h4_mid t data 0 (snd (h4_rx_byte t rx))"
    using h4_start [OF assms(1)] assms(2) p by (auto simp: h4_wf_def)
  have "0 < length data" using assms(2) p by (auto simp: h4_wf_def h4_shape_def)
  then obtain rx1 where "h4_idle rx1"
    "h4_run (data @ rest) (snd (h4_rx_byte t rx)) = (let (ps, rx2) = h4_run rest rx1 in ((t, data) # ps, rx2))"
    using h4_body [OF s(2)] assms(2) p by auto
  then show ?thesis using s(1) by (intro exI [of _ rx1]) (simp add: p h4_encode_def split_beta Let_def)
qed

lemma h4_stream:
  assumes "h4_idle rx" "\<forall>p \<in> set ps. h4_wf p"
  shows "\<exists>rx1. h4_idle rx1 \<and> h4_run (concat (map h4_encode ps)) rx = (ps, rx1)"
  using assms
proof (induction ps arbitrary: rx)
  case (Cons p ps)
  then obtain rx1 where r: "h4_idle rx1"
    "h4_run (h4_encode p @ concat (map h4_encode ps)) rx = (let (qs, rx2) = h4_run (concat (map h4_encode ps)) rx1 in (p # qs, rx2))"
    using h4_packet [of rx p "concat (map h4_encode ps)"] by auto
  obtain rx2 where "h4_idle rx2" "h4_run (concat (map h4_encode ps)) rx1 = (ps, rx2)"
    using Cons.IH [OF r(1)] Cons.prems(2) by auto
  then show ?case using r(2) by (intro exI [of _ rx2]) simp
qed simp

text \<open>The receiver in the middle of a packet that is longer than its buffer.\<close>

definition h4_stuck :: "H4Rx \<Rightarrow> bool" where
  "h4_stuck rx \<longleftrightarrow> h4_state rx = H4Payload \<and> h4_buf_len rx \<le> H4_BUF_SIZE \<and> H4_BUF_SIZE < h4_expected rx"

lemma h4_stuck_run: "h4_stuck rx \<Longrightarrow> fst (h4_run bs rx) = [] \<and> h4_stuck (snd (h4_run bs rx))"
proof (induction bs arbitrary: rx)
  case (Cons b bs)
  have "fst (h4_rx_byte b rx) = None" "h4_stuck (snd (h4_rx_byte b rx))"
    using Cons.prems by (auto simp: h4_stuck_def h4_rx_byte_def Let_def)
  then show ?case using Cons.IH by (simp add: split_beta Let_def)
qed simp

lemma h4_run_append:
  "h4_run (xs @ ys) rx = (let (ps, rx1) = h4_run xs rx; (qs, rx2) = h4_run ys rx1 in (ps @ qs, rx2))"
  by (induction xs arbitrary: rx) (simp_all add: split_beta Let_def split: option.splits)

lemma h4_part:
  assumes "h4_mid t data k rx" "h4_shape (t, data)" "k \<le> j" "j < length data" "j \<le> H4_BUF_SIZE"
  shows "\<exists>rx1. h4_run (take (j - k) (drop k data)) rx = ([], rx1) \<and> h4_mid t data j rx1"
  using assms
proof (induction "j - k" arbitrary: k rx)
  case (Suc n)
  let ?r = "h4_rx_byte (data ! k) rx"
  have k: "k < length data" "k < H4_BUF_SIZE" "Suc k < length data" "Suc k \<le> j" "n = j - Suc k" using Suc.hyps(2) Suc.prems by simp_all
  then have s: "fst ?r = None" "h4_mid t data (Suc k) (snd ?r)" using h4_next [OF Suc.prems(1,2)] by simp_all
  have take: "take (j - k) (drop k data) = data ! k # take (j - Suc k) (drop (Suc k) data)"
    using k by (metis Cons_nth_drop_Suc Suc.hyps(2) take_Suc_Cons)
  obtain rx1 where "h4_run (take (j - Suc k) (drop (Suc k) data)) (snd ?r) = ([], rx1)" "h4_mid t data j rx1"
    using Suc.hyps(1) [OF k(5) s(2) Suc.prems(2) k(4) Suc.prems(4,5)] by blast
  then show ?case using s(1) by (simp add: take split_beta Let_def)
qed simp

lemma h4_long:
  assumes "h4_idle rx" "h4_shape p" "H4_BUF_SIZE < length (snd p)"
  shows "fst (h4_run (h4_encode p @ bs) rx) = [] \<and> h4_stuck (snd (h4_run (h4_encode p @ bs) rx))"
proof -
  obtain t data where p: "p = (t, data)" by (cases p)
  have s: "fst (h4_rx_byte t rx) = None" "h4_mid t data 0 (snd (h4_rx_byte t rx))"
    using h4_start [OF assms(1)] assms(2) p by auto
  let ?n = H4_BUF_SIZE
  obtain rx1 where r: "h4_run (take ?n data) (snd (h4_rx_byte t rx)) = ([], rx1)" "h4_mid t data ?n rx1"
    using h4_part [OF s(2), of ?n] assms(2,3) p by auto
  have "hdr_len t \<le> ?n" by (simp add: hdr_len_def H4_BUF_SIZE_def)
  then have "h4_stuck rx1" using r(2) assms(3) p by (simp add: h4_mid_def h4_stuck_def)
  then have rest: "fst (h4_run (drop ?n data @ bs) rx1) = [] \<and> h4_stuck (snd (h4_run (drop ?n data @ bs) rx1))"
    by (rule h4_stuck_run)
  have "h4_run (take ?n data @ drop ?n data @ bs) (snd (h4_rx_byte t rx)) = h4_run (drop ?n data @ bs) rx1"
    unfolding h4_run_append [of "take ?n data"] r(1) by (simp add: split_beta)
  moreover have "take ?n data @ drop ?n data @ bs = data @ bs" by (simp add: append.assoc [symmetric] del: append_assoc)
  ultimately show ?thesis using rest s(1) by (simp add: p h4_encode_def split_beta Let_def)
qed

text \<open>Packets are delivered as they complete.\<close>

fun deliver_all :: "'w handler \<Rightarrow> u8 \<Rightarrow> (u8 \<times> u8 list) list \<Rightarrow> 'w Bluetooth \<Rightarrow> 'w Bluetooth option" where
  "deliver_all handler hci_id [] bt = Some bt"
| "deliver_all handler hci_id (p # ps) bt =
     (case with_hci_dev hci_id (deliver_packet handler (fst p) (snd p)) bt of
        None \<Rightarrow> None
      | Some (_, bt1) \<Rightarrow> deliver_all handler hci_id ps bt1)"

lemma push_bytes_run:
  assumes "unat hw < length (ut_rx tbl)"
  shows "push_bytes handler hw bs hci (tbl, bt) =
    (let (ps, rx1) = h4_run bs (ut_rx tbl ! unat hw)
     in map_option (\<lambda>bt1. (Ok (), tbl\<lparr>ut_rx := (ut_rx tbl)[unat hw := rx1]\<rparr>, bt1)) (deliver_all handler hci ps bt))"
  using assms
proof (induction bs arbitrary: tbl bt)
  case Nil
  then show ?case by (cases tbl) simp
next
  case (Cons b bs)
  obtain pkt rx where b: "h4_rx_byte b (ut_rx tbl ! unat hw) = (pkt, rx)" by fastforce
  let ?tbl = "tbl\<lparr>ut_rx := (ut_rx tbl)[unat hw := rx]\<rparr>"
  have IH: "push_bytes handler hw bs hci (?tbl, bt) =
    (let (ps, rx1) = h4_run bs rx
     in map_option (\<lambda>bt1. (Ok (), tbl\<lparr>ut_rx := (ut_rx tbl)[unat hw := rx1]\<rparr>, bt1)) (deliver_all handler hci ps bt))" for bt
    using Cons.IH [of ?tbl bt] Cons.prems by simp
  obtain ps rx1 where run: "h4_run bs rx = (ps, rx1)" by fastforce
  have push: "h4_push_byte handler hw b hci (tbl, bt) =
    (case pkt of None \<Rightarrow> Some (Ok (), ?tbl, bt)
     | Some (t, data) \<Rightarrow> map_option (\<lambda>(_, bt1). (Ok (), ?tbl, bt1)) (with_hci_dev hci (deliver_packet handler t data) bt))"
    using Cons.prems by (simp add: h4_push_byte_def b Let_def)
  show ?case
  proof (cases pkt)
    case None
    then show ?thesis by (simp add: push b run IH)
  next
    case (Some p)
    obtain t data where p: "p = (t, data)" by (cases p)
    show ?thesis
    proof (cases "with_hci_dev hci (deliver_packet handler t data) bt")
      case None
      then show ?thesis by (simp add: push b run Some p)
    next
      case (Some r)
      then show ?thesis using \<open>pkt = Some p\<close> by (cases r) (simp add: push b run p IH)
    qed
  qed
qed

text \<open>
  With an idle receiver the bytes of any sequence of well-formed event and data packets of at most 512
  bytes are delivered to the controller as exactly these packets, in order, and the receiver is idle again. One data
  packet that is longer, which its sixteen bits of length allow, ends reception for good: whatever bytes follow,
  nothing reaches the controller any more.
\<close>

theorem h4_framing:
  assumes "unat hw < length (ut_rx tbl)" "h4_idle (ut_rx tbl ! unat hw)" "\<forall>p \<in> set ps. h4_wf p"
    and "h4_shape long" "H4_BUF_SIZE < length (snd long)"
  shows "(\<exists>rx1. h4_idle rx1 \<and> push_bytes handler hw (concat (map h4_encode ps)) hci (tbl, bt) =
      map_option (\<lambda>bt1. (Ok (), tbl\<lparr>ut_rx := (ut_rx tbl)[unat hw := rx1]\<rparr>, bt1)) (deliver_all handler hci ps bt)) \<and>
    (\<exists>rx1. push_bytes handler hw (h4_encode long @ bs) hci (tbl, bt) = Some (Ok (), tbl\<lparr>ut_rx := (ut_rx tbl)[unat hw := rx1]\<rparr>, bt))"
proof -
  obtain rx1 where r: "h4_idle rx1" "h4_run (concat (map h4_encode ps)) (ut_rx tbl ! unat hw) = (ps, rx1)"
    using h4_stream [OF assms(2,3)] by blast
  obtain rx2 where l: "h4_run (h4_encode long @ bs) (ut_rx tbl ! unat hw) = ([], rx2)"
    using h4_long [OF assms(2,4,5), of bs] by (metis prod.collapse)
  from r(1) show ?thesis
    unfolding push_bytes_run [OF assms(1)] r(2) l by (intro conjI exI [of _ rx1] exI [of _ rx2]) simp_all
qed

theorem h4_framing_witness:
  "\<exists>rx1. push_bytes (\<lambda>_ _ _ _ bt. Some bt) 0 (h4_encode (HCI_EVENT_PKT, [EV_CMD_STATUS, 2, 0, 1])) 0
     (uart_table_new, hci_dev_table_new ()) =
   Some (Ok (), uart_table_new\<lparr>ut_rx := (ut_rx uart_table_new)[0 := rx1]\<rparr>, hci_dev_table_new ())"
proof -
  let ?long = "(HCI_ACLDATA_PKT, [0, 0, 0, 2] @ replicate 512 0)"
  have "le16 (0 # 0 # 0 # 2 # xs) 2 = 512" for xs by (simp add: le16_def slice_def)
  then have long: "h4_shape ?long" "H4_BUF_SIZE < length (snd ?long)"
    by (simp_all add: h4_shape_def hdr_len_def payload_len_def HCI_ACLDATA_PKT_def HCI_EVENT_PKT_def H4_BUF_SIZE_def)
  have "h4_wf (HCI_EVENT_PKT, [EV_CMD_STATUS, 2, 0, 1])"
    by (simp add: h4_wf_def h4_shape_def hdr_len_def payload_len_def HCI_EVENT_PKT_def H4_BUF_SIZE_def)
  moreover have "h4_idle (ut_rx uart_table_new ! 0)" "0 < length (ut_rx uart_table_new)"
    by (simp_all add: uart_table_new_def MAX_HCI_UART_def h4_idle_def h4_new_def)
  moreover have "deliver_all (\<lambda>_ _ _ _ bt. Some bt) 0 [(HCI_EVENT_PKT, [EV_CMD_STATUS, 2, 0, 1])] (hci_dev_table_new ()) =
      Some (hci_dev_table_new ())"
    by (simp add: with_hci_dev_def hci_dev_table_new_def MAX_HCI_DEVS_def)
  ultimately show ?thesis
    using h4_framing [of 0 uart_table_new "[(HCI_EVENT_PKT, [EV_CMD_STATUS, 2, 0, 1])]" ?long
        "\<lambda>_ _ _ _ bt. Some bt" 0 "hci_dev_table_new ()" "[]"] long by auto
qed

section \<open>Probing\<close>

text \<open>A probed controller has no transport: its initialisation and every command fail.\<close>

lemma register_dev_slot:
  assumes "hci_register_dev dev bt = Some (Ok i, bt1)" "length (bt_devs bt) = MAX_HCI_DEVS"
  shows "bt_devs bt1 ! unat i = Some (dev\<lparr>hd_id := i\<rparr>)"
proof -
  obtain k where k: "free_slot (bt_devs bt) = Some k" "i = of_nat k"
    "bt1 = bt\<lparr>bt_devs := (bt_devs bt)[k := Some (dev\<lparr>hd_id := of_nat k\<rparr>)], bt_count := uadd (bt_count bt) 1\<rparr>"
    using assms(1) by (auto simp: hci_register_dev_def split: if_splits option.splits)
  then have "k < length (bt_devs bt)" by (auto simp: free_slot_def find_Some_iff)
  moreover from this have "unat i = k"
    using assms(2) by (simp add: k(2) MAX_HCI_DEVS_def unsigned_of_nat take_bit_nat_eq_self)
  ultimately show ?thesis using k by simp
qed

lemma probed_cannot_send:
  assumes "hci_uart_probe base baud mac tbl bt = Some (Ok i, tbl1, bt1)" "length (bt_devs bt) = MAX_HCI_DEVS"
  shows "\<exists>dev. bt_devs bt1 ! unat i = Some dev \<and> hci_init dev w = (Err NotFound, dev, w) \<and>
    fst (send_cmd opcode [] dev w) = Err NotFound"
proof -
  obtain hw where "hci_register_dev ((hci_dev_new hw)\<lparr>hd_bdaddr := mac\<rparr>) bt = Some (Ok i, bt1)"
    using assms(1) by (auto simp: hci_uart_probe_def split: outcome.splits option.splits prod.splits)
  from register_dev_slot [OF this assms(2)] show ?thesis
    by (simp add: hci_dev_new_def hci_init_def send_cmd_def)
qed

text \<open>The divisor of the baud rate is a 32-bit product: it can be zero for a rate that is not.\<close>

lemma configure_panics:
  assumes "unat hw < length (ut_hw tbl)" "uh_baud (ut_hw tbl ! unat hw) = 0x10000000"
  shows "uart_configure hw tbl = Panic"
  using assms by (simp add: uart_configure_def)

end
