(* ===== verification/Rfcomm.thy ===== *)
theory Rfcomm
  imports L2cap
begin

text \<open>
  Serial ports over Bluetooth, \<open>kernel/src/net/bluetooth/rfcomm.rs\<close>: the frame check sequence, the sessions with their
  data link connections, and the frames received and sent. What leaves the component is a list of outputs: frames
  given to L2CAP, and calls of the data handlers, which are numbers.
\<close>

section \<open>Constants\<close>

definition RFCOMM_PSM :: u16 where "RFCOMM_PSM = 0x0003"

definition FT_SABM :: u8 where "FT_SABM = 0x2F"
definition FT_UA :: u8 where "FT_UA = 0x63"
definition FT_DM :: u8 where "FT_DM = 0x0F"
definition FT_DISC :: u8 where "FT_DISC = 0x43"
definition FT_UIH :: u8 where "FT_UIH = 0xEF"

definition MCC_PN :: u8 where "MCC_PN = 0x20"

lemmas frame_types = FT_SABM_def FT_UA_def FT_DM_def FT_DISC_def FT_UIH_def

definition RFCOMM_MAX_FRAME :: usize where "RFCOMM_MAX_FRAME = 127"
definition MAX_RFCOMM_DLC :: usize where "MAX_RFCOMM_DLC = 16"
definition MAX_RFCOMM_SESSIONS :: usize where "MAX_RFCOMM_SESSIONS = 4"

section \<open>Frame check sequence\<close>

definition fcs_round :: "u8 \<Rightarrow> u8" where
  "fcs_round v = (if v AND 0x01 \<noteq> 0 then drop_bit 1 v XOR 0xE0 else drop_bit 1 v)"

definition FCS_TABLE :: "u8 list" where
  "FCS_TABLE = map (\<lambda>i. (fcs_round ^^ 8) (of_nat i)) [0..<256]"

definition fcs_step :: "u8 \<Rightarrow> u8 \<Rightarrow> u8" where
  "fcs_step fcs b = FCS_TABLE ! unat (fcs XOR b)"

definition rfcomm_fcs :: "u8 list \<Rightarrow> u8" where
  "rfcomm_fcs data = NOT (foldl fcs_step 0xFF data)"

definition rfcomm_fcs2 :: "u8 list \<Rightarrow> u8 \<Rightarrow> u8 kresult" where
  "rfcomm_fcs2 data fcs_old =
     (if length data < 2 then Panic
      else Ok (NOT (FCS_TABLE ! unat (FCS_TABLE ! unat (fcs_old XOR data ! 0) XOR data ! 1))))"

section \<open>State\<close>

datatype DlcState = DlcClosed | DlcWaitUA | DlcConnected | DlcWaitDisconn

record RfcommDlc =
  dl_dlci :: u8
  dl_scid :: u16
  dl_state :: DlcState
  dl_mtu :: u16
  dl_credits :: u8
  dl_rx_cb :: "nat option"
  dl_valid :: bool

definition dlc_empty :: RfcommDlc where
  "dlc_empty = \<lparr>dl_dlci = 0, dl_scid = 0, dl_state = DlcClosed, dl_mtu = 127, dl_credits = 7, dl_rx_cb = None, dl_valid = False\<rparr>"

datatype SessionState = SsClosed | SsWaitUA | SsOpen

record RfcommSession =
  rs_scid :: u16
  rs_state :: SessionState
  rs_dlcs :: "RfcommDlc list"
  rs_valid :: bool

definition session_empty :: RfcommSession where
  "session_empty = \<lparr>rs_scid = 0, rs_state = SsClosed, rs_dlcs = replicate MAX_RFCOMM_DLC dlc_empty, rs_valid = False\<rparr>"

type_synonym RfcommState = "RfcommSession list"

definition rfcomm_new :: RfcommState where
  "rfcomm_new = replicate MAX_RFCOMM_SESSIONS session_empty"

definition update_session :: "u16 \<Rightarrow> (RfcommSession \<Rightarrow> RfcommSession) \<Rightarrow> RfcommState \<Rightarrow> RfcommState" where
  "update_session scid f st = update_first (\<lambda>s. rs_valid s \<and> rs_scid s = scid) f st"

definition update_dlc :: "u8 \<Rightarrow> (RfcommDlc \<Rightarrow> RfcommDlc) \<Rightarrow> RfcommSession \<Rightarrow> RfcommSession" where
  "update_dlc dlci f s = s\<lparr>rs_dlcs := update_first (\<lambda>d. dl_valid d \<and> dl_dlci d = dlci) f (rs_dlcs s)\<rparr>"

definition alloc_dlc :: "RfcommDlc \<Rightarrow> RfcommSession \<Rightarrow> RfcommSession" where
  "alloc_dlc new s = s\<lparr>rs_dlcs := update_first (\<lambda>d. \<not> dl_valid d) (\<lambda>_. new) (rs_dlcs s)\<rparr>"

definition free_dlc :: "RfcommDlc \<Rightarrow> RfcommDlc" where
  "free_dlc d = d\<lparr>dl_state := DlcClosed, dl_valid := False\<rparr>"

datatype rf_out = ToL2cap u16 "u8 list" | RxCall nat u8 "u8 list"

text \<open>The handler the protocol registers with L2CAP is an argument.\<close>

definition rfcomm_init :: "nat \<Rightarrow> L2capState \<Rightarrow> unit kresult \<times> L2capState" where
  "rfcomm_init recv l2 = l2cap_register_psm RFCOMM_PSM recv l2"

section \<open>Sending\<close>

definition uih_frame :: "u8 \<Rightarrow> u8 list \<Rightarrow> u8 list" where
  "uih_frame dlci data =
     (let a = push_bit 2 dlci OR 0x01; c = FT_UIH OR 0x10; n = length data
      in [a, c] @
         (if n \<le> 127 then [push_bit 1 (of_nat n) OR 0x01] else [push_bit 1 (of_nat n), of_nat (n div 128)]) @
         data @ [rfcomm_fcs [a, c]])"

definition rfcomm_send_data :: "u16 \<Rightarrow> u8 \<Rightarrow> u8 list \<Rightarrow> L2capState \<Rightarrow> rf_out list kresult" where
  "rfcomm_send_data scid dlci data l2 =
     (if length data > RFCOMM_MAX_FRAME then Err (InvalidParameter ''frame too large'')
      else case l2cap_send scid (uih_frame dlci data) l2 of
        Ok _ \<Rightarrow> Ok [ToL2cap scid (uih_frame dlci data)] | Err e \<Rightarrow> Err e | Panic \<Rightarrow> Panic)"

text \<open>A frame without data: header, length zero and its check sequence.\<close>

definition control_frame :: "u8 \<Rightarrow> u8 \<Rightarrow> u8 list" where
  "control_frame dlci ftype =
     (let a = push_bit 2 dlci OR 0x03; c = ftype OR 0x10 in [a, c, 0x01, rfcomm_fcs [a, c, 0x01]])"

definition rfcomm_send_ua :: "u16 \<Rightarrow> u8 \<Rightarrow> rf_out list" where
  "rfcomm_send_ua scid dlci = [ToL2cap scid (control_frame dlci FT_UA)]"

definition rfcomm_send_sabm :: "u16 \<Rightarrow> u8 \<Rightarrow> L2capState \<Rightarrow> rf_out list kresult" where
  "rfcomm_send_sabm scid dlci l2 =
     (case l2cap_send scid (control_frame dlci FT_SABM) l2 of
        Ok _ \<Rightarrow> Ok [ToL2cap scid (control_frame dlci FT_SABM)] | Err e \<Rightarrow> Err e | Panic \<Rightarrow> Panic)"

section \<open>Receiving\<close>

type_synonym rf_step = "RfcommState \<Rightarrow> rf_out list \<times> RfcommState"

definition rfcomm_recv_sabm :: "u16 \<Rightarrow> u8 \<Rightarrow> u8 \<Rightarrow> rf_step" where
  "rfcomm_recv_sabm scid dlci cr st =
     (if dlci = 0 then (rfcomm_send_ua scid 0, update_session scid (\<lambda>s. s\<lparr>rs_state := SsOpen\<rparr>) st)
      else (rfcomm_send_ua scid dlci,
            update_session scid (alloc_dlc (dlc_empty\<lparr>dl_dlci := dlci, dl_scid := scid, dl_state := DlcConnected, dl_valid := True\<rparr>)) st))"

definition rfcomm_recv_ua :: "u16 \<Rightarrow> u8 \<Rightarrow> rf_step" where
  "rfcomm_recv_ua scid dlci st =
     (if dlci = 0 then ([], update_session scid (\<lambda>s. s\<lparr>rs_state := SsOpen\<rparr>) st)
      else ([], update_session scid (update_dlc dlci (\<lambda>d. d\<lparr>dl_state := DlcConnected\<rparr>)) st))"

definition rfcomm_recv_disc :: "u16 \<Rightarrow> u8 \<Rightarrow> rf_step" where
  "rfcomm_recv_disc scid dlci st =
     (rfcomm_send_ua scid dlci,
      update_session scid (\<lambda>s. if dlci = 0 then s\<lparr>rs_state := SsClosed\<rparr> else update_dlc dlci free_dlc s) st)"

definition rfcomm_recv_dm :: "u16 \<Rightarrow> u8 \<Rightarrow> rf_step" where
  "rfcomm_recv_dm scid dlci st = ([], update_session scid (update_dlc dlci free_dlc) st)"

definition rx_handler :: "u16 \<Rightarrow> u8 \<Rightarrow> RfcommState \<Rightarrow> nat option" where
  "rx_handler scid dlci st =
     (case find (\<lambda>s. rs_valid s \<and> rs_scid s = scid) st of
        None \<Rightarrow> None
      | Some s \<Rightarrow> (case find (\<lambda>d. dl_valid d \<and> dl_dlci d = dlci \<and> dl_state d = DlcConnected) (rs_dlcs s) of
            None \<Rightarrow> None | Some d \<Rightarrow> dl_rx_cb d))"

definition rfcomm_recv_data :: "u16 \<Rightarrow> u8 \<Rightarrow> u8 list \<Rightarrow> rf_step" where
  "rfcomm_recv_data scid dlci payload st =
     (case rx_handler scid dlci st of None \<Rightarrow> ([], st) | Some cb \<Rightarrow> ([RxCall cb dlci payload], st))"

definition rfcomm_recv_pn :: "u16 \<Rightarrow> u8 list \<Rightarrow> rf_step" where
  "rfcomm_recv_pn scid data st =
     (if length data < 8 then ([], st)
      else ([], update_session scid (update_dlc (data ! 0 AND 0x3F) (\<lambda>d. d\<lparr>dl_mtu := le16 data 4\<rparr>)) st))"

definition rfcomm_recv_mcc :: "u16 \<Rightarrow> u8 list \<Rightarrow> rf_step" where
  "rfcomm_recv_mcc scid data st =
     (if length data < 2 then ([], st)
      else let mtype = data ! 0 AND NOT 0x01; mlen = unat (drop_bit 1 (data ! 1))
      in if length data < 2 + mlen then ([], st)
         else if mtype = MCC_PN then rfcomm_recv_pn scid (slice data 2 mlen) st else ([], st))"

text \<open>The length field and the offset of the data.\<close>

definition frame_len :: "u8 list \<Rightarrow> usize \<times> usize" where
  "frame_len data =
     (if data ! 2 AND 0x01 \<noteq> 0 then (unat (drop_bit 1 (data ! 2)), 3)
      else (unat ((push_bit 7 (ucast (data ! 3)) OR ucast (drop_bit 1 (data ! 2))) :: u64), 4))"

definition rfcomm_recv_frame :: "u16 \<Rightarrow> u8 list \<Rightarrow> rf_step" where
  "rfcomm_recv_frame scid data st =
     (if length data < 4 then ([], st)
      else let addr = data ! 0; ctrl = data ! 1; (len, data_off) = frame_len data;
               dlci = drop_bit 2 addr; ftype = ctrl AND 0xEF
      in if dlci > 61 then ([], st)
         else if length data < data_off + len + 1 then ([], st)
         else let expected_fcs = (if ftype = FT_UIH then rfcomm_fcs (take 2 data) else rfcomm_fcs (take data_off data))
         in if data ! (data_off + len) \<noteq> expected_fcs then ([], st)
            else let payload = slice data data_off len
            in if ftype = FT_SABM then rfcomm_recv_sabm scid dlci (drop_bit 1 addr AND 0x01) st
               else if ftype = FT_UA then rfcomm_recv_ua scid dlci st
               else if ftype = FT_DISC then rfcomm_recv_disc scid dlci st
               else if ftype = FT_DM then rfcomm_recv_dm scid dlci st
               else if ftype = FT_UIH then
                 (if dlci = 0 then rfcomm_recv_mcc scid payload st else rfcomm_recv_data scid dlci payload st)
               else ([], st))"

definition rfcomm_l2cap_recv :: "u16 \<Rightarrow> u16 \<Rightarrow> u8 list \<Rightarrow> rf_step" where
  "rfcomm_l2cap_recv hcon scid data st = rfcomm_recv_frame scid data st"

section \<open>Sessions\<close>

definition rfcomm_session_open :: "u16 \<Rightarrow> RfcommState \<Rightarrow> unit kresult \<times> RfcommState" where
  "rfcomm_session_open scid st =
     (if \<exists>s \<in> set st. \<not> rs_valid s
      then (Ok (), update_first (\<lambda>s. \<not> rs_valid s) (\<lambda>_. session_empty\<lparr>rs_scid := scid, rs_state := SsWaitUA, rs_valid := True\<rparr>) st)
      else (Err ResourceExhausted, st))"

definition rfcomm_dlc_open :: "u16 \<Rightarrow> u8 \<Rightarrow> nat \<Rightarrow> L2capState \<Rightarrow> RfcommState \<Rightarrow> u8 kresult \<times> rf_out list \<times> RfcommState" where
  "rfcomm_dlc_open scid server_channel rx_cb l2 st =
     (let dlci = push_bit 1 server_channel
      in case find (\<lambda>s. rs_valid s \<and> rs_scid s = scid) st of
           None \<Rightarrow> (Err NotFound, [], st)
         | Some s \<Rightarrow>
             if \<exists>d \<in> set (rs_dlcs s). \<not> dl_valid d
             then let st1 = update_session scid (alloc_dlc (dlc_empty\<lparr>dl_dlci := dlci, dl_scid := scid, dl_state := DlcWaitUA,
                                                   dl_rx_cb := Some rx_cb, dl_valid := True\<rparr>)) st
                  in (case rfcomm_send_sabm scid dlci l2 of
                        Ok outs \<Rightarrow> (Ok dlci, outs, st1) | Err e \<Rightarrow> (Err e, [], st1) | Panic \<Rightarrow> (Panic, [], st1))
             else (Err ResourceExhausted, [], st))"

section \<open>Detection of errors\<close>

lemma xor_cancel_left: "a XOR b = a XOR c \<longleftrightarrow> b = c" for a b c :: u8
  by (metis xor.assoc xor.left_neutral xor_self_eq)

lemma xor_cancel_right: "b XOR a = c XOR a \<longleftrightarrow> b = c" for a b c :: u8
  using xor_cancel_left [of a b c] by (simp add: xor.commute)

lemma fcs_round_inj: "inj fcs_round"
proof (rule injI)
  fix v w :: u8
  assume eq: "fcs_round v = fcs_round w"
  have lsb: "x AND 1 = 0 \<longleftrightarrow> \<not> bit x 0" for x :: u8
    using and_mask_zero_iff [of 0 x] by simp
  have out: "\<not> bit x 8" for x :: u8 by (auto dest: bit_imp_le_length)
  have "bit (0xE0 :: u8) 7" by simp
  then have top: "bit (fcs_round x) 7 = bit x 0" for x :: u8
    unfolding fcs_round_def lsb using out [of x] by (simp add: bit_drop_bit_eq bit_xor_iff)
  have low: "bit v 0 = bit w 0" using eq top [of v] top [of w] by simp
  then have drop: "drop_bit 1 v = drop_bit 1 w"
    using eq xor_cancel_right unfolding fcs_round_def lsb by auto
  show "v = w"
  proof (rule bit_eqI)
    fix n
    show "bit v n = bit w n"
    proof (cases n)
      case (Suc m)
      then show ?thesis using drop by (metis bit_drop_bit_eq comp_apply plus_1_eq_Suc)
    qed (use low in simp)
  qed
qed

lemma FCS_TABLE_nth: "FCS_TABLE ! unat b = (fcs_round ^^ 8) b"
proof -
  have "unat b < 256" by (rule unat_u8_less)
  then show ?thesis by (simp add: FCS_TABLE_def del: upt_Suc)
qed

lemma fcs_step_inj: "fcs_step a b = fcs_step c d \<longleftrightarrow> a XOR b = c XOR d"
  using inj_fn [OF fcs_round_inj, of 8] by (auto simp: fcs_step_def FCS_TABLE_nth inj_eq)

section \<open>Frames\<close>

lemma dlci_addr:
  fixes d :: u8
  assumes "d \<le> 61"
  shows "drop_bit 2 (push_bit 2 d) = d" "\<not> 61 < d"
proof -
  have "unat d \<le> 61" using assms by (simp add: word_le_nat_alt)
  then have "unat (drop_bit 2 (push_bit 2 d)) = unat d"
    by (simp only: unsigned_drop_bit_eq unsigned_push_bit_eq) (simp add: take_bit_eq_mod push_bit_eq_mult drop_bit_eq_div)
  then show "drop_bit 2 (push_bit 2 d) = d" by (simp add: word_unat_eq_iff)
  show "\<not> 61 < d" using assms by simp
qed

lemma length_byte:
  assumes "n \<le> 127"
  shows "(push_bit 1 (of_nat n) OR 0x01) AND (0x01 :: u8) \<noteq> 0"
    "unat (drop_bit 1 (push_bit 1 (of_nat n) OR (0x01 :: u8))) = n"
proof -
  let ?w = "of_nat n :: u8"
  show "(push_bit 1 ?w OR 0x01) AND (0x01 :: u8) \<noteq> 0"
    using and_mask_zero_iff [of 0 "push_bit 1 ?w OR 0x01"] by (simp add: bit_or_iff)
  have w: "unat ?w = n" using assms by (simp add: unsigned_of_nat take_bit_nat_eq_self)
  have "drop_bit 1 (push_bit 1 ?w OR 0x01) = drop_bit 1 (push_bit 1 ?w)"
    by (rule bit_word_eqI) (simp add: bit_drop_bit_eq bit_or_iff bit_1_iff)
  also have "unat \<dots> = n"
    using assms by (simp only: unsigned_drop_bit_eq unsigned_push_bit_eq w) (simp add: take_bit_eq_mod push_bit_eq_mult drop_bit_eq_div)
  finally show "unat (drop_bit 1 (push_bit 1 ?w OR (0x01 :: u8))) = n" .
qed

lemma recv_control:
  assumes "dlci \<le> 61"
  shows "rfcomm_recv_frame scid (control_frame dlci FT_SABM) st = rfcomm_recv_sabm scid dlci (drop_bit 1 (push_bit 2 dlci OR 3) AND 1) st"
    "rfcomm_recv_frame scid (control_frame dlci FT_UA) st = rfcomm_recv_ua scid dlci st"
  using assms
  by (simp_all add: rfcomm_recv_frame_def control_frame_def frame_len_def Let_def frame_types dlci_addr)

lemma recv_uih:
  assumes "dlci \<le> 61" "length data \<le> 127"
  shows "rfcomm_recv_frame scid (uih_frame dlci data) st =
    (if dlci = 0 then rfcomm_recv_mcc scid data st else rfcomm_recv_data scid dlci data st)"
proof -
  let ?a = "push_bit 2 dlci OR 0x01" and ?c = "FT_UIH OR 0x10" and ?l = "push_bit 1 (of_nat (length data)) OR 0x01"
  have f: "uih_frame dlci data = [?a, ?c, ?l] @ data @ [rfcomm_fcs [?a, ?c]]"
    using assms(2) by (simp add: uih_frame_def Let_def)
  have l: "frame_len (uih_frame dlci data) = (length data, 3)"
    using length_byte [OF assms(2)] by (simp add: f frame_len_def)
  have n: "([?a, ?c, ?l] @ data @ [rfcomm_fcs [?a, ?c]]) ! (3 + length data) = rfcomm_fcs [?a, ?c]"
    by (simp add: nth_append)
  show ?thesis
    using l n dlci_addr [OF assms(1)]
    by (simp add: rfcomm_recv_frame_def f Let_def slice_def frame_types)
qed

lemma recv_uih_corrupt:
  assumes "length data \<le> 127" "x \<noteq> push_bit 2 dlci OR 0x01"
  shows "rfcomm_recv_frame scid ((uih_frame dlci data)[0 := x]) st = ([], st)"
proof -
  let ?a = "push_bit 2 dlci OR 0x01" and ?c = "FT_UIH OR 0x10" and ?l = "push_bit 1 (of_nat (length data)) OR 0x01"
  have f: "(uih_frame dlci data)[0 := x] = [x, ?c, ?l] @ data @ [rfcomm_fcs [?a, ?c]]"
    using assms(1) by (simp add: uih_frame_def Let_def)
  have l: "frame_len ((uih_frame dlci data)[0 := x]) = (length data, 3)"
    using length_byte [OF assms(1)] by (simp add: f frame_len_def)
  have "fcs_step (fcs_step 0xFF x) ?c \<noteq> fcs_step (fcs_step 0xFF ?a) ?c"
    using assms(2) by (simp only: fcs_step_inj xor_cancel_left xor_cancel_right) simp
  then have "rfcomm_fcs [?a, ?c] \<noteq> rfcomm_fcs [x, ?c]"
    by (auto simp: rfcomm_fcs_def)
  moreover have "([x, ?c, ?l] @ data @ [rfcomm_fcs [?a, ?c]]) ! (3 + length data) = rfcomm_fcs [?a, ?c]"
    by (simp add: nth_append)
  moreover have "?c AND 0xEF = FT_UIH" by (simp add: frame_types)
  ultimately show ?thesis using l by (simp add: rfcomm_recv_frame_def f Let_def)
qed

section \<open>Lookups after a change\<close>

lemma find_update_same: "(\<And>x. P x \<Longrightarrow> P (f x)) \<Longrightarrow> find P (update_first P f xs) = map_option f (find P xs)"
  by (induction xs) auto

lemma find_update_and:
  "(\<And>x. P x \<Longrightarrow> P (f x) \<and> R (f x)) \<Longrightarrow> find P xs = Some x \<Longrightarrow> find (\<lambda>y. P y \<and> R y) (update_first P f xs) = Some (f x)"
  by (induction xs) auto

lemma find_alloc:
  "\<forall>x \<in> set xs. \<not> Q x \<Longrightarrow> \<exists>x \<in> set xs. P x \<Longrightarrow> Q new \<Longrightarrow> find Q (update_first P (\<lambda>_. new) xs) = Some new"
  by (induction xs) auto

lemma find_alloc_cases: "(\<And>x. Q x \<Longrightarrow> \<not> P x) \<Longrightarrow> find Q (update_first P (\<lambda>_. new) xs) \<in> {find Q xs, Some new}"
  by (induction xs) auto

definition session_of :: "u16 \<Rightarrow> RfcommState \<Rightarrow> RfcommSession option" where
  "session_of scid st = find (\<lambda>s. rs_valid s \<and> rs_scid s = scid) st"

lemma session_of_update:
  assumes "\<And>s. rs_valid (f s) = rs_valid s" "\<And>s. rs_scid (f s) = rs_scid s"
  shows "session_of scid (update_session scid f st) = map_option f (session_of scid st)"
  unfolding session_of_def update_session_def by (rule find_update_same) (simp add: assms)

lemma session_keeps [simp]:
  "rs_valid (alloc_dlc new s) = rs_valid s" "rs_scid (alloc_dlc new s) = rs_scid s"
  "rs_valid (update_dlc i g s) = rs_valid s" "rs_scid (update_dlc i g s) = rs_scid s"
  by (simp_all add: alloc_dlc_def update_dlc_def)

lemma rx_handler_session:
  "rx_handler scid dlci st = (case session_of scid st of None \<Rightarrow> None
     | Some s \<Rightarrow> (case find (\<lambda>d. (dl_valid d \<and> dl_dlci d = dlci) \<and> dl_state d = DlcConnected) (rs_dlcs s) of
           None \<Rightarrow> None | Some d \<Rightarrow> dl_rx_cb d))"
  unfolding rx_handler_def session_of_def conj_assoc ..

text \<open>A connection opened here and acknowledged by the peer has the handler it was opened with.\<close>

lemma connect_handler:
  assumes "session_of scid st = Some s" "\<exists>d \<in> set (rs_dlcs s). \<not> dl_valid d"
    and "\<forall>d \<in> set (rs_dlcs s). dl_valid d \<longrightarrow> dl_dlci d \<noteq> dlci" "dlci \<noteq> 0"
    and new: "new = dlc_empty\<lparr>dl_dlci := dlci, dl_scid := scid, dl_state := DlcWaitUA, dl_rx_cb := Some cb, dl_valid := True\<rparr>"
  shows "rx_handler scid dlci (snd (rfcomm_recv_ua scid dlci (update_session scid (alloc_dlc new) st))) = Some cb"
proof -
  let ?P = "\<lambda>d. dl_valid d \<and> dl_dlci d = dlci" and ?up = "\<lambda>d. d\<lparr>dl_state := DlcConnected\<rparr>"
  have "find ?P (update_first (\<lambda>d. \<not> dl_valid d) (\<lambda>_. new) (rs_dlcs s)) = Some new"
    using assms(2,3) by (intro find_alloc) (auto simp: new)
  then have "find (\<lambda>d. ?P d \<and> dl_state d = DlcConnected) (update_first ?P ?up (rs_dlcs (alloc_dlc new s))) = Some (?up new)"
    by (intro find_update_and) (simp_all add: alloc_dlc_def)
  then show ?thesis
    using assms(1,4)
    by (simp add: rx_handler_session rfcomm_recv_ua_def session_of_update) (simp add: update_dlc_def new)
qed

text \<open>A connection opened by the peer has none.\<close>

lemma accept_handler:
  assumes "rx_handler scid dlci st = None" "dlci \<noteq> 0"
  shows "rx_handler scid dlci (snd (rfcomm_recv_sabm scid dlci cr st)) = None"
proof (cases "session_of scid st")
  case None
  then show ?thesis using assms(2) by (simp add: rx_handler_session rfcomm_recv_sabm_def session_of_update)
next
  case (Some s)
  let ?new = "dlc_empty\<lparr>dl_dlci := dlci, dl_scid := scid, dl_state := DlcConnected, dl_valid := True\<rparr>"
  let ?Q = "\<lambda>d. (dl_valid d \<and> dl_dlci d = dlci) \<and> dl_state d = DlcConnected"
  have "find ?Q (rs_dlcs (alloc_dlc ?new s)) \<in> {find ?Q (rs_dlcs s), Some ?new}"
    unfolding alloc_dlc_def using find_alloc_cases [of ?Q "\<lambda>d. \<not> dl_valid d" ?new "rs_dlcs s"] by simp
  moreover have "dl_rx_cb ?new = None" by (simp add: dlc_empty_def)
  ultimately show ?thesis
    using assms Some by (auto simp: rx_handler_session rfcomm_recv_sabm_def session_of_update split: option.splits)
qed

text \<open>
  Opening a serial channel on a session with a free entry and an open L2CAP channel sends one frame;
  the peer answers it, whatever its sessions are, and with the answer the channel is connected: from then on a frame of
  data the peer sends arrives unchanged at the handler. A frame whose address byte was changed on the way is
  dropped, the check sequence telling the two apart. But the peer's end has no handler: what is sent to it disappears.
\<close>

theorem rfcomm_connect:
  assumes "session_of scid st = Some s" "\<exists>d \<in> set (rs_dlcs s). \<not> dl_valid d"
    and "\<forall>d \<in> set (rs_dlcs s). dl_valid d \<longrightarrow> dl_dlci d \<noteq> push_bit 1 ch"
    and "\<exists>c \<in> set (l2_chans l2). ch_valid c \<and> ch_scid c = scid \<and> ch_state c = ChOpen"
    and "1 \<le> ch" "ch \<le> 30" "length data \<le> 127"
  shows "\<exists>req rsp st1. rfcomm_dlc_open scid ch cb l2 st = (Ok (push_bit 1 ch), [ToL2cap scid req], st1) \<and>
    fst (rfcomm_recv_frame peer req pst) = [ToL2cap peer rsp] \<and>
    (let (outs, st2) = rfcomm_recv_frame scid rsp st1
     in outs = [] \<and> rfcomm_recv_frame scid (uih_frame (push_bit 1 ch) data) st2 = ([RxCall cb (push_bit 1 ch) data], st2) \<and>
        (\<forall>x. x \<noteq> push_bit 2 (push_bit 1 ch) OR 0x01 \<longrightarrow>
           rfcomm_recv_frame scid ((uih_frame (push_bit 1 ch) data)[0 := x]) st2 = ([], st2))) \<and>
    (rx_handler peer (push_bit 1 ch) pst = None \<longrightarrow>
       fst (rfcomm_recv_frame peer (uih_frame (push_bit 1 ch) data) (snd (rfcomm_recv_frame peer req pst))) = [])"
proof -
  define dlci where "dlci = push_bit 1 ch"
  have u: "unat dlci = 2 * unat ch"
  proof -
    have "unat ch \<le> 30" using assms(6) by (simp add: word_le_nat_alt)
    then show ?thesis unfolding dlci_def
      by (simp only: unsigned_push_bit_eq) (simp add: take_bit_eq_mod push_bit_eq_mult)
  qed
  have "0 < unat ch" "unat ch \<le> 30" using assms(5,6) by (simp_all add: word_le_nat_alt)
  then have d: "dlci \<le> 61" "dlci \<noteq> 0" using u by (auto simp: word_le_nat_alt)
  let ?new = "dlc_empty\<lparr>dl_dlci := dlci, dl_scid := scid, dl_state := DlcWaitUA, dl_rx_cb := Some cb, dl_valid := True\<rparr>"
  let ?req = "control_frame dlci FT_SABM" and ?rsp = "control_frame dlci FT_UA"
  let ?st1 = "update_session scid (alloc_dlc ?new) st"
  obtain c where "find (\<lambda>c. ch_valid c \<and> ch_scid c = scid \<and> ch_state c = ChOpen) (l2_chans l2) = Some c"
    using assms(4) by (cases "find (\<lambda>c. ch_valid c \<and> ch_scid c = scid \<and> ch_state c = ChOpen) (l2_chans l2)")
      (auto simp: find_None_iff)
  then have "l2cap_send scid ?req l2 = Ok (l2cap_send_acl (ch_hcon c) (ch_dcid c) ?req)" by (simp add: l2cap_send_def)
  then have op: "rfcomm_dlc_open scid ch cb l2 st = (Ok dlci, [ToL2cap scid ?req], ?st1)"
    using assms(1,2) unfolding rfcomm_dlc_open_def Let_def dlci_def [symmetric] by (simp add: rfcomm_send_sabm_def session_of_def)
  have acc: "fst (rfcomm_recv_frame peer ?req pst) = [ToL2cap peer ?rsp]"
    unfolding recv_control(1) [OF d(1)] using d(2) by (simp add: rfcomm_recv_sabm_def rfcomm_send_ua_def)
  have ua: "rfcomm_recv_frame scid ?rsp ?st1 = ([], snd (rfcomm_recv_ua scid dlci ?st1))"
    unfolding recv_control(2) [OF d(1)] using d(2) by (simp add: rfcomm_recv_ua_def)
  have "rx_handler scid dlci (snd (rfcomm_recv_ua scid dlci ?st1)) = Some cb"
    by (rule connect_handler [OF assms(1,2) _ d(2) refl]) (use assms(3) in \<open>simp add: dlci_def\<close>)
  then have deliver: "rfcomm_recv_frame scid (uih_frame dlci data) (snd (rfcomm_recv_ua scid dlci ?st1)) =
      ([RxCall cb dlci data], snd (rfcomm_recv_ua scid dlci ?st1))"
    unfolding recv_uih [OF d(1) assms(7)] using d(2) by (simp add: rfcomm_recv_data_def)
  have "rx_handler peer dlci pst = None \<longrightarrow>
      fst (rfcomm_recv_frame peer (uih_frame dlci data) (snd (rfcomm_recv_frame peer ?req pst))) = []"
    unfolding recv_control(1) [OF d(1)] recv_uih [OF d(1) assms(7)]
    using d(2) accept_handler [of peer dlci pst] by (simp add: rfcomm_recv_data_def)
  then show ?thesis
    using op acc ua deliver recv_uih_corrupt [OF assms(7)] unfolding dlci_def [symmetric]
    by (intro exI [of _ ?req] exI [of _ ?rsp] exI [of _ ?st1]) simp
qed

theorem rfcomm_connect_witness:
  "\<exists>req st1. rfcomm_dlc_open 64 5 7 (l2cap_new\<lparr>l2_chans := [chan_empty\<lparr>ch_scid := 64, ch_state := ChOpen, ch_valid := True\<rparr>]\<rparr>)
     [session_empty\<lparr>rs_scid := 64, rs_valid := True\<rparr>] = (Ok 10, [ToL2cap 64 req], st1)"
  using rfcomm_connect [of 64 "[session_empty\<lparr>rs_scid := 64, rs_valid := True\<rparr>]" "session_empty\<lparr>rs_scid := 64, rs_valid := True\<rparr>"
      5 "l2cap_new\<lparr>l2_chans := [chan_empty\<lparr>ch_scid := 64, ch_state := ChOpen, ch_valid := True\<rparr>]\<rparr>" "[1, 2]" 7 65 rfcomm_new]
  by (fastforce simp: session_of_def session_empty_def dlc_empty_def MAX_RFCOMM_DLC_def)

section \<open>What is lost\<close>

text \<open>No operation frees a session: once four are open, opening fails for ever.\<close>

definition all_used :: "RfcommState \<Rightarrow> bool" where
  "all_used st \<longleftrightarrow> (\<forall>s \<in> set st. rs_valid s)"

lemma update_session_used: "all_used st \<Longrightarrow> (\<And>s. rs_valid (f s) = rs_valid s) \<Longrightarrow> all_used (update_session scid f st)"
  unfolding all_used_def update_session_def by (rule update_first_all) auto

lemma handlers_used:
  assumes "all_used st"
  shows "all_used (snd (rfcomm_recv_sabm scid dlci cr st))" "all_used (snd (rfcomm_recv_ua scid dlci st))"
    "all_used (snd (rfcomm_recv_disc scid dlci st))" "all_used (snd (rfcomm_recv_dm scid dlci st))"
    "all_used (snd (rfcomm_recv_data scid dlci p st))" "all_used (snd (rfcomm_recv_mcc scid p st))"
  using assms
  by (simp_all add: rfcomm_recv_sabm_def rfcomm_recv_ua_def rfcomm_recv_disc_def rfcomm_recv_dm_def rfcomm_recv_data_def
      rfcomm_recv_mcc_def rfcomm_recv_pn_def Let_def update_session_used split: option.split)

lemma sessions_never_freed:
  assumes "all_used st"
  shows "all_used (snd (rfcomm_recv_frame scid data st))" "rfcomm_session_open scid2 st = (Err ResourceExhausted, st)"
    "all_used (snd (snd (rfcomm_dlc_open scid ch cb l2 st)))"
proof -
  show "all_used (snd (rfcomm_recv_frame scid data st))"
    unfolding rfcomm_recv_frame_def Let_def using handlers_used [OF assms] assms by (cases "frame_len data") simp
  show "rfcomm_session_open scid2 st = (Err ResourceExhausted, st)"
    using assms by (auto simp: rfcomm_session_open_def all_used_def)
  show "all_used (snd (snd (rfcomm_dlc_open scid ch cb l2 st)))"
    unfolding rfcomm_dlc_open_def Let_def using assms by (simp add: update_session_used split: option.split outcome.split)
qed

text \<open>Opening a channel whose request cannot be sent fails and keeps the entry it took.\<close>

lemma failed_open_leaks:
  assumes "session_of scid st = Some s" "\<exists>d \<in> set (rs_dlcs s). \<not> dl_valid d"
    and "l2cap_send scid (control_frame (push_bit 1 ch) FT_SABM) l2 = Err e"
  shows "rfcomm_dlc_open scid ch cb l2 st = (Err e, [], update_session scid (alloc_dlc (dlc_empty\<lparr>dl_dlci := push_bit 1 ch,
     dl_scid := scid, dl_state := DlcWaitUA, dl_rx_cb := Some cb, dl_valid := True\<rparr>)) st)"
  using assms unfolding rfcomm_dlc_open_def Let_def by (simp add: rfcomm_send_sabm_def session_of_def)

end
