(* ===== verification/Sdp.thy ===== *)
theory Sdp
  imports L2cap
begin

text \<open>
  Service discovery over Bluetooth, \<open>kernel/src/net/bluetooth/sdp.rs\<close>: the table of service records with their
  encoded attributes, and the three requests of a peer. What the component sends is a list of L2CAP channels and
  bytes. A slice past the end of a buffer is a panic.
\<close>

section \<open>Constants\<close>

definition SDP_PSM :: u16 where "SDP_PSM = 0x0001"

definition PDU_ERROR_RSP :: u8 where "PDU_ERROR_RSP = 0x01"
definition PDU_SEARCH_REQ :: u8 where "PDU_SEARCH_REQ = 0x02"
definition PDU_SEARCH_RSP :: u8 where "PDU_SEARCH_RSP = 0x03"
definition PDU_ATTR_REQ :: u8 where "PDU_ATTR_REQ = 0x04"
definition PDU_ATTR_RSP :: u8 where "PDU_ATTR_RSP = 0x05"
definition PDU_SEARCH_ATTR_REQ :: u8 where "PDU_SEARCH_ATTR_REQ = 0x06"
definition PDU_SEARCH_ATTR_RSP :: u8 where "PDU_SEARCH_ATTR_RSP = 0x07"

lemmas pdu_ids = PDU_ERROR_RSP_def PDU_SEARCH_REQ_def PDU_SEARCH_RSP_def PDU_ATTR_REQ_def PDU_ATTR_RSP_def
  PDU_SEARCH_ATTR_REQ_def PDU_SEARCH_ATTR_RSP_def

definition UUID_SPP :: u16 where "UUID_SPP = 0x1101"
definition ATTR_CLASS_ID_LIST :: u16 where "ATTR_CLASS_ID_LIST = 0x0001"
definition ATTR_PROTOCOL_LIST :: u16 where "ATTR_PROTOCOL_LIST = 0x0004"

definition DE_UINT :: u8 where "DE_UINT = 0x08"
definition DE_UUID :: u8 where "DE_UUID = 0x18"
definition DE_SEQ :: u8 where "DE_SEQ = 0x30"
definition SIZE_1 :: u8 where "SIZE_1 = 0x00"
definition SIZE_2 :: u8 where "SIZE_2 = 0x01"
definition SIZE_U8 :: u8 where "SIZE_U8 = 0x05"

definition MAX_ATTRS :: usize where "MAX_ATTRS = 16"
definition MAX_ATTR_DATA :: usize where "MAX_ATTR_DATA = 64"
definition MAX_SERVICE_RECORDS :: usize where "MAX_SERVICE_RECORDS = 16"

section \<open>Records\<close>

record SdpAttr =
  at_id :: u16
  at_data :: "u8 list"
  at_data_len :: u8
  at_valid :: bool

definition attr_empty :: SdpAttr where
  "attr_empty = \<lparr>at_id = 0, at_data = replicate MAX_ATTR_DATA 0, at_data_len = 0, at_valid = False\<rparr>"

record ServiceRecord =
  sr_handle :: u32
  sr_attrs :: "SdpAttr list"
  sr_valid :: bool

definition record_empty :: ServiceRecord where
  "record_empty = \<lparr>sr_handle = 0, sr_attrs = replicate MAX_ATTRS attr_empty, sr_valid = False\<rparr>"

definition store_attr :: "u16 \<Rightarrow> u8 list \<Rightarrow> SdpAttr \<Rightarrow> SdpAttr" where
  "store_attr i data a =
     (let n = min (length data) MAX_ATTR_DATA
      in a\<lparr>at_id := i, at_data := take n data @ drop n (at_data a), at_data_len := of_nat n, at_valid := True\<rparr>)"

definition add_attr :: "u16 \<Rightarrow> u8 list \<Rightarrow> ServiceRecord \<Rightarrow> unit kresult \<times> ServiceRecord" where
  "add_attr i data rec =
     (if \<exists>a \<in> set (sr_attrs rec). at_valid a \<and> at_id a = i
      then (Ok (), rec\<lparr>sr_attrs := update_first (\<lambda>a. at_valid a \<and> at_id a = i) (store_attr i data) (sr_attrs rec)\<rparr>)
      else if \<exists>a \<in> set (sr_attrs rec). \<not> at_valid a
      then (Ok (), rec\<lparr>sr_attrs := update_first (\<lambda>a. \<not> at_valid a) (store_attr i data) (sr_attrs rec)\<rparr>)
      else (Err ResourceExhausted, rec))"

text \<open>The fields of an attribute are public: a length past the end of its data is a panic.\<close>

definition attr_bytes :: "SdpAttr \<Rightarrow> u8 list kresult" where
  "attr_bytes a =
     (if unat (at_data_len a) > length (at_data a) then Panic
      else Ok (take (unat (at_data_len a)) (at_data a)))"

definition get_attr :: "u16 \<Rightarrow> ServiceRecord \<Rightarrow> u8 list option kresult" where
  "get_attr i rec =
     (case find (\<lambda>a. at_valid a \<and> at_id a = i) (sr_attrs rec) of
        None \<Rightarrow> Ok None
      | Some a \<Rightarrow> (case attr_bytes a of Ok bytes \<Rightarrow> Ok (Some bytes) | Err e \<Rightarrow> Err e | Panic \<Rightarrow> Panic))"

section \<open>The table\<close>

record SdpDb =
  sd_records :: "ServiceRecord list"
  sd_next_handle :: u32

definition sdp_db_new :: SdpDb where
  "sdp_db_new = \<lparr>sd_records = replicate MAX_SERVICE_RECORDS record_empty, sd_next_handle = 0x00010001\<rparr>"

definition sdp_register_service :: "ServiceRecord \<Rightarrow> SdpDb \<Rightarrow> u32 kresult \<times> SdpDb" where
  "sdp_register_service rec db =
     (let handle = sd_next_handle db; db1 = db\<lparr>sd_next_handle := sd_next_handle db + 1\<rparr>
      in if \<exists>r \<in> set (sd_records db). \<not> sr_valid r
         then (Ok handle, db1\<lparr>sd_records := update_first (\<lambda>r. \<not> sr_valid r)
                 (\<lambda>_. rec\<lparr>sr_handle := handle, sr_valid := True\<rparr>) (sd_records db)\<rparr>)
         else (Err ResourceExhausted, db1))"

definition sdp_unregister_service :: "u32 \<Rightarrow> SdpDb \<Rightarrow> SdpDb" where
  "sdp_unregister_service handle db =
     db\<lparr>sd_records := update_first (\<lambda>r. sr_valid r \<and> sr_handle r = handle) (\<lambda>r. r\<lparr>sr_valid := False\<rparr>) (sd_records db)\<rparr>"

definition spp_class :: "u8 list" where
  "spp_class = [DE_SEQ OR SIZE_U8, 3, DE_UUID OR SIZE_2, ucast (drop_bit 8 UUID_SPP), ucast UUID_SPP]"

definition spp_proto :: "u8 \<Rightarrow> u8 list" where
  "spp_proto rfcomm_channel =
     [DE_SEQ OR SIZE_U8, 13,
      DE_SEQ OR SIZE_U8, 3, DE_UUID OR SIZE_2, 0x01, 0x00,
      DE_SEQ OR SIZE_U8, 5, DE_UUID OR SIZE_2, 0x00, 0x03, DE_UINT OR SIZE_1, rfcomm_channel]"

definition sdp_build_spp_record :: "u8 \<Rightarrow> ServiceRecord" where
  "sdp_build_spp_record rfcomm_channel =
     snd (add_attr ATTR_PROTOCOL_LIST (spp_proto rfcomm_channel) (snd (add_attr ATTR_CLASS_ID_LIST spp_class record_empty)))"

definition sdp_init :: "nat \<Rightarrow> L2capState \<Rightarrow> unit kresult \<times> L2capState" where
  "sdp_init recv l2 = l2cap_register_psm SDP_PSM recv l2"

section \<open>Requests\<close>

type_synonym sent = "(u16 \<times> u8 list) list"

definition send_error_rsp :: "u16 \<Rightarrow> u16 \<Rightarrow> u16 \<Rightarrow> sent" where
  "send_error_rsp scid tid error_code = [(scid, [PDU_ERROR_RSP] @ to_be 2 (unat tid) @ to_be 2 2 @ to_be 2 (unat error_code))]"

definition send_attr_rsp :: "u16 \<Rightarrow> u16 \<Rightarrow> u8 \<Rightarrow> u8 list \<Rightarrow> sent" where
  "send_attr_rsp scid tid pdu attrs =
     (let plen = (2 + length attrs + 1) mod 65536;
          hdr = [pdu] @ to_be 2 (unat tid) @ to_be 2 plen @ to_be 2 (length attrs mod 65536)
      in [(scid, hdr @ take (min (length attrs) 1024) attrs @ [0])])"

text \<open>The attributes written to the \<open>space\<close> bytes that are left, up to the first that does not fit.\<close>

fun serialize_from :: "SdpAttr list \<Rightarrow> usize \<Rightarrow> u8 list kresult" where
  "serialize_from [] space = Ok []"
| "serialize_from (a # as) space =
     (if 3 + unat (at_data_len a) > space then Ok []
      else case (attr_bytes a, serialize_from as (space - (3 + unat (at_data_len a)))) of
        (Ok bytes, Ok rest) \<Rightarrow>
          Ok ([DE_UINT OR SIZE_2, ucast (drop_bit 8 (at_id a)), ucast (at_id a)] @ bytes @ rest)
      | _ \<Rightarrow> Panic)"

definition serialize_attrs :: "ServiceRecord \<Rightarrow> usize \<Rightarrow> u8 list kresult" where
  "serialize_attrs rec space = serialize_from (filter at_valid (sr_attrs rec)) space"

fun serialize_all :: "ServiceRecord list \<Rightarrow> usize \<Rightarrow> u8 list kresult" where
  "serialize_all [] space = Ok []"
| "serialize_all (rec # recs) space =
     (case serialize_attrs rec space of
        Ok body \<Rightarrow> (case serialize_all recs (space - length body) of Ok rest \<Rightarrow> Ok (body @ rest) | r \<Rightarrow> r)
      | r \<Rightarrow> r)"

definition handle_service_search :: "u16 \<Rightarrow> u16 \<Rightarrow> u8 list \<Rightarrow> SdpDb \<Rightarrow> sent kresult" where
  "handle_service_search scid tid params db =
     (let handles = map sr_handle (filter sr_valid (sd_records db)); n = length handles;
          buf_len = 7 + MAX_SERVICE_RECORDS * 4; plen = (2 + 2 + n * 4 + 1) mod 65536; cur_off = 7 + n * 4
      in if cur_off > buf_len then Panic
         else if cur_off + 1 > buf_len then Panic
         else Ok [(scid, [PDU_SEARCH_RSP] @ to_be 2 (unat tid) @ to_be 2 plen @ to_be 2 n @
                     concat (map (\<lambda>h. to_be 4 (unat h)) handles) @ [0])])"

definition handle_service_attr :: "u16 \<Rightarrow> u16 \<Rightarrow> u8 list \<Rightarrow> SdpDb \<Rightarrow> sent kresult" where
  "handle_service_attr scid tid params db =
     (if length params < 4 then Ok []
      else let handle = be32 params 0
      in case find (\<lambda>r. sr_valid r \<and> sr_handle r = handle) (sd_records db) of
           None \<Rightarrow> Ok (send_error_rsp scid tid 0x0002)
         | Some rec \<Rightarrow> (case serialize_attrs rec 512 of
               Ok body \<Rightarrow> Ok (send_attr_rsp scid tid PDU_ATTR_RSP body) | _ \<Rightarrow> Panic))"

definition handle_service_search_attr :: "u16 \<Rightarrow> u16 \<Rightarrow> u8 list \<Rightarrow> SdpDb \<Rightarrow> sent kresult" where
  "handle_service_search_attr scid tid params db =
     (case serialize_all (filter sr_valid (sd_records db)) 1024 of
        Ok body \<Rightarrow> Ok (send_attr_rsp scid tid PDU_SEARCH_ATTR_RSP body)
      | _ \<Rightarrow> Panic)"

definition be16 :: "u8 list \<Rightarrow> usize \<Rightarrow> u16" where
  "be16 p i = of_nat (be_nat (slice p i 2))"

definition sdp_recv_pdu :: "u16 \<Rightarrow> u8 list \<Rightarrow> SdpDb \<Rightarrow> sent kresult" where
  "sdp_recv_pdu scid data db =
     (if length data < 5 then Ok []
      else let pdu = data ! 0; tid = be16 data 1; params = drop 5 data
      in if pdu = PDU_SEARCH_REQ then handle_service_search scid tid params db
         else if pdu = PDU_ATTR_REQ then handle_service_attr scid tid params db
         else if pdu = PDU_SEARCH_ATTR_REQ then handle_service_search_attr scid tid params db
         else Ok (send_error_rsp scid tid 0x0003))"

definition sdp_l2cap_recv :: "u16 \<Rightarrow> u16 \<Rightarrow> u8 list \<Rightarrow> SdpDb \<Rightarrow> sent kresult" where
  "sdp_l2cap_recv hcon scid data db = sdp_recv_pdu scid data db"

section \<open>Attributes\<close>

definition record_wf :: "ServiceRecord \<Rightarrow> bool" where
  "record_wf rec \<longleftrightarrow> length (sr_attrs rec) = MAX_ATTRS \<and>
     (\<forall>a \<in> set (sr_attrs rec). length (at_data a) = MAX_ATTR_DATA \<and> unat (at_data_len a) \<le> MAX_ATTR_DATA)"

lemma record_empty_wf: "record_wf record_empty"
  by (simp add: record_wf_def record_empty_def attr_empty_def)

lemma store_attr_simps [simp]:
  "at_id (store_attr i data a) = i" "at_valid (store_attr i data a)"
  by (simp_all add: store_attr_def Let_def)

lemma store_attr_bytes: "attr_bytes (store_attr i data a) = Ok (take MAX_ATTR_DATA data)"
proof -
  have "unat (of_nat (min (length data) MAX_ATTR_DATA) :: u8) = min (length data) MAX_ATTR_DATA"
    by (simp add: MAX_ATTR_DATA_def unsigned_of_nat take_bit_nat_eq_self)
  then show ?thesis by (simp add: attr_bytes_def store_attr_def Let_def take_all_iff min_def)
qed

lemma store_attr_wf:
  "length (at_data a) = MAX_ATTR_DATA \<Longrightarrow>
     length (at_data (store_attr i data a)) = MAX_ATTR_DATA \<and> unat (at_data_len (store_attr i data a)) \<le> MAX_ATTR_DATA"
  by (simp add: store_attr_def Let_def MAX_ATTR_DATA_def unsigned_of_nat take_bit_nat_eq_self)

lemma update_first_cases: "x \<in> set (update_first P f xs) \<Longrightarrow> x \<in> set xs \<or> (\<exists>y \<in> set xs. x = f y)"
  by (induction xs) (auto split: if_splits)

lemma add_attr_wf:
  assumes "record_wf rec"
  shows "record_wf (snd (add_attr i data rec))"
proof -
  have "record_wf (rec\<lparr>sr_attrs := update_first P (store_attr i data) (sr_attrs rec)\<rparr>)" for P
    using assms store_attr_wf by (fastforce simp: record_wf_def dest: update_first_cases)
  with assms show ?thesis by (simp add: add_attr_def)
qed

lemma find_other: "(\<And>x. P x \<Longrightarrow> \<not> Q x \<and> \<not> Q (f x)) \<Longrightarrow> find Q (update_first P f xs) = find Q xs"
  by (induction xs) auto

lemma find_stored: "\<exists>x \<in> set xs. P x \<Longrightarrow> (\<And>x. P x \<Longrightarrow> Q (f x)) \<Longrightarrow> (\<And>x. Q x \<Longrightarrow> x \<in> set xs \<Longrightarrow> P x) \<Longrightarrow>
  \<exists>x. find Q (update_first P f xs) = Some (f x)"
  by (induction xs) auto

text \<open>What is stored is read back, up to its first 64 bytes, and nothing else changes.\<close>

lemma add_get_attr:
  assumes "fst (add_attr i data rec) = Ok ()"
  shows "get_attr j (snd (add_attr i data rec)) = (if j = i then Ok (Some (take MAX_ATTR_DATA data)) else get_attr j rec)"
proof -
  let ?Q = "\<lambda>j a. at_valid a \<and> at_id a = j"
  show ?thesis
  proof (cases "\<exists>a \<in> set (sr_attrs rec). ?Q i a")
    case True
    obtain a where "find (?Q i) (update_first (?Q i) (store_attr i data) (sr_attrs rec)) = Some (store_attr i data a)"
      using find_stored [OF True, of "?Q i" "store_attr i data"] by auto
    moreover have "find (?Q j) (update_first (?Q i) (store_attr i data) (sr_attrs rec)) = find (?Q j) (sr_attrs rec)" if "j \<noteq> i"
      using that by (intro find_other) auto
    ultimately show ?thesis using True by (simp add: add_attr_def get_attr_def store_attr_bytes)
  next
    case False
    then have room: "\<exists>a \<in> set (sr_attrs rec). \<not> at_valid a" using assms by (auto simp: add_attr_def split: if_splits)
    obtain a where "find (?Q i) (update_first (\<lambda>a. \<not> at_valid a) (store_attr i data) (sr_attrs rec)) = Some (store_attr i data a)"
      using find_stored [OF room, of "?Q i" "store_attr i data"] False by auto
    moreover have "find (?Q j) (update_first (\<lambda>a. \<not> at_valid a) (store_attr i data) (sr_attrs rec)) = find (?Q j) (sr_attrs rec)" if "j \<noteq> i"
      using that by (intro find_other) auto
    moreover have "\<not> (\<exists>a \<in> set (sr_attrs rec). at_valid a \<and> at_id a = i)" using False by blast
    ultimately show ?thesis using room by (simp only: add_attr_def if_False if_True get_attr_def) (simp add: store_attr_bytes)
  qed
qed

section \<open>Responses\<close>

text \<open>A record built with \<open>add_attr\<close> only is never cut short of its own data.\<close>

lemma serialize_from_total:
  "\<forall>a \<in> set as. length (at_data a) = MAX_ATTR_DATA \<and> unat (at_data_len a) \<le> MAX_ATTR_DATA \<Longrightarrow>
     \<exists>body. serialize_from as space = Ok body \<and> length body \<le> space"
proof (induction as arbitrary: space)
  case (Cons a as)
  show ?case
  proof (cases "3 + unat (at_data_len a) > space")
    case False
    obtain rest where "serialize_from as (space - (3 + unat (at_data_len a))) = Ok rest"
      "length rest \<le> space - (3 + unat (at_data_len a))"
      using Cons by (meson list.set_intros(2))
    with False Cons.prems show ?thesis by (auto simp: attr_bytes_def)
  qed simp
qed simp

lemma serialize_all_total:
  "\<forall>rec \<in> set recs. record_wf rec \<Longrightarrow> \<exists>body. serialize_all recs space = Ok body \<and> length body \<le> space"
proof (induction recs arbitrary: space)
  case (Cons rec recs)
  obtain body where body: "serialize_attrs rec space = Ok body" "length body \<le> space"
    using serialize_from_total [of "filter at_valid (sr_attrs rec)" space] Cons.prems
    by (auto simp: serialize_attrs_def record_wf_def)
  obtain rest where "serialize_all recs (space - length body) = Ok rest" "length rest \<le> space - length body"
    using Cons by (meson list.set_intros(2))
  with body show ?case by auto
qed simp

text \<open>
  Over records built with \<open>add_attr\<close> a peer's bytes make the component panic in one case only: a
  search request while the table is full. The answer then ends one byte past the buffer.
\<close>

lemma sdp_panics_iff:
  assumes "\<forall>rec \<in> set (sd_records db). record_wf rec" "length (sd_records db) = MAX_SERVICE_RECORDS"
  shows "sdp_recv_pdu scid data db = Panic \<longleftrightarrow>
    5 \<le> length data \<and> data ! 0 = PDU_SEARCH_REQ \<and> (\<forall>rec \<in> set (sd_records db). sr_valid rec)"
proof -
  let ?n = "length (filter sr_valid (sd_records db))"
  have n: "?n \<le> 16" "?n = 16 \<longleftrightarrow> (\<forall>rec \<in> set (sd_records db). sr_valid rec)"
    using length_filter_le [of sr_valid "sd_records db"] length_filter_less [of _ "sd_records db" sr_valid] assms(2)
    by (auto simp: MAX_SERVICE_RECORDS_def) (metis filter_True)
  have search: "handle_service_search scid tid params db = Panic \<longleftrightarrow> ?n = 16" for tid params
    using n(1) by (auto simp: handle_service_search_def Let_def MAX_SERVICE_RECORDS_def)
  have attr: "handle_service_attr scid tid params db \<noteq> Panic" for tid params
  proof (cases "find (\<lambda>r. sr_valid r \<and> sr_handle r = be32 params 0) (sd_records db)")
    case (Some rec)
    then have "record_wf rec" using assms(1) by (metis find_Some_iff nth_mem)
    then obtain body where "serialize_attrs rec 512 = Ok body"
      using serialize_from_total [of "filter at_valid (sr_attrs rec)" 512]
      by (auto simp: serialize_attrs_def record_wf_def)
    with Some show ?thesis by (simp add: handle_service_attr_def Let_def)
  qed (simp add: handle_service_attr_def Let_def)
  have all: "handle_service_search_attr scid tid params db \<noteq> Panic" for tid params
    using serialize_all_total [of "filter sr_valid (sd_records db)" 1024] assms(1)
    by (auto simp: handle_service_search_attr_def)
  show ?thesis
    using search attr all n(2) by (auto simp: sdp_recv_pdu_def Let_def pdu_ids)
qed

text \<open>
  With fewer records the answer to a search has one handle for each, but its parameter length
  counts two bytes, those of the current count, that are not there.
\<close>

lemma sdp_search_response:
  assumes "length (filter sr_valid (sd_records db)) = n" "n < 16"
  shows "\<exists>params. handle_service_search scid tid ps db =
      Ok [(scid, [PDU_SEARCH_RSP] @ to_be 2 (unat tid) @ to_be 2 (length params + 2) @ params)] \<and>
    params = to_be 2 n @ concat (map (\<lambda>rec. to_be 4 (unat (sr_handle rec))) (filter sr_valid (sd_records db))) @ [0]"
proof -
  have l: "length (concat (map (\<lambda>rec. to_be 4 (unat (sr_handle rec))) xs)) = length xs * 4" for xs
    by (induction xs) simp_all
  let ?params = "to_be 2 n @ concat (map (\<lambda>rec. to_be 4 (unat (sr_handle rec))) (filter sr_valid (sd_records db))) @ [0]"
  have plen: "(2 + 2 + n * 4 + 1) mod 65536 = length ?params + 2" using assms by (simp add: l)
  have "handle_service_search scid tid ps db =
      Ok [(scid, [PDU_SEARCH_RSP] @ to_be 2 (unat tid) @ to_be 2 (length ?params + 2) @ ?params)]"
    unfolding handle_service_search_def Let_def length_map assms(1) plen
    using assms(2) by (simp add: MAX_SERVICE_RECORDS_def comp_def)
  then show ?thesis by blast
qed

text \<open>The list of protocols of a serial port says thirteen bytes and has twelve.\<close>

lemma spp_record:
  "get_attr ATTR_PROTOCOL_LIST (sdp_build_spp_record ch) = Ok (Some (spp_proto ch))" "spp_proto ch ! 1 = 13"
  "length (spp_proto ch) = 2 + 12"
proof -
  let ?rec = "snd (add_attr ATTR_CLASS_ID_LIST spp_class record_empty)"
  have "replicate MAX_ATTRS attr_empty = attr_empty # attr_empty # replicate 14 attr_empty"
    by (simp add: MAX_ATTRS_def numeral_eq_Suc)
  moreover have "\<not> at_valid attr_empty" by (simp add: attr_empty_def)
  ultimately have "attr_empty \<in> set (sr_attrs ?rec)"
    by (simp add: add_attr_def record_empty_def)
  with \<open>\<not> at_valid attr_empty\<close> have "\<exists>a \<in> set (sr_attrs ?rec). \<not> at_valid a" by blast
  then have room: "fst (add_attr ATTR_PROTOCOL_LIST (spp_proto ch) ?rec) = Ok ()" by (simp add: add_attr_def)
  have "take MAX_ATTR_DATA (spp_proto ch) = spp_proto ch" by (simp add: spp_proto_def MAX_ATTR_DATA_def)
  then show "get_attr ATTR_PROTOCOL_LIST (sdp_build_spp_record ch) = Ok (Some (spp_proto ch))"
    unfolding sdp_build_spp_record_def add_get_attr [OF room] by (simp only: if_True refl)
qed (simp_all add: spp_proto_def)

end
