(* ===== verification/Wpa.thy ===== *)
theory Wpa
  imports KError Bytes Interfaces
begin

text \<open>
  Authentication of wireless stations, \<open>kernel/src/net/mac80211/auth.rs\<close>: the supplicant's side of the
  four-way handshake with its key derivation and integrity code, the frames of open authentication, the
  pool of association identifiers, the table of pending stations and the parser of the RSN element.
\<close>

section \<open>Contexts and frames\<close>

definition PMK_LEN :: usize where "PMK_LEN = 32"
definition PTK_LEN :: usize where "PTK_LEN = 64"
definition GTK_MAX_LEN :: usize where "GTK_MAX_LEN = 32"
definition NONCE_LEN :: usize where "NONCE_LEN = 32"
definition MIC_LEN :: usize where "MIC_LEN = 16"
definition AUTH_ALG_OPEN :: u16 where "AUTH_ALG_OPEN = 0"
definition STATUS_SUCCESS :: u16 where "STATUS_SUCCESS = 0"
definition MAX_AID :: usize where "MAX_AID = 2008"

datatype AuthState = AuthIdle | Authenticating | Authenticated | Associating | Associated | Handshaking
  | Connected | Disconnecting

record AuthCtx =
  ac_state :: AuthState
  ac_algorithm :: u16
  ac_tries :: u8
  ac_anonce :: "u8 list"
  ac_snonce :: "u8 list"
  ac_ptk :: "u8 list"
  ac_gtk :: "u8 list"
  ac_gtk_len :: u8
  ac_replay_counter :: u64
  ac_key_flags :: u32

definition auth_ctx_new :: AuthCtx where
  "auth_ctx_new = \<lparr>ac_state = AuthIdle, ac_algorithm = AUTH_ALG_OPEN, ac_tries = 0, ac_anonce = replicate NONCE_LEN 0,
     ac_snonce = replicate NONCE_LEN 0, ac_ptk = replicate PTK_LEN 0, ac_gtk = replicate GTK_MAX_LEN 0,
     ac_gtk_len = 0, ac_replay_counter = 0, ac_key_flags = 0\<rparr>"

record EapolKeyHdr =
  ek_version :: u8
  ek_packet_type :: u8
  ek_body_len :: "u8 list"
  ek_descriptor_type :: u8
  ek_key_info :: "u8 list"
  ek_key_length :: "u8 list"
  ek_replay_counter :: "u8 list"
  ek_key_nonce :: "u8 list"
  ek_key_iv :: "u8 list"
  ek_key_rsc :: "u8 list"
  ek_reserved :: "u8 list"
  ek_key_mic :: "u8 list"
  ek_key_data_len :: "u8 list"

definition KEY_TYPE :: u16 where "KEY_TYPE = 2 ^ 3"
definition KEY_ACK :: u16 where "KEY_ACK = 2 ^ 7"
definition KEY_MIC :: u16 where "KEY_MIC = 2 ^ 8"
definition KEY_INSTALL :: u16 where "KEY_INSTALL = 2 ^ 6"

lemmas key_info_bits = KEY_TYPE_def KEY_ACK_def KEY_MIC_def KEY_INSTALL_def

definition key_info_u16 :: "EapolKeyHdr \<Rightarrow> u16" where
  "key_info_u16 h = of_nat (be_nat (ek_key_info h))"

definition replay_counter_u64 :: "EapolKeyHdr \<Rightarrow> u64" where
  "replay_counter_u64 h = of_nat (be_nat (ek_replay_counter h))"

definition key_data_len_u16 :: "EapolKeyHdr \<Rightarrow> u16" where
  "key_data_len_u16 h = of_nat (be_nat (ek_key_data_len h))"

section \<open>Keys\<close>

text \<open>The order of byte arrays is lexicographic.\<close>

fun bytes_le :: "u8 list \<Rightarrow> u8 list \<Rightarrow> bool" where
  "bytes_le [] ys = True"
| "bytes_le (x # xs) [] = False"
| "bytes_le (x # xs) (y # ys) = (x < y \<or> (x = y \<and> bytes_le xs ys))"

definition ptk_label :: "u8 list" where
  "ptk_label = map of_char ''Pairwise key expansion''"

definition derive_ptk :: "u8 list \<Rightarrow> u8 list \<Rightarrow> u8 list \<Rightarrow> u8 list \<Rightarrow> u8 list \<Rightarrow> u8 list" where
  "derive_ptk pmk anonce snonce ap_mac sta_mac =
     (let (m0, m1) = (if bytes_le ap_mac sta_mac then (ap_mac, sta_mac) else (sta_mac, ap_mac));
          (n0, n1) = (if bytes_le anonce snonce then (anonce, snonce) else (snonce, anonce))
      in map (\<lambda>i.
           let li = ptk_label ! (i mod length ptk_label);
               mi = (if i < 6 then m0 ! i else m1 ! ((i - 6) mod 6));
               ni = (if i < NONCE_LEN then n0 ! i else n1 ! (i - NONCE_LEN));
               ki = pmk ! (i mod PMK_LEN)
           in ki XOR li XOR mi XOR ni) [0 ..< PTK_LEN])"

fun mic_fold :: "u8 list \<Rightarrow> nat \<Rightarrow> u8 list \<Rightarrow> u8 list \<Rightarrow> u8 list kresult" where
  "mic_fold kck i [] expected = Ok expected"
| "mic_fold kck i (b # frame) expected =
     (let k = i mod max (length kck) 1
      in if k < length kck
         then mic_fold kck (Suc i) frame
                (expected[i mod MIC_LEN := expected ! (i mod MIC_LEN) XOR (b XOR kck ! k)])
         else Panic)"

definition verify_eapol_mic :: "u8 list \<Rightarrow> u8 list \<Rightarrow> u8 list \<Rightarrow> bool kresult" where
  "verify_eapol_mic kck frame mic =
     (case mic_fold kck 0 frame (replicate MIC_LEN 0) of
        Ok expected \<Rightarrow> Ok (expected = mic)
      | Err e \<Rightarrow> Err e
      | Panic \<Rightarrow> Panic)"

section \<open>The handshake\<close>

datatype HandshakeResult = SendMsg2 | SendMsg4KeysInstalled | GroupKeyInstalled | HsDrop | HsError KernelError

definition snonce_of :: "u64 \<Rightarrow> u8 list \<Rightarrow> u8 list" where
  "snonce_of replay sta_mac = map (\<lambda>i. ucast replay + of_nat i + sta_mac ! (i mod 6)) [0 ..< NONCE_LEN]"

definition process_eapol_key ::
  "AuthCtx \<Rightarrow> EapolKeyHdr \<Rightarrow> u8 list \<Rightarrow> u8 list \<Rightarrow> u8 list \<Rightarrow> u8 list \<Rightarrow> HandshakeResult \<times> AuthCtx" where
  "process_eapol_key ctx hdr data pmk ap_mac sta_mac =
     (let info = key_info_u16 hdr;
          replay = replay_counter_u64 hdr;
          is_pairwise = (info AND KEY_TYPE \<noteq> 0);
          has_ack = (info AND KEY_ACK \<noteq> 0);
          has_mic = (info AND KEY_MIC \<noteq> 0);
          install_key = (info AND KEY_INSTALL \<noteq> 0)
      in if is_pairwise \<and> has_ack \<and> \<not> has_mic then
           (if ac_replay_counter ctx \<noteq> 0 \<and> replay \<le> ac_replay_counter ctx then (HsDrop, ctx)
            else let snonce = snonce_of replay sta_mac
                 in (SendMsg2, ctx\<lparr>ac_replay_counter := replay, ac_anonce := ek_key_nonce hdr,
                       ac_state := Handshaking, ac_snonce := snonce,
                       ac_ptk := derive_ptk pmk (ek_key_nonce hdr) snonce ap_mac sta_mac\<rparr>))
         else if is_pairwise \<and> has_ack \<and> has_mic \<and> install_key then
           (if replay \<le> ac_replay_counter ctx then (HsDrop, ctx)
            else (SendMsg4KeysInstalled, ctx\<lparr>ac_replay_counter := replay, ac_state := Connected\<rparr>))
         else if \<not> is_pairwise \<and> has_ack \<and> has_mic then
           (GroupKeyInstalled, ctx\<lparr>ac_state := Connected\<rparr>)
         else (HsDrop, ctx))"

section \<open>Frames of open authentication\<close>

record AuthFrame =
  af_algorithm :: u16
  af_seq :: u16
  af_status_code :: u16

record AssocRespFrame =
  ar_capability :: u16
  ar_status_code :: u16
  ar_aid :: u16

definition parse_auth_resp :: "u8 list \<Rightarrow> AuthFrame kresult" where
  "parse_auth_resp data =
     (if length data < 6 then Err (InvalidParameter ''auth frame too short'')
      else let frame = \<lparr>af_algorithm = le16 data 0, af_seq = le16 data 2, af_status_code = le16 data 4\<rparr>
      in if af_status_code frame \<noteq> STATUS_SUCCESS then Err (Device DevNotInitialized) else Ok frame)"

definition build_auth_req :: "u16 \<Rightarrow> u16 \<Rightarrow> u8 list" where
  "build_auth_req algorithm seq = to_le 2 (unat algorithm) @ to_le 2 (unat seq) @ to_le 2 (unat STATUS_SUCCESS)"

definition parse_assoc_resp :: "u8 list \<Rightarrow> AssocRespFrame kresult" where
  "parse_assoc_resp data =
     (if length data < 6 then Err (InvalidParameter ''assoc resp too short'')
      else let frame = \<lparr>ar_capability = le16 data 0, ar_status_code = le16 data 2,
                        ar_aid = le16 data 4 AND 0x3FFF\<rparr>
      in if ar_status_code frame \<noteq> STATUS_SUCCESS then Err (Device DevNotInitialized) else Ok frame)"

section \<open>Association identifiers\<close>

definition aid_new :: "u64 list" where
  "aid_new = replicate 32 0"

function aid_alloc_from :: "nat \<Rightarrow> u64 list \<Rightarrow> u16 option \<times> u64 list" where
  "aid_alloc_from word_idx bm =
     (if word_idx < 32 then
        let word = bm ! word_idx
        in if word \<noteq> - 1 then
             let bit = trailing_ones word; aid = word_idx * 64 + bit
             in if 0 < aid \<and> aid < MAX_AID
                then (Some (of_nat aid), bm[word_idx := word OR push_bit bit 1])
                else aid_alloc_from (Suc word_idx) bm
           else aid_alloc_from (Suc word_idx) bm
      else (None, bm))"
  by pat_completeness auto
termination
  by (relation "measure (\<lambda>(i, _). 32 - i)") auto

declare aid_alloc_from.simps [simp del]

definition aid_alloc :: "u64 list \<Rightarrow> u16 option \<times> u64 list" where
  "aid_alloc bm = aid_alloc_from 0 bm"

definition aid_free :: "u16 \<Rightarrow> u64 list \<Rightarrow> u64 list" where
  "aid_free a bm =
     (let aid = unat a
      in if 0 < aid \<and> aid < MAX_AID
         then bm[aid div 64 := bm ! (aid div 64) AND NOT (push_bit (aid mod 64) 1)]
         else bm)"

section \<open>Pending stations\<close>

definition MAX_AUTH_PENDING :: usize where "MAX_AUTH_PENDING = 16"

record AuthManager =
  am_pending :: "(u8 list \<times> AuthCtx) option list"
  am_count :: usize
  am_aid_alloc :: "u64 list"

definition auth_manager_new :: AuthManager where
  "auth_manager_new = \<lparr>am_pending = replicate MAX_AUTH_PENDING None, am_count = 0, am_aid_alloc = aid_new\<rparr>"

definition is_station :: "u8 list \<Rightarrow> (u8 list \<times> AuthCtx) option \<Rightarrow> bool" where
  "is_station addr slot = (case slot of Some (a, _) \<Rightarrow> a = addr | None \<Rightarrow> False)"

definition start_auth :: "u8 list \<Rightarrow> AuthManager \<Rightarrow> unit kresult \<times> AuthManager" where
  "start_auth addr m =
     (if am_count m \<ge> MAX_AUTH_PENDING then (Err ResourceExhausted, m)
      else if \<exists>slot \<in> set (am_pending m). slot = None then
        (Ok (), m\<lparr>am_pending := update_first (\<lambda>slot. slot = None) (\<lambda>_. Some (addr, auth_ctx_new)) (am_pending m),
                   am_count := uadd (am_count m) 1\<rparr>)
      else (Err ResourceExhausted, m))"

definition get_ctx :: "u8 list \<Rightarrow> AuthManager \<Rightarrow> AuthCtx option" where
  "get_ctx addr m = (case find (is_station addr) (am_pending m) of Some (Some (_, ctx)) \<Rightarrow> Some ctx | _ \<Rightarrow> None)"

text \<open>What a caller of \<open>get_ctx_mut\<close> does to the context it is lent.\<close>

definition with_ctx :: "(AuthCtx \<Rightarrow> AuthCtx) \<Rightarrow> (u8 list \<times> AuthCtx) option \<Rightarrow> (u8 list \<times> AuthCtx) option" where
  "with_ctx f = map_option (\<lambda>(a, ctx). (a, f ctx))"

definition get_ctx_mut :: "u8 list \<Rightarrow> (AuthCtx \<Rightarrow> AuthCtx) \<Rightarrow> AuthManager \<Rightarrow> AuthManager" where
  "get_ctx_mut addr f m = m\<lparr>am_pending := update_first (is_station addr) (with_ctx f) (am_pending m)\<rparr>"

definition finish_auth :: "u8 list \<Rightarrow> AuthManager \<Rightarrow> u16 kresult \<times> AuthManager" where
  "finish_auth addr m =
     (if \<exists>slot \<in> set (am_pending m). is_station addr slot then
        let m1 = get_ctx_mut addr (\<lambda>ctx. ctx\<lparr>ac_state := Associated\<rparr>) m
        in case aid_alloc (am_aid_alloc m1) of
             (Some aid, bm) \<Rightarrow> (Ok aid, m1\<lparr>am_aid_alloc := bm\<rparr>)
           | (None, bm) \<Rightarrow> (Err ResourceExhausted, m1\<lparr>am_aid_alloc := bm\<rparr>)
      else (Err NotFound, m))"

definition auth_remove :: "u8 list \<Rightarrow> u16 \<Rightarrow> AuthManager \<Rightarrow> AuthManager" where
  "auth_remove addr aid m =
     (if \<exists>slot \<in> set (am_pending m). is_station addr slot then
        m\<lparr>am_pending := update_first (is_station addr) (\<lambda>_. None) (am_pending m),
           am_count := usub (am_count m) 1, am_aid_alloc := aid_free aid (am_aid_alloc m)\<rparr>
      else m)"

section \<open>The RSN element\<close>

definition CCMP_128 :: u32 where "CCMP_128 = 0x000FAC04"
definition AKM_PSK :: u32 where "AKM_PSK = 0x000FAC02"

record RsnCapabilities =
  rsn_group_cipher :: u32
  rsn_pairwise_cipher :: u32
  rsn_akm :: u32
  rsn_mfp_required :: bool
  rsn_mfp_capable :: bool

definition rsn_parse :: "u8 list \<Rightarrow> RsnCapabilities option kresult" where
  "rsn_parse ie =
     (if length ie < 4 then Ok None
      else if le16 ie 0 \<noteq> 1 then Ok None
      else if length ie < 8 then Ok None
      else let group = be32 ie 2
      in if length ie < 10 then Ok None
      else let pw_count = unat (le16 ie 6)
      in if length ie < 8 + pw_count * 4 then Ok None
      else if length ie \<le> 11 then Panic
      else let pairwise = be32 ie 8; off = 8 + pw_count * 4
      in if length ie < off + 2 then Ok None
      else let akm_count = unat (le16 ie off)
      in if length ie < off + 2 + akm_count * 4 then Ok None
      else if length ie \<le> off + 5 then Panic
      else let akm = be32 ie (off + 2);
               cap_off = off + 2 + akm_count * 4;
               rsn_cap = (if length ie \<ge> cap_off + 2 then le16 ie cap_off else 0)
      in Ok (Some \<lparr>rsn_group_cipher = group, rsn_pairwise_cipher = pairwise, rsn_akm = akm,
                   rsn_mfp_required = (rsn_cap AND 2 ^ 6 \<noteq> 0), rsn_mfp_capable = (rsn_cap AND 2 ^ 7 \<noteq> 0)\<rparr>))"

definition is_wpa2_psk_ccmp :: "RsnCapabilities \<Rightarrow> bool" where
  "is_wpa2_psk_ccmp r \<longleftrightarrow> rsn_pairwise_cipher r = CCMP_128 \<and> rsn_akm r = AKM_PSK"

section \<open>The pool of identifiers\<close>

definition aid_used :: "u64 list \<Rightarrow> nat \<Rightarrow> bool" where
  "aid_used bm a = bit (bm ! (a div 64)) (a mod 64)"

definition first_aid :: "nat \<Rightarrow> u64 list \<Rightarrow> nat" where
  "first_aid i bm = find_from (\<lambda>a. \<not> aid_used bm a) i MAX_AID"

definition take_aid :: "nat \<Rightarrow> u64 list \<Rightarrow> u64 list" where
  "take_aid a bm = bm[a div 64 := bm ! (a div 64) OR push_bit (a mod 64) 1]"

lemma aid_alloc_from_first:
  "1 \<le> i \<Longrightarrow> aid_alloc_from i bm =
     (let a = first_aid (i * 64) bm in if a < MAX_AID then (Some (of_nat a), take_aid a bm) else (None, bm))"
proof (induction i bm rule: aid_alloc_from.induct)
  case (1 i bm)
  show ?case
  proof (cases "i < 32")
    case True
    show ?thesis
    proof (cases "bm ! i = - 1")
      case True
      have "first_aid (i * 64) bm = first_aid (Suc i * 64) bm"
        unfolding first_aid_def
      proof (rule find_from_skip)
        fix j assume "i * 64 \<le> j" "j < Suc i * 64"
        then have "j div 64 = i" by (intro div_nat_eqI) simp_all
        then show "\<not> \<not> aid_used bm j" by (simp add: aid_used_def True)
      qed simp
      with True \<open>i < 32\<close> 1 show ?thesis by (subst aid_alloc_from.simps) simp
    next
      case False
      let ?b = "trailing_ones (bm ! i)" and ?a = "i * 64 + trailing_ones (bm ! i)"
      have b: "?b < 64" using False trailing_ones_less_iff [of "bm ! i"] by simp
      have low: "aid_used bm j" if "i * 64 \<le> j" "j < ?a" for j
      proof -
        have "j div 64 = i" using that b by (intro div_nat_eqI) simp_all
        moreover have "j mod 64 = j - i * 64" using calculation by (simp add: modulo_nat_def)
        ultimately show ?thesis using that by (simp add: aid_used_def trailing_ones_least)
      qed
      have free: "\<not> aid_used bm ?a" using b trailing_ones_clear [of "bm ! i"] by (simp add: aid_used_def)
      have "first_aid (i * 64) bm = first_aid ?a bm"
        unfolding first_aid_def by (rule find_from_skip) (simp_all add: low)
      also have "first_aid ?a bm = (if ?a < MAX_AID then ?a else MAX_AID)"
        using free by (simp add: first_aid_def)
      finally have first: "first_aid (i * 64) bm = (if ?a < MAX_AID then ?a else MAX_AID)" .
      show ?thesis
      proof (cases "?a < MAX_AID")
        case True
        then show ?thesis using \<open>i < 32\<close> False first 1(3) b
          by (subst aid_alloc_from.simps) (simp add: Let_def take_aid_def)
      next
        case full: False
        then have "first_aid (Suc i * 64) bm = MAX_AID" using b by (simp add: first_aid_def)
        with full \<open>i < 32\<close> False first 1 show ?thesis
          by (subst aid_alloc_from.simps) (simp add: Let_def)
      qed
    qed
  next
    case False
    then show ?thesis by (subst aid_alloc_from.simps) (simp add: first_aid_def MAX_AID_def)
  qed
qed

definition aid_inv :: "u64 list \<Rightarrow> bool" where
  "aid_inv bm \<longleftrightarrow> length bm = 32 \<and> bm ! 0 = 0"

definition held_aids :: "u64 list \<Rightarrow> u16 set" where
  "held_aids bm = {a. unat a < MAX_AID \<and> aid_used bm (unat a)}"

lemma aid_used_update:
  "length bm = 32 \<Longrightarrow> a < MAX_AID \<Longrightarrow> aid_used (bm[a div 64 := w]) c =
     (if c div 64 = a div 64 then bit w (c mod 64) else aid_used bm c)"
  by (auto simp: aid_used_def MAX_AID_def)

lemma aid_bit: "c div 64 = a div 64 \<Longrightarrow> c mod 64 = a mod 64 \<longleftrightarrow> c = a" for a c :: nat
  by (metis mult_div_mod_eq)

lemma aid_used_take:
  "length bm = 32 \<Longrightarrow> a < MAX_AID \<Longrightarrow> aid_used (take_aid a bm) c \<longleftrightarrow> c = a \<or> aid_used bm c"
  by (auto simp: take_aid_def aid_used_update bit_or_mask aid_bit) (simp_all add: aid_used_def)

lemma aid_used_free:
  assumes "length bm = 32" "0 < unat a"
  shows "unat a < MAX_AID \<Longrightarrow> aid_used (aid_free a bm) c \<longleftrightarrow> c \<noteq> unat a \<and> aid_used bm c"
  using assms
  by (auto simp: aid_free_def Let_def aid_used_update bit_and_not_mask aid_bit) (simp_all add: aid_used_def)

lemma first_aid_ge: "i \<le> first_aid i bm \<or> MAX_AID < i"
  by (cases "i \<le> MAX_AID") (auto simp: first_aid_def intro: find_from_ge)

lemma aid_alloc_first:
  assumes "aid_inv bm"
  shows "aid_alloc bm = (let a = first_aid 64 bm in
           if a < MAX_AID then (Some (of_nat a), take_aid a bm) else (None, bm))"
proof -
  have "trailing_ones (0 :: u64) = 0" by (simp add: trailing_ones_def)
  then have "aid_alloc bm = aid_alloc_from 1 bm"
    using assms unfolding aid_alloc_def by (subst aid_alloc_from.simps) (simp add: aid_inv_def)
  also have "\<dots> = (let a = first_aid 64 bm in
           if a < MAX_AID then (Some (of_nat a), take_aid a bm) else (None, bm))"
    by (simp add: aid_alloc_from_first)
  finally show ?thesis .
qed

lemma aid_alloc_first_free:
  assumes "aid_inv bm" "aid_alloc bm = (Some a, bm1)"
  shows "a = of_nat (first_aid 64 bm)" "unat a = first_aid 64 bm" "64 \<le> unat a" "unat a < MAX_AID"
    "\<not> aid_used bm (unat a)" "bm1 = take_aid (unat a) bm"
proof -
  have lt: "first_aid 64 bm < MAX_AID" and a: "a = of_nat (first_aid 64 bm)" and b: "bm1 = take_aid (first_aid 64 bm) bm"
    using assms by (simp_all add: aid_alloc_first Let_def split: if_splits)
  show "a = of_nat (first_aid 64 bm)" by (rule a)
  show u: "unat a = first_aid 64 bm" using lt by (simp add: a MAX_AID_def unat_of_nat take_bit_nat_eq_self)
  show "64 \<le> unat a" using first_aid_ge [of 64 bm] by (simp add: u MAX_AID_def)
  show "unat a < MAX_AID" "bm1 = take_aid (unat a) bm" using lt b by (simp_all add: u)
  show "\<not> aid_used bm (unat a)" using lt unfolding u first_aid_def by (rule find_from_sat)
qed

interpretation aids: id_pool aid_alloc aid_free held_aids aid_inv
proof unfold_locales
  fix bm bm1 a assume i: "aid_inv bm" and r: "aid_alloc bm = (Some a, bm1)"
  note f = aid_alloc_first_free [OF i r]
  have "aid_inv bm1" using i f(3) by (simp add: f(6) aid_inv_def take_aid_def nth_list_update)
  moreover have "a \<notin> held_aids bm" using f(5) by (simp add: held_aids_def)
  moreover have "held_aids bm1 = insert a (held_aids bm)"
    using i f(4) by (auto simp: f(6) held_aids_def aid_used_take aid_inv_def simp flip: word_unat_eq_iff)
  ultimately show "aid_inv bm1 \<and> a \<notin> held_aids bm \<and> held_aids bm1 = insert a (held_aids bm)" by simp
next
  fix bm bm1 assume "aid_inv bm" "aid_alloc bm = (None, bm1)"
  then show "bm1 = bm" by (simp add: aid_alloc_first Let_def split: if_splits)
next
  fix bm a assume i: "aid_inv bm"
  have "aid_inv (aid_free a bm)" using i by (cases "unat a div 64 = 0") (auto simp: aid_inv_def aid_free_def Let_def)
  moreover have "held_aids (aid_free a bm) = held_aids bm - {a}"
  proof (cases "0 < unat a \<and> unat a < MAX_AID")
    case True
    then show ?thesis using i by (auto simp: held_aids_def aid_used_free aid_inv_def simp flip: word_unat_eq_iff)
  next
    case False
    then have "a \<notin> held_aids bm" using i by (auto simp: held_aids_def aid_used_def aid_inv_def)
    moreover have "aid_free a bm = bm" using False by (simp only: aid_free_def Let_def if_False)
    ultimately show ?thesis by simp
  qed
  ultimately show "aid_inv (aid_free a bm) \<and> held_aids (aid_free a bm) = held_aids bm - {a}" by simp
qed

datatype aid_call = AidAlloc | AidFree u16

fun aid_exec :: "aid_call \<Rightarrow> u64 list \<Rightarrow> u64 list" where
  "aid_exec AidAlloc bm = snd (aid_alloc bm)"
| "aid_exec (AidFree a) bm = aid_free a bm"

lemma aid_inv_new: "aid_inv aid_new"
  by (simp add: aid_inv_def aid_new_def)

lemma aid_exec_inv: "aid_inv bm \<Longrightarrow> aid_inv (aid_exec c bm)"
  by (cases c) (simp_all add: aids.alloc_inv aids.free_drops)

lemma aid_run_inv: "aid_inv bm \<Longrightarrow> aid_inv (foldl (\<lambda>b c. aid_exec c b) bm calls)"
  by (induction calls arbitrary: bm) (simp_all add: aid_exec_inv)

lemma aids_above_64: "aid_inv bm \<Longrightarrow> a \<in> held_aids bm \<Longrightarrow> 64 \<le> unat a \<and> unat a < MAX_AID"
  by (cases "unat a < 64") (auto simp: held_aids_def aid_used_def aid_inv_def)

text \<open>
  After any sequence of allocations and releases from an empty pool, an allocation hands out the
  lowest identifier from 64 to 2007 that is not held and marks it as held, and fails exactly
  when all of these are held. The identifiers 1 to 63 are never handed out: identifier zero is never marked, so
  the search finds it first in the first word of the bitmap and skips the word.
\<close>

theorem aid_allocation:
  fixes calls :: "aid_call list"
  defines "bm \<equiv> foldl (\<lambda>b c. aid_exec c b) aid_new calls"
  shows "unat ` held_aids bm \<subseteq> {64 ..< 2008} \<and>
    (case aid_alloc bm of
       (Some a, bm1) \<Rightarrow> 64 \<le> unat a \<and> unat a < 2008 \<and> a \<notin> held_aids bm \<and>
         {64 ..< unat a} \<subseteq> unat ` held_aids bm \<and> held_aids bm1 = insert a (held_aids bm)
     | (None, bm1) \<Rightarrow> bm1 = bm \<and> unat ` held_aids bm = {64 ..< 2008})"
proof -
  have i: "aid_inv bm" unfolding bm_def by (rule aid_run_inv [OF aid_inv_new])
  then have sub: "unat ` held_aids bm \<subseteq> {64 ..< 2008}" using aids_above_64 by (force simp: MAX_AID_def)
  have below: "b \<in> unat ` held_aids bm" if "64 \<le> b" "b < first_aid 64 bm" for b
  proof -
    have "b < MAX_AID" using that(2) find_from_le unfolding first_aid_def by (rule less_le_trans)
    moreover have "aid_used bm b" using find_from_before [of 64 b _ MAX_AID] that by (auto simp: first_aid_def)
    ultimately show ?thesis
      by (intro image_eqI [of _ _ "of_nat b"]) (simp_all add: held_aids_def MAX_AID_def unat_of_nat take_bit_nat_eq_self)
  qed
  show ?thesis
  proof (cases "aid_alloc bm")
    case (Pair r bm1)
    show ?thesis
    proof (cases r)
      case None
      then have "first_aid 64 bm = 2008" "bm1 = bm"
        using Pair i find_from_le [of "\<lambda>a. \<not> aid_used bm a" 64 MAX_AID]
        by (simp_all add: aid_alloc_first Let_def first_aid_def MAX_AID_def split: if_splits)
      with sub below Pair None show ?thesis by auto
    next
      case (Some a)
      with Pair have r: "aid_alloc bm = (Some a, bm1)" by simp
      note f = aid_alloc_first_free [OF i r]
      show ?thesis
        using sub below f(2-4) aids.alloc_fresh [OF i r] unfolding r by (auto simp: MAX_AID_def)
    qed
  qed
qed

section \<open>The pending stations\<close>

datatype auth_call = StartAuth "u8 list" | UseCtx "u8 list" "AuthCtx \<Rightarrow> AuthCtx" | FinishAuth "u8 list"
  | RemoveAuth "u8 list" u16

fun auth_exec :: "auth_call \<Rightarrow> AuthManager \<Rightarrow> AuthManager" where
  "auth_exec (StartAuth addr) m = snd (start_auth addr m)"
| "auth_exec (UseCtx addr f) m = get_ctx_mut addr f m"
| "auth_exec (FinishAuth addr) m = snd (finish_auth addr m)"
| "auth_exec (RemoveAuth addr aid) m = auth_remove addr aid m"

inductive auth_step :: "AuthManager \<Rightarrow> AuthManager \<Rightarrow> bool" where
  "auth_step m (auth_exec c m)"

definition occupied :: "AuthManager \<Rightarrow> nat" where
  "occupied m = length (filter (\<lambda>slot. \<not> Option.is_none slot) (am_pending m))"

definition am_inv :: "AuthManager \<Rightarrow> bool" where
  "am_inv m \<longleftrightarrow> length (am_pending m) = MAX_AUTH_PENDING \<and> am_count m = occupied m \<and> aid_inv (am_aid_alloc m)"

lemma occupied_le: "length (am_pending m) = MAX_AUTH_PENDING \<Longrightarrow> occupied m \<le> 16"
  using length_filter_le [of "\<lambda>slot. \<not> Option.is_none slot" "am_pending m"] by (simp add: occupied_def MAX_AUTH_PENDING_def)

lemma am_inv_room:
  assumes "am_inv m"
  shows "(\<exists>slot \<in> set (am_pending m). slot = None) \<longleftrightarrow> am_count m < MAX_AUTH_PENDING"
proof -
  have "filter Option.is_none (am_pending m) = [] \<longleftrightarrow> None \<notin> set (am_pending m)"
    by (simp only: filter_empty_conv Option.is_none_def) metis
  moreover have "occupied m + length (filter Option.is_none (am_pending m)) = length (am_pending m)"
    unfolding occupied_def using sum_length_filter_compl [of "\<lambda>slot. \<not> Option.is_none slot" "am_pending m"] by simp
  ultimately show ?thesis using assms by (cases "filter Option.is_none (am_pending m)") (simp_all add: am_inv_def)
qed


lemma find_station: "find (is_station addr) slots = Some slot \<Longrightarrow> \<exists>ctx. slot = Some (addr, ctx)"
  by (auto dest!: find_split simp: is_station_def split: option.splits)

lemma find_station_some:
  "\<exists>slot \<in> set slots. is_station addr slot \<Longrightarrow> \<exists>ctx. find (is_station addr) slots = Some (Some (addr, ctx))"
  using find_station [of addr slots] by (cases "find (is_station addr) slots") (auto simp: find_None_iff)

lemma occupied_update:
  assumes "find P (am_pending m) = Some slot"
  shows "occupied (m\<lparr>am_pending := update_first P f (am_pending m)\<rparr>) + of_bool (\<not> Option.is_none slot) =
    occupied m + of_bool (\<not> Option.is_none (f slot))"
  using length_filter_update_first [OF assms, of "\<lambda>slot. \<not> Option.is_none slot" f] by (simp add: occupied_def)

lemma occupied_cong: "am_pending m1 = am_pending m \<Longrightarrow> occupied m1 = occupied m"
  by (simp add: occupied_def)

lemma occupied_with_ctx: "occupied (get_ctx_mut addr f m) = occupied m"
proof (cases "\<exists>slot \<in> set (am_pending m). is_station addr slot")
  case True
  then obtain ctx where "find (is_station addr) (am_pending m) = Some (Some (addr, ctx))"
    using find_station_some by blast
  from occupied_update [OF this, of "with_ctx f"] show ?thesis by (simp add: get_ctx_mut_def with_ctx_def)
qed (simp add: get_ctx_mut_def)

lemma am_inv_with_ctx: "am_inv m \<Longrightarrow> am_inv (get_ctx_mut addr f m)"
  by (simp add: am_inv_def occupied_with_ctx) (simp add: get_ctx_mut_def)

lemma start_auth_inv:
  assumes "am_inv m"
  shows "am_inv (snd (start_auth addr m))"
proof (cases "am_count m < MAX_AUTH_PENDING")
  case True
  let ?p = "update_first (\<lambda>slot. slot = None) (\<lambda>_. Some (addr, auth_ctx_new)) (am_pending m)"
  have e: "\<exists>slot \<in> set (am_pending m). slot = None" using True am_inv_room [OF assms] by simp
  then have "find (\<lambda>slot. slot = None) (am_pending m) = Some None"
    by (cases "find (\<lambda>slot. slot = None) (am_pending m)") (auto simp: find_None_iff find_Some_iff)
  from occupied_update [OF this, of "\<lambda>_. Some (addr, auth_ctx_new)"]
  have "occupied (m\<lparr>am_pending := ?p\<rparr>) = Suc (am_count m)" using assms by (simp add: am_inv_def)
  then have "occupied (m\<lparr>am_pending := ?p, am_count := uadd (am_count m) 1\<rparr>) = uadd (am_count m) 1"
    using True by (simp add: occupied_def MAX_AUTH_PENDING_def)
  with True e assms show ?thesis by (simp add: start_auth_def am_inv_def)
qed (simp add: start_auth_def assms)

lemma auth_remove_inv:
  assumes "am_inv m"
  shows "am_inv (auth_remove addr aid m)"
proof (cases "\<exists>slot \<in> set (am_pending m). is_station addr slot")
  case True
  let ?p = "update_first (is_station addr) (\<lambda>_. None) (am_pending m)"
  obtain ctx where "find (is_station addr) (am_pending m) = Some (Some (addr, ctx))"
    using find_station_some True by blast
  from occupied_update [OF this, of "\<lambda>_. None"]
  have "occupied (m\<lparr>am_pending := ?p\<rparr>) + 1 = am_count m" using assms by (simp add: am_inv_def)
  moreover have "am_count m \<le> 16" using assms occupied_le [of m] by (simp add: am_inv_def)
  ultimately have "occupied (m\<lparr>am_pending := ?p\<rparr>) = usub (am_count m) 1" by simp
  then have "occupied (auth_remove addr aid m) = am_count (auth_remove addr aid m)"
    using True by (simp add: auth_remove_def occupied_def)
  with True assms show ?thesis by (simp add: am_inv_def) (simp add: auth_remove_def aids.free_drops)
qed (simp add: auth_remove_def assms)

lemma finish_auth_inv:
  assumes "am_inv m"
  shows "am_inv (snd (finish_auth addr m))"
proof -
  let ?m1 = "get_ctx_mut addr (ac_state_update (\<lambda>_. Associated)) m"
  have "am_inv (?m1\<lparr>am_aid_alloc := snd (aid_alloc (am_aid_alloc ?m1))\<rparr>)"
    using am_inv_with_ctx [OF assms, of addr "ac_state_update (\<lambda>_. Associated)"]
    by (simp add: am_inv_def aids.alloc_inv occupied_def)
  then show ?thesis using assms
    by (cases "aid_alloc (am_aid_alloc ?m1)"; cases "fst (aid_alloc (am_aid_alloc ?m1))") (simp_all add: finish_auth_def)
qed

lemma am_inv_exec: "am_inv m \<Longrightarrow> am_inv (auth_exec c m)"
  by (cases c) (simp_all add: start_auth_inv finish_auth_inv auth_remove_inv am_inv_with_ctx)

lemma am_inv_new: "am_inv auth_manager_new"
  by (simp add: am_inv_def auth_manager_new_def occupied_def aid_inv_new)

interpretation auth: transition_system "\<lambda>m. m = auth_manager_new" auth_step am_inv
  by unfold_locales (auto simp: am_inv_new am_inv_exec elim: auth_step.cases)

section \<open>The handshake\<close>

text \<open>The replay counters of the pairwise frames that a supplicant accepts, in order.\<close>

fun accepted_counters :: "u8 list \<Rightarrow> u8 list \<Rightarrow> u8 list \<Rightarrow> AuthCtx \<Rightarrow> (EapolKeyHdr \<times> u8 list) list \<Rightarrow> u64 list" where
  "accepted_counters pmk ap sta ctx [] = []"
| "accepted_counters pmk ap sta ctx ((hdr, data) # frames) =
     (case process_eapol_key ctx hdr data pmk ap sta of
        (r, ctx1) \<Rightarrow> (if r = SendMsg2 \<or> r = SendMsg4KeysInstalled then [replay_counter_u64 hdr] else []) @
          accepted_counters pmk ap sta ctx1 frames)"

lemma process_eapol_counter:
  assumes "process_eapol_key ctx hdr data pmk ap sta = (r, ctx1)"
  shows "r = SendMsg2 \<or> r = SendMsg4KeysInstalled \<Longrightarrow>
      ac_replay_counter ctx1 = replay_counter_u64 hdr \<and> (ac_replay_counter ctx = 0 \<or> ac_replay_counter ctx < replay_counter_u64 hdr)"
    and "\<not> (r = SendMsg2 \<or> r = SendMsg4KeysInstalled) \<Longrightarrow> ac_replay_counter ctx1 = ac_replay_counter ctx"
  using assms by (auto simp: process_eapol_key_def Let_def not_le split: if_splits)

lemma accepted_above:
  "c \<in> set (accepted_counters pmk ap sta ctx frames) \<Longrightarrow> ac_replay_counter ctx = 0 \<or> ac_replay_counter ctx < c"
proof (induction pmk ap sta ctx frames rule: accepted_counters.induct)
  case (2 pmk ap sta ctx hdr data frames)
  obtain r ctx1 where p: "process_eapol_key ctx hdr data pmk ap sta = (r, ctx1)" by fastforce
  note step = process_eapol_counter [OF p]
  show ?case
    using 2(2) 2(1) [OF p [symmetric]] step p by (cases "r = SendMsg2 \<or> r = SendMsg4KeysInstalled") (auto simp: p)
qed simp

lemma accepted_sorted:
  "sorted_wrt (\<lambda>a b. a < b \<or> (a = 0 \<and> b = 0)) (accepted_counters pmk ap sta ctx frames)"
proof (induction pmk ap sta ctx frames rule: accepted_counters.induct)
  case (2 pmk ap sta ctx hdr data frames)
  obtain r ctx1 where p: "process_eapol_key ctx hdr data pmk ap sta = (r, ctx1)" by fastforce
  have later: "replay_counter_u64 hdr < c \<or> (replay_counter_u64 hdr = 0 \<and> c = 0)"
    if "ac_replay_counter ctx1 = replay_counter_u64 hdr" "c \<in> set (accepted_counters pmk ap sta ctx1 frames)" for c
    using accepted_above [OF that(2)] that(1) word_gt_0 [of c] by auto
  then show ?case
    using 2 [OF p [symmetric]] process_eapol_counter(1) [OF p]
    by (cases "r = SendMsg2 \<or> r = SendMsg4KeysInstalled") (auto simp: p)
qed simp

lemma key_info_bytes: "key_info_u16 (h\<lparr>ek_key_info := [hi, lo]\<rparr>) = of_nat (unat lo + 256 * unat hi)"
  by (simp add: key_info_u16_def be_nat_def)

lemma process_eapol_unkeyed:
  "process_eapol_key ctx (h\<lparr>ek_key_mic := m, ek_key_data_len := l, ek_key_iv := v, ek_key_rsc := c\<rparr>) d pmk ap sta =
     process_eapol_key ctx h data pmk ap sta"
  by (simp add: process_eapol_key_def key_info_u16_def replay_counter_u64_def Let_def)

lemma group_frame:
  "process_eapol_key ctx (h\<lparr>ek_key_info := [0x01, 0x80]\<rparr>) data pmk ap sta = (GroupKeyInstalled, ctx\<lparr>ac_state := Connected\<rparr>)"
  by (simp add: process_eapol_key_def key_info_bytes key_info_bits)

lemma install_frame:
  "process_eapol_key ctx (h\<lparr>ek_key_info := [0x01, 0xC8]\<rparr>) data pmk ap sta =
     (if replay_counter_u64 h \<le> ac_replay_counter ctx then (HsDrop, ctx)
      else (SendMsg4KeysInstalled, ctx\<lparr>ac_replay_counter := replay_counter_u64 h, ac_state := Connected\<rparr>))"
  by (simp add: process_eapol_key_def key_info_bytes key_info_bits) (simp add: replay_counter_u64_def)

section \<open>The integrity code and the keys\<close>

definition xor_bytes :: "u8 list \<Rightarrow> u8 list \<Rightarrow> u8 list" where
  "xor_bytes xs ys = map2 (XOR) xs ys"

lemma length_xor_bytes [simp]: "length (xor_bytes xs ys) = min (length xs) (length ys)"
  by (simp add: xor_bytes_def)

lemma nth_xor_bytes: "i < length xs \<Longrightarrow> i < length ys \<Longrightarrow> xor_bytes xs ys ! i = xs ! i XOR ys ! i"
  by (simp add: xor_bytes_def)

lemma xor_bytes_simps [simp]:
  "xor_bytes [] ys = []" "xor_bytes (x # xs) (y # ys) = (x XOR y) # xor_bytes xs ys"
  by (simp_all add: xor_bytes_def)

fun byte_sums :: "nat \<Rightarrow> u8 list \<Rightarrow> u8 list \<Rightarrow> u8 list" where
  "byte_sums i [] e = e"
| "byte_sums i (b # bs) e = byte_sums (Suc i) bs (e[i mod MIC_LEN := e ! (i mod MIC_LEN) XOR b])"

lemma length_byte_sums [simp]: "length (byte_sums i bs e) = length e"
  by (induction i bs e rule: byte_sums.induct) simp_all

lemma xor_bytes_update:
  "length e = length e1 \<Longrightarrow> k < length e \<Longrightarrow>
     (xor_bytes e e1)[k := xor_bytes e e1 ! k XOR (a XOR b)] = xor_bytes (e[k := e ! k XOR a]) (e1[k := e1 ! k XOR b])"
  by (rule nth_equalityI) (auto simp: nth_xor_bytes nth_list_update xor.assoc xor.left_commute xor.commute)

lemma byte_sums_xor:
  "length f = length g \<Longrightarrow> length e = MIC_LEN \<Longrightarrow> length e1 = MIC_LEN \<Longrightarrow>
     byte_sums i (xor_bytes f g) (xor_bytes e e1) = xor_bytes (byte_sums i f e) (byte_sums i g e1)"
proof (induction f g arbitrary: i e e1 rule: list_induct2)
  case (Cons x xs y ys)
  have "i mod MIC_LEN < MIC_LEN" by (simp add: MIC_LEN_def)
  with Cons show ?case by (simp add: xor_bytes_update)
qed simp

definition key_stream :: "u8 list \<Rightarrow> nat \<Rightarrow> nat \<Rightarrow> u8 list" where
  "key_stream kck i n = map (\<lambda>j. kck ! (j mod length kck)) [i ..< i + n]"

lemma key_stream_Suc: "key_stream kck i (Suc n) = kck ! (i mod length kck) # key_stream kck (Suc i) n"
  by (simp add: key_stream_def upt_rec)

lemma mic_fold_sums:
  "kck \<noteq> [] \<Longrightarrow> mic_fold kck i f e = Ok (byte_sums i (xor_bytes f (key_stream kck i (length f))) e)"
proof (induction kck i f e rule: mic_fold.induct)
  case (2 kck i b f e)
  have "1 \<le> length kck" using 2(2) by (cases kck) simp_all
  then have m: "max (length kck) 1 = length kck" and "i mod length kck < length kck"
    by (simp_all only: max_absorb1 mod_less_divisor less_le_trans [OF zero_less_one])
  then show ?case using 2(1) [OF refl] 2(2) unfolding mic_fold.simps m Let_def by (simp add: key_stream_Suc)
qed simp

lemma mic_forgery:
  assumes "kck \<noteq> []" "verify_eapol_mic kck f m = Ok True" "length g = length f"
  shows "verify_eapol_mic kck g (xor_bytes m (byte_sums 0 (xor_bytes f g) (replicate MIC_LEN 0))) = Ok True"
proof -
  let ?z = "replicate MIC_LEN 0" and ?k = "key_stream kck 0 (length f)"
  have k: "length ?k = length f" by (simp add: key_stream_def)
  have z: "xor_bytes ?z ?z = ?z" by (simp add: xor_bytes_def)
  have "xor_bytes g ?k = xor_bytes (xor_bytes f ?k) (xor_bytes f g)"
    by (rule nth_equalityI) (simp_all add: nth_xor_bytes k assms(3) xor.assoc xor.left_commute [of _ "f ! _"] xor.commute)
  moreover have "m = byte_sums 0 (xor_bytes f ?k) ?z"
    using assms(1,2) by (simp add: verify_eapol_mic_def mic_fold_sums)
  ultimately show ?thesis
    using byte_sums_xor [of "xor_bytes f ?k" "xor_bytes f g" ?z ?z 0] assms
    by (simp add: verify_eapol_mic_def mic_fold_sums z k)
qed

lemma derive_ptk_nth:
  "i < 32 \<Longrightarrow> derive_ptk pmk an sn ap sta ! i = pmk ! i XOR derive_ptk (replicate 32 0) an sn ap sta ! i"
  by (auto simp: derive_ptk_def Let_def PMK_LEN_def PTK_LEN_def NONCE_LEN_def xor.assoc)

lemma length_derive_ptk [simp]: "length (derive_ptk pmk an sn ap sta) = 64"
  by (simp add: derive_ptk_def Let_def PTK_LEN_def split: prod.split)

lemma ptk_reveals_pmk:
  assumes "length pmk = 32"
  shows "take 32 (xor_bytes (derive_ptk pmk an sn ap sta) (derive_ptk (replicate 32 0) an sn ap sta)) = pmk"
proof (rule nth_equalityI)
  fix i assume "i < length (take 32 (xor_bytes (derive_ptk pmk an sn ap sta) (derive_ptk (replicate 32 0) an sn ap sta)))"
  then have i: "i < 32" by simp
  show "take 32 (xor_bytes (derive_ptk pmk an sn ap sta) (derive_ptk (replicate 32 0) an sn ap sta)) ! i = pmk ! i"
    using i derive_ptk_nth [OF i, of pmk an sn ap sta] by (simp add: nth_xor_bytes xor.assoc)
qed (simp add: assms)

section \<open>The RSN element\<close>

definition suite_bytes :: "u32 list \<Rightarrow> u8 list" where
  "suite_bytes cs = to_le 2 (length cs) @ concat (map (\<lambda>c. to_be 4 (unat c)) cs)"

definition rsn_bytes :: "u32 \<Rightarrow> u32 list \<Rightarrow> u32 list \<Rightarrow> u16 \<Rightarrow> u8 list" where
  "rsn_bytes gc pws akms caps =
     to_le 2 1 @ to_be 4 (unat gc) @ suite_bytes pws @ suite_bytes akms @ to_le 2 (unat caps)"

lemma length_suite_bytes [simp]: "length (suite_bytes cs) = 2 + length cs * 4"
  by (simp add: suite_bytes_def) (induction cs; simp)

lemma suite_bytes_count: "length cs < 65536 \<Longrightarrow> unat (le16 (suite_bytes cs @ r) 0) = length cs"
  using le16_to_le [of "of_nat (length cs)" "concat (map (\<lambda>c. to_be 4 (unat c)) cs) @ r"]
  by (simp add: suite_bytes_def unat_of_nat take_bit_nat_eq_self)

lemma suite_bytes_first: "be32 (suite_bytes (c # cs) @ r) 2 = c"
  using be32_append [of "to_le 2 (length (c # cs))" 2 _ 0] be32_to_be [of c]
  by (simp add: suite_bytes_def)

lemma rsn_roundtrip:
  assumes "length pws < 65536" "length akms < 65536" "pws = p # ps" "akms = a # bs"
  shows "rsn_parse (rsn_bytes gc pws akms caps) = Ok (Some \<lparr>rsn_group_cipher = gc, rsn_pairwise_cipher = p,
           rsn_akm = a, rsn_mfp_required = (caps AND 2 ^ 6 \<noteq> 0), rsn_mfp_capable = (caps AND 2 ^ 7 \<noteq> 0)\<rparr>)"
proof -
  let ?v = "to_le 2 1 :: u8 list" and ?g = "to_be 4 (unat gc)" and ?c = "to_le 2 (unat caps)"
  let ?ie = "rsn_bytes gc pws akms caps" and ?off = "8 + length pws * 4"
  let ?fin = "?off + 2 + length akms * 4"
  have v: "le16 ?ie 0 = 1"
    using le16_to_le [of 1 "?g @ suite_bytes pws @ suite_bytes akms @ ?c"] by (simp add: rsn_bytes_def)
  have g: "be32 ?ie 2 = gc"
    using be32_append [of ?v 2 "?g @ suite_bytes pws @ suite_bytes akms @ ?c" 0] be32_to_be [of gc]
    by (simp add: rsn_bytes_def)
  have n: "unat (le16 ?ie 6) = length pws"
    using le16_append [of "?v @ ?g" 6 "suite_bytes pws @ suite_bytes akms @ ?c" 0] suite_bytes_count [OF assms(1)]
    by (simp add: rsn_bytes_def)
  have p: "be32 ?ie 8 = p"
    using be32_append [of "?v @ ?g" 6 "suite_bytes pws @ suite_bytes akms @ ?c" 2] suite_bytes_first [of p ps]
    by (simp add: rsn_bytes_def assms(3))
  have m: "unat (le16 ?ie ?off) = length akms"
    using le16_append [of "?v @ ?g @ suite_bytes pws" ?off "suite_bytes akms @ ?c" 0] suite_bytes_count [OF assms(2)]
    by (simp add: rsn_bytes_def)
  have a: "be32 ?ie (?off + 2) = a"
    using be32_append [of "?v @ ?g @ suite_bytes pws" ?off "suite_bytes akms @ ?c" 2] suite_bytes_first [of a bs]
    by (simp add: rsn_bytes_def assms(4))
  have c: "le16 ?ie ?fin = caps"
    using le16_append [of "?v @ ?g @ suite_bytes pws @ suite_bytes akms" ?fin ?c 0] le16_to_le [of caps "[]"]
    by (simp add: rsn_bytes_def)
  have l: "length ?ie = ?fin + 2" by (simp add: rsn_bytes_def)
  have k: "1 \<le> length pws" "1 \<le> length akms" by (simp_all add: assms(3,4))
  have "\<not> length ?ie < 4" "\<not> length ?ie < 8" "\<not> length ?ie < 10" "\<not> length ?ie < ?off" "\<not> length ?ie \<le> 11"
    "\<not> length ?ie < ?off + 2" "\<not> length ?ie < ?fin" "\<not> length ?ie \<le> ?off + 5" "?fin + 2 \<le> length ?ie"
    using k unfolding l by linarith+
  then show ?thesis
    unfolding rsn_parse_def Let_def n m by (simp only: v g p a c if_False if_True simp_thms)
qed

lemma rsn_parse_panics:
  "rsn_parse ie = Panic \<longleftrightarrow>
     10 \<le> length ie \<and> le16 ie 0 = 1 \<and>
     (let off = 8 + unat (le16 ie 6) * 4
      in length ie < 12 \<and> off = 8 \<or>
         12 \<le> length ie \<and> off + 2 \<le> length ie \<and> length ie < off + 6 \<and> le16 ie off = 0)"
proof -
  have z: "w = 0 \<longleftrightarrow> unat w = 0" for w :: u16 by (simp add: unat_eq_0)
  show ?thesis unfolding rsn_parse_def Let_def z [of "le16 ie (8 + unat (le16 ie 6) * 4)"]
    by (simp split: if_splits)
qed

lemma auth_req_roundtrip:
  "parse_auth_resp (build_auth_req algorithm seq) =
     Ok \<lparr>af_algorithm = algorithm, af_seq = seq, af_status_code = STATUS_SUCCESS\<rparr>"
  using le16_to_le [of algorithm "to_le 2 (unat seq) @ to_le 2 (unat STATUS_SUCCESS)"]
    le16_append [of "to_le 2 (unat algorithm)" 2 "to_le 2 (unat seq) @ to_le 2 (unat STATUS_SUCCESS)" 0]
    le16_to_le [of seq "to_le 2 (unat STATUS_SUCCESS)"] le16_to_le [of STATUS_SUCCESS "[]"]
    le16_append [of "to_le 2 (unat algorithm) @ to_le 2 (unat seq)" 4 "to_le 2 (unat STATUS_SUCCESS)" 0]
  by (simp add: parse_auth_resp_def build_auth_req_def)

section \<open>Properties\<close>

text \<open>
  C33 (safety). The replay counters of the pairwise frames a supplicant accepts strictly increase (frames
  with counter zero are accepted again until a higher one comes). But the integrity code, the key data, the
  initialisation vector and the sequence counter of a frame do not matter: a group frame connects
  the station in any state, and a fresh station is connected by one forged third message, its key still all zero.
\<close>

theorem eapol_handshake:
  "sorted_wrt (\<lambda>a b. a < b \<or> (a = 0 \<and> b = 0)) (accepted_counters pmk ap sta ctx frames) \<and>
   process_eapol_key ctx (h\<lparr>ek_key_mic := m, ek_key_data_len := l, ek_key_iv := v, ek_key_rsc := c\<rparr>) d pmk ap sta =
     process_eapol_key ctx h data pmk ap sta \<and>
   process_eapol_key ctx (h\<lparr>ek_key_info := [0x01, 0x80]\<rparr>) data pmk ap sta =
     (GroupKeyInstalled, ctx\<lparr>ac_state := Connected\<rparr>) \<and>
   process_eapol_key auth_ctx_new (h\<lparr>ek_replay_counter := to_be 8 1, ek_key_info := [0x01, 0xC8]\<rparr>) data pmk ap sta =
     (SendMsg4KeysInstalled, auth_ctx_new\<lparr>ac_replay_counter := 1, ac_state := Connected\<rparr>)"
proof (intro conjI accepted_sorted process_eapol_unkeyed group_frame)
  have "replay_counter_u64 (h\<lparr>ek_replay_counter := to_be 8 1\<rparr>) = 1"
    by (simp add: replay_counter_u64_def be_nat_to_be)
  moreover have "ac_replay_counter auth_ctx_new = 0" by (simp add: auth_ctx_new_def)
  ultimately show "process_eapol_key auth_ctx_new (h\<lparr>ek_replay_counter := to_be 8 1, ek_key_info := [0x01, 0xC8]\<rparr>) data pmk ap sta =
     (SendMsg4KeysInstalled, auth_ctx_new\<lparr>ac_replay_counter := 1, ac_state := Connected\<rparr>)"
    by (simp add: install_frame)
qed

text \<open>
  The key material is linear: the pairwise master key is the exclusive or of the transient key with
  the transient key of the zero master key, which is public; and from one frame with its
  integrity code the code of every other frame of the same length is computed without the key.
\<close>

theorem wpa_keys_linear:
  assumes "length pmk = PMK_LEN" "kck \<noteq> []" "verify_eapol_mic kck f m = Ok True" "length g = length f"
  shows "take PMK_LEN (xor_bytes (derive_ptk pmk an sn ap sta) (derive_ptk (replicate PMK_LEN 0) an sn ap sta)) = pmk \<and>
    verify_eapol_mic kck g (xor_bytes m (byte_sums 0 (xor_bytes f g) (replicate MIC_LEN 0))) = Ok True"
  using ptk_reveals_pmk [of pmk an sn ap sta] mic_forgery [OF assms(2-4)] assms(1) by (simp add: PMK_LEN_def)

theorem wpa_keys_linear_witness:
  "verify_eapol_mic [7, 9] [1, 1] (6 # 8 # replicate 14 0) = Ok True \<and>
   verify_eapol_mic [7, 9] [4, 1] (xor_bytes (6 # 8 # replicate 14 0)
     (byte_sums 0 (xor_bytes [1, 1] [4, 1]) (replicate MIC_LEN 0))) = Ok True"
proof -
  have v: "verify_eapol_mic [7, 9] [1, 1] (6 # 8 # replicate 14 0) = Ok True"
    by code_simp
  from wpa_keys_linear [of "replicate PMK_LEN 1", OF _ _ v, of "[4, 1]"] v show ?thesis by simp
qed

text \<open>
  In every reachable manager the counter is the number of occupied slots, at most 16, and a
  station is admitted exactly while it is below 16. A station that finishes twice holds two
  identifiers, and its removal gives back only the one it names: the other is lost.
\<close>

theorem auth_manager_reachable:
  assumes "reachable (\<lambda>m. m = auth_manager_new) auth_step m"
    "finish_auth addr m = (Ok a, m1)" "finish_auth addr m1 = (Ok b, m2)"
  shows "am_count m = occupied m \<and> am_count m \<le> MAX_AUTH_PENDING \<and>
    (is_ok (fst (start_auth new_addr m)) \<longleftrightarrow> am_count m < MAX_AUTH_PENDING) \<and>
    a \<noteq> b \<and> a \<notin> held_aids (am_aid_alloc m) \<and> a \<in> held_aids (am_aid_alloc (auth_remove addr b m2))"
proof -
  have i: "am_inv m" by (rule auth.reachable_inv [OF assms(1)])
  then have "is_ok (fst (start_auth new_addr m)) \<longleftrightarrow> am_count m < MAX_AUTH_PENDING"
    using am_inv_room [OF i] by (auto simp: start_auth_def)
  moreover have "am_count m = occupied m \<and> am_count m \<le> MAX_AUTH_PENDING"
    using i occupied_le [of m] by (simp add: am_inv_def MAX_AUTH_PENDING_def)
  moreover have "aid_alloc (am_aid_alloc m) = (Some a, am_aid_alloc m1)" "aid_alloc (am_aid_alloc m1) = (Some b, am_aid_alloc m2)"
    using assms(2,3) by (auto simp: finish_auth_def get_ctx_mut_def Let_def split: if_splits prod.splits option.splits)
  moreover have "aid_inv (am_aid_alloc m)" using i by (simp add: am_inv_def)
  ultimately show ?thesis
    using aids.alloc_fresh [of "am_aid_alloc m" a "am_aid_alloc m1"] aids.alloc_fresh [of "am_aid_alloc m1" b "am_aid_alloc m2"]
      aids.free_drops [of "am_aid_alloc m2" b] by (auto simp: auth_remove_def)
qed

definition example_station :: "u8 list" where
  "example_station = [0x11, 0x22, 0x33, 0x44, 0x55, 0x66]"

lemma aid_first:
  "aid_alloc aid_new = (Some 64, take_aid 64 aid_new)"
  "aid_alloc (take_aid 64 aid_new) = (Some 65, take_aid 65 (take_aid 64 aid_new))"
proof -
  have new: "length aid_new = 32" "aid_inv aid_new" "\<not> aid_used aid_new a" if "a < MAX_AID" for a
    using that by (simp_all add: aid_inv_new) (simp_all add: aid_new_def aid_used_def MAX_AID_def div_less_iff_less_mult)
  have "first_aid 64 aid_new = 64" using new(3) [of 64] by (simp add: first_aid_def MAX_AID_def)
  then show a: "aid_alloc aid_new = (Some 64, take_aid 64 aid_new)"
    using aid_alloc_first [OF aid_inv_new] by (simp add: MAX_AID_def)
  have i: "aid_inv (take_aid 64 aid_new)" using aids.alloc_fresh [OF aid_inv_new a] by simp
  have "aid_used (take_aid 64 aid_new) 64" "\<not> aid_used (take_aid 64 aid_new) 65"
    using new(1) [of 0] new(3) [of 65] by (simp_all add: aid_used_take MAX_AID_def)
  then have "first_aid 64 (take_aid 64 aid_new) = 65" by (simp add: first_aid_def MAX_AID_def)
  then show "aid_alloc (take_aid 64 aid_new) = (Some 65, take_aid 65 (take_aid 64 aid_new))"
    using aid_alloc_first [OF i] by (simp add: MAX_AID_def)
qed

theorem auth_manager_reachable_witness:
  "let m = snd (start_auth example_station auth_manager_new);
       m1 = snd (finish_auth example_station m); m2 = snd (finish_auth example_station m1)
   in am_count m = 1 \<and> 64 \<in> held_aids (am_aid_alloc (auth_remove example_station 65 m2))"
proof -
  let ?m = "snd (start_auth example_station auth_manager_new)"
  let ?m1 = "snd (finish_auth example_station ?m)"
  have m: "am_pending ?m = Some (example_station, auth_ctx_new) # replicate 15 None" "am_count ?m = 1" "am_aid_alloc ?m = aid_new"
    using replicate_Suc [of 15 "None :: (u8 list \<times> AuthCtx) option"]
    by (simp_all add: start_auth_def auth_manager_new_def MAX_AUTH_PENDING_def)
  then have f1: "finish_auth example_station ?m = (Ok 64, ?m1)" "am_aid_alloc ?m1 = take_aid 64 aid_new"
    "am_pending ?m1 = Some (example_station, auth_ctx_new\<lparr>ac_state := Associated\<rparr>) # replicate 15 None"
    by (simp_all add: finish_auth_def get_ctx_mut_def is_station_def with_ctx_def aid_first)
  then have f2: "finish_auth example_station ?m1 = (Ok 65, snd (finish_auth example_station ?m1))"
    by (simp add: finish_auth_def get_ctx_mut_def is_station_def aid_first)
  have "reachable (\<lambda>m. m = auth_manager_new) auth_step ?m"
    using auth_step.intros [of auth_manager_new "StartAuth example_station"] by (auto intro: reachable.intros)
  from auth_manager_reachable [OF this f1(1) f2] m(2) show ?thesis by (simp add: Let_def)
qed

text \<open>
  The parser of the RSN element reads back the first suites and the capabilities of every well-formed
  element. It panics on exactly these: an element of 10 or 11 bytes that announces no pairwise suite, and one that
  announces no key management suite and ends within four bytes of that count.
\<close>

theorem rsn_element:
  assumes "length pws < 65536" "length akms < 65536" "pws = p # ps" "akms = a # bs"
  shows "rsn_parse (rsn_bytes gc pws akms caps) = Ok (Some \<lparr>rsn_group_cipher = gc, rsn_pairwise_cipher = p,
           rsn_akm = a, rsn_mfp_required = (caps AND 2 ^ 6 \<noteq> 0), rsn_mfp_capable = (caps AND 2 ^ 7 \<noteq> 0)\<rparr>) \<and>
    (rsn_parse ie = Panic \<longleftrightarrow>
     10 \<le> length ie \<and> le16 ie 0 = 1 \<and>
     (let off = 8 + unat (le16 ie 6) * 4
      in length ie < 12 \<and> off = 8 \<or>
         12 \<le> length ie \<and> off + 2 \<le> length ie \<and> length ie < off + 6 \<and> le16 ie off = 0))"
  using rsn_roundtrip [OF assms] rsn_parse_panics by blast

theorem rsn_element_witness:
  "rsn_parse (rsn_bytes CCMP_128 [CCMP_128] [AKM_PSK] 0) = Ok (Some \<lparr>rsn_group_cipher = CCMP_128,
     rsn_pairwise_cipher = CCMP_128, rsn_akm = AKM_PSK, rsn_mfp_required = False, rsn_mfp_capable = False\<rparr>) \<and>
   rsn_parse [1, 0, 0, 0x0F, 0xAC, 4, 0, 0, 0, 0] = Panic"
proof -
  have "rsn_parse [1, 0, 0, 0x0F, 0xAC, 4, 0, 0, 0, 0] = Panic"
    by (subst rsn_element [THEN conjunct2, of "[CCMP_128]" "[AKM_PSK]" CCMP_128 "[]" AKM_PSK "[]"])
      (simp_all add: le16_def slice_def)
  with rsn_element [THEN conjunct1, of "[CCMP_128]" "[AKM_PSK]" CCMP_128 "[]" AKM_PSK "[]" CCMP_128 0] show ?thesis by simp
qed

end
