(* ===== verification/Sleep.thy ===== *)
theory Sleep
  imports KError Sorting
begin

text \<open>
  The queue of sleeping tasks, \<open>kernel/src/sleep.rs\<close>: an array of 128 entries kept in the order of
  their wake-up ticks. \<open>unwrap\<close> of an empty entry is a panic.
\<close>

definition MAX_SLEEPING :: usize where "MAX_SLEEPING = 128"

record SleepEntry =
  se_task_id :: u64
  se_wakeup_tick :: u64

record SleepQueue =
  sq_entries :: "SleepEntry option list"
  sq_count :: usize

definition sleep_queue_new :: SleepQueue where
  "sleep_queue_new = \<lparr>sq_entries = replicate MAX_SLEEPING None, sq_count = 0\<rparr>"

function insert_pos :: "SleepEntry option list \<Rightarrow> u64 \<Rightarrow> nat \<Rightarrow> nat \<Rightarrow> nat kresult" where
  "insert_pos es tick i cnt =
     (if i < cnt then
        case es ! i of
          None \<Rightarrow> Panic
        | Some e \<Rightarrow> if se_wakeup_tick e > tick then Ok i else insert_pos es tick (Suc i) cnt
      else Ok cnt)"
  by pat_completeness auto
termination
  by (relation "measure (\<lambda>(_, _, i, cnt). cnt - i)") auto

definition shift_right :: "nat \<Rightarrow> nat \<Rightarrow> 'a list \<Rightarrow> 'a list" where
  "shift_right pos cnt es = fold (\<lambda>i es. es[Suc i := es ! i]) (rev [pos ..< cnt]) es"

definition sleep_until :: "u64 \<Rightarrow> u64 \<Rightarrow> SleepQueue \<Rightarrow> bool kresult \<times> SleepQueue" where
  "sleep_until task_id wakeup_tick q =
     (if sq_count q \<ge> MAX_SLEEPING then (Ok False, q)
      else case insert_pos (sq_entries q) wakeup_tick 0 (sq_count q) of
             Ok pos \<Rightarrow>
               let es = shift_right pos (sq_count q) (sq_entries q)
               in (Ok True, q\<lparr>sq_entries := es[pos := Some \<lparr>se_task_id = task_id, se_wakeup_tick = wakeup_tick\<rparr>],
                              sq_count := uadd (sq_count q) 1\<rparr>)
           | Err e \<Rightarrow> (Err e, q)
           | Panic \<Rightarrow> (Panic, q))"

definition sleep_for :: "u64 \<Rightarrow> u64 \<Rightarrow> u64 \<Rightarrow> SleepQueue \<Rightarrow> bool kresult \<times> SleepQueue" where
  "sleep_for task_id current_tick duration_ticks q = sleep_until task_id (current_tick + duration_ticks) q"

function expired :: "SleepEntry option list \<Rightarrow> u64 \<Rightarrow> nat \<Rightarrow> nat \<Rightarrow> u64 list kresult" where
  "expired es tick i cnt =
     (if i < cnt then
        case es ! i of
          None \<Rightarrow> Panic
        | Some e \<Rightarrow>
            if se_wakeup_tick e \<le> tick
            then (case expired es tick (Suc i) cnt of Ok ids \<Rightarrow> Ok (se_task_id e # ids) | r \<Rightarrow> r)
            else Ok []
      else Ok [])"
  by pat_completeness auto
termination
  by (relation "measure (\<lambda>(_, _, i, cnt). cnt - i)") auto

definition shift_left :: "nat \<Rightarrow> nat \<Rightarrow> nat \<Rightarrow> 'a list \<Rightarrow> 'a list" where
  "shift_left k a b es = fold (\<lambda>i es. es[i := es ! (i + k)]) [a ..< b] es"

definition clear_entries :: "nat \<Rightarrow> nat \<Rightarrow> 'a option list \<Rightarrow> 'a option list" where
  "clear_entries a b es = fold (\<lambda>i es. es[i := None]) [a ..< b] es"

definition sleep_tick :: "u64 \<Rightarrow> SleepQueue \<Rightarrow> u64 list kresult \<times> SleepQueue" where
  "sleep_tick current_tick q =
     (case expired (sq_entries q) current_tick 0 (sq_count q) of
        Ok woken \<Rightarrow>
          let woken_count = length woken; left = sq_count q - woken_count
          in (Ok woken,
              if woken_count > 0
              then q\<lparr>sq_entries := clear_entries left (sq_count q) (shift_left woken_count 0 left (sq_entries q)),
                     sq_count := left\<rparr>
              else q)
      | r \<Rightarrow> (r, q))"

function find_sleeper :: "SleepEntry option list \<Rightarrow> u64 \<Rightarrow> nat \<Rightarrow> nat \<Rightarrow> nat option kresult" where
  "find_sleeper es task_id i cnt =
     (if i < cnt then
        case es ! i of
          None \<Rightarrow> Panic
        | Some e \<Rightarrow> if se_task_id e = task_id then Ok (Some i) else find_sleeper es task_id (Suc i) cnt
      else Ok None)"
  by pat_completeness auto
termination
  by (relation "measure (\<lambda>(_, _, i, cnt). cnt - i)") auto

definition cancel_sleep :: "u64 \<Rightarrow> SleepQueue \<Rightarrow> bool kresult \<times> SleepQueue" where
  "cancel_sleep task_id q =
     (case find_sleeper (sq_entries q) task_id 0 (sq_count q) of
        Ok None \<Rightarrow> (Ok False, q)
      | Ok (Some i) \<Rightarrow>
          (Ok True, q\<lparr>sq_entries := (shift_left 1 i (sq_count q - 1) (sq_entries q))[sq_count q - 1 := None],
                      sq_count := sq_count q - 1\<rparr>)
      | Err e \<Rightarrow> (Err e, q)
      | Panic \<Rightarrow> (Panic, q))"

definition sleeping_count :: "SleepQueue \<Rightarrow> usize" where
  "sleeping_count q = sq_count q"

declare insert_pos.simps [simp del] expired.simps [simp del] find_sleeper.simps [simp del]

section \<open>The queue as a list\<close>

text \<open>A queue holds a list: the entries of the list come first, all others are empty.\<close>

definition holds :: "SleepQueue \<Rightarrow> SleepEntry list \<Rightarrow> bool" where
  "holds q l \<longleftrightarrow> length l \<le> MAX_SLEEPING \<and> sq_count q = length l \<and>
     sq_entries q = map Some l @ replicate (MAX_SLEEPING - length l) None"

lemma shift_right_nth:
  "n < length es \<Longrightarrow> length (shift_right p n es) = length es \<and>
     (\<forall>j < length es. shift_right p n es ! j = (if p < j \<and> j \<le> n then es ! (j - 1) else es ! j))"
proof (induction n arbitrary: es)
  case (Suc n)
  show ?case
  proof (cases "p \<le> n")
    case True
    then have "shift_right p (Suc n) es = shift_right p n (es[Suc n := es ! n])" by (simp add: shift_right_def)
    with Suc.IH [of "es[Suc n := es ! n]"] Suc.prems True show ?thesis by (auto simp: nth_list_update le_Suc_eq)
  qed (auto simp: shift_right_def)
qed (simp add: shift_right_def)

lemma shift_left_nth:
  "b + k \<le> length es \<Longrightarrow> length (shift_left k a b es) = length es \<and>
     (\<forall>j < length es. shift_left k a b es ! j = (if a \<le> j \<and> j < b then es ! (j + k) else es ! j))"
proof (induction b)
  case (Suc b)
  show ?case
  proof (cases "a \<le> b")
    case True
    then have "shift_left k a (Suc b) es = (shift_left k a b es)[b := shift_left k a b es ! (b + k)]"
      by (simp add: shift_left_def)
    with Suc True show ?thesis by (auto simp: nth_list_update less_Suc_eq)
  qed (use Suc in \<open>auto simp: shift_left_def\<close>)
qed (simp add: shift_left_def)

lemma clear_entries_nth:
  "b \<le> length es \<Longrightarrow> length (clear_entries a b es) = length es \<and>
     (\<forall>j < length es. clear_entries a b es ! j = (if a \<le> j \<and> j < b then None else es ! j))"
proof (induction b)
  case (Suc b)
  show ?case
  proof (cases "a \<le> b")
    case True
    then have "clear_entries a (Suc b) es = (clear_entries a b es)[b := None]" by (simp add: clear_entries_def)
    with Suc True show ?thesis by (auto simp: nth_list_update less_Suc_eq)
  qed (use Suc in \<open>auto simp: clear_entries_def\<close>)
qed (simp add: clear_entries_def)

lemma insert_pos_takeWhile:
  "(\<And>j. j < n \<Longrightarrow> j < length l \<and> es ! j = Some (l ! j)) \<Longrightarrow> i \<le> n \<Longrightarrow> n = length l \<Longrightarrow>
     insert_pos es t i n = Ok (i + length (takeWhile (\<lambda>e. se_wakeup_tick e \<le> t) (drop i l)))"
proof (induction es t i n rule: insert_pos.induct)
  case (1 es t i n)
  show ?case
  proof (cases "i < n")
    case True
    then have e: "es ! i = Some (l ! i)" "drop i l = l ! i # drop (Suc i) l"
      using 1(2) [of i] by (simp_all add: Cons_nth_drop_Suc)
    show ?thesis
      using True 1(1) [OF True e(1) _ 1(2)] 1(4) e by (subst insert_pos.simps) (auto simp: not_le)
  next
    case False
    with 1(3,4) show ?thesis by (subst insert_pos.simps) simp
  qed
qed

lemma expired_takeWhile:
  "(\<And>j. j < n \<Longrightarrow> j < length l \<and> es ! j = Some (l ! j)) \<Longrightarrow> i \<le> n \<Longrightarrow> n = length l \<Longrightarrow>
     expired es t i n = Ok (map se_task_id (takeWhile (\<lambda>e. se_wakeup_tick e \<le> t) (drop i l)))"
proof (induction es t i n rule: expired.induct)
  case (1 es t i n)
  show ?case
  proof (cases "i < n")
    case True
    then have e: "es ! i = Some (l ! i)" "drop i l = l ! i # drop (Suc i) l"
      using 1(2) [of i] by (simp_all add: Cons_nth_drop_Suc)
    show ?thesis
      using True 1(1) [OF True e(1) _ 1(2)] 1(4) e by (subst expired.simps) auto
  next
    case False
    with 1(3,4) show ?thesis by (subst expired.simps) simp
  qed
qed

lemma find_sleeper_takeWhile:
  "(\<And>j. j < n \<Longrightarrow> j < length l \<and> es ! j = Some (l ! j)) \<Longrightarrow> i \<le> n \<Longrightarrow> n = length l \<Longrightarrow>
     find_sleeper es t i n = Ok (let k = i + length (takeWhile (\<lambda>e. se_task_id e \<noteq> t) (drop i l)) in if k < n then Some k else None)"
proof (induction es t i n rule: find_sleeper.induct)
  case (1 es t i n)
  show ?case
  proof (cases "i < n")
    case True
    then have e: "es ! i = Some (l ! i)" "drop i l = l ! i # drop (Suc i) l"
      using 1(2) [of i] by (simp_all add: Cons_nth_drop_Suc)
    show ?thesis
      using True 1(1) [OF True e(1) _ 1(2)] 1(4) e by (subst find_sleeper.simps) (auto simp: Let_def)
  next
    case False
    with 1(3,4) show ?thesis by (subst find_sleeper.simps) simp
  qed
qed

lemma holds_nth:
  assumes "holds q l"
  shows "length (sq_entries q) = 128"
    "j < 128 \<Longrightarrow> sq_entries q ! j = (if j < length l then Some (l ! j) else None)"
  using assms by (auto simp: holds_def MAX_SLEEPING_def nth_append)

lemma holdsI:
  assumes "length l \<le> 128" "sq_count q = length l" "length (sq_entries q) = 128"
    "\<And>j. j < 128 \<Longrightarrow> sq_entries q ! j = (if j < length l then Some (l ! j) else None)"
  shows "holds q l"
  unfolding holds_def using assms by (auto simp: MAX_SLEEPING_def nth_append intro!: nth_equalityI)

lemma sleep_until_holds:
  fixes tick :: u64
  assumes h: "holds q l"
  defines "p \<equiv> \<lambda>e. se_wakeup_tick e \<le> tick"
  shows "if length l < MAX_SLEEPING
    then \<exists>q1. sleep_until task tick q = (Ok True, q1) \<and>
      holds q1 (takeWhile p l @ \<lparr>se_task_id = task, se_wakeup_tick = tick\<rparr> # dropWhile p l)
    else sleep_until task tick q = (Ok False, q)"
proof (cases "length l < MAX_SLEEPING")
  case True
  let ?e = "\<lparr>se_task_id = task, se_wakeup_tick = tick\<rparr>"
  define k where "k = length (takeWhile p l)"
  let ?es = "(shift_right k (length l) (sq_entries q))[k := Some ?e]"
  let ?l = "takeWhile p l @ ?e # dropWhile p l"
  have n: "sq_count q = length l" "length l < 128" using h True by (simp_all add: holds_def MAX_SLEEPING_def)
  have pos: "insert_pos (sq_entries q) tick 0 (length l) = Ok k"
    using insert_pos_takeWhile [of "length l" l "sq_entries q" 0 tick] holds_nth [OF h] n by (simp add: p_def k_def)
  have k: "k \<le> length l" unfolding k_def by (rule length_takeWhile_le)
  have d: "dropWhile p l = drop k l" "takeWhile p l = take k l"
    unfolding k_def by (rule dropWhile_eq_drop, rule takeWhile_eq_take)
  have s: "length (shift_right k (length l) (sq_entries q)) = 128"
    "j < 128 \<Longrightarrow> shift_right k (length l) (sq_entries q) ! j =
       (if k < j \<and> j \<le> length l then sq_entries q ! (j - 1) else sq_entries q ! j)" for j
    using shift_right_nth [of "length l" "sq_entries q" k] holds_nth(1) [OF h] n by simp_all
  have "holds (q\<lparr>sq_entries := ?es, sq_count := Suc (length l)\<rparr>) ?l"
  proof (rule holdsI)
    fix j :: nat assume j: "j < 128"
    consider "j < k" | "j = k" | "k < j" by linarith
    then show "sq_entries (q\<lparr>sq_entries := ?es, sq_count := Suc (length l)\<rparr>) ! j = (if j < length ?l then Some (?l ! j) else None)"
    proof cases
      case 1
      then show ?thesis using s(2) [OF j] holds_nth(2) [OF h j] k by (simp add: d nth_append)
    next
      case 2
      then show ?thesis using s(1) j k by (simp add: d nth_append)
    next
      case 3
      then have "?l ! j = l ! (j - 1)" if "j \<le> length l" using that k by (simp add: d nth_append nth_Cons')
      then show ?thesis using 3 s(2) [OF j] holds_nth(2) [OF h, of j] holds_nth(2) [OF h, of "j - 1"] j k by (simp add: d) linarith
    qed
  qed (use n k s(1) in \<open>simp_all add: d\<close>)
  then show ?thesis using True n by (simp add: sleep_until_def pos Let_def)
qed (use h in \<open>simp add: sleep_until_def holds_def\<close>)

lemma sleep_tick_holds:
  fixes tick :: u64
  assumes h: "holds q l"
  defines "p \<equiv> \<lambda>e. se_wakeup_tick e \<le> tick"
  shows "\<exists>q1. sleep_tick tick q = (Ok (map se_task_id (takeWhile p l)), q1) \<and> holds q1 (dropWhile p l)"
proof -
  let ?k = "length (takeWhile p l)" and ?n = "length l"
  let ?es = "clear_entries (?n - ?k) ?n (shift_left ?k 0 (?n - ?k) (sq_entries q))"
  have n: "sq_count q = ?n" "?n \<le> 128" using h by (simp_all add: holds_def MAX_SLEEPING_def)
  have x: "expired (sq_entries q) tick 0 ?n = Ok (map se_task_id (takeWhile p l))"
    using expired_takeWhile [of ?n l "sq_entries q" 0 tick] holds_nth [OF h] n by (simp add: p_def)
  have k: "?k \<le> ?n" by (rule length_takeWhile_le)
  have d: "dropWhile p l = drop ?k l" by (rule dropWhile_eq_drop)
  have s: "length (shift_left ?k 0 (?n - ?k) (sq_entries q)) = 128 \<and>
    (\<forall>j < 128. shift_left ?k 0 (?n - ?k) (sq_entries q) ! j = (if j < ?n - ?k then sq_entries q ! (j + ?k) else sq_entries q ! j))"
    using shift_left_nth [of "?n - ?k" ?k "sq_entries q" 0] holds_nth(1) [OF h] n k by simp
  have "holds (q\<lparr>sq_entries := ?es, sq_count := ?n - ?k\<rparr>) (drop ?k l)"
  proof (rule holdsI)
    fix j :: nat assume j: "j < 128"
    show "sq_entries (q\<lparr>sq_entries := ?es, sq_count := ?n - ?k\<rparr>) ! j = (if j < length (drop ?k l) then Some (drop ?k l ! j) else None)"
      using clear_entries_nth [of ?n "shift_left ?k 0 (?n - ?k) (sq_entries q)" "?n - ?k"] s holds_nth [OF h] j n k
      by (auto simp: add.commute)
  qed (use n k s clear_entries_nth [of ?n "shift_left ?k 0 (?n - ?k) (sq_entries q)" "?n - ?k"] in auto)
  moreover have "holds q (drop ?k l)" if "?k = 0" using that h by (simp only: drop_0)
  ultimately show ?thesis using n by (simp add: sleep_tick_def x d Let_def)
qed

lemma cancel_sleep_holds:
  fixes task :: u64
  assumes h: "holds q l"
  defines "k \<equiv> length (takeWhile (\<lambda>e. se_task_id e \<noteq> task) l)"
  shows "\<exists>q1. cancel_sleep task q = (Ok (k < length l), q1) \<and> holds q1 (take k l @ drop (Suc k) l)"
proof (cases "k < length l")
  case True
  let ?n = "length l" and ?l = "take k l @ drop (Suc k) l"
  let ?es = "(shift_left 1 k (?n - 1) (sq_entries q))[?n - 1 := None]"
  have n: "sq_count q = ?n" "?n \<le> 128" using h by (simp_all add: holds_def MAX_SLEEPING_def)
  have f: "find_sleeper (sq_entries q) task 0 ?n = Ok (Some k)"
    using find_sleeper_takeWhile [of ?n l "sq_entries q" 0 task] holds_nth [OF h] n True by (simp add: k_def)
  have s: "length (shift_left 1 k (?n - 1) (sq_entries q)) = 128 \<and>
    (\<forall>j < 128. shift_left 1 k (?n - 1) (sq_entries q) ! j = (if k \<le> j \<and> j < ?n - 1 then sq_entries q ! (j + 1) else sq_entries q ! j))"
    using shift_left_nth [of "?n - 1" 1 "sq_entries q" k] holds_nth(1) [OF h] n True by simp
  have "holds (q\<lparr>sq_entries := ?es, sq_count := ?n - 1\<rparr>) ?l"
  proof (rule holdsI)
    fix j :: nat assume j: "j < 128"
    show "sq_entries (q\<lparr>sq_entries := ?es, sq_count := ?n - 1\<rparr>) ! j = (if j < length ?l then Some (?l ! j) else None)"
      using s holds_nth [OF h] j n True by (auto simp: nth_list_update nth_append min_def)
  qed (use n s True in auto)
  then show ?thesis using n True by (simp add: cancel_sleep_def f)
next
  case False
  have "find_sleeper (sq_entries q) task 0 (length l) = Ok None"
    using find_sleeper_takeWhile [of "length l" l "sq_entries q" 0 task] holds_nth [OF h] h False
    by (simp add: k_def holds_def MAX_SLEEPING_def)
  with h False show ?thesis by (simp add: cancel_sleep_def holds_def)
qed

section \<open>The reference\<close>

text \<open>
  What the queue promises, on the list of sleeping tasks in the order in which they went to sleep: a tick
  wakes those whose time has come, in the order of their wake-up ticks and among equals in the order
  of the list; a cancellation removes the task's earliest entry.
\<close>

datatype sleep_op = SleepUntil u64 u64 | SleepFor u64 u64 u64 | SleepTick u64 | CancelSleep u64

datatype sleep_out = Slept bool | Woke "u64 list" | Cancelled bool

fun sleep_exec :: "sleep_op \<Rightarrow> SleepQueue \<Rightarrow> sleep_out kresult \<times> SleepQueue" where
  "sleep_exec (SleepUntil task tick) q = map_prod (map_outcome id Slept) id (sleep_until task tick q)"
| "sleep_exec (SleepFor task now d) q = map_prod (map_outcome id Slept) id (sleep_for task now d q)"
| "sleep_exec (SleepTick now) q = map_prod (map_outcome id Woke) id (sleep_tick now q)"
| "sleep_exec (CancelSleep task) q = map_prod (map_outcome id Cancelled) id (cancel_sleep task q)"

fun sleep_run :: "sleep_op list \<Rightarrow> SleepQueue \<Rightarrow> sleep_out kresult list \<times> SleepQueue" where
  "sleep_run [] q = ([], q)"
| "sleep_run (op # ops) q =
     (case sleep_exec op q of (r, q1) \<Rightarrow> case sleep_run ops q1 of (rs, q2) \<Rightarrow> (r # rs, q2))"

definition go_to_sleep :: "u64 \<Rightarrow> u64 \<Rightarrow> SleepEntry list \<Rightarrow> sleep_out \<times> SleepEntry list" where
  "go_to_sleep task tick l =
     (if length l < 128 then (Slept True, l @ [\<lparr>se_task_id = task, se_wakeup_tick = tick\<rparr>]) else (Slept False, l))"

fun wake_exec :: "sleep_op \<Rightarrow> SleepEntry list \<Rightarrow> sleep_out \<times> SleepEntry list" where
  "wake_exec (SleepUntil task tick) l = go_to_sleep task tick l"
| "wake_exec (SleepFor task now d) l = go_to_sleep task (now + d) l"
| "wake_exec (SleepTick now) l =
     (Woke (map se_task_id (sort_key se_wakeup_tick (filter (\<lambda>e. se_wakeup_tick e \<le> now) l))),
      filter (\<lambda>e. now < se_wakeup_tick e) l)"
| "wake_exec (CancelSleep task) l =
     (case find (\<lambda>e. se_task_id e = task) (sort_key se_wakeup_tick l) of
        None \<Rightarrow> (Cancelled False, l) | Some e \<Rightarrow> (Cancelled True, remove1 e l))"

fun wake_run :: "sleep_op list \<Rightarrow> SleepEntry list \<Rightarrow> sleep_out list \<times> SleepEntry list" where
  "wake_run [] l = ([], l)"
| "wake_run (op # ops) l = (case wake_exec op l of (r, l1) \<Rightarrow> case wake_run ops l1 of (rs, l2) \<Rightarrow> (r # rs, l2))"

abbreviation by_tick :: "SleepEntry list \<Rightarrow> SleepEntry list" where
  "by_tick \<equiv> sort_key se_wakeup_tick"

lemma until_refines:
  assumes "holds q (by_tick l)"
  shows "\<exists>q1. sleep_until task tick q = (Ok (length l < 128), q1) \<and>
    holds q1 (by_tick (snd (go_to_sleep task tick l))) \<and> fst (go_to_sleep task tick l) = Slept (length l < 128)"
  using sleep_until_holds [OF assms, of task tick] assms
  by (auto simp: go_to_sleep_def sort_key_snoc MAX_SLEEPING_def split: if_splits)

lemma tick_refines:
  assumes "holds q (by_tick l)"
  shows "\<exists>q1. sleep_tick now q = (Ok (map se_task_id (by_tick (filter (\<lambda>e. se_wakeup_tick e \<le> now) l))), q1) \<and>
    holds q1 (by_tick (filter (\<lambda>e. now < se_wakeup_tick e) l))"
  using sleep_tick_holds [OF assms, of now] by (simp add: sorted_takeWhile sorted_dropWhile filter_sort)

lemma remove_first:
  assumes "find P xs = Some x"
  shows "length (takeWhile (\<lambda>y. \<not> P y) xs) < length xs"
    "take (length (takeWhile (\<lambda>y. \<not> P y) xs)) xs @ drop (Suc (length (takeWhile (\<lambda>y. \<not> P y) xs))) xs = remove1 x xs"
proof -
  obtain ys zs where xs: "xs = ys @ x # zs" and y: "\<forall>y \<in> set ys. \<not> P y" "P x" using find_split [OF assms] by blast
  have t: "takeWhile (\<lambda>y. \<not> P y) xs = ys" using y by (simp add: xs takeWhile_append2)
  have "x \<notin> set ys" using y by auto
  then show "length (takeWhile (\<lambda>y. \<not> P y) xs) < length xs"
    "take (length (takeWhile (\<lambda>y. \<not> P y) xs)) xs @ drop (Suc (length (takeWhile (\<lambda>y. \<not> P y) xs))) xs = remove1 x xs"
    unfolding t by (simp_all add: xs remove1_append)
qed

lemma cancel_refines:
  assumes h: "holds q (by_tick l)"
  shows "\<exists>q1 b. cancel_sleep task q = (Ok b, q1) \<and> fst (wake_exec (CancelSleep task) l) = Cancelled b \<and>
    holds q1 (by_tick (snd (wake_exec (CancelSleep task) l)))"
proof (cases "find (\<lambda>e. se_task_id e = task) (by_tick l)")
  case None
  then have "takeWhile (\<lambda>e. se_task_id e \<noteq> task) (by_tick l) = by_tick l"
    by (auto simp: find_None_iff takeWhile_eq_all_conv)
  with cancel_sleep_holds [OF h, of task] None show ?thesis by auto
next
  case (Some e)
  with cancel_sleep_holds [OF h, of task] remove_first [OF Some] show ?thesis
    by (auto simp: sort_key_remove1)
qed

lemma exec_refines:
  assumes "holds q (by_tick l)"
  shows "\<exists>q1. sleep_exec op q = (Ok (fst (wake_exec op l)), q1) \<and> holds q1 (by_tick (snd (wake_exec op l)))"
proof (cases op)
  case (CancelSleep task)
  then show ?thesis using cancel_refines [OF assms, of task] by auto
qed (use until_refines [OF assms] tick_refines [OF assms] in \<open>force simp: sleep_for_def\<close>)+

lemma run_refines:
  "holds q (by_tick l) \<Longrightarrow> fst (sleep_run ops q) = map Ok (fst (wake_run ops l)) \<and>
     holds (snd (sleep_run ops q)) (by_tick (snd (wake_run ops l)))"
proof (induction ops arbitrary: q l)
  case (Cons op ops)
  obtain q1 where q1: "sleep_exec op q = (Ok (fst (wake_exec op l)), q1)" "holds q1 (by_tick (snd (wake_exec op l)))"
    using exec_refines [OF Cons.prems] by blast
  show ?case using Cons.IH [OF q1(2)] by (auto simp: q1(1) split: prod.splits)
qed simp

text \<open>
  C34 (refinement). Whatever the calls, the sleep queue never panics, answers every call as the reference
  does, and holds the sleeping tasks in the stable order of their wake-up ticks: a tick wakes
  exactly the tasks whose time has come, in order, and no sleeper is lost or woken twice.
\<close>

theorem sleep_queue_refines:
  "fst (sleep_run ops sleep_queue_new) = map Ok (fst (wake_run ops [])) \<and>
   holds (snd (sleep_run ops sleep_queue_new)) (sort_key se_wakeup_tick (snd (wake_run ops [])))"
proof (rule run_refines)
  show "holds sleep_queue_new (by_tick [])" by (simp add: holds_def sleep_queue_new_def)
qed

end
