(* ===== verification/Timekeeping.thy ===== *)
theory Timekeeping
  imports KError Interfaces
begin

text \<open>
  The kernel's clocks, \<open>kernel/src/time.rs\<close>: the timekeeper behind its mutex, the copy that readers use
  without it, and the conversion of counter cycles. A reading of the counter is an argument. A call that would
  wait for a mutex its own thread holds never returns: its result is \<open>None\<close>.
\<close>

section \<open>State\<close>

definition NSEC_PER_SEC :: u64 where "NSEC_PER_SEC = 1000000000"

text \<open>The seconds, of type \<open>i64\<close>, are a word read as signed.\<close>

record Timekeeper =
  tk_cycle_last :: u64
  tk_mult :: u32
  tk_shift :: u32
  tk_xtime_nsec :: u64
  tk_xtime_sec :: u64
  tk_monotonic_offset :: u64
  tk_boot_offset :: u64

record TkFast =
  tf_seq :: u32
  tf_cycle_now :: u64
  tf_nsec :: u64

record TimeState =
  ts_core :: Timekeeper
  ts_locked :: bool
  ts_fast :: TkFast

definition TK_CORE :: Timekeeper where
  "TK_CORE = \<lparr>tk_cycle_last = 0, tk_mult = 1, tk_shift = 0, tk_xtime_nsec = 0, tk_xtime_sec = 0,
     tk_monotonic_offset = 0, tk_boot_offset = 0\<rparr>"

definition TK_FAST_MONO :: TkFast where
  "TK_FAST_MONO = \<lparr>tf_seq = 0, tf_cycle_now = 0, tf_nsec = 0\<rparr>"

definition time_boot :: TimeState where
  "time_boot = \<lparr>ts_core = TK_CORE, ts_locked = False, ts_fast = TK_FAST_MONO\<rparr>"

text \<open>The body of a function that takes the mutex; the guard is released when it returns.\<close>

definition with_core :: "(TimeState \<Rightarrow> ('a \<times> TimeState) option) \<Rightarrow> TimeState \<Rightarrow> ('a \<times> TimeState) option" where
  "with_core f st =
     (if ts_locked st then None
      else map_option (\<lambda>(r, st1). (r, st1\<lparr>ts_locked := False\<rparr>)) (f (st\<lparr>ts_locked := True\<rparr>)))"

section \<open>Operations\<close>

definition cycles_to_ns :: "Timekeeper \<Rightarrow> u64 \<Rightarrow> u64" where
  "cycles_to_ns tk delta = drop_bit (unat (tk_shift tk) mod 64) (delta * ucast (tk_mult tk))"

text \<open>A frequency of zero is a division by zero.\<close>

definition time_init :: "u64 \<Rightarrow> u64 \<Rightarrow> TimeState \<Rightarrow> (unit kresult \<times> TimeState) option" where
  "time_init freq now = with_core (\<lambda>st.
     let shift = 24
     in if freq = 0 then Some (Panic, st)
        else let mult = ucast (push_bit shift NSEC_PER_SEC div freq);
                 tk = (ts_core st)\<lparr>tk_mult := mult, tk_shift := of_nat shift, tk_cycle_last := now, tk_xtime_sec := 0,
                        tk_xtime_nsec := 0, tk_monotonic_offset := 0, tk_boot_offset := 0\<rparr>
             in Some (Ok (), st\<lparr>ts_core := tk,
                        ts_fast := (ts_fast st)\<lparr>tf_cycle_now := tk_cycle_last tk, tf_nsec := 0\<rparr>\<rparr>))"

text \<open>With no writer at work the two reads of the sequence counter agree at once.\<close>

definition ktime_get_ns :: "u64 \<Rightarrow> TimeState \<Rightarrow> (u64 \<times> TimeState) option" where
  "ktime_get_ns now st =
     (let cycle_now = tf_cycle_now (ts_fast st); nsec = tf_nsec (ts_fast st); delta = now - cycle_now
      in with_core (\<lambda>st. Some (nsec + cycles_to_ns (ts_core st) delta, st)) st)"

definition ktime_get_us :: "u64 \<Rightarrow> TimeState \<Rightarrow> (u64 \<times> TimeState) option" where
  "ktime_get_us now st = map_option (map_prod (\<lambda>ns. ns div 1000) id) (ktime_get_ns now st)"

definition ktime_get_sec :: "TimeState \<Rightarrow> (u64 \<times> TimeState) option" where
  "ktime_get_sec = with_core (\<lambda>st. Some (tk_xtime_sec (ts_core st), st))"

definition ktime_get_real_ns :: "u64 \<Rightarrow> TimeState \<Rightarrow> (u64 \<times> TimeState) option" where
  "ktime_get_real_ns now = with_core (\<lambda>st.
     map_option (\<lambda>(mono_ns, st1). (mono_ns + tk_boot_offset (ts_core st), st1)) (ktime_get_ns now st))"

definition ktime_get_boottime_ns :: "u64 \<Rightarrow> TimeState \<Rightarrow> (u64 \<times> TimeState) option" where
  "ktime_get_boottime_ns now = with_core (\<lambda>st.
     map_option (\<lambda>(ns, st1). (ns + tk_boot_offset (ts_core st), st1)) (ktime_get_ns now st))"

function carry_seconds :: "u64 \<Rightarrow> u64 \<Rightarrow> u64 \<times> u64" where
  "carry_seconds nsec sec =
     (if nsec \<ge> NSEC_PER_SEC then carry_seconds (nsec - NSEC_PER_SEC) (sec + 1) else (nsec, sec))"
  by pat_completeness auto
termination
  by (relation "measure (\<lambda>(nsec, _). unat nsec)") (auto simp: NSEC_PER_SEC_def unat_sub word_le_nat_alt)

declare carry_seconds.simps [simp del]

definition update_wall_time :: "u64 \<Rightarrow> TimeState \<Rightarrow> (unit \<times> TimeState) option" where
  "update_wall_time now = with_core (\<lambda>st.
     let tk = ts_core st;
         delta = now - tk_cycle_last tk;
         (nsec, sec) = carry_seconds (tk_xtime_nsec tk + cycles_to_ns tk delta) (tk_xtime_sec tk);
         tk1 = tk\<lparr>tk_xtime_nsec := nsec, tk_xtime_sec := sec, tk_cycle_last := now\<rparr>
     in Some ((), st\<lparr>ts_core := tk1,
          ts_fast := \<lparr>tf_seq = tf_seq (ts_fast st) + 1, tf_cycle_now = now, tf_nsec = tk_xtime_nsec tk1\<rparr>\<rparr>))"

definition do_settimeofday :: "u64 \<Rightarrow> u64 \<Rightarrow> TimeState \<Rightarrow> (unit \<times> TimeState) option" where
  "do_settimeofday sec nsec = with_core (\<lambda>st.
     Some ((), st\<lparr>ts_core := (ts_core st)\<lparr>tk_xtime_sec := sec, tk_xtime_nsec := nsec\<rparr>\<rparr>))"

record Timespec =
  tv_sec :: u64
  tv_nsec :: u64

definition timespec_from_ns :: "u64 \<Rightarrow> Timespec" where
  "timespec_from_ns ns = \<lparr>tv_sec = ns div NSEC_PER_SEC, tv_nsec = ns mod NSEC_PER_SEC\<rparr>"

definition timespec_to_ns :: "Timespec \<Rightarrow> u64" where
  "timespec_to_ns t = tv_sec t * NSEC_PER_SEC + tv_nsec t"

definition ktime_get_ts :: "u64 \<Rightarrow> TimeState \<Rightarrow> (Timespec \<times> TimeState) option" where
  "ktime_get_ts now st = map_option (map_prod timespec_from_ns id) (ktime_get_ns now st)"

definition ktime_get_real_ts :: "u64 \<Rightarrow> TimeState \<Rightarrow> (Timespec \<times> TimeState) option" where
  "ktime_get_real_ts now st = map_option (map_prod timespec_from_ns id) (ktime_get_real_ns now st)"

definition ktime_get_coarse_ts :: "TimeState \<Rightarrow> (Timespec \<times> TimeState) option" where
  "ktime_get_coarse_ts = with_core (\<lambda>st.
     Some (\<lparr>tv_sec = tk_xtime_sec (ts_core st), tv_nsec = tk_xtime_nsec (ts_core st)\<rparr>, st))"

definition timekeeping_suspend :: "u64 \<Rightarrow> TimeState \<Rightarrow> (unit \<times> TimeState) option" where
  "timekeeping_suspend now = with_core (\<lambda>st. Some ((), st\<lparr>ts_core := (ts_core st)\<lparr>tk_cycle_last := now\<rparr>\<rparr>))"

definition timekeeping_resume :: "u64 \<Rightarrow> TimeState \<Rightarrow> (unit \<times> TimeState) option" where
  "timekeeping_resume now = with_core (\<lambda>st.
     let tk = ts_core st; delta_ns = cycles_to_ns tk (now - tk_cycle_last tk)
     in Some ((), st\<lparr>ts_core := tk\<lparr>tk_boot_offset := tk_boot_offset tk + delta_ns, tk_cycle_last := now\<rparr>\<rparr>))"

section \<open>The lock-free read\<close>

text \<open>
  Reader and writer one atomic access at a time. The writer adds one to the sequence counter before it
  stores the new values and stores the same number again after them; the reader accepts its values when it
  reads the same number before and after.
\<close>

datatype writer = WIdle | WBegun u32 u64 u64 | WCycle u32 u64 | WNsec u32
datatype reader = RIdle | RSeq u32 | RCycle u32 u64 | RNsec u32 u64 u64 | RAccepted u64 u64

record seq_state =
  sl_fast :: TkFast
  sl_writer :: writer
  sl_reader :: reader

inductive seq_step :: "seq_state \<Rightarrow> seq_state \<Rightarrow> bool" where
  write_begin: "sl_writer s = WIdle \<Longrightarrow>
    seq_step s (s\<lparr>sl_fast := (sl_fast s)\<lparr>tf_seq := tf_seq (sl_fast s) + 1\<rparr>, sl_writer := WBegun (tf_seq (sl_fast s)) now ns\<rparr>)"
| write_cycle: "sl_writer s = WBegun q now ns \<Longrightarrow>
    seq_step s (s\<lparr>sl_fast := (sl_fast s)\<lparr>tf_cycle_now := now\<rparr>, sl_writer := WCycle q ns\<rparr>)"
| write_nsec: "sl_writer s = WCycle q ns \<Longrightarrow>
    seq_step s (s\<lparr>sl_fast := (sl_fast s)\<lparr>tf_nsec := ns\<rparr>, sl_writer := WNsec q\<rparr>)"
| write_end: "sl_writer s = WNsec q \<Longrightarrow>
    seq_step s (s\<lparr>sl_fast := (sl_fast s)\<lparr>tf_seq := q + 1\<rparr>, sl_writer := WIdle\<rparr>)"
| read_seq: "sl_reader s = RIdle \<Longrightarrow> seq_step s (s\<lparr>sl_reader := RSeq (tf_seq (sl_fast s))\<rparr>)"
| read_cycle: "sl_reader s = RSeq q \<Longrightarrow> seq_step s (s\<lparr>sl_reader := RCycle q (tf_cycle_now (sl_fast s))\<rparr>)"
| read_nsec: "sl_reader s = RCycle q c \<Longrightarrow> seq_step s (s\<lparr>sl_reader := RNsec q c (tf_nsec (sl_fast s))\<rparr>)"
| read_check: "sl_reader s = RNsec q c n \<Longrightarrow>
    seq_step s (s\<lparr>sl_reader := (if tf_seq (sl_fast s) = q then RAccepted c n else RIdle)\<rparr>)"

section \<open>Wall time\<close>

lemma carry_seconds_eq:
  "carry_seconds n sec = (n mod NSEC_PER_SEC, sec + n div NSEC_PER_SEC)"
proof (induction n sec rule: carry_seconds.induct)
  case (1 n sec)
  show ?case
  proof (cases "n \<ge> NSEC_PER_SEC")
    case True
    then have u: "unat (n - NSEC_PER_SEC) = unat n - 1000000000" "1000000000 \<le> unat n"
      by (simp_all add: NSEC_PER_SEC_def unat_sub word_le_nat_alt)
    have "(n - NSEC_PER_SEC) mod NSEC_PER_SEC = n mod NSEC_PER_SEC"
      using u by (simp add: word_unat_eq_iff unat_mod NSEC_PER_SEC_def le_mod_geq [symmetric])
    moreover have "(n - NSEC_PER_SEC) div NSEC_PER_SEC + 1 = n div NSEC_PER_SEC"
    proof -
      have "unat (n div NSEC_PER_SEC) = unat n div 1000000000"
        "unat ((n - NSEC_PER_SEC) div NSEC_PER_SEC) = (unat n - 1000000000) div 1000000000"
        using u(1) by (simp_all add: NSEC_PER_SEC_def unat_div)
      moreover have "unat n div 1000000000 = Suc ((unat n - 1000000000) div 1000000000)"
        using u(2) by (simp add: le_div_geq)
      ultimately have "unat (n div NSEC_PER_SEC) = Suc (unat ((n - NSEC_PER_SEC) div NSEC_PER_SEC))" by simp
      then have "(of_nat (unat (n div NSEC_PER_SEC)) :: u64) = of_nat (Suc (unat ((n - NSEC_PER_SEC) div NSEC_PER_SEC)))"
        by (rule arg_cong)
      then show ?thesis by (simp add: add.commute)
    qed
    ultimately show ?thesis using 1(1) [OF True] True by (subst carry_seconds.simps) (simp add: add.assoc add.commute [of 1])
  next
    case False
    then have "n mod NSEC_PER_SEC = n" "n div NSEC_PER_SEC = 0"
      by (simp_all add: word_unat_eq_iff unat_mod unat_div word_le_nat_alt not_le)
    with False show ?thesis by (subst carry_seconds.simps) simp
  qed
qed

definition wall_total :: "TimeState \<Rightarrow> nat" where
  "wall_total st = unat (tk_xtime_sec (ts_core st)) * 1000000000 + unat (tk_xtime_nsec (ts_core st))"

definition in_step :: "TimeState \<Rightarrow> bool" where
  "in_step st \<longleftrightarrow> \<not> ts_locked st \<and> tf_cycle_now (ts_fast st) = tk_cycle_last (ts_core st) \<and>
     tf_nsec (ts_fast st) = tk_xtime_nsec (ts_core st) \<and> unat (tk_xtime_nsec (ts_core st)) < 1000000000"

text \<open>The nanoseconds of a gap between two readings, as natural numbers.\<close>

definition gap_ns :: "nat \<Rightarrow> u64 \<Rightarrow> u64 \<Rightarrow> nat" where
  "gap_ns mult a b = unat (b - a) * mult div 2 ^ 24"

lemma unat_mult_ucast: "unat (x :: u64) * unat (m :: u32) < 2 ^ 64 \<Longrightarrow> unat (x * ucast m) = unat x * unat m"
proof -
  assume a: "unat x * unat m < 2 ^ 64"
  have "unat (ucast m :: u64) = unat m" by (simp add: unsigned_ucast_eq take_bit_nat_eq_self unat_u32_less [THEN less_trans])
  with a show ?thesis by (simp add: unat_mult_lem [THEN iffD1])
qed

lemma cycles_to_ns_gap:
  assumes "tk_shift tk = 24" "unat (b - a) * unat (tk_mult tk) < 2 ^ 64"
  shows "unat (cycles_to_ns tk (b - a)) = gap_ns (unat (tk_mult tk)) a b"
proof -
  have "cycles_to_ns tk (b - a) = drop_bit 24 ((b - a) * ucast (tk_mult tk))"
    using assms(1) by (simp only: cycles_to_ns_def) simp
  then have "unat (cycles_to_ns tk (b - a)) = drop_bit 24 (unat ((b - a) * ucast (tk_mult tk)))"
    by (simp only: unat_drop_bit_eq)
  then show ?thesis by (simp only: gap_ns_def unat_mult_ucast [OF assms(2)] drop_bit_eq_div)
qed

lemma update_accounts:
  assumes i: "in_step st" and s: "tk_shift (ts_core st) = 24"
    and g: "unat (now - tk_cycle_last (ts_core st)) * unat (tk_mult (ts_core st)) < 2 ^ 64"
    and t: "wall_total st + gap_ns (unat (tk_mult (ts_core st))) (tk_cycle_last (ts_core st)) now < 2 ^ 64"
  shows "\<exists>st1. update_wall_time now st = Some ((), st1) \<and> in_step st1 \<and>
    tk_shift (ts_core st1) = 24 \<and> tk_mult (ts_core st1) = tk_mult (ts_core st) \<and> tk_cycle_last (ts_core st1) = now \<and>
    wall_total st1 = wall_total st + gap_ns (unat (tk_mult (ts_core st))) (tk_cycle_last (ts_core st)) now"
proof -
  let ?tk = "ts_core st" and ?d = "gap_ns (unat (tk_mult (ts_core st))) (tk_cycle_last (ts_core st)) now"
  let ?n = "tk_xtime_nsec ?tk + cycles_to_ns ?tk (now - tk_cycle_last ?tk)"
  have d: "unat (cycles_to_ns ?tk (now - tk_cycle_last ?tk)) = ?d" by (rule cycles_to_ns_gap [OF s g])
  have n: "unat ?n = unat (tk_xtime_nsec ?tk) + ?d"
    using t d by (simp add: wall_total_def unat_add_lem [THEN iffD1])
  have nsec: "unat (?n mod NSEC_PER_SEC) = unat ?n mod 1000000000"
    and sec: "unat (?n div NSEC_PER_SEC) = unat ?n div 1000000000"
    by (simp_all add: NSEC_PER_SEC_def unat_mod unat_div)
  have split: "unat ?n div 1000000000 * 1000000000 + unat ?n mod 1000000000 = unat ?n" by (rule div_mult_mod_eq)
  have "unat (tk_xtime_sec ?tk) + unat ?n div 1000000000 < 2 ^ 64" using t n split by (simp add: wall_total_def)
  then have "unat (tk_xtime_sec ?tk + ?n div NSEC_PER_SEC) = unat (tk_xtime_sec ?tk) + unat ?n div 1000000000"
    by (simp add: sec unat_add_lem [THEN iffD1])
  then have "unat (tk_xtime_sec ?tk + ?n div NSEC_PER_SEC) * 1000000000 + unat (?n mod NSEC_PER_SEC) = wall_total st + ?d"
    using n split by (simp add: wall_total_def nsec add_mult_distrib)
  moreover have "unat (?n mod NSEC_PER_SEC) < 1000000000" by (simp add: nsec)
  ultimately show ?thesis using i s
    by (auto simp: update_wall_time_def with_core_def carry_seconds_eq in_step_def wall_total_def Let_def)
qed

fun wall_run :: "u64 list \<Rightarrow> TimeState \<Rightarrow> TimeState option" where
  "wall_run [] st = Some st"
| "wall_run (now # nows) st = (case update_wall_time now st of None \<Rightarrow> None | Some (_, st1) \<Rightarrow> wall_run nows st1)"

text \<open>The gaps between consecutive readings, from a first one on.\<close>

fun gaps :: "(u64 \<Rightarrow> u64 \<Rightarrow> 'a) \<Rightarrow> u64 \<Rightarrow> u64 list \<Rightarrow> 'a list" where
  "gaps f c [] = []"
| "gaps f c (now # nows) = f c now # gaps f now nows"

lemma wall_run_accounts:
  assumes "in_step st" "tk_shift (ts_core st) = 24" "tk_mult (ts_core st) = m"
    "\<forall>g \<in> set (gaps (\<lambda>a b. unat (b - a) * unat m) (tk_cycle_last (ts_core st)) nows). g < 2 ^ 64"
    "wall_total st + sum_list (gaps (gap_ns (unat m)) (tk_cycle_last (ts_core st)) nows) < 2 ^ 64"
  shows "\<exists>st1. wall_run nows st = Some st1 \<and> in_step st1 \<and> tk_shift (ts_core st1) = 24 \<and> tk_mult (ts_core st1) = m \<and>
    tk_cycle_last (ts_core st1) = last (tk_cycle_last (ts_core st) # nows) \<and>
    wall_total st1 = wall_total st + sum_list (gaps (gap_ns (unat m)) (tk_cycle_last (ts_core st)) nows)"
  using assms
proof (induction nows arbitrary: st)
  case (Cons now nows)
  obtain st1 where st1: "update_wall_time now st = Some ((), st1)" "in_step st1" "tk_shift (ts_core st1) = 24"
    "tk_mult (ts_core st1) = m" "tk_cycle_last (ts_core st1) = now"
    "wall_total st1 = wall_total st + gap_ns (unat m) (tk_cycle_last (ts_core st)) now"
    using update_accounts [of st now] Cons.prems by auto
  with Cons.IH [of st1] Cons.prems show ?case by (auto simp: add.assoc)
qed simp

text \<open>
  The conversion factor for a counter frequency: nanoseconds per cycle times 2 to the 24, cut to 32
  bits by the \<open>as u32\<close> of \<open>time_init\<close>. Nothing is cut off above 3906250 Hz; at 3906250 Hz the factor
  is 0, and below it is too small.
\<close>

definition mult_of :: "u64 \<Rightarrow> nat" where
  "mult_of freq = 1000000000 * 2 ^ 24 div unat freq mod 2 ^ 32"

lemma time_init_boot:
  assumes "freq \<noteq> 0"
  obtains st where "time_init freq c0 time_boot = Some (Ok (), st)" "in_step st"
    "tk_shift (ts_core st) = 24" "tk_cycle_last (ts_core st) = c0" "wall_total st = 0"
    "unat (tk_mult (ts_core st)) = mult_of freq"
proof -
  obtain st where st: "time_init freq c0 time_boot = Some (Ok (), st)"
    using assms by (simp add: time_init_def with_core_def time_boot_def Let_def)
  have "unat (push_bit 24 NSEC_PER_SEC div freq) = 1000000000 * 2 ^ 24 div unat freq"
    by (simp add: unat_div NSEC_PER_SEC_def)
  then have "unat (ucast (push_bit 24 NSEC_PER_SEC div freq) :: u32) = mult_of freq"
    by (simp add: unsigned_ucast_eq take_bit_eq_mod mult_of_def)
  moreover have "tk_mult (ts_core st) = ucast (push_bit 24 NSEC_PER_SEC div freq)"
    using st assms by (auto simp: time_init_def with_core_def time_boot_def Let_def)
  ultimately have "unat (tk_mult (ts_core st)) = mult_of freq" by simp
  moreover have "in_step st" "tk_shift (ts_core st) = 24" "tk_cycle_last (ts_core st) = c0" "wall_total st = 0"
    using st assms
    by (auto simp: time_init_def with_core_def time_boot_def in_step_def wall_total_def Let_def)
  ultimately show thesis using that st by blast
qed

text \<open>
  Above 3906250 Hz a converted gap is never longer than the gap, and shorter by less than two
  nanoseconds and one for each 2 to the 24 cycles.
\<close>

lemma mult_of_accurate:
  assumes "3906250 < unat freq"
  shows "gap_ns (mult_of freq) a b * unat freq \<le> unat (b - a) * 1000000000"
    "unat (b - a) * 1000000000 < (gap_ns (mult_of freq) a b + unat (b - a) div 2 ^ 24 + 2) * unat freq"
proof -
  let ?f = "unat freq" and ?g = "unat (b - a)" and ?N = "1000000000 * 2 ^ 24 :: nat"
  define m where "m = ?N div ?f"
  define G where "G = ?g * m div 2 ^ 24"
  have "m < 2 ^ 32" unfolding m_def using assms by (intro div_less_iff_less_mult [THEN iffD2]) simp_all
  then have "mult_of freq = m" unfolding mult_of_def m_def [symmetric] by simp
  then have G: "gap_ns (mult_of freq) a b = G" by (simp add: gap_ns_def G_def)
  have lo: "m * ?f \<le> ?N" unfolding m_def by (rule div_times_less_eq_dividend)
  have hi: "?N < (m + 1) * ?f" unfolding m_def using assms dividend_less_div_times [of ?f ?N] by simp
  have G1: "G * 2 ^ 24 \<le> ?g * m" unfolding G_def by (rule div_times_less_eq_dividend)
  have G2: "?g * m < (G + 1) * 2 ^ 24" unfolding G_def using dividend_less_div_times [of "2 ^ 24" "?g * m"] by simp
  have g2: "?g < (?g div 2 ^ 24 + 1) * 2 ^ 24" using dividend_less_div_times [of "2 ^ 24" ?g] by simp
  have "(G * ?f) * 2 ^ 24 = (G * 2 ^ 24) * ?f" by simp
  also have "\<dots> \<le> (?g * m) * ?f" using G1 by (rule mult_le_mono1)
  also have "\<dots> = ?g * (m * ?f)" by simp
  also have "\<dots> \<le> ?g * ?N" using lo by (rule mult_le_mono2)
  finally show "gap_ns (mult_of freq) a b * ?f \<le> ?g * 1000000000" unfolding G by simp
  define A where "A = G + ?g div 2 ^ 24 + 2"
  have "?g * (m + 1) < A * 2 ^ 24" using G2 g2 by (simp add: A_def algebra_simps)
  then have "?g * (m + 1) * ?f < A * 2 ^ 24 * ?f" by (rule mult_strict_right_mono) (use assms in simp)
  moreover have "?g * ?N \<le> ?g * ((m + 1) * ?f)" using hi by (intro mult_le_mono2 less_imp_le)
  ultimately have "?g * ?N < A * 2 ^ 24 * ?f" by (simp only: mult.assoc)
  then have "?g * 1000000000 * 2 ^ 24 < A * ?f * 2 ^ 24" by (simp only: mult_ac)
  then have "?g * 1000000000 < A * ?f" by (rule mult_less_cancel2 [THEN iffD1, THEN conjunct2])
  then show "?g * 1000000000 < (gap_ns (mult_of freq) a b + ?g div 2 ^ 24 + 2) * ?f" unfolding G A_def .
qed

text \<open>
  C35 (bounds). After \<open>time_init\<close> with a counter frequency, as long as no gap between two updates
  overflows the 64-bit product and the total fits, the wall clock counts every gap, converted with the
  factor of that frequency: seconds and nanoseconds are the sum of the converted gaps, the
  nanoseconds below a second. Above 3906250 Hz the conversion of a gap is right to less than
  two nanoseconds and one more for each 2 to the 24 cycles. At 3906250 Hz exactly the factor,
  truncated to 32 bits, is 0 and the wall clock stands still.
  The monotonic clock, though, is the sum modulo one second plus the time since the last update, so it falls back
  every second; and the three clocks of real and boot time never return.
\<close>

theorem clock_readings:
  assumes "freq \<noteq> 0" "m = 1000000000 * 2 ^ 24 div unat freq mod 2 ^ 32"
    "\<forall>g \<in> set (gaps (\<lambda>a b. unat (b - a) * m) c0 (nows @ [now])). g < 2 ^ 64"
    "sum_list (gaps (gap_ns m) c0 nows) < 2 ^ 64"
  shows "\<exists>st st1. time_init freq c0 time_boot = Some (Ok (), st) \<and> wall_run nows st = Some st1 \<and>
    unat (tk_xtime_sec (ts_core st1)) * 1000000000 + unat (tk_xtime_nsec (ts_core st1)) = sum_list (gaps (gap_ns m) c0 nows) \<and>
    unat (tk_xtime_nsec (ts_core st1)) < 1000000000 \<and>
    ktime_get_ns now st1 = Some (of_nat (sum_list (gaps (gap_ns m) c0 nows) mod 1000000000 + gap_ns m (last (c0 # nows)) now), st1) \<and>
    ktime_get_real_ns now st1 = None \<and> ktime_get_real_ts now st1 = None \<and> ktime_get_boottime_ns now st1 = None \<and>
    (3906250 < unat freq \<longrightarrow> (\<forall>a b. gap_ns m a b * unat freq \<le> unat (b - a) * 1000000000 \<and>
       unat (b - a) * 1000000000 < (gap_ns m a b + unat (b - a) div 2 ^ 24 + 2) * unat freq)) \<and>
    (unat freq = 3906250 \<longrightarrow> (\<forall>a b. gap_ns m a b = 0))"
proof -
  have m: "m = mult_of freq" using assms(2) by (simp only: mult_of_def)
  obtain st where boot: "in_step st" "tk_shift (ts_core st) = 24" "tk_cycle_last (ts_core st) = c0" "wall_total st = 0"
    and init: "time_init freq c0 time_boot = Some (Ok (), st)" "m = unat (tk_mult (ts_core st))"
    using time_init_boot [OF assms(1)] m by metis
  have app: "gaps f c (xs @ [x]) = gaps f c xs @ [f (last (c # xs)) x]" for f :: "u64 \<Rightarrow> u64 \<Rightarrow> nat" and c xs x
    by (induction xs arbitrary: c) simp_all
  obtain st1 where st1: "wall_run nows st = Some st1" "in_step st1" "tk_shift (ts_core st1) = 24"
    "tk_mult (ts_core st1) = tk_mult (ts_core st)" "tk_cycle_last (ts_core st1) = last (c0 # nows)"
    "wall_total st1 = sum_list (gaps (gap_ns m) c0 nows)"
    using wall_run_accounts [OF boot(1,2) refl, of nows] init(2) assms(3,4) boot(3,4) by (auto simp: app)
  have ns: "unat (cycles_to_ns (ts_core st1) (now - last (c0 # nows))) = gap_ns m (last (c0 # nows)) now"
    using cycles_to_ns_gap [OF st1(3), of now "last (c0 # nows)"] init(2) assms(3) st1(4) by (simp add: app)
  have "unat (tk_xtime_nsec (ts_core st1)) = wall_total st1 mod 1000000000"
    using st1(2) by (simp add: wall_total_def in_step_def)
  then have "tk_xtime_nsec (ts_core st1) + cycles_to_ns (ts_core st1) (now - last (c0 # nows)) =
      of_nat (wall_total st1 mod 1000000000 + gap_ns m (last (c0 # nows)) now)"
    unfolding ns [symmetric] by (simp flip: \<open>unat (tk_xtime_nsec (ts_core st1)) = wall_total st1 mod 1000000000\<close>)
  with st1 have "ktime_get_ns now st1 = Some (of_nat (wall_total st1 mod 1000000000 + gap_ns m (last (c0 # nows)) now), st1)"
    by (simp add: ktime_get_ns_def with_core_def in_step_def)
  then have "ktime_get_ns now st1 =
      Some (of_nat (sum_list (gaps (gap_ns m) c0 nows) mod 1000000000 + gap_ns m (last (c0 # nows)) now), st1)"
    unfolding st1(6) .
  moreover have "ktime_get_real_ns now st1 = None" "ktime_get_boottime_ns now st1 = None" "ktime_get_real_ts now st1 = None"
    by (simp_all add: ktime_get_real_ns_def ktime_get_boottime_ns_def ktime_get_ns_def with_core_def ktime_get_real_ts_def)
  moreover have "unat (tk_xtime_nsec (ts_core st1)) < 1000000000" using st1(2) by (simp add: in_step_def)
  moreover have "3906250 < unat freq \<longrightarrow> (\<forall>a b. gap_ns m a b * unat freq \<le> unat (b - a) * 1000000000 \<and>
      unat (b - a) * 1000000000 < (gap_ns m a b + unat (b - a) div 2 ^ 24 + 2) * unat freq)"
    unfolding m using mult_of_accurate by blast
  moreover have "unat freq = 3906250 \<longrightarrow> (\<forall>a b. gap_ns m a b = 0)"
    unfolding m by (simp add: mult_of_def gap_ns_def)
  ultimately show ?thesis
    by (intro exI [of _ st] exI [of _ st1] conjI init(1) st1(1) st1(6) [unfolded wall_total_def]) assumption+
qed

text \<open>A 19.2 MHz counter, updated after one and after two seconds: two seconds later the clock reads less than one.\<close>

theorem clock_readings_witness:
  "\<exists>st st1. time_init 19200000 0 time_boot = Some (Ok (), st) \<and> wall_run [19200000, 38400000] st = Some st1 \<and>
     ktime_get_ns 38400000 st1 = Some (999999998, st1) \<and> ktime_get_real_ns 38400000 st1 = None"
proof -
  have u: "unat (19200000 :: u64) = 19200000" by simp
  have m: "873813333 = 1000000000 * 2 ^ 24 div unat (19200000 :: u64) mod 2 ^ 32" unfolding u by simp
  from clock_readings [OF _ m, of 0 "[19200000, 38400000]" 38400000] show ?thesis
    by (simp add: gap_ns_def) blast
qed

lemma seqlock_torn:
  "\<exists>s. reachable (\<lambda>s. s = \<lparr>sl_fast = \<lparr>tf_seq = q, tf_cycle_now = c, tf_nsec = n\<rparr>, sl_writer = WIdle, sl_reader = RIdle\<rparr>) seq_step s \<and>
     sl_writer s = WCycle q ns \<and> sl_reader s = RAccepted now n"
proof -
  let ?i = "\<lparr>sl_fast = \<lparr>tf_seq = q, tf_cycle_now = c, tf_nsec = n\<rparr>, sl_writer = WIdle, sl_reader = RIdle\<rparr>"
  let ?s = "\<lambda>c w r. \<lparr>sl_fast = \<lparr>tf_seq = q + 1, tf_cycle_now = c, tf_nsec = n\<rparr>, sl_writer = w, sl_reader = r\<rparr>"
  let ?R = "reachable (\<lambda>s. s = ?i) seq_step"
  have "?R ?i" by (rule reach_init) (rule refl)
  then have "?R (?s c (WBegun q now ns) RIdle)" by (rule reach_step) (use write_begin [of ?i now ns] in simp)
  then have "?R (?s now (WCycle q ns) RIdle)"
    by (rule reach_step) (use write_cycle [of "?s c (WBegun q now ns) RIdle" q now ns] in simp)
  then have "?R (?s now (WCycle q ns) (RSeq (q + 1)))"
    by (rule reach_step) (use read_seq [of "?s now (WCycle q ns) RIdle"] in simp)
  then have "?R (?s now (WCycle q ns) (RCycle (q + 1) now))"
    by (rule reach_step) (use read_cycle [of "?s now (WCycle q ns) (RSeq (q + 1))" "q + 1"] in simp)
  then have "?R (?s now (WCycle q ns) (RNsec (q + 1) now n))"
    by (rule reach_step) (use read_nsec [of "?s now (WCycle q ns) (RCycle (q + 1) now)" "q + 1" now] in simp)
  then have "?R (?s now (WCycle q ns) (RAccepted now n))"
    by (rule reach_step) (use read_check [of "?s now (WCycle q ns) (RNsec (q + 1) now n)" "q + 1" now n] in simp)
  then show ?thesis by (intro exI conjI) (assumption, simp_all)
qed

lemma timespec_roundtrip: "timespec_to_ns (timespec_from_ns ns) = ns"
  by (simp add: timespec_to_ns_def timespec_from_ns_def div_mult_mod_eq)

end
