(* ===== verification/PowerMgmt.thy ===== *)
theory PowerMgmt
  imports KError Interfaces
begin

text \<open>
  Power management, \<open>kernel/src/power.rs\<close>: the system's power state, the frequency governor and the wake
  sources. Every operation is one or two atomic accesses; the model runs them one call at a time.
\<close>

datatype PowerState = PwActive | PwIdle | PwStandby | PwSuspend | PwHibernate | PwOff

datatype Governor = Performance | Powersave | OnDemand | Userspace

fun power_state_u8 :: "PowerState \<Rightarrow> u8" where
  "power_state_u8 PwActive = 0"
| "power_state_u8 PwIdle = 1"
| "power_state_u8 PwStandby = 2"
| "power_state_u8 PwSuspend = 3"
| "power_state_u8 PwHibernate = 4"
| "power_state_u8 PwOff = 5"

fun governor_u8 :: "Governor \<Rightarrow> u8" where
  "governor_u8 Performance = 0"
| "governor_u8 Powersave = 1"
| "governor_u8 OnDemand = 2"
| "governor_u8 Userspace = 3"

record PowerManager =
  pm_state :: u8
  pm_governor :: u8
  pm_current_freq_khz :: u32
  pm_min_freq_khz :: u32
  pm_max_freq_khz :: u32
  pm_suspend_blocked :: bool
  pm_wake_sources :: u32

definition power_new :: "u32 \<Rightarrow> u32 \<Rightarrow> PowerManager" where
  "power_new min_freq_khz max_freq_khz = \<lparr>pm_state = power_state_u8 PwActive, pm_governor = governor_u8 OnDemand,
     pm_current_freq_khz = max_freq_khz, pm_min_freq_khz = min_freq_khz, pm_max_freq_khz = max_freq_khz,
     pm_suspend_blocked = False, pm_wake_sources = 0\<rparr>"

definition power_state :: "PowerManager \<Rightarrow> PowerState" where
  "power_state m =
     (let s = pm_state m
      in if s = 0 then PwActive else if s = 1 then PwIdle else if s = 2 then PwStandby
         else if s = 3 then PwSuspend else if s = 4 then PwHibernate else PwOff)"

definition pm_governor_of :: "PowerManager \<Rightarrow> Governor" where
  "pm_governor_of m =
     (let g = pm_governor m
      in if g = 0 then Performance else if g = 1 then Powersave else if g = 2 then OnDemand else Userspace)"

text \<open>The shutdown sequence masks interrupts and orders memory; it leaves the manager as it is.\<close>

definition set_power_state :: "PowerState \<Rightarrow> PowerManager \<Rightarrow> unit kresult \<times> PowerManager" where
  "set_power_state new_state m =
     (let current = power_state m
      in if (new_state = PwSuspend \<or> new_state = PwHibernate) \<and> pm_suspend_blocked m then (Err OperationFailed, m)
         else if current = PwOff then (Err NotSupported, m)
         else (Ok (), m\<lparr>pm_state := power_state_u8 new_state\<rparr>))"

definition set_governor :: "Governor \<Rightarrow> PowerManager \<Rightarrow> PowerManager" where
  "set_governor g m = m\<lparr>pm_governor := governor_u8 g\<rparr>"

definition set_frequency :: "u32 \<Rightarrow> PowerManager \<Rightarrow> unit kresult \<times> PowerManager" where
  "set_frequency freq_khz m =
     (if freq_khz < pm_min_freq_khz m \<or> freq_khz > pm_max_freq_khz m
      then (Err (InvalidParameter ''frequency out of range''), m)
      else (Ok (), m\<lparr>pm_current_freq_khz := freq_khz\<rparr>))"

definition block_suspend :: "PowerManager \<Rightarrow> PowerManager" where
  "block_suspend m = m\<lparr>pm_suspend_blocked := True\<rparr>"

definition unblock_suspend :: "PowerManager \<Rightarrow> PowerManager" where
  "unblock_suspend m = m\<lparr>pm_suspend_blocked := False\<rparr>"

definition register_wake_source :: "u8 \<Rightarrow> PowerManager \<Rightarrow> PowerManager" where
  "register_wake_source irq m = m\<lparr>pm_wake_sources := pm_wake_sources m OR push_bit (unat (irq AND 31)) 1\<rparr>"

definition cpu_idle_enter :: "PowerManager \<Rightarrow> PowerManager" where
  "cpu_idle_enter m =
     (if pm_governor_of m = OnDemand
      then m\<lparr>pm_current_freq_khz := max (pm_current_freq_khz m div 2) (pm_min_freq_khz m)\<rparr>
      else m)"

definition cpu_idle_exit :: "PowerManager \<Rightarrow> PowerManager" where
  "cpu_idle_exit m =
     (if pm_governor_of m = OnDemand then m\<lparr>pm_current_freq_khz := pm_max_freq_khz m\<rparr> else m)"

section \<open>Reachable states\<close>

lemma power_state_stored: "pm_state m = power_state_u8 s \<Longrightarrow> power_state m = s"
  by (cases s) (simp_all add: power_state_def)

lemma governor_stored: "pm_governor_of (set_governor g m) = g"
  by (cases g) (simp_all add: set_governor_def pm_governor_of_def)

inductive power_step :: "PowerManager \<Rightarrow> PowerManager \<Rightarrow> bool" where
  "power_step m (snd (set_power_state s m))"
| "power_step m (set_governor g m)"
| "power_step m (snd (set_frequency f m))"
| "power_step m (block_suspend m)"
| "power_step m (unblock_suspend m)"
| "power_step m (register_wake_source irq m)"
| "power_step m (cpu_idle_enter m)"
| "power_step m (cpu_idle_exit m)"

definition pm_inv :: "u32 \<Rightarrow> u32 \<Rightarrow> PowerManager \<Rightarrow> bool" where
  "pm_inv lo hi m \<longleftrightarrow> pm_min_freq_khz m = lo \<and> pm_max_freq_khz m = hi \<and>
     lo \<le> pm_current_freq_khz m \<and> pm_current_freq_khz m \<le> hi"

lemma half_le: "w div 2 \<le> w" for w :: u32
  by (simp add: word_le_nat_alt unat_div)

lemma pm_inv_step: "lo \<le> hi \<Longrightarrow> pm_inv lo hi m \<Longrightarrow> power_step m m1 \<Longrightarrow> pm_inv lo hi m1"
  by (auto simp: pm_inv_def set_power_state_def set_governor_def set_frequency_def block_suspend_def
      unblock_suspend_def register_wake_source_def cpu_idle_enter_def cpu_idle_exit_def Let_def not_less max_def
      intro: order_trans [OF half_le] elim!: power_step.cases)

text \<open>The machine as a transition system, started with a valid frequency range.\<close>

interpretation power: transition_system
    "\<lambda>m. \<exists>lo hi. lo \<le> hi \<and> m = power_new lo hi" power_step "\<lambda>m. \<exists>lo hi. lo \<le> hi \<and> pm_inv lo hi m"
proof unfold_locales
  fix m assume "\<exists>lo hi. lo \<le> hi \<and> m = power_new lo hi"
  then show "\<exists>lo hi. lo \<le> hi \<and> pm_inv lo hi m" by (auto simp: pm_inv_def power_new_def)
next
  fix m m1 assume "\<exists>lo hi. lo \<le> hi \<and> pm_inv lo hi m" "power_step m m1"
  then show "\<exists>lo hi. lo \<le> hi \<and> pm_inv lo hi m1" by (blast intro: pm_inv_step)
qed

lemma power_reachable:
  assumes "reachable (\<lambda>m. \<exists>lo hi. lo \<le> hi \<and> m = power_new lo hi) power_step m"
  shows "pm_min_freq_khz m \<le> pm_current_freq_khz m" "pm_current_freq_khz m \<le> pm_max_freq_khz m"
  using power.reachable_inv [OF assms] by (auto simp: pm_inv_def)

text \<open>
  Off is final, whatever the calls. The performance governor does not raise the frequency, and one blocker that
  unblocks lifts the block of another.
\<close>

lemma off_is_final:
  assumes "power_state m = PwOff" "power_step m m1"
  shows "power_state m1 = PwOff"
proof -
  from assms(2,1) have "pm_state m1 = pm_state m"
    by cases (simp_all add: set_power_state_def set_governor_def set_frequency_def block_suspend_def unblock_suspend_def
        register_wake_source_def cpu_idle_enter_def cpu_idle_exit_def Let_def)
  with assms(1) show ?thesis by (simp add: power_state_def)
qed

lemma governor_keeps_frequency: "pm_current_freq_khz (set_governor g m) = pm_current_freq_khz m"
  by (simp add: set_governor_def)

lemma one_unblock_suffices:
  "power_state m \<noteq> PwOff \<Longrightarrow> fst (set_power_state PwSuspend (unblock_suspend (block_suspend (block_suspend m)))) = Ok ()"
  by (simp add: set_power_state_def unblock_suspend_def block_suspend_def power_state_def Let_def split: if_splits)

end
