(* ===== verification/Vless.thy ===== *)
theory Vless
  imports KError Bytes Interfaces
begin

text \<open>
  The VLESS tunnel, \<open>kernel/src/net/vless.rs\<close>: identifiers, request headers and the tunnel's state. The mutexes
  are held for single assignments, the statistics are relaxed counters: calls run one at a time.
\<close>

section \<open>Identifiers\<close>

definition VLESS_VERSION :: u8 where "VLESS_VERSION = 0"
definition VLESS_MAX_PAYLOAD :: usize where "VLESS_MAX_PAYLOAD = 16384"
definition UUID_LEN :: usize where "UUID_LEN = 16"

type_synonym Uuid = "u8 list"

definition hex_nibble :: "u8 \<Rightarrow> u8 kresult" where
  "hex_nibble c =
     (if 0x30 \<le> c \<and> c \<le> 0x39 then Ok (c - 0x30)
      else if 0x61 \<le> c \<and> c \<le> 0x66 then Ok (c - 0x61 + 10)
      else if 0x41 \<le> c \<and> c \<le> 0x46 then Ok (c - 0x41 + 10)
      else Err (InvalidParameter ''invalid hex''))"

definition hex_byte :: "u8 \<Rightarrow> u8 \<Rightarrow> u8 kresult" where
  "hex_byte hi lo =
     (case hex_nibble hi of
        Ok h \<Rightarrow> (case hex_nibble lo of Ok l \<Rightarrow> Ok (push_bit 4 h OR l) | r \<Rightarrow> r)
      | r \<Rightarrow> r)"

text \<open>
  The loop over the text: \<open>uuid\<close> is the part of the array that is filled, \<open>idx\<close> its length. The digits are decoded
  before the index is checked.
\<close>

fun uuid_loop :: "u8 list \<Rightarrow> u8 list \<Rightarrow> u8 list kresult" where
  "uuid_loop [] uuid = Ok uuid"
| "uuid_loop [c] uuid = (if c = 0x2D then Ok uuid else Err (InvalidParameter ''invalid UUID''))"
| "uuid_loop (c # d # bytes) uuid =
     (if c = 0x2D then uuid_loop (d # bytes) uuid
      else case hex_byte c d of
             Ok b \<Rightarrow> (if length uuid < UUID_LEN then uuid_loop bytes (uuid @ [b]) else Panic)
           | Err e \<Rightarrow> Err e
           | Panic \<Rightarrow> Panic)"

definition uuid_parse :: "u8 list \<Rightarrow> Uuid kresult" where
  "uuid_parse s =
     (if length s \<noteq> 36 then Err (InvalidParameter ''UUID must be 36 chars'')
      else case uuid_loop s [] of
             Ok uuid \<Rightarrow> (if length uuid \<noteq> 16 then Err (InvalidParameter ''invalid UUID length'') else Ok uuid)
           | r \<Rightarrow> r)"

section \<open>Requests\<close>

datatype VlessCommand = CmdTcp | CmdUdp | CmdMux

fun command_u8 :: "VlessCommand \<Rightarrow> u8" where
  "command_u8 CmdTcp = 0x01"
| "command_u8 CmdUdp = 0x02"
| "command_u8 CmdMux = 0x03"

datatype AddressType = AtIPv4 | AtDomain | AtIPv6

fun address_type_u8 :: "AddressType \<Rightarrow> u8" where
  "address_type_u8 AtIPv4 = 0x01"
| "address_type_u8 AtDomain = 0x02"
| "address_type_u8 AtIPv6 = 0x03"

datatype DestAddress = DestIPv4 "u8 list" | DestIPv6 "u8 list" | DestDomain "u8 list"

record VlessRequest =
  vr_uuid :: Uuid
  vr_command :: VlessCommand
  vr_dest_port :: u16
  vr_dest_addr :: DestAddress

fun address_bytes :: "DestAddress \<Rightarrow> u8 list" where
  "address_bytes (DestIPv4 addr) = address_type_u8 AtIPv4 # addr"
| "address_bytes (DestIPv6 addr) = address_type_u8 AtIPv6 # addr"
| "address_bytes (DestDomain domain) = address_type_u8 AtDomain # of_nat (length domain) # domain"

definition vless_encode :: "VlessRequest \<Rightarrow> u8 list" where
  "vless_encode r =
     [VLESS_VERSION] @ vr_uuid r @ [0] @ [command_u8 (vr_command r)] @ to_be 2 (unat (vr_dest_port r)) @
     address_bytes (vr_dest_addr r)"

definition decode_response :: "u8 list \<Rightarrow> usize kresult" where
  "decode_response data =
     (if length data < 2 then Err (InvalidParameter ''VLESS response too short'')
      else if data ! 0 \<noteq> VLESS_VERSION then Err (InvalidParameter ''VLESS version mismatch'')
      else let addon_len = unat (data ! 1) in Ok (2 + addon_len))"

section \<open>The tunnel\<close>

datatype TransportType = TransTcp | TransWebSocket | TransGrpc | TransReality

datatype FlowType = FlowNone | XtlsVision

record VlessConfig =
  vc_server_addr :: "u8 list"
  vc_server_addr_len :: usize
  vc_server_port :: u16
  vc_uuid :: Uuid
  vc_transport :: TransportType
  vc_flow :: FlowType
  vc_sni :: "u8 list"
  vc_sni_len :: usize
  vc_enabled :: bool

datatype TunnelState = TunDisconnected | TunConnecting | TunHandshake | TunActive | TunClosing

record TunnelStats =
  tn_bytes_tx :: u64
  tn_bytes_rx :: u64
  tn_packets_tx :: u64
  tn_packets_rx :: u64
  tn_connections :: u64

definition tunnel_stats_new :: TunnelStats where
  "tunnel_stats_new = \<lparr>tn_bytes_tx = 0, tn_bytes_rx = 0, tn_packets_tx = 0, tn_packets_rx = 0, tn_connections = 0\<rparr>"

record VlessTunnel =
  vt_config :: "VlessConfig option"
  vt_state :: TunnelState
  vt_stats :: TunnelStats
  vt_active :: bool

definition tunnel_new :: VlessTunnel where
  "tunnel_new = \<lparr>vt_config = None, vt_state = TunDisconnected, vt_stats = tunnel_stats_new, vt_active = False\<rparr>"

definition tunnel_configure :: "VlessConfig \<Rightarrow> VlessTunnel \<Rightarrow> unit kresult \<times> VlessTunnel" where
  "tunnel_configure config t =
     (if vc_server_addr_len config = 0 \<or> vc_server_port config = 0
      then (Err (InvalidParameter ''invalid server config''), t)
      else (Ok (), t\<lparr>vt_config := Some config\<rparr>))"

definition tunnel_start :: "VlessTunnel \<Rightarrow> unit kresult \<times> VlessTunnel" where
  "tunnel_start t =
     (case vt_config t of
        None \<Rightarrow> (Err NotInitialized, t)
      | Some config \<Rightarrow>
          if \<not> vc_enabled config then (Err (InvalidParameter ''tunnel disabled''), t)
          else let t1 = t\<lparr>vt_state := TunConnecting, vt_active := True,
                          vt_stats := (vt_stats t)\<lparr>tn_connections := tn_connections (vt_stats t) + 1\<rparr>\<rparr>
               in (Ok (), t1\<lparr>vt_state := TunActive\<rparr>))"

definition tunnel_stop :: "VlessTunnel \<Rightarrow> VlessTunnel" where
  "tunnel_stop t = t\<lparr>vt_active := False, vt_state := TunDisconnected\<rparr>"

definition encapsulate :: "u8 list \<Rightarrow> u16 \<Rightarrow> u8 list \<Rightarrow> VlessTunnel \<Rightarrow> u8 list kresult \<times> VlessTunnel" where
  "encapsulate dest_ip dest_port payload t =
     (if \<not> vt_active t then (Err NotInitialized, t)
      else if length payload > VLESS_MAX_PAYLOAD then (Err (InvalidParameter ''payload too large''), t)
      else if length dest_ip \<noteq> 4 \<and> length dest_ip \<noteq> 16 then (Err InvalidAddress, t)
      else let dest_addr = (if length dest_ip = 4 then DestIPv4 dest_ip else DestIPv6 dest_ip)
      in case vt_config t of
           None \<Rightarrow> (Err NotInitialized, t)
         | Some cfg \<Rightarrow>
             let request = \<lparr>vr_uuid = vc_uuid cfg, vr_command = CmdTcp, vr_dest_port = dest_port, vr_dest_addr = dest_addr\<rparr>;
                 frame = vless_encode request @ payload
             in (Ok frame, t\<lparr>vt_stats := (vt_stats t)\<lparr>tn_bytes_tx := tn_bytes_tx (vt_stats t) + of_nat (length payload),
                   tn_packets_tx := tn_packets_tx (vt_stats t) + 1\<rparr>\<rparr>))"

definition decapsulate :: "u8 list \<Rightarrow> VlessTunnel \<Rightarrow> u8 list kresult \<times> VlessTunnel" where
  "decapsulate data t =
     (if \<not> vt_active t then (Err NotInitialized, t)
      else case decode_response data of
             Ok header_len \<Rightarrow>
               if length data \<le> header_len then (Ok [], t)
               else let payload = drop header_len data
                    in (Ok payload, t\<lparr>vt_stats := (vt_stats t)\<lparr>tn_bytes_rx := tn_bytes_rx (vt_stats t) + of_nat (length payload),
                          tn_packets_rx := tn_packets_rx (vt_stats t) + 1\<rparr>\<rparr>)
           | Err e \<Rightarrow> (Err e, t)
           | Panic \<Rightarrow> (Panic, t))"

definition tunnel_stats :: "VlessTunnel \<Rightarrow> u64 \<times> u64 \<times> u64 \<times> u64" where
  "tunnel_stats t = (tn_bytes_tx (vt_stats t), tn_bytes_rx (vt_stats t), tn_packets_tx (vt_stats t), tn_packets_rx (vt_stats t))"

section \<open>Texts of identifiers\<close>

definition hex_digit :: "u8 \<Rightarrow> u8" where
  "hex_digit n = (if n < 10 then 0x30 + n else 0x61 + (n - 10))"

definition hex_text :: "u8 list \<Rightarrow> u8 list" where
  "hex_text bs = concat (map (\<lambda>b. [hex_digit (b div 16), hex_digit (b mod 16)]) bs)"

definition uuid_text :: "Uuid \<Rightarrow> u8 list" where
  "uuid_text u = hex_text (take 4 u) @ [0x2D] @ hex_text (slice u 4 2) @ [0x2D] @ hex_text (slice u 6 2) @ [0x2D] @
     hex_text (slice u 8 2) @ [0x2D] @ hex_text (drop 10 u)"

lemma nibble_digit:
  assumes "n < 16"
  shows "hex_nibble (hex_digit n) = Ok n \<and> hex_digit n \<noteq> 0x2D"
proof -
  have n: "unat n < 16" using assms by (simp add: word_less_nat_alt)
  have "hex_nibble (hex_digit n) = Ok n"
    using n by (cases "unat n < 10")
      (auto simp: hex_digit_def hex_nibble_def word_le_nat_alt word_less_nat_alt unat_word_ariths unat_sub_if_size word_size)
  moreover have "unat (hex_digit n) \<noteq> 45"
    using n by (auto simp: hex_digit_def word_less_nat_alt unat_word_ariths unat_sub_if_size word_size)
  ultimately show ?thesis by auto
qed

lemma byte_halves: "push_bit 4 (b div 16) OR (b mod 16) = b" for b :: u8
proof -
  have "b div 16 = drop_bit 4 b" "b mod 16 = take_bit 4 b"
    by (simp_all add: drop_bit_eq_div take_bit_eq_mod)
  then show ?thesis
    by (intro bit_word_eqI) (auto simp: bit_or_iff bit_push_bit_iff bit_drop_bit_eq bit_take_bit_iff)
qed

lemma hex_byte_digits: "hex_byte (hex_digit (b div 16)) (hex_digit (b mod 16)) = Ok b"
proof -
  have "b div 16 < 16" "b mod 16 < 16" using unat_u8_less [of b]
    by (simp_all add: word_less_nat_alt unat_div unat_mod less_mult_imp_div_less)
  then show ?thesis by (simp add: hex_byte_def nibble_digit byte_halves)
qed

lemma hex_digit_dash: "hex_digit (b div 16) \<noteq> 0x2D" for b :: u8
  using unat_u8_less [of b]
  by (intro nibble_digit [THEN conjunct2]) (simp add: word_less_nat_alt unat_div less_mult_imp_div_less)

lemma uuid_loop_hex: "length uuid + length bs \<le> 16 \<Longrightarrow> uuid_loop (hex_text bs @ rest) uuid = uuid_loop rest (uuid @ bs)"
proof (induction bs arbitrary: uuid)
  case (Cons b bs)
  then show ?case using Cons.IH [of "uuid @ [b]"]
    by (simp add: hex_text_def hex_byte_digits hex_digit_dash UUID_LEN_def)
qed (simp add: hex_text_def)

lemma uuid_loop_dash: "uuid_loop (0x2D # rest) uuid = uuid_loop rest uuid"
  by (cases rest) simp_all

lemma length_hex_text: "length (hex_text bs) = 2 * length bs"
  by (induction bs) (simp_all add: hex_text_def)

lemma uuid_text_parses:
  assumes "length u = 16"
  shows "uuid_parse (uuid_text u) = Ok u"
proof -
  have u: "take 4 u @ slice u 4 2 @ slice u 6 2 @ slice u 8 2 @ drop 10 u = u"
    using take_add [of 4 2 u] take_add [of 6 2 u] take_add [of 8 2 u] append_take_drop_id [of 10 u]
    by (simp add: slice_def)
  have "uuid_loop (uuid_text u) [] = Ok u"
    using assms u unfolding uuid_text_def
    by (simp add: uuid_loop_hex uuid_loop_dash uuid_loop_hex [of _ _ "[]", simplified])
  moreover have "length (uuid_text u) = 36"
    using assms by (simp add: uuid_text_def length_hex_text)
  ultimately show ?thesis using assms by (simp add: uuid_parse_def)
qed

lemma hex_text_zeros: "hex_text (replicate n 0) = replicate (2 * n) 0x30"
  by (induction n) (simp_all add: hex_text_def hex_digit_def)

lemma undashed_panics: "uuid_parse (replicate 36 0x30) = Panic"
proof -
  have "replicate 36 (0x30 :: u8) = hex_text (replicate 16 0) @ [0x30, 0x30, 0x30, 0x30]"
    using replicate_add [of 32 4 "0x30 :: u8"] by (simp add: hex_text_zeros) (simp add: numeral_eq_Suc)
  then have "uuid_loop (replicate 36 0x30) [] = Panic"
    by (simp add: uuid_loop_hex hex_byte_def hex_nibble_def UUID_LEN_def)
  then show ?thesis by (simp add: uuid_parse_def)
qed

section \<open>Headers are unambiguous\<close>

text \<open>Requests as the kernel makes them; the length of a domain is sent in one byte.\<close>

fun address_wf :: "DestAddress \<Rightarrow> bool" where
  "address_wf (DestIPv4 a) = (length a = 4)"
| "address_wf (DestIPv6 a) = (length a = 16)"
| "address_wf (DestDomain d) = (length d < 256)"

lemma command_inj: "command_u8 c = command_u8 c1 \<longleftrightarrow> c = c1"
  by (cases c; cases c1) simp_all

lemma port_inj: "to_be 2 (unat (p :: u16)) = to_be 2 (unat q) \<longleftrightarrow> p = q"
proof
  assume "to_be 2 (unat p) = to_be 2 (unat q)"
  then have "be_nat (to_be 2 (unat p)) = be_nat (to_be 2 (unat q))" by (rule arg_cong)
  then show "p = q" using unat_u16_less [of p] unat_u16_less [of q] by (simp add: be_nat_to_be word_unat_eq_iff)
qed simp

lemma length_u8_inj: "m < 256 \<Longrightarrow> n < 256 \<Longrightarrow> (of_nat m :: u8) = of_nat n \<longleftrightarrow> m = n"
  by (simp add: word_of_nat_eq_iff take_bit_nat_eq_self)

lemma address_unambiguous:
  "address_wf a \<Longrightarrow> address_wf b \<Longrightarrow> address_bytes a @ p = address_bytes b @ q \<Longrightarrow> a = b \<and> p = q"
  by (cases a; cases b) (auto simp: length_u8_inj)

lemma vless_encode_unambiguous:
  assumes "length (vr_uuid r) = 16" "length (vr_uuid r1) = 16" "address_wf (vr_dest_addr r)" "address_wf (vr_dest_addr r1)"
    "vless_encode r @ p = vless_encode r1 @ p1"
  shows "r = r1 \<and> p = p1"
proof -
  have "vr_uuid r = vr_uuid r1 \<and> vr_command r = vr_command r1 \<and> vr_dest_port r = vr_dest_port r1 \<and>
      address_bytes (vr_dest_addr r) @ p = address_bytes (vr_dest_addr r1) @ p1"
    using assms(1,2,5) by (auto simp: vless_encode_def append_eq_append_conv command_inj port_inj)
  then show ?thesis using address_unambiguous [OF assms(3,4), of p p1] by (cases r; cases r1) simp
qed

text \<open>A domain of 256 bytes is sent as the empty one, its bytes taken for payload.\<close>

lemma long_domain_lost:
  assumes "length d = 256"
  shows "vless_encode (r\<lparr>vr_dest_addr := DestDomain d\<rparr>) @ p = vless_encode (r\<lparr>vr_dest_addr := DestDomain []\<rparr>) @ d @ p"
  by (simp add: vless_encode_def assms)

section \<open>Reachable tunnels\<close>

inductive tunnel_step :: "VlessTunnel \<Rightarrow> VlessTunnel \<Rightarrow> bool" where
  "tunnel_step t (snd (tunnel_configure c t))"
| "tunnel_step t (snd (tunnel_start t))"
| "tunnel_step t (tunnel_stop t)"
| "tunnel_step t (snd (encapsulate ip port payload t))"
| "tunnel_step t (snd (decapsulate data t))"

definition tunnel_inv :: "VlessTunnel \<Rightarrow> bool" where
  "tunnel_inv t \<longleftrightarrow> vt_state t = (if vt_active t then TunActive else TunDisconnected) \<and> (vt_active t \<longrightarrow> vt_config t \<noteq> None)"

lemma tunnel_inv_step:
  assumes "tunnel_step t t1" "tunnel_inv t"
  shows "tunnel_inv t1"
  using assms
proof cases
  case (1 c)
  with assms(2) show ?thesis by (simp add: tunnel_inv_def tunnel_configure_def)
next
  case 2
  with assms(2) show ?thesis by (auto simp: tunnel_inv_def tunnel_start_def Let_def split: option.split)
next
  case 3
  then show ?thesis by (simp add: tunnel_inv_def tunnel_stop_def)
next
  case (4 ip port payload)
  have "tunnel_inv (t\<lparr>vt_stats := s\<rparr>)" for s using assms(2) by (simp add: tunnel_inv_def)
  with assms(2) show ?thesis unfolding 4 by (simp add: encapsulate_def Let_def split: option.split)
next
  case (5 data)
  have "tunnel_inv (t\<lparr>vt_stats := s\<rparr>)" for s using assms(2) by (simp add: tunnel_inv_def)
  with assms(2) show ?thesis unfolding 5 by (simp add: decapsulate_def Let_def split: outcome.split)
qed

interpretation vless: transition_system "\<lambda>t. t = tunnel_new" tunnel_step tunnel_inv
  by unfold_locales (simp_all add: tunnel_inv_step, simp add: tunnel_new_def tunnel_inv_def)

lemma encapsulate_frame:
  "encapsulate ip port payload t = (Ok f, t1) \<Longrightarrow> vt_active t \<and> length payload \<le> 16384 \<and>
     (\<exists>cfg a. vt_config t = Some cfg \<and> address_wf a \<and> a = (if length ip = 4 then DestIPv4 ip else DestIPv6 ip) \<and>
        f = vless_encode \<lparr>vr_uuid = vc_uuid cfg, vr_command = CmdTcp, vr_dest_port = port, vr_dest_addr = a\<rparr> @ payload)"
  by (auto simp: encapsulate_def VLESS_MAX_PAYLOAD_def Let_def split: if_splits option.splits)

text \<open>
  A reachable tunnel sends exactly when it is active, the payload fits and the address is one of IPv4 or IPv6, and two packets have
  the same frame only if destination, port and payload are the same.
\<close>

lemma tunnel_sends:
  assumes "reachable (\<lambda>t. t = tunnel_new) tunnel_step t"
  shows "is_ok (fst (encapsulate ip port payload t)) \<longleftrightarrow>
    vt_state t = TunActive \<and> length payload \<le> 16384 \<and> (length ip = 4 \<or> length ip = 16)"
  using vless.reachable_inv [OF assms]
  by (auto simp: tunnel_inv_def encapsulate_def VLESS_MAX_PAYLOAD_def Let_def)

lemma tunnel_frames_injective:
  assumes "encapsulate ip port p t = (Ok f, t1)" "encapsulate ip1 port1 p1 t = (Ok f, t2)"
    "vt_config t = Some cfg" "length (vc_uuid cfg) = 16"
  shows "ip = ip1 \<and> port = port1 \<and> p = p1"
proof -
  obtain a b where "address_wf a" "address_wf b" and ab: "a = (if length ip = 4 then DestIPv4 ip else DestIPv6 ip)"
    "b = (if length ip1 = 4 then DestIPv4 ip1 else DestIPv6 ip1)"
    and f: "f = vless_encode \<lparr>vr_uuid = vc_uuid cfg, vr_command = CmdTcp, vr_dest_port = port, vr_dest_addr = a\<rparr> @ p"
    "f = vless_encode \<lparr>vr_uuid = vc_uuid cfg, vr_command = CmdTcp, vr_dest_port = port1, vr_dest_addr = b\<rparr> @ p1"
    using encapsulate_frame [OF assms(1)] encapsulate_frame [OF assms(2)] assms(3) by auto
  then have "port = port1 \<and> a = b \<and> p = p1"
    using vless_encode_unambiguous [OF _ _ _ _ trans [OF sym [OF f(1)] f(2)]] assms(4) by simp
  with ab show ?thesis by (auto split: if_splits)
qed

lemma decapsulate_payload:
  "vt_active t \<Longrightarrow> length addons < 256 \<Longrightarrow>
     fst (decapsulate (VLESS_VERSION # of_nat (length addons) # addons @ payload) t) = Ok payload"
  by (auto simp: decapsulate_def decode_response_def VLESS_VERSION_def Let_def unat_of_nat take_bit_nat_eq_self)

end
