(* ===== verification/Xray.thy ===== *)
theory Xray
  imports KError Bytes
begin

text \<open>
  The tunnel's transports, \<open>kernel/src/net/xray.rs\<close>: WebSocket frames, gRPC messages, the TLS records and the
  client greeting of Reality, and the wrapper that picks one. Lengths are of type \<open>usize\<close> and wrap.
\<close>

section \<open>WebSocket\<close>

record WebSocketTransport =
  ws_path :: "u8 list"
  ws_path_len :: usize
  ws_host :: "u8 list"
  ws_host_len :: usize
  ws_connected :: bool
  ws_mask_key :: u32

definition padded_array :: "nat \<Rightarrow> u8 list \<Rightarrow> u8 list" where
  "padded_array n xs = take n xs @ replicate (n - length xs) 0"

definition websocket_new :: "u8 list \<Rightarrow> u8 list \<Rightarrow> WebSocketTransport" where
  "websocket_new path host = \<lparr>ws_path = padded_array 128 path, ws_path_len = min (length path) 128,
     ws_host = padded_array 256 host, ws_host_len = min (length host) 256, ws_connected = False,
     ws_mask_key = 0x12345678\<rparr>"

definition crlf :: "u8 list" where
  "crlf = [13, 10]"

definition handshake_request :: "WebSocketTransport \<Rightarrow> u8 list" where
  "handshake_request t =
     ascii ''GET '' @ take (ws_path_len t) (ws_path t) @ ascii '' HTTP/1.1'' @ crlf @ ascii ''Host: '' @
     take (ws_host_len t) (ws_host t) @ crlf @ ascii ''Upgrade: websocket'' @ crlf @ ascii ''Connection: Upgrade'' @ crlf @
     ascii ''Sec-WebSocket-Key: dGhlIHNhbXBsZSBub25jZQ=='' @ crlf @ ascii ''Sec-WebSocket-Version: 13'' @ crlf @ crlf"

definition mask_payload :: "u8 list \<Rightarrow> u8 list \<Rightarrow> u8 list" where
  "mask_payload mk payload = map (\<lambda>i. payload ! i XOR mk ! (i mod 4)) [0 ..< length payload]"

definition ws_encode_frame :: "u8 list \<Rightarrow> WebSocketTransport \<Rightarrow> u8 list \<times> WebSocketTransport" where
  "ws_encode_frame payload t =
     (let mk = to_le 4 (unat (ws_mask_key t)); len = length payload
      in ([0x82] @
          (if len < 126 then [0x80 OR of_nat len]
           else if len < 65536 then [0x80 OR 126] @ to_be 2 len
           else [0x80 OR 127] @ to_be 8 len) @
          mk @ mask_payload mk payload,
          t\<lparr>ws_mask_key := ws_mask_key t + 1\<rparr>))"

text \<open>
  The end of the payload wraps; a slice whose end is before its start is a panic. Where the mask and the payload start is
  computed by \<open>ws_header\<close>: the offset behind the length field and the length.
\<close>

definition ws_header :: "u8 list \<Rightarrow> (usize \<times> usize) kresult" where
  "ws_header data =
     (let payload_len = unat (data ! 1 AND 0x7F)
      in if payload_len = 126 then
           (if length data < 4 then Err (InvalidParameter ''WS frame truncated'') else Ok (4, be_nat (slice data 2 2)))
         else if payload_len = 127 then
           (if length data < 10 then Err (InvalidParameter ''WS frame truncated'') else Ok (10, be_nat (slice data 2 8)))
         else Ok (2, payload_len))"

definition ws_payload :: "bool \<Rightarrow> usize \<Rightarrow> usize \<Rightarrow> u8 list \<Rightarrow> (u8 list \<times> usize) kresult" where
  "ws_payload masked offset payload_len data =
     (if masked \<and> length data < offset + 4 then Err (InvalidParameter ''WS no mask'')
      else let mask_key = (if masked then Some (slice data offset 4) else None);
               offset = (if masked then offset + 4 else offset);
               stop = uadd offset payload_len
      in if length data < stop then Err (InvalidParameter ''WS payload truncated'')
         else if stop < offset then Panic
         else let payload = slice data offset (stop - offset)
              in Ok (case mask_key of Some mk \<Rightarrow> mask_payload mk payload | None \<Rightarrow> payload, stop))"

definition ws_decode_frame :: "u8 list \<Rightarrow> (u8 list \<times> usize) kresult" where
  "ws_decode_frame data =
     (if length data < 2 then Err (InvalidParameter ''WS frame too short'')
      else let masked = (data ! 1 AND 0x80 \<noteq> 0)
      in case ws_header data of
           Ok (offset, payload_len) \<Rightarrow> ws_payload masked offset payload_len data
         | Err e \<Rightarrow> Err e
         | Panic \<Rightarrow> Panic)"

section \<open>gRPC\<close>

record GrpcTransport =
  gr_service_name :: "u8 list"
  gr_service_len :: usize
  gr_stream_id :: u32

definition grpc_new :: "u8 list \<Rightarrow> GrpcTransport" where
  "grpc_new service_name = \<lparr>gr_service_name = padded_array 128 service_name,
     gr_service_len = min (length service_name) 128, gr_stream_id = 1\<rparr>"

definition grpc_encode :: "u8 list \<Rightarrow> u8 list" where
  "grpc_encode payload = [0x00] @ to_be 4 (length payload mod 2 ^ 32) @ payload"

definition grpc_decode :: "u8 list \<Rightarrow> u8 list kresult" where
  "grpc_decode data =
     (if length data < 5 then Err (InvalidParameter ''gRPC frame too short'')
      else let len = be_nat (slice data 1 4)
      in if length data < 5 + len then Err (InvalidParameter ''gRPC frame truncated'') else Ok (slice data 5 len))"

definition next_stream_id :: "GrpcTransport \<Rightarrow> u32 \<times> GrpcTransport" where
  "next_stream_id t = (gr_stream_id t, t\<lparr>gr_stream_id := gr_stream_id t + 2\<rparr>)"

section \<open>Reality\<close>

record RealityTransport =
  rt_server_name :: "u8 list"
  rt_server_name_len :: usize
  rt_short_id :: "u8 list"
  rt_public_key :: "u8 list"
  rt_spider_x :: "u8 list"
  rt_spider_x_len :: usize

definition reality_new :: "u8 list \<Rightarrow> u8 list \<Rightarrow> u8 list \<Rightarrow> RealityTransport" where
  "reality_new server_name short_id public_key = \<lparr>rt_server_name = padded_array 256 server_name,
     rt_server_name_len = min (length server_name) 256, rt_short_id = short_id, rt_public_key = public_key,
     rt_spider_x = replicate 64 0, rt_spider_x_len = 0\<rparr>"

definition sni_extension :: "RealityTransport \<Rightarrow> u8 list" where
  "sni_extension t =
     (let name_len = rt_server_name_len t; list_len = name_len + 3; ext_len = list_len + 2
      in [0x00, 0x00] @ to_be 2 (ext_len mod 65536) @ to_be 2 (list_len mod 65536) @ [0x00] @
         to_be 2 (name_len mod 65536) @ take name_len (rt_server_name t))"

definition hello_random :: "RealityTransport \<Rightarrow> u8 list" where
  "hello_random t = map (\<lambda>i. of_nat i * 0x41 + rt_short_id t ! (i mod 8)) [0 ..< 32]"

definition hello_session_id :: "RealityTransport \<Rightarrow> u8 list" where
  "hello_session_id t = rt_short_id t @ map (\<lambda>i. hello_random t ! i XOR rt_public_key t ! (i mod 32)) [8 ..< 32]"

definition client_hello_draft :: "RealityTransport \<Rightarrow> u8 list" where
  "client_hello_draft t =
     [0x16] @ [0x03, 0x01] @ [0x00, 0x00] @ [0x01] @ [0x00, 0x00, 0x00] @ [0x03, 0x03] @ hello_random t @
     [32] @ hello_session_id t @ [0x00, 0x04] @ [0x13, 0x01] @ [0x13, 0x02] @ [0x01, 0x00] @
     to_be 2 (length (sni_extension t) mod 65536) @ sni_extension t"

text \<open>The length fields, at 3 and 6, are filled in at the end.\<close>

definition build_client_hello :: "RealityTransport \<Rightarrow> u8 list" where
  "build_client_hello t =
     (let hello = client_hello_draft t; len_pos = 3; hs_len_pos = 6;
          total = length hello - 5;
          hello = hello[len_pos := of_nat (drop_bit 8 total), len_pos + 1 := of_nat total];
          hs_len = length hello - hs_len_pos - 3
      in hello[hs_len_pos := of_nat (drop_bit 16 hs_len), hs_len_pos + 1 := of_nat (drop_bit 8 hs_len),
               hs_len_pos + 2 := of_nat hs_len])"

definition verify_server_hello :: "RealityTransport \<Rightarrow> u8 list \<Rightarrow> bool" where
  "verify_server_hello t data \<longleftrightarrow> length data \<ge> 6 \<and> data ! 0 = 0x16 \<and> data ! 5 = 0x02"

section \<open>The transports together\<close>

datatype Transport = TrTcp | TrWebSocket WebSocketTransport | TrGrpc GrpcTransport | TrReality RealityTransport

fun transport_wrap :: "u8 list \<Rightarrow> Transport \<Rightarrow> u8 list \<times> Transport" where
  "transport_wrap payload TrTcp = (payload, TrTcp)"
| "transport_wrap payload (TrWebSocket ws) = map_prod id TrWebSocket (ws_encode_frame payload ws)"
| "transport_wrap payload (TrGrpc g) = (grpc_encode payload, TrGrpc g)"
| "transport_wrap payload (TrReality r) =
     ([0x17] @ [0x03, 0x03] @ to_be 2 (length payload mod 65536) @ payload, TrReality r)"

fun transport_unwrap :: "u8 list \<Rightarrow> Transport \<Rightarrow> u8 list kresult" where
  "transport_unwrap data TrTcp = Ok data"
| "transport_unwrap data (TrWebSocket ws) = map_outcome id fst (ws_decode_frame data)"
| "transport_unwrap data (TrGrpc g) = grpc_decode data"
| "transport_unwrap data (TrReality r) =
     (if length data < 5 \<or> data ! 0 \<noteq> 0x17 then Err (InvalidParameter ''not TLS app data'')
      else let len = be_nat (slice data 3 2)
      in if length data < 5 + len then Err (InvalidParameter ''TLS record truncated'') else Ok (slice data 5 len))"

section \<open>Frames read back\<close>

lemma length_mask_payload [simp]: "length (mask_payload m p) = length p"
  by (simp add: mask_payload_def)

lemma mask_payload_twice: "mask_payload m (mask_payload m p) = p"
  by (rule nth_equalityI) (simp_all add: mask_payload_def xor.assoc)

lemma len_byte:
  "(0x80 OR of_nat n :: u8) AND 0x80 \<noteq> 0" "unat ((0x80 OR of_nat n :: u8) AND 0x7F) = n mod 128"
proof -
  show "(0x80 OR of_nat n :: u8) AND 0x80 \<noteq> 0"
    using and_mask_zero_iff [of 7 "0x80 OR of_nat n :: u8"] bit_or_mask [of "of_nat n :: u8" 7 7] by (simp add: or.commute)
  have m: "(0x7F :: u8) = mask 7" by (simp add: mask_eq_exp_minus_1)
  have b: "bit (0x80 :: u8) j \<longleftrightarrow> j = 7" for j using bit_or_mask [of "0 :: u8" 7 j] by simp
  have "(0x80 OR of_nat n :: u8) AND 0x7F = take_bit 7 (of_nat n)"
    unfolding m by (rule bit_word_eqI) (simp only: bit_and_iff bit_or_iff bit_mask_iff b bit_take_bit_iff, auto)
  then show "unat ((0x80 OR of_nat n :: u8) AND 0x7F) = n mod 128"
    by (simp add: take_bit_eq_mod unat_mod unat_of_nat mod_mod_cancel)
qed

lemma ws_decode_masked:
  assumes "ws_header data = Ok (off, length body)" "2 \<le> length data" "data ! 1 AND 0x80 \<noteq> 0"
    "data = pre @ mk @ body @ rest" "length pre = off" "length mk = 4" "off + 4 + length body < usize_mod"
  shows "ws_decode_frame data = Ok (mask_payload mk body, off + 4 + length body)"
proof -
  have u: "uadd (off + 4) (length body) = off + 4 + length body" using assms(7) by simp
  have l: "length data = off + 4 + length body + length rest" using assms(4-6) by simp
  have "slice data off 4 = mk" "slice data (off + 4) (length body) = body"
    using assms(5,6) by (simp_all add: assms(4) slice_def)
  with assms(1-3) l show ?thesis by (simp add: ws_decode_frame_def ws_payload_def u Let_def)
qed

lemma ws_roundtrip:
  assumes "length payload < 2 ^ 63"
  shows "ws_decode_frame (fst (ws_encode_frame payload t) @ rest) = Ok (payload, length (fst (ws_encode_frame payload t)))"
proof -
  let ?n = "length payload" and ?mk = "to_le 4 (unat (ws_mask_key t)) :: u8 list"
  let ?body = "mask_payload ?mk payload"
  consider "?n < 126" | "126 \<le> ?n" "?n < 65536" | "65536 \<le> ?n" by linarith
  then show ?thesis
  proof cases
    case 1
    let ?pre = "[0x82, 0x80 OR of_nat ?n] :: u8 list"
    have f: "fst (ws_encode_frame payload t) = ?pre @ ?mk @ ?body" using 1 by (simp add: ws_encode_frame_def Let_def)
    have "ws_header (?pre @ ?mk @ ?body @ rest) = Ok (2, length ?body)"
      using 1 len_byte(2) [of ?n] by (simp add: ws_header_def)
    from ws_decode_masked [OF this, of ?pre ?mk rest] assms show ?thesis
      by (simp add: f len_byte mask_payload_twice)
  next
    case 2
    let ?pre = "[0x82, 0x80 OR 126] @ to_be 2 ?n :: u8 list"
    have f: "fst (ws_encode_frame payload t) = ?pre @ ?mk @ ?body" using 2 by (simp add: ws_encode_frame_def Let_def)
    have "be_nat (slice (?pre @ ?mk @ ?body @ rest) 2 2) = ?n" using 2 by (simp add: slice_def be_nat_to_be)
    then have "ws_header (?pre @ ?mk @ ?body @ rest) = Ok (4, length ?body)" by (simp add: ws_header_def)
    from ws_decode_masked [OF this, of ?pre ?mk rest] assms show ?thesis by (simp add: f mask_payload_twice)
  next
    case 3
    let ?pre = "[0x82, 0x80 OR 127] @ to_be 8 ?n :: u8 list"
    have f: "fst (ws_encode_frame payload t) = ?pre @ ?mk @ ?body" using 3 by (simp add: ws_encode_frame_def Let_def)
    have "be_nat (slice (?pre @ ?mk @ ?body @ rest) 2 8) = ?n" using assms by (simp add: slice_def be_nat_to_be)
    then have "ws_header (?pre @ ?mk @ ?body @ rest) = Ok (10, length ?body)" by (simp add: ws_header_def)
    from ws_decode_masked [OF this, of ?pre ?mk rest] assms show ?thesis by (simp add: f mask_payload_twice)
  qed
qed

lemma ws_decode_panics:
  "ws_decode_frame data = Panic \<longleftrightarrow>
     10 \<le> length data \<and> data ! 1 AND 0x7F = 127 \<and>
     (let off = (if data ! 1 AND 0x80 = 0 then 10 else 14)
      in off \<le> length data \<and> 2 ^ 64 \<le> off + be_nat (slice data 2 8))"
proof -
  have stop: "uadd off n < off \<longleftrightarrow> 2 ^ 64 \<le> off + n" if "n < 2 ^ 64" "off < 20" for off n
  proof (cases "off + n < 2 ^ 64")
    case False
    then have "uadd off n = off + n - 2 ^ 64" using that by (simp add: uadd_def mod_if)
    with False that show ?thesis by simp
  qed simp
  have b8: "be_nat (slice data 2 8) < 2 ^ 64"
    using be_nat_less [of "slice data 2 8"] power_increasing [of "length (slice data 2 8)" 8 "256 :: nat"] by simp
  have b2: "be_nat (slice data 2 2) < 2 ^ 16"
    using be_nat_less [of "slice data 2 2"] power_increasing [of "length (slice data 2 2)" 2 "256 :: nat"] by simp
  have b1: "unat (data ! 1 AND 0x7F) < 2 ^ 8" using unat_u8_less [of "data ! 1 AND 0x7F"] by simp
  have 127: "data ! 1 AND 0x7F = 127 \<longleftrightarrow> unat (data ! 1 AND 0x7F) = 127" by (simp add: word_unat_eq_iff)
  have tail: "ws_payload masked off n data = Panic \<longleftrightarrow>
      (let o1 = (if masked then off + 4 else off) in o1 \<le> length data \<and> 2 ^ 64 \<le> o1 + n)"
    if "n < 2 ^ 64" "off \<le> 10" "off \<le> length data" for masked off n
    using that stop [of n off] stop [of n "off + 4"] by (auto simp: ws_payload_def Let_def)
  show ?thesis
  proof (cases "2 \<le> length data")
    case True
    consider "unat (data ! 1 AND 0x7F) = 126" | "unat (data ! 1 AND 0x7F) = 127"
      | "unat (data ! 1 AND 0x7F) \<noteq> 126" "unat (data ! 1 AND 0x7F) \<noteq> 127" by blast
    then show ?thesis
    proof cases
      case 1
      then show ?thesis using True b2 127 tail [of "be_nat (slice data 2 2)" 4] by (simp add: ws_decode_frame_def ws_header_def Let_def)
    next
      case 2
      then show ?thesis using b8 127 tail [of "be_nat (slice data 2 8)" 10]
        by (cases "10 \<le> length data") (simp_all add: ws_decode_frame_def ws_header_def Let_def)
    next
      case 3
      then show ?thesis using True b1 127 tail [of "unat (data ! 1 AND 0x7F)" 2] by (simp add: ws_decode_frame_def ws_header_def Let_def)
    qed
  qed (simp add: ws_decode_frame_def)
qed

lemma grpc_roundtrip: "grpc_decode (grpc_encode payload) = Ok (take (length payload mod 2 ^ 32) payload)"
proof -
  let ?n = "length payload mod 2 ^ 32"
  have "be_nat (slice (grpc_encode payload) 1 4) = ?n" by (simp add: grpc_encode_def slice_def be_nat_to_be)
  moreover have "?n \<le> length payload" by (rule mod_less_eq_dividend)
  moreover have "slice (grpc_encode payload) 5 ?n = take ?n payload" by (simp add: grpc_encode_def slice_def)
  ultimately show ?thesis by (simp add: grpc_decode_def Let_def) (simp add: grpc_encode_def)
qed

lemma reality_roundtrip:
  "transport_unwrap (fst (transport_wrap payload (TrReality r))) (TrReality q) = Ok (take (length payload mod 65536) payload)"
proof -
  let ?n = "length payload mod 65536" and ?d = "fst (transport_wrap payload (TrReality r))"
  have "be_nat (slice ?d 3 2) = ?n" by (simp add: slice_def be_nat_to_be)
  moreover have "?n \<le> length payload" by (rule mod_less_eq_dividend)
  moreover have "slice ?d 5 ?n = take ?n payload" by (simp add: slice_def)
  ultimately show ?thesis by (simp add: Let_def)
qed

section \<open>The greeting\<close>

definition reality_wf :: "RealityTransport \<Rightarrow> bool" where
  "reality_wf t \<longleftrightarrow> length (rt_server_name t) = 256 \<and> rt_server_name_len t \<le> 256 \<and>
     length (rt_short_id t) = 8 \<and> length (rt_public_key t) = 32"

lemma reality_new_wf: "length short_id = 8 \<Longrightarrow> length public_key = 32 \<Longrightarrow> reality_wf (reality_new name short_id public_key)"
  by (simp add: reality_wf_def reality_new_def padded_array_def)

lemma length_client_hello:
  "reality_wf t \<Longrightarrow> length (build_client_hello t) = 95 + rt_server_name_len t"
  by (simp add: build_client_hello_def client_hello_draft_def hello_random_def hello_session_id_def sni_extension_def
      reality_wf_def Let_def)

lemma be_two:
  assumes "n < 65536"
  shows "be_nat [of_nat (drop_bit 8 n), of_nat n] = n"
proof -
  have "to_be 2 n = [of_nat (n div 256), of_nat n]" by (simp add: to_be_def numeral_2_eq_2)
  then show ?thesis using be_nat_to_be [of 2 n] assms by (simp add: drop_bit_eq_div)
qed

lemma be_three:
  assumes "n < 65536"
  shows "be_nat [of_nat (drop_bit 16 n), of_nat (drop_bit 8 n), of_nat n] = n"
proof -
  have "to_be 3 n = [of_nat (n div 256 div 256), of_nat (n div 256), of_nat n]" by (simp add: to_be_def numeral_3_eq_3)
  then show ?thesis using be_nat_to_be [of 3 n] assms by (simp add: drop_bit_eq_div div_mult2_eq [symmetric])
qed

lemma client_hello_lengths:
  assumes "reality_wf t"
  shows "be_nat (slice (build_client_hello t) 3 2) = length (build_client_hello t) - 5"
    "be_nat (slice (build_client_hello t) 6 3) = length (build_client_hello t) - 9"
    "slice (build_client_hello t) 44 8 = rt_short_id t"
proof -
  let ?n = "95 + rt_server_name_len t"
  obtain body where d: "client_hello_draft t = [0x16, 3, 1, 0, 0, 1, 0, 0, 0, 3, 3] @ hello_random t @ [32] @ rt_short_id t @ body"
    by (simp add: client_hello_draft_def hello_session_id_def)
  have n: "?n - 5 < 65536" "?n - 9 < 65536" using assms by (simp_all add: reality_wf_def)
  have l: "length (client_hello_draft t) = ?n" using length_client_hello [OF assms] by (simp add: build_client_hello_def Let_def)
  have h: "build_client_hello t = [0x16, 3, 1, of_nat (drop_bit 8 (?n - 5)), of_nat (?n - 5), 1,
      of_nat (drop_bit 16 (?n - 9)), of_nat (drop_bit 8 (?n - 9)), of_nat (?n - 9), 3, 3] @ hello_random t @ [32] @ rt_short_id t @ body"
    unfolding build_client_hello_def Let_def length_list_update l by (simp add: d)
  have r: "length (hello_random t) = 32" "length (rt_short_id t) = 8" using assms by (simp_all add: hello_random_def reality_wf_def)
  show "be_nat (slice (build_client_hello t) 3 2) = length (build_client_hello t) - 5"
    using be_two [OF n(1)] length_client_hello [OF assms] by (simp add: h slice_def)
  show "be_nat (slice (build_client_hello t) 6 3) = length (build_client_hello t) - 9"
    using be_three [OF n(2)] length_client_hello [OF assms] by (simp add: h slice_def)
  show "slice (build_client_hello t) 44 8 = rt_short_id t" using r by (simp add: h slice_def)
qed

section \<open>Round trips\<close>

text \<open>
  C36 (roundtrip). What a transport wraps it unwraps to the same payload; gRPC and Reality write the length into four and two
  bytes and give back a prefix when the payload is longer. Reading a WebSocket frame panics exactly when its 64-bit
  length, added to the offset of the payload, overflows: any peer can send such a frame.
\<close>

theorem transport_roundtrip:
  assumes "length payload < 2 ^ 63"
  shows "transport_unwrap (fst (transport_wrap payload t)) t =
      Ok (case t of TrTcp \<Rightarrow> payload | TrWebSocket _ \<Rightarrow> payload | TrGrpc _ \<Rightarrow> take (length payload mod 2 ^ 32) payload
        | TrReality _ \<Rightarrow> take (length payload mod 65536) payload) \<and>
    (transport_unwrap data (TrWebSocket ws) = Panic \<longleftrightarrow>
     10 \<le> length data \<and> data ! 1 AND 0x7F = 127 \<and>
     (let off = (if data ! 1 AND 0x80 = 0 then 10 else 14)
      in off \<le> length data \<and> 2 ^ 64 \<le> off + be_nat (slice data 2 8)))"
proof (rule conjI)
  show "transport_unwrap (fst (transport_wrap payload t)) t =
      Ok (case t of TrTcp \<Rightarrow> payload | TrWebSocket _ \<Rightarrow> payload | TrGrpc _ \<Rightarrow> take (length payload mod 2 ^ 32) payload
        | TrReality _ \<Rightarrow> take (length payload mod 65536) payload)"
  proof (cases t)
    case (TrWebSocket w)
    then show ?thesis using ws_roundtrip [OF assms, of w "[]"] by simp
  next
    case (TrReality r)
    then show ?thesis using reality_roundtrip [of payload r r] by (simp only: Transport.case)
  qed (simp_all add: grpc_roundtrip)
  show "transport_unwrap data (TrWebSocket ws) = Panic \<longleftrightarrow>
     10 \<le> length data \<and> data ! 1 AND 0x7F = 127 \<and>
     (let off = (if data ! 1 AND 0x80 = 0 then 10 else 14)
      in off \<le> length data \<and> 2 ^ 64 \<le> off + be_nat (slice data 2 8))"
    using ws_decode_panics [of data] by (cases "ws_decode_frame data") simp_all
qed

theorem transport_roundtrip_witness:
  "let t = TrWebSocket (websocket_new [] []) in
   transport_unwrap (fst (transport_wrap [1, 2, 3] t)) t = Ok [1, 2, 3] \<and>
   transport_unwrap ([0x82, 127] @ replicate 8 0xFF) t = Panic"
proof -
  let ?d = "[0x82, 127] @ replicate 8 0xFF :: u8 list"
  have d: "?d = [0x82, 127, 0xFF, 0xFF, 0xFF, 0xFF, 0xFF, 0xFF, 0xFF, 0xFF]" by (simp add: numeral_eq_Suc)
  have "be_nat (slice ?d 2 8) = 2 ^ 64 - 1" unfolding d by (simp add: slice_def be_nat_def)
  then have "transport_unwrap ?d (TrWebSocket (websocket_new [] [])) = Panic"
    using transport_roundtrip [of "[]" TrTcp ?d "websocket_new [] []"] by (simp add: Let_def)
  moreover have "transport_unwrap (fst (transport_wrap [1, 2, 3] (TrWebSocket (websocket_new [] [])))) (TrWebSocket (websocket_new [] [])) = Ok [1, 2, 3]"
    using transport_roundtrip [of "[1, 2, 3]" "TrWebSocket (websocket_new [] [])"] by simp
  ultimately show ?thesis by (simp only: Let_def simp_thms)
qed

end
