(* ===== verification/Bypass.thy ===== *)
theory Bypass
  imports Vless
begin

text \<open>
  Split routing, \<open>kernel/src/net/bypass.rs\<close>: which domains and addresses go through the tunnel, and the mode,
  server and tunnel behind it. The statics are one record; calls run one at a time.
\<close>

section \<open>State and tables\<close>

datatype BypassMode = BpDisabled | BpAuto | BpFull

fun bypass_mode_u8 :: "BypassMode \<Rightarrow> u8" where
  "bypass_mode_u8 BpDisabled = 0"
| "bypass_mode_u8 BpAuto = 1"
| "bypass_mode_u8 BpFull = 2"

record Bypass =
  BYPASS_MODE :: u8
  BYPASS_ACTIVE :: bool
  CURRENT_SERVER :: u8
  VLESS_TUNNEL :: VlessTunnel

definition bypass_boot :: Bypass where
  "bypass_boot = \<lparr>BYPASS_MODE = bypass_mode_u8 BpAuto, BYPASS_ACTIVE = False, CURRENT_SERVER = 0,
     VLESS_TUNNEL = tunnel_new\<rparr>"

record ServerEntry =
  sv_addr :: "u8 list"
  sv_port :: u16
  sv_uuid :: "u8 list"
  sv_sni :: "u8 list"

definition SERVERS :: "ServerEntry list" where
  "SERVERS =
     [\<lparr>sv_addr = ascii ''gateway-1.staros.network'', sv_port = 443,
       sv_uuid = ascii ''a1b2c3d4-e5f6-7890-abcd-ef1234567890'', sv_sni = ascii ''www.microsoft.com''\<rparr>,
      \<lparr>sv_addr = ascii ''gateway-2.staros.network'', sv_port = 443,
       sv_uuid = ascii ''b2c3d4e5-f6a7-8901-bcde-f12345678901'', sv_sni = ascii ''www.apple.com''\<rparr>,
      \<lparr>sv_addr = ascii ''gateway-3.staros.network'', sv_port = 443,
       sv_uuid = ascii ''c3d4e5f6-a7b8-9012-cdef-123456789012'', sv_sni = ascii ''www.google.com''\<rparr>]"

definition BYPASS_DOMAINS :: "string list" where
  "BYPASS_DOMAINS =
   [''instagram.com'', ''cdninstagram.com'', ''twitter.com'', ''x.com'', ''twimg.com'', ''facebook.com'',
    ''fbcdn.net'', ''threads.net'', ''linkedin.com'', ''telegram.org'', ''t.me'', ''telegram.me'',
    ''core.telegram.org'', ''web.telegram.org'', ''desktop.telegram.org'', ''updates.telegram.org'',
    ''telegram-cdn.org'', ''telesco.pe'', ''tdesktop.com'', ''discord.com'', ''discord.gg'',
    ''discordapp.com'', ''discord.media'', ''signal.org'', ''whispersystems.org'', ''viber.com'',
    ''youtube.com'', ''googlevideo.com'', ''ytimg.com'', ''spotify.com'', ''scdn.co'', ''soundcloud.com'',
    ''openai.com'', ''chatgpt.com'', ''anthropic.com'', ''claude.ai'', ''notion.so'', ''notion.com'',
    ''medium.com'', ''github.com'', ''githubusercontent.com'', ''docker.com'', ''docker.io'', ''npmjs.com'',
    ''pypi.org'', ''bbc.com'', ''bbc.co.uk'', ''reuters.com'']"

definition BYPASS_IP_RANGES :: "(string \<times> nat) list" where
  "BYPASS_IP_RANGES =
   [(''149.154.160.0'', 20), (''149.154.164.0'', 22), (''149.154.168.0'', 22), (''149.154.172.0'', 22),
    (''91.108.4.0'', 22), (''91.108.8.0'', 22), (''91.108.12.0'', 22), (''91.108.16.0'', 22),
    (''91.108.20.0'', 22), (''91.108.56.0'', 22), (''95.161.64.0'', 20), (''162.159.128.0'', 17),
    (''104.244.42.0'', 24), (''157.240.0.0'', 16), (''31.13.24.0'', 21)]"

section \<open>Matching\<close>

definition to_ascii_lower :: "u8 \<Rightarrow> u8" where
  "to_ascii_lower b = (if 0x41 \<le> b \<and> b \<le> 0x5A then b + 0x20 else b)"

definition eq_ignore_ascii_case :: "u8 list \<Rightarrow> u8 list \<Rightarrow> bool" where
  "eq_ignore_ascii_case xs ys \<longleftrightarrow> map to_ascii_lower xs = map to_ascii_lower ys"

definition domain_ends_with :: "u8 list \<Rightarrow> u8 list \<Rightarrow> bool" where
  "domain_ends_with domain suffix =
     (if length domain < length suffix then False
      else let start = length domain - length suffix
      in if start > 0 \<and> domain ! (start - 1) \<noteq> 0x2E \<and> start \<noteq> 0 then False
         else eq_ignore_ascii_case (drop start domain) suffix)"

text \<open>The octets read so far stand for the array and the index; the running octet wraps at 16 bits.\<close>

fun parse_octets :: "u8 list \<Rightarrow> u8 list \<Rightarrow> u16 \<Rightarrow> u8 list option" where
  "parse_octets [] octs current =
     (if length octs \<noteq> 3 \<or> current > 255 then None else Some (octs @ [ucast current]))"
| "parse_octets (b # bytes) octs current =
     (if b = 0x2E then
        (if length octs \<ge> 3 \<or> current > 255 then None else parse_octets bytes (octs @ [ucast current]) 0)
      else if b \<ge> 0x30 \<and> b \<le> 0x39 then parse_octets bytes octs (current * 10 + ucast (b - 0x30))
      else None)"

definition parse_ipv4 :: "u8 list \<Rightarrow> u32 option" where
  "parse_ipv4 s = map_option (\<lambda>octs. of_nat (be_nat octs)) (parse_octets s [] 0)"

definition prefix_mask :: "nat \<Rightarrow> u32" where
  "prefix_mask prefix_len =
     (if prefix_len \<ge> 32 then 0xFFFFFFFF else NOT (push_bit ((32 - prefix_len) mod 32) 1 - 1))"

section \<open>Operations\<close>

definition current_mode :: "Bypass \<Rightarrow> BypassMode" where
  "current_mode st =
     (if BYPASS_MODE st = 0 then BpDisabled else if BYPASS_MODE st = 1 then BpAuto else BpFull)"

definition should_bypass :: "u8 list \<Rightarrow> Bypass \<Rightarrow> bool" where
  "should_bypass domain st =
     (if \<not> BYPASS_ACTIVE st then False
      else if current_mode st = BpFull then True
      else \<exists>blocked \<in> set BYPASS_DOMAINS. domain_ends_with domain (ascii blocked))"

definition in_range :: "u32 \<Rightarrow> string \<times> nat \<Rightarrow> bool" where
  "in_range ip_u32 r =
     (case parse_ipv4 (ascii (fst r)) of
        None \<Rightarrow> False
      | Some range_ip \<Rightarrow> let mk = prefix_mask (snd r) in ip_u32 AND mk = range_ip AND mk)"

definition should_bypass_ip :: "u8 list \<Rightarrow> Bypass \<Rightarrow> bool" where
  "should_bypass_ip ip st =
     (if \<not> BYPASS_ACTIVE st then False
      else if current_mode st = BpFull then True
      else let ip_u32 = of_nat (be_nat ip) in \<exists>r \<in> set BYPASS_IP_RANGES. in_range ip_u32 r)"

definition server_config :: "ServerEntry \<Rightarrow> Uuid \<Rightarrow> VlessConfig" where
  "server_config server uuid =
     \<lparr>vc_server_addr = sv_addr server @ replicate (256 - length (sv_addr server)) 0,
      vc_server_addr_len = length (sv_addr server), vc_server_port = sv_port server, vc_uuid = uuid,
      vc_transport = TransReality, vc_flow = XtlsVision,
      vc_sni = sv_sni server @ replicate (256 - length (sv_sni server)) 0, vc_sni_len = length (sv_sni server),
      vc_enabled = True\<rparr>"

definition bypass_init :: "Bypass \<Rightarrow> unit kresult \<times> Bypass" where
  "bypass_init st =
     (if current_mode st = BpDisabled then (Ok (), st)
      else let server_idx = unat (CURRENT_SERVER st) mod length SERVERS; server = SERVERS ! server_idx
      in case uuid_parse (sv_uuid server) of
           Err e \<Rightarrow> (Err e, st)
         | Panic \<Rightarrow> (Panic, st)
         | Ok uuid \<Rightarrow>
             (case tunnel_configure (server_config server uuid) (VLESS_TUNNEL st) of
                (Ok _, t1) \<Rightarrow>
                  (case tunnel_start t1 of
                     (Ok _, t2) \<Rightarrow> (Ok (), st\<lparr>VLESS_TUNNEL := t2, BYPASS_ACTIVE := True\<rparr>)
                   | (r, t2) \<Rightarrow> (r, st\<lparr>VLESS_TUNNEL := t2\<rparr>))
              | (r, t1) \<Rightarrow> (r, st\<lparr>VLESS_TUNNEL := t1\<rparr>)))"

definition set_mode :: "BypassMode \<Rightarrow> Bypass \<Rightarrow> Bypass" where
  "set_mode mode st =
     (let st1 = st\<lparr>BYPASS_MODE := bypass_mode_u8 mode\<rparr>
      in if mode = BpDisabled
         then st1\<lparr>VLESS_TUNNEL := tunnel_stop (VLESS_TUNNEL st1), BYPASS_ACTIVE := False\<rparr>
         else st1)"

definition rotate_server :: "Bypass \<Rightarrow> unit kresult \<times> Bypass" where
  "rotate_server st =
     (let next = unat (CURRENT_SERVER st + 1) mod length SERVERS
      in bypass_init (st\<lparr>VLESS_TUNNEL := tunnel_stop (VLESS_TUNNEL st), CURRENT_SERVER := of_nat next\<rparr>))"

section \<open>Domains\<close>

lemma lower_dot: "to_ascii_lower b = 0x2E \<longleftrightarrow> b = 0x2E"
proof -
  have "b + 0x20 \<noteq> 0x2E" if "0x41 \<le> b" "b \<le> 0x5A"
  proof -
    have "unat (b + 0x20) = unat b + 32" using that by (simp add: word_le_nat_alt unat_word_ariths)
    with that show ?thesis by (auto simp: word_le_nat_alt)
  qed
  then show ?thesis by (auto simp: to_ascii_lower_def)
qed

text \<open>A domain and its subdomains, whatever the case of the letters.\<close>

lemma domain_ends_with_iff:
  "domain_ends_with d s \<longleftrightarrow>
     (\<exists>p. map to_ascii_lower d = p @ map to_ascii_lower s \<and> (p = [] \<or> last p = 0x2E))"
proof
  assume e: "domain_ends_with d s"
  define k where "k = length d - length s"
  have "length s \<le> length d" and dot: "k = 0 \<or> d ! (k - 1) = 0x2E"
    and m: "map to_ascii_lower (drop k d) = map to_ascii_lower s"
    using e by (auto simp: domain_ends_with_def eq_ignore_ascii_case_def k_def Let_def split: if_splits)
  have "map to_ascii_lower d = map to_ascii_lower (take k d) @ map to_ascii_lower s"
    unfolding m [symmetric] by (simp flip: map_append)
  moreover have "take k d = [] \<or> last (map to_ascii_lower (take k d)) = 0x2E"
  proof (cases "k = 0")
    case False
    have "k \<le> length d" by (simp add: k_def)
    with False have ne: "take k d \<noteq> []" by (cases d) auto
    with \<open>k \<le> length d\<close> have "last (map to_ascii_lower (take k d)) = to_ascii_lower (d ! (k - 1))"
      using False by (simp add: last_map last_conv_nth [OF ne] min_def)
    with False dot show ?thesis by (simp add: lower_dot)
  qed simp
  ultimately show "\<exists>p. map to_ascii_lower d = p @ map to_ascii_lower s \<and> (p = [] \<or> last p = 0x2E)" by blast
next
  assume "\<exists>p. map to_ascii_lower d = p @ map to_ascii_lower s \<and> (p = [] \<or> last p = 0x2E)"
  then obtain p where p: "map to_ascii_lower d = p @ map to_ascii_lower s" "p = [] \<or> last p = 0x2E" by blast
  have l: "length d = length p + length s" using arg_cong [OF p(1), of length] by simp
  have "map to_ascii_lower (drop (length p) d) = map to_ascii_lower s"
    using arg_cong [OF p(1), of "drop (length p)"] by (simp add: drop_map)
  moreover have "d ! (length p - 1) = 0x2E" if "p \<noteq> []"
  proof -
    have "to_ascii_lower (d ! (length p - 1)) = map to_ascii_lower d ! (length p - 1)"
      using l that by (cases p) simp_all
    also have "\<dots> = last p" using that by (simp add: p(1) nth_append last_conv_nth)
    finally show ?thesis using p(2) that by (simp add: lower_dot)
  qed
  ultimately show "domain_ends_with d s"
    using l by (cases "p = []") (simp_all add: domain_ends_with_def eq_ignore_ascii_case_def Let_def)
qed

section \<open>Address ranges\<close>

definition ranges :: "(u32 \<times> nat) list" where
  "ranges =
   [(0x959AA000, 20), (0x959AA400, 22), (0x959AA800, 22), (0x959AAC00, 22), (0x5B6C0400, 22),
    (0x5B6C0800, 22), (0x5B6C0C00, 22), (0x5B6C1000, 22), (0x5B6C1400, 22), (0x5B6C3800, 22),
    (0x5FA14000, 20), (0xA29F8000, 17), (0x68F42A00, 24), (0x9DF00000, 16), (0x1F0D1800, 21)]"

lemma ranges_parsed: "map (\<lambda>r. (parse_ipv4 (ascii (fst r)), snd r)) BYPASS_IP_RANGES = map (map_prod Some id) ranges"
proof -
  have o: "map (\<lambda>r. (parse_octets (ascii (fst r)) [] 0, snd r)) BYPASS_IP_RANGES =
     map (\<lambda>(a, b, c, d, p). (Some [a, b, c, d], p))
       [(149, 154, 160, 0, 20), (149, 154, 164, 0, 22), (149, 154, 168, 0, 22), (149, 154, 172, 0, 22),
        (91, 108, 4, 0, 22), (91, 108, 8, 0, 22), (91, 108, 12, 0, 22), (91, 108, 16, 0, 22),
        (91, 108, 20, 0, 22), (91, 108, 56, 0, 22), (95, 161, 64, 0, 20), (162, 159, 128, 0, 17),
        (104, 244, 42, 0, 24), (157, 240, 0, 0, 16), (31, 13, 24, 0, 21)]"
    by code_simp
  have "map (\<lambda>r. (parse_ipv4 (ascii (fst r)), snd r)) BYPASS_IP_RANGES =
      map (\<lambda>x. (map_option (\<lambda>octs. of_nat (be_nat octs)) (fst x), snd x))
        (map (\<lambda>r. (parse_octets (ascii (fst r)) [] 0, snd r)) BYPASS_IP_RANGES)"
    by (simp add: parse_ipv4_def o_def)
  also have "\<dots> = map (map_prod Some id) ranges"
    unfolding o by (simp add: ranges_def be_nat_def)
  finally show ?thesis .
qed

lemma prefix_mask_eq: "0 < p \<Longrightarrow> p \<le> 32 \<Longrightarrow> prefix_mask p = NOT (mask (32 - p))"
  by (auto simp: prefix_mask_def mask_eq_exp_minus_1)

lemma and_not_mask_eq_iff: "a AND NOT (mask k) = b AND NOT (mask k) \<longleftrightarrow> drop_bit k a = drop_bit k (b :: u32)"
proof
  assume e: "a AND NOT (mask k) = b AND NOT (mask k)"
  show "drop_bit k a = drop_bit k b"
  proof (rule bit_eqI)
    fix n
    have "bit (a AND NOT (mask k)) (k + n) = bit (b AND NOT (mask k)) (k + n)" using e by simp
    then show "bit (drop_bit k a) n = bit (drop_bit k b) n"
      using bit_imp_le_length [of a "k + n"] bit_imp_le_length [of b "k + n"]
      by (auto simp: bit_and_iff bit_not_iff bit_mask_iff bit_drop_bit_eq)
  qed
next
  assume e: "drop_bit k a = drop_bit k b"
  then have "bit a n = bit b n" if "k \<le> n" for n
  proof -
    have "bit (drop_bit k a) (n - k) = bit (drop_bit k b) (n - k)" using e by simp
    then show ?thesis using that by (simp add: bit_drop_bit_eq)
  qed
  then show "a AND NOT (mask k) = b AND NOT (mask k)"
    by (auto simp: bit_eq_iff bit_and_iff bit_not_iff bit_mask_iff)
qed

lemma same_prefix:
  assumes "0 < p" "p \<le> 32"
  shows "a AND prefix_mask p = b AND prefix_mask p \<longleftrightarrow> unat a div 2 ^ (32 - p) = unat b div 2 ^ (32 - p)"
proof -
  have "a AND prefix_mask p = b AND prefix_mask p \<longleftrightarrow> drop_bit (32 - p) a = drop_bit (32 - p) b"
    unfolding prefix_mask_eq [OF assms]
    by (rule and_not_mask_eq_iff)
  also have "\<dots> \<longleftrightarrow> unat a div 2 ^ (32 - p) = unat b div 2 ^ (32 - p)"
    unfolding word_unat_eq_iff unat_drop_bit_eq by (simp add: drop_bit_eq_div)
  finally show ?thesis .
qed

lemma ranges_lengths: "\<forall>r \<in> set ranges. 0 < snd r \<and> snd r \<le> 32"
  by (simp add: ranges_def)

lemma in_some_range:
  "(\<exists>r \<in> set BYPASS_IP_RANGES. in_range ip r) \<longleftrightarrow>
     (\<exists>(base, p) \<in> set ranges. unat ip div 2 ^ (32 - p) = unat base div 2 ^ (32 - p))"
proof -
  let ?P = "\<lambda>(b, p). case b of None \<Rightarrow> False | Some base \<Rightarrow> ip AND prefix_mask p = base AND prefix_mask p"
  have "(\<exists>r \<in> set BYPASS_IP_RANGES. in_range ip r) \<longleftrightarrow>
      (\<exists>x \<in> set (map (\<lambda>r. (parse_ipv4 (ascii (fst r)), snd r)) BYPASS_IP_RANGES). ?P x)"
    by (auto simp: in_range_def Let_def split: option.splits)
  also have "\<dots> \<longleftrightarrow> (\<exists>r \<in> set ranges. ip AND prefix_mask (snd r) = fst r AND prefix_mask (snd r))"
    unfolding ranges_parsed by (auto simp: split_beta)
  also have "\<dots> \<longleftrightarrow> (\<exists>(base, p) \<in> set ranges. unat ip div 2 ^ (32 - p) = unat base div 2 ^ (32 - p))"
    using same_prefix ranges_lengths by (auto simp: split_beta)
  finally show ?thesis .
qed

section \<open>Reachable states\<close>

lemma server_uuids: "\<forall>server \<in> set SERVERS. is_ok (uuid_parse (sv_uuid server)) \<and> sv_addr server \<noteq> [] \<and> sv_port server \<noteq> 0"
  by code_simp

lemma server_facts:
  obtains uuid where "uuid_parse (sv_uuid (SERVERS ! (n mod length SERVERS))) = Ok uuid"
    "sv_addr (SERVERS ! (n mod length SERVERS)) \<noteq> []" "sv_port (SERVERS ! (n mod length SERVERS)) \<noteq> 0"
proof -
  have "n mod length SERVERS < length SERVERS" by (simp add: SERVERS_def)
  then have "SERVERS ! (n mod length SERVERS) \<in> set SERVERS" by (rule nth_mem)
  then show ?thesis using server_uuids that by (auto simp: is_ok_iff)
qed

definition bypass_inv :: "Bypass \<Rightarrow> bool" where
  "bypass_inv st \<longleftrightarrow> (BYPASS_ACTIVE st \<longrightarrow> current_mode st \<noteq> BpDisabled \<and> vt_active (VLESS_TUNNEL st) \<and>
     (\<exists>uuid. vt_config (VLESS_TUNNEL st) =
        Some (server_config (SERVERS ! (unat (CURRENT_SERVER st) mod length SERVERS)) uuid) \<and>
      uuid_parse (sv_uuid (SERVERS ! (unat (CURRENT_SERVER st) mod length SERVERS))) = Ok uuid))"

inductive bypass_step :: "Bypass \<Rightarrow> Bypass \<Rightarrow> bool" where
  "bypass_step st (snd (bypass_init st))"
| "bypass_step st (set_mode mode st)"
| "bypass_step st (snd (rotate_server st))"

lemma current_mode_cong: "BYPASS_MODE st1 = BYPASS_MODE st \<Longrightarrow> current_mode st1 = current_mode st"
  by (simp add: current_mode_def)

lemma init_starts:
  assumes "current_mode st \<noteq> BpDisabled"
  shows "fst (bypass_init st) = Ok ()" "BYPASS_ACTIVE (snd (bypass_init st))" "bypass_inv (snd (bypass_init st))"
    "CURRENT_SERVER (snd (bypass_init st)) = CURRENT_SERVER st"
proof -
  let ?s = "SERVERS ! (unat (CURRENT_SERVER st) mod length SERVERS)"
  obtain uuid where u: "uuid_parse (sv_uuid ?s) = Ok uuid" "sv_addr ?s \<noteq> []" "sv_port ?s \<noteq> 0"
    by (rule server_facts)
  have "vc_server_addr_len (server_config ?s uuid) \<noteq> 0" "vc_server_port (server_config ?s uuid) \<noteq> 0"
    "vc_enabled (server_config ?s uuid)"
    using u(2,3) by (simp_all add: server_config_def)
  moreover have "current_mode (st\<lparr>VLESS_TUNNEL := t, BYPASS_ACTIVE := True\<rparr>) = current_mode st" for t
    by (rule current_mode_cong) simp
  ultimately show "fst (bypass_init st) = Ok ()" "BYPASS_ACTIVE (snd (bypass_init st))"
    "bypass_inv (snd (bypass_init st))" "CURRENT_SERVER (snd (bypass_init st)) = CURRENT_SERVER st"
    using assms u(1)
    by (simp_all add: bypass_init_def tunnel_configure_def tunnel_start_def bypass_inv_def Let_def)
qed

lemma set_mode_inv: "bypass_inv st \<Longrightarrow> bypass_inv (set_mode mode st)"
  by (cases mode) (auto simp: set_mode_def bypass_inv_def current_mode_def Let_def split: if_splits)

lemma init_inv: "bypass_inv st \<Longrightarrow> bypass_inv (snd (bypass_init st))"
  using init_starts(3) [of st] by (cases "current_mode st = BpDisabled") (simp_all add: bypass_init_def)

lemma rotate_inv:
  assumes "bypass_inv st"
  shows "bypass_inv (snd (rotate_server st))"
proof -
  let ?st = "st\<lparr>VLESS_TUNNEL := tunnel_stop (VLESS_TUNNEL st), CURRENT_SERVER := of_nat (unat (CURRENT_SERVER st + 1) mod length SERVERS)\<rparr>"
  show ?thesis
  proof (cases "current_mode st = BpDisabled")
    case True
    then have "\<not> BYPASS_ACTIVE st" using assms by (auto simp: bypass_inv_def)
    with True show ?thesis
      by (simp add: rotate_server_def bypass_init_def current_mode_cong [of ?st st] bypass_inv_def Let_def)
  next
    case False
    then show ?thesis using init_starts(3) [of ?st] by (simp add: rotate_server_def current_mode_cong [of ?st st] Let_def)
  qed
qed

interpretation bypass: transition_system "\<lambda>st. st = bypass_boot" bypass_step bypass_inv
proof unfold_locales
  fix st st1 assume i: "bypass_inv st" and s: "bypass_step st st1"
  from s show "bypass_inv st1"
    using init_inv [OF i] set_mode_inv [OF i] rotate_inv [OF i] by cases simp_all
qed (simp add: bypass_boot_def bypass_inv_def)

text \<open>Turning the bypass off and on again leaves it inactive, in the mode that is to route everything too.\<close>

lemma full_mode_after_disabled: "\<not> should_bypass d (set_mode BpFull (set_mode BpDisabled st))"
  by (simp add: should_bypass_def set_mode_def Let_def)

text \<open>
  In automatic mode a domain is routed through the tunnel exactly if it is a listed one or a
  subdomain of one, whatever the case, and an address exactly if it shares the prefix of a listed range; and whenever the
  bypass is active, its tunnel is active with the configuration of the current server.
\<close>

theorem bypass_routing:
  assumes "reachable (\<lambda>st. st = bypass_boot) bypass_step st" "BYPASS_ACTIVE st" "current_mode st = BpAuto"
  shows "(should_bypass d st \<longleftrightarrow> (\<exists>s \<in> set BYPASS_DOMAINS. \<exists>p.
      map to_ascii_lower d = p @ map to_ascii_lower (ascii s) \<and> (p = [] \<or> last p = 0x2E))) \<and>
    (should_bypass_ip (to_be 4 (unat (ip :: u32))) st \<longleftrightarrow>
      (\<exists>(base, p) \<in> set ranges. unat ip div 2 ^ (32 - p) = unat base div 2 ^ (32 - p))) \<and>
    vt_active (VLESS_TUNNEL st) \<and>
    (\<exists>uuid. uuid_parse (sv_uuid (SERVERS ! (unat (CURRENT_SERVER st) mod 3))) = Ok uuid \<and>
       vt_config (VLESS_TUNNEL st) = Some (server_config (SERVERS ! (unat (CURRENT_SERVER st) mod 3)) uuid))"
proof -
  have "(of_nat (be_nat (to_be 4 (unat ip))) :: u32) = ip" using unat_u32_less by (simp add: be_nat_to_be)
  then have "should_bypass_ip (to_be 4 (unat ip)) st \<longleftrightarrow>
      (\<exists>(base, p) \<in> set ranges. unat ip div 2 ^ (32 - p) = unat base div 2 ^ (32 - p))"
    using assms(2,3) in_some_range [of ip] by (simp add: should_bypass_ip_def)
  moreover have "length SERVERS = 3" by (simp add: SERVERS_def)
  ultimately show ?thesis
    using bypass.reachable_inv [OF assms(1)] assms(2,3) by (auto simp: should_bypass_def domain_ends_with_iff bypass_inv_def)
qed

theorem bypass_routing_witness:
  "let st = snd (bypass_init bypass_boot)
   in should_bypass (ascii ''WWW.x.com'') st \<and> \<not> should_bypass_ip (to_be 4 (unat (0x0A000001 :: u32))) st"
proof -
  let ?st = "snd (bypass_init bypass_boot)"
  have "current_mode bypass_boot = BpAuto" by (simp add: bypass_boot_def current_mode_def)
  then have a: "BYPASS_ACTIVE ?st" using init_starts(2) [of bypass_boot] by simp
  have r: "reachable (\<lambda>st. st = bypass_boot) bypass_step ?st"
  proof (rule reach_step)
    show "reachable (\<lambda>st. st = bypass_boot) bypass_step bypass_boot" by (rule reach_init) simp
  qed (rule bypass_step.intros(1))
  have m: "current_mode ?st = BpAuto"
    using bypass.reachable_inv [OF r] a \<open>current_mode bypass_boot = BpAuto\<close>
    by (auto simp: bypass_init_def tunnel_configure_def tunnel_start_def current_mode_def Let_def split: outcome.splits option.splits if_splits)
  have x: "map to_ascii_lower (ascii ''WWW.x.com'') = ascii ''www.'' @ map to_ascii_lower (ascii ''x.com'') \<and> last (ascii ''www.'') = 0x2E"
    by code_simp
  have "''x.com'' \<in> set BYPASS_DOMAINS" by (simp add: BYPASS_DOMAINS_def)
  with x have d: "\<exists>s \<in> set BYPASS_DOMAINS. \<exists>p.
      map to_ascii_lower (ascii ''WWW.x.com'') = p @ map to_ascii_lower (ascii s) \<and> (p = [] \<or> last p = 0x2E)" by blast
  have n: "\<not> (\<exists>(base, p) \<in> set ranges. unat (0x0A000001 :: u32) div 2 ^ (32 - p) = unat base div 2 ^ (32 - p))"
    by (simp add: ranges_def)
  show ?thesis
    using bypass_routing [OF r a m, of "ascii ''WWW.x.com''" "0x0A000001"] d n by (simp only: Let_def simp_thms)
qed

end
