(* ===== verification/Clk.thy ===== *)
theory Clk
  imports Loop Bytes
begin

text \<open>
  The clock framework, \<open>kernel/src/drivers/clk/core.rs\<close>: a registry of clocks that form a tree, their nested
  prepare and enable counts, and rates that are propagated down the tree. The functions of a provider are fields of the
  clock, as in the code; they act on a hardware state of any type \<open>'h\<close>, which is part of the state here. Calls run one at
  a time, and a provider does not call the framework. The lock of the registry is held where the code holds it.
\<close>

section \<open>Clocks\<close>

type_synonym ClkId = u32

datatype ClkError =
    ClkRegistryFull | ClkInvalidId | ClkNotFound | ClkFixedRate | ClkNotPrepared | ClkStillEnabled | ClkHwError
  | ClkNoParent | ClkRateOutOfRange | ClkTreeTooDeep

type_synonym 'a cresult = "(ClkError, 'a) outcome"

definition MAX_CLOCKS :: usize where
  "MAX_CLOCKS = 512"

definition MAX_CLK_DEPTH :: u32 where
  "MAX_CLK_DEPTH = 15"

definition CLK_NAME_LEN :: usize where
  "CLK_NAME_LEN = 32"

definition CLK_NO_PARENT :: ClkId where
  "CLK_NO_PARENT = 0xFFFFFFFF"

definition FIXED_RATE :: u32 where "FIXED_RATE = 0x01"
definition IS_CRITICAL :: u32 where "IS_CRITICAL = 0x08"
definition PREPARED :: u32 where "PREPARED = 0x10"
definition ENABLED :: u32 where "ENABLED = 0x20"

record 'h ClkOps =
  co_prepare :: "('h \<Rightarrow> u64 \<Rightarrow> unit cresult \<times> 'h) option"
  co_unprepare :: "('h \<Rightarrow> u64 \<Rightarrow> 'h) option"
  co_enable :: "('h \<Rightarrow> u64 \<Rightarrow> unit cresult \<times> 'h) option"
  co_disable :: "('h \<Rightarrow> u64 \<Rightarrow> 'h) option"
  co_get_rate :: "('h \<Rightarrow> u64 \<Rightarrow> u64 \<Rightarrow> u64) option"
  co_set_rate :: "('h \<Rightarrow> u64 \<Rightarrow> u64 \<Rightarrow> u64 \<Rightarrow> u64 cresult \<times> 'h) option"
  co_round_rate :: "('h \<Rightarrow> u64 \<Rightarrow> u64 \<Rightarrow> u64 \<Rightarrow> u64) option"
  co_get_parent :: "('h \<Rightarrow> u64 \<Rightarrow> u32) option"
  co_set_parent :: "('h \<Rightarrow> u64 \<Rightarrow> u32 \<Rightarrow> unit cresult \<times> 'h) option"
  co_recalc_rate :: "('h \<Rightarrow> u64 \<Rightarrow> u64 \<Rightarrow> u64) option"

definition clk_ops_empty :: "'h ClkOps" where
  "clk_ops_empty = \<lparr>co_prepare = None, co_unprepare = None, co_enable = None, co_disable = None, co_get_rate = None,
     co_set_rate = None, co_round_rate = None, co_get_parent = None, co_set_parent = None, co_recalc_rate = None\<rparr>"

text \<open>A rate is kept in two halves.\<close>

datatype AtomicU64Wrapper = A64 (a64_hi: u32) (a64_lo: u32)

definition a64_new :: "u64 \<Rightarrow> AtomicU64Wrapper" where
  "a64_new v = A64 (ucast (drop_bit 32 v)) (ucast v)"

definition a64_load :: "AtomicU64Wrapper \<Rightarrow> u64" where
  "a64_load a = push_bit 32 (ucast (a64_hi a)) OR ucast (a64_lo a)"

record 'h ClkCore =
  ck_name :: "u8 list"
  ck_hw :: u64
  ck_ops :: "'h ClkOps"
  ck_flags :: u32
  ck_rate :: AtomicU64Wrapper
  ck_parent :: u32
  ck_depth :: u32
  ck_ref_count :: u32
  ck_prepare_count :: u32
  ck_enable_count :: u32

definition clk_name :: "u8 list \<Rightarrow> u8 list" where
  "clk_name name = (let b = take (CLK_NAME_LEN - 1) name in b @ replicate (CLK_NAME_LEN - length b) 0)"

definition clk_fixed :: "u8 list \<Rightarrow> u64 \<Rightarrow> 'h ClkCore" where
  "clk_fixed name rate_hz =
     \<lparr>ck_name = clk_name name, ck_hw = 0, ck_ops = clk_ops_empty, ck_flags = FIXED_RATE, ck_rate = a64_new rate_hz,
      ck_parent = CLK_NO_PARENT, ck_depth = 0, ck_ref_count = 0, ck_prepare_count = 0, ck_enable_count = 0\<rparr>"

definition clk_new :: "u8 list \<Rightarrow> u64 \<Rightarrow> 'h ClkOps \<Rightarrow> ClkId \<Rightarrow> u32 \<Rightarrow> 'h ClkCore" where
  "clk_new name hw ops parent flags =
     \<lparr>ck_name = clk_name name, ck_hw = hw, ck_ops = ops, ck_flags = flags, ck_rate = a64_new 0,
      ck_parent = parent, ck_depth = 0, ck_ref_count = 0, ck_prepare_count = 0, ck_enable_count = 0\<rparr>"

definition clk_name_str :: "'h ClkCore \<Rightarrow> u8 list" where
  "clk_name_str c =
     (let name = takeWhile (\<lambda>b. b \<noteq> 0) (ck_name c) in if valid_utf8 name then name else ascii ''<bad>'')"

section \<open>The registry\<close>

record 'h ClkRegistry =
  clocks :: "'h ClkCore option list"
  clk_count :: usize
  hardware :: 'h

definition clk_registry_new :: "'h \<Rightarrow> 'h ClkRegistry" where
  "clk_registry_new h = \<lparr>clocks = replicate MAX_CLOCKS None, clk_count = 0, hardware = h\<rparr>"

definition reg_get :: "'h ClkRegistry \<Rightarrow> ClkId \<Rightarrow> 'h ClkCore option" where
  "reg_get reg cid = (if unat cid < length (clocks reg) then clocks reg ! unat cid else None)"

text \<open>The clock of a registered identifier changes.\<close>

definition put_clk :: "ClkId \<Rightarrow> 'h ClkCore \<Rightarrow> 'h ClkRegistry \<Rightarrow> 'h ClkRegistry" where
  "put_clk cid c reg = reg\<lparr>clocks := (clocks reg)[unat cid := Some c]\<rparr>"

definition parent_rate :: "'h ClkRegistry \<Rightarrow> ClkId \<Rightarrow> u64" where
  "parent_rate reg parent =
     (if parent = CLK_NO_PARENT then 0
      else case reg_get reg parent of Some c \<Rightarrow> a64_load (ck_rate c) | None \<Rightarrow> 0)"

definition clk_place :: "'h ClkCore \<Rightarrow> u64 \<Rightarrow> 'h ClkRegistry \<Rightarrow> ClkId cresult \<times> 'h ClkRegistry" where
  "clk_place clk parent_rate_init reg =
     (let i = find_from (\<lambda>i. clocks reg ! i = None) 0 (length (clocks reg))
      in if i < length (clocks reg) then
           (let c = (case co_recalc_rate (ck_ops clk) of
                       Some recalc \<Rightarrow>
                         (if ck_flags clk AND FIXED_RATE = 0
                          then clk\<lparr>ck_rate := a64_new (recalc (hardware reg) (ck_hw clk) parent_rate_init)\<rparr> else clk)
                     | None \<Rightarrow> clk)
            in (Ok (of_nat i), reg\<lparr>clocks := (clocks reg)[i := Some c], clk_count := clk_count reg + 1\<rparr>))
         else (Err ClkRegistryFull, reg))"

definition clk_register :: "'h ClkCore \<Rightarrow> 'h ClkRegistry \<Rightarrow> ClkId cresult \<times> 'h ClkRegistry" where
  "clk_register clk reg =
     (if clk_count reg \<ge> MAX_CLOCKS then (Err ClkRegistryFull, reg)
      else let parent_id = ck_parent clk
      in if parent_id = CLK_NO_PARENT then clk_place clk 0 reg
         else if unat parent_id \<ge> length (clocks reg) then (Panic, reg)
         else case clocks reg ! unat parent_id of
                None \<Rightarrow> (Err ClkNoParent, reg)
              | Some p \<Rightarrow>
                  (let clk = clk\<lparr>ck_depth := ck_depth p + 1\<rparr>
                   in if ck_depth clk > MAX_CLK_DEPTH then (Err ClkTreeTooDeep, reg)
                      else clk_place clk (a64_load (ck_rate p)) reg))"

definition clk_unregister :: "ClkId \<Rightarrow> 'h ClkRegistry \<Rightarrow> unit cresult \<times> 'h ClkRegistry" where
  "clk_unregister cid reg =
     (if unat cid \<ge> MAX_CLOCKS then (Err ClkInvalidId, reg)
      else case clocks reg ! unat cid of
             None \<Rightarrow> (Err ClkNotFound, reg)
           | Some c \<Rightarrow>
               (if 0 <s ck_enable_count c then (Err ClkStillEnabled, reg)
                else (Ok (), reg\<lparr>clocks := (clocks reg)[unat cid := None], clk_count := usub (clk_count reg) 1\<rparr>)))"

definition clk_get :: "u8 list \<Rightarrow> 'h ClkRegistry \<Rightarrow> ClkId option \<times> 'h ClkRegistry" where
  "clk_get name reg =
     (let i = find_from (\<lambda>i. case clocks reg ! i of Some c \<Rightarrow> clk_name_str c = name | None \<Rightarrow> False)
                0 (length (clocks reg))
      in if i < length (clocks reg) then
           (Some (of_nat i),
            reg\<lparr>clocks := (clocks reg)[i := map_option (ck_ref_count_update (\<lambda>n. n + 1)) (clocks reg ! i)]\<rparr>)
         else (None, reg))"

definition clk_put :: "ClkId \<Rightarrow> 'h ClkRegistry \<Rightarrow> 'h ClkRegistry" where
  "clk_put cid reg =
     (case reg_get reg cid of Some c \<Rightarrow> put_clk cid (c\<lparr>ck_ref_count := ck_ref_count c - 1\<rparr>) reg | None \<Rightarrow> reg)"

section \<open>Preparing and enabling\<close>

text \<open>
  The clocks from a given one to the root, at most \<open>MAX_CLK_DEPTH + 1\<close> of them. The index into the array is
  not checked.
\<close>

fun parent_chain :: "nat \<Rightarrow> ClkId \<Rightarrow> 'h ClkRegistry \<Rightarrow> ClkId list cresult" where
  "parent_chain 0 current reg = Ok []"
| "parent_chain (Suc n) current reg =
     (if current = CLK_NO_PARENT then Ok []
      else if unat current \<ge> length (clocks reg) then Panic
      else case parent_chain n (case clocks reg ! unat current of Some c \<Rightarrow> ck_parent c | None \<Rightarrow> CLK_NO_PARENT) reg of
             Ok chain \<Rightarrow> Ok (current # chain)
           | r \<Rightarrow> r)"

definition clk_chain :: "ClkId \<Rightarrow> 'h ClkRegistry \<Rightarrow> ClkId list cresult" where
  "clk_chain = parent_chain (unat MAX_CLK_DEPTH + 1)"

text \<open>
  Preparing and enabling walk the chain alike, over two counters, two flags and two pairs of provider functions; the
  level says which.
\<close>

datatype Level = Prepare | Enable

fun level_count :: "Level \<Rightarrow> 'h ClkCore \<Rightarrow> u32" where
  "level_count Prepare c = ck_prepare_count c"
| "level_count Enable c = ck_enable_count c"

fun set_level_count :: "Level \<Rightarrow> u32 \<Rightarrow> 'h ClkCore \<Rightarrow> 'h ClkCore" where
  "set_level_count Prepare n c = c\<lparr>ck_prepare_count := n\<rparr>"
| "set_level_count Enable n c = c\<lparr>ck_enable_count := n\<rparr>"

fun level_flag :: "Level \<Rightarrow> u32" where
  "level_flag Prepare = PREPARED"
| "level_flag Enable = ENABLED"

fun level_start :: "Level \<Rightarrow> 'h ClkOps \<Rightarrow> ('h \<Rightarrow> u64 \<Rightarrow> unit cresult \<times> 'h) option" where
  "level_start Prepare ops = co_prepare ops"
| "level_start Enable ops = co_enable ops"

fun level_stop :: "Level \<Rightarrow> 'h ClkOps \<Rightarrow> ('h \<Rightarrow> u64 \<Rightarrow> 'h) option" where
  "level_stop Prepare ops = co_unprepare ops"
| "level_stop Enable ops = co_disable ops"

definition level_up :: "Level \<Rightarrow> ClkId \<Rightarrow> 'h ClkRegistry \<Rightarrow> unit cresult \<times> 'h ClkRegistry" where
  "level_up l cid reg =
     (case reg_get reg cid of
        None \<Rightarrow> (Err ClkNotFound, reg)
      | Some clk \<Rightarrow>
          (let prev = level_count l clk; reg1 = put_clk cid (set_level_count l (prev + 1) clk) reg
           in if prev \<noteq> 0 then (Ok (), reg1)
              else case (case level_start l (ck_ops clk) of
                           Some f \<Rightarrow> f (hardware reg1) (ck_hw clk)
                         | None \<Rightarrow> (Ok (), hardware reg1)) of
                     (Ok _, h) \<Rightarrow>
                       (let reg2 = reg1\<lparr>hardware := h\<rparr>
                        in case reg_get reg2 cid of
                             None \<Rightarrow> (Err ClkNotFound, reg2)
                           | Some clk \<Rightarrow> (Ok (), put_clk cid (clk\<lparr>ck_flags := ck_flags clk OR level_flag l\<rparr>) reg2))
                   | (r, h) \<Rightarrow> (r, reg1\<lparr>hardware := h\<rparr>)))"

fun levels_up :: "Level \<Rightarrow> ClkId list \<Rightarrow> 'h ClkRegistry \<Rightarrow> unit cresult \<times> 'h ClkRegistry" where
  "levels_up l [] reg = (Ok (), reg)"
| "levels_up l (cid # chain) reg =
     (case level_up l cid reg of (Ok _, reg1) \<Rightarrow> levels_up l chain reg1 | r \<Rightarrow> r)"

definition level_down :: "Level \<Rightarrow> ClkId \<Rightarrow> 'h ClkRegistry \<Rightarrow> 'h ClkRegistry" where
  "level_down l cid reg =
     (case reg_get reg cid of
        None \<Rightarrow> reg
      | Some c \<Rightarrow>
          if l = Enable \<and> ck_flags c AND IS_CRITICAL \<noteq> 0 then reg
          else let prev = level_count l c; reg1 = put_clk cid (set_level_count l (prev - 1) c) reg
          in if prev \<noteq> 1 then reg1
             else let reg2 = reg1\<lparr>hardware := (case level_stop l (ck_ops c) of
                                      Some f \<Rightarrow> f (hardware reg1) (ck_hw c) | None \<Rightarrow> hardware reg1)\<rparr>
             in case reg_get reg2 cid of
                  None \<Rightarrow> reg2
                | Some c \<Rightarrow> put_clk cid (c\<lparr>ck_flags := ck_flags c AND NOT (level_flag l)\<rparr>) reg2)"

definition clk_prepare :: "ClkId \<Rightarrow> 'h ClkRegistry \<Rightarrow> unit cresult \<times> 'h ClkRegistry" where
  "clk_prepare cid reg =
     (case clk_chain cid reg of
        Ok chain \<Rightarrow> levels_up Prepare (rev chain) reg
      | Err e \<Rightarrow> (Err e, reg)
      | Panic \<Rightarrow> (Panic, reg))"

definition clk_unprepare :: "ClkId \<Rightarrow> 'h ClkRegistry \<Rightarrow> unit cresult \<times> 'h ClkRegistry" where
  "clk_unprepare cid reg =
     (case clk_chain cid reg of
        Ok chain \<Rightarrow> (Ok (), fold (level_down Prepare) chain reg)
      | Err e \<Rightarrow> (Err e, reg)
      | Panic \<Rightarrow> (Panic, reg))"

definition clk_enable :: "ClkId \<Rightarrow> 'h ClkRegistry \<Rightarrow> unit cresult \<times> 'h ClkRegistry" where
  "clk_enable cid reg =
     (case reg_get reg cid of
        None \<Rightarrow> (Err ClkNotFound, reg)
      | Some clk \<Rightarrow>
          (if ck_prepare_count clk = 0 then (Err ClkNotPrepared, reg)
           else case clk_chain cid reg of
                  Ok chain \<Rightarrow> levels_up Enable (rev chain) reg
                | Err e \<Rightarrow> (Err e, reg)
                | Panic \<Rightarrow> (Panic, reg)))"

definition clk_disable :: "ClkId \<Rightarrow> 'h ClkRegistry \<Rightarrow> unit cresult \<times> 'h ClkRegistry" where
  "clk_disable cid reg =
     (case clk_chain cid reg of
        Ok chain \<Rightarrow> (Ok (), fold (level_down Enable) chain reg)
      | Err e \<Rightarrow> (Err e, reg)
      | Panic \<Rightarrow> (Panic, reg))"

section \<open>Rates\<close>

definition clk_get_rate :: "ClkId \<Rightarrow> 'h ClkRegistry \<Rightarrow> u64" where
  "clk_get_rate cid reg =
     (case reg_get reg cid of
        None \<Rightarrow> 0
      | Some c \<Rightarrow>
          (case co_get_rate (ck_ops c) of
             Some f \<Rightarrow> f (hardware reg) (ck_hw c) (parent_rate reg (ck_parent c))
           | None \<Rightarrow> a64_load (ck_rate c)))"

definition clk_round_rate :: "ClkId \<Rightarrow> u64 \<Rightarrow> 'h ClkRegistry \<Rightarrow> u64" where
  "clk_round_rate cid rate_hz reg =
     (case reg_get reg cid of
        None \<Rightarrow> rate_hz
      | Some c \<Rightarrow>
          (case co_round_rate (ck_ops c) of
             Some round \<Rightarrow> round (hardware reg) (ck_hw c) rate_hz (parent_rate reg (ck_parent c))
           | None \<Rightarrow> rate_hz))"

text \<open>
  One call of \<open>clk_propagate_rate\<close>: the first 32 children get their rates. The calls it makes for them, in
  order, are the entries it puts before those that still wait; the stack of the code is the list.
\<close>

definition new_child_rate :: "'h \<Rightarrow> u64 \<Rightarrow> 'h ClkCore \<Rightarrow> u64" where
  "new_child_rate h new_parent_rate child =
     (case co_recalc_rate (ck_ops child) of
        Some recalc \<Rightarrow> recalc h (ck_hw child) new_parent_rate
      | None \<Rightarrow> a64_load (ck_rate child))"

definition children_of :: "ClkId \<Rightarrow> 'h ClkRegistry \<Rightarrow> nat list" where
  "children_of parent_id reg =
     take 32 (filter (\<lambda>i. case clocks reg ! i of Some child \<Rightarrow> ck_parent child = parent_id | None \<Rightarrow> False)
       [0 ..< length (clocks reg)])"

definition recalc_child :: "u64 \<Rightarrow> nat \<Rightarrow> 'h ClkRegistry \<Rightarrow> 'h ClkRegistry" where
  "recalc_child new_parent_rate i reg =
     reg\<lparr>clocks := (clocks reg)[i := map_option
       (\<lambda>child. child\<lparr>ck_rate := a64_new (new_child_rate (hardware reg) new_parent_rate child)\<rparr>) (clocks reg ! i)]\<rparr>"

definition slot_rate :: "'h ClkRegistry \<Rightarrow> nat \<Rightarrow> u64" where
  "slot_rate reg i = (case clocks reg ! i of Some c \<Rightarrow> a64_load (ck_rate c) | None \<Rightarrow> 0)"

definition propagate_body ::
  "(ClkId \<times> u64) list \<times> 'h ClkRegistry \<Rightarrow> (ClkId \<times> u64) list \<times> 'h ClkRegistry + 'h ClkRegistry" where
  "propagate_body s =
     (case fst s of
        [] \<Rightarrow> Inr (snd s)
      | (parent_id, new_parent_rate) # waiting \<Rightarrow>
          (let kids = children_of parent_id (snd s); reg = fold (recalc_child new_parent_rate) kids (snd s)
           in Inl (map (\<lambda>i. (of_nat i, slot_rate reg i)) kids @ waiting, reg)))"

text \<open>
  Propagation takes the lock of the registry; if the caller holds it, or the recursion does not end, nothing is
  returned.
\<close>

definition clk_propagate_rate :: "bool \<Rightarrow> ClkId \<Rightarrow> u64 \<Rightarrow> 'h ClkRegistry \<Rightarrow> 'h ClkRegistry option" where
  "clk_propagate_rate locked parent_id new_parent_rate reg =
     (if locked then None else loop propagate_body ([(parent_id, new_parent_rate)], reg))"

definition clk_set_rate :: "ClkId \<Rightarrow> u64 \<Rightarrow> 'h ClkRegistry \<Rightarrow> (u64 cresult \<times> 'h ClkRegistry) option" where
  "clk_set_rate cid rate_hz reg =
     (case reg_get reg cid of
        None \<Rightarrow> Some (Err ClkNotFound, reg)
      | Some clk \<Rightarrow>
          if ck_flags clk AND FIXED_RATE \<noteq> 0 then Some (Err ClkFixedRate, reg)
          else let p_rate = parent_rate reg (ck_parent clk); hw = ck_hw clk; ops = ck_ops clk;
                   actual = (case co_round_rate ops of
                               Some round \<Rightarrow> round (hardware reg) hw rate_hz p_rate | None \<Rightarrow> rate_hz)
          in case co_set_rate ops of
               Some set_fn \<Rightarrow>
                 (case set_fn (hardware reg) hw actual p_rate of
                    (Ok result, h) \<Rightarrow>
                      (let reg1 = reg\<lparr>hardware := h\<rparr>
                       in case reg_get reg1 cid of
                            None \<Rightarrow> Some (Err ClkNotFound, reg1)
                          | Some clk \<Rightarrow>
                              map_option (Pair (Ok result))
                                (clk_propagate_rate False cid result (put_clk cid (clk\<lparr>ck_rate := a64_new result\<rparr>) reg1)))
                  | (r, h) \<Rightarrow> Some (r, reg\<lparr>hardware := h\<rparr>))
             | None \<Rightarrow>
                 map_option (Pair (Ok actual))
                   (clk_propagate_rate True cid actual (put_clk cid (clk\<lparr>ck_rate := a64_new actual\<rparr>) reg)))"


section \<open>The tree\<close>

lemma reg_get_slot: "reg_get reg cid = Some c \<longleftrightarrow> unat cid < length (clocks reg) \<and> clocks reg ! unat cid = Some c"
  by (auto simp: reg_get_def)

text \<open>What the walks over the tree depend on: parents, depths, provider functions and the critical flag.\<close>

definition critical :: "'h ClkCore \<Rightarrow> bool" where
  "critical c \<longleftrightarrow> ck_flags c AND IS_CRITICAL \<noteq> 0"

definition node :: "'h ClkCore \<Rightarrow> u32 \<times> u32 \<times> 'h ClkOps \<times> bool" where
  "node c = (ck_parent c, ck_depth c, ck_ops c, critical c)"

definition tree_of :: "'h ClkRegistry \<Rightarrow> (u32 \<times> u32 \<times> 'h ClkOps \<times> bool) option list" where
  "tree_of reg = map (map_option node) (clocks reg)"

text \<open>The contract of a provider whose functions do not fail.\<close>

definition never_fails :: "('h \<Rightarrow> u64 \<Rightarrow> unit cresult \<times> 'h) option \<Rightarrow> bool" where
  "never_fails op \<longleftrightarrow> (case op of Some f \<Rightarrow> (\<forall>h hw. fst (f h hw) = Ok ()) | None \<Rightarrow> True)"

definition reliable :: "'h ClkOps \<Rightarrow> bool" where
  "reliable ops \<longleftrightarrow> never_fails (co_prepare ops) \<and> never_fails (co_enable ops)"

definition in_tree :: "'h ClkRegistry \<Rightarrow> nat \<Rightarrow> 'h ClkCore \<Rightarrow> bool" where
  "in_tree reg i c \<longleftrightarrow> reliable (ck_ops c) \<and> unat (ck_depth c) \<le> 15 \<and>
     (ck_parent c \<noteq> CLK_NO_PARENT \<longrightarrow> unat (ck_parent c) < i \<and>
        (\<exists>p. clocks reg ! unat (ck_parent c) = Some p \<and> unat (ck_depth c) = unat (ck_depth p) + 1))"

definition tree_ok :: "'h ClkRegistry \<Rightarrow> bool" where
  "tree_ok reg \<longleftrightarrow> length (clocks reg) = 512 \<and>
     (\<forall>i < 512. case clocks reg ! i of Some c \<Rightarrow> in_tree reg i c
        | None \<Rightarrow> (\<forall>j < 512. i \<le> j \<longrightarrow> clocks reg ! j = None))"

lemma tree_ok_slot:
  assumes "tree_ok reg" "i < 512" "clocks reg ! i = Some c"
  shows "in_tree reg i c"
proof -
  have "case clocks reg ! i of Some c \<Rightarrow> in_tree reg i c | None \<Rightarrow> (\<forall>j < 512. i \<le> j \<longrightarrow> clocks reg ! j = None)"
    using assms(1,2) unfolding tree_ok_def by blast
  with assms(3) show ?thesis by simp
qed

lemma tree_ok_length: "tree_ok reg \<Longrightarrow> length (clocks reg) = 512"
  by (simp add: tree_ok_def)

lemma tree_of_slot:
  assumes "tree_of reg1 = tree_of reg" "i < length (clocks reg)"
  shows "map_option node (clocks reg1 ! i) = map_option node (clocks reg ! i)"
proof -
  have "length (clocks reg1) = length (clocks reg)" using arg_cong [OF assms(1), of length] by (simp add: tree_of_def)
  with assms(2) have "tree_of reg1 ! i = map_option node (clocks reg1 ! i)" "tree_of reg ! i = map_option node (clocks reg ! i)"
    by (simp_all add: tree_of_def)
  then show ?thesis using assms(1) by simp
qed

lemma tree_of_length: "tree_of reg1 = tree_of reg \<Longrightarrow> length (clocks reg1) = length (clocks reg)"
  using map_eq_imp_length_eq by (auto simp: tree_of_def)

lemma tree_of_Some:
  assumes "tree_of reg1 = tree_of reg" "i < length (clocks reg)" "clocks reg1 ! i = Some c1"
  obtains c where "clocks reg ! i = Some c" "node c1 = node c"
  using tree_of_slot [OF assms(1,2)] assms(3) by (cases "clocks reg ! i") auto

lemma tree_of_None:
  "tree_of reg1 = tree_of reg \<Longrightarrow> i < length (clocks reg) \<Longrightarrow> clocks reg1 ! i = None \<longleftrightarrow> clocks reg ! i = None"
  using tree_of_slot [of reg1 reg i] by (cases "clocks reg ! i"; cases "clocks reg1 ! i") auto

lemma tree_ok_cong:
  assumes "tree_of reg1 = tree_of reg" "tree_ok reg"
  shows "tree_ok reg1"
proof -
  have l: "length (clocks reg) = 512" using assms(2) by (rule tree_ok_length)
  have l1: "length (clocks reg1) = 512" using tree_of_length [OF assms(1)] l by simp
  have "in_tree reg1 i c1" if s1: "i < 512" "clocks reg1 ! i = Some c1" for i c1
  proof -
    obtain c where c: "clocks reg ! i = Some c" "node c1 = node c"
      using tree_of_slot [OF assms(1), of i] s1 l by (cases "clocks reg ! i") auto
    have t: "in_tree reg i c" using tree_ok_slot [OF assms(2) that(1) c(1)] .
    show ?thesis
    proof (cases "ck_parent c = CLK_NO_PARENT")
      case True
      with t c(2) show ?thesis by (simp add: in_tree_def node_def)
    next
      case False
      then obtain p where p: "clocks reg ! unat (ck_parent c) = Some p" "unat (ck_depth c) = unat (ck_depth p) + 1"
        and lt: "unat (ck_parent c) < i"
        using t by (auto simp: in_tree_def)
      obtain p1 where "clocks reg1 ! unat (ck_parent c) = Some p1" "node p1 = node p"
        using tree_of_slot [OF assms(1), of "unat (ck_parent c)"] lt s1(1) l p(1) by auto
      with t c(2) p lt show ?thesis by (auto simp: in_tree_def node_def)
    qed
  qed
  then show ?thesis
    using assms(2) l l1 tree_of_None [OF assms(1)] by (auto simp: tree_ok_def split: option.splits)
qed

text \<open>The chain of a registered clock: the clock, its parent and so on to a root, at smaller and smaller indices.\<close>

lemma unat_of_nat_id: "i < 512 \<Longrightarrow> unat (of_nat i :: ClkId) = i"
  by (rule of_nat32) simp

lemma of_nat_id_ne: "i < 512 \<Longrightarrow> (of_nat i :: ClkId) \<noteq> CLK_NO_PARENT"
proof
  assume "i < 512" "(of_nat i :: ClkId) = CLK_NO_PARENT"
  then have "i = unat CLK_NO_PARENT" by (metis unat_of_nat_id)
  with \<open>i < 512\<close> show False by (simp add: CLK_NO_PARENT_def)
qed

lemma chain_exists:
  assumes "tree_ok reg" "i < 512" "clocks reg ! i = Some c"
  shows "\<exists>ids. \<forall>n > unat (ck_depth c). parent_chain n (of_nat i) reg = Ok ids"
  using assms(2,3)
proof (induction i arbitrary: c rule: less_induct)
  case (less i)
  note t = tree_ok_slot [OF assms(1) less.prems]
  have step: "parent_chain (Suc m) (of_nat i) reg =
      (case parent_chain m (ck_parent c) reg of Ok chain \<Rightarrow> Ok (of_nat i # chain) | r \<Rightarrow> r)" for m
    using less.prems tree_ok_length [OF assms(1)] by (simp add: of_nat_id_ne unat_of_nat_id)
  show ?case
  proof (cases "ck_parent c = CLK_NO_PARENT")
    case True
    have "parent_chain n (of_nat i) reg = Ok [of_nat i]" if lt: "n > unat (ck_depth c)" for n
    proof -
      obtain m where m: "n = Suc m" using lt by (cases n) auto
      have "parent_chain m (ck_parent c) reg = Ok []" using True by (cases m) simp_all
      then show ?thesis using step [of m] m by simp
    qed
    then show ?thesis by blast
  next
    case False
    then obtain p where p: "clocks reg ! unat (ck_parent c) = Some p" "unat (ck_depth c) = unat (ck_depth p) + 1"
      "unat (ck_parent c) < i"
      using t by (auto simp: in_tree_def)
    then obtain ids where ids: "\<forall>n > unat (ck_depth p). parent_chain n (ck_parent c) reg = Ok ids"
      using less.IH [OF p(3) _ p(1)] less.prems(1) by auto
    have "parent_chain n (of_nat i) reg = Ok (of_nat i # ids)" if lt: "n > unat (ck_depth c)" for n
    proof -
      obtain m where m: "n = Suc m" using lt by (cases n) auto
      with lt p(2) ids have "parent_chain m (ck_parent c) reg = Ok ids" by simp
      then show ?thesis using step [of m] m by simp
    qed
    then show ?thesis by blast
  qed
qed

definition ancestors :: "'h ClkRegistry \<Rightarrow> nat \<Rightarrow> nat list" where
  "ancestors reg i = (case clk_chain (of_nat i) reg of Ok ids \<Rightarrow> map unat ids | _ \<Rightarrow> [])"

lemma clk_chain_step:
  assumes "tree_ok reg" "i < 512" "clocks reg ! i = Some c"
  shows "\<exists>ids. clk_chain (of_nat i) reg = Ok (of_nat i # ids) \<and>
    (if ck_parent c = CLK_NO_PARENT then ids = [] else clk_chain (ck_parent c) reg = Ok ids)"
proof -
  note t = tree_ok_slot [OF assms]
  have fuel: "unat MAX_CLK_DEPTH + 1 = Suc 15" by (simp add: MAX_CLK_DEPTH_def)
  have step: "clk_chain (of_nat i) reg =
      (case parent_chain 15 (ck_parent c) reg of Ok chain \<Rightarrow> Ok (of_nat i # chain) | r \<Rightarrow> r)"
    using assms(2,3) tree_ok_length [OF assms(1)]
    unfolding clk_chain_def fuel parent_chain.simps(2) by (simp add: of_nat_id_ne unat_of_nat_id)
  show ?thesis
  proof (cases "ck_parent c = CLK_NO_PARENT")
    case True
    then have "parent_chain 15 (ck_parent c) reg = Ok []" using parent_chain.simps(2) [of 14 CLK_NO_PARENT reg] by simp
    with True show ?thesis using step by simp
  next
    case False
    then obtain p where p: "clocks reg ! unat (ck_parent c) = Some p" "unat (ck_depth c) = unat (ck_depth p) + 1"
      "unat (ck_parent c) < i"
      using t by (auto simp: in_tree_def)
    then obtain ids where ids: "\<forall>n > unat (ck_depth p). parent_chain n (ck_parent c) reg = Ok ids"
      using chain_exists [OF assms(1) _ p(1)] assms(2) by auto
    have "unat (ck_depth p) < 15" using t p(2) by (simp add: in_tree_def)
    then have "parent_chain 15 (ck_parent c) reg = Ok ids" "clk_chain (ck_parent c) reg = Ok ids"
      using ids unfolding clk_chain_def fuel by simp_all
    with False show ?thesis using step by simp
  qed
qed

lemma ancestors_step:
  assumes "tree_ok reg" "i < 512" "clocks reg ! i = Some c"
  shows "ancestors reg i = i # (if ck_parent c = CLK_NO_PARENT then [] else ancestors reg (unat (ck_parent c)))"
  using clk_chain_step [OF assms] assms(2) by (auto simp: ancestors_def unat_of_nat_id)

lemma chain_ancestors:
  assumes "tree_ok reg" "i < 512" "clocks reg ! i = Some c"
  shows "clk_chain (of_nat i) reg = Ok (map of_nat (ancestors reg i))"
  using clk_chain_step [OF assms] by (auto simp: ancestors_def o_def)

text \<open>Ancestors are registered, stand at smaller indices, and include the parents of their members.\<close>

lemma ancestors_facts:
  assumes "tree_ok reg" "i < 512" "clocks reg ! i = Some c"
  shows "sorted_wrt (>) (ancestors reg i) \<and> (\<forall>j \<in> set (ancestors reg i). j \<le> i \<and>
    (\<exists>d. clocks reg ! j = Some d \<and> (ck_parent d \<noteq> CLK_NO_PARENT \<longrightarrow> unat (ck_parent d) \<in> set (ancestors reg i))))"
  using assms(2,3)
proof (induction i arbitrary: c rule: less_induct)
  case (less i)
  note st = ancestors_step [OF assms(1) less.prems]
  show ?case
  proof (cases "ck_parent c = CLK_NO_PARENT")
    case True
    then show ?thesis using st less.prems by simp
  next
    case False
    then obtain p where p: "clocks reg ! unat (ck_parent c) = Some p" "unat (ck_parent c) < i"
      using tree_ok_slot [OF assms(1) less.prems] by (auto simp: in_tree_def)
    then have "unat (ck_parent c) < 512" using less.prems(1) by simp
    note ih = less.IH [OF p(2) this p(1)]
    have "unat (ck_parent c) \<in> set (ancestors reg (unat (ck_parent c)))"
      using ancestors_step [OF assms(1) \<open>unat (ck_parent c) < 512\<close> p(1)] by simp
    with False ih st p(2) less.prems show ?thesis by fastforce
  qed
qed

lemma ancestors_cong:
  assumes "tree_of reg1 = tree_of reg" "tree_ok reg" "i < 512" "clocks reg ! i = Some c"
  shows "ancestors reg1 i = ancestors reg i"
  using assms(3,4)
proof (induction i arbitrary: c rule: less_induct)
  case (less i)
  note l = tree_ok_length [OF assms(2)]
  note ok1 = tree_ok_cong [OF assms(1,2)]
  obtain c1 where c1: "clocks reg1 ! i = Some c1" "node c1 = node c"
    using tree_of_slot [OF assms(1), of i] less.prems l by auto
  have par: "ck_parent c1 = ck_parent c" using c1(2) by (simp add: node_def)
  show ?case
  proof (cases "ck_parent c = CLK_NO_PARENT")
    case True
    then show ?thesis using ancestors_step [OF assms(2) less.prems] ancestors_step [OF ok1 less.prems(1) c1(1)] par by simp
  next
    case False
    then obtain p where p: "clocks reg ! unat (ck_parent c) = Some p" "unat (ck_parent c) < i"
      using tree_ok_slot [OF assms(2) less.prems] by (auto simp: in_tree_def)
    then have "ancestors reg1 (unat (ck_parent c)) = ancestors reg (unat (ck_parent c))"
      using less.IH [OF p(2) _ p(1)] less.prems(1) by simp
    then show ?thesis using ancestors_step [OF assms(2) less.prems] ancestors_step [OF ok1 less.prems(1) c1(1)] par by simp
  qed
qed

end
