(* ===== verification/ClkRates.thy ===== *)
theory ClkRates
  imports Clk
begin

text \<open>
  Rates of the clock tree (\<open>kernel/src/drivers/clk/core.rs\<close>): propagation down the tree ends and leaves every clock
  below with the rate its provider computes; with a cycle, which unregistering makes possible, it never ends.
\<close>

section \<open>Propagation\<close>

lemma a64_load_new [simp]: "a64_load (a64_new v) = v"
  by (rule bit_word_eqI) (auto simp: a64_load_def a64_new_def bit_or_iff bit_push_bit_iff bit_ucast_iff bit_drop_bit_eq)

text \<open>Everything but the rates.\<close>

definition but_rates :: "'h ClkRegistry \<Rightarrow> 'h ClkCore option list" where
  "but_rates reg = map (map_option (\<lambda>c. c\<lparr>ck_rate := A64 0 0\<rparr>)) (clocks reg)"

lemma but_rates_length: "but_rates reg1 = but_rates reg \<Longrightarrow> length (clocks reg1) = length (clocks reg)"
  using map_eq_imp_length_eq by (auto simp: but_rates_def)

lemma but_rates_nth:
  assumes "but_rates reg1 = but_rates reg" "i < length (clocks reg)"
  shows "map_option (\<lambda>c. c\<lparr>ck_rate := A64 0 0\<rparr>) (clocks reg1 ! i) = map_option (\<lambda>c. c\<lparr>ck_rate := A64 0 0\<rparr>) (clocks reg ! i)"
proof -
  have "but_rates reg1 ! i = map_option (\<lambda>c. c\<lparr>ck_rate := A64 0 0\<rparr>) (clocks reg1 ! i)"
    "but_rates reg ! i = map_option (\<lambda>c. c\<lparr>ck_rate := A64 0 0\<rparr>) (clocks reg ! i)"
    using assms(2) but_rates_length [OF assms(1)] by (simp_all add: but_rates_def)
  then show ?thesis using assms(1) by simp
qed

lemma but_rates_slot:
  assumes "but_rates reg1 = but_rates reg" "i < length (clocks reg)" "clocks reg1 ! i = Some c1"
  obtains c where "clocks reg ! i = Some c" "c1 = c\<lparr>ck_rate := ck_rate c1\<rparr>"
proof -
  obtain c where c: "clocks reg ! i = Some c" "c1\<lparr>ck_rate := A64 0 0\<rparr> = c\<lparr>ck_rate := A64 0 0\<rparr>"
    using but_rates_nth [OF assms(1,2)] assms(3) by (cases "clocks reg ! i") auto
  have "c1 = (c1\<lparr>ck_rate := A64 0 0\<rparr>)\<lparr>ck_rate := ck_rate c1\<rparr>" by simp
  also have "\<dots> = c\<lparr>ck_rate := ck_rate c1\<rparr>" unfolding c(2) by simp
  finally show ?thesis using that c(1) by blast
qed

definition info :: "'h ClkCore \<Rightarrow> (u32 \<times> u32 \<times> 'h ClkOps \<times> bool) \<times> u32 \<times> u32 \<times> u32" where
  "info c = (node c, ck_flags c, ck_prepare_count c, ck_enable_count c)"

definition info_of :: "'h ClkRegistry \<Rightarrow> ((u32 \<times> u32 \<times> 'h ClkOps \<times> bool) \<times> u32 \<times> u32 \<times> u32) option list" where
  "info_of reg = map (map_option info) (clocks reg)"

lemma info_of_but_rates:
  fixes reg reg1 :: "'h ClkRegistry"
  assumes "but_rates reg1 = but_rates reg"
  shows "info_of reg1 = info_of reg"
proof -
  have "info (c\<lparr>ck_rate := A64 0 0\<rparr>) = info c" for c :: "'h ClkCore" by (simp add: info_def node_def critical_def)
  then have "map_option info (map_option (\<lambda>c. c\<lparr>ck_rate := A64 0 0\<rparr>) x) = map_option info x" for x :: "'h ClkCore option"
    by (cases x) simp_all
  then have "info_of r = map (map_option info) (but_rates r)" for r :: "'h ClkRegistry"
    by (simp add: info_of_def but_rates_def)
  then show ?thesis using assms by simp
qed

lemma tree_of_info:
  fixes reg reg1 :: "'h ClkRegistry"
  assumes "info_of reg1 = info_of reg"
  shows "tree_of reg1 = tree_of reg"
proof -
  have "map_option fst (map_option info x) = map_option node x" for x :: "'h ClkCore option"
    by (cases x) (simp_all add: info_def)
  then have "tree_of r = map (map_option fst) (info_of r)" for r :: "'h ClkRegistry"
    by (simp add: tree_of_def info_of_def)
  then show ?thesis using assms by simp
qed

definition all_children :: "ClkId \<Rightarrow> 'h ClkRegistry \<Rightarrow> nat list" where
  "all_children p reg = filter (\<lambda>i. case clocks reg ! i of Some child \<Rightarrow> ck_parent child = p | None \<Rightarrow> False)
     [0 ..< length (clocks reg)]"

lemma children_of_take: "children_of p reg = take 32 (all_children p reg)"
  by (simp add: children_of_def all_children_def)

lemma all_children_iff:
  "i \<in> set (all_children p reg) \<longleftrightarrow> i < length (clocks reg) \<and> (\<exists>c. clocks reg ! i = Some c \<and> ck_parent c = p)"
  by (auto simp: all_children_def split: option.splits)

lemma children_facts:
  "distinct (children_of p reg)" "length (children_of p reg) \<le> 32" "set (children_of p reg) \<subseteq> set (all_children p reg)"
  using set_take_subset [of 32 "all_children p reg"] by (simp_all add: children_of_take) (simp add: all_children_def)

lemma fold_recalc:
  assumes "distinct kids" "\<forall>i \<in> set kids. i < length (clocks reg)"
  shows "clocks (fold (recalc_child r) kids reg) ! i = (if i \<in> set kids then map_option
      (\<lambda>c. c\<lparr>ck_rate := a64_new (new_child_rate (hardware reg) r c)\<rparr>) (clocks reg ! i) else clocks reg ! i) \<and>
    hardware (fold (recalc_child r) kids reg) = hardware reg \<and>
    length (clocks (fold (recalc_child r) kids reg)) = length (clocks reg)"
  using assms
proof (induction kids arbitrary: reg)
  case (Cons k kids)
  then show ?case by (auto simp: recalc_child_def nth_list_update)
qed simp

lemma fold_recalc_but_rates:
  assumes "distinct kids" "\<forall>i \<in> set kids. i < length (clocks reg)"
  shows "but_rates (fold (recalc_child r) kids reg) = but_rates reg"
  using fold_recalc [OF assms, of r]
  by (auto simp: but_rates_def list_eq_iff_nth_eq option.map_comp o_def)

text \<open>A rate as the provider computes it from the parent's.\<close>

definition rate_ok :: "'h ClkRegistry \<Rightarrow> nat \<Rightarrow> bool" where
  "rate_ok reg j \<longleftrightarrow> (\<forall>c f. clocks reg ! j = Some c \<longrightarrow> co_recalc_rate (ck_ops c) = Some f \<longrightarrow>
     a64_load (ck_rate c) = f (hardware reg) (ck_hw c) (slot_rate reg (unat (ck_parent c))))"

definition narrow :: "'h ClkRegistry \<Rightarrow> bool" where
  "narrow reg \<longleftrightarrow> (\<forall>p. length (all_children p reg) \<le> 32)"

definition antichain :: "'h ClkRegistry \<Rightarrow> (ClkId \<times> u64) list \<Rightarrow> bool" where
  "antichain reg w \<longleftrightarrow> distinct (map fst w) \<and>
     (\<forall>x \<in> fst ` set w. \<forall>y \<in> fst ` set w. unat x \<in> set (ancestors reg (unat y)) \<longrightarrow> x = y)"

definition prop_inv :: "bool \<Rightarrow> 'h ClkRegistry \<Rightarrow> nat \<Rightarrow> (ClkId \<times> u64) list \<times> 'h ClkRegistry \<Rightarrow> bool" where
  "prop_inv settled r0 k s \<longleftrightarrow> tree_ok r0 \<and> but_rates (snd s) = but_rates r0 \<and> hardware (snd s) = hardware r0 \<and>
     (\<forall>(cid, r) \<in> set (fst s). reg_get (snd s) cid \<noteq> None \<and> slot_rate (snd s) (unat cid) = r \<and>
        k \<in> set (ancestors r0 (unat cid))) \<and>
     antichain r0 (fst s) \<and>
     slot_rate (snd s) k = slot_rate r0 k \<and>
     (\<forall>j < 512. k \<notin> set (ancestors r0 j) \<longrightarrow> clocks (snd s) ! j = clocks r0 ! j) \<and>
     (settled \<longrightarrow> narrow r0 \<and> (\<forall>j < 512. \<forall>c. clocks (snd s) ! j = Some c \<longrightarrow> j \<noteq> k \<longrightarrow> ck_parent c \<noteq> CLK_NO_PARENT \<longrightarrow>
        ck_parent c \<notin> fst ` set (fst s) \<longrightarrow> rate_ok (snd s) j))"

lemma tree_of_but_rates: "but_rates reg1 = but_rates reg \<Longrightarrow> tree_of reg1 = tree_of reg"
  by (rule tree_of_info [OF info_of_but_rates])

lemma but_rates_parent:
  assumes "but_rates reg1 = but_rates reg" "i < length (clocks reg)" "clocks reg1 ! i = Some c1"
  obtains c where "clocks reg ! i = Some c" "ck_parent c = ck_parent c1"
  by (rule but_rates_slot [OF assms]) (metis ClkCore.ext_inject ClkCore.surjective ClkCore.update_convs(5) that)

lemma narrow_cong: "but_rates reg1 = but_rates reg \<Longrightarrow> narrow reg1 \<longleftrightarrow> narrow reg"
proof -
  assume b: "but_rates reg1 = but_rates reg"
  have "length (all_children p reg1) = length (all_children p reg)" for p
  proof -
    have "i \<in> set (all_children p reg1) \<longleftrightarrow> i \<in> set (all_children p reg)" for i
      unfolding all_children_iff using but_rates_parent [OF b, of i] but_rates_parent [OF b [symmetric], of i] but_rates_length [OF b] by metis
    then have "set (all_children p reg1) = set (all_children p reg)" by blast
    then show ?thesis by (metis all_children_def distinct_card distinct_filter distinct_upt)
  qed
  then show ?thesis by (simp add: narrow_def)
qed

text \<open>The children of a clock: above it, and below every one of its ancestors.\<close>

lemma child_ancestors:
  assumes "tree_ok r0" "but_rates reg = but_rates r0" "unat p < 512" "i \<in> set (all_children p reg)"
  shows "i < 512" "clocks r0 ! i \<noteq> None" "unat p < i" "ancestors r0 i = i # ancestors r0 (unat p)"
    "\<exists>c. clocks reg ! i = Some c \<and> ck_parent c = p"
proof -
  have l: "length (clocks r0) = 512" "length (clocks reg) = 512"
    using tree_ok_length [OF assms(1)] but_rates_length [OF assms(2)] by simp_all
  then obtain c where c: "i < 512" "clocks reg ! i = Some c" "ck_parent c = p"
    using assms(4) by (auto simp: all_children_iff)
  then obtain c0 where c0: "clocks r0 ! i = Some c0" "ck_parent c0 = p"
    using but_rates_parent [OF assms(2), of i c] l by auto
  have "p \<noteq> CLK_NO_PARENT" using assms(3) by (auto simp: CLK_NO_PARENT_def)
  with c0(2) have "unat p < i" "ancestors r0 i = i # ancestors r0 (unat p)"
    using tree_ok_slot [OF assms(1) c(1) c0(1)] ancestors_step [OF assms(1) c(1) c0(1)] by (auto simp: in_tree_def)
  then show "i < 512" "clocks r0 ! i \<noteq> None" "unat p < i" "ancestors r0 i = i # ancestors r0 (unat p)"
    "\<exists>c. clocks reg ! i = Some c \<and> ck_parent c = p"
    using c c0(1) by auto
qed

lemma ancestors_trans:
  assumes "tree_ok reg" "i < 512" "clocks reg ! i = Some c" "j \<in> set (ancestors reg i)" "k \<in> set (ancestors reg j)"
  shows "k \<in> set (ancestors reg i)"
  using assms(2-4)
proof (induction i arbitrary: c rule: less_induct)
  case (less i)
  note st = ancestors_step [OF assms(1) less.prems(1,2)]
  show ?case
  proof (cases "j = i")
    case False
    then have par: "ck_parent c \<noteq> CLK_NO_PARENT" "j \<in> set (ancestors reg (unat (ck_parent c)))"
      using st less.prems(3) by (auto split: if_splits)
    then obtain p where "clocks reg ! unat (ck_parent c) = Some p" "unat (ck_parent c) < i"
      using tree_ok_slot [OF assms(1) less.prems(1,2)] by (auto simp: in_tree_def)
    then have "k \<in> set (ancestors reg (unat (ck_parent c)))" using less.IH par(2) less.prems(1) by simp
    then show ?thesis using st par(1) by simp
  qed (use assms(5) in simp)
qed

lemma ancestor_le: "tree_ok reg \<Longrightarrow> i < 512 \<Longrightarrow> clocks reg ! i \<noteq> None \<Longrightarrow> j \<in> set (ancestors reg i) \<Longrightarrow> j \<le> i"
  using ancestors_facts [of reg i] by auto

lemma self_ancestor: "tree_ok reg \<Longrightarrow> i < 512 \<Longrightarrow> clocks reg ! i \<noteq> None \<Longrightarrow> i \<in> set (ancestors reg i)"
  using ancestors_step [of reg i] by auto

lemma antichain_visit:
  assumes "tree_ok r0" "but_rates reg = but_rates r0" "unat p < 512" "clocks r0 ! unat p \<noteq> None"
    "antichain r0 ((p, r) # w)" "distinct kids" "set kids \<subseteq> set (all_children p reg)"
    "\<forall>x \<in> fst ` set w. unat x < 512 \<and> clocks r0 ! unat x \<noteq> None"
  shows "antichain r0 (map (\<lambda>i. (of_nat i, g i)) kids @ w)"
proof -
  note child = child_ancestors [OF assms(1-3)]
  have kid: "i < 512 \<and> clocks r0 ! i \<noteq> None \<and> unat p < i \<and> ancestors r0 i = i # ancestors r0 (unat p) \<and> unat (of_nat i :: ClkId) = i"
    if "i \<in> set kids" for i
    using child [of i] assms(7) that unat_of_nat_id [of i] by blast
  have ids: "fst ` set ((p, r) # w) = insert p (fst ` set w)" by simp
  have anti: "unat x \<in> set (ancestors r0 (unat y)) \<Longrightarrow> x = y" if "x \<in> insert p (fst ` set w)" "y \<in> insert p (fst ` set w)" for x y
    using assms(5) that unfolding antichain_def ids by blast
  have pw: "p \<notin> fst ` set w" "distinct (map fst w)" using assms(5) by (simp_all add: antichain_def)
  have low: "unat p \<notin> set (ancestors r0 (unat y))" if "y \<in> fst ` set w" for y
    using anti [of p y] that pw(1) by auto
  have up: "unat y \<notin> set (ancestors r0 (unat p))" if "y \<in> fst ` set w" for y
    using anti [of y p] that pw(1) by auto
  have desc: "i \<notin> set (ancestors r0 (unat y))" if "i \<in> set kids" "y \<in> fst ` set w" for i y
  proof
    assume a: "i \<in> set (ancestors r0 (unat y))"
    have "unat p \<in> set (ancestors r0 i)" using kid [OF that(1)] self_ancestor [OF assms(1,3,4)] by simp
    moreover have "unat y < 512 \<and> clocks r0 ! unat y \<noteq> None" using assms(8) that(2) by blast
    ultimately show False using ancestors_trans [OF assms(1) _ _ a] low [OF that(2)] by blast
  qed
  have new: "(of_nat i :: ClkId) \<notin> fst ` set w" if "i \<in> set kids" for i
    using desc [OF that, of "of_nat i"] self_ancestor [OF assms(1), of i] kid [OF that] by auto
  have "distinct (map (\<lambda>i. of_nat i :: ClkId) kids)"
    using assms(6) kid by (auto simp: distinct_map intro!: inj_onI) (metis kid)
  then have "distinct (map fst (map (\<lambda>i. (of_nat i :: ClkId, g i)) kids @ w))" using pw(2) new by (auto simp: o_def)
  moreover have "x = y" if "x \<in> fst ` set (map (\<lambda>i. (of_nat i :: ClkId, g i)) kids @ w)"
    "y \<in> fst ` set (map (\<lambda>i. (of_nat i :: ClkId, g i)) kids @ w)" "unat x \<in> set (ancestors r0 (unat y))" for x y
  proof -
    have "x \<in> of_nat ` set kids \<or> x \<in> fst ` set w" "y \<in> of_nat ` set kids \<or> y \<in> fst ` set w" using that(1,2) by (auto simp: image_iff)
    then consider i j where "i \<in> set kids" "j \<in> set kids" "x = of_nat i" "y = of_nat j"
      | i where "i \<in> set kids" "x = of_nat i" "y \<in> fst ` set w" | j where "j \<in> set kids" "y = of_nat j" "x \<in> fst ` set w"
      | "x \<in> fst ` set w" "y \<in> fst ` set w" by blast
    then show ?thesis
    proof cases
      case 1
      then have "i = j \<or> i \<in> set (ancestors r0 (unat p))" using kid that(3) by auto
      moreover have "i \<notin> set (ancestors r0 (unat p))" using ancestor_le [OF assms(1,3,4), of i] kid [OF 1(1)] by auto
      ultimately show ?thesis using 1 by simp
    next
      case 2
      then show ?thesis using desc [of i y] kid [of i] that(3) by simp
    next
      case 3
      then have "unat x = j \<or> unat x \<in> set (ancestors r0 (unat p))" using kid [of j] that(3) by simp
      then show ?thesis using up [OF 3(3)] 3(2) kid [OF 3(1)] by (metis word_unat_eq_iff)
    next
      case 4
      then show ?thesis using anti that(3) by blast
    qed
  qed
  ultimately show ?thesis unfolding antichain_def by blast
qed

lemma slot_rate_cong: "clocks reg1 ! i = clocks reg ! i \<Longrightarrow> slot_rate reg1 i = slot_rate reg i"
  by (simp add: slot_rate_def)

lemma prop_inv_visit:
  assumes inv: "prop_inv settled r0 k ((p, r) # w, reg)"
  shows "prop_inv settled r0 k (map (\<lambda>i. (of_nat i, slot_rate (fold (recalc_child r) (children_of p reg) reg) i)) (children_of p reg) @ w,
    fold (recalc_child r) (children_of p reg) reg)"
proof -
  let ?kids = "children_of p reg" and ?reg = "fold (recalc_child r) (children_of p reg) reg"
  have t: "tree_ok r0" and b: "but_rates reg = but_rates r0" and h: "hardware reg = hardware r0"
    and anti: "antichain r0 ((p, r) # w)" and kr: "slot_rate reg k = slot_rate r0 k"
    and out: "\<And>j. j < 512 \<Longrightarrow> k \<notin> set (ancestors r0 j) \<Longrightarrow> clocks reg ! j = clocks r0 ! j"
    and nar: "settled \<Longrightarrow> narrow r0" and rates: "\<And>j c. settled \<Longrightarrow> j < 512 \<Longrightarrow> clocks reg ! j = Some c \<Longrightarrow> j \<noteq> k \<Longrightarrow> ck_parent c \<noteq> CLK_NO_PARENT \<Longrightarrow>
      ck_parent c \<notin> insert p (fst ` set w) \<Longrightarrow> rate_ok reg j"
    using inv by (simp_all add: prop_inv_def)
  have st: "reg_get reg cid \<noteq> None \<and> slot_rate reg (unat cid) = q \<and> k \<in> set (ancestors r0 (unat cid))"
    if "(cid, q) \<in> set ((p, r) # w)" for cid q
  proof -
    have "\<forall>(cid, q) \<in> set ((p, r) # w). reg_get reg cid \<noteq> None \<and> slot_rate reg (unat cid) = q \<and> k \<in> set (ancestors r0 (unat cid))"
      using inv unfolding prop_inv_def fst_conv snd_conv by (elim conjE)
    from bspec [OF this that] show ?thesis by simp
  qed
  have l: "length (clocks reg) = 512" using tree_ok_length [OF t] but_rates_length [OF b] by simp
  have reged: "unat cid < 512 \<and> clocks r0 ! unat cid \<noteq> None" if "reg_get reg cid \<noteq> None" for cid
    using that but_rates_nth [OF b, of "unat cid"] l tree_ok_length [OF t]
    by (cases "clocks r0 ! unat cid") (auto simp: reg_get_def split: if_splits)
  have p: "unat p < 512" "clocks r0 ! unat p \<noteq> None" "slot_rate reg (unat p) = r" "k \<in> set (ancestors r0 (unat p))"
    using st [of p r] reged [of p] by simp_all
  note child = child_ancestors [OF t b p(1)]
  have dk: "distinct ?kids" and kin: "i \<in> set ?kids \<Longrightarrow> i \<in> set (all_children p reg)" for i
    using children_facts [of p reg] by auto
  then have klt: "\<forall>i \<in> set ?kids. i < length (clocks reg)" by (auto simp: all_children_iff)
  note slot = fold_recalc [OF dk klt, of r]
  have kid: "k \<in> set (ancestors r0 i)" "unat p < i" "k < i" "unat (of_nat i :: ClkId) = i" "i < 512" if "i \<in> set ?kids" for i
    using child(1,3,4) [OF kin [OF that]] p(4) ancestor_le [OF t p(1,2,4)] by (simp_all add: unat_of_nat_id)
  have wait: "unat cid \<notin> set ?kids" if "(cid, q) \<in> set w" for cid q
  proof
    assume i: "unat cid \<in> set ?kids"
    have "unat p \<in> set (ancestors r0 (unat cid))" using child(4) [OF kin [OF i]] self_ancestor [OF t p(1,2)] by simp
    moreover have "cid \<in> fst ` set w" using that by force
    moreover have "p \<in> fst ` set ((p, r) # w)" "fst ` set w \<subseteq> fst ` set ((p, r) # w)" by auto
    ultimately have "p = cid" using anti unfolding antichain_def by blast
    then show False using kid(2) [OF i] by simp
  qed
  have anti1: "antichain r0 (map (\<lambda>i. (of_nat i, slot_rate ?reg i)) ?kids @ w)"
  proof (rule antichain_visit [OF t b p(1,2) anti dk])
    show "set ?kids \<subseteq> set (all_children p reg)" using kin by blast
    show "\<forall>x \<in> fst ` set w. unat x < 512 \<and> clocks r0 ! unat x \<noteq> None" using st reged by fastforce
  qed
  have b1: "but_rates ?reg = but_rates reg" by (rule fold_recalc_but_rates [OF dk klt])
  have stack: "reg_get ?reg cid \<noteq> None \<and> slot_rate ?reg (unat cid) = q \<and> k \<in> set (ancestors r0 (unat cid))"
    if e: "(cid, q) \<in> set (map (\<lambda>i. (of_nat i, slot_rate ?reg i)) ?kids @ w)" for cid q
  proof (cases "(cid, q) \<in> set w")
    case True
    then have same: "clocks ?reg ! unat cid = clocks reg ! unat cid" using slot wait by simp
    have len: "length (clocks ?reg) = length (clocks reg)" using slot by blast
    have "reg_get ?reg cid = reg_get reg cid" unfolding reg_get_def len same ..
    then show ?thesis using st [of cid q] True slot_rate_cong [OF same] by simp
  next
    case False
    then obtain i where i: "i \<in> set ?kids" "cid = of_nat i" "q = slot_rate ?reg i" using e by auto
    obtain c where "clocks reg ! i = Some c" using child(5) [OF kin [OF i(1)]] by blast
    then show ?thesis using i kid [OF i(1)] slot l by (simp add: reg_get_def)
  qed
  have kk: "slot_rate ?reg k = slot_rate r0 k" using slot kid(3) [of k] kr by (auto simp: slot_rate_def)
  have outside: "clocks ?reg ! j = clocks r0 ! j" if "j < 512" "k \<notin> set (ancestors r0 j)" for j
    using slot kid(1) [of j] out [OF that] that(2) by auto
  have good: "rate_ok ?reg j" if nr: settled and j: "j < 512" "clocks ?reg ! j = Some c" "j \<noteq> k" "ck_parent c \<noteq> CLK_NO_PARENT"
    and new: "ck_parent c \<notin> fst ` set (map (\<lambda>i. (of_nat i :: ClkId, slot_rate ?reg i)) ?kids @ w)" for j c
  proof -
    obtain c0 where c0: "clocks reg ! j = Some c0" "ck_parent c0 = ck_parent c"
      using but_rates_parent [OF b1 _ j(2)] j(1) l by auto
    have par: "unat (ck_parent c) \<notin> set ?kids" using new by (force simp: image_iff)
    then have pr: "slot_rate ?reg (unat (ck_parent c)) = slot_rate reg (unat (ck_parent c))" using slot by (simp add: slot_rate_def)
    show ?thesis
    proof (cases "ck_parent c = p")
      case True
      have "length (all_children p reg) \<le> 32" using nar [OF nr] narrow_cong [OF b] by (simp add: narrow_def)
      then have "j \<in> set ?kids" using c0 True j(1) l by (auto simp: children_of_take all_children_iff)
      then have "c = c0\<lparr>ck_rate := a64_new (new_child_rate (hardware reg) r c0)\<rparr>" using slot j(2) c0(1) by simp
      then show ?thesis using slot pr p(3) True j(2) by (auto simp: rate_ok_def new_child_rate_def)
    next
      case False
      then have "j \<notin> set ?kids" using c0 kin [of j] by (auto simp: all_children_iff)
      then have same: "clocks ?reg ! j = clocks reg ! j" using slot by simp
      have "ck_parent c \<notin> insert p (fst ` set w)" using False new by (auto simp: image_iff)
      then have "rate_ok reg j" using rates [OF nr j(1)] j(2-4) same by simp
      then show ?thesis using same j(2) pr slot by (auto simp: rate_ok_def)
    qed
  qed
  have hh: "hardware ?reg = hardware r0" and bb: "but_rates ?reg = but_rates r0" using slot h b b1 by simp_all
  have stackb: "\<forall>(cid, q) \<in> set (map (\<lambda>i. (of_nat i, slot_rate ?reg i)) ?kids @ w).
      reg_get ?reg cid \<noteq> None \<and> slot_rate ?reg (unat cid) = q \<and> k \<in> set (ancestors r0 (unat cid))"
    unfolding Ball_def split_paired_All case_prod_conv using stack by blast
  show ?thesis
    unfolding prop_inv_def fst_conv snd_conv
    by (intro conjI impI allI t hh bb stackb anti1 kk outside nar good)
qed

text \<open>
  Propagation ends: a visit replaces an entry by at most 32 entries of greater index, and an entry of index \<open>i\<close>
  weighs \<open>33 ^ (512 - i)\<close>.
\<close>

definition stack_weight :: "(ClkId \<times> u64) list \<Rightarrow> nat" where
  "stack_weight w = (\<Sum>e \<leftarrow> w. 33 ^ (512 - unat (fst e)))"

lemma visit_weight:
  assumes "length kids \<le> 32" "p < 512" "\<forall>i \<in> set kids. p < i \<and> i < 512"
  shows "stack_weight (map (\<lambda>i. (of_nat i, g i)) kids) < 33 ^ (512 - p)"
proof -
  have "stack_weight (map (\<lambda>i. (of_nat i, g i)) kids) \<le> length kids * 33 ^ (511 - p)"
    using assms(3)
  proof (induction kids)
    case (Cons i kids)
    have "(33 :: nat) ^ (512 - i) \<le> 33 ^ (511 - p)" using Cons.prems by (intro power_increasing) auto
    from add_mono [OF this Cons.IH] Cons.prems show ?case using unat_of_nat_id [of i] by (simp add: stack_weight_def)
  qed (simp add: stack_weight_def)
  also have "\<dots> \<le> 32 * 33 ^ (511 - p)" using assms(1) by simp
  also have "\<dots> < 33 * 33 ^ (511 - p)" by simp
  also have "33 * 33 ^ (511 - p) = (33 :: nat) ^ (512 - p)" using assms(2) by (simp flip: power_Suc)
  finally show ?thesis .
qed

interpretation propagate: terminating_loop propagate_body "prop_inv settled r0 k" "\<lambda>s. stack_weight (fst s)" for settled r0 k
proof unfold_locales
  fix s s1
  assume i: "prop_inv settled r0 k s" and b: "propagate_body s = Inl s1"
  obtain p r w reg where s: "s = ((p, r) # w, reg)"
    using b by (cases s; cases "fst s") (auto simp: propagate_body_def)
  have s1: "s1 = (map (\<lambda>i. (of_nat i, slot_rate (fold (recalc_child r) (children_of p reg) reg) i)) (children_of p reg) @ w,
      fold (recalc_child r) (children_of p reg) reg)"
    using b by (simp add: s propagate_body_def Let_def)
  show "prop_inv settled r0 k s1" unfolding s1 by (rule prop_inv_visit) (use i s in simp)
  have t: "tree_ok r0" "but_rates reg = but_rates r0" using i by (simp_all add: s prop_inv_def)
  have "reg_get reg p \<noteq> None" using i by (simp add: s prop_inv_def)
  then have p: "unat p < 512" using tree_ok_length [OF t(1)] but_rates_length [OF t(2)] by (auto simp: reg_get_def split: if_splits)
  have "\<forall>i \<in> set (children_of p reg). unat p < i \<and> i < 512"
    using child_ancestors(1,3) [OF t p] children_facts(3) [of p reg] by blast
  from visit_weight [OF children_facts(2) p this]
  show "stack_weight (fst s1) < stack_weight (fst s)" unfolding s1 by (simp add: s stack_weight_def)
qed

lemma propagate_ends:
  assumes "tree_ok r0" "reg_get r0 cid \<noteq> None" "slot_rate r0 (unat cid) = r"
    "settled \<Longrightarrow> narrow r0 \<and> (\<forall>j < 512. \<forall>c. clocks r0 ! j = Some c \<longrightarrow> j \<noteq> unat cid \<longrightarrow> ck_parent c \<noteq> CLK_NO_PARENT \<longrightarrow>
       ck_parent c \<noteq> cid \<longrightarrow> rate_ok r0 j)"
  shows "\<exists>reg. clk_propagate_rate False cid r r0 = Some reg \<and> prop_inv settled r0 (unat cid) ([], reg)"
proof -
  have c: "unat cid < 512" "clocks r0 ! unat cid \<noteq> None"
    using assms(2) tree_ok_length [OF assms(1)] by (auto simp: reg_get_def split: if_splits)
  have i: "prop_inv settled r0 (unat cid) ([(cid, r)], r0)"
    using assms self_ancestor [OF assms(1) c] by (simp add: prop_inv_def antichain_def)
  obtain reg where reg: "loop propagate_body ([(cid, r)], r0) = Some reg" using propagate.terminates [OF i] by blast
  have "prop_inv settled r0 (unat cid) ([], reg)"
  proof (rule propagate.result [OF i _ reg])
    fix t q assume t: "prop_inv settled r0 (unat cid) t" "propagate_body t = Inr q"
    then have "t = ([], q)" by (cases t; cases "fst t") (auto simp: propagate_body_def Let_def)
    with t(1) show "prop_inv settled r0 (unat cid) ([], q)" by simp
  qed
  with reg show ?thesis by (simp add: clk_propagate_rate_def)
qed

lemma put_rate:
  assumes "reg_get reg cid = Some c"
  shows "but_rates (put_clk cid (c\<lparr>ck_rate := v\<rparr>) (reg\<lparr>hardware := h\<rparr>)) = but_rates reg"
    "slot_rate (put_clk cid (c\<lparr>ck_rate := v\<rparr>) (reg\<lparr>hardware := h\<rparr>)) (unat cid) = a64_load v"
    "reg_get (put_clk cid (c\<lparr>ck_rate := v\<rparr>) (reg\<lparr>hardware := h\<rparr>)) cid \<noteq> None"
    "i \<noteq> unat cid \<Longrightarrow> clocks (put_clk cid (c\<lparr>ck_rate := v\<rparr>) (reg\<lparr>hardware := h\<rparr>)) ! i = clocks reg ! i"
    "hardware (put_clk cid (c\<lparr>ck_rate := v\<rparr>) (reg\<lparr>hardware := h\<rparr>)) = h"
  using assms by (auto simp: put_clk_def but_rates_def slot_rate_def reg_get_def list_eq_iff_nth_eq nth_list_update split: if_splits)

text \<open>Every clock but one has the rate its provider computes from the rate of its parent.\<close>

definition settled_but :: "nat \<Rightarrow> 'h ClkRegistry \<Rightarrow> bool" where
  "settled_but k reg \<longleftrightarrow> (\<forall>j < 512. \<forall>c. clocks reg ! j = Some c \<longrightarrow> j \<noteq> k \<longrightarrow> ck_parent c \<noteq> CLK_NO_PARENT \<longrightarrow> rate_ok reg j)"

lemma propagated:
  assumes "tree_ok reg" "reg_get reg cid = Some c"
  shows "\<exists>reg1. clk_propagate_rate False cid v (put_clk cid (c\<lparr>ck_rate := a64_new v\<rparr>) (reg\<lparr>hardware := h\<rparr>)) = Some reg1 \<and>
    but_rates reg1 = but_rates reg \<and> hardware reg1 = h \<and> slot_rate reg1 (unat cid) = v \<and>
    (\<forall>j < 512. unat cid \<notin> set (ancestors reg j) \<longrightarrow> clocks reg1 ! j = clocks reg ! j) \<and>
    (narrow reg \<and> settled_but (unat cid) (reg\<lparr>hardware := h\<rparr>) \<longrightarrow> settled_but (unat cid) reg1)"
proof -
  let ?settled = "narrow reg \<and> settled_but (unat cid) (reg\<lparr>hardware := h\<rparr>)"
  define r0 where "r0 = put_clk cid (c\<lparr>ck_rate := a64_new v\<rparr>) (reg\<lparr>hardware := h\<rparr>)"
  note put = put_rate [OF assms(2), where v = "a64_new v" and h = h, folded r0_def]
  have tr: "tree_of r0 = tree_of reg" by (rule tree_of_but_rates [OF put(1)])
  have k: "unat cid < 512" "clocks reg ! unat cid = Some c"
    using assms(2) tree_ok_length [OF assms(1)] by (simp_all add: reg_get_slot)
  have rates: "rate_ok r0 j"
    if st: ?settled and j: "j < 512" "clocks r0 ! j = Some d" "j \<noteq> unat cid" "ck_parent d \<noteq> CLK_NO_PARENT" "ck_parent d \<noteq> cid" for j d
  proof -
    have "clocks reg ! j = Some d" using j(2) put(4) [OF j(3)] by simp
    then have "rate_ok (reg\<lparr>hardware := h\<rparr>) j" using st j by (simp add: settled_but_def)
    moreover have "slot_rate r0 (unat (ck_parent d)) = slot_rate reg (unat (ck_parent d))"
      using put(4) [of "unat (ck_parent d)"] j(5) by (simp add: slot_rate_def word_unat_eq_iff)
    ultimately show ?thesis using \<open>clocks reg ! j = Some d\<close> j(2) put(5) by (simp add: rate_ok_def slot_rate_def)
  qed
  have ex: "\<exists>reg1. clk_propagate_rate False cid v r0 = Some reg1 \<and> prop_inv ?settled r0 (unat cid) ([], reg1)"
  proof (rule propagate_ends [OF tree_ok_cong [OF tr assms(1)] put(3)])
    show "slot_rate r0 (unat cid) = v" using put(2) by simp
    show "?settled \<Longrightarrow> narrow r0 \<and> (\<forall>j < 512. \<forall>d. clocks r0 ! j = Some d \<longrightarrow> j \<noteq> unat cid \<longrightarrow>
        ck_parent d \<noteq> CLK_NO_PARENT \<longrightarrow> ck_parent d \<noteq> cid \<longrightarrow> rate_ok r0 j)"
      using rates narrow_cong [OF put(1)] by blast
  qed
  then obtain reg1 where reg1: "clk_propagate_rate False cid v r0 = Some reg1" "prop_inv ?settled r0 (unat cid) ([], reg1)"
    by blast
  have "clocks reg1 ! j = clocks reg ! j" if "j < 512" "unat cid \<notin> set (ancestors reg j)" for j
  proof (cases "clocks reg ! j")
    case None
    then have "clocks r0 ! j = None" using put(4) [of j] k(2) by (cases "j = unat cid") auto
    moreover have "but_rates reg1 = but_rates r0" using reg1(2) by (simp add: prop_inv_def)
    ultimately have "clocks reg1 ! j = None"
      using but_rates_nth [of reg1 r0 j] that(1) tree_ok_length [OF tree_ok_cong [OF tr assms(1)]] by (cases "clocks reg1 ! j") auto
    with None show ?thesis by simp
  next
    case (Some d)
    have "j \<noteq> unat cid" using that self_ancestor [OF assms(1) k(1)] k(2) by auto
    moreover have "unat cid \<notin> set (ancestors r0 j)" using that ancestors_cong [OF tr assms(1) that(1) Some] by simp
    ultimately show ?thesis using reg1(2) that(1) put(4) by (simp add: prop_inv_def)
  qed
  moreover have "but_rates reg1 = but_rates reg" "hardware reg1 = h" "slot_rate reg1 (unat cid) = v"
    using reg1(2) put(1,2,5) by (simp_all add: prop_inv_def)
  moreover have "?settled \<longrightarrow> settled_but (unat cid) reg1" using reg1(2) by (simp add: prop_inv_def settled_but_def)
  ultimately show ?thesis using reg1(1) unfolding r0_def by blast
qed

lemma set_rate_None:
  assumes "tree_ok reg" "reg_get reg cid = Some c"
  shows "clk_set_rate cid rate_hz reg = None \<longleftrightarrow> ck_flags c AND FIXED_RATE = 0 \<and> co_set_rate (ck_ops c) = None"
proof (cases "ck_flags c AND FIXED_RATE = 0")
  case fixed: True
  show ?thesis
  proof (cases "co_set_rate (ck_ops c)")
    case None
    with fixed show ?thesis by (simp add: clk_set_rate_def assms(2) clk_propagate_rate_def Let_def)
  next
    case (Some f)
    obtain r h where r: "f (hardware reg) (ck_hw c)
        (case co_round_rate (ck_ops c) of Some round \<Rightarrow> round (hardware reg) (ck_hw c) rate_hz (parent_rate reg (ck_parent c)) | None \<Rightarrow> rate_hz)
        (parent_rate reg (ck_parent c)) = (r, h)" by force
    have g: "reg_get (reg\<lparr>hardware := h\<rparr>) cid = Some c" using assms(2) by (simp add: reg_get_slot)
    have "\<exists>reg1. clk_propagate_rate False cid v (put_clk cid (c\<lparr>ck_rate := a64_new v\<rparr>) (reg\<lparr>hardware := h\<rparr>)) = Some reg1" for v
      using propagated [OF assms] by blast
    then have "clk_propagate_rate False cid v (put_clk cid (c\<lparr>ck_rate := a64_new v\<rparr>) (reg\<lparr>hardware := h\<rparr>)) \<noteq> None" for v
      by auto
    with fixed Some r g show ?thesis by (cases r) (simp_all add: clk_set_rate_def assms(2) Let_def)
  qed
next
  case False
  then show ?thesis by (simp add: clk_set_rate_def assms(2))
qed

lemma set_rate_Some:
  assumes "tree_ok reg" "clk_set_rate cid rate_hz reg = Some (r, reg1)"
  shows "but_rates reg1 = but_rates reg \<and> (\<forall>v. r = Ok v \<longrightarrow>
    slot_rate reg1 (unat cid) = v \<and>
    (\<forall>j < 512. unat cid \<notin> set (ancestors reg j) \<longrightarrow> clocks reg1 ! j = clocks reg ! j) \<and>
    (narrow reg \<and> settled_but (unat cid) (reg\<lparr>hardware := hardware reg1\<rparr>) \<longrightarrow> settled_but (unat cid) reg1))"
proof (cases "reg_get reg cid")
  case None
  then show ?thesis using assms(2) by (auto simp: clk_set_rate_def)
next
  case c: (Some c)
  show ?thesis
  proof (cases "ck_flags c AND FIXED_RATE = 0")
    case fixed: True
    then obtain f where f: "co_set_rate (ck_ops c) = Some f"
      using set_rate_None [OF assms(1) c, of rate_hz] assms(2) by auto
    obtain q h where q: "f (hardware reg) (ck_hw c)
        (case co_round_rate (ck_ops c) of Some round \<Rightarrow> round (hardware reg) (ck_hw c) rate_hz (parent_rate reg (ck_parent c)) | None \<Rightarrow> rate_hz)
        (parent_rate reg (ck_parent c)) = (q, h)" by force
    have g: "reg_get (reg\<lparr>hardware := h\<rparr>) cid = Some c" using c by (simp add: reg_get_slot)
    have same: "but_rates (reg\<lparr>hardware := h\<rparr>) = but_rates reg" by (simp add: but_rates_def)
    show ?thesis
    proof (cases q)
      case (Ok v)
      obtain reg2 where p: "clk_propagate_rate False cid v (put_clk cid (c\<lparr>ck_rate := a64_new v\<rparr>) (reg\<lparr>hardware := h\<rparr>)) = Some reg2"
        "but_rates reg2 = but_rates reg \<and> hardware reg2 = h \<and> slot_rate reg2 (unat cid) = v \<and>
         (\<forall>j < 512. unat cid \<notin> set (ancestors reg j) \<longrightarrow> clocks reg2 ! j = clocks reg ! j) \<and>
         (narrow reg \<and> settled_but (unat cid) (reg\<lparr>hardware := h\<rparr>) \<longrightarrow> settled_but (unat cid) reg2)"
        using propagated [OF assms(1) c] by blast
      have "clk_set_rate cid rate_hz reg = Some (Ok v, reg2)"
        using fixed f q g p(1) Ok by (simp add: clk_set_rate_def c Let_def)
      with assms(2) p(2) show ?thesis by auto
    qed (use assms(2) fixed f q g same in \<open>auto simp: clk_set_rate_def c Let_def\<close>)
  next
    case False
    then show ?thesis using assms(2) by (auto simp: clk_set_rate_def c)
  qed
qed

section \<open>Unregistering\<close>

text \<open>
  Unregistering leaves the identifiers of the children's parents as they are, and the free slot is used again: two clocks
  can become each other's parents. A rate propagated to one of them is propagated for ever.
\<close>

lemma cycle_diverges:
  assumes "narrow reg" "reg_get reg a = Some c" "reg_get reg b = Some d" "ck_parent c = b" "ck_parent d = a"
  shows "clk_propagate_rate False a v reg = None"
proof -
  let ?inv = "\<lambda>s. but_rates (snd s) = but_rates reg \<and> fst ` set (fst s) \<inter> {a, b} \<noteq> {}"
  have "\<exists>s1. propagate_body s = Inl s1 \<and> ?inv s1" if i: "?inv s" for s
  proof -
    obtain p r w reg1 where s: "s = ((p, r) # w, reg1)" using i by (cases s; cases "fst s") auto
    let ?kids = "children_of p reg1" and ?reg = "fold (recalc_child r) (children_of p reg1) reg1"
    have br: "but_rates reg1 = but_rates reg" using i s by simp
    have kids: "set ?kids = set (all_children p reg1)"
      using assms(1) narrow_cong [OF br] by (simp add: children_of_take narrow_def)
    have child: "unat y \<in> set ?kids" if "reg_get reg y = Some e" "ck_parent e = p" for y e
    proof -
      have "unat y < length (clocks reg1)" "clocks reg ! unat y = Some e" using that(1) but_rates_length [OF br] by (simp_all add: reg_get_slot)
      moreover from this obtain e1 where "clocks reg1 ! unat y = Some e1" "ck_parent e1 = ck_parent e"
        using but_rates_parent [OF br [symmetric]] by metis
      ultimately show ?thesis unfolding kids all_children_iff using that(2) by auto
    qed
    have klt: "\<forall>i \<in> set ?kids. i < length (clocks reg1)" using children_facts(3) [of p reg1] by (auto simp: all_children_iff)
    have "but_rates ?reg = but_rates reg" using fold_recalc_but_rates [OF children_facts(1) klt] br by simp
    moreover have "fst ` set (map (\<lambda>i. (of_nat i :: ClkId, slot_rate ?reg i)) ?kids @ w) \<inter> {a, b} \<noteq> {}"
    proof -
      consider "p = a" | "p = b" | "fst ` set w \<inter> {a, b} \<noteq> {}" using i s by auto
      then show ?thesis
      proof cases
        case 1
        with child [OF assms(3)] assms(5) have "b \<in> of_nat ` set ?kids" by (auto intro!: image_eqI [of _ _ "unat b"])
        then show ?thesis by (force simp: image_Un image_image)
      next
        case 2
        with child [OF assms(2)] assms(4) have "a \<in> of_nat ` set ?kids" by (auto intro!: image_eqI [of _ _ "unat a"])
        then show ?thesis by (force simp: image_Un image_image)
      next
        case 3
        then show ?thesis by auto
      qed
    qed
    ultimately show ?thesis by (simp add: s propagate_body_def Let_def)
  qed
  then have "loop propagate_body ([(a, v)], reg) = None" by (intro loop_diverges [of ?inv]) auto
  then show ?thesis by (simp add: clk_propagate_rate_def)
qed

end
