(* ===== verification/ClkTree.thy ===== *)
theory ClkTree
  imports ClkRates
begin

text \<open>
  Prepare and enable counts of the clock tree (\<open>kernel/src/drivers/clk/core.rs\<close>): every call keeps the tree and the
  counts, and what follows for balanced callers.
\<close>

section \<open>Counts\<close>

fun level_bit :: "Level \<Rightarrow> nat" where
  "level_bit Prepare = 4"
| "level_bit Enable = 5"

lemma level_flag_bit: "level_flag l = 2 ^ level_bit l"
  by (cases l) (simp_all add: PREPARED_def ENABLED_def)

lemma critical_bit: "critical c \<longleftrightarrow> bit (ck_flags c) 3"
  using and_mask_zero_iff [of 3 "ck_flags c"] by (simp add: critical_def IS_CRITICAL_def)

lemma level_simps [simp]:
  "level_count l (set_level_count l1 n c) = (if l = l1 then n else level_count l c)"
  "level_count l (c\<lparr>ck_flags := fl\<rparr>) = level_count l c"
  "level_count l (c\<lparr>ck_rate := r\<rparr>) = level_count l c"
  "ck_flags (set_level_count l n c) = ck_flags c" "ck_parent (set_level_count l n c) = ck_parent c"
  "ck_depth (set_level_count l n c) = ck_depth c" "ck_ops (set_level_count l n c) = ck_ops c"
  "ck_hw (set_level_count l n c) = ck_hw c" "ck_rate (set_level_count l n c) = ck_rate c"
  by (cases l; cases l1; simp)+

lemma same_flags [simp]: "(set_level_count l n c)\<lparr>ck_flags := ck_flags c\<rparr> = set_level_count l n c"
  by (cases l) simp_all

lemma level_bit_inj [simp]: "level_bit l = level_bit m \<longleftrightarrow> l = m" "level_bit l \<noteq> 3" "level_bit l < 32"
  by (cases l; cases m; simp)+

text \<open>The counters and flags of every clock, as a function of the level and the index.\<close>

definition counted :: "'h ClkRegistry \<Rightarrow> (Level \<Rightarrow> nat \<Rightarrow> nat) \<Rightarrow> bool" where
  "counted reg f \<longleftrightarrow> (\<forall>i < length (clocks reg). \<forall>c. clocks reg ! i = Some c \<longrightarrow>
     (\<forall>l. unat (level_count l c) = f l i \<and> (bit (ck_flags c) (level_bit l) \<longleftrightarrow> f l i \<noteq> 0)))"

lemma counted_slot: "counted reg f \<Longrightarrow> reg_get reg cid = Some c \<Longrightarrow>
    unat (level_count l c) = f l (unat cid) \<and> (bit (ck_flags c) (level_bit l) \<longleftrightarrow> f l (unat cid) \<noteq> 0)"
  unfolding counted_def reg_get_slot by blast

lemma counted_put:
  assumes "counted reg f" "\<And>l. unat (level_count l c) = g l \<and> (bit (ck_flags c) (level_bit l) \<longleftrightarrow> g l \<noteq> 0)"
  shows "counted (put_clk cid c (reg\<lparr>hardware := h\<rparr>)) (\<lambda>l. (f l)(unat cid := g l))"
  using assms by (auto simp: counted_def put_clk_def nth_list_update)

lemma tree_of_put:
  "reg_get reg cid = Some c \<Longrightarrow> node c1 = node c \<Longrightarrow> tree_of (put_clk cid c1 (reg\<lparr>hardware := h\<rparr>)) = tree_of reg"
  by (auto simp: tree_of_def put_clk_def reg_get_slot list_eq_iff_nth_eq nth_list_update)

lemma put_put [simp]:
  "put_clk cid c2 (put_clk cid c1 reg) = put_clk cid c2 reg"
  "put_clk cid c2 ((put_clk cid c1 reg)\<lparr>hardware := h\<rparr>) = put_clk cid c2 (reg\<lparr>hardware := h\<rparr>)"
  by (simp_all add: put_clk_def)

lemma get_put [simp]:
  "unat cid < length (clocks reg) \<Longrightarrow> reg_get (put_clk cid c reg) cid = Some c"
  "unat cid < length (clocks reg) \<Longrightarrow> reg_get ((put_clk cid c reg)\<lparr>hardware := h\<rparr>) cid = Some c"
  by (simp_all add: reg_get_def put_clk_def)

lemma put_hardware [simp]: "hardware (put_clk cid c reg) = hardware reg"
  by (simp add: put_clk_def)

lemma level_up_result:
  assumes "counted reg f" "reg_get reg cid = Some c" "reliable (ck_ops c)"
  shows "\<exists>h. level_up l cid reg = (Ok (), put_clk cid
    ((set_level_count l (level_count l c + 1) c)\<lparr>ck_flags := ck_flags c OR level_flag l\<rparr>) (reg\<lparr>hardware := h\<rparr>))"
proof (cases "level_count l c = 0")
  case True
  obtain h where h: "(case level_start l (ck_ops c) of Some f \<Rightarrow> f (hardware reg) (ck_hw c) | None \<Rightarrow> (Ok (), hardware reg)) = (Ok (), h)"
    using assms(3) by (cases l; cases "level_start l (ck_ops c)") (auto simp: reliable_def never_fails_def prod_eq_iff)
  have "unat cid < length (clocks reg)" using assms(2) by (simp add: reg_get_slot)
  then have "level_up l cid reg = (Ok (), put_clk cid
      ((set_level_count l (level_count l c + 1) c)\<lparr>ck_flags := ck_flags c OR level_flag l\<rparr>) (reg\<lparr>hardware := h\<rparr>))"
    unfolding level_up_def assms(2) option.case Let_def put_hardware by (simp add: True h)
  then show ?thesis by blast
next
  case False
  then have "bit (ck_flags c) (level_bit l)"
    using counted_slot [OF assms(1,2), of l] by (metis unat_eq_zero)
  then have "ck_flags c OR level_flag l = ck_flags c" by (auto simp: level_flag_bit bit_eq_iff [of _ "ck_flags c"] bit_or_mask)
  moreover have "reg\<lparr>hardware := hardware reg\<rparr> = reg" by simp
  ultimately show ?thesis using False by (auto simp: level_up_def assms(2) Let_def intro!: exI [of _ "hardware reg"])
qed

lemma level_down_result:
  assumes "reg_get reg cid = Some c"
  shows "\<exists>h. level_down l cid reg = (if l = Enable \<and> critical c then reg else put_clk cid
    ((set_level_count l (level_count l c - 1) c)\<lparr>ck_flags := (if level_count l c = 1 then ck_flags c AND NOT (level_flag l) else ck_flags c)\<rparr>)
      (reg\<lparr>hardware := h\<rparr>))"
proof (cases "l = Enable \<and> critical c")
  case True
  then show ?thesis by (simp add: level_down_def assms critical_def)
next
  case False
  have "unat cid < length (clocks reg)" using assms by (simp add: reg_get_slot)
  then show ?thesis
    using False by (cases "level_count l c = 1"; intro exI [of _ "if level_count l c = 1 then case level_stop l (ck_ops c) of
        Some f \<Rightarrow> f (hardware reg) (ck_hw c) | None \<Rightarrow> hardware reg else hardware reg"])
      (auto simp: level_down_def assms critical_def Let_def cong: option.case_cong)
qed

lemma level_up_counted:
  assumes "counted reg f" "reg_get reg cid = Some c" "reliable (ck_ops c)" "level_count l c \<noteq> - 1"
  obtains reg1 where "level_up l cid reg = (Ok (), reg1)" "tree_of reg1 = tree_of reg"
    "counted reg1 (f(l := (f l)(unat cid := f l (unat cid) + 1)))"
proof -
  let ?c = "(set_level_count l (level_count l c + 1) c)\<lparr>ck_flags := ck_flags c OR level_flag l\<rparr>"
  obtain h where h: "level_up l cid reg = (Ok (), put_clk cid ?c (reg\<lparr>hardware := h\<rparr>))"
    using level_up_result [OF assms(1-3)] by blast
  have "unat (level_count l c + 1) = unat (level_count l c) + 1"
  proof -
    have "1 + level_count l c \<noteq> 0" unfolding add_eq_0_iff using assms(4) by simp
    from unatSuc [OF this] show ?thesis by (simp add: add.commute)
  qed
  then have "unat (level_count m ?c) = (f(l := (f l)(unat cid := f l (unat cid) + 1))) m (unat cid) \<and>
      (bit (ck_flags ?c) (level_bit m) \<longleftrightarrow> (f(l := (f l)(unat cid := f l (unat cid) + 1))) m (unat cid) \<noteq> 0)" for m
    using counted_slot [OF assms(1,2)] by (cases "m = l") (simp_all add: level_flag_bit bit_or_mask)
  from counted_put [OF assms(1), of ?c "\<lambda>m. (f(l := (f l)(unat cid := f l (unat cid) + 1))) m (unat cid)", OF this, of cid h]
  have "counted (put_clk cid ?c (reg\<lparr>hardware := h\<rparr>)) (f(l := (f l)(unat cid := f l (unat cid) + 1)))"
    by (rule back_subst [of "counted _"]) (auto simp: fun_eq_iff)
  moreover have "node ?c = node c"
    by (simp add: node_def critical_bit level_flag_bit bit_or_mask)
  ultimately show ?thesis using that h tree_of_put [OF assms(2)] by blast
qed

lemma level_down_counted:
  assumes "counted reg f" "reg_get reg cid = Some c" "f l (unat cid) \<noteq> 0"
  shows "tree_of (level_down l cid reg) = tree_of reg \<and>
    counted (level_down l cid reg) (if l = Enable \<and> critical c then f else f(l := (f l)(unat cid := f l (unat cid) - 1)))"
proof (cases "l = Enable \<and> critical c")
  case True
  then show ?thesis using level_down_result [OF assms(2), of l] assms(1) by auto
next
  case False
  let ?c = "(set_level_count l (level_count l c - 1) c)\<lparr>ck_flags := (if level_count l c = 1 then ck_flags c AND NOT (level_flag l) else ck_flags c)\<rparr>"
  obtain h where h: "level_down l cid reg = put_clk cid ?c (reg\<lparr>hardware := h\<rparr>)"
    using level_down_result [OF assms(2), of l] False by auto
  have one: "level_count l c = 1 \<longleftrightarrow> f l (unat cid) = 1"
    using counted_slot [OF assms(1,2), of l] by (simp add: word_unat_eq_iff)
  have "unat (level_count l c - 1) = unat (level_count l c) - 1"
    using counted_slot [OF assms(1,2), of l] assms(3) by (metis unat_minus_one unat_0)
  then have "unat (level_count m ?c) = (f(l := (f l)(unat cid := f l (unat cid) - 1))) m (unat cid) \<and>
      (bit (ck_flags ?c) (level_bit m) \<longleftrightarrow> (f(l := (f l)(unat cid := f l (unat cid) - 1))) m (unat cid) \<noteq> 0)" for m
    using counted_slot [OF assms(1,2), of m] assms(3) one
    by (cases "m = l"; cases "f l (unat cid) = 1") (simp_all add: level_flag_bit bit_and_not_mask)
  from counted_put [OF assms(1), of ?c "\<lambda>m. (f(l := (f l)(unat cid := f l (unat cid) - 1))) m (unat cid)", OF this, of cid h]
  have "counted (put_clk cid ?c (reg\<lparr>hardware := h\<rparr>)) (f(l := (f l)(unat cid := f l (unat cid) - 1)))"
    by (rule back_subst [of "counted _"]) (auto simp: fun_eq_iff)
  moreover have "node ?c = node c"
    by (simp add: node_def critical_bit level_flag_bit bit_and_not_mask)
  ultimately show ?thesis using False h tree_of_put [OF assms(2)] by auto
qed

text \<open>The same along a whole chain.\<close>

definition raised :: "Level \<Rightarrow> nat set \<Rightarrow> (Level \<Rightarrow> nat \<Rightarrow> nat) \<Rightarrow> Level \<Rightarrow> nat \<Rightarrow> nat" where
  "raised l A f = f(l := (\<lambda>i. if i \<in> A then f l i + 1 else f l i))"

definition lowered :: "Level \<Rightarrow> nat set \<Rightarrow> (Level \<Rightarrow> nat \<Rightarrow> nat) \<Rightarrow> Level \<Rightarrow> nat \<Rightarrow> nat" where
  "lowered l A f = f(l := (\<lambda>i. if i \<in> A then f l i - 1 else f l i))"

definition kept :: "Level \<Rightarrow> 'h ClkRegistry \<Rightarrow> nat \<Rightarrow> bool" where
  "kept l reg i \<longleftrightarrow> l = Enable \<and> (\<exists>c. clocks reg ! i = Some c \<and> critical c)"

lemma kept_cong:
  assumes "tree_of reg1 = tree_of reg" "i < length (clocks reg)"
  shows "kept l reg1 i \<longleftrightarrow> kept l reg i"
  using tree_of_slot [OF assms] by (cases "clocks reg1 ! i"; cases "clocks reg ! i") (auto simp: kept_def node_def)

lemma max32: "unat (- 1 :: u32) = 4294967295"
  by (simp add: unsigned_minus_1_eq_mask mask_eq_exp_minus_1)

lemma levels_up_counted:
  assumes "tree_ok reg" "counted reg f" "distinct (map unat ids)"
    "\<And>cid. cid \<in> set ids \<Longrightarrow> reg_get reg cid \<noteq> None \<and> f l (unat cid) < 2 ^ 32 - 1"
  shows "\<exists>reg1. levels_up l ids reg = (Ok (), reg1) \<and> tree_of reg1 = tree_of reg \<and>
    counted reg1 (raised l (unat ` set ids) f)"
  using assms
proof (induction ids arbitrary: reg f)
  case Nil
  then show ?case by (simp add: raised_def)
next
  case (Cons cid ids)
  obtain c where c: "reg_get reg cid = Some c" "f l (unat cid) < 2 ^ 32 - 1" using Cons.prems(4) [of cid] by auto
  define g where "g = f(l := (f l)(unat cid := f l (unat cid) + 1))"
  have "reliable (ck_ops c)"
    using tree_ok_slot [OF Cons.prems(1)] c(1) tree_ok_length [OF Cons.prems(1)] by (auto simp: reg_get_slot in_tree_def)
  moreover have "level_count l c \<noteq> - 1" using counted_slot [OF Cons.prems(2) c(1), of l] c(2) by (auto simp: max32)
  ultimately obtain reg1 where r1: "level_up l cid reg = (Ok (), reg1)" "tree_of reg1 = tree_of reg"
    "counted reg1 g"
    using level_up_counted [OF Cons.prems(2) c(1)] unfolding g_def by blast
  have "reg_get reg1 d \<noteq> None \<and> g l (unat d) < 2 ^ 32 - 1" if "d \<in> set ids" for d
  proof -
    have "unat d \<noteq> unat cid" using that Cons.prems(3) by (auto simp: image_iff)
    moreover have "reg_get reg1 d \<noteq> None"
      using Cons.prems(4) [of d] that tree_of_None [OF r1(2), of "unat d"] tree_of_length [OF r1(2)] by (auto simp: reg_get_def split: if_splits)
    ultimately show ?thesis using Cons.prems(4) [of d] that by (simp add: g_def)
  qed
  then obtain reg2 where r2: "levels_up l ids reg1 = (Ok (), reg2)" "tree_of reg2 = tree_of reg1"
    "counted reg2 (raised l (unat ` set ids) g)"
    using Cons.IH [OF tree_ok_cong [OF r1(2) Cons.prems(1)] r1(3)] Cons.prems(3) by auto
  have "raised l (unat ` set ids) g = raised l (unat ` set (cid # ids)) f"
    using Cons.prems(3) by (auto simp: raised_def g_def fun_eq_iff)
  with r1 r2 show ?case by auto
qed

lemma levels_down_counted:
  assumes "tree_ok reg" "counted reg f" "distinct (map unat ids)"
    "\<And>cid. cid \<in> set ids \<Longrightarrow> reg_get reg cid \<noteq> None \<and> f l (unat cid) \<noteq> 0"
  shows "tree_of (fold (level_down l) ids reg) = tree_of reg \<and>
    counted (fold (level_down l) ids reg) (lowered l {i \<in> unat ` set ids. \<not> kept l reg i} f)"
  using assms
proof (induction ids arbitrary: reg f)
  case Nil
  then show ?case by (simp add: lowered_def)
next
  case (Cons cid ids)
  obtain c where c: "reg_get reg cid = Some c" "f l (unat cid) \<noteq> 0" using Cons.prems(4) [of cid] by auto
  have k: "kept l reg (unat cid) \<longleftrightarrow> l = Enable \<and> critical c" using c(1) by (simp add: kept_def reg_get_slot)
  let ?f = "lowered l (if kept l reg (unat cid) then {} else {unat cid}) f"
  have "?f = (if l = Enable \<and> critical c then f else f(l := (f l)(unat cid := f l (unat cid) - 1)))"
    unfolding k by (auto simp: lowered_def fun_eq_iff)
  then have r1: "tree_of (level_down l cid reg) = tree_of reg" "counted (level_down l cid reg) ?f"
    using level_down_counted [OF Cons.prems(2) c] by simp_all
  have "reg_get (level_down l cid reg) d \<noteq> None \<and> ?f l (unat d) \<noteq> 0" if "d \<in> set ids" for d
  proof -
    have "unat d \<noteq> unat cid" using that Cons.prems(3) by (auto simp: image_iff)
    moreover have "reg_get (level_down l cid reg) d \<noteq> None"
      using Cons.prems(4) [of d] that tree_of_None [OF r1(1), of "unat d"] tree_of_length [OF r1(1)] by (auto simp: reg_get_def split: if_splits)
    ultimately show ?thesis using Cons.prems(4) [of d] that by (simp add: lowered_def)
  qed
  then have r2: "tree_of (fold (level_down l) ids (level_down l cid reg)) = tree_of (level_down l cid reg)"
    "counted (fold (level_down l) ids (level_down l cid reg)) (lowered l {i \<in> unat ` set ids. \<not> kept l (level_down l cid reg) i} ?f)"
    using Cons.IH [OF tree_ok_cong [OF r1(1) Cons.prems(1)] r1(2)] Cons.prems(3) by auto
  have "unat d < length (clocks reg)" if "d \<in> set ids" for d
    using Cons.prems(4) [of d] that by (auto simp: reg_get_def split: if_splits)
  then have "kept l (level_down l cid reg) i \<longleftrightarrow> kept l reg i" if "i \<in> unat ` set ids" for i
    using that kept_cong [OF r1(1)] by auto
  then have "{i \<in> unat ` set ids. \<not> kept l (level_down l cid reg) i} = {i \<in> unat ` set ids. \<not> kept l reg i}" by auto
  moreover have "lowered l {i \<in> unat ` set ids. \<not> kept l reg i} ?f = lowered l {i \<in> unat ` set (cid # ids). \<not> kept l reg i} f"
    using Cons.prems(3) by (auto simp: lowered_def fun_eq_iff)
  ultimately show ?case using r1 r2 by simp
qed

lemma info_fields: "info c1 = info c \<Longrightarrow> level_count m c1 = level_count m c \<and> ck_flags c1 = ck_flags c"
  by (cases m) (auto simp: info_def)

lemma counted_info:
  assumes "info_of reg1 = info_of reg" "counted reg f"
  shows "counted reg1 f"
proof -
  have l: "length (clocks reg1) = length (clocks reg)" using tree_of_length [OF tree_of_info [OF assms(1)]] .
  have same: "\<exists>c. clocks reg ! i = Some c \<and> info c1 = info c" if i: "i < length (clocks reg)" "clocks reg1 ! i = Some c1" for i c1
  proof -
    have "info_of reg1 ! i = map_option info (clocks reg1 ! i)" "info_of reg ! i = map_option info (clocks reg ! i)"
      using i l by (simp_all add: info_of_def)
    with assms(1) i(2) show ?thesis by (cases "clocks reg ! i") auto
  qed
  show ?thesis
    unfolding counted_def
  proof (intro allI impI)
    fix i c1 m
    assume i: "i < length (clocks reg1)" "clocks reg1 ! i = Some c1"
    then obtain c where c: "clocks reg ! i = Some c" "info c1 = info c" using same [of i c1] l by auto
    with info_fields [OF c(2), of m] show "unat (level_count m c1) = f m i \<and> (bit (ck_flags c1) (level_bit m) \<longleftrightarrow> f m i \<noteq> 0)"
      using assms(2) i(1) l unfolding counted_def by simp
  qed
qed

section \<open>Reachable registries\<close>

text \<open>
  The registry together with the calls still to be balanced, per level and index. A caller unprepares and disables only
  what it has prepared and enabled, and no clock is unregistered.
\<close>

type_synonym outstanding = "Level \<Rightarrow> nat \<Rightarrow> nat"

definition no_overflow :: "Level \<Rightarrow> 'h ClkRegistry \<Rightarrow> bool" where
  "no_overflow l reg \<longleftrightarrow> (\<forall>c. Some c \<in> set (clocks reg) \<longrightarrow> level_count l c \<noteq> - 1)"

definition taken :: "Level \<Rightarrow> nat \<Rightarrow> outstanding \<Rightarrow> outstanding" where
  "taken l i n = n(l := (n l)(i := n l i + 1))"

definition returned :: "Level \<Rightarrow> nat \<Rightarrow> outstanding \<Rightarrow> outstanding" where
  "returned l i n = n(l := (n l)(i := n l i - 1))"

inductive clk_step :: "'h ClkRegistry \<times> outstanding \<Rightarrow> 'h ClkRegistry \<times> outstanding \<Rightarrow> bool" where
  "clk_step (reg, n) (snd (clk_register (clk_fixed name rate_hz) reg), n)"
| "reliable ops \<Longrightarrow> flags AND (PREPARED OR ENABLED) = 0 \<Longrightarrow>
   clk_step (reg, n) (snd (clk_register (clk_new name hw ops parent flags) reg), n)"
| "reg_get reg cid \<noteq> None \<Longrightarrow> no_overflow Prepare reg \<Longrightarrow> clk_prepare cid reg = (r, reg1) \<Longrightarrow>
   clk_step (reg, n) (reg1, if is_ok r then taken Prepare (unat cid) n else n)"
| "reg_get reg cid \<noteq> None \<Longrightarrow> no_overflow Enable reg \<Longrightarrow> clk_enable cid reg = (r, reg1) \<Longrightarrow>
   clk_step (reg, n) (reg1, if is_ok r then taken Enable (unat cid) n else n)"
| "n Prepare (unat cid) \<noteq> 0 \<Longrightarrow> clk_step (reg, n) (snd (clk_unprepare cid reg), returned Prepare (unat cid) n)"
| "n Enable (unat cid) \<noteq> 0 \<Longrightarrow> clk_step (reg, n) (snd (clk_disable cid reg), returned Enable (unat cid) n)"
| "clk_step (reg, n) (snd (clk_get name reg), n)"
| "clk_step (reg, n) (clk_put cid reg, n)"
| "clk_set_rate cid rate_hz reg = Some (r, reg1) \<Longrightarrow> clk_step (reg, n) (reg1, n)"

text \<open>The clocks whose users depend on a clock, and the calls outstanding on them.\<close>

definition users :: "'h ClkRegistry \<Rightarrow> nat \<Rightarrow> nat set" where
  "users reg j = {i. i < 512 \<and> clocks reg ! i \<noteq> None \<and> j \<in> set (ancestors reg i)}"

definition uses :: "'h ClkRegistry \<Rightarrow> outstanding \<Rightarrow> Level \<Rightarrow> nat \<Rightarrow> nat" where
  "uses reg n l j = (\<Sum>i \<in> users reg j. n l i)"

definition clk_inv :: "'h ClkRegistry \<times> outstanding \<Rightarrow> bool" where
  "clk_inv s \<longleftrightarrow> tree_ok (fst s) \<and> (\<forall>l i. i \<ge> 512 \<or> clocks (fst s) ! i = None \<longrightarrow> snd s l i = 0) \<and>
     (\<exists>f. counted (fst s) f \<and> (\<forall>l i. i < 512 \<longrightarrow> clocks (fst s) ! i \<noteq> None \<longrightarrow>
        uses (fst s) (snd s) l i \<le> f l i \<and> (kept l (fst s) i \<or> f l i = uses (fst s) (snd s) l i)))"

lemma finite_users [simp]: "finite (users reg j)"
  unfolding users_def by (rule finite_subset [OF _ finite_Collect_less_nat [of 512]]) blast

lemma users_cong:
  assumes "tree_of reg1 = tree_of reg" "tree_ok reg"
  shows "users reg1 j = users reg j"
proof (rule set_eqI)
  fix i
  show "i \<in> users reg1 j \<longleftrightarrow> i \<in> users reg j"
  proof (cases "i < 512 \<and> clocks reg ! i \<noteq> None")
    case True
    then obtain c where c: "i < 512" "clocks reg ! i = Some c" by blast
    then have "clocks reg1 ! i \<noteq> None" using tree_of_None [OF assms(1), of i] tree_ok_length [OF assms(2)] by simp
    with c show ?thesis by (simp add: users_def ancestors_cong [OF assms c])
  next
    case False
    then show ?thesis using tree_of_None [OF assms(1), of i] tree_ok_length [OF assms(2)] by (auto simp: users_def)
  qed
qed

lemma uses_step:
  assumes "i < 512" "clocks reg ! i \<noteq> None"
  shows "uses reg (taken l i n) m j = uses reg n m j + (if m = l \<and> j \<in> set (ancestors reg i) then 1 else 0)"
    "n l i \<noteq> 0 \<Longrightarrow> uses reg (returned l i n) m j + (if m = l \<and> j \<in> set (ancestors reg i) then 1 else 0) = uses reg n m j"
proof -
  have i: "i \<in> users reg j \<longleftrightarrow> j \<in> set (ancestors reg i)" using assms by (simp add: users_def)
  have "sum (g(i := v)) (users reg j) + (if i \<in> users reg j then g i else 0) =
      sum g (users reg j) + (if i \<in> users reg j then v else 0)" for g :: "nat \<Rightarrow> nat" and v
  proof (cases "i \<in> users reg j")
    case True
    have "sum (g(i := v)) (users reg j - {i}) = sum g (users reg j - {i})" by (rule sum.cong) auto
    then show ?thesis
      using True sum.remove [OF finite_users True, of g] sum.remove [OF finite_users True, of "g(i := v)"] by simp
  next
    case False
    then have "sum (g(i := v)) (users reg j) = sum g (users reg j)" by (intro sum.cong) auto
    with False show ?thesis by simp
  qed
  from this [of "n l" "n l i + 1"] this [of "n l" "n l i - 1"]
  show "uses reg (taken l i n) m j = uses reg n m j + (if m = l \<and> j \<in> set (ancestors reg i) then 1 else 0)"
    "n l i \<noteq> 0 \<Longrightarrow> uses reg (returned l i n) m j + (if m = l \<and> j \<in> set (ancestors reg i) then 1 else 0) = uses reg n m j"
    unfolding i by (auto simp: uses_def taken_def returned_def split: if_splits)
qed

section \<open>Every call keeps the tree and the counts\<close>

lemma clk_invE:
  assumes "clk_inv (reg, n)"
  obtains f where "tree_ok reg" "\<And>l i. i \<ge> 512 \<or> clocks reg ! i = None \<Longrightarrow> n l i = 0"
    "counted reg f" "\<And>l i. i < 512 \<Longrightarrow> clocks reg ! i \<noteq> None \<Longrightarrow>
      uses reg n l i \<le> f l i \<and> (kept l reg i \<or> f l i = uses reg n l i)"
  using assms by (auto simp: clk_inv_def)

lemma inv_info:
  assumes "info_of reg1 = info_of reg" "clk_inv (reg, n)"
  shows "clk_inv (reg1, n)"
proof -
  from assms(2) obtain f where t: "tree_ok reg" and z: "\<And>l i. i \<ge> 512 \<or> clocks reg ! i = None \<Longrightarrow> n l i = 0"
    and f: "counted reg f" "\<And>l i. i < 512 \<Longrightarrow> clocks reg ! i \<noteq> None \<Longrightarrow>
      uses reg n l i \<le> f l i \<and> (kept l reg i \<or> f l i = uses reg n l i)"
    by (rule clk_invE) blast
  note tr = tree_of_info [OF assms(1)]
  have none: "clocks reg1 ! i = None \<longleftrightarrow> clocks reg ! i = None" if "i < 512" for i
    using tree_of_None [OF tr, of i] that tree_ok_length [OF t] by simp
  have "uses reg1 n l i = uses reg n l i" for l i by (simp add: uses_def users_cong [OF tr t])
  moreover have "kept l reg1 i \<longleftrightarrow> kept l reg i" if "i < 512" for l i
    using kept_cong [OF tr, of i] that tree_ok_length [OF t] by simp
  ultimately have "\<And>l i. i < 512 \<Longrightarrow> clocks reg1 ! i \<noteq> None \<Longrightarrow>
      uses reg1 n l i \<le> f l i \<and> (kept l reg1 i \<or> f l i = uses reg1 n l i)"
    using f(2) none by simp
  moreover have "n l i = 0" if "i \<ge> 512 \<or> clocks reg1 ! i = None" for l i
    using z [of i l] that none [of i] by (cases "i < 512") auto
  ultimately show ?thesis
    unfolding clk_inv_def fst_conv snd_conv using tree_ok_cong [OF tr t] counted_info [OF assms(1) f(1)] by blast
qed

lemma distinct_decreasing: "sorted_wrt (>) (xs :: nat list) \<Longrightarrow> distinct xs"
  by (induction xs) auto

lemma chain_of:
  assumes "tree_ok reg" "reg_get reg cid \<noteq> None"
  shows "clk_chain cid reg = Ok (map of_nat (ancestors reg (unat cid)))"
    "map unat (map of_nat (ancestors reg (unat cid)) :: ClkId list) = ancestors reg (unat cid)"
    "distinct (ancestors reg (unat cid))"
    "j \<in> set (ancestors reg (unat cid)) \<Longrightarrow> j < 512 \<and> clocks reg ! j \<noteq> None \<and> reg_get reg (of_nat j) \<noteq> None"
proof -
  obtain c where c: "unat cid < 512" "clocks reg ! unat cid = Some c"
    using assms tree_ok_length [OF assms(1)] by (auto simp: reg_get_def split: if_splits)
  note facts = ancestors_facts [OF assms(1) c]
  show "clk_chain cid reg = Ok (map of_nat (ancestors reg (unat cid)))"
    using chain_ancestors [OF assms(1) c] by simp
  show anc: "j < 512 \<and> clocks reg ! j \<noteq> None \<and> reg_get reg (of_nat j) \<noteq> None" if "j \<in> set (ancestors reg (unat cid))" for j
    using facts that c(1) tree_ok_length [OF assms(1)] unat_of_nat_id [of j] by (auto simp: reg_get_def)
  then show "map unat (map of_nat (ancestors reg (unat cid)) :: ClkId list) = ancestors reg (unat cid)"
    by (auto simp: unat_of_nat_id intro!: map_idI)
  show "distinct (ancestors reg (unat cid))"
    using facts distinct_decreasing by blast
qed

lemma raise_chain:
  assumes "tree_ok reg" "counted reg f" "reg_get reg cid \<noteq> None" "no_overflow l reg"
  shows "\<exists>chain reg1. clk_chain cid reg = Ok chain \<and> levels_up l (rev chain) reg = (Ok (), reg1) \<and>
    tree_of reg1 = tree_of reg \<and> counted reg1 (raised l (set (ancestors reg (unat cid))) f)"
proof -
  let ?anc = "ancestors reg (unat cid)"
  note l = tree_ok_length [OF assms(1)] and ch = chain_of [OF assms(1,3)]
  have "f l j < 2 ^ 32 - 1" if j: "j < 512" "clocks reg ! j \<noteq> None" for j
  proof -
    obtain c where c: "clocks reg ! j = Some c" using j(2) by blast
    then have "Some c \<in> set (clocks reg)" using j(1) l by (metis nth_mem)
    then have "level_count l c \<noteq> - 1" using assms(4) by (simp add: no_overflow_def)
    then have "unat (level_count l c) \<noteq> 2 ^ 32 - 1" using max32 by (auto simp: word_unat_eq_iff)
    moreover have "unat (level_count l c) = f l j" using assms(2) c j(1) l unfolding counted_def by simp
    ultimately show ?thesis using unat_u32_less [of "level_count l c"] by simp
  qed
  then have pre: "reg_get reg d \<noteq> None \<and> f l (unat d) < 2 ^ 32 - 1" if "d \<in> set (rev (map of_nat ?anc :: ClkId list))" for d
    using that ch(4) by (auto simp: unat_of_nat_id)
  have dist: "distinct (map unat (rev (map of_nat ?anc :: ClkId list)))" using ch(2,3) by (metis distinct_rev rev_map)
  have "unat ` set (rev (map of_nat ?anc :: ClkId list)) = set ?anc"
    using arg_cong [OF ch(2), of set] by (simp add: image_image)
  then show ?thesis using levels_up_counted [OF assms(1,2) dist pre] ch(1) by auto
qed

lemma lower_chain:
  assumes "tree_ok reg" "counted reg f" "reg_get reg cid \<noteq> None" "\<And>j. j \<in> set (ancestors reg (unat cid)) \<Longrightarrow> f l j \<noteq> 0"
  shows "\<exists>chain. clk_chain cid reg = Ok chain \<and> tree_of (fold (level_down l) chain reg) = tree_of reg \<and>
    counted (fold (level_down l) chain reg) (lowered l {i \<in> set (ancestors reg (unat cid)). \<not> kept l reg i} f)"
proof -
  let ?anc = "ancestors reg (unat cid)"
  note ch = chain_of [OF assms(1,3)]
  have pre: "reg_get reg d \<noteq> None \<and> f l (unat d) \<noteq> 0" if "d \<in> set (map of_nat ?anc :: ClkId list)" for d
    using that ch(4) assms(4) by (auto simp: unat_of_nat_id)
  have dist: "distinct (map unat (map of_nat ?anc :: ClkId list))" unfolding ch(2) by (rule ch(3))
  have "unat ` set (map of_nat ?anc :: ClkId list) = set ?anc"
    using arg_cong [OF ch(2), of set] by (simp add: image_image)
  then show ?thesis using levels_down_counted [OF assms(1,2) dist pre] ch(1) by auto
qed

lemma chain_up:
  assumes "clk_inv (reg, n)" "reg_get reg cid \<noteq> None" "no_overflow l reg"
  shows "\<exists>chain reg1. clk_chain cid reg = Ok chain \<and> levels_up l (rev chain) reg = (Ok (), reg1) \<and>
    clk_inv (reg1, taken l (unat cid) n)"
proof -
  from assms(1) obtain f where t: "tree_ok reg" and z: "\<And>l i. i \<ge> 512 \<or> clocks reg ! i = None \<Longrightarrow> n l i = 0"
    and f: "counted reg f" "\<And>l i. i < 512 \<Longrightarrow> clocks reg ! i \<noteq> None \<Longrightarrow>
      uses reg n l i \<le> f l i \<and> (kept l reg i \<or> f l i = uses reg n l i)"
    by (rule clk_invE) blast
  let ?anc = "ancestors reg (unat cid)"
  have k: "unat cid < 512" "clocks reg ! unat cid \<noteq> None"
    using assms(2) tree_ok_length [OF t] by (auto simp: reg_get_def split: if_splits)
  obtain chain reg1 where r1: "clk_chain cid reg = Ok chain" "levels_up l (rev chain) reg = (Ok (), reg1)"
    "tree_of reg1 = tree_of reg" "counted reg1 (raised l (set ?anc) f)"
    using raise_chain [OF t f(1) assms(2,3)] by blast
  have u: "uses reg1 m l i = uses reg m l i" for m l i by (simp add: uses_def users_cong [OF r1(3) t])
  have none: "clocks reg1 ! i = None \<longleftrightarrow> clocks reg ! i = None" if "i < 512" for i
    using tree_of_None [OF r1(3), of i] that tree_ok_length [OF t] by simp
  have kc: "kept l reg1 i \<longleftrightarrow> kept l reg i" if "i < 512" for l i
    using kept_cong [OF r1(3), of i] that tree_ok_length [OF t] by simp
  have "uses reg1 (taken l (unat cid) n) m i \<le> raised l (set ?anc) f m i \<and>
      (kept m reg1 i \<or> raised l (set ?anc) f m i = uses reg1 (taken l (unat cid) n) m i)"
    if "i < 512" "clocks reg1 ! i \<noteq> None" for m i
    using f(2) [of i m] that none [of i] kc [of i m] unfolding u uses_step(1) [OF k] by (auto simp: raised_def)
  moreover have "taken l (unat cid) n m i = 0" if "i \<ge> 512 \<or> clocks reg1 ! i = None" for m i
  proof -
    have "i \<noteq> unat cid" using that k none [of i] by auto
    then show ?thesis using z [of i m] that none [of i] by (cases "i < 512") (auto simp: taken_def)
  qed
  ultimately have "clk_inv (reg1, taken l (unat cid) n)"
    unfolding clk_inv_def fst_conv snd_conv using tree_ok_cong [OF r1(3) t] r1(4) by blast
  with r1(1,2) show ?thesis by blast
qed

lemma chain_down:
  assumes "clk_inv (reg, n)" "n l (unat cid) \<noteq> 0"
  shows "\<exists>chain. clk_chain cid reg = Ok chain \<and> clk_inv (fold (level_down l) chain reg, returned l (unat cid) n)"
proof -
  from assms(1) obtain f where t: "tree_ok reg" and z: "\<And>l i. i \<ge> 512 \<or> clocks reg ! i = None \<Longrightarrow> n l i = 0"
    and f: "counted reg f" "\<And>l i. i < 512 \<Longrightarrow> clocks reg ! i \<noteq> None \<Longrightarrow>
      uses reg n l i \<le> f l i \<and> (kept l reg i \<or> f l i = uses reg n l i)"
    by (rule clk_invE) blast
  let ?anc = "ancestors reg (unat cid)"
  have k: "unat cid < 512" "clocks reg ! unat cid \<noteq> None" using z [of "unat cid" l] assms(2) by (metis linorder_not_le)+
  then have reged: "reg_get reg cid \<noteq> None" using tree_ok_length [OF t] by (simp add: reg_get_def)
  note ch = chain_of [OF t reged]
  have pos: "f l j \<noteq> 0" if "j \<in> set ?anc" for j
  proof -
    have "n l (unat cid) \<le> uses reg n l j"
      using that k unfolding uses_def by (intro member_le_sum) (auto simp: users_def)
    then show ?thesis using f(2) [of j l] ch(4) [OF that] assms(2) by auto
  qed
  let ?A = "{i \<in> set ?anc. \<not> kept l reg i}"
  obtain chain where r1: "clk_chain cid reg = Ok chain" "tree_of (fold (level_down l) chain reg) = tree_of reg"
    "counted (fold (level_down l) chain reg) (lowered l ?A f)"
    using lower_chain [OF t f(1) reged pos] by blast
  let ?reg = "fold (level_down l) chain reg"
  have u: "uses ?reg m l i = uses reg m l i" for m l i by (simp add: uses_def users_cong [OF r1(2) t])
  have none: "clocks ?reg ! i = None \<longleftrightarrow> clocks reg ! i = None" if "i < 512" for i
    using tree_of_None [OF r1(2), of i] that tree_ok_length [OF t] by simp
  have kc: "kept l ?reg i \<longleftrightarrow> kept l reg i" if "i < 512" for l i
    using kept_cong [OF r1(2), of i] that tree_ok_length [OF t] by simp
  have "uses reg (returned l (unat cid) n) m i \<le> lowered l ?A f m i \<and>
      (kept m reg i \<or> lowered l ?A f m i = uses reg (returned l (unat cid) n) m i)"
    if "i < 512" "clocks reg ! i \<noteq> None" for m i
    using f(2) [OF that, of m] uses_step(2) [OF k, where n = n and l = l and m = m and j = i] assms(2) by (auto simp: lowered_def split: if_splits)
  then have "uses ?reg (returned l (unat cid) n) m i \<le> lowered l ?A f m i \<and>
      (kept m ?reg i \<or> lowered l ?A f m i = uses ?reg (returned l (unat cid) n) m i)"
    if "i < 512" "clocks ?reg ! i \<noteq> None" for m i
    unfolding u using that none [of i] kc [of i m] by simp
  moreover have "returned l (unat cid) n m i = 0" if "i \<ge> 512 \<or> clocks ?reg ! i = None" for m i
  proof -
    have "i \<noteq> unat cid" using that k none [of i] by auto
    then show ?thesis using z [of i m] that none [of i] by (cases "i < 512") (auto simp: returned_def)
  qed
  ultimately have "clk_inv (?reg, returned l (unat cid) n)"
    unfolding clk_inv_def fst_conv snd_conv using tree_ok_cong [OF r1(2) t] r1(3) by blast
  with r1(1) show ?thesis by blast
qed

lemma register_cases:
  assumes "tree_ok reg" "ck_depth clk = 0"
  obtains "snd (clk_register clk reg) = reg"
  | i c cnt where "i < 512" "clocks reg ! i = None" "\<forall>j < i. clocks reg ! j \<noteq> None"
      "snd (clk_register clk reg) = reg\<lparr>clocks := (clocks reg)[i := Some c], clk_count := cnt\<rparr>"
      "ck_parent c = ck_parent clk" "ck_ops c = ck_ops clk" "ck_flags c = ck_flags clk" "unat (ck_depth c) \<le> 15"
      "\<forall>l. level_count l c = level_count l clk"
      "ck_parent c \<noteq> CLK_NO_PARENT \<longrightarrow> unat (ck_parent c) < 512 \<and>
         (\<exists>p. clocks reg ! unat (ck_parent c) = Some p \<and> unat (ck_depth c) = unat (ck_depth p) + 1)"
proof -
  have place: "snd (clk_place d v reg) = reg \<or> (\<exists>i c cnt. i < 512 \<and> clocks reg ! i = None \<and> (\<forall>j < i. clocks reg ! j \<noteq> None) \<and>
      snd (clk_place d v reg) = reg\<lparr>clocks := (clocks reg)[i := Some c], clk_count := cnt\<rparr> \<and>
      ck_parent c = ck_parent d \<and> ck_ops c = ck_ops d \<and> ck_flags c = ck_flags d \<and> ck_depth c = ck_depth d \<and>
      (\<forall>l. level_count l c = level_count l d))" for d v
  proof -
    let ?i = "find_from (\<lambda>i. clocks reg ! i = None) 0 (length (clocks reg))"
    show ?thesis
    proof (cases "?i < length (clocks reg)")
      case True
      then have "clocks reg ! ?i = None" "\<forall>j < ?i. clocks reg ! j \<noteq> None"
        using find_from_sat [OF True] find_from_before [OF le0] by blast+
      moreover define c where "c = (case co_recalc_rate (ck_ops d) of
          Some recalc \<Rightarrow> (if ck_flags d AND FIXED_RATE = 0 then d\<lparr>ck_rate := a64_new (recalc (hardware reg) (ck_hw d) v)\<rparr> else d)
        | None \<Rightarrow> d)"
      ultimately have "?i < 512 \<and> clocks reg ! ?i = None \<and> (\<forall>j < ?i. clocks reg ! j \<noteq> None) \<and>
          snd (clk_place d v reg) = reg\<lparr>clocks := (clocks reg)[?i := Some c], clk_count := clk_count reg + 1\<rparr>"
        using True tree_ok_length [OF assms(1)] by (simp add: clk_place_def Let_def del: find_from_hit find_from_miss)
      moreover have "ck_parent c = ck_parent d \<and> ck_ops c = ck_ops d \<and> ck_flags c = ck_flags d \<and> ck_depth c = ck_depth d \<and>
          (\<forall>l. level_count l c = level_count l d)"
        by (simp add: c_def split: option.splits)
      ultimately show ?thesis by blast
    next
      case False
      then show ?thesis by (simp add: clk_place_def Let_def)
    qed
  qed
  consider "snd (clk_register clk reg) = reg"
    | "ck_parent clk = CLK_NO_PARENT" "clk_register clk reg = clk_place clk 0 reg"
    | p where "ck_parent clk \<noteq> CLK_NO_PARENT" "unat (ck_parent clk) < 512" "clocks reg ! unat (ck_parent clk) = Some p"
        "unat (ck_depth p + 1) \<le> 15"
        "clk_register clk reg = clk_place (clk\<lparr>ck_depth := ck_depth p + 1\<rparr>) (a64_load (ck_rate p)) reg"
  proof -
    have "unat (MAX_CLK_DEPTH) = 15" by (simp add: MAX_CLK_DEPTH_def)
    then show ?thesis
      using that tree_ok_length [OF assms(1)]
      by (cases "clk_count reg \<ge> MAX_CLOCKS"; cases "ck_parent clk = CLK_NO_PARENT"; cases "unat (ck_parent clk) < 512";
          cases "clocks reg ! unat (ck_parent clk)")
        (force simp: clk_register_def Let_def word_less_nat_alt not_less split: if_splits)+
  qed
  then show ?thesis
  proof cases
    case 1
    then show ?thesis by (rule that(1))
  next
    case 2
    then show ?thesis using place [of clk 0] that assms(2) by (auto simp: level_simps)
  next
    case (3 p)
    have "unat (ck_depth p) \<le> 15" using tree_ok_slot [OF assms(1) 3(2,3)] by (simp add: in_tree_def)
    then have "unat (ck_depth p + 1) = unat (ck_depth p) + 1" by (simp add: add32)
    moreover have "level_count l (clk\<lparr>ck_depth := d\<rparr>) = level_count l clk" for l d by (cases l) simp_all
    ultimately show ?thesis using place [of "clk\<lparr>ck_depth := ck_depth p + 1\<rparr>" "a64_load (ck_rate p)"] 3 that by auto
  qed
qed

lemma clk_register_inv:
  assumes "clk_inv (reg, n)" "ck_depth clk = 0" "reliable (ck_ops clk)" "\<And>l. level_count l clk = 0"
    "\<And>l. \<not> bit (ck_flags clk) (level_bit l)"
  shows "clk_inv (snd (clk_register clk reg), n)"
proof -
  from assms(1) obtain f where t: "tree_ok reg" and z: "\<And>l i. i \<ge> 512 \<or> clocks reg ! i = None \<Longrightarrow> n l i = 0"
    and f: "counted reg f" "\<And>l i. i < 512 \<Longrightarrow> clocks reg ! i \<noteq> None \<Longrightarrow>
      uses reg n l i \<le> f l i \<and> (kept l reg i \<or> f l i = uses reg n l i)"
    by (rule clk_invE) blast
  note l = tree_ok_length [OF t]
  show ?thesis
  proof (cases rule: register_cases [OF t assms(2)])
    case 1
    then show ?thesis using assms(1) by simp
  next
    case (2 i c cnt)
    define reg1 where "reg1 = reg\<lparr>clocks := (clocks reg)[i := Some c], clk_count := cnt\<rparr>"
    have slot: "clocks reg1 ! j = (if j = i then Some c else clocks reg ! j)" if "j < 512" for j
      using that l by (simp add: reg1_def nth_list_update)
    have above: "clocks reg ! j = None" if "i \<le> j" "j < 512" for j
    proof -
      have "case clocks reg ! i of Some c \<Rightarrow> in_tree reg i c | None \<Rightarrow> (\<forall>j < 512. i \<le> j \<longrightarrow> clocks reg ! j = None)"
        using t 2(1) unfolding tree_ok_def by blast
      with that 2(2) show ?thesis by simp
    qed
    have below: "unat (ck_parent d) < j \<Longrightarrow> j < 512 \<Longrightarrow> clocks reg ! unat (ck_parent d) = Some p \<Longrightarrow> clocks reg1 ! unat (ck_parent d) = Some p" for d j p
      using slot [of "unat (ck_parent d)"] 2(2) by auto
    have "in_tree reg1 j d" if "j < 512" "clocks reg1 ! j = Some d" for j d
    proof (cases "j = i")
      case True
      then have d: "d = c" using that slot by simp
      have "unat (ck_parent c) < i" if "ck_parent c \<noteq> CLK_NO_PARENT"
        using 2(10) that above [of "unat (ck_parent c)"] by force
      then show ?thesis using 2(3,5-10) assms(3) slot [of "unat (ck_parent c)"] 2(1,2) True by (auto simp: d in_tree_def)
    next
      case False
      then have "in_tree reg j d" using that slot tree_ok_slot [OF t] by simp
      then show ?thesis using below [of d j] that(1) by (auto simp: in_tree_def)
    qed
    moreover have "\<forall>m < 512. j \<le> m \<longrightarrow> clocks reg1 ! m = None" if "j < 512" "clocks reg1 ! j = None" for j
    proof -
      have "j \<noteq> i" "clocks reg ! j = None" using that slot [of j] by (auto split: if_splits)
      then have "i < j" using 2(3) by (meson linorder_neqE_nat)
      then show ?thesis using slot above by simp
    qed
    moreover have "length (clocks reg1) = 512" using l by (simp add: reg1_def)
    ultimately have t1: "tree_ok reg1" unfolding tree_ok_def by (auto split: option.split)
    have anc: "ancestors reg1 j = ancestors reg j" if "j < 512" "clocks reg ! j = Some d" for j d
      using that
    proof (induction j arbitrary: d rule: less_induct)
      case (less j)
      have s1: "clocks reg1 ! j = Some d" using slot [OF less.prems(1)] less.prems(2) 2(2) by auto
      show ?case
      proof (cases "ck_parent d = CLK_NO_PARENT")
        case True
        then show ?thesis using ancestors_step [OF t less.prems] ancestors_step [OF t1 less.prems(1) s1] by simp
      next
        case False
        then obtain p where "clocks reg ! unat (ck_parent d) = Some p" "unat (ck_parent d) < j"
          using tree_ok_slot [OF t less.prems] by (auto simp: in_tree_def)
        then show ?thesis
          using less.IH [of "unat (ck_parent d)" p] less.prems(1) ancestors_step [OF t less.prems] ancestors_step [OF t1 less.prems(1) s1] False by simp
      qed
    qed
    have zi: "n l i = 0" for l using z 2(2) by blast
    have uses1: "uses reg1 n l j = (if j = i then 0 else uses reg n l j)" if "j < 512" for l j
    proof -
      have "users reg1 j \<subseteq> insert i (users reg j)" "users reg j \<subseteq> users reg1 j"
        using slot anc 2(2) by (auto simp: users_def split: if_splits)
      moreover have "i \<notin> users reg j" using 2(2) by (simp add: users_def)
      ultimately have "uses reg1 n l j = uses reg n l j"
        unfolding uses_def by (intro sum.mono_neutral_right) (use zi in auto)
      moreover have "users reg i = {}"
        using ancestors_facts [OF t] 2(2) by (fastforce simp: users_def)
      ultimately show ?thesis by (simp add: uses_def)
    qed
    have kept1: "kept l reg1 j = kept l reg j" if "j < 512" "j \<noteq> i" for l j using slot [OF that(1)] that(2) by (simp add: kept_def)
    have "counted reg1 (\<lambda>l. (f l)(i := 0))"
      using f(1) l 2(7,9) assms(4,5) 2(1) by (auto simp: counted_def reg1_def nth_list_update)
    moreover have "uses reg1 n l j \<le> ((f l)(i := 0)) j \<and> (kept l reg1 j \<or> ((f l)(i := 0)) j = uses reg1 n l j)"
      if "j < 512" "clocks reg1 ! j \<noteq> None" for l j
      using that f(2) [of j l] uses1 kept1 slot by (auto split: if_splits)
    moreover have "n l j = 0" if "j \<ge> 512 \<or> clocks reg1 ! j = None" for l j
      using that z [of j l] slot [of j] by (cases "j < 512") (auto split: if_splits)
    ultimately have "clk_inv (reg1, n)" unfolding clk_inv_def fst_conv snd_conv using t1 by blast
    then show ?thesis using 2(4) by (simp add: reg1_def)
  qed
qed

definition clk_init :: "'h ClkRegistry \<times> outstanding \<Rightarrow> bool" where
  "clk_init s \<longleftrightarrow> (\<exists>h. fst s = clk_registry_new h) \<and> snd s = (\<lambda>l i. 0)"

lemma clk_boot_inv: "clk_inv (clk_registry_new h, \<lambda>l i. 0)"
  by (auto simp: clk_inv_def tree_ok_def clk_registry_new_def MAX_CLOCKS_def counted_def)

lemma new_clock_facts:
  "ck_depth (clk_fixed name v) = 0" "reliable (ck_ops (clk_fixed name v))" "level_count l (clk_fixed name v) = 0"
  "\<not> bit (ck_flags (clk_fixed name v)) (level_bit l)"
  "ck_depth (clk_new name hw ops parent flags) = 0" "ck_ops (clk_new name hw ops parent flags) = ops"
  "level_count l (clk_new name hw ops parent flags) = 0" "ck_flags (clk_new name hw ops parent flags) = flags"
  by (cases l; simp add: clk_fixed_def clk_new_def reliable_def never_fails_def clk_ops_empty_def FIXED_RATE_def)+

lemma no_level_bits:
  assumes "flags AND (PREPARED OR ENABLED) = 0"
  shows "\<not> bit flags (level_bit l)"
proof -
  have "flags AND level_flag l = (flags AND (PREPARED OR ENABLED)) AND level_flag l"
    by (cases l) (simp_all add: and.assoc PREPARED_def ENABLED_def)
  also have "\<dots> = 0" using assms by simp
  finally show ?thesis using and_mask_zero_iff [of "level_bit l" flags] by (simp add: level_flag_bit)
qed

lemma info_of_update:
  assumes "i < length (clocks reg)" "map_option info y = map_option info (clocks reg ! i)"
  shows "info_of (reg\<lparr>clocks := (clocks reg)[i := y]\<rparr>) = info_of reg"
  using assms by (auto simp: info_of_def list_eq_iff_nth_eq nth_list_update)

lemma clk_get_info: "info_of (snd (clk_get name reg)) = info_of reg"
proof -
  have "map_option info (map_option (ck_ref_count_update f) x) = map_option info x" for f and x :: "'h ClkCore option"
    by (cases x) (simp_all add: info_def node_def critical_def)
  then have "i < length (clocks reg) \<Longrightarrow>
      info_of (reg\<lparr>clocks := (clocks reg)[i := map_option (ck_ref_count_update f) (clocks reg ! i)]\<rparr>) = info_of reg" for i f
    by (intro info_of_update)
  then show ?thesis unfolding clk_get_def Let_def by (simp del: find_from_hit find_from_miss)
qed

lemma clk_put_info: "info_of (clk_put cid reg) = info_of reg"
proof (cases "reg_get reg cid")
  case (Some c)
  then have "info_of (put_clk cid (c\<lparr>ck_ref_count := v\<rparr>) reg) = info_of reg" for v
    unfolding put_clk_def by (intro info_of_update) (simp_all add: reg_get_slot info_def node_def critical_def)
  then show ?thesis by (simp add: clk_put_def Some)
qed (simp add: clk_put_def)

lemma clk_inv_step:
  assumes "clk_inv s" "clk_step s s1"
  shows "clk_inv s1"
  using assms(2,1)
proof cases
  case (1 reg n name rate_hz)
  then show ?thesis using clk_register_inv [of reg n] assms(1) new_clock_facts by metis
next
  case (2 ops flags reg n name hw parent)
  then show ?thesis using clk_register_inv [of reg n] assms(1) new_clock_facts(5-8) no_level_bits by metis
next
  case (3 reg cid r reg1 n)
  from chain_up [of reg n cid Prepare] 3 assms(1) show ?thesis by (auto simp: clk_prepare_def)
next
  case (4 reg cid r reg1 n)
  from chain_up [of reg n cid Enable] 4 assms(1) show ?thesis
    by (cases "reg_get reg cid") (auto simp: clk_enable_def split: if_splits)
next
  case (5 n cid reg)
  from chain_down [of reg n Prepare cid] 5 assms(1) show ?thesis by (auto simp: clk_unprepare_def)
next
  case (6 n cid reg)
  from chain_down [of reg n Enable cid] 6 assms(1) show ?thesis by (auto simp: clk_disable_def)
next
  case (7 reg n name)
  then show ?thesis using inv_info [OF clk_get_info] assms(1) by simp
next
  case (8 reg n cid)
  then show ?thesis using inv_info [OF clk_put_info] assms(1) by simp
next
  case (9 cid rate_hz reg r reg1 n)
  have "tree_ok reg" using assms(1) 9 by (simp add: clk_inv_def)
  then show ?thesis using 9 assms(1) inv_info [OF info_of_but_rates] set_rate_Some by blast
qed

interpretation clocks: transition_system clk_init clk_step clk_inv
proof unfold_locales
  fix s :: "'h ClkRegistry \<times> outstanding"
  show "clk_init s \<Longrightarrow> clk_inv s" using clk_boot_inv by (cases s) (auto simp: clk_init_def)
qed (rule clk_inv_step)

section \<open>Properties\<close>

lemma flag_of: "ck_flags c AND PREPARED \<noteq> 0 \<longleftrightarrow> bit (ck_flags c) (level_bit Prepare)"
  "ck_flags c AND ENABLED \<noteq> 0 \<longleftrightarrow> bit (ck_flags c) (level_bit Enable)"
  using and_mask_zero_iff [of 4 "ck_flags c"] and_mask_zero_iff [of 5 "ck_flags c"] by (simp_all add: PREPARED_def ENABLED_def)

lemma uses_parent:
  assumes "tree_ok reg" "i < 512" "clocks reg ! i = Some c" "ck_parent c \<noteq> CLK_NO_PARENT"
  shows "uses reg n l i \<le> uses reg n l (unat (ck_parent c))"
  unfolding uses_def
proof (rule sum_mono2)
  show "users reg i \<subseteq> users reg (unat (ck_parent c))"
  proof
    fix k assume k: "k \<in> users reg i"
    then obtain d where d: "k < 512" "clocks reg ! k = Some d" "i \<in> set (ancestors reg k)" by (auto simp: users_def)
    then have "unat (ck_parent c) \<in> set (ancestors reg k)"
      using ancestors_facts [OF assms(1) d(1,2)] assms(3,4) by auto
    with d show "k \<in> users reg (unat (ck_parent c))" by (simp add: users_def)
  qed
qed simp_all

text \<open>
  C37 (invariant). Whatever the balanced calls, the prepare count of a clock is the number of outstanding prepares of
  its descendants and itself, and so is the enable count unless the clock is critical; the flags say whether the counts are
  zero; a prepared clock has a prepared parent, and an enabled clock that is not critical an enabled one.
\<close>

theorem clk_tree_counts:
  assumes "reachable clk_init clk_step (reg, n)" "i < 512" "clocks reg ! i = Some c"
  shows "unat (ck_prepare_count c) = uses reg n Prepare i \<and>
    (critical c \<or> unat (ck_enable_count c) = uses reg n Enable i) \<and>
    (ck_flags c AND PREPARED \<noteq> 0 \<longleftrightarrow> ck_prepare_count c \<noteq> 0) \<and> (ck_flags c AND ENABLED \<noteq> 0 \<longleftrightarrow> ck_enable_count c \<noteq> 0) \<and>
    (ck_parent c = CLK_NO_PARENT \<or> (\<exists>p. clocks reg ! unat (ck_parent c) = Some p \<and>
       (ck_flags c AND PREPARED \<noteq> 0 \<longrightarrow> ck_flags p AND PREPARED \<noteq> 0) \<and>
       (\<not> critical c \<and> ck_flags c AND ENABLED \<noteq> 0 \<longrightarrow> ck_flags p AND ENABLED \<noteq> 0)))"
proof -
  from clocks.reachable_inv [OF assms(1)] obtain f where t: "tree_ok reg" and f: "counted reg f" "\<And>l i. i < 512 \<Longrightarrow>
      clocks reg ! i \<noteq> None \<Longrightarrow> uses reg n l i \<le> f l i \<and> (kept l reg i \<or> f l i = uses reg n l i)"
    by (rule clk_invE) blast
  have slot: "unat (level_count l d) = f l j \<and> (bit (ck_flags d) (level_bit l) \<longleftrightarrow> f l j \<noteq> 0)"
    if "j < 512" "clocks reg ! j = Some d" for j d l
    using f(1) that tree_ok_length [OF t] unfolding counted_def by simp
  have kept: "kept Enable reg i \<longleftrightarrow> critical c" "\<not> kept Prepare reg i" using assms(3) by (simp_all add: kept_def)
  have eq: "f Prepare i = uses reg n Prepare i" "critical c \<or> f Enable i = uses reg n Enable i"
    using f(2) [OF assms(2)] assms(3) kept by auto
  have zero: "ck_prepare_count c \<noteq> 0 \<longleftrightarrow> f Prepare i \<noteq> 0" "ck_enable_count c \<noteq> 0 \<longleftrightarrow> f Enable i \<noteq> 0"
    using slot [OF assms(2,3), of Prepare] slot [OF assms(2,3), of Enable] by (auto simp: unat_eq_zero)
  have parent: "\<exists>p. clocks reg ! unat (ck_parent c) = Some p \<and>
      (f Prepare i \<noteq> 0 \<longrightarrow> bit (ck_flags p) (level_bit Prepare)) \<and> (\<not> critical c \<and> f Enable i \<noteq> 0 \<longrightarrow> bit (ck_flags p) (level_bit Enable))"
    if np: "ck_parent c \<noteq> CLK_NO_PARENT"
  proof -
    obtain p where p: "clocks reg ! unat (ck_parent c) = Some p" "unat (ck_parent c) < 512"
      using tree_ok_slot [OF t assms(2,3)] np assms(2) by (auto simp: in_tree_def)
    have "uses reg n l i \<le> f l (unat (ck_parent c))" for l
      using uses_parent [OF t assms(2,3) np, of n l] f(2) [OF p(2), of l] p(1) by auto
    then show ?thesis using eq p slot [OF p(2,1)] by (metis le_zero_eq)
  qed
  show ?thesis
    unfolding flag_of using slot [OF assms(2,3), of Prepare] slot [OF assms(2,3), of Enable] eq zero parent by auto
qed

text \<open>
  C38 (error). Enabling a critical clock and disabling it again leaves it enabled and stops the clock it runs from: the walk
  skips the critical clock but goes on to its parents.
\<close>

theorem critical_clock_orphaned:
  assumes "reachable clk_init clk_step (reg, n)" "reg_get reg cid = Some c" "critical c" "ck_prepare_count c \<noteq> 0"
    "no_overflow Enable reg" "ck_parent c \<noteq> CLK_NO_PARENT"
    "reg_get reg (ck_parent c) = Some p" "\<not> critical p" "ck_enable_count p = 0"
  shows "\<exists>reg1 reg2 c2 p2. clk_enable cid reg = (Ok (), reg1) \<and> clk_disable cid reg1 = (Ok (), reg2) \<and>
    reg_get reg2 cid = Some c2 \<and> ck_flags c2 AND ENABLED \<noteq> 0 \<and>
    reg_get reg2 (ck_parent c) = Some p2 \<and> ck_flags p2 AND ENABLED = 0"
proof -
  from clocks.reachable_inv [OF assms(1)] obtain f where t: "tree_ok reg" and f: "counted reg f" by (rule clk_invE) blast
  note l = tree_ok_length [OF t]
  let ?anc = "set (ancestors reg (unat cid))" and ?f = "raised Enable (set (ancestors reg (unat cid))) f"
  have k: "unat cid < 512" "clocks reg ! unat cid = Some c" and pk: "unat (ck_parent c) < 512" "clocks reg ! unat (ck_parent c) = Some p"
    using assms(2,7) l by (simp_all add: reg_get_slot)
  have anc: "unat cid \<in> ?anc" "unat (ck_parent c) \<in> ?anc"
    using ancestors_step [OF t k] ancestors_step [OF t pk] assms(6) by simp_all
  obtain chain reg1 where r1: "clk_chain cid reg = Ok chain" "levels_up Enable (rev chain) reg = (Ok (), reg1)"
    "tree_of reg1 = tree_of reg" "counted reg1 ?f"
    using raise_chain [OF t f _ assms(5)] assms(2) by blast
  note t1 = tree_ok_cong [OF r1(3) t] and l1 = tree_ok_length [OF tree_ok_cong [OF r1(3) t]]
  have anc1: "ancestors reg1 (unat cid) = ancestors reg (unat cid)" by (rule ancestors_cong [OF r1(3) t k])
  have "reg_get reg1 cid \<noteq> None" using tree_of_None [OF r1(3), of "unat cid"] k l l1 by (simp add: reg_get_def)
  moreover have "?f Enable j \<noteq> 0" if "j \<in> set (ancestors reg1 (unat cid))" for j using that anc1 by (simp add: raised_def)
  ultimately obtain chain1 where r2: "clk_chain cid reg1 = Ok chain1"
    "tree_of (fold (level_down Enable) chain1 reg1) = tree_of reg1"
    "counted (fold (level_down Enable) chain1 reg1) (lowered Enable {i \<in> ?anc. \<not> kept Enable reg1 i} ?f)"
    using lower_chain [OF t1 r1(4), of cid Enable] anc1 by auto
  define reg2 where "reg2 = fold (level_down Enable) chain1 reg1"
  have tr2: "tree_of reg2 = tree_of reg" using r1(3) r2(2) by (simp add: reg2_def)
  obtain c2 p2 where c2: "reg_get reg2 cid = Some c2" "reg_get reg2 (ck_parent c) = Some p2"
    using tree_of_None [OF tr2, of "unat cid"] tree_of_None [OF tr2, of "unat (ck_parent c)"] k pk l tree_of_length [OF tr2]
    by (cases "clocks reg2 ! unat cid"; cases "clocks reg2 ! unat (ck_parent c)") (auto simp: reg_get_def)
  have "kept Enable reg (unat cid)" "\<not> kept Enable reg (unat (ck_parent c))"
    using k pk assms(3,8) by (simp_all add: kept_def)
  then have "kept Enable reg1 (unat cid)" "\<not> kept Enable reg1 (unat (ck_parent c))"
    using kept_cong [OF r1(3), of "unat cid" Enable] kept_cong [OF r1(3), of "unat (ck_parent c)" Enable] k pk l by simp_all
  moreover have "f Enable (unat (ck_parent c)) = 0"
    using counted_slot [OF f assms(7), of Enable] assms(9) by simp
  ultimately have "bit (ck_flags c2) (level_bit Enable)" "\<not> bit (ck_flags p2) (level_bit Enable)"
    using counted_slot [OF r2(3) [folded reg2_def] c2(1), of Enable] counted_slot [OF r2(3) [folded reg2_def] c2(2), of Enable] anc
    by (simp_all add: lowered_def raised_def)
  then have "ck_flags c2 AND ENABLED \<noteq> 0" "ck_flags p2 AND ENABLED = 0" using flag_of(2) [of c2] flag_of(2) [of p2] by simp_all
  moreover have "clk_enable cid reg = (Ok (), reg1)" using r1(1,2) assms(2,4) by (simp add: clk_enable_def)
  moreover have "clk_disable cid reg1 = (Ok (), reg2)" using r2(1) by (simp add: clk_disable_def reg2_def)
  ultimately show ?thesis using c2 by blast
qed

text \<open>
  C39 (termination). A rate request on a registered clock returns, whatever the tree, unless the clock has a variable rate and no
  provider function to set it: then the code waits for its own lock. When it returns a rate, the clock has it, only
  rates have changed, only below the clock, and if no clock has more than 32 children and the other
  clocks had the rates their providers compute, they have them again.
\<close>

theorem clk_set_rate_returns:
  assumes "reachable clk_init clk_step (reg, n)" "reg_get reg cid = Some c"
  shows "(clk_set_rate cid rate_hz reg = None \<longleftrightarrow> ck_flags c AND FIXED_RATE = 0 \<and> co_set_rate (ck_ops c) = None) \<and>
    (\<forall>r reg1. clk_set_rate cid rate_hz reg = Some (r, reg1) \<longrightarrow> but_rates reg1 = but_rates reg \<and> (\<forall>v. r = Ok v \<longrightarrow>
       slot_rate reg1 (unat cid) = v \<and>
       (\<forall>j < 512. unat cid \<notin> set (ancestors reg j) \<longrightarrow> clocks reg1 ! j = clocks reg ! j) \<and>
       (narrow reg \<and> settled_but (unat cid) (reg\<lparr>hardware := hardware reg1\<rparr>) \<longrightarrow> settled_but (unat cid) reg1)))"
proof -
  have t: "tree_ok reg" using clocks.reachable_inv [OF assms(1)] by (simp add: clk_inv_def)
  show ?thesis using set_rate_None [OF t assms(2)] set_rate_Some [OF t] by blast
qed

text \<open>A fixed root, and below it a critical clock of variable rate whose provider has no function to set it.\<close>

definition example_clocks :: "unit ClkRegistry" where
  "example_clocks = snd (clk_register (clk_new [] 0 clk_ops_empty 0 IS_CRITICAL)
     (snd (clk_register (clk_fixed [] 1) (clk_registry_new ()))))"

lemma example_eq:
  "example_clocks = \<lparr>clocks = (replicate 512 None)[0 := Some (clk_fixed [] 1),
     1 := Some ((clk_new [] 0 clk_ops_empty 0 IS_CRITICAL)\<lparr>ck_depth := 1\<rparr>)], clk_count = 2, hardware = ()\<rparr>"
  by (simp add: example_clocks_def clk_register_def clk_registry_new_def clk_place_def clk_fixed_def clk_new_def
    MAX_CLOCKS_def CLK_NO_PARENT_def MAX_CLK_DEPTH_def clk_ops_empty_def Let_def nth_list_update)

lemma example_reachable: "reachable clk_init clk_step (example_clocks, \<lambda>l i. 0)"
proof -
  have "reachable clk_init clk_step (clk_registry_new (), \<lambda>l i. 0)" by (rule reach_init) (auto simp: clk_init_def)
  from reach_step [OF this clk_step.intros(1)]
  have "reachable clk_init clk_step (snd (clk_register (clk_fixed [] 1) (clk_registry_new ())), \<lambda>l i. 0)" .
  from reach_step [OF this clk_step.intros(2) [of clk_ops_empty IS_CRITICAL _ _ "[]" 0 0]]
  show ?thesis by (simp add: example_clocks_def reliable_def never_fails_def clk_ops_empty_def IS_CRITICAL_def PREPARED_def ENABLED_def)
qed

lemma example_slots:
  "reg_get example_clocks 0 = Some (clk_fixed [] 1)"
  "reg_get example_clocks 1 = Some ((clk_new [] 0 clk_ops_empty 0 IS_CRITICAL)\<lparr>ck_depth := 1\<rparr>)"
  "i < 512 \<Longrightarrow> i \<noteq> 0 \<Longrightarrow> i \<noteq> 1 \<Longrightarrow> clocks example_clocks ! i = None"
  "hardware example_clocks = ()" "length (clocks example_clocks) = 512"
  by (simp_all add: example_eq reg_get_def)

lemma example_tree: "tree_ok example_clocks"
  using clocks.reachable_inv [OF example_reachable] by (simp add: clk_inv_def)

lemma example_counted: "counted example_clocks (\<lambda>l i. 0)"
  unfolding counted_def
proof (intro allI impI)
  fix i c l
  assume i: "i < length (clocks example_clocks)" "clocks example_clocks ! i = Some c"
  then consider "c = clk_fixed [] 1" | "c = (clk_new [] 0 clk_ops_empty 0 IS_CRITICAL)\<lparr>ck_depth := 1\<rparr>"
    using example_slots(3) [of i] example_slots(1,2) by (cases "i = 0"; cases "i = 1") (auto simp: reg_get_def example_slots(5))
  then show "unat (level_count l c) = 0 \<and> (bit (ck_flags c) (level_bit l) \<longleftrightarrow> 0 \<noteq> (0 :: nat))"
    by cases (cases l; simp add: clk_fixed_def clk_new_def FIXED_RATE_def IS_CRITICAL_def)+
qed

lemma example_ancestors: "ancestors example_clocks 0 = [0]" "ancestors example_clocks 1 = [1, 0]"
proof -
  show z: "ancestors example_clocks 0 = [0]"
    using ancestors_step [OF example_tree, of 0 "clk_fixed [] 1"] example_slots(1) by (simp add: reg_get_slot clk_fixed_def)
  show "ancestors example_clocks 1 = [1, 0]"
    using ancestors_step [OF example_tree, of 1 "(clk_new [] 0 clk_ops_empty 0 IS_CRITICAL)\<lparr>ck_depth := 1\<rparr>"] example_slots(2) z
    by (simp add: reg_get_slot clk_new_def CLK_NO_PARENT_def)
qed

text \<open>After the critical clock has been prepared.\<close>

lemma example_prepared:
  obtains reg :: "unit ClkRegistry" and c p where "reachable clk_init clk_step (reg, taken Prepare 1 (\<lambda>l i. 0))" "reg_get reg 1 = Some c" "reg_get reg 0 = Some p"
    "critical c" "\<not> critical p" "ck_parent c = 0" "ck_prepare_count c = 1" "ck_enable_count c = 0" "ck_enable_count p = 0"
    "no_overflow Enable reg"
proof -
  have no: "no_overflow l example_clocks" for l
  proof (unfold no_overflow_def, intro allI impI)
    fix c assume "Some c \<in> set (clocks example_clocks)"
    then obtain i where "i < length (clocks example_clocks)" "clocks example_clocks ! i = Some c" by (metis in_set_conv_nth)
    then have "unat (level_count l c) = 0" using example_counted unfolding counted_def by blast
    then show "level_count l c \<noteq> - 1" by (auto simp: max32)
  qed
  have one: "reg_get example_clocks 1 \<noteq> None" by (simp add: example_slots(2))
  from raise_chain [OF example_tree example_counted one no, of Prepare]
  obtain reg where p: "clk_prepare 1 example_clocks = (Ok (), reg)" and tr: "tree_of reg = tree_of example_clocks"
    and f: "counted reg (raised Prepare (set (ancestors example_clocks 1)) (\<lambda>l i. 0))"
    by (auto simp: clk_prepare_def)
  have r: "reachable clk_init clk_step (reg, taken Prepare 1 (\<lambda>l i. 0))"
    using reach_step [OF example_reachable clk_step.intros(3) [OF one no p]] by simp
  have len: "length (clocks reg) = 512" using tree_of_length [OF tr] example_slots(5) by simp
  obtain c0 c where c: "reg_get reg 0 = Some c0" "reg_get reg 1 = Some c" "node c0 = node (clk_fixed [] 1 :: unit ClkCore)"
    "node c = node ((clk_new [] 0 clk_ops_empty 0 IS_CRITICAL :: unit ClkCore)\<lparr>ck_depth := 1\<rparr>)"
    using tree_of_slot [OF tr, of 0] tree_of_slot [OF tr, of 1] example_slots(1,2,5) len by (auto simp: reg_get_def)
  have cnt: "unat (level_count l d) \<le> 1 \<and> (l = Enable \<longrightarrow> unat (level_count l d) = 0)" if "Some d \<in> set (clocks reg)" for l d
  proof -
    obtain i where "i < length (clocks reg)" "clocks reg ! i = Some d" using \<open>Some d \<in> _\<close> by (metis in_set_conv_nth)
    then have "unat (level_count l d) = raised Prepare (set (ancestors example_clocks 1)) (\<lambda>l i. 0) l i"
      using f unfolding counted_def by blast
    then show ?thesis by (auto simp: raised_def)
  qed
  then have "no_overflow Enable reg" by (force simp: no_overflow_def max32)
  moreover have "ck_prepare_count c = 1" "ck_enable_count c = 0" "ck_enable_count c0 = 0"
    using counted_slot [OF f c(2), of Prepare] counted_slot [OF f c(2), of Enable] counted_slot [OF f c(1), of Enable]
    by (simp_all add: raised_def example_ancestors [simplified] word_unat_eq_iff)
  moreover have "critical c" "\<not> critical c0" "ck_parent c = 0"
    using c(3,4) by (simp_all add: node_def critical_def clk_fixed_def clk_new_def FIXED_RATE_def IS_CRITICAL_def)
  ultimately show ?thesis using that r c(1,2) by blast
qed

theorem clk_tree_counts_witness:
  "\<exists>(reg :: unit ClkRegistry) n c p. clocks reg ! 1 = Some c \<and> ck_flags c AND PREPARED \<noteq> 0 \<and> uses reg n Prepare 1 = 1 \<and>
     clocks reg ! 0 = Some p \<and> ck_flags p AND PREPARED \<noteq> 0"
proof (rule example_prepared)
  fix reg c p
  assume r: "reachable clk_init clk_step (reg :: unit ClkRegistry, taken Prepare 1 (\<lambda>l i. 0))" "reg_get reg 1 = Some c" "reg_get reg 0 = Some p"
    "ck_parent c = 0" "ck_prepare_count c = 1"
  then have s: "clocks reg ! 1 = Some c" "clocks reg ! 0 = Some p" by (simp_all add: reg_get_slot)
  then have "uses reg (taken Prepare 1 (\<lambda>l i. 0)) Prepare 1 = 1 \<and> ck_flags c AND PREPARED \<noteq> 0 \<and> ck_flags p AND PREPARED \<noteq> 0"
    using clk_tree_counts [OF r(1), of 1 c] r(4,5) by (auto simp: CLK_NO_PARENT_def)
  with s show ?thesis by blast
qed

theorem critical_clock_orphaned_witness:
  "\<exists>(reg :: unit ClkRegistry) reg1 reg2 c2 p2. clk_enable 1 reg = (Ok (), reg1) \<and> clk_disable 1 reg1 = (Ok (), reg2) \<and>
     reg_get reg2 1 = Some c2 \<and> ck_flags c2 AND ENABLED \<noteq> 0 \<and> reg_get reg2 0 = Some p2 \<and> ck_flags p2 AND ENABLED = 0"
proof (rule example_prepared)
  fix reg c p
  assume r: "reachable clk_init clk_step (reg :: unit ClkRegistry, taken Prepare 1 (\<lambda>l i. 0))" "reg_get reg 1 = Some c" "reg_get reg 0 = Some p"
    "critical c" "\<not> critical p" "ck_parent c = 0" "ck_prepare_count c = 1" "ck_enable_count p = 0" "no_overflow Enable reg"
  with critical_clock_orphaned [OF r(1,2,4) _ r(9), of p] show ?thesis by (simp add: CLK_NO_PARENT_def) blast
qed

theorem clk_set_rate_returns_witness:
  "clk_set_rate 1 5 example_clocks = None \<and> clk_set_rate 0 5 example_clocks \<noteq> None"
proof -
  have "clk_set_rate 1 5 example_clocks = None"
    using clk_set_rate_returns [OF example_reachable example_slots(2), of 5]
    by (simp add: clk_new_def IS_CRITICAL_def FIXED_RATE_def clk_ops_empty_def)
  moreover have "clk_set_rate 0 5 example_clocks \<noteq> None"
    using clk_set_rate_returns [OF example_reachable example_slots(1), of 5] by (simp add: clk_fixed_def FIXED_RATE_def)
  ultimately show ?thesis by simp
qed

section \<open>A clock with a cycle\<close>

text \<open>The root of the example is unregistered and a new clock registered below its old child.\<close>

lemma unregister_makes_cycle:
  "let reg = snd (clk_register (clk_new [] 0 clk_ops_empty 1 0) (snd (clk_unregister 0 example_clocks)))
   in clk_propagate_rate False 0 v reg = None"
proof -
  let ?c = "(clk_new [] 0 clk_ops_empty 1 0 :: unit ClkCore)\<lparr>ck_depth := 2\<rparr>" and ?d = "(clk_new [] 0 clk_ops_empty 0 IS_CRITICAL :: unit ClkCore)\<lparr>ck_depth := 1\<rparr>"
  let ?reg = "snd (clk_register (clk_new [] 0 clk_ops_empty 1 0) (snd (clk_unregister 0 example_clocks)))"
  have eq: "?reg = \<lparr>clocks = (replicate 512 None)[0 := Some ?c, 1 := Some ?d], clk_count = 2, hardware = ()\<rparr>"
    by (simp add: example_eq clk_unregister_def clk_register_def clk_place_def clk_fixed_def clk_new_def
      MAX_CLOCKS_def CLK_NO_PARENT_def MAX_CLK_DEPTH_def clk_ops_empty_def Let_def nth_list_update list_update_swap [of 0])
  have slots: "reg_get ?reg 0 = Some ?c" "reg_get ?reg 1 = Some ?d" unfolding eq by (simp_all add: reg_get_def)
  have len: "length (clocks ?reg) = 512" unfolding eq by simp
  have two: "i \<in> {0, 1}" if "clocks ?reg ! i = Some e" "i < 512" for i e
    using that unfolding eq by (auto simp: nth_list_update split: if_splits)
  have "set (all_children p ?reg) \<subseteq> {0, 1}" for p
  proof
    fix i assume "i \<in> set (all_children p ?reg)"
    then show "i \<in> {0, 1}" unfolding all_children_iff len using two by blast
  qed
  then have card: "card (set (all_children p ?reg)) \<le> card {0, 1 :: nat}" for p by (intro card_mono) simp_all
  have "length (all_children p ?reg) \<le> 32" for p
  proof -
    have "distinct (all_children p ?reg)" by (simp add: all_children_def)
    from distinct_card [OF this] card [of p] show ?thesis by simp
  qed
  then have "narrow ?reg" by (simp add: narrow_def)
  from cycle_diverges [OF this slots] show ?thesis by (simp add: clk_new_def)
qed

end
