(* ===== verification/ClkProvider.thy ===== *)
theory ClkProvider
  imports ClkTree
begin

text \<open>
  The standard kinds of clocks, \<open>kernel/src/drivers/clk/provider.rs\<close> over \<open>mmio.rs\<close>: fixed rate, fixed factor, gate,
  divider and multiplexer. Their descriptor tables and the registers are the hardware state of the framework; a
  register holds what was last written to it. A shift is by its amount modulo the width, as in the release build.
\<close>

section \<open>Descriptors\<close>

record FixedFactorHw =
  ff_mult :: u32
  ff_div :: u32

record GateHw =
  gt_reg :: u64
  gt_bit :: u8
  gt_inverted :: bool

datatype DividerType = Linear | PowerOfTwo | Table

record DividerHw =
  dv_reg :: u64
  dv_shift :: u8
  dv_width :: u8
  dv_type :: DividerType
  dv_table :: "(u8 \<times> u32) list"
  dv_table_len :: usize

record MuxHw =
  mx_reg :: u64
  mx_shift :: u8
  mx_width :: u8
  mx_parents :: "ClkId list"
  mx_parent_cnt :: usize

record ClkHw =
  FF_HW_TABLE :: "FixedFactorHw list"
  FF_COUNT :: usize
  GATE_HW_TABLE :: "GateHw list"
  GATE_COUNT :: usize
  DIV_HW_TABLE :: "DividerHw list"
  DIV_COUNT :: usize
  MUX_HW_TABLE :: "MuxHw list"
  MUX_COUNT :: usize
  registers :: "u64 \<Rightarrow> u32"

definition MAX_FF_CLOCKS :: usize where "MAX_FF_CLOCKS = 32"
definition MAX_GATE_CLOCKS :: usize where "MAX_GATE_CLOCKS = 64"
definition MAX_DIV_CLOCKS :: usize where "MAX_DIV_CLOCKS = 64"
definition MAX_MUX_CLOCKS :: usize where "MAX_MUX_CLOCKS = 32"
definition MAX_DIV_TABLE :: usize where "MAX_DIV_TABLE = 32"
definition MAX_MUX_PARENTS :: usize where "MAX_MUX_PARENTS = 8"

definition clk_hw_boot :: "(u64 \<Rightarrow> u32) \<Rightarrow> ClkHw" where
  "clk_hw_boot regs =
     \<lparr>FF_HW_TABLE = replicate MAX_FF_CLOCKS \<lparr>ff_mult = 1, ff_div = 1\<rparr>, FF_COUNT = 0,
      GATE_HW_TABLE = replicate MAX_GATE_CLOCKS \<lparr>gt_reg = 0, gt_bit = 0, gt_inverted = False\<rparr>, GATE_COUNT = 0,
      DIV_HW_TABLE = replicate MAX_DIV_CLOCKS \<lparr>dv_reg = 0, dv_shift = 0, dv_width = 0, dv_type = Linear,
        dv_table = replicate MAX_DIV_TABLE (0, 0), dv_table_len = 0\<rparr>, DIV_COUNT = 0,
      MUX_HW_TABLE = replicate MAX_MUX_CLOCKS \<lparr>mx_reg = 0, mx_shift = 0, mx_width = 0,
        mx_parents = replicate MAX_MUX_PARENTS CLK_NO_PARENT, mx_parent_cnt = 0\<rparr>, MUX_COUNT = 0,
      registers = regs\<rparr>"

section \<open>Registers\<close>

definition read_reg :: "u64 \<Rightarrow> ClkHw \<Rightarrow> u32" where
  "read_reg addr h = registers h addr"

definition write_reg :: "u64 \<Rightarrow> u32 \<Rightarrow> ClkHw \<Rightarrow> ClkHw" where
  "write_reg addr val h = h\<lparr>registers := (registers h)(addr := val)\<rparr>"

definition rmw_reg :: "u64 \<Rightarrow> u32 \<Rightarrow> u32 \<Rightarrow> ClkHw \<Rightarrow> ClkHw" where
  "rmw_reg addr msk val h =
     (let cur = read_reg addr h in write_reg addr ((cur AND NOT msk) OR (val AND msk)) h)"

definition set_bits :: "u64 \<Rightarrow> u32 \<Rightarrow> ClkHw \<Rightarrow> ClkHw" where
  "set_bits addr bits h = (let cur = read_reg addr h in write_reg addr (cur OR bits) h)"

definition clear_bits :: "u64 \<Rightarrow> u32 \<Rightarrow> ClkHw \<Rightarrow> ClkHw" where
  "clear_bits addr bits h = (let cur = read_reg addr h in write_reg addr (cur AND NOT bits) h)"

definition shl32 :: "u32 \<Rightarrow> u8 \<Rightarrow> u32" where
  "shl32 w n = push_bit (unat n mod 32) w"

definition shr32 :: "u32 \<Rightarrow> u8 \<Rightarrow> u32" where
  "shr32 w n = drop_bit (unat n mod 32) w"

section \<open>Fixed rate and fixed factor\<close>

definition clk_register_fixed_rate :: "u8 list \<Rightarrow> u64 \<Rightarrow> ClkHw ClkRegistry \<Rightarrow> ClkId cresult \<times> ClkHw ClkRegistry" where
  "clk_register_fixed_rate name rate_hz reg = clk_register (clk_fixed name rate_hz) reg"

definition fixed_factor_get_rate :: "ClkHw \<Rightarrow> u64 \<Rightarrow> u64 \<Rightarrow> u64" where
  "fixed_factor_get_rate h hw p_rate =
     (let ff = FF_HW_TABLE h ! unat hw
      in if ff_div ff = 0 then 0 else p_rate * ucast (ff_mult ff) div ucast (ff_div ff))"

definition fixed_factor_recalc :: "ClkHw \<Rightarrow> u64 \<Rightarrow> u64 \<Rightarrow> u64" where
  "fixed_factor_recalc h hw p_rate = fixed_factor_get_rate h hw p_rate"

definition fixed_factor_ops :: "ClkHw ClkOps" where
  "fixed_factor_ops = clk_ops_empty\<lparr>co_get_rate := Some fixed_factor_get_rate, co_recalc_rate := Some fixed_factor_recalc,
     co_round_rate := Some (\<lambda>h hw _ parent. fixed_factor_get_rate h hw parent)\<rparr>"

definition clk_register_fixed_factor ::
  "u8 list \<Rightarrow> ClkId \<Rightarrow> u32 \<Rightarrow> u32 \<Rightarrow> ClkHw ClkRegistry \<Rightarrow> ClkId cresult \<times> ClkHw ClkRegistry" where
  "clk_register_fixed_factor name parent mult dv reg =
     (if dv = 0 then (Err ClkRateOutOfRange, reg)
      else let h = hardware reg; idx = FF_COUNT h; h1 = h\<lparr>FF_COUNT := uadd idx 1\<rparr>
      in if idx \<ge> MAX_FF_CLOCKS then (Err ClkRegistryFull, reg\<lparr>hardware := h1\<rparr>)
         else let h2 = h1\<lparr>FF_HW_TABLE := (FF_HW_TABLE h1)[idx := \<lparr>ff_mult = mult, ff_div = dv\<rparr>]\<rparr>
              in clk_register (clk_new name (of_nat idx) fixed_factor_ops parent 0) (reg\<lparr>hardware := h2\<rparr>))"

section \<open>Gates\<close>

definition gate_enable :: "ClkHw \<Rightarrow> u64 \<Rightarrow> unit cresult \<times> ClkHw" where
  "gate_enable h hw =
     (let g = GATE_HW_TABLE h ! unat hw; msk = shl32 1 (gt_bit g); val = (if gt_inverted g then 0 else msk)
      in (Ok (), rmw_reg (gt_reg g) msk val h))"

definition gate_disable :: "ClkHw \<Rightarrow> u64 \<Rightarrow> ClkHw" where
  "gate_disable h hw =
     (let g = GATE_HW_TABLE h ! unat hw; msk = shl32 1 (gt_bit g); val = (if gt_inverted g then msk else 0)
      in rmw_reg (gt_reg g) msk val h)"

definition gate_ops :: "ClkHw ClkOps" where
  "gate_ops = clk_ops_empty\<lparr>co_enable := Some gate_enable, co_disable := Some gate_disable\<rparr>"

definition IS_GATABLE :: u32 where "IS_GATABLE = 0x02"

definition clk_register_gate ::
  "u8 list \<Rightarrow> ClkId \<Rightarrow> u64 \<Rightarrow> u8 \<Rightarrow> bool \<Rightarrow> ClkHw ClkRegistry \<Rightarrow> ClkId cresult \<times> ClkHw ClkRegistry" where
  "clk_register_gate name parent reg_addr bt inverted reg =
     (let h = hardware reg; idx = GATE_COUNT h; h1 = h\<lparr>GATE_COUNT := uadd idx 1\<rparr>
      in if idx \<ge> MAX_GATE_CLOCKS then (Err ClkRegistryFull, reg\<lparr>hardware := h1\<rparr>)
         else let h2 = h1\<lparr>GATE_HW_TABLE := (GATE_HW_TABLE h1)[idx := \<lparr>gt_reg = reg_addr, gt_bit = bt, gt_inverted = inverted\<rparr>]\<rparr>
              in clk_register (clk_new name (of_nat idx) gate_ops parent IS_GATABLE) (reg\<lparr>hardware := h2\<rparr>))"

section \<open>Dividers\<close>

definition divider_get_div :: "ClkHw \<Rightarrow> usize \<Rightarrow> u32" where
  "divider_get_div h idx =
     (let hw = DIV_HW_TABLE h ! idx; msk = shl32 1 (dv_width hw) - 1; raw = read_reg (dv_reg hw) h;
          val = shr32 raw (dv_shift hw) AND msk
      in case dv_type hw of
           Linear \<Rightarrow> val + 1
         | PowerOfTwo \<Rightarrow> push_bit (unat val mod 32) 1
         | Table \<Rightarrow> (case find (\<lambda>(v, d). ucast v = val) (take (dv_table_len hw) (dv_table hw)) of
                      Some (v, d) \<Rightarrow> d | None \<Rightarrow> 1))"

definition divider_recalc :: "ClkHw \<Rightarrow> u64 \<Rightarrow> u64 \<Rightarrow> u64" where
  "divider_recalc h hw p_rate =
     (let dv = divider_get_div h (unat hw) in if dv = 0 then 0 else p_rate div ucast dv)"

definition divider_best :: "DividerHw \<Rightarrow> u64 \<Rightarrow> u64 \<Rightarrow> u64" where
  "divider_best d rate p_rate =
     min (max (p_rate div rate) 1) (push_bit (unat (dv_width d) mod 64) 1)"

definition divider_round_rate :: "ClkHw \<Rightarrow> u64 \<Rightarrow> u64 \<Rightarrow> u64 \<Rightarrow> u64" where
  "divider_round_rate h hw rate p_rate =
     (let d = DIV_HW_TABLE h ! unat hw
      in if p_rate = 0 \<or> rate = 0 then 0 else p_rate div divider_best d rate p_rate)"

definition divider_set_rate :: "ClkHw \<Rightarrow> u64 \<Rightarrow> u64 \<Rightarrow> u64 \<Rightarrow> u64 cresult \<times> ClkHw" where
  "divider_set_rate h hw rate p_rate =
     (let d = DIV_HW_TABLE h ! unat hw
      in if p_rate = 0 \<or> rate = 0 then (Err ClkRateOutOfRange, h)
         else let dv = ucast (divider_best d rate p_rate) :: u32;
                  msk = shl32 (shl32 1 (dv_width d) - 1) (dv_shift d);
                  val_bits = (case dv_type d of
                      Linear \<Rightarrow> shl32 (dv - 1) (dv_shift d)
                    | PowerOfTwo \<Rightarrow> shl32 (of_nat (trailing_zeros dv)) (dv_shift d)
                    | Table \<Rightarrow> shl32 (case find (\<lambda>(v, x). x = dv) (take (dv_table_len d) (dv_table d)) of
                                       Some (v, x) \<Rightarrow> ucast v | None \<Rightarrow> 0) (dv_shift d));
                  h1 = rmw_reg (dv_reg d) msk val_bits h
              in if dv = 0 then (Panic, h1) else (Ok (p_rate div ucast dv), h1))"

definition divider_ops :: "ClkHw ClkOps" where
  "divider_ops = clk_ops_empty\<lparr>co_recalc_rate := Some divider_recalc, co_round_rate := Some divider_round_rate,
     co_set_rate := Some divider_set_rate\<rparr>"

definition clk_register_divider ::
  "u8 list \<Rightarrow> ClkId \<Rightarrow> u64 \<Rightarrow> u8 \<Rightarrow> u8 \<Rightarrow> DividerType \<Rightarrow> ClkHw ClkRegistry \<Rightarrow> ClkId cresult \<times> ClkHw ClkRegistry" where
  "clk_register_divider name parent reg_addr shift width div_type reg =
     (let h = hardware reg; idx = DIV_COUNT h; h1 = h\<lparr>DIV_COUNT := uadd idx 1\<rparr>
      in if idx \<ge> MAX_DIV_CLOCKS then (Err ClkRegistryFull, reg\<lparr>hardware := h1\<rparr>)
         else let h2 = h1\<lparr>DIV_HW_TABLE := (DIV_HW_TABLE h1)[idx := \<lparr>dv_reg = reg_addr, dv_shift = shift, dv_width = width,
                dv_type = div_type, dv_table = replicate MAX_DIV_TABLE (0, 0), dv_table_len = 0\<rparr>]\<rparr>
              in clk_register (clk_new name (of_nat idx) divider_ops parent 0) (reg\<lparr>hardware := h2\<rparr>))"

section \<open>Multiplexers\<close>

text \<open>Reading the current parent takes the lock of the table: nothing is returned to a caller that holds it.\<close>

definition mux_get_parent :: "bool \<Rightarrow> ClkHw \<Rightarrow> u64 \<Rightarrow> u32 option" where
  "mux_get_parent locked h hw =
     (if locked then None
      else let m = MUX_HW_TABLE h ! unat hw; msk = shl32 1 (mx_width m) - 1; raw = read_reg (mx_reg m) h
           in Some (shr32 raw (mx_shift m) AND msk))"

definition mux_set_parent :: "ClkHw \<Rightarrow> u64 \<Rightarrow> u32 \<Rightarrow> unit cresult \<times> ClkHw" where
  "mux_set_parent h hw index =
     (let m = MUX_HW_TABLE h ! unat hw
      in if unat index \<ge> mx_parent_cnt m then (Err ClkNoParent, h)
         else let msk = shl32 (shl32 1 (mx_width m) - 1) (mx_shift m); val = shl32 index (mx_shift m)
              in (Ok (), rmw_reg (mx_reg m) msk val h))"

definition mux_ops :: "ClkHw ClkOps" where
  "mux_ops = clk_ops_empty\<lparr>co_get_parent := Some (\<lambda>h hw. the (mux_get_parent False h hw)), co_set_parent := Some mux_set_parent\<rparr>"

definition clk_register_mux ::
  "u8 list \<Rightarrow> u64 \<Rightarrow> u8 \<Rightarrow> u8 \<Rightarrow> ClkId list \<Rightarrow> ClkHw ClkRegistry \<Rightarrow> (ClkId cresult \<times> ClkHw ClkRegistry) option" where
  "clk_register_mux name reg_addr shift width parents reg =
     (if parents = [] \<or> length parents > MAX_MUX_PARENTS then Some (Err ClkNoParent, reg)
      else let h = hardware reg; idx = MUX_COUNT h; h1 = h\<lparr>MUX_COUNT := uadd idx 1\<rparr>
      in if idx \<ge> MAX_MUX_CLOCKS then Some (Err ClkRegistryFull, reg\<lparr>hardware := h1\<rparr>)
         else let h2 = h1\<lparr>MUX_HW_TABLE := (MUX_HW_TABLE h1)[idx := \<lparr>mx_reg = reg_addr, mx_shift = shift, mx_width = width,
                mx_parents = parents @ replicate (MAX_MUX_PARENTS - length parents) CLK_NO_PARENT,
                mx_parent_cnt = length parents\<rparr>]\<rparr>
         in case mux_get_parent True h2 (of_nat idx) of
              None \<Rightarrow> None
            | Some cur_idx \<Rightarrow>
                let init_parent = (if unat cur_idx < length parents then parents ! unat cur_idx else parents ! 0)
                in Some (clk_register (clk_new name (of_nat idx) mux_ops init_parent 0) (reg\<lparr>hardware := h2\<rparr>)))"

section \<open>Gates switch one bit\<close>

lemma read_write_reg [simp]: "read_reg a (write_reg b v h) = (if a = b then v else read_reg a h)"
  by (simp add: read_reg_def write_reg_def)

lemma bit_shl32_1: "bit (shl32 1 n) j \<longleftrightarrow> j = unat n mod 32"
proof -
  have "unat n mod 32 < 32" by simp
  then show ?thesis by (auto simp: shl32_def bit_exp_iff)
qed

lemma rmw_bit:
  "bit (read_reg a (rmw_reg b msk v h)) j \<longleftrightarrow> (if a = b \<and> bit msk j then bit v j else bit (read_reg a h) j)"
  by (auto simp: rmw_reg_def Let_def bit_or_iff bit_and_iff bit_not_iff dest: bit_imp_le_length)

lemma gate_switch:
  assumes "g = GATE_HW_TABLE h ! unat hw"
  shows "bit (read_reg a (snd (gate_enable h hw))) j \<longleftrightarrow>
      (if a = gt_reg g \<and> j = unat (gt_bit g) mod 32 then \<not> gt_inverted g else bit (read_reg a h) j)"
    "bit (read_reg a (gate_disable h hw)) j \<longleftrightarrow>
      (if a = gt_reg g \<and> j = unat (gt_bit g) mod 32 then gt_inverted g else bit (read_reg a h) j)"
  by (simp_all add: gate_enable_def gate_disable_def Let_def rmw_bit bit_shl32_1 flip: assms)

lemma provider_ops_reliable: "reliable fixed_factor_ops" "reliable gate_ops" "reliable divider_ops" "reliable mux_ops"
  by (simp_all add: reliable_def never_fails_def fixed_factor_ops_def gate_ops_def divider_ops_def mux_ops_def clk_ops_empty_def
    gate_enable_def Let_def)

text \<open>A multiplexer is never registered: the call waits for the lock it holds.\<close>

lemma mux_registration_deadlocks:
  "parents \<noteq> [] \<Longrightarrow> length parents \<le> 8 \<Longrightarrow> MUX_COUNT (hardware reg) < 32 \<Longrightarrow>
   clk_register_mux name reg_addr shift width parents reg = None"
  by (simp add: clk_register_mux_def mux_get_parent_def MAX_MUX_PARENTS_def MAX_MUX_CLOCKS_def Let_def)

section \<open>Dividers and the rates they report\<close>

lemma shl32_mask: "unat w < 32 \<Longrightarrow> shl32 1 w - 1 = mask (unat w)"
  by (simp add: shl32_def mask_eq_exp_minus_1)

lemma bit_less_exp: "unat (x :: u32) < 2 ^ k \<Longrightarrow> bit x n \<Longrightarrow> n < k"
proof (rule ccontr)
  assume x: "unat x < 2 ^ k" "bit x n" "\<not> n < k"
  have "bit (unat x) n" using x(2) by (simp add: bit_unsigned_iff)
  then have "odd (unat x div 2 ^ n)" unfolding bit_iff_odd .
  moreover have "(2 :: nat) ^ k \<le> 2 ^ n" using x(3) by (intro power_increasing) auto
  then have "unat x < 2 ^ n" using x(1) by linarith
  then have "unat x div 2 ^ n = 0" by simp
  ultimately show False by (metis even_zero)
qed

lemma field_read:
  assumes "unat w < 32" "unat s < 32" "unat w + unat s \<le> 32" "unat x < 2 ^ unat w"
  shows "shr32 (read_reg a (rmw_reg a (shl32 (shl32 1 w - 1) s) (shl32 x s) h)) s AND (shl32 1 w - 1) = x"
proof (rule bit_word_eqI)
  fix n assume n: "n < LENGTH(32)"
  have "bit (shr32 (read_reg a (rmw_reg a (shl32 (shl32 1 w - 1) s) (shl32 x s) h)) s AND (shl32 1 w - 1)) n \<longleftrightarrow>
      n < unat w \<and> bit x n"
    using assms(1-3) n by (auto simp: shl32_mask bit_and_iff bit_mask_iff shr32_def bit_drop_bit_eq rmw_bit shl32_def [of _ s] bit_push_bit_iff)
  then show "bit (shr32 (read_reg a (rmw_reg a (shl32 (shl32 1 w - 1) s) (shl32 x s) h)) s AND (shl32 1 w - 1)) n \<longleftrightarrow> bit x n"
    using bit_less_exp [OF assms(4)] by blast
qed

lemma unat_ucast_64: "unat (ucast (w :: u32) :: u64) = unat w"
  using unat_u32_less [of w] by (simp add: unsigned_ucast_eq take_bit_nat_eq_self)

definition divisor :: "DividerHw \<Rightarrow> u64 \<Rightarrow> u64 \<Rightarrow> nat" where
  "divisor d rate p_rate = min (max (unat p_rate div unat rate) 1) (2 ^ unat (dv_width d))"

lemma divider_best_nat:
  assumes "unat (dv_width d) < 32"
  shows "unat (divider_best d rate p) = divisor d rate p" "unat (ucast (divider_best d rate p) :: u32) = divisor d rate p"
    "0 < divisor d rate p" "divisor d rate p \<le> 2 ^ unat (dv_width d)"
proof -
  have "(2 :: nat) ^ unat (dv_width d) \<le> 2 ^ 31" using assms by (intro power_increasing) auto
  then have le: "divisor d rate p \<le> 2 ^ 31" by (simp add: divisor_def)
  have "(2 :: nat) ^ unat (dv_width d) < usize_mod" using \<open>2 ^ unat (dv_width d) \<le> 2 ^ 31\<close> by simp
  from unat_of_nat_64 [OF this] have "unat (push_bit (unat (dv_width d) mod 64) 1 :: u64) = 2 ^ unat (dv_width d)"
    using assms by simp
  then show b: "unat (divider_best d rate p) = divisor d rate p"
    by (simp add: divider_best_def divisor_def min_def max_def word_le_nat_alt unat_div)
  then show "unat (ucast (divider_best d rate p) :: u32) = divisor d rate p"
    using le by (simp add: unsigned_ucast_eq take_bit_nat_eq_self)
  show "0 < divisor d rate p" "divisor d rate p \<le> 2 ^ unat (dv_width d)" by (auto simp: divisor_def)
qed


lemma rmw_tables: "DIV_HW_TABLE (rmw_reg a m v h) = DIV_HW_TABLE h"
  by (simp add: rmw_reg_def write_reg_def Let_def)

lemma trailing_zeros_small:
  assumes "0 < q" "q \<le> 2 ^ w" "w < 32"
  shows "trailing_zeros (of_nat q :: u32) < 32" "trailing_zeros (of_nat q :: u32) < 2 ^ w"
proof -
  have "(2 :: nat) ^ w \<le> 2 ^ 31" using assms(3) by (intro power_increasing) auto
  then have u: "unat (of_nat q :: u32) = q" using assms(2) by (intro of_nat32) simp
  then have nz: "(of_nat q :: u32) \<noteq> 0" using assms(1) by (metis unat_0 less_not_refl)
  show "trailing_zeros (of_nat q :: u32) < 32" using trailing_zeros_less [OF nz] by simp
  have "q < 2 ^ Suc w" by (rule le_less_trans [OF assms(2)]) simp
  then have "trailing_zeros (of_nat q :: u32) < Suc w"
    using bit_less_exp [of "of_nat q" "Suc w"] trailing_zeros_bit [OF nz] u by simp
  then have "trailing_zeros (of_nat q :: u32) \<le> w" by simp
  also have "w < 2 ^ w" by (rule less_exp)
  finally show "trailing_zeros (of_nat q :: u32) < 2 ^ w" .
qed

text \<open>
  C40 (functional). A divider reports the parent's rate divided by the clamped quotient. A linear one then runs at that
  rate; one by powers of two divides by the largest power of two that divides the quotient, so an odd quotient
  leaves the parent's rate undivided; and one by a table, which no code fills, always runs at the parent's rate.
\<close>

theorem divider_rates:
  assumes "d = DIV_HW_TABLE h ! unat hw" "unat (dv_width d) < 32" "unat (dv_shift d) < 32"
    "unat (dv_width d) + unat (dv_shift d) \<le> 32" "dv_table_len d = 0" "rate \<noteq> 0" "p_rate \<noteq> 0"
  shows "\<exists>r h1. divider_set_rate h hw rate p_rate = (Ok r, h1) \<and> unat r = unat p_rate div divisor d rate p_rate \<and>
    unat (divider_recalc h1 hw p_rate) =
      (case dv_type d of Linear \<Rightarrow> unat p_rate div divisor d rate p_rate
       | PowerOfTwo \<Rightarrow> unat p_rate div 2 ^ trailing_zeros (of_nat (divisor d rate p_rate) :: u32)
       | Table \<Rightarrow> unat p_rate)"
proof -
  note best = divider_best_nat [OF assms(2), of rate p_rate]
  define q where "q = divisor d rate p_rate"
  have q: "0 < q" "q \<le> 2 ^ unat (dv_width d)" using best(3,4) by (simp_all add: q_def)
  define dv where "dv = (ucast (divider_best d rate p_rate) :: u32)"
  have u: "unat dv = q" using best(2) by (simp add: dv_def q_def)
  then have dv: "unat dv = q" "dv = of_nat q" unfolding u [symmetric] by simp_all
  have dv0: "dv \<noteq> 0" using dv(1) q(1) by auto
  define x where "x = (case dv_type d of Linear \<Rightarrow> dv - 1 | PowerOfTwo \<Rightarrow> of_nat (trailing_zeros dv) | Table \<Rightarrow> (0 :: u32))"
  note tz = trailing_zeros_small [OF q assms(2), folded dv(2)]
  have m1: "unat (dv - 1) = q - 1" using unat_minus_one [OF dv0] dv(1) by simp
  have tzu: "unat (of_nat (trailing_zeros dv) :: u32) = trailing_zeros dv" using tz(1) by (intro of_nat32) simp
  have x: "unat x < 2 ^ unat (dv_width d)" using q tz m1 tzu by (auto simp: x_def split: DividerType.split)
  define h1 where "h1 = rmw_reg (dv_reg d) (shl32 (shl32 1 (dv_width d) - 1) (dv_shift d)) (shl32 x (dv_shift d)) h"
  have "(case dv_type d of Linear \<Rightarrow> shl32 (dv - 1) (dv_shift d) | PowerOfTwo \<Rightarrow> shl32 (of_nat (trailing_zeros dv)) (dv_shift d)
      | Table \<Rightarrow> shl32 0 (dv_shift d)) = shl32 x (dv_shift d)" by (cases "dv_type d") (simp_all add: x_def)
  then have set: "divider_set_rate h hw rate p_rate = (Ok (p_rate div ucast dv), h1)"
    using assms(5-7) dv0 by (simp add: divider_set_rate_def Let_def h1_def flip: assms(1) dv_def cong: DividerType.case_cong)
  have r: "unat (p_rate div ucast dv) = unat p_rate div q" by (simp add: unat_div unat_ucast_64 dv(1))
  have d1: "DIV_HW_TABLE h1 ! unat hw = d" by (simp add: h1_def rmw_tables assms(1))
  have val: "shr32 (read_reg (dv_reg d) h1) (dv_shift d) AND (shl32 1 (dv_width d) - 1) = x"
    unfolding h1_def by (rule field_read [OF assms(2,3,4) x])
  have "unat (divider_recalc h1 hw p_rate) =
      (case dv_type d of Linear \<Rightarrow> unat p_rate div q | PowerOfTwo \<Rightarrow> unat p_rate div 2 ^ trailing_zeros dv | Table \<Rightarrow> unat p_rate)"
  proof (cases "dv_type d")
    case Linear
    then have "divider_get_div h1 (unat hw) = dv" by (simp add: divider_get_div_def d1 val Let_def) (simp add: x_def)
    then show ?thesis using Linear dv0 r by (simp add: divider_recalc_def Let_def)
  next
    case PowerOfTwo
    then have "divider_get_div h1 (unat hw) = push_bit (trailing_zeros dv) 1"
      using tz(1) by (simp add: divider_get_div_def d1 val Let_def) (simp add: x_def tzu)
    moreover have p2: "unat (push_bit (trailing_zeros dv) 1 :: u32) = 2 ^ trailing_zeros dv"
    proof -
      have "(2 :: nat) ^ trailing_zeros dv < 2 ^ 32" using tz(1) by (intro power_strict_increasing) auto
      from of_nat32 [OF this] show ?thesis by simp
    qed
    moreover have "(push_bit (trailing_zeros dv) 1 :: u32) \<noteq> 0" using p2 by (metis unat_0 power_not_zero zero_neq_numeral)
    ultimately show ?thesis using PowerOfTwo by (simp add: divider_recalc_def Let_def unat_div unat_ucast_64)
  next
    case Table
    then have "divider_get_div h1 (unat hw) = 1" using assms(5) by (simp add: divider_get_div_def d1 Let_def)
    then show ?thesis using Table by (simp add: divider_recalc_def Let_def)
  qed
  with set r show ?thesis unfolding q_def [symmetric] dv(2) [symmetric] by blast
qed

theorem divider_rates_witness:
  "\<exists>h r h1. divider_set_rate h 0 400 1200 = (Ok r, h1) \<and> unat r = 400 \<and> unat (divider_recalc h1 0 1200) = 1200"
proof -
  let ?d = "\<lparr>dv_reg = 0, dv_shift = 0, dv_width = 4, dv_type = PowerOfTwo, dv_table = [], dv_table_len = 0\<rparr>"
  let ?h = "(clk_hw_boot (\<lambda>a. 0))\<lparr>DIV_HW_TABLE := [?d]\<rparr>"
  have q: "divisor ?d 400 1200 = 3" by (simp add: divisor_def)
  have "trailing_zeros (3 :: u32) = 0"
    by (rule trailing_zeros_eqI) (simp_all add: bit_iff_odd)
  with divider_rates [of ?d ?h 0 400 1200] q show ?thesis by fastforce
qed

end
