(* ===== verification/ClkOf.thy ===== *)
theory ClkOf
  imports ClkTree
begin

text \<open>
  Clocks in the device tree, \<open>kernel/src/drivers/clk/of.rs\<close>: the table of providers, the clocks property and the
  assigned defaults. A resolver is a function of its cells; a rate request may not return.
\<close>

definition MAX_OF_PROVIDERS :: usize where
  "MAX_OF_PROVIDERS = 16"

type_synonym ClkResolver = "u32 list \<Rightarrow> ClkId option"

record OfClkProvider =
  op_phandle :: u32
  op_resolver :: ClkResolver

record ProviderTable =
  pt_entries :: "OfClkProvider option list"
  pt_count :: usize

definition provider_table_new :: ProviderTable where
  "provider_table_new = \<lparr>pt_entries = replicate MAX_OF_PROVIDERS None, pt_count = 0\<rparr>"

definition of_clk_add_provider :: "u32 \<Rightarrow> ClkResolver \<Rightarrow> ProviderTable \<Rightarrow> unit cresult \<times> ProviderTable" where
  "of_clk_add_provider phandle resolver tbl =
     (if pt_count tbl \<ge> MAX_OF_PROVIDERS then (Err ClkRegistryFull, tbl)
      else if None \<in> set (pt_entries tbl) then
        (Ok (), tbl\<lparr>pt_entries := update_first (\<lambda>s. s = None) (\<lambda>_. Some \<lparr>op_phandle = phandle, op_resolver = resolver\<rparr>)
           (pt_entries tbl), pt_count := pt_count tbl + 1\<rparr>)
      else (Err ClkRegistryFull, tbl))"

definition has_phandle :: "u32 \<Rightarrow> OfClkProvider option \<Rightarrow> bool" where
  "has_phandle phandle slot \<longleftrightarrow> (case slot of Some p \<Rightarrow> op_phandle p = phandle | None \<Rightarrow> False)"

definition of_clk_del_provider :: "u32 \<Rightarrow> ProviderTable \<Rightarrow> ProviderTable" where
  "of_clk_del_provider phandle tbl =
     (if \<exists>s \<in> set (pt_entries tbl). has_phandle phandle s
      then tbl\<lparr>pt_entries := update_first (has_phandle phandle) (\<lambda>_. None) (pt_entries tbl), pt_count := usub (pt_count tbl) 1\<rparr>
      else tbl)"

definition of_clk_get :: "u32 \<Rightarrow> u32 list \<Rightarrow> ProviderTable \<Rightarrow> ClkId option" where
  "of_clk_get phandle args tbl =
     (case find (has_phandle phandle) (pt_entries tbl) of Some (Some p) \<Rightarrow> op_resolver p args | _ \<Rightarrow> None)"

definition of_clk_get_by_index :: "u32 \<Rightarrow> u32 \<Rightarrow> ProviderTable \<Rightarrow> ClkId option" where
  "of_clk_get_by_index phandle index tbl = of_clk_get phandle [index] tbl"

definition of_clk_get_by_name ::
  "u8 list \<Rightarrow> u8 list list \<Rightarrow> (u32 \<times> u32 list) list \<Rightarrow> ProviderTable \<Rightarrow> ClkId option" where
  "of_clk_get_by_name name clock_names clocks_phandles tbl =
     (let idx = find_from (\<lambda>i. clock_names ! i = name) 0 (length clock_names)
      in if idx < length clock_names \<and> idx < length clocks_phandles
         then of_clk_get (fst (clocks_phandles ! idx)) (snd (clocks_phandles ! idx)) tbl else None)"

record AssignedClkEntry =
  ac_phandle :: u32
  ac_args :: "u32 list"
  ac_arg_len :: usize

definition reparent_clock :: "ClkId \<Rightarrow> ClkId \<Rightarrow> 'h ClkRegistry \<Rightarrow> unit cresult \<times> 'h ClkRegistry" where
  "reparent_clock cid new_parent reg =
     (case reg_get reg cid of
        Some clk \<Rightarrow> (Ok (), put_clk cid (clk\<lparr>ck_parent := new_parent\<rparr>) reg)
      | None \<Rightarrow> (Err ClkNotFound, reg))"

definition nth_opt :: "'a list \<Rightarrow> nat \<Rightarrow> 'a option" where
  "nth_opt xs i = (if i < length xs then Some (xs ! i) else None)"

fun of_clk_set_defaults_from ::
  "nat \<Rightarrow> AssignedClkEntry list \<Rightarrow> u64 list \<Rightarrow> (u32 \<times> u32 list) list \<Rightarrow> ProviderTable \<Rightarrow> 'h ClkRegistry \<Rightarrow>
   (unit cresult \<times> 'h ClkRegistry) option" where
  "of_clk_set_defaults_from i [] rates parent_phandles tbl reg = Some (Ok (), reg)"
| "of_clk_set_defaults_from i (entry # entries) rates parent_phandles tbl reg =
     (if ac_arg_len entry > length (ac_args entry) then Some (Panic, reg)
      else case of_clk_get (ac_phandle entry) (take (ac_arg_len entry) (ac_args entry)) tbl of
        None \<Rightarrow> Some (Err ClkNotFound, reg)
      | Some cid \<Rightarrow>
          (case (case nth_opt rates i of
                   Some rate \<Rightarrow> (if rate > 0 then clk_set_rate cid rate reg else Some (Ok 0, reg))
                 | None \<Rightarrow> Some (Ok 0, reg)) of
             None \<Rightarrow> None
           | Some (Err e, reg1) \<Rightarrow> Some (Err e, reg1)
           | Some (Panic, reg1) \<Rightarrow> Some (Panic, reg1)
           | Some (Ok _, reg1) \<Rightarrow>
               (let reg2 = (case nth_opt parent_phandles i of
                      Some (pp_phandle, pp_args) \<Rightarrow>
                        (if pp_phandle \<noteq> 0 then
                           (case of_clk_get pp_phandle pp_args tbl of
                              Some parent_id \<Rightarrow> snd (reparent_clock cid parent_id reg1)
                            | None \<Rightarrow> reg1)
                         else reg1)
                    | None \<Rightarrow> reg1)
                in of_clk_set_defaults_from (Suc i) entries rates parent_phandles tbl reg2)))"

definition of_clk_set_defaults ::
  "AssignedClkEntry list \<Rightarrow> u64 list \<Rightarrow> (u32 \<times> u32 list) list \<Rightarrow> ProviderTable \<Rightarrow> 'h ClkRegistry \<Rightarrow>
   (unit cresult \<times> 'h ClkRegistry) option" where
  "of_clk_set_defaults = of_clk_set_defaults_from 0"

text \<open>The entries written to an output of \<open>n\<close> places.\<close>

definition cells_of :: "(u32 \<times> usize) list \<Rightarrow> u32 \<Rightarrow> usize" where
  "cells_of cells_per_clock phandle = (case find (\<lambda>(ph, c). ph = phandle) cells_per_clock of Some (ph, c) \<Rightarrow> c | None \<Rightarrow> 0)"

fun parse_clocks_prop :: "nat \<Rightarrow> u32 list \<Rightarrow> (u32 \<times> usize) list \<Rightarrow> AssignedClkEntry list" where
  "parse_clocks_prop 0 cells cells_per_clock = []"
| "parse_clocks_prop (Suc n) [] cells_per_clock = []"
| "parse_clocks_prop (Suc n) (phandle # cells) cells_per_clock =
     (let arg_len = min (cells_of cells_per_clock phandle) 8; args = take arg_len cells
      in \<lparr>ac_phandle = phandle, ac_args = args @ replicate (8 - length args) 0, ac_arg_len = arg_len\<rparr> #
         parse_clocks_prop n (drop arg_len cells) cells_per_clock)"

section \<open>The table of providers\<close>

definition table_ok :: "ProviderTable \<Rightarrow> bool" where
  "table_ok tbl \<longleftrightarrow> length (pt_entries tbl) = 16 \<and> pt_count tbl = length (filter (\<lambda>s. s \<noteq> None) (pt_entries tbl))"

lemma find_update_first_other:
  "(\<And>x. P x \<Longrightarrow> \<not> Q x \<and> \<not> Q (f x)) \<Longrightarrow> find Q (update_first P f xs) = find Q xs"
  by (induction xs) auto

lemma add_provider_get:
  assumes "of_clk_add_provider phandle resolver tbl = (Ok (), tbl1)"
  shows "ph \<noteq> phandle \<Longrightarrow> of_clk_get ph args tbl1 = of_clk_get ph args tbl"
    "\<forall>s \<in> set (pt_entries tbl). \<not> has_phandle phandle s \<Longrightarrow> of_clk_get phandle args tbl1 = resolver args"
proof -
  let ?new = "Some \<lparr>op_phandle = phandle, op_resolver = resolver\<rparr>"
  have t: "None \<in> set (pt_entries tbl)" "pt_entries tbl1 = update_first (\<lambda>s. s = None) (\<lambda>_. ?new) (pt_entries tbl)"
    using assms by (auto simp: of_clk_add_provider_def split: if_splits)
  show "of_clk_get ph args tbl1 = of_clk_get ph args tbl" if "ph \<noteq> phandle"
  proof -
    have "find (has_phandle ph) (pt_entries tbl1) = find (has_phandle ph) (pt_entries tbl)"
      unfolding t(2) using that by (intro find_update_first_other) (auto simp: has_phandle_def)
    then show ?thesis by (simp add: of_clk_get_def)
  qed
  have new: "find (has_phandle phandle) (update_first (\<lambda>s. s = None) (\<lambda>_. ?new) xs) = Some ?new"
    if "None \<in> set xs" "\<forall>s \<in> set xs. \<not> has_phandle phandle s" for xs
    using that by (induction xs) (auto simp: has_phandle_def)
  show "of_clk_get phandle args tbl1 = resolver args" if "\<forall>s \<in> set (pt_entries tbl). \<not> has_phandle phandle s"
    using new [OF t(1) that] by (simp add: of_clk_get_def t(2))
qed

lemma update_first_filter:
  assumes "\<exists>x \<in> set xs. P x"
  shows "\<exists>x. P x \<and> length (filter Q (update_first P f xs)) + of_bool (Q x) = length (filter Q xs) + of_bool (Q (f x))"
proof -
  obtain x where x: "find P xs = Some x" using assms by (cases "find P xs") (auto simp: find_None_iff)
  then have "P x" using find_split by fastforce
  with length_filter_update_first [OF x] show ?thesis by blast
qed

lemma table_ok_steps:
  assumes "table_ok tbl"
  shows "table_ok (snd (of_clk_add_provider phandle resolver tbl))" "table_ok (of_clk_del_provider phandle tbl)"
proof -
  let ?new = "Some \<lparr>op_phandle = phandle, op_resolver = resolver\<rparr>"
  show "table_ok (snd (of_clk_add_provider phandle resolver tbl))"
  proof (cases "pt_count tbl < 16 \<and> None \<in> set (pt_entries tbl)")
    case True
    then have "\<exists>x \<in> set (pt_entries tbl). x = None" by simp
    from update_first_filter [OF this, of "\<lambda>s. s \<noteq> None" "\<lambda>_. ?new"]
    have "length (filter (\<lambda>s. s \<noteq> None) (update_first (\<lambda>s. s = None) (\<lambda>_. ?new) (pt_entries tbl))) =
        length (filter (\<lambda>s. s \<noteq> None) (pt_entries tbl)) + 1" by simp
    then show ?thesis using True assms by (simp add: of_clk_add_provider_def table_ok_def MAX_OF_PROVIDERS_def)
  next
    case False
    then show ?thesis using assms by (auto simp: of_clk_add_provider_def MAX_OF_PROVIDERS_def)
  qed
  show "table_ok (of_clk_del_provider phandle tbl)"
  proof (cases "\<exists>s \<in> set (pt_entries tbl). has_phandle phandle s")
    case True
    then obtain x where x: "has_phandle phandle x"
      "length (filter (\<lambda>s. s \<noteq> None) (update_first (has_phandle phandle) (\<lambda>_. None) (pt_entries tbl))) + of_bool (x \<noteq> None) =
       length (filter (\<lambda>s. s \<noteq> None) (pt_entries tbl)) + of_bool ((None :: OfClkProvider option) \<noteq> None)"
      using update_first_filter [of "pt_entries tbl" "has_phandle phandle" "\<lambda>s. s \<noteq> None" "\<lambda>_. None"] by blast
    from x(1) have "x \<noteq> None" by (cases x) (simp_all add: has_phandle_def)
    moreover have "pt_count tbl \<le> 16"
      using assms length_filter_le [of "\<lambda>s. s \<noteq> None" "pt_entries tbl"] by (simp add: table_ok_def)
    ultimately show ?thesis using x(2) True assms by (simp add: of_clk_del_provider_def table_ok_def)
  next
    case False
    then show ?thesis using assms by (simp add: of_clk_del_provider_def)
  qed
qed

section \<open>The clocks property\<close>

text \<open>A property whose specifiers have the announced number of cells, at most eight, is read back; what does not fit is cut.\<close>

lemma parse_clocks_roundtrip:
  assumes "\<forall>(ph, args) \<in> set specs. length args = cells_of cpc ph \<and> length args \<le> 8"
  shows "parse_clocks_prop n (concat (map (\<lambda>(ph, args). ph # args) specs)) cpc =
    map (\<lambda>(ph, args). \<lparr>ac_phandle = ph, ac_args = args @ replicate (8 - length args) 0, ac_arg_len = length args\<rparr>) (take n specs)"
  using assms
proof (induction specs arbitrary: n)
  case Nil
  then show ?case by (cases n) simp_all
next
  case (Cons s specs)
  obtain ph args where s: "s = (ph, args)" by (cases s)
  then have "min (cells_of cpc ph) 8 = length args" using Cons.prems by simp
  then show ?case using Cons by (cases n) (simp_all add: s Let_def)
qed

text \<open>A specifier of nine cells: the last one is taken for the phandle of a further clock.\<close>

lemma parse_clocks_ninth:
  assumes "length args = 9" "cells_of cpc ph = 9"
  shows "parse_clocks_prop (Suc n) (ph # args) cpc =
    \<lparr>ac_phandle = ph, ac_args = take 8 args, ac_arg_len = 8\<rparr> # parse_clocks_prop n [args ! 8] cpc"
proof -
  have "drop 8 args = [args ! 8]" using assms(1) by (intro nth_equalityI) (auto simp: less_Suc_eq)
  then show ?thesis using assms by (simp add: Let_def)
qed

section \<open>Reparenting\<close>

text \<open>
  Reparenting moves no counts and checks no tree: an enabled clock can get a stopped parent, and a clock can become its
  own parent, after which a rate request does not end.
\<close>

lemma reparent_enabled_clock:
  assumes "reg_get reg cid = Some c" "ck_flags c AND ENABLED \<noteq> 0" "reg_get reg p = Some d" "ck_flags d AND ENABLED = 0" "p \<noteq> cid"
  shows "\<exists>reg1 c1. reparent_clock cid p reg = (Ok (), reg1) \<and> reg_get reg1 cid = Some c1 \<and> ck_flags c1 AND ENABLED \<noteq> 0 \<and>
    ck_parent c1 = p \<and> reg_get reg1 p = Some d"
proof -
  let ?c = "c\<lparr>ck_parent := p\<rparr>"
  have "reparent_clock cid p reg = (Ok (), put_clk cid ?c reg)" by (simp add: reparent_clock_def assms(1))
  moreover have "reg_get (put_clk cid ?c reg) cid = Some ?c" using assms(1) by (simp add: put_clk_def reg_get_slot)
  moreover have "reg_get (put_clk cid ?c reg) p = Some d"
  proof -
    have "unat p \<noteq> unat cid" using assms(5) by (simp add: word_unat_eq_iff)
    then show ?thesis using assms(3) by (simp add: put_clk_def reg_get_slot)
  qed
  ultimately show ?thesis using assms(2) by auto
qed

lemma reparent_to_itself:
  assumes "reg_get reg cid = Some c" "narrow (snd (reparent_clock cid cid reg))"
  shows "clk_propagate_rate False cid v (snd (reparent_clock cid cid reg)) = None"
proof -
  have "reg_get (snd (reparent_clock cid cid reg)) cid = Some (c\<lparr>ck_parent := cid\<rparr>)"
  proof -
    have "snd (reparent_clock cid cid reg) = put_clk cid (c\<lparr>ck_parent := cid\<rparr>) reg" by (simp add: reparent_clock_def assms(1))
    then show ?thesis using assms(1) by (simp add: put_clk_def reg_get_slot)
  qed
  from cycle_diverges [OF assms(2) this this] show ?thesis by simp
qed

end
